(* ===== verification/Skibidi_Prelude.thy ===== *)
theory Skibidi_Prelude
  imports Main "HOL-Library.Word" "HOL-Library.Char_ord" "HOL-Library.List_Lexorder"
    "HOL-Library.Product_Lexorder" "HOL-Library.Multiset"
begin

unbundle bit_operations_syntax

text \<open>
  Shared vocabulary of the SkibidiQL development.

  \<^item> \<open>byte\<close>, \<open>u16\<close>, \<open>u32\<close>, \<open>u64\<close>: the fixed-width integers of the C++ sources.
  \<^item> \<open>error\<close>: the exceptions the sources throw, as values; \<open>'a result\<close> is a
    computation that may throw, \<open>rbind\<close> its sequencing (an exception skips the rest).
  \<^item> \<open>byte_run\<close> and \<open>copy_in\<close>: reading and overwriting a run of bytes inside a buffer,
    which is what \<open>memcpy\<close> from and into the page arrays does.
  \<^item> \<open>le_encode\<close> and \<open>le_decode\<close>: the object representation of unsigned integers on a
    little-endian machine (\<open>appendPod\<close>, \<open>readPod\<close>, \<open>writePod\<close>, \<open>read16\<close>, \<dots>).
  \<^item> the collections \<open>slice_simps\<close> and \<open>codec_simps\<close> carry the component proofs.
\<close>

type_synonym byte = "8 word"
type_synonym u16 = "16 word"
type_synonym u32 = "32 word"
type_synonym u64 = "64 word"

named_theorems slice_simps \<open>reading back a buffer after a write\<close>
named_theorems codec_simps \<open>lengths and round trips of byte encodings\<close>

section \<open>Exceptions as values\<close>

text \<open>
  \<open>Runtime_Error\<close> is \<open>std::runtime_error\<close> with its message; \<open>Out_Of_Range\<close> is
  \<open>std::out_of_range\<close>, which \<open>std::stoll\<close>, \<open>std::stoull\<close> and \<open>std::stod\<close> throw;
  \<open>Undefined_Behaviour\<close> marks an operation the C++ standard leaves undefined.
\<close>

datatype error =
    Runtime_Error string
  | Out_Of_Range string
  | Undefined_Behaviour

type_synonym 'a result = "error + 'a"

definition rbind :: "'e + 'a \<Rightarrow> ('a \<Rightarrow> 'e + 'b) \<Rightarrow> 'e + 'b" where
  "rbind m f = (case m of Inl e \<Rightarrow> Inl e | Inr x \<Rightarrow> f x)"

lemma rbind_simps [simp]:
  "rbind (Inl e) f = Inl e"
  "rbind (Inr x) f = f x"
  by (simp_all add: rbind_def)

lemma rbind_eq_Inr_iff: "rbind m f = Inr y \<longleftrightarrow> (\<exists>x. m = Inr x \<and> f x = Inr y)"
  by (cases m) auto

lemma rbind_eq_Inl_iff:
  "rbind m f = Inl e \<longleftrightarrow> m = Inl e \<or> (\<exists>x. m = Inr x \<and> f x = Inl e)"
  by (cases m) auto

lemma rbind_cong [fundef_cong]:
  "m = m' \<Longrightarrow> (\<And>x. m' = Inr x \<Longrightarrow> f x = f' x) \<Longrightarrow> rbind m f = rbind m' f'"
  by (cases m') auto

section \<open>Runs of bytes inside a buffer\<close>

definition byte_run :: "nat \<Rightarrow> nat \<Rightarrow> 'a list \<Rightarrow> 'a list" where
  "byte_run off n xs = take n (drop off xs)"

definition copy_in :: "nat \<Rightarrow> 'a list \<Rightarrow> 'a list \<Rightarrow> 'a list" where
  "copy_in off ys xs = take off xs @ ys @ drop (off + length ys) xs"

lemma length_slice [simp]: "length (byte_run off n xs) = min n (length xs - off)"
  by (simp add: byte_run_def)

lemma length_splice [simp]:
  "off + length ys \<le> length xs \<Longrightarrow> length (copy_in off ys xs) = length xs"
  by (simp add: copy_in_def)

lemma slice_0 [simp]: "byte_run off 0 xs = []"
  by (simp add: byte_run_def)

lemma splice_Nil [simp]: "copy_in off [] xs = xs"
  by (simp add: copy_in_def)

lemma slice_nth: "i < n \<Longrightarrow> off + i < length xs \<Longrightarrow> byte_run off n xs ! i = xs ! (off + i)"
  by (simp add: byte_run_def)

lemma splice_nth:
  assumes "off + length ys \<le> length xs" and "i < length xs"
  shows "copy_in off ys xs ! i = (if off \<le> i \<and> i < off + length ys then ys ! (i - off) else xs ! i)"
  using assms by (auto simp: copy_in_def nth_append min_def)

lemma slice_splice_same [slice_simps]:
  assumes "off + length ys \<le> length xs" and "n = length ys"
  shows "byte_run off n (copy_in off ys xs) = ys"
  using assms by (intro nth_equalityI) (auto simp: slice_nth splice_nth)

lemma slice_splice_before [slice_simps]:
  assumes "off + length ys \<le> length xs" and "o2 + n \<le> off"
  shows "byte_run o2 n (copy_in off ys xs) = byte_run o2 n xs"
  using assms by (intro nth_equalityI) (auto simp: slice_nth splice_nth)

lemma slice_splice_after [slice_simps]:
  assumes "off + length ys \<le> length xs" and "off + length ys \<le> o2"
  shows "byte_run o2 n (copy_in off ys xs) = byte_run o2 n xs"
  using assms by (intro nth_equalityI) (auto simp: slice_nth splice_nth)

lemma slice_splice_prefix:
  assumes "off + length ys \<le> length xs" and "n \<le> length ys"
  shows "byte_run off n (copy_in off ys xs) = take n ys"
  using assms by (intro nth_equalityI) (auto simp: slice_nth splice_nth)

section \<open>Little-endian integers\<close>

fun le_encode :: "nat \<Rightarrow> nat \<Rightarrow> byte list" where
  "le_encode 0 n = []"
| "le_encode (Suc k) n = word_of_nat n # le_encode k (n div 256)"

fun le_decode :: "byte list \<Rightarrow> nat" where
  "le_decode [] = 0"
| "le_decode (b # bs) = unat b + 256 * le_decode bs"

lemma unat_byte_less: "unat (b :: byte) < 256"
  using unsigned_less [of b, where ?'a = nat] by simp

lemma length_le_encode [simp]: "length (le_encode k n) = k"
  by (induction k n rule: le_encode.induct) auto

lemma le_decode_less: "le_decode bs < 256 ^ length bs"
proof (induction bs)
  case (Cons b bs)
  have "unat b < 256" by (rule unat_byte_less)
  with Cons show ?case by simp
qed simp

lemma le_decode_encode: "le_decode (le_encode k n) = n mod 256 ^ k"
proof (induction k n rule: le_encode.induct)
  case (2 k n)
  have "n mod (256 * 256 ^ k) = n mod 256 + 256 * (n div 256 mod 256 ^ k)"
    by (simp add: mod_mult2_eq)
  with 2 show ?case by (simp add: unat_of_nat)
qed simp

lemma le_decode_encode_id [codec_simps]: "n < 256 ^ k \<Longrightarrow> le_decode (le_encode k n) = n"
  by (simp add: le_decode_encode)

lemma le_encode_decode: "le_encode (length bs) (le_decode bs) = bs"
proof (induction bs)
  case (Cons b bs)
  have lt: "unat b < 256" by (rule unat_byte_less)
  have "word_of_nat (unat b + 256 * le_decode bs) = b"
  proof -
    have "(unat b + 256 * le_decode bs) mod 256 = unat b" using lt by simp
    then have "unat (word_of_nat (unat b + 256 * le_decode bs) :: byte) = unat b"
      by (simp add: unat_of_nat del: of_nat_add of_nat_mult)
    then show ?thesis by (simp only: unsigned_word_eqI)
  qed
  with Cons lt show ?case by (simp del: of_nat_add of_nat_mult)
qed simp

lemma le_encode_inj:
  "n < 256 ^ k \<Longrightarrow> m < 256 ^ k \<Longrightarrow> le_encode k n = le_encode k m \<Longrightarrow> n = m"
  by (metis le_decode_encode_id)

section \<open>Text as bytes\<close>

definition bytes_of_string :: "string \<Rightarrow> byte list" where
  "bytes_of_string s = map (\<lambda>c. word_of_nat (of_char c)) s"

definition string_of_bytes :: "byte list \<Rightarrow> string" where
  "string_of_bytes bs = map (\<lambda>b. char_of (unat b)) bs"

lemma length_bytes_of_string [simp]: "length (bytes_of_string s) = length s"
  by (simp add: bytes_of_string_def)

lemma string_of_bytes_of_string [codec_simps]: "string_of_bytes (bytes_of_string s) = s"
proof -
  have "char_of (unat (word_of_nat (of_char c) :: byte)) = c" for c :: char
  proof -
    have "(of_char c :: nat) < 256" by (rule nat_of_char_less_256)
    then have "unat (word_of_nat (of_char c) :: byte) = of_char c" by (simp add: unat_of_nat)
    then show ?thesis by simp
  qed
  then show ?thesis by (simp add: string_of_bytes_def bytes_of_string_def comp_def)
qed

section \<open>Lists\<close>

lemma sorted_wrt_filter_map:
  "sorted_wrt R (map f xs) \<Longrightarrow> sorted_wrt R (map f (filter P xs))"
  by (induction xs) auto

lemma map_of_append_None: "map_of xs k = None \<Longrightarrow> map_of (xs @ ys) k = map_of ys k"
  by (induction xs) (auto split: if_splits)

section \<open>Ordered maps\<close>

text \<open>
  \<open>std::map\<close> as an association list in key order: \<open>omap_update k f\<close> replaces the value under
  \<open>k\<close> by \<open>f\<close> of what was there (\<open>operator[]\<close> and \<open>emplace\<close> are instances).
\<close>

fun omap_update :: "'k::linorder \<Rightarrow> ('v option \<Rightarrow> 'v) \<Rightarrow> ('k \<times> 'v) list \<Rightarrow> ('k \<times> 'v) list" where
  "omap_update k f [] = [(k, f None)]"
| "omap_update k f ((k', v) # xs) =
     (if k < k' then (k, f None) # (k', v) # xs
      else if k = k' then (k, f (Some v)) # xs
      else (k', v) # omap_update k f xs)"

definition omap_ok :: "('k::linorder \<times> 'v) list \<Rightarrow> bool" where
  "omap_ok xs \<longleftrightarrow> sorted_wrt (<) (map fst xs)"

lemma omap_ok_simps [simp]:
  "omap_ok []"
  "omap_ok ((k, v) # xs) \<longleftrightarrow> (\<forall>k'\<in>fst ` set xs. k < k') \<and> omap_ok xs"
  by (auto simp: omap_ok_def)

lemma fst_omap_update: "fst ` set (omap_update k f xs) = insert k (fst ` set xs)"
  by (induction k f xs rule: omap_update.induct) auto

lemma omap_update_ok [simp]: "omap_ok xs \<Longrightarrow> omap_ok (omap_update k f xs)"
  by (induction k f xs rule: omap_update.induct) (auto simp: fst_omap_update)

lemma map_of_omap_update:
  "omap_ok xs \<Longrightarrow> map_of (omap_update k f xs) = (map_of xs)(k \<mapsto> f (map_of xs k))"
proof (induction k f xs rule: omap_update.induct)
  case (2 k f k' v xs)
  show ?case
  proof (cases "k < k'")
    case True
    then have "k \<notin> fst ` set xs" using 2(2) by auto
    then have "map_of xs k = None" by (simp add: map_of_eq_None_iff)
    then show ?thesis using True by (auto simp: fun_eq_iff)
  next
    case False
    then show ?thesis using 2 by (auto simp: fun_eq_iff)
  qed
qed auto

lemma omap_distinct: "omap_ok xs \<Longrightarrow> distinct (map fst xs)"
  by (auto simp: omap_ok_def strict_sorted_iff)

end
