(* ===== verification/Std_Double.thy ===== *)
theory Std_Double
  imports Skibidi_Prelude
begin

text \<open>
  The C++ \<open>double\<close> as far as the storage layer uses it: an IEEE 754 binary64 value is its
  64-bit object representation (what \<open>appendPod\<close> stores), comparisons are those of the
  standard on the encoded values, and \<open>static_cast<double>(std::int64_t)\<close> rounds to
  nearest, ties to even.

  For two values that are not NaN the numeric order is the order of the sign-magnitude
  integers \<open>dkey\<close>: exponent and fraction together are read as one integer, negative when
  the sign bit is set, so \<open>+0.0\<close> and \<open>-0.0\<close> share the key 0.
\<close>

type_synonym double = u64

definition dmag :: "double \<Rightarrow> int" where
  "dmag d = uint d mod 2 ^ 63"

definition dneg :: "double \<Rightarrow> bool" where
  "dneg d \<longleftrightarrow> 2 ^ 63 \<le> uint d"

definition dkey :: "double \<Rightarrow> int" where
  "dkey d = (if dneg d then - dmag d else dmag d)"

definition is_nan :: "double \<Rightarrow> bool" where
  "is_nan d \<longleftrightarrow> 2047 * 2 ^ 52 < dmag d"

definition double_lt :: "double \<Rightarrow> double \<Rightarrow> bool" where
  "double_lt a b \<longleftrightarrow> \<not> is_nan a \<and> \<not> is_nan b \<and> dkey a < dkey b"

definition double_eq :: "double \<Rightarrow> double \<Rightarrow> bool" where
  "double_eq a b \<longleftrightarrow> \<not> is_nan a \<and> \<not> is_nan b \<and> dkey a = dkey b"

section \<open>Conversion from and to 64-bit integers\<close>

fun ilog2 :: "nat \<Rightarrow> nat" where
  "ilog2 n = (if n \<le> 1 then 0 else Suc (ilog2 (n div 2)))"

declare ilog2.simps [simp del]

definition round_half_even :: "int \<Rightarrow> int \<Rightarrow> int" where
  "round_half_even n d =
     (let q = n div d; r = n mod d
      in if 2 * r < d \<or> (2 * r = d \<and> even q) then q else q + 1)"

definition int_mag :: "int \<Rightarrow> int" where
  "int_mag a =
     (let e = ilog2 (nat a)
      in (int e + 1022) * 2 ^ 52 +
         (if e \<le> 52 then a * 2 ^ (52 - e) else round_half_even a (2 ^ (e - 52))))"

definition double_of_int :: "int \<Rightarrow> double" where
  "double_of_int i =
     (if i = 0 then 0
      else if i < 0 then word_of_int (2 ^ 63 + int_mag (- i))
      else word_of_int (int_mag i))"

definition int_key :: "int \<Rightarrow> int" where
  "int_key i = (if i = 0 then 0 else if i < 0 then - int_mag (- i) else int_mag i)"

text \<open>
  \<open>static_cast<std::int64_t>(double)\<close> truncates towards zero; a NaN, an infinity or a
  value outside the range of the type is undefined behaviour (\<open>None\<close>).
\<close>

definition double_trunc :: "double \<Rightarrow> int option" where
  "double_trunc d =
     (let e = nat (dmag d div 2 ^ 52); m = 2 ^ 52 + dmag d mod 2 ^ 52;
          a = (if e < 1023 then 0
               else if 1075 \<le> e then m * 2 ^ (e - 1075) else m div 2 ^ (1075 - e));
          i = (if dneg d then - a else a)
      in if e = 2047 then None
         else if - (2 ^ 63) \<le> i \<and> i < 2 ^ 63 then Some i else None)"

section \<open>The order of converted integers\<close>

lemma ilog2_bounds: "0 < n \<Longrightarrow> 2 ^ ilog2 n \<le> n \<and> n < 2 ^ Suc (ilog2 n)"
proof (induction n rule: ilog2.induct)
  case (1 n)
  show ?case
  proof (cases "n \<le> 1")
    case True
    with 1 show ?thesis by (simp add: ilog2.simps [of n])
  next
    case False
    with 1 have "2 ^ ilog2 (n div 2) \<le> n div 2 \<and> n div 2 < 2 ^ Suc (ilog2 (n div 2))" by simp
    then have "2 * 2 ^ ilog2 (n div 2) \<le> n \<and> n < 2 * 2 ^ Suc (ilog2 (n div 2))" by linarith
    with False show ?thesis by (simp add: ilog2.simps [of n])
  qed
qed

lemma ilog2_less: "0 < n \<Longrightarrow> n < 2 ^ k \<Longrightarrow> ilog2 n < k"
  using ilog2_bounds [of n] power_less_imp_less_exp [of "2::nat" "ilog2 n" k] by linarith

lemma ilog2_greater: "2 ^ k \<le> n \<Longrightarrow> k \<le> ilog2 n"
proof -
  assume k: "2 ^ k \<le> n"
  then have "0 < n" by (cases "n = 0") auto
  then have "(2::nat) ^ k < 2 ^ Suc (ilog2 n)" using ilog2_bounds [of n] k by linarith
  then show ?thesis using power_less_imp_less_exp [of "2::nat" k "Suc (ilog2 n)"] by simp
qed

lemma ilog2_unique: "2 ^ k \<le> n \<Longrightarrow> n < 2 ^ Suc k \<Longrightarrow> ilog2 n = k"
  using ilog2_less [of n "Suc k"] ilog2_greater [of k n] by (cases "n = 0") auto

lemma ilog2_mono: "0 < m \<Longrightarrow> m \<le> n \<Longrightarrow> ilog2 m \<le> ilog2 n"
  using ilog2_bounds [of m] by (intro ilog2_greater) simp

lemma round_half_even_mono:
  assumes "0 < d" and "a \<le> b"
  shows "round_half_even a d \<le> round_half_even b d"
proof -
  have q: "a div d \<le> b div d" using assms by (simp add: zdiv_mono1)
  show ?thesis
  proof (cases "a div d = b div d")
    case True
    have "d * (a div d) = d * (b div d)" using True by simp
    then have "a mod d \<le> b mod d"
      using assms(2) mult_div_mod_eq [of d a] mult_div_mod_eq [of d b] by linarith
    with True show ?thesis by (auto simp: round_half_even_def Let_def)
  next
    case False
    with q have "a div d + 1 \<le> b div d" by simp
    then show ?thesis by (auto simp: round_half_even_def Let_def)
  qed
qed

lemma round_half_even_exact: "0 < d \<Longrightarrow> round_half_even (q * d) d = q"
  by (simp add: round_half_even_def Let_def)

text \<open>The significand of a positive integer lies between \<open>2^52\<close> and \<open>2^53\<close>.\<close>

lemma int_mag_bounds:
  assumes "0 < a" and "e = ilog2 (nat a)"
  shows "(int e + 1023) * 2 ^ 52 \<le> int_mag a" and "int_mag a \<le> (int e + 1024) * 2 ^ 52"
proof -
  have "2 ^ e \<le> nat a" "nat a < 2 ^ Suc e"
    using ilog2_bounds [of "nat a"] assms by auto
  then have b: "2 ^ e \<le> a" "a \<le> 2 ^ Suc e" "a < 2 ^ Suc e"
    using assms(1) by (simp_all add: nat_le_iff nat_less_iff le_nat_iff)
  define m where "m = (if e \<le> 52 then a * 2 ^ (52 - e) else round_half_even a (2 ^ (e - 52)))"
  have "2 ^ 52 \<le> m \<and> m \<le> 2 ^ 53"
  proof (cases "e \<le> 52")
    case True
    have p: "(2::int) ^ e * 2 ^ (52 - e) = 2 ^ 52" "(2::int) ^ Suc e * 2 ^ (52 - e) = 2 ^ 53"
      using True by (simp_all flip: power_add)
    have "2 ^ e * 2 ^ (52 - e) \<le> a * 2 ^ (52 - e)" "a * 2 ^ (52 - e) \<le> 2 ^ Suc e * 2 ^ (52 - e)"
      using b by (simp_all add: mult_right_mono del: power_Suc)
    with True show ?thesis unfolding p by (simp add: m_def)
  next
    case False
    have p: "(2::int) ^ e = 2 ^ 52 * 2 ^ (e - 52)" "(2::int) ^ Suc e = 2 ^ 53 * 2 ^ (e - 52)"
      using False power_add [of "2::int" 52 "e - 52"] power_add [of "2::int" 53 "e - 52"]
      by (simp_all del: power_Suc add: Suc_diff_le)
    have "round_half_even (2 ^ e) (2 ^ (e - 52)) \<le> round_half_even a (2 ^ (e - 52))"
         "round_half_even a (2 ^ (e - 52)) \<le> round_half_even (2 ^ Suc e) (2 ^ (e - 52))"
      using b by (simp_all add: round_half_even_mono del: power_Suc)
    with False show ?thesis
      unfolding p by (simp add: round_half_even_exact m_def)
  qed
  moreover have "int_mag a = (int e + 1022) * 2 ^ 52 + m"
    by (simp add: int_mag_def assms(2) m_def Let_def)
  ultimately show "(int e + 1023) * 2 ^ 52 \<le> int_mag a" and "int_mag a \<le> (int e + 1024) * 2 ^ 52"
    by simp_all
qed

lemma int_mag_mono:
  assumes "0 < a" and "a \<le> b"
  shows "int_mag a \<le> int_mag b"
proof -
  have le: "ilog2 (nat a) \<le> ilog2 (nat b)"
    using assms by (intro ilog2_mono) (auto simp: nat_mono)
  show ?thesis
  proof (cases "ilog2 (nat a) = ilog2 (nat b)")
    case True
    with assms show ?thesis
      by (auto simp: int_mag_def Let_def mult_right_mono round_half_even_mono)
  next
    case False
    with le have "ilog2 (nat a) + 1 \<le> ilog2 (nat b)" by simp
    then have "(int (ilog2 (nat a)) + 1024) * 2 ^ 52 \<le> (int (ilog2 (nat b)) + 1023) * 2 ^ 52"
      by simp
    with int_mag_bounds [of a] int_mag_bounds [of b] assms show ?thesis by fastforce
  qed
qed

lemma int_mag_strict_mono:
  assumes "0 < a" and "a < b" and "b \<le> 2 ^ 53"
  shows "int_mag a < int_mag b"
proof -
  have le: "ilog2 (nat a) \<le> ilog2 (nat b)"
    using assms by (intro ilog2_mono) (auto simp: nat_mono)
  have ea: "ilog2 (nat a) \<le> 52"
  proof -
    have "nat a < 2 ^ 53" using assms by (simp add: nat_less_iff)
    with ilog2_less [of "nat a" 53] assms(1) show ?thesis by simp
  qed
  show ?thesis
  proof (cases "ilog2 (nat a) = ilog2 (nat b)")
    case True
    with ea assms show ?thesis by (auto simp: int_mag_def Let_def)
  next
    case False
    with le have lt: "ilog2 (nat a) + 1 \<le> ilog2 (nat b)" by simp
    let ?e = "ilog2 (nat a)"
    have "a < 2 ^ Suc ?e"
      using ilog2_bounds [of "nat a"] assms(1) by (simp add: nat_less_iff)
    then have "a * 2 ^ (52 - ?e) < 2 ^ Suc ?e * 2 ^ (52 - ?e)"
      by (intro mult_strict_right_mono) auto
    also have "\<dots> = 2 ^ 53" using ea by (simp flip: power_add)
    finally have "int_mag a < (int ?e + 1024) * 2 ^ 52"
      using ea by (simp add: int_mag_def Let_def)
    also have "\<dots> \<le> (int (ilog2 (nat b)) + 1023) * 2 ^ 52" using lt by simp
    also have "\<dots> \<le> int_mag b" using int_mag_bounds [of b] assms by simp
    finally show ?thesis .
  qed
qed

lemma int_mag_range:
  assumes "0 < a" and "a \<le> 2 ^ 63"
  shows "0 < int_mag a" and "int_mag a \<le> 1087 * 2 ^ 52"
proof -
  show "0 < int_mag a"
    using int_mag_bounds(1) [OF assms(1) refl] by (smt (verit) of_nat_0_le_iff zero_less_power mult_pos_pos)
  have "int_mag a \<le> int_mag (2 ^ 63)" by (rule int_mag_mono [OF assms])
  also have "int_mag (2 ^ 63) = 1086 * 2 ^ 52"
  proof -
    have e: "ilog2 (nat (2 ^ 63)) = 63"
      by (rule ilog2_unique) (simp_all add: nat_power_eq)
    have "round_half_even (2 ^ 63) (2 ^ (63 - 52)) = 2 ^ 52"
      using round_half_even_exact [of "2 ^ 11" "2 ^ 52"] by simp
    then show ?thesis unfolding int_mag_def Let_def e by simp
  qed
  finally show "int_mag a \<le> 1087 * 2 ^ 52" by simp
qed

text \<open>
  Every 64-bit integer converts to a number (never NaN) whose key is \<open>int_key\<close>; the
  conversion is monotone, and injective on integers of magnitude at most \<open>2^53\<close>.
\<close>

definition int64_range :: "int \<Rightarrow> bool" where
  "int64_range i \<longleftrightarrow> - (2 ^ 63) \<le> i \<and> i < 2 ^ 63"

lemma uint_word_of_int_small: "0 \<le> i \<Longrightarrow> i < 2 ^ 64 \<Longrightarrow> uint (word_of_int i :: u64) = i"
  by (simp add: uint_word_of_int)

lemma dmag_double_of_int:
  assumes "int64_range i" and "i \<noteq> 0"
  shows "dmag (double_of_int i) = int_mag \<bar>i\<bar>" and "dneg (double_of_int i) \<longleftrightarrow> i < 0"
proof -
  have r: "0 < int_mag \<bar>i\<bar>" "int_mag \<bar>i\<bar> \<le> 1087 * 2 ^ 52"
    using int_mag_range [of "\<bar>i\<bar>"] assms by (auto simp: int64_range_def)
  show "dmag (double_of_int i) = int_mag \<bar>i\<bar>" and "dneg (double_of_int i) \<longleftrightarrow> i < 0"
    using r assms(2) uint_word_of_int_small [of "2 ^ 63 + int_mag (- i)"]
      uint_word_of_int_small [of "int_mag i"]
    by (auto simp: dmag_def dneg_def double_of_int_def)
qed

lemma dkey_double_of_int: "int64_range i \<Longrightarrow> dkey (double_of_int i) = int_key i"
proof (cases "i = 0")
  case True
  then show ?thesis by (simp add: dkey_def int_key_def double_of_int_def dmag_def)
next
  case False
  assume "int64_range i"
  from dmag_double_of_int [OF this False] False show ?thesis by (auto simp: dkey_def int_key_def)
qed

lemma double_of_int_not_nan: "int64_range i \<Longrightarrow> \<not> is_nan (double_of_int i)"
  using dmag_double_of_int [of i] int_mag_range [of "\<bar>i\<bar>"]
  by (cases "i = 0") (auto simp: is_nan_def double_of_int_def dmag_def int64_range_def)

lemma int_key_mono:
  assumes "int64_range i" and "int64_range j" and "i \<le> j"
  shows "int_key i \<le> int_key j"
proof -
  have "0 < int_mag \<bar>k\<bar>" if "int64_range k" "k \<noteq> 0" for k
    using int_mag_range(1) [of "\<bar>k\<bar>"] that by (auto simp: int64_range_def)
  from this [OF assms(1)] this [OF assms(2)] assms(3)
    int_mag_mono [of i j] int_mag_mono [of "- j" "- i"] show ?thesis
    by (auto simp: int_key_def)
qed

lemma int_key_strict_mono:
  assumes "\<bar>i\<bar> \<le> 2 ^ 53" and "\<bar>j\<bar> \<le> 2 ^ 53" and "i < j"
  shows "int_key i < int_key j"
proof -
  have "0 < int_mag \<bar>k\<bar>" if "\<bar>k\<bar> \<le> 2 ^ 53" "k \<noteq> 0" for k
    using int_mag_range(1) [of "\<bar>k\<bar>"] that by auto
  from this [OF assms(1)] this [OF assms(2)] assms(3)
    int_mag_strict_mono [of i j] int_mag_strict_mono [of "- j" "- i"] assms(1,2) show ?thesis
    by (auto simp: int_key_def)
qed

lemma double_of_int_collapse: "double_of_int (2 ^ 53 + 1) = double_of_int (2 ^ 53)"
proof -
  have "ilog2 (nat (2 ^ 53 + 1)) = 53" "ilog2 (nat (2 ^ 53)) = 53"
    by (rule ilog2_unique; simp add: nat_power_eq nat_add_distrib)+
  then have "int_mag (2 ^ 53 + 1) = int_mag (2 ^ 53)"
    by (simp add: int_mag_def Let_def round_half_even_def)
  then show ?thesis by (simp add: double_of_int_def)
qed

end
