(* ===== verification/Std_Text.thy ===== *)
theory Std_Text
  imports Skibidi_Prelude
begin

text \<open>
  The character classes of \<open><cctype>\<close> in the default "C" locale, and decimal text:
  \<open>std::to_string\<close> on integers, and the digits that \<open>std::stoll\<close> and \<open>std::stoull\<close>
  read back. The sources call the parsers only on non-empty runs of digits, so signs,
  blanks and other bases of the library functions do not occur.
\<close>

section \<open>Character classes\<close>

abbreviation ord_char :: "char \<Rightarrow> nat" where
  "ord_char c \<equiv> of_char c"

definition isspace :: "char \<Rightarrow> bool" where
  "isspace c \<longleftrightarrow> ord_char c = 32 \<or> (9 \<le> ord_char c \<and> ord_char c \<le> 13)"

definition isdigit :: "char \<Rightarrow> bool" where
  "isdigit c \<longleftrightarrow> 48 \<le> ord_char c \<and> ord_char c \<le> 57"

definition isupper :: "char \<Rightarrow> bool" where
  "isupper c \<longleftrightarrow> 65 \<le> ord_char c \<and> ord_char c \<le> 90"

definition islower :: "char \<Rightarrow> bool" where
  "islower c \<longleftrightarrow> 97 \<le> ord_char c \<and> ord_char c \<le> 122"

definition isalpha :: "char \<Rightarrow> bool" where
  "isalpha c \<longleftrightarrow> isupper c \<or> islower c"

definition isalnum :: "char \<Rightarrow> bool" where
  "isalnum c \<longleftrightarrow> isalpha c \<or> isdigit c"

definition tolower :: "char \<Rightarrow> char" where
  "tolower c = (if isupper c then char_of (ord_char c + 32) else c)"

definition toupper :: "char \<Rightarrow> char" where
  "toupper c = (if islower c then char_of (ord_char c - 32) else c)"

lemmas ctype_defs = isspace_def isdigit_def isupper_def islower_def isalpha_def isalnum_def
  tolower_def toupper_def

lemma tolower_idem [simp]: "tolower (tolower c) = tolower c"
proof (cases "isupper c")
  case True
  then have "ord_char (char_of (ord_char c + 32)) = ord_char c + 32"
    by (simp add: isupper_def)
  with True show ?thesis by (simp add: tolower_def isupper_def)
qed (simp add: tolower_def)

lemma isdigit_not_isalpha: "isdigit c \<Longrightarrow> \<not> isalpha c"
  by (auto simp: ctype_defs)

section \<open>Decimal text\<close>

definition digit_char :: "nat \<Rightarrow> char" where
  "digit_char d = char_of (48 + d)"

definition digit_value :: "char \<Rightarrow> nat" where
  "digit_value c = ord_char c - 48"

fun string_of_nat :: "nat \<Rightarrow> string" where
  "string_of_nat n =
     (if n < 10 then [digit_char n] else string_of_nat (n div 10) @ [digit_char (n mod 10)])"

declare string_of_nat.simps [simp del]

definition string_of_int :: "int \<Rightarrow> string" where
  "string_of_int i = (if i < 0 then CHR ''-'' # string_of_nat (nat (- i)) else string_of_nat (nat i))"

definition nat_of_digits :: "string \<Rightarrow> nat" where
  "nat_of_digits s = foldl (\<lambda>n c. 10 * n + digit_value c) 0 s"

text \<open>
  \<open>std::stoll\<close> and \<open>std::stoull\<close> on a run of digits: the value, or \<open>std::out_of_range\<close>
  when it does not fit the type.
\<close>

definition stoll :: "string \<Rightarrow> int result" where
  "stoll s = (let n = nat_of_digits s in if n < 2 ^ 63 then Inr (int n) else Inl (Out_Of_Range ''stoll''))"

definition stoull :: "string \<Rightarrow> nat result" where
  "stoull s = (let n = nat_of_digits s in if n < 2 ^ 64 then Inr n else Inl (Out_Of_Range ''stoull''))"

lemma digit_char_props:
  assumes "d < 10"
  shows "isdigit (digit_char d)" and "digit_value (digit_char d) = d"
  using assms by (simp_all add: isdigit_def digit_char_def digit_value_def)

lemma nat_of_digits_snoc:
  "nat_of_digits (s @ [c]) = 10 * nat_of_digits s + digit_value c"
  by (simp add: nat_of_digits_def)

lemma string_of_nat_digits: "\<forall>c \<in> set (string_of_nat n). isdigit c"
proof (induction n rule: string_of_nat.induct)
  case (1 n)
  then show ?case
    by (cases "n < 10") (auto simp: string_of_nat.simps [of n] digit_char_props)
qed

lemma string_of_nat_nonempty [simp]: "string_of_nat n \<noteq> []"
  by (simp add: string_of_nat.simps [of n])

lemma nat_of_digits_string_of_nat [simp]: "nat_of_digits (string_of_nat n) = n"
proof (induction n rule: string_of_nat.induct)
  case (1 n)
  show ?case
  proof (cases "n < 10")
    case True
    then show ?thesis
      by (simp add: string_of_nat.simps [of n] nat_of_digits_def digit_char_props)
  next
    case False
    with 1 show ?thesis
      by (simp add: string_of_nat.simps [of n] nat_of_digits_snoc digit_char_props)
  qed
qed

lemma stoull_string_of_nat: "n < 2 ^ 64 \<Longrightarrow> stoull (string_of_nat n) = Inr n"
  by (simp add: stoull_def)

lemma stoll_string_of_nat: "n < 2 ^ 63 \<Longrightarrow> stoll (string_of_nat n) = Inr (int n)"
  by (simp add: stoll_def)

end
