(* ===== verification/Hash_Utils.thy ===== *)
theory Hash_Utils
  imports Skibidi_Prelude
begin

text \<open>
  \<open>src/hash_utils.h\<close>: the FNV-1a style fingerprint over bytes, the SplitMix64 finaliser
  and the hash combiner, all on 64-bit words whose arithmetic wraps.

  The lemmas show that appending text is a left fold (so fingerprints compose) and that
  every step of the two mixers is invertible, hence no two states are merged by a mixing
  step alone.
\<close>

definition kFnv1a64OffsetBasis :: u64 where
  "kFnv1a64OffsetBasis = 1469598103934665603"

definition kFnv1a64Prime :: u64 where
  "kFnv1a64Prime = 1099511628211"

definition kFnv1a64FieldSeparator :: byte where
  "kFnv1a64FieldSeparator = 0xff"

definition kGoldenRatio64 :: u64 where
  "kGoldenRatio64 = 0x9e3779b97f4a7c15"

definition kSplitMix64Multiplier1 :: u64 where
  "kSplitMix64Multiplier1 = 0xff51afd7ed558ccd"

definition kSplitMix64Multiplier2 :: u64 where
  "kSplitMix64Multiplier2 = 0xc4ceb9fe1a85ec53"

definition fnv1a64AppendByte :: "u64 \<Rightarrow> byte \<Rightarrow> u64" where
  "fnv1a64AppendByte h b = (h XOR ucast b) * kFnv1a64Prime"

fun fnv1a64Append :: "u64 \<Rightarrow> byte list \<Rightarrow> u64" where
  "fnv1a64Append h [] = h"
| "fnv1a64Append h (b # bs) = fnv1a64Append (fnv1a64AppendByte h b) bs"

definition fnv1a64 :: "byte list \<Rightarrow> u64" where
  "fnv1a64 bs = fnv1a64Append kFnv1a64OffsetBasis bs"

definition avalanche64 :: "u64 \<Rightarrow> u64" where
  "avalanche64 v0 =
     (let v1 = v0 XOR drop_bit 33 v0;
          v2 = v1 * kSplitMix64Multiplier1;
          v3 = v2 XOR drop_bit 33 v2;
          v4 = v3 * kSplitMix64Multiplier2
      in v4 XOR drop_bit 33 v4)"

definition combine :: "u64 \<Rightarrow> u64 \<Rightarrow> u64" where
  "combine seed v = seed XOR (v + kGoldenRatio64 + push_bit 6 seed + drop_bit 2 seed)"

lemma fnv1a64Append_append:
  "fnv1a64Append h (xs @ ys) = fnv1a64Append (fnv1a64Append h xs) ys"
  by (induction h xs rule: fnv1a64Append.induct) auto

section \<open>Invertibility of the mixing steps\<close>

lemma word_mult_left_inj:
  fixes p q a b :: "'a::len word"
  assumes "p * q = 1" and "a * p = b * p"
  shows "a = b"
proof -
  have "a * p * q = b * p * q" using assms(2) by simp
  then show ?thesis using assms(1) by (simp add: mult.assoc)
qed

lemma word_xor_cancel: "(x :: 'a::len word) XOR y = z XOR y \<Longrightarrow> x = z"
proof -
  assume "x XOR y = z XOR y"
  then have "(x XOR y) XOR y = (z XOR y) XOR y" by simp
  then show ?thesis by (simp add: xor.assoc)
qed

lemma fnv_prime_inverse: "kFnv1a64Prime * 0xCE965057AFF6957B = 1"
  by (simp add: kFnv1a64Prime_def)

lemma splitmix1_inverse: "kSplitMix64Multiplier1 * 0x4F74430C22A54005 = 1"
  by (simp add: kSplitMix64Multiplier1_def)

lemma splitmix2_inverse: "kSplitMix64Multiplier2 * 0x9CB4B2F8129337DB = 1"
  by (simp add: kSplitMix64Multiplier2_def)

lemma fnv1a64AppendByte_inj_state: "fnv1a64AppendByte h b = fnv1a64AppendByte h' b \<Longrightarrow> h = h'"
  unfolding fnv1a64AppendByte_def
  by (drule word_mult_left_inj [OF fnv_prime_inverse]) (rule word_xor_cancel)

lemma fnv1a64AppendByte_inj_byte: "fnv1a64AppendByte h b = fnv1a64AppendByte h b' \<Longrightarrow> b = b'"
  unfolding fnv1a64AppendByte_def
proof (drule word_mult_left_inj [OF fnv_prime_inverse])
  assume "h XOR ucast b = h XOR (ucast b' :: u64)"
  then have "ucast b = (ucast b' :: u64)"
    using word_xor_cancel [of "ucast b" h "ucast b'"] by (simp add: xor.commute)
  then have "uint (ucast b :: u64) = uint (ucast b' :: u64)" by simp
  moreover have "uint (ucast w :: u64) = uint w" for w :: byte
    using unsigned_less [of w, where ?'a = int] by (simp add: unsigned_ucast_eq take_bit_int_eq_self)
  ultimately show "b = b'" by (simp only: word_uint_eqI)
qed

lemma xorshift33_inj: "(x :: u64) XOR drop_bit 33 x = y XOR drop_bit 33 y \<Longrightarrow> x = y"
proof (rule bit_word_eqI)
  fix n
  assume eq: "x XOR drop_bit 33 x = y XOR drop_bit 33 y" and n: "n < LENGTH(64)"
  have bits: "bit x k = (bit x (k + 33) = (bit y k = bit y (k + 33)))" for k
    using arg_cong [OF eq, of "\<lambda>w. bit w k"]
    by (auto simp: bit_xor_iff bit_drop_bit_eq add.commute)
  show "bit x n = bit y n"
  proof (cases "n + 33 < 64")
    case False
    then have "\<not> bit x (n + 33)" "\<not> bit y (n + 33)"
      by (auto dest: bit_imp_le_length)
    with bits [of n] show ?thesis by simp
  next
    case True
    then have "\<not> bit x (n + 33 + 33)" "\<not> bit y (n + 33 + 33)"
      by (auto dest: bit_imp_le_length)
    with bits [of "n + 33"] bits [of n] show ?thesis by auto
  qed
qed

end
