(* ===== verification/Values.thy ===== *)
theory Values
  imports Std_Double Std_Text Hash_Utils
begin

text \<open>
  The dynamically typed SQL value (\<open>Value\<close>, \<open>src/native_storage.h\<close> and
  \<open>src/native_storage.cpp\<close>): its six alternatives, the conversions, equality,
  three-way comparison and hash.

  \<open>orderable\<close> is the set of values on which \<open>compare_value\<close> is a total preorder; on it the
  comparison is the comparison of a key in a linear order (\<open>vkey\<close>), which is what the
  B+ tree and the sort operators rely on (locale \<open>keyed_order\<close>). Outside that set the
  order has cycles: the closing theorems exhibit one, and two different integers that
  compare equal.
\<close>

type_synonym i64 = "64 word"

datatype value_type = TNull | TInteger | TReal | TText | TBoolean | TBlob

datatype val =
    VNull
  | VInteger i64
  | VReal double
  | VText string
  | VBoolean bool
  | VBlob "byte list"

record row_id =
  rid_page :: nat
  rid_slot :: nat

definition type_code :: "value_type \<Rightarrow> nat" where
  "type_code t = (case t of TNull \<Rightarrow> 0 | TInteger \<Rightarrow> 1 | TReal \<Rightarrow> 2 | TText \<Rightarrow> 3 | TBoolean \<Rightarrow> 4 | TBlob \<Rightarrow> 5)"

definition type_of :: "val \<Rightarrow> value_type" where
  "type_of v = (case v of VNull \<Rightarrow> TNull | VInteger _ \<Rightarrow> TInteger | VReal _ \<Rightarrow> TReal
     | VText _ \<Rightarrow> TText | VBoolean _ \<Rightarrow> TBoolean | VBlob _ \<Rightarrow> TBlob)"

definition isNull :: "val \<Rightarrow> bool" where
  "isNull v \<longleftrightarrow> type_of v = TNull"

definition isNumeric :: "val \<Rightarrow> bool" where
  "isNumeric v \<longleftrightarrow> type_of v = TInteger \<or> type_of v = TReal \<or> type_of v = TBoolean"

definition asInteger :: "val \<Rightarrow> i64 result" where
  "asInteger v = (case v of
       VInteger i \<Rightarrow> Inr i
     | VReal d \<Rightarrow> (case double_trunc d of Some i \<Rightarrow> Inr (word_of_int i) | None \<Rightarrow> Inl Undefined_Behaviour)
     | VBoolean b \<Rightarrow> Inr (if b then 1 else 0)
     | _ \<Rightarrow> Inl (Runtime_Error ''Value is not numeric''))"

definition asReal :: "val \<Rightarrow> double result" where
  "asReal v = (case v of
       VReal d \<Rightarrow> Inr d
     | VInteger i \<Rightarrow> Inr (double_of_int (sint i))
     | VBoolean b \<Rightarrow> Inr (double_of_int (if b then 1 else 0))
     | _ \<Rightarrow> Inl (Runtime_Error ''Value is not numeric''))"

definition asBoolean :: "val \<Rightarrow> bool" where
  "asBoolean v = (case v of
       VNull \<Rightarrow> False
     | VBoolean b \<Rightarrow> b
     | VText s \<Rightarrow> s \<noteq> []
     | VBlob bs \<Rightarrow> bs \<noteq> []
     | _ \<Rightarrow> (case asReal v of Inr d \<Rightarrow> \<not> double_eq d 0 | Inl _ \<Rightarrow> False))"

definition asText :: "val \<Rightarrow> string result" where
  "asText v = (case v of VText s \<Rightarrow> Inr s | _ \<Rightarrow> Inl (Runtime_Error ''Value is not text''))"

definition asBlob :: "val \<Rightarrow> byte list result" where
  "asBlob v = (case v of VBlob b \<Rightarrow> Inr b | _ \<Rightarrow> Inl (Runtime_Error ''Value is not a blob''))"

definition hex_digit :: "nat \<Rightarrow> char" where
  "hex_digit d = (if d < 10 then char_of (48 + d) else char_of (87 + d))"

definition hex_byte :: "byte \<Rightarrow> string" where
  "hex_byte b = [hex_digit (unat b div 16), hex_digit (unat b mod 16)]"

text \<open>\<open>fmt15\<close> is the stream's text of a double at precision 15.\<close>

definition toString :: "(double \<Rightarrow> string) \<Rightarrow> val \<Rightarrow> string" where
  "toString fmt15 v = (case v of
       VNull \<Rightarrow> ''NULL''
     | VInteger i \<Rightarrow> string_of_int (sint i)
     | VReal d \<Rightarrow> fmt15 d
     | VText s \<Rightarrow> s
     | VBoolean b \<Rightarrow> (if b then ''1'' else ''0'')
     | VBlob bs \<Rightarrow> ''0x'' @ concat (map hex_byte bs))"

definition num :: "val \<Rightarrow> double" where
  "num v = (case asReal v of Inr d \<Rightarrow> d | Inl _ \<Rightarrow> 0)"

definition value_eq :: "val \<Rightarrow> val \<Rightarrow> bool" where
  "value_eq a b =
     (if isNull a \<or> isNull b then isNull a \<and> isNull b
      else if isNumeric a \<and> isNumeric b then double_eq (num a) (num b)
      else a = b)"

lemma double_eq_euclid: "double_eq a c \<Longrightarrow> double_eq b c \<Longrightarrow> double_eq a b"
  by (simp add: double_eq_def)

lemma value_eq_euclid: "value_eq a c \<Longrightarrow> value_eq b c \<Longrightarrow> \<not> isNull c \<Longrightarrow> value_eq a b"
  using double_eq_euclid [of "num a" "num c" "num b"]
  by (auto simp: value_eq_def split: if_splits)

lemma value_eq_sym: "value_eq a b \<longleftrightarrow> value_eq b a"
  by (auto simp: value_eq_def double_eq_def)

definition compare_value :: "val \<Rightarrow> val \<Rightarrow> int" where
  "compare_value a b =
     (if isNull a \<or> isNull b then
        (if isNull a \<and> isNull b then 0 else if isNull a then -1 else 1)
      else if isNumeric a \<and> isNumeric b then
        (if double_lt (num a) (num b) then -1 else if double_lt (num b) (num a) then 1 else 0)
      else if type_of a \<noteq> type_of b then
        (if type_code (type_of a) < type_code (type_of b) then -1 else 1)
      else (case (a, b) of
          (VText s, VText t) \<Rightarrow> (if s < t then -1 else if t < s then 1 else 0)
        | (VBlob s, VBlob t) \<Rightarrow> (if s = t then 0 else if s < t then -1 else 1)
        | _ \<Rightarrow> 0))"

text \<open>\<open>hdbl\<close> and \<open>hstr\<close> are \<open>std::hash<double>\<close> and \<open>std::hash<std::string>\<close>.\<close>

definition hash_value :: "(double \<Rightarrow> u64) \<Rightarrow> (string \<Rightarrow> u64) \<Rightarrow> val \<Rightarrow> u64" where
  "hash_value hdbl hstr v =
     (if isNumeric v then combine (of_nat (type_code TReal)) (hdbl (num v))
      else (case v of
          VText s \<Rightarrow> combine (of_nat (type_code TText)) (hstr s)
        | VBlob bs \<Rightarrow> fold (\<lambda>b seed. combine seed (ucast b)) bs (of_nat (type_code TBlob))
        | _ \<Rightarrow> of_nat (type_code (type_of v))))"

lemmas value_class_defs = isNull_def isNumeric_def type_of_def

section \<open>Where the comparison is an order\<close>

definition orderable :: "val \<Rightarrow> bool" where
  "orderable v = (case v of VReal d \<Rightarrow> \<not> is_nan d | VBoolean _ \<Rightarrow> False | _ \<Rightarrow> True)"

definition vkey :: "val \<Rightarrow> nat \<times> int \<times> string \<times> byte list" where
  "vkey v = (case v of
       VNull \<Rightarrow> (0, 0, [], [])
     | VText s \<Rightarrow> (3, 0, s, [])
     | VBlob bs \<Rightarrow> (5, 0, [], bs)
     | _ \<Rightarrow> (1, dkey (num v), [], []))"

lemma int64_range_sint [simp]: "int64_range (sint (w :: i64))"
  using sint_greater_eq [of w] sint_less [of w] by (simp add: int64_range_def)

lemma int64_range_bool [simp]: "int64_range 0" "int64_range 1"
  by (simp_all add: int64_range_def)

lemma num_simps [simp]:
  "num (VReal d) = d"
  "num (VInteger i) = double_of_int (sint i)"
  "num (VBoolean b) = double_of_int (if b then 1 else 0)"
  by (simp_all add: num_def asReal_def)

lemma num_not_nan: "isNumeric v \<Longrightarrow> orderable v \<Longrightarrow> \<not> is_nan (num v)"
  by (auto simp: orderable_def value_class_defs double_of_int_not_nan split: val.splits)

text \<open>
  A three-way comparison that agrees, on a set of values, with a key into a linear order.
  The B+ tree and the sort operators only use these laws.
\<close>

locale keyed_order =
  fixes cmp :: "'v \<Rightarrow> 'v \<Rightarrow> int"
    and key :: "'v \<Rightarrow> 'k::linorder"
    and ok :: "'v \<Rightarrow> bool"
  assumes cmp_key: "ok a \<Longrightarrow> ok b \<Longrightarrow> cmp a b = (if key a < key b then -1 else if key b < key a then 1 else 0)"
begin

lemma cmp_less_iff: "ok a \<Longrightarrow> ok b \<Longrightarrow> cmp a b < 0 \<longleftrightarrow> key a < key b"
  by (simp add: cmp_key)

lemma cmp_greater_iff: "ok a \<Longrightarrow> ok b \<Longrightarrow> 0 < cmp a b \<longleftrightarrow> key b < key a"
  by (auto simp: cmp_key)

lemma cmp_eq_iff: "ok a \<Longrightarrow> ok b \<Longrightarrow> cmp a b = 0 \<longleftrightarrow> key a = key b"
  by (auto simp: cmp_key)

lemma cmp_antisym: "ok a \<Longrightarrow> ok b \<Longrightarrow> cmp b a = - cmp a b"
  by (auto simp: cmp_key)

lemma cmp_trans: "ok a \<Longrightarrow> ok b \<Longrightarrow> ok c \<Longrightarrow> cmp a b \<le> 0 \<Longrightarrow> cmp b c \<le> 0 \<Longrightarrow> cmp a c \<le> 0"
  by (auto simp: cmp_key split: if_splits)

end

interpretation val_order: keyed_order compare_value vkey orderable
proof
  fix a b :: val
  assume "orderable a" "orderable b"
  then show "compare_value a b = (if vkey a < vkey b then -1 else if vkey b < vkey a then 1 else 0)"
    using num_not_nan [of a] num_not_nan [of b]
    by (cases a; cases b)
      (auto simp: compare_value_def vkey_def orderable_def value_class_defs type_code_def double_lt_def)
qed

section \<open>Properties\<close>

lemma value_eq_vkey:
  "orderable a \<Longrightarrow> orderable b \<Longrightarrow> value_eq a b \<longleftrightarrow> vkey a = vkey b"
  using num_not_nan [of a] num_not_nan [of b]
  by (cases a; cases b)
    (auto simp: value_eq_def vkey_def orderable_def value_class_defs double_eq_def)

text \<open>
  C40. On nulls, integers, reals other than NaN, texts and blobs, \<open>Value::compare\<close> is a total
  preorder, and it reports equality exactly where \<open>operator==\<close> does.
\<close>

theorem compare_total_preorder:
  assumes "orderable a" "orderable b" "orderable c"
  shows "compare_value b a = - compare_value a b \<and>
    (compare_value a b \<le> 0 \<longrightarrow> compare_value b c \<le> 0 \<longrightarrow> compare_value a c \<le> 0) \<and>
    (compare_value a b = 0 \<longleftrightarrow> value_eq a b)"
  using val_order.cmp_antisym [OF assms(1,2)] val_order.cmp_trans [OF assms]
    val_order.cmp_eq_iff [OF assms(1,2)] value_eq_vkey [OF assms(1,2)]
  by blast

theorem compare_total_preorder_witness:
  "compare_value (VText ''a'') VNull = - compare_value VNull (VText ''a'')"
  using compare_total_preorder [of VNull "VText ''a''" VNull] by (simp add: orderable_def)

text \<open>
  With booleans the comparison is not an order: numbers compare with booleans by value
  but with texts by type code, so 5, a text and TRUE form a cycle.
\<close>

theorem compare_boolean_cycle:
  "compare_value (VInteger 5) (VText s) < 0 \<and> compare_value (VText s) (VBoolean True) < 0 \<and>
   compare_value (VBoolean True) (VInteger 5) < 0"
proof -
  have "int_key 1 < int_key 5" by (rule int_key_strict_mono) simp_all
  moreover have "dkey (double_of_int 1) = int_key 1" "dkey (double_of_int 5) = int_key 5"
    by (simp_all add: dkey_double_of_int int64_range_def)
  moreover have "\<not> is_nan (double_of_int 1)" "\<not> is_nan (double_of_int 5)"
    by (simp_all add: double_of_int_not_nan int64_range_def)
  ultimately show ?thesis
    by (simp add: compare_value_def value_class_defs type_code_def double_lt_def)
qed

text \<open>
  Integers are compared through \<open>double\<close>, so beyond 53 bits distinct integers compare
  equal, to each other and under \<open>operator==\<close>.
\<close>

theorem compare_large_integers_collapse:
  "(9007199254740992 :: i64) \<noteq> 9007199254740993 \<and>
   compare_value (VInteger 9007199254740992) (VInteger 9007199254740993) = 0 \<and>
   value_eq (VInteger 9007199254740992) (VInteger 9007199254740993)"
proof -
  let ?a = "VInteger 9007199254740992" and ?b = "VInteger 9007199254740993"
  have "sint (9007199254740992 :: i64) = 2 ^ 53" "sint (9007199254740993 :: i64) = 2 ^ 53 + 1"
    by simp_all
  then have "num ?a = num ?b" using double_of_int_collapse by simp
  then have "vkey ?a = vkey ?b" by (simp add: vkey_def del: num_simps)
  moreover have "orderable ?a" "orderable ?b" by (simp_all add: orderable_def)
  ultimately have "compare_value ?a ?b = 0" "value_eq ?a ?b"
    by (simp_all add: val_order.cmp_eq_iff value_eq_vkey)
  then show ?thesis by simp
qed

text \<open>
  Values that \<open>operator==\<close> identifies have the same hash, whatever \<open>std::hash\<close> is, as
  long as it maps equal doubles (such as the two zeros) to the same number.
\<close>

theorem hash_respects_equality:
  assumes "\<And>x y. double_eq x y \<Longrightarrow> hdbl x = hdbl y" "value_eq a b"
  shows "hash_value hdbl hstr a = hash_value hdbl hstr b"
  using assms
  by (cases a; cases b) (auto simp: hash_value_def value_eq_def value_class_defs)

definition hdbl_key :: "double \<Rightarrow> u64" where
  "hdbl_key d = word_of_int (dkey d)"

end
