(* ===== verification/BPlus_Tree.thy ===== *)
theory BPlus_Tree
  imports Values
begin

text \<open>
  The in-memory primary-key index (\<open>BPlusTree\<close>, \<open>src/native_index.h\<close> and
  \<open>src/native_index.cpp\<close>). Leaves carry an address and the raw \<open>next\<close> pointer of the
  source, as an optional address: a split allocates a fresh leaf and relinks the chain,
  and \<open>range\<close> follows the pointers. \<open>fresh\<close> is the next unused address.

  \<open>tree_ok\<close> is the invariant: uniform depth, key counts, separators that bound their
  subtrees, strictly increasing keys, and a \<open>next\<close> chain that visits the leaves from left
  to right. The abstraction \<open>entries\<close> is the sorted list of key/row pairs. The lemmas
  show that \<open>insert\<close>, \<open>find\<close>, \<open>range\<close>, \<open>clear\<close>, \<open>size\<close> and \<open>height\<close> do what they
  promise on it, for keys on which the value comparison is an order (\<open>orderable\<close>).
\<close>

type_synonym addr = nat

datatype node =
    Leaf (laddr: addr) (lkeys: "val list") (lrows: "row_id list") (lnext: "addr option")
  | Inner (ikeys: "val list") (ichildren: "node list")

record bptree =
  maxKeys :: nat
  tree_size :: nat
  root :: node
  fresh :: addr

section \<open>Operations\<close>

text \<open>\<open>std::lower_bound\<close> and \<open>std::upper_bound\<close>: halving search for the partition point.\<close>

function bsearch :: "(val \<Rightarrow> bool) \<Rightarrow> val list \<Rightarrow> nat \<Rightarrow> nat \<Rightarrow> nat" where
  "bsearch go keys first len =
     (if len = 0 then first
      else let half = len div 2; mid = first + half
           in if go (keys ! mid) then bsearch go keys (mid + 1) (len - half - 1)
              else bsearch go keys first half)"
  by pat_completeness auto
termination
  by (relation "measure (\<lambda>(go, keys, first, len). len)") auto

declare bsearch.simps [simp del]

definition lowerBound :: "val list \<Rightarrow> val \<Rightarrow> nat" where
  "lowerBound keys key = bsearch (\<lambda>k. compare_value k key < 0) keys 0 (length keys)"

definition upperBound :: "val list \<Rightarrow> val \<Rightarrow> nat" where
  "upperBound keys key = bsearch (\<lambda>k. \<not> compare_value key k < 0) keys 0 (length keys)"

definition clear :: "bptree \<Rightarrow> bptree" where
  "clear t = t\<lparr>root := Leaf (fresh t) [] [] None, tree_size := 0, fresh := fresh t + 1\<rparr>"

definition new_tree :: "nat \<Rightarrow> bptree" where
  "new_tree mk = clear \<lparr>maxKeys = max 3 mk, tree_size = 0, root = Leaf 0 [] [] None, fresh = 0\<rparr>"

definition insert_at :: "nat \<Rightarrow> 'a \<Rightarrow> 'a list \<Rightarrow> 'a list" where
  "insert_at i x xs = take i xs @ x # drop i xs"

text \<open>
  Insertion below a node: the node as it is afterwards, the split it reports (separator and
  new right sibling), and the next unused address.
\<close>

function insert_node ::
  "nat \<Rightarrow> addr \<Rightarrow> val \<Rightarrow> row_id \<Rightarrow> node \<Rightarrow> (node \<times> (val \<times> node) option \<times> addr) result" where
  "insert_node mk fr key row (Leaf a keys rows nx) =
     (let position = lowerBound keys key in
      if position < length keys \<and> compare_value (keys ! position) key = 0
      then Inl (Runtime_Error ''Duplicate B+ tree key'')
      else
        let keys' = insert_at position key keys; rows' = insert_at position row rows
        in if length keys' \<le> mk then Inr (Leaf a keys' rows' nx, None, fr)
           else
             let middle = length keys' div 2;
                 right = Leaf fr (drop middle keys') (drop middle rows') nx;
                 left = Leaf a (take middle keys') (take middle rows') (Some fr)
             in Inr (left, Some (keys' ! middle, right), fr + 1))"
| "insert_node mk fr key row (Inner keys children) =
     (let i = upperBound keys key in
      if i < length children then
        rbind (insert_node mk fr key row (children ! i)) (\<lambda>(child, split, fr').
          case split of
            None \<Rightarrow> Inr (Inner keys (children[i := child]), None, fr')
          | Some (sep, right) \<Rightarrow>
              let keys' = insert_at i sep keys;
                  children' = insert_at (i + 1) right (children[i := child])
              in if length keys' \<le> mk then Inr (Inner keys' children', None, fr')
                 else
                   let middle = length keys' div 2
                   in Inr (Inner (take middle keys') (take (middle + 1) children'),
                           Some (keys' ! middle,
                                 Inner (drop (middle + 1) keys') (drop (middle + 1) children')), fr'))
      else Inl Undefined_Behaviour)"
  by pat_completeness auto
termination
  by (relation "measure (\<lambda>(mk, fr, key, row, n). size n)")
    (auto intro!: le_imp_less_Suc size_list_estimation' [OF nth_mem] simp: less_Suc_eq_le trans_le_add2)

definition insert_tree :: "bptree \<Rightarrow> val \<Rightarrow> row_id \<Rightarrow> bptree result" where
  "insert_tree t key row =
     rbind (insert_node (maxKeys t) (fresh t) key row (root t)) (\<lambda>(n, split, fr).
       let t' = t\<lparr>root := n, tree_size := tree_size t + 1, fresh := fr\<rparr>
       in Inr (case split of
            None \<Rightarrow> t'
          | Some (sep, right) \<Rightarrow> t'\<lparr>root := Inner [sep] [n, right]\<rparr>))"

function find_leaf :: "val \<Rightarrow> node \<Rightarrow> node result" where
  "find_leaf key (Leaf a keys rows nx) = Inr (Leaf a keys rows nx)"
| "find_leaf key (Inner keys children) =
     (let i = upperBound keys key in
      if i < length children then find_leaf key (children ! i) else Inl Undefined_Behaviour)"
  by pat_completeness auto
termination
  by (relation "measure (\<lambda>(key, n). size n)")
    (auto intro!: le_imp_less_Suc size_list_estimation' [OF nth_mem] simp: less_Suc_eq_le trans_le_add2)

definition find_tree :: "bptree \<Rightarrow> val \<Rightarrow> row_id option result" where
  "find_tree t key =
     rbind (find_leaf key (root t)) (\<lambda>leaf.
       let position = lowerBound (lkeys leaf) key
       in if length (lkeys leaf) \<le> position \<or> compare_value (lkeys leaf ! position) key \<noteq> 0
          then Inr None else Inr (Some (lrows leaf ! position)))"

fun first_leaf :: "node \<Rightarrow> node result" where
  "first_leaf (Leaf a keys rows nx) = Inr (Leaf a keys rows nx)"
| "first_leaf (Inner keys []) = Inl Undefined_Behaviour"
| "first_leaf (Inner keys (c # cs)) = first_leaf c"

fun leaf_list :: "node \<Rightarrow> node list" where
  "leaf_list (Leaf a keys rows nx) = [Leaf a keys rows nx]"
| "leaf_list (Inner keys children) = concat (map leaf_list children)"

text \<open>Dereferencing a \<open>next\<close> pointer.\<close>

definition leaf_at :: "bptree \<Rightarrow> addr \<Rightarrow> node option" where
  "leaf_at t a = find (\<lambda>l. laddr l = a) (leaf_list (root t))"

text \<open>The entries one leaf contributes: up to the first key above \<open>upper\<close>, and whether to stop.\<close>

fun leaf_scan :: "val option \<Rightarrow> (val \<times> row_id) list \<Rightarrow> row_id list \<times> bool" where
  "leaf_scan upper [] = ([], False)"
| "leaf_scan upper ((k, r) # es) =
     (if (case upper of None \<Rightarrow> False | Some u \<Rightarrow> 0 < compare_value k u) then ([], True)
      else let (rs, stop) = leaf_scan upper es in (r # rs, stop))"

text \<open>The walk along the chain; \<open>None\<close> means that the fuel (one unit per leaf) ran out.\<close>

fun range_walk :: "nat \<Rightarrow> bptree \<Rightarrow> val option \<Rightarrow> nat \<Rightarrow> node \<Rightarrow> row_id list option" where
  "range_walk 0 t upper start leaf = None"
| "range_walk (Suc fuel) t upper start leaf =
     (let (rs, stop) = leaf_scan upper (drop start (zip (lkeys leaf) (lrows leaf)))
      in if stop then Some rs
         else case lnext leaf of
           None \<Rightarrow> Some rs
         | Some a \<Rightarrow>
             (case leaf_at t a of
                None \<Rightarrow> None
              | Some leaf' \<Rightarrow> map_option (\<lambda>qs. rs @ qs) (range_walk fuel t upper 0 leaf')))"

definition range_tree :: "bptree \<Rightarrow> val option \<Rightarrow> val option \<Rightarrow> row_id list option result" where
  "range_tree t lower upper =
     rbind (case lower of Some l \<Rightarrow> find_leaf l (root t) | None \<Rightarrow> first_leaf (root t)) (\<lambda>leaf.
       let start = (case lower of Some l \<Rightarrow> lowerBound (lkeys leaf) l | None \<Rightarrow> 0)
       in Inr (range_walk (length (leaf_list (root t))) t upper start leaf))"

fun node_height :: "node \<Rightarrow> nat" where
  "node_height (Leaf a keys rows nx) = 1"
| "node_height (Inner keys []) = 1"
| "node_height (Inner keys (c # cs)) = Suc (node_height c)"

definition height :: "bptree \<Rightarrow> nat" where
  "height t = node_height (root t)"

section \<open>The invariant and the abstraction\<close>

definition entries :: "node \<Rightarrow> (val \<times> row_id) list" where
  "entries n = concat (map (\<lambda>l. zip (lkeys l) (lrows l)) (leaf_list n))"

definition vks :: "node \<Rightarrow> (nat \<times> int \<times> string \<times> byte list) set" where
  "vks n = vkey ` fst ` set (entries n)"

text \<open>Separator \<open>k\<close> is above every key to its left and at or below every key to its right.\<close>

fun separated :: "val list \<Rightarrow> node list \<Rightarrow> bool" where
  "separated [] cs = (length cs = 1)"
| "separated (k # ks) [] = False"
| "separated (k # ks) (c # cs) =
     ((\<forall>x\<in>vks c. x < vkey k) \<and> (\<forall>c'\<in>set cs. \<forall>x\<in>vks c'. vkey k \<le> x) \<and>
      (\<forall>k'\<in>set ks. vkey k < vkey k') \<and> separated ks cs)"

fun node_ok :: "nat \<Rightarrow> nat \<Rightarrow> node \<Rightarrow> bool" where
  "node_ok mk d (Leaf a ks rs nx) =
     (d = 0 \<and> length rs = length ks \<and> length ks \<le> mk \<and>
      sorted_wrt (<) (map vkey ks) \<and> (\<forall>k\<in>set ks. orderable k))"
| "node_ok mk d (Inner ks cs) =
     (0 < d \<and> ks \<noteq> [] \<and> length ks \<le> mk \<and> (\<forall>k\<in>set ks. orderable k) \<and> separated ks cs \<and>
      (\<forall>c\<in>set cs. node_ok mk (d - 1) c \<and> entries c \<noteq> []))"

text \<open>The \<open>next\<close> pointers visit the leaves in order and end in \<open>e\<close>.\<close>

fun links :: "addr option \<Rightarrow> node list \<Rightarrow> bool" where
  "links e [] = True"
| "links e (l # ls) = (lnext l = (case ls of [] \<Rightarrow> e | m # _ \<Rightarrow> Some (laddr m)) \<and> links e ls)"

definition tree_ok :: "bptree \<Rightarrow> bool" where
  "tree_ok t =
     (3 \<le> maxKeys t \<and> node_ok (maxKeys t) (node_height (root t) - 1) (root t) \<and>
      links None (leaf_list (root t)) \<and> distinct (map laddr (leaf_list (root t))) \<and>
      (\<forall>l\<in>set (leaf_list (root t)). laddr l < fresh t) \<and>
      tree_size t = length (entries (root t)))"

text \<open>The specification of an insertion: the new pair at its place in the sorted list.\<close>

definition ins_entry :: "val \<Rightarrow> row_id \<Rightarrow> (val \<times> row_id) list \<Rightarrow> (val \<times> row_id) list" where
  "ins_entry key row es =
     takeWhile (\<lambda>e. vkey (fst e) < vkey key) es @ (key, row) # dropWhile (\<lambda>e. vkey (fst e) < vkey key) es"

section \<open>Binary search\<close>

text \<open>On a partitioned range the halving search finds the partition point.\<close>

lemma bsearch_partition:
  assumes "first \<le> p" "p \<le> first + len"
    and "\<And>i. first \<le> i \<Longrightarrow> i < p \<Longrightarrow> go (keys ! i)"
    and "\<And>i. p \<le> i \<Longrightarrow> i < first + len \<Longrightarrow> \<not> go (keys ! i)"
  shows "bsearch go keys first len = p"
  using assms
proof (induction len arbitrary: first rule: less_induct)
  case (less len)
  show ?case
  proof (cases "len = 0")
    case True
    with less.prems show ?thesis by (simp add: bsearch.simps [of _ _ _ 0])
  next
    case False
    let ?mid = "first + len div 2"
    have mid: "?mid < first + len" using False by simp
    show ?thesis
    proof (cases "?mid < p")
      case True
      then have "go (keys ! ?mid)" using less.prems(3) by simp
      moreover have "bsearch go keys (?mid + 1) (len - len div 2 - 1) = p"
        using less.prems True mid by (intro less.IH) auto
      ultimately show ?thesis using False by (simp add: bsearch.simps [of go keys first len] Let_def)
    next
      case below: False
      then have "\<not> go (keys ! ?mid)" using less.prems(4) mid by simp
      moreover have "bsearch go keys first (len div 2) = p"
        using less.prems below False by (intro less.IH) auto
      ultimately show ?thesis using False by (simp add: bsearch.simps [of go keys first len] Let_def)
    qed
  qed
qed

lemma bsearch_takeWhile:
  assumes "\<And>i j. i \<le> j \<Longrightarrow> j < length keys \<Longrightarrow> go (keys ! j) \<Longrightarrow> go (keys ! i)"
  shows "bsearch go keys 0 (length keys) = length (takeWhile go keys)"
proof (rule bsearch_partition)
  let ?p = "length (takeWhile go keys)"
  show "?p \<le> 0 + length keys" by (simp add: length_takeWhile_le)
  show "go (keys ! i)" if "0 \<le> i" "i < ?p" for i
    using that set_takeWhileD [of "takeWhile go keys ! i" go keys]
    by (metis nth_mem takeWhile_nth)
  show "\<not> go (keys ! i)" if "?p \<le> i" "i < 0 + length keys" for i
    using that assms [of ?p i] nth_length_takeWhile [of go keys] by auto
qed simp

text \<open>A strictly increasing list of orderable keys.\<close>

definition key_list :: "val list \<Rightarrow> bool" where
  "key_list ks = (sorted_wrt (<) (map vkey ks) \<and> (\<forall>k\<in>set ks. orderable k))"

lemma key_list_mono:
  "key_list ks \<Longrightarrow> i \<le> j \<Longrightarrow> j < length ks \<Longrightarrow> vkey (ks ! i) \<le> vkey (ks ! j)"
  by (cases "i = j") (auto simp: key_list_def sorted_wrt_iff_nth_less less_imp_le)

lemma lowerBound_key:
  assumes "key_list ks" "orderable key"
  shows "lowerBound ks key = length (takeWhile (\<lambda>k. vkey k < vkey key) ks)"
proof -
  have go: "compare_value (ks ! i) key < 0 \<longleftrightarrow> vkey (ks ! i) < vkey key" if "i < length ks" for i
    using assms that by (intro val_order.cmp_less_iff) (simp_all add: key_list_def)
  have "bsearch (\<lambda>k. compare_value k key < 0) ks 0 (length ks)
      = length (takeWhile (\<lambda>k. compare_value k key < 0) ks)"
  proof (rule bsearch_takeWhile)
    fix i j assume "i \<le> j" "j < length ks" "compare_value (ks ! j) key < 0"
    with key_list_mono [OF assms(1), of i j] go [of i] go [of j]
    show "compare_value (ks ! i) key < 0" by auto
  qed
  also have "takeWhile (\<lambda>k. compare_value k key < 0) ks = takeWhile (\<lambda>k. vkey k < vkey key) ks"
    using go by (intro takeWhile_cong) (auto simp: in_set_conv_nth)
  finally show ?thesis by (simp add: lowerBound_def)
qed

lemma upperBound_key:
  assumes "key_list ks" "orderable key"
  shows "upperBound ks key = length (takeWhile (\<lambda>k. vkey k \<le> vkey key) ks)"
proof -
  have go: "\<not> compare_value key (ks ! i) < 0 \<longleftrightarrow> vkey (ks ! i) \<le> vkey key" if "i < length ks" for i
    using assms that val_order.cmp_less_iff [of key "ks ! i"] by (auto simp: key_list_def)
  have "bsearch (\<lambda>k. \<not> compare_value key k < 0) ks 0 (length ks)
      = length (takeWhile (\<lambda>k. \<not> compare_value key k < 0) ks)"
  proof (rule bsearch_takeWhile)
    fix i j assume "i \<le> j" "j < length ks" "\<not> compare_value key (ks ! j) < 0"
    with key_list_mono [OF assms(1), of i j] go [of i] go [of j]
    show "\<not> compare_value key (ks ! i) < 0" by auto
  qed
  also have "takeWhile (\<lambda>k. \<not> compare_value key k < 0) ks = takeWhile (\<lambda>k. vkey k \<le> vkey key) ks"
    using go by (intro takeWhile_cong) (auto simp: in_set_conv_nth)
  finally show ?thesis by (simp add: upperBound_def)
qed

section \<open>Structure of the nodes\<close>

lemma entries_simps [simp]:
  "entries (Leaf a ks rs nx) = zip ks rs"
  "entries (Inner ks cs) = concat (map entries cs)"
  by (simp_all add: entries_def map_concat comp_def)
    (induction cs; simp add: entries_def)

lemma vks_Inner: "vks (Inner ks cs) = (\<Union>c\<in>set cs. vks c)"
  by (auto simp: vks_def)

lemma separated_length: "separated ks cs \<Longrightarrow> length cs = Suc (length ks)"
  by (induction ks cs rule: separated.induct) auto

lemma separated_sorted: "separated ks cs \<Longrightarrow> sorted_wrt (<) (map vkey ks)"
  by (induction ks cs rule: separated.induct) auto

lemma separated_append:
  assumes "length cs1 = Suc (length ks1)"
  shows "separated (ks1 @ k # ks2) (cs1 @ cs2) \<longleftrightarrow>
    separated ks1 cs1 \<and> separated ks2 cs2 \<and>
    (\<forall>c\<in>set cs1. \<forall>x\<in>vks c. x < vkey k) \<and> (\<forall>c\<in>set cs2. \<forall>x\<in>vks c. vkey k \<le> x) \<and>
    (\<forall>k'\<in>set ks1. vkey k' < vkey k) \<and> (\<forall>k'\<in>set ks2. vkey k < vkey k')"
  using assms
proof (induction ks1 arbitrary: cs1)
  case Nil
  then show ?case by (cases cs1) auto
next
  case (Cons k1 ks1)
  then obtain c cs where cs1: "cs1 = c # cs" "length cs = Suc (length ks1)" by (cases cs1) auto
  show ?case (is "?L \<longleftrightarrow> ?R")
  proof
    assume L: ?L
    then have R: "separated ks1 cs \<and> separated ks2 cs2 \<and>
        (\<forall>c\<in>set cs. \<forall>x\<in>vks c. x < vkey k) \<and> (\<forall>c\<in>set cs2. \<forall>x\<in>vks c. vkey k \<le> x) \<and>
        (\<forall>k'\<in>set ks1. vkey k' < vkey k) \<and> (\<forall>k'\<in>set ks2. vkey k < vkey k')"
      using Cons.IH [OF cs1(2)] cs1(1) by simp
    have "vkey k1 < vkey k" "\<forall>x\<in>vks c. x < vkey k1" using L cs1(1) by simp_all
    then have "\<forall>x\<in>vks c. x < vkey k" using less_trans by blast
    with R L cs1(1) show ?R by auto
  next
    assume R: ?R
    then have "separated (ks1 @ k # ks2) (cs @ cs2)" using Cons.IH [OF cs1(2)] cs1(1) by simp
    moreover have k1: "vkey k1 < vkey k" using R by simp
    moreover have "\<forall>k'\<in>set ks2. vkey k1 < vkey k'" using R less_trans [OF k1] by blast
    moreover have "\<forall>c\<in>set cs2. \<forall>x\<in>vks c. vkey k1 \<le> x"
      using R less_imp_le [OF less_le_trans [OF k1]] by blast
    ultimately show ?L using R cs1(1) by auto
  qed
qed

lemma leaf_list_not_Nil: "node_ok mk d n \<Longrightarrow> leaf_list n \<noteq> []"
proof (induction n arbitrary: d)
  case (Inner ks cs)
  then show ?case using separated_length [of ks cs] by (cases cs) auto
qed simp

lemma node_height_ok: "node_ok mk d n \<Longrightarrow> node_height n = Suc d"
proof (induction n arbitrary: d rule: node_height.induct)
  case (3 ks c cs)
  then show ?case by (cases d) auto
next
  case (2 ks)
  then show ?case by (cases ks) auto
qed auto

text \<open>The child into which a key belongs, and what is left and right of it.\<close>

lemma child_split:
  assumes sep: "separated ks cs" and ord: "\<forall>k\<in>set ks. orderable k" "orderable key"
  obtains ks1 ks2 cs1 c cs2 where
    "ks = ks1 @ ks2" "cs = cs1 @ c # cs2" "length cs1 = length ks1" "length cs2 = length ks2"
    "upperBound ks key = length ks1"
    "\<forall>k\<in>set ks1. vkey k \<le> vkey key" "\<forall>k\<in>set ks2. vkey key < vkey k"
proof -
  let ?P = "\<lambda>k. vkey k \<le> vkey key"
  define ks1 where "ks1 = takeWhile ?P ks"
  define ks2 where "ks2 = dropWhile ?P ks"
  have kl: "key_list ks" using separated_sorted [OF sep] ord by (simp add: key_list_def)
  have ks: "ks = ks1 @ ks2" by (simp add: ks1_def ks2_def)
  have lt: "length ks1 < length cs" using separated_length [OF sep] ks by simp
  have "vkey key < vkey k" if "k \<in> set ks2" for k
  proof (cases ks2)
    case (Cons x xs)
    then have "vkey key < vkey x" using hd_dropWhile [of ?P ks] by (simp add: ks2_def not_le)
    then show ?thesis using that kl Cons ks by (auto simp: key_list_def sorted_wrt_append)
  qed (use that in simp)
  moreover have "\<forall>k\<in>set ks1. vkey k \<le> vkey key"
    by (auto simp: ks1_def dest: set_takeWhileD)
  moreover have "cs = take (length ks1) cs @ cs ! length ks1 # drop (Suc (length ks1)) cs"
    by (rule id_take_nth_drop [OF lt])
  moreover have "length (take (length ks1) cs) = length ks1"
    "length (drop (Suc (length ks1)) cs) = length ks2"
    using lt separated_length [OF sep] ks by simp_all
  moreover have "upperBound ks key = length ks1"
    using upperBound_key [OF kl ord(2)] by (simp add: ks1_def)
  ultimately show ?thesis using ks that by blast
qed

text \<open>Keys left of the chosen child are below the key, keys right of it above.\<close>

lemma child_bounds:
  assumes "separated (ks1 @ ks2) (cs1 @ c # cs2)" "length cs1 = length ks1"
    and "\<forall>k\<in>set ks1. vkey k \<le> z" "\<forall>k\<in>set ks2. z < vkey k"
  shows "\<forall>c\<in>set cs1. \<forall>x\<in>vks c. x < z" "\<forall>c\<in>set cs2. \<forall>x\<in>vks c. z < x"
proof -
  show "\<forall>c\<in>set cs1. \<forall>x\<in>vks c. x < z"
  proof (cases ks1 rule: rev_cases)
    case (snoc ys y)
    have "cs1 \<noteq> []" using assms(2) snoc by auto
    then have "separated (ys @ y # ks2) (cs1 @ (c # cs2))" "length cs1 = Suc (length ys)"
      using assms(1,2) snoc by simp_all
    then show ?thesis using separated_append [of cs1 ys y ks2 "c # cs2"] assms(3) snoc
      by (auto intro: less_le_trans)
  qed (use assms(2) in simp)
  show "\<forall>c\<in>set cs2. \<forall>x\<in>vks c. z < x"
  proof (cases ks2)
    case (Cons y ys)
    then have "separated (ks1 @ y # ys) ((cs1 @ [c]) @ cs2)" using assms(1) by simp
    then show ?thesis using separated_append [of "cs1 @ [c]" ks1 y ys cs2] assms(2,4) Cons
      by (auto intro: less_le_trans)
  qed (use separated_length [OF assms(1)] assms(2) in simp)
qed

text \<open>The in-order entries are strictly increasing.\<close>

definition entries_ok :: "(val \<times> row_id) list \<Rightarrow> bool" where
  "entries_ok es = key_list (map fst es)"

lemma entries_ok_append:
  "entries_ok (xs @ ys) \<longleftrightarrow>
     entries_ok xs \<and> entries_ok ys \<and> (\<forall>x\<in>set xs. \<forall>y\<in>set ys. vkey (fst x) < vkey (fst y))"
  by (auto simp: entries_ok_def key_list_def sorted_wrt_append)

lemma vks_iff: "x \<in> vks n \<longleftrightarrow> (\<exists>e\<in>set (entries n). x = vkey (fst e))"
  by (auto simp: vks_def)

lemma separated_entries_ok:
  assumes "separated ks cs" "\<forall>c\<in>set cs. entries_ok (entries c)"
  shows "entries_ok (concat (map entries cs))"
  using assms
proof (induction ks cs rule: separated.induct)
  case (1 cs)
  then show ?case by (cases cs) auto
next
  case (3 k ks c cs)
  have "vkey (fst x) < vkey (fst y)"
    if "x \<in> set (entries c)" "c' \<in> set cs" "y \<in> set (entries c')" for x y c'
  proof -
    have "vkey (fst x) \<in> vks c" "vkey (fst y) \<in> vks c'" using that by (auto simp: vks_def)
    then show ?thesis using "3.prems"(1) that(2) by (auto intro: less_le_trans)
  qed
  with 3 show ?case by (auto simp: entries_ok_append)
qed simp

lemma node_entries_ok: "node_ok mk d n \<Longrightarrow> entries_ok (entries n)"
proof (induction n arbitrary: d)
  case (Leaf a ks rs nx)
  then show ?case by (simp add: entries_ok_def key_list_def)
next
  case (Inner ks cs)
  then show ?case using separated_entries_ok [of ks cs] by auto
qed

section \<open>Splitting and replacing children\<close>

lemma separated_sides:
  assumes "separated ss ps" "s \<in> set ss"
  shows "(\<exists>p\<in>set ps. \<forall>x\<in>vks p. x < vkey s) \<and> (\<exists>p\<in>set ps. \<forall>x\<in>vks p. vkey s \<le> x)"
  using assms
proof (induction ss ps rule: separated.induct)
  case (3 k ks c cs)
  have "cs \<noteq> []" using separated_length [of ks cs] "3.prems"(1) by auto
  then have "hd cs \<in> set cs" by simp
  with 3 show ?case by (cases "s = k") auto
qed auto

lemma separated_between:
  assumes ps: "separated ss ps" "\<forall>p\<in>set ps. vks p \<noteq> {}" and s: "s \<in> set ss"
  shows "(\<forall>p\<in>set ps. \<forall>x\<in>vks p. z \<le> x) \<Longrightarrow> z < vkey s"
    "(\<forall>p\<in>set ps. \<forall>x\<in>vks p. x < z) \<Longrightarrow> vkey s < z"
proof -
  obtain p q where pq: "p \<in> set ps" "\<forall>x\<in>vks p. x < vkey s" "q \<in> set ps" "\<forall>x\<in>vks q. vkey s \<le> x"
    using separated_sides [OF ps(1) s] by blast
  obtain x y where xy: "x \<in> vks p" "y \<in> vks q" using ps(2) pq by blast
  show "z < vkey s" if "\<forall>p\<in>set ps. \<forall>x\<in>vks p. z \<le> x"
    using that pq xy by (blast intro: le_less_trans)
  show "vkey s < z" if "\<forall>p\<in>set ps. \<forall>x\<in>vks p. x < z"
    using that pq xy by (blast intro: le_less_trans)
qed

lemma separated_replace:
  assumes "separated (ks1 @ ks2) (cs1 @ c # cs2)" "length cs1 = length ks1"
    and ps: "separated ss ps" "\<forall>p\<in>set ps. vks p \<noteq> {}"
    and lo: "\<forall>k\<in>set ks1. \<forall>p\<in>set ps. \<forall>x\<in>vks p. vkey k \<le> x"
    and hi: "\<forall>k\<in>set ks2. \<forall>p\<in>set ps. \<forall>x\<in>vks p. x < vkey k"
  shows "separated (ks1 @ ss @ ks2) (cs1 @ ps @ cs2)"
proof -
  have lo': "vkey k < vkey s" if "k \<in> set ks1" "s \<in> set ss" for k s
    using separated_between(1) [OF ps that(2)] lo that(1) by blast
  have hi': "vkey s < vkey k" if "k \<in> set ks2" "s \<in> set ss" for k s
    using separated_between(2) [OF ps that(2)] hi that(1) by blast
  show ?thesis using assms(1,2) lo lo'
  proof (induction ks1 arbitrary: cs1)
    case Nil
    show ?case
    proof (cases ks2)
      case Nil
      then show ?thesis using Nil.prems ps(1) by simp
    next
      case (Cons z zs)
      have "separated ([] @ z # zs) ([c] @ cs2)" using Nil.prems Cons by simp
      then have "separated zs cs2" "\<forall>c\<in>set cs2. \<forall>x\<in>vks c. vkey z \<le> x" "\<forall>k'\<in>set zs. vkey z < vkey k'"
        by simp_all
      then show ?thesis
        using separated_append [of ps ss z zs cs2] separated_length [OF ps(1)] ps(1) hi hi' Cons Nil.prems
        by simp
    qed
  next
    case (Cons k1 ks1)
    then obtain c1 cs where cs1: "cs1 = c1 # cs" "length cs = length ks1" by (cases cs1) auto
    have IH: "separated (ks1 @ ss @ ks2) (cs @ ps @ cs2)"
      by (rule Cons.IH) (use Cons.prems cs1 in auto)
    show ?case using Cons.prems IH cs1 by auto
  qed
qed

lemma separated_split:
  assumes "separated ks cs" "m < length ks"
  shows "separated (take m ks) (take (Suc m) cs)" "separated (drop (Suc m) ks) (drop (Suc m) cs)"
    "separated [ks ! m] [Inner (take m ks) (take (Suc m) cs), Inner (drop (Suc m) ks) (drop (Suc m) cs)]"
proof -
  have "separated (take m ks @ ks ! m # drop (Suc m) ks) (take (Suc m) cs @ drop (Suc m) cs)"
    using assms by (simp add: id_take_nth_drop [symmetric])
  moreover have "length (take (Suc m) cs) = Suc (length (take m ks))"
    using assms separated_length [OF assms(1)] by simp
  ultimately show "separated (take m ks) (take (Suc m) cs)"
    "separated (drop (Suc m) ks) (drop (Suc m) cs)"
    "separated [ks ! m] [Inner (take m ks) (take (Suc m) cs), Inner (drop (Suc m) ks) (drop (Suc m) cs)]"
    using separated_append [of "take (Suc m) cs" "take m ks" "ks ! m" "drop (Suc m) ks" "drop (Suc m) cs"]
    by (simp_all add: vks_Inner)
qed

section \<open>The leaf chain\<close>

lemma links_append:
  "links e (xs @ ys) \<longleftrightarrow> links (case ys of [] \<Rightarrow> e | y # _ \<Rightarrow> Some (laddr y)) xs \<and> links e ys"
  by (induction xs) (auto split: list.splits)

text \<open>
  What an insertion does to the leaves: the chain stays linked up to the same successor,
  still starts at the same address, and new leaves have new addresses.
\<close>

definition chain_step :: "addr \<Rightarrow> addr \<Rightarrow> node list \<Rightarrow> node list \<Rightarrow> bool" where
  "chain_step fr fr' old new \<longleftrightarrow>
     fr \<le> fr' \<and> old \<noteq> [] \<and> new \<noteq> [] \<and> laddr (hd new) = laddr (hd old) \<and>
     (\<forall>e. links e old \<longrightarrow> links e new) \<and>
     laddr ` set new \<subseteq> laddr ` set old \<union> {fr..<fr'} \<and>
     (distinct (map laddr old) \<and> (\<forall>l\<in>set old. laddr l < fr) \<longrightarrow> distinct (map laddr new))"

lemma chain_step_frame:
  assumes "chain_step fr fr' old new" "distinct (map laddr (xs @ old @ ys))"
    and fr: "\<forall>l\<in>set (xs @ old @ ys). laddr l < fr"
  shows "distinct (map laddr (xs @ new @ ys))"
proof -
  have "distinct (map laddr new)" and sub: "laddr ` set new \<subseteq> laddr ` set old \<union> {fr..<fr'}"
    using assms by (auto simp: chain_step_def)
  moreover have "laddr ` set new \<inter> (laddr ` set xs \<union> laddr ` set ys) = {}"
  proof -
    have "laddr ` set old \<inter> (laddr ` set xs \<union> laddr ` set ys) = {}" using assms(2) by auto
    moreover have "\<forall>l\<in>set xs \<union> set ys. \<not> fr \<le> laddr l" using fr by (simp add: ball_Un not_le)
    then have "{fr..<fr'} \<inter> (laddr ` set xs \<union> laddr ` set ys) = {}" by auto
    ultimately show ?thesis using sub by blast
  qed
  ultimately show ?thesis using assms(2) by auto
qed

lemma chain_step_context:
  assumes step: "chain_step fr fr' old new"
  shows "chain_step fr fr' (xs @ old @ ys) (xs @ new @ ys)"
proof -
  obtain o1 os n1 ns where old: "old = o1 # os" and new: "new = n1 # ns"
    using step by (metis chain_step_def neq_Nil_conv)
  have hd: "laddr n1 = laddr o1" using step old new by (simp add: chain_step_def)
  have "links e (xs @ new @ ys)" if "links e (xs @ old @ ys)" for e
  proof -
    let ?e = "case ys of [] \<Rightarrow> e | y # _ \<Rightarrow> Some (laddr y)"
    from that have "links (Some (laddr o1)) xs" "links e (old @ ys)"
      using old by (simp_all add: links_append [of _ xs])
    moreover from this(2) have "links ?e old" "links e ys" unfolding links_append by simp_all
    moreover from this have "links ?e new" using step by (simp add: chain_step_def)
    ultimately have "links (Some (laddr n1)) xs" "links e (new @ ys)"
      using hd unfolding links_append by simp_all
    then show ?thesis using new by (simp add: links_append [of _ xs])
  qed
  moreover have "laddr (hd (xs @ new @ ys)) = laddr (hd (xs @ old @ ys))"
    using hd old new by (cases xs) auto
  moreover have "laddr ` set (xs @ new @ ys) \<subseteq> laddr ` set (xs @ old @ ys) \<union> {fr..<fr'}"
    using step by (auto simp: chain_step_def)
  ultimately show ?thesis using step chain_step_frame [OF step, of xs ys]
    unfolding chain_step_def by blast
qed

section \<open>Insertion\<close>

lemma ins_entry_context:
  assumes "\<forall>e\<in>set xs. vkey (fst e) < vkey key" "\<forall>e\<in>set ys. vkey key < vkey (fst e)"
  shows "ins_entry key row (xs @ es @ ys) = xs @ ins_entry key row es @ ys"
proof -
  have "takeWhile (\<lambda>e. vkey (fst e) < vkey key) ys = []" "dropWhile (\<lambda>e. vkey (fst e) < vkey key) ys = ys"
    using assms(2) by (cases ys; auto simp: not_less_iff_gr_or_eq)+
  then show ?thesis using assms(1)
    by (cases "\<forall>e\<in>set es. vkey (fst e) < vkey key")
      (auto simp: ins_entry_def takeWhile_append dropWhile_append takeWhile_eq_all_conv [THEN iffD2])
qed

lemma set_ins_entry: "set (ins_entry key row es) = insert (key, row) (set es)"
proof -
  let ?P = "\<lambda>e. vkey (fst e) < vkey key"
  have "set es = set (takeWhile ?P es @ dropWhile ?P es)" by simp
  then show ?thesis by (auto simp: ins_entry_def simp del: takeWhile_dropWhile_id)
qed

lemma mset_ins_entry: "mset (ins_entry key row es) = add_mset (key, row) (mset es)"
proof -
  let ?P = "\<lambda>e. vkey (fst e) < vkey key"
  have "mset es = mset (takeWhile ?P es @ dropWhile ?P es)" by simp
  then show ?thesis by (simp add: ins_entry_def del: takeWhile_dropWhile_id)
qed

lemma length_ins_entry [simp]: "length (ins_entry key row es) = Suc (length es)"
proof -
  let ?P = "\<lambda>e. vkey (fst e) < vkey key"
  have "length es = length (takeWhile ?P es @ dropWhile ?P es)" by simp
  then show ?thesis by (simp add: ins_entry_def del: takeWhile_dropWhile_id)
qed

lemma dropWhile_above:
  assumes "entries_ok es" "e \<in> set (dropWhile (\<lambda>e. vkey (fst e) < z) es)"
  shows "z \<le> vkey (fst e)"
proof (cases "dropWhile (\<lambda>e. vkey (fst e) < z) es")
  case (Cons d ds)
  have "\<not> vkey (fst d) < z" using hd_dropWhile [of "\<lambda>e. vkey (fst e) < z" es] Cons by simp
  moreover have "entries_ok (d # ds)"
    using assms(1) Cons takeWhile_dropWhile_id [of "\<lambda>e. vkey (fst e) < z" es]
    by (metis entries_ok_append)
  ultimately show ?thesis using assms(2) Cons
    by (auto simp: entries_ok_def key_list_def not_less intro: less_imp_le order_trans)
qed (use assms(2) in \<open>simp del: dropWhile_eq_Nil_conv\<close>)

lemma ins_entry_ok:
  assumes "entries_ok es" "orderable key" "vkey key \<notin> vkey ` fst ` set es"
  shows "entries_ok (ins_entry key row es)"
proof -
  let ?P = "\<lambda>e. vkey (fst e) < vkey key"
  have "entries_ok (takeWhile ?P es @ dropWhile ?P es)" using assms(1) by simp
  then have parts: "entries_ok (takeWhile ?P es)" "entries_ok (dropWhile ?P es)"
    "\<forall>x\<in>set (takeWhile ?P es). \<forall>y\<in>set (dropWhile ?P es). vkey (fst x) < vkey (fst y)"
    unfolding entries_ok_append by blast+
  have "vkey key < vkey (fst y)" if "y \<in> set (dropWhile ?P es)" for y
    using dropWhile_above [OF assms(1) that] assms(3) set_dropWhileD [OF that]
    by (metis image_eqI order_less_le)
  moreover have "\<forall>x\<in>set (takeWhile ?P es). ?P x" by (auto dest: set_takeWhileD)
  moreover have "entries_ok ((key, row) # ds) \<longleftrightarrow>
      (\<forall>y\<in>set ds. vkey key < vkey (fst y)) \<and> entries_ok ds" for ds
    using assms(2) by (auto simp: entries_ok_def key_list_def)
  ultimately show ?thesis using parts by (auto simp: ins_entry_def entries_ok_append)
qed

lemma zip_insert_at:
  "length rs = length ks \<Longrightarrow> p \<le> length ks \<Longrightarrow>
   zip (insert_at p k ks) (insert_at p r rs) = insert_at p (k, r) (zip ks rs)"
  by (simp add: insert_at_def zip_append take_zip drop_zip)

lemma takeWhile_map_fst:
  "length rs = length ks \<Longrightarrow>
   length (takeWhile P ks) = length (takeWhile (\<lambda>e. P (fst e)) (zip ks rs))"
  by (induction ks rs rule: list_induct2') auto

lemma ins_entry_at:
  "ins_entry key row es = insert_at (length (takeWhile (\<lambda>e. vkey (fst e) < vkey key) es)) (key, row) es"
  by (simp add: ins_entry_def insert_at_def takeWhile_eq_take [symmetric] dropWhile_eq_drop [symmetric])

lemma leaf_insert_entries:
  assumes "length rs = length ks" "key_list ks" "orderable key"
  shows "zip (insert_at (lowerBound ks key) key ks) (insert_at (lowerBound ks key) row rs)
    = ins_entry key row (zip ks rs)"
  using assms length_takeWhile_le [of "\<lambda>k. vkey k < vkey key" ks]
    takeWhile_map_fst [of rs ks "\<lambda>k. vkey k < vkey key"]
  by (simp add: zip_insert_at lowerBound_key ins_entry_at)

text \<open>The duplicate test of a leaf finds exactly the keys that are there.\<close>

lemma lowerBound_hit:
  assumes "key_list ks" "orderable key"
  shows "lowerBound ks key < length ks \<and> compare_value (ks ! lowerBound ks key) key = 0 \<longleftrightarrow>
    vkey key \<in> vkey ` set ks"
proof
  assume "lowerBound ks key < length ks \<and> compare_value (ks ! lowerBound ks key) key = 0"
  then show "vkey key \<in> vkey ` set ks"
    using assms val_order.cmp_eq_iff [of "ks ! lowerBound ks key" key]
    by (auto simp: key_list_def intro!: image_eqI [of _ _ "ks ! lowerBound ks key"])
next
  let ?P = "\<lambda>k. vkey k < vkey key"
  assume "vkey key \<in> vkey ` set ks"
  then obtain j where j: "j < length ks" "vkey (ks ! j) = vkey key" by (auto simp: in_set_conv_nth)
  let ?p = "length (takeWhile ?P ks)"
  have "\<not> j < ?p" using j takeWhile_nth [of j ?P ks] set_takeWhileD [of "ks ! j" ?P ks]
    by (metis nth_mem order_less_irrefl)
  then have p: "?p \<le> j" "?p < length ks" using j(1) by auto
  then have "vkey (ks ! ?p) = vkey key"
    using nth_length_takeWhile [of ?P ks] key_list_mono [OF assms(1) p(1) j(1)] j(2) by auto
  then show "lowerBound ks key < length ks \<and> compare_value (ks ! lowerBound ks key) key = 0"
    using assms p(2) val_order.cmp_eq_iff [of "ks ! ?p" key]
    by (simp add: lowerBound_key key_list_def)
qed

definition parts :: "node \<Rightarrow> (val \<times> node) option \<Rightarrow> node list" where
  "parts n split = n # (case split of None \<Rightarrow> [] | Some (s, r) \<Rightarrow> [r])"

definition seps :: "(val \<times> node) option \<Rightarrow> val list" where
  "seps split = (case split of None \<Rightarrow> [] | Some (s, r) \<Rightarrow> [s])"

lemma parts_seps_simps [simp]:
  "parts n None = [n]" "parts n (Some (s, r)) = [n, r]" "seps None = []" "seps (Some (s, r)) = [s]"
  by (simp_all add: parts_def seps_def)

definition insert_post ::
  "nat \<Rightarrow> nat \<Rightarrow> addr \<Rightarrow> val \<Rightarrow> row_id \<Rightarrow> node \<Rightarrow> node \<times> (val \<times> node) option \<times> addr \<Rightarrow> bool" where
  "insert_post mk d fr key row n res = (case res of (n', split, fr') \<Rightarrow>
     (\<forall>m\<in>set (parts n' split). node_ok mk d m \<and> entries m \<noteq> []) \<and>
     (\<forall>s\<in>set (seps split). orderable s) \<and>
     separated (seps split) (parts n' split) \<and>
     concat (map entries (parts n' split)) = ins_entry key row (entries n) \<and>
     chain_step fr fr' (leaf_list n) (concat (map leaf_list (parts n' split))))"

lemma chain_step_leaf:
  "chain_step fr fr [Leaf a ks rs nx] [Leaf a ks' rs' nx]"
  by (auto simp: chain_step_def)

lemma chain_step_leaf_split:
  "chain_step fr (Suc fr) [Leaf a ks rs nx] [Leaf a ks1 rs1 (Some fr), Leaf fr ks2 rs2 nx]"
  by (auto simp: chain_step_def)

lemma length_insert_at [simp]: "i \<le> length xs \<Longrightarrow> length (insert_at i x xs) = Suc (length xs)"
  by (simp add: insert_at_def)

lemma key_list_take_drop:
  "key_list ks \<Longrightarrow> key_list (take m ks)" "key_list ks \<Longrightarrow> key_list (drop m ks)"
  by (auto simp: key_list_def take_map [symmetric] drop_map [symmetric] sorted_wrt_take sorted_wrt_drop
      dest: in_set_takeD in_set_dropD)

lemma key_list_halves:
  assumes "key_list ks" "m < length ks"
  shows "x \<in> set (take m ks) \<Longrightarrow> vkey x < vkey (ks ! m)" "y \<in> set (drop m ks) \<Longrightarrow> vkey (ks ! m) \<le> vkey y"
proof -
  show "vkey x < vkey (ks ! m)" if "x \<in> set (take m ks)"
    using that assms by (auto simp: in_set_conv_nth key_list_def sorted_wrt_iff_nth_less)
  show "vkey (ks ! m) \<le> vkey y" if "y \<in> set (drop m ks)"
    using that assms key_list_mono [OF assms(1)] by (auto simp: in_set_conv_nth)
qed

lemma leaf_node_ok:
  "node_ok mk 0 (Leaf a ks rs nx) \<longleftrightarrow> length rs = length ks \<and> length ks \<le> mk \<and> key_list ks"
  by (auto simp: key_list_def)

lemma insert_leaf_post:
  assumes ok: "node_ok mk 0 (Leaf a ks rs nx)" and mk: "3 \<le> mk" and key: "orderable key"
    and new: "vkey key \<notin> vks (Leaf a ks rs nx)"
  shows "\<exists>res. insert_node mk fr key row (Leaf a ks rs nx) = Inr res \<and>
    insert_post mk 0 fr key row (Leaf a ks rs nx) res"
proof -
  let ?p = "lowerBound ks key"
  let ?ks = "insert_at ?p key ks" let ?rs = "insert_at ?p row rs"
  have kl: "key_list ks" and len: "length rs = length ks" "length ks \<le> mk"
    using ok unfolding leaf_node_ok by simp_all
  have p: "?p \<le> length ks" using kl key by (simp add: lowerBound_key length_takeWhile_le)
  have zip: "zip ?ks ?rs = ins_entry key row (zip ks rs)"
    by (rule leaf_insert_entries [OF len(1) kl key])
  have fst: "map fst (zip ?ks ?rs) = ?ks" using p len by simp
  have nohit: "\<not> (?p < length ks \<and> compare_value (ks ! ?p) key = 0)"
    using lowerBound_hit [OF kl key] new len by (simp add: vks_def image_image [symmetric] set_map [symmetric] del: set_map)
  have kl': "key_list ?ks"
    using ins_entry_ok [of "zip ks rs" key row] new key kl len zip fst
    by (simp add: entries_ok_def vks_def)
  show ?thesis
  proof (cases "length ?ks \<le> mk")
    case True
    have "zip ?ks ?rs \<noteq> []" using p len by (simp flip: length_greater_0_conv)
    then show ?thesis using True nohit kl' p len zip
      by (auto simp: insert_post_def Let_def chain_step_leaf key_list_def)
  next
    case False
    let ?m = "length ?ks div 2"
    have m: "0 < ?m" "?m < length ?ks" using False mk p len by auto
    have sep: "separated [?ks ! ?m]
        [Leaf a (take ?m ?ks) (take ?m ?rs) (Some fr), Leaf fr (drop ?m ?ks) (drop ?m ?rs) nx]"
      using key_list_halves [OF kl' m(2)] p len
      by (auto simp: vks_def dest!: set_zip_leftD)
    have ok2: "node_ok mk 0 (Leaf a (take ?m ?ks) (take ?m ?rs) (Some fr))"
      "node_ok mk 0 (Leaf fr (drop ?m ?ks) (drop ?m ?rs) nx)"
      using kl' p len key_list_take_drop mk unfolding leaf_node_ok by auto
    have "zip (take ?m ?ks) (take ?m ?rs) @ zip (drop ?m ?ks) (drop ?m ?rs) = ins_entry key row (zip ks rs)"
      using zip by (simp add: take_zip [symmetric] drop_zip [symmetric])
    moreover have "zip (take ?m ?ks) (take ?m ?rs) \<noteq> []" "zip (drop ?m ?ks) (drop ?m ?rs) \<noteq> []"
      using m p len by (auto simp flip: length_greater_0_conv)
    moreover have "orderable (?ks ! ?m)" using kl' m(2) by (simp add: key_list_def)
    ultimately show ?thesis using False nohit sep ok2
      by (simp add: insert_post_def Let_def chain_step_leaf_split del: node_ok.simps separated.simps)
  qed
qed

text \<open>The tail of an inner insertion: keep the node, or split it around its middle separator.\<close>

definition inner_result :: "nat \<Rightarrow> addr \<Rightarrow> val list \<Rightarrow> node list \<Rightarrow> node \<times> (val \<times> node) option \<times> addr" where
  "inner_result mk fr ks cs =
     (if length ks \<le> mk then (Inner ks cs, None, fr)
      else let m = length ks div 2
           in (Inner (take m ks) (take (Suc m) cs),
               Some (ks ! m, Inner (drop (Suc m) ks) (drop (Suc m) cs)), fr))"

lemma insert_node_Inner:
  assumes "upperBound (ks1 @ ks2) key = length ks1" "length cs1 = length ks1" "length (ks1 @ ks2) \<le> mk"
    and "insert_node mk fr key row c = Inr (n', split, fr')"
  shows "insert_node mk fr key row (Inner (ks1 @ ks2) (cs1 @ c # cs2)) =
    Inr (inner_result mk fr' (ks1 @ seps split @ ks2) (cs1 @ parts n' split @ cs2))"
proof -
  have at: "insert_at (length ks1) x (ks1 @ ks2) = ks1 @ x # ks2" for x by (simp add: insert_at_def)
  have "insert_at (Suc (length ks1)) r ((cs1 @ c # cs2)[length ks1 := n']) = cs1 @ n' # r # cs2" for r
    using assms(2) [symmetric] by (simp add: insert_at_def)
  moreover have "(cs1 @ c # cs2) ! length ks1 = c" "(cs1 @ c # cs2)[length ks1 := n'] = cs1 @ n' # cs2"
    using assms(2) [symmetric] by simp_all
  ultimately show ?thesis using assms at
    by (cases split) (auto simp: inner_result_def Let_def simp del: take_append drop_append split: if_splits)
qed

definition inner_ok :: "nat \<Rightarrow> val list \<Rightarrow> node list \<Rightarrow> nat \<Rightarrow> bool" where
  "inner_ok mk ks cs d \<longleftrightarrow> ks \<noteq> [] \<and> (\<forall>k\<in>set ks. orderable k) \<and> separated ks cs \<and>
     (\<forall>c\<in>set cs. node_ok mk d c \<and> entries c \<noteq> [])"

lemma node_ok_Inner: "node_ok mk (Suc d) (Inner ks cs) \<longleftrightarrow> length ks \<le> mk \<and> inner_ok mk ks cs d"
  by (auto simp: inner_ok_def)

lemma inner_ok_entries: "inner_ok mk ks cs d \<Longrightarrow> concat (map entries cs) \<noteq> []"
  using separated_length [of ks cs] by (cases cs) (auto simp: inner_ok_def)

lemma concat_take_drop: "concat (map f (take m cs)) @ concat (map f (drop m cs)) = concat (map f cs)"
  by (metis append_take_drop_id concat_append map_append)

lemma inner_result_post:
  assumes ok: "inner_ok mk ks cs d" and len: "length ks \<le> Suc mk" and mk: "3 \<le> mk"
    and es: "concat (map entries cs) = ins_entry key row (entries n)"
    and ch: "chain_step fr fr' (leaf_list n) (concat (map leaf_list cs))"
  shows "insert_post mk (Suc d) fr key row n (inner_result mk fr' ks cs)"
proof (cases "length ks \<le> mk")
  case True
  then show ?thesis using ok es ch inner_ok_entries [OF ok]
    by (simp add: insert_post_def inner_result_def node_ok_Inner del: node_ok.simps)
next
  case False
  let ?m = "length ks div 2"
  let ?l = "Inner (take ?m ks) (take (Suc ?m) cs)" let ?r = "Inner (drop (Suc ?m) ks) (drop (Suc ?m) cs)"
  have m: "?m < length ks" "0 < ?m" "Suc ?m < length ks" "length ks - Suc ?m \<le> mk" "?m \<le> mk"
    using False mk len by linarith+
  have sep: "separated ks cs" using ok by (simp add: inner_ok_def)
  note split = separated_split [OF sep m(1)]
  have oks: "inner_ok mk (take ?m ks) (take (Suc ?m) cs) d" "inner_ok mk (drop (Suc ?m) ks) (drop (Suc ?m) cs) d"
    using ok split m by (auto simp: inner_ok_def dest: in_set_takeD in_set_dropD)
  then have nodes: "node_ok mk (Suc d) ?l" "node_ok mk (Suc d) ?r"
    using m by (simp_all add: node_ok_Inner del: node_ok.simps)
  have "orderable (ks ! ?m)" using ok m(1) by (simp add: inner_ok_def)
  then show ?thesis
    using False nodes split(3) es ch inner_ok_entries [OF oks(1)] inner_ok_entries [OF oks(2)]
    by (simp add: insert_post_def inner_result_def Let_def concat_take_drop del: node_ok.simps separated.simps)
qed

text \<open>Replacing a child by the parts its insertion returned keeps the inner invariant.\<close>

lemma inner_ok_replace:
  assumes ok: "inner_ok mk (ks1 @ ks2) (cs1 @ c # cs2) d" and len: "length cs1 = length ks1"
    and lo: "\<forall>k\<in>set ks1. vkey k \<le> vkey key" and hi: "\<forall>k\<in>set ks2. vkey key < vkey k"
    and post: "insert_post mk d fr key row c (n', split, fr')"
  shows "inner_ok mk (ks1 @ seps split @ ks2) (cs1 @ parts n' split @ cs2) d"
proof -
  let ?ps = "parts n' split"
  have sep: "separated (ks1 @ ks2) (cs1 @ c # cs2)" using ok by (simp add: inner_ok_def)
  have "(\<Union>p\<in>set ?ps. vks p) = insert (vkey key) (vks c)"
  proof -
    have "set (concat (map entries ?ps)) = insert (key, row) (set (entries c))"
      using post by (simp add: insert_post_def set_ins_entry)
    then show ?thesis by (simp add: vks_def image_UN [symmetric])
  qed
  then have mem: "x = vkey key \<or> x \<in> vks c" if "p \<in> set ?ps" "x \<in> vks p" for p x using that by blast
  have below: "\<forall>k\<in>set ks1. \<forall>x\<in>vks c. vkey k \<le> x"
  proof (cases ks1 rule: rev_cases)
    case (snoc ys y)
    then have "separated (ys @ y # ks2) (cs1 @ (c # cs2))" "length cs1 = Suc (length ys)"
      using sep len by simp_all
    then have "\<forall>x\<in>vks c. vkey y \<le> x" "\<forall>k\<in>set ys. vkey k < vkey y"
      using separated_append [of cs1 ys y ks2 "c # cs2"] by simp_all
    then show ?thesis using snoc by (simp, blast intro: less_imp_le less_le_trans)
  qed simp
  have above: "\<forall>k\<in>set ks2. \<forall>x\<in>vks c. x < vkey k"
  proof (cases ks2)
    case (Cons y ys)
    then have "separated (ks1 @ y # ys) ((cs1 @ [c]) @ cs2)" using sep by simp
    then have "\<forall>x\<in>vks c. x < vkey y" "\<forall>k\<in>set ys. vkey y < vkey k"
      using separated_append [of "cs1 @ [c]" ks1 y ys cs2] len by simp_all
    then show ?thesis using Cons by (simp, blast intro: less_trans)
  qed simp
  have ne: "\<forall>p\<in>set ?ps. vks p \<noteq> {}" using post by (auto simp: insert_post_def vks_def)
  have "separated (ks1 @ seps split @ ks2) (cs1 @ ?ps @ cs2)"
  proof (rule separated_replace [OF sep len _ ne])
    show "separated (seps split) ?ps" using post by (simp add: insert_post_def)
    show "\<forall>k\<in>set ks1. \<forall>p\<in>set ?ps. \<forall>x\<in>vks p. vkey k \<le> x" using mem below lo by blast
    show "\<forall>k\<in>set ks2. \<forall>p\<in>set ?ps. \<forall>x\<in>vks p. x < vkey k" using mem above hi by blast
  qed
  then show ?thesis using ok post by (auto simp: inner_ok_def insert_post_def)
qed

theorem insert_node_new:
  assumes "node_ok mk d n" "3 \<le> mk" "orderable key" "vkey key \<notin> vks n"
  shows "\<exists>res. insert_node mk fr key row n = Inr res \<and> insert_post mk d fr key row n res"
  using assms
proof (induction d arbitrary: n)
  case 0
  then obtain a ks rs nx where "n = Leaf a ks rs nx" by (cases n) auto
  with 0 show ?case using insert_leaf_post by blast
next
  case (Suc d)
  then obtain ks cs where n: "n = Inner ks cs" by (cases n) auto
  with Suc.prems have ok: "inner_ok mk ks cs d" "length ks \<le> mk"
    by (simp_all add: node_ok_Inner del: node_ok.simps)
  then have sep: "separated ks cs" and ord: "\<forall>k\<in>set ks. orderable k" by (simp_all add: inner_ok_def)
  obtain ks1 ks2 cs1 c cs2 where sp: "ks = ks1 @ ks2" "cs = cs1 @ c # cs2" "length cs1 = length ks1"
    "upperBound ks key = length ks1"
    "\<forall>k\<in>set ks1. vkey k \<le> vkey key" "\<forall>k\<in>set ks2. vkey key < vkey k"
    using child_split [OF sep ord Suc.prems(3)] by metis
  have c: "node_ok mk d c" "vkey key \<notin> vks c" using ok(1) sp(2) Suc.prems(4) n by (auto simp: inner_ok_def vks_Inner)
  obtain n' split fr' where res: "insert_node mk fr key row c = Inr (n', split, fr')"
    "insert_post mk d fr key row c (n', split, fr')"
    using Suc.IH [OF c(1) Suc.prems(2,3) c(2)] by (metis prod_cases3)
  let ?ks = "ks1 @ seps split @ ks2" let ?cs = "cs1 @ parts n' split @ cs2"
  have eq: "insert_node mk fr key row n = Inr (inner_result mk fr' ?ks ?cs)"
    using insert_node_Inner [OF _ sp(3) _ res(1)] sp ok(2) n by simp
  note bounds = child_bounds [OF sep [unfolded sp(1,2)] sp(3,5,6)]
  have "concat (map entries ?cs) = ins_entry key row (entries n)"
    using ins_entry_context [of "concat (map entries cs1)" key "concat (map entries cs2)" row "entries c"]
      bounds res(2) n sp(2) by (simp add: insert_post_def vks_def)
  moreover have "chain_step fr fr' (leaf_list n) (concat (map leaf_list ?cs))"
    using chain_step_context [of fr fr' "leaf_list c" "concat (map leaf_list (parts n' split))"
        "concat (map leaf_list cs1)" "concat (map leaf_list cs2)"] res(2) n sp(2)
    by (simp add: insert_post_def)
  moreover have "length ?ks \<le> Suc mk" using ok(2) sp(1) by (cases split) auto
  ultimately have "insert_post mk (Suc d) fr key row n (inner_result mk fr' ?ks ?cs)"
    using inner_ok_replace [OF ok(1) [unfolded sp(1,2)] sp(3,5,6) res(2)] Suc.prems(2)
    by (intro inner_result_post)
  then show ?case using eq by blast
qed

theorem insert_node_duplicate:
  assumes "node_ok mk d n" "orderable key" "vkey key \<in> vks n"
  shows "insert_node mk fr key row n = Inl (Runtime_Error ''Duplicate B+ tree key'')"
  using assms
proof (induction d arbitrary: n)
  case 0
  then obtain a ks rs nx where n: "n = Leaf a ks rs nx" by (cases n) auto
  have "key_list ks" "length rs = length ks" using 0(1) unfolding n leaf_node_ok by simp_all
  then show ?case using lowerBound_hit [of ks key] 0(2,3) n
    by (simp add: vks_def Let_def set_map [symmetric] del: set_map)
next
  case (Suc d)
  then obtain ks cs where n: "n = Inner ks cs" by (cases n) auto
  with Suc.prems have ok: "inner_ok mk ks cs d" by (simp add: node_ok_Inner del: node_ok.simps)
  then have sep: "separated ks cs" and ord: "\<forall>k\<in>set ks. orderable k" by (simp_all add: inner_ok_def)
  obtain ks1 ks2 cs1 c cs2 where sp: "ks = ks1 @ ks2" "cs = cs1 @ c # cs2" "length cs1 = length ks1"
    "upperBound ks key = length ks1"
    "\<forall>k\<in>set ks1. vkey k \<le> vkey key" "\<forall>k\<in>set ks2. vkey key < vkey k"
    using child_split [OF sep ord Suc.prems(2)] by metis
  note bounds = child_bounds [OF sep [unfolded sp(1,2)] sp(3,5,6)]
  have "vkey key \<in> vks c" using Suc.prems(3) bounds n sp(2) by (auto simp: vks_Inner)
  moreover have "node_ok mk d c" using ok sp(2) by (simp add: inner_ok_def)
  ultimately have "insert_node mk fr key row c = Inl (Runtime_Error ''Duplicate B+ tree key'')"
    using Suc.IH Suc.prems(2) by blast
  moreover have "(cs1 @ c # cs2) ! length ks1 = c" using sp(3) [symmetric] by simp
  ultimately show ?case using n sp by simp
qed

section \<open>Search\<close>

definition leaf_entries :: "node list \<Rightarrow> (val \<times> row_id) list" where
  "leaf_entries ls = concat (map (\<lambda>l. zip (lkeys l) (lrows l)) ls)"

lemma leaf_entries_simps [simp]:
  "leaf_entries [] = []"
  "leaf_entries (l # ls) = zip (lkeys l) (lrows l) @ leaf_entries ls"
  "leaf_entries (xs @ ys) = leaf_entries xs @ leaf_entries ys"
  by (simp_all add: leaf_entries_def)

lemma entries_leaf_list: "entries n = leaf_entries (leaf_list n)"
  by (simp add: entries_def leaf_entries_def)

lemma leaf_entries_concat: "leaf_entries (concat (map leaf_list cs)) = concat (map entries cs)"
  by (induction cs) (simp_all add: entries_leaf_list)

text \<open>The leaf \<open>l\<close> is where \<open>key\<close> belongs: the leaves before hold smaller keys, those after larger ones.\<close>

definition located :: "nat \<Rightarrow> val \<Rightarrow> node list \<Rightarrow> node list \<Rightarrow> node \<Rightarrow> node list \<Rightarrow> bool" where
  "located mk key ls pre l post \<longleftrightarrow>
     ls = pre @ l # post \<and> node_ok mk 0 l \<and>
     (\<forall>e\<in>set (leaf_entries pre). vkey (fst e) < vkey key) \<and>
     (\<forall>e\<in>set (leaf_entries post). vkey key < vkey (fst e))"

lemma find_leaf_located:
  assumes "node_ok mk d n" "orderable key"
  shows "\<exists>pre l post. find_leaf key n = Inr l \<and> located mk key (leaf_list n) pre l post"
  using assms
proof (induction d arbitrary: n)
  case 0
  then obtain a ks rs nx where n: "n = Leaf a ks rs nx" by (cases n) auto
  have "located mk key (leaf_list n) [] n []" using 0 n by (simp add: located_def)
  then show ?case using n by fastforce
next
  case (Suc d)
  then obtain ks cs where n: "n = Inner ks cs" by (cases n) auto
  with Suc.prems have ok: "inner_ok mk ks cs d" by (simp add: node_ok_Inner del: node_ok.simps)
  then have sep: "separated ks cs" and ord: "\<forall>k\<in>set ks. orderable k" by (simp_all add: inner_ok_def)
  obtain ks1 ks2 cs1 c cs2 where sp: "ks = ks1 @ ks2" "cs = cs1 @ c # cs2" "length cs1 = length ks1"
    "upperBound ks key = length ks1"
    "\<forall>k\<in>set ks1. vkey k \<le> vkey key" "\<forall>k\<in>set ks2. vkey key < vkey k"
    using child_split [OF sep ord Suc.prems(2)] by metis
  note bounds = child_bounds [OF sep [unfolded sp(1,2)] sp(3,5,6)]
  have "node_ok mk d c" using ok sp(2) by (simp add: inner_ok_def)
  then obtain pre l post where IH: "find_leaf key c = Inr l" "located mk key (leaf_list c) pre l post"
    using Suc.IH Suc.prems(2) by metis
  have "find_leaf key n = Inr l" using n sp IH(1) sp(3) [symmetric] by simp
  moreover have "located mk key (leaf_list n) (concat (map leaf_list cs1) @ pre) l (post @ concat (map leaf_list cs2))"
    using IH(2) bounds n sp(2) by (auto simp: located_def leaf_entries_concat vks_def)
  ultimately show ?case by blast
qed

lemma first_leaf_list:
  "node_ok mk d n \<Longrightarrow> \<exists>l post. first_leaf n = Inr l \<and> leaf_list n = l # post \<and> node_ok mk 0 l"
proof (induction n arbitrary: d rule: first_leaf.induct)
  case (3 ks c cs)
  then show ?case by fastforce
next
  case (2 ks)
  then show ?case by (cases ks) auto
qed auto

lemma leaf_shape: "node_ok mk 0 l \<Longrightarrow> length (lrows l) = length (lkeys l) \<and> key_list (lkeys l)"
  by (cases l) (auto simp: key_list_def)

text \<open>Dropping up to \<open>lowerBound\<close> keeps the entries that are not below the key.\<close>

lemma drop_lowerBound:
  fixes rs :: "row_id list"
  assumes "length rs = length ks" "key_list ks" "orderable key"
  shows "drop (lowerBound ks key) (zip ks rs) = filter (\<lambda>e. \<not> vkey (fst e) < vkey key) (zip ks rs)"
proof -
  let ?P = "\<lambda>e :: val \<times> row_id. vkey (fst e) < vkey key"
  let ?es = "zip ks rs"
  have ok: "entries_ok ?es" using assms by (simp add: entries_ok_def)
  have "filter (\<lambda>e. \<not> ?P e) ?es = filter (\<lambda>e. \<not> ?P e) (takeWhile ?P ?es @ dropWhile ?P ?es)" by simp
  also have "\<dots> = dropWhile ?P ?es"
  proof -
    have "\<forall>e\<in>set (takeWhile ?P ?es). ?P e" by (auto dest: set_takeWhileD)
    then have "filter (\<lambda>e. \<not> ?P e) (takeWhile ?P ?es) = []" by (simp add: filter_empty_conv)
    moreover have "filter (\<lambda>e. \<not> ?P e) (dropWhile ?P ?es) = dropWhile ?P ?es"
      using dropWhile_above [OF ok, of _ "vkey key"] by (simp add: filter_id_conv not_less)
    ultimately show ?thesis unfolding filter_append by simp
  qed
  also have "\<dots> = drop (lowerBound ks key) ?es"
    using assms takeWhile_map_fst [of rs ks "\<lambda>k. vkey k < vkey key"]
    by (simp add: lowerBound_key dropWhile_eq_drop)
  finally show ?thesis by simp
qed

lemma entries_unique:
  "entries_ok es \<Longrightarrow> e \<in> set es \<Longrightarrow> e' \<in> set es \<Longrightarrow> vkey (fst e) = vkey (fst e') \<Longrightarrow> e = e'"
  by (induction es) (auto simp: entries_ok_def key_list_def)

theorem find_tree_spec:
  assumes ok: "node_ok (maxKeys t) d (root t)" and key: "orderable key"
  shows "find_tree t key =
    Inr (map_option snd (find (\<lambda>e. compare_value (fst e) key = 0) (entries (root t))))"
proof -
  let ?hit = "\<lambda>e :: val \<times> row_id. compare_value (fst e) key = 0"
  let ?es = "entries (root t)"
  obtain pre l post where fl: "find_leaf key (root t) = Inr l"
    and loc: "located (maxKeys t) key (leaf_list (root t)) pre l post"
    using find_leaf_located [OF ok key] by blast
  have l: "length (lrows l) = length (lkeys l)" "key_list (lkeys l)"
    using loc leaf_shape by (auto simp: located_def)
  have es: "?es = leaf_entries pre @ zip (lkeys l) (lrows l) @ leaf_entries post"
    using loc by (simp add: located_def entries_leaf_list)
  have eok: "entries_ok ?es" by (rule node_entries_ok [OF ok])
  have hit: "?hit e \<longleftrightarrow> vkey (fst e) = vkey key" if "e \<in> set ?es" for e
    using that eok key by (intro val_order.cmp_eq_iff) (auto simp: entries_ok_def key_list_def)
  let ?p = "lowerBound (lkeys l) key"
  show ?thesis
  proof (cases "?p < length (lkeys l) \<and> compare_value (lkeys l ! ?p) key = 0")
    case True
    let ?e = "(lkeys l ! ?p, lrows l ! ?p)"
    have "?e \<in> set (zip (lkeys l) (lrows l))" using True l by (force simp: set_zip)
    then have mem: "?e \<in> set ?es" using es by simp
    then have "find ?hit ?es \<noteq> None" using True by (auto simp: find_None_iff)
    then obtain e where e: "find ?hit ?es = Some e" by blast
    then have "e \<in> set ?es" "?hit e" by (auto simp: find_Some_iff)
    then have "e = ?e" using entries_unique [OF eok _ mem] hit [OF mem] hit [of e] True by simp
    then show ?thesis using True fl e by (simp add: find_tree_def)
  next
    case False
    then have "vkey key \<notin> vkey ` set (lkeys l)" using lowerBound_hit [OF l(2) key] by simp
    then have "\<forall>e\<in>set (zip (lkeys l) (lrows l)). vkey (fst e) \<noteq> vkey key"
      by (metis image_eqI prod.collapse set_zip_leftD)
    then have "vkey (fst e) \<noteq> vkey key" if "e \<in> set ?es" for e
      using that loc es unfolding located_def by auto
    then have "find ?hit ?es = None" using hit by (auto simp: find_None_iff)
    then show ?thesis using False fl by (auto simp: find_tree_def not_less)
  qed
qed

section \<open>Range scans along the chain\<close>

definition above :: "val option \<Rightarrow> val \<times> row_id \<Rightarrow> bool" where
  "above upper e = (case upper of None \<Rightarrow> False | Some u \<Rightarrow> 0 < compare_value (fst e) u)"

definition below :: "val option \<Rightarrow> val \<times> row_id \<Rightarrow> bool" where
  "below lower e = (case lower of None \<Rightarrow> False | Some l \<Rightarrow> compare_value (fst e) l < 0)"

definition bound_ok :: "val option \<Rightarrow> bool" where
  "bound_ok b = (case b of None \<Rightarrow> True | Some v \<Rightarrow> orderable v)"

lemma leaf_scan_spec:
  "leaf_scan upper es = (map snd (takeWhile (\<lambda>e. \<not> above upper e) es), \<exists>e\<in>set es. above upper e)"
  by (induction upper es rule: leaf_scan.induct) (auto simp: above_def split: option.splits)

lemma leaf_at_chain:
  assumes "distinct (map laddr (leaf_list (root t)))" "l \<in> set (leaf_list (root t))"
  shows "leaf_at t (laddr l) = Some l"
proof -
  have "find (\<lambda>m. laddr m = laddr l) ls = Some l" if "distinct (map laddr ls)" "l \<in> set ls" for ls
    using that by (induction ls) auto
  with assms show ?thesis by (simp add: leaf_at_def)
qed

lemma range_walk_spec:
  assumes "distinct (map laddr (leaf_list (root t)))"
    and "set (l # post) \<subseteq> set (leaf_list (root t))" "links None (l # post)" "length post < fuel"
  shows "range_walk fuel t upper start l =
    Some (map snd (takeWhile (\<lambda>e. \<not> above upper e)
      (drop start (zip (lkeys l) (lrows l)) @ leaf_entries post)))"
  using assms(2-)
proof (induction post arbitrary: fuel start l)
  case Nil
  then show ?case by (cases fuel) (auto simp: leaf_scan_spec)
next
  case (Cons m post)
  then obtain f where f: "fuel = Suc f" by (cases fuel) auto
  have "leaf_at t (laddr m) = Some m" using leaf_at_chain [OF assms(1)] Cons.prems(1) by simp
  moreover have "range_walk f t upper 0 m = Some (map snd (takeWhile (\<lambda>e. \<not> above upper e)
      (drop 0 (zip (lkeys m) (lrows m)) @ leaf_entries post)))"
    by (rule Cons.IH) (use Cons.prems f in auto)
  ultimately show ?case using Cons.prems(2) f
    by (auto simp: leaf_scan_spec takeWhile_append takeWhile_eq_all_conv [THEN iffD2])
qed

text \<open>On strictly increasing entries the scan stops exactly where a filter does.\<close>

lemma takeWhile_above:
  assumes "entries_ok es" "bound_ok upper"
  shows "takeWhile (\<lambda>e. \<not> above upper e) es = filter (\<lambda>e. \<not> above upper e) es"
  using assms
proof (induction es)
  case (Cons e es)
  have ok: "entries_ok es" "orderable (fst e)" "\<forall>e'\<in>set es. orderable (fst e') \<and> vkey (fst e) < vkey (fst e')"
    using Cons.prems(1) by (auto simp: entries_ok_def key_list_def)
  have "\<forall>e'\<in>set es. above upper e'" if "above upper e"
    using that ok(2,3) assms(2) val_order.cmp_greater_iff
    by (fastforce simp: above_def bound_ok_def split: option.splits intro: less_trans)
  then show ?case using Cons.IH ok(1) assms(2) by (auto simp: filter_empty_conv)
qed simp

lemma entries_ok_filter: "entries_ok es \<Longrightarrow> entries_ok (filter P es)"
  by (auto simp: entries_ok_def key_list_def sorted_wrt_map intro: sorted_wrt_filter)

theorem range_tree_spec:
  assumes ok: "tree_ok t" and bounds: "bound_ok lower" "bound_ok upper"
  shows "range_tree t lower upper =
    Inr (Some (map snd (filter (\<lambda>e. \<not> below lower e \<and> \<not> above upper e) (entries (root t)))))"
proof -
  let ?ls = "leaf_list (root t)"
  have nok: "node_ok (maxKeys t) (node_height (root t) - 1) (root t)" and chain: "links None ?ls"
    and dist: "distinct (map laddr ?ls)" using ok by (simp_all add: tree_ok_def)
  have eok: "entries_ok (entries (root t))" by (rule node_entries_ok [OF nok])
  have walk: "range_walk (length ?ls) t upper start l =
      Some (map snd (takeWhile (\<lambda>e. \<not> above upper e)
        (drop start (zip (lkeys l) (lrows l)) @ leaf_entries post)))"
    if "?ls = pre @ l # post" for pre l post start
    using chain that by (intro range_walk_spec [OF dist]) (auto simp: links_append [of _ pre])
  show ?thesis
  proof (cases lower)
    case None
    obtain l post where fl: "first_leaf (root t) = Inr l" "?ls = l # post"
      using first_leaf_list [OF nok] by blast
    have "entries (root t) = zip (lkeys l) (lrows l) @ leaf_entries post"
      using fl(2) by (simp add: entries_leaf_list)
    then show ?thesis using None fl walk [of "[]" l post 0] takeWhile_above [OF eok bounds(2)]
      by (simp add: range_tree_def below_def)
  next
    case (Some key)
    then have key: "orderable key" using bounds by (simp add: bound_ok_def)
    obtain pre l post where fl: "find_leaf key (root t) = Inr l"
      and loc: "located (maxKeys t) key ?ls pre l post"
      using find_leaf_located [OF nok key] by blast
    let ?es = "drop (lowerBound (lkeys l) key) (zip (lkeys l) (lrows l)) @ leaf_entries post"
    have l: "length (lrows l) = length (lkeys l)" "key_list (lkeys l)"
      using loc leaf_shape by (auto simp: located_def)
    have es: "entries (root t) = leaf_entries pre @ zip (lkeys l) (lrows l) @ leaf_entries post"
      using loc by (simp add: located_def entries_leaf_list)
    have bel: "below lower e \<longleftrightarrow> vkey (fst e) < vkey key" if "e \<in> set (entries (root t))" for e
      using that eok key Some val_order.cmp_less_iff [of "fst e" key]
      by (auto simp: below_def entries_ok_def key_list_def)
    have "?es = filter (\<lambda>e. \<not> vkey (fst e) < vkey key) (entries (root t))"
    proof -
      have "filter (\<lambda>e. \<not> vkey (fst e) < vkey key) (leaf_entries pre) = []"
        using loc by (simp add: located_def filter_empty_conv)
      moreover have "filter (\<lambda>e. \<not> vkey (fst e) < vkey key) (leaf_entries post) = leaf_entries post"
        using loc by (simp add: located_def filter_id_conv less_not_sym)
      ultimately show ?thesis unfolding es filter_append drop_lowerBound [OF l key] by simp
    qed
    also have "\<dots> = filter (\<lambda>e. \<not> below lower e) (entries (root t))"
      using bel by (intro filter_cong) auto
    finally have fil: "?es = filter (\<lambda>e. \<not> below lower e) (entries (root t))" .
    have "takeWhile (\<lambda>e. \<not> above upper e) ?es = filter (\<lambda>e. \<not> above upper e) ?es"
      unfolding fil by (rule takeWhile_above [OF entries_ok_filter [OF eok] bounds(2)])
    also have "\<dots> = filter (\<lambda>e. \<not> below lower e \<and> \<not> above upper e) (entries (root t))"
      unfolding fil filter_filter by (rule filter_cong) auto
    finally have "takeWhile (\<lambda>e. \<not> above upper e) ?es
      = filter (\<lambda>e. \<not> below lower e \<and> \<not> above upper e) (entries (root t))" .
    moreover have "?ls = pre @ l # post" using loc by (simp add: located_def)
    note walk [OF this, of "lowerBound (lkeys l) key"]
    ultimately show ?thesis using Some fl by (simp add: range_tree_def)
  qed
qed

section \<open>The index as a whole\<close>

lemma tree_ok_node: "tree_ok t \<Longrightarrow> node_ok (maxKeys t) (node_height (root t) - 1) (root t)"
  by (simp add: tree_ok_def)

lemma new_tree_ok: "tree_ok (new_tree mk)" "entries (root (new_tree mk)) = []"
  by (simp_all add: tree_ok_def new_tree_def clear_def)

lemma clear_ok: "tree_ok t \<Longrightarrow> tree_ok (clear t)" "entries (root (clear t)) = []"
  by (simp_all add: tree_ok_def clear_def)

lemma chain_step_top:
  assumes "chain_step fr fr' old new" "links None old" "distinct (map laddr old)"
    and "\<forall>l\<in>set old. laddr l < fr"
  shows "links None new \<and> distinct (map laddr new) \<and> (\<forall>l\<in>set new. laddr l < fr')"
proof -
  have "laddr l < fr'" if "l \<in> set new" for l
  proof -
    have "laddr l \<in> laddr ` set old \<union> {fr..<fr'}" using assms(1) that by (auto simp: chain_step_def)
    then show ?thesis using assms(1,4) by (auto simp: chain_step_def intro: less_le_trans)
  qed
  then show ?thesis using assms by (simp add: chain_step_def)
qed

theorem insert_tree_new:
  assumes ok: "tree_ok t" and key: "orderable key" "vkey key \<notin> vks (root t)"
  shows "\<exists>t'. insert_tree t key row = Inr t' \<and> tree_ok t' \<and> maxKeys t' = maxKeys t \<and>
    entries (root t') = ins_entry key row (entries (root t))"
proof -
  let ?mk = "maxKeys t" let ?d = "node_height (root t) - 1"
  have mk: "3 \<le> ?mk" using ok by (simp add: tree_ok_def)
  obtain n split fr where res: "insert_node ?mk (fresh t) key row (root t) = Inr (n, split, fr)"
    and post: "insert_post ?mk ?d (fresh t) key row (root t) (n, split, fr)"
    using insert_node_new [OF tree_ok_node [OF ok] mk key] by (metis prod_cases3)
  have es: "concat (map entries (parts n split)) = ins_entry key row (entries (root t))"
    using post by (simp add: insert_post_def)
  have chain: "links None ls \<and> distinct (map laddr ls) \<and> (\<forall>l\<in>set ls. laddr l < fr)"
    if "ls = concat (map leaf_list (parts n split))" for ls
    using post ok that chain_step_top [of "fresh t" fr "leaf_list (root t)" ls]
    by (simp add: insert_post_def tree_ok_def)
  have node: "node_ok ?mk ?d n" using post by (simp add: insert_post_def parts_def)
  show ?thesis
  proof (cases split)
    case None
    then show ?thesis using res ok es chain node node_height_ok [OF node]
      by (auto simp: insert_tree_def tree_ok_def)
  next
    case (Some sr)
    then obtain sep r where sr: "split = Some (sep, r)" by (cases sr) auto
    let ?root = "Inner [sep] [n, r]"
    have "node_ok ?mk (Suc ?d) ?root"
      using post sr mk by (simp add: insert_post_def)
    then show ?thesis using res ok es chain sr node_height_ok [of ?mk "Suc ?d" ?root]
      by (auto simp: insert_tree_def tree_ok_def)
  qed
qed

theorem insert_tree_duplicate:
  assumes "tree_ok t" "orderable key" "vkey key \<in> vks (root t)"
  shows "insert_tree t key row = Inl (Runtime_Error ''Duplicate B+ tree key'')"
  using insert_node_duplicate [OF tree_ok_node assms(2,3)] assms(1) by (simp add: insert_tree_def)

text \<open>Every level at least doubles the number of entries.\<close>

lemma entries_lower_bound: "node_ok mk d n \<Longrightarrow> entries n \<noteq> [] \<Longrightarrow> 2 ^ d \<le> length (entries n)"
proof (induction d arbitrary: n)
  case 0
  then show ?case by (simp add: Suc_le_eq)
next
  case (Suc d)
  then obtain ks cs where n: "n = Inner ks cs" by (cases n) auto
  with Suc.prems have ok: "inner_ok mk ks cs d" by (simp add: node_ok_Inner del: node_ok.simps)
  then have "length cs = Suc (length ks)" "ks \<noteq> []" using separated_length by (auto simp: inner_ok_def)
  then obtain c1 c2 cs' where cs: "cs = c1 # c2 # cs'" by (cases cs; cases "tl cs"; cases ks) auto
  have "2 ^ d \<le> length (entries c1)" "2 ^ d \<le> length (entries c2)"
    using ok cs Suc.IH by (auto simp: inner_ok_def)
  then show ?case using n cs by simp
qed

text \<open>
  What a client of an ordered index relies on. \<open>contents\<close> is the sorted association list;
  \<open>same\<close> and \<open>ok\<close> are key equality and the keys on which the index is specified.
\<close>

definition lookup :: "(val \<times> row_id) list \<Rightarrow> val \<Rightarrow> row_id option" where
  "lookup es key = map_option snd (find (\<lambda>e. compare_value (fst e) key = 0) es)"

locale ordered_index =
  fixes inv :: "'t \<Rightarrow> bool"
    and contents :: "'t \<Rightarrow> (val \<times> row_id) list"
    and ins :: "'t \<Rightarrow> val \<Rightarrow> row_id \<Rightarrow> 't result"
    and look :: "'t \<Rightarrow> val \<Rightarrow> row_id option result"
  assumes contents_ok: "inv t \<Longrightarrow> entries_ok (contents t)"
    and ins_new: "inv t \<Longrightarrow> orderable k \<Longrightarrow> lookup (contents t) k = None \<Longrightarrow>
      \<exists>t'. ins t k r = Inr t' \<and> inv t' \<and> contents t' = ins_entry k r (contents t)"
    and ins_dup: "inv t \<Longrightarrow> orderable k \<Longrightarrow> lookup (contents t) k \<noteq> None \<Longrightarrow>
      ins t k r = Inl (Runtime_Error ''Duplicate B+ tree key'')"
    and look_spec: "inv t \<Longrightarrow> orderable k \<Longrightarrow> look t k = Inr (lookup (contents t) k)"
begin

lemma ins_inv: "inv t \<Longrightarrow> orderable k \<Longrightarrow> ins t k r = Inr t' \<Longrightarrow>
    lookup (contents t) k = None \<and> inv t' \<and> contents t' = ins_entry k r (contents t)"
  using ins_new [of t k r] ins_dup [of t k r] by (cases "lookup (contents t) k") auto

end

lemma lookup_None_iff:
  assumes "entries_ok es" "orderable key"
  shows "lookup es key = None \<longleftrightarrow> vkey key \<notin> vkey ` fst ` set es"
proof -
  have "compare_value (fst e) key = 0 \<longleftrightarrow> vkey (fst e) = vkey key" if "e \<in> set es" for e
    using that assms by (intro val_order.cmp_eq_iff) (auto simp: entries_ok_def key_list_def)
  then show ?thesis by (auto simp: lookup_def find_None_iff image_iff)
qed

lemma lookup_Some_iff:
  assumes "entries_ok es" "orderable key"
  shows "lookup es key = Some r \<longleftrightarrow> (\<exists>e\<in>set es. vkey (fst e) = vkey key \<and> snd e = r)"
proof -
  have hit: "compare_value (fst e) key = 0 \<longleftrightarrow> vkey (fst e) = vkey key" if "e \<in> set es" for e
    using that assms by (intro val_order.cmp_eq_iff) (auto simp: entries_ok_def key_list_def)
  show ?thesis
  proof (cases "find (\<lambda>e. compare_value (fst e) key = 0) es")
    case None
    then have "\<forall>e\<in>set es. vkey (fst e) \<noteq> vkey key" using hit by (auto simp: find_None_iff)
    with None show ?thesis by (auto simp: lookup_def)
  next
    case (Some e)
    then obtain i where "i < length es" "compare_value (fst (es ! i)) key = 0" "e = es ! i"
      unfolding find_Some_iff by blast
    then have e: "e \<in> set es" "compare_value (fst e) key = 0" by simp_all
    have k: "vkey (fst e) = vkey key" using hit [OF e(1)] e(2) by simp
    have u: "e' = e" if "e' \<in> set es" "vkey (fst e') = vkey key" for e'
      by (rule entries_unique [OF assms(1) that(1) e(1)]) (simp add: that(2) k)
    have "lookup es key = Some r \<longleftrightarrow> snd e = r" by (simp add: lookup_def Some)
    then show ?thesis using u e(1) k by blast
  qed
qed

lemma lookup_ins_entry:
  assumes "entries_ok es" "orderable k" "lookup es k = None" "orderable k'"
  shows "lookup (ins_entry k r es) k' = (if compare_value k k' = 0 then Some r else lookup es k')"
proof -
  have new: "vkey k \<notin> vkey ` fst ` set es" using assms lookup_None_iff by blast
  have ok: "entries_ok (ins_entry k r es)" by (rule ins_entry_ok [OF assms(1,2) new])
  have eq: "compare_value k k' = 0 \<longleftrightarrow> vkey k = vkey k'" using assms by (intro val_order.cmp_eq_iff)
  have "lookup (ins_entry k r es) k' = Some x \<longleftrightarrow>
      (if vkey k = vkey k' then Some r else lookup es k') = Some x" for x
    using new by (auto simp: image_image image_iff lookup_Some_iff [OF ok assms(4)] lookup_Some_iff [OF assms(1,4)] set_ins_entry)
  then show ?thesis unfolding eq by (metis option.exhaust)
qed

text \<open>Loading rows one by one, as \<open>rebuildIndexUnlocked\<close> does.\<close>

fun load_all :: "('t \<Rightarrow> val \<Rightarrow> row_id \<Rightarrow> 't result) \<Rightarrow> (val \<times> row_id) list \<Rightarrow> 't \<Rightarrow> 't result" where
  "load_all f [] t = Inr t"
| "load_all f ((k, r) # es) t = rbind (f t k r) (load_all f es)"

context ordered_index
begin

lemma look_after_ins:
  assumes "inv t" "orderable k" "ins t k r = Inr t'" "orderable k'"
  shows "look t' k' = (if compare_value k k' = 0 then Inr (Some r) else look t k')"
  using ins_inv [OF assms(1-3)] assms contents_ok look_spec lookup_ins_entry by simp

lemma load_all_contents:
  assumes "inv t" "\<forall>e\<in>set es. orderable (fst e)" "distinct (map (vkey \<circ> fst) (contents t @ es))"
  shows "\<exists>t'. load_all ins es t = Inr t' \<and> inv t' \<and> mset (contents t') = mset (contents t) + mset es"
  using assms
proof (induction es arbitrary: t)
  case (Cons e es)
  obtain k r where e: "e = (k, r)" by (cases e)
  have "vkey k \<notin> vkey ` fst ` set (contents t)" using Cons.prems(3) e by (auto simp: image_image)
  then have "lookup (contents t) k = None"
    using lookup_None_iff [OF contents_ok [OF Cons.prems(1)]] Cons.prems(2) e by simp
  then obtain t1 where t1: "ins t k r = Inr t1" "inv t1" "contents t1 = ins_entry k r (contents t)"
    using ins_new [OF Cons.prems(1)] Cons.prems(2) e by fastforce
  have m: "mset (contents t1) = add_mset (k, r) (mset (contents t))"
    using t1(3) mset_ins_entry by simp
  then have "mset (map (vkey \<circ> fst) (contents t1 @ es)) = mset (map (vkey \<circ> fst) (contents t @ e # es))"
    using e by simp
  then have dist: "distinct (map (vkey \<circ> fst) (contents t1 @ es))"
    using Cons.prems(3) by (metis mset_eq_imp_distinct_iff)
  have "\<forall>e\<in>set es. orderable (fst e)" using Cons.prems(2) by simp
  then obtain t' where "load_all ins es t1 = Inr t'" "inv t'" "mset (contents t') = mset (contents t1) + mset es"
    using Cons.IH [OF t1(2) _ dist] by blast
  then show ?case using t1(1) m e by auto
qed simp

end

interpretation btree: ordered_index tree_ok "\<lambda>t. entries (root t)" insert_tree find_tree
proof
  fix t k r
  assume ok: "tree_ok t"
  show "entries_ok (entries (root t))" using node_entries_ok [OF tree_ok_node [OF ok]] .
  note iff = lookup_None_iff [OF this, of k]
  assume k: "orderable k"
  show "find_tree t k = Inr (lookup (entries (root t)) k)"
    using find_tree_spec [OF tree_ok_node [OF ok] k] by (simp add: lookup_def)
  show "\<exists>t'. insert_tree t k r = Inr t' \<and> tree_ok t' \<and> entries (root t') = ins_entry k r (entries (root t))"
    if "lookup (entries (root t)) k = None"
  proof -
    have "vkey k \<notin> vks (root t)" using that iff [OF k] by (simp add: vks_def)
    then show ?thesis using insert_tree_new [OF ok k] by blast
  qed
  show "insert_tree t k r = Inl (Runtime_Error ''Duplicate B+ tree key'')"
    if "lookup (entries (root t)) k \<noteq> None"
    using insert_tree_duplicate [OF ok k] that iff [OF k] by (auto simp: vks_def)
qed

lemma filter_key_single:
  "distinct (map f xs) \<Longrightarrow> x \<in> set xs \<Longrightarrow> filter (\<lambda>y. f x = f y) xs = [x]"
  by (induction xs) (auto simp: filter_empty_conv intro: rev_image_eqI)

section \<open>Properties\<close>

text \<open>
  C10. Inserting a new key into a well-formed index succeeds, puts the pair at its place in the
  sorted sequence of entries and keeps the whole invariant (uniform depth, node sizes,
  separators, leaf chain, \<open>size()\<close>); inserting a key that is present throws.
\<close>

theorem btree_insert_correct:
  assumes "tree_ok t" "orderable key"
  shows "if lookup (entries (root t)) key = None
    then \<exists>t'. insert_tree t key row = Inr t' \<and> tree_ok t' \<and>
           entries (root t') = ins_entry key row (entries (root t)) \<and> tree_size t' = tree_size t + 1
    else insert_tree t key row = Inl (Runtime_Error ''Duplicate B+ tree key'')"
  using btree.ins_new [OF assms, of row] btree.ins_dup [OF assms, of row] assms(1)
  by (auto simp: tree_ok_def)

theorem btree_insert_correct_witness:
  "\<exists>t'. insert_tree (new_tree 3) (VText ''k'') \<lparr>rid_page = 0, rid_slot = 1\<rparr> = Inr t' \<and> tree_ok t'"
  using btree_insert_correct [OF new_tree_ok(1), of "VText ''k''" 3 "\<lparr>rid_page = 0, rid_slot = 1\<rparr>"]
  by (auto simp: new_tree_ok lookup_def orderable_def)

text \<open>
  After a successful insertion the index finds the new row under the new key, and every
  other key still finds what it found before.
\<close>

theorem btree_find_after_insert:
  assumes "tree_ok t" "orderable key" "insert_tree t key row = Inr t'" "orderable key'"
  shows "find_tree t' key' = (if compare_value key key' = 0 then Inr (Some row) else find_tree t key')"
  using btree.look_after_ins [OF assms] .

text \<open>
  C28. A range scan follows the leaf chain to its end and returns, in key order, exactly the
  rows whose keys are neither below the lower bound nor above the upper bound.
\<close>

theorem btree_range_correct:
  assumes "tree_ok t" "bound_ok lower" "bound_ok upper"
  shows "range_tree t lower upper =
    Inr (Some (map snd (filter (\<lambda>e. \<not> below lower e \<and> \<not> above upper e) (entries (root t)))))"
  by (rule range_tree_spec [OF assms])

theorem btree_range_correct_witness:
  "range_tree (new_tree 3) (Some (VText ''a'')) None = Inr (Some [])"
  using btree_range_correct [OF new_tree_ok(1), of "Some (VText ''a'')" None]
  by (simp add: new_tree_ok bound_ok_def orderable_def)

text \<open>
  Rebuilding an index from rows with pairwise different keys never fails, and the full
  range scan then returns all the rows, sorted by key.
\<close>

theorem btree_load_correct:
  assumes "\<forall>e\<in>set es. orderable (fst e)" "distinct (map (vkey \<circ> fst) es)"
  shows "\<exists>t. load_all insert_tree es (new_tree mk) = Inr t \<and> tree_ok t \<and> tree_size t = length es \<and>
    range_tree t None None = Inr (Some (map snd (sort_key (vkey \<circ> fst) es)))"
proof -
  obtain t where t: "load_all insert_tree es (new_tree mk) = Inr t" "tree_ok t"
    "mset (entries (root t)) = mset es"
    using btree.load_all_contents [OF new_tree_ok(1), of es mk] assms by (auto simp: new_tree_ok)
  have "sorted (map (vkey \<circ> fst) (entries (root t)))"
    using btree.contents_ok [OF t(2)]
    by (auto simp: entries_ok_def key_list_def sorted_wrt_map elim: sorted_wrt_mono_rel [rotated])
  then have "entries (root t) = sort_key (vkey \<circ> fst) es"
    using t(3) assms(2)
      mset_eq_imp_distinct_iff [of "map (vkey \<circ> fst) (entries (root t))" "map (vkey \<circ> fst) es"]
    by (intro properties_for_sort_key [symmetric])
      (simp_all add: filter_key_single mset_eq_setD [OF t(3)] del: comp_apply)
  then show ?thesis using t range_tree_spec [OF t(2), of None None] mset_eq_length [OF t(3)]
    by (simp add: bound_ok_def below_def above_def tree_ok_def)
qed

text \<open>
  C32. The index is balanced: all leaves are at the depth that \<open>height()\<close> reports, and the
  number of entries is at least two to the power of the number of levels below the root, so
  a lookup visits at most logarithmically many nodes.
\<close>

theorem btree_height_bound:
  assumes "tree_ok t" "0 < tree_size t"
  shows "2 ^ (height t - 1) \<le> tree_size t"
  using entries_lower_bound [OF tree_ok_node [OF assms(1)]] assms
  by (auto simp: height_def tree_ok_def)

theorem btree_height_bound_witness:
  "\<exists>t. tree_ok t \<and> tree_size t = 1 \<and> 2 ^ (height t - 1) \<le> tree_size t"
proof -
  have k: "orderable (VText ''k'')" by (simp add: orderable_def)
  obtain t where t: "insert_tree (new_tree 3) (VText ''k'') \<lparr>rid_page = 0, rid_slot = 1\<rparr> = Inr t" "tree_ok t"
    "entries (root t) = ins_entry (VText ''k'') \<lparr>rid_page = 0, rid_slot = 1\<rparr> []"
    using btree.ins_new [OF new_tree_ok(1) k] by (auto simp: new_tree_ok lookup_def)
  then have "tree_size t = 1" by (simp add: tree_ok_def)
  then show ?thesis using btree_height_bound [OF t(2)] t(2) by auto
qed

end
