(* ===== verification/Slotted_Page.thy ===== *)
theory Slotted_Page
  imports Values
begin

text \<open>
  The 4096-byte slotted page (\<open>SlottedPage\<close>, \<open>src/native_storage.cpp\<close>), at the level of
  its bytes: a header (magic, slot count, end of the slot directory, start of the row
  data), a directory of 6-byte slots (offset, length, live flag) growing upwards and row
  data growing downwards.

  A page is the byte list of its array. \<open>memcpy\<close> out of and into it is \<open>byte_run\<close> and
  \<open>copy_in\<close>; an access outside the array, undefined in C++, does not occur on a page that
  satisfies \<open>page_wf\<close> (lemmas \<open>slot_field_in_page\<close> and \<open>live_in_page\<close>).

  The abstraction \<open>page_rows\<close> is the list of slots with the bytes of the live ones. The
  lemmas show that \<open>initialize\<close>, \<open>insert\<close>, \<open>erase\<close>, \<open>update\<close> and \<open>compact\<close> keep
  \<open>page_wf\<close> and what each does to \<open>page_rows\<close>.
\<close>

declare add_2_eq_Suc [simp del] add_2_eq_Suc' [simp del]

type_synonym page = "byte list"

definition PAGE_SIZE :: nat where
  "PAGE_SIZE = 4096"

definition MAGIC :: nat where
  "MAGIC = 0x534B5047"

definition read16 :: "nat \<Rightarrow> page \<Rightarrow> nat" where
  "read16 off pg = le_decode (byte_run off 2 pg)"

definition read32 :: "nat \<Rightarrow> page \<Rightarrow> nat" where
  "read32 off pg = le_decode (byte_run off 4 pg)"

definition write16 :: "nat \<Rightarrow> nat \<Rightarrow> page \<Rightarrow> page" where
  "write16 off v pg = copy_in off (le_encode 2 v) pg"

definition write32 :: "nat \<Rightarrow> nat \<Rightarrow> page \<Rightarrow> page" where
  "write32 off v pg = copy_in off (le_encode 4 v) pg"

definition slotOffset :: "nat \<Rightarrow> nat" where
  "slotOffset slot = 16 + slot * 6"

definition page_valid :: "page \<Rightarrow> bool" where
  "page_valid pg \<longleftrightarrow> read32 0 pg = MAGIC"

definition initialize :: "page \<Rightarrow> page" where
  "initialize pg =
     (let p0 = replicate PAGE_SIZE 0;
          p1 = write32 0 MAGIC p0;
          p2 = write16 4 0 p1;
          p3 = write16 6 16 p2
      in write16 8 PAGE_SIZE p3)"

definition freeSpace :: "page \<Rightarrow> nat" where
  "freeSpace pg =
     (if \<not> page_valid pg then 0
      else let start = read16 6 pg; fin = read16 8 pg
           in if start \<le> fin then fin - start else 0)"

definition slotCount :: "page \<Rightarrow> nat" where
  "slotCount pg = (if page_valid pg then read16 4 pg else 0)"

definition page_read :: "page \<Rightarrow> nat \<Rightarrow> byte list option result" where
  "page_read pg slot =
     (if \<not> page_valid pg \<or> slotCount pg \<le> slot then Inr None
      else let position = slotOffset slot
           in if read16 (position + 4) pg = 0 then Inr None
              else let off = read16 position pg; len = read16 (position + 2) pg
                   in if PAGE_SIZE < off + len then Inl (Runtime_Error ''Corrupt slotted page'')
                      else Inr (Some (byte_run off len pg)))"

definition page_erase :: "page \<Rightarrow> nat \<Rightarrow> page \<times> bool" where
  "page_erase pg slot =
     (if \<not> page_valid pg \<or> slotCount pg \<le> slot then (pg, False)
      else let position = slotOffset slot
           in if read16 (position + 4) pg = 0 then (pg, False)
              else (write16 (position + 2) 0 (write16 (position + 4) 0 pg), True))"

definition page_update :: "page \<Rightarrow> nat \<Rightarrow> byte list \<Rightarrow> page \<times> bool" where
  "page_update pg slot row =
     (if \<not> page_valid pg \<or> slotCount pg \<le> slot then (pg, False)
      else let position = slotOffset slot
           in if read16 (position + 4) pg = 0 then (pg, False)
              else let off = read16 position pg; len = read16 (position + 2) pg
                   in if len < length row then (pg, False)
                      else (write16 (position + 2) (length row) (copy_in off row pg), True))"

text \<open>The three directory writes that make a slot live, shared by \<open>compact\<close> and \<open>insert\<close>.\<close>

definition write_slot :: "nat \<Rightarrow> nat \<Rightarrow> nat \<Rightarrow> page \<Rightarrow> page" where
  "write_slot position off len pg =
     write16 (position + 4) 1 (write16 (position + 2) len (write16 position off pg))"

text \<open>\<open>compact\<close>: all rows are copied out first, then written back from the page's end.\<close>

fun collect_rows :: "page \<Rightarrow> nat list \<Rightarrow> (nat \<times> byte list) list result" where
  "collect_rows pg [] = Inr []"
| "collect_rows pg (slot # slots) =
     rbind (page_read pg slot) (\<lambda>row.
     rbind (collect_rows pg slots) (\<lambda>rows.
     Inr (case row of None \<Rightarrow> rows | Some bytes \<Rightarrow> (slot, bytes) # rows)))"

fun compact_rows :: "nat \<Rightarrow> page \<Rightarrow> (nat \<times> byte list) list \<Rightarrow> nat \<times> page" where
  "compact_rows fin pg [] = (fin, pg)"
| "compact_rows fin pg ((slot, row) # rows) =
     (let fin' = (fin + 65536 - length row) mod 65536;
          p1 = copy_in fin' row pg
      in compact_rows fin' (write_slot (slotOffset slot) fin' (length row) p1) rows)"

definition compact :: "page \<Rightarrow> page result" where
  "compact pg =
     rbind (collect_rows pg [0..<slotCount pg]) (\<lambda>rows.
       let (fin, pg') = compact_rows (PAGE_SIZE mod 65536) pg rows
       in Inr (write16 8 fin pg'))"

text \<open>
  \<open>insert\<close> throws, gives up (\<open>None\<close>: no room even after compaction) or returns the slot;
  the page it leaves behind is part of the result in every case.
\<close>

definition page_insert :: "page \<Rightarrow> byte list \<Rightarrow> page \<times> nat option result" where
  "page_insert pg0 row =
     (let pg = (if page_valid pg0 then pg0 else initialize pg0) in
      if 65535 < length row then (pg, Inl (Runtime_Error ''Tuple is too large''))
      else
        let reusable = find (\<lambda>slot. read16 (slotOffset slot + 4) pg = 0) [0..<slotCount pg];
            slotBytes = (if reusable = None then 6 else 0)
        in case (if freeSpace pg < length row + slotBytes then compact pg else Inr pg) of
             Inl e \<Rightarrow> (pg, Inl e)
           | Inr pg1 \<Rightarrow>
               if freeSpace pg1 < length row + slotBytes then (pg1, Inr None)
               else
                 let newEnd = (read16 8 pg1 + 65536 - length row) mod 65536;
                     p1 = write16 8 newEnd (copy_in newEnd row pg1);
                     (slot, p2) =
                       (case reusable of
                          Some slot \<Rightarrow> (slot, p1)
                        | None \<Rightarrow>
                            let slot = read16 4 p1
                            in (slot, write16 6 (16 + (slot + 1) * 6) (write16 4 (slot + 1) p1)))
                 in (write_slot (slotOffset slot) newEnd (length row) p2, Inr (Some slot)))"

section \<open>The page invariant and the abstraction\<close>

definition live :: "page \<Rightarrow> nat \<Rightarrow> bool" where
  "live pg s \<longleftrightarrow> read16 (slotOffset s + 4) pg \<noteq> 0"

definition row_off :: "page \<Rightarrow> nat \<Rightarrow> nat" where
  "row_off pg s = read16 (slotOffset s) pg"

definition row_len :: "page \<Rightarrow> nat \<Rightarrow> nat" where
  "row_len pg s = read16 (slotOffset s + 2) pg"

lemmas slot_defs = live_def row_off_def row_len_def

definition disjoint_rows :: "page \<Rightarrow> nat \<Rightarrow> nat \<Rightarrow> bool" where
  "disjoint_rows pg s t \<longleftrightarrow>
     row_off pg s + row_len pg s \<le> row_off pg t \<or> row_off pg t + row_len pg t \<le> row_off pg s"

definition page_wf :: "page \<Rightarrow> bool" where
  "page_wf pg \<longleftrightarrow>
     length pg = PAGE_SIZE \<and> page_valid pg \<and>
     read16 6 pg = 16 + 6 * slotCount pg \<and>
     read16 6 pg \<le> read16 8 pg \<and> read16 8 pg \<le> PAGE_SIZE \<and>
     (\<forall>s < slotCount pg. live pg s \<longrightarrow>
        read16 8 pg \<le> row_off pg s \<and> row_off pg s + row_len pg s \<le> PAGE_SIZE) \<and>
     (\<forall>s < slotCount pg. \<forall>t < slotCount pg. s \<noteq> t \<longrightarrow> live pg s \<longrightarrow> live pg t \<longrightarrow>
        disjoint_rows pg s t)"

definition row_at :: "page \<Rightarrow> nat \<Rightarrow> byte list option" where
  "row_at pg s = (if live pg s then Some (byte_run (row_off pg s) (row_len pg s) pg) else None)"

definition page_rows :: "page \<Rightarrow> byte list option list" where
  "page_rows pg = map (row_at pg) [0..<slotCount pg]"

definition live_bytes :: "page \<Rightarrow> nat" where
  "live_bytes pg = sum_list (map (row_len pg) (filter (live pg) [0..<slotCount pg]))"

section \<open>Reading fields after writes\<close>

lemma length_write16 [simp]: "off + 2 \<le> length pg \<Longrightarrow> length (write16 off v pg) = length pg"
  by (simp add: write16_def)

lemma read16_less: "read16 off pg < 65536"
proof -
  have "length (byte_run off 2 pg) \<le> 2" by simp
  then have "(256::nat) ^ length (byte_run off 2 pg) \<le> 256 ^ 2" by (intro power_increasing) auto
  with le_decode_less [of "byte_run off 2 pg"] show ?thesis by (simp add: read16_def)
qed

lemma read16_write16:
  assumes "even o1" and "even o2" and "o2 + 2 \<le> length pg"
  shows "read16 o1 (write16 o2 v pg) = (if o1 = o2 then v mod 65536 else read16 o1 pg)"
proof -
  consider "o1 = o2" | "o1 + 2 \<le> o2" | "o2 + 2 \<le> o1"
    using assms(1,2) by (cases o1 o2 rule: linorder_cases) (auto elim!: evenE)
  then show ?thesis
  proof cases
    case 1
    with assms show ?thesis
      by (simp add: read16_def write16_def slice_splice_same le_decode_encode)
  qed (use assms in \<open>auto simp: read16_def write16_def slice_splice_before slice_splice_after\<close>)
qed

lemma slice_write16_after [simp]:
  "off + 2 \<le> length pg \<Longrightarrow> off + 2 \<le> o2 \<Longrightarrow> byte_run o2 n (write16 off v pg) = byte_run o2 n pg"
  by (simp add: write16_def slice_splice_after)

lemma read32_write16 [simp]:
  "4 \<le> off \<Longrightarrow> off + 2 \<le> length pg \<Longrightarrow> read32 0 (write16 off v pg) = read32 0 pg"
  by (simp add: read32_def write16_def slice_splice_before)

lemma page_valid_write16 [simp]:
  "4 \<le> off \<Longrightarrow> off + 2 \<le> length pg \<Longrightarrow> page_valid (write16 off v pg) = page_valid pg"
  by (simp add: page_valid_def)

lemma read16_splice [simp]:
  "off + length ys \<le> length pg \<Longrightarrow> o1 + 2 \<le> off \<Longrightarrow> read16 o1 (copy_in off ys pg) = read16 o1 pg"
  by (simp add: read16_def slice_splice_before)

lemma page_valid_splice [simp]:
  "off + length ys \<le> length pg \<Longrightarrow> 4 \<le> off \<Longrightarrow> page_valid (copy_in off ys pg) = page_valid pg"
  by (simp add: page_valid_def read32_def slice_splice_before)

lemma even_slotOffset [simp]: "even (slotOffset s)"
  by (simp add: slotOffset_def)

lemma slotOffset_neq [simp]:
  "slotOffset s \<noteq> 0" "slotOffset s \<noteq> 2" "slotOffset s \<noteq> 4" "slotOffset s \<noteq> 6" "slotOffset s \<noteq> 8"
  "4 \<noteq> slotOffset s" "6 \<noteq> slotOffset s" "8 \<noteq> slotOffset s"
  "slotOffset s + 2 \<noteq> slotOffset t" "slotOffset s \<noteq> slotOffset t + 2"
  "slotOffset s + 4 \<noteq> slotOffset t" "slotOffset s \<noteq> slotOffset t + 4"
  "slotOffset s + 2 \<noteq> slotOffset t + 4" "slotOffset s + 4 \<noteq> slotOffset t + 2"
  "slotOffset s = slotOffset t \<longleftrightarrow> s = t"
  "4 \<le> slotOffset s" "10 \<le> slotOffset s" "4 \<le> slotOffset s + k"
  by (auto simp: slotOffset_def) presburger+

lemma slotOffset_less: "s < n \<Longrightarrow> slotOffset s + 6 \<le> 16 + 6 * n"
  by (simp add: slotOffset_def)

section \<open>Consequences of the invariant\<close>

lemma page_wfD:
  assumes "page_wf pg"
  shows "length pg = 4096" "page_valid pg"
    "read16 6 pg = 16 + 6 * slotCount pg" "16 + 6 * slotCount pg \<le> read16 8 pg"
    "read16 8 pg \<le> 4096" "freeSpace pg = read16 8 pg - (16 + 6 * slotCount pg)"
  using assms by (auto simp: page_wf_def PAGE_SIZE_def slotCount_def freeSpace_def Let_def)

lemma slot_field_in_page:
  assumes "page_wf pg" and "s < slotCount pg"
  shows "slotOffset s + 6 \<le> read16 8 pg" and "slotOffset s + 6 \<le> 4096"
  using slotOffset_less [OF assms(2)] page_wfD [OF assms(1)] by auto

lemma live_in_page:
  assumes "page_wf pg" and "s < slotCount pg" and "live pg s"
  shows "read16 8 pg \<le> row_off pg s" and "row_off pg s + row_len pg s \<le> 4096"
  using assms by (auto simp: page_wf_def PAGE_SIZE_def)

lemma live_disjoint:
  assumes "page_wf pg" and "s < slotCount pg" and "t < slotCount pg" and "s \<noteq> t"
    and "live pg s" and "live pg t"
  shows "row_off pg s + row_len pg s \<le> row_off pg t \<or> row_off pg t + row_len pg t \<le> row_off pg s"
  using assms by (auto simp: page_wf_def disjoint_rows_def)

lemma page_wfI:
  assumes "length pg = 4096" and "page_valid pg" and "read16 6 pg = 16 + 6 * slotCount pg"
    and "16 + 6 * slotCount pg \<le> read16 8 pg" and "read16 8 pg \<le> 4096"
    and "\<And>s. s < slotCount pg \<Longrightarrow> live pg s \<Longrightarrow>
      read16 8 pg \<le> row_off pg s \<and> row_off pg s + row_len pg s \<le> 4096"
    and "\<And>s t. s < slotCount pg \<Longrightarrow> t < slotCount pg \<Longrightarrow> s \<noteq> t \<Longrightarrow> live pg s \<Longrightarrow> live pg t \<Longrightarrow>
      row_off pg s + row_len pg s \<le> row_off pg t \<or> row_off pg t + row_len pg t \<le> row_off pg s"
  shows "page_wf pg"
  using assms by (auto simp: page_wf_def PAGE_SIZE_def disjoint_rows_def)

lemma page_read_wf:
  assumes "page_wf pg"
  shows "page_read pg s = Inr (if s < slotCount pg then row_at pg s else None)"
proof (cases "s < slotCount pg \<and> live pg s")
  case True
  with page_wfD [OF assms] live_in_page [OF assms, of s] show ?thesis
    by (simp add: page_read_def row_at_def slot_defs PAGE_SIZE_def Let_def)
qed (auto simp: page_read_def row_at_def slot_defs Let_def)

lemma length_page_rows [simp]: "length (page_rows pg) = slotCount pg"
  by (simp add: page_rows_def)

lemma page_rows_nth: "s < slotCount pg \<Longrightarrow> page_rows pg ! s = row_at pg s"
  by (simp add: page_rows_def)

lemma page_rows_eqI:
  assumes "slotCount pg' = length rows" and "\<And>s. s < length rows \<Longrightarrow> row_at pg' s = rows ! s"
  shows "page_rows pg' = rows"
  using assms by (intro nth_equalityI) (auto simp: page_rows_def)

section \<open>Initialisation and erasure\<close>

lemma initialize_fields:
  "length (initialize pg) = 4096" "page_valid (initialize pg)"
  "slotCount (initialize pg) = 0" "read16 6 (initialize pg) = 16" "read16 8 (initialize pg) = 4096"
proof -
  define p1 where "p1 = write32 0 MAGIC (replicate PAGE_SIZE 0)"
  have l: "length p1 = 4096" by (simp add: p1_def write32_def PAGE_SIZE_def)
  have v: "page_valid p1"
    by (simp add: p1_def page_valid_def read32_def write32_def PAGE_SIZE_def MAGIC_def
        slice_splice_same le_decode_encode)
  have i: "initialize pg = write16 8 4096 (write16 6 16 (write16 4 0 p1))"
    by (simp add: initialize_def p1_def PAGE_SIZE_def Let_def)
  show "length (initialize pg) = 4096" "page_valid (initialize pg)"
    "slotCount (initialize pg) = 0" "read16 6 (initialize pg) = 16" "read16 8 (initialize pg) = 4096"
    using l v by (simp_all add: i slotCount_def read16_write16)
qed

lemma initialize_wf: "page_wf (initialize pg)" and initialize_rows: "page_rows (initialize pg) = []"
  using initialize_fields [of pg] by (auto intro!: page_wfI simp: page_rows_def)

lemma page_erase_fields:
  assumes "page_wf pg" and "s < slotCount pg" and "live pg s" and "page_erase pg s = (pg', b)"
  shows "b" and "length pg' = 4096" and "page_valid pg'" and "slotCount pg' = slotCount pg"
    and "read16 6 pg' = read16 6 pg" and "read16 8 pg' = read16 8 pg"
    and "live pg' t \<longleftrightarrow> live pg t \<and> t \<noteq> s"
    and "row_off pg' t = row_off pg t" and "t \<noteq> s \<Longrightarrow> row_len pg' t = row_len pg t"
    and "slotOffset s + 6 \<le> o2 \<Longrightarrow> byte_run o2 n pg' = byte_run o2 n pg"
proof -
  note w = page_wfD [OF assms(1)] slot_field_in_page [OF assms(1,2)]
  have pg': "pg' = write16 (slotOffset s + 2) 0 (write16 (slotOffset s + 4) 0 pg)" and "b"
    using assms w by (auto simp: page_erase_def live_def Let_def)
  then show "b" by simp
  show "length pg' = 4096" "page_valid pg'" "slotCount pg' = slotCount pg"
    "read16 6 pg' = read16 6 pg" "read16 8 pg' = read16 8 pg"
    "live pg' t \<longleftrightarrow> live pg t \<and> t \<noteq> s"
    "row_off pg' t = row_off pg t" "t \<noteq> s \<Longrightarrow> row_len pg' t = row_len pg t"
    "slotOffset s + 6 \<le> o2 \<Longrightarrow> byte_run o2 n pg' = byte_run o2 n pg"
    using w by (auto simp: pg' read16_write16 slotCount_def slot_defs)
qed

lemma page_erase_noop: "\<not> (s < slotCount pg \<and> live pg s) \<Longrightarrow> page_erase pg s = (pg, False)"
  by (auto simp: page_erase_def live_def Let_def)

lemma page_erase_wf:
  assumes wf: "page_wf pg"
  shows "page_wf (fst (page_erase pg s))"
proof (cases "s < slotCount pg \<and> live pg s")
  case True
  obtain pg' b where e: "page_erase pg s = (pg', b)" by fastforce
  note f = page_erase_fields [OF wf conjunct1 [OF True] conjunct2 [OF True] e]
  have "page_wf pg'"
    by (rule page_wfI)
      (use page_wfD [OF wf] live_in_page [OF wf] live_disjoint [OF wf] in \<open>simp_all add: f\<close>)
  with e show ?thesis by simp
qed (simp add: page_erase_noop wf)

lemma page_erase_rows:
  assumes wf: "page_wf pg"
  shows "page_rows (fst (page_erase pg s)) = (page_rows pg)[s := None]"
    and "snd (page_erase pg s) \<longleftrightarrow> s < slotCount pg \<and> live pg s"
proof -
  obtain pg' b where e: "page_erase pg s = (pg', b)" by fastforce
  show "snd (page_erase pg s) \<longleftrightarrow> s < slotCount pg \<and> live pg s"
    using page_wfD [OF wf] by (auto simp: page_erase_def live_def Let_def)
  show "page_rows (fst (page_erase pg s)) = (page_rows pg)[s := None]"
  proof (cases "s < slotCount pg \<and> live pg s")
    case True
    note f = page_erase_fields [OF wf conjunct1 [OF True] conjunct2 [OF True] e]
    have "row_at pg' t = (page_rows pg)[s := None] ! t" if t: "t < slotCount pg" for t
    proof (cases "t \<noteq> s \<and> live pg t")
      case live: True
      have "slotOffset s + 6 \<le> row_off pg t"
        using live_in_page [OF wf t] slot_field_in_page [OF wf conjunct1 [OF True]] live by simp
      with live t show ?thesis by (simp add: row_at_def page_rows_nth f)
    qed (use t in \<open>cases "t = s"; auto simp: row_at_def page_rows_nth f\<close>)
    with e show ?thesis by (intro page_rows_eqI) (auto simp: f)
  next
    case False
    have "(page_rows pg)[s := None] = page_rows pg"
      using False by (cases "s < slotCount pg")
        (auto simp: list_eq_iff_nth_eq nth_list_update page_rows_nth row_at_def)
    with page_erase_noop [OF False] show ?thesis by simp
  qed
qed

section \<open>In-place update\<close>

lemma page_update_noop:
  "\<not> (s < slotCount pg \<and> live pg s \<and> length row \<le> row_len pg s) \<Longrightarrow>
   page_update pg s row = (pg, False)"
  by (auto simp: page_update_def slot_defs Let_def)

lemma page_update_fields:
  assumes "page_wf pg" and "s < slotCount pg" and "live pg s" and "length row \<le> row_len pg s"
    and "page_update pg s row = (pg', b)"
  shows "b" and "length pg' = 4096" and "page_valid pg'" and "slotCount pg' = slotCount pg"
    and "read16 6 pg' = read16 6 pg" and "read16 8 pg' = read16 8 pg"
    and "t < slotCount pg \<Longrightarrow> live pg' t \<longleftrightarrow> live pg t"
    and "t < slotCount pg \<Longrightarrow> row_off pg' t = row_off pg t"
    and "t < slotCount pg \<Longrightarrow> row_len pg' t = (if t = s then length row else row_len pg t)"
    and "slotOffset s + 6 \<le> o2 \<Longrightarrow> o2 + n \<le> row_off pg s \<or> row_off pg s + length row \<le> o2 \<Longrightarrow>
      byte_run o2 n pg' = byte_run o2 n pg"
    and "byte_run (row_off pg s) (length row) pg' = row"
proof -
  note w = page_wfD [OF assms(1)] slot_field_in_page [OF assms(1,2)]
    live_in_page [OF assms(1-3)] assms(4) slot_field_in_page [OF assms(1), of t]
  have pg': "pg' = write16 (slotOffset s + 2) (length row) (copy_in (row_off pg s) row pg)" and "b"
    using assms w by (auto simp: page_update_def slot_defs Let_def)
  then show "b" by simp
  have len: "length (copy_in (row_off pg s) row pg) = 4096" using w by simp
  show "length pg' = 4096" "page_valid pg'" "slotCount pg' = slotCount pg"
    "read16 6 pg' = read16 6 pg" "read16 8 pg' = read16 8 pg"
    using w len by (simp_all add: pg' read16_write16 slotCount_def)
  show "t < slotCount pg \<Longrightarrow> live pg' t \<longleftrightarrow> live pg t"
    "t < slotCount pg \<Longrightarrow> row_off pg' t = row_off pg t"
    "t < slotCount pg \<Longrightarrow> row_len pg' t = (if t = s then length row else row_len pg t)"
    using w len by (simp_all add: pg' read16_write16 slot_defs)
  show "byte_run o2 n pg' = byte_run o2 n pg"
    if "slotOffset s + 6 \<le> o2" "o2 + n \<le> row_off pg s \<or> row_off pg s + length row \<le> o2"
    using w len that by (auto simp: pg' slice_splice_before slice_splice_after)
  show "byte_run (row_off pg s) (length row) pg' = row"
    using w len by (simp add: pg' slice_splice_same)
qed

lemma page_update_wf:
  assumes wf: "page_wf pg"
  shows "page_wf (fst (page_update pg s row))"
proof (cases "s < slotCount pg \<and> live pg s \<and> length row \<le> row_len pg s")
  case True
  obtain pg' b where e: "page_update pg s row = (pg', b)" by fastforce
  from True have s: "s < slotCount pg" "live pg s" "length row \<le> row_len pg s" by auto
  note f = page_update_fields [OF wf s e]
  have "page_wf pg'"
  proof (rule page_wfI)
    fix t assume "t < slotCount pg'" "live pg' t"
    with live_in_page [OF wf, of t] s
    show "read16 8 pg' \<le> row_off pg' t \<and> row_off pg' t + row_len pg' t \<le> 4096"
      by (auto simp: f)
  next
    fix t u assume "t < slotCount pg'" "u < slotCount pg'" "t \<noteq> u" "live pg' t" "live pg' u"
    with live_disjoint [OF wf, of t u] s
    show "row_off pg' t + row_len pg' t \<le> row_off pg' u \<or> row_off pg' u + row_len pg' u \<le> row_off pg' t"
      by (auto simp: f)
  qed (use page_wfD [OF wf] in \<open>simp_all add: f\<close>)
  with e show ?thesis by simp
qed (simp add: page_update_noop wf)

lemma page_update_rows:
  assumes wf: "page_wf pg" and s: "s < slotCount pg" "live pg s" "length row \<le> row_len pg s"
  shows "page_rows (fst (page_update pg s row)) = (page_rows pg)[s := Some row]"
proof -
  obtain pg' b where e: "page_update pg s row = (pg', b)" by fastforce
  note f = page_update_fields [OF wf s e]
  have "row_at pg' t = (page_rows pg)[s := Some row] ! t" if t: "t < slotCount pg" for t
  proof (cases "t = s")
    case True
    with s t show ?thesis by (simp add: row_at_def f)
  next
    case False
    have "slotOffset s + 6 \<le> row_off pg t" if "live pg t"
      using live_in_page [OF wf t] slot_field_in_page [OF wf s(1)] that by simp
    with False t live_disjoint [OF wf t s(1)] s f(10) [of "row_off pg t" "row_len pg t"]
    show ?thesis by (auto simp: row_at_def page_rows_nth f(1-9))
  qed
  with e show ?thesis by (intro page_rows_eqI) (auto simp: f)
qed

section \<open>Writing one row and its slot\<close>

text \<open>
  One step shared by compaction and insertion: the bytes of a row at \<open>off\<close>, above the
  directory of \<open>n\<close> slots, then the slot entry.
\<close>

lemma write_row_slot:
  assumes "length pg = 4096" and "s < n" and "16 + 6 * n \<le> off" and "off + length row \<le> 4096"
    and "pg' = write_slot (slotOffset s) off (length row) (copy_in off row pg)"
  shows "length pg' = 4096" and "page_valid pg' \<longleftrightarrow> page_valid pg"
    and "read16 4 pg' = read16 4 pg" and "read16 6 pg' = read16 6 pg" and "read16 8 pg' = read16 8 pg"
    and "t < n \<Longrightarrow> live pg' t \<longleftrightarrow> t = s \<or> live pg t"
    and "t < n \<Longrightarrow> row_off pg' t = (if t = s then off else row_off pg t)"
    and "t < n \<Longrightarrow> row_len pg' t = (if t = s then length row else row_len pg t)"
    and "off + length row \<le> o2 \<Longrightarrow> byte_run o2 m pg' = byte_run o2 m pg"
    and "byte_run off (length row) pg' = row"
proof -
  have sl: "slotOffset s + 6 \<le> off" "t < n \<Longrightarrow> slotOffset t + 6 \<le> off"
    using slotOffset_less [OF assms(2)] slotOffset_less [of t n] assms(3) by auto
  have len: "length (copy_in off row pg) = 4096" using assms by simp
  show "length pg' = 4096" "page_valid pg' \<longleftrightarrow> page_valid pg"
    "read16 4 pg' = read16 4 pg" "read16 6 pg' = read16 6 pg" "read16 8 pg' = read16 8 pg"
    using assms sl len by (simp_all add: write_slot_def read16_write16)
  show "t < n \<Longrightarrow> live pg' t \<longleftrightarrow> t = s \<or> live pg t"
    "t < n \<Longrightarrow> row_off pg' t = (if t = s then off else row_off pg t)"
    "t < n \<Longrightarrow> row_len pg' t = (if t = s then length row else row_len pg t)"
    using assms sl len by (simp_all add: write_slot_def read16_write16 slot_defs)
  show "off + length row \<le> o2 \<Longrightarrow> byte_run o2 m pg' = byte_run o2 m pg"
    using assms sl len by (simp add: write_slot_def slice_splice_after)
  show "byte_run off (length row) pg' = row"
    using assms sl len by (simp add: write_slot_def slice_splice_same)
qed

section \<open>Compaction\<close>

lemma collect_rows_wf:
  assumes "page_wf pg" and "\<forall>s \<in> set slots. s < slotCount pg"
  shows "collect_rows pg slots =
    Inr (map (\<lambda>s. (s, byte_run (row_off pg s) (row_len pg s) pg)) (filter (live pg) slots))"
  using assms(2) by (induction slots) (auto simp: page_read_wf [OF assms(1)] row_at_def)

abbreviation rows_bytes :: "(nat \<times> byte list) list \<Rightarrow> nat" where
  "rows_bytes rows \<equiv> (\<Sum>r\<leftarrow>rows. length (snd r))"

lemma compact_rows_frame:
  assumes "length pg = 4096" and "16 + 6 * n + rows_bytes rows \<le> fin" and "fin \<le> 4096"
    and "\<forall>s \<in> fst ` set rows. s < n" and "compact_rows fin pg rows = (fin', pg')"
  shows "fin' = fin - rows_bytes rows \<and> length pg' = 4096 \<and> (page_valid pg' \<longleftrightarrow> page_valid pg) \<and>
    read16 4 pg' = read16 4 pg \<and> read16 6 pg' = read16 6 pg \<and>
    (\<forall>t < n. t \<notin> fst ` set rows \<longrightarrow>
       (live pg' t \<longleftrightarrow> live pg t) \<and> row_off pg' t = row_off pg t \<and> row_len pg' t = row_len pg t) \<and>
    (\<forall>o2 m. fin \<le> o2 \<longrightarrow> byte_run o2 m pg' = byte_run o2 m pg)"
  using assms
proof (induction rows arbitrary: fin pg)
  case (Cons r rows)
  obtain s row where r: "r = (s, row)" by fastforce
  define f1 where "f1 = fin - length row"
  define p1 where "p1 = write_slot (slotOffset s) f1 (length row) (copy_in f1 row pg)"
  have f1: "(fin + 65536 - length row) mod 65536 = f1" "16 + 6 * n + rows_bytes rows \<le> f1"
    "f1 + length row = fin"
    using Cons.prems(2,3) by (auto simp: r f1_def mod_if)
  from Cons.prems(5) have rest: "compact_rows f1 p1 rows = (fin', pg')"
    by (simp add: r f1(1) p1_def Let_def)
  have "s < n" "16 + 6 * n \<le> f1" "f1 + length row \<le> 4096"
    using Cons.prems f1 by (auto simp: r)
  note w = write_row_slot [OF Cons.prems(1) this p1_def]
  have "length p1 = 4096" "f1 \<le> 4096" "\<forall>s \<in> fst ` set rows. s < n"
    using w Cons.prems f1 by auto
  note IH = Cons.IH [OF this(1) f1(2) this(2,3) rest]
  with f1 show ?case
    by (auto simp: r w)
qed simp

text \<open>Every row ends up in its own run between the new and the old end of the free space.\<close>

lemma compact_rows_placed:
  assumes "length pg = 4096" and "16 + 6 * n + rows_bytes rows \<le> fin" and "fin \<le> 4096"
    and "\<forall>s \<in> fst ` set rows. s < n" and "distinct (map fst rows)"
    and "compact_rows fin pg rows = (fin', pg')"
  shows "(\<forall>(s, row) \<in> set rows. live pg' s \<and> row_len pg' s = length row \<and>
      fin' \<le> row_off pg' s \<and> row_off pg' s + length row \<le> fin \<and>
      byte_run (row_off pg' s) (length row) pg' = row) \<and>
    (\<forall>s \<in> fst ` set rows. \<forall>t \<in> fst ` set rows. s \<noteq> t \<longrightarrow> disjoint_rows pg' s t)"
  using assms
proof (induction rows arbitrary: fin pg)
  case (Cons r rows)
  obtain s row where r: "r = (s, row)" by fastforce
  define f1 where "f1 = fin - length row"
  define p1 where "p1 = write_slot (slotOffset s) f1 (length row) (copy_in f1 row pg)"
  have f1: "(fin + 65536 - length row) mod 65536 = f1" "16 + 6 * n + rows_bytes rows \<le> f1"
    "f1 + length row = fin"
    using Cons.prems(2,3) by (auto simp: r f1_def mod_if)
  from Cons.prems(6) have rest: "compact_rows f1 p1 rows = (fin', pg')"
    by (simp add: r f1(1) p1_def Let_def)
  have s: "s < n" "16 + 6 * n \<le> f1" "f1 + length row \<le> 4096"
    using Cons.prems f1 by (auto simp: r)
  note w = write_row_slot [OF Cons.prems(1) s p1_def]
  have p: "length p1 = 4096" "f1 \<le> 4096" "\<forall>s \<in> fst ` set rows. s < n" "distinct (map fst rows)"
    "s \<notin> fst ` set rows"
    using w Cons.prems f1 by (auto simp: r)
  note IH = Cons.IH [OF p(1) f1(2) p(2-4) rest]
  note fr = compact_rows_frame [OF p(1) f1(2) p(2,3) rest]
  have first: "live pg' s" "row_len pg' s = length row" "row_off pg' s = f1"
    "byte_run f1 (length row) pg' = row" "fin' \<le> f1"
    using fr p(5) s w by auto
  have later: "row_off pg' t + row_len pg' t \<le> f1" if "t \<in> fst ` set rows" for t
    using IH that by fastforce
  have "disjoint_rows pg' s t \<and> disjoint_rows pg' t s" if "t \<in> fst ` set rows" for t
    using later [OF that] first by (simp add: disjoint_rows_def)
  moreover have "\<forall>(s, row) \<in> set rows. live pg' s \<and> row_len pg' s = length row \<and>
      fin' \<le> row_off pg' s \<and> row_off pg' s + length row \<le> fin \<and>
      byte_run (row_off pg' s) (length row) pg' = row"
    using IH f1(3) by fastforce
  ultimately show ?case using first f1(3) IH by (auto simp: r)
qed simp

text \<open>Disjoint runs inside \<open>[lo, hi)\<close> are together no longer than the interval.\<close>

lemma sum_lengths_disjoint:
  assumes "distinct xs" and "\<forall>x \<in> set xs. lo \<le> off x \<and> off x + len x \<le> (hi::nat)"
    and "\<forall>x \<in> set xs. \<forall>y \<in> set xs. x \<noteq> y \<longrightarrow> off x + len x \<le> off y \<or> off y + len y \<le> off x"
  shows "sum_list (map len xs) \<le> hi - lo"
proof -
  let ?I = "\<lambda>x. {off x ..< off x + len x}"
  have "sum_list (map len xs) = (\<Sum>x \<in> set xs. card (?I x))"
    using assms(1) by (simp add: sum_list_distinct_conv_sum_set)
  also have "\<dots> = card (\<Union>x \<in> set xs. ?I x)"
    using assms(3) by (intro card_UN_disjoint [symmetric]) fastforce+
  also have "\<dots> \<le> card {lo ..< hi}"
    using assms(2) by (intro card_mono) fastforce+
  finally show ?thesis by simp
qed

lemma live_bytes_bound:
  assumes "page_wf pg"
  shows "live_bytes pg \<le> 4096 - read16 8 pg"
  unfolding live_bytes_def
  by (rule sum_lengths_disjoint [where off = "row_off pg"])
    (use live_in_page [OF assms] live_disjoint [OF assms] in auto)

lemma length_live_row:
  assumes "page_wf pg" and "s < slotCount pg" and "live pg s"
  shows "length (byte_run (row_off pg s) (row_len pg s) pg) = row_len pg s"
  using live_in_page(2) [OF assms] page_wfD(1) [OF assms(1)] by simp

definition live_rows :: "page \<Rightarrow> (nat \<times> byte list) list" where
  "live_rows pg =
     map (\<lambda>s. (s, byte_run (row_off pg s) (row_len pg s) pg)) (filter (live pg) [0..<slotCount pg])"

lemma live_rows_props:
  assumes wf: "page_wf pg"
  shows "rows_bytes (live_rows pg) = live_bytes pg"
    and "16 + 6 * slotCount pg + rows_bytes (live_rows pg) \<le> 4096"
    and "\<forall>s \<in> fst ` set (live_rows pg). s < slotCount pg" and "distinct (map fst (live_rows pg))"
    and "t < slotCount pg \<Longrightarrow> t \<in> fst ` set (live_rows pg) \<longleftrightarrow> live pg t"
    and "(t, row) \<in> set (live_rows pg) \<longleftrightarrow>
      t < slotCount pg \<and> live pg t \<and> row = byte_run (row_off pg t) (row_len pg t) pg"
proof -
  have "map (\<lambda>r. length (snd r)) (live_rows pg) = map (row_len pg) (filter (live pg) [0..<slotCount pg])"
    using length_live_row [OF wf] by (simp add: live_rows_def)
  then show b: "rows_bytes (live_rows pg) = live_bytes pg" by (simp add: live_bytes_def)
  show "16 + 6 * slotCount pg + rows_bytes (live_rows pg) \<le> 4096"
    using live_bytes_bound [OF wf] page_wfD [OF wf] unfolding b by linarith
qed (auto simp: live_rows_def comp_def image_iff)

definition compacted :: "page \<Rightarrow> page \<Rightarrow> bool" where
  "compacted pg pg' \<longleftrightarrow>
     length pg' = 4096 \<and> page_valid pg' \<and> slotCount pg' = slotCount pg \<and>
     read16 6 pg' = read16 6 pg \<and> read16 8 pg' = 4096 - live_bytes pg \<and>
     (\<forall>t < slotCount pg. live pg' t \<longleftrightarrow> live pg t) \<and>
     (\<forall>t < slotCount pg. live pg t \<longrightarrow> row_len pg' t = row_len pg t \<and>
       read16 8 pg' \<le> row_off pg' t \<and> row_off pg' t + row_len pg t \<le> 4096 \<and>
       byte_run (row_off pg' t) (row_len pg t) pg' = byte_run (row_off pg t) (row_len pg t) pg) \<and>
     (\<forall>s < slotCount pg. \<forall>t < slotCount pg. s \<noteq> t \<longrightarrow> live pg s \<longrightarrow> live pg t \<longrightarrow>
       disjoint_rows pg' s t)"

lemma compact_compacted:
  assumes wf: "page_wf pg"
  obtains pg' where "compact pg = Inr pg'" and "compacted pg pg'"
proof -
  note w = page_wfD [OF wf] and lr = live_rows_props [OF wf]
  obtain fin' p1 where c: "compact_rows 4096 pg (live_rows pg) = (fin', p1)" by fastforce
  note fr = compact_rows_frame [OF w(1) lr(2) le_refl lr(3) c]
  note pl = compact_rows_placed [OF w(1) lr(2) le_refl lr(3,4) c]
  define pg' where "pg' = write16 8 fin' p1"
  have len: "length p1 = 4096" and fin': "fin' = 4096 - live_bytes pg" "16 + 6 * slotCount pg \<le> fin'"
    using fr lr(1,2) by auto
  have slots: "live pg' t \<longleftrightarrow> live p1 t" "row_off pg' t = row_off p1 t" "row_len pg' t = row_len p1 t" for t
    using len by (simp_all add: pg'_def read16_write16 slot_defs)
  have "collect_rows pg [0..<slotCount pg] = Inr (live_rows pg)"
    using collect_rows_wf [OF wf, of "[0..<slotCount pg]"] by (simp add: live_rows_def)
  then have comp: "compact pg = Inr pg'"
    by (simp add: compact_def c PAGE_SIZE_def pg'_def)
  have hdr: "length pg' = 4096" "page_valid pg'" "slotCount pg' = slotCount pg"
    "read16 6 pg' = read16 6 pg" "read16 8 pg' = fin'"
    using fr w len fin' by (simp_all add: pg'_def read16_write16 slotCount_def)
  have lv: "live pg' t \<longleftrightarrow> live pg t" if "t < slotCount pg" for t
    using fr pl that lr(5) [OF that] by (cases "live pg t") (auto simp: slots)
  have row: "row_len pg' t = row_len pg t \<and> fin' \<le> row_off pg' t \<and> row_off pg' t + row_len pg t \<le> 4096 \<and>
      byte_run (row_off pg' t) (row_len pg t) pg' = byte_run (row_off pg t) (row_len pg t) pg"
    if t: "t < slotCount pg" "live pg t" for t
  proof -
    have "(t, byte_run (row_off pg t) (row_len pg t) pg) \<in> set (live_rows pg)" using t lr(6) by simp
    with pl length_live_row [OF wf t] have *: "row_len p1 t = row_len pg t" "fin' \<le> row_off p1 t"
      "row_off p1 t + row_len pg t \<le> 4096"
      "byte_run (row_off p1 t) (row_len pg t) p1 = byte_run (row_off pg t) (row_len pg t) pg" by fastforce+
    with fin' len show ?thesis by (simp add: slots) (simp add: pg'_def)
  qed
  have dj: "disjoint_rows pg' s t"
    if "s < slotCount pg" "t < slotCount pg" "s \<noteq> t" "live pg s" "live pg t" for s t
    using conjunct2 [OF pl] lr(5) [OF that(1)] lr(5) [OF that(2)] that(3-5)
    unfolding disjoint_rows_def slots by blast
  have "compacted pg pg'"
    unfolding compacted_def using hdr fin'(1) lv row dj by simp
  with comp show ?thesis by (rule that)
qed

lemma compact_spec:
  assumes wf: "page_wf pg"
  obtains pg' where "compact pg = Inr pg'" and "page_wf pg'" and "page_rows pg' = page_rows pg"
    and "slotCount pg' = slotCount pg" and "read16 8 pg' = 4096 - live_bytes pg"
    and "\<And>t. t < slotCount pg \<Longrightarrow> live pg' t \<longleftrightarrow> live pg t"
proof -
  obtain pg' where c: "compact pg = Inr pg'" and k: "compacted pg pg'"
    by (rule compact_compacted [OF wf])
  have "16 + 6 * slotCount pg \<le> 4096 - live_bytes pg"
    using live_rows_props(1,2) [OF wf] by linarith
  then have "page_wf pg'"
    using k page_wfD(3) [OF wf] by (auto simp: compacted_def page_wf_def PAGE_SIZE_def)
  moreover have "page_rows pg' = page_rows pg"
    by (rule page_rows_eqI) (use k in \<open>auto simp: compacted_def page_rows_nth row_at_def\<close>)
  ultimately show ?thesis using that [OF c] k by (simp add: compacted_def)
qed

section \<open>Insertion\<close>

text \<open>The slot an insertion uses: the first dead one, or a new one at the end.\<close>

definition free_slot :: "byte list option list \<Rightarrow> nat option" where
  "free_slot rows = find (\<lambda>s. rows ! s = None) [0..<length rows]"

definition put_row :: "byte list option list \<Rightarrow> byte list \<Rightarrow> byte list option list \<times> nat" where
  "put_row rows row =
     (case free_slot rows of
        Some s \<Rightarrow> (rows[s := Some row], s)
      | None \<Rightarrow> (rows @ [Some row], length rows))"

text \<open>The bytes an insertion needs, and the bytes a page can offer after compaction.\<close>

definition need :: "byte list option list \<Rightarrow> byte list \<Rightarrow> nat" where
  "need rows row = length row + (if free_slot rows = None then 6 else 0)"

definition page_room :: "byte list option list \<Rightarrow> nat" where
  "page_room rows =
     4096 - (16 + 6 * length rows + sum_list (map (\<lambda>r. case r of None \<Rightarrow> 0 | Some b \<Rightarrow> length b) rows))"

lemma find_cong_set: "(\<And>x. x \<in> set xs \<Longrightarrow> P x = Q x) \<Longrightarrow> find P xs = find Q xs"
  by (induction xs) auto

lemma page_rows_None: "s < slotCount pg \<Longrightarrow> page_rows pg ! s = None \<longleftrightarrow> \<not> live pg s"
  by (simp add: page_rows_nth row_at_def)

lemma free_slot_page:
  "find (\<lambda>slot. read16 (slotOffset slot + 4) pg = 0) [0..<slotCount pg] = free_slot (page_rows pg)"
  unfolding free_slot_def by (simp, rule find_cong_set) (auto simp: page_rows_None live_def)

lemma sum_list_filter: "sum_list (map f (filter P xs)) = (\<Sum>x\<leftarrow>xs. if P x then f x else (0::nat))"
  by (induction xs) auto

lemma page_room_eq:
  assumes wf: "page_wf pg"
  shows "page_room (page_rows pg) = 4096 - (16 + 6 * slotCount pg + live_bytes pg)"
proof -
  have "(case row_at pg s of None \<Rightarrow> 0 | Some b \<Rightarrow> length b) = (if live pg s then row_len pg s else 0)"
    if "s < slotCount pg" for s
    using length_live_row [OF wf that] by (simp add: row_at_def)
  then have "map ((\<lambda>r. case r of None \<Rightarrow> 0 | Some b \<Rightarrow> length b) \<circ> row_at pg) [0..<slotCount pg] =
      map (\<lambda>s. if live pg s then row_len pg s else 0) [0..<slotCount pg]" by simp
  then have "sum_list (map (\<lambda>r. case r of None \<Rightarrow> 0 | Some b \<Rightarrow> length b) (page_rows pg)) = live_bytes pg"
    unfolding live_bytes_def sum_list_filter page_rows_def map_map by (rule arg_cong)
  then show ?thesis by (simp add: page_room_def)
qed

lemma freeSpace_le_room:
  assumes "page_wf pg"
  shows "freeSpace pg \<le> page_room (page_rows pg)"
  using page_wfD [OF assms] live_bytes_bound [OF assms] by (simp add: page_room_eq [OF assms])

text \<open>Placing the row once there is room for it.\<close>

definition place :: "page \<Rightarrow> nat option \<Rightarrow> byte list \<Rightarrow> page \<times> nat" where
  "place pg1 reusable row =
     (let newEnd = (read16 8 pg1 + 65536 - length row) mod 65536;
          p1 = write16 8 newEnd (copy_in newEnd row pg1);
          (slot, p2) =
            (case reusable of
               Some slot \<Rightarrow> (slot, p1)
             | None \<Rightarrow>
                 let slot = read16 4 p1
                 in (slot, write16 6 (16 + (slot + 1) * 6) (write16 4 (slot + 1) p1)))
      in (write_slot (slotOffset slot) newEnd (length row) p2, slot))"

text \<open>The header writes commute with the write of the row bytes.\<close>

lemma splice_splice_commute:
  assumes "o1 + length xs \<le> o2" and "o2 + length ys \<le> length pg"
  shows "copy_in o1 xs (copy_in o2 ys pg) = copy_in o2 ys (copy_in o1 xs pg)"
  using assms by (intro nth_equalityI) (auto simp: splice_nth)

lemma write16_splice_commute:
  "o1 + 2 \<le> o2 \<Longrightarrow> o2 + length ys \<le> length pg \<Longrightarrow>
   write16 o1 v (copy_in o2 ys pg) = copy_in o2 ys (write16 o1 v pg)"
  unfolding write16_def by (rule splice_splice_commute) simp_all

definition grown :: "page \<Rightarrow> nat option \<Rightarrow> nat" where
  "grown pg reusable = (case reusable of None \<Rightarrow> slotCount pg + 1 | Some _ \<Rightarrow> slotCount pg)"

definition place_header :: "page \<Rightarrow> nat option \<Rightarrow> nat \<Rightarrow> page" where
  "place_header pg reusable e = (case reusable of Some _ \<Rightarrow> write16 8 e pg
     | None \<Rightarrow> write16 6 (16 + (slotCount pg + 1) * 6) (write16 4 (slotCount pg + 1) (write16 8 e pg)))"

lemma place_bounds:
  assumes wf: "page_wf pg" and room: "need (page_rows pg) row \<le> freeSpace pg"
    and re: "reusable = free_slot (page_rows pg)" and e: "e = read16 8 pg - length row"
  shows "(read16 8 pg + 65536 - length row) mod 65536 = e" and "e + length row = read16 8 pg"
    and "e + length row \<le> 4096" and "16 + 6 * grown pg reusable \<le> e"
proof -
  note w = page_wfD [OF wf]
  have le: "length row \<le> read16 8 pg" using room w by (auto simp: need_def)
  with w show "(read16 8 pg + 65536 - length row) mod 65536 = e" "e + length row = read16 8 pg"
    "e + length row \<le> 4096"
    by (auto simp: e mod_if)
  show "16 + 6 * grown pg reusable \<le> e"
    using room w by (auto simp: e need_def grown_def re split: option.splits)
qed

lemma place_header_fields:
  assumes wf: "page_wf pg" and e: "16 + 6 * grown pg reusable \<le> e" "e \<le> 4096"
  shows "length (place_header pg reusable e) = 4096" and "page_valid (place_header pg reusable e)"
    and "slotCount (place_header pg reusable e) = grown pg reusable"
    and "read16 6 (place_header pg reusable e) = 16 + 6 * grown pg reusable"
    and "read16 8 (place_header pg reusable e) = e"
    and "live (place_header pg reusable e) t \<longleftrightarrow> live pg t"
    and "row_off (place_header pg reusable e) t = row_off pg t"
    and "row_len (place_header pg reusable e) t = row_len pg t"
    and "10 \<le> o2 \<Longrightarrow> byte_run o2 m (place_header pg reusable e) = byte_run o2 m pg"
  using page_wfD [OF wf] e
  by (cases reusable; simp add: place_header_def grown_def slotCount_def read16_write16 slot_defs)+

lemma place_eq:
  assumes wf: "page_wf pg" and room: "need (page_rows pg) row \<le> freeSpace pg"
    and re: "reusable = free_slot (page_rows pg)" and e: "e = read16 8 pg - length row"
    and pl: "place pg reusable row = (pg', s)"
  shows "pg' = write_slot (slotOffset s) e (length row) (copy_in e row (place_header pg reusable e))"
    and "s = (case reusable of Some t \<Rightarrow> t | None \<Rightarrow> slotCount pg)"
proof -
  note w = page_wfD [OF wf] and b = place_bounds [OF wf room re e]
  have c: "read16 4 pg = slotCount pg" using w by (simp add: slotCount_def)
  have "write16 k v (copy_in e row q) = copy_in e row (write16 k v q)" if "k \<le> 8" "length q = 4096" for k v q
    by (rule write16_splice_commute) (use that b in auto)
  with pl w b c
  show "pg' = write_slot (slotOffset s) e (length row) (copy_in e row (place_header pg reusable e))"
    "s = (case reusable of Some t \<Rightarrow> t | None \<Rightarrow> slotCount pg)"
    by (cases reusable; simp add: place_def place_header_def Let_def read16_write16)+
qed

lemma free_slot_SomeD: "free_slot rows = Some s \<Longrightarrow> s < length rows \<and> rows ! s = None"
  by (auto simp: free_slot_def find_Some_iff)

lemma free_slot_NoneD: "free_slot rows = None \<Longrightarrow> s < length rows \<Longrightarrow> rows ! s \<noteq> None"
  by (auto simp: free_slot_def find_None_iff)

lemma place_spec:
  assumes wf: "page_wf pg" and room: "need (page_rows pg) row \<le> freeSpace pg"
    and pl: "place pg (free_slot (page_rows pg)) row = (pg', s)"
  shows "page_wf pg'" and "put_row (page_rows pg) row = (page_rows pg', s)"
proof -
  let ?re = "free_slot (page_rows pg)" and ?e = "read16 8 pg - length row"
  define n where "n = grown pg ?re"
  define pgH where "pgH = place_header pg ?re ?e"
  note w = page_wfD [OF wf] and b = place_bounds [OF wf room refl refl, folded n_def]
  note pg' = place_eq(1) [OF wf room refl refl pl, folded pgH_def]
  note s = place_eq(2) [OF wf room refl refl pl]
  have e4: "?e \<le> 4096" using w by simp
  note h = place_header_fields [OF wf b(4) [unfolded n_def] e4, folded n_def pgH_def]
  have n: "s < n" "\<And>t. t < n \<Longrightarrow> t \<noteq> s \<Longrightarrow> t < slotCount pg"
    using s free_slot_SomeD [of "page_rows pg"] unfolding n_def grown_def
    by (auto split: option.splits)
  note f = write_row_slot [OF h(1) n(1) b(4,3) pg']
  have cnt: "slotCount pg' = n" using h f by (simp add: slotCount_def)
  have old: "read16 8 pg \<le> row_off pg t" "row_off pg t + row_len pg t \<le> 4096"
    if "t < n" "t \<noteq> s" "live pg t" for t
    using live_in_page [OF wf n(2) [OF that(1,2)] that(3)] by auto
  show "page_wf pg'"
  proof (rule page_wfI)
    fix t assume "t < slotCount pg'" "live pg' t"
    then show "read16 8 pg' \<le> row_off pg' t \<and> row_off pg' t + row_len pg' t \<le> 4096"
      using old [of t] b(2) w by (cases "t = s") (auto simp: cnt f h)
  next
    fix t u assume "t < slotCount pg'" "u < slotCount pg'" "t \<noteq> u" "live pg' t" "live pg' u"
    then show "row_off pg' t + row_len pg' t \<le> row_off pg' u \<or> row_off pg' u + row_len pg' u \<le> row_off pg' t"
      using old [of t] old [of u] b(2) live_disjoint [OF wf, of t u] n(2) [of t] n(2) [of u]
      by (cases "t = s"; cases "u = s") (auto simp: cnt f h)
  qed (use f(1-5) h(1-5) b(4) cnt e4 in auto)
  have "row_at pg' t = (if t = s then Some row else row_at pg t)" if "t < n" for t
  proof (cases "t = s")
    case False
    show ?thesis
    proof (cases "live pg t")
      case True
      from old [OF that False True] b(4) have "10 \<le> row_off pg t" "?e + length row \<le> row_off pg t"
        using b(2) by auto
      with False True that show ?thesis by (simp add: row_at_def f h)
    qed (use that False in \<open>simp add: row_at_def f h\<close>)
  qed (use that in \<open>simp add: row_at_def f\<close>)
  then show "put_row (page_rows pg) row = (page_rows pg', s)"
    using s cnt n(2) free_slot_SomeD [of "page_rows pg"]
    by (auto simp: put_row_def n_def grown_def nth_list_update nth_append page_rows_nth less_Suc_eq
        intro!: page_rows_eqI [symmetric] split: option.splits)
qed

text \<open>
  Insertion on a well-formed page: there is room exactly when the compacted page has it,
  and then the row goes into the first free slot; otherwise the page keeps its rows.
\<close>

lemma page_insert_unfold:
  assumes "page_valid pg" and "length row \<le> 65535"
  shows "page_insert pg row =
    (let re = free_slot (page_rows pg) in
     case (if freeSpace pg < need (page_rows pg) row then compact pg else Inr pg) of
       Inl e \<Rightarrow> (pg, Inl e)
     | Inr pg1 \<Rightarrow> if freeSpace pg1 < need (page_rows pg) row then (pg1, Inr None)
         else let (pg', s) = place pg1 re row in (pg', Inr (Some s)))"
  using assms
  by (simp add: page_insert_def place_def need_def free_slot_page Let_def split: sum.split prod.split)

lemma page_insert_spec:
  assumes wf: "page_wf pg" and len: "length row \<le> 65535"
  shows "if need (page_rows pg) row \<le> page_room (page_rows pg)
    then \<exists>pg' s. page_insert pg row = (pg', Inr (Some s)) \<and> page_wf pg' \<and>
        put_row (page_rows pg) row = (page_rows pg', s)
    else \<exists>pg'. page_insert pg row = (pg', Inr None) \<and> page_wf pg' \<and> page_rows pg' = page_rows pg"
proof -
  note w = page_wfD [OF wf]
  have placed: "\<exists>pg' s. place pg1 (free_slot (page_rows pg)) row = (pg', s) \<and> page_wf pg' \<and>
      put_row (page_rows pg) row = (page_rows pg', s)"
    if "page_wf pg1" "page_rows pg1 = page_rows pg" "need (page_rows pg) row \<le> freeSpace pg1" for pg1
    using place_spec [of pg1 row] that by (metis surj_pair)
  show ?thesis
  proof (cases "freeSpace pg < need (page_rows pg) row")
    case False
    then have "need (page_rows pg) row \<le> page_room (page_rows pg)"
      using freeSpace_le_room [OF wf] by simp
    with False placed [OF wf refl] show ?thesis
      by (auto simp: page_insert_unfold [OF w(2) len] Let_def)
  next
    case True
    obtain pg1 where c: "compact pg = Inr pg1" and wf1: "page_wf pg1" and r: "page_rows pg1 = page_rows pg"
      and n: "slotCount pg1 = slotCount pg" and e: "read16 8 pg1 = 4096 - live_bytes pg"
      by (rule compact_spec [OF wf])
    have "freeSpace pg1 = page_room (page_rows pg)"
      using page_wfD(6) [OF wf1] page_wfD(4,5) [OF wf1] n e by (simp add: page_room_eq [OF wf])
    with True c wf1 r placed [OF wf1 r] show ?thesis
      by (auto simp: page_insert_unfold [OF w(2) len] Let_def)
  qed
qed

section \<open>The contract of a slotted page\<close>

text \<open>
  What a user of a page relies on, as laws over the abstract slot list: rows can be read
  back under the slot the insertion returned, other slots keep their rows, and an erased
  slot reads as absent.
\<close>

lemma put_row_nth:
  assumes "put_row rows row = (rows', s)"
  shows "s < length rows'" and "rows' ! s = Some row" and "length rows \<le> length rows'"
    and "t < length rows \<Longrightarrow> t \<noteq> s \<Longrightarrow> rows' ! t = rows ! t"
    and "t < length rows' \<Longrightarrow> t \<noteq> s \<Longrightarrow> t < length rows"
    and "s < length rows \<Longrightarrow> rows ! s = None"
  using assms free_slot_SomeD [of rows]
  by (auto simp: put_row_def nth_append nth_list_update split: option.splits)

locale slot_store =
  fixes wf :: "'p \<Rightarrow> bool" and rows :: "'p \<Rightarrow> byte list option list"
    and get :: "'p \<Rightarrow> nat \<Rightarrow> byte list option result"
    and ins :: "'p \<Rightarrow> byte list \<Rightarrow> 'p \<times> nat option result"
    and del :: "'p \<Rightarrow> nat \<Rightarrow> 'p \<times> bool"
  assumes get_rows: "wf p \<Longrightarrow> get p s = Inr (if s < length (rows p) then rows p ! s else None)"
    and ins_wf: "wf p \<Longrightarrow> length r \<le> 65535 \<Longrightarrow> wf (fst (ins p r))"
    and ins_Some: "wf p \<Longrightarrow> length r \<le> 65535 \<Longrightarrow> ins p r = (p', Inr (Some s)) \<Longrightarrow>
      put_row (rows p) r = (rows p', s)"
    and ins_None: "wf p \<Longrightarrow> length r \<le> 65535 \<Longrightarrow> ins p r = (p', Inr None) \<Longrightarrow> rows p' = rows p"
    and ins_no_error: "wf p \<Longrightarrow> length r \<le> 65535 \<Longrightarrow> ins p r \<noteq> (p', Inl e)"
    and del_wf: "wf p \<Longrightarrow> wf (fst (del p s))"
    and del_rows: "wf p \<Longrightarrow> rows (fst (del p s)) = (rows p)[s := None]"
begin

lemma get_ins_same:
  "wf p \<Longrightarrow> length r \<le> 65535 \<Longrightarrow> ins p r = (p', Inr (Some s)) \<Longrightarrow> get p' s = Inr (Some r)"
  using put_row_nth [OF ins_Some] ins_wf [of p r] by (auto simp: get_rows)

lemma get_ins_other:
  "wf p \<Longrightarrow> length r \<le> 65535 \<Longrightarrow> ins p r = (p', Inr (Some s)) \<Longrightarrow> t \<noteq> s \<Longrightarrow> get p' t = get p t"
  using put_row_nth [OF ins_Some] ins_wf [of p r] by (fastforce simp: get_rows)

lemma ins_fresh:
  "wf p \<Longrightarrow> length r \<le> 65535 \<Longrightarrow> ins p r = (p', Inr (Some s)) \<Longrightarrow> get p s = Inr None"
  using put_row_nth(6) [OF ins_Some] by (auto simp: get_rows)

lemma get_ins_None:
  "wf p \<Longrightarrow> length r \<le> 65535 \<Longrightarrow> ins p r = (p', Inr None) \<Longrightarrow> get p' t = get p t"
  using ins_None ins_wf [of p r] by (auto simp: get_rows)

lemma get_del: "wf p \<Longrightarrow> get (fst (del p s)) t = (if t = s then Inr None else get p t)"
  using del_wf [of p s] by (auto simp: get_rows del_rows nth_list_update)

end

interpretation page_store: slot_store page_wf page_rows page_read page_insert page_erase
proof
  fix pg p' :: page and row :: "byte list" and s :: nat and e :: error
  assume wf: "page_wf pg"
  show "page_read pg s = Inr (if s < length (page_rows pg) then page_rows pg ! s else None)"
    by (simp add: page_read_wf [OF wf] page_rows_nth)
  show "page_wf (fst (page_erase pg s))" "page_rows (fst (page_erase pg s)) = (page_rows pg)[s := None]"
    by (rule page_erase_wf [OF wf], rule page_erase_rows [OF wf])
  assume len: "length row \<le> 65535"
  note spec = page_insert_spec [OF wf len]
  show "page_wf (fst (page_insert pg row))" "page_insert pg row \<noteq> (p', Inl e)"
    using spec by (auto split: if_splits)
  show "page_insert pg row = (p', Inr (Some s)) \<Longrightarrow> put_row (page_rows pg) row = (page_rows p', s)"
    "page_insert pg row = (p', Inr None) \<Longrightarrow> page_rows p' = page_rows pg"
    using spec by (auto split: if_splits)
qed

section \<open>Properties\<close>

text \<open>C9. On a well-formed page, inserting a row of at most 65535 bytes never throws. It
  succeeds exactly when the row (and a new slot entry, if no slot is free) fits the space
  left after compaction; it then uses the first free slot or appends one, leaves every
  other row as it was and keeps the page well formed. Otherwise it reports no room and
  the page keeps its rows.\<close>

theorem page_insert_correct:
  assumes "page_wf pg" and "length row \<le> 65535"
  shows "if need (page_rows pg) row \<le> page_room (page_rows pg)
    then \<exists>pg' s. page_insert pg row = (pg', Inr (Some s)) \<and> page_wf pg' \<and>
        put_row (page_rows pg) row = (page_rows pg', s)
    else \<exists>pg'. page_insert pg row = (pg', Inr None) \<and> page_wf pg' \<and> page_rows pg' = page_rows pg"
  by (rule page_insert_spec [OF assms])

theorem page_insert_correct_witness:
  "\<exists>pg'. page_insert (initialize []) [1, 2, 3] = (pg', Inr (Some 0)) \<and> page_rows pg' = [Some [1, 2, 3]]"
  using page_insert_correct [OF initialize_wf [of "[]"], of "[1, 2, 3]"]
  by (auto simp: initialize_rows need_def page_room_def put_row_def free_slot_def)

text \<open>Rows survive: a row inserted into a well-formed page is read back under the
  returned slot, the slot held no row before, every other slot still reads the same, and
  erasing a slot removes that row only.\<close>

theorem page_insert_read:
  assumes "page_wf pg" and "length row \<le> 65535" and "page_insert pg row = (pg', Inr (Some s))"
  shows "page_read pg' s = Inr (Some row) \<and> page_read pg s = Inr None \<and>
    (\<forall>t. t \<noteq> s \<longrightarrow> page_read pg' t = page_read pg t) \<and>
    (\<forall>t. page_read (fst (page_erase pg' s)) t = (if t = s then Inr None else page_read pg' t))"
  using page_store.get_ins_same [OF assms] page_store.ins_fresh [OF assms]
    page_store.get_ins_other [OF assms] page_store.get_del [of pg' s] page_store.ins_wf [OF assms(1,2)] assms(3)
  by auto

text \<open>Updating in place keeps the page well formed, succeeds exactly for a live slot
  whose row is at least as long as the new one, replaces that row and no other; a refused
  update changes nothing.\<close>

theorem page_update_correct:
  assumes "page_wf pg"
  shows "page_wf (fst (page_update pg s row)) \<and>
    (if s < slotCount pg \<and> live pg s \<and> length row \<le> row_len pg s
     then snd (page_update pg s row) \<and> page_rows (fst (page_update pg s row)) = (page_rows pg)[s := Some row]
     else page_update pg s row = (pg, False))"
  using page_update_wf [OF assms] page_update_rows [OF assms] page_update_noop [of s pg row]
    page_update_fields(1) [OF assms, of s row] by (auto simp: prod_eq_iff)

text \<open>Compaction of a well-formed page cannot fail; it keeps every row under its slot,
  and afterwards all bytes not used by live rows, the header and the directory are free.\<close>

theorem compact_correct:
  assumes "page_wf pg"
  shows "\<exists>pg'. compact pg = Inr pg' \<and> page_wf pg' \<and> page_rows pg' = page_rows pg \<and>
    freeSpace pg' = page_room (page_rows pg)"
proof -
  obtain pg' where c: "compact pg = Inr pg'" and wf': "page_wf pg'" and r: "page_rows pg' = page_rows pg"
    and n: "slotCount pg' = slotCount pg" and e: "read16 8 pg' = 4096 - live_bytes pg"
    by (rule compact_spec [OF assms])
  have "freeSpace pg' = page_room (page_rows pg)"
    using page_wfD(4-6) [OF wf'] n e by (simp add: page_room_eq [OF assms])
  with c wf' r show ?thesis by blast
qed

end
