(* ===== verification/Buffer_Pool.thy ===== *)
theory Buffer_Pool
  imports Slotted_Page "HOL-Library.AList"
begin

text \<open>
  The page cache (\<open>BufferPool\<close>, \<open>src/native_storage.h\<close> and \<open>src/native_storage.cpp\<close>) over
  the files it caches. A \<open>disk\<close> is the contents of the files, by canonical path, and which
  paths can be opened for writing; \<open>readPage\<close> and \<open>writePage\<close> work on it as the streams of
  the source do (reading past the end gives zeros, writing past the end fills the gap with
  zeros). A write to a file that could be opened succeeds: \<open>Failed writing heap page\<close> is not
  modelled. A \<open>PageGuard\<close> is the key of the frame it pins: its operations look the frame up.

  Operations return the exception or the value together with the pool afterwards, so the
  state survives an exception as it does in the source.

  \<open>view\<close> is the page a client sees: the cached frame, or the bytes on disk. \<open>pool_ok f\<close> is
  the invariant: frames, recency list and capacity agree, and clean frames agree with the
  disk up to the abstraction \<open>f\<close> of pages (a failed insertion may compact a page without
  marking it dirty, so clean frames only agree with the disk in the rows they hold).
\<close>

type_synonym path = string

record page_key =
  key_file :: path
  key_page :: nat

record disk =
  files :: "path \<rightharpoonup> byte list"
  writable :: "path \<Rightarrow> bool"

record frame =
  fbytes :: page
  dirty :: bool
  pins :: nat

record pool =
  capacityPages :: nat
  frames :: "(page_key \<times> frame) list"
  lru :: "page_key list"
  pageReads :: nat
  evictions :: nat
  pdisk :: disk

section \<open>Operations\<close>

definition byte_at :: "byte list \<Rightarrow> nat \<Rightarrow> byte" where
  "byte_at c i = (if i < length c then c ! i else 0)"

text \<open>The bytes of a page of a file, with zeros past its end.\<close>

definition disk_bytes :: "disk \<Rightarrow> page_key \<Rightarrow> page" where
  "disk_bytes d k = (case files d (key_file k) of
       None \<Rightarrow> replicate PAGE_SIZE 0
     | Some c \<Rightarrow> map (byte_at c) [key_page k * PAGE_SIZE ..< key_page k * PAGE_SIZE + PAGE_SIZE])"

definition readPage :: "disk \<Rightarrow> page_key \<Rightarrow> bool \<Rightarrow> page result" where
  "readPage d k create = (case files d (key_file k) of
       None \<Rightarrow> if create then Inr (replicate PAGE_SIZE 0)
               else Inl (Runtime_Error (''Cannot open heap file: '' @ key_file k))
     | Some c \<Rightarrow>
         let gcount = min PAGE_SIZE (length c - key_page k * PAGE_SIZE)
         in if gcount \<noteq> 0 \<and> gcount \<noteq> PAGE_SIZE
            then Inl (Runtime_Error (''Partial page in heap file: '' @ key_file k))
            else Inr (disk_bytes d k))"

definition write_at :: "nat \<Rightarrow> byte list \<Rightarrow> byte list \<Rightarrow> byte list" where
  "write_at off bs c = take off (c @ replicate (off - length c) 0) @ bs @ drop (off + length bs) c"

definition writePage :: "disk \<Rightarrow> page_key \<Rightarrow> page \<Rightarrow> disk result" where
  "writePage d k bs =
     (if \<not> writable d (key_file k)
      then Inl (Runtime_Error (''Cannot write heap file: '' @ key_file k))
      else let c = (case files d (key_file k) of None \<Rightarrow> [] | Some c \<Rightarrow> c)
           in Inr (d\<lparr>files := (files d)(key_file k \<mapsto> write_at (key_page k * PAGE_SIZE) bs c)\<rparr>))"

definition new_pool :: "nat \<Rightarrow> disk \<Rightarrow> pool" where
  "new_pool cap d = \<lparr>capacityPages = max 1 cap, frames = [], lru = [], pageReads = 0, evictions = 0, pdisk = d\<rparr>"

abbreviation frame_of :: "pool \<Rightarrow> page_key \<rightharpoonup> frame" where
  "frame_of p \<equiv> map_of (frames p)"

definition set_frame :: "page_key \<Rightarrow> frame \<Rightarrow> pool \<Rightarrow> pool" where
  "set_frame k fr p = p\<lparr>frames := AList.update k fr (frames p)\<rparr>"

definition touch :: "page_key \<Rightarrow> pool \<Rightarrow> pool" where
  "touch k p = p\<lparr>lru := k # remove1 k (lru p)\<rparr>"

definition unpin :: "page_key \<Rightarrow> pool \<Rightarrow> unit result \<times> pool" where
  "unpin k p = (case frame_of p k of
       None \<Rightarrow> (Inl Undefined_Behaviour, p)
     | Some fr \<Rightarrow>
         if pins fr = 0 then (Inl (Runtime_Error ''Buffer pool pin underflow''), p)
         else (Inr (), set_frame k (fr\<lparr>pins := pins fr - 1\<rparr>) p))"

definition flush_frame :: "page_key \<Rightarrow> frame \<Rightarrow> pool \<Rightarrow> unit result \<times> pool" where
  "flush_frame k fr p =
     (if \<not> dirty fr then (Inr (), p)
      else case writePage (pdisk p) k (fbytes fr) of
          Inl e \<Rightarrow> (Inl e, p)
        | Inr d \<Rightarrow> (Inr (), set_frame k (fr\<lparr>dirty := False\<rparr>) (p\<lparr>pdisk := d\<rparr>)))"

definition drop_frame :: "page_key \<Rightarrow> pool \<Rightarrow> pool" where
  "drop_frame k p = p\<lparr>frames := AList.delete k (frames p), lru := remove1 k (lru p)\<rparr>"

definition evictable :: "pool \<Rightarrow> page_key \<Rightarrow> bool" where
  "evictable p k = (case frame_of p k of None \<Rightarrow> False | Some fr \<Rightarrow> pins fr = 0)"

definition evictOne :: "pool \<Rightarrow> unit result \<times> pool" where
  "evictOne p = (case find (evictable p) (rev (lru p)) of
       None \<Rightarrow> (Inl (Runtime_Error ''All buffer pool pages are pinned''), p)
     | Some k \<Rightarrow>
         (case frame_of p k of
            None \<Rightarrow> (Inl Undefined_Behaviour, p)
          | Some fr \<Rightarrow>
              (case flush_frame k fr p of
                 (Inl e, p') \<Rightarrow> (Inl e, p')
               | (Inr _, p') \<Rightarrow> (Inr (), (drop_frame k p')\<lparr>evictions := evictions p' + 1\<rparr>))))"

text \<open>\<open>while (frames_.size() >= capacityPages_) evictOne();\<close>\<close>

lemma length_update_le: "map_of al k = Some v \<Longrightarrow> length (AList.update k w al) = length al"
  by (induction al) auto

lemma length_delete_less: "map_of al k = Some v \<Longrightarrow> length (AList.delete k al) < length al"
proof (induction al)
  case (Cons a al)
  then show ?case
    using length_filter_le [of "\<lambda>(k', _). k \<noteq> k'" al]
    by (auto simp: AList.delete_eq le_imp_less_Suc split: if_splits)
qed simp

lemma find_evictable: "find (evictable p) ks = Some k \<Longrightarrow> evictable p k \<and> k \<in> set ks"
  by (induction ks) (auto split: if_splits)

lemma evictOne_frames:
  assumes "evictOne p = (Inr u, p')"
  shows "length (frames p') < length (frames p)"
proof -
  obtain k fr where k: "find (evictable p) (rev (lru p)) = Some k" "frame_of p k = Some fr"
    using assms find_evictable [of p "rev (lru p)"]
    by (auto simp: evictOne_def evictable_def split: option.splits)
  have "length (AList.delete k (AList.update k fr' (frames p))) < length (frames p)" for fr'
    using length_delete_less [of "AList.update k fr' (frames p)" k fr'] length_update_le [OF k(2)]
    by (simp add: update_conv')
  then show ?thesis using assms k length_delete_less [OF k(2)]
    by (auto simp: evictOne_def flush_frame_def drop_frame_def set_frame_def
        split: if_splits sum.splits)
qed

function make_room :: "pool \<Rightarrow> unit result \<times> pool" where
  "make_room p =
     (if length (frames p) < capacityPages p then (Inr (), p)
      else case evictOne p of
          (Inl e, p') \<Rightarrow> (Inl e, p')
        | (Inr _, p') \<Rightarrow> make_room p')"
  by pat_completeness auto
termination
  by (relation "measure (\<lambda>p. length (frames p))") (auto simp: evictOne_frames)

declare make_room.simps [simp del]

definition fetch :: "page_key \<Rightarrow> bool \<Rightarrow> pool \<Rightarrow> unit result \<times> pool" where
  "fetch k create p = (case frame_of p k of
       Some fr \<Rightarrow> (Inr (), touch k (set_frame k (fr\<lparr>pins := pins fr + 1\<rparr>) p))
     | None \<Rightarrow>
         (case make_room p of
            (Inl e, p') \<Rightarrow> (Inl e, p')
          | (Inr _, p') \<Rightarrow>
              (case readPage (pdisk p') k create of
                 Inl e \<Rightarrow> (Inl e, p')
               | Inr bs \<Rightarrow>
                   (Inr (), p'\<lparr>pageReads := pageReads p' + 1, lru := k # lru p',
                      frames := (k, \<lparr>fbytes = bs, dirty = False, pins = 1\<rparr>) # frames p'\<rparr>))))"

fun flush_list :: "page_key list \<Rightarrow> pool \<Rightarrow> unit result \<times> pool" where
  "flush_list [] p = (Inr (), p)"
| "flush_list (k # ks) p = (case frame_of p k of
       None \<Rightarrow> flush_list ks p
     | Some fr \<Rightarrow>
         (case flush_frame k fr p of
            (Inl e, p') \<Rightarrow> (Inl e, p')
          | (Inr _, p') \<Rightarrow> flush_list ks p'))"

definition flushAll :: "pool \<Rightarrow> unit result \<times> pool" where
  "flushAll p = flush_list (map fst (frames p)) p"

definition flushFile :: "path \<Rightarrow> pool \<Rightarrow> unit result \<times> pool" where
  "flushFile f p = flush_list (filter (\<lambda>k. key_file k = f) (map fst (frames p))) p"

definition discardAll :: "pool \<Rightarrow> unit result \<times> pool" where
  "discardAll p =
     (if \<exists>e\<in>set (frames p). pins (snd e) \<noteq> 0
      then (Inl (Runtime_Error ''Cannot discard buffer pool with pinned pages''), p)
      else (Inr (), p\<lparr>frames := [], lru := []\<rparr>))"

fun invalidate_list :: "page_key list \<Rightarrow> pool \<Rightarrow> unit result \<times> pool" where
  "invalidate_list [] p = (Inr (), p)"
| "invalidate_list (k # ks) p = (case frame_of p k of
       None \<Rightarrow> invalidate_list ks p
     | Some fr \<Rightarrow>
         if pins fr \<noteq> 0 then (Inl (Runtime_Error ''Cannot invalidate pinned page''), p)
         else invalidate_list ks (drop_frame k p))"

definition invalidateFile :: "path \<Rightarrow> pool \<Rightarrow> unit result \<times> pool" where
  "invalidateFile f p = invalidate_list (filter (\<lambda>k. key_file k = f) (map fst (frames p))) p"

text \<open>The operations of a \<open>PageGuard\<close> on the frame it pins.\<close>

definition guard_bytes :: "page_key \<Rightarrow> pool \<Rightarrow> page result" where
  "guard_bytes k p = (case frame_of p k of None \<Rightarrow> Inl Undefined_Behaviour | Some fr \<Rightarrow> Inr (fbytes fr))"

definition guard_store :: "page_key \<Rightarrow> page \<Rightarrow> pool \<Rightarrow> pool" where
  "guard_store k bs p = (case frame_of p k of None \<Rightarrow> p | Some fr \<Rightarrow> set_frame k (fr\<lparr>fbytes := bs\<rparr>) p)"

definition markDirty :: "page_key \<Rightarrow> pool \<Rightarrow> pool" where
  "markDirty k p = (case frame_of p k of None \<Rightarrow> p | Some fr \<Rightarrow> set_frame k (fr\<lparr>dirty := True\<rparr>) p)"

definition residentPages :: "pool \<Rightarrow> nat" where
  "residentPages p = length (frames p)"

definition resetStats :: "pool \<Rightarrow> pool" where
  "resetStats p = p\<lparr>pageReads := 0, evictions := 0\<rparr>"

section \<open>The view and the invariant\<close>

definition view :: "pool \<Rightarrow> page_key \<Rightarrow> page" where
  "view p k = (case frame_of p k of Some fr \<Rightarrow> fbytes fr | None \<Rightarrow> disk_bytes (pdisk p) k)"

definition frames_ok :: "(page \<Rightarrow> 'a) \<Rightarrow> pool \<Rightarrow> bool" where
  "frames_ok f p \<longleftrightarrow> (\<forall>k fr. frame_of p k = Some fr \<longrightarrow>
     length (fbytes fr) = PAGE_SIZE \<and> (dirty fr \<or> f (fbytes fr) = f (disk_bytes (pdisk p) k)))"

definition disk_ok :: "disk \<Rightarrow> bool" where
  "disk_ok d \<longleftrightarrow> (\<forall>g c. files d g = Some c \<longrightarrow> PAGE_SIZE dvd length c)"

definition pool_ok :: "(page \<Rightarrow> 'a) \<Rightarrow> pool \<Rightarrow> bool" where
  "pool_ok f p \<longleftrightarrow>
     distinct (map fst (frames p)) \<and> distinct (lru p) \<and> set (lru p) = fst ` set (frames p) \<and>
     1 \<le> capacityPages p \<and> length (frames p) \<le> capacityPages p \<and> frames_ok f p \<and> disk_ok (pdisk p)"

definition same_view :: "(page \<Rightarrow> 'a) \<Rightarrow> pool \<Rightarrow> pool \<Rightarrow> bool" where
  "same_view f p p' \<longleftrightarrow> (\<forall>k. f (view p' k) = f (view p k))"

text \<open>Pages that are pinned, by key and pin count.\<close>

definition pin_count :: "pool \<Rightarrow> page_key \<Rightarrow> nat" where
  "pin_count p k = (case frame_of p k of None \<Rightarrow> 0 | Some fr \<Rightarrow> pins fr)"

text \<open>
  What the cache may do behind a client's back: keep the invariant, the view, the pins, the
  capacity and the write permissions, and never lose a pinned frame.
\<close>

definition pool_step :: "(page \<Rightarrow> 'a) \<Rightarrow> pool \<Rightarrow> pool \<Rightarrow> bool" where
  "pool_step f p p' \<longleftrightarrow>
     pool_ok f p' \<and> same_view f p p' \<and> pin_count p' = pin_count p \<and>
     capacityPages p' = capacityPages p \<and> writable (pdisk p') = writable (pdisk p) \<and>
     dom (files (pdisk p)) \<subseteq> dom (files (pdisk p'))"

lemma pool_step_refl: "pool_ok f p \<Longrightarrow> pool_step f p p"
  by (simp add: pool_step_def same_view_def)

lemma pool_step_trans: "pool_step f p q \<Longrightarrow> pool_step f q r \<Longrightarrow> pool_step f p r"
  unfolding pool_step_def same_view_def by (metis subset_trans)

lemma PAGE_SIZE_pos: "0 < PAGE_SIZE"
  by (simp add: PAGE_SIZE_def)

section \<open>The disk\<close>

lemma length_write_at: "length (write_at off bs c) = max (length c) (off + length bs)"
  by (simp add: write_at_def)

lemma byte_at_write_at:
  "byte_at (write_at off bs c) i =
     (if off \<le> i \<and> i < off + length bs then bs ! (i - off) else byte_at c i)"
  by (auto simp: byte_at_def write_at_def nth_append min_def not_less)

lemma length_disk_bytes [simp]: "length (disk_bytes d k) = PAGE_SIZE"
  by (simp add: disk_bytes_def split: option.splits)

lemma disk_bytes_nth:
  "i < PAGE_SIZE \<Longrightarrow> disk_bytes d k ! i =
     byte_at (case files d (key_file k) of None \<Rightarrow> [] | Some c \<Rightarrow> c) (key_page k * PAGE_SIZE + i)"
  by (simp add: disk_bytes_def byte_at_def split: option.splits)

lemma page_blocks_disjoint:
  fixes s :: nat
  assumes "m \<noteq> n" "i < s"
  shows "\<not> (n * s \<le> m * s + i \<and> m * s + i < n * s + s)"
proof (cases "m < n")
  case True
  then have "Suc m * s \<le> n * s" by (intro mult_le_mono1) simp
  then show ?thesis using assms(2) by simp
next
  case False
  then have "Suc n * s \<le> m * s" using assms(1) by (intro mult_le_mono1) simp
  then show ?thesis by simp
qed

lemma writePage_disk_bytes:
  assumes w: "writePage d k bs = Inr d'" and bs: "length bs = PAGE_SIZE"
  shows "disk_bytes d' k' = (if k' = k then bs else disk_bytes d k')"
proof (rule nth_equalityI)
  show "length (disk_bytes d' k') = length (if k' = k then bs else disk_bytes d k')" using bs by simp
  fix i assume "i < length (disk_bytes d' k')"
  then have i: "i < PAGE_SIZE" by simp
  let ?c = "case files d (key_file k) of None \<Rightarrow> [] | Some c \<Rightarrow> c"
  have d': "files d' = (files d)(key_file k \<mapsto> write_at (key_page k * PAGE_SIZE) bs ?c)"
    using w by (auto simp: writePage_def Let_def split: if_splits)
  show "disk_bytes d' k' ! i = (if k' = k then bs else disk_bytes d k') ! i"
  proof (cases "key_file k' = key_file k")
    case same: True
    show ?thesis
    proof (cases "k' = k")
      case True
      then show ?thesis using i bs d' by (simp add: disk_bytes_nth byte_at_write_at)
    next
      case False
      then have "key_page k' \<noteq> key_page k" using same by (cases k; cases k') simp
      then show ?thesis
        using page_blocks_disjoint [of "key_page k'" "key_page k" i PAGE_SIZE] i bs d' same False
        by (auto simp: disk_bytes_nth byte_at_write_at)
    qed
  next
    case False
    then show ?thesis using i d' by (auto simp: disk_bytes_nth)
  qed
qed

lemma writePage_ok:
  assumes "writePage d k bs = Inr d'" "length bs = PAGE_SIZE" "disk_ok d"
  shows "disk_ok d' \<and> writable d' = writable d \<and> dom (files d') = insert (key_file k) (dom (files d))"
proof -
  let ?c = "case files d (key_file k) of None \<Rightarrow> [] | Some c \<Rightarrow> c"
  have "PAGE_SIZE dvd length ?c" using assms(3) by (auto simp: disk_ok_def split: option.splits)
  then have "PAGE_SIZE dvd length (write_at (key_page k * PAGE_SIZE) bs ?c)"
    using assms(2) by (auto simp: length_write_at max_def)
  then show ?thesis using assms
    by (auto simp: writePage_def Let_def disk_ok_def split: if_splits)
qed

lemma readPage_ok:
  assumes "disk_ok d" "create \<or> key_file k \<in> dom (files d)"
  shows "readPage d k create = Inr (disk_bytes d k)"
proof (cases "files d (key_file k)")
  case None
  then show ?thesis using assms by (auto simp: readPage_def disk_bytes_def)
next
  case (Some c)
  then obtain m where m: "length c = PAGE_SIZE * m" using assms(1) by (auto simp: disk_ok_def dvd_def)
  have "length c - key_page k * PAGE_SIZE = PAGE_SIZE * (m - key_page k)"
    by (simp add: m diff_mult_distrib2 mult.commute)
  then show ?thesis using Some by (cases "m - key_page k") (auto simp: readPage_def)
qed

lemma readPage_result:
  "readPage d k create = Inr bs \<Longrightarrow> bs = disk_bytes d k"
  by (auto simp: readPage_def disk_bytes_def Let_def split: option.splits if_splits)

section \<open>The cache operations keep the view\<close>

lemma set_frame_simps [simp]:
  "frame_of (set_frame k fr p) = (frame_of p)(k \<mapsto> fr)"
  "lru (set_frame k fr p) = lru p" "pdisk (set_frame k fr p) = pdisk p"
  "capacityPages (set_frame k fr p) = capacityPages p" "pageReads (set_frame k fr p) = pageReads p"
  "evictions (set_frame k fr p) = evictions p"
  by (simp_all add: set_frame_def update_conv')

lemma set_frame_keys: "frame_of p k = Some fr0 \<Longrightarrow> map fst (frames (set_frame k fr p)) = map fst (frames p)"
  by (auto simp: set_frame_def AList.update_keys dest: map_of_SomeD intro: rev_image_eqI)

text \<open>Replacing a present frame by one that is dirty or agrees with the disk.\<close>

lemma set_frame_ok:
  assumes "pool_ok f p" "frame_of p k = Some fr0" "length (fbytes fr) = PAGE_SIZE"
    and "dirty fr \<or> f (fbytes fr) = f (disk_bytes (pdisk p) k)"
  shows "pool_ok f (set_frame k fr p)"
proof -
  have keys: "map fst (frames (set_frame k fr p)) = map fst (frames p)" by (rule set_frame_keys [OF assms(2)])
  moreover from this have "length (frames (set_frame k fr p)) = length (frames p)"
    "fst ` set (frames (set_frame k fr p)) = fst ` set (frames p)"
    by (metis length_map, metis list.set_map)
  moreover have "frames_ok f (set_frame k fr p)"
    using assms unfolding pool_ok_def frames_ok_def by simp
  ultimately show ?thesis using assms(1) by (simp add: pool_ok_def)
qed

lemma pool_ok_frame:
  "pool_ok f p \<Longrightarrow> frame_of p k = Some fr \<Longrightarrow>
     length (fbytes fr) = PAGE_SIZE \<and> (dirty fr \<or> f (fbytes fr) = f (disk_bytes (pdisk p) k))"
  by (simp add: pool_ok_def frames_ok_def)

lemma pool_ok_disk: "pool_ok f p \<Longrightarrow> disk_ok (pdisk p)"
  by (simp add: pool_ok_def)

text \<open>Writing a frame's bytes to its page changes the disk only there.\<close>

lemma disk_write_ok:
  assumes ok: "pool_ok f p" and fr: "frame_of p k = Some fr"
    and w: "writePage (pdisk p) k (fbytes fr) = Inr d"
  shows "pool_ok f (p\<lparr>pdisk := d\<rparr>)"
proof -
  have len: "length (fbytes fr) = PAGE_SIZE" using pool_ok_frame [OF ok fr] by simp
  have "frames_ok f (p\<lparr>pdisk := d\<rparr>)"
    unfolding frames_ok_def using ok fr pool_ok_frame [OF ok]
    by (auto simp: writePage_disk_bytes [OF w len])
  then show ?thesis using ok writePage_ok [OF w len pool_ok_disk [OF ok]] by (simp add: pool_ok_def)
qed

lemma flush_frame_step:
  assumes ok: "pool_ok f p" and fr: "frame_of p k = Some fr" and fl: "flush_frame k fr p = (r, p')"
  shows "pool_step f p p' \<and> frame_of p' k = Some (if r = Inr () then fr\<lparr>dirty := False\<rparr> else fr) \<and>
    lru p' = lru p \<and> map fst (frames p') = map fst (frames p) \<and>
    (r = Inr () \<longrightarrow> f (fbytes fr) = f (disk_bytes (pdisk p') k))"
proof (cases "dirty fr \<and> (\<exists>d. writePage (pdisk p) k (fbytes fr) = Inr d)")
  case True
  then obtain d where d: "dirty fr" "writePage (pdisk p) k (fbytes fr) = Inr d" by blast
  let ?q = "set_frame k (fr\<lparr>dirty := False\<rparr>) (p\<lparr>pdisk := d\<rparr>)"
  have p': "p' = ?q" "r = Inr ()" using fl d by (auto simp: flush_frame_def)
  have len: "length (fbytes fr) = PAGE_SIZE" using pool_ok_frame [OF ok fr] by simp
  note wp = writePage_disk_bytes [OF d(2) len]
  have "pool_ok f ?q"
    by (rule set_frame_ok [OF disk_write_ok [OF ok fr d(2)]]) (use fr len in \<open>simp_all add: wp\<close>)
  moreover have "view ?q k' = view p k'" for k'
    using fr by (cases "k' = k") (auto simp: view_def wp split: option.splits)
  moreover have "pin_count ?q = pin_count p" using fr by (auto simp: pin_count_def)
  moreover have "map fst (frames ?q) = map fst (frames p)"
    using set_frame_keys [of "p\<lparr>pdisk := d\<rparr>" k fr] fr by simp
  ultimately show ?thesis using p' writePage_ok [OF d(2) len pool_ok_disk [OF ok]]
    by (auto simp: pool_step_def same_view_def wp)
next
  case False
  then have "p' = p \<and> (r = Inr () \<longrightarrow> \<not> dirty fr)"
    using fl by (auto simp: flush_frame_def split: if_splits sum.splits)
  then show ?thesis using pool_step_refl [OF ok] fr pool_ok_frame [OF ok fr] by auto
qed

lemma drop_frame_simps [simp]:
  "frame_of (drop_frame k p) = (frame_of p)(k := None)"
  "pdisk (drop_frame k p) = pdisk p" "capacityPages (drop_frame k p) = capacityPages p"
  "evictions (drop_frame k p) = evictions p"
  by (simp_all add: drop_frame_def delete_conv')

lemma drop_frame_ok:
  assumes ok: "pool_ok f p"
  shows "pool_ok f (drop_frame k p)"
proof -
  have "length (AList.delete k (frames p)) \<le> length (frames p)" by (rule AList.length_delete_le)
  moreover have "frames_ok f (drop_frame k p)" using ok by (auto simp: pool_ok_def frames_ok_def split: if_splits)
  moreover have "fst ` set (AList.delete k (frames p)) = fst ` set (frames p) - {k}"
    by (auto simp: AList.delete_eq)
  ultimately show ?thesis using ok
    by (auto simp: pool_ok_def drop_frame_def AList.distinct_delete set_remove1_eq)
qed

text \<open>Dropping an unpinned frame whose contents are on disk is invisible.\<close>

lemma drop_frame_step:
  assumes ok: "pool_ok f p" and fr: "frame_of p k = Some fr" "pins fr = 0"
    and disk: "f (fbytes fr) = f (disk_bytes (pdisk p) k)"
  shows "pool_step f p (drop_frame k p)"
  using drop_frame_ok [OF ok, of k] fr disk
  by (auto simp: pool_step_def same_view_def view_def pin_count_def split: option.splits)

lemma stats_irrelevant [simp]:
  "pool_ok f (p\<lparr>evictions := n\<rparr>) = pool_ok f p" "view (p\<lparr>evictions := n\<rparr>) = view p"
  "pin_count (p\<lparr>evictions := n\<rparr>) = pin_count p"
  by (auto simp: pool_ok_def frames_ok_def view_def pin_count_def fun_eq_iff split: option.splits)

lemma evictOne_step:
  assumes ok: "pool_ok f p" and ev: "evictOne p = (r, p')"
  shows "pool_step f p p'"
proof (cases "find (evictable p) (rev (lru p))")
  case None
  then show ?thesis using ev pool_step_refl [OF ok] by (simp add: evictOne_def)
next
  case (Some k)
  then obtain fr where fr: "frame_of p k = Some fr" "pins fr = 0"
    using find_evictable [OF Some] by (auto simp: evictable_def split: option.splits)
  obtain r1 p1 where fl: "flush_frame k fr p = (r1, p1)" by (cases "flush_frame k fr p")
  note st = flush_frame_step [OF ok fr(1) fl]
  then have ok1: "pool_ok f p1" by (simp add: pool_step_def)
  show ?thesis
  proof (cases r1)
    case (Inl e)
    then show ?thesis using ev Some fr fl st by (simp add: evictOne_def)
  next
    case (Inr u)
    have "pool_step f p1 (drop_frame k p1)"
      using st Inr fr(2) by (intro drop_frame_step [OF ok1, of k "fr\<lparr>dirty := False\<rparr>"]) auto
    then have "pool_step f p (drop_frame k p1)" using pool_step_trans st by blast
    moreover have "p' = (drop_frame k p1)\<lparr>evictions := evictions p1 + 1\<rparr>"
      using ev Some fr fl Inr by (simp add: evictOne_def)
    ultimately show ?thesis by (simp add: pool_step_def same_view_def)
  qed
qed

lemma make_room_step:
  "pool_ok f p \<Longrightarrow> make_room p = (r, p') \<Longrightarrow>
     pool_step f p p' \<and> (r = Inr () \<longrightarrow> length (frames p') < capacityPages p') \<and>
     dom (frame_of p') \<subseteq> dom (frame_of p)"
proof (induction p arbitrary: r p' rule: make_room.induct)
  case (1 p)
  show ?case
  proof (cases "length (frames p) < capacityPages p")
    case True
    then show ?thesis using 1(2,3) pool_step_refl by (auto simp: make_room.simps [of p])
  next
    case False
    obtain r1 p1 where ev: "evictOne p = (r1, p1)" by (cases "evictOne p")
    have st: "pool_step f p p1" by (rule evictOne_step [OF 1(2) ev])
    have dom: "dom (frame_of p1) \<subseteq> dom (frame_of p)"
    proof -
      have "frame_of p1 k = None" if "frame_of p k = None" for k
        using ev that find_evictable [of p "rev (lru p)"]
        by (auto simp: evictOne_def flush_frame_def evictable_def split: option.splits if_splits sum.splits)
      then show ?thesis by (metis domIff subsetI)
    qed
    show ?thesis
    proof (cases r1)
      case (Inl e)
      then show ?thesis using 1(3) False ev st dom by (auto simp: make_room.simps [of p])
    next
      case (Inr u)
      then have "make_room p1 = (r, p')" using 1(3) False ev by (simp add: make_room.simps [of p])
      then have "pool_step f p1 p' \<and> (r = Inr () \<longrightarrow> length (frames p') < capacityPages p') \<and>
          dom (frame_of p') \<subseteq> dom (frame_of p1)"
        using 1(1) [OF False, of r1 p1 u] ev Inr st by (auto simp: pool_step_def)
      then show ?thesis using st dom pool_step_trans by blast
    qed
  qed
qed

text \<open>What remains of \<open>pool_step\<close> when a page is pinned or unpinned.\<close>

definition pool_keeps :: "(page \<Rightarrow> 'a) \<Rightarrow> pool \<Rightarrow> pool \<Rightarrow> bool" where
  "pool_keeps f p p' \<longleftrightarrow>
     pool_ok f p' \<and> same_view f p p' \<and> capacityPages p' = capacityPages p \<and>
     writable (pdisk p') = writable (pdisk p) \<and> dom (files (pdisk p)) \<subseteq> dom (files (pdisk p'))"

lemma pool_step_keeps: "pool_step f p p' \<longleftrightarrow> pool_keeps f p p' \<and> pin_count p' = pin_count p"
  by (auto simp: pool_step_def pool_keeps_def)

lemma pool_keeps_trans: "pool_keeps f p q \<Longrightarrow> pool_keeps f q r \<Longrightarrow> pool_keeps f p r"
  unfolding pool_keeps_def same_view_def by (metis subset_trans)

lemma touch_simps [simp]:
  "frames (touch k p) = frames p" "pdisk (touch k p) = pdisk p" "capacityPages (touch k p) = capacityPages p"
  by (simp_all add: touch_def)

lemma touch_keeps:
  assumes "pool_ok f p" "frame_of p k = Some fr"
  shows "pool_ok f (touch k p) \<and> view (touch k p) = view p \<and> pin_count (touch k p) = pin_count p"
proof -
  have "k \<in> set (lru p)" using assms by (auto simp: pool_ok_def dest: map_of_SomeD intro: rev_image_eqI)
  then show ?thesis using assms(1)
    by (auto simp: pool_ok_def touch_def frames_ok_def view_def pin_count_def fun_eq_iff set_remove1_eq
        split: option.splits)
qed

lemma set_pins_keeps:
  assumes ok: "pool_ok f p" and fr: "frame_of p k = Some fr"
  shows "pool_keeps f p (set_frame k (fr\<lparr>pins := n\<rparr>) p)"
    "pin_count (set_frame k (fr\<lparr>pins := n\<rparr>) p) = (pin_count p)(k := n)"
proof -
  let ?q = "set_frame k (fr\<lparr>pins := n\<rparr>) p"
  have "pool_ok f ?q" by (rule set_frame_ok [OF ok fr]) (use pool_ok_frame [OF ok fr] in auto)
  moreover have "view ?q k' = view p k'" for k' using fr by (auto simp: view_def split: option.splits)
  ultimately show "pool_keeps f p ?q" by (simp add: pool_keeps_def same_view_def)
  show "pin_count ?q = (pin_count p)(k := n)" by (auto simp: pin_count_def)
qed

lemma fetch_hit:
  assumes ok: "pool_ok f p" and fr: "frame_of p k = Some fr" and fe: "fetch k create p = (r, p')"
  shows "r = Inr () \<and> pool_keeps f p p' \<and> pin_count p' = (pin_count p)(k := pin_count p k + 1) \<and>
    frame_of p' k = Some (fr\<lparr>pins := pins fr + 1\<rparr>)"
proof -
  let ?fr = "fr\<lparr>pins := pins fr + 1\<rparr>"
  let ?q = "set_frame k ?fr p"
  have "p' = touch k ?q" "r = Inr ()" using fe fr by (simp_all add: fetch_def)
  moreover have "pool_keeps f p ?q" "pin_count ?q = (pin_count p)(k := pins fr + 1)"
    by (rule set_pins_keeps [OF ok fr])+
  moreover have "pool_ok f (touch k ?q) \<and> view (touch k ?q) = view ?q \<and> pin_count (touch k ?q) = pin_count ?q"
    using set_pins_keeps(1) [OF ok fr] by (intro touch_keeps [of f ?q k ?fr]) (auto simp: pool_keeps_def)
  moreover have "pin_count p k = pins fr" using fr by (simp add: pin_count_def)
  ultimately show ?thesis by (auto simp: pool_keeps_def same_view_def)
qed

lemma add_frame_ok:
  assumes ok: "pool_ok f p" and new: "frame_of p k = None" and room: "length (frames p) < capacityPages p"
    and q: "q = p\<lparr>pageReads := n, lru := k # lru p,
      frames := (k, \<lparr>fbytes = disk_bytes (pdisk p) k, dirty = False, pins = 1\<rparr>) # frames p\<rparr>"
  shows "pool_keeps f p q \<and> pin_count q = (pin_count p)(k := pin_count p k + 1)"
proof -
  have fo: "frame_of q = (frame_of p)(k \<mapsto> \<lparr>fbytes = disk_bytes (pdisk p) k, dirty = False, pins = 1\<rparr>)"
    and pd: "pdisk q = pdisk p" using q by simp_all
  have "frames_ok f q" using ok fo pd by (auto simp: pool_ok_def frames_ok_def)
  moreover have "k \<notin> fst ` set (frames p)" using new by (simp add: map_of_eq_None_iff)
  ultimately have "pool_ok f q" using ok room q by (auto simp: pool_ok_def)
  moreover have "view q k' = view p k'" for k' using fo pd new by (simp add: view_def split: option.splits)
  moreover have "pin_count q = (pin_count p)(k := pin_count p k + 1)"
    using fo new by (auto simp: pin_count_def)
  ultimately show ?thesis using q by (simp add: pool_keeps_def same_view_def)
qed

lemma fetch_keeps:
  assumes ok: "pool_ok f p" and fe: "fetch k create p = (r, p')"
  shows "pool_keeps f p p' \<and>
    (r = Inr () \<longrightarrow> pin_count p' = (pin_count p)(k := pin_count p k + 1) \<and> k \<in> dom (frame_of p')) \<and>
    (r \<noteq> Inr () \<longrightarrow> pin_count p' = pin_count p)"
proof (cases "frame_of p k")
  case (Some fr)
  then show ?thesis using fetch_hit [OF ok Some fe] by blast
next
  case None
  obtain r1 p1 where mr: "make_room p = (r1, p1)" by (cases "make_room p")
  note st = make_room_step [OF ok mr]
  then have ok1: "pool_ok f p1" and none: "frame_of p1 k = None"
    using None by (auto simp: pool_step_def domIff subset_iff)
  show ?thesis
  proof (cases "r1 = Inr () \<and> (\<exists>bs. readPage (pdisk p1) k create = Inr bs)")
    case True
    then obtain bs where bs: "r1 = Inr ()" "readPage (pdisk p1) k create = Inr bs" by blast
    let ?q = "p1\<lparr>pageReads := pageReads p1 + 1, lru := k # lru p1,
      frames := (k, \<lparr>fbytes = disk_bytes (pdisk p1) k, dirty = False, pins = 1\<rparr>) # frames p1\<rparr>"
    have "p' = ?q" "r = Inr ()" using fe None mr bs readPage_result [OF bs(2)] by (simp_all add: fetch_def)
    then show ?thesis using add_frame_ok [OF ok1 none _ refl, of "pageReads p1 + 1"] st bs(1)
      pool_keeps_trans by (auto simp: pool_step_keeps)
  next
    case False
    then have "p' = p1 \<and> r \<noteq> Inr ()" using fe None mr
      by (auto simp: fetch_def split: sum.splits)
    then show ?thesis using st by (auto simp: pool_step_keeps)
  qed
qed

section \<open>When the cache makes progress\<close>

definition pinned :: "pool \<Rightarrow> page_key set" where
  "pinned p = {k. pin_count p k \<noteq> 0}"

lemma pinned_dom: "pinned p \<subseteq> dom (frame_of p)"
  by (auto simp: pinned_def pin_count_def split: option.splits)

lemma evictable_exists:
  assumes ok: "pool_ok f p" and "card (pinned p) < capacityPages p" "capacityPages p \<le> length (frames p)"
  shows "find (evictable p) (rev (lru p)) \<noteq> None"
proof
  assume none: "find (evictable p) (rev (lru p)) = None"
  have "fst ` set (frames p) \<subseteq> pinned p"
  proof
    fix k assume k: "k \<in> fst ` set (frames p)"
    then obtain fr where fr: "frame_of p k = Some fr" by (metis domD dom_map_of_conv_image_fst)
    have "\<not> evictable p k" using none k ok by (auto simp: find_None_iff pool_ok_def)
    then show "k \<in> pinned p" using fr by (simp add: evictable_def pinned_def pin_count_def)
  qed
  then have "card (fst ` set (frames p)) \<le> card (pinned p)"
    using pinned_dom [of p] finite_dom_map_of [of "frames p"] by (meson card_mono finite_subset)
  moreover have "card (fst ` set (frames p)) = length (frames p)"
    using ok distinct_card [of "map fst (frames p)"] by (simp add: pool_ok_def)
  ultimately show False using assms(2,3) by simp
qed

lemma evictOne_progress:
  assumes ok: "pool_ok f p" and "card (pinned p) < capacityPages p" "capacityPages p \<le> length (frames p)"
    and wr: "\<forall>g. writable (pdisk p) g"
  shows "fst (evictOne p) = Inr ()"
proof -
  obtain k where k: "find (evictable p) (rev (lru p)) = Some k" using evictable_exists [OF assms(1-3)] by blast
  then obtain fr where fr: "frame_of p k = Some fr"
    using find_evictable [OF k] by (auto simp: evictable_def split: option.splits)
  have "fst (flush_frame k fr p) = Inr ()" using wr by (auto simp: flush_frame_def writePage_def Let_def)
  then show ?thesis using k fr by (cases "flush_frame k fr p") (simp add: evictOne_def)
qed

lemma make_room_progress:
  assumes "pool_ok f p" "card (pinned p) < capacityPages p" "\<forall>g. writable (pdisk p) g"
  shows "fst (make_room p) = Inr ()"
  using assms
proof (induction p rule: make_room.induct)
  case (1 p)
  show ?case
  proof (cases "length (frames p) < capacityPages p")
    case False
    obtain p1 where ev: "evictOne p = (Inr (), p1)"
      using evictOne_progress [OF 1(2,3) _ 1(4)] False by (cases "evictOne p") auto
    have "pool_step f p p1" by (rule evictOne_step [OF 1(2) ev])
    then have "fst (make_room p1) = Inr ()"
      using 1 False ev by (auto simp: pool_step_def pinned_def)
    then show ?thesis using False ev by (simp add: make_room.simps [of p])
  qed (simp add: make_room.simps [of p])
qed

lemma fetch_progress:
  assumes ok: "pool_ok f p" and "card (pinned p) < capacityPages p" "\<forall>g. writable (pdisk p) g"
    and fi: "create \<or> key_file k \<in> dom (files (pdisk p))"
  shows "fst (fetch k create p) = Inr ()"
proof (cases "frame_of p k")
  case None
  obtain p1 where mr: "make_room p = (Inr (), p1)"
    using make_room_progress [OF assms(1-3)] by (cases "make_room p") auto
  have st: "pool_step f p p1" using make_room_step [OF ok mr] by blast
  then have "readPage (pdisk p1) k create = Inr (disk_bytes (pdisk p1) k)"
    using fi by (intro readPage_ok) (auto simp: pool_step_def pool_ok_def)
  then show ?thesis using None mr by (simp add: fetch_def)
qed (simp add: fetch_def)

section \<open>Flushing, discarding and unpinning\<close>

lemma flush_frame_others:
  assumes "flush_frame k fr p = (r, p')" "k' \<noteq> k" "length (fbytes fr) = PAGE_SIZE"
  shows "frame_of p' k' = frame_of p k' \<and> disk_bytes (pdisk p') k' = disk_bytes (pdisk p) k'"
  using assms writePage_disk_bytes [OF _ assms(3)]
  by (auto simp: flush_frame_def split: if_splits sum.splits)

lemma flush_list_untouched:
  assumes "pool_ok f p" "flush_list ks p = (r, p')" "k \<notin> set ks"
  shows "disk_bytes (pdisk p') k = disk_bytes (pdisk p) k"
  using assms
proof (induction ks p arbitrary: r p' rule: flush_list.induct)
  case (2 k' ks p)
  show ?case
  proof (cases "frame_of p k'")
    case (Some fr)
    obtain r1 p1 where fl: "flush_frame k' fr p = (r1, p1)" by (cases "flush_frame k' fr p")
    have "disk_bytes (pdisk p1) k = disk_bytes (pdisk p) k" "pool_ok f p1"
      using flush_frame_others [OF fl, of k] pool_ok_frame [OF 2(3) Some] 2(5)
        flush_frame_step [OF 2(3) Some fl] by (auto simp: pool_step_def)
    then show ?thesis using 2(2) [OF Some, of r1 p1] 2(4,5) Some fl by (cases r1) auto
  qed (use 2 in auto)
qed simp

lemma flush_list_step:
  assumes "pool_ok f p" "flush_list ks p = (r, p')"
  shows "pool_step f p p' \<and> dom (frame_of p') = dom (frame_of p) \<and>
    (r = Inr () \<longrightarrow> (\<forall>k\<in>set ks. f (disk_bytes (pdisk p') k) = f (view p k)))"
  using assms
proof (induction ks p arbitrary: r p' rule: flush_list.induct)
  case (1 p)
  then show ?case by (simp add: pool_step_refl)
next
  case (2 k ks p)
  show ?case
  proof (cases "frame_of p k")
    case None
    then have "pool_step f p p' \<and> dom (frame_of p') = dom (frame_of p) \<and>
        (r = Inr () \<longrightarrow> (\<forall>k\<in>set ks. f (disk_bytes (pdisk p') k) = f (view p k)))"
      using 2(1) [OF None 2(3)] 2(4) by simp
    moreover from this None have "frame_of p' k = None" by (metis domIff)
    moreover from this None have "view p' k = disk_bytes (pdisk p') k" by (simp add: view_def)
    moreover have "f (view p' k) = f (view p k)" using calculation(1) by (simp add: pool_step_def same_view_def)
    ultimately show ?thesis by auto
  next
    case (Some fr)
    obtain r1 p1 where fl: "flush_frame k fr p = (r1, p1)" by (cases "flush_frame k fr p")
    note st = flush_frame_step [OF 2(3) Some fl]
    then have dom1: "dom (frame_of p1) = dom (frame_of p)"
      by (metis dom_map_of_conv_image_fst list.set_map)
    have ok1: "pool_ok f p1" using st by (simp add: pool_step_def)
    show ?thesis
    proof (cases "r1 = Inr ()")
      case False
      then have "r = r1 \<and> p' = p1" using 2(4) Some fl by (auto split: sum.splits)
      then show ?thesis using st dom1 False by simp
    next
      case True
      then have rest: "flush_list ks p1 = (r, p')" using 2(4) Some fl by simp
      have IH: "pool_step f p1 p' \<and> dom (frame_of p') = dom (frame_of p1) \<and>
          (r = Inr () \<longrightarrow> (\<forall>k\<in>set ks. f (disk_bytes (pdisk p') k) = f (view p1 k)))"
        using 2(2) [OF Some] fl True ok1 rest by auto
      have step: "pool_step f p p'" using pool_step_trans IH st by blast
      have "f (disk_bytes (pdisk p') k) = f (view p k)" if "r = Inr ()"
      proof (cases "k \<in> set ks")
        case True
        then show ?thesis using IH st that by (simp add: pool_step_def same_view_def)
      next
        case False
        have "f (disk_bytes (pdisk p1) k) = f (view p k)" using st True Some by (simp add: view_def)
        moreover have "disk_bytes (pdisk p') k = disk_bytes (pdisk p1) k"
          using flush_list_untouched [OF ok1 rest False] .
        ultimately show ?thesis by simp
      qed
      then show ?thesis using step IH dom1 st by (auto simp: pool_step_def same_view_def)
    qed
  qed
qed

lemma unpin_keeps:
  assumes ok: "pool_ok f p" and "0 < pin_count p k"
  shows "\<exists>p'. unpin k p = (Inr (), p') \<and> pool_keeps f p p' \<and>
    pin_count p' = (pin_count p)(k := pin_count p k - 1) \<and> dom (frame_of p') = dom (frame_of p)"
proof -
  obtain fr where fr: "frame_of p k = Some fr" "0 < pins fr"
    using assms(2) by (auto simp: pin_count_def split: option.splits)
  then show ?thesis using set_pins_keeps [OF ok fr(1), of "pins fr - 1"]
    by (auto simp: unpin_def pin_count_def)
qed

lemma discardAll_keeps:
  assumes ok: "pool_ok f p" and "\<forall>k. pin_count p k = 0"
  shows "discardAll p = (Inr (), p\<lparr>frames := [], lru := []\<rparr>)" "pool_ok f (p\<lparr>frames := [], lru := []\<rparr>)"
proof -
  have "pins fr = 0" if "(k, fr) \<in> set (frames p)" for k fr
  proof -
    have "frame_of p k = Some fr" using ok that by (simp add: pool_ok_def)
    then show ?thesis using assms(2) by (metis option.simps(5) pin_count_def)
  qed
  then show "discardAll p = (Inr (), p\<lparr>frames := [], lru := []\<rparr>)" by (auto simp: discardAll_def)
  show "pool_ok f (p\<lparr>frames := [], lru := []\<rparr>)" using ok by (simp add: pool_ok_def frames_ok_def)
qed

lemma find_split: "find P xs = Some k \<Longrightarrow> \<exists>us vs. xs = us @ k # vs \<and> (\<forall>u\<in>set us. \<not> P u)"
proof (induction xs)
  case (Cons x xs)
  show ?case
  proof (cases "P x")
    case True
    then have "x # xs = [] @ k # xs" using Cons.prems by simp
    then show ?thesis by fastforce
  next
    case False
    then obtain us vs where "xs = us @ k # vs" "\<forall>u\<in>set us. \<not> P u" using Cons by auto
    with False have "x # xs = (x # us) @ k # vs \<and> (\<forall>u\<in>set (x # us). \<not> P u)" by simp
    then show ?thesis by blast
  qed
qed simp

section \<open>Properties\<close>

text \<open>
  C15. While some frame is unpinned and the files can be written, fetching a page of an
  existing file succeeds. It may evict and write back other frames, but every page a client
  can see stays the same, the page fetched is the one the client saw before, exactly one pin
  is added, and the pool never holds more frames than its capacity.
\<close>

theorem fetch_transparent:
  assumes "pool_ok f p" "card (pinned p) < capacityPages p" "\<forall>g. writable (pdisk p) g"
    and "create \<or> key_file k \<in> dom (files (pdisk p))"
  shows "\<exists>p' bs. fetch k create p = (Inr (), p') \<and> guard_bytes k p' = Inr bs \<and> f bs = f (view p k) \<and>
    same_view f p p' \<and> pool_ok f p' \<and> residentPages p' \<le> capacityPages p \<and>
    pin_count p' = (pin_count p)(k := pin_count p k + 1)"
proof -
  obtain p' where fe: "fetch k create p = (Inr (), p')"
    using fetch_progress [OF assms] by (cases "fetch k create p") auto
  note ke = fetch_keeps [OF assms(1) fe]
  then obtain fr where fr: "frame_of p' k = Some fr" by auto
  then have "guard_bytes k p' = Inr (view p' k)" by (simp add: view_def guard_bytes_def)
  moreover have "residentPages p' \<le> capacityPages p"
    using ke by (simp add: pool_keeps_def residentPages_def pool_ok_def)
  ultimately show ?thesis using fe ke by (simp add: pool_keeps_def same_view_def)
qed

definition one_page_disk :: disk where
  "one_page_disk = \<lparr>files = [''t.heap'' \<mapsto> replicate PAGE_SIZE 7], writable = (\<lambda>g. True)\<rparr>"

definition empty_pool :: pool where
  "empty_pool = new_pool 1 one_page_disk"

lemma empty_pool_facts:
  "pool_ok f empty_pool" "pinned empty_pool = {}" "capacityPages empty_pool = 1"
  "writable (pdisk empty_pool) g" "\<exists>c. files (pdisk empty_pool) ''t.heap'' = Some c"
  by (auto simp: pool_ok_def new_pool_def frames_ok_def disk_ok_def one_page_disk_def empty_pool_def
      pinned_def pin_count_def)

theorem fetch_transparent_witness:
  "\<exists>p'. fetch \<lparr>key_file = ''t.heap'', key_page = 0\<rparr> False empty_pool = (Inr (), p') \<and> residentPages p' \<le> 1"
  using fetch_transparent [OF empty_pool_facts(1) [of id], of False "\<lparr>key_file = ''t.heap'', key_page = 0\<rparr>"]
    empty_pool_facts by auto

text \<open>
  C17. Eviction takes the least recently used frame that is not pinned: every frame less
  recently used than the victim is pinned, the victim leaves the pool and nothing else does.
\<close>

theorem evict_lru:
  assumes "pool_ok f p" "evictOne p = (Inr (), p')"
  shows "\<exists>xs k ys. lru p = xs @ k # ys \<and> pin_count p k = 0 \<and> (\<forall>y\<in>set ys. 0 < pin_count p y) \<and>
    lru p' = xs @ ys \<and> set (lru p') = set (lru p) - {k} \<and> evictions p' = evictions p + 1"
proof -
  obtain k where k: "find (evictable p) (rev (lru p)) = Some k"
    using assms(2) by (auto simp: evictOne_def split: option.splits)
  then obtain fr where fr: "frame_of p k = Some fr" "pins fr = 0"
    using find_evictable [OF k] by (auto simp: evictable_def split: option.splits)
  obtain us vs where sp: "rev (lru p) = us @ k # vs" "\<forall>u\<in>set us. \<not> evictable p u"
    using find_split [OF k] by blast
  then have lru: "lru p = rev vs @ k # rev us" by (simp add: rev_swap)
  have dist: "distinct (lru p)" and dom: "set (lru p) = fst ` set (frames p)"
    using assms(1) by (simp_all add: pool_ok_def)
  have "0 < pin_count p y" if "y \<in> set (rev us)" for y
  proof -
    have "y \<in> fst ` set (frames p)" using that lru dom by auto
    then obtain fr' where "frame_of p y = Some fr'" by (metis domD dom_map_of_conv_image_fst)
    then show ?thesis using sp(2) that by (auto simp: evictable_def pin_count_def)
  qed
  moreover have "lru p' = remove1 k (lru p)" "evictions p' = evictions p + 1"
    using assms(2) k fr by (auto simp: evictOne_def flush_frame_def drop_frame_def split: if_splits sum.splits)
  moreover have "remove1 k (lru p) = rev vs @ rev us" using dist lru by (simp add: remove1_append)
  moreover have "set (rev vs @ rev us) = set (lru p) - {k}" using dist lru by auto
  moreover have "pin_count p k = 0" using fr by (simp add: pin_count_def)
  ultimately show ?thesis using lru by metis
qed

definition idle_pool :: pool where
  "idle_pool = (let k = \<lparr>key_file = ''t.heap'', key_page = 0\<rparr> in
     empty_pool\<lparr>frames := [(k, \<lparr>fbytes = disk_bytes one_page_disk k, dirty = True, pins = 0\<rparr>)], lru := [k]\<rparr>)"

lemma idle_pool_facts:
  "pool_ok f idle_pool" "pin_count idle_pool k = 0" "pinned idle_pool = {}" "capacityPages idle_pool = 1"
  "length (frames idle_pool) = 1" "writable (pdisk idle_pool) g"
  using empty_pool_facts
  by (auto simp: idle_pool_def Let_def pool_ok_def frames_ok_def pinned_def pin_count_def
      split: option.splits if_splits)

theorem evict_lru_witness:
  "\<exists>p'. evictOne idle_pool = (Inr (), p') \<and> evictions p' = evictions idle_pool + 1"
proof -
  obtain p' where "evictOne idle_pool = (Inr (), p')"
    using evictOne_progress [OF idle_pool_facts(1) [of id]] idle_pool_facts by (cases "evictOne idle_pool") auto
  then show ?thesis using evict_lru [OF idle_pool_facts(1) [of id]] by blast
qed

text \<open>
  C16. After \<open>flushAll\<close> succeeds every page a client can see is on disk, and discarding the
  whole cache (as recovery does) leaves the view unchanged.
\<close>

theorem flush_durable:
  assumes "pool_ok f p" "\<forall>k. pin_count p k = 0" "flushAll p = (Inr (), p')"
  shows "(\<forall>k. f (disk_bytes (pdisk p') k) = f (view p k)) \<and>
    (\<exists>q. discardAll p' = (Inr (), q) \<and> residentPages q = 0 \<and> same_view f p q \<and> pool_ok f q)"
proof -
  note st = flush_list_step [OF assms(1) assms(3) [unfolded flushAll_def]]
  have disk: "f (disk_bytes (pdisk p') k) = f (view p k)" for k
  proof (cases "k \<in> fst ` set (frames p)")
    case True
    then show ?thesis using st by auto
  next
    case False
    then have none: "frame_of p k = None" by (simp add: map_of_eq_None_iff)
    then have "frame_of p' k = None" using st by (metis domIff)
    then have "view p' k = disk_bytes (pdisk p') k" by (simp add: view_def)
    then show ?thesis using st by (metis pool_step_def same_view_def)
  qed
  have "\<forall>k. pin_count p' k = 0" using st assms(2) by (simp add: pool_step_def)
  then have "discardAll p' = (Inr (), p'\<lparr>frames := [], lru := []\<rparr>)" "pool_ok f (p'\<lparr>frames := [], lru := []\<rparr>)"
    using discardAll_keeps [of f p'] st by (auto simp: pool_step_def)
  then show ?thesis using disk by (auto simp: same_view_def view_def residentPages_def)
qed

theorem flush_durable_witness:
  "\<exists>p'. flushAll idle_pool = (Inr (), p') \<and>
     disk_bytes (pdisk p') \<lparr>key_file = ''t.heap'', key_page = 0\<rparr> = view idle_pool \<lparr>key_file = ''t.heap'', key_page = 0\<rparr>"
proof -
  obtain p' where "flushAll idle_pool = (Inr (), p')"
    using empty_pool_facts(4)
    by (auto simp: flushAll_def idle_pool_def Let_def flush_frame_def writePage_def)
  then show ?thesis using flush_durable [OF idle_pool_facts(1) [of id]] idle_pool_facts(2) by auto
qed

end
