(* ===== verification/Heap_File.thy ===== *)
theory Heap_File
  imports Buffer_Pool Tuple_Codec
begin

text \<open>
  A table's rows on disk (\<open>HeapFile\<close>, \<open>src/native_storage.h\<close> and \<open>src/native_storage.cpp\<close>):
  a file of slotted pages, reached through the page cache. The state is the handle (path,
  insertion hint, known page count) and the pool with its disk; each operation returns the
  exception or the value together with both. A page guard is released on every exit path,
  as its destructor does.

  The abstraction \<open>heap_get\<close> is the stored bytes under a row id. The lemmas show that
  insertion, lookup, deletion, update and scans act on it as on a finite map, whatever the
  cache evicts in between. The visitors of the scans are modelled by the list of batches
  they receive. Removing a file does not fail (the error of \<open>remove\<close> in \<open>drop\<close> is not modelled).
\<close>

record heap_file =
  hpath :: path
  insertPageHint :: "nat option"
  knownPageCount :: "nat option"

type_synonym heap_state = "heap_file \<times> pool"

definition open_heap :: "path \<Rightarrow> heap_file" where
  "open_heap f = \<lparr>hpath = f, insertPageHint = None, knownPageCount = None\<rparr>"

section \<open>Operations\<close>

definition page_of :: "heap_file \<Rightarrow> nat \<Rightarrow> page_key" where
  "page_of h n = \<lparr>key_file = hpath h, key_page = n\<rparr>"

definition exists_file :: "heap_file \<Rightarrow> pool \<Rightarrow> bool" where
  "exists_file h p \<longleftrightarrow> files (pdisk p) (hpath h) \<noteq> None"

definition create_heap :: "heap_state \<Rightarrow> unit result \<times> heap_state" where
  "create_heap st = (case st of (h, p) \<Rightarrow>
     if exists_file h p then (Inr (), st)
     else if \<not> writable (pdisk p) (hpath h)
     then (Inl (Runtime_Error (''Cannot create heap file: '' @ hpath h)), st)
     else (Inr (), h\<lparr>knownPageCount := Some 0\<rparr>,
           p\<lparr>pdisk := (pdisk p)\<lparr>files := (files (pdisk p))(hpath h \<mapsto> [])\<rparr>\<rparr>))"

definition drop_heap :: "heap_state \<Rightarrow> unit result \<times> heap_state" where
  "drop_heap st = (case st of (h, p) \<Rightarrow>
     case flushFile (hpath h) p of
       (Inl e, p1) \<Rightarrow> (Inl e, h, p1)
     | (Inr _, p1) \<Rightarrow>
         (case invalidateFile (hpath h) p1 of
            (Inl e, p2) \<Rightarrow> (Inl e, h, p2)
          | (Inr _, p2) \<Rightarrow>
              (Inr (), h\<lparr>knownPageCount := Some 0, insertPageHint := None\<rparr>,
               p2\<lparr>pdisk := (pdisk p2)\<lparr>files := (files (pdisk p2))(hpath h := None)\<rparr>\<rparr>)))"

definition pageCount :: "heap_state \<Rightarrow> nat \<times> heap_state" where
  "pageCount st = (case st of (h, p) \<Rightarrow>
     case knownPageCount h of
       Some n \<Rightarrow> (n, st)
     | None \<Rightarrow>
         let n = (case files (pdisk p) (hpath h) of
                    None \<Rightarrow> 0
                  | Some c \<Rightarrow> (length c + PAGE_SIZE - 1) div PAGE_SIZE)
         in (n, h\<lparr>knownPageCount := Some n\<rparr>, p))"

text \<open>
  Fetching a page, running \<open>body\<close> on its bytes, storing the bytes it leaves, marking the
  page dirty when \<open>body\<close> says so, and releasing the guard.
\<close>

definition with_page ::
  "page_key \<Rightarrow> bool \<Rightarrow> (page \<Rightarrow> page \<times> bool \<times> 'a) \<Rightarrow> pool \<Rightarrow> 'a result \<times> pool" where
  "with_page k create body p = (case fetch k create p of
       (Inl e, p1) \<Rightarrow> (Inl e, p1)
     | (Inr _, p1) \<Rightarrow>
         (case guard_bytes k p1 of
            Inl e \<Rightarrow> (Inl e, p1)
          | Inr pg \<Rightarrow>
              (case body pg of (pg', d, x) \<Rightarrow>
                 let p2 = guard_store k pg' p1; p3 = (if d then markDirty k p2 else p2)
                 in case unpin k p3 of
                      (Inl e, p4) \<Rightarrow> (Inl e, p4)
                    | (Inr _, p4) \<Rightarrow> (Inr x, p4))))"

text \<open>\<open>page_insert\<close> starts with \<open>if (!valid()) initialize()\<close>, so the caller's own test is idle.\<close>

definition insert_body :: "byte list \<Rightarrow> page \<Rightarrow> page \<times> bool \<times> nat option result" where
  "insert_body row pg =
     (let pg0 = (if page_valid pg then pg else initialize pg) in
      case page_insert pg0 row of
        (pg', Inr (Some slot)) \<Rightarrow> (pg', True, Inr (Some slot))
      | (pg', r) \<Rightarrow> (pg', False, r))"

fun insert_loop :: "heap_file \<Rightarrow> byte list \<Rightarrow> nat list \<Rightarrow> pool \<Rightarrow> row_id option result \<times> pool" where
  "insert_loop h row [] p = (Inr None, p)"
| "insert_loop h row (n # ns) p =
     (case with_page (page_of h n) False (insert_body row) p of
        (Inl e, p1) \<Rightarrow> (Inl e, p1)
      | (Inr (Inl e), p1) \<Rightarrow> (Inl e, p1)
      | (Inr (Inr (Some slot)), p1) \<Rightarrow> (Inr (Some \<lparr>rid_page = n, rid_slot = slot\<rparr>), p1)
      | (Inr (Inr None), p1) \<Rightarrow> insert_loop h row ns p1)"

text \<open>
  A row that fits nowhere goes to a new page, which is flushed at once while its guard is
  still held.
\<close>

definition append_row :: "byte list \<Rightarrow> nat \<Rightarrow> heap_state \<Rightarrow> row_id result \<times> heap_state" where
  "append_row row n st = (case st of (h, p) \<Rightarrow>
     let k = page_of h n in
     case fetch k True p of
       (Inl e, p1) \<Rightarrow> (Inl e, h, p1)
     | (Inr _, p1) \<Rightarrow>
         (case guard_bytes k p1 of
            Inl e \<Rightarrow> (Inl e, h, p1)
          | Inr pg \<Rightarrow>
              (case page_insert (initialize pg) row of
                 (pg', Inr (Some slot)) \<Rightarrow>
                   (case flushFile (hpath h) (markDirty k (guard_store k pg' p1)) of
                      (Inl e, p2) \<Rightarrow> (Inl e, h, snd (unpin k p2))
                    | (Inr _, p2) \<Rightarrow>
                        (Inr \<lparr>rid_page = n, rid_slot = slot\<rparr>,
                         h\<lparr>insertPageHint := Some n, knownPageCount := Some (n + 1)\<rparr>,
                         snd (unpin k p2)))
               | (pg', Inr None) \<Rightarrow>
                   (Inl (Runtime_Error ''Could not insert tuple''), h, snd (unpin k (guard_store k pg' p1)))
               | (pg', Inl e) \<Rightarrow> (Inl e, h, snd (unpin k (guard_store k pg' p1))))))"

definition insert_heap :: "tuple \<Rightarrow> heap_state \<Rightarrow> row_id result \<times> heap_state" where
  "insert_heap t st = (case create_heap st of
       (Inl e, st0) \<Rightarrow> (Inl e, st0)
     | (Inr _, st0) \<Rightarrow>
         (case encodeTuple t of
            Inl e \<Rightarrow> (Inl e, st0)
          | Inr row \<Rightarrow>
              if PAGE_SIZE < length row + 22 then (Inl (Runtime_Error ''Tuple exceeds page size''), st0)
              else
                (case pageCount st0 of (pages, h, p) \<Rightarrow>
                   let firstPage =
                     (case insertPageHint h of
                        Some n \<Rightarrow> if n < pages then n else if 0 < pages then pages - 1 else 0
                      | None \<Rightarrow> if 0 < pages then pages - 1 else 0)
                   in case insert_loop h row [firstPage..<pages] p of
                        (Inl e, p1) \<Rightarrow> (Inl e, h, p1)
                      | (Inr (Some rid), p1) \<Rightarrow> (Inr rid, h\<lparr>insertPageHint := Some (rid_page rid)\<rparr>, p1)
                      | (Inr None, p1) \<Rightarrow> append_row row pages (h, p1))))"

text \<open>\<open>read\<close>, \<open>erase\<close> and \<open>update\<close> of a row.\<close>

definition read_heap :: "row_id \<Rightarrow> heap_state \<Rightarrow> tuple option result \<times> heap_state" where
  "read_heap rid st = (case st of (h, p) \<Rightarrow>
     case with_page (page_of h (rid_page rid)) False
            (\<lambda>pg. (pg, False,
               rbind (page_read pg (rid_slot rid)) (\<lambda>bytes.
                 case bytes of None \<Rightarrow> Inr None | Some b \<Rightarrow> rbind (decodeTuple b) (\<lambda>t. Inr (Some t))))) p of
       (Inl e, p1) \<Rightarrow> (Inl e, h, p1)
     | (Inr r, p1) \<Rightarrow> (r, h, p1))"

definition erase_heap :: "row_id \<Rightarrow> heap_state \<Rightarrow> bool result \<times> heap_state" where
  "erase_heap rid st = (case pageCount st of (pages, h, p) \<Rightarrow>
     if pages \<le> rid_page rid then (Inr False, h, p)
     else case with_page (page_of h (rid_page rid)) False
                 (\<lambda>pg. let (pg', ok) = page_erase pg (rid_slot rid) in (pg', ok, ok)) p of
            (r, p1) \<Rightarrow> (r, h, p1))"

definition update_heap :: "row_id \<Rightarrow> tuple \<Rightarrow> heap_state \<Rightarrow> row_id result \<times> heap_state" where
  "update_heap rid t st = (case encodeTuple t of
       Inl e \<Rightarrow> (Inl e, st)
     | Inr row \<Rightarrow>
         (case pageCount st of (pages, h, p) \<Rightarrow>
            case (if rid_page rid < pages
                  then with_page (page_of h (rid_page rid)) False
                         (\<lambda>pg. let (pg', ok) = page_update pg (rid_slot rid) row in (pg', ok, ok)) p
                  else (Inr False, p)) of
              (Inl e, p1) \<Rightarrow> (Inl e, h, p1)
            | (Inr True, p1) \<Rightarrow> (Inr rid, h, p1)
            | (Inr False, p1) \<Rightarrow>
                (case erase_heap rid (h, p1) of
                   (Inl e, st2) \<Rightarrow> (Inl e, st2)
                 | (Inr False, st2) \<Rightarrow> (Inl (Runtime_Error ''Row no longer exists''), st2)
                 | (Inr True, st2) \<Rightarrow> insert_heap t st2)))"

definition flush_heap :: "heap_state \<Rightarrow> unit result \<times> heap_state" where
  "flush_heap st = (case st of (h, p) \<Rightarrow>
     case flushFile (hpath h) p of (r, p1) \<Rightarrow> (r, h, p1))"

text \<open>Scans: the rows collected for the current batch, and the batches handed to the visitor.\<close>

type_synonym 'a scan_state = "(row_id \<times> 'a) list \<times> (row_id \<times> 'a) list list"

fun scan_slots ::
  "(byte list \<Rightarrow> 'a result) \<Rightarrow> nat \<Rightarrow> nat \<Rightarrow> page \<Rightarrow> nat list \<Rightarrow> 'a scan_state \<Rightarrow> unit result \<times> 'a scan_state" where
  "scan_slots dec bs n pg [] sc = (Inr (), sc)"
| "scan_slots dec bs n pg (s # ss) (rows, out) =
     (case page_read pg s of
        Inl e \<Rightarrow> (Inl e, rows, out)
      | Inr None \<Rightarrow> scan_slots dec bs n pg ss (rows, out)
      | Inr (Some b) \<Rightarrow>
          (case dec b of
             Inl e \<Rightarrow> (Inl e, rows, out)
           | Inr t \<Rightarrow>
               let rows' = rows @ [(\<lparr>rid_page = n, rid_slot = s\<rparr>, t)]
               in if length rows' = bs then scan_slots dec bs n pg ss ([], out @ [rows'])
                  else scan_slots dec bs n pg ss (rows', out)))"

fun scan_pages ::
  "(byte list \<Rightarrow> 'a result) \<Rightarrow> nat \<Rightarrow> heap_file \<Rightarrow> nat list \<Rightarrow> 'a scan_state \<Rightarrow> pool \<Rightarrow>
     unit result \<times> 'a scan_state \<times> pool" where
  "scan_pages dec bs h [] sc p = (Inr (), sc, p)"
| "scan_pages dec bs h (n # ns) sc p =
     (case with_page (page_of h n) False
             (\<lambda>pg. (pg, False,
                if page_valid pg then scan_slots dec bs n pg [0..<slotCount pg] sc else (Inr (), sc))) p of
        (Inl e, p1) \<Rightarrow> (Inl e, sc, p1)
      | (Inr (Inl e, sc1), p1) \<Rightarrow> (Inl e, sc1, p1)
      | (Inr (Inr _, sc1), p1) \<Rightarrow> scan_pages dec bs h ns sc1 p1)"

definition scan_with ::
  "(byte list \<Rightarrow> 'a result) \<Rightarrow> nat \<Rightarrow> heap_state \<Rightarrow> unit result \<times> (row_id \<times> 'a) list list \<times> heap_state" where
  "scan_with dec bs st = (case pageCount st of (pages, h, p) \<Rightarrow>
     case scan_pages dec bs h [0..<pages] ([], []) p of
       (Inl e, (rows, out), p1) \<Rightarrow> (Inl e, out, h, p1)
     | (Inr _, (rows, out), p1) \<Rightarrow> (Inr (), if rows = [] then out else out @ [rows], h, p1))"

definition scanBatches :: "nat \<Rightarrow> heap_state \<Rightarrow> unit result \<times> (row_id \<times> tuple) list list \<times> heap_state" where
  "scanBatches bs st =
     (if bs = 0 then (Inl (Runtime_Error ''Heap scan batch size must be positive''), [], st)
      else scan_with decodeTuple bs st)"

definition scanProjectedBatches ::
  "nat list \<Rightarrow> nat \<Rightarrow> heap_state \<Rightarrow> unit result \<times> (row_id \<times> tuple) list list \<times> heap_state" where
  "scanProjectedBatches columns bs st =
     (if bs = 0 then (Inl (Runtime_Error ''Heap scan batch size must be positive''), [], st)
      else if \<not> sorted_wrt (<) columns
      then (Inl (Runtime_Error ''Projected heap columns must be sorted and unique''), [], st)
      else scan_with (\<lambda>b. decodeTupleProjected b columns) bs st)"

text \<open>\<open>scan\<close> collects all batches; \<open>bs\<close> is the configured \<open>vectorBatchRows()\<close>.\<close>

definition scan_heap :: "nat \<Rightarrow> heap_state \<Rightarrow> (row_id \<times> tuple) list result \<times> heap_state" where
  "scan_heap bs st = (case scanBatches bs st of
       (Inl e, out, st1) \<Rightarrow> (Inl e, st1)
     | (Inr _, out, st1) \<Rightarrow> (Inr (concat out), st1))"

text \<open>
  \<open>scanRawRows\<close> hands every live row to its visitor without decoding it; one row is one
  batch here.
\<close>

definition scanRawRows :: "heap_state \<Rightarrow> unit result \<times> (row_id \<times> byte list) list list \<times> heap_state" where
  "scanRawRows = scan_with Inr 1"

section \<open>File sizes\<close>

text \<open>
  Dirty frames of \<open>g\<close> lie below page \<open>m\<close>, and the file has at least \<open>l\<close> bytes and at most
  \<open>m\<close> pages; the cache preserves this whatever it writes back.
\<close>

definition bounded :: "path \<Rightarrow> nat \<Rightarrow> nat \<Rightarrow> pool \<Rightarrow> bool" where
  "bounded g l m p \<longleftrightarrow>
     (\<forall>k fr. frame_of p k = Some fr \<longrightarrow> dirty fr \<longrightarrow> key_file k = g \<longrightarrow> key_page k < m) \<and>
     (\<exists>c. files (pdisk p) g = Some c \<and> l \<le> length c \<and> length c \<le> m * PAGE_SIZE)"

lemma writePage_length:
  assumes "writePage d k bs = Inr d'" "length bs = PAGE_SIZE" "files d g = Some c"
  shows "\<exists>c'. files d' g = Some c' \<and>
    length c' = (if key_file k = g then max (length c) (Suc (key_page k) * PAGE_SIZE) else length c)"
  using assms by (auto simp: writePage_def Let_def length_write_at add.commute split: if_splits)

lemma page_end_le: "i < m \<Longrightarrow> Suc i * PAGE_SIZE \<le> m * PAGE_SIZE"
  by (intro mult_le_mono1) simp

lemma bounded_write:
  assumes b: "bounded g l m p" and fr: "frame_of p k = Some fr" "dirty fr" "length (fbytes fr) = PAGE_SIZE"
    and w: "writePage (pdisk p) k (fbytes fr) = Inr d"
  shows "bounded g l m (set_frame k (fr\<lparr>dirty := False\<rparr>) (p\<lparr>pdisk := d\<rparr>))"
proof -
  obtain c where c: "files (pdisk p) g = Some c" "l \<le> length c" "length c \<le> m * PAGE_SIZE"
    using b by (auto simp: bounded_def)
  obtain c' where c': "files d g = Some c'"
    "length c' = (if key_file k = g then max (length c) (Suc (key_page k) * PAGE_SIZE) else length c)"
    using writePage_length [OF w fr(3) c(1)] by blast
  have "key_file k = g \<Longrightarrow> Suc (key_page k) * PAGE_SIZE \<le> m * PAGE_SIZE"
    using b fr by (intro page_end_le) (auto simp: bounded_def)
  then have "l \<le> length c' \<and> length c' \<le> m * PAGE_SIZE" using c c'(2) by auto
  then show ?thesis using b c'(1) by (auto simp: bounded_def)
qed

lemma bounded_flush:
  assumes "bounded g l m p" "pool_ok f p" "frame_of p k = Some fr" "flush_frame k fr p = (r, p')"
  shows "bounded g l m p'"
  using assms(1,4) bounded_write [OF assms(1,3)] pool_ok_frame [OF assms(2,3)]
  by (auto simp: flush_frame_def split: if_splits sum.splits)

lemma bounded_drop: "bounded g l m p \<Longrightarrow> bounded g l m (drop_frame k p)"
  unfolding bounded_def by auto

lemma bounded_evict:
  assumes b: "bounded g l m p" and ok: "pool_ok f p" and ev: "evictOne p = (r, p')"
  shows "bounded g l m p'"
proof (cases "find (evictable p) (rev (lru p))")
  case None
  then show ?thesis using ev b by (simp add: evictOne_def)
next
  case (Some k)
  then obtain fr where fr: "frame_of p k = Some fr"
    using find_evictable [OF Some] by (auto simp: evictable_def split: option.splits)
  obtain r1 p1 where fl: "flush_frame k fr p = (r1, p1)" by (cases "flush_frame k fr p")
  have b1: "bounded g l m p1" by (rule bounded_flush [OF b ok fr fl])
  have "bounded g l m ((drop_frame k p1)\<lparr>evictions := x\<rparr>)" for x
    using bounded_drop [OF b1, of k] by (simp add: bounded_def)
  then show ?thesis using ev b1 Some fr fl by (auto simp: evictOne_def split: sum.splits)
qed

lemma bounded_room:
  "bounded g l m p \<Longrightarrow> pool_ok f p \<Longrightarrow> make_room p = (r, p') \<Longrightarrow> bounded g l m p'"
proof (induction p arbitrary: r p' rule: make_room.induct)
  case (1 p)
  show ?case
  proof (cases "length (frames p) < capacityPages p")
    case True
    then show ?thesis using 1(2,4) by (simp add: make_room.simps [of p])
  next
    case False
    obtain r1 p1 where ev: "evictOne p = (r1, p1)" by (cases "evictOne p")
    have b1: "bounded g l m p1" by (rule bounded_evict [OF 1(2,3) ev])
    have ok1: "pool_ok f p1" using evictOne_step [OF 1(3) ev] by (simp add: pool_step_def)
    show ?thesis
    proof (cases r1)
      case (Inl e)
      then show ?thesis using 1(4) False ev b1 by (simp add: make_room.simps [of p])
    next
      case (Inr u)
      then have "make_room p1 = (r, p')" using 1(4) False ev by (simp add: make_room.simps [of p])
      then show ?thesis using 1(1) [OF False, of r1 p1 u] ev Inr b1 ok1 by simp
    qed
  qed
qed

lemma bounded_fetch:
  assumes b: "bounded g l m p" and ok: "pool_ok f p" and fe: "fetch k create p = (r, p')"
  shows "bounded g l m p'"
proof (cases "frame_of p k")
  case (Some fr)
  then show ?thesis using fe b by (auto simp: fetch_def bounded_def split: if_splits)
next
  case None
  obtain r1 p1 where mr: "make_room p = (r1, p1)" by (cases "make_room p")
  have "bounded g l m p1" by (rule bounded_room [OF b ok mr])
  then show ?thesis using fe None mr
    by (auto simp: fetch_def bounded_def split: sum.splits if_splits)
qed

lemma bounded_flush_list:
  assumes "bounded g l m p" "pool_ok f p" "flush_list ks p = (r, p')"
  shows "bounded g l m p' \<and> (r = Inr () \<longrightarrow> (\<forall>k\<in>set ks. \<forall>fr. key_file k = g \<longrightarrow>
    frame_of p k = Some fr \<longrightarrow> dirty fr \<longrightarrow> (\<exists>c. files (pdisk p') g = Some c \<and> Suc (key_page k) * PAGE_SIZE \<le> length c)))"
  using assms
proof (induction ks p arbitrary: r p' l rule: flush_list.induct)
  case (2 k ks p)
  show ?case
  proof (cases "frame_of p k")
    case None
    then show ?thesis using 2(1) [OF None 2(3,4)] 2(5) by auto
  next
    case (Some fr)
    obtain r1 p1 where fl: "flush_frame k fr p = (r1, p1)" by (cases "flush_frame k fr p")
    have b1: "bounded g l m p1" by (rule bounded_flush [OF 2(3,4) Some fl])
    note st = flush_frame_step [OF 2(4) Some fl]
    have ok1: "pool_ok f p1" using st by (simp add: pool_step_def)
    show ?thesis
    proof (cases "r1 = Inr ()")
      case False
      then have "r = r1 \<and> p' = p1" using 2(5) Some fl by (auto split: sum.splits)
      then show ?thesis using b1 False by simp
    next
      case True
      then have rest: "flush_list ks p1 = (r, p')" using 2(5) Some fl by simp
      note IH = 2(2) [OF Some, of r1 p1, OF _ _ _ ok1 rest]
      have tail: "\<exists>c. files (pdisk p') g = Some c \<and> Suc (key_page k') * PAGE_SIZE \<le> length c"
        if "r = Inr ()" "k' \<in> set ks" "k' \<noteq> k" "key_file k' = g" "frame_of p k' = Some fr'" "dirty fr'" for k' fr'
      proof -
        have "frame_of p1 k' = Some fr'"
          using flush_frame_others [OF fl that(3)] pool_ok_frame [OF 2(4) Some] that(5) by simp
        then show ?thesis using IH [of "()" l] b1 fl True that by auto
      qed
      have here: "\<exists>c. files (pdisk p') g = Some c \<and> Suc (key_page k) * PAGE_SIZE \<le> length c"
        if d: "dirty fr" "key_file k = g"
      proof -
        obtain d where w: "writePage (pdisk p) k (fbytes fr) = Inr d" "pdisk p1 = d"
          using fl True d(1) by (auto simp: flush_frame_def split: sum.splits)
        obtain c where "files (pdisk p) g = Some c" using 2(3) by (auto simp: bounded_def)
        then obtain c1 where "files (pdisk p1) g = Some c1" "Suc (key_page k) * PAGE_SIZE \<le> length c1"
          using writePage_length [OF w(1), of g c] pool_ok_frame [OF 2(4) Some] w(2) d(2) by auto
        then have "bounded g (Suc (key_page k) * PAGE_SIZE) m p1" using b1 by (auto simp: bounded_def)
        then have "bounded g (Suc (key_page k) * PAGE_SIZE) m p'"
          using IH [of "()" "Suc (key_page k) * PAGE_SIZE"] fl True by auto
        then show ?thesis by (auto simp: bounded_def)
      qed
      have "bounded g l m p'" using IH [of "()" l] b1 fl True by auto
      moreover have "\<exists>c. files (pdisk p') g = Some c \<and> Suc (key_page k') * PAGE_SIZE \<le> length c"
        if "r = Inr ()" "k' \<in> set (k # ks)" "key_file k' = g" "frame_of p k' = Some fr'" "dirty fr'" for k' fr'
      proof (cases "k' = k")
        case True
        then show ?thesis using here that Some by simp
      next
        case False
        then show ?thesis using tail that by simp
      qed
      ultimately show ?thesis by blast
    qed
  qed
qed simp

section \<open>The heap invariant and its abstraction\<close>

definition page_abs :: "page \<Rightarrow> byte list option list option" where
  "page_abs pg = (if page_wf pg then Some (page_rows pg) else None)"

lemma page_abs_Some: "page_abs pg = Some rows \<longleftrightarrow> page_wf pg \<and> rows = page_rows pg"
  by (auto simp: page_abs_def)

text \<open>No page is pinned and every file can be written: the state between two operations.\<close>

definition quiet :: "pool \<Rightarrow> bool" where
  "quiet p \<longleftrightarrow> (\<forall>k. pin_count p k = 0) \<and> (\<forall>g. writable (pdisk p) g)"

definition heap_ok :: "heap_file \<Rightarrow> nat \<Rightarrow> pool \<Rightarrow> bool" where
  "heap_ok h n p \<longleftrightarrow>
     pool_ok page_abs p \<and> quiet p \<and> bounded (hpath h) (n * PAGE_SIZE) n p \<and>
     (knownPageCount h = None \<or> knownPageCount h = Some n) \<and>
     (\<forall>i < n. page_abs (view p (page_of h i)) \<noteq> None)"

text \<open>The bytes stored under a row id.\<close>

definition heap_get :: "heap_file \<Rightarrow> nat \<Rightarrow> pool \<Rightarrow> row_id \<Rightarrow> byte list option" where
  "heap_get h n p rid =
     (if rid_page rid < n then
        (case page_abs (view p (page_of h (rid_page rid))) of
           None \<Rightarrow> None
         | Some rows \<Rightarrow> if rid_slot rid < length rows then rows ! rid_slot rid else None)
      else None)"

text \<open>Pages of other files are what they were, and those files keep their size.\<close>

definition others_same :: "heap_file \<Rightarrow> pool \<Rightarrow> pool \<Rightarrow> bool" where
  "others_same h p p' \<longleftrightarrow>
     (\<forall>k. key_file k \<noteq> hpath h \<longrightarrow> page_abs (view p' k) = page_abs (view p k)) \<and>
     (\<forall>g l m. g \<noteq> hpath h \<longrightarrow> bounded g l m p \<longrightarrow> bounded g l m p')"

lemma quiet_pinned: "quiet p \<Longrightarrow> pinned p = {}"
  by (simp add: quiet_def pinned_def)

lemma guard_store_view:
  "frame_of p k = Some fr \<Longrightarrow> view (guard_store k bs p) k' = (if k' = k then bs else view p k')"
  by (auto simp: guard_store_def view_def split: option.splits)

lemma markDirty_view: "view (markDirty k p) k' = view p k'"
  by (auto simp: markDirty_def view_def split: option.splits)

text \<open>Storing bytes through a guard, and marking the page dirty unless its rows are unchanged.\<close>

definition store :: "page_key \<Rightarrow> page \<Rightarrow> bool \<Rightarrow> pool \<Rightarrow> pool" where
  "store k bs d p = (let p2 = guard_store k bs p in if d then markDirty k p2 else p2)"

lemma store_frame:
  assumes "frame_of p k = Some fr"
  shows "store k bs d p = set_frame k (fr\<lparr>fbytes := bs, dirty := d \<or> dirty fr\<rparr>) p"
  using assms by (simp add: store_def guard_store_def markDirty_def Let_def set_frame_def update_conv')

lemma store_ok:
  assumes ok: "pool_ok page_abs p" and fr: "frame_of p k = Some fr" and len: "length bs = PAGE_SIZE"
    and d: "d \<or> page_abs bs = page_abs (fbytes fr)"
  shows "pool_ok page_abs (store k bs d p)"
    "view (store k bs d p) k' = (if k' = k then bs else view p k')"
    "pin_count (store k bs d p) = pin_count p"
    "writable (pdisk (store k bs d p)) = writable (pdisk p)"
    "capacityPages (store k bs d p) = capacityPages p"
proof -
  let ?fr = "fr\<lparr>fbytes := bs, dirty := d \<or> dirty fr\<rparr>"
  have eq: "store k bs d p = set_frame k ?fr p" by (rule store_frame [OF fr])
  show "pool_ok page_abs (store k bs d p)"
    unfolding eq by (rule set_frame_ok [OF ok fr]) (use pool_ok_frame [OF ok fr] len d in auto)
  show "view (store k bs d p) k' = (if k' = k then bs else view p k')"
    using fr by (auto simp: eq view_def split: option.splits)
  show "pin_count (store k bs d p) = pin_count p" using fr by (auto simp: eq pin_count_def)
  show "writable (pdisk (store k bs d p)) = writable (pdisk p)"
    "capacityPages (store k bs d p) = capacityPages p" by (simp_all add: eq)
qed

lemma store_bounded:
  assumes b: "bounded g l m p" and fr: "frame_of p k = Some fr"
    and d: "d \<Longrightarrow> key_file k = g \<Longrightarrow> key_page k < m"
  shows "bounded g l m (store k bs d p)"
  using b d fr by (auto simp: store_frame [OF fr] bounded_def)

lemma unpin_bounded: "bounded g l m p \<Longrightarrow> unpin k p = (r, p') \<Longrightarrow> bounded g l m p'"
  by (auto simp: unpin_def bounded_def split: option.splits if_splits)

definition touched :: "page_key \<Rightarrow> page \<Rightarrow> bool \<Rightarrow> pool \<Rightarrow> pool \<Rightarrow> bool" where
  "touched k pg' d p p' \<longleftrightarrow> pool_ok page_abs p' \<and> quiet p' \<and>
    (\<forall>k'. page_abs (view p' k') = (if k' = k then page_abs pg' else page_abs (view p k'))) \<and>
    (\<forall>g l m. bounded g l m p \<longrightarrow> (d \<longrightarrow> key_file k = g \<longrightarrow> key_page k < m) \<longrightarrow> bounded g l m p')"

text \<open>
  A page operation through a guard: \<open>body\<close> sees the rows the client saw, the page holds what
  \<open>body\<close> left, all other pages are unchanged, and the pool is quiet again.
\<close>

lemma with_page_step:
  assumes ok: "pool_ok page_abs p" and q: "quiet p"
    and fi: "create \<or> key_file k \<in> dom (files (pdisk p))"
    and len: "\<forall>pg pg' d x. length pg = PAGE_SIZE \<longrightarrow> body pg = (pg', d, x) \<longrightarrow>
      page_abs pg = page_abs (view p k) \<longrightarrow> length pg' = PAGE_SIZE \<and> (d \<or> page_abs pg' = page_abs pg)"
  shows "\<exists>pg pg' d x p'. with_page k create body p = (Inr x, p') \<and> body pg = (pg', d, x) \<and>
    page_abs pg = page_abs (view p k) \<and> touched k pg' d p p'"
proof -
  have cap: "card (pinned p) < capacityPages p" using ok quiet_pinned [OF q] by (simp add: pool_ok_def)
  obtain p1 where fe: "fetch k create p = (Inr (), p1)"
    using fetch_progress [OF ok cap _ fi] q by (cases "fetch k create p") (auto simp: quiet_def)
  note ke = fetch_keeps [OF ok fe]
  then have ok1: "pool_ok page_abs p1" and pins1: "pin_count p1 = (pin_count p)(k := pin_count p k + 1)"
    by (auto simp: pool_keeps_def)
  obtain fr where fr: "frame_of p1 k = Some fr" using ke by auto
  let ?pg = "fbytes fr"
  have abs: "page_abs ?pg = page_abs (view p k)"
    using ke fr by (metis pool_keeps_def same_view_def view_def option.simps(5))
  have lpg: "length ?pg = PAGE_SIZE" using pool_ok_frame [OF ok1 fr] by simp
  obtain pg' d x where body: "body ?pg = (pg', d, x)" by (cases "body ?pg")
  note l = len [rule_format, OF lpg body abs]
  let ?p3 = "store k pg' d p1"
  note st = store_ok [OF ok1 fr conjunct1 [OF l] conjunct2 [OF l]]
  have "0 < pin_count ?p3 k" using st(3) pins1 by simp
  then obtain p4 where un: "unpin k ?p3 = (Inr (), p4)" and ke4: "pool_keeps page_abs ?p3 p4"
    "pin_count p4 = (pin_count ?p3)(k := pin_count ?p3 k - 1)"
    using unpin_keeps [OF st(1), of k] by blast
  have "with_page k create body p = (Inr x, p4)"
    using fe fr body un by (simp add: with_page_def guard_bytes_def store_def Let_def)
  moreover have "pool_ok page_abs p4" using ke4 by (simp add: pool_keeps_def)
  moreover have "quiet p4" using ke4 st pins1 q ke by (auto simp: quiet_def pool_keeps_def)
  moreover have "page_abs (view p4 k') = (if k' = k then page_abs pg' else page_abs (view p k'))" for k'
    using ke4 ke st(2) by (simp add: pool_keeps_def same_view_def)
  moreover have "bounded g l m p4"
    if "bounded g l m p" "d \<longrightarrow> key_file k = g \<longrightarrow> key_page k < m" for g l m
    using unpin_bounded [OF store_bounded [OF bounded_fetch [OF that(1) ok fe] fr] un] that(2) by blast
  ultimately have "touched k pg' d p p4" by (simp add: touched_def)
  then show ?thesis using body abs \<open>with_page k create body p = (Inr x, p4)\<close> by blast
qed

section \<open>Insertion\<close>

lemma page_wf_length: "page_wf pg \<Longrightarrow> length pg = PAGE_SIZE"
  by (simp add: page_wf_def)

lemma page_wf_valid: "page_wf pg \<Longrightarrow> page_valid pg"
  by (simp add: page_wf_def)

lemma insert_body_spec:
  assumes "page_wf pg" "length row \<le> 65535" "insert_body row pg = (pg', d, r)"
  shows "page_wf pg' \<and>
    (case r of Inl e \<Rightarrow> False
     | Inr (Some s) \<Rightarrow> d \<and> put_row (page_rows pg) row = (page_rows pg', s)
     | Inr None \<Rightarrow> \<not> d \<and> page_rows pg' = page_rows pg)"
  using page_insert_spec [OF assms(1,2)] assms(3) page_wf_valid [OF assms(1)]
  by (auto simp: insert_body_def split: if_splits)

definition rows_get :: "byte list option list \<Rightarrow> nat \<Rightarrow> byte list option" where
  "rows_get rows s = (if s < length rows then rows ! s else None)"

lemma rows_get_put: "put_row rows row = (rows', s) \<Longrightarrow>
    rows_get rows s = None \<and> rows_get rows' t = (if t = s then Some row else rows_get rows t)"
  using put_row_nth [of rows row rows' s] by (auto simp: rows_get_def)

lemma heap_get_page:
  "heap_get h n p rid = (if rid_page rid < n then
     (case page_abs (view p (page_of h (rid_page rid))) of None \<Rightarrow> None | Some rows \<Rightarrow> rows_get rows (rid_slot rid))
     else None)"
  by (auto simp: heap_get_def rows_get_def split: option.split)

lemma heap_ok_page:
  "heap_ok h n p \<Longrightarrow> i < n \<Longrightarrow> \<exists>rows. page_abs (view p (page_of h i)) = Some rows"
  by (auto simp: heap_ok_def)

lemma page_of_simps [simp]: "key_file (page_of h i) = hpath h" "key_page (page_of h i) = i"
  "page_of h i = page_of h j \<longleftrightarrow> i = j"
  by (simp_all add: page_of_def)

text \<open>
  A page operation on a page of the heap: the invariant survives when the page stays well
  formed, and only that page's rows change.
\<close>

definition page_step :: "heap_file \<Rightarrow> nat \<Rightarrow> nat \<Rightarrow> pool \<Rightarrow> pool \<Rightarrow> byte list option list \<Rightarrow> bool" where
  "page_step h n i p p' rows' \<longleftrightarrow>
     heap_ok h n p' \<and> others_same h p p' \<and>
     (\<forall>rid. heap_get h n p' rid = (if rid_page rid = i then rows_get rows' (rid_slot rid) else heap_get h n p rid))"

lemma heap_page_step:
  assumes ok: "heap_ok h n p" and i: "i < n"
    and body: "\<forall>pg pg' d x. page_wf pg \<longrightarrow> body pg = (pg', d, x) \<longrightarrow>
      page_wf pg' \<and> (d \<or> page_rows pg' = page_rows pg)"
  shows "\<exists>pg pg' d x p'. with_page (page_of h i) False body p = (Inr x, p') \<and> body pg = (pg', d, x) \<and>
    page_wf pg \<and> page_abs (view p (page_of h i)) = Some (page_rows pg) \<and> page_step h n i p p' (page_rows pg')"
proof -
  obtain rows where rows: "page_abs (view p (page_of h i)) = Some rows" using heap_ok_page [OF ok i] by blast
  have wf: "page_wf pg" if "page_abs pg = page_abs (view p (page_of h i))" for pg
    using that rows by (simp add: page_abs_Some)
  have fi: "False \<or> key_file (page_of h i) \<in> dom (files (pdisk p))"
    using ok by (auto simp: heap_ok_def bounded_def)
  have "length pg' = PAGE_SIZE \<and> (d \<or> page_abs pg' = page_abs pg)"
    if "length pg = PAGE_SIZE" "body pg = (pg', d, x)" "page_abs pg = page_abs (view p (page_of h i))"
    for pg pg' d x
    using body [rule_format, OF wf [OF that(3)] that(2)] wf [OF that(3)] page_wf_length by (auto simp: page_abs_def)
  then have len: "\<forall>pg pg' d x. length pg = PAGE_SIZE \<longrightarrow> body pg = (pg', d, x) \<longrightarrow>
      page_abs pg = page_abs (view p (page_of h i)) \<longrightarrow> length pg' = PAGE_SIZE \<and> (d \<or> page_abs pg' = page_abs pg)"
    by blast
  have pq: "pool_ok page_abs p" "quiet p" using ok by (simp_all add: heap_ok_def)
  obtain pg pg' d x p' where w0: "with_page (page_of h i) False body p = (Inr x, p')" "body pg = (pg', d, x)"
    "page_abs pg = page_abs (view p (page_of h i))" "touched (page_of h i) pg' d p p'"
    using with_page_step [OF pq fi len] by blast
  then have w: "with_page (page_of h i) False body p = (Inr x, p')" "body pg = (pg', d, x)"
    "page_abs pg = page_abs (view p (page_of h i))" "pool_ok page_abs p'" "quiet p'"
    "\<forall>k'. page_abs (view p' k') = (if k' = page_of h i then page_abs pg' else page_abs (view p k'))"
    "\<forall>g l m. bounded g l m p \<longrightarrow> (d \<longrightarrow> key_file (page_of h i) = g \<longrightarrow> key_page (page_of h i) < m) \<longrightarrow> bounded g l m p'"
    unfolding touched_def by blast+
  have pgwf: "page_wf pg" "page_wf pg'" using wf [OF w(3)] body w(2) by blast+
  then have abs': "page_abs pg' = Some (page_rows pg')" by (simp add: page_abs_def)
  have "bounded (hpath h) (n * PAGE_SIZE) n p'" using w(7) ok i by (auto simp: heap_ok_def)
  then have "heap_ok h n p'" using ok w(4-6) abs' by (auto simp: heap_ok_def)
  moreover have "others_same h p p'" unfolding others_same_def
  proof (intro conjI allI impI)
    fix k :: page_key assume "key_file k \<noteq> hpath h"
    then show "page_abs (view p' k) = page_abs (view p k)" using w(6) by auto
  next
    fix g l m assume "g \<noteq> hpath h" "bounded g l m p"
    then show "bounded g l m p'" using w(7) by simp
  qed
  moreover have "heap_get h n p' rid = (if rid_page rid = i then rows_get (page_rows pg') (rid_slot rid) else heap_get h n p rid)" for rid
    using w(6) abs' i by (auto simp: heap_get_page)
  ultimately have "page_step h n i p p' (page_rows pg')" by (simp add: page_step_def)
  moreover have "page_abs (view p (page_of h i)) = Some (page_rows pg)" using w(3) pgwf by (simp add: page_abs_def)
  ultimately show ?thesis using w(1,2) pgwf(1) by blast
qed

lemma others_same_trans: "others_same h p q \<Longrightarrow> others_same h q r \<Longrightarrow> others_same h p r"
  by (simp add: others_same_def)

text \<open>The contents agree except that \<open>rid\<close>, which was free, now holds \<open>row\<close>.\<close>

definition row_added :: "(row_id \<Rightarrow> byte list option) \<Rightarrow> row_id \<Rightarrow> byte list \<Rightarrow> (row_id \<Rightarrow> byte list option) \<Rightarrow> bool" where
  "row_added m rid row m' \<longleftrightarrow> m rid = None \<and> m' = m(rid \<mapsto> row)"

lemma insert_loop_spec:
  assumes "heap_ok h n p" "set ns \<subseteq> {..<n}" "length row \<le> 65535"
  shows "\<exists>ro p'. insert_loop h row ns p = (Inr ro, p') \<and> heap_ok h n p' \<and> others_same h p p' \<and>
    (case ro of None \<Rightarrow> heap_get h n p' = heap_get h n p
     | Some rid \<Rightarrow> rid_page rid < n \<and> row_added (heap_get h n p) rid row (heap_get h n p'))"
  using assms
proof (induction ns arbitrary: p)
  case Nil
  then show ?case by (simp add: others_same_def)
next
  case (Cons i ns)
  have i: "i < n" using Cons.prems(2) by simp
  have "page_wf pg' \<and> (d \<or> page_rows pg' = page_rows pg)"
    if "page_wf pg" "insert_body row pg = (pg', d, x)" for pg pg' d x
    using insert_body_spec [OF that(1) Cons.prems(3) that(2)] by (auto split: sum.splits option.splits)
  then have body: "\<forall>pg pg' d x. page_wf pg \<longrightarrow> insert_body row pg = (pg', d, x) \<longrightarrow>
      page_wf pg' \<and> (d \<or> page_rows pg' = page_rows pg)" by blast
  obtain pg pg' d x p1 where w: "with_page (page_of h i) False (insert_body row) p = (Inr x, p1)"
    "insert_body row pg = (pg', d, x)" "page_wf pg"
    "page_abs (view p (page_of h i)) = Some (page_rows pg)" "page_step h n i p p1 (page_rows pg')"
    using heap_page_step [OF Cons.prems(1) i body] by blast
  note spec = insert_body_spec [OF w(3) Cons.prems(3) w(2)]
  have get: "heap_get h n p \<lparr>rid_page = i, rid_slot = s\<rparr> = rows_get (page_rows pg) s" for s
    using w(4) i by (simp add: heap_get_page)
  obtain so where x: "x = Inr so" using spec by (cases x) auto
  show ?case
  proof (cases so)
    case (Some s)
    let ?rid = "\<lparr>rid_page = i, rid_slot = s\<rparr>"
    have put: "put_row (page_rows pg) row = (page_rows pg', s)" using spec x Some by simp
    have "heap_get h n p1 rid = ((heap_get h n p)(?rid \<mapsto> row)) rid" for rid
      using w(5) rows_get_put [OF put, of "rid_slot rid"] get [of "rid_slot rid"]
      by (cases rid) (auto simp: page_step_def)
    then have "row_added (heap_get h n p) ?rid row (heap_get h n p1)"
      using rows_get_put [OF put] get by (auto simp: row_added_def)
    then show ?thesis using w(1,5) x Some i by (simp add: page_step_def)
  next
    case None
    then have rows: "page_rows pg' = page_rows pg" using spec x by simp
    have same: "heap_get h n p1 rid = heap_get h n p rid" for rid
      using w(5) rows get [of "rid_slot rid"] by (cases rid) (auto simp: page_step_def)
    then have fe: "heap_get h n p1 = heap_get h n p" by blast
    have "heap_ok h n p1" "set ns \<subseteq> {..<n}" using w(5) Cons.prems(2) by (simp_all add: page_step_def)
    from Cons.IH [OF this Cons.prems(3), unfolded fe] obtain ro p' where
      r: "insert_loop h row ns p1 = (Inr ro, p')" "heap_ok h n p'" "others_same h p1 p'"
        "case ro of None \<Rightarrow> heap_get h n p' = heap_get h n p
         | Some rid \<Rightarrow> rid_page rid < n \<and> row_added (heap_get h n p) rid row (heap_get h n p')" by blast
    have "insert_loop h row (i # ns) p = (Inr ro, p')" using w(1) x None r(1) by simp
    moreover have "others_same h p p'" using others_same_trans [OF _ r(3)] w(5) by (simp add: page_step_def)
    ultimately show ?thesis using r(2,4) by blast
  qed
qed

lemma pageCount_ok:
  assumes "heap_ok h n p"
  shows "\<exists>h'. pageCount (h, p) = (n, h', p) \<and> heap_ok h' n p \<and> hpath h' = hpath h \<and>
    insertPageHint h' = insertPageHint h \<and> knownPageCount h' = Some n"
proof (cases "knownPageCount h")
  case (Some m)
  then have "pageCount (h, p) = (n, h, p)" using assms by (auto simp: pageCount_def heap_ok_def)
  then show ?thesis using assms Some by (auto simp: heap_ok_def)
next
  case None
  obtain c where c: "files (pdisk p) (hpath h) = Some c" "length c = n * PAGE_SIZE"
    using assms by (auto simp: heap_ok_def bounded_def)
  have "(length c + PAGE_SIZE - 1) div PAGE_SIZE = n"
  proof -
    have "(PAGE_SIZE - 1 + n * PAGE_SIZE) div PAGE_SIZE = n + (PAGE_SIZE - 1) div PAGE_SIZE"
      using PAGE_SIZE_pos by (subst div_mult_self1) auto
    then show ?thesis using c(2) PAGE_SIZE_pos by (simp add: add.commute)
  qed
  then have "pageCount (h, p) = (n, h\<lparr>knownPageCount := Some n\<rparr>, p)" using None c by (simp add: pageCount_def Let_def)
  then show ?thesis using assms by (auto simp: heap_ok_def page_of_def)
qed

lemma heap_get_path: "hpath h' = hpath h \<Longrightarrow> heap_get h' n p = heap_get h n p"
  by (auto simp: heap_get_def page_of_def fun_eq_iff)

lemma others_same_path: "hpath h' = hpath h \<Longrightarrow> others_same h' p p' = others_same h p p'"
  by (simp add: others_same_def)

lemma flush_list_progress:
  "pool_ok f p \<Longrightarrow> \<forall>g. writable (pdisk p) g \<Longrightarrow> fst (flush_list ks p) = Inr ()"
proof (induction ks p rule: flush_list.induct)
  case (2 k ks p)
  show ?case
  proof (cases "frame_of p k")
    case None
    then show ?thesis using 2 by simp
  next
    case (Some fr)
    obtain p1 where fl: "flush_frame k fr p = (Inr (), p1)"
      using 2(4) by (cases "flush_frame k fr p") (auto simp: flush_frame_def writePage_def Let_def split: if_splits)
    have "pool_step f p p1" using flush_frame_step [OF 2(3) Some fl] by simp
    then have "fst (flush_list ks p1) = Inr ()"
      using 2(2) [OF Some, of "Inr ()" p1 "()"] 2(4) fl by (simp add: pool_step_def)
    then show ?thesis using Some fl by simp
  qed
qed simp

lemma fresh_page_fits:
  assumes "length row + 22 \<le> PAGE_SIZE"
  shows "\<exists>pg'. page_insert (initialize pg) row = (pg', Inr (Some 0)) \<and> page_wf pg' \<and> page_rows pg' = [Some row]"
  using page_insert_spec [OF initialize_wf [of pg], of row] assms
  by (auto simp: initialize_rows need_def page_room_def put_row_def free_slot_def PAGE_SIZE_def)

lemma append_row_spec:
  assumes ok: "heap_ok h n p" and len: "length row + 22 \<le> PAGE_SIZE"
  shows "\<exists>h' p'. append_row row n (h, p) = (Inr \<lparr>rid_page = n, rid_slot = 0\<rparr>, h', p') \<and>
    hpath h' = hpath h \<and> heap_ok h' (n + 1) p' \<and> others_same h p p' \<and>
    row_added (heap_get h n p) \<lparr>rid_page = n, rid_slot = 0\<rparr> row (heap_get h (n + 1) p')"
proof -
  let ?k = "page_of h n" let ?g = "hpath h"
  have pok: "pool_ok page_abs p" and q: "quiet p" and b: "bounded ?g (n * PAGE_SIZE) n p"
    using ok by (simp_all add: heap_ok_def)
  have cap: "card (pinned p) < capacityPages p" using pok quiet_pinned [OF q] by (simp add: pool_ok_def)
  obtain p1 where fe: "fetch ?k True p = (Inr (), p1)"
    using fetch_progress [OF pok cap, of True ?k] q by (cases "fetch ?k True p") (auto simp: quiet_def)
  note ke = fetch_keeps [OF pok fe]
  then have ok1: "pool_ok page_abs p1" and pins1: "pin_count p1 = (pin_count p)(?k := pin_count p ?k + 1)"
    by (auto simp: pool_keeps_def)
  obtain fr where fr: "frame_of p1 ?k = Some fr" using ke by auto
  obtain pg' where ins: "page_insert (initialize (fbytes fr)) row = (pg', Inr (Some 0))"
    and wf: "page_wf pg'" and rows: "page_rows pg' = [Some row]"
    using fresh_page_fits [OF len] by blast
  let ?p2 = "store ?k pg' True p1"
  note st = store_ok [OF ok1 fr page_wf_length [OF wf] disjI1 [OF TrueI]]
  have p2: "?p2 = markDirty ?k (guard_store ?k pg' p1)" by (simp add: store_def Let_def)
  have fr2: "frame_of ?p2 ?k = Some (fr\<lparr>fbytes := pg', dirty := True\<rparr>)" by (simp add: store_frame [OF fr])
  have "bounded ?g (n * PAGE_SIZE) (n + 1) p" using b PAGE_SIZE_pos by (fastforce simp: bounded_def)
  then have "bounded ?g (n * PAGE_SIZE) (n + 1) p1" by (rule bounded_fetch [OF _ pok fe])
  then have b2: "bounded ?g (n * PAGE_SIZE) (n + 1) ?p2" by (rule store_bounded [OF _ fr]) simp
  let ?ks = "filter (\<lambda>k. key_file k = ?g) (map fst (frames ?p2))"
  have wr2: "\<forall>g. writable (pdisk ?p2) g" using st(4) ke q by (simp add: pool_keeps_def quiet_def)
  obtain p3 where fl: "flush_list ?ks ?p2 = (Inr (), p3)"
    using flush_list_progress [OF st(1) wr2, of ?ks] by (cases "flush_list ?ks ?p2") auto
  note st3 = flush_list_step [OF st(1) fl]
  have "?k \<in> set ?ks" using map_of_SomeD [OF fr2] by (auto intro: rev_image_eqI)
  then obtain c where c: "files (pdisk p3) ?g = Some c" "Suc n * PAGE_SIZE \<le> length c"
    using bounded_flush_list [OF b2 st(1) fl] fr2 by fastforce
  have "bounded ?g (n * PAGE_SIZE) (n + 1) p3" using bounded_flush_list [OF b2 st(1) fl] by simp
  then have b3: "bounded ?g ((n + 1) * PAGE_SIZE) (n + 1) p3" using c by (simp add: bounded_def)
  have ok3: "pool_ok page_abs p3" using st3 by (simp add: pool_step_def)
  have pins3: "pin_count p3 = (pin_count p)(?k := pin_count p ?k + 1)"
    using st3 st(3) pins1 by (simp add: pool_step_def)
  then have "0 < pin_count p3 ?k" by simp
  then obtain p4 where un: "unpin ?k p3 = (Inr (), p4)" and ke4: "pool_keeps page_abs p3 p4"
    "pin_count p4 = (pin_count p3)(?k := pin_count p3 ?k - 1)"
    using unpin_keeps [OF ok3, of ?k] by blast
  let ?h = "h\<lparr>insertPageHint := Some n, knownPageCount := Some (n + 1)\<rparr>"
  have res: "append_row row n (h, p) = (Inr \<lparr>rid_page = n, rid_slot = 0\<rparr>, ?h, p4)"
    using fe fr ins fl un p2 by (simp add: append_row_def guard_bytes_def flushFile_def Let_def)
  have view: "page_abs (view p4 k) = (if k = ?k then Some [Some row] else page_abs (view p k))" for k
  proof -
    have "page_abs (view p4 k) = page_abs (view p3 k)" using ke4 by (simp add: pool_keeps_def same_view_def)
    also have "\<dots> = page_abs (view ?p2 k)" using st3 by (simp add: pool_step_def same_view_def)
    also have "\<dots> = (if k = ?k then page_abs pg' else page_abs (view p1 k))" by (simp add: st(2))
    also have "\<dots> = (if k = ?k then page_abs pg' else page_abs (view p k))"
      using ke by (simp add: pool_keeps_def same_view_def)
    finally show ?thesis using wf rows by (simp add: page_abs_def)
  qed
  have "quiet p4" using ke4 pins3 q st3 st(4) ke by (auto simp: quiet_def pool_keeps_def pool_step_def)
  moreover have "bounded ?g ((n + 1) * PAGE_SIZE) (n + 1) p4" by (rule unpin_bounded [OF b3 un])
  moreover have "pool_ok page_abs p4" using ke4 by (simp add: pool_keeps_def)
  ultimately have "heap_ok ?h (n + 1) p4"
    using ok view by (auto simp: heap_ok_def less_Suc_eq page_of_def)
  moreover have "bounded g l m p4" if "g \<noteq> ?g" "bounded g l m p" for g l m
  proof -
    have "bounded g l m p1" by (rule bounded_fetch [OF that(2) pok fe])
    then have "bounded g l m ?p2" by (rule store_bounded [OF _ fr]) (use that(1) in simp)
    then have "bounded g l m p3" using bounded_flush_list [OF _ st(1) fl] by blast
    then show ?thesis by (rule unpin_bounded [OF _ un])
  qed
  then have "others_same h p p4" using view by (simp add: others_same_def page_of_def)
  moreover have "row_added (heap_get h n p) \<lparr>rid_page = n, rid_slot = 0\<rparr> row (heap_get h (n + 1) p4)"
  proof -
    have "heap_get h (n + 1) p4 rid = ((heap_get h n p)(\<lparr>rid_page = n, rid_slot = 0\<rparr> \<mapsto> row)) rid" for rid
      using view by (cases rid) (auto simp: heap_get_page less_Suc_eq rows_get_def)
    then show ?thesis by (auto simp: row_added_def fun_eq_iff heap_get_page)
  qed
  ultimately show ?thesis using res by fastforce
qed

theorem insert_heap_spec:
  assumes ok: "heap_ok h n p" and enc: "encodeTuple t = Inr row" and len: "length row + 22 \<le> PAGE_SIZE"
  shows "\<exists>rid h' n' p'. insert_heap t (h, p) = (Inr rid, h', p') \<and> hpath h' = hpath h \<and>
    n \<le> n' \<and> rid_page rid < n' \<and> heap_ok h' n' p' \<and> others_same h p p' \<and>
    row_added (heap_get h n p) rid row (heap_get h' n' p')"
proof -
  have ex: "create_heap (h, p) = (Inr (), h, p)"
    using ok by (auto simp: create_heap_def exists_file_def heap_ok_def bounded_def)
  obtain h1 where pc: "pageCount (h, p) = (n, h1, p)" "heap_ok h1 n p" "hpath h1 = hpath h"
    using pageCount_ok [OF ok] by blast
  define first where "first = (case insertPageHint h1 of
      Some i \<Rightarrow> if i < n then i else if 0 < n then n - 1 else 0 | None \<Rightarrow> if 0 < n then n - 1 else 0)"
  have len': "length row \<le> 65535" using len by (simp add: PAGE_SIZE_def)
  have sub: "set [first..<n] \<subseteq> {..<n}" by auto
  obtain ro p1 where lp: "insert_loop h1 row [first..<n] p = (Inr ro, p1)" "heap_ok h1 n p1" "others_same h1 p p1"
    "case ro of None \<Rightarrow> heap_get h1 n p1 = heap_get h1 n p
     | Some rid \<Rightarrow> rid_page rid < n \<and> row_added (heap_get h1 n p) rid row (heap_get h1 n p1)"
    using insert_loop_spec [OF pc(2) sub len'] by blast
  have ih: "insert_heap t (h, p) = (case insert_loop h1 row [first..<n] p of
        (Inl e, p1) \<Rightarrow> (Inl e, h1, p1)
      | (Inr (Some rid), p1) \<Rightarrow> (Inr rid, h1\<lparr>insertPageHint := Some (rid_page rid)\<rparr>, p1)
      | (Inr None, p1) \<Rightarrow> append_row row n (h1, p1))"
    using ex enc len pc(1) by (simp add: insert_heap_def first_def Let_def not_less)
  have get1: "heap_get h1 n q = heap_get h n q" for q by (rule heap_get_path [OF pc(3)])
  show ?thesis
  proof (cases ro)
    case (Some rid)
    let ?h = "h1\<lparr>insertPageHint := Some (rid_page rid)\<rparr>"
    have "insert_heap t (h, p) = (Inr rid, ?h, p1)" using ih lp(1) Some by simp
    moreover have "heap_ok ?h n p1" using lp(2) by (simp add: heap_ok_def page_of_def)
    moreover have "heap_get ?h n p1 = heap_get h n p1" using pc(3) by (intro heap_get_path) simp
    moreover have "others_same h p p1" using lp(3) pc(3) by (simp add: others_same_def)
    ultimately show ?thesis using lp(4) Some pc(3) get1 by (intro exI [of _ rid] exI [of _ ?h] exI [of _ n] exI [of _ p1]) simp
  next
    case None
    obtain h' p' where ap: "append_row row n (h1, p1) = (Inr \<lparr>rid_page = n, rid_slot = 0\<rparr>, h', p')"
      "hpath h' = hpath h1" "heap_ok h' (n + 1) p'" "others_same h1 p1 p'"
      "row_added (heap_get h1 n p1) \<lparr>rid_page = n, rid_slot = 0\<rparr> row (heap_get h1 (n + 1) p')"
      using append_row_spec [OF lp(2) len] by blast
    have "insert_heap t (h, p) = (Inr \<lparr>rid_page = n, rid_slot = 0\<rparr>, h', p')" using ih lp(1) None ap(1) by simp
    moreover have "others_same h p p'"
      using others_same_trans [OF lp(3) ap(4)] pc(3) by (simp add: others_same_def)
    moreover have "heap_get h1 n p1 = heap_get h n p" using lp(4) None get1 by simp
    moreover have "heap_get h1 (n + 1) p' = heap_get h' (n + 1) p'" by (rule heap_get_path) (simp add: ap(2))
    ultimately show ?thesis using ap pc(3)
      by (intro exI [of _ "\<lparr>rid_page = n, rid_slot = 0\<rparr>"] exI [of _ h'] exI [of _ "n + 1"] exI [of _ p']) simp
  qed
qed

section \<open>Lookup, deletion and update\<close>

lemma page_read_rows: "page_wf pg \<Longrightarrow> page_read pg s = Inr (rows_get (page_rows pg) s)"
  by (simp add: page_store.get_rows rows_get_def)

lemma heap_get_at:
  "rid_page rid < n \<Longrightarrow> page_abs (view p (page_of h (rid_page rid))) = Some rows \<Longrightarrow>
     heap_get h n p rid = rows_get rows (rid_slot rid)"
  by (simp add: heap_get_page)

text \<open>A page step that leaves the rows alone leaves the heap's contents alone.\<close>

lemma page_step_same:
  assumes "page_step h n i p p' rows" "page_abs (view p (page_of h i)) = Some rows" "i < n"
  shows "heap_get h n p' = heap_get h n p"
  using assms by (auto simp: page_step_def fun_eq_iff heap_get_page)

lemma page_step_update:
  assumes st: "page_step h n (rid_page rid) p p' (rows[rid_slot rid := v])"
    and rows: "page_abs (view p (page_of h (rid_page rid))) = Some rows" and i: "rid_page rid < n"
    and v: "v = None \<or> rid_slot rid < length rows"
  shows "heap_get h n p' = (heap_get h n p)(rid := v)"
proof
  fix rid'
  have "rows_get (rows[rid_slot rid := v]) s = (if s = rid_slot rid then v else rows_get rows s)" for s
    using v by (auto simp: rows_get_def nth_list_update)
  moreover have "rid' = rid \<longleftrightarrow> rid_page rid' = rid_page rid \<and> rid_slot rid' = rid_slot rid"
    by (cases rid; cases rid') simp
  ultimately show "heap_get h n p' rid' = ((heap_get h n p)(rid := v)) rid'"
    using st rows i by (auto simp: page_step_def heap_get_page)
qed

theorem read_heap_spec:
  assumes ok: "heap_ok h n p" and i: "rid_page rid < n"
  shows "\<exists>p'. read_heap rid (h, p) = ((case heap_get h n p rid of None \<Rightarrow> Inr None
       | Some b \<Rightarrow> rbind (decodeTuple b) (\<lambda>t. Inr (Some t))), h, p') \<and>
    heap_ok h n p' \<and> others_same h p p' \<and> heap_get h n p' = heap_get h n p"
proof -
  let ?body = "\<lambda>pg. (pg, False, rbind (page_read pg (rid_slot rid)) (\<lambda>bytes.
                 case bytes of None \<Rightarrow> Inr None | Some b \<Rightarrow> rbind (decodeTuple b) (\<lambda>t. Inr (Some t))))"
  have body: "\<forall>pg pg' d x. page_wf pg \<longrightarrow> ?body pg = (pg', d, x) \<longrightarrow> page_wf pg' \<and> (d \<or> page_rows pg' = page_rows pg)"
    by simp
  obtain pg pg' d x p' where w: "with_page (page_of h (rid_page rid)) False ?body p = (Inr x, p')" "?body pg = (pg', d, x)"
    "page_wf pg" "page_abs (view p (page_of h (rid_page rid))) = Some (page_rows pg)"
    "page_step h n (rid_page rid) p p' (page_rows pg')"
    using heap_page_step [OF ok i body] by blast
  have pg': "pg' = pg" using w(2) by simp
  have "x = (case heap_get h n p rid of None \<Rightarrow> Inr None | Some b \<Rightarrow> rbind (decodeTuple b) (\<lambda>t. Inr (Some t)))"
    using w(2) page_read_rows [OF w(3)] heap_get_at [OF i w(4)] by auto
  then show ?thesis
    using w(1,5) page_step_same [OF w(5) [unfolded pg'] w(4) i] by (simp add: read_heap_def page_step_def)
qed

lemma page_erase_flag: "page_wf pg \<Longrightarrow> snd (page_erase pg s) \<longleftrightarrow> s < slotCount pg \<and> live pg s"
  using page_wf_valid [of pg] by (simp add: page_erase_def Let_def live_def not_le)

lemma page_erase_same: "page_wf pg \<Longrightarrow> \<not> snd (page_erase pg s) \<Longrightarrow> fst (page_erase pg s) = pg"
  using page_erase_noop [of s pg] page_erase_flag [of pg s] by simp

theorem erase_heap_spec:
  assumes ok: "heap_ok h n p"
  shows "\<exists>h' p'. erase_heap rid (h, p) = (Inr (heap_get h n p rid \<noteq> None), h', p') \<and> hpath h' = hpath h \<and>
    heap_ok h' n p' \<and> others_same h p p' \<and> heap_get h' n p' = (heap_get h n p)(rid := None)"
proof -
  obtain h1 where pc: "pageCount (h, p) = (n, h1, p)" "heap_ok h1 n p" "hpath h1 = hpath h"
    using pageCount_ok [OF ok] by blast
  have get1: "heap_get h1 n q = heap_get h n q" for q by (rule heap_get_path [OF pc(3)])
  show ?thesis
  proof (cases "rid_page rid < n")
    case False
    then have "heap_get h n p rid = None" by (simp add: heap_get_def)
    then show ?thesis using False pc get1
      by (auto simp: erase_heap_def others_same_def fun_upd_idem intro!: exI [of _ h1])
  next
    case i: True
    let ?body = "\<lambda>pg. let (pg', ok) = page_erase pg (rid_slot rid) in (pg', ok, ok)"
    have "page_wf pg' \<and> (d \<or> page_rows pg' = page_rows pg)"
      if "page_wf pg" "?body pg = (pg', d, x)" for pg pg' d x
      using that page_store.del_wf [of pg "rid_slot rid"] page_erase_same [of pg "rid_slot rid"]
      by (auto simp: case_prod_beta)
    then have body: "\<forall>pg pg' d x. page_wf pg \<longrightarrow> ?body pg = (pg', d, x) \<longrightarrow>
        page_wf pg' \<and> (d \<or> page_rows pg' = page_rows pg)" by blast
    obtain pg pg' d x p' where w: "with_page (page_of h1 (rid_page rid)) False ?body p = (Inr x, p')" "?body pg = (pg', d, x)"
      "page_wf pg" "page_abs (view p (page_of h1 (rid_page rid))) = Some (page_rows pg)"
      "page_step h1 n (rid_page rid) p p' (page_rows pg')"
      using heap_page_step [OF pc(2) i body] by blast
    have rows: "page_rows pg' = (page_rows pg)[rid_slot rid := None]"
      using w(2) page_store.del_rows [OF w(3), of "rid_slot rid"] by (simp add: case_prod_beta)
    have x: "x \<longleftrightarrow> heap_get h1 n p rid \<noteq> None"
    proof -
      have "x \<longleftrightarrow> rid_slot rid < slotCount pg \<and> live pg (rid_slot rid)"
        using w(2) page_erase_flag [OF w(3)] by (auto simp: case_prod_beta)
      also have "\<dots> \<longleftrightarrow> rows_get (page_rows pg) (rid_slot rid) \<noteq> None"
        by (auto simp: rows_get_def page_rows_nth row_at_def)
      finally show ?thesis using heap_get_at [OF i w(4)] by simp
    qed
    have "heap_get h1 n p' = (heap_get h1 n p)(rid := None)"
      by (rule page_step_update [OF w(5) [unfolded rows] w(4) i]) simp
    moreover have "erase_heap rid (h, p) = (Inr x, h1, p')" using w(1) pc(1) i by (simp add: erase_heap_def)
    ultimately show ?thesis using w(5) pc(3) get1 x others_same_path [OF pc(3)]
      by (intro exI [of _ h1] exI [of _ p']) (simp add: page_step_def)
  qed
qed

text \<open>
  An update in place needs a live row that is at least as long; otherwise the old row is
  erased and the new one inserted, and if that throws the old row is gone.
\<close>

definition fits_in_place :: "byte list option \<Rightarrow> byte list \<Rightarrow> bool" where
  "fits_in_place old row = (case old of None \<Rightarrow> False | Some b \<Rightarrow> length row \<le> length b)"

lemma page_update_facts:
  assumes "page_wf pg"
  shows "page_wf (fst (page_update pg s row)) \<and>
    (if fits_in_place (rows_get (page_rows pg) s) row
     then snd (page_update pg s row) \<and> page_rows (fst (page_update pg s row)) = (page_rows pg)[s := Some row]
       \<and> s < length (page_rows pg)
     else page_update pg s row = (pg, False))"
proof -
  have "fits_in_place (rows_get (page_rows pg) s) row \<longleftrightarrow> s < slotCount pg \<and> live pg s \<and> length row \<le> row_len pg s"
    using assms by (auto simp: fits_in_place_def rows_get_def page_rows_nth row_at_def page_wf_def split: option.splits)
  then show ?thesis using page_update_wf [OF assms] page_update_rows [OF assms] page_update_noop [of s pg row]
    page_update_fields(1) [OF assms, of s row] by (auto simp: prod_eq_iff)
qed

lemma update_in_place:
  assumes ok: "heap_ok h n p"
  shows "\<exists>p'. (if rid_page rid < n
       then with_page (page_of h (rid_page rid)) False
              (\<lambda>pg. let (pg', ok) = page_update pg (rid_slot rid) row in (pg', ok, ok)) p
       else (Inr False, p)) = (Inr (fits_in_place (heap_get h n p rid) row), p') \<and>
    heap_ok h n p' \<and> others_same h p p' \<and>
    heap_get h n p' = (if fits_in_place (heap_get h n p rid) row then (heap_get h n p)(rid \<mapsto> row) else heap_get h n p)"
proof (cases "rid_page rid < n")
  case False
  then have "heap_get h n p rid = None" by (simp add: heap_get_def)
  then show ?thesis using ok False by (simp add: fits_in_place_def others_same_def)
next
  case i: True
  let ?body = "\<lambda>pg. let (pg', ok) = page_update pg (rid_slot rid) row in (pg', ok, ok)"
  have "page_wf pg' \<and> (d \<or> page_rows pg' = page_rows pg)"
    if "page_wf pg" "?body pg = (pg', d, x)" for pg pg' d x
    using that page_update_facts [OF that(1), of "rid_slot rid" row] by (auto simp: case_prod_beta split: if_splits)
  then have body: "\<forall>pg pg' d x. page_wf pg \<longrightarrow> ?body pg = (pg', d, x) \<longrightarrow>
      page_wf pg' \<and> (d \<or> page_rows pg' = page_rows pg)" by blast
  obtain pg pg' d x p' where w: "with_page (page_of h (rid_page rid)) False ?body p = (Inr x, p')" "?body pg = (pg', d, x)"
    "page_wf pg" "page_abs (view p (page_of h (rid_page rid))) = Some (page_rows pg)"
    "page_step h n (rid_page rid) p p' (page_rows pg')"
    using heap_page_step [OF ok i body] by blast
  have get: "heap_get h n p rid = rows_get (page_rows pg) (rid_slot rid)" by (rule heap_get_at [OF i w(4)])
  note f = page_update_facts [OF w(3), of "rid_slot rid" row]
  show ?thesis
  proof (cases "fits_in_place (heap_get h n p rid) row")
    case True
    then have x: "x" "page_rows pg' = (page_rows pg)[rid_slot rid := Some row]" "rid_slot rid < length (page_rows pg)"
      using f w(2) get by (auto simp: case_prod_beta)
    have "heap_get h n p' = (heap_get h n p)(rid \<mapsto> row)"
      by (rule page_step_update [OF w(5) [unfolded x(2)] w(4) i]) (simp add: x(3) del: length_page_rows)
    then show ?thesis using w(1,5) x(1) True i by (simp add: page_step_def)
  next
    case False
    then have x: "\<not> x" "pg' = pg" using f w(2) get by auto
    then show ?thesis using w(1,5) False i page_step_same [OF w(5) [unfolded x(2)] w(4) i]
      by (simp add: page_step_def)
  qed
qed

theorem update_heap_spec:
  assumes ok: "heap_ok h n p" and enc: "encodeTuple t = Inr row" and old: "heap_get h n p rid = Some old"
  shows "if length row \<le> length old then
      (\<exists>h' p'. update_heap rid t (h, p) = (Inr rid, h', p') \<and> hpath h' = hpath h \<and> heap_ok h' n p' \<and>
        others_same h p p' \<and> heap_get h' n p' = (heap_get h n p)(rid \<mapsto> row))
    else if length row + 22 \<le> PAGE_SIZE then
      (\<exists>rid' h' n' p'. update_heap rid t (h, p) = (Inr rid', h', p') \<and> hpath h' = hpath h \<and> heap_ok h' n' p' \<and>
        others_same h p p' \<and> row_added ((heap_get h n p)(rid := None)) rid' row (heap_get h' n' p'))
    else
      (\<exists>h' p'. update_heap rid t (h, p) = (Inl (Runtime_Error ''Tuple exceeds page size''), h', p') \<and>
        hpath h' = hpath h \<and> heap_ok h' n p' \<and> others_same h p p' \<and> heap_get h' n p' = (heap_get h n p)(rid := None))"
proof -
  obtain h1 where pc: "pageCount (h, p) = (n, h1, p)" "heap_ok h1 n p" "hpath h1 = hpath h"
    using pageCount_ok [OF ok] by blast
  have get1: "heap_get h1 n q = heap_get h n q" for q by (rule heap_get_path [OF pc(3)])
  have po: "page_of h1 = page_of h" using pc(3) by (simp add: page_of_def fun_eq_iff)
  obtain p1 where u: "(if rid_page rid < n
       then with_page (page_of h1 (rid_page rid)) False
              (\<lambda>pg. let (pg', ok) = page_update pg (rid_slot rid) row in (pg', ok, ok)) p
       else (Inr False, p)) = (Inr (fits_in_place (heap_get h1 n p rid) row), p1)"
    "heap_ok h1 n p1" "others_same h1 p p1"
    "heap_get h1 n p1 = (if fits_in_place (heap_get h1 n p rid) row then (heap_get h1 n p)(rid \<mapsto> row) else heap_get h1 n p)"
    using update_in_place [OF pc(2), of rid row] by blast
  have fit: "fits_in_place (heap_get h1 n p rid) row \<longleftrightarrow> length row \<le> length old"
    using old get1 by (simp add: fits_in_place_def)
  show ?thesis
  proof (cases "length row \<le> length old")
    case True
    then have "update_heap rid t (h, p) = (Inr rid, h1, p1)" using enc pc(1) u(1) fit by (simp add: update_heap_def)
    then show ?thesis using True u(2-4) fit pc(3) get1 others_same_path [OF pc(3)] by auto
  next
    case False
    obtain h2 p2 where er: "erase_heap rid (h1, p1) = (Inr True, h2, p2)" "hpath h2 = hpath h1" "heap_ok h2 n p2"
      "others_same h1 p1 p2" "heap_get h2 n p2 = (heap_get h n p)(rid := None)"
      using erase_heap_spec [OF u(2), of rid] u(4) fit False old get1 by auto
    have up: "update_heap rid t (h, p) = insert_heap t (h2, p2)"
      using enc pc(1) u(1) fit False er(1) by (simp add: update_heap_def)
    have os: "others_same h p p2" using others_same_trans [OF u(3) er(4)] pc(3) by (simp add: others_same_def)
    show ?thesis
    proof (cases "length row + 22 \<le> PAGE_SIZE")
      case True
      obtain rid' h' n' p' where i: "insert_heap t (h2, p2) = (Inr rid', h', p')" "hpath h' = hpath h2" "heap_ok h' n' p'"
        "others_same h2 p2 p'" "row_added (heap_get h2 n p2) rid' row (heap_get h' n' p')"
        using insert_heap_spec [OF er(3) enc True] by blast
      have "others_same h p p'" using os i(4) er(2) pc(3) by (simp add: others_same_def)
      then show ?thesis using False True up i er(2,5) pc(3)
        by (simp, intro exI [of _ rid'] exI [of _ h'] exI [of _ p'] exI [of _ n']) simp
    next
      case big: False
      have "create_heap (h2, p2) = (Inr (), h2, p2)"
        using er(3) by (auto simp: create_heap_def exists_file_def heap_ok_def bounded_def)
      then have "insert_heap t (h2, p2) = (Inl (Runtime_Error ''Tuple exceeds page size''), h2, p2)"
        using enc big by (simp add: insert_heap_def)
      then show ?thesis using False big up er(2,3,5) pc(3) os by auto
    qed
  qed
qed

section \<open>Scans\<close>

text \<open>The stored rows in scan order.\<close>

definition page_list :: "nat \<Rightarrow> byte list option list \<Rightarrow> (row_id \<times> byte list) list" where
  "page_list i rows = concat (map (\<lambda>s. case rows_get rows s of
      None \<Rightarrow> [] | Some b \<Rightarrow> [(\<lparr>rid_page = i, rid_slot = s\<rparr>, b)]) [0..<length rows])"

definition stored :: "heap_file \<Rightarrow> nat \<Rightarrow> pool \<Rightarrow> (row_id \<times> byte list) list" where
  "stored h n p = concat (map (\<lambda>i. page_list i (the (page_abs (view p (page_of h i))))) [0..<n])"

lemma set_page_list:
  "(rid, b) \<in> set (page_list i rows) \<longleftrightarrow> rid_page rid = i \<and> rows_get rows (rid_slot rid) = Some b"
  by (cases rid) (auto simp: page_list_def rows_get_def split: option.splits if_splits)

lemma set_stored:
  assumes "heap_ok h n p"
  shows "(rid, b) \<in> set (stored h n p) \<longleftrightarrow> heap_get h n p rid = Some b"
proof -
  have "(rid, b) \<in> set (stored h n p) \<longleftrightarrow> rid_page rid < n \<and>
      rows_get (the (page_abs (view p (page_of h (rid_page rid))))) (rid_slot rid) = Some b"
    by (auto simp: stored_def set_page_list)
  also have "\<dots> \<longleftrightarrow> heap_get h n p rid = Some b"
  proof (cases "rid_page rid < n")
    case True
    then obtain rows where "page_abs (view p (page_of h (rid_page rid))) = Some rows"
      using heap_ok_page [OF assms] by blast
    then show ?thesis using True by (simp add: heap_get_page)
  qed (simp add: heap_get_page)
  finally show ?thesis .
qed

lemma distinct_concat_upt:
  assumes "\<And>i. distinct (f i)" "\<And>i j x. x \<in> set (f i) \<Longrightarrow> x \<in> set (f j) \<Longrightarrow> i = j"
  shows "distinct (concat (map f [0..<n]))"
proof (induction n)
  case (Suc n)
  have "x \<notin> set (f n)" if "x \<in> set (concat (map f [0..<n]))" for x
    using that assms(2) [of x _ n] by auto
  then show ?case using Suc assms(1) [of n] by auto
qed simp

lemma page_list_rid: "rid \<in> set (map fst (page_list i rows)) \<Longrightarrow> rid_page rid = i"
  by (auto simp: set_page_list)

lemma distinct_page_list: "distinct (map fst (page_list i rows))"
  unfolding page_list_def map_concat map_map comp_def
  by (rule distinct_concat_upt) (auto split: option.splits)

lemma distinct_stored: "distinct (map fst (stored h n p))"
  unfolding stored_def map_concat map_map comp_def
proof (rule distinct_concat_upt)
  fix i j rid
  show "distinct (map fst (page_list i (the (page_abs (view p (page_of h i))))))" by (rule distinct_page_list)
  assume "rid \<in> set (map fst (page_list i (the (page_abs (view p (page_of h i))))))"
    "rid \<in> set (map fst (page_list j (the (page_abs (view p (page_of h j))))))"
  from page_list_rid [OF this(1)] page_list_rid [OF this(2)] show "i = j" by simp
qed

text \<open>Adding one row to the batches.\<close>

definition push :: "nat \<Rightarrow> 'a scan_state \<Rightarrow> row_id \<times> 'a \<Rightarrow> 'a scan_state" where
  "push bs sc x = (case sc of (rows, out) \<Rightarrow>
     if length (rows @ [x]) = bs then ([], out @ [rows @ [x]]) else (rows @ [x], out))"

definition batches_ok :: "nat \<Rightarrow> 'a scan_state \<Rightarrow> bool" where
  "batches_ok bs sc \<longleftrightarrow> length (fst sc) < bs \<and> (\<forall>b\<in>set (snd sc). length b = bs)"

lemma foldl_push:
  assumes "batches_ok bs sc"
  shows "batches_ok bs (foldl (push bs) sc xs) \<and>
    concat (snd (foldl (push bs) sc xs)) @ fst (foldl (push bs) sc xs) = concat (snd sc) @ fst sc @ xs"
  using assms
proof (induction xs arbitrary: sc)
  case (Cons x xs)
  have "batches_ok bs (push bs sc x)" using Cons.prems by (auto simp: batches_ok_def push_def split: prod.splits)
  from Cons.IH [OF this] show ?case by (auto simp: push_def split: prod.splits if_splits)
qed simp

definition decoded :: "(byte list \<Rightarrow> 'a result) \<Rightarrow> (row_id \<times> byte list) list \<Rightarrow> (row_id \<times> 'a) list" where
  "decoded dec es = map (\<lambda>(rid, b). (rid, projr (dec b))) es"

lemma scan_slots_spec:
  assumes "page_wf pg" "\<forall>(rid, b)\<in>set (page_list i (page_rows pg)). \<exists>t. dec b = Inr t"
    and "set ss \<subseteq> {..<slotCount pg}"
  shows "scan_slots dec bs i pg ss sc = (Inr (), foldl (push bs) sc (decoded dec
    (concat (map (\<lambda>s. case rows_get (page_rows pg) s of
      None \<Rightarrow> [] | Some b \<Rightarrow> [(\<lparr>rid_page = i, rid_slot = s\<rparr>, b)]) ss))))"
  using assms(3)
proof (induction ss arbitrary: sc)
  case Nil
  then show ?case by (cases sc) (simp add: decoded_def)
next
  case (Cons s ss)
  obtain rows out where sc: "sc = (rows, out)" by (cases sc)
  show ?case
  proof (cases "rows_get (page_rows pg) s")
    case None
    then show ?thesis using Cons sc page_read_rows [OF assms(1)] by simp
  next
    case (Some b)
    then have "(\<lparr>rid_page = i, rid_slot = s\<rparr>, b) \<in> set (page_list i (page_rows pg))" by (simp add: set_page_list)
    then obtain t where "dec b = Inr t" using assms(2) by blast
    then show ?thesis using Cons sc Some page_read_rows [OF assms(1)]
      by (auto simp: push_def decoded_def Let_def)
  qed
qed

text \<open>The stored rows of a page are determined by the heap's contents.\<close>

lemma page_list_extend:
  assumes "length rows \<le> m"
  shows "page_list i rows = concat (map (\<lambda>s. case rows_get rows s of
      None \<Rightarrow> [] | Some b \<Rightarrow> [(\<lparr>rid_page = i, rid_slot = s\<rparr>, b)]) [0..<m])"
proof -
  have "[0..<m] = [0..<length rows] @ [length rows..<m]" using assms upt_add_eq_append [of 0 "length rows" "m - length rows"] by simp
  moreover have "concat (map (\<lambda>s. case rows_get rows s of
      None \<Rightarrow> [] | Some b \<Rightarrow> [(\<lparr>rid_page = i, rid_slot = s\<rparr>, b)]) [length rows..<m]) = []"
    by (auto simp: rows_get_def)
  ultimately show ?thesis by (simp add: page_list_def)
qed

lemma page_list_cong:
  assumes "\<And>s. rows_get rows s = rows_get rows' s"
  shows "page_list i rows = page_list i rows'"
  using page_list_extend [of rows "max (length rows) (length rows')" i]
    page_list_extend [of rows' "max (length rows) (length rows')" i] assms by simp

lemma stored_page_cong:
  assumes "heap_ok h n p" "heap_ok h n p'" "heap_get h n p' = heap_get h n p" "j < n"
  shows "page_list j (the (page_abs (view p' (page_of h j)))) = page_list j (the (page_abs (view p (page_of h j))))"
proof (rule page_list_cong)
  fix s
  obtain rows rows' where r: "page_abs (view p (page_of h j)) = Some rows" "page_abs (view p' (page_of h j)) = Some rows'"
    using heap_ok_page assms by metis
  have "heap_get h n p' \<lparr>rid_page = j, rid_slot = s\<rparr> = heap_get h n p \<lparr>rid_page = j, rid_slot = s\<rparr>" using assms(3) by simp
  then show "rows_get (the (page_abs (view p' (page_of h j)))) s = rows_get (the (page_abs (view p (page_of h j)))) s"
    using assms(4) r by (simp add: heap_get_page)
qed

lemma scan_pages_spec:
  assumes "heap_ok h n p" "set ns \<subseteq> {..<n}" "\<forall>(rid, b)\<in>set (stored h n p). \<exists>t. dec b = Inr t"
  shows "\<exists>p'. scan_pages dec bs h ns sc p = (Inr (), foldl (push bs) sc (decoded dec
      (concat (map (\<lambda>i. page_list i (the (page_abs (view p (page_of h i))))) ns))), p') \<and>
    heap_ok h n p' \<and> others_same h p p' \<and> stored h n p' = stored h n p \<and> heap_get h n p' = heap_get h n p"
  using assms
proof (induction ns arbitrary: p sc)
  case Nil
  then show ?case by (simp add: decoded_def others_same_def)
next
  case (Cons i ns)
  have i: "i < n" using Cons.prems(2) by simp
  let ?body = "\<lambda>pg. (pg, False,
                if page_valid pg then scan_slots dec bs i pg [0..<slotCount pg] sc else (Inr (), sc))"
  have body: "\<forall>pg pg' d x. page_wf pg \<longrightarrow> ?body pg = (pg', d, x) \<longrightarrow> page_wf pg' \<and> (d \<or> page_rows pg' = page_rows pg)"
    by simp
  obtain pg pg' d x p1 where w: "with_page (page_of h i) False ?body p = (Inr x, p1)" "?body pg = (pg', d, x)"
    "page_wf pg" "page_abs (view p (page_of h i)) = Some (page_rows pg)" "page_step h n i p p1 (page_rows pg')"
    using heap_page_step [OF Cons.prems(1) i body] by blast
  have pg': "pg' = pg" using w(2) by simp
  let ?l = "page_list i (page_rows pg)"
  have "\<exists>t. dec b = Inr t" if "(rid, b) \<in> set ?l" for rid b
  proof -
    have "(rid, b) \<in> set (stored h n p)"
      using that w(4) i by (auto simp: stored_def set_page_list)
    then show ?thesis using Cons.prems(3) by blast
  qed
  then have "\<forall>(rid, b)\<in>set ?l. \<exists>t. dec b = Inr t" by blast
  from scan_slots_spec [OF w(3) this, of "[0..<slotCount pg]" bs sc]
  have "scan_slots dec bs i pg [0..<slotCount pg] sc = (Inr (), foldl (push bs) sc (decoded dec ?l))"
    unfolding page_list_def length_page_rows by (simp add: lessThan_atLeast0)
  then have x: "x = (Inr (), foldl (push bs) sc (decoded dec ?l))" using w(2) page_wf_valid [OF w(3)] by auto
  have ok1: "heap_ok h n p1" using w(5) by (simp add: page_step_def)
  have get: "heap_get h n p1 = heap_get h n p" by (rule page_step_same [OF w(5) [unfolded pg'] w(4) i])
  note views = stored_page_cong [OF Cons.prems(1) ok1 get]
  have st: "stored h n p1 = stored h n p"
    unfolding stored_def using views by (intro arg_cong [of _ _ concat] map_cong) auto
  have "set ns \<subseteq> {..<n}" using Cons.prems(2) by simp
  from Cons.IH [OF ok1 this, of "foldl (push bs) sc (decoded dec ?l)"] obtain p' where
    r: "scan_pages dec bs h ns (foldl (push bs) sc (decoded dec ?l)) p1 =
        (Inr (), foldl (push bs) (foldl (push bs) sc (decoded dec ?l)) (decoded dec
          (concat (map (\<lambda>i. page_list i (the (page_abs (view p1 (page_of h i))))) ns))), p')"
      "heap_ok h n p'" "others_same h p1 p'" "stored h n p' = stored h n p1" "heap_get h n p' = heap_get h n p1"
    using Cons.prems(3) st by auto
  have "map (\<lambda>i. page_list i (the (page_abs (view p1 (page_of h i))))) ns
      = map (\<lambda>i. page_list i (the (page_abs (view p (page_of h i))))) ns"
    using views Cons.prems(2) by (intro map_cong) auto
  note r1 = r(1) [unfolded this]
  have "scan_pages dec bs h (i # ns) sc p = (Inr (), foldl (push bs) sc (decoded dec
      (concat (map (\<lambda>i. page_list i (the (page_abs (view p (page_of h i))))) (i # ns)))), p')"
    using w(1,4) x r1 by (simp add: decoded_def)
  moreover have "others_same h p p'" using others_same_trans [OF _ r(3)] w(5) by (simp add: page_step_def)
  ultimately show ?case using r(2,4,5) st get by auto
qed

theorem scan_with_spec:
  assumes ok: "heap_ok h n p" and bs: "0 < bs" and dec: "\<forall>(rid, b)\<in>set (stored h n p). \<exists>t. dec b = Inr t"
  shows "\<exists>out h' p'. scan_with dec bs (h, p) = (Inr (), out, h', p') \<and>
    concat out = decoded dec (stored h n p) \<and> (\<forall>b\<in>set (butlast out). length b = bs) \<and>
    (\<forall>b\<in>set out. b \<noteq> [] \<and> length b \<le> bs) \<and>
    hpath h' = hpath h \<and> heap_ok h' n p' \<and> others_same h p p' \<and> heap_get h' n p' = heap_get h n p"
proof -
  obtain h1 where pc: "pageCount (h, p) = (n, h1, p)" "heap_ok h1 n p" "hpath h1 = hpath h"
    using pageCount_ok [OF ok] by blast
  have po: "page_of h1 = page_of h" using pc(3) by (simp add: page_of_def fun_eq_iff)
  have st: "stored h1 n p = stored h n p" by (simp add: stored_def po)
  have dec': "\<forall>(rid, b)\<in>set (stored h1 n p). \<exists>t. dec b = Inr t" using dec st by simp
  define ls where "ls = decoded dec (stored h n p)"
  have ls: "decoded dec (concat (map (\<lambda>i. page_list i (the (page_abs (view p (page_of h1 i))))) [0..<n])) = ls"
    by (simp add: ls_def stored_def po)
  have sub: "set [0..<n] \<subseteq> {..<n}" by auto
  obtain rows out where sc: "foldl (push bs) ([], []) ls = (rows, out)" by (cases "foldl (push bs) ([], []) ls")
  note sp = scan_pages_spec [OF pc(2) sub dec', of bs "([], [])", unfolded ls sc]
  then obtain p' where r: "scan_pages dec bs h1 [0..<n] ([], []) p = (Inr (), (rows, out), p')" "heap_ok h1 n p'"
    "others_same h1 p p'" "heap_get h1 n p' = heap_get h1 n p"
    by blast
  have "batches_ok bs ([], [])" using bs by (simp add: batches_ok_def)
  from foldl_push [OF this, of ls, unfolded sc]
  have fp: "length rows < bs" "\<forall>b\<in>set out. length b = bs" "concat out @ rows = ls"
    by (simp_all add: batches_ok_def)
  define res where "res = (if rows = [] then out else out @ [rows])"
  have run: "scan_with dec bs (h, p) = (Inr (), res, h1, p')"
    using pc(1) r(1) by (simp add: scan_with_def res_def)
  have all: "concat res = ls" using fp(3) by (cases "rows = []") (simp_all add: res_def)
  have len: "\<forall>b\<in>set (butlast res). length b = bs"
    using fp(2) by (auto simp: res_def dest: in_set_butlastD)
  have sizes: "\<forall>b\<in>set res. b \<noteq> [] \<and> length b \<le> bs"
    using fp(1,2) bs by (cases "rows = []") (auto simp: res_def)
  have os: "others_same h p p'" using r(3) others_same_path [OF pc(3)] by simp
  have get: "heap_get h1 n p' = heap_get h n p" using r(4) heap_get_path [OF pc(3), of n p] by simp
  show ?thesis
    using run all [unfolded ls_def] len sizes pc(3) r(2) os get by blast
qed

text \<open>A fresh, empty heap file.\<close>

lemma create_heap_ok:
  assumes "pool_ok page_abs p" "quiet p" "files (pdisk p) f = None"
    and "\<forall>k fr. frame_of p k = Some fr \<longrightarrow> key_file k \<noteq> f"
  shows "\<exists>p'. create_heap (open_heap f, p) = (Inr (), (open_heap f)\<lparr>knownPageCount := Some 0\<rparr>, p') \<and>
    heap_ok ((open_heap f)\<lparr>knownPageCount := Some 0\<rparr>) 0 p'"
proof -
  let ?p = "p\<lparr>pdisk := (pdisk p)\<lparr>files := (files (pdisk p))(f \<mapsto> [])\<rparr>\<rparr>"
  have "frames_ok page_abs ?p"
    using assms(1,4) by (auto simp: pool_ok_def frames_ok_def disk_bytes_def)
  then have "pool_ok page_abs ?p" using assms(1) by (auto simp: pool_ok_def disk_ok_def)
  moreover have "quiet ?p" using assms(2) by (simp add: quiet_def pin_count_def)
  moreover have "bounded f 0 0 ?p" using assms(4) by (auto simp: bounded_def)
  ultimately show ?thesis using assms(2,3)
    by (auto simp: create_heap_def open_heap_def exists_file_def quiet_def heap_ok_def)
qed

section \<open>Properties\<close>

text \<open>A concrete heap for the witnesses: an empty file behind an empty pool.\<close>

definition demo_heap :: heap_file where
  "demo_heap = open_heap ''t.heap''"

definition demo_pool :: pool where
  "demo_pool = new_pool 4 \<lparr>files = [''t.heap'' \<mapsto> []], writable = (\<lambda>g. True)\<rparr>"

lemma demo_ok: "heap_ok demo_heap 0 demo_pool"
  by (auto simp: heap_ok_def demo_heap_def demo_pool_def open_heap_def new_pool_def pool_ok_def frames_ok_def
      disk_ok_def quiet_def pin_count_def bounded_def)

lemma demo_get [simp]: "heap_get demo_heap 0 demo_pool rid = None"
  by (simp add: heap_get_def)

text \<open>
  C8. Inserting a tuple that fits a page into a well-formed heap file succeeds: a row id that
  was free now holds the encoded tuple and reads back as the tuple, every other row and every
  page of every other file is unchanged, and the heap (page formats, page count, file length,
  cache) is well formed again, whatever pages were evicted on the way.
\<close>

theorem heap_insert_correct:
  assumes "heap_ok h n p" "storable t" "encodeTuple t = Inr row" "length row + 22 \<le> PAGE_SIZE"
  shows "\<exists>rid h' n' p' p''. insert_heap t (h, p) = (Inr rid, h', p') \<and> heap_ok h' n' p' \<and>
    row_added (heap_get h n p) rid row (heap_get h' n' p') \<and> others_same h p p' \<and>
    read_heap rid (h', p') = (Inr (Some t), h', p'')"
proof -
  obtain rid h' n' p' where i: "insert_heap t (h, p) = (Inr rid, h', p')" "rid_page rid < n'" "heap_ok h' n' p'"
    "others_same h p p'" "row_added (heap_get h n p) rid row (heap_get h' n' p')"
    using insert_heap_spec [OF assms(1,3,4)] by blast
  have "heap_get h' n' p' rid = Some row" using i(5) by (simp add: row_added_def)
  then obtain p'' where "read_heap rid (h', p') = (Inr (Some t), h', p'')"
    using read_heap_spec [OF i(3,2)] decodeTuple_encoded [OF assms(2,3)] by auto
  then show ?thesis using i by blast
qed

theorem heap_insert_correct_witness:
  "\<exists>rid h' p' p''. insert_heap [VNull, VBoolean True] (demo_heap, demo_pool) = (Inr rid, h', p') \<and>
     read_heap rid (h', p') = (Inr (Some [VNull, VBoolean True]), h', p'')"
proof -
  have e: "encodeTuple [VNull, VBoolean True] = Inr [2, 0, 0, 4, 1]" by code_simp
  have s: "storable [VNull, VBoolean True]" by (simp add: storable_def storable_val_def)
  have l: "length [2, 0, 0, 4, 1 :: byte] + 22 \<le> PAGE_SIZE" by (simp add: PAGE_SIZE_def)
  show ?thesis using heap_insert_correct [OF demo_ok s e l] by blast
qed

text \<open>
  C13. Updating a stored row: a row that is not longer replaces the old one in place under the
  same id; a longer one moves to a free id; one that fits no page raises the size error, and
  then the old row has already been erased (the engine restores the file from its before
  image). All other rows are kept.
\<close>

theorem heap_update_correct:
  assumes "heap_ok h n p" "encodeTuple t = Inr row" "heap_get h n p rid = Some old"
  shows "if length row \<le> length old then
      (\<exists>h' p'. update_heap rid t (h, p) = (Inr rid, h', p') \<and> hpath h' = hpath h \<and> heap_ok h' n p' \<and>
        others_same h p p' \<and> heap_get h' n p' = (heap_get h n p)(rid \<mapsto> row))
    else if length row + 22 \<le> PAGE_SIZE then
      (\<exists>rid' h' n' p'. update_heap rid t (h, p) = (Inr rid', h', p') \<and> hpath h' = hpath h \<and> heap_ok h' n' p' \<and>
        others_same h p p' \<and> row_added ((heap_get h n p)(rid := None)) rid' row (heap_get h' n' p'))
    else
      (\<exists>h' p'. update_heap rid t (h, p) = (Inl (Runtime_Error ''Tuple exceeds page size''), h', p') \<and>
        hpath h' = hpath h \<and> heap_ok h' n p' \<and> others_same h p p' \<and> heap_get h' n p' = (heap_get h n p)(rid := None))"
  by (rule update_heap_spec [OF assms])

text \<open>A heap with one row, the encoding of \<open>NULL\<close>.\<close>

lemma demo_row:
  "\<exists>rid h n p. heap_ok h n p \<and> heap_get h n p rid = Some [1, 0, 0]"
proof -
  have e: "encodeTuple [VNull] = Inr [1, 0, 0]" by code_simp
  have l: "length [1, 0, 0 :: byte] + 22 \<le> PAGE_SIZE" by (simp add: PAGE_SIZE_def)
  obtain rid h' n' p' where "heap_ok h' n' p'" "row_added (heap_get demo_heap 0 demo_pool) rid [1, 0, 0] (heap_get h' n' p')"
    using insert_heap_spec [OF demo_ok e l] by blast
  moreover from this(2) have "heap_get h' n' p' rid = Some [1, 0, 0]" by (simp add: row_added_def)
  ultimately show ?thesis by blast
qed

theorem heap_update_correct_witness:
  "\<exists>rid h n p h' p'. heap_get h n p rid = Some [1, 0, 0] \<and> update_heap rid [VNull] (h, p) = (Inr rid, h', p')"
proof -
  obtain rid h n p where r: "heap_ok h n p" "heap_get h n p rid = Some [1, 0, 0]" using demo_row by blast
  have e: "encodeTuple [VNull] = Inr [1, 0, 0]" by code_simp
  have le: "length [1, 0, 0 :: byte] \<le> length [1, 0, 0 :: byte]" by simp
  note u = heap_update_correct [OF r(1) e r(2), unfolded if_P [OF le]]
  then show ?thesis using r(2) by blast
qed

text \<open>
  C14. Erasing a row id reports whether a row was stored there and removes exactly that row.
\<close>

theorem heap_erase_correct:
  assumes "heap_ok h n p"
  shows "\<exists>h' p'. erase_heap rid (h, p) = (Inr (heap_get h n p rid \<noteq> None), h', p') \<and>
    heap_ok h' n p' \<and> others_same h p p' \<and> heap_get h' n p' = (heap_get h n p)(rid := None)"
  using erase_heap_spec [OF assms, of rid] by blast

theorem heap_erase_correct_witness:
  "\<exists>h' p'. erase_heap \<lparr>rid_page = 0, rid_slot = 0\<rparr> (demo_heap, demo_pool) = (Inr False, h', p')"
  using heap_erase_correct [OF demo_ok, of "\<lparr>rid_page = 0, rid_slot = 0\<rparr>"] by auto

text \<open>
  C12. A scan of a heap whose rows all decode delivers each stored row exactly once, decoded,
  in batches that are never empty, never larger than the batch size and, except the last,
  exactly that size; it leaves the heap's contents and other files alone.
\<close>

theorem heap_scan_correct:
  assumes "heap_ok h n p" "0 < bs" "\<And>rid b. heap_get h n p rid = Some b \<Longrightarrow> \<exists>t. decodeTuple b = Inr t"
  shows "\<exists>out h' p'. scanBatches bs (h, p) = (Inr (), out, h', p') \<and> distinct (map fst (concat out)) \<and>
    (\<forall>rid t. (rid, t) \<in> set (concat out) \<longleftrightarrow> (\<exists>b. heap_get h n p rid = Some b \<and> decodeTuple b = Inr t)) \<and>
    (\<forall>b\<in>set (butlast out). length b = bs) \<and> (\<forall>b\<in>set out. b \<noteq> [] \<and> length b \<le> bs) \<and>
    heap_ok h' n p' \<and> heap_get h' n p' = heap_get h n p \<and> others_same h p p'"
proof -
  have dec: "\<forall>(rid, b)\<in>set (stored h n p). \<exists>t. decodeTuple b = Inr t"
    using assms(3) by (auto simp: set_stored [OF assms(1)])
  obtain out h' p' where r: "scan_with decodeTuple bs (h, p) = (Inr (), out, h', p')"
    "concat out = decoded decodeTuple (stored h n p)" "\<forall>b\<in>set (butlast out). length b = bs"
    "\<forall>b\<in>set out. b \<noteq> [] \<and> length b \<le> bs" "heap_ok h' n p'" "others_same h p p'" "heap_get h' n p' = heap_get h n p"
    using scan_with_spec [OF assms(1,2) dec] by blast
  have keys: "map fst (concat out) = map fst (stored h n p)"
    using r(2) by (simp add: decoded_def case_prod_beta comp_def)
  have mem: "(rid, t) \<in> set (concat out) \<longleftrightarrow> (\<exists>b. heap_get h n p rid = Some b \<and> decodeTuple b = Inr t)" for rid t
  proof -
    have "(rid, t) \<in> set (concat out) \<longleftrightarrow> (\<exists>b. (rid, b) \<in> set (stored h n p) \<and> t = projr (decodeTuple b))"
      unfolding r(2) decoded_def by (auto simp: image_iff intro: bexI [of _ "(rid, _)"])
    also have "\<dots> \<longleftrightarrow> (\<exists>b. heap_get h n p rid = Some b \<and> t = projr (decodeTuple b))"
      by (simp add: set_stored [OF assms(1)])
    also have "\<dots> \<longleftrightarrow> (\<exists>b. heap_get h n p rid = Some b \<and> decodeTuple b = Inr t)"
      using assms(3) [of rid] by (metis sum.sel(2))
    finally show ?thesis .
  qed
  have "scanBatches bs (h, p) = (Inr (), out, h', p')" using r(1) assms(2) by (simp add: scanBatches_def)
  moreover have "distinct (map fst (concat out))" unfolding keys by (rule distinct_stored)
  ultimately show ?thesis using mem r(3-7) by blast
qed

theorem heap_scan_correct_witness:
  "\<exists>h' p'. scanBatches 2 (demo_heap, demo_pool) = (Inr (), [], h', p')"
proof -
  obtain out h' p' where "scanBatches 2 (demo_heap, demo_pool) = (Inr (), out, h', p')"
    and mem: "\<forall>rid t. (rid, t) \<in> set (concat out) \<longleftrightarrow>
        (\<exists>b. heap_get demo_heap 0 demo_pool rid = Some b \<and> decodeTuple b = Inr t)"
    and ne: "\<forall>b\<in>set out. b \<noteq> [] \<and> length b \<le> 2"
    using heap_scan_correct [OF demo_ok, of 2] by fastforce
  moreover have "out = []"
  proof (rule ccontr)
    assume "out \<noteq> []"
    then obtain b bs where "out = b # bs" "b \<noteq> []" using ne by (cases out) auto
    then obtain rid t where "(rid, t) \<in> set (concat out)" by (cases b) auto
    then show False using mem by (simp del: set_concat)
  qed
  ultimately show ?thesis by simp
qed

end
