(* ===== verification/Wal.thy ===== *)
theory Wal
  imports Buffer_Pool
begin

text \<open>
  The undo log (\<open>NativeWal\<close>, \<open>src/native_wal.h\<close> and \<open>src/native_wal.cpp\<close>) and the engine
  steps that drive it (\<open>beginWalTransaction\<close>, \<open>recordWalBefore\<close> and \<open>commitWalTransaction\<close> of
  \<open>src/native_engine.cpp\<close>; \<open>discardWalTransaction\<close>, which also empties the engine's caches, is in
  \<open>Engine_Store\<close>).

  The log is a file of the \<open>disk\<close>; a record is a type byte, the transaction id, the sizes of
  the path and the image, the existence byte, the path and the image, with the integers in
  little-endian order. Paths are relative to the database root and \<open>join\<close> makes them files
  of the disk; \<open>relativePath\<close> is the inverse on normalised paths below the root. Clock and
  sequence counter of \<open>begin\<close> are arguments. A file fails only when it cannot be opened: a write
  that fails halfway (\<open>Failed writing WAL record\<close>, \<open>Failed writing WAL file image\<close>) is not modelled as
  an error, only as a crash that leaves a torn record.

  The lemmas show that the log reads back as it was written even with a torn tail, what
  \<open>recover\<close> does to every file, and that a crash at any point of a logged transaction
  recovers the state before it, or after it when the commit record is complete.
\<close>

section \<open>Records and their bytes\<close>

record wal_image =
  existed :: bool
  image_bytes :: "byte list"

record wal_record =
  rec_type :: byte
  rec_txn :: nat
  rec_path :: string
  rec_existed :: bool
  rec_bytes :: "byte list"

definition kBegin :: byte where "kBegin = 66"
definition kFileBefore :: byte where "kFileBefore = 70"
definition kCommit :: byte where "kCommit = 67"

definition encode_record :: "wal_record \<Rightarrow> byte list" where
  "encode_record r =
     [rec_type r] @ le_encode 8 (rec_txn r) @ le_encode 4 (length (rec_path r)) @
     le_encode 8 (length (rec_bytes r)) @ [if rec_existed r then 1 else 0] @
     bytes_of_string (rec_path r) @ rec_bytes r"

text \<open>A read of exactly \<open>n\<close> bytes, which fails at the end of the file.\<close>

definition take_exact :: "nat \<Rightarrow> byte list \<Rightarrow> (byte list \<times> byte list) option" where
  "take_exact n bs = (if length bs < n then None else Some (take n bs, drop n bs))"

lemma take_exact_length: "take_exact n bs = Some (xs, ys) \<Longrightarrow> length ys \<le> length bs"
  by (auto simp: take_exact_def split: if_splits)

definition read_record :: "byte list \<Rightarrow> (wal_record \<times> byte list) option" where
  "read_record bs =
     Option.bind (take_exact 1 bs) (\<lambda>(ty, b0).
     Option.bind (take_exact 8 b0) (\<lambda>(id, b1).
     Option.bind (take_exact 4 b1) (\<lambda>(ps, b2).
     Option.bind (take_exact 8 b2) (\<lambda>(ds, b3).
     Option.bind (take_exact 1 b3) (\<lambda>(ex, b4).
     Option.bind (take_exact (le_decode ps) b4) (\<lambda>(pa, b5).
     Option.bind (take_exact (le_decode ds) b5) (\<lambda>(da, b6).
       Some (\<lparr>rec_type = hd ty, rec_txn = le_decode id, rec_path = string_of_bytes pa,
              rec_existed = (hd ex \<noteq> 0), rec_bytes = da\<rparr>, b6))))))))"

lemma read_record_shorter: "read_record bs = Some (r, rest) \<Longrightarrow> length rest < length bs"
  by (auto simp: read_record_def take_exact_def bind_eq_Some_conv split: if_splits)

function parse_log :: "byte list \<Rightarrow> wal_record list" where
  "parse_log bs = (case read_record bs of None \<Rightarrow> [] | Some (r, rest) \<Rightarrow> r # parse_log rest)"
  by pat_completeness auto
termination
  by (relation "measure length") (auto simp: read_record_shorter)

declare parse_log.simps [simp del]

section \<open>Logging\<close>

definition join :: "path \<Rightarrow> string \<Rightarrow> path" where
  "join root rel = root @ ''/'' @ rel"

definition relativePath :: "path \<Rightarrow> path \<Rightarrow> string" where
  "relativePath root p =
     (if take (length root + 1) p = root @ ''/'' then drop (length root + 1) p else p)"

definition walPath :: "path \<Rightarrow> path" where
  "walPath root = join root ''skibidi.wal''"

definition appendRecord :: "path \<Rightarrow> wal_record \<Rightarrow> disk \<Rightarrow> unit result \<times> disk" where
  "appendRecord root r d =
     (if \<not> writable d (walPath root) then (Inl (Runtime_Error (''Cannot open WAL: '' @ walPath root)), d)
      else let c = (case files d (walPath root) of None \<Rightarrow> [] | Some c \<Rightarrow> c)
           in (Inr (), d\<lparr>files := (files d)(walPath root \<mapsto> c @ encode_record r)\<rparr>))"

definition wal_begin :: "path \<Rightarrow> u64 \<Rightarrow> u64 \<Rightarrow> disk \<Rightarrow> nat result \<times> disk" where
  "wal_begin root stamp seqno d =
     (let tid = unat (stamp XOR seqno) in
      case appendRecord root \<lparr>rec_type = kBegin, rec_txn = tid, rec_path = [], rec_existed = False, rec_bytes = []\<rparr> d of
        (Inl e, d') \<Rightarrow> (Inl e, d')
      | (Inr _, d') \<Rightarrow> (Inr tid, d'))"

definition logBefore :: "path \<Rightarrow> nat \<Rightarrow> path \<Rightarrow> byte list option \<Rightarrow> disk \<Rightarrow> unit result \<times> disk" where
  "logBefore root tid p before d =
     appendRecord root \<lparr>rec_type = kFileBefore, rec_txn = tid, rec_path = relativePath root p,
       rec_existed = (before \<noteq> None), rec_bytes = (case before of None \<Rightarrow> [] | Some b \<Rightarrow> b)\<rparr> d"

definition wal_commit :: "path \<Rightarrow> nat \<Rightarrow> disk \<Rightarrow> unit result \<times> disk" where
  "wal_commit root tid d =
     appendRecord root \<lparr>rec_type = kCommit, rec_txn = tid, rec_path = [], rec_existed = False, rec_bytes = []\<rparr> d"

definition checkpoint :: "path \<Rightarrow> disk \<Rightarrow> disk" where
  "checkpoint root d = d\<lparr>files := (files d)(walPath root := None)\<rparr>"

section \<open>Recovery\<close>

record txn =
  committed :: bool
  beforeImages :: "(string \<times> wal_image) list"

definition note_record :: "wal_record \<Rightarrow> (nat \<times> txn) list \<Rightarrow> (nat \<times> txn) list" where
  "note_record r ts = omap_update (rec_txn r) (\<lambda>old.
     let t = (case old of None \<Rightarrow> \<lparr>committed = False, beforeImages = []\<rparr> | Some t \<Rightarrow> t)
     in if rec_type r = kCommit then t\<lparr>committed := True\<rparr>
        else if rec_type r = kFileBefore \<and> rec_path r \<noteq> []
        then t\<lparr>beforeImages := omap_update (rec_path r) (\<lambda>v. case v of
                 Some im \<Rightarrow> im
               | None \<Rightarrow> \<lparr>existed = rec_existed r, image_bytes = rec_bytes r\<rparr>) (beforeImages t)\<rparr>
        else t) ts"

definition restoreFile :: "path \<Rightarrow> wal_image \<Rightarrow> disk \<Rightarrow> unit result \<times> disk" where
  "restoreFile p im d =
     (if \<not> existed im then (Inr (), d\<lparr>files := (files d)(p := None)\<rparr>)
      else if \<not> writable d p then (Inl (Runtime_Error (''Cannot restore WAL file image: '' @ p)), d)
      else (Inr (), d\<lparr>files := (files d)(p \<mapsto> image_bytes im)\<rparr>))"

fun restore_images :: "path \<Rightarrow> (string \<times> wal_image) list \<Rightarrow> disk \<Rightarrow> unit result \<times> disk" where
  "restore_images root [] d = (Inr (), d)"
| "restore_images root ((p, im) # ims) d = (case restoreFile (join root p) im d of
       (Inl e, d') \<Rightarrow> (Inl e, d')
     | (Inr _, d') \<Rightarrow> restore_images root ims d')"

fun restore_txns :: "path \<Rightarrow> (nat \<times> txn) list \<Rightarrow> disk \<Rightarrow> unit result \<times> disk" where
  "restore_txns root [] d = (Inr (), d)"
| "restore_txns root ((tid, t) # ts) d =
     (if committed t then restore_txns root ts d
      else case restore_images root (rev (beforeImages t)) d of
          (Inl e, d') \<Rightarrow> (Inl e, d')
        | (Inr _, d') \<Rightarrow> restore_txns root ts d')"

definition recover :: "path \<Rightarrow> disk \<Rightarrow> unit result \<times> disk" where
  "recover root d = (case files d (walPath root) of
       None \<Rightarrow> (Inr (), d)
     | Some log \<Rightarrow>
         (case restore_txns root (fold note_record (parse_log log) []) d of
            (Inl e, d') \<Rightarrow> (Inl e, d')
          | (Inr _, d') \<Rightarrow> (Inr (), checkpoint root d')))"

section \<open>The engine's transaction steps\<close>

record wal_session =
  walTransactionId :: nat
  walLoggedFiles :: "path set"

definition beginWalTransaction :: "path \<Rightarrow> u64 \<Rightarrow> u64 \<Rightarrow> wal_session \<times> disk \<Rightarrow> unit result \<times> wal_session \<times> disk" where
  "beginWalTransaction root stamp seqno st = (case st of (w, d) \<Rightarrow>
     if walTransactionId w \<noteq> 0 then (Inr (), w, d)
     else case wal_begin root stamp seqno d of
         (Inl e, d') \<Rightarrow> (Inl e, w, d')
       | (Inr tid, d') \<Rightarrow> (Inr (), \<lparr>walTransactionId = tid, walLoggedFiles = {}\<rparr>, d'))"

definition recordWalBefore :: "path \<Rightarrow> path \<Rightarrow> wal_session \<times> disk \<Rightarrow> unit result \<times> wal_session \<times> disk" where
  "recordWalBefore root p st = (case st of (w, d) \<Rightarrow>
     if walTransactionId w = 0 \<or> p \<in> walLoggedFiles w then (Inr (), w, d)
     else case logBefore root (walTransactionId w) p (files d p) d of
         (r, d') \<Rightarrow> (r, w\<lparr>walLoggedFiles := insert p (walLoggedFiles w)\<rparr>, d'))"

definition commitWalTransaction :: "path \<Rightarrow> wal_session \<times> disk \<Rightarrow> unit result \<times> wal_session \<times> disk" where
  "commitWalTransaction root st = (case st of (w, d) \<Rightarrow>
     if walTransactionId w = 0 then (Inr (), w, d)
     else case wal_commit root (walTransactionId w) d of
         (Inl e, d') \<Rightarrow> (Inl e, w, d')
       | (Inr _, d') \<Rightarrow> (Inr (), \<lparr>walTransactionId = 0, walLoggedFiles = {}\<rparr>, d'))"

section \<open>The log reads back\<close>

definition record_ok :: "wal_record \<Rightarrow> bool" where
  "record_ok r \<longleftrightarrow> rec_txn r < 256 ^ 8 \<and> length (rec_path r) < 256 ^ 4 \<and> length (rec_bytes r) < 256 ^ 8"

lemma take_exact_append [simp]: "n = length xs \<Longrightarrow> take_exact n (xs @ ys) = Some (xs, ys)"
  by (simp add: take_exact_def)

lemma take_exact_Cons [simp]: "take_exact (Suc 0) (x # ys) = Some ([x], ys)"
  by (simp add: take_exact_def)

lemma read_record_encode:
  assumes "record_ok r"
  shows "read_record (encode_record r @ bs) = Some (r, bs)"
  using assms
  by (simp add: read_record_def encode_record_def record_ok_def codec_simps)

lemma take_exact_mono: "take_exact n xs = Some (a, b) \<Longrightarrow> take_exact n (xs @ ys) = Some (a, b @ ys)"
  by (auto simp: take_exact_def split: if_splits)

text \<open>Reading a record does not depend on what follows it.\<close>

lemma read_record_mono:
  assumes "read_record xs = Some (r, rest)"
  shows "read_record (xs @ ys) = Some (r, rest @ ys)"
proof -
  obtain ty b0 id b1 ps b2 ds b3 ex b4 pa b5 da b6 where eqs: "take_exact 1 xs = Some (ty, b0)"
    "take_exact 8 b0 = Some (id, b1)" "take_exact 4 b1 = Some (ps, b2)" "take_exact 8 b2 = Some (ds, b3)"
    "take_exact 1 b3 = Some (ex, b4)" "take_exact (le_decode ps) b4 = Some (pa, b5)"
    "take_exact (le_decode ds) b5 = Some (da, b6)" and
    r: "r = \<lparr>rec_type = hd ty, rec_txn = le_decode id, rec_path = string_of_bytes pa,
              rec_existed = (hd ex \<noteq> 0), rec_bytes = da\<rparr>" "rest = b6"
    using assms unfolding read_record_def by (auto simp: bind_eq_Some_conv simp del: One_nat_def)
  show ?thesis unfolding read_record_def r
    by (simp add: eqs [THEN take_exact_mono] del: One_nat_def)
qed

lemma read_record_torn:
  assumes "record_ok r" "k < length (encode_record r)"
  shows "read_record (take k (encode_record r)) = None"
proof (rule ccontr)
  assume "read_record (take k (encode_record r)) \<noteq> None"
  then obtain r' rest where "read_record (take k (encode_record r)) = Some (r', rest)" by auto
  from read_record_mono [OF this, of "drop k (encode_record r)"]
  have "rest @ drop k (encode_record r) = []" using read_record_encode [OF assms(1), of "[]"] by simp
  then show False using assms(2) by simp
qed

lemma parse_log_append:
  assumes "\<forall>r\<in>set rs. record_ok r"
  shows "parse_log (concat (map encode_record rs) @ tail) = rs @ parse_log tail"
  using assms
proof (induction rs)
  case (Cons r rs)
  then show ?case
    using read_record_encode [of r "concat (map encode_record rs) @ tail"]
    by (subst parse_log.simps) simp
qed simp

lemma parse_log_torn:
  assumes "record_ok r" "k < length (encode_record r)"
  shows "parse_log (take k (encode_record r)) = []"
  using read_record_torn [OF assms] by (subst parse_log.simps) simp

lemma parse_log_Nil [simp]: "parse_log [] = []"
  by (subst parse_log.simps) (simp add: read_record_def take_exact_def)

section \<open>What recovery does to the files\<close>

lemma join_inject [simp]: "join root g = join root g' \<longleftrightarrow> g = g'"
  by (simp add: join_def)

definition image_content :: "wal_image \<Rightarrow> byte list option" where
  "image_content im = (if existed im then Some (image_bytes im) else None)"

lemma restoreFile_files:
  "\<forall>p. writable d p \<Longrightarrow> restoreFile p im d = (Inr (), d\<lparr>files := (files d)(p := image_content im)\<rparr>)"
  by (simp add: restoreFile_def image_content_def)

lemma restore_images_files:
  assumes "\<forall>p. writable d p" "distinct (map fst ims)"
  shows "\<exists>d'. restore_images root ims d = (Inr (), d') \<and> writable d' = writable d \<and>
    (\<forall>g. files d' (join root g) = (case map_of ims g of None \<Rightarrow> files d (join root g) | Some im \<Rightarrow> image_content im)) \<and>
    (\<forall>p. (\<forall>g. p \<noteq> join root g) \<longrightarrow> files d' p = files d p)"
  using assms
proof (induction ims arbitrary: d)
  case (Cons a ims)
  obtain g im where a: "a = (g, im)" by (cases a)
  let ?d = "d\<lparr>files := (files d)(join root g := image_content im)\<rparr>"
  have w: "\<forall>p. writable ?d p" and dist: "distinct (map fst ims)" using Cons.prems by simp_all
  obtain d' where d': "restore_images root ims ?d = (Inr (), d')" "writable d' = writable ?d"
    "\<forall>g. files d' (join root g) = (case map_of ims g of None \<Rightarrow> files ?d (join root g) | Some im \<Rightarrow> image_content im)"
    "\<forall>p. (\<forall>g. p \<noteq> join root g) \<longrightarrow> files d' p = files ?d p"
    using Cons.IH [OF w dist] by blast
  have "map_of ims g = None" using Cons.prems(2) a by (simp add: map_of_eq_None_iff)
  then have "files d' (join root g') = (case map_of (a # ims) g' of None \<Rightarrow> files d (join root g') | Some im \<Rightarrow> image_content im)" for g'
    using d'(3) a by (auto split: option.splits)
  then show ?case using d' a restoreFile_files [OF Cons.prems(1)] by auto
qed simp

text \<open>All records of the log belong to one transaction.\<close>

definition txn_of :: "wal_record list \<Rightarrow> txn \<Rightarrow> txn \<Rightarrow> bool" where
  "txn_of rs t t' \<longleftrightarrow>
     (committed t' \<longleftrightarrow> committed t \<or> (\<exists>r\<in>set rs. rec_type r = kCommit)) \<and> omap_ok (beforeImages t') \<and>
     (\<forall>g. map_of (beforeImages t') g = (case map_of (beforeImages t) g of Some im \<Rightarrow> Some im
        | None \<Rightarrow> map_option (\<lambda>r. \<lparr>existed = rec_existed r, image_bytes = rec_bytes r\<rparr>)
            (find (\<lambda>r. rec_type r = kFileBefore \<and> rec_path r = g \<and> g \<noteq> []) rs)))"

lemma kinds_distinct [simp]: "kCommit \<noteq> kFileBefore" "kFileBefore \<noteq> kCommit" "kBegin \<noteq> kCommit" "kBegin \<noteq> kFileBefore"
  "kCommit \<noteq> kBegin" "kFileBefore \<noteq> kBegin"
  by (simp_all add: kCommit_def kFileBefore_def kBegin_def)

lemma fold_note_single:
  assumes "\<forall>r\<in>set rs. rec_txn r = tid" "omap_ok (beforeImages t)"
  shows "\<exists>t'. fold note_record rs [(tid, t)] = [(tid, t')] \<and> txn_of rs t t'"
  using assms
proof (induction rs arbitrary: t)
  case Nil
  then show ?case by (auto simp: txn_of_def split: option.splits)
next
  case (Cons r rs)
  define t1 where "t1 = snd (hd (note_record r [(tid, t)]))"
  have n: "note_record r [(tid, t)] = [(tid, t1)]" using Cons.prems(1) by (simp add: t1_def note_record_def)
  have ok1: "omap_ok (beforeImages t1)"
    using Cons.prems by (auto simp: t1_def note_record_def Let_def)
  obtain t' where t': "fold note_record rs [(tid, t1)] = [(tid, t')]" "txn_of rs t1 t'"
    using Cons.IH [OF _ ok1] Cons.prems(1) by auto
  have com: "committed t1 \<longleftrightarrow> committed t \<or> rec_type r = kCommit"
    using Cons.prems(1) by (simp add: t1_def note_record_def Let_def)
  have "map_of (beforeImages t1) g = (case map_of (beforeImages t) g of Some im \<Rightarrow> Some im
      | None \<Rightarrow> if rec_type r = kFileBefore \<and> rec_path r = g \<and> g \<noteq> []
          then Some \<lparr>existed = rec_existed r, image_bytes = rec_bytes r\<rparr> else None)" for g
    using Cons.prems by (auto simp: t1_def note_record_def Let_def map_of_omap_update split: option.splits)
  then have "txn_of (r # rs) t t'"
    using t'(2) com unfolding txn_of_def by (auto split: option.splits)
  then show ?case using n t'(1) by auto
qed

section \<open>A logged transaction\<close>

text \<open>
  The steps between \<open>beginWalTransaction\<close> and the commit: a file is recorded
  (\<open>recordWalBefore\<close>), or a recorded file changes in any way, deletion included. The engine
  records a file before its first change. The side conditions are the widths of the size
  fields of a record.
\<close>

inductive logged_run :: "path \<Rightarrow> wal_session \<times> disk \<Rightarrow> wal_session \<times> disk \<Rightarrow> bool" for root s where
  start: "logged_run root s s"
| record_file: "logged_run root s (w, d) \<Longrightarrow> g \<noteq> [] \<Longrightarrow> join root g \<noteq> walPath root \<Longrightarrow>
    length g < 256 ^ 4 \<Longrightarrow> (\<forall>c. files d (join root g) = Some c \<longrightarrow> length c < 256 ^ 8) \<Longrightarrow>
    recordWalBefore root (join root g) (w, d) = (Inr (), st) \<Longrightarrow> logged_run root s st"
| change: "logged_run root s (w, d) \<Longrightarrow> p \<in> walLoggedFiles w \<Longrightarrow>
    logged_run root s (w, d\<lparr>files := (files d)(p := c)\<rparr>)"

definition begin_record :: "nat \<Rightarrow> wal_record" where
  "begin_record tid = \<lparr>rec_type = kBegin, rec_txn = tid, rec_path = [], rec_existed = False, rec_bytes = []\<rparr>"

definition commit_record :: "nat \<Rightarrow> wal_record" where
  "commit_record tid = \<lparr>rec_type = kCommit, rec_txn = tid, rec_path = [], rec_existed = False, rec_bytes = []\<rparr>"

definition record_content :: "wal_record \<Rightarrow> byte list option" where
  "record_content r = (if rec_existed r then Some (rec_bytes r) else None)"

text \<open>The before-image records of the log so far, and what they say about the initial disk.\<close>

definition log_inv :: "path \<Rightarrow> nat \<Rightarrow> disk \<Rightarrow> wal_session \<Rightarrow> disk \<Rightarrow> wal_record list \<Rightarrow> bool" where
  "log_inv root tid d0 w d frs \<longleftrightarrow>
     walTransactionId w = tid \<and> writable d = writable d0 \<and>
     files d (walPath root) = Some (concat (map encode_record (begin_record tid # frs))) \<and>
     (\<forall>r\<in>set (begin_record tid # frs). record_ok r \<and> rec_txn r = tid) \<and>
     (\<forall>r\<in>set frs. rec_type r = kFileBefore \<and> rec_path r \<noteq> [] \<and>
        record_content r = files d0 (join root (rec_path r))) \<and>
     walLoggedFiles w = join root ` rec_path ` set frs \<and> walPath root \<notin> walLoggedFiles w \<and>
     (\<forall>p. p \<notin> walLoggedFiles w \<longrightarrow> p \<noteq> walPath root \<longrightarrow> files d p = files d0 p)"

lemma relativePath_join [simp]: "relativePath root (join root g) = g"
  by (simp add: relativePath_def join_def)

lemma logged_run_inv:
  assumes "logged_run root (w0, d1) (w, d)" "log_inv root tid d0 w0 d1 []" "tid \<noteq> 0" "\<forall>p. writable d0 p"
  shows "\<exists>frs. log_inv root tid d0 w d frs"
  using assms(1)
proof (induction "(w, d)" arbitrary: w d rule: logged_run.induct)
  case start
  then show ?case using assms(2) by blast
next
  case (record_file w d g w' d')
  then obtain frs where inv: "log_inv root tid d0 w d frs" by blast
  let ?p = "join root g"
  show ?case
  proof (cases "?p \<in> walLoggedFiles w")
    case True
    then show ?thesis using record_file inv by (auto simp: recordWalBefore_def)
  next
    case False
    define r where "r = \<lparr>rec_type = kFileBefore, rec_txn = tid, rec_path = g,
       rec_existed = (files d ?p \<noteq> None), rec_bytes = (case files d ?p of None \<Rightarrow> [] | Some b \<Rightarrow> b)\<rparr>"
    have wr: "writable d (walPath root)" "tid = walTransactionId w" using inv assms(4) by (simp_all add: log_inv_def)
    have w': "w' = w\<lparr>walLoggedFiles := insert ?p (walLoggedFiles w)\<rparr>"
      and d': "d' = d\<lparr>files := (files d)(walPath root \<mapsto> concat (map encode_record (begin_record tid # frs @ [r])))\<rparr>"
      using record_file(7) False wr assms(3) inv
      by (auto simp: recordWalBefore_def logBefore_def appendRecord_def log_inv_def r_def Let_def)
    have "tid < 256 ^ 8" using inv by (simp add: log_inv_def begin_record_def record_ok_def)
    then have "record_ok r" using record_file(5,6) by (auto simp: record_ok_def r_def split: option.splits)
    moreover have "record_content r = files d0 ?p"
      using inv False record_file(4) by (auto simp: record_content_def r_def log_inv_def split: option.splits)
    ultimately have "log_inv root tid d0 w' d' (frs @ [r])"
      using inv w' d' record_file(3,4) by (auto simp: log_inv_def r_def)
    then show ?thesis by blast
  qed
next
  case (change w d p c)
  then obtain frs where "log_inv root tid d0 w d frs" by blast
  then have "log_inv root tid d0 w (d\<lparr>files := (files d)(p := c)\<rparr>) frs" using change(3) by (auto simp: log_inv_def)
  then show ?case by blast
qed

lemma map_of_rev_distinct: "distinct (map fst xs) \<Longrightarrow> map_of (rev xs) = map_of xs"
proof
  fix k assume d: "distinct (map fst xs)"
  then have "map_of (rev xs) k = Some v \<longleftrightarrow> map_of xs k = Some v" for v by (simp add: rev_map [symmetric])
  then show "map_of (rev xs) k = map_of xs k" by (metis not_None_eq)
qed

text \<open>Recovery of a log whose readable part is the begin record and the before images.\<close>

lemma recover_uncommitted:
  assumes inv: "log_inv root tid d0 w d frs" and wr: "\<forall>p. writable d0 p" and d0: "files d0 (walPath root) = None"
    and log: "parse_log L = begin_record tid # frs"
  shows "\<exists>d'. recover root (d\<lparr>files := (files d)(walPath root \<mapsto> L)\<rparr>) = (Inr (), d') \<and> files d' = files d0"
proof -
  let ?d = "d\<lparr>files := (files d)(walPath root \<mapsto> L)\<rparr>"
  let ?t = "\<lparr>committed = False, beforeImages = []\<rparr>"
  have ids: "\<forall>r\<in>set frs. rec_txn r = tid" using inv by (simp add: log_inv_def)
  obtain t' where t': "fold note_record frs [(tid, ?t)] = [(tid, t')]" "txn_of frs ?t t'"
    using fold_note_single [OF ids, of ?t] by auto
  have "note_record (begin_record tid) [] = [(tid, ?t)]" by (simp add: note_record_def begin_record_def)
  then have fold: "fold note_record (parse_log L) [] = [(tid, t')]" using log t'(1) by simp
  have nc: "\<not> committed t'" using t'(2) inv by (auto simp: txn_of_def log_inv_def)
  have dist: "distinct (map fst (beforeImages t'))" using t'(2) omap_distinct [of "beforeImages t'"] by (simp add: txn_of_def)
  then have dr: "distinct (map fst (rev (beforeImages t')))" by (simp add: rev_map [symmetric])
  have wrd: "\<forall>p. writable ?d p" using inv wr by (simp add: log_inv_def)
  obtain d2 where d2: "restore_images root (rev (beforeImages t')) ?d = (Inr (), d2)"
    "\<forall>g. files d2 (join root g) = (case map_of (rev (beforeImages t')) g of None \<Rightarrow> files ?d (join root g) | Some im \<Rightarrow> image_content im)"
    "\<forall>p. (\<forall>g. p \<noteq> join root g) \<longrightarrow> files d2 p = files ?d p"
    using restore_images_files [OF wrd dr] by blast
  have rec: "recover root ?d = (Inr (), checkpoint root d2)" using fold nc d2(1) by (simp add: recover_def)
  have "files d2 p = files d0 p" if p: "p \<noteq> walPath root" for p
  proof (cases "\<exists>g. p = join root g")
    case True
    then obtain g where g: "p = join root g" by blast
    let ?P = "\<lambda>r. rec_type r = kFileBefore \<and> rec_path r = g \<and> g \<noteq> []"
    have im: "map_of (rev (beforeImages t')) g = map_option (\<lambda>r. \<lparr>existed = rec_existed r, image_bytes = rec_bytes r\<rparr>) (find ?P frs)"
      using t'(2) by (simp add: map_of_rev_distinct [OF dist] txn_of_def)
    show ?thesis
    proof (cases "find ?P frs")
      case None
      then have "\<forall>r\<in>set frs. rec_path r \<noteq> g" using inv by (auto simp: find_None_iff log_inv_def)
      then have "p \<notin> walLoggedFiles w" using inv g by (auto simp: log_inv_def)
      then have "files d p = files d0 p" using inv p by (auto simp: log_inv_def)
      then show ?thesis using d2(2) im None g p by simp
    next
      case (Some r)
      then have r: "r \<in> set frs" "rec_path r = g" by (auto simp: find_Some_iff)
      then have "record_content r = files d0 p" using inv g by (auto simp: log_inv_def)
      then show ?thesis using d2(2) im Some g by (auto simp: image_content_def record_content_def)
    qed
  next
    case False
    then have "p \<notin> walLoggedFiles w" using inv by (auto simp: log_inv_def)
    then have "files d p = files d0 p" using inv p by (auto simp: log_inv_def)
    then show ?thesis using d2(3) False p by auto
  qed
  then have "files (checkpoint root d2) = files d0" using d0 by (auto simp: checkpoint_def fun_eq_iff)
  then show ?thesis using rec by blast
qed

text \<open>The log right after \<open>beginWalTransaction\<close> on a checkpointed database.\<close>

lemma begin_inv:
  assumes "beginWalTransaction root stamp seqno (w0, d0) = (Inr (), w1, d1)" "walTransactionId w0 = 0"
    and "files d0 (walPath root) = None" "\<forall>p. writable d0 p"
  shows "log_inv root (unat (stamp XOR seqno)) d0 w1 d1 []"
proof -
  let ?tid = "unat (stamp XOR seqno)"
  have "?tid < 256 ^ 8" using unsigned_less [of "stamp XOR seqno", where ?'a = nat] by simp
  then have "record_ok (begin_record ?tid)" by (simp add: record_ok_def begin_record_def)
  then show ?thesis using assms
    by (auto simp: beginWalTransaction_def wal_begin_def appendRecord_def log_inv_def begin_record_def Let_def)
qed

lemma parse_log_inv:
  assumes "log_inv root tid d0 w d frs" "record_ok r" "k < length (encode_record r)" "files d (walPath root) = Some c"
  shows "parse_log (c @ take k (encode_record r)) = begin_record tid # frs"
proof -
  have "c = concat (map encode_record (begin_record tid # frs))" "\<forall>r\<in>set (begin_record tid # frs). record_ok r"
    using assms(1,4) by (auto simp: log_inv_def)
  then show ?thesis
    using parse_log_append [of "begin_record tid # frs" "take k (encode_record r)"] parse_log_torn [OF assms(2,3)] by simp
qed

section \<open>Properties\<close>

text \<open>
  C18. Reading the log back gives exactly the records written, and a record cut off by a crash
  at any byte is ignored.
\<close>

theorem wal_log_roundtrip:
  assumes "\<forall>r\<in>set rs. record_ok r" "record_ok r" "k < length (encode_record r)"
  shows "parse_log (concat (map encode_record rs) @ take k (encode_record r)) = rs"
  using parse_log_append [OF assms(1)] parse_log_torn [OF assms(2,3)] by simp

theorem wal_log_roundtrip_witness:
  "parse_log (encode_record (begin_record 5) @ take 3 (encode_record (commit_record 5))) = [begin_record 5]"
  using wal_log_roundtrip [of "[begin_record 5]" "commit_record 5" 3]
  by (simp add: record_ok_def begin_record_def commit_record_def encode_record_def)

text \<open>
  C7. A transaction that crashes at any point before its commit record is complete, even in
  the middle of writing a log record, is undone: recovery gives back exactly the files there
  were when the transaction began, the log removed. (A record cut at byte zero is no
  record: the files that \<open>discardWalTransaction\<close> recovers on an exception.)
\<close>

theorem wal_crash_recovery:
  assumes "\<forall>p. writable d0 p" "files d0 (walPath root) = None" "walTransactionId w0 = 0"
    and "beginWalTransaction root stamp seqno (w0, d0) = (Inr (), w1, d1)" "stamp XOR seqno \<noteq> 0"
    and "logged_run root (w1, d1) (w, d)" "files d (walPath root) = Some c"
    and "record_ok r" "k < length (encode_record r)"
  shows "\<exists>d'. recover root (d\<lparr>files := (files d)(walPath root \<mapsto> c @ take k (encode_record r))\<rparr>) = (Inr (), d') \<and>
    files d' = files d0"
proof -
  let ?tid = "unat (stamp XOR seqno)"
  have "?tid \<noteq> 0" using assms(5) by (simp add: unat_eq_0)
  then obtain frs where inv: "log_inv root ?tid d0 w d frs"
    using logged_run_inv [OF assms(6) begin_inv [OF assms(4,3,2,1)]] assms(1) by blast
  show ?thesis
    by (rule recover_uncommitted [OF inv assms(1,2) parse_log_inv [OF inv assms(8,9,7)]])
qed

text \<open>A database with one table file, which a transaction changes.\<close>

definition demo_disk :: disk where
  "demo_disk = \<lparr>files = [''/db/t.heap'' \<mapsto> [1, 2, 3]], writable = (\<lambda>p. True)\<rparr>"

definition idle_session :: wal_session where
  "idle_session = \<lparr>walTransactionId = 0, walLoggedFiles = {}\<rparr>"

lemma demo_disk_facts: "\<forall>p. writable demo_disk p" "files demo_disk (walPath ''/db'') = None"
  "walTransactionId idle_session = 0"
  by (simp_all add: demo_disk_def walPath_def join_def idle_session_def)

lemma demo_begin:
  "\<exists>w d c. beginWalTransaction ''/db'' 9 1 (idle_session, demo_disk) = (Inr (), w, d) \<and>
     files d (walPath ''/db'') = Some c \<and> walTransactionId w = 8"
  by (auto simp: beginWalTransaction_def idle_session_def wal_begin_def appendRecord_def demo_disk_def Let_def)

theorem wal_crash_recovery_witness:
  "\<exists>d c d'. files d (walPath ''/db'') = Some c \<and>
     recover ''/db'' (d\<lparr>files := (files d)(walPath ''/db'' \<mapsto> c @ take 0 (encode_record (commit_record 8)))\<rparr>) = (Inr (), d') \<and>
     files d' = files demo_disk"
proof -
  obtain w d c where b: "beginWalTransaction ''/db'' 9 1 (idle_session, demo_disk) = (Inr (), w, d)"
    "files d (walPath ''/db'') = Some c" using demo_begin by blast
  have nz: "(9 :: u64) XOR 1 \<noteq> 0" by simp
  have r: "record_ok (commit_record 8)" "0 < length (encode_record (commit_record 8))"
    by (simp_all add: record_ok_def commit_record_def encode_record_def)
  from wal_crash_recovery [OF demo_disk_facts b(1) nz logged_run.start b(2) r] b(2) show ?thesis by blast
qed

text \<open>
  C11. Once the commit record is written, recovery keeps every file as the transaction left it
  and only removes the log.
\<close>

theorem wal_commit_durable:
  assumes "\<forall>p. writable d0 p" "files d0 (walPath root) = None" "walTransactionId w0 = 0"
    and "beginWalTransaction root stamp seqno (w0, d0) = (Inr (), w1, d1)" "stamp XOR seqno \<noteq> 0"
    and "logged_run root (w1, d1) (w, d)" "commitWalTransaction root (w, d) = (Inr (), w', d')"
  shows "\<exists>d''. recover root d' = (Inr (), d'') \<and> files d'' = (files d)(walPath root := None) \<and>
    walTransactionId w' = 0"
proof -
  let ?tid = "unat (stamp XOR seqno)"
  have nz: "?tid \<noteq> 0" using assms(5) by (simp add: unat_eq_0)
  then obtain frs where inv: "log_inv root ?tid d0 w d frs"
    using logged_run_inv [OF assms(6) begin_inv [OF assms(4,3,2,1)]] assms(1) by blast
  let ?rs = "begin_record ?tid # frs @ [commit_record ?tid]"
  have d': "files d' = (files d)(walPath root \<mapsto> concat (map encode_record ?rs))" "walTransactionId w' = 0"
    using assms(7) inv nz assms(1)
    by (auto simp: commitWalTransaction_def wal_commit_def appendRecord_def log_inv_def commit_record_def Let_def)
  have "record_ok (commit_record ?tid)" using inv by (simp add: log_inv_def record_ok_def commit_record_def begin_record_def)
  then have ok: "\<forall>r\<in>set ?rs. record_ok r" using inv by (simp add: log_inv_def)
  then have log: "parse_log (concat (map encode_record ?rs)) = ?rs"
    using parse_log_append [of ?rs "[]"] by simp
  have ids: "\<forall>r\<in>set (frs @ [commit_record ?tid]). rec_txn r = ?tid"
    using inv by (auto simp: log_inv_def commit_record_def)
  let ?t = "\<lparr>committed = False, beforeImages = []\<rparr>"
  obtain t' where t': "fold note_record (frs @ [commit_record ?tid]) [(?tid, ?t)] = [(?tid, t')]"
    "txn_of (frs @ [commit_record ?tid]) ?t t'"
    using fold_note_single [OF ids, of ?t] by auto
  have "note_record (begin_record ?tid) [] = [(?tid, ?t)]" by (simp add: note_record_def begin_record_def)
  then have "fold note_record ?rs [] = [(?tid, t')]" using t'(1) by simp
  moreover have "committed t'" using t'(2) by (simp add: txn_of_def commit_record_def)
  ultimately have "recover root d' = (Inr (), checkpoint root d')"
    using d'(1) log by (simp add: recover_def)
  moreover have "files (checkpoint root d') = (files d)(walPath root := None)" using d'(1) by (simp add: checkpoint_def)
  ultimately show ?thesis using d'(2) by blast
qed

theorem wal_commit_durable_witness:
  "\<exists>w d w' d' d''. commitWalTransaction ''/db'' (w, d) = (Inr (), w', d') \<and>
     recover ''/db'' d' = (Inr (), d'') \<and> files d'' = (files d)(walPath ''/db'' := None)"
proof -
  obtain w d c where b: "beginWalTransaction ''/db'' 9 1 (idle_session, demo_disk) = (Inr (), w, d)"
    "walTransactionId w = 8" using demo_begin by blast
  have nz: "(9 :: u64) XOR 1 \<noteq> 0" by simp
  have "writable d (walPath ''/db'')"
    using b(1) by (auto simp: beginWalTransaction_def idle_session_def wal_begin_def appendRecord_def demo_disk_def Let_def)
  then obtain w' d' where c: "commitWalTransaction ''/db'' (w, d) = (Inr (), w', d')"
    using b(2) by (auto simp: commitWalTransaction_def wal_commit_def appendRecord_def Let_def)
  from wal_commit_durable [OF demo_disk_facts b(1) nz logged_run.start c] c show ?thesis by blast
qed

end
