(* ===== verification/Lock_Manager.thy ===== *)
theory Lock_Manager
  imports Skibidi_Prelude
begin

text \<open>
  The in-process lock registry (\<open>NativeLockManager\<close>, \<open>src/native_lock.h\<close> and
  \<open>src/native_lock.cpp\<close>). \<open>acquire_plan\<close> is what \<open>acquireAll\<close> computes before it locks
  anything: the requests sorted by resource, empty resources dropped, duplicates merged with
  the stronger mode. Locking the plan one resource after the other, releasing all guards at
  once and starting another \<open>acquireAll\<close> are the steps of a system of threads
  (\<open>lock_step\<close>); a thread waits by having no step. A \<open>std::shared_mutex\<close> is described by who
  holds it in which mode.

  The lemmas show that the plan grants what was requested whatever order \<open>std::sort\<close> leaves
  equal resources in, that the steps keep readers and writers apart, and that a system whose
  threads lock only through \<open>acquireAll\<close> cannot deadlock. Two things are taken as given: a
  \<open>std::shared_mutex\<close> excludes as documented (\<open>grantable\<close>), and a thread starts an \<open>acquireAll\<close>
  only when it holds nothing, as each statement of an engine does outside a transaction; a
  transaction takes the lock on its database and its statements take none. A thread that
  keeps a transaction of one engine open while it uses another engine is outside the system.
\<close>

datatype lock_mode = Shared | Exclusive

record lock_request =
  resource :: string
  mode :: lock_mode

section \<open>The plan\<close>

definition dedup_step :: "lock_request list \<Rightarrow> lock_request \<Rightarrow> lock_request list" where
  "dedup_step deduped request =
     (if resource request = [] then deduped
      else if deduped \<noteq> [] \<and> resource (last deduped) = resource request
      then if mode request = Exclusive
           then butlast deduped @ [(last deduped)\<lparr>mode := Exclusive\<rparr>] else deduped
      else deduped @ [request])"

definition acquire_plan :: "lock_request list \<Rightarrow> lock_request list" where
  "acquire_plan requests = foldl dedup_step [] (sort_key resource requests)"

text \<open>A mode strong enough for every request of a resource, and no stronger.\<close>

definition wanted :: "lock_request list \<Rightarrow> string \<Rightarrow> lock_mode option" where
  "wanted rs x =
     (if x = [] \<or> x \<notin> resource ` set rs then None
      else if \<exists>r\<in>set rs. resource r = x \<and> mode r = Exclusive then Some Exclusive else Some Shared)"

definition plan_of :: "lock_request list \<Rightarrow> lock_request list \<Rightarrow> bool" where
  "plan_of rs plan \<longleftrightarrow> sorted_wrt (<) (map resource plan) \<and>
     (\<forall>x m. \<lparr>resource = x, mode = m\<rparr> \<in> set plan \<longleftrightarrow> wanted rs x = Some m)"

lemma plan_resources: "plan_of rs plan \<Longrightarrow> resource ` set plan = resource ` set rs - {[]}"
proof (intro set_eqI iffI)
  fix x assume p: "plan_of rs plan"
  show "x \<in> resource ` set rs - {[]}" if x: "x \<in> resource ` set plan"
  proof -
    obtain r where r: "r \<in> set plan" "resource r = x" using x by blast
    have "r = \<lparr>resource = x, mode = mode r\<rparr>" using r(2) by (cases r) simp
    with r(1) have "\<lparr>resource = x, mode = mode r\<rparr> \<in> set plan" by metis
    then show ?thesis using p by (auto simp: plan_of_def wanted_def split: if_splits)
  qed
  show "x \<in> resource ` set plan" if x: "x \<in> resource ` set rs - {[]}"
  proof -
    have "wanted rs x \<noteq> None" using x by (auto simp: wanted_def)
    then obtain m where "wanted rs x = Some m" by blast
    then show ?thesis using p by (force simp: plan_of_def)
  qed
qed

lemma request_eq: "r = \<lparr>resource = resource r, mode = mode r\<rparr>"
  by (cases r) simp

lemma mode_cases: "m = Exclusive \<or> m = Shared"
  by (cases m) simp_all

lemma wanted_snoc:
  "wanted (rs @ [r]) x =
     (if x = resource r \<and> x \<noteq> []
      then Some (if mode r = Exclusive \<or> wanted rs x = Some Exclusive then Exclusive else Shared)
      else wanted rs x)"
  by (auto simp: wanted_def)

text \<open>One step of the merge, when the resource is not below those already there: it either
  strengthens the last request of the plan or extends the plan.\<close>

lemma plan_member:
  assumes "plan_of rs plan"
  shows "q \<in> set plan \<longleftrightarrow> wanted rs (resource q) = Some (mode q)"
proof -
  have "q \<in> set plan \<longleftrightarrow> \<lparr>resource = resource q, mode = mode q\<rparr> \<in> set plan"
    using request_eq [of q] by (rule arg_cong)
  then show ?thesis using assms unfolding plan_of_def by blast
qed

lemma plan_ofI:
  assumes "sorted_wrt (<) (map resource plan)"
    and "\<forall>q. q \<in> set plan \<longleftrightarrow> wanted rs (resource q) = Some (mode q)"
  shows "plan_of rs plan"
  using assms by (simp add: plan_of_def)

lemma dedup_merge_plan:
  assumes p: "plan_of rs (ps @ [l])" and ne: "resource r \<noteq> []" and l: "resource l = resource r"
  shows "plan_of (rs @ [r]) (ps @ [if mode r = Exclusive then l\<lparr>mode := Exclusive\<rparr> else l])"
proof (rule plan_ofI; (intro allI)?)
  have sorted: "sorted_wrt (<) (map resource (ps @ [l]))" using p by (simp add: plan_of_def)
  then show "sorted_wrt (<) (map resource (ps @ [if mode r = Exclusive then l\<lparr>mode := Exclusive\<rparr> else l]))" by simp
  have below: "q \<in> set ps \<Longrightarrow> resource q \<noteq> resource r" for q
    using sorted l by (auto simp: sorted_wrt_append)
  have lw: "wanted rs (resource r) = Some (mode l)" using plan_member [OF p, of l] l by simp
  fix q
  show "q \<in> set (ps @ [if mode r = Exclusive then l\<lparr>mode := Exclusive\<rparr> else l]) \<longleftrightarrow>
      wanted (rs @ [r]) (resource q) = Some (mode q)"
  proof (cases "resource q = resource r")
    case True
    have "wanted (rs @ [r]) (resource q) = Some (if mode r = Exclusive \<or> mode l = Exclusive then Exclusive else Shared)"
      using True ne lw by (simp add: wanted_snoc)
    moreover have "q \<notin> set ps" using below True by blast
    moreover have "q = l\<lparr>mode := m\<rparr> \<longleftrightarrow> mode q = m" for m using True l by (cases q; cases l) auto
    moreover have "q = l \<longleftrightarrow> mode q = mode l" using True l by (cases q; cases l) auto
    ultimately show ?thesis using mode_cases [of "mode l"] by (cases "mode r = Exclusive"; cases "mode l") (auto dest: sym)
  next
    case False
    then have "wanted (rs @ [r]) (resource q) = wanted rs (resource q)" by (simp add: wanted_snoc)
    moreover have "q \<noteq> l" using False l by blast
    moreover have "q \<noteq> l\<lparr>mode := Exclusive\<rparr>" using False l by auto
    ultimately show ?thesis using plan_member [OF p, of q] by simp
  qed
qed

lemma dedup_push_plan:
  assumes p: "plan_of rs plan" and ne: "resource r \<noteq> []"
    and above: "\<forall>q\<in>set plan. resource q < resource r"
  shows "plan_of (rs @ [r]) (plan @ [r])"
proof (rule plan_ofI; (intro allI)?)
  have "sorted_wrt (<) (map resource plan)" using p by (simp add: plan_of_def)
  then show "sorted_wrt (<) (map resource (plan @ [r]))" using above by (simp add: sorted_wrt_append)
  have notin: "resource r \<notin> resource ` set plan" using above by auto
  then have none: "wanted rs (resource r) = None"
    using plan_resources [OF p] ne by (auto simp: wanted_def)
  fix q
  show "q \<in> set (plan @ [r]) \<longleftrightarrow> wanted (rs @ [r]) (resource q) = Some (mode q)"
  proof (cases "resource q = resource r")
    case True
    have "wanted (rs @ [r]) (resource q) = Some (mode r)"
      using True none ne mode_cases [of "mode r"] by (auto simp: wanted_snoc)
    moreover have "q \<notin> set plan" using notin image_eqI [of "resource r" resource q] True by auto
    moreover have "q = r \<longleftrightarrow> mode q = mode r" using True by (cases q; cases r) auto
    ultimately show ?thesis by auto
  next
    case False
    then have "wanted (rs @ [r]) (resource q) = wanted rs (resource q)" by (simp add: wanted_snoc)
    then show ?thesis using plan_member [OF p, of q] False by auto
  qed
qed

lemma plan_top:
  assumes s: "sorted_wrt (<) (map resource (ps @ [l]))" and le: "resource l \<le> resource r"
    and new: "resource l \<noteq> resource r" and q: "q \<in> set (ps @ [l])"
  shows "resource q < resource r"
proof -
  have "resource l < resource r" using le new by simp
  moreover have "q \<in> set ps \<Longrightarrow> resource q < resource l" using s by (auto simp: sorted_wrt_append)
  ultimately show ?thesis using q by (auto dest: less_trans)
qed

lemma dedup_step_plan:
  assumes p: "plan_of rs plan" and above: "\<forall>s\<in>set rs. resource s \<le> resource r"
  shows "plan_of (rs @ [r]) (dedup_step plan r)"
proof (cases "resource r = []")
  case True
  then have "wanted (rs @ [r]) = wanted rs" by (simp add: fun_eq_iff wanted_snoc)
  then show ?thesis using p True by (simp add: dedup_step_def plan_of_def)
next
  case ne: False
  have le: "resource q \<le> resource r" if "q \<in> set plan" for q
  proof -
    have "resource q \<in> resource ` set rs" using plan_resources [OF p] that by blast
    then show ?thesis using above by auto
  qed
  show ?thesis
  proof (cases plan rule: rev_cases)
    case Nil
    then show ?thesis using dedup_push_plan [OF p ne] ne by (simp add: dedup_step_def)
  next
    case (snoc ps l)
    show ?thesis
    proof (cases "resource l = resource r")
      case True
      then show ?thesis using dedup_merge_plan [of rs ps l r] p ne snoc by (cases "mode r = Exclusive") (simp_all add: dedup_step_def)
    next
      case False
      have "sorted_wrt (<) (map resource (ps @ [l]))" using p snoc unfolding plan_of_def by blast
      moreover have "resource l \<le> resource r" using le snoc by simp
      ultimately have "\<forall>q\<in>set plan. resource q < resource r"
        using plan_top False unfolding snoc by blast
      then have "plan_of (rs @ [r]) (plan @ [r])" by (rule dedup_push_plan [OF p ne])
      moreover have "dedup_step plan r = plan @ [r]" using False ne snoc by (simp add: dedup_step_def)
      ultimately show ?thesis by simp
    qed
  qed
qed

lemma foldl_dedup_plan:
  assumes "sorted (map resource rs)"
  shows "plan_of rs (foldl dedup_step [] rs)"
  using assms
proof (induction rs rule: rev_induct)
  case Nil
  then show ?case by (simp add: plan_of_def wanted_def)
next
  case (snoc r rs)
  then show ?case using dedup_step_plan by (simp add: sorted_append)
qed

lemma wanted_mset: "mset rs = mset rs' \<Longrightarrow> wanted rs = wanted rs'"
  by (auto simp: wanted_def fun_eq_iff dest: mset_eq_setD)

lemma plan_of_unique:
  assumes "plan_of rs p" "plan_of rs q"
  shows "p = q"
proof -
  have "set p = set q"
  proof (intro set_eqI)
    fix r
    show "r \<in> set p \<longleftrightarrow> r \<in> set q" using assms request_eq [of r] unfolding plan_of_def by metis
  qed
  have "sorted_wrt (<) (map resource p)" "sorted_wrt (<) (map resource q)"
    using assms by (simp_all add: plan_of_def)
  then have s: "sorted (map resource p)" "distinct (map resource p)" "sorted (map resource q)" "distinct (map resource q)"
    by (simp_all add: strict_sorted_iff)
  moreover have "inj_on resource (set p \<union> set q)" using s(2) \<open>set p = set q\<close> by (simp add: distinct_map)
  ultimately show ?thesis using \<open>set p = set q\<close> by (intro map_sorted_distinct_set_unique [of resource p q])
qed

section \<open>Threads that lock through \<open>acquireAll\<close>\<close>

text \<open>
  What a thread asked for in its last \<open>acquireAll\<close>, until it releases; the part of the plan it
  still waits for; and the guards it has.
\<close>

record lock_system =
  asked :: "nat \<Rightarrow> lock_request list"
  todo :: "nat \<Rightarrow> lock_request list"
  held :: "nat \<Rightarrow> lock_request list"

definition idle_system :: lock_system where
  "idle_system = \<lparr>asked = (\<lambda>t. []), todo = (\<lambda>t. []), held = (\<lambda>t. [])\<rparr>"

text \<open>When a \<open>std::shared_mutex\<close> lets a request through.\<close>

definition grantable :: "lock_system \<Rightarrow> lock_request \<Rightarrow> bool" where
  "grantable s r \<longleftrightarrow> (\<forall>t. \<forall>q\<in>set (held s t). resource q = resource r \<longrightarrow> mode q = Shared \<and> mode r = Shared)"

inductive lock_step :: "lock_system \<Rightarrow> lock_system \<Rightarrow> bool" where
  acquireAll: "todo s t = [] \<Longrightarrow> held s t = [] \<Longrightarrow>
    lock_step s (s\<lparr>asked := (asked s)(t := rs), todo := (todo s)(t := acquire_plan rs)\<rparr>)"
| acquire: "todo s t = r # rs \<Longrightarrow> grantable s r \<Longrightarrow>
    lock_step s (s\<lparr>todo := (todo s)(t := rs), held := (held s)(t := held s t @ [r])\<rparr>)"
| release: "todo s t = [] \<Longrightarrow> held s t \<noteq> [] \<Longrightarrow>
    lock_step s (s\<lparr>asked := (asked s)(t := []), held := (held s)(t := [])\<rparr>)"

inductive lock_reachable :: "lock_system \<Rightarrow> bool" where
  initial: "lock_reachable idle_system"
| step: "lock_reachable s \<Longrightarrow> lock_step s s' \<Longrightarrow> lock_reachable s'"

inductive_cases lock_stepE: "lock_step s s'"

definition lock_inv :: "lock_system \<Rightarrow> bool" where
  "lock_inv s \<longleftrightarrow>
     finite {t. todo s t \<noteq> []} \<and>
     (\<forall>t. plan_of (asked s t) (held s t @ todo s t)) \<and>
     (\<forall>t t' q q'. t \<noteq> t' \<longrightarrow> q \<in> set (held s t) \<longrightarrow> q' \<in> set (held s t') \<longrightarrow> resource q = resource q' \<longrightarrow>
        mode q = Shared \<and> mode q' = Shared)"

lemma acquire_plan_of: "plan_of rs (acquire_plan rs)"
proof -
  have "plan_of (sort_key resource rs) (acquire_plan rs)"
    unfolding acquire_plan_def by (rule foldl_dedup_plan) simp
  moreover have "wanted (sort_key resource rs) = wanted rs" by (rule wanted_mset) simp
  ultimately show ?thesis by (simp add: plan_of_def)
qed

lemma plan_of_nothing: "plan_of [] []"
  by (simp add: plan_of_def wanted_def)

lemma acquire_plan_sorted: "sorted_wrt (<) (map resource (acquire_plan rs))"
  using acquire_plan_of by (simp add: plan_of_def)

lemma lock_inv_step:
  assumes inv: "lock_inv s" and st: "lock_step s s'"
  shows "lock_inv s'"
  using st
proof cases
  case (acquireAll t rs)
  have "{u. todo s' u \<noteq> []} \<subseteq> insert t {u. todo s u \<noteq> []}" using acquireAll by auto
  then have "finite {u. todo s' u \<noteq> []}" using inv by (auto simp: lock_inv_def intro: finite_subset)
  then show ?thesis using inv acquireAll acquire_plan_of by (auto simp: lock_inv_def)
next
  case (acquire t r rs)
  have "{u. todo s' u \<noteq> []} \<subseteq> {u. todo s u \<noteq> []}" using acquire by auto
  then have fin: "finite {u. todo s' u \<noteq> []}" using inv by (auto simp: lock_inv_def intro: finite_subset)
  have held: "held s' u = (if u = t then held s t @ [r] else held s u)" for u using acquire(1) by simp
  have "plan_of (asked s' u) (held s' u @ todo s' u)" for u
  proof -
    have "held s' u @ todo s' u = held s u @ todo s u" "asked s' u = asked s u" using acquire by auto
    then show ?thesis using inv by (simp only: lock_inv_def)
  qed
  moreover have "mode q = Shared \<and> mode q' = Shared"
    if "u \<noteq> u'" "q \<in> set (held s' u)" "q' \<in> set (held s' u')" "resource q = resource q'" for u u' q q'
    using that inv acquire(3) unfolding lock_inv_def grantable_def held
    by (auto split: if_splits)
  ultimately show ?thesis using fin by (auto simp: lock_inv_def)
next
  case (release t)
  then show ?thesis using inv plan_of_nothing by (auto simp: lock_inv_def)
qed

lemma lock_reachable_inv: "lock_reachable s \<Longrightarrow> lock_inv s"
proof (induction rule: lock_reachable.induct)
  case initial
  then show ?case using plan_of_nothing by (simp add: lock_inv_def idle_system_def)
next
  case (step s s')
  then show ?case by (simp add: lock_inv_step)
qed

text \<open>A thread that waits for the largest resource any thread waits for can always go on.\<close>

lemma lock_progress:
  assumes inv: "lock_inv s" and wait: "todo s t \<noteq> []"
  shows "\<exists>u r rs. todo s u = r # rs \<and> grantable s r \<or> todo s u = [] \<and> held s u \<noteq> []"
proof (cases "\<exists>u. todo s u = [] \<and> held s u \<noteq> []")
  case False
  let ?W = "{u. todo s u \<noteq> []}" and ?next = "\<lambda>u. resource (hd (todo s u))"
  have fin: "finite ?W" "?W \<noteq> {}" using inv wait by (auto simp: lock_inv_def)
  then have "Max (?next ` ?W) \<in> ?next ` ?W" by (intro Max_in) auto
  then obtain u where u: "todo s u \<noteq> []" "?next u = Max (?next ` ?W)" by auto
  obtain r rs where r: "todo s u = r # rs" using u(1) by (cases "todo s u") auto
  have "resource q \<noteq> resource r" if q: "q \<in> set (held s v)" for v q
  proof -
    have sorted: "sorted_wrt (<) (map resource (held s v @ todo s v))"
      using inv unfolding lock_inv_def plan_of_def by blast
    have "held s v \<noteq> []" using q by auto
    then have "todo s v \<noteq> []" using False by blast
    then obtain p ps where p: "todo s v = p # ps" by (cases "todo s v") auto
    then have "resource q < resource p" using sorted q by (auto simp: sorted_wrt_append)
    also have "resource p \<le> Max (?next ` ?W)" using p fin by (intro Max_ge) (auto intro: rev_image_eqI [of v])
    also have "\<dots> = resource r" using u(2) r by simp
    finally show ?thesis by simp
  qed
  then have "grantable s r" by (auto simp: grantable_def)
  then show ?thesis using r by blast
qed blast

section \<open>Properties\<close>

text \<open>
  C21. The locks \<open>acquireAll\<close> takes: strictly sorted resources, exactly the non-empty ones
  requested, each exclusively if some request for it is exclusive and shared otherwise; and
  any sequence with these properties is the same sequence, so neither the order of the
  requests nor the order an unstable sort leaves equal resources in matters.
\<close>

theorem acquire_plan_correct:
  "plan_of rs (acquire_plan rs) \<and> (\<forall>plan. plan_of rs plan \<longrightarrow> plan = acquire_plan rs) \<and>
   (\<forall>rs'. mset rs' = mset rs \<longrightarrow> sorted (map resource rs') \<longrightarrow> foldl dedup_step [] rs' = acquire_plan rs)"
proof (intro conjI allI impI)
  show "plan_of rs (acquire_plan rs)" by (rule acquire_plan_of)
  show "plan = acquire_plan rs" if "plan_of rs plan" for plan by (rule plan_of_unique [OF that acquire_plan_of])
  fix rs' assume m: "mset rs' = mset rs" and s: "sorted (map resource rs')"
  have "plan_of rs (foldl dedup_step [] rs')"
    using foldl_dedup_plan [OF s] wanted_mset [OF m] by (simp add: plan_of_def)
  then show "foldl dedup_step [] rs' = acquire_plan rs" by (rule plan_of_unique [OF _ acquire_plan_of])
qed

theorem acquire_plan_correct_witness:
  "foldl dedup_step [] [\<lparr>resource = ''a'', mode = Shared\<rparr>, \<lparr>resource = ''a'', mode = Exclusive\<rparr>]
     = acquire_plan [\<lparr>resource = ''a'', mode = Exclusive\<rparr>, \<lparr>resource = ''a'', mode = Shared\<rparr>]"
proof -
  let ?s = "\<lparr>resource = ''a'', mode = Shared\<rparr>" and ?e = "\<lparr>resource = ''a'', mode = Exclusive\<rparr>"
  have "mset [?s, ?e] = mset [?e, ?s]" "sorted (map resource [?s, ?e])" by simp_all
  then show ?thesis using acquire_plan_correct [of "[?e, ?s]"] by blast
qed

text \<open>
  C20. Mutual exclusion, in terms of what was asked for: once the \<open>acquireAll\<close> of two threads
  has returned and until they release, they asked for the same resource only if all their
  requests for it, however often each made one and in whatever order, were shared.
\<close>

theorem lock_mutual_exclusion:
  assumes "lock_reachable s" "t \<noteq> t'" "todo s t = []" "todo s t' = []"
    and "q \<in> set (asked s t)" "q' \<in> set (asked s t')" "resource q = resource q'" "resource q \<noteq> []"
  shows "mode q = Shared \<and> mode q' = Shared"
proof -
  note inv = lock_reachable_inv [OF assms(1)]
  have holds: "\<exists>r\<in>set (held s u). resource r = resource x \<and> (mode x = Exclusive \<longrightarrow> mode r = Exclusive)"
    if idle: "todo s u = []" and x: "x \<in> set (asked s u)" "resource x \<noteq> []" for u x
  proof -
    have "plan_of (asked s u) (held s u)" using inv idle unfolding lock_inv_def by (metis append_Nil2)
    moreover have "wanted (asked s u) (resource x) \<noteq> None" "mode x = Exclusive \<Longrightarrow> wanted (asked s u) (resource x) = Some Exclusive"
      using x by (auto simp: wanted_def)
    then obtain m where "wanted (asked s u) (resource x) = Some m" "mode x = Exclusive \<longrightarrow> m = Exclusive" by auto
    ultimately show ?thesis by (intro bexI [of _ "\<lparr>resource = resource x, mode = m\<rparr>"]) (simp_all add: plan_of_def)
  qed
  obtain r where "r \<in> set (held s t)" "resource r = resource q" "mode q = Exclusive \<longrightarrow> mode r = Exclusive"
    using holds [OF assms(3,5,8)] by blast
  moreover obtain r' where "r' \<in> set (held s t')" "resource r' = resource q'" "mode q' = Exclusive \<longrightarrow> mode r' = Exclusive"
    using holds [OF assms(4,6)] assms(7,8) by auto
  ultimately have "mode r = Shared \<and> mode r' = Shared" using inv assms(2,7) unfolding lock_inv_def by metis
  then show ?thesis using \<open>mode q = Exclusive \<longrightarrow> _\<close> \<open>mode q' = Exclusive \<longrightarrow> _\<close> mode_cases by force
qed

definition two_readers :: lock_system where
  "two_readers = idle_system\<lparr>asked := (\<lambda>t. if t < 2 then [\<lparr>resource = ''a'', mode = Shared\<rparr>] else []),
     held := (\<lambda>t. if t < 2 then [\<lparr>resource = ''a'', mode = Shared\<rparr>] else [])\<rparr>"

lemma two_readers_reachable: "lock_reachable two_readers"
proof -
  let ?r = "\<lparr>resource = ''a'', mode = Shared\<rparr>"
  have plan: "acquire_plan [?r] = [?r]" by (simp add: acquire_plan_def dedup_step_def)
  let ?s1 = "idle_system\<lparr>asked := (asked idle_system)(0 := [?r]), todo := (todo idle_system)(0 := acquire_plan [?r])\<rparr>"
  let ?s2 = "?s1\<lparr>todo := (todo ?s1)(0 := []), held := (held ?s1)(0 := held ?s1 0 @ [?r])\<rparr>"
  let ?s3 = "?s2\<lparr>asked := (asked ?s2)(1 := [?r]), todo := (todo ?s2)(1 := acquire_plan [?r])\<rparr>"
  let ?s4 = "?s3\<lparr>todo := (todo ?s3)(1 := []), held := (held ?s3)(1 := held ?s3 1 @ [?r])\<rparr>"
  have "lock_reachable ?s1"
    by (rule lock_reachable.step [OF lock_reachable.initial lock_step.acquireAll]) (simp_all add: idle_system_def)
  then have "lock_reachable ?s2"
    by (rule lock_reachable.step [OF _ lock_step.acquire]) (simp_all add: idle_system_def plan grantable_def)
  then have "lock_reachable ?s3"
    by (rule lock_reachable.step [OF _ lock_step.acquireAll]) (simp_all add: idle_system_def)
  then have "lock_reachable ?s4"
    by (rule lock_reachable.step [OF _ lock_step.acquire]) (simp_all add: idle_system_def plan grantable_def)
  moreover have "?s4 = two_readers"
    by (auto simp: two_readers_def idle_system_def fun_eq_iff less_2_cases_iff)
  ultimately show ?thesis by simp
qed

theorem lock_mutual_exclusion_witness:
  "mode (hd (asked two_readers 0)) = Shared"
  using lock_mutual_exclusion [OF two_readers_reachable, of 0 1 "hd (asked two_readers 0)" "hd (asked two_readers 1)"]
  by (simp add: two_readers_def idle_system_def)

text \<open>
  C19. No deadlock: whenever some thread is waiting for a lock in a reachable state, some
  thread can take the lock it waits for or release the locks it holds.
\<close>

theorem lock_no_deadlock:
  assumes "lock_reachable s" "todo s t \<noteq> []"
  shows "\<exists>u r rs s'. lock_step s s' \<and> (todo s u = r # rs \<and> r \<in> set (held s' u) \<or> held s u \<noteq> [] \<and> held s' u = [])"
proof -
  obtain u r rs where "todo s u = r # rs \<and> grantable s r \<or> todo s u = [] \<and> held s u \<noteq> []"
    using lock_progress [OF lock_reachable_inv [OF assms(1)] assms(2)] by blast
  then show ?thesis
  proof
    assume a: "todo s u = r # rs \<and> grantable s r"
    let ?s = "s\<lparr>todo := (todo s)(u := rs), held := (held s)(u := held s u @ [r])\<rparr>"
    have "lock_step s ?s" using a by (intro lock_step.acquire) auto
    moreover have "r \<in> set (held ?s u)" by simp
    ultimately show ?thesis using a by blast
  next
    assume a: "todo s u = [] \<and> held s u \<noteq> []"
    let ?s = "s\<lparr>asked := (asked s)(u := []), held := (held s)(u := [])\<rparr>"
    have "lock_step s ?s" using a by (intro lock_step.release) auto
    moreover have "held ?s u = []" by simp
    ultimately show ?thesis using a by blast
  qed
qed

theorem lock_no_deadlock_witness:
  "\<exists>s s'. lock_reachable s \<and> todo s 0 \<noteq> [] \<and> lock_step s s'"
proof -
  let ?r = "\<lparr>resource = ''a'', mode = Shared\<rparr>"
  let ?s = "idle_system\<lparr>asked := (asked idle_system)(0 := [?r]), todo := (todo idle_system)(0 := acquire_plan [?r])\<rparr>"
  have r: "lock_reachable ?s"
    by (rule lock_reachable.step [OF lock_reachable.initial lock_step.acquireAll]) (simp_all add: idle_system_def)
  have t: "todo ?s 0 \<noteq> []" by (simp add: acquire_plan_def dedup_step_def)
  from lock_no_deadlock [OF r t] r t show ?thesis by blast
qed

end
