(* ===== verification/Token.thy ===== *)
theory Token
  imports Std_Text
begin

text \<open>
  Tokens and keywords of the query language (\<open>src/lexer.h\<close> and the keyword table of
  \<open>src/lexer.cpp\<close>). The keyword table is a \<open>std::unordered_map\<close> built once; it is only looked
  up, so it is an association list whose keys are distinct (\<open>keywords_distinct\<close>).
\<close>

datatype (plugins only: size) token_type =
    SLAY | NO_CAP | ONLY_IF | LINK_UP | LEFT_LINK_UP | MID_LINK_UP | FR_FR | VIBE_CHECK
  | HITS_DIFFERENT | BUSSIN_ONLY | LOWKEY | PLUS | OR_NAH | NO_CAP_NOT | GHOSTED | UNIQUE_FR
  | CAP_AT | SKIP | UP_ONLY | DOWN_BAD | YEET_INTO | DRIP | GLOW_UP | BE_LIKE | RATIO
  | MANIFEST | RIZZ_DOWN | MANIFEST_DATASET | MANIFEST_SNAPSHOT | EXPORT_TORCH | SHIP_TORCH
  | EXPLAIN_BATCH | SPILL_BATCH | WITH_SEED | BATCH_SIZE | WORLD_SIZE | MAX_LEN
  | MANIFEST_CONTEXT | YEET_MEMORY | SPILL_CONTEXT | EXPLAIN_CONTEXT | SHOW_TABS
  | SHOW_CONTEXT_SCHEMAS | SHOW_CONTEXT_OBJECTS | ALIAS_TAB | MERGE_TABS | TOKEN_BUDGET
  | VIBE_TAB | MAIN_CHARACTER | SIDE_CHARACTER | HEADCOUNT | STACK | MID | GOAT | L_FUNC
  | LONE_WOLF | BIGGEST_W | BIGGEST_L | MID_FR | PERCENT_CHECK | ERA | SPLIT_BY
  | INTEGER_LIT | FLOAT_LIT | STRING_LIT | TRUE_LIT | FALSE_LIT | IDENTIFIER | EQ | NEQ | LT
  | GT | LTE | GTE | PLUS_OP | MINUS | STAR | SLASH | CONCAT | LPAREN | RPAREN | COMMA
  | SEMICOLON | DOT | EOF_TOKEN

text \<open>A token: its type, its text (the contents, for a string literal) and its position.\<close>

datatype token = Token (ttype: token_type) (tvalue: string) (tline: int) (tcol: int)

definition KEYWORDS :: "(string \<times> token_type) list" where
  "KEYWORDS =
    [(''no-cap-not'', NO_CAP_NOT), (''left-link-up'', LEFT_LINK_UP),
     (''mid-link-up'', MID_LINK_UP), (''link-up'', LINK_UP), (''no-cap'', NO_CAP),
     (''only-if'', ONLY_IF), (''fr-fr'', FR_FR), (''vibe-check'', VIBE_CHECK),
     (''hits-different'', HITS_DIFFERENT), (''bussin-only'', BUSSIN_ONLY),
     (''yeet-into'', YEET_INTO), (''glow-up'', GLOW_UP), (''be-like'', BE_LIKE),
     (''rizz-down'', RIZZ_DOWN), (''manifest-dataset'', MANIFEST_DATASET),
     (''manifest-snapshot'', MANIFEST_SNAPSHOT), (''export-torch'', EXPORT_TORCH),
     (''ship-torch'', SHIP_TORCH), (''explain-batch'', EXPLAIN_BATCH),
     (''spill-batch'', SPILL_BATCH), (''with-seed'', WITH_SEED), (''batch-size'', BATCH_SIZE),
     (''world-size'', WORLD_SIZE), (''max-len'', MAX_LEN),
     (''manifest-context'', MANIFEST_CONTEXT), (''yeet-memory'', YEET_MEMORY),
     (''spill-context'', SPILL_CONTEXT), (''explain-context'', EXPLAIN_CONTEXT),
     (''show-tabs'', SHOW_TABS), (''show-context-schemas'', SHOW_CONTEXT_SCHEMAS),
     (''show-context-objects'', SHOW_CONTEXT_OBJECTS), (''alias-tab'', ALIAS_TAB),
     (''merge-tabs'', MERGE_TABS), (''token-budget'', TOKEN_BUDGET), (''vibe-tab'', VIBE_TAB),
     (''main-character'', MAIN_CHARACTER), (''side-character'', SIDE_CHARACTER),
     (''unique-fr'', UNIQUE_FR), (''cap-at'', CAP_AT), (''up-only'', UP_ONLY),
     (''down-bad'', DOWN_BAD), (''or-nah'', OR_NAH), (''biggest-W'', BIGGEST_W),
     (''biggest-L'', BIGGEST_L), (''mid-fr'', MID_FR), (''percent-check'', PERCENT_CHECK),
     (''LONE-WOLF'', LONE_WOLF), (''lone-wolf'', LONE_WOLF), (''split-by'', SPLIT_BY),
     (''slay'', SLAY), (''lowkey'', LOWKEY), (''ghosted'', GHOSTED), (''drip'', DRIP),
     (''ratio'', RATIO), (''manifest'', MANIFEST), (''headcount'', HEADCOUNT), (''stack'', STACK),
     (''mid'', MID), (''goat'', GOAT), (''era'', ERA), (''skip'', SKIP), (''plus'', PLUS),
     (''select'', SLAY), (''SELECT'', SLAY), (''from'', NO_CAP), (''FROM'', NO_CAP),
     (''where'', ONLY_IF), (''WHERE'', ONLY_IF), (''as'', LOWKEY), (''AS'', LOWKEY),
     (''and'', PLUS), (''AND'', PLUS), (''or'', OR_NAH), (''OR'', OR_NAH), (''not'', NO_CAP_NOT),
     (''NOT'', NO_CAP_NOT), (''null'', GHOSTED), (''NULL'', GHOSTED), (''distinct'', UNIQUE_FR),
     (''DISTINCT'', UNIQUE_FR), (''limit'', CAP_AT), (''LIMIT'', CAP_AT), (''offset'', SKIP),
     (''OFFSET'', SKIP), (''asc'', UP_ONLY), (''ASC'', UP_ONLY), (''desc'', DOWN_BAD),
     (''DESC'', DOWN_BAD)]"

lemma keywords_distinct: "distinct (map fst KEYWORDS)"
  by (simp add: KEYWORDS_def)

definition keyword :: "string \<Rightarrow> token_type option" where
  "keyword word = map_of KEYWORDS word"

end
