(* ===== verification/Ast.thy ===== *)
theory Ast
  imports Std_Text Std_Double
begin

text \<open>
  The syntax trees of \<open>src/ast.h\<close>. Expression nodes and \<open>SelectStmt\<close>, which nest in each other,
  are the constructors of \<open>ast\<close>; the other statements are records and the constructors of
  \<open>stmt\<close>. The first two arguments of a node are the line and the column of its base class; an
  optional child is a null \<open>unique_ptr\<close>, the other children are not null in a tree the parser
  builds. Visitors have no counterpart: the functions on trees are defined by cases.

  \<open>clone\<close> rebuilds a tree node by node and \<open>print_ast\<close>, \<open>print_stmt\<close> write the debugging dump
  of \<open>print\<close>; how a stream prints a \<open>double\<close> is their parameter.
\<close>

section \<open>Expressions and queries\<close>

datatype literal = INT_LIT int | FLOAT_VAL double | STRING_VAL string | NUL | BOOL_VAL bool

datatype join_type = INNER | LEFT | CROSS

datatype 'e order_item = OrderItem (oi_expr: 'e) (oi_asc: bool)

datatype 'e join_clause =
  JoinClause (jc_type: join_type) (jc_table: string) (jc_alias: string) (jc_condition: "'e option")

datatype ast =
    Literal int int literal
  | ColumnRef int int string string string \<comment> \<open>table, column, alias\<close>
  | Wildcard int int string string \<comment> \<open>table, alias\<close>
  | BinaryOp int int string ast ast string \<comment> \<open>op, left, right, alias\<close>
  | UnaryOp int int string ast string \<comment> \<open>op, operand, alias\<close>
  | FunctionCall int int string "ast list" bool string \<comment> \<open>name, args, distinct, alias\<close>
  | WindowFunc int int string "ast list" "ast order_item list" string
      \<comment> \<open>funcName, partition_by, order_by, alias\<close>
  | SelectStmt int int bool "ast list" string string "ast join_clause list" "ast option"
      "ast list" "ast option" "ast order_item list" "ast option" "ast option"
      \<comment> \<open>distinct, columns, fromTable, fromAlias, joins, where, groupBy, having, orderBy, limit, offset\<close>

definition makeInt :: "int \<Rightarrow> int \<Rightarrow> int \<Rightarrow> ast" where
  "makeInt v l c = Literal l c (INT_LIT v)"

definition makeFloat :: "double \<Rightarrow> int \<Rightarrow> int \<Rightarrow> ast" where
  "makeFloat v l c = Literal l c (FLOAT_VAL v)"

definition makeString :: "string \<Rightarrow> int \<Rightarrow> int \<Rightarrow> ast" where
  "makeString v l c = Literal l c (STRING_VAL v)"

definition makeNull :: "int \<Rightarrow> int \<Rightarrow> ast" where
  "makeNull l c = Literal l c NUL"

definition makeBool :: "bool \<Rightarrow> int \<Rightarrow> int \<Rightarrow> ast" where
  "makeBool v l c = Literal l c (BOOL_VAL v)"

section \<open>Statements\<close>

record insert_stmt =
  ins_line :: int
  ins_col :: int
  ins_table :: string
  ins_columns :: "string list"
  valueRows :: "ast list list"

record assignment =
  as_column :: string
  as_value :: ast

record update_stmt =
  upd_line :: int
  upd_col :: int
  upd_table :: string
  sets :: "assignment list"
  upd_where :: "ast option"

record delete_stmt =
  del_line :: int
  del_col :: int
  del_table :: string
  del_where :: "ast option"

record column_def =
  cd_name :: string
  cd_type :: string
  primary_key :: bool
  not_null :: bool
  fk_table :: string
  fk_col :: string

record create_stmt =
  crt_line :: int
  crt_col :: int
  crt_table :: string
  crt_columns :: "column_def list"
  ifNotExists :: bool

record drop_stmt =
  drp_line :: int
  drp_col :: int
  drp_table :: string
  ifExists :: bool

record feature_spec =
  ft_name :: string
  ft_spec :: string

record create_snapshot =
  cs_line :: int
  cs_col :: int
  cs_name :: string
  cs_source :: "ast option"
  splitBy :: string
  seed :: nat
  features :: "feature_spec list"
  cs_label :: feature_spec

record export_torch =
  et_line :: int
  et_col :: int
  et_dataset :: string
  et_batchSize :: nat
  deterministicShuffle :: bool
  et_epoch :: nat
  et_rank :: nat
  et_worldSize :: nat

record explain_batch =
  eb_line :: int
  eb_col :: int
  eb_dataset :: string
  eb_batchSize :: nat
  eb_epoch :: nat
  eb_batch :: nat
  eb_rank :: nat
  eb_worldSize :: nat

record create_context =
  cc_line :: int
  cc_col :: int
  cc_name :: string

record append_memory =
  am_line :: int
  am_col :: int
  am_context :: string
  am_messageId :: nat
  am_speaker :: string
  am_text :: string
  am_tab :: string
  autoTab :: bool

text \<open>\<open>SpillContextStmt\<close> and \<open>ExplainContextStmt\<close> have the same fields.\<close>

record context_query =
  cq_line :: int
  cq_col :: int
  cq_context :: string
  cq_query :: string
  cq_tab :: string
  tokenBudget :: nat
  receipts :: bool

record tag_memory =
  tm_line :: int
  tm_col :: int
  tm_context :: string
  tm_messageId :: nat
  tm_tab :: string

record show_tabs =
  st_line :: int
  st_col :: int
  st_context :: string

record show_schemas =
  ss_line :: int
  ss_col :: int

record show_objects =
  so_line :: int
  so_col :: int
  so_context :: string

record alias_tab =
  at_line :: int
  at_col :: int
  at_context :: string
  at_alias :: string
  at_target :: string

record merge_tabs =
  mt_line :: int
  mt_col :: int
  mt_context :: string
  mt_from :: string
  mt_to :: string

datatype stmt =
    SelectNode ast
  | InsertStmt insert_stmt
  | UpdateStmt update_stmt
  | DeleteStmt delete_stmt
  | CreateStmt create_stmt
  | DropStmt drop_stmt
  | CreateSnapshotStmt create_snapshot
  | ExportTorchStmt export_torch
  | ExplainBatchStmt explain_batch
  | CreateContextStmt create_context
  | AppendMemoryStmt append_memory
  | SpillContextStmt context_query
  | ExplainContextStmt context_query
  | TagMemoryStmt tag_memory
  | ShowTabsStmt show_tabs
  | ShowContextSchemasStmt show_schemas
  | ShowContextObjectsStmt show_objects
  | AliasTabStmt alias_tab
  | MergeTabsStmt merge_tabs

section \<open>Copies\<close>

primrec clone :: "ast \<Rightarrow> ast" where
  "clone (Literal l c v) = Literal l c v"
| "clone (ColumnRef l c table column alias) = ColumnRef l c table column alias"
| "clone (Wildcard l c table alias) = Wildcard l c table alias"
| "clone (BinaryOp l c oper left right alias) = BinaryOp l c oper (clone left) (clone right) alias"
| "clone (UnaryOp l c oper operand alias) = UnaryOp l c oper (clone operand) alias"
| "clone (FunctionCall l c name args dist alias) = FunctionCall l c name (map clone args) dist alias"
| "clone (WindowFunc l c name parts orders alias) =
     WindowFunc l c name (map clone parts) (map (map_order_item clone) orders) alias"
| "clone (SelectStmt l c dist cols fromTable fromAlias joins whr groups having orders lim off) =
     SelectStmt l c dist (map clone cols) fromTable fromAlias (map (map_join_clause clone) joins)
       (map_option clone whr) (map clone groups) (map_option clone having)
       (map (map_order_item clone) orders) (map_option clone lim) (map_option clone off)"

definition clone_insert :: "insert_stmt \<Rightarrow> insert_stmt" where
  "clone_insert r = r\<lparr>valueRows := map (map clone) (valueRows r)\<rparr>"

definition copy_assignment :: "assignment \<Rightarrow> assignment" where
  "copy_assignment a = a\<lparr>as_value := clone (as_value a)\<rparr>"

definition clone_update :: "update_stmt \<Rightarrow> update_stmt" where
  "clone_update r = r\<lparr>sets := map copy_assignment (sets r), upd_where := map_option clone (upd_where r)\<rparr>"

definition clone_delete :: "delete_stmt \<Rightarrow> delete_stmt" where
  "clone_delete r = r\<lparr>del_where := map_option clone (del_where r)\<rparr>"

definition clone_snapshot :: "create_snapshot \<Rightarrow> create_snapshot" where
  "clone_snapshot r = r\<lparr>cs_source := map_option clone (cs_source r)\<rparr>"

definition clone_stmt :: "stmt \<Rightarrow> stmt" where
  "clone_stmt s = (case s of
     SelectNode q \<Rightarrow> SelectNode (clone q)
   | InsertStmt r \<Rightarrow> InsertStmt (clone_insert r)
   | UpdateStmt r \<Rightarrow> UpdateStmt (clone_update r)
   | DeleteStmt r \<Rightarrow> DeleteStmt (clone_delete r)
   | CreateSnapshotStmt r \<Rightarrow> CreateSnapshotStmt (clone_snapshot r)
   | other \<Rightarrow> other)"

lemmas clone_stmt_defs = clone_stmt_def clone_insert_def copy_assignment_def clone_update_def
  clone_delete_def clone_snapshot_def

text \<open>A copy is an equal tree: no field of a node is left behind.\<close>

lemma clone_eq [simp]: "clone n = n"
  by (induction n) (auto intro!: map_idI order_item.map_ident_strong join_clause.map_ident_strong option.map_ident_strong)

lemma clone_stmt_eq: "clone_stmt s = s"
proof -
  have "clone = id" "copy_assignment = id" by (simp_all add: fun_eq_iff copy_assignment_def)
  then show ?thesis by (cases s) (simp_all add: clone_stmt_defs option.map_id)
qed

section \<open>The debugging dump\<close>

definition nl :: string where
  "nl = [CHR 0x0A]"

definition printIndent :: "nat \<Rightarrow> string" where
  "printIndent indent = concat (replicate indent ''  '')"

definition print_literal :: "(double \<Rightarrow> string) \<Rightarrow> literal \<Rightarrow> string" where
  "print_literal os_double v = (case v of
     INT_LIT i \<Rightarrow> string_of_int i
   | FLOAT_VAL d \<Rightarrow> os_double d
   | STRING_VAL s \<Rightarrow> [CHR 0x27] @ s @ [CHR 0x27]
   | NUL \<Rightarrow> ''NULL''
   | BOOL_VAL b \<Rightarrow> (if b then ''true'' else ''false''))"

primrec print_ast :: "(double \<Rightarrow> string) \<Rightarrow> ast \<Rightarrow> nat \<Rightarrow> string" where
  "print_ast os_double (Literal l c v) = (\<lambda>indent.
     printIndent indent @ ''Literal('' @ print_literal os_double v @ '')'' @ nl)"
| "print_ast os_double (ColumnRef l c table column alias) = (\<lambda>indent.
     printIndent indent @ ''ColumnRef('' @ (if table = [] then [] else table @ ''.'') @ column @
       (if alias = [] then [] else '' AS '' @ alias) @ '')'' @ nl)"
| "print_ast os_double (Wildcard l c table alias) = (\<lambda>indent.
     printIndent indent @ (if table \<noteq> [] then ''Wildcard('' @ table @ ''.*)'' else ''Wildcard(*)'') @ nl)"
| "print_ast os_double (BinaryOp l c oper left right alias) = (\<lambda>indent.
     printIndent indent @ ''BinaryOp('' @ oper @ '')'' @ nl @
       print_ast os_double left (indent + 1) @ print_ast os_double right (indent + 1))"
| "print_ast os_double (UnaryOp l c oper operand alias) = (\<lambda>indent.
     printIndent indent @ ''UnaryOp('' @ oper @ '')'' @ nl @ print_ast os_double operand (indent + 1))"
| "print_ast os_double (FunctionCall l c name args dist alias) = (\<lambda>indent.
     printIndent indent @ ''FunctionCall('' @ name @ (if dist then '' DISTINCT'' else []) @ '')'' @ nl @
       concat (map (\<lambda>p. p (indent + 1)) (map (print_ast os_double) args)))"
| "print_ast os_double (WindowFunc l c name parts orders alias) = (\<lambda>indent.
     printIndent indent @ ''WindowFunc('' @ name @ '' OVER ('' @
       (if parts = [] then [] else ''PARTITION BY ...'') @ '' ORDER BY ...))'' @ nl)"
| "print_ast os_double (SelectStmt l c dist cols fromTable fromAlias joins whr groups having orders lim off) =
     (\<lambda>indent.
       let part = (\<lambda>header p. case p of None \<Rightarrow> []
                    | Some p \<Rightarrow> printIndent (indent + 1) @ header @ nl @ p (indent + 2))
       in printIndent indent @ ''SelectStmt'' @ (if dist then '' DISTINCT'' else []) @ nl @
          printIndent (indent + 1) @ ''FROM: '' @ fromTable @
          (if fromAlias = [] then [] else '' AS '' @ fromAlias) @ nl @
          printIndent (indent + 1) @ ''COLUMNS:'' @ nl @
          concat (map (\<lambda>p. p (indent + 2)) (map (print_ast os_double) cols)) @
          part ''WHERE:'' (map_option (print_ast os_double) whr) @
          (if groups = [] then [] else printIndent (indent + 1) @ ''GROUP BY:'' @ nl @
             concat (map (\<lambda>p. p (indent + 2)) (map (print_ast os_double) groups))) @
          part ''HAVING:'' (map_option (print_ast os_double) having) @
          (if orders = [] then [] else printIndent (indent + 1) @ ''ORDER BY: (count='' @
             string_of_nat (length orders) @ '')'' @ nl) @
          part ''LIMIT:'' (map_option (print_ast os_double) lim) @
          part ''OFFSET:'' (map_option (print_ast os_double) off))"

definition print_spec :: "feature_spec \<Rightarrow> string" where
  "print_spec f = '' '' @ ft_name f @ (if ft_spec f = [] then [] else ''('' @ ft_spec f @ '')'')"

definition print_column_def :: "nat \<Rightarrow> column_def \<Rightarrow> string" where
  "print_column_def indent c =
     printIndent (indent + 1) @ ''  '' @ cd_name c @ '' '' @ cd_type c @
     (if primary_key c then '' PK'' else []) @ (if not_null c then '' NOT NULL'' else []) @
     (if fk_table c = [] then [] else '' FK('' @ fk_table c @ ''.'' @ fk_col c @ '')'') @ nl"

definition print_snapshot :: "(double \<Rightarrow> string) \<Rightarrow> create_snapshot \<Rightarrow> nat \<Rightarrow> string" where
  "print_snapshot os_double r indent =
     printIndent indent @ ''CreateSnapshotStmt('' @ cs_name r @ '')'' @ nl @
     (case cs_source r of None \<Rightarrow> []
      | Some q \<Rightarrow> printIndent (indent + 1) @ ''SOURCE:'' @ nl @ print_ast os_double q (indent + 2)) @
     printIndent (indent + 1) @ ''SPLIT BY: '' @ splitBy r @ nl @
     printIndent (indent + 1) @ ''SEED: '' @ string_of_nat (seed r) @ nl @
     printIndent (indent + 1) @ ''FEATURES:'' @ concat (map print_spec (features r)) @ nl @
     printIndent (indent + 1) @ ''LABEL:'' @ print_spec (cs_label r) @ nl"

definition print_context_query :: "string \<Rightarrow> context_query \<Rightarrow> string" where
  "print_context_query name r =
     name @ ''('' @ cq_context r @ '', token-budget '' @ string_of_nat (tokenBudget r) @ '', receipts '' @
     (if receipts r then ''on'' else ''off'') @ (if cq_tab r = [] then [] else '', tab '' @ cq_tab r) @ '')'' @ nl"

definition print_insert :: "insert_stmt \<Rightarrow> nat \<Rightarrow> string" where
  "print_insert r indent =
     printIndent indent @ ''InsertStmt(INTO '' @ ins_table r @ '')'' @ nl"

definition print_update :: "update_stmt \<Rightarrow> nat \<Rightarrow> string" where
  "print_update r indent =
     printIndent indent @ ''UpdateStmt('' @ upd_table r @ '')'' @ nl"

definition print_delete :: "delete_stmt \<Rightarrow> nat \<Rightarrow> string" where
  "print_delete r indent =
     printIndent indent @ ''DeleteStmt(FROM '' @ del_table r @ '')'' @ nl"

definition print_create :: "create_stmt \<Rightarrow> nat \<Rightarrow> string" where
  "print_create r indent =
     printIndent indent @ ''CreateStmt('' @ crt_table r @ '')'' @ nl @
       concat (map (print_column_def indent) (crt_columns r))"

definition print_drop :: "drop_stmt \<Rightarrow> nat \<Rightarrow> string" where
  "print_drop r indent =
     printIndent indent @ ''DropStmt('' @ drp_table r @ '')'' @ nl"

definition print_export_torch :: "export_torch \<Rightarrow> nat \<Rightarrow> string" where
  "print_export_torch r indent =
     printIndent indent @ ''ExportTorchStmt('' @ et_dataset r @ '', batch-size '' @
       string_of_nat (et_batchSize r) @ '', epoch '' @ string_of_nat (et_epoch r) @ '', rank '' @
       string_of_nat (et_rank r) @ ''/'' @ string_of_nat (et_worldSize r) @ '')'' @ nl"

definition print_explain_batch :: "explain_batch \<Rightarrow> nat \<Rightarrow> string" where
  "print_explain_batch r indent =
     printIndent indent @ ''ExplainBatchStmt('' @ eb_dataset r @ '', batch '' @
       string_of_nat (eb_batch r) @ '', batch-size '' @ string_of_nat (eb_batchSize r) @ '', epoch '' @
       string_of_nat (eb_epoch r) @ '', rank '' @ string_of_nat (eb_rank r) @ ''/'' @
       string_of_nat (eb_worldSize r) @ '')'' @ nl"

definition print_create_context :: "create_context \<Rightarrow> nat \<Rightarrow> string" where
  "print_create_context r indent =
     printIndent indent @ ''CreateContextStmt('' @ cc_name r @ '')'' @ nl"

definition print_append_memory :: "append_memory \<Rightarrow> nat \<Rightarrow> string" where
  "print_append_memory r indent =
     printIndent indent @ ''AppendMemoryStmt('' @ am_context r @ '', message '' @
       string_of_nat (am_messageId r) @ '', '' @ am_speaker r @ (if autoTab r then '', tab auto'' else []) @
       (if am_tab r = [] then [] else '', tab '' @ am_tab r) @ '')'' @ nl"

definition print_spill_context :: "context_query \<Rightarrow> nat \<Rightarrow> string" where
  "print_spill_context r indent = printIndent indent @ print_context_query ''SpillContextStmt'' r"

definition print_explain_context :: "context_query \<Rightarrow> nat \<Rightarrow> string" where
  "print_explain_context r indent = printIndent indent @ print_context_query ''ExplainContextStmt'' r"

definition print_tag_memory :: "tag_memory \<Rightarrow> nat \<Rightarrow> string" where
  "print_tag_memory r indent =
     printIndent indent @ ''TagMemoryStmt('' @ tm_context r @ '', message '' @
       string_of_nat (tm_messageId r) @ '', tab '' @ tm_tab r @ '')'' @ nl"

definition print_show_tabs :: "show_tabs \<Rightarrow> nat \<Rightarrow> string" where
  "print_show_tabs r indent =
     printIndent indent @ ''ShowTabsStmt('' @ st_context r @ '')'' @ nl"

definition print_show_schemas :: "show_schemas \<Rightarrow> nat \<Rightarrow> string" where
  "print_show_schemas r indent =
     printIndent indent @ ''ShowContextSchemasStmt()'' @ nl"

definition print_show_objects :: "show_objects \<Rightarrow> nat \<Rightarrow> string" where
  "print_show_objects r indent =
     printIndent indent @ ''ShowContextObjectsStmt('' @ so_context r @ '')'' @ nl"

definition print_alias_tab :: "alias_tab \<Rightarrow> nat \<Rightarrow> string" where
  "print_alias_tab r indent =
     printIndent indent @ ''AliasTabStmt('' @ at_context r @ '', '' @ at_alias r @
       '' -> '' @ at_target r @ '')'' @ nl"

definition print_merge_tabs :: "merge_tabs \<Rightarrow> nat \<Rightarrow> string" where
  "print_merge_tabs r indent =
     printIndent indent @ ''MergeTabsStmt('' @ mt_context r @ '', '' @ mt_from r @
       '' -> '' @ mt_to r @ '')'' @ nl"

definition print_stmt :: "(double \<Rightarrow> string) \<Rightarrow> stmt \<Rightarrow> nat \<Rightarrow> string" where
  "print_stmt os_double s indent = (case s of
     SelectNode q \<Rightarrow> print_ast os_double q indent
   | InsertStmt r \<Rightarrow> print_insert r indent
   | UpdateStmt r \<Rightarrow> print_update r indent
   | DeleteStmt r \<Rightarrow> print_delete r indent
   | CreateStmt r \<Rightarrow> print_create r indent
   | DropStmt r \<Rightarrow> print_drop r indent
   | CreateSnapshotStmt r \<Rightarrow> print_snapshot os_double r indent
   | ExportTorchStmt r \<Rightarrow> print_export_torch r indent
   | ExplainBatchStmt r \<Rightarrow> print_explain_batch r indent
   | CreateContextStmt r \<Rightarrow> print_create_context r indent
   | AppendMemoryStmt r \<Rightarrow> print_append_memory r indent
   | SpillContextStmt r \<Rightarrow> print_spill_context r indent
   | ExplainContextStmt r \<Rightarrow> print_explain_context r indent
   | TagMemoryStmt r \<Rightarrow> print_tag_memory r indent
   | ShowTabsStmt r \<Rightarrow> print_show_tabs r indent
   | ShowContextSchemasStmt r \<Rightarrow> print_show_schemas r indent
   | ShowContextObjectsStmt r \<Rightarrow> print_show_objects r indent
   | AliasTabStmt r \<Rightarrow> print_alias_tab r indent
   | MergeTabsStmt r \<Rightarrow> print_merge_tabs r indent)"

end
