(* ===== verification/Parser.thy ===== *)
theory Parser
  imports Token Ast
begin

text \<open>
  The recursive-descent parser (\<open>Parser\<close>, \<open>src/parser.h\<close> and \<open>src/parser.cpp\<close>): a cursor over
  the token vector, one function per grammar rule, errors as values. The rules for expressions
  call each other through \<open>parsePrimaryExpr\<close>; here each rule takes the rules below it as an
  argument and \<open>parseExpr\<close> ties the knot with fuel, which also bounds every loop. A run that
  would go on forever is \<open>Out_Of_Fuel\<close>; \<open>Parser_Termination\<close> shows that this cannot happen on
  the lexer's output with one unit of fuel per token. \<open>std::stod\<close> is the parameter \<open>stod\<close>
  (\<open>None\<close> is its \<open>std::out_of_range\<close>).
\<close>

section \<open>Token navigation\<close>

record parser =
  tokens :: "token list"
  tpos :: nat

datatype parse_error =
    ParseError string int int
  | Number_Out_Of_Range string

definition parse_what :: "string \<Rightarrow> int \<Rightarrow> int \<Rightarrow> string" where
  "parse_what msg l c = ''Error at line '' @ string_of_int l @ '', col '' @ string_of_int c @ '': '' @ msg"

datatype 'a parsed = Parsed 'a parser | Failed parse_error | Out_Of_Fuel

text \<open>Sequencing: an exception, or running out of fuel, skips the rest.\<close>

definition andThen :: "'a parsed \<Rightarrow> ('a \<Rightarrow> parser \<Rightarrow> 'b parsed) \<Rightarrow> 'b parsed" where
  "andThen m f = (case m of Parsed x p \<Rightarrow> f x p | Failed e \<Rightarrow> Failed e | Out_Of_Fuel \<Rightarrow> Out_Of_Fuel)"

lemma andThen_simps [simp]:
  "andThen (Parsed x p) f = f x p" "andThen (Failed e) f = Failed e" "andThen Out_Of_Fuel f = Out_Of_Fuel"
  by (simp_all add: andThen_def)

definition new_parser :: "token list \<Rightarrow> parser" where
  "new_parser toks = \<lparr>tokens = toks, tpos = 0\<rparr>"

definition peek :: "nat \<Rightarrow> parser \<Rightarrow> token" where
  "peek offset p =
     (let idx = tpos p + offset in if idx \<ge> length (tokens p) then last (tokens p) else tokens p ! idx)"

definition current :: "parser \<Rightarrow> token" where
  "current p = peek 0 p"

definition skip :: "parser \<Rightarrow> parser" where
  "skip p = (if tpos p + 1 < length (tokens p) then p\<lparr>tpos := tpos p + 1\<rparr> else p)"

definition advance :: "parser \<Rightarrow> token parsed" where
  "advance p = Parsed (tokens p ! tpos p) (skip p)"

definition check :: "token_type \<Rightarrow> parser \<Rightarrow> bool" where
  "check t p \<longleftrightarrow> ttype (current p) = t"

definition checkAny :: "token_type list \<Rightarrow> parser \<Rightarrow> bool" where
  "checkAny ts p \<longleftrightarrow> (\<exists>t\<in>set ts. check t p)"

text \<open>\<open>match\<close>: whether the token was there, and the cursor behind it if it was.\<close>

definition match :: "token_type \<Rightarrow> parser \<Rightarrow> bool parsed" where
  "match t p = (if check t p then Parsed True (skip p) else Parsed False p)"

abbreviation apostrophe :: char where
  "apostrophe \<equiv> CHR 0x27"

definition quoted :: "string \<Rightarrow> string" where
  "quoted s = [apostrophe] @ s @ [apostrophe]"

definition got :: "string \<Rightarrow> parser \<Rightarrow> 'a parsed" where
  "got msg p = Failed (ParseError (msg @ '' (got '' @ quoted (tvalue (current p)) @ '')'')
     (tline (current p)) (tcol (current p)))"

definition fail_at :: "string \<Rightarrow> parser \<Rightarrow> 'a parsed" where
  "fail_at msg p = Failed (ParseError msg (tline (current p)) (tcol (current p)))"

definition expect :: "token_type \<Rightarrow> string \<Rightarrow> parser \<Rightarrow> token parsed" where
  "expect t msg p = (if check t p then advance p else got msg p)"

definition lowerCopy :: "string \<Rightarrow> string" where
  "lowerCopy s = map tolower s"

definition wordEquals :: "token \<Rightarrow> string \<Rightarrow> bool" where
  "wordEquals token word \<longleftrightarrow> ttype token = IDENTIFIER \<and> lowerCopy (tvalue token) = lowerCopy word"

definition checkWord :: "string \<Rightarrow> parser \<Rightarrow> bool" where
  "checkWord word p \<longleftrightarrow> wordEquals (current p) word"

definition matchWord :: "string \<Rightarrow> parser \<Rightarrow> bool parsed" where
  "matchWord word p = (if checkWord word p then Parsed True (skip p) else Parsed False p)"

definition expectWord :: "string \<Rightarrow> string \<Rightarrow> parser \<Rightarrow> token parsed" where
  "expectWord word msg p = (if checkWord word p then advance p else got msg p)"

definition expectName :: "string \<Rightarrow> parser \<Rightarrow> token parsed" where
  "expectName msg p = (if ttype (current p) = IDENTIFIER then advance p else got msg p)"

definition isClauseBoundary :: "token \<Rightarrow> bool" where
  "isClauseBoundary token \<longleftrightarrow>
     ttype token \<in> {SEMICOLON, EOF_TOKEN, COMMA, RPAREN, SPLIT_BY, WITH_SEED, BATCH_SIZE, WORLD_SIZE} \<or>
     ttype token = IDENTIFIER \<and> lowerCopy (tvalue token) \<in>
       {''seed'', ''with'', ''features'', ''feature'', ''label'', ''shuffle'', ''epoch'', ''rank'',
        ''worker'', ''batch'', ''world_size'', ''batch_size''}"

definition tokenText :: "token \<Rightarrow> string" where
  "tokenText token =
     (if ttype token = STRING_LIT then quoted (tvalue token) else tvalue token)"

text \<open>\<open>item {',' item}\<close>: the loops \<open>while (match(TokenType::COMMA))\<close>.\<close>

fun comma_rest :: "nat \<Rightarrow> (parser \<Rightarrow> 'a parsed) \<Rightarrow> parser \<Rightarrow> 'a list parsed" where
  "comma_rest 0 item p = Out_Of_Fuel"
| "comma_rest (Suc n) item p =
     (if check COMMA p then
        andThen (item (skip p)) (\<lambda>x p.
        andThen (comma_rest n item p) (\<lambda>xs p. Parsed (x # xs) p))
      else Parsed [] p)"

definition comma_list :: "nat \<Rightarrow> (parser \<Rightarrow> 'a parsed) \<Rightarrow> parser \<Rightarrow> 'a list parsed" where
  "comma_list n item p =
     andThen (item p) (\<lambda>x p. andThen (comma_rest n item p) (\<lambda>xs p. Parsed (x # xs) p))"

text \<open>The same, where a comma before \<open>)\<close> ends the list.\<close>

fun comma_rest_paren :: "nat \<Rightarrow> (parser \<Rightarrow> 'a parsed) \<Rightarrow> parser \<Rightarrow> 'a list parsed" where
  "comma_rest_paren 0 item p = Out_Of_Fuel"
| "comma_rest_paren (Suc n) item p =
     (if check COMMA p then
        let p = skip p in
        if check RPAREN p then Parsed [] p
        else andThen (item p) (\<lambda>x p.
             andThen (comma_rest_paren n item p) (\<lambda>xs p. Parsed (x # xs) p))
      else Parsed [] p)"

text \<open>An optional clause: \<open>if (match(t)) x = item();\<close>.\<close>

definition optional :: "token_type \<Rightarrow> (parser \<Rightarrow> 'a parsed) \<Rightarrow> parser \<Rightarrow> 'a option parsed" where
  "optional t item p =
     (if check t p then andThen (item (skip p)) (\<lambda>x p. Parsed (Some x) p) else Parsed None p)"

definition optional_list :: "token_type \<Rightarrow> (parser \<Rightarrow> 'a list parsed) \<Rightarrow> parser \<Rightarrow> 'a list parsed" where
  "optional_list t item p = (if check t p then item (skip p) else Parsed [] p)"

section \<open>Expressions\<close>

text \<open>
  The loops of the left-associative levels: while the current token is one of \<open>ops\<close>, parse
  another operand. The node's operator is \<open>text\<close> of the operator token, its position that of
  the token.
\<close>

fun left_loop :: "nat \<Rightarrow> token_type list \<Rightarrow> (token \<Rightarrow> string) \<Rightarrow> (parser \<Rightarrow> ast parsed) \<Rightarrow>
    ast \<Rightarrow> parser \<Rightarrow> ast parsed" where
  "left_loop 0 ops oper operand left p = Out_Of_Fuel"
| "left_loop (Suc n) ops oper operand left p =
     (if checkAny ops p then
        let tok = current p in
        andThen (operand (skip p)) (\<lambda>right p.
        left_loop n ops oper operand (BinaryOp (tline tok) (tcol tok) (oper tok) left right []) p)
      else Parsed left p)"

fun parseUnaryExpr :: "nat \<Rightarrow> (parser \<Rightarrow> ast parsed) \<Rightarrow> parser \<Rightarrow> ast parsed" where
  "parseUnaryExpr 0 primary p = Out_Of_Fuel"
| "parseUnaryExpr (Suc n) primary p =
     (if check MINUS p then
        let tok = current p in
        andThen (parseUnaryExpr n primary (skip p)) (\<lambda>operand p.
        Parsed (UnaryOp (tline tok) (tcol tok) ''-'' operand []) p)
      else primary p)"

definition parseMulExpr :: "nat \<Rightarrow> (parser \<Rightarrow> ast parsed) \<Rightarrow> parser \<Rightarrow> ast parsed" where
  "parseMulExpr n primary p =
     andThen (parseUnaryExpr n primary p)
       (left_loop n [STAR, SLASH] tvalue (parseUnaryExpr n primary))"

definition parseAddExpr :: "nat \<Rightarrow> (parser \<Rightarrow> ast parsed) \<Rightarrow> parser \<Rightarrow> ast parsed" where
  "parseAddExpr n primary p =
     andThen (parseMulExpr n primary p)
       (left_loop n [PLUS_OP, MINUS, CONCAT] tvalue (parseMulExpr n primary))"

definition parseCompareExpr :: "nat \<Rightarrow> (parser \<Rightarrow> ast parsed) \<Rightarrow> parser \<Rightarrow> ast parsed" where
  "parseCompareExpr n primary p =
     andThen (parseAddExpr n primary p) (\<lambda>left p.
     if checkAny [EQ, NEQ, LT, GT, LTE, GTE] p then
       let tok = current p in
       andThen (parseAddExpr n primary (skip p)) (\<lambda>right p.
       Parsed (BinaryOp (tline tok) (tcol tok) (tvalue tok) left right []) p)
     else Parsed left p)"

fun parseNotExpr :: "nat \<Rightarrow> nat \<Rightarrow> (parser \<Rightarrow> ast parsed) \<Rightarrow> parser \<Rightarrow> ast parsed" where
  "parseNotExpr 0 n primary p = Out_Of_Fuel"
| "parseNotExpr (Suc k) n primary p =
     (if check NO_CAP_NOT p then
        let tok = current p in
        andThen (parseNotExpr k n primary (skip p)) (\<lambda>operand p.
        Parsed (UnaryOp (tline tok) (tcol tok) ''NOT'' operand []) p)
      else parseCompareExpr n primary p)"

definition parseAndExpr :: "nat \<Rightarrow> (parser \<Rightarrow> ast parsed) \<Rightarrow> parser \<Rightarrow> ast parsed" where
  "parseAndExpr n primary p =
     andThen (parseNotExpr n n primary p) (left_loop n [PLUS] (\<lambda>_. ''AND'') (parseNotExpr n n primary))"

definition parseOrExpr :: "nat \<Rightarrow> (parser \<Rightarrow> ast parsed) \<Rightarrow> parser \<Rightarrow> ast parsed" where
  "parseOrExpr n primary p =
     andThen (parseAndExpr n primary p) (left_loop n [OR_NAH] (\<lambda>_. ''OR'') (parseAndExpr n primary))"

section \<open>Queries\<close>

definition parseTableRef :: "parser \<Rightarrow> (string \<times> string) parsed" where
  "parseTableRef p =
     andThen (expect IDENTIFIER ''Expected table name'' p) (\<lambda>table p.
     if check LOWKEY p then
       andThen (expect IDENTIFIER ''Expected alias name'' (skip p)) (\<lambda>alias p.
       Parsed (tvalue table, tvalue alias) p)
     else Parsed (tvalue table, []) p)"

definition parseJoin :: "(parser \<Rightarrow> ast parsed) \<Rightarrow> parser \<Rightarrow> ast join_clause parsed" where
  "parseJoin expr p =
     (let rest = (\<lambda>kind p.
            andThen (parseTableRef p) (\<lambda>(table, alias) p.
            andThen (expect FR_FR (''Expected '' @ quoted ''fr-fr'' @ '' (ON)'') p) (\<lambda>_ p.
            andThen (expr p) (\<lambda>condition p.
            Parsed (JoinClause kind table alias (Some condition)) p))))
      in if check LEFT_LINK_UP p then rest LEFT (skip p)
         else if check MID_LINK_UP p then rest INNER (skip p)
         else andThen (expect LINK_UP ''Expected join keyword'' p) (\<lambda>_ p. rest INNER p))"

fun join_loop :: "nat \<Rightarrow> (parser \<Rightarrow> ast parsed) \<Rightarrow> parser \<Rightarrow> ast join_clause list parsed" where
  "join_loop 0 expr p = Out_Of_Fuel"
| "join_loop (Suc n) expr p =
     (if checkAny [LINK_UP, LEFT_LINK_UP, MID_LINK_UP] p then
        andThen (parseJoin expr p) (\<lambda>j p. andThen (join_loop n expr p) (\<lambda>js p. Parsed (j # js) p))
      else Parsed [] p)"

definition attach_alias :: "string \<Rightarrow> ast \<Rightarrow> ast" where
  "attach_alias alias e = (case e of
     ColumnRef l c table column _ \<Rightarrow> ColumnRef l c table column alias
   | FunctionCall l c name args dist _ \<Rightarrow> FunctionCall l c name args dist alias
   | BinaryOp l c oper left right _ \<Rightarrow> BinaryOp l c oper left right alias
   | UnaryOp l c oper operand _ \<Rightarrow> UnaryOp l c oper operand alias
   | WindowFunc l c name parts orders _ \<Rightarrow> WindowFunc l c name parts orders alias
   | Wildcard l c table _ \<Rightarrow> Wildcard l c table alias
   | other \<Rightarrow> other)"

definition parseSelectItem :: "(parser \<Rightarrow> ast parsed) \<Rightarrow> parser \<Rightarrow> ast parsed" where
  "parseSelectItem expr p =
     andThen (expr p) (\<lambda>e p.
     if check LOWKEY p then
       andThen (expect IDENTIFIER ''Expected alias name'' (skip p)) (\<lambda>alias p.
       Parsed (attach_alias (tvalue alias) e) p)
     else Parsed e p)"

definition parseSelectList :: "nat \<Rightarrow> (parser \<Rightarrow> ast parsed) \<Rightarrow> parser \<Rightarrow> ast list parsed" where
  "parseSelectList n expr p =
     (if check STAR p then Parsed [Wildcard (tline (current p)) (tcol (current p)) [] []] (skip p)
      else comma_list n (parseSelectItem expr) p)"

definition parseColumnList :: "nat \<Rightarrow> (parser \<Rightarrow> ast parsed) \<Rightarrow> parser \<Rightarrow> ast list parsed" where
  "parseColumnList n expr p = comma_list n expr p"

definition parse_order_item :: "(parser \<Rightarrow> ast parsed) \<Rightarrow> parser \<Rightarrow> ast order_item parsed" where
  "parse_order_item expr p =
     andThen (expr p) (\<lambda>e p.
     if check DOWN_BAD p then Parsed (OrderItem e False) (skip p)
     else andThen (match UP_ONLY p) (\<lambda>_ p. Parsed (OrderItem e True) p))"

definition parseOrderList :: "nat \<Rightarrow> (parser \<Rightarrow> ast parsed) \<Rightarrow> parser \<Rightarrow> ast order_item list parsed" where
  "parseOrderList n expr p = comma_list n (parse_order_item expr) p"

definition parseSelect :: "nat \<Rightarrow> (parser \<Rightarrow> ast parsed) \<Rightarrow> parser \<Rightarrow> ast parsed" where
  "parseSelect n expr p =
     (let first = current p in
      andThen (expect SLAY (''Expected '' @ quoted ''slay'') p) (\<lambda>_ p.
      andThen (match UNIQUE_FR p) (\<lambda>dist p.
      andThen (parseSelectList n expr p) (\<lambda>cols p.
      andThen (expect NO_CAP (''Expected '' @ quoted ''no-cap'' @ '' (FROM)'') p) (\<lambda>_ p.
      andThen (parseTableRef p) (\<lambda>(table, alias) p.
      andThen (join_loop n expr p) (\<lambda>joins p.
      andThen (optional ONLY_IF expr p) (\<lambda>whr p.
      andThen (optional_list VIBE_CHECK (parseColumnList n expr) p) (\<lambda>groups p.
      andThen (optional BUSSIN_ONLY expr p) (\<lambda>having p.
      andThen (optional_list HITS_DIFFERENT (parseOrderList n expr) p) (\<lambda>orders p.
      andThen (optional CAP_AT expr p) (\<lambda>lim p.
      andThen (optional SKIP expr p) (\<lambda>off p.
      Parsed (SelectStmt (tline first) (tcol first) dist cols table alias joins whr groups having
        orders lim off) p)))))))))))))"

section \<open>Primary expressions\<close>

definition parseFunctionCall :: "nat \<Rightarrow> (parser \<Rightarrow> ast parsed) \<Rightarrow> string \<Rightarrow> int \<Rightarrow> int \<Rightarrow> parser \<Rightarrow> ast parsed" where
  "parseFunctionCall n expr name l c p =
     (let close = (\<lambda>args dist p.
            andThen (expect RPAREN (''Expected '' @ quoted '')'') p) (\<lambda>_ p.
            Parsed (FunctionCall l c name args dist []) p))
      in andThen (expect LPAREN (''Expected '' @ quoted ''('' @ '' after function name'') p) (\<lambda>_ p.
         if name = ''headcount'' \<and> check STAR p then close [Wildcard l c [] []] False (skip p)
         else if name = ''headcount'' \<and> check UNIQUE_FR p then
           andThen (expr (skip p)) (\<lambda>e p. close [e] True p)
         else if check RPAREN p then Parsed (FunctionCall l c name [] False []) (skip p)
         else andThen (comma_list n expr p) (\<lambda>args p. close args False p)))"

definition parseEraExpr :: "nat \<Rightarrow> (parser \<Rightarrow> ast parsed) \<Rightarrow> int \<Rightarrow> int \<Rightarrow> parser \<Rightarrow> ast parsed" where
  "parseEraExpr n expr l c p =
     andThen (optional_list SPLIT_BY (parseColumnList n expr) p) (\<lambda>parts p.
     andThen (expect HITS_DIFFERENT
       (''Expected '' @ quoted ''hits-different'' @ '' (ORDER BY) in era expression'') p) (\<lambda>_ p.
     andThen (parseOrderList n expr p) (\<lambda>orders p.
     Parsed (WindowFunc l c ''RANK'' parts orders []) p)))"

definition aggregate_names :: "token_type list" where
  "aggregate_names =
     [HEADCOUNT, STACK, MID, GOAT, L_FUNC, BIGGEST_W, BIGGEST_L, MID_FR, PERCENT_CHECK, LONE_WOLF]"

definition parse_name :: "nat \<Rightarrow> (parser \<Rightarrow> ast parsed) \<Rightarrow> token \<Rightarrow> parser \<Rightarrow> ast parsed" where
  "parse_name n expr tok p =
     (let l = tline tok; c = tcol tok; name = tvalue tok in
      if check DOT p then
        let p = skip p in
        if check STAR p then Parsed (Wildcard l c name []) (skip p)
        else andThen (expect IDENTIFIER (''Expected column name after '' @ quoted ''.'') p) (\<lambda>column p.
             if check LPAREN p then parseFunctionCall n expr (name @ ''.'' @ tvalue column) l c p
             else Parsed (ColumnRef l c name (tvalue column) []) p)
      else if check LPAREN p then parseFunctionCall n expr name l c p
      else Parsed (ColumnRef l c [] name []) p)"

definition parsePrimaryExpr ::
    "(string \<Rightarrow> double option) \<Rightarrow> nat \<Rightarrow> (parser \<Rightarrow> ast parsed) \<Rightarrow> parser \<Rightarrow> ast parsed" where
  "parsePrimaryExpr stod n expr p =
     (let tok = current p; t = ttype tok; l = tline tok; c = tcol tok in
      if t = INTEGER_LIT then
        (case stoll (tvalue tok) of Inl _ \<Rightarrow> Failed (Number_Out_Of_Range ''stoll'')
         | Inr v \<Rightarrow> Parsed (makeInt v l c) (skip p))
      else if t = FLOAT_LIT then
        (case stod (tvalue tok) of None \<Rightarrow> Failed (Number_Out_Of_Range ''stod'')
         | Some d \<Rightarrow> Parsed (makeFloat d l c) (skip p))
      else if t = STRING_LIT then Parsed (makeString (tvalue tok) l c) (skip p)
      else if t = GHOSTED then Parsed (makeNull l c) (skip p)
      else if t = LPAREN then
        let p = skip p in
        andThen (if check SLAY p then parseSelect n expr p else expr p) (\<lambda>e p.
        andThen (expect RPAREN (''Expected '' @ quoted '')'') p) (\<lambda>_ p. Parsed e p))
      else if t = STAR then Parsed (Wildcard l c [] []) (skip p)
      else if t = ERA then parseEraExpr n expr l c (skip p)
      else if t \<in> set aggregate_names then parseFunctionCall n expr (tvalue tok) l c (skip p)
      else if t = IDENTIFIER then parse_name n expr tok (skip p)
      else Failed (ParseError (''Expected expression (got '' @ quoted (tvalue tok) @ '')'') l c))"

fun parseExpr :: "(string \<Rightarrow> double option) \<Rightarrow> nat \<Rightarrow> parser \<Rightarrow> ast parsed" where
  "parseExpr stod 0 p = Out_Of_Fuel"
| "parseExpr stod (Suc n) p =
     parseOrExpr (Suc n) (parsePrimaryExpr stod (Suc n) (parseExpr stod n)) p"

section \<open>Data statements\<close>

definition value_row :: "nat \<Rightarrow> (parser \<Rightarrow> ast parsed) \<Rightarrow> parser \<Rightarrow> ast list parsed" where
  "value_row n expr p =
     andThen (expect LPAREN (''Expected '' @ quoted ''('') p) (\<lambda>_ p.
     andThen (comma_list n expr p) (\<lambda>row p.
     andThen (expect RPAREN (''Expected '' @ quoted '')'') p) (\<lambda>_ p. Parsed row p)))"

definition column_name :: "parser \<Rightarrow> string parsed" where
  "column_name p = andThen (expect IDENTIFIER ''Expected column name'' p) (\<lambda>t p. Parsed (tvalue t) p)"

definition parseInsert :: "nat \<Rightarrow> (parser \<Rightarrow> ast parsed) \<Rightarrow> parser \<Rightarrow> insert_stmt parsed" where
  "parseInsert n expr p =
     (let first = current p in
      andThen (expect YEET_INTO (''Expected '' @ quoted ''yeet-into'') p) (\<lambda>_ p.
      andThen (expect IDENTIFIER ''Expected table name'' p) (\<lambda>table p.
      andThen (if check LPAREN p then
                 andThen (comma_list n column_name (skip p)) (\<lambda>cols p.
                 andThen (expect RPAREN (''Expected '' @ quoted '')'') p) (\<lambda>_ p. Parsed cols p))
               else Parsed [] p) (\<lambda>cols p.
      andThen (expect DRIP (''Expected '' @ quoted ''drip'' @ '' (VALUES)'') p) (\<lambda>_ p.
      andThen (comma_list n (value_row n expr) p) (\<lambda>rows p.
      Parsed \<lparr>ins_line = tline first, ins_col = tcol first, ins_table = tvalue table,
        ins_columns = cols, valueRows = rows\<rparr> p))))))"

definition parseAssignment :: "(parser \<Rightarrow> ast parsed) \<Rightarrow> parser \<Rightarrow> assignment parsed" where
  "parseAssignment expr p =
     andThen (expect IDENTIFIER ''Expected column name'' p) (\<lambda>column p.
     andThen (expect EQ (''Expected '' @ quoted ''='') p) (\<lambda>_ p.
     andThen (expr p) (\<lambda>e p.
     Parsed \<lparr>as_column = tvalue column, as_value = e\<rparr> p)))"

definition parseUpdate :: "nat \<Rightarrow> (parser \<Rightarrow> ast parsed) \<Rightarrow> parser \<Rightarrow> update_stmt parsed" where
  "parseUpdate n expr p =
     (let first = current p in
      andThen (expect GLOW_UP (''Expected '' @ quoted ''glow-up'') p) (\<lambda>_ p.
      andThen (expect IDENTIFIER ''Expected table name'' p) (\<lambda>table p.
      andThen (expect BE_LIKE (''Expected '' @ quoted ''be-like'' @ '' (SET)'') p) (\<lambda>_ p.
      andThen (comma_list n (parseAssignment expr) p) (\<lambda>assignments p.
      andThen (optional ONLY_IF expr p) (\<lambda>whr p.
      Parsed \<lparr>upd_line = tline first, upd_col = tcol first, upd_table = tvalue table,
        sets = assignments, upd_where = whr\<rparr> p))))))"

definition parseDelete :: "(parser \<Rightarrow> ast parsed) \<Rightarrow> parser \<Rightarrow> delete_stmt parsed" where
  "parseDelete expr p =
     (let first = current p in
      andThen (expect RATIO (''Expected '' @ quoted ''ratio'') p) (\<lambda>_ p.
      andThen (expect IDENTIFIER ''Expected table name'' p) (\<lambda>table p.
      andThen (optional ONLY_IF expr p) (\<lambda>whr p.
      Parsed \<lparr>del_line = tline first, del_col = tcol first, del_table = tvalue table,
        del_where = whr\<rparr> p))))"

section \<open>Table definitions\<close>

fun column_constraints :: "nat \<Rightarrow> column_def \<Rightarrow> parser \<Rightarrow> column_def parsed" where
  "column_constraints 0 def p = Out_Of_Fuel"
| "column_constraints (Suc n) def p =
     (if check MAIN_CHARACTER p then column_constraints n (def\<lparr>primary_key := True\<rparr>) (skip p)
      else if check NO_CAP_NOT p then
        andThen (expect GHOSTED
          (''Expected '' @ quoted ''ghosted'' @ '' (NULL) after '' @ quoted ''no-cap-not'') (skip p)) (\<lambda>_ p.
        column_constraints n (def\<lparr>not_null := True\<rparr>) p)
      else if check SIDE_CHARACTER p then
        let p = skip p in
        if ttype (current p) \<noteq> IDENTIFIER \<or> tvalue (current p) \<noteq> ''references''
        then fail_at (''Expected '' @ quoted ''references'' @ '' after '' @ quoted ''side-character'') p
        else andThen (expect IDENTIFIER ''Expected foreign table name'' (skip p)) (\<lambda>table p.
             andThen (expect LPAREN (''Expected '' @ quoted ''('') p) (\<lambda>_ p.
             andThen (expect IDENTIFIER ''Expected foreign column name'' p) (\<lambda>column p.
             andThen (expect RPAREN (''Expected '' @ quoted '')'') p) (\<lambda>_ p.
             column_constraints n (def\<lparr>fk_table := tvalue table, fk_col := tvalue column\<rparr>) p))))
      else Parsed def p)"

definition parseColumnDef :: "nat \<Rightarrow> parser \<Rightarrow> column_def parsed" where
  "parseColumnDef n p =
     andThen (expect IDENTIFIER ''Expected column name'' p) (\<lambda>name p.
     let typeTok = current p in
     if ttype typeTok = IDENTIFIER then
       column_constraints n
         \<lparr>cd_name = tvalue name, cd_type = tvalue typeTok, primary_key = False, not_null = False,
          fk_table = [], fk_col = []\<rparr> (skip p)
     else fail_at ''Expected type name (INTEGER, TEXT, REAL, BLOB)'' p)"

definition parseCreate :: "nat \<Rightarrow> parser \<Rightarrow> create_stmt parsed" where
  "parseCreate n p =
     (let first = current p in
      andThen (expect MANIFEST (''Expected '' @ quoted ''manifest'') p) (\<lambda>_ p.
      andThen (expect IDENTIFIER ''Expected table name'' p) (\<lambda>table p.
      andThen (expect LPAREN (''Expected '' @ quoted ''('') p) (\<lambda>_ p.
      andThen (parseColumnDef n p) (\<lambda>def p.
      andThen (comma_rest_paren n (parseColumnDef n) p) (\<lambda>defs p.
      andThen (expect RPAREN (''Expected '' @ quoted '')'') p) (\<lambda>_ p.
      Parsed \<lparr>crt_line = tline first, crt_col = tcol first, crt_table = tvalue table,
        crt_columns = def # defs, ifNotExists = False\<rparr> p)))))))"

definition parseDrop :: "parser \<Rightarrow> drop_stmt parsed" where
  "parseDrop p =
     (let first = current p in
      andThen (expect RIZZ_DOWN (''Expected '' @ quoted ''rizz-down'') p) (\<lambda>_ p.
      andThen (expect IDENTIFIER ''Expected table name'' p) (\<lambda>table p.
      Parsed \<lparr>drp_line = tline first, drp_col = tcol first, drp_table = tvalue table,
        ifExists = False\<rparr> p)))"

section \<open>Snapshots and exports\<close>

definition parseUnsignedOption :: "string \<Rightarrow> parser \<Rightarrow> nat parsed" where
  "parseUnsignedOption name p =
     (if ttype (current p) \<noteq> INTEGER_LIT then fail_at (''Expected integer for '' @ name) p
      else case stoull (tvalue (current p)) of
             Inl _ \<Rightarrow> Failed (Number_Out_Of_Range ''stoull'') | Inr v \<Rightarrow> Parsed v (skip p))"

text \<open>The loop that joins the tokens of a specification with blanks.\<close>

fun spec_words :: "nat \<Rightarrow> parser \<Rightarrow> string list parsed" where
  "spec_words 0 p = Out_Of_Fuel"
| "spec_words (Suc n) p =
     (if isClauseBoundary (current p) then Parsed [] p
      else andThen (spec_words n (skip p)) (\<lambda>ws q. Parsed (tokenText (current p) # ws) q))"

fun join_words :: "string list \<Rightarrow> string" where
  "join_words [] = []"
| "join_words [w] = w"
| "join_words (w # ws) = w @ '' '' @ join_words ws"

definition parseFeatureSpec :: "nat \<Rightarrow> parser \<Rightarrow> feature_spec parsed" where
  "parseFeatureSpec n p =
     andThen (expectName ''Expected feature column'' p) (\<lambda>name p.
     andThen (spec_words n p) (\<lambda>ws p.
     Parsed \<lparr>ft_name = tvalue name, ft_spec = join_words ws\<rparr> p))"

definition parseLabelSpec :: "nat \<Rightarrow> parser \<Rightarrow> feature_spec parsed" where
  "parseLabelSpec n p =
     andThen (expectName ''Expected label column'' p) (\<lambda>name p.
     andThen (spec_words n p) (\<lambda>ws p.
     Parsed \<lparr>ft_name = tvalue name, ft_spec = join_words ws\<rparr> p))"

definition parseFeatureSpecs :: "nat \<Rightarrow> parser \<Rightarrow> feature_spec list parsed" where
  "parseFeatureSpecs n p =
     (if check LPAREN p then
        let p = skip p in
        if check RPAREN p then Parsed [] (skip p)
        else andThen (parseFeatureSpec n p) (\<lambda>f p.
             andThen (comma_rest_paren n (parseFeatureSpec n) p) (\<lambda>fs p.
             andThen (expect RPAREN (''Expected '' @ quoted '')'' @ '' after feature list'') p) (\<lambda>_ p.
             Parsed (f # fs) p)))
      else andThen (parseFeatureSpec n p) (\<lambda>f p. Parsed [f] p))"

definition at_statement_end :: "parser \<Rightarrow> bool" where
  "at_statement_end p \<longleftrightarrow> check SEMICOLON p \<or> check EOF_TOKEN p"

definition accept_word :: "string \<Rightarrow> parser \<Rightarrow> parser" where
  "accept_word word p = (if checkWord word p then skip p else p)"

fun snapshot_clauses :: "nat \<Rightarrow> create_snapshot \<Rightarrow> parser \<Rightarrow> create_snapshot parsed" where
  "snapshot_clauses 0 s p = Out_Of_Fuel"
| "snapshot_clauses (Suc n) s p =
     (if at_statement_end p then Parsed s p
      else if check SPLIT_BY p \<or> checkWord ''split'' p then
        let p = accept_word ''by'' (skip p);
            p = (if checkWord ''random'' p then accept_word ''by'' (skip p) else p)
        in andThen (expectName ''Expected split key'' p) (\<lambda>key p.
           snapshot_clauses n (s\<lparr>splitBy := tvalue key\<rparr>) p)
      else if check WITH_SEED p \<or> checkWord ''seed'' p then
        andThen (parseUnsignedOption ''seed'' (skip p)) (\<lambda>v p. snapshot_clauses n (s\<lparr>seed := v\<rparr>) p)
      else if checkWord ''with'' p then
        andThen (expectWord ''seed'' (''Expected '' @ quoted ''seed'' @ '' after WITH'') (skip p)) (\<lambda>_ p.
        andThen (parseUnsignedOption ''seed'' p) (\<lambda>v p. snapshot_clauses n (s\<lparr>seed := v\<rparr>) p))
      else if checkWord ''features'' p \<or> checkWord ''feature'' p then
        andThen (parseFeatureSpecs n (skip p)) (\<lambda>fs p. snapshot_clauses n (s\<lparr>features := fs\<rparr>) p)
      else if checkWord ''label'' p then
        andThen (parseLabelSpec n (skip p)) (\<lambda>f p. snapshot_clauses n (s\<lparr>cs_label := f\<rparr>) p)
      else fail_at ''Expected snapshot clause (split-by, with-seed, features, label)'' p)"

definition snapshot_command :: "parser \<Rightarrow> unit parsed" where
  "snapshot_command p =
     (if check MANIFEST_DATASET p \<or> check MANIFEST_SNAPSHOT p then Parsed () (skip p)
      else andThen (expectWord ''create'' (''Expected '' @ quoted ''create'') p) (\<lambda>_ p.
           if checkWord ''dataset'' p \<or> checkWord ''snapshot'' p then Parsed () (skip p)
           else fail_at (''Expected '' @ quoted ''dataset'' @ '' or '' @ quoted ''snapshot'' @ '' after CREATE'') p))"

definition parseCreateSnapshot :: "nat \<Rightarrow> (parser \<Rightarrow> ast parsed) \<Rightarrow> parser \<Rightarrow> create_snapshot parsed" where
  "parseCreateSnapshot n expr p =
     (let first = current p in
      andThen (snapshot_command p) (\<lambda>_ p.
      andThen (expectName ''Expected snapshot name'' p) (\<lambda>name p.
      if check LOWKEY p \<or> checkWord ''as'' p then
        andThen (parseSelect n expr (skip p)) (\<lambda>q p.
        snapshot_clauses n
          \<lparr>cs_line = tline first, cs_col = tcol first, cs_name = tvalue name, cs_source = Some q,
           splitBy = [], seed = 0, features = [], cs_label = \<lparr>ft_name = [], ft_spec = []\<rparr>\<rparr> p)
      else fail_at (''Expected '' @ quoted ''lowkey'' @ ''/'' @ quoted ''as'' @ '' before snapshot query'') p)))"

text \<open>The native keyword of a command, or its two plain words.\<close>

definition command_words :: "token_type list \<Rightarrow> string \<Rightarrow> string \<Rightarrow> parser \<Rightarrow> unit parsed" where
  "command_words native word1 word2 p =
     (if checkAny native p then Parsed () (skip p)
      else andThen (expectWord word1 (''Expected '' @ quoted word1) p) (\<lambda>_ p.
           andThen (expectWord word2 (''Expected '' @ quoted word2) p) (\<lambda>_ p. Parsed () p)))"

fun export_options :: "nat \<Rightarrow> export_torch \<Rightarrow> parser \<Rightarrow> export_torch parsed" where
  "export_options 0 s p = Out_Of_Fuel"
| "export_options (Suc n) s p =
     (if at_statement_end p then Parsed s p
      else if check BATCH_SIZE p \<or> checkWord ''batch_size'' p then
        andThen (parseUnsignedOption ''batch-size'' (skip p)) (\<lambda>v p. export_options n (s\<lparr>et_batchSize := v\<rparr>) p)
      else if checkWord ''shuffle'' p then
        export_options n (s\<lparr>deterministicShuffle := True\<rparr>) (accept_word ''deterministic'' (skip p))
      else if checkWord ''deterministic'' p then
        export_options n (s\<lparr>deterministicShuffle := True\<rparr>) (skip p)
      else if checkWord ''epoch'' p then
        andThen (parseUnsignedOption ''epoch'' (skip p)) (\<lambda>v p. export_options n (s\<lparr>et_epoch := v\<rparr>) p)
      else if checkWord ''rank'' p then
        andThen (parseUnsignedOption ''rank'' (skip p)) (\<lambda>v p. export_options n (s\<lparr>et_rank := v\<rparr>) p)
      else if check WORLD_SIZE p \<or> checkWord ''world_size'' p then
        andThen (parseUnsignedOption ''world-size'' (skip p)) (\<lambda>v p. export_options n (s\<lparr>et_worldSize := v\<rparr>) p)
      else fail_at ''Expected export option'' p)"

definition parseExportTorch :: "nat \<Rightarrow> parser \<Rightarrow> export_torch parsed" where
  "parseExportTorch n p =
     (let first = current p in
      andThen (command_words [EXPORT_TORCH, SHIP_TORCH] ''export'' ''torch'' p) (\<lambda>_ p.
      andThen (expectName ''Expected snapshot name'' p) (\<lambda>name p.
      export_options n
        \<lparr>et_line = tline first, et_col = tcol first, et_dataset = tvalue name, et_batchSize = 256,
         deterministicShuffle = True, et_epoch = 0, et_rank = 0, et_worldSize = 1\<rparr> p)))"

fun explain_batch_options :: "nat \<Rightarrow> explain_batch \<Rightarrow> parser \<Rightarrow> explain_batch parsed" where
  "explain_batch_options 0 s p = Out_Of_Fuel"
| "explain_batch_options (Suc n) s p =
     (if at_statement_end p then Parsed s p
      else if check BATCH_SIZE p \<or> checkWord ''batch_size'' p then
        andThen (parseUnsignedOption ''batch-size'' (skip p)) (\<lambda>v p. explain_batch_options n (s\<lparr>eb_batchSize := v\<rparr>) p)
      else if checkWord ''epoch'' p then
        andThen (parseUnsignedOption ''epoch'' (skip p)) (\<lambda>v p. explain_batch_options n (s\<lparr>eb_epoch := v\<rparr>) p)
      else if checkWord ''batch'' p then
        andThen (parseUnsignedOption ''batch'' (skip p)) (\<lambda>v p. explain_batch_options n (s\<lparr>eb_batch := v\<rparr>) p)
      else if checkWord ''rank'' p then
        andThen (parseUnsignedOption ''rank'' (skip p)) (\<lambda>v p. explain_batch_options n (s\<lparr>eb_rank := v\<rparr>) p)
      else if check WORLD_SIZE p \<or> checkWord ''world_size'' p then
        andThen (parseUnsignedOption ''world-size'' (skip p)) (\<lambda>v p. explain_batch_options n (s\<lparr>eb_worldSize := v\<rparr>) p)
      else fail_at ''Expected explain-batch option'' p)"

definition parseExplainBatch :: "nat \<Rightarrow> parser \<Rightarrow> explain_batch parsed" where
  "parseExplainBatch n p =
     (let first = current p in
      andThen (command_words [EXPLAIN_BATCH, SPILL_BATCH] ''explain'' ''batch'' p) (\<lambda>_ p.
      andThen (expectName ''Expected snapshot name'' p) (\<lambda>name p.
      explain_batch_options n
        \<lparr>eb_line = tline first, eb_col = tcol first, eb_dataset = tvalue name, eb_batchSize = 256,
         eb_epoch = 0, eb_batch = 0, eb_rank = 0, eb_worldSize = 1\<rparr> p)))"

section \<open>Contexts\<close>

definition parseCreateContext :: "parser \<Rightarrow> create_context parsed" where
  "parseCreateContext p =
     (let first = current p in
      andThen (command_words [MANIFEST_CONTEXT] ''create'' ''context'' p) (\<lambda>_ p.
      andThen (expectName ''Expected context name'' p) (\<lambda>name p.
      Parsed \<lparr>cc_line = tline first, cc_col = tcol first, cc_name = tvalue name\<rparr> p)))"

definition parseAppendMemory :: "parser \<Rightarrow> append_memory parsed" where
  "parseAppendMemory p =
     (let first = current p in
      andThen (command_words [YEET_MEMORY] ''append'' ''memory'' p) (\<lambda>_ p.
      andThen (expectName ''Expected context name'' p) (\<lambda>name p.
      andThen (expect DRIP (''Expected '' @ quoted ''drip'' @ '' before memory tuple'') p) (\<lambda>_ p.
      andThen (expect LPAREN (''Expected '' @ quoted ''('') p) (\<lambda>_ p.
      andThen (parseUnsignedOption ''message-id'' p) (\<lambda>i p.
      andThen (expect COMMA (''Expected '' @ quoted '','' @ '' after message id'') p) (\<lambda>_ p.
      andThen (expect STRING_LIT ''Expected speaker string'' p) (\<lambda>speaker p.
      andThen (expect COMMA (''Expected '' @ quoted '','' @ '' after speaker'') p) (\<lambda>_ p.
      andThen (expect STRING_LIT ''Expected message text'' p) (\<lambda>message p.
      andThen (expect RPAREN (''Expected '' @ quoted '')'') p) (\<lambda>_ p.
      let s = \<lparr>am_line = tline first, am_col = tcol first, am_context = tvalue name, am_messageId = i,
               am_speaker = tvalue speaker, am_text = tvalue message, am_tab = [], autoTab = False\<rparr>
      in if check VIBE_TAB p \<or> checkWord ''tab'' p then
           let p = skip p in
           if checkWord ''auto'' p then Parsed (s\<lparr>autoTab := True\<rparr>) (skip p)
           else andThen (expect STRING_LIT ''Expected tab string or auto'' p) (\<lambda>tab p.
                Parsed (s\<lparr>am_tab := tvalue tab\<rparr>) p)
         else Parsed s p)))))))))))"

fun spill_options :: "nat \<Rightarrow> context_query \<Rightarrow> parser \<Rightarrow> context_query parsed" where
  "spill_options 0 s p = Out_Of_Fuel"
| "spill_options (Suc n) s p =
     (if at_statement_end p then Parsed s p
      else if check ONLY_IF p \<or> checkWord ''query'' p then
        andThen (expect STRING_LIT ''Expected query string'' (skip p)) (\<lambda>v p.
        spill_options n (s\<lparr>cq_query := tvalue v\<rparr>) p)
      else if check TOKEN_BUDGET p \<or> checkWord ''token_budget'' p then
        andThen (parseUnsignedOption ''token-budget'' (skip p)) (\<lambda>v p.
        spill_options n (s\<lparr>tokenBudget := v\<rparr>) p)
      else if check VIBE_TAB p \<or> checkWord ''tab'' p then
        andThen (expect STRING_LIT ''Expected tab string'' (skip p)) (\<lambda>v p.
        spill_options n (s\<lparr>cq_tab := tvalue v\<rparr>) p)
      else if checkWord ''receipts'' p then
        let p = skip p in
        if checkWord ''off'' p then spill_options n (s\<lparr>receipts := False\<rparr>) (skip p)
        else spill_options n (s\<lparr>receipts := True\<rparr>) (accept_word ''on'' p)
      else fail_at ''Expected context option'' p)"

definition parseSpillContext :: "nat \<Rightarrow> parser \<Rightarrow> context_query parsed" where
  "parseSpillContext n p =
     (let first = current p in
      andThen (command_words [SPILL_CONTEXT] ''spill'' ''context'' p) (\<lambda>_ p.
      andThen (expectName ''Expected context name'' p) (\<lambda>name p.
      spill_options n
        \<lparr>cq_line = tline first, cq_col = tcol first, cq_context = tvalue name, cq_query = [],
         cq_tab = [], tokenBudget = 1200, receipts = True\<rparr> p)))"

fun explain_options :: "nat \<Rightarrow> context_query \<Rightarrow> parser \<Rightarrow> context_query parsed" where
  "explain_options 0 s p = Out_Of_Fuel"
| "explain_options (Suc n) s p =
     (if at_statement_end p then Parsed s p
      else if check ONLY_IF p \<or> checkWord ''query'' p then
        andThen (expect STRING_LIT ''Expected query string'' (skip p)) (\<lambda>v p.
        explain_options n (s\<lparr>cq_query := tvalue v\<rparr>) p)
      else if check TOKEN_BUDGET p \<or> checkWord ''token_budget'' p then
        andThen (parseUnsignedOption ''token-budget'' (skip p)) (\<lambda>v p.
        explain_options n (s\<lparr>tokenBudget := v\<rparr>) p)
      else if check VIBE_TAB p \<or> checkWord ''tab'' p then
        andThen (expect STRING_LIT ''Expected tab string'' (skip p)) (\<lambda>v p.
        explain_options n (s\<lparr>cq_tab := tvalue v\<rparr>) p)
      else if checkWord ''receipts'' p then
        let p = skip p in
        if checkWord ''off'' p then explain_options n (s\<lparr>receipts := False\<rparr>) (skip p)
        else explain_options n (s\<lparr>receipts := True\<rparr>) (accept_word ''on'' p)
      else fail_at ''Expected context explain option'' p)"

definition parseExplainContext :: "nat \<Rightarrow> parser \<Rightarrow> context_query parsed" where
  "parseExplainContext n p =
     (let first = current p in
      andThen (command_words [EXPLAIN_CONTEXT] ''explain'' ''context'' p) (\<lambda>_ p.
      andThen (expectName ''Expected context name'' p) (\<lambda>name p.
      explain_options n
        \<lparr>cq_line = tline first, cq_col = tcol first, cq_context = tvalue name, cq_query = [],
         cq_tab = [], tokenBudget = 1200, receipts = True\<rparr> p)))"

definition parseTagMemory :: "parser \<Rightarrow> tag_memory parsed" where
  "parseTagMemory p =
     (let first = current p in
      andThen (command_words [VIBE_TAB] ''tag'' ''memory'' p) (\<lambda>_ p.
      andThen (expectName ''Expected context name'' p) (\<lambda>name p.
      andThen (expectWord ''message'' (''Expected '' @ quoted ''message'') p) (\<lambda>_ p.
      andThen (parseUnsignedOption ''message-id'' p) (\<lambda>i p.
      andThen (expect STRING_LIT ''Expected tab string'' p) (\<lambda>tab p.
      Parsed \<lparr>tm_line = tline first, tm_col = tcol first, tm_context = tvalue name,
        tm_messageId = i, tm_tab = tvalue tab\<rparr> p))))))"

definition parseShowTabs :: "parser \<Rightarrow> show_tabs parsed" where
  "parseShowTabs p =
     (let first = current p in
      andThen (command_words [SHOW_TABS] ''show'' ''tabs'' p) (\<lambda>_ p.
      andThen (expectName ''Expected context name'' p) (\<lambda>name p.
      Parsed \<lparr>st_line = tline first, st_col = tcol first, st_context = tvalue name\<rparr> p)))"

definition parseShowContextSchemas :: "parser \<Rightarrow> show_schemas parsed" where
  "parseShowContextSchemas p =
     (let s = \<lparr>ss_line = tline (current p), ss_col = tcol (current p)\<rparr>;
          schemas = (\<lambda>p. andThen (expectWord ''schemas'' (''Expected '' @ quoted ''schemas'') p) (\<lambda>_ p. Parsed s p))
      in if check SHOW_CONTEXT_SCHEMAS p then Parsed s (skip p)
         else andThen (expectWord ''show'' (''Expected '' @ quoted ''show'') p) (\<lambda>_ p.
              if checkWord ''context'' p then schemas (skip p)
              else if checkWord ''context-schemas'' p then Parsed s (skip p)
              else schemas p))"

definition parseShowContextObjects :: "parser \<Rightarrow> show_objects parsed" where
  "parseShowContextObjects p =
     (let first = current p in
      andThen (if check SHOW_CONTEXT_OBJECTS p then Parsed () (skip p)
               else andThen (expectWord ''show'' (''Expected '' @ quoted ''show'') p) (\<lambda>_ p.
                    if checkWord ''context'' p then
                      andThen (expectWord ''objects'' (''Expected '' @ quoted ''objects'') (skip p)) (\<lambda>_ p. Parsed () p)
                    else andThen (expectWord ''context-objects'' (''Expected '' @ quoted ''context-objects'') p)
                           (\<lambda>_ p. Parsed () p))) (\<lambda>_ p.
      andThen (expectName ''Expected context name'' p) (\<lambda>name p.
      Parsed \<lparr>so_line = tline first, so_col = tcol first, so_context = tvalue name\<rparr> p)))"

definition parseAliasTab :: "parser \<Rightarrow> alias_tab parsed" where
  "parseAliasTab p =
     (let first = current p in
      andThen (command_words [ALIAS_TAB] ''alias'' ''tab'' p) (\<lambda>_ p.
      andThen (expectName ''Expected context name'' p) (\<lambda>name p.
      andThen (expect STRING_LIT ''Expected alias tab string'' p) (\<lambda>alias p.
      andThen (expectWord ''to'' (''Expected '' @ quoted ''to'') p) (\<lambda>_ p.
      andThen (expect STRING_LIT ''Expected target tab string'' p) (\<lambda>target p.
      Parsed \<lparr>at_line = tline first, at_col = tcol first, at_context = tvalue name,
        at_alias = tvalue alias, at_target = tvalue target\<rparr> p))))))"

definition parseMergeTabs :: "parser \<Rightarrow> merge_tabs parsed" where
  "parseMergeTabs p =
     (let first = current p in
      andThen (command_words [MERGE_TABS] ''merge'' ''tabs'' p) (\<lambda>_ p.
      andThen (expectName ''Expected context name'' p) (\<lambda>name p.
      andThen (expect STRING_LIT ''Expected source tab string'' p) (\<lambda>source p.
      andThen (expectWord ''into'' (''Expected '' @ quoted ''into'') p) (\<lambda>_ p.
      andThen (expect STRING_LIT ''Expected target tab string'' p) (\<lambda>target p.
      Parsed \<lparr>mt_line = tline first, mt_col = tcol first, mt_context = tvalue name,
        mt_from = tvalue source, mt_to = tvalue target\<rparr> p))))))"

section \<open>Statements\<close>

definition returning :: "('a \<Rightarrow> 'b) \<Rightarrow> 'a parsed \<Rightarrow> 'b parsed" where
  "returning node m = andThen m (\<lambda>s p. Parsed (node s) p)"

definition statement_expected :: string where
  "statement_expected =
     ''Expected statement keyword (slay, yeet-into, glow-up, ratio, manifest, rizz-down, '' @
     ''manifest-snapshot, ship-torch, spill-batch, manifest-context, yeet-memory, spill-context, '' @
     ''explain-context, show-tabs, show-context-schemas, show-context-objects, alias-tab, merge-tabs, '' @
     ''vibe-tab)''"

definition plain_statement :: "nat \<Rightarrow> (parser \<Rightarrow> ast parsed) \<Rightarrow> parser \<Rightarrow> stmt parsed" where
  "plain_statement n expr p =
     (let word1 = (\<lambda>w. checkWord w p); word2 = (\<lambda>w. wordEquals (peek 1 p) w); word3 = (\<lambda>w. wordEquals (peek 2 p) w)
      in if word1 ''create'' \<and> (word2 ''dataset'' \<or> word2 ''snapshot'') then
           returning CreateSnapshotStmt (parseCreateSnapshot n expr p)
         else if word1 ''create'' \<and> word2 ''context'' then returning CreateContextStmt (parseCreateContext p)
         else if word1 ''append'' \<and> word2 ''memory'' then returning AppendMemoryStmt (parseAppendMemory p)
         else if word1 ''tag'' \<and> word2 ''memory'' then returning TagMemoryStmt (parseTagMemory p)
         else if word1 ''show'' \<and> word2 ''tabs'' then returning ShowTabsStmt (parseShowTabs p)
         else if word1 ''show'' \<and> (word2 ''context-schemas'' \<or> word2 ''schemas'' \<or>
                   word2 ''context'' \<and> word3 ''schemas'') then
           returning ShowContextSchemasStmt (parseShowContextSchemas p)
         else if word1 ''show'' \<and> (word2 ''context-objects'' \<or> word2 ''context'' \<and> word3 ''objects'') then
           returning ShowContextObjectsStmt (parseShowContextObjects p)
         else if word1 ''alias'' \<and> word2 ''tab'' then returning AliasTabStmt (parseAliasTab p)
         else if word1 ''merge'' \<and> word2 ''tabs'' then returning MergeTabsStmt (parseMergeTabs p)
         else if word1 ''export'' \<and> word2 ''torch'' then returning ExportTorchStmt (parseExportTorch n p)
         else if word1 ''explain'' \<and> word2 ''batch'' then returning ExplainBatchStmt (parseExplainBatch n p)
         else if word1 ''explain'' \<and> word2 ''context'' then returning ExplainContextStmt (parseExplainContext n p)
         else if word1 ''spill'' \<and> word2 ''context'' then returning SpillContextStmt (parseSpillContext n p)
         else fail_at statement_expected p)"

definition statement_body :: "nat \<Rightarrow> (parser \<Rightarrow> ast parsed) \<Rightarrow> parser \<Rightarrow> stmt parsed" where
  "statement_body n expr p =
     (let t = ttype (current p) in
      if t = SLAY then returning SelectNode (parseSelect n expr p)
      else if t = YEET_INTO then returning InsertStmt (parseInsert n expr p)
      else if t = GLOW_UP then returning UpdateStmt (parseUpdate n expr p)
      else if t = RATIO then returning DeleteStmt (parseDelete expr p)
      else if t = MANIFEST then returning CreateStmt (parseCreate n p)
      else if t = RIZZ_DOWN then returning DropStmt (parseDrop p)
      else if t = MANIFEST_DATASET \<or> t = MANIFEST_SNAPSHOT then
        returning CreateSnapshotStmt (parseCreateSnapshot n expr p)
      else if t = EXPORT_TORCH \<or> t = SHIP_TORCH then returning ExportTorchStmt (parseExportTorch n p)
      else if t = EXPLAIN_BATCH \<or> t = SPILL_BATCH then returning ExplainBatchStmt (parseExplainBatch n p)
      else if t = MANIFEST_CONTEXT then returning CreateContextStmt (parseCreateContext p)
      else if t = YEET_MEMORY then returning AppendMemoryStmt (parseAppendMemory p)
      else if t = SPILL_CONTEXT then returning SpillContextStmt (parseSpillContext n p)
      else if t = EXPLAIN_CONTEXT then returning ExplainContextStmt (parseExplainContext n p)
      else if t = VIBE_TAB then returning TagMemoryStmt (parseTagMemory p)
      else if t = SHOW_TABS then returning ShowTabsStmt (parseShowTabs p)
      else if t = SHOW_CONTEXT_SCHEMAS then returning ShowContextSchemasStmt (parseShowContextSchemas p)
      else if t = SHOW_CONTEXT_OBJECTS then returning ShowContextObjectsStmt (parseShowContextObjects p)
      else if t = ALIAS_TAB then returning AliasTabStmt (parseAliasTab p)
      else if t = MERGE_TABS then returning MergeTabsStmt (parseMergeTabs p)
      else plain_statement n expr p)"

definition parseStatement :: "(string \<Rightarrow> double option) \<Rightarrow> nat \<Rightarrow> parser \<Rightarrow> stmt parsed" where
  "parseStatement stod n p =
     andThen (statement_body n (parseExpr stod n) p) (\<lambda>s p.
     andThen (match SEMICOLON p) (\<lambda>_ p. Parsed s p))"

fun skip_semicolons :: "nat \<Rightarrow> parser \<Rightarrow> unit parsed" where
  "skip_semicolons 0 p = Out_Of_Fuel"
| "skip_semicolons (Suc n) p = (if check SEMICOLON p then skip_semicolons n (skip p) else Parsed () p)"

fun parse_statements :: "(string \<Rightarrow> double option) \<Rightarrow> nat \<Rightarrow> nat \<Rightarrow> parser \<Rightarrow> stmt list parsed" where
  "parse_statements stod n 0 p = Out_Of_Fuel"
| "parse_statements stod n (Suc k) p =
     (if check EOF_TOKEN p then Parsed [] p
      else andThen (parseStatement stod n p) (\<lambda>s p.
           andThen (skip_semicolons n p) (\<lambda>_ p.
           andThen (parse_statements stod n k p) (\<lambda>ss p. Parsed (s # ss) p))))"

text \<open>One unit of fuel per token.\<close>

definition parseAll :: "(string \<Rightarrow> double option) \<Rightarrow> token list \<Rightarrow> stmt list parsed" where
  "parseAll stod toks = parse_statements stod (length toks) (length toks) (new_parser toks)"

end
