(* ===== verification/Parser_Termination.thy ===== *)
theory Parser_Termination
  imports Parser
begin

text \<open>
  The parser returns: on a token list that ends with its only end-of-file token no rule runs
  out of fuel, each rule consumes tokens, and the cursor stays in the list. \<open>consumes k p m\<close>
  states all of it for a run \<open>m\<close> that started in \<open>p\<close>; it composes along \<open>andThen\<close>, so every
  rule of the grammar has one short lemma.
\<close>

section \<open>Token lists and consumption\<close>

definition eof_terminated :: "token list \<Rightarrow> bool" where
  "eof_terminated toks \<longleftrightarrow> toks \<noteq> [] \<and> ttype (last toks) = EOF_TOKEN \<and>
     (\<forall>t\<in>set (butlast toks). ttype t \<noteq> EOF_TOKEN)"

definition parser_ok :: "parser \<Rightarrow> bool" where
  "parser_ok p \<longleftrightarrow> eof_terminated (tokens p) \<and> tpos p < length (tokens p)"

definition remaining :: "parser \<Rightarrow> nat" where
  "remaining p = length (tokens p) - 1 - tpos p"

definition follows :: "nat \<Rightarrow> parser \<Rightarrow> parser \<Rightarrow> bool" where
  "follows k p p' \<longleftrightarrow> parser_ok p' \<and> tokens p' = tokens p \<and> remaining p' + k \<le> remaining p"

definition consumes :: "nat \<Rightarrow> parser \<Rightarrow> 'a parsed \<Rightarrow> bool" where
  "consumes k p m = (case m of Parsed x p' \<Rightarrow> follows k p p' | Failed e \<Rightarrow> True | Out_Of_Fuel \<Rightarrow> False)"

lemma consumes_simps [simp]:
  "consumes k p (Parsed x p') \<longleftrightarrow> follows k p p'" "consumes k p (Failed e)" "\<not> consumes k p Out_Of_Fuel"
  by (simp_all add: consumes_def)

lemma fail_consumes [simp]: "consumes k p (fail_at msg q)" "consumes k p (got msg q)"
  by (simp_all add: fail_at_def got_def)

lemma follows_refl [simp]: "parser_ok p \<Longrightarrow> follows 0 p p"
  by (simp add: follows_def)

lemma follows_trans: "follows j p p' \<Longrightarrow> follows k p' p'' \<Longrightarrow> follows (j + k) p p''"
  by (simp add: follows_def)

lemma follows_ok: "follows k p p' \<Longrightarrow> parser_ok p'"
  by (simp add: follows_def)

lemma follows_mono: "follows j p p' \<Longrightarrow> k \<le> j \<Longrightarrow> follows k p p'"
  by (simp add: follows_def)

lemma consumes_mono: "consumes j p m \<Longrightarrow> k \<le> j \<Longrightarrow> consumes k p m"
  by (cases m) (auto intro: follows_mono)

text \<open>
  A rule that, on fewer than \<open>m\<close> remaining tokens, returns and consumes at least \<open>k\<close>.
\<close>

definition rule_ok :: "nat \<Rightarrow> nat \<Rightarrow> (parser \<Rightarrow> 'a parsed) \<Rightarrow> bool" where
  "rule_ok k m f \<longleftrightarrow> (\<forall>p. parser_ok p \<longrightarrow> remaining p < m \<longrightarrow> consumes k p (f p))"

lemma rule_okI:
  assumes "\<And>p. parser_ok p \<Longrightarrow> remaining p < m \<Longrightarrow> follows 0 p p \<Longrightarrow> consumes k p (f p)"
  shows "rule_ok k m f"
  using assms by (simp add: rule_ok_def)

lemma rule_ok_mono: "rule_ok k m f \<Longrightarrow> m' \<le> m \<Longrightarrow> k' \<le> k \<Longrightarrow> rule_ok k' m' f"
  by (auto simp: rule_ok_def intro: consumes_mono)

section \<open>Chains of rules\<close>

text \<open>
  The run that started in \<open>p0\<close> has consumed \<open>j\<close> tokens and is in \<open>p\<close>: what may come next. Each
  lemma is used as an introduction rule, from the first call of a rule to its result.
\<close>

lemma then_rule:
  assumes "follows j p0 p" "rule_ok i m g" "remaining p0 < m + j"
    and "\<And>x p'. follows (i + j) p0 p' \<Longrightarrow> consumes k p0 (f x p')"
  shows "consumes k p0 (andThen (g p) f)"
proof -
  have "consumes i p (g p)" using assms(1-3) by (auto simp: rule_ok_def follows_def)
  then show ?thesis using assms(1,4) by (cases "g p") (auto dest: follows_trans simp: add.commute)
qed

lemma end_rule:
  assumes "follows j p0 p" "rule_ok i m g" "remaining p0 < m + j" "k \<le> i + j"
  shows "consumes k p0 (g p)"
proof -
  have "consumes i p (g p)" using assms(1-3) by (auto simp: rule_ok_def follows_def)
  then show ?thesis using assms(1,4) by (cases "g p") (auto simp: follows_def)
qed

lemma end_parsed: "follows j p0 p \<Longrightarrow> k \<le> j \<Longrightarrow> consumes k p0 (Parsed x p)"
  by (auto intro: follows_mono)

lemma end_if: "(b \<Longrightarrow> consumes k p0 m) \<Longrightarrow> (\<not> b \<Longrightarrow> consumes k p0 m') \<Longrightarrow> consumes k p0 (if b then m else m')"
  by simp

lemma then_pair: "(\<And>x y. consumes k p0 (f x y p)) \<Longrightarrow> consumes k p0 ((case z of (x, y) \<Rightarrow> f x y) p)"
  by (cases z) simp

lemma then_assoc: "andThen (andThen m f) g = andThen m (\<lambda>x p. andThen (f x p) g)"
  by (cases m) simp_all

lemma then_if: "andThen (if b then m else m') f = (if b then andThen m f else andThen m' f)"
  by simp

lemma current_eof: "parser_ok p \<Longrightarrow> ttype (current p) \<noteq> EOF_TOKEN \<Longrightarrow> tpos p + 1 < length (tokens p)"
proof (rule ccontr)
  assume ok: "parser_ok p" and "ttype (current p) \<noteq> EOF_TOKEN" and "\<not> tpos p + 1 < length (tokens p)"
  then have "tpos p = length (tokens p) - 1" "tokens p \<noteq> []" by (auto simp: parser_ok_def)
  then have "current p = last (tokens p)" using ok by (simp add: current_def peek_def Let_def parser_ok_def last_conv_nth)
  then show False using ok \<open>ttype (current p) \<noteq> EOF_TOKEN\<close> by (simp add: parser_ok_def eof_terminated_def)
qed

lemma skip_step:
  assumes "follows j p0 p" "ttype (current p) \<noteq> EOF_TOKEN"
  shows "follows (Suc j) p0 (skip p)"
proof -
  have "tpos p + 1 < length (tokens p)" using current_eof [of p] assms by (simp add: follows_def)
  then show ?thesis using assms(1) by (auto simp: skip_def follows_def parser_ok_def remaining_def)
qed

text \<open>Tests of the current token that exclude the end of file.\<close>

lemmas token_tests = check_def checkAny_def checkWord_def wordEquals_def

lemma accept_step: "follows j p0 p \<Longrightarrow> follows j p0 (accept_word w p)"
  using skip_step [of j p0 p] by (auto simp: accept_word_def token_tests intro: follows_mono)

lemma accept_two_step:
  "follows j p0 p \<Longrightarrow> follows j p0 (if checkWord v p then accept_word w (skip p) else p)"
  using skip_step [of j p0 p] accept_step [of "Suc j" p0 "skip p" w]
  by (auto simp: token_tests intro: follows_mono)

lemma expect_ok: "t \<noteq> EOF_TOKEN \<Longrightarrow> rule_ok (Suc 0) m (expect t msg)"
  using skip_step [of 0] by (auto intro!: rule_okI simp: expect_def advance_def token_tests)

lemma expectWord_ok: "rule_ok (Suc 0) m (expectWord w msg)"
  using skip_step [of 0] by (auto intro!: rule_okI simp: expectWord_def advance_def token_tests)

lemma expectName_ok: "rule_ok (Suc 0) m (expectName msg)"
  using skip_step [of 0] by (auto intro!: rule_okI simp: expectName_def advance_def)

lemma match_ok: "t \<noteq> EOF_TOKEN \<Longrightarrow> rule_ok 0 m (match t)"
  using skip_step [of 0] by (auto intro!: rule_okI follows_mono [of "Suc 0" _ _ 0] simp: match_def token_tests)

text \<open>The primitives succeed however many tokens remain.\<close>

lemma then_expect:
  assumes "follows j p0 p" "t \<noteq> EOF_TOKEN" "\<And>x p'. follows (Suc j) p0 p' \<Longrightarrow> consumes k p0 (f x p')"
  shows "consumes k p0 (andThen (expect t msg p) f)"
  by (rule then_rule [OF assms(1) expect_ok [OF assms(2), of "Suc (remaining p0)"]]) (use assms(3) in simp_all)

lemma then_expectWord:
  assumes "follows j p0 p" "\<And>x p'. follows (Suc j) p0 p' \<Longrightarrow> consumes k p0 (f x p')"
  shows "consumes k p0 (andThen (expectWord w msg p) f)"
  by (rule then_rule [OF assms(1) expectWord_ok [of "Suc (remaining p0)"]]) (use assms(2) in simp_all)

lemma then_expectName:
  assumes "follows j p0 p" "\<And>x p'. follows (Suc j) p0 p' \<Longrightarrow> consumes k p0 (f x p')"
  shows "consumes k p0 (andThen (expectName msg p) f)"
  by (rule then_rule [OF assms(1) expectName_ok [of "Suc (remaining p0)"]]) (use assms(2) in simp_all)

lemma then_match:
  assumes "follows j p0 p" "t \<noteq> EOF_TOKEN" "\<And>x p'. follows j p0 p' \<Longrightarrow> consumes k p0 (f x p')"
  shows "consumes k p0 (andThen (match t p) f)"
  by (rule then_rule [OF assms(1) match_ok [OF assms(2), of "Suc (remaining p0)"]]) (use assms(3) in simp_all)

lemma then_parsed: "consumes k p0 (f x p) \<Longrightarrow> consumes k p0 (andThen (Parsed x p) f)"
  by simp

lemmas chain = fail_consumes consumes_simps(2) then_expect then_expectWord then_expectName then_match then_parsed
  end_parsed end_if then_pair skip_step accept_two_step accept_step

lemmas chain_simps = Let_def then_assoc then_if

section \<open>Lists and optional parts\<close>

lemma comma_rest_ok:
  assumes "rule_ok 1 m item" "m \<le> n"
  shows "rule_ok 0 m (comma_rest n item)"
  using assms
proof (induction n arbitrary: m)
  case 0
  then show ?case by (simp add: rule_ok_def)
next
  case (Suc n)
  have ih: "rule_ok 0 (m - 1) (comma_rest n item)"
    using Suc.IH [OF rule_ok_mono [OF Suc.prems(1)]] Suc.prems(2) by simp
  show ?case
    by (rule rule_okI, unfold comma_rest.simps chain_simps,
      (assumption | rule chain then_rule [OF _ Suc.prems(1)] then_rule [OF _ ih] | (auto simp: token_tests; fail))+)
qed

lemma comma_list_ok:
  assumes "rule_ok 1 m item" "m \<le> n"
  shows "rule_ok 1 m (comma_list n item)"
  by (rule rule_okI, unfold comma_list_def,
    (assumption | rule chain then_rule [OF _ assms(1)] then_rule [OF _ comma_rest_ok [OF assms]] | (simp; fail))+)

lemma comma_rest_paren_ok:
  assumes "rule_ok 1 m item" "m \<le> n"
  shows "rule_ok 0 m (comma_rest_paren n item)"
  using assms
proof (induction n arbitrary: m)
  case 0
  then show ?case by (simp add: rule_ok_def)
next
  case (Suc n)
  have ih: "rule_ok 0 (m - 1) (comma_rest_paren n item)"
    using Suc.IH [OF rule_ok_mono [OF Suc.prems(1)]] Suc.prems(2) by simp
  show ?case
    by (rule rule_okI, unfold comma_rest_paren.simps chain_simps,
      (assumption | rule chain then_rule [OF _ Suc.prems(1)] then_rule [OF _ ih] | (auto simp: token_tests; fail))+)
qed

lemma optional_ok:
  assumes "rule_ok k m item" "t \<noteq> EOF_TOKEN"
  shows "rule_ok 0 m (optional t item)"
  by (rule rule_okI, unfold optional_def,
    (assumption | rule chain then_rule [OF _ assms(1)] | (simp add: token_tests assms; fail))+)

lemma optional_list_ok:
  assumes "rule_ok k m item" "t \<noteq> EOF_TOKEN"
  shows "rule_ok 0 m (optional_list t item)"
  by (rule rule_okI, unfold optional_list_def,
    (assumption | rule chain end_rule [OF _ assms(1)] | (simp add: token_tests assms; fail))+)

section \<open>Expressions\<close>

lemma left_loop_ok:
  assumes "rule_ok 1 m operand" "m \<le> n" "EOF_TOKEN \<notin> set ops"
  shows "rule_ok 0 m (left_loop n ops oper operand left)"
  using assms(1,2)
proof (induction n arbitrary: m left)
  case 0
  then show ?case by (simp add: rule_ok_def)
next
  case (Suc n)
  have ih: "rule_ok 0 (m - 1) (left_loop n ops oper operand l)" for l
    using Suc.IH [OF rule_ok_mono [OF Suc.prems(1)]] Suc.prems(2) by simp
  show ?case
    by (rule rule_okI, unfold left_loop.simps chain_simps,
      (assumption | rule chain then_rule [OF _ Suc.prems(1)] end_rule [OF _ ih] |
       (use assms(3) in \<open>auto simp: token_tests\<close>; fail))+)
qed

lemma parseUnaryExpr_ok:
  assumes "rule_ok 1 m primary" "m \<le> n"
  shows "rule_ok 1 m (parseUnaryExpr n primary)"
  using assms
proof (induction n arbitrary: m)
  case 0
  then show ?case by (simp add: rule_ok_def)
next
  case (Suc n)
  have ih: "rule_ok 1 (m - 1) (parseUnaryExpr n primary)"
    using Suc.IH [OF rule_ok_mono [OF Suc.prems(1)]] Suc.prems(2) by simp
  show ?case
    by (rule rule_okI, unfold parseUnaryExpr.simps chain_simps,
      (assumption | rule chain then_rule [OF _ ih] end_rule [OF _ Suc.prems(1)] | (auto simp: token_tests; fail))+)
qed

text \<open>An operand and the loop over the operators of its level.\<close>

lemma level_ok:
  assumes "rule_ok 1 m operand" "m \<le> n" "EOF_TOKEN \<notin> set ops"
  shows "rule_ok 1 m (\<lambda>p. andThen (operand p) (left_loop n ops oper operand))"
  by (rule rule_okI,
    (assumption | rule chain then_rule [OF _ assms(1)] end_rule [OF _ left_loop_ok [OF assms]] | (simp; fail))+)

lemma parseMulExpr_ok: "rule_ok 1 m primary \<Longrightarrow> m \<le> n \<Longrightarrow> rule_ok 1 m (parseMulExpr n primary)"
  unfolding parseMulExpr_def by (intro level_ok parseUnaryExpr_ok) simp_all

lemma parseAddExpr_ok: "rule_ok 1 m primary \<Longrightarrow> m \<le> n \<Longrightarrow> rule_ok 1 m (parseAddExpr n primary)"
  unfolding parseAddExpr_def by (intro level_ok parseMulExpr_ok) simp_all

lemma parseCompareExpr_ok:
  assumes "rule_ok 1 m primary" "m \<le> n"
  shows "rule_ok 1 m (parseCompareExpr n primary)"
  by (rule rule_okI, unfold parseCompareExpr_def chain_simps,
    (assumption | rule chain then_rule [OF _ parseAddExpr_ok [OF assms]] | (auto simp: token_tests; fail))+)

lemma parseNotExpr_ok:
  assumes "rule_ok 1 m primary" "m \<le> n" "m \<le> k"
  shows "rule_ok 1 m (parseNotExpr k n primary)"
  using assms
proof (induction k arbitrary: m)
  case 0
  then show ?case by (simp add: rule_ok_def)
next
  case (Suc k)
  have ih: "rule_ok 1 (m - 1) (parseNotExpr k n primary)"
    using Suc.IH [OF rule_ok_mono [OF Suc.prems(1)]] Suc.prems(2,3) by simp
  show ?case
    by (rule rule_okI, unfold parseNotExpr.simps chain_simps,
      (assumption | rule chain then_rule [OF _ ih] end_rule [OF _ parseCompareExpr_ok [OF Suc.prems(1,2)]] |
       (auto simp: token_tests; fail))+)
qed

lemma parseAndExpr_ok: "rule_ok 1 m primary \<Longrightarrow> m \<le> n \<Longrightarrow> rule_ok 1 m (parseAndExpr n primary)"
  unfolding parseAndExpr_def by (intro level_ok parseNotExpr_ok) simp_all

lemma parseOrExpr_ok: "rule_ok 1 m primary \<Longrightarrow> m \<le> n \<Longrightarrow> rule_ok 1 m (parseOrExpr n primary)"
  unfolding parseOrExpr_def by (intro level_ok parseAndExpr_ok) simp_all

section \<open>Queries\<close>

lemma parseTableRef_ok:
  shows "rule_ok 1 m (parseTableRef)"
  by (rule rule_okI, unfold parseTableRef_def chain_simps,
    (assumption | rule chain  | (auto simp: token_tests; fail))+)

lemma parseJoin_ok:
  assumes "rule_ok 1 m expr"
  shows "rule_ok 1 m (parseJoin expr)"
  by (rule rule_okI, unfold parseJoin_def chain_simps,
    (assumption | rule chain then_rule [OF _ parseTableRef_ok [of m]] then_rule [OF _ assms(1)] | (auto simp: token_tests; fail))+)

lemma join_loop_ok:
  assumes "rule_ok 1 m expr" "m \<le> n"
  shows "rule_ok 0 m (join_loop n expr)"
  using assms
proof (induction n arbitrary: m)
  case 0
  then show ?case by (simp add: rule_ok_def)
next
  case (Suc n)
  have ih: "rule_ok 0 (m - 1) (join_loop n expr)"
    using Suc.IH [OF rule_ok_mono [OF Suc.prems(1)]] Suc.prems(2) by simp
  show ?case
    by (rule rule_okI, unfold join_loop.simps chain_simps,
      (assumption | rule chain then_rule [OF _ parseJoin_ok [OF Suc.prems(1)]] then_rule [OF _ ih] | (simp; fail))+)
qed

lemma parseSelectItem_ok:
  assumes "rule_ok 1 m expr"
  shows "rule_ok 1 m (parseSelectItem expr)"
  by (rule rule_okI, unfold parseSelectItem_def chain_simps,
    (assumption | rule chain then_rule [OF _ assms(1)] | (auto simp: token_tests; fail))+)

lemma parseSelectList_ok:
  assumes "rule_ok 1 m expr" "m \<le> n"
  shows "rule_ok 1 m (parseSelectList n expr)"
  by (rule rule_okI, unfold parseSelectList_def chain_simps,
    (assumption | rule chain end_rule [OF _ comma_list_ok [OF parseSelectItem_ok [OF assms(1)] assms(2)]] | (auto simp: token_tests; fail))+)

lemma parseColumnList_ok:
  assumes "rule_ok 1 m expr" "m \<le> n"
  shows "rule_ok 1 m (parseColumnList n expr)"
  by (rule rule_okI, unfold parseColumnList_def chain_simps,
    (assumption | rule chain end_rule [OF _ comma_list_ok [OF assms]] | (auto simp: token_tests; fail))+)

lemma parse_order_item_ok:
  assumes "rule_ok 1 m expr"
  shows "rule_ok 1 m (parse_order_item expr)"
  by (rule rule_okI, unfold parse_order_item_def chain_simps,
    (assumption | rule chain then_rule [OF _ assms(1)] | (auto simp: token_tests; fail))+)

lemma parseOrderList_ok:
  assumes "rule_ok 1 m expr" "m \<le> n"
  shows "rule_ok 1 m (parseOrderList n expr)"
  by (rule rule_okI, unfold parseOrderList_def chain_simps,
    (assumption | rule chain end_rule [OF _ comma_list_ok [OF parse_order_item_ok [OF assms(1)] assms(2)]] | (auto simp: token_tests; fail))+)

lemma parseSelect_ok:
  assumes "rule_ok 1 m expr" "m \<le> n"
  shows "rule_ok 1 m (parseSelect n expr)"
  by (rule rule_okI, unfold parseSelect_def chain_simps,
    (assumption | rule chain then_rule [OF _ parseSelectList_ok [OF assms]] then_rule [OF _ parseTableRef_ok [of m]]
       then_rule [OF _ join_loop_ok [OF assms]] then_rule [OF _ optional_ok [OF assms(1)]]
       then_rule [OF _ optional_list_ok [OF parseColumnList_ok [OF assms]]]
       then_rule [OF _ optional_list_ok [OF parseOrderList_ok [OF assms]]] | (simp; fail))+)

lemma parseFunctionCall_ok:
  assumes "rule_ok 1 m expr" "m \<le> n"
  shows "rule_ok 1 m (parseFunctionCall n expr name l c)"
  by (rule rule_okI, unfold parseFunctionCall_def chain_simps,
    (assumption | rule chain then_rule [OF _ assms(1)] then_rule [OF _ comma_list_ok [OF assms]] |
     (auto simp: token_tests; fail))+)

lemma parseEraExpr_ok:
  assumes "rule_ok 1 m expr" "m \<le> n"
  shows "rule_ok 1 m (parseEraExpr n expr l c)"
  by (rule rule_okI, unfold parseEraExpr_def chain_simps,
    (assumption | rule chain then_rule [OF _ optional_list_ok [OF parseColumnList_ok [OF assms]]]
       then_rule [OF _ parseOrderList_ok [OF assms]] | (simp; fail))+)

lemma parse_name_ok:
  assumes "rule_ok 1 m expr" "m \<le> n"
  shows "rule_ok 0 m (parse_name n expr tok)"
  by (rule rule_okI, unfold parse_name_def chain_simps,
    (assumption | rule chain end_rule [OF _ parseFunctionCall_ok [OF assms]] | (auto simp: token_tests; fail))+)

text \<open>
  A primary expression has consumed a token before it calls another rule: one more token may
  remain.
\<close>

lemma parsePrimaryExpr_ok:
  assumes "rule_ok 1 m expr" "m \<le> n"
  shows "rule_ok 1 (Suc m) (parsePrimaryExpr stod n expr)"
  by (rule rule_okI, unfold parsePrimaryExpr_def chain_simps,
    (assumption | rule chain then_rule [OF _ assms(1)] then_rule [OF _ parseSelect_ok [OF assms]]
       end_rule [OF _ parseEraExpr_ok [OF assms]] end_rule [OF _ parseFunctionCall_ok [OF assms]]
       end_rule [OF _ parse_name_ok [OF assms]] |
     (auto simp: token_tests aggregate_names_def split: sum.split option.split intro!: end_parsed skip_step; fail))+)

theorem parseExpr_ok: "rule_ok 1 n (parseExpr stod n)"
proof (induction n)
  case 0
  then show ?case by (simp add: rule_ok_def)
next
  case (Suc n)
  have "rule_ok 1 (Suc n) (parseOrExpr (Suc n) (parsePrimaryExpr stod (Suc n) (parseExpr stod n)))"
    by (intro parseOrExpr_ok parsePrimaryExpr_ok Suc) simp_all
  then show ?case by (simp add: rule_ok_def)
qed

section \<open>Statements\<close>

lemma value_row_ok:
  assumes "rule_ok 1 m expr" "m \<le> n"
  shows "rule_ok 1 m (value_row n expr)"
  by (rule rule_okI, unfold value_row_def chain_simps,
    (assumption | rule chain then_rule [OF _ comma_list_ok [OF assms]] |
     (auto simp: token_tests; fail))+)

lemma column_name_ok:
  shows "rule_ok 1 m (column_name)"
  by (rule rule_okI, unfold column_name_def chain_simps,
    (assumption | rule chain  |
     (auto simp: token_tests; fail))+)

lemma parseInsert_ok:
  assumes "rule_ok 1 m expr" "m \<le> n"
  shows "rule_ok 1 m (parseInsert n expr)"
  by (rule rule_okI, unfold parseInsert_def chain_simps,
    (assumption | rule chain then_rule [OF _ comma_list_ok [OF column_name_ok assms(2)]]
       then_rule [OF _ comma_list_ok [OF value_row_ok [OF assms] assms(2)]] |
     (auto simp: token_tests; fail))+)

lemma parseAssignment_ok:
  assumes "rule_ok 1 m expr"
  shows "rule_ok 1 m (parseAssignment expr)"
  by (rule rule_okI, unfold parseAssignment_def chain_simps,
    (assumption | rule chain then_rule [OF _ assms(1)] |
     (auto simp: token_tests; fail))+)

lemma parseUpdate_ok:
  assumes "rule_ok 1 m expr" "m \<le> n"
  shows "rule_ok 1 m (parseUpdate n expr)"
  by (rule rule_okI, unfold parseUpdate_def chain_simps,
    (assumption | rule chain then_rule [OF _ comma_list_ok [OF parseAssignment_ok [OF assms(1)] assms(2)]]
       then_rule [OF _ optional_ok [OF assms(1)]] |
     (auto simp: token_tests; fail))+)

lemma parseDelete_ok:
  assumes "rule_ok 1 m expr"
  shows "rule_ok 1 m (parseDelete expr)"
  by (rule rule_okI, unfold parseDelete_def chain_simps,
    (assumption | rule chain then_rule [OF _ optional_ok [OF assms(1)]] |
     (auto simp: token_tests; fail))+)

lemma column_constraints_ok:
  assumes "m \<le> n"
  shows "rule_ok 0 m (column_constraints n s)"
  using assms
proof (induction n arbitrary: m s)
  case 0
  then show ?case by (simp add: rule_ok_def)
next
  case (Suc n)
  have ih: "rule_ok 0 (m - 1) (column_constraints n s)" for s
    using Suc.IH [of "m - 1"] Suc.prems by simp
  have le: "m - 1 \<le> n" using Suc.prems by simp
  show ?case
    by (rule rule_okI, unfold column_constraints.simps chain_simps,
      (assumption | rule chain  end_rule [OF _ ih] |
       (auto simp: token_tests; fail))+)
qed

lemma parseColumnDef_ok:
  assumes "m \<le> n"
  shows "rule_ok 1 m (parseColumnDef n)"
  by (rule rule_okI, unfold parseColumnDef_def chain_simps,
    (assumption | rule chain end_rule [OF _ column_constraints_ok [OF assms]] |
     (auto simp: token_tests; fail))+)

lemma parseCreate_ok:
  assumes "m \<le> n"
  shows "rule_ok 1 m (parseCreate n)"
  by (rule rule_okI, unfold parseCreate_def chain_simps,
    (assumption | rule chain then_rule [OF _ parseColumnDef_ok [OF assms]]
       then_rule [OF _ comma_rest_paren_ok [OF parseColumnDef_ok [OF assms] assms]] |
     (auto simp: token_tests; fail))+)

lemma parseDrop_ok:
  shows "rule_ok 1 m (parseDrop)"
  by (rule rule_okI, unfold parseDrop_def chain_simps,
    (assumption | rule chain  |
     (auto simp: token_tests; fail))+)

lemma parseUnsignedOption_ok: "rule_ok 1 m (parseUnsignedOption name)"
  using skip_step [of 0] by (auto intro!: rule_okI simp: parseUnsignedOption_def split: sum.split)

lemma spec_words_ok: "m \<le> n \<Longrightarrow> rule_ok 0 m (spec_words n)"
proof (induction n arbitrary: m)
  case 0
  then show ?case by (simp add: rule_ok_def)
next
  case (Suc n)
  have ih: "rule_ok 0 (m - 1) (spec_words n)" using Suc.IH [of "m - 1"] Suc.prems by simp
  show ?case
    by (rule rule_okI, unfold spec_words.simps chain_simps,
      (assumption | rule chain then_rule [OF _ ih] | (auto simp: isClauseBoundary_def; fail))+)
qed

lemma parseFeatureSpec_ok:
  assumes "m \<le> n"
  shows "rule_ok 1 m (parseFeatureSpec n)"
  by (rule rule_okI, unfold parseFeatureSpec_def chain_simps,
    (assumption | rule chain then_rule [OF _ spec_words_ok [OF assms]] | (simp; fail))+)

lemma parseLabelSpec_ok:
  assumes "m \<le> n"
  shows "rule_ok 1 m (parseLabelSpec n)"
  by (rule rule_okI, unfold parseLabelSpec_def chain_simps,
    (assumption | rule chain then_rule [OF _ spec_words_ok [OF assms]] | (simp; fail))+)

lemma parseFeatureSpecs_ok:
  assumes "m \<le> n"
  shows "rule_ok 1 m (parseFeatureSpecs n)"
  by (rule rule_okI, unfold parseFeatureSpecs_def chain_simps,
    (assumption | rule chain then_rule [OF _ parseFeatureSpec_ok [OF assms]]
       then_rule [OF _ comma_rest_paren_ok [OF parseFeatureSpec_ok [OF assms] assms]] |
     (auto simp: token_tests; fail))+)

lemma snapshot_clauses_ok:
  assumes "m \<le> n"
  shows "rule_ok 0 m (snapshot_clauses n s)"
  using assms
proof (induction n arbitrary: m s)
  case 0
  then show ?case by (simp add: rule_ok_def)
next
  case (Suc n)
  have ih: "rule_ok 0 (m - 1) (snapshot_clauses n s)" for s
    using Suc.IH [of "m - 1"] Suc.prems by simp
  have le: "m - 1 \<le> n" using Suc.prems by simp
  show ?case
    by (rule rule_okI, unfold snapshot_clauses.simps chain_simps,
      (assumption | rule chain then_rule [OF _ parseUnsignedOption_ok [of m]]
         then_rule [OF _ parseFeatureSpecs_ok [OF le]] then_rule [OF _ parseLabelSpec_ok [OF le]] end_rule [OF _ ih] |
       (auto simp: token_tests; fail))+)
qed

lemma snapshot_command_ok:
  shows "rule_ok 1 m (snapshot_command)"
  by (rule rule_okI, unfold snapshot_command_def chain_simps,
    (assumption | rule chain  |
     (auto simp: token_tests; fail))+)

lemma parseCreateSnapshot_ok:
  assumes "rule_ok 1 m expr" "m \<le> n"
  shows "rule_ok 1 m (parseCreateSnapshot n expr)"
  by (rule rule_okI, unfold parseCreateSnapshot_def chain_simps,
    (assumption | rule chain then_rule [OF _ snapshot_command_ok [of m]] then_rule [OF _ parseSelect_ok [OF assms]]
       end_rule [OF _ snapshot_clauses_ok [OF assms(2)]] |
     (auto simp: token_tests; fail))+)

lemma command_words_ok: "EOF_TOKEN \<notin> set native \<Longrightarrow> rule_ok 1 m (command_words native word1 word2)"
  by (rule rule_okI, unfold command_words_def chain_simps,
    (assumption | rule chain | (auto simp: token_tests; fail))+)

lemma then_command:
  assumes "follows j p0 p" "EOF_TOKEN \<notin> set native"
    "\<And>x p'. follows (Suc j) p0 p' \<Longrightarrow> consumes k p0 (f x p')"
  shows "consumes k p0 (andThen (command_words native w1 w2 p) f)"
  by (rule then_rule [OF assms(1) command_words_ok [OF assms(2), of "Suc (remaining p0)"]]) (use assms(3) in simp_all)

lemma export_options_ok:
  assumes "m \<le> n"
  shows "rule_ok 0 m (export_options n s)"
  using assms
proof (induction n arbitrary: m s)
  case 0
  then show ?case by (simp add: rule_ok_def)
next
  case (Suc n)
  have ih: "rule_ok 0 (m - 1) (export_options n s)" for s
    using Suc.IH [of "m - 1"] Suc.prems by simp
  have le: "m - 1 \<le> n" using Suc.prems by simp
  show ?case
    by (rule rule_okI, unfold export_options.simps chain_simps,
      (assumption | rule chain then_rule [OF _ parseUnsignedOption_ok [of m]] end_rule [OF _ ih] |
       (auto simp: token_tests; fail))+)
qed

lemma parseExportTorch_ok:
  assumes "m \<le> n"
  shows "rule_ok 1 m (parseExportTorch n)"
  by (rule rule_okI, unfold parseExportTorch_def chain_simps,
    (assumption | rule chain then_command end_rule [OF _ export_options_ok [OF assms]] |
     (auto simp: token_tests; fail))+)

lemma explain_batch_options_ok:
  assumes "m \<le> n"
  shows "rule_ok 0 m (explain_batch_options n s)"
  using assms
proof (induction n arbitrary: m s)
  case 0
  then show ?case by (simp add: rule_ok_def)
next
  case (Suc n)
  have ih: "rule_ok 0 (m - 1) (explain_batch_options n s)" for s
    using Suc.IH [of "m - 1"] Suc.prems by simp
  have le: "m - 1 \<le> n" using Suc.prems by simp
  show ?case
    by (rule rule_okI, unfold explain_batch_options.simps chain_simps,
      (assumption | rule chain then_rule [OF _ parseUnsignedOption_ok [of m]] end_rule [OF _ ih] |
       (auto simp: token_tests; fail))+)
qed

lemma parseExplainBatch_ok:
  assumes "m \<le> n"
  shows "rule_ok 1 m (parseExplainBatch n)"
  by (rule rule_okI, unfold parseExplainBatch_def chain_simps,
    (assumption | rule chain then_command end_rule [OF _ explain_batch_options_ok [OF assms]] |
     (auto simp: token_tests; fail))+)

lemma spill_options_ok:
  assumes "m \<le> n"
  shows "rule_ok 0 m (spill_options n s)"
  using assms
proof (induction n arbitrary: m s)
  case 0
  then show ?case by (simp add: rule_ok_def)
next
  case (Suc n)
  have ih: "rule_ok 0 (m - 1) (spill_options n s)" for s
    using Suc.IH [of "m - 1"] Suc.prems by simp
  have le: "m - 1 \<le> n" using Suc.prems by simp
  show ?case
    by (rule rule_okI, unfold spill_options.simps chain_simps,
      (assumption | rule chain then_rule [OF _ parseUnsignedOption_ok [of m]] end_rule [OF _ ih] |
       (auto simp: token_tests; fail))+)
qed

lemma parseSpillContext_ok:
  assumes "m \<le> n"
  shows "rule_ok 1 m (parseSpillContext n)"
  by (rule rule_okI, unfold parseSpillContext_def chain_simps,
    (assumption | rule chain then_command end_rule [OF _ spill_options_ok [OF assms]] |
     (auto simp: token_tests; fail))+)

lemma explain_options_ok:
  assumes "m \<le> n"
  shows "rule_ok 0 m (explain_options n s)"
  using assms
proof (induction n arbitrary: m s)
  case 0
  then show ?case by (simp add: rule_ok_def)
next
  case (Suc n)
  have ih: "rule_ok 0 (m - 1) (explain_options n s)" for s
    using Suc.IH [of "m - 1"] Suc.prems by simp
  have le: "m - 1 \<le> n" using Suc.prems by simp
  show ?case
    by (rule rule_okI, unfold explain_options.simps chain_simps,
      (assumption | rule chain then_rule [OF _ parseUnsignedOption_ok [of m]] end_rule [OF _ ih] |
       (auto simp: token_tests; fail))+)
qed

lemma parseExplainContext_ok:
  assumes "m \<le> n"
  shows "rule_ok 1 m (parseExplainContext n)"
  by (rule rule_okI, unfold parseExplainContext_def chain_simps,
    (assumption | rule chain then_command end_rule [OF _ explain_options_ok [OF assms]] |
     (auto simp: token_tests; fail))+)

lemma parseCreateContext_ok:
  shows "rule_ok 1 m (parseCreateContext)"
  by (rule rule_okI, unfold parseCreateContext_def chain_simps,
    (assumption | rule chain then_command then_rule [OF _ parseUnsignedOption_ok [of m]] |
     (auto simp: token_tests; fail))+)

lemma parseAppendMemory_ok:
  shows "rule_ok 1 m (parseAppendMemory)"
  by (rule rule_okI, unfold parseAppendMemory_def chain_simps,
    (assumption | rule chain then_command then_rule [OF _ parseUnsignedOption_ok [of m]] |
     (auto simp: token_tests; fail))+)

lemma parseTagMemory_ok:
  shows "rule_ok 1 m (parseTagMemory)"
  by (rule rule_okI, unfold parseTagMemory_def chain_simps,
    (assumption | rule chain then_command then_rule [OF _ parseUnsignedOption_ok [of m]] |
     (auto simp: token_tests; fail))+)

lemma parseShowTabs_ok:
  shows "rule_ok 1 m (parseShowTabs)"
  by (rule rule_okI, unfold parseShowTabs_def chain_simps,
    (assumption | rule chain then_command then_rule [OF _ parseUnsignedOption_ok [of m]] |
     (auto simp: token_tests; fail))+)

lemma parseShowContextSchemas_ok:
  shows "rule_ok 1 m (parseShowContextSchemas)"
  by (rule rule_okI, unfold parseShowContextSchemas_def chain_simps,
    (assumption | rule chain then_command then_rule [OF _ parseUnsignedOption_ok [of m]] |
     (auto simp: token_tests; fail))+)

lemma parseShowContextObjects_ok:
  shows "rule_ok 1 m (parseShowContextObjects)"
  by (rule rule_okI, unfold parseShowContextObjects_def chain_simps,
    (assumption | rule chain then_command then_rule [OF _ parseUnsignedOption_ok [of m]] |
     (auto simp: token_tests; fail))+)

lemma parseAliasTab_ok:
  shows "rule_ok 1 m (parseAliasTab)"
  by (rule rule_okI, unfold parseAliasTab_def chain_simps,
    (assumption | rule chain then_command then_rule [OF _ parseUnsignedOption_ok [of m]] |
     (auto simp: token_tests; fail))+)

lemma parseMergeTabs_ok:
  shows "rule_ok 1 m (parseMergeTabs)"
  by (rule rule_okI, unfold parseMergeTabs_def chain_simps,
    (assumption | rule chain then_command then_rule [OF _ parseUnsignedOption_ok [of m]] |
     (auto simp: token_tests; fail))+)

lemma returning_ok: "rule_ok k m g \<Longrightarrow> rule_ok k m (\<lambda>p. returning node (g p))"
  unfolding rule_ok_def returning_def by (auto simp: andThen_def consumes_def split: parsed.splits)

lemma end_returning:
  "follows j p0 p \<Longrightarrow> rule_ok i m g \<Longrightarrow> remaining p0 < m + j \<Longrightarrow> k \<le> i + j \<Longrightarrow> consumes k p0 (returning node (g p))"
  by (rule end_rule [OF _ returning_ok])

lemmas statement_rules = end_returning [OF _ parseDrop_ok] end_returning [OF _ parseCreateContext_ok]
  end_returning [OF _ parseAppendMemory_ok] end_returning [OF _ parseTagMemory_ok]
  end_returning [OF _ parseShowTabs_ok] end_returning [OF _ parseShowContextSchemas_ok]
  end_returning [OF _ parseShowContextObjects_ok] end_returning [OF _ parseAliasTab_ok]
  end_returning [OF _ parseMergeTabs_ok]

lemma plain_statement_ok:
  assumes "rule_ok 1 m expr" "m \<le> n"
  shows "rule_ok 1 m (plain_statement n expr)"
  by (rule rule_okI, unfold plain_statement_def chain_simps,
    (assumption | rule chain statement_rules [of _ _ _ m] end_returning [OF _ parseCreateSnapshot_ok [OF assms]]
       end_returning [OF _ parseExportTorch_ok [OF assms(2)]] end_returning [OF _ parseExplainBatch_ok [OF assms(2)]]
       end_returning [OF _ parseExplainContext_ok [OF assms(2)]] end_returning [OF _ parseSpillContext_ok [OF assms(2)]] |
     (simp; fail))+)

lemma statement_body_ok:
  assumes "rule_ok 1 m expr" "m \<le> n"
  shows "rule_ok 1 m (statement_body n expr)"
  by (rule rule_okI, unfold statement_body_def chain_simps,
    (assumption | rule chain statement_rules [of _ _ _ m] end_returning [OF _ parseSelect_ok [OF assms]]
       end_returning [OF _ parseInsert_ok [OF assms]] end_returning [OF _ parseUpdate_ok [OF assms]]
       end_returning [OF _ parseDelete_ok [OF assms(1)]] end_returning [OF _ parseCreate_ok [OF assms(2)]]
       end_returning [OF _ parseCreateSnapshot_ok [OF assms]]
       end_returning [OF _ parseExportTorch_ok [OF assms(2)]] end_returning [OF _ parseExplainBatch_ok [OF assms(2)]]
       end_returning [OF _ parseExplainContext_ok [OF assms(2)]] end_returning [OF _ parseSpillContext_ok [OF assms(2)]]
       end_rule [OF _ plain_statement_ok [OF assms]] |
     (simp; fail))+)

lemma parseStatement_ok: "rule_ok 1 n (parseStatement stod n)"
  by (rule rule_okI, unfold parseStatement_def chain_simps,
    (assumption | rule chain then_rule [OF _ statement_body_ok [OF parseExpr_ok order.refl]] | (simp; fail))+)

lemma skip_semicolons_ok: "m \<le> n \<Longrightarrow> rule_ok 0 m (skip_semicolons n)"
proof (induction n arbitrary: m)
  case 0
  then show ?case by (simp add: rule_ok_def)
next
  case (Suc n)
  have ih: "rule_ok 0 (m - 1) (skip_semicolons n)" using Suc.IH [of "m - 1"] Suc.prems by simp
  show ?case
    by (rule rule_okI, unfold skip_semicolons.simps chain_simps,
      (assumption | rule chain end_rule [OF _ ih] | (auto simp: token_tests; fail))+)
qed

text \<open>When the loop over the statements ends without an error, the cursor is at the end.\<close>

lemma parse_statements_ok:
  "m \<le> n \<Longrightarrow> m \<le> k \<Longrightarrow> rule_ok 0 m (parse_statements stod n k)"
proof (induction k arbitrary: m)
  case 0
  then show ?case by (simp add: rule_ok_def)
next
  case (Suc k)
  have ih: "rule_ok 0 (m - 1) (parse_statements stod n k)" using Suc.IH [of "m - 1"] Suc.prems by simp
  have st: "rule_ok 1 m (parseStatement stod n)" by (rule rule_ok_mono [OF parseStatement_ok Suc.prems(1)]) simp
  show ?case
    by (rule rule_okI, unfold parse_statements.simps chain_simps,
      (assumption | rule chain then_rule [OF _ st] then_rule [OF _ skip_semicolons_ok [OF Suc.prems(1)]]
         then_rule [OF _ ih] | (simp; fail))+)
qed

lemma parse_statements_end:
  "parse_statements stod n k p = Parsed ss p' \<Longrightarrow> check EOF_TOKEN p'"
proof (induction k arbitrary: p ss)
  case (Suc k)
  then show ?case
    by (cases "check EOF_TOKEN p") (auto simp: andThen_def split: parsed.splits)
qed simp

section \<open>Fuel\<close>

text \<open>More fuel only turns \<open>Out_Of_Fuel\<close> into a result.\<close>

definition refines :: "'a parsed \<Rightarrow> 'a parsed \<Rightarrow> bool" where
  "refines m m' \<longleftrightarrow> m = Out_Of_Fuel \<or> m = m'"

definition refines_rule :: "(parser \<Rightarrow> 'a parsed) \<Rightarrow> (parser \<Rightarrow> 'a parsed) \<Rightarrow> bool" where
  "refines_rule f f' \<longleftrightarrow> (\<forall>p. refines (f p) (f' p))"

lemma refines_refl: "refines m m"
  by (simp add: refines_def)

lemma refines_none: "refines Out_Of_Fuel m"
  by (simp add: refines_def)

lemma refines_andThen: "refines m m' \<Longrightarrow> (\<And>x p. refines (f x p) (f' x p)) \<Longrightarrow> refines (andThen m f) (andThen m' f')"
proof -
  assume m: "refines m m'" and f: "\<And>x p. refines (f x p) (f' x p)"
  show ?thesis
  proof (cases "m = Out_Of_Fuel")
    case False
    then have "m' = m" using m by (simp add: refines_def)
    then show ?thesis using f by (cases m) (simp_all add: refines_refl)
  qed (simp add: refines_none)
qed

lemma refines_if: "(b \<Longrightarrow> refines m m') \<Longrightarrow> (\<not> b \<Longrightarrow> refines n n') \<Longrightarrow>
  refines (if b then m else n) (if b then m' else n')"
  by simp

lemma refines_pair: "(\<And>x y. refines (f x y p) (f' x y p)) \<Longrightarrow>
  refines ((case z of (x, y) \<Rightarrow> f x y) p) ((case z of (x, y) \<Rightarrow> f' x y) p)"
  by (cases z) simp

lemma refines_ruleD: "refines_rule f f' \<Longrightarrow> refines (f p) (f' p)"
  by (simp add: refines_rule_def)

lemma refines_ruleI: "(\<And>p. refines (f p) (f' p)) \<Longrightarrow> refines_rule f f'"
  by (simp add: refines_rule_def)

lemma refines_rule_refl: "refines_rule f f"
  by (simp add: refines_rule_def refines_refl)

lemmas refine_intros = refines_andThen refines_if refines_pair

lemma comma_rest_mono:
  assumes "n \<le> n'" "refines_rule item item'"
  shows "refines (comma_rest n item p) (comma_rest n' item' p)"
  using assms(1)
proof (induction n arbitrary: n' p)
  case 0
  then show ?case by (simp add: refines_none)
next
  case (Suc n)
  obtain k where k: "n' = Suc k" "n \<le> k" using Suc.prems by (cases n') auto
  show ?case
    by (unfold k(1) comma_rest.simps Let_def,
      (assumption | rule refine_intros Suc.IH [OF k(2)] refines_ruleD [OF assms(2)] refines_refl)+)
qed

lemma comma_list_mono:
  assumes "n \<le> n'" "refines_rule item item'"
  shows "refines_rule (comma_list n item) (comma_list n' item')"
  by (rule refines_ruleI, unfold comma_list_def Let_def,
    (assumption | rule refine_intros refines_ruleD [OF assms(2)] comma_rest_mono [OF assms] refines_refl | (rule assms) )+)

lemma comma_rest_paren_mono:
  assumes "n \<le> n'" "refines_rule item item'"
  shows "refines (comma_rest_paren n item p) (comma_rest_paren n' item' p)"
  using assms(1)
proof (induction n arbitrary: n' p)
  case 0
  then show ?case by (simp add: refines_none)
next
  case (Suc n)
  obtain k where k: "n' = Suc k" "n \<le> k" using Suc.prems by (cases n') auto
  show ?case
    by (unfold k(1) comma_rest_paren.simps Let_def,
      (assumption | rule refine_intros Suc.IH [OF k(2)] refines_ruleD [OF assms(2)] refines_refl)+)
qed

lemma optional_mono:
  assumes "refines_rule item item'"
  shows "refines_rule (optional t item) (optional t item')"
  by (rule refines_ruleI, unfold optional_def Let_def,
    (assumption | rule refine_intros refines_ruleD [OF assms] refines_refl | (rule assms) )+)

lemma optional_list_mono:
  assumes "refines_rule item item'"
  shows "refines_rule (optional_list t item) (optional_list t item')"
  by (rule refines_ruleI, unfold optional_list_def Let_def,
    (assumption | rule refine_intros refines_ruleD [OF assms] refines_refl | (rule assms) )+)

lemma left_loop_mono:
  assumes "n \<le> n'" "refines_rule operand operand'"
  shows "refines (left_loop n ops oper operand left p) (left_loop n' ops oper operand' left p)"
  using assms(1)
proof (induction n arbitrary: n' left p)
  case 0
  then show ?case by (simp add: refines_none)
next
  case (Suc n)
  obtain k where k: "n' = Suc k" "n \<le> k" using Suc.prems by (cases n') auto
  show ?case
    by (unfold k(1) left_loop.simps Let_def,
      (assumption | rule refine_intros Suc.IH [OF k(2)] refines_ruleD [OF assms(2)] refines_refl)+)
qed

lemma parseUnaryExpr_mono:
  assumes "n \<le> n'" "refines_rule primary primary'"
  shows "refines (parseUnaryExpr n primary p) (parseUnaryExpr n' primary' p)"
  using assms(1)
proof (induction n arbitrary: n' p)
  case 0
  then show ?case by (simp add: refines_none)
next
  case (Suc n)
  obtain k where k: "n' = Suc k" "n \<le> k" using Suc.prems by (cases n') auto
  show ?case
    by (unfold k(1) parseUnaryExpr.simps Let_def,
      (assumption | rule refine_intros Suc.IH [OF k(2)] refines_ruleD [OF assms(2)] refines_refl)+)
qed

lemma level_mono:
  assumes "n \<le> n'" "refines_rule operand operand'"
  shows "refines (andThen (operand p) (left_loop n ops oper operand))
    (andThen (operand' p) (left_loop n' ops oper operand'))"
  by (rule refine_intros refines_ruleD [OF assms(2)] left_loop_mono [OF assms])+

lemma parseMulExpr_mono:
  assumes "n \<le> n'" "refines_rule primary primary'"
  shows "refines_rule (parseMulExpr n primary) (parseMulExpr n' primary')"
  unfolding refines_rule_def parseMulExpr_def by (intro allI level_mono assms(1) refines_ruleI parseUnaryExpr_mono assms)

lemma parseAddExpr_mono:
  assumes "n \<le> n'" "refines_rule primary primary'"
  shows "refines_rule (parseAddExpr n primary) (parseAddExpr n' primary')"
  unfolding refines_rule_def parseAddExpr_def by (intro allI level_mono assms(1) parseMulExpr_mono assms)

lemma parseCompareExpr_mono:
  assumes "n \<le> n'" "refines_rule primary primary'"
  shows "refines_rule (parseCompareExpr n primary) (parseCompareExpr n' primary')"
  by (rule refines_ruleI, unfold parseCompareExpr_def Let_def,
    (assumption | rule refine_intros refines_ruleD [OF parseAddExpr_mono [OF assms]] refines_refl | (rule assms) )+)

lemma parseNotExpr_mono:
  assumes "k \<le> k'" "n \<le> n'" "refines_rule primary primary'"
  shows "refines (parseNotExpr k n primary p) (parseNotExpr k' n' primary' p)"
  using assms(1)
proof (induction k arbitrary: k' p)
  case 0
  then show ?case by (simp add: refines_none)
next
  case (Suc k)
  obtain j where j: "k' = Suc j" "k \<le> j" using Suc.prems by (cases k') auto
  show ?case
    by (unfold j(1) parseNotExpr.simps Let_def,
      (assumption | rule refine_intros Suc.IH [OF j(2)] refines_ruleD [OF parseCompareExpr_mono [OF assms(2,3)]] refines_refl)+)
qed

lemma parseAndExpr_mono:
  assumes "n \<le> n'" "refines_rule primary primary'"
  shows "refines_rule (parseAndExpr n primary) (parseAndExpr n' primary')"
  unfolding refines_rule_def parseAndExpr_def by (intro allI level_mono assms(1) refines_ruleI parseNotExpr_mono assms)

lemma parseOrExpr_mono:
  assumes "n \<le> n'" "refines_rule primary primary'"
  shows "refines_rule (parseOrExpr n primary) (parseOrExpr n' primary')"
  unfolding refines_rule_def parseOrExpr_def by (intro allI level_mono assms(1) parseAndExpr_mono assms)

lemma parseJoin_mono:
  assumes "refines_rule expr expr'"
  shows "refines_rule (parseJoin expr) (parseJoin expr')"
  by (rule refines_ruleI, unfold parseJoin_def Let_def,
    (assumption | rule refine_intros refines_ruleD [OF assms] refines_refl | (rule assms) )+)

lemma join_loop_mono:
  assumes "n \<le> n'" "refines_rule expr expr'"
  shows "refines (join_loop n expr p) (join_loop n' expr' p)"
  using assms(1)
proof (induction n arbitrary: n' p)
  case 0
  then show ?case by (simp add: refines_none)
next
  case (Suc n)
  obtain k where k: "n' = Suc k" "n \<le> k" using Suc.prems by (cases n') auto
  show ?case
    by (unfold k(1) join_loop.simps Let_def,
      (assumption | rule refine_intros Suc.IH [OF k(2)] refines_ruleD [OF parseJoin_mono [OF assms(2)]] refines_refl)+)
qed

lemma parseSelectItem_mono:
  assumes "refines_rule expr expr'"
  shows "refines_rule (parseSelectItem expr) (parseSelectItem expr')"
  by (rule refines_ruleI, unfold parseSelectItem_def Let_def,
    (assumption | rule refine_intros refines_ruleD [OF assms] refines_refl | (rule assms) )+)

lemma parseSelectList_mono:
  assumes "n \<le> n'" "refines_rule expr expr'"
  shows "refines_rule (parseSelectList n expr) (parseSelectList n' expr')"
  by (rule refines_ruleI, unfold parseSelectList_def Let_def,
    (assumption | rule refine_intros refines_ruleD [OF comma_list_mono [OF assms(1) parseSelectItem_mono [OF assms(2)]]] refines_refl | (rule assms) )+)

lemma parseColumnList_mono:
  assumes "n \<le> n'" "refines_rule expr expr'"
  shows "refines_rule (parseColumnList n expr) (parseColumnList n' expr')"
  by (rule refines_ruleI, unfold parseColumnList_def Let_def,
    (assumption | rule refine_intros refines_ruleD [OF comma_list_mono [OF assms]] refines_refl | (rule assms) )+)

lemma parse_order_item_mono:
  assumes "refines_rule expr expr'"
  shows "refines_rule (parse_order_item expr) (parse_order_item expr')"
  by (rule refines_ruleI, unfold parse_order_item_def Let_def,
    (assumption | rule refine_intros refines_ruleD [OF assms] refines_refl | (rule assms) )+)

lemma parseOrderList_mono:
  assumes "n \<le> n'" "refines_rule expr expr'"
  shows "refines_rule (parseOrderList n expr) (parseOrderList n' expr')"
  by (rule refines_ruleI, unfold parseOrderList_def Let_def,
    (assumption | rule refine_intros refines_ruleD [OF comma_list_mono [OF assms(1) parse_order_item_mono [OF assms(2)]]] refines_refl | (rule assms) )+)

lemma parseSelect_mono:
  assumes "n \<le> n'" "refines_rule expr expr'"
  shows "refines_rule (parseSelect n expr) (parseSelect n' expr')"
  by (rule refines_ruleI, unfold parseSelect_def Let_def,
    (assumption | rule refine_intros refines_ruleD [OF parseSelectList_mono [OF assms]] join_loop_mono [OF assms]
       refines_ruleD [OF optional_mono [OF assms(2)]] refines_ruleD [OF optional_list_mono [OF parseColumnList_mono [OF assms]]]
       refines_ruleD [OF optional_list_mono [OF parseOrderList_mono [OF assms]]] refines_refl | (rule assms) )+)

lemma parseFunctionCall_mono:
  assumes "n \<le> n'" "refines_rule expr expr'"
  shows "refines_rule (parseFunctionCall n expr name l c) (parseFunctionCall n' expr' name l c)"
  by (rule refines_ruleI, unfold parseFunctionCall_def Let_def,
    (assumption | rule refine_intros refines_ruleD [OF assms(2)] refines_ruleD [OF comma_list_mono [OF assms]] refines_refl | (rule assms) )+)

lemma parseEraExpr_mono:
  assumes "n \<le> n'" "refines_rule expr expr'"
  shows "refines_rule (parseEraExpr n expr l c) (parseEraExpr n' expr' l c)"
  by (rule refines_ruleI, unfold parseEraExpr_def Let_def,
    (assumption | rule refine_intros refines_ruleD [OF optional_list_mono [OF parseColumnList_mono [OF assms]]] refines_ruleD [OF parseOrderList_mono [OF assms]] refines_refl | (rule assms) )+)

lemma parse_name_mono:
  assumes "n \<le> n'" "refines_rule expr expr'"
  shows "refines_rule (parse_name n expr tok) (parse_name n' expr' tok)"
  by (rule refines_ruleI, unfold parse_name_def Let_def,
    (assumption | rule refine_intros refines_ruleD [OF parseFunctionCall_mono [OF assms]] refines_refl | (rule assms) )+)

lemma parsePrimaryExpr_mono:
  assumes "n \<le> n'" "refines_rule expr expr'"
  shows "refines_rule (parsePrimaryExpr stod n expr) (parsePrimaryExpr stod n' expr')"
  by (rule refines_ruleI, unfold parsePrimaryExpr_def Let_def,
    (assumption | rule refine_intros refines_ruleD [OF assms(2)] refines_ruleD [OF parseSelect_mono [OF assms]]
       refines_ruleD [OF parseEraExpr_mono [OF assms]] refines_ruleD [OF parseFunctionCall_mono [OF assms]]
       refines_ruleD [OF parse_name_mono [OF assms]] refines_refl | (rule assms) )+)

lemma parseExpr_mono: "n \<le> n' \<Longrightarrow> refines_rule (parseExpr stod n) (parseExpr stod n')"
proof (induction n arbitrary: n')
  case 0
  then show ?case by (simp add: refines_rule_def refines_none)
next
  case (Suc n)
  obtain k where k: "n' = Suc k" "n \<le> k" using Suc.prems by (cases n') auto
  have "refines_rule (parseOrExpr (Suc n) (parsePrimaryExpr stod (Suc n) (parseExpr stod n)))
      (parseOrExpr (Suc k) (parsePrimaryExpr stod (Suc k) (parseExpr stod k)))"
    using k(2) by (intro parseOrExpr_mono parsePrimaryExpr_mono Suc.IH) simp_all
  then show ?case by (simp add: refines_rule_def k(1))
qed

lemma value_row_mono:
  assumes "n \<le> n'" "refines_rule expr expr'"
  shows "refines_rule (value_row n expr) (value_row n' expr')"
  by (rule refines_ruleI, unfold value_row_def Let_def,
    (assumption | rule refine_intros refines_ruleD [OF comma_list_mono [OF assms]] refines_refl)+)

lemma parseInsert_mono:
  assumes "n \<le> n'" "refines_rule expr expr'"
  shows "refines_rule (parseInsert n expr) (parseInsert n' expr')"
  by (rule refines_ruleI, unfold parseInsert_def Let_def,
    (assumption | rule refine_intros refines_ruleD [OF comma_list_mono [OF assms(1) refines_rule_refl]]
       refines_ruleD [OF comma_list_mono [OF assms(1) value_row_mono [OF assms]]] refines_refl)+)

lemma parseAssignment_mono:
  assumes "refines_rule expr expr'"
  shows "refines_rule (parseAssignment expr) (parseAssignment expr')"
  by (rule refines_ruleI, unfold parseAssignment_def Let_def,
    (assumption | rule refine_intros refines_ruleD [OF assms] refines_refl)+)

lemma parseUpdate_mono:
  assumes "n \<le> n'" "refines_rule expr expr'"
  shows "refines_rule (parseUpdate n expr) (parseUpdate n' expr')"
  by (rule refines_ruleI, unfold parseUpdate_def Let_def,
    (assumption | rule refine_intros refines_ruleD [OF comma_list_mono [OF assms(1) parseAssignment_mono [OF assms(2)]]]
       refines_ruleD [OF optional_mono [OF assms(2)]] refines_refl)+)

lemma parseDelete_mono:
  assumes "refines_rule expr expr'"
  shows "refines_rule (parseDelete expr) (parseDelete expr')"
  by (rule refines_ruleI, unfold parseDelete_def Let_def,
    (assumption | rule refine_intros refines_ruleD [OF optional_mono [OF assms]] refines_refl)+)

lemma column_constraints_mono:
  assumes "n \<le> n'"
  shows "refines (column_constraints n def p) (column_constraints n' def p)"
  using assms
proof (induction n arbitrary: n' def p)
  case 0
  then show ?case by (simp add: refines_none)
next
  case (Suc n)
  obtain k where k: "n' = Suc k" "n \<le> k" using Suc.prems by (cases n') auto
  show ?case
    by (unfold k(1) column_constraints.simps Let_def,
      (assumption | rule refine_intros Suc.IH [OF k(2)]  refines_refl)+)
qed

lemma parseColumnDef_mono:
  assumes "n \<le> n'"
  shows "refines_rule (parseColumnDef n) (parseColumnDef n')"
  by (rule refines_ruleI, unfold parseColumnDef_def Let_def,
    (assumption | rule refine_intros column_constraints_mono [OF assms] refines_refl)+)

lemma parseCreate_mono:
  assumes "n \<le> n'"
  shows "refines_rule (parseCreate n) (parseCreate n')"
  by (rule refines_ruleI, unfold parseCreate_def Let_def,
    (assumption | rule refine_intros refines_ruleD [OF parseColumnDef_mono [OF assms]]
       comma_rest_paren_mono [OF assms parseColumnDef_mono [OF assms]] refines_refl)+)

lemma spec_words_mono:
  assumes "n \<le> n'"
  shows "refines (spec_words n  p) (spec_words n'  p)"
  using assms
proof (induction n arbitrary: n' p)
  case 0
  then show ?case by (simp add: refines_none)
next
  case (Suc n)
  obtain k where k: "n' = Suc k" "n \<le> k" using Suc.prems by (cases n') auto
  show ?case
    by (unfold k(1) spec_words.simps Let_def,
      (assumption | rule refine_intros Suc.IH [OF k(2)]  refines_refl)+)
qed

lemma parseFeatureSpec_mono:
  assumes "n \<le> n'"
  shows "refines_rule (parseFeatureSpec n) (parseFeatureSpec n')"
  by (rule refines_ruleI, unfold parseFeatureSpec_def Let_def,
    (assumption | rule refine_intros spec_words_mono [OF assms] refines_refl)+)

lemma parseLabelSpec_mono:
  assumes "n \<le> n'"
  shows "refines_rule (parseLabelSpec n) (parseLabelSpec n')"
  by (rule refines_ruleI, unfold parseLabelSpec_def Let_def,
    (assumption | rule refine_intros spec_words_mono [OF assms] refines_refl)+)

lemma parseFeatureSpecs_mono:
  assumes "n \<le> n'"
  shows "refines_rule (parseFeatureSpecs n) (parseFeatureSpecs n')"
  by (rule refines_ruleI, unfold parseFeatureSpecs_def Let_def,
    (assumption | rule refine_intros refines_ruleD [OF parseFeatureSpec_mono [OF assms]]
       comma_rest_paren_mono [OF assms parseFeatureSpec_mono [OF assms]] refines_refl)+)

lemma snapshot_clauses_mono:
  assumes "n \<le> n'"
  shows "refines (snapshot_clauses n s p) (snapshot_clauses n' s p)"
  using assms
proof (induction n arbitrary: n' s p)
  case 0
  then show ?case by (simp add: refines_none)
next
  case (Suc n)
  obtain k where k: "n' = Suc k" "n \<le> k" using Suc.prems by (cases n') auto
  show ?case
    by (unfold k(1) snapshot_clauses.simps Let_def,
      (assumption | rule refine_intros Suc.IH [OF k(2)] refines_ruleD [OF parseFeatureSpecs_mono [OF k(2)]] refines_ruleD [OF parseLabelSpec_mono [OF k(2)]] refines_refl)+)
qed

lemma parseCreateSnapshot_mono:
  assumes "n \<le> n'" "refines_rule expr expr'"
  shows "refines_rule (parseCreateSnapshot n expr) (parseCreateSnapshot n' expr')"
  by (rule refines_ruleI, unfold parseCreateSnapshot_def Let_def,
    (assumption | rule refine_intros refines_ruleD [OF parseSelect_mono [OF assms]] snapshot_clauses_mono [OF assms(1)] refines_refl)+)

lemma export_options_mono:
  assumes "n \<le> n'"
  shows "refines (export_options n s p) (export_options n' s p)"
  using assms
proof (induction n arbitrary: n' s p)
  case 0
  then show ?case by (simp add: refines_none)
next
  case (Suc n)
  obtain k where k: "n' = Suc k" "n \<le> k" using Suc.prems by (cases n') auto
  show ?case
    by (unfold k(1) export_options.simps Let_def,
      (assumption | rule refine_intros Suc.IH [OF k(2)]  refines_refl)+)
qed

lemma parseExportTorch_mono:
  assumes "n \<le> n'"
  shows "refines_rule (parseExportTorch n) (parseExportTorch n')"
  by (rule refines_ruleI, unfold parseExportTorch_def Let_def,
    (assumption | rule refine_intros export_options_mono [OF assms] refines_refl)+)

lemma explain_batch_options_mono:
  assumes "n \<le> n'"
  shows "refines (explain_batch_options n s p) (explain_batch_options n' s p)"
  using assms
proof (induction n arbitrary: n' s p)
  case 0
  then show ?case by (simp add: refines_none)
next
  case (Suc n)
  obtain k where k: "n' = Suc k" "n \<le> k" using Suc.prems by (cases n') auto
  show ?case
    by (unfold k(1) explain_batch_options.simps Let_def,
      (assumption | rule refine_intros Suc.IH [OF k(2)]  refines_refl)+)
qed

lemma parseExplainBatch_mono:
  assumes "n \<le> n'"
  shows "refines_rule (parseExplainBatch n) (parseExplainBatch n')"
  by (rule refines_ruleI, unfold parseExplainBatch_def Let_def,
    (assumption | rule refine_intros explain_batch_options_mono [OF assms] refines_refl)+)

lemma spill_options_mono:
  assumes "n \<le> n'"
  shows "refines (spill_options n s p) (spill_options n' s p)"
  using assms
proof (induction n arbitrary: n' s p)
  case 0
  then show ?case by (simp add: refines_none)
next
  case (Suc n)
  obtain k where k: "n' = Suc k" "n \<le> k" using Suc.prems by (cases n') auto
  show ?case
    by (unfold k(1) spill_options.simps Let_def,
      (assumption | rule refine_intros Suc.IH [OF k(2)]  refines_refl)+)
qed

lemma parseSpillContext_mono:
  assumes "n \<le> n'"
  shows "refines_rule (parseSpillContext n) (parseSpillContext n')"
  by (rule refines_ruleI, unfold parseSpillContext_def Let_def,
    (assumption | rule refine_intros spill_options_mono [OF assms] refines_refl)+)

lemma explain_options_mono:
  assumes "n \<le> n'"
  shows "refines (explain_options n s p) (explain_options n' s p)"
  using assms
proof (induction n arbitrary: n' s p)
  case 0
  then show ?case by (simp add: refines_none)
next
  case (Suc n)
  obtain k where k: "n' = Suc k" "n \<le> k" using Suc.prems by (cases n') auto
  show ?case
    by (unfold k(1) explain_options.simps Let_def,
      (assumption | rule refine_intros Suc.IH [OF k(2)]  refines_refl)+)
qed

lemma parseExplainContext_mono:
  assumes "n \<le> n'"
  shows "refines_rule (parseExplainContext n) (parseExplainContext n')"
  by (rule refines_ruleI, unfold parseExplainContext_def Let_def,
    (assumption | rule refine_intros explain_options_mono [OF assms] refines_refl)+)

lemma returning_mono: "refines m m' \<Longrightarrow> refines (returning node m) (returning node m')"
  unfolding returning_def by (rule refines_andThen, assumption, rule refines_refl)

lemma plain_statement_mono:
  assumes "n \<le> n'" "refines_rule expr expr'"
  shows "refines_rule (plain_statement n expr) (plain_statement n' expr')"
  by (rule refines_ruleI, unfold plain_statement_def Let_def,
    (assumption | rule refine_intros returning_mono [OF refines_ruleD [OF parseCreateSnapshot_mono [OF assms]]]
       returning_mono [OF refines_ruleD [OF parseExportTorch_mono [OF assms(1)]]]
       returning_mono [OF refines_ruleD [OF parseExplainBatch_mono [OF assms(1)]]]
       returning_mono [OF refines_ruleD [OF parseExplainContext_mono [OF assms(1)]]]
       returning_mono [OF refines_ruleD [OF parseSpillContext_mono [OF assms(1)]]] refines_refl)+)

lemma statement_body_mono:
  assumes "n \<le> n'" "refines_rule expr expr'"
  shows "refines_rule (statement_body n expr) (statement_body n' expr')"
  by (rule refines_ruleI, unfold statement_body_def Let_def,
    (assumption | rule refine_intros returning_mono [OF refines_ruleD [OF parseCreateSnapshot_mono [OF assms]]]
       returning_mono [OF refines_ruleD [OF parseExportTorch_mono [OF assms(1)]]]
       returning_mono [OF refines_ruleD [OF parseExplainBatch_mono [OF assms(1)]]]
       returning_mono [OF refines_ruleD [OF parseExplainContext_mono [OF assms(1)]]]
       returning_mono [OF refines_ruleD [OF parseSpillContext_mono [OF assms(1)]]]
       returning_mono [OF refines_ruleD [OF parseSelect_mono [OF assms]]]
       returning_mono [OF refines_ruleD [OF parseInsert_mono [OF assms]]]
       returning_mono [OF refines_ruleD [OF parseUpdate_mono [OF assms]]]
       returning_mono [OF refines_ruleD [OF parseDelete_mono [OF assms(2)]]]
       returning_mono [OF refines_ruleD [OF parseCreate_mono [OF assms(1)]]]
       refines_ruleD [OF plain_statement_mono [OF assms]] refines_refl)+)

lemma parseStatement_mono:
  assumes "n \<le> n'"
  shows "refines_rule (parseStatement stod n) (parseStatement stod n')"
  by (rule refines_ruleI, unfold parseStatement_def Let_def,
    (assumption | rule refine_intros refines_ruleD [OF statement_body_mono [OF assms parseExpr_mono [OF assms]]] refines_refl)+)

lemma skip_semicolons_mono:
  assumes "n \<le> n'"
  shows "refines (skip_semicolons n  p) (skip_semicolons n'  p)"
  using assms
proof (induction n arbitrary: n' p)
  case 0
  then show ?case by (simp add: refines_none)
next
  case (Suc n)
  obtain k where k: "n' = Suc k" "n \<le> k" using Suc.prems by (cases n') auto
  show ?case
    by (unfold k(1) skip_semicolons.simps Let_def,
      (assumption | rule refine_intros Suc.IH [OF k(2)]  refines_refl)+)
qed

lemma parse_statements_mono:
  assumes "n \<le> n'" "k \<le> k'"
  shows "refines (parse_statements stod n k p) (parse_statements stod n' k' p)"
  using assms(2)
proof (induction k arbitrary: k' p)
  case 0
  then show ?case by (simp add: refines_none)
next
  case (Suc k)
  obtain j where j: "k' = Suc j" "k \<le> j" using Suc.prems by (cases k') auto
  show ?case
    by (unfold j(1) parse_statements.simps Let_def,
      (assumption | rule refine_intros Suc.IH [OF j(2)] refines_ruleD [OF parseStatement_mono [OF assms(1)]]
         skip_semicolons_mono [OF assms(1)] refines_refl)+)
qed

section \<open>The whole parser\<close>

lemma parseAll_enough: "eof_terminated toks \<Longrightarrow> consumes 0 (new_parser toks) (parseAll stod toks)"
  using parse_statements_ok [OF order.refl order.refl, of "length toks" stod]
  by (simp add: rule_ok_def parseAll_def parser_ok_def new_parser_def remaining_def eof_terminated_def)

lemma parseAll_fuel:
  assumes "eof_terminated toks" "length toks \<le> n" "length toks \<le> k"
  shows "parse_statements stod n k (new_parser toks) = parseAll stod toks"
  using parse_statements_mono [OF assms(2,3), of stod "new_parser toks"] parseAll_enough [OF assms(1), of stod]
  by (auto simp: parseAll_def refines_def)

lemma parseAll_returns:
  assumes "eof_terminated toks"
  shows "(\<exists>e. parseAll stod toks = Failed e) \<or>
    (\<exists>ss p. parseAll stod toks = Parsed ss p \<and> tokens p = toks \<and> tpos p = length toks - 1)"
proof (cases "parseAll stod toks")
  case (Parsed ss q)
  then have q: "parser_ok q" "tokens q = toks"
    using parseAll_enough [OF assms, of stod] by (simp_all add: follows_def new_parser_def)
  have "check EOF_TOKEN q" using Parsed parse_statements_end unfolding parseAll_def by blast
  then have eof: "ttype (toks ! tpos q) = EOF_TOKEN"
    using q by (simp add: check_def current_def peek_def Let_def parser_ok_def)
  have "tpos q = length toks - 1"
  proof (rule ccontr)
    assume "tpos q \<noteq> length toks - 1"
    moreover have "tpos q < length toks" using q by (simp add: parser_ok_def)
    ultimately have l: "tpos q < length (butlast toks)" by simp
    then have "toks ! tpos q \<in> set (butlast toks)" by (metis nth_butlast nth_mem)
    then show False using eof assms by (auto simp: eof_terminated_def)
  qed
  then show ?thesis using Parsed q by blast
next
  case Out_Of_Fuel
  then show ?thesis using parseAll_enough [OF assms, of stod] by simp
qed simp

section \<open>Properties\<close>

text \<open>
  C24. The parser returns on every token list that ends with its only end-of-file token: with
  one unit of fuel per token, and with any more fuel, the result is the same list of statements
  or error; when it is a list of statements, the whole token list has been read.
\<close>

theorem parse_terminates:
  assumes "eof_terminated toks" "length toks \<le> n" "length toks \<le> k"
  shows "parse_statements stod n k (new_parser toks) = parseAll stod toks \<and>
    ((\<exists>e. parseAll stod toks = Failed e) \<or>
     (\<exists>ss p. parseAll stod toks = Parsed ss p \<and> tokens p = toks \<and> tpos p = length toks - 1))"
  using parseAll_returns [OF assms(1)] parseAll_fuel [OF assms] by blast

theorem parse_terminates_witness:
  "parse_statements (\<lambda>_. None) 5 7 (new_parser [Token RIZZ_DOWN ''rizz-down'' 1 1, Token IDENTIFIER ''t'' 1 11,
       Token EOF_TOKEN [] 1 12]) =
     parseAll (\<lambda>_. None) [Token RIZZ_DOWN ''rizz-down'' 1 1, Token IDENTIFIER ''t'' 1 11, Token EOF_TOKEN [] 1 12]"
  by (rule parse_terminates [THEN conjunct1]) (simp_all add: eof_terminated_def)

end
