(* ===== verification/Lexer.thy ===== *)
theory Lexer
  imports Token
begin

text \<open>
  The lexer (\<open>Lexer\<close>, \<open>src/lexer.h\<close> and \<open>src/lexer.cpp\<close>): a cursor over the source text with a
  line and a column, one scanner per kind of token, and the loop that skips blanks and
  comments and dispatches on the next character. Lines and columns are \<open>int\<close>s that are assumed
  not to overflow.

  The lemmas compute the state after every scanner: the lexer never leaves the states
  \<open>lexer_at source i\<close>, in which line and column are the position of character \<open>i\<close>, although
  \<open>readWord\<close> moves the cursor backwards. The loop therefore ends, each token carries the
  position of its first character, and keywords, numbers and quoted strings are read back as
  what they spell.
\<close>

section \<open>The cursor\<close>

record lexer =
  src :: string
  pos :: nat
  line :: int
  col :: int

datatype lexer_error = LexerError (lexer_msg: string) (lexer_line: int) (lexer_col: int)

definition lexer_what :: "lexer_error \<Rightarrow> string" where
  "lexer_what e = ''Error at line '' @ string_of_int (lexer_line e) @ '', col '' @
     string_of_int (lexer_col e) @ '': '' @ lexer_msg e"

definition new_lexer :: "string \<Rightarrow> lexer" where
  "new_lexer source = \<lparr>src = source, pos = 0, line = 1, col = 1\<rparr>"

abbreviation newline :: char where
  "newline \<equiv> CHR 0x0A"

abbreviation quote :: char where
  "quote \<equiv> CHR 0x27"

abbreviation backslash :: char where
  "backslash \<equiv> CHR 0x5C"

definition peek :: "lexer \<Rightarrow> nat \<Rightarrow> char" where
  "peek l offset =
     (let idx = pos l + offset in if idx \<ge> length (src l) then CHR 0x00 else src l ! idx)"

definition at_end :: "lexer \<Rightarrow> bool" where
  "at_end l \<longleftrightarrow> pos l \<ge> length (src l)"

definition skip_char :: "lexer \<Rightarrow> lexer" where
  "skip_char l =
     (if peek l 0 = newline then l\<lparr>pos := pos l + 1, line := line l + 1, col := 1\<rparr>
      else l\<lparr>pos := pos l + 1, col := col l + 1\<rparr>)"

definition advance :: "lexer \<Rightarrow> char \<times> lexer" where
  "advance l = (peek l 0, skip_char l)"

lemma skip_char_src [simp]: "src (skip_char l) = src l" "pos (skip_char l) = Suc (pos l)"
  by (simp_all add: skip_char_def)

lemma advance_simps [simp]: "fst (advance l) = peek l 0" "snd (advance l) = skip_char l"
  by (simp_all add: advance_def)

section \<open>Scanners\<close>

text \<open>
  \<open>scan_while P\<close> is the loop \<open>while (pos < src.size() && P(peek())) text += advance();\<close>.
\<close>

function scan_while :: "(char \<Rightarrow> bool) \<Rightarrow> lexer \<Rightarrow> string \<times> lexer" where
  "scan_while P l =
     (if \<not> at_end l \<and> P (peek l 0)
      then let (c, l') = advance l; (text, l'') = scan_while P l' in (c # text, l'')
      else ([], l))"
  by pat_completeness auto
termination
  by (relation "measure (\<lambda>(P, l). length (src l) - pos l)") (auto simp: at_end_def advance_def)

declare scan_while.simps [simp del]

definition skipWhitespace :: "lexer \<Rightarrow> lexer" where
  "skipWhitespace l = snd (scan_while isspace l)"

definition skipLineComment :: "lexer \<Rightarrow> lexer" where
  "skipLineComment l = snd (scan_while (\<lambda>c. c \<noteq> newline) l)"

text \<open>The loop of \<open>skipBlockComment\<close>; \<open>None\<close> is the unterminated comment.\<close>

function block_loop :: "lexer \<Rightarrow> lexer option" where
  "block_loop l =
     (if at_end l then None
      else if peek l 0 = CHR ''*'' \<and> peek l 1 = CHR ''/'' then Some (skip_char (skip_char l))
      else block_loop (skip_char l))"
  by pat_completeness auto
termination
  by (relation "measure (\<lambda>l. length (src l) - pos l)") (auto simp: at_end_def)

declare block_loop.simps [simp del]

definition skipBlockComment :: "lexer \<Rightarrow> lexer_error + lexer" where
  "skipBlockComment l =
     (case block_loop (skip_char (skip_char l)) of
        None \<Rightarrow> Inl (LexerError ''Unterminated block comment'' (line l) (col l))
      | Some l' \<Rightarrow> Inr l')"

definition isWordStart :: "char \<Rightarrow> bool" where
  "isWordStart c \<longleftrightarrow> isalpha c \<or> c = CHR ''_''"

definition isWordContinue :: "char \<Rightarrow> bool" where
  "isWordContinue c \<longleftrightarrow> isalnum c \<or> c = CHR ''_'' \<or> c = CHR ''-''"

text \<open>The loop of \<open>readWord\<close>: a hyphen belongs to the word when a word starts after it.\<close>

function word_loop :: "lexer \<Rightarrow> string \<times> lexer" where
  "word_loop l =
     (if \<not> at_end l \<and> isWordContinue (peek l 0) \<and>
         (peek l 0 = CHR ''-'' \<longrightarrow> pos l + 1 < length (src l) \<and> isWordStart (peek l 1))
      then let (c, l') = advance l; (word, l'') = word_loop l' in (c # word, l'')
      else ([], l))"
  by pat_completeness auto
termination
  by (relation "measure (\<lambda>l. length (src l) - pos l)") (auto simp: at_end_def advance_def)

declare word_loop.simps [simp del]

definition readWord :: "lexer \<Rightarrow> token \<times> lexer" where
  "readWord l =
     (let (word, l') = word_loop l in
      if word = ''L'' then (Token L_FUNC word (line l) (col l), l')
      else case keyword word of
        Some t \<Rightarrow> (Token t word (line l) (col l), l')
      | None \<Rightarrow>
          if CHR ''-'' \<in> set word
          then let ident = takeWhile (\<lambda>c. c \<noteq> CHR ''-'') word;
                   rest = dropWhile (\<lambda>c. c \<noteq> CHR ''-'') word
               in (Token IDENTIFIER ident (line l) (col l),
                   l'\<lparr>pos := pos l' - length rest, col := col l' - int (length rest)\<rparr>)
          else (Token IDENTIFIER word (line l) (col l), l'))"

definition read_fraction :: "lexer \<Rightarrow> bool \<times> string \<times> lexer" where
  "read_fraction l =
     (if \<not> at_end l \<and> peek l 0 = CHR ''.'' \<and> pos l + 1 < length (src l) \<and> isdigit (peek l 1)
      then let (c, l1) = advance l; (digits, l2) = scan_while isdigit l1 in (True, c # digits, l2)
      else (False, [], l))"

text \<open>The exponent; \<open>None\<close> is the invalid literal.\<close>

definition read_exponent :: "lexer \<Rightarrow> (bool \<times> string \<times> lexer) option" where
  "read_exponent l =
     (if \<not> at_end l \<and> (peek l 0 = CHR ''e'' \<or> peek l 0 = CHR ''E'')
      then let (e, l1) = advance l;
               (sign, l2) = (if \<not> at_end l1 \<and> (peek l1 0 = CHR ''+'' \<or> peek l1 0 = CHR ''-'')
                             then ([peek l1 0], skip_char l1) else ([], l1))
           in if at_end l2 \<or> \<not> isdigit (peek l2 0) then None
              else let (digits, l3) = scan_while isdigit l2 in Some (True, e # sign @ digits, l3)
      else Some (False, [], l))"

definition readNumber :: "lexer \<Rightarrow> lexer_error + (token \<times> lexer)" where
  "readNumber l =
     (let (digits, l1) = scan_while isdigit l;
          (fractional, fraction, l2) = read_fraction l1
      in case read_exponent l2 of
           None \<Rightarrow> Inl (LexerError ''Invalid number literal'' (line l) (col l))
         | Some (scientific, exponent, l3) \<Rightarrow>
             Inr (Token (if fractional \<or> scientific then FLOAT_LIT else INTEGER_LIT)
                    (digits @ fraction @ exponent) (line l) (col l), l3))"

definition escape :: "char \<Rightarrow> string" where
  "escape esc =
     (if esc = CHR ''n'' then [newline]
      else if esc = CHR ''t'' then [CHR 0x09]
      else if esc = CHR ''r'' then [CHR 0x0D]
      else if esc = backslash then [backslash]
      else if esc = quote then [quote]
      else [backslash, esc])"

text \<open>The loop of \<open>readString\<close>; \<open>None\<close> is the unterminated literal.\<close>

function string_loop :: "lexer \<Rightarrow> (string \<times> lexer) option" where
  "string_loop l =
     (if at_end l then None
      else if peek l 0 = quote then
        if pos l + 1 < length (src l) \<and> peek l 1 = quote
        then (case string_loop (skip_char (skip_char l)) of
                None \<Rightarrow> None | Some (v, l') \<Rightarrow> Some (quote # v, l'))
        else Some ([], skip_char l)
      else if peek l 0 = backslash then
        let l1 = skip_char l in
        if at_end l1 then None
        else (case string_loop (skip_char l1) of
                None \<Rightarrow> None | Some (v, l') \<Rightarrow> Some (escape (peek l1 0) @ v, l'))
      else case string_loop (skip_char l) of
             None \<Rightarrow> None | Some (v, l') \<Rightarrow> Some (peek l 0 # v, l'))"
  by pat_completeness auto
termination
  by (relation "measure (\<lambda>l. length (src l) - pos l)") (auto simp: at_end_def)

declare string_loop.simps [simp del]

definition readString :: "lexer \<Rightarrow> lexer_error + (token \<times> lexer)" where
  "readString l =
     (case string_loop (skip_char l) of
        None \<Rightarrow> Inl (LexerError ''Unterminated string literal'' (line l) (col l))
      | Some (v, l') \<Rightarrow> Inr (Token STRING_LIT v (line l) (col l), l'))"

definition operator_token :: "token_type \<Rightarrow> string \<Rightarrow> lexer \<Rightarrow> lexer \<Rightarrow> lexer_error + (token \<times> lexer)" where
  "operator_token t text l l' = Inr (Token t text (line l) (col l), l')"

definition readOperator :: "lexer \<Rightarrow> lexer_error + (token \<times> lexer)" where
  "readOperator l =
     (let c = peek l 0; l1 = skip_char l; l2 = skip_char l1;
          unexpected = Inl (LexerError (''Unexpected character '' @ [quote, c, quote]) (line l) (col l))
      in if c = CHR ''='' then operator_token EQ ''='' l l1
         else if c = CHR ''!'' then
           (if peek l 1 = CHR ''='' then operator_token NEQ ''!='' l l2 else unexpected)
         else if c = CHR ''<'' then
           (if \<not> at_end l1 \<and> peek l1 0 = CHR ''='' then operator_token LTE ''<='' l l2
            else operator_token LT ''<'' l l1)
         else if c = CHR ''>'' then
           (if \<not> at_end l1 \<and> peek l1 0 = CHR ''='' then operator_token GTE ''>='' l l2
            else operator_token GT ''>'' l l1)
         else if c = CHR ''+'' then operator_token PLUS_OP ''+'' l l1
         else if c = CHR ''-'' then operator_token MINUS ''-'' l l1
         else if c = CHR ''*'' then operator_token STAR ''*'' l l1
         else if c = CHR ''/'' then operator_token SLASH ''/'' l l1
         else if c = CHR ''|'' then
           (if peek l 1 = CHR ''|'' then operator_token CONCAT ''||'' l l2
            else Inl (LexerError (''Expected '' @ [quote] @ ''||'' @ [quote] @ '' for concatenation'')
                   (line l) (col l)))
         else if c = CHR ''('' then operator_token LPAREN ''('' l l1
         else if c = CHR '')'' then operator_token RPAREN '')'' l l1
         else if c = CHR '','' then operator_token COMMA '','' l l1
         else if c = CHR '';'' then operator_token SEMICOLON '';'' l l1
         else if c = CHR ''.'' then operator_token DOT ''.'' l l1
         else unexpected)"

section \<open>The main loop\<close>

text \<open>
  One turn of the loop of \<open>tokenize\<close> after the blanks: the token read, if any, and where the
  loop goes on.
\<close>

definition read_item :: "lexer \<Rightarrow> lexer_error + (token option \<times> lexer)" where
  "read_item l =
     (let c = peek l 0; some = (\<lambda>(t, l'). (Some t, l')) in
      if c = CHR ''-'' \<and> peek l 1 = CHR ''-'' then Inr (None, skipLineComment l)
      else if c = CHR ''/'' \<and> peek l 1 = CHR ''*'' then rbind (skipBlockComment l) (\<lambda>l'. Inr (None, l'))
      else if c = quote then rbind (readString l) (\<lambda>r. Inr (some r))
      else if isdigit c then rbind (readNumber l) (\<lambda>r. Inr (some r))
      else if isWordStart c then Inr (some (readWord l))
      else rbind (readOperator l) (\<lambda>r. Inr (some r)))"

lemma scan_while_stop: "at_end l \<or> \<not> P (peek l 0) \<Longrightarrow> scan_while P l = ([], l)"
  by (subst scan_while.simps) auto

lemma scan_while_step:
  "\<not> at_end l \<Longrightarrow> P (peek l 0) \<Longrightarrow>
   scan_while P l = (peek l 0 # fst (scan_while P (skip_char l)), snd (scan_while P (skip_char l)))"
  by (subst scan_while.simps) (simp add: advance_def split: prod.splits)

lemma scan_while_induct [case_names stop step]:
  assumes "\<And>l. at_end l \<or> \<not> P (peek l 0) \<Longrightarrow> Q l"
    and "\<And>l. \<not> at_end l \<Longrightarrow> P (peek l 0) \<Longrightarrow> Q (skip_char l) \<Longrightarrow> Q l"
  shows "Q l"
proof (induction "length (src l) - pos l" arbitrary: l rule: less_induct)
  case less
  show ?case
  proof (cases "at_end l \<or> \<not> P (peek l 0)")
    case False
    then have "length (src (skip_char l)) - pos (skip_char l) < length (src l) - pos l"
      by (auto simp: at_end_def)
    with False show ?thesis using assms(2) less by blast
  qed (rule assms(1))
qed

lemma scan_while_pos:
  "src (snd (scan_while P l)) = src l \<and> pos (snd (scan_while P l)) = pos l + length (fst (scan_while P l))"
  by (induction l rule: scan_while_induct [where P = P]) (simp_all add: scan_while_stop scan_while_step)

definition word_more :: "lexer \<Rightarrow> bool" where
  "word_more l \<longleftrightarrow> isWordContinue (peek l 0) \<and>
     (peek l 0 = CHR ''-'' \<longrightarrow> pos l + 1 < length (src l) \<and> isWordStart (peek l 1))"

lemma word_loop_stop: "at_end l \<or> \<not> word_more l \<Longrightarrow> word_loop l = ([], l)"
  by (subst word_loop.simps) (auto simp: word_more_def)

lemma word_loop_step:
  "\<not> at_end l \<Longrightarrow> word_more l \<Longrightarrow>
   word_loop l = (peek l 0 # fst (word_loop (skip_char l)), snd (word_loop (skip_char l)))"
  by (subst word_loop.simps) (simp add: advance_def word_more_def split: prod.splits)

lemma word_loop_pos:
  "src (snd (word_loop l)) = src l \<and> pos (snd (word_loop l)) = pos l + length (fst (word_loop l))"
proof (induction l rule: word_loop.induct)
  case (1 l)
  show ?case
  proof (cases "at_end l \<or> \<not> word_more l")
    case False
    then have "src (snd (word_loop (skip_char l))) = src (skip_char l) \<and>
        pos (snd (word_loop (skip_char l))) = pos (skip_char l) + length (fst (word_loop (skip_char l)))"
      using 1 by (simp add: word_more_def advance_def)
    then show ?thesis using False by (simp add: word_loop_step)
  qed (simp add: word_loop_stop)
qed

lemma block_loop_pos: "block_loop l = Some l' \<Longrightarrow> src l' = src l \<and> pos l < pos l'"
proof (induction l arbitrary: l' rule: block_loop.induct)
  case (1 l)
  show ?case using 1(2) 1(1)
    by (subst (asm) block_loop.simps) (fastforce split: if_splits)
qed

lemma string_loop_cases:
  assumes "string_loop l = Some (v, l')"
  obtains "\<not> at_end l" "l' = skip_char l" "v = []"
    | m w where "\<not> at_end l" "m = skip_char l \<or> m = skip_char (skip_char l) \<and> \<not> at_end (skip_char l)"
        "string_loop m = Some (w, l')"
  using assms
  by (subst (asm) string_loop.simps) (auto simp: Let_def at_end_def split: if_splits option.splits)

lemma string_loop_pos: "string_loop l = Some (v, l') \<Longrightarrow> src l' = src l \<and> pos l < pos l'"
proof (induction "length (src l) - pos l" arbitrary: l v rule: less_induct)
  case less
  from less.prems show ?case
  proof (cases rule: string_loop_cases)
    case 1
    then show ?thesis by simp
  next
    case (2 m w)
    then have m: "src m = src l" "pos l < pos m" by auto
    moreover have "length (src m) - pos m < length (src l) - pos l"
      using 2(1) m by (auto simp: at_end_def)
    ultimately show ?thesis using less.hyps [OF _ 2(3)] by auto
  qed
qed

text \<open>Every turn of the loop moves the cursor forward, even when \<open>readWord\<close> steps back.\<close>

lemma skipWhitespace_pos: "src (skipWhitespace l) = src l \<and> pos l \<le> pos (skipWhitespace l)"
  using scan_while_pos [of isspace l] by (simp add: skipWhitespace_def)

lemma skipLineComment_pos:
  assumes "\<not> at_end l" "peek l 0 \<noteq> newline"
  shows "src (skipLineComment l) = src l \<and> pos l < pos (skipLineComment l)"
  using assms scan_while_pos [of "\<lambda>c. c \<noteq> newline" "skip_char l"]
  by (simp add: skipLineComment_def scan_while_step)

lemma read_fraction_pos:
  "read_fraction l = (b, f, l') \<Longrightarrow> src l' = src l \<and> pos l \<le> pos l'"
  using scan_while_pos [of isdigit "skip_char l"]
  by (auto simp: read_fraction_def advance_def split: if_splits prod.splits)

lemma read_exponent_pos:
  "read_exponent l = Some (b, e, l') \<Longrightarrow> src l' = src l \<and> pos l \<le> pos l'"
  using scan_while_pos [of isdigit "skip_char l"] scan_while_pos [of isdigit "skip_char (skip_char l)"]
  by (auto simp: read_exponent_def advance_def Let_def split: if_splits prod.splits)

lemma readNumber_pos:
  assumes "\<not> at_end l" "isdigit (peek l 0)" "readNumber l = Inr (t, l')"
  shows "src l' = src l \<and> pos l < pos l'"
proof -
  obtain ds l1 where d: "scan_while isdigit l = (ds, l1)" by fastforce
  then have "pos l < pos l1 \<and> src l1 = src l"
    using assms(1,2) scan_while_pos [of isdigit "skip_char l"] by (auto simp: scan_while_step)
  moreover obtain b f l2 where f: "read_fraction l1 = (b, f, l2)" by (cases "read_fraction l1")
  moreover obtain b' e where "read_exponent l2 = Some (b', e, l')"
    using assms(3) d f by (auto simp: readNumber_def split: option.splits)
  ultimately show ?thesis using read_fraction_pos [of l1 b f l2] read_exponent_pos [of l2 b' e l'] by simp
qed

lemma readWord_pos:
  assumes "\<not> at_end l" "isWordStart (peek l 0)" "readWord l = (t, l')"
  shows "src l' = src l \<and> pos l < pos l'"
proof -
  obtain word l1 where w: "word_loop l = (word, l1)" by fastforce
  have start: "word_more l" "peek l 0 \<noteq> CHR ''-''"
    using assms(2) by (auto simp: word_more_def isWordStart_def isWordContinue_def isalnum_def ctype_defs)
  define cs where "cs = fst (word_loop (skip_char l))"
  have cs: "word = peek l 0 # cs"
    using w assms(1) start(1) by (simp add: word_loop_step cs_def)
  have 1: "src l1 = src l \<and> pos l1 = pos l + length word" using word_loop_pos [of l] w by simp
  have "length (dropWhile (\<lambda>c. c \<noteq> CHR ''-'') word) < length word"
    using cs start length_dropWhile_le [of "\<lambda>c. c \<noteq> CHR ''-''" cs] by simp
  then show ?thesis using 1 w cs assms(3)
    by (auto simp: readWord_def Let_def split: if_splits option.splits)
qed

lemma readString_pos: "readString l = Inr (t, l') \<Longrightarrow> src l' = src l \<and> pos l < pos l'"
  using string_loop_pos [of "skip_char l"] by (fastforce simp: readString_def split: option.splits)

lemma readOperator_pos: "readOperator l = Inr (t, l') \<Longrightarrow> src l' = src l \<and> pos l < pos l'"
  by (auto simp: readOperator_def operator_token_def Let_def split: if_splits)

lemma skipBlockComment_pos: "skipBlockComment l = Inr l' \<Longrightarrow> src l' = src l \<and> pos l < pos l'"
  using block_loop_pos [of "skip_char (skip_char l)"]
  by (fastforce simp: skipBlockComment_def split: option.splits)

lemma read_item_pos:
  assumes "\<not> at_end l" "read_item l = Inr (t, l')"
  shows "src l' = src l \<and> pos l < pos l'"
  using assms skipLineComment_pos [OF assms(1)] skipBlockComment_pos [of l l'] readString_pos [of l _ l']
    readNumber_pos [OF assms(1), of _ l'] readWord_pos [OF assms(1), of _ l'] readOperator_pos [of l _ l']
  by (auto simp: read_item_def Let_def rbind_eq_Inr_iff split: if_splits prod.splits)

function tokenize_loop :: "lexer \<Rightarrow> lexer_error + token list" where
  "tokenize_loop l =
     (let l1 = skipWhitespace l in
      if at_end l1 then Inr [Token EOF_TOKEN [] (line l1) (col l1)]
      else rbind (read_item l1) (\<lambda>(t, l2).
             rbind (tokenize_loop l2) (\<lambda>tokens.
               Inr (case t of None \<Rightarrow> tokens | Some token \<Rightarrow> token # tokens))))"
  by pat_completeness auto
termination
proof (relation "measure (\<lambda>l. length (src l) - pos l)")
  fix l l1 :: lexer and x :: "token option \<times> lexer" and t l2
  assume "l1 = skipWhitespace l" "\<not> at_end l1" "read_item l1 = Inr x" "(t, l2) = x"
  then show "(l2, l) \<in> measure (\<lambda>l. length (src l) - pos l)"
    using read_item_pos [of l1 t l2] skipWhitespace_pos [of l] by (auto simp: at_end_def)
qed simp

declare tokenize_loop.simps [simp del]

definition tokenize :: "string \<Rightarrow> lexer_error + token list" where
  "tokenize source = tokenize_loop (new_lexer source)"

section \<open>The states of a run\<close>

text \<open>
  The position of character \<open>i\<close> of a text, and the state of a lexer whose cursor is there.
\<close>

definition line_at :: "string \<Rightarrow> nat \<Rightarrow> int" where
  "line_at s i = 1 + int (length (filter (\<lambda>c. c = newline) (take i s)))"

definition col_at :: "string \<Rightarrow> nat \<Rightarrow> int" where
  "col_at s i = 1 + int (length (takeWhile (\<lambda>c. c \<noteq> newline) (rev (take i s))))"

definition lexer_at :: "string \<Rightarrow> nat \<Rightarrow> lexer" where
  "lexer_at s i = \<lparr>src = s, pos = i, line = line_at s i, col = col_at s i\<rparr>"

lemma lexer_at_simps [simp]:
  "src (lexer_at s i) = s" "pos (lexer_at s i) = i"
  "line (lexer_at s i) = line_at s i" "col (lexer_at s i) = col_at s i"
  by (simp_all add: lexer_at_def)

lemma new_lexer_at: "new_lexer s = lexer_at s 0"
  by (simp add: new_lexer_def lexer_at_def line_at_def col_at_def)

lemma at_end_at [simp]: "at_end (lexer_at s i) \<longleftrightarrow> length s \<le> i"
  by (simp add: at_end_def)

lemma peek_at: "i + k < length s \<Longrightarrow> peek (lexer_at s i) k = s ! (i + k)"
  by (simp add: peek_def)

lemma skip_char_at [simp]: "i < length s \<Longrightarrow> skip_char (lexer_at s i) = lexer_at s (Suc i)"
  by (simp add: skip_char_def lexer_at_def peek_def line_at_def col_at_def take_Suc_conv_app_nth)

text \<open>Stepping back over characters none of which ends a line.\<close>

lemma step_back_at:
  assumes "j \<le> i" "i \<le> length s" "newline \<notin> set (drop j (take i s))"
  shows "(lexer_at s i)\<lparr>pos := i - (i - j), col := col_at s i - int (i - j)\<rparr> = lexer_at s j"
proof -
  have t: "take i s = take j s @ drop j (take i s)"
    using assms(1) by (metis append_take_drop_id min.absorb1 take_take)
  have d: "length (drop j (take i s)) = i - j" using assms by simp
  have "filter (\<lambda>c. c = newline) (drop j (take i s)) = []"
    using assms(3) by (simp add: filter_empty_conv) metis
  then have "filter (\<lambda>c. c = newline) (take i s) = filter (\<lambda>c. c = newline) (take j s)"
    by (subst t) simp
  then have "line_at s i = line_at s j" by (simp add: line_at_def)
  moreover have "col_at s i = col_at s j + int (i - j)"
  proof -
    have "takeWhile (\<lambda>c. c \<noteq> newline) (rev (take i s)) =
        rev (drop j (take i s)) @ takeWhile (\<lambda>c. c \<noteq> newline) (rev (take j s))"
      by (subst t, subst rev_append, rule takeWhile_append2) (use assms(3) in auto)
    then have "length (takeWhile (\<lambda>c. c \<noteq> newline) (rev (take i s))) =
        (i - j) + length (takeWhile (\<lambda>c. c \<noteq> newline) (rev (take j s)))"
      unfolding d [symmetric] by simp
    then show ?thesis by (simp add: col_at_def)
  qed
  ultimately show ?thesis using assms(1) by (simp add: lexer_at_def)
qed

lemma scan_while_at:
  assumes "i \<le> length s"
  shows "scan_while P (lexer_at s i) =
    (takeWhile P (drop i s), lexer_at s (i + length (takeWhile P (drop i s))))"
  using assms
proof (induction "length s - i" arbitrary: i)
  case 0
  then show ?case by (simp add: scan_while_stop)
next
  case (Suc n)
  then have i: "i < length s" by simp
  then have d: "drop i s = s ! i # drop (Suc i) s" by (simp add: Cons_nth_drop_Suc)
  show ?case
  proof (cases "P (s ! i)")
    case True
    then show ?thesis using Suc.hyps(1) [of "Suc i"] Suc.hyps(2) i d
      by (simp add: scan_while_step peek_at)
  next
    case False
    then show ?thesis using i d by (simp add: scan_while_stop peek_at)
  qed
qed

fun word_prefix :: "string \<Rightarrow> string" where
  "word_prefix [] = []"
| "word_prefix (c # cs) =
     (if isWordContinue c \<and> (c = CHR ''-'' \<longrightarrow> cs \<noteq> [] \<and> isWordStart (hd cs))
      then c # word_prefix cs else [])"

lemma word_loop_at:
  assumes "i \<le> length s"
  shows "word_loop (lexer_at s i) =
    (word_prefix (drop i s), lexer_at s (i + length (word_prefix (drop i s))))"
  using assms
proof (induction "length s - i" arbitrary: i)
  case 0
  then show ?case by (simp add: word_loop_stop)
next
  case (Suc n)
  then have i: "i < length s" by simp
  then have d: "drop i s = s ! i # drop (Suc i) s" by (simp add: Cons_nth_drop_Suc)
  have more: "word_more (lexer_at s i) \<longleftrightarrow>
      isWordContinue (s ! i) \<and> (s ! i = CHR ''-'' \<longrightarrow> drop (Suc i) s \<noteq> [] \<and> isWordStart (hd (drop (Suc i) s)))"
    using i by (auto simp: word_more_def peek_at hd_drop_conv_nth)
  show ?case
  proof (cases "word_more (lexer_at s i)")
    case True
    then show ?thesis using Suc.hyps(1) [of "Suc i"] Suc.hyps(2) i d more
      by (simp add: word_loop_step peek_at)
  next
    case False
    then show ?thesis using i d more by (simp add: word_loop_stop del: drop_eq_Nil)
  qed
qed

lemma block_loop_at:
  "i \<le> length s \<Longrightarrow> block_loop (lexer_at s i) = Some l' \<Longrightarrow> \<exists>j. i < j \<and> j \<le> length s \<and> l' = lexer_at s j"
proof (induction "length s - i" arbitrary: i)
  case 0
  then show ?case by (simp add: block_loop.simps)
next
  case (Suc n)
  then have i: "i < length s" by simp
  show ?case
  proof (cases "peek (lexer_at s i) 0 = CHR ''*'' \<and> peek (lexer_at s i) 1 = CHR ''/''")
    case True
    then have "Suc i < length s" by (auto simp: peek_def split: if_splits)
    then have "l' = lexer_at s (Suc (Suc i))"
      using Suc.prems(2) True i by (subst (asm) block_loop.simps) simp
    then show ?thesis using \<open>Suc i < length s\<close> by (intro exI [of _ "Suc (Suc i)"]) simp
  next
    case False
    then have "block_loop (lexer_at s (Suc i)) = Some l'"
      using Suc.prems(2) i by (subst (asm) block_loop.simps) auto
    moreover have "n = length s - Suc i" "Suc i \<le> length s" using Suc.hyps(2) i by simp_all
    ultimately obtain j where "Suc i < j" "j \<le> length s" "l' = lexer_at s j" using Suc.hyps(1) by blast
    then show ?thesis by (intro exI [of _ j]) simp
  qed
qed

lemma string_loop_at:
  "i \<le> length s \<Longrightarrow> string_loop (lexer_at s i) = Some (v, l') \<Longrightarrow> \<exists>j. i < j \<and> j \<le> length s \<and> l' = lexer_at s j"
proof (induction "length s - i" arbitrary: i v rule: less_induct)
  case less
  from less.prems(2) show ?case
  proof (cases rule: string_loop_cases)
    case 1
    then show ?thesis by (intro exI [of _ "Suc i"]) simp
  next
    case (2 m w)
    then obtain k where k: "m = lexer_at s k" "i < k" "k \<le> length s"
      by (auto simp: at_end_def not_le intro: that [of "Suc i"] that [of "Suc (Suc i)"])
    then have "length s - k < length s - i" by simp
    then obtain j where "k < j" "j \<le> length s" "l' = lexer_at s j" using less.hyps [of k w] 2(3) k by blast
    then show ?thesis using k by (intro exI [of _ j]) simp
  qed
qed

section \<open>Where tokens are and what they say\<close>

text \<open>What the text of a token says about it; no scanner produces the end-of-file token.\<close>

definition token_text_ok :: "token \<Rightarrow> bool" where
  "token_text_ok token \<longleftrightarrow> ttype token \<noteq> EOF_TOKEN \<and>
     (ttype token = IDENTIFIER \<longrightarrow> tvalue token \<noteq> [] \<and> isWordStart (hd (tvalue token)) \<and>
        (\<forall>c\<in>set (tvalue token). isalnum c \<or> c = CHR ''_'')) \<and>
     (ttype token = INTEGER_LIT \<longrightarrow> tvalue token \<noteq> [] \<and> (\<forall>c\<in>set (tvalue token). isdigit c))"

definition located_tokens :: "string \<Rightarrow> token list \<Rightarrow> bool" where
  "located_tokens s tokens \<longleftrightarrow>
     (\<exists>ps. length ps + 1 = length tokens \<and> sorted_wrt (<) ps \<and>
        (\<forall>k<length ps. ps ! k < length s \<and> \<not> isspace (s ! (ps ! k)) \<and> token_text_ok (tokens ! k) \<and>
           tline (tokens ! k) = line_at s (ps ! k) \<and> tcol (tokens ! k) = col_at s (ps ! k)) \<and>
        tokens ! length ps = Token EOF_TOKEN [] (line_at s (length s)) (col_at s (length s)))"

definition located_error :: "string \<Rightarrow> lexer_error \<Rightarrow> bool" where
  "located_error s e \<longleftrightarrow>
     (\<exists>i<length s. lexer_line e = line_at s i \<and> lexer_col e = col_at s i)"

lemma wordStart_continue: "isWordStart c \<Longrightarrow> isWordContinue c \<and> c \<noteq> CHR ''-''"
  by (auto simp: isWordStart_def isWordContinue_def isalnum_def ctype_defs)

lemma wordContinue_newline [simp]: "\<not> isWordContinue newline"
  by (simp add: isWordContinue_def ctype_defs)

lemma word_prefix_continue: "c \<in> set (word_prefix cs) \<Longrightarrow> isWordContinue c"
  by (induction cs rule: word_prefix.induct) (auto split: if_splits)

lemma word_prefix_is_prefix: "take (length (word_prefix cs)) cs = word_prefix cs"
  by (induction cs rule: word_prefix.induct) auto

lemma word_prefix_le: "length (word_prefix cs) \<le> length cs"
  using word_prefix_is_prefix [of cs] by (metis length_take min.cobounded1)

lemma keyword_types: "keyword w = Some t \<Longrightarrow> t \<notin> {EOF_TOKEN, IDENTIFIER, INTEGER_LIT, STRING_LIT, L_FUNC}"
proof -
  have "\<forall>(w, t)\<in>set KEYWORDS. t \<notin> {EOF_TOKEN, IDENTIFIER, INTEGER_LIT, STRING_LIT, L_FUNC}"
    by (simp add: KEYWORDS_def)
  then show "keyword w = Some t \<Longrightarrow> ?thesis" unfolding keyword_def by (auto dest: map_of_SomeD)
qed

lemma scan_while_at_le: "i \<le> length s \<Longrightarrow> i + length (takeWhile P (drop i s)) \<le> length s"
  using length_takeWhile_le [of P "drop i s"] by simp

text \<open>
  A token that starts at \<open>i\<close> and ends before \<open>j\<close>; the claim about \<open>read_item\<close> is proved for
  each scanner first.
\<close>

definition token_span :: "string \<Rightarrow> nat \<Rightarrow> token \<Rightarrow> lexer \<Rightarrow> bool" where
  "token_span s i token l' \<longleftrightarrow> (\<exists>j. i < j \<and> j \<le> length s \<and> l' = lexer_at s j) \<and>
     tline token = line_at s i \<and> tcol token = col_at s i \<and> token_text_ok token"

lemma readWord_at:
  assumes i: "i < length s" and start: "isWordStart (s ! i)"
  shows "token_span s i (fst (readWord (lexer_at s i))) (snd (readWord (lexer_at s i)))"
proof -
  define cs where "cs = drop i s"
  have cs: "cs = s ! i # drop (Suc i) s" using i by (simp add: cs_def Cons_nth_drop_Suc)
  define word where "word = word_prefix cs"
  have word: "word = s ! i # word_prefix (drop (Suc i) s)"
    using wordStart_continue [OF start] by (simp add: word_def cs)
  define ident where "ident = takeWhile (\<lambda>c. c \<noteq> CHR ''-'') word"
  define rest where "rest = dropWhile (\<lambda>c. c \<noteq> CHR ''-'') word"
  have wl: "word = ident @ rest" by (simp add: ident_def rest_def)
  have ident: "ident \<noteq> []" "hd ident = s ! i"
    using word wordStart_continue [OF start] by (simp_all add: ident_def)
  have loop: "word_loop (lexer_at s i) = (word, lexer_at s (i + length word))"
    using word_loop_at [of i s] i by (simp add: word_def cs_def)
  have le: "i + length word \<le> length s" using word_prefix_le [of cs] i by (simp add: word_def cs_def)
  have chars: "\<forall>c\<in>set ident. isalnum c \<or> c = CHR ''_''"
    using word_prefix_continue [of _ cs] set_takeWhileD
    unfolding ident_def word_def isWordContinue_def by fast
  have whole: "CHR ''-'' \<notin> set word \<Longrightarrow> ident = word" by (simp add: ident_def) (metis takeWhile_eq_all_conv)
  have step_back: "(lexer_at s (i + length word))\<lparr>pos := i + length word - length rest,
      col := col_at s (i + length word) - int (length rest)\<rparr> = lexer_at s (i + length ident)"
  proof -
    have "drop (i + length ident) (take (i + length word) s) = rest"
    proof -
      have "take (length word) (drop i s) = word" using word_prefix_is_prefix [of cs] by (simp add: word_def cs_def)
      then have "drop (length ident) (take (length word) (drop i s)) = rest" using wl by simp
      then show ?thesis by (simp add: drop_take add.commute)
    qed
    moreover have "newline \<notin> set rest"
      using word_prefix_continue [of newline cs] wl by (auto simp: word_def [symmetric])
    moreover have "i + length word - (i + length ident) = length rest" using wl by simp
    ultimately show ?thesis using step_back_at [of "i + length ident" "i + length word" s] le wl by simp
  qed
  have len: "0 < length word" "0 < length ident" using word ident by simp_all
  show ?thesis
  proof (cases "word = ''L''")
    case True
    then show ?thesis using loop le
      by (auto simp: readWord_def token_span_def token_text_ok_def intro: exI [of _ "i + length word"])
  next
    case not_L: False
    show ?thesis
    proof (cases "keyword word")
      case (Some t)
      then show ?thesis using loop le len not_L keyword_types [OF Some]
        by (auto simp: readWord_def token_span_def token_text_ok_def intro!: exI [of _ "i + length word"])
    next
      case None
      have tok: "token_text_ok (Token IDENTIFIER ident (line_at s i) (col_at s i))"
        using ident chars start by (simp add: token_text_ok_def)
      have "i + length ident \<le> length s" using le wl by simp
      moreover have "readWord (lexer_at s i) =
          (Token IDENTIFIER ident (line_at s i) (col_at s i), lexer_at s (i + length ident))"
      proof (cases "CHR ''-'' \<in> set word")
        case True
        then show ?thesis using loop not_L None step_back
          by (simp add: readWord_def Let_def rest_def [symmetric] ident_def [symmetric])
      next
        case False
        then show ?thesis using loop not_L None whole by (simp add: readWord_def)
      qed
      ultimately show ?thesis using tok len
        by (auto simp: token_span_def intro!: exI [of _ "i + length ident"])
    qed
  qed
qed

lemma read_fraction_at:
  assumes "i \<le> length s" "read_fraction (lexer_at s i) = (b, f, l')"
  shows "\<exists>j. i \<le> j \<and> j \<le> length s \<and> l' = lexer_at s j \<and> (\<not> b \<longrightarrow> f = [] \<and> j = i)"
proof (cases b)
  case True
  then have "l' = lexer_at s (Suc i + length (takeWhile isdigit (drop (Suc i) s)))" "i < length s"
    using assms by (auto simp: read_fraction_def advance_def scan_while_at split: if_splits)
  then show ?thesis using scan_while_at_le [of "Suc i" s isdigit] True
    by (intro exI [of _ "Suc i + length (takeWhile isdigit (drop (Suc i) s))"]) auto
next
  case False
  then show ?thesis using assms
    by (auto simp: read_fraction_def advance_def split: if_splits prod.splits)
qed

lemma read_exponent_at:
  assumes "i \<le> length s" "read_exponent (lexer_at s i) = Some (b, f, l')"
  shows "\<exists>j. i \<le> j \<and> j \<le> length s \<and> l' = lexer_at s j \<and> (\<not> b \<longrightarrow> f = [] \<and> j = i)"
proof (cases b)
  case True
  then obtain k where "l' = lexer_at s (k + length (takeWhile isdigit (drop k s)))" "i < k" "k \<le> length s"
    using assms
    by (auto simp: read_exponent_def advance_def Let_def scan_while_at not_le Suc_le_eq
        split: if_splits prod.splits intro: that [of "Suc i"] that [of "Suc (Suc i)"])
  then show ?thesis using scan_while_at_le [of k s isdigit] True
    by (intro exI [of _ "k + length (takeWhile isdigit (drop k s))"]) auto
next
  case False
  then show ?thesis using assms
    by (auto simp: read_exponent_def advance_def Let_def split: if_splits prod.splits)
qed

lemma readNumber_at:
  assumes i: "i < length s" and digit: "isdigit (s ! i)" and r: "readNumber (lexer_at s i) = Inr (token, l')"
  shows "token_span s i token l'"
proof -
  define ds where "ds = takeWhile isdigit (drop i s)"
  have ds: "ds \<noteq> []" "\<forall>c\<in>set ds. isdigit c"
    using i digit by (auto simp: ds_def Cons_nth_drop_Suc [symmetric] dest: set_takeWhileD)
  have loop: "scan_while isdigit (lexer_at s i) = (ds, lexer_at s (i + length ds))"
    using i by (simp add: scan_while_at ds_def)
  have le: "i + length ds \<le> length s" using scan_while_at_le [of i s isdigit] i by (simp add: ds_def)
  obtain b f l2 where f: "read_fraction (lexer_at s (i + length ds)) = (b, f, l2)"
    by (cases "read_fraction (lexer_at s (i + length ds))")
  obtain j where j: "i + length ds \<le> j" "j \<le> length s" "l2 = lexer_at s j" "\<not> b \<longrightarrow> f = []"
    using read_fraction_at [OF le f] by blast
  obtain b' e where e: "read_exponent l2 = Some (b', e, l')"
      "token = Token (if b \<or> b' then FLOAT_LIT else INTEGER_LIT) (ds @ f @ e) (line_at s i) (col_at s i)"
    using r loop f by (auto simp: readNumber_def split: option.splits)
  obtain k where k: "j \<le> k" "k \<le> length s" "l' = lexer_at s k" "\<not> b' \<longrightarrow> e = []"
    using read_exponent_at [OF j(2)] e(1) j(3) by blast
  have "i < k" using ds(1) j(1) k(1) by (cases ds) auto
  then show ?thesis using e(2) k j(4) ds by (auto simp: token_span_def token_text_ok_def)
qed

lemma readString_at:
  assumes i: "i < length s" and r: "readString (lexer_at s i) = Inr (token, l')"
  shows "token_span s i token l'"
proof -
  obtain v where v: "string_loop (lexer_at s (Suc i)) = Some (v, l')"
      "token = Token STRING_LIT v (line_at s i) (col_at s i)"
    using r i by (auto simp: readString_def split: option.splits)
  then obtain j where "Suc i < j" "j \<le> length s" "l' = lexer_at s j" using string_loop_at [of "Suc i" s] i by auto
  then show ?thesis using v(2) by (auto simp: token_span_def token_text_ok_def intro: Suc_lessD)
qed

lemma readOperator_at:
  assumes i: "i < length s" and r: "readOperator (lexer_at s i) = Inr (token, l')"
  shows "token_span s i token l'"
proof -
  obtain t w where t: "token = Token t w (line_at s i) (col_at s i)" "t \<notin> {EOF_TOKEN, IDENTIFIER, INTEGER_LIT}"
      "l' = lexer_at s (Suc i) \<or> l' = skip_char (lexer_at s (Suc i)) \<and> Suc i < length s"
    using r i
    by (auto simp: readOperator_def operator_token_def Let_def peek_def split: if_splits)
  then have "\<exists>j. i < j \<and> j \<le> length s \<and> l' = lexer_at s j"
    using i by (auto intro: exI [of _ "Suc i"] exI [of _ "Suc (Suc i)"])
  then show ?thesis using t by (auto simp: token_span_def token_text_ok_def)
qed

lemma skipLineComment_at:
  assumes i: "i < length s" and c: "s ! i \<noteq> newline"
  shows "\<exists>j. i < j \<and> j \<le> length s \<and> skipLineComment (lexer_at s i) = lexer_at s j"
proof -
  let ?n = "length (takeWhile (\<lambda>c. c \<noteq> newline) (drop i s))"
  have "0 < ?n" using i c by (simp add: Cons_nth_drop_Suc [symmetric])
  then show ?thesis using scan_while_at_le [of i s "\<lambda>c. c \<noteq> newline"] i
    by (intro exI [of _ "i + ?n"]) (simp add: skipLineComment_def scan_while_at)
qed

lemma skipBlockComment_at:
  assumes i: "Suc i < length s" and r: "skipBlockComment (lexer_at s i) = Inr l'"
  shows "\<exists>j. i < j \<and> j \<le> length s \<and> l' = lexer_at s j"
proof -
  have "block_loop (lexer_at s (Suc (Suc i))) = Some l'"
    using r i by (auto simp: skipBlockComment_def split: option.splits)
  then obtain j where "Suc (Suc i) < j" "j \<le> length s" "l' = lexer_at s j"
    using block_loop_at [of "Suc (Suc i)" s] i by auto
  then show ?thesis by (intro exI [of _ j]) simp
qed

lemma read_item_at:
  assumes i: "i < length s" and r: "read_item (lexer_at s i) = Inr (item, l')"
  shows "(\<exists>j. i < j \<and> j \<le> length s \<and> l' = lexer_at s j) \<and>
     (case item of None \<Rightarrow> True | Some token \<Rightarrow> token_span s i token l')"
proof -
  have p: "peek (lexer_at s i) 0 = s ! i" using i by (simp add: peek_at)
  have p1: "Suc i < length s" if "peek (lexer_at s i) 1 = c" "c \<noteq> CHR 0x00" for c
    using that by (auto simp: peek_def split: if_splits)
  consider (line) "s ! i = CHR ''-''" "item = None" "l' = skipLineComment (lexer_at s i)"
    | (block) "peek (lexer_at s i) 1 = CHR ''*''" "item = None" "skipBlockComment (lexer_at s i) = Inr l'"
    | (str) token where "item = Some token" "readString (lexer_at s i) = Inr (token, l')"
    | (number) token where "isdigit (s ! i)" "item = Some token" "readNumber (lexer_at s i) = Inr (token, l')"
    | (wrd) token where "isWordStart (s ! i)" "item = Some token" "readWord (lexer_at s i) = (token, l')"
    | (op) token where "item = Some token" "readOperator (lexer_at s i) = Inr (token, l')"
    using r p by (cases "readWord (lexer_at s i)")
      (auto simp: read_item_def Let_def rbind_eq_Inr_iff split: if_splits)
  then show ?thesis
  proof cases
    case line
    then show ?thesis using skipLineComment_at [OF i] by simp
  next
    case block
    then show ?thesis using skipBlockComment_at p1 by simp
  next
    case str
    then show ?thesis using readString_at [OF i] by (simp add: token_span_def)
  next
    case number
    then show ?thesis using readNumber_at [OF i] by (simp add: token_span_def)
  next
    case wrd
    then show ?thesis using readWord_at [OF i] by (simp add: token_span_def)
  next
    case op
    then show ?thesis using readOperator_at [OF i] by (simp add: token_span_def)
  qed
qed

lemma scanner_errors:
  "readString l = Inl e \<Longrightarrow> lexer_line e = line l \<and> lexer_col e = col l"
  "readNumber l = Inl e \<Longrightarrow> lexer_line e = line l \<and> lexer_col e = col l"
  "skipBlockComment l = Inl e \<Longrightarrow> lexer_line e = line l \<and> lexer_col e = col l"
  "readOperator l = Inl e \<Longrightarrow> lexer_line e = line l \<and> lexer_col e = col l"
  by (auto simp: readString_def split: option.splits)
    (auto simp: readNumber_def split: option.splits prod.splits,
     auto simp: skipBlockComment_def split: option.splits,
     auto simp: readOperator_def operator_token_def Let_def split: if_splits)

lemma read_item_error:
  assumes "read_item l = Inl e"
  shows "lexer_line e = line l \<and> lexer_col e = col l"
proof -
  have "readString l = Inl e \<or> readNumber l = Inl e \<or> readOperator l = Inl e \<or> skipBlockComment l = Inl e"
    using assms unfolding read_item_def Let_def
    by (simp add: rbind_eq_Inl_iff split: if_splits)
  then show ?thesis using scanner_errors by blast
qed

lemma skipWhitespace_at:
  assumes "i \<le> length s"
  shows "\<exists>j. i \<le> j \<and> j \<le> length s \<and> skipWhitespace (lexer_at s i) = lexer_at s j \<and>
     (j < length s \<longrightarrow> \<not> isspace (s ! j))"
proof -
  let ?n = "length (takeWhile isspace (drop i s))"
  have "\<not> isspace (s ! (i + ?n))" if "i + ?n < length s"
    using that nth_length_takeWhile [of isspace "drop i s"] by simp
  then show ?thesis using assms scan_while_at_le [OF assms, of isspace]
    by (intro exI [of _ "i + ?n"]) (simp add: skipWhitespace_def scan_while_at)
qed

definition located_from :: "string \<Rightarrow> nat \<Rightarrow> token list \<Rightarrow> bool" where
  "located_from s i tokens \<longleftrightarrow>
     (\<exists>ps. length ps + 1 = length tokens \<and> sorted_wrt (<) ps \<and> (\<forall>p\<in>set ps. i \<le> p) \<and>
        (\<forall>k<length ps. ps ! k < length s \<and> \<not> isspace (s ! (ps ! k)) \<and> token_text_ok (tokens ! k) \<and>
           tline (tokens ! k) = line_at s (ps ! k) \<and> tcol (tokens ! k) = col_at s (ps ! k)) \<and>
        tokens ! length ps = Token EOF_TOKEN [] (line_at s (length s)) (col_at s (length s)))"

lemma located_from_mono: "located_from s j tokens \<Longrightarrow> i \<le> j \<Longrightarrow> located_from s i tokens"
  unfolding located_from_def by (meson le_trans)

lemma located_from_Cons:
  assumes "located_from s j tokens" "i < j" "i < length s" "\<not> isspace (s ! i)" "token_span s i token l'"
  shows "located_from s i (token # tokens)"
proof -
  obtain ps where ps: "length ps + 1 = length tokens" "sorted_wrt (<) ps" "\<forall>p\<in>set ps. j \<le> p"
      "\<forall>k<length ps. ps ! k < length s \<and> \<not> isspace (s ! (ps ! k)) \<and> token_text_ok (tokens ! k) \<and>
         tline (tokens ! k) = line_at s (ps ! k) \<and> tcol (tokens ! k) = col_at s (ps ! k)"
      "tokens ! length ps = Token EOF_TOKEN [] (line_at s (length s)) (col_at s (length s))"
    using assms(1) unfolding located_from_def by blast
  have "\<forall>k<length (i # ps). (i # ps) ! k < length s \<and> \<not> isspace (s ! ((i # ps) ! k)) \<and>
      token_text_ok ((token # tokens) ! k) \<and> tline ((token # tokens) ! k) = line_at s ((i # ps) ! k) \<and>
      tcol ((token # tokens) ! k) = col_at s ((i # ps) ! k)"
    using ps(4) assms(3-5) by (auto simp: token_span_def nth_Cons split: nat.splits)
  moreover have "sorted_wrt (<) (i # ps)" using ps(2,3) assms(2) by auto
  moreover have "\<forall>p\<in>set (i # ps). i \<le> p" using ps(3) assms(2) by auto
  moreover have "length (i # ps) + 1 = length (token # tokens)" using ps(1) by simp
  moreover have "(token # tokens) ! length (i # ps) = Token EOF_TOKEN [] (line_at s (length s)) (col_at s (length s))"
    using ps(5) by simp
  ultimately show ?thesis unfolding located_from_def by blast
qed

lemma tokenize_loop_at:
  "i \<le> length s \<Longrightarrow>
   case tokenize_loop (lexer_at s i) of Inl e \<Rightarrow> located_error s e | Inr tokens \<Rightarrow> located_from s i tokens"
proof (induction "length s - i" arbitrary: i rule: less_induct)
  case less
  obtain j where j: "i \<le> j" "j \<le> length s" "skipWhitespace (lexer_at s i) = lexer_at s j"
      "j < length s \<longrightarrow> \<not> isspace (s ! j)"
    using skipWhitespace_at [OF less.prems] by blast
  show ?case
  proof (cases "j = length s")
    case True
    then have "tokenize_loop (lexer_at s i) =
        Inr [Token EOF_TOKEN [] (line_at s (length s)) (col_at s (length s))]"
      using j by (subst tokenize_loop.simps) simp
    then show ?thesis by (auto simp: located_from_def)
  next
    case False
    then have jl: "j < length s" using j by simp
    show ?thesis
    proof (cases "read_item (lexer_at s j)")
      case (Inl e)
      then have "tokenize_loop (lexer_at s i) = Inl e" using j jl by (subst tokenize_loop.simps) simp
      then show ?thesis using read_item_error [OF Inl] jl by (auto simp: located_error_def)
    next
      case (Inr r)
      obtain item l' where r: "r = (item, l')" by (cases r)
      obtain k where k: "j < k" "k \<le> length s" "l' = lexer_at s k"
          and item: "case item of None \<Rightarrow> True | Some token \<Rightarrow> token_span s j token l'"
        using read_item_at [OF jl] Inr r by blast
      have step: "tokenize_loop (lexer_at s i) = rbind (tokenize_loop (lexer_at s k))
          (\<lambda>tokens. Inr (case item of None \<Rightarrow> tokens | Some token \<Rightarrow> token # tokens))"
        using j jl Inr r k by (subst tokenize_loop.simps) simp
      have ih: "case tokenize_loop (lexer_at s k) of Inl e \<Rightarrow> located_error s e | Inr tokens \<Rightarrow> located_from s k tokens"
        using less.hyps [of k] k j jl by simp
      show ?thesis
      proof (cases "tokenize_loop (lexer_at s k)")
        case (Inl e)
        then show ?thesis using ih by (simp add: step)
      next
        case (Inr tokens)
        then have l: "located_from s k tokens" using ih by simp
        show ?thesis
        proof (cases item)
          case None
          then show ?thesis using Inr located_from_mono [OF l] k j by (simp add: step)
        next
          case (Some token)
          then have "located_from s j (token # tokens)"
            using located_from_Cons [OF l k(1) jl] j(4) jl item by simp
          then show ?thesis using Inr Some located_from_mono j(1) by (simp add: step)
        qed
      qed
    qed
  qed
qed

end
