(* ===== verification/Lexer_Spelling.thy ===== *)
theory Lexer_Spelling
  imports Lexer
begin

text \<open>
  Writing tokens and reading them back: \<open>spell\<close> is a spelling of a token (a string literal is
  quoted, with quotes and backslashes doubled), \<open>render\<close> writes a list of tokens with a blank
  after each. The lemmas compute \<open>read_item\<close> on every spelling, so that the lexer inverts
  \<open>render\<close>; the properties of the lexer follow.
\<close>

section \<open>Spellings\<close>

definition escaped :: "string \<Rightarrow> string" where
  "escaped v = concat (map (\<lambda>c. if c = quote \<or> c = backslash then [c, c] else [c]) v)"

definition spell :: "token_type \<times> string \<Rightarrow> string" where
  "spell = (\<lambda>(t, v). if t = STRING_LIT then quote # escaped v @ [quote] else v)"

definition render :: "(token_type \<times> string) list \<Rightarrow> string" where
  "render items = concat (map (\<lambda>item. spell item @ '' '') items)"

definition operators :: "(token_type \<times> string) list" where
  "operators =
     [(EQ, ''=''), (NEQ, ''!=''), (LT, ''<''), (GT, ''>''), (LTE, ''<=''), (GTE, ''>=''),
      (PLUS_OP, ''+''), (MINUS, ''-''), (STAR, ''*''), (SLASH, ''/''), (CONCAT, ''||''),
      (LPAREN, ''(''), (RPAREN, '')''), (COMMA, '',''), (SEMICOLON, '';''), (DOT, ''.'')]"

definition name_text :: "string \<Rightarrow> bool" where
  "name_text v \<longleftrightarrow> v \<noteq> [] \<and> isWordStart (hd v) \<and> (\<forall>c\<in>set v. isalnum c \<or> c = CHR ''_'')"

definition digits_text :: "string \<Rightarrow> bool" where
  "digits_text v \<longleftrightarrow> v \<noteq> [] \<and> (\<forall>c\<in>set v. isdigit c)"

text \<open>A number with a fraction, an exponent or both.\<close>

definition fraction_text :: "string \<Rightarrow> bool" where
  "fraction_text f \<longleftrightarrow> f = [] \<or> (hd f = CHR ''.'' \<and> digits_text (tl f))"

definition exponent_digits :: "string \<Rightarrow> string" where
  "exponent_digits e = (if tl e \<noteq> [] \<and> (hd (tl e) = CHR ''+'' \<or> hd (tl e) = CHR ''-'') then tl (tl e) else tl e)"

definition exponent_text :: "string \<Rightarrow> bool" where
  "exponent_text e \<longleftrightarrow> e = [] \<or> ((hd e = CHR ''e'' \<or> hd e = CHR ''E'') \<and> digits_text (exponent_digits e))"

definition float_text :: "string \<Rightarrow> bool" where
  "float_text v \<longleftrightarrow> (\<exists>d f e. v = d @ f @ e \<and> digits_text d \<and> fraction_text f \<and> exponent_text e \<and> (f \<noteq> [] \<or> e \<noteq> []))"

text \<open>The tokens that have a spelling.\<close>

definition spellable :: "token_type \<times> string \<Rightarrow> bool" where
  "spellable = (\<lambda>(t, v).
     keyword v = Some t \<or> t = L_FUNC \<and> v = ''L'' \<or> t = STRING_LIT \<or>
     t = IDENTIFIER \<and> name_text v \<and> keyword v = None \<and> v \<noteq> ''L'' \<or>
     t = INTEGER_LIT \<and> digits_text v \<or> t = FLOAT_LIT \<and> float_text v \<or> (t, v) \<in> set operators)"

definition token_pair :: "token \<Rightarrow> token_type \<times> string" where
  "token_pair token = (ttype token, tvalue token)"

section \<open>Reading one spelling\<close>

lemma at_Cons:
  assumes "drop i s = c # cs"
  shows "i < length s" "s ! i = c" "drop (Suc i) s = cs" "peek (lexer_at s i) 0 = c"
    "cs = d # ds \<Longrightarrow> peek (lexer_at s i) 1 = d" "cs = d # ds \<Longrightarrow> Suc i < length s"
proof -
  show i: "i < length s" using assms by (metis drop_eq_Nil linorder_not_le list.distinct(1))
  have e: "s ! i # drop (Suc i) s = c # cs" using assms Cons_nth_drop_Suc [OF i] by simp
  then show c: "s ! i = c" "drop (Suc i) s = cs" by simp_all
  show "peek (lexer_at s i) 0 = c" using i c by (simp add: peek_at)
  assume "cs = d # ds"
  then have ds: "drop (Suc i) s = d # ds" using c by simp
  then show l: "Suc i < length s" by (metis drop_eq_Nil linorder_not_le list.distinct(1))
  then have "s ! Suc i = d" using ds Cons_nth_drop_Suc [OF l] by simp
  then show "peek (lexer_at s i) 1 = d" using l by (simp add: peek_at)
qed

lemma string_loop_escaped:
  "drop i s = escaped v @ quote # c # cs \<Longrightarrow> c \<noteq> quote \<Longrightarrow>
   string_loop (lexer_at s i) = Some (v, lexer_at s (Suc (i + length (escaped v))))"
proof (induction v arbitrary: i)
  case Nil
  then have d: "drop i s = quote # c # cs" by (simp add: escaped_def)
  note a = at_Cons [OF d]
  show ?case using a(1,4) a(5) [OF refl] Nil.prems(2)
    by (subst string_loop.simps) (simp add: escaped_def)
next
  case (Cons x v)
  define e where "e = escaped v @ quote # c # cs"
  show ?case
  proof (cases "x = quote \<or> x = backslash")
    case True
    then have d: "drop i s = x # x # e" using Cons.prems by (simp add: escaped_def e_def)
    note a = at_Cons [OF d] and a' = at_Cons [OF at_Cons(3) [OF d]]
    have "string_loop (lexer_at s (Suc (Suc i))) = Some (v, lexer_at s (Suc (Suc (Suc i) + length (escaped v))))"
      using Cons.IH [of "Suc (Suc i)"] a'(3) Cons.prems(2) by (simp add: e_def)
    then show ?thesis using a(1,4) a(5,6) [OF refl] a'(1,4) True
      by (subst string_loop.simps) (auto simp: escaped_def escape_def Let_def)
  next
    case False
    then have d: "drop i s = x # e" using Cons.prems by (simp add: escaped_def e_def)
    note a = at_Cons [OF d]
    have "string_loop (lexer_at s (Suc i)) = Some (v, lexer_at s (Suc (Suc i + length (escaped v))))"
      using Cons.IH [of "Suc i"] a(3) Cons.prems(2) by (simp add: e_def)
    then show ?thesis using a(1,4) False
      by (subst string_loop.simps) (simp add: escaped_def)
  qed
qed

lemma word_prefix_append:
  "word_prefix w = w \<Longrightarrow> \<not> isWordContinue d \<Longrightarrow> word_prefix (w @ d # cs) = w"
proof (induction w)
  case (Cons c w)
  then have "isWordContinue c" "c = CHR ''-'' \<Longrightarrow> w \<noteq> [] \<and> isWordStart (hd w)" "word_prefix w = w"
    by (auto split: if_splits)
  then show ?case using Cons by (auto simp: hd_append)
qed simp

lemma name_word_prefix: "\<forall>c\<in>set w. isalnum c \<or> c = CHR ''_'' \<Longrightarrow> word_prefix w = w"
  by (induction w) (auto simp: isWordContinue_def isalnum_def ctype_defs)

lemma letters_start: "list_all isWordStart ''abcdefghijklmnopqrstuvwxyzABCDEFGHIJKLMNOPQRSTUVWXYZ''"
  by (simp add: isWordStart_def ctype_defs)

lemma hyphen_continue: "isWordContinue (CHR ''-'')"
  by (simp add: isWordContinue_def)

lemma start_continue: "isWordStart c \<Longrightarrow> isWordContinue c"
  using wordStart_continue by blast

lemma keywords_are_words:
  "list_all (\<lambda>(w, t). word_prefix w = w \<and> isWordStart (hd w) \<and> w \<noteq> [] \<and> w \<noteq> ''L'') KEYWORDS"
  using letters_start unfolding KEYWORDS_def list.pred_inject prod.case
  by (simp add: hyphen_continue start_continue)

lemma keyword_word:
  assumes "keyword w = Some t"
  shows "word_prefix w = w \<and> isWordStart (hd w) \<and> w \<noteq> [] \<and> w \<noteq> ''L''"
proof -
  have "(w, t) \<in> set KEYWORDS" using assms unfolding keyword_def by (rule map_of_SomeD)
  then show ?thesis using keywords_are_words unfolding list_all_iff by fastforce
qed

lemma blank_class [simp]: "\<not> isWordContinue (CHR '' '')" "\<not> isdigit (CHR '' '')" "isspace (CHR '' '')"
  by (simp_all add: isWordContinue_def ctype_defs)

definition reads :: "string \<Rightarrow> nat \<Rightarrow> token_type \<times> string \<Rightarrow> bool" where
  "reads s i item \<longleftrightarrow> read_item (lexer_at s i) =
     Inr (Some (Token (fst item) (snd item) (line_at s i) (col_at s i)), lexer_at s (i + length (spell item)))"

lemma wordStart_dispatch:
  "isWordStart c \<Longrightarrow> c \<noteq> CHR ''-'' \<and> c \<noteq> CHR ''/'' \<and> c \<noteq> quote \<and> \<not> isdigit c \<and> \<not> isspace c"
  by (auto simp: isWordStart_def ctype_defs)

lemma digit_dispatch:
  "isdigit c \<Longrightarrow> c \<noteq> CHR ''-'' \<and> c \<noteq> CHR ''/'' \<and> c \<noteq> quote \<and> \<not> isspace c"
  by (auto simp: ctype_defs)

lemma read_item_word:
  assumes w: "word_prefix w = w" "w \<noteq> []" "isWordStart (hd w)" and d: "drop i s = w @ CHR '' '' # cs"
    and t: "w = ''L'' \<and> t = L_FUNC \<or> w \<noteq> ''L'' \<and> keyword w = Some t \<or>
      w \<noteq> ''L'' \<and> keyword w = None \<and> CHR ''-'' \<notin> set w \<and> t = IDENTIFIER"
  shows "read_item (lexer_at s i) =
    Inr (Some (Token t w (line_at s i) (col_at s i)), lexer_at s (i + length w))"
proof -
  obtain c v where c: "w = c # v" using w(2) by (cases w) auto
  have a: "i < length s" "peek (lexer_at s i) 0 = c" using at_Cons [of i s c] d c by auto
  have "word_prefix (drop i s) = w" using word_prefix_append [OF w(1)] d by simp
  then have "word_loop (lexer_at s i) = (w, lexer_at s (i + length w))" using word_loop_at [of i s] a(1) by simp
  then have "readWord (lexer_at s i) = (Token t w (line_at s i) (col_at s i), lexer_at s (i + length w))"
    using t by (auto simp: readWord_def)
  then show ?thesis using a(2) w(3) wordStart_dispatch [of c] c by (simp add: read_item_def Let_def)
qed

lemma scan_digits:
  assumes "\<forall>x\<in>set g. isdigit x" "drop i s = g @ c # cs" "\<not> isdigit c"
  shows "scan_while isdigit (lexer_at s i) = (g, lexer_at s (i + length g))" "drop (i + length g) s = c # cs"
proof -
  have "i \<le> length s" using assms(2) by (metis append_is_Nil_conv drop_all linorder_not_le list.distinct(1) less_imp_le)
  moreover have "takeWhile isdigit (drop i s) = g" using assms by simp
  ultimately show "scan_while isdigit (lexer_at s i) = (g, lexer_at s (i + length g))" by (simp add: scan_while_at)
  show "drop (i + length g) s = c # cs" using assms(2) by (metis add.commute append_eq_conv_conj drop_drop)
qed

lemma digits_Cons: "digits_text v \<Longrightarrow> \<exists>c w. v = c # w \<and> isdigit c"
  by (cases v) (auto simp: digits_text_def)

lemma exponent_letters: "\<not> isdigit (CHR ''e'')" "\<not> isdigit (CHR ''E'')" "\<not> isdigit (CHR ''+'')" "\<not> isdigit (CHR ''-'')" "\<not> isdigit (CHR ''.'')"
  by (simp_all add: ctype_defs)

lemma read_fraction_text:
  assumes f: "fraction_text f" and d: "drop i s = f @ c # cs" and c: "\<not> isdigit c" "c \<noteq> CHR ''.''"
  shows "read_fraction (lexer_at s i) = (f \<noteq> [], f, lexer_at s (i + length f))" "drop (i + length f) s = c # cs"
proof -
  show "drop (i + length f) s = c # cs" using d by (metis add.commute append_eq_conv_conj drop_drop)
  show "read_fraction (lexer_at s i) = (f \<noteq> [], f, lexer_at s (i + length f))"
  proof (cases f)
    case Nil
    then show ?thesis using at_Cons(4) [of i s c cs] d c by (simp add: read_fraction_def)
  next
    case (Cons x g)
    then have x: "x = CHR ''.''" and g: "digits_text g" using f by (auto simp: fraction_text_def)
    obtain y h where y: "g = y # h" "isdigit y" using digits_Cons [OF g] by blast
    have d': "drop i s = CHR ''.'' # y # h @ c # cs" using d Cons x y(1) by simp
    note a = at_Cons [OF d']
    have "drop (Suc i) s = g @ c # cs" using a(3) y(1) by simp
    from scan_digits(1) [OF _ this c(1)] g have "scan_while isdigit (lexer_at s (Suc i)) = (g, lexer_at s (Suc i + length g))"
      by (simp add: digits_text_def)
    then show ?thesis using a(1,4) a(5,6) [OF refl] y(2) Cons x
      by (simp add: read_fraction_def advance_def)
  qed
qed

lemma read_exponent_text:
  assumes e: "exponent_text e" and d: "drop i s = e @ CHR '' '' # cs"
  shows "read_exponent (lexer_at s i) = Some (e \<noteq> [], e, lexer_at s (i + length e))"
proof (cases e)
  case Nil
  then show ?thesis using at_Cons(4) [of i s "CHR '' ''" cs] d by (simp add: read_exponent_def)
next
  case (Cons x t)
  then have x: "x = CHR ''e'' \<or> x = CHR ''E''" and g: "digits_text (exponent_digits e)" using e by (auto simp: exponent_text_def)
  obtain y h where y: "exponent_digits e = y # h" "isdigit y" using digits_Cons [OF g] by blast
  note a = at_Cons [of i s x "t @ CHR '' '' # cs"]
  have d0: "drop i s = x # t @ CHR '' '' # cs" using d Cons by simp
  note a = a [OF d0]
  show ?thesis
  proof (cases "t \<noteq> [] \<and> (hd t = CHR ''+'' \<or> hd t = CHR ''-'')")
    case True
    then obtain sg where t: "t = sg # y # h" "sg = CHR ''+'' \<or> sg = CHR ''-''"
      using y(1) Cons by (cases t) (auto simp: exponent_digits_def)
    have d1: "drop (Suc i) s = sg # y # h @ CHR '' '' # cs" using a(3) t(1) by simp
    note b = at_Cons [OF d1]
    have d2: "drop (Suc (Suc i)) s = (y # h) @ CHR '' '' # cs" using b(3) by simp
    note q = at_Cons [of "Suc (Suc i)" s y "h @ CHR '' '' # cs"]
    have "scan_while isdigit (lexer_at s (Suc (Suc i))) = (y # h, lexer_at s (Suc (Suc i) + length (y # h)))"
      by (rule scan_digits(1) [OF _ d2]) (use g y(1) in \<open>simp_all add: digits_text_def\<close>)
    then show ?thesis using a(1,4) b(1,4) q(1,4) d2 x t y(2) Cons
      by (auto simp: read_exponent_def advance_def Let_def)
  next
    case False
    then have t: "t = y # h" using y(1) Cons by (simp add: exponent_digits_def split: if_splits)
    have d1: "drop (Suc i) s = (y # h) @ CHR '' '' # cs" using a(3) t by simp
    note b = at_Cons [of "Suc i" s y "h @ CHR '' '' # cs"]
    have "scan_while isdigit (lexer_at s (Suc i)) = (y # h, lexer_at s (Suc i + length (y # h)))"
      by (rule scan_digits(1) [OF _ d1]) (use g y(1) in \<open>simp_all add: digits_text_def\<close>)
    moreover have "y \<noteq> CHR ''+'' \<and> y \<noteq> CHR ''-''" using y(2) exponent_letters by blast
    ultimately show ?thesis using a(1,4) b(1,4) d1 x t y(2) Cons
      by (auto simp: read_exponent_def advance_def Let_def)
  qed
qed

text \<open>All numbers at once: integers are those without a fraction and an exponent.\<close>

lemma read_item_number:
  assumes v: "v = ds @ f @ e" and t: "digits_text ds" "fraction_text f" "exponent_text e" and d: "drop i s = v @ CHR '' '' # cs"
  shows "read_item (lexer_at s i) =
    Inr (Some (Token (if f \<noteq> [] \<or> e \<noteq> [] then FLOAT_LIT else INTEGER_LIT) v (line_at s i) (col_at s i)), lexer_at s (i + length v))"
proof -
  obtain c w where c: "ds = c # w" "isdigit c" using digits_Cons [OF t(1)] by blast
  have a: "peek (lexer_at s i) 0 = c" using at_Cons(4) [of i s c] d c v by auto
  obtain x xs where x: "f @ e @ CHR '' '' # cs = x # xs" "\<not> isdigit x"
    using t(2,3) exponent_letters by (cases f; cases e) (auto simp: fraction_text_def exponent_text_def)
  obtain y ys where y: "e @ CHR '' '' # cs = y # ys" "\<not> isdigit y" "y \<noteq> CHR ''.''"
    using t(3) exponent_letters by (cases e) (auto simp: exponent_text_def)
  have digits: "scan_while isdigit (lexer_at s i) = (ds, lexer_at s (i + length ds))" and d1: "drop (i + length ds) s = x # xs"
    using scan_digits [of ds i s x xs] t(1) d v x by (simp_all add: digits_text_def)
  have fraction: "read_fraction (lexer_at s (i + length ds)) = (f \<noteq> [], f, lexer_at s (i + length ds + length f))"
    and d2: "drop (i + length ds + length f) s = y # ys"
    using read_fraction_text [OF t(2), of "i + length ds" s y ys] d1 x(1) y by simp_all
  have "read_exponent (lexer_at s (i + length ds + length f)) = Some (e \<noteq> [], e, lexer_at s (i + length ds + length f + length e))"
    by (rule read_exponent_text [OF t(3), where cs = cs]) (simp only: d2 y(1))
  then have "readNumber (lexer_at s i) =
      Inr (Token (if f \<noteq> [] \<or> e \<noteq> [] then FLOAT_LIT else INTEGER_LIT) v (line_at s i) (col_at s i), lexer_at s (i + length v))"
    using digits fraction by (simp add: readNumber_def v add.assoc)
  then show ?thesis using a digit_dispatch [of c] c by (simp add: read_item_def Let_def)
qed

lemma read_item_string:
  assumes d: "drop i s = quote # escaped v @ quote # CHR '' '' # cs"
  shows "read_item (lexer_at s i) =
    Inr (Some (Token STRING_LIT v (line_at s i) (col_at s i)), lexer_at s (i + length (escaped v) + 2))"
proof -
  note a = at_Cons [OF d]
  have "string_loop (lexer_at s (Suc i)) = Some (v, lexer_at s (Suc (Suc i + length (escaped v))))"
    using string_loop_escaped [OF a(3)] by simp
  then show ?thesis using a(1,4) by (simp add: read_item_def readString_def Let_def)
qed

lemma read_item_operator:
  assumes "(t, v) \<in> set operators" and d: "drop i s = v @ CHR '' '' # cs"
  shows "read_item (lexer_at s i) =
    Inr (Some (Token t v (line_at s i) (col_at s i)), lexer_at s (i + length v))"
proof -
  consider c where "v = [c]" | c e where "v = [c, e]"
    using assms(1) by (auto simp: operators_def)
  then show ?thesis
  proof cases
    case (1 c)
    then have d': "drop i s = c # CHR '' '' # cs" using d by simp
    note a = at_Cons [OF d'] and a' = at_Cons [OF at_Cons(3) [OF d']]
    show ?thesis using assms(1) a(1,4) a(5) [OF refl] a'(1,4) 1
      by (simp add: operators_def)
        (elim disjE; simp add: read_item_def readOperator_def operator_token_def Let_def isWordStart_def ctype_defs)
  next
    case (2 c e)
    then have d': "drop i s = c # e # CHR '' '' # cs" using d by simp
    note a = at_Cons [OF d'] and a' = at_Cons [OF at_Cons(3) [OF d']]
    show ?thesis using assms(1) a(1,4) a(5) [OF refl] a'(1,4) 2
      by (simp add: operators_def)
        (elim disjE; simp add: read_item_def readOperator_def operator_token_def Let_def isWordStart_def ctype_defs)
  qed
qed

section \<open>Reading a rendered list\<close>

lemma reads_spelled:
  assumes sp: "spellable item" and d: "drop i s = spell item @ CHR '' '' # cs"
  shows "reads s i item"
proof -
  obtain t v where item: "item = (t, v)" by (cases item)
  show ?thesis
  proof (cases "t = STRING_LIT")
    case True
    then show ?thesis using d read_item_string [of i s v cs] item by (simp add: reads_def spell_def)
  next
    case False
    then have d': "drop i s = v @ CHR '' '' # cs" and len: "length (spell item) = length v"
      using d item by (simp_all add: spell_def)
    consider "keyword v = Some t" | "t = L_FUNC" "v = ''L''"
      | "t = IDENTIFIER" "name_text v" "keyword v = None" "v \<noteq> ''L''"
      | "t = INTEGER_LIT" "digits_text v" | "t = FLOAT_LIT" "float_text v" | "(t, v) \<in> set operators"
      using sp item False by (auto simp: spellable_def)
    then have "read_item (lexer_at s i) =
      Inr (Some (Token t v (line_at s i) (col_at s i)), lexer_at s (i + length v))"
    proof cases
      case 1
      then show ?thesis using read_item_word [OF _ _ _ d', of t] keyword_word [OF 1] by blast
    next
      case 2
      then show ?thesis using read_item_word [OF _ _ _ d', of t]
        by (simp add: isWordContinue_def isWordStart_def isalnum_def ctype_defs)
    next
      case 3
      then have "CHR ''-'' \<notin> set v" by (auto simp: name_text_def isalnum_def ctype_defs)
      then show ?thesis using read_item_word [OF name_word_prefix _ _ d', of t] 3 by (auto simp: name_text_def)
    next
      case 4
      then show ?thesis using read_item_number [of v v "[]" "[]", OF _ _ _ _ d'] by (simp add: fraction_text_def exponent_text_def)
    next
      case 5
      then obtain ds f e where "v = ds @ f @ e" "digits_text ds" "fraction_text f" "exponent_text e" "f \<noteq> [] \<or> e \<noteq> []"
        unfolding float_text_def by blast
      then show ?thesis using read_item_number [OF _ _ _ _ d'] 5(1) by simp
    next
      case 6
      then show ?thesis using read_item_operator [OF _ d'] by simp
    qed
    then show ?thesis using item len by (simp add: reads_def)
  qed
qed

lemma spell_start:
  assumes "spellable item"
  shows "\<exists>c cs. spell item = c # cs \<and> \<not> isspace c"
proof -
  obtain t v where item: "item = (t, v)" by (cases item)
  have word: "isWordStart (hd v) \<Longrightarrow> v \<noteq> [] \<Longrightarrow> t \<noteq> STRING_LIT \<Longrightarrow> ?thesis"
    using wordStart_dispatch [of "hd v"] item by (cases v) (auto simp: spell_def)
  have digit: "digits_text v \<or> float_text v \<Longrightarrow> t \<noteq> STRING_LIT \<Longrightarrow> ?thesis"
  proof -
    assume v: "digits_text v \<or> float_text v" and t: "t \<noteq> STRING_LIT"
    obtain c w where c: "v = c # w" "isdigit c" using v digits_Cons unfolding float_text_def by (metis append_Cons)
    then show ?thesis using digit_dispatch [of c] item t by (simp add: spell_def)
  qed
  have op: "(t, v) \<in> set operators \<Longrightarrow> ?thesis"
    using item by (simp add: operators_def) (elim disjE; simp add: spell_def ctype_defs)
  show ?thesis
  proof (cases "t = STRING_LIT")
    case True
    then show ?thesis using item by (simp add: spell_def ctype_defs)
  next
    case False
    then consider "keyword v = Some t" | "v = ''L''" | "name_text v" | "digits_text v \<or> float_text v" | "(t, v) \<in> set operators"
      using assms item by (auto simp: spellable_def)
    then show ?thesis
    proof cases
      case 1
      then show ?thesis using keyword_word [OF 1] word False by blast
    next
      case 2
      then show ?thesis using word False by (simp add: isWordStart_def ctype_defs)
    next
      case 3
      then show ?thesis using word False unfolding name_text_def by blast
    next
      case 4
      then show ?thesis using digit False by blast
    next
      case 5
      then show ?thesis using op by blast
    qed
  qed
qed

lemma takeWhile_spelling:
  "spellable item \<Longrightarrow> takeWhile isspace (spell item @ cs) = []"
  using spell_start by (metis append_Cons takeWhile.simps(2))

lemma render_Cons: "render (item # items) = spell item @ CHR '' '' # render items"
  by (simp add: render_def)

lemma blanks_before:
  "list_all spellable items \<Longrightarrow> takeWhile isspace (render items) = []"
  by (cases items) (simp_all add: render_Cons takeWhile_spelling, simp add: render_def)

lemma skip_blanks:
  assumes "i \<le> length s" "list_all spellable items"
  shows "drop i s = CHR '' '' # render items \<Longrightarrow> skipWhitespace (lexer_at s i) = lexer_at s (Suc i)"
    and "drop i s = render items \<Longrightarrow> skipWhitespace (lexer_at s i) = lexer_at s i"
  using assms blanks_before [OF assms(2)] by (simp_all add: skipWhitespace_def scan_while_at)

text \<open>
  The loop on a text that ends with a rendered list, where a blank left by the token before
  may come first.
\<close>

lemma tokenize_loop_render:
  assumes "i \<le> length s" "list_all spellable items" "drop i s = render items \<or> drop i s = CHR '' '' # render items"
  shows "\<exists>tokens. tokenize_loop (lexer_at s i) = Inr tokens \<and> map token_pair tokens = items @ [(EOF_TOKEN, [])]"
  using assms
proof (induction items arbitrary: i)
  case Nil
  define j where "j = (if drop i s = [] then i else Suc i)"
  have "skipWhitespace (lexer_at s i) = lexer_at s j" "length s \<le> j"
    using Nil.prems skip_blanks [of i s "[]"] at_Cons(3) [of i s "CHR '' ''" "[]"] by (auto simp: j_def render_def)
  then have "tokenize_loop (lexer_at s i) = Inr [Token EOF_TOKEN [] (line_at s j) (col_at s j)]"
    by (subst tokenize_loop.simps) simp
  then show ?case by (simp add: token_pair_def)
next
  case (Cons item items)
  obtain j where j: "skipWhitespace (lexer_at s i) = lexer_at s j" "drop j s = render (item # items)"
    using Cons.prems skip_blanks [OF Cons.prems(1,2)] at_Cons(3) [of i s "CHR '' ''" "render (item # items)"] by blast
  obtain c cs where sp: "spell item = c # cs" using spell_start Cons.prems(2) by fastforce
  then have jl: "j < length s" using at_Cons(1) [of j s] j(2) by (simp add: render_Cons)
  define k where "k = j + length (spell item)"
  have "reads s j item" using reads_spelled [of item j s "render items"] Cons.prems(2) j(2) by (simp add: render_Cons)
  then have r: "read_item (lexer_at s j) =
      Inr (Some (Token (fst item) (snd item) (line_at s j) (col_at s j)), lexer_at s k)"
    by (simp add: reads_def k_def)
  have dk: "drop k s = CHR '' '' # render items"
    using j(2) unfolding k_def render_Cons by (metis add.commute append_eq_conv_conj drop_drop)
  then have "k \<le> length s" using at_Cons(1) by (simp add: less_imp_le)
  then obtain tokens where "tokenize_loop (lexer_at s k) = Inr tokens" "map token_pair tokens = items @ [(EOF_TOKEN, [])]"
    using Cons.IH [of k] Cons.prems(2) dk by auto
  then show ?case using r jl j(1)
    by (subst tokenize_loop.simps) (simp add: token_pair_def)
qed

section \<open>Properties\<close>

text \<open>
  C26. The lexer returns on every text: either a list of tokens that ends with the only
  end-of-file token, the others carrying the lines and columns of their first characters in
  ascending order, identifiers being words without hyphens and integer literals runs of
  digits; or an error located at a character of the text.
\<close>

theorem tokenize_located:
  "case tokenize s of Inl e \<Rightarrow> located_error s e | Inr tokens \<Rightarrow> located_tokens s tokens"
proof -
  have "located_from s 0 tokens = located_tokens s tokens" for tokens
    by (simp add: located_from_def located_tokens_def)
  then show ?thesis using tokenize_loop_at [of 0 s] by (simp add: tokenize_def new_lexer_at split: sum.splits)
qed

text \<open>
  C25. Reading back what was written: keywords, names, numbers (integers, and floating-point
  literals with a fraction, an exponent or both), operators and string literals with arbitrary
  contents, written one after the other with blanks between, are read as the
  same tokens.
\<close>

theorem tokenize_render:
  assumes "list_all spellable items"
  shows "\<exists>tokens. tokenize (render items) = Inr tokens \<and> map token_pair tokens = items @ [(EOF_TOKEN, [])]"
  using tokenize_loop_render [of 0 "render items" items] assms by (simp add: tokenize_def new_lexer_at)

theorem tokenize_render_witness:
  "\<exists>tokens. tokenize (render [(SLAY, ''slay''), (FLOAT_LIT, ''1.5e-3''), (STRING_LIT, [CHR ''a'', quote, newline, backslash])]) = Inr tokens \<and>
     map token_pair tokens =
       [(SLAY, ''slay''), (FLOAT_LIT, ''1.5e-3''), (STRING_LIT, [CHR ''a'', quote, newline, backslash]), (EOF_TOKEN, [])]"
proof -
  have "float_text ''1.5e-3''"
    unfolding float_text_def
    by (intro exI [of _ "''1''"] exI [of _ "''.5''"] exI [of _ "''e-3''"])
      (simp add: digits_text_def fraction_text_def exponent_text_def exponent_digits_def ctype_defs)
  then have "list_all spellable [(SLAY, ''slay''), (FLOAT_LIT, ''1.5e-3''), (STRING_LIT, [CHR ''a'', quote, newline, backslash])]"
    by (simp add: spellable_def keyword_def KEYWORDS_def)
  from tokenize_render [OF this] show ?thesis by simp
qed

end
