(* ===== verification/Parser_Roundtrip.thy ===== *)
theory Parser_Roundtrip
  imports Parser_Termination Lexer_Spelling
begin

text \<open>
  Writing queries and reading them back. \<open>expr_toks k e\<close> writes an expression with the
  parentheses its context \<open>k\<close> needs, following the precedences of the grammar, and
  \<open>query_toks\<close> writes a whole query; the lemmas show, level by level, that the parser reads the
  same tree, whatever the positions of the tokens are. Positions are erased for the
  comparison.

  Levels: 0 \<open>or-nah\<close>, 1 \<open>plus\<close>, 2 \<open>no-cap-not\<close>, 3 comparisons, 4 sums, 5 products,
  6 negation, 7 primary expressions.
\<close>

type_synonym pairs = "(token_type \<times> string) list"

section \<open>Writing\<close>

definition binop :: "string \<Rightarrow> (nat \<times> token_type \<times> string) option" where
  "binop oper = map_of
     [(''OR'', 0, OR_NAH, ''or-nah''), (''AND'', 1, PLUS, ''plus''),
      (''='', 3, EQ, ''=''), (''!='', 3, NEQ, ''!=''), (''<'', 3, LT, ''<''), (''>'', 3, GT, ''>''),
      (''<='', 3, LTE, ''<=''), (''>='', 3, GTE, ''>=''),
      (''+'', 4, PLUS_OP, ''+''), (''-'', 4, MINUS, ''-''), (''||'', 4, CONCAT, ''||''),
      (''*'', 5, STAR, ''*''), (''/'', 5, SLASH, ''/'')] oper"

definition name_token :: "string \<Rightarrow> token_type" where
  "name_token name = (case map_of
     [(''headcount'', HEADCOUNT), (''stack'', STACK), (''mid'', MID), (''goat'', GOAT), (''L'', L_FUNC),
      (''biggest-W'', BIGGEST_W), (''biggest-L'', BIGGEST_L), (''mid-fr'', MID_FR),
      (''percent-check'', PERCENT_CHECK), (''lone-wolf'', LONE_WOLF), (''LONE-WOLF'', LONE_WOLF)] name
     of Some t \<Rightarrow> t | None \<Rightarrow> IDENTIFIER)"

definition parens :: "pairs \<Rightarrow> pairs" where
  "parens ts = [(LPAREN, ''('')] @ ts @ [(RPAREN, '')'')]"

definition within :: "nat \<Rightarrow> nat \<Rightarrow> pairs \<Rightarrow> pairs" where
  "within k m ts = (if k \<le> m then ts else parens ts)"

fun commas :: "pairs list \<Rightarrow> pairs" where
  "commas [] = []"
| "commas [ts] = ts"
| "commas (ts # tss) = ts @ [(COMMA, '','')] @ commas tss"

definition alias_toks :: "string \<Rightarrow> pairs" where
  "alias_toks alias = (if alias = [] then [] else [(LOWKEY, ''lowkey''), (IDENTIFIER, alias)])"

definition clause :: "token_type \<times> string \<Rightarrow> pairs option \<Rightarrow> pairs" where
  "clause word ts = (case ts of None \<Rightarrow> [] | Some ts \<Rightarrow> [word] @ ts)"

definition list_clause :: "token_type \<times> string \<Rightarrow> pairs list \<Rightarrow> pairs" where
  "list_clause word tss = (if tss = [] then [] else [word] @ commas tss)"

fun order_toks :: "pairs order_item \<Rightarrow> pairs" where
  "order_toks (OrderItem ts asc) = ts @ (if asc then [] else [(DOWN_BAD, ''down-bad'')])"

fun join_toks :: "pairs join_clause \<Rightarrow> pairs" where
  "join_toks (JoinClause kind table alias cond) =
     [if kind = LEFT then (LEFT_LINK_UP, ''left-link-up'') else (LINK_UP, ''link-up''), (IDENTIFIER, table)] @
     alias_toks alias @ [(FR_FR, ''fr-fr'')] @ (case cond of None \<Rightarrow> [] | Some ts \<Rightarrow> ts)"

definition query_parts :: "bool \<Rightarrow> pairs list \<Rightarrow> string \<Rightarrow> string \<Rightarrow> pairs join_clause list \<Rightarrow> pairs option \<Rightarrow>
    pairs list \<Rightarrow> pairs option \<Rightarrow> pairs order_item list \<Rightarrow> pairs option \<Rightarrow> pairs option \<Rightarrow> pairs" where
  "query_parts dist cols table alias joins whr groups having orders lim off =
     [(SLAY, ''slay'')] @ (if dist then [(UNIQUE_FR, ''unique-fr'')] else []) @ commas cols @
     [(NO_CAP, ''no-cap''), (IDENTIFIER, table)] @ alias_toks alias @
     concat (map join_toks joins) @
     clause (ONLY_IF, ''only-if'') whr @
     list_clause (VIBE_CHECK, ''vibe-check'') groups @
     clause (BUSSIN_ONLY, ''bussin-only'') having @
     list_clause (HITS_DIFFERENT, ''hits-different'') (map order_toks orders) @
     clause (CAP_AT, ''cap-at'') lim @
     clause (SKIP, ''skip'') off"

definition alias_of :: "ast \<Rightarrow> string" where
  "alias_of e = (case e of
     ColumnRef l c table column alias \<Rightarrow> alias
   | FunctionCall l c name args dist alias \<Rightarrow> alias
   | BinaryOp l c oper left right alias \<Rightarrow> alias
   | UnaryOp l c oper operand alias \<Rightarrow> alias
   | WindowFunc l c name parts orders alias \<Rightarrow> alias
   | Wildcard l c table alias \<Rightarrow> alias
   | other \<Rightarrow> [])"

text \<open>
  The tokens of an expression in context \<open>k\<close>, its own alias left out, and of a query, with
  the aliases of its columns.
\<close>

primrec expr_toks :: "ast \<Rightarrow> nat \<Rightarrow> pairs" where
  "expr_toks (Literal l c v) = (\<lambda>k. case v of
     INT_LIT i \<Rightarrow> [(INTEGER_LIT, string_of_int i)]
   | STRING_VAL s \<Rightarrow> [(STRING_LIT, s)]
   | _ \<Rightarrow> [(GHOSTED, ''ghosted'')])"
| "expr_toks (ColumnRef l c table column alias) = (\<lambda>k.
     (if table = [] then [] else [(IDENTIFIER, table), (DOT, ''.'')]) @ [(IDENTIFIER, column)])"
| "expr_toks (Wildcard l c table alias) = (\<lambda>k.
     (if table = [] then [] else [(IDENTIFIER, table), (DOT, ''.'')]) @ [(STAR, ''*'')])"
| "expr_toks (BinaryOp l c oper left right alias) = (\<lambda>k.
     case binop oper of None \<Rightarrow> []
     | Some (m, t, v) \<Rightarrow>
         within k m (expr_toks left (if m = 3 then 4 else m) @ [(t, v)] @ expr_toks right (Suc m)))"
| "expr_toks (UnaryOp l c oper operand alias) = (\<lambda>k.
     if oper = ''NOT'' then within k 2 ([(NO_CAP_NOT, ''no-cap-not'')] @ expr_toks operand 2)
     else within k 6 ([(MINUS, ''-'')] @ expr_toks operand 6))"
| "expr_toks (FunctionCall l c name args dist alias) = (\<lambda>k.
     [(name_token name, name), (LPAREN, ''('')] @ (if dist then [(UNIQUE_FR, ''unique-fr'')] else []) @
     commas (map (\<lambda>t. t 0) (map expr_toks args)) @ [(RPAREN, '')'')])"
| "expr_toks (WindowFunc l c name parts orders alias) = (\<lambda>k.
     parens ([(ERA, ''era'')] @ list_clause (SPLIT_BY, ''split-by'') (map (\<lambda>t. t 0) (map expr_toks parts)) @
       [(HITS_DIFFERENT, ''hits-different'')] @
       commas (map order_toks (map (map_order_item (\<lambda>t. t 0)) (map (map_order_item expr_toks) orders)))))"
| "expr_toks (SelectStmt l c dist cols table alias joins whr groups having orders lim off) = (\<lambda>k.
     parens (query_parts dist
       (map (\<lambda>(t, a). t 0 @ alias_toks a) (zip (map expr_toks cols) (map alias_of cols)))
       table alias
       (map (map_join_clause (\<lambda>t. t 0)) (map (map_join_clause expr_toks) joins))
       (map_option (\<lambda>t. t 0) (map_option expr_toks whr))
       (map (\<lambda>t. t 0) (map expr_toks groups))
       (map_option (\<lambda>t. t 0) (map_option expr_toks having))
       (map (map_order_item (\<lambda>t. t 0)) (map (map_order_item expr_toks) orders))
       (map_option (\<lambda>t. t 0) (map_option expr_toks lim))
       (map_option (\<lambda>t. t 0) (map_option expr_toks off))))"

definition item_toks :: "ast \<Rightarrow> pairs" where
  "item_toks e = expr_toks e 0 @ alias_toks (alias_of e)"

definition query_toks :: "ast \<Rightarrow> pairs" where
  "query_toks q = (case q of
     SelectStmt l c dist cols table alias joins whr groups having orders lim off \<Rightarrow>
       query_parts dist (map item_toks cols) table alias
         (map (map_join_clause (\<lambda>e. expr_toks e 0)) joins) (map_option (\<lambda>e. expr_toks e 0) whr)
         (map (\<lambda>e. expr_toks e 0) groups) (map_option (\<lambda>e. expr_toks e 0) having)
         (map (map_order_item (\<lambda>e. expr_toks e 0)) orders) (map_option (\<lambda>e. expr_toks e 0) lim)
         (map_option (\<lambda>e. expr_toks e 0) off)
   | _ \<Rightarrow> [])"

text \<open>The trees that can be written: what the grammar has a spelling for.\<close>

definition plain_star :: "ast \<Rightarrow> bool" where
  "plain_star e \<longleftrightarrow> (\<exists>l c. e = Wildcard l c [] [])"

primrec writable :: "ast \<Rightarrow> bool" where
  "writable (Literal l c v) \<longleftrightarrow> (case v of INT_LIT i \<Rightarrow> 0 \<le> i \<and> i < 2 ^ 63 | STRING_VAL s \<Rightarrow> True | NUL \<Rightarrow> True | _ \<Rightarrow> False)"
| "writable (ColumnRef l c table column alias) \<longleftrightarrow> True"
| "writable (Wildcard l c table alias) \<longleftrightarrow> table \<noteq> []"
| "writable (BinaryOp l c oper left right alias) \<longleftrightarrow>
     binop oper \<noteq> None \<and> writable left \<and> alias_of left = [] \<and> writable right \<and> alias_of right = []"
| "writable (UnaryOp l c oper operand alias) \<longleftrightarrow>
     oper \<in> {''NOT'', ''-''} \<and> writable operand \<and> alias_of operand = []"
| "writable (FunctionCall l c name args dist alias) \<longleftrightarrow>
     list_all id (map writable args) \<and> list_all (\<lambda>e. alias_of e = []) args \<and>
       (dist \<longrightarrow> name = ''headcount'' \<and> length args = 1) \<or>
     name = ''headcount'' \<and> \<not> dist \<and> (\<exists>e. args = [e] \<and> plain_star e)"
| "writable (WindowFunc l c name parts orders alias) \<longleftrightarrow>
     name = ''RANK'' \<and> list_all id (map writable parts) \<and> list_all (\<lambda>e. alias_of e = []) parts \<and> orders \<noteq> [] \<and>
     list_all (\<lambda>oi. oi_expr oi) (map (map_order_item writable) orders) \<and>
     list_all (\<lambda>oi. alias_of (oi_expr oi) = []) orders"
| "writable (SelectStmt l c dist cols table alias joins whr groups having orders lim off) \<longleftrightarrow>
     cols \<noteq> [] \<and> (list_all id (map writable cols) \<or> (\<exists>e. cols = [e] \<and> plain_star e)) \<and>
     list_all (\<lambda>j. jc_type j \<noteq> CROSS \<and> jc_condition j \<noteq> None) joins \<and>
     list_all (\<lambda>j. jc_condition j \<noteq> Some False) (map (map_join_clause writable) joins) \<and>
     list_all (\<lambda>j. map_option alias_of (jc_condition j) = Some []) joins \<and>
     map_option writable whr \<noteq> Some False \<and> map_option alias_of whr \<in> {None, Some []} \<and>
     list_all id (map writable groups) \<and> list_all (\<lambda>e. alias_of e = []) groups \<and>
     map_option writable having \<noteq> Some False \<and> map_option alias_of having \<in> {None, Some []} \<and>
     list_all (\<lambda>oi. oi_expr oi) (map (map_order_item writable) orders) \<and>
     list_all (\<lambda>oi. alias_of (oi_expr oi) = []) orders \<and>
     map_option writable lim \<noteq> Some False \<and> map_option alias_of lim \<in> {None, Some []} \<and>
     map_option writable off \<noteq> Some False \<and> map_option alias_of off \<in> {None, Some []}"

primrec erase :: "ast \<Rightarrow> ast" where
  "erase (Literal l c v) = Literal 0 0 v"
| "erase (ColumnRef l c table column alias) = ColumnRef 0 0 table column alias"
| "erase (Wildcard l c table alias) = Wildcard 0 0 table alias"
| "erase (BinaryOp l c oper left right alias) = BinaryOp 0 0 oper (erase left) (erase right) alias"
| "erase (UnaryOp l c oper operand alias) = UnaryOp 0 0 oper (erase operand) alias"
| "erase (FunctionCall l c name args dist alias) = FunctionCall 0 0 name (map erase args) dist alias"
| "erase (WindowFunc l c name parts orders alias) =
     WindowFunc 0 0 name (map erase parts) (map (map_order_item erase) orders) alias"
| "erase (SelectStmt l c dist cols table alias joins whr groups having orders lim off) =
     SelectStmt 0 0 dist (map erase cols) table alias (map (map_join_clause erase) joins)
       (map_option erase whr) (map erase groups) (map_option erase having)
       (map (map_order_item erase) orders) (map_option erase lim) (map_option erase off)"

section \<open>Runs\<close>

text \<open>
  \<open>ahead p ts\<close>: the tokens from the cursor on, without their positions. \<open>runs G rest ok\<close>:
  with enough fuel the run \<open>G\<close> succeeds with an acceptable result and stops before \<open>rest\<close>. The
  two arguments of \<open>G\<close> are the fuel of its own loop and the fuel of everything below.
\<close>

definition ahead :: "parser \<Rightarrow> pairs \<Rightarrow> bool" where
  "ahead p ts \<longleftrightarrow> map token_pair (drop (tpos p) (tokens p)) = ts"

definition runs :: "(nat \<Rightarrow> nat \<Rightarrow> 'a parsed) \<Rightarrow> pairs \<Rightarrow> ('a \<Rightarrow> bool) \<Rightarrow> bool" where
  "runs G rest ok \<longleftrightarrow>
     (\<exists>x p N. ok x \<and> ahead p rest \<and> (\<forall>f n. N \<le> f \<longrightarrow> N \<le> n \<longrightarrow> G f n = Parsed x p))"

definition reads :: "(nat \<Rightarrow> nat \<Rightarrow> parser \<Rightarrow> 'a parsed) \<Rightarrow> ('a \<Rightarrow> bool) \<Rightarrow> (token_type \<Rightarrow> bool) \<Rightarrow> pairs \<Rightarrow> bool" where
  "reads g ok stop ts \<longleftrightarrow> (\<forall>p rest. ahead p (ts @ rest) \<longrightarrow> rest \<noteq> [] \<longrightarrow> stop (fst (hd rest)) \<longrightarrow>
     runs (\<lambda>f n. g f n p) rest ok)"

lemma runs_done: "ok x \<Longrightarrow> ahead p rest \<Longrightarrow> runs (\<lambda>f n. Parsed x p) rest ok"
  by (auto simp: runs_def)

lemma runs_then:
  assumes "runs G rest1 ok1" "\<And>x p. ok1 x \<Longrightarrow> ahead p rest1 \<Longrightarrow> runs (H x p) rest ok"
  shows "runs (\<lambda>f n. andThen (G f n) (\<lambda>x p. H x p f n)) rest ok"
proof -
  obtain x p N where 1: "ok1 x" "ahead p rest1" "\<forall>f n. N \<le> f \<longrightarrow> N \<le> n \<longrightarrow> G f n = Parsed x p"
    using assms(1) unfolding runs_def by blast
  obtain y q M where 2: "ok y" "ahead q rest" "\<forall>f n. M \<le> f \<longrightarrow> M \<le> n \<longrightarrow> H x p f n = Parsed y q"
    using assms(2) [OF 1(1,2)] unfolding runs_def by blast
  have "\<forall>f n. max N M \<le> f \<longrightarrow> max N M \<le> n \<longrightarrow> andThen (G f n) (\<lambda>x p. H x p f n) = Parsed y q"
    using 1(3) 2(3) by simp
  then show ?thesis using 2(1,2) unfolding runs_def by blast
qed

lemma runs_Suc:
  assumes "runs G rest ok" "\<And>f n. G' (Suc f) n = G f n"
  shows "runs G' rest ok"
proof -
  obtain x p N where 1: "ok x" "ahead p rest" "\<forall>f n. N \<le> f \<longrightarrow> N \<le> n \<longrightarrow> G f n = Parsed x p"
    using assms(1) unfolding runs_def by blast
  have "G' f n = Parsed x p" if "Suc N \<le> f" "Suc N \<le> n" for f n
    using assms(2) [of "f - 1" n] 1(3) that by (cases f) auto
  then show ?thesis using 1(1,2) unfolding runs_def by blast
qed

lemma runs_diag: "runs G rest ok \<Longrightarrow> runs (\<lambda>f n. G n n) rest ok"
  unfolding runs_def by meson

lemma runs_pred: "runs G rest ok \<Longrightarrow> runs (\<lambda>f n. G (n - 1) (n - 1)) rest ok"
proof -
  assume "runs G rest ok"
  then obtain x p N where "ok x" "ahead p rest" "\<forall>f n. N \<le> f \<longrightarrow> N \<le> n \<longrightarrow> G f n = Parsed x p"
    unfolding runs_def by blast
  then have "\<forall>f n. Suc N \<le> f \<longrightarrow> Suc N \<le> n \<longrightarrow> G (n - 1) (n - 1) = Parsed x p" by simp
  then show ?thesis using \<open>ok x\<close> \<open>ahead p rest\<close> unfolding runs_def by blast
qed

lemma runs_mono: "runs G rest ok \<Longrightarrow> (\<And>x. ok x \<Longrightarrow> ok' x) \<Longrightarrow> runs G rest ok'"
  unfolding runs_def by blast

lemma readsD: "reads g ok stop ts \<Longrightarrow> ahead p (ts @ rest) \<Longrightarrow> rest \<noteq> [] \<Longrightarrow> stop (fst (hd rest)) \<Longrightarrow>
  runs (\<lambda>f n. g f n p) rest ok"
  unfolding reads_def by blast

lemma readsI: "(\<And>p rest. ahead p (ts @ rest) \<Longrightarrow> rest \<noteq> [] \<Longrightarrow> stop (fst (hd rest)) \<Longrightarrow>
  runs (\<lambda>f n. g f n p) rest ok) \<Longrightarrow> reads g ok stop ts"
  unfolding reads_def by blast

text \<open>The current token and the tokens after it.\<close>

lemma ahead_current: "ahead p ((t, v) # ts) \<Longrightarrow> ttype (current p) = t \<and> tvalue (current p) = v"
proof -
  assume a: "ahead p ((t, v) # ts)"
  then have l: "tpos p < length (tokens p)" by (auto simp: ahead_def intro: ccontr)
  then have "drop (tpos p) (tokens p) = tokens p ! tpos p # drop (Suc (tpos p)) (tokens p)"
    by (simp add: Cons_nth_drop_Suc)
  then show ?thesis using a l by (simp add: ahead_def token_pair_def current_def Parser.peek_def Let_def)
qed

lemma ahead_skip: "ahead p (tv # ts) \<Longrightarrow> ts \<noteq> [] \<Longrightarrow> ahead (Parser.skip p) ts"
proof -
  assume a: "ahead p (tv # ts)" and ne: "ts \<noteq> []"
  then have l: "tpos p < length (tokens p)" by (auto simp: ahead_def intro: ccontr)
  then have d: "drop (tpos p) (tokens p) = tokens p ! tpos p # drop (Suc (tpos p)) (tokens p)"
    by (simp add: Cons_nth_drop_Suc)
  then have "Suc (tpos p) < length (tokens p)" using a ne by (auto simp: ahead_def intro: ccontr)
  then show ?thesis using a d by (simp add: ahead_def Parser.skip_def)
qed

lemma ahead_check:
  "ahead p ((t, v) # ts) \<Longrightarrow> check u p \<longleftrightarrow> t = u"
  "ahead p ((t, v) # ts) \<Longrightarrow> checkAny us p \<longleftrightarrow> t \<in> set us"
  using ahead_current [of p t v ts] by (auto simp: check_def checkAny_def)

lemma ahead_current_tok: "ahead p ((t, v) # ts) \<Longrightarrow> tokens p ! tpos p = current p"
proof -
  assume a: "ahead p ((t, v) # ts)"
  then have "tpos p < length (tokens p)" by (auto simp: ahead_def intro: ccontr)
  then show ?thesis by (simp add: current_def Parser.peek_def)
qed

lemma runs_expect:
  assumes "ahead p ((t, v) # ts)" "ts \<noteq> []"
  shows "runs (\<lambda>f n. expect t msg p) ts (\<lambda>tok. ttype tok = t \<and> tvalue tok = v)"
proof -
  have "expect t msg p = Parsed (current p) (Parser.skip p)"
    using assms(1) by (simp add: expect_def Parser.advance_def ahead_check ahead_current_tok)
  then show ?thesis using ahead_current [OF assms(1)] ahead_skip [OF assms] by (simp add: runs_done)
qed

section \<open>Comma lists\<close>

lemma commas_Cons: "commas (ts # tss) = ts @ concat (map (\<lambda>ts. (COMMA, '','') # ts) tss)"
  by (induction tss arbitrary: ts) simp_all

lemma runs_cons:
  assumes "runs G rest (list_all2 R xs)" "R x y"
  shows "runs (\<lambda>f n. andThen (G f n) (\<lambda>ys p. Parsed (y # ys) p)) rest (list_all2 R (x # xs))"
  by (rule runs_then [OF assms(1)], rule runs_done) (simp_all add: assms(2))

definition comma_tail :: "('a \<Rightarrow> pairs) \<Rightarrow> 'a list \<Rightarrow> pairs" where
  "comma_tail tk xs = concat (map (\<lambda>x. (COMMA, '','') # tk x) xs)"

lemma commas_map: "commas (map tk (x # xs)) = tk x @ comma_tail tk xs"
  by (simp only: list.map commas_Cons comma_tail_def map_map o_def)

lemma comma_tail_simps [simp]:
  "comma_tail tk [] = []" "comma_tail tk (x # xs) = (COMMA, '','') # tk x @ comma_tail tk xs"
  by (simp_all add: comma_tail_def)

lemma after_item:
  assumes "rest \<noteq> []" "stop COMMA" "stop (fst (hd rest))"
  shows "comma_tail tk xs @ rest \<noteq> [] \<and> stop (fst (hd (comma_tail tk xs @ rest)))"
  using assms by (cases xs) simp_all

lemma runs_comma_rest:
  assumes stop: "stop COMMA" "stop (fst (hd rest))" "fst (hd rest) \<noteq> COMMA" and rest: "rest \<noteq> []"
  shows "\<forall>x\<in>set xs. reads (\<lambda>f n. item n) (R x) stop (tk x) \<Longrightarrow> ahead p (comma_tail tk xs @ rest) \<Longrightarrow>
    runs (\<lambda>f n. comma_rest f (item n) p) rest (list_all2 R xs)"
proof (induction xs arbitrary: p)
  case Nil
  obtain t v ts where r: "rest = (t, v) # ts" using rest by (cases rest) auto
  then have no: "\<not> check COMMA p" using Nil.prems(2) stop(3) by (simp add: ahead_check)
  have no_item: "runs (\<lambda>f n. Parsed [] p) rest (list_all2 R [])" using Nil.prems(2) by (simp add: runs_done)
  show ?case by (rule runs_Suc [OF no_item]) (simp add: no)
next
  case (Cons x xs)
  define after where "after = comma_tail tk xs @ rest"
  have after: "after \<noteq> []" "stop (fst (hd after))"
    using after_item [OF rest, of stop tk xs] stop by (simp_all add: after_def)
  have a: "ahead p ((COMMA, '','') # tk x @ after)" using Cons.prems(2) by (simp add: after_def)
  have a': "ahead (Parser.skip p) (tk x @ after)" using ahead_skip [OF a] after(1) by simp
  have "reads (\<lambda>f n. item n) (R x) stop (tk x)" using Cons.prems(1) by simp
  then have one: "runs (\<lambda>f n. item n (Parser.skip p)) after (R x)" by (rule readsD [where stop = stop, OF _ a' after])
  have "runs (\<lambda>f n. andThen (item n (Parser.skip p)) (\<lambda>x p.
      andThen (comma_rest f (item n) p) (\<lambda>xs p. Parsed (x # xs) p))) rest (list_all2 R (x # xs))"
  proof (rule runs_then [OF one])
    fix y q assume y: "R x y" and q: "ahead q after"
    have "runs (\<lambda>f n. comma_rest f (item n) q) rest (list_all2 R xs)"
      using Cons.IH [of q] Cons.prems(1) q by (simp add: after_def)
    then show "runs (\<lambda>f n. andThen (comma_rest f (item n) q) (\<lambda>xs p. Parsed (y # xs) p)) rest (list_all2 R (x # xs))"
      using y by (rule runs_cons)
  qed
  then show ?case by (rule runs_Suc) (simp add: ahead_check [OF a])
qed

lemma reads_comma_list:
  assumes item: "\<forall>x\<in>set xs. reads (\<lambda>f n. item n) (R x) stop (tk x)"
    and stop: "stop COMMA" and ne: "xs \<noteq> []"
  shows "reads (\<lambda>f n. comma_list n (item n)) (list_all2 R xs) (\<lambda>t. stop t \<and> t \<noteq> COMMA) (commas (map tk xs))"
proof (rule readsI)
  fix p rest
  assume p: "ahead p (commas (map tk xs) @ rest)" and rest: "rest \<noteq> []"
    and s: "stop (fst (hd rest)) \<and> fst (hd rest) \<noteq> COMMA"
  obtain y ys where xs: "xs = y # ys" using ne by (cases xs) auto
  define after where "after = comma_tail tk ys @ rest"
  have after: "after \<noteq> []" "stop (fst (hd after))"
    using after_item [where stop = stop, OF rest stop, of tk ys] s by (simp_all add: after_def)
  have a: "ahead p (tk y @ after)" using p by (simp only: xs commas_map after_def append_assoc)
  have "reads (\<lambda>f n. item n) (R y) stop (tk y)" using item xs by simp
  then have one: "runs (\<lambda>f n. item n p) after (R y)" by (rule readsD [where stop = stop, OF _ a after])
  show "runs (\<lambda>f n. comma_list n (item n) p) rest (list_all2 R xs)"
    unfolding comma_list_def xs
  proof (rule runs_then [OF one])
    fix z q assume z: "R y z" and q: "ahead q after"
    have tail: "\<forall>x\<in>set ys. reads (\<lambda>f n. item n) (R x) stop (tk x)" using item xs by simp
    have "runs (\<lambda>f n. comma_rest n (item n) q) rest (list_all2 R ys)"
      using runs_diag [OF runs_comma_rest [OF stop _ _ rest tail]] s q by (simp add: after_def)
    then show "runs (\<lambda>f n. andThen (comma_rest n (item n) q) (\<lambda>xs p. Parsed (z # xs) p)) rest (list_all2 R (y # ys))"
      using z by (rule runs_cons)
  qed
qed

section \<open>Levels\<close>

definition prim :: "(string \<Rightarrow> double option) \<Rightarrow> nat \<Rightarrow> parser \<Rightarrow> ast parsed" where
  "prim stod n = parsePrimaryExpr stod n (parseExpr stod (n - 1))"

definition ops :: "nat \<Rightarrow> token_type list" where
  "ops j = (if j = 0 then [OR_NAH] else if j = 1 then [PLUS]
     else if j = 3 then [EQ, NEQ, LT, GT, LTE, GTE]
     else if j = 4 then [PLUS_OP, MINUS, CONCAT] else if j = 5 then [STAR, SLASH] else [])"

definition oper_text :: "nat \<Rightarrow> token \<Rightarrow> string" where
  "oper_text j = (if j = 0 then \<lambda>_. ''OR'' else if j = 1 then \<lambda>_. ''AND'' else tvalue)"

definition level :: "(string \<Rightarrow> double option) \<Rightarrow> nat \<Rightarrow> nat \<Rightarrow> nat \<Rightarrow> parser \<Rightarrow> ast parsed" where
  "level stod j f n p =
     (if j = 0 then andThen (parseAndExpr n (prim stod n) p) (left_loop f [OR_NAH] (\<lambda>_. ''OR'') (parseAndExpr n (prim stod n)))
      else if j = 1 then andThen (parseNotExpr n n (prim stod n) p) (left_loop f [PLUS] (\<lambda>_. ''AND'') (parseNotExpr n n (prim stod n)))
      else if j = 2 then parseNotExpr f n (prim stod n) p
      else if j = 3 then parseCompareExpr n (prim stod n) p
      else if j = 4 then andThen (parseMulExpr n (prim stod n) p)
        (left_loop f [PLUS_OP, MINUS, CONCAT] tvalue (parseMulExpr n (prim stod n)))
      else if j = 5 then andThen (parseUnaryExpr n (prim stod n) p)
        (left_loop f [STAR, SLASH] tvalue (parseUnaryExpr n (prim stod n)))
      else if j = 6 then parseUnaryExpr f (prim stod n) p
      else prim stod n p)"

lemma level_operand:
  "level stod 1 n n = parseAndExpr n (prim stod n)" "level stod 2 n n = parseNotExpr n n (prim stod n)"
  "level stod 5 n n = parseMulExpr n (prim stod n)" "level stod 6 n n = parseUnaryExpr n (prim stod n)"
  by (simp_all add: fun_eq_iff level_def parseAndExpr_def parseMulExpr_def)

lemma level_left:
  assumes "j \<in> {0, 1, 4, 5}"
  shows "level stod j f n p = andThen (level stod (Suc j) n n p)
    (left_loop f (ops j) (oper_text j) (level stod (Suc j) n n))"
proof -
  have j: "j = 0 \<or> j = 1 \<or> j = 4 \<or> j = 5" using assms by simp
  have suc: "Suc 0 = 1" "Suc 1 = 2" "Suc 4 = 5" "Suc 5 = 6" by simp_all
  show ?thesis using j
    by (elim disjE) (simp_all only: suc level_operand, simp_all add: level_def ops_def oper_text_def)
qed

lemma level_compare:
  "level stod 3 f n p = andThen (level stod 4 n n p) (\<lambda>left p.
     if checkAny (ops 3) p then
       andThen (level stod 4 n n (Parser.skip p)) (\<lambda>right q.
       Parsed (BinaryOp (tline (current p)) (tcol (current p)) (tvalue (current p)) left right []) q)
     else Parsed left p)"
proof -
  have eq: "level stod 4 n n = parseAddExpr n (prim stod n)"
    by (simp add: fun_eq_iff level_def parseAddExpr_def)
  show ?thesis unfolding eq unfolding level_def parseCompareExpr_def ops_def Let_def by simp
qed

lemma parseExpr_level: "parseExpr stod (Suc n) p = level stod 0 (Suc n) (Suc n) p"
  by (simp add: level_def prim_def parseOrExpr_def)

text \<open>
  What may follow an expression read at level \<open>j\<close>: no operator of that level or above, and
  nothing that would continue a name.
\<close>

definition stops :: "nat \<Rightarrow> token_type \<Rightarrow> bool" where
  "stops j t \<longleftrightarrow> t \<notin> {DOT, LPAREN} \<and> (\<forall>i\<ge>j. t \<notin> set (ops i))"

lemma stops_tokens: "t \<in> {COMMA, RPAREN, SEMICOLON, EOF_TOKEN, LOWKEY, NO_CAP, LINK_UP, LEFT_LINK_UP, FR_FR, ONLY_IF,
    VIBE_CHECK, BUSSIN_ONLY, HITS_DIFFERENT, CAP_AT, SKIP, UP_ONLY, DOWN_BAD} \<Longrightarrow> stops 0 t"
  by (auto simp: stops_def ops_def split: if_splits)

lemma stops_Suc: "stops j t \<Longrightarrow> stops (Suc j) t"
  by (simp add: stops_def)

lemma stops_le: "stops j t \<Longrightarrow> j \<le> k \<Longrightarrow> stops k t"
  by (simp add: stops_def)

lemma stops_ops: "stops j t \<Longrightarrow> t \<notin> set (ops j)"
  by (simp add: stops_def)

definition at_level :: "(string \<Rightarrow> double option) \<Rightarrow> nat \<Rightarrow> ast \<Rightarrow> pairs \<Rightarrow> bool" where
  "at_level stod j e ts \<longleftrightarrow> reads (level stod j) (\<lambda>e'. erase e' = erase e) (stops j) ts"

lemma runs_eq: "runs G rest ok \<Longrightarrow> (\<And>f n. G f n = H f n) \<Longrightarrow> runs H rest ok"
  by (simp add: runs_def)

text \<open>A left-associative loop that stops at once.\<close>

lemma runs_loop_stop:
  assumes "ahead p rest" "rest \<noteq> []" "fst (hd rest) \<notin> set us" "ok e"
  shows "runs (\<lambda>f n. left_loop f us oper (operand n) e p) rest ok"
proof -
  obtain t v ts where "rest = (t, v) # ts" using assms(2) by (cases rest) auto
  then have "\<not> checkAny us p" using assms(1,3) by (simp add: ahead_check)
  then show ?thesis by (rule_tac runs_Suc [of "\<lambda>f n. Parsed e p"], rule_tac runs_done) (simp_all add: assms)
qed

text \<open>From a level to the one below: the tokens do not change.\<close>

lemma runs_not_first:
  assumes "ahead p (ts @ rest)" "ts \<noteq> []" "fst (hd ts) \<noteq> t"
  shows "\<not> check t p"
proof -
  obtain u v us where "ts = (u, v) # us" using assms(2) by (cases ts) auto
  then show ?thesis using assms by (simp add: ahead_check)
qed

lemma not_any:
  assumes "ahead p rest" "rest \<noteq> []" "fst (hd rest) \<notin> set us"
  shows "\<not> checkAny us p"
proof -
  obtain t v ts where "rest = (t, v) # ts" using assms(2) by (cases rest) auto
  then show ?thesis using assms(1,3) by (simp add: ahead_check)
qed

lemma down_left:
  assumes one: "runs (\<lambda>f n. level stod (Suc j) f n p) rest ok" and j: "j \<in> {0, 1, 4, 5}"
    and rest: "rest \<noteq> []" "stops j (fst (hd rest))"
  shows "runs (\<lambda>f n. level stod j f n p) rest ok"
  unfolding level_left [OF j]
  by (rule runs_then [OF runs_diag [OF one]], rule runs_loop_stop [OF _ rest(1) stops_ops [OF rest(2)]])

lemma down_not:
  assumes one: "runs (\<lambda>f n. level stod 3 f n p) rest ok" and no: "\<not> check NO_CAP_NOT p"
  shows "runs (\<lambda>f n. level stod 2 f n p) rest ok"
  by (rule runs_Suc [OF one]) (simp add: level_def no)

lemma down_unary:
  assumes one: "runs (\<lambda>f n. level stod 7 f n p) rest ok" and no: "\<not> check MINUS p"
  shows "runs (\<lambda>f n. level stod 6 f n p) rest ok"
  by (rule runs_Suc [OF one]) (simp add: level_def no)

lemma down_compare:
  assumes one: "runs (\<lambda>f n. level stod 4 f n p) rest ok" and rest: "rest \<noteq> []" "stops 3 (fst (hd rest))"
  shows "runs (\<lambda>f n. level stod 3 f n p) rest ok"
  unfolding level_compare
proof (rule runs_then [OF runs_diag [OF one]])
  fix x q assume x: "ok x" and q: "ahead q rest"
  have no: "\<not> checkAny (ops 3) q" by (rule not_any [OF q rest(1) stops_ops [OF rest(2)]])
  show "runs (\<lambda>f n. if checkAny (ops 3) q then andThen (level stod 4 n n (Parser.skip q)) (\<lambda>right qa.
      Parsed (BinaryOp (tline (current q)) (tcol (current q)) (tvalue (current q)) x right []) qa)
      else Parsed x q) rest ok"
    unfolding if_not_P [OF no] by (rule runs_done [where ok = ok, OF x q])
qed

lemma down_one:
  assumes one: "runs (\<lambda>f n. level stod (Suc j) f n p) rest ok" and rest: "rest \<noteq> []" "stops j (fst (hd rest))"
    and no: "j = 2 \<longrightarrow> \<not> check NO_CAP_NOT p" "j = 6 \<longrightarrow> \<not> check MINUS p" and j: "j \<le> 6"
  shows "runs (\<lambda>f n. level stod j f n p) rest ok"
proof -
  have "j \<in> {0, 1, 4, 5} \<or> j = 2 \<or> j = 3 \<or> j = 6" using j by (auto simp: le_Suc_eq eval_nat_numeral)
  then show ?thesis
  proof (elim disjE)
    assume "j \<in> {0, 1, 4, 5}"
    then show ?thesis by (rule down_left [OF one _ rest])
  next
    assume "j = 2"
    then show ?thesis using down_not [of stod p rest ok] one no by (simp add: eval_nat_numeral)
  next
    assume "j = 3"
    then show ?thesis using down_compare [of stod p rest ok] one rest by (simp add: eval_nat_numeral)
  next
    assume "j = 6"
    then show ?thesis using down_unary [of stod p rest ok] one no by (simp add: eval_nat_numeral)
  qed
qed

lemma down_many:
  assumes one: "runs (\<lambda>f n. level stod m f n p) rest ok" and rest: "rest \<noteq> []" "stops k (fst (hd rest))"
    and no: "k \<le> 2 \<and> 2 < m \<longrightarrow> \<not> check NO_CAP_NOT p" "m = 7 \<longrightarrow> \<not> check MINUS p" and m: "k \<le> m" "m \<le> 7"
  shows "runs (\<lambda>f n. level stod k f n p) rest ok"
  using m(1) rest(2) no(1)
proof (induction k rule: inc_induct)
  case base
  then show ?case by (simp add: one)
next
  case (step j)
  have "runs (\<lambda>f n. level stod (Suc j) f n p) rest ok"
    by (rule step.IH) (use step stops_Suc in auto)
  then show ?case
    by (rule down_one [OF _ rest(1)]) (use step no m in auto)
qed

lemma lift_many:
  assumes lev: "at_level stod m e ts" and ts: "ts \<noteq> []" and m: "k \<le> m" "m \<le> 7"
    and no: "k \<le> 2 \<and> 2 < m \<longrightarrow> fst (hd ts) \<noteq> NO_CAP_NOT" "m = 7 \<longrightarrow> fst (hd ts) \<noteq> MINUS"
  shows "at_level stod k e ts"
  unfolding at_level_def
proof (rule readsI)
  fix p rest assume p: "ahead p (ts @ rest)" and rest: "rest \<noteq> []" "stops k (fst (hd rest))"
  have one: "runs (\<lambda>f n. level stod m f n p) rest (\<lambda>e'. erase e' = erase e)"
    by (rule readsD [OF lev [unfolded at_level_def] p rest(1) stops_le [OF rest(2) m(1)]])
  show "runs (\<lambda>f n. level stod k f n p) rest (\<lambda>e'. erase e' = erase e)"
    by (rule down_many [OF one rest _ _ m]) (use no runs_not_first [OF p ts] in blast)+
qed

section \<open>Operators\<close>

lemma op_stops: "t \<in> set (ops j) \<Longrightarrow> stops (Suc j) t"
proof -
  assume t: "t \<in> set (ops j)"
  have "i \<ge> Suc j \<Longrightarrow> t \<notin> set (ops i)" for i
    using t by (auto simp: ops_def split: if_splits)
  moreover have "t \<notin> {DOT, LPAREN}" using t by (auto simp: ops_def split: if_splits)
  ultimately show ?thesis by (simp add: stops_def)
qed

text \<open>Reading an operand leaves the loop of its level with the tree so far.\<close>

definition accumulates :: "(string \<Rightarrow> double option) \<Rightarrow> nat \<Rightarrow> ast \<Rightarrow> pairs \<Rightarrow> bool" where
  "accumulates stod j e ts \<longleftrightarrow> (\<forall>p rest. ahead p (ts @ rest) \<longrightarrow> rest \<noteq> [] \<longrightarrow> stops (Suc j) (fst (hd rest)) \<longrightarrow>
     (\<exists>e' p' c N. erase e' = erase e \<and> ahead p' rest \<and> (\<forall>f n. N \<le> f \<longrightarrow> N \<le> n \<longrightarrow>
        level stod j (f + c) n p = left_loop f (ops j) (oper_text j) (level stod (Suc j) n n) e' p')))"

lemma accumulates_next:
  assumes "at_level stod (Suc j) e ts" "j \<in> {0, 1, 4, 5}"
  shows "accumulates stod j e ts"
  unfolding accumulates_def
proof (intro allI impI)
  fix p rest assume p: "ahead p (ts @ rest)" and rest: "rest \<noteq> []" "stops (Suc j) (fst (hd rest))"
  have "runs (\<lambda>f n. level stod (Suc j) f n p) rest (\<lambda>e'. erase e' = erase e)"
    by (rule readsD [OF assms(1) [unfolded at_level_def] p rest])
  then obtain e' p' N where r: "erase e' = erase e" "ahead p' rest"
      "\<forall>f n. N \<le> f \<longrightarrow> N \<le> n \<longrightarrow> level stod (Suc j) f n p = Parsed e' p'"
    unfolding runs_def by blast
  have "\<forall>f n. N \<le> f \<longrightarrow> N \<le> n \<longrightarrow>
      level stod j (f + 0) n p = left_loop f (ops j) (oper_text j) (level stod (Suc j) n n) e' p'"
    using r(3) by (simp add: level_left [OF assms(2)])
  then show "\<exists>e' p' c N. erase e' = erase e \<and> ahead p' rest \<and> (\<forall>f n. N \<le> f \<longrightarrow> N \<le> n \<longrightarrow>
      level stod j (f + c) n p = left_loop f (ops j) (oper_text j) (level stod (Suc j) n n) e' p')"
    using r(1,2) by blast
qed

lemma accumulates_binary:
  assumes l: "accumulates stod j left tsl" and r: "at_level stod (Suc j) right tsr" and j: "j \<in> {0, 1, 4, 5}"
    and t: "t \<in> set (ops j)" "\<And>tok. tvalue tok = v \<Longrightarrow> oper_text j tok = oper"
  shows "accumulates stod j (BinaryOp a b oper left right []) (tsl @ [(t, v)] @ tsr)"
  unfolding accumulates_def
proof (intro allI impI)
  fix p rest assume p: "ahead p ((tsl @ [(t, v)] @ tsr) @ rest)" and rest: "rest \<noteq> []" "stops (Suc j) (fst (hd rest))"
  have "ahead p (tsl @ (t, v) # tsr @ rest)" using p by simp
  moreover have "stops (Suc j) (fst (hd ((t, v) # tsr @ rest)))" using op_stops [OF t(1)] by simp
  ultimately obtain x q c N where x: "erase x = erase left" "ahead q ((t, v) # tsr @ rest)"
      "\<forall>f n. N \<le> f \<longrightarrow> N \<le> n \<longrightarrow>
        level stod j (f + c) n p = left_loop f (ops j) (oper_text j) (level stod (Suc j) n n) x q"
    using l unfolding accumulates_def by blast
  have s: "ahead (Parser.skip q) (tsr @ rest)" using ahead_skip [OF x(2)] rest(1) by simp
  have "runs (\<lambda>f n. level stod (Suc j) f n (Parser.skip q)) rest (\<lambda>e'. erase e' = erase right)"
    by (rule readsD [OF r [unfolded at_level_def] s rest])
  then obtain y q' M where y: "erase y = erase right" "ahead q' rest"
      "\<forall>f n. M \<le> f \<longrightarrow> M \<le> n \<longrightarrow> level stod (Suc j) f n (Parser.skip q) = Parsed y q'"
    unfolding runs_def by blast
  let ?e = "BinaryOp (tline (current q)) (tcol (current q)) oper x y []"
  have otext: "oper_text j (current q) = oper" using t(2) ahead_current [OF x(2)] by simp
  have "level stod j (f + Suc c) n p = left_loop f (ops j) (oper_text j) (level stod (Suc j) n n) ?e q'"
    if "max N M \<le> f" "max N M \<le> n" for f n
  proof -
    have any: "checkAny (ops j) q" using t(1) by (simp add: ahead_check [OF x(2)])
    have "level stod j (f + Suc c) n p = level stod j (Suc f + c) n p" by simp
    also have "\<dots> = left_loop (Suc f) (ops j) (oper_text j) (level stod (Suc j) n n) x q"
      using x(3) [rule_format, of "Suc f" n] that by simp
    also have "\<dots> = left_loop f (ops j) (oper_text j) (level stod (Suc j) n n) ?e q'"
      using y(3) that any otext by (simp add: Let_def)
    finally show ?thesis .
  qed
  moreover have "erase ?e = erase (BinaryOp a b oper left right [])" using x(1) y(1) by simp
  ultimately show "\<exists>e' p' c N. erase e' = erase (BinaryOp a b oper left right []) \<and> ahead p' rest \<and>
      (\<forall>f n. N \<le> f \<longrightarrow> N \<le> n \<longrightarrow>
        level stod j (f + c) n p = left_loop f (ops j) (oper_text j) (level stod (Suc j) n n) e' p')"
    using y(2) by blast
qed

lemma accumulates_level:
  assumes "accumulates stod j e ts"
  shows "at_level stod j e ts"
  unfolding at_level_def
proof (rule readsI)
  fix p rest assume p: "ahead p (ts @ rest)" and rest: "rest \<noteq> []" "stops j (fst (hd rest))"
  obtain x q c N where x: "erase x = erase e" "ahead q rest"
      "\<forall>f n. N \<le> f \<longrightarrow> N \<le> n \<longrightarrow>
        level stod j (f + c) n p = left_loop f (ops j) (oper_text j) (level stod (Suc j) n n) x q"
    using assms p rest stops_Suc [OF rest(2)] unfolding accumulates_def by blast
  have no: "\<not> checkAny (ops j) q" by (rule not_any [OF x(2) rest(1) stops_ops [OF rest(2)]])
  have "level stod j f n p = Parsed x q" if f: "Suc N + c \<le> f" and n: "Suc N + c \<le> n" for f n
  proof -
    define g where "g = f - Suc c"
    have g: "f = Suc g + c" "N \<le> g" using f by (simp_all add: g_def)
    have "level stod j f n p = left_loop (Suc g) (ops j) (oper_text j) (level stod (Suc j) n n) x q"
      unfolding g(1) using x(3) [rule_format, of "Suc g" n] g(2) n by simp
    then show ?thesis using no by simp
  qed
  then show "runs (\<lambda>f n. level stod j f n p) rest (\<lambda>e'. erase e' = erase e)"
    using x(1,2) unfolding runs_def by blast
qed

lemma own_compare:
  assumes l: "at_level stod 4 left tsl" and r: "at_level stod 4 right tsr" and t: "t \<in> set (ops 3)"
  shows "at_level stod 3 (BinaryOp a b v left right []) (tsl @ [(t, v)] @ tsr)"
  unfolding at_level_def
proof (rule readsI)
  fix p rest assume p: "ahead p ((tsl @ [(t, v)] @ tsr) @ rest)" and rest: "rest \<noteq> []" "stops 3 (fst (hd rest))"
  have p': "ahead p (tsl @ (t, v) # tsr @ rest)" using p by simp
  have ts: "stops 4 (fst (hd ((t, v) # tsr @ rest)))" using op_stops [OF t] by (simp add: eval_nat_numeral)
  have "runs (\<lambda>f n. level stod 4 f n p) ((t, v) # tsr @ rest) (\<lambda>e'. erase e' = erase left)"
    by (rule readsD [OF l [unfolded at_level_def] p' _ ts]) simp
  then have one: "runs (\<lambda>f n. level stod 4 n n p) ((t, v) # tsr @ rest) (\<lambda>e'. erase e' = erase left)"
    by (rule runs_diag)
  show "runs (\<lambda>f n. level stod 3 f n p) rest (\<lambda>e'. erase e' = erase (BinaryOp a b v left right []))"
    unfolding level_compare
  proof (rule runs_then [OF one])
    fix x q assume x: "erase x = erase left" and q: "ahead q ((t, v) # tsr @ rest)"
    have any: "checkAny (ops 3) q" using t by (simp add: ahead_check [OF q])
    have s: "ahead (Parser.skip q) (tsr @ rest)" using ahead_skip [OF q] rest(1) by simp
    have "stops 4 (fst (hd rest))" using stops_le [OF rest(2)] by simp
    then have "runs (\<lambda>f n. level stod 4 f n (Parser.skip q)) rest (\<lambda>e'. erase e' = erase right)"
      by (rule readsD [OF r [unfolded at_level_def] s rest(1)])
    then have two: "runs (\<lambda>f n. level stod 4 n n (Parser.skip q)) rest (\<lambda>e'. erase e' = erase right)"
      by (rule runs_diag)
    have v: "tvalue (current q) = v" using ahead_current [OF q] by simp
    show "runs (\<lambda>f n. if checkAny (ops 3) q then andThen (level stod 4 n n (Parser.skip q)) (\<lambda>right qa.
        Parsed (BinaryOp (tline (current q)) (tcol (current q)) (tvalue (current q)) x right []) qa)
        else Parsed x q) rest (\<lambda>e'. erase e' = erase (BinaryOp a b v left right []))"
      unfolding if_P [OF any] by (rule runs_then [OF two], rule runs_done) (simp_all add: x v)
  qed
qed

lemma own_not:
  assumes "at_level stod 2 e ts"
  shows "at_level stod 2 (UnaryOp a b ''NOT'' e []) ((NO_CAP_NOT, v) # ts)"
  unfolding at_level_def
proof (rule readsI)
  fix p rest assume p: "ahead p (((NO_CAP_NOT, v) # ts) @ rest)" and rest: "rest \<noteq> []" "stops 2 (fst (hd rest))"
  have p': "ahead p ((NO_CAP_NOT, v) # ts @ rest)" using p by simp
  have s: "ahead (Parser.skip p) (ts @ rest)" using ahead_skip [OF p'] rest(1) by simp
  have is_not: "check NO_CAP_NOT p" by (simp add: ahead_check [OF p'])
  have one: "runs (\<lambda>f n. level stod 2 f n (Parser.skip p)) rest (\<lambda>e'. erase e' = erase e)"
    by (rule readsD [OF assms [unfolded at_level_def] s rest])
  have "runs (\<lambda>f n. andThen (level stod 2 f n (Parser.skip p)) (\<lambda>operand q.
      Parsed (UnaryOp (tline (current p)) (tcol (current p)) ''NOT'' operand []) q)) rest
      (\<lambda>e'. erase e' = erase (UnaryOp a b ''NOT'' e []))"
    by (rule runs_then [OF one], rule runs_done) simp_all
  then show "runs (\<lambda>f n. level stod 2 f n p) rest (\<lambda>e'. erase e' = erase (UnaryOp a b ''NOT'' e []))"
    by (rule runs_Suc) (simp add: level_def is_not Let_def)
qed

lemma own_negation:
  assumes "at_level stod 6 e ts"
  shows "at_level stod 6 (UnaryOp a b ''-'' e []) ((MINUS, v) # ts)"
  unfolding at_level_def
proof (rule readsI)
  fix p rest assume p: "ahead p (((MINUS, v) # ts) @ rest)" and rest: "rest \<noteq> []" "stops 6 (fst (hd rest))"
  have p': "ahead p ((MINUS, v) # ts @ rest)" using p by simp
  have s: "ahead (Parser.skip p) (ts @ rest)" using ahead_skip [OF p'] rest(1) by simp
  have is_minus: "check MINUS p" by (simp add: ahead_check [OF p'])
  have one: "runs (\<lambda>f n. level stod 6 f n (Parser.skip p)) rest (\<lambda>e'. erase e' = erase e)"
    by (rule readsD [OF assms [unfolded at_level_def] s rest])
  have "runs (\<lambda>f n. andThen (level stod 6 f n (Parser.skip p)) (\<lambda>operand q.
      Parsed (UnaryOp (tline (current p)) (tcol (current p)) ''-'' operand []) q)) rest
      (\<lambda>e'. erase e' = erase (UnaryOp a b ''-'' e []))"
    by (rule runs_then [OF one], rule runs_done) simp_all
  then show "runs (\<lambda>f n. level stod 6 f n p) rest (\<lambda>e'. erase e' = erase (UnaryOp a b ''-'' e []))"
    by (rule runs_Suc) (simp add: level_def is_minus Let_def)
qed

section \<open>Primary expressions\<close>

text \<open>The expression parser with the fuel of the caller, and with one unit less.\<close>

definition reads_expr :: "(string \<Rightarrow> double option) \<Rightarrow> ast \<Rightarrow> pairs \<Rightarrow> bool" where
  "reads_expr stod e ts \<longleftrightarrow> reads (\<lambda>f n. parseExpr stod n) (\<lambda>e'. erase e' = erase e) (stops 0) ts"

lemma reads_exprI:
  assumes "at_level stod 0 e ts"
  shows "reads_expr stod e ts"
  unfolding reads_expr_def
proof (rule readsI)
  fix p rest assume p: "ahead p (ts @ rest)" and rest: "rest \<noteq> []" "stops 0 (fst (hd rest))"
  have "runs (\<lambda>f n. level stod 0 f n p) rest (\<lambda>e'. erase e' = erase e)"
    by (rule readsD [OF assms [unfolded at_level_def] p rest])
  then obtain x q N where "erase x = erase e" "ahead q rest"
      "\<forall>f n. N \<le> f \<longrightarrow> N \<le> n \<longrightarrow> level stod 0 f n p = Parsed x q"
    unfolding runs_def by blast
  moreover from this have "\<forall>f n. Suc N \<le> f \<longrightarrow> Suc N \<le> n \<longrightarrow> parseExpr stod n p = Parsed x q"
    by (metis Suc_le_D Suc_leD parseExpr_level)
  ultimately show "runs (\<lambda>f n. parseExpr stod n p) rest (\<lambda>e'. erase e' = erase e)"
    unfolding runs_def by blast
qed

lemma reads_pred: "reads (\<lambda>f n. g n) ok stop ts \<Longrightarrow> reads (\<lambda>f n. g (n - 1)) ok stop ts"
  unfolding reads_def by (blast dest: runs_pred)

lemma reads_expr_run:
  assumes "reads_expr stod e ts" "ahead p (ts @ rest)" "rest \<noteq> []" "stops 0 (fst (hd rest))"
  shows "runs (\<lambda>f n. parseExpr stod (n - 1) p) rest (\<lambda>e'. erase e' = erase e)"
  using readsD [OF reads_pred [OF assms(1) [unfolded reads_expr_def]] assms(2-)] .

lemma at_primaryI:
  assumes "\<And>p rest. ahead p (ts @ rest) \<Longrightarrow> rest \<noteq> [] \<Longrightarrow> fst (hd rest) \<notin> {DOT, LPAREN} \<Longrightarrow>
    runs (\<lambda>f n. parsePrimaryExpr stod n (parseExpr stod (n - 1)) p) rest (\<lambda>e'. erase e' = erase e)"
  shows "at_level stod 7 e ts"
  unfolding at_level_def
proof (rule readsI)
  fix p rest assume "ahead p (ts @ rest)" "rest \<noteq> []" "stops 7 (fst (hd rest))"
  then show "runs (\<lambda>f n. level stod 7 f n p) rest (\<lambda>e'. erase e' = erase e)"
    using assms by (simp add: stops_def level_def prim_def)
qed

lemma primary_literal:
  assumes "writable (Literal l c v)"
  shows "at_level stod 7 (Literal l c v) (expr_toks (Literal l c v) k)"
proof (rule at_primaryI)
  fix p rest assume p: "ahead p (expr_toks (Literal l c v) k @ rest)" and rest: "rest \<noteq> []"
  obtain t w where tw: "expr_toks (Literal l c v) k = [(t, w)]" by (cases v) simp_all
  have a: "ahead p ((t, w) # rest)" using p tw by simp
  note cur = ahead_current [OF a]
  have int: "stoll (tvalue (current p)) = Inr i" if "v = INT_LIT i" for i
    using that assms tw cur stoll_string_of_nat [of "nat i"] by (simp add: string_of_int_def nat_less_iff)
  have "parsePrimaryExpr stod n (parseExpr stod (n - 1)) p =
      Parsed (Literal (tline (current p)) (tcol (current p)) v) (Parser.skip p)" for n
    using assms cur tw int
    by (cases v) (simp_all add: parsePrimaryExpr_def Let_def makeInt_def makeString_def makeNull_def)
  then show "runs (\<lambda>f n. parsePrimaryExpr stod n (parseExpr stod (n - 1)) p) rest (\<lambda>e'. erase e' = erase (Literal l c v))"
    using ahead_skip [OF a rest] by (simp add: runs_done)
qed

lemma primary_parens:
  assumes e: "reads_expr stod e ts" and ts: "ts \<noteq> []" "fst (hd ts) \<noteq> SLAY"
  shows "at_level stod 7 e (parens ts)"
proof (rule at_primaryI)
  fix p rest assume p: "ahead p (parens ts @ rest)" and rest: "rest \<noteq> []"
  have a: "ahead p ((LPAREN, ''('') # ts @ (RPAREN, '')'') # rest)" using p by (simp add: parens_def)
  have s: "ahead (Parser.skip p) (ts @ (RPAREN, '')'') # rest)" using ahead_skip [OF a] by simp
  have no: "\<not> check SLAY (Parser.skip p)" by (rule runs_not_first [OF s ts])
  have "runs (\<lambda>f n. parseExpr stod (n - 1) (Parser.skip p)) ((RPAREN, '')'') # rest) (\<lambda>e'. erase e' = erase e)"
    by (rule reads_expr_run [OF e s]) (simp_all add: stops_tokens)
  then have "runs (\<lambda>f n. andThen (parseExpr stod (n - 1) (Parser.skip p)) (\<lambda>x q.
      andThen (expect RPAREN (''Expected '' @ quoted '')'') q) (\<lambda>_ q. Parsed x q))) rest (\<lambda>e'. erase e' = erase e)"
  proof (rule runs_then)
    fix x q assume x: "erase x = erase e" and q: "ahead q ((RPAREN, '')'') # rest)"
    show "runs (\<lambda>f n. andThen (expect RPAREN (''Expected '' @ quoted '')'') q) (\<lambda>_ q. Parsed x q)) rest (\<lambda>e'. erase e' = erase e)"
      by (rule runs_then [OF runs_expect [OF q rest]], rule runs_done) (simp_all add: x)
  qed
  then show "runs (\<lambda>f n. parsePrimaryExpr stod n (parseExpr stod (n - 1)) p) rest (\<lambda>e'. erase e' = erase e)"
    by (rule runs_eq) (use ahead_current [OF a] no in \<open>simp add: parsePrimaryExpr_def Let_def\<close>)
qed

text \<open>Names, qualified names and calls.\<close>

lemma primary_dispatch:
  assumes "ahead p ((t, v) # ts)"
  shows "t = IDENTIFIER \<Longrightarrow> parsePrimaryExpr stod n expr p = parse_name n expr (current p) (Parser.skip p)"
    and "t \<in> set aggregate_names \<Longrightarrow> parsePrimaryExpr stod n expr p =
      parseFunctionCall n expr v (tline (current p)) (tcol (current p)) (Parser.skip p)"
    and "t = ERA \<Longrightarrow> parsePrimaryExpr stod n expr p =
      parseEraExpr n expr (tline (current p)) (tcol (current p)) (Parser.skip p)"
  using ahead_current [OF assms] by (auto simp: parsePrimaryExpr_def Let_def aggregate_names_def)

lemma next_is:
  assumes "ahead p rest" "rest \<noteq> []"
  shows "check t p \<longleftrightarrow> fst (hd rest) = t"
proof -
  obtain u v ts where "rest = (u, v) # ts" using assms(2) by (cases rest) auto
  then show ?thesis using assms(1) by (simp add: ahead_check)
qed

lemma primary_column: "at_level stod 7 (ColumnRef l c table column []) (expr_toks (ColumnRef l c table column a) k)"
proof (rule at_primaryI)
  fix p rest
  assume p: "ahead p (expr_toks (ColumnRef l c table column a) k @ rest)" and rest: "rest \<noteq> []" "fst (hd rest) \<notin> {DOT, LPAREN}"
  show "runs (\<lambda>f n. parsePrimaryExpr stod n (parseExpr stod (n - 1)) p) rest
      (\<lambda>e'. erase e' = erase (ColumnRef l c table column []))"
  proof (cases "table = []")
    case True
    then have a: "ahead p ((IDENTIFIER, column) # rest)" using p by simp
    have s: "ahead (Parser.skip p) rest" by (rule ahead_skip [OF a rest(1)])
    have "parsePrimaryExpr stod n (parseExpr stod (n - 1)) p =
        Parsed (ColumnRef (tline (current p)) (tcol (current p)) [] column []) (Parser.skip p)" for n
      using rest ahead_current [OF a] next_is [OF s rest(1)]
      by (simp add: primary_dispatch(1) [OF a] parse_name_def Let_def)
    then show ?thesis using s True by (simp add: runs_done)
  next
    case False
    then have a: "ahead p ((IDENTIFIER, table) # (DOT, ''.'') # (IDENTIFIER, column) # rest)" using p by simp
    have s: "ahead (Parser.skip p) ((DOT, ''.'') # (IDENTIFIER, column) # rest)" using ahead_skip [OF a] by simp
    have s': "ahead (Parser.skip (Parser.skip p)) ((IDENTIFIER, column) # rest)" using ahead_skip [OF s] by simp
    let ?l = "tline (current p)" and ?c = "tcol (current p)"
    have "runs (\<lambda>f n. andThen (expect IDENTIFIER (''Expected column name after '' @ quoted ''.'') (Parser.skip (Parser.skip p)))
        (\<lambda>col q. if check LPAREN q then parseFunctionCall n (parseExpr stod (n - 1)) (table @ ''.'' @ tvalue col) ?l ?c q
          else Parsed (ColumnRef ?l ?c table (tvalue col) []) q)) rest
        (\<lambda>e'. erase e' = erase (ColumnRef l c table column []))"
    proof (rule runs_then [OF runs_expect [OF s' rest(1)]])
      fix col q assume col: "ttype col = IDENTIFIER \<and> tvalue col = column" and q: "ahead q rest"
      have no: "\<not> check LPAREN q" using next_is [OF q rest(1)] rest(2) by simp
      show "runs (\<lambda>f n. if check LPAREN q then parseFunctionCall n (parseExpr stod (n - 1)) (table @ ''.'' @ tvalue col) ?l ?c q
          else Parsed (ColumnRef ?l ?c table (tvalue col) []) q) rest
          (\<lambda>e'. erase e' = erase (ColumnRef l c table column []))"
        unfolding if_not_P [OF no] by (rule runs_done) (use col q in simp_all)
    qed
    then show ?thesis
    proof (rule runs_eq)
      have dot: "check DOT (Parser.skip p) = True" "check STAR (Parser.skip (Parser.skip p)) = False"
        by (simp_all add: ahead_check [OF s] ahead_check [OF s'])
      have name: "tvalue (current p) = table" using ahead_current [OF a] by simp
      show "andThen (expect IDENTIFIER (''Expected column name after '' @ quoted ''.'') (Parser.skip (Parser.skip p)))
          (\<lambda>col q. if check LPAREN q then parseFunctionCall n (parseExpr stod (n - 1)) (table @ ''.'' @ tvalue col) ?l ?c q
            else Parsed (ColumnRef ?l ?c table (tvalue col) []) q) =
          parsePrimaryExpr stod n (parseExpr stod (n - 1)) p" for n
        by (simp only: primary_dispatch(1) [OF a refl] parse_name_def Let_def dot name if_True if_False)
    qed
  qed
qed

lemma primary_wildcard:
  assumes "table \<noteq> []"
  shows "at_level stod 7 (Wildcard l c table []) (expr_toks (Wildcard l c table a) k)"
proof (rule at_primaryI)
  fix p rest
  assume p: "ahead p (expr_toks (Wildcard l c table a) k @ rest)" and rest: "rest \<noteq> []"
  have a: "ahead p ((IDENTIFIER, table) # (DOT, ''.'') # (STAR, ''*'') # rest)" using p assms by simp
  have s: "ahead (Parser.skip p) ((DOT, ''.'') # (STAR, ''*'') # rest)" using ahead_skip [OF a] by simp
  have s': "ahead (Parser.skip (Parser.skip p)) ((STAR, ''*'') # rest)" using ahead_skip [OF s] by simp
  have "parsePrimaryExpr stod n (parseExpr stod (n - 1)) p =
      Parsed (Wildcard (tline (current p)) (tcol (current p)) table []) (Parser.skip (Parser.skip (Parser.skip p)))" for n
    using ahead_current [OF a]
    by (simp add: primary_dispatch(1) [OF a] parse_name_def Let_def ahead_check [OF s] ahead_check [OF s'])
  then show "runs (\<lambda>f n. parsePrimaryExpr stod n (parseExpr stod (n - 1)) p) rest
      (\<lambda>e'. erase e' = erase (Wildcard l c table []))"
    using ahead_skip [OF s' rest] by (simp add: runs_done)
qed

lemma name_token_cases: "name_token name \<in> set (IDENTIFIER # aggregate_names)"
  by (auto simp: name_token_def aggregate_names_def map_of_eq_Some_iff split: option.splits if_splits)

lemma call_dispatch:
  assumes a: "ahead p ((name_token name, name) # (LPAREN, w) # ts)"
  shows "parsePrimaryExpr stod n expr p =
    parseFunctionCall n expr name (tline (current p)) (tcol (current p)) (Parser.skip p)"
proof (cases "name_token name = IDENTIFIER")
  case True
  have s: "ahead (Parser.skip p) ((LPAREN, w) # ts)" using ahead_skip [OF a] by simp
  show ?thesis using ahead_current [OF a]
    by (simp add: primary_dispatch(1) [OF a True] parse_name_def Let_def ahead_check [OF s])
next
  case False
  then have "name_token name \<in> set aggregate_names" using name_token_cases [of name] by simp
  then show ?thesis by (rule primary_dispatch(2) [OF a])
qed

section \<open>Calls, windows and queries\<close>

definition start_tokens :: "token_type list" where
  "start_tokens = [INTEGER_LIT, STRING_LIT, GHOSTED, IDENTIFIER, LPAREN, NO_CAP_NOT, MINUS] @ aggregate_names"

lemma within_head:
  assumes "ts \<noteq> []" "k \<le> m \<Longrightarrow> fst (hd ts) \<in> set start_tokens"
  shows "within k m ts \<noteq> [] \<and> fst (hd (within k m ts)) \<in> set start_tokens"
  using assms by (simp add: within_def parens_def start_tokens_def)

lemma binop_level: "binop oper = Some (m, t, v) \<Longrightarrow> m \<in> {0, 1, 3, 4, 5} \<and> t \<in> set (ops m)"
  by (auto simp: binop_def ops_def split: if_splits)

lemma binop_text: "binop oper = Some (m, t, v) \<Longrightarrow> m \<noteq> 3 \<Longrightarrow> tvalue tok = v \<Longrightarrow> oper_text m tok = oper"
  by (auto simp: binop_def oper_text_def split: if_splits)

lemma binop_compare: "binop oper = Some (3, t, v) \<Longrightarrow> v = oper"
  by (auto simp: binop_def split: if_splits)

lemma name_token_start: "name_token name \<in> set start_tokens \<and> name_token name \<notin> {NO_CAP_NOT, MINUS}"
  using name_token_cases [of name] by (auto simp: start_tokens_def aggregate_names_def)

text \<open>The first token of an expression.\<close>

lemma expr_head:
  "writable e \<Longrightarrow> expr_toks e k \<noteq> [] \<and> fst (hd (expr_toks e k)) \<in> set start_tokens \<and>
     (3 \<le> k \<longrightarrow> fst (hd (expr_toks e k)) \<noteq> NO_CAP_NOT) \<and> (7 \<le> k \<longrightarrow> fst (hd (expr_toks e k)) \<noteq> MINUS)"
proof (induction e arbitrary: k)
  case (Literal l c v)
  then show ?case by (cases v) (simp_all add: start_tokens_def)
next
  case (BinaryOp l c oper left right al)
  obtain m t v where b: "binop oper = Some (m, t, v)" using BinaryOp.prems by auto
  have m: "m \<in> {0, 1, 3, 4, 5}" using binop_level [OF b] by simp
  let ?j = "if m = 3 then 4 else m"
  have h: "expr_toks left ?j \<noteq> [] \<and> fst (hd (expr_toks left ?j)) \<in> set start_tokens \<and>
      (3 \<le> ?j \<longrightarrow> fst (hd (expr_toks left ?j)) \<noteq> NO_CAP_NOT)"
    using BinaryOp.IH(1) BinaryOp.prems by simp
  show ?case
  proof (cases "k \<le> m")
    case True
    then have "expr_toks (BinaryOp l c oper left right al) k =
        expr_toks left ?j @ [(t, v)] @ expr_toks right (Suc m)"
      using b by (simp add: within_def)
    then show ?thesis using h True m by (auto simp: hd_append)
  next
    case False
    then show ?thesis using b by (simp add: within_def parens_def start_tokens_def)
  qed
next
  case (UnaryOp l c oper operand al)
  show ?case by (simp add: within_def parens_def start_tokens_def)
next
  case (SelectStmt l c dist cols table al joins whr groups having orders lim off)
  show ?case by (simp add: parens_def start_tokens_def)
next
  case (WindowFunc l c name parts orders al)
  show ?case by (simp add: parens_def start_tokens_def)
next
  case (FunctionCall l c name args dist al)
  have "expr_toks (FunctionCall l c name args dist al) k \<noteq> []"
    "fst (hd (expr_toks (FunctionCall l c name args dist al) k)) = name_token name" by simp_all
  then show ?case using name_token_start [of name] by simp
next
  case (ColumnRef l c table column al)
  show ?case by (simp add: start_tokens_def)
next
  case (Wildcard l c table al)
  then show ?case by (simp add: start_tokens_def)
qed

lemma runs_close:
  assumes "ahead q ((RPAREN, '')'') # rest)" "rest \<noteq> []" "ok x"
  shows "runs (\<lambda>f n. andThen (expect RPAREN msg q) (\<lambda>_ p. Parsed x p)) rest ok"
  by (rule runs_then [OF runs_expect [OF assms(1,2)]], rule runs_done) (simp_all add: assms(3))

abbreviation same :: "ast \<Rightarrow> ast \<Rightarrow> bool" where
  "same e e' \<equiv> erase e' = erase e"

lemma same_list: "list_all2 same es es' \<Longrightarrow> map erase es' = map erase es"
  by (induction rule: list_all2_induct) simp_all

lemma reads_exprs:
  assumes "\<forall>e\<in>set es. reads_expr stod e (tk e)" "es \<noteq> []"
  shows "reads (\<lambda>f n. comma_list n (parseExpr stod n)) (list_all2 same es) (\<lambda>t. stops 0 t \<and> t \<noteq> COMMA) (commas (map tk es))"
  by (rule reads_comma_list) (use assms in \<open>simp_all add: reads_expr_def stops_tokens\<close>)

text \<open>Inside a primary expression the expression parser has one unit of fuel less.\<close>

lemma reads_exprs_below:
  assumes "\<forall>e\<in>set es. reads_expr stod e (tk e)" "es \<noteq> []"
  shows "reads (\<lambda>f n. comma_list n (parseExpr stod (n - 1))) (list_all2 same es)
    (\<lambda>t. stops 0 t \<and> t \<noteq> COMMA) (commas (map tk es))"
  by (rule reads_comma_list [where item = "\<lambda>n. parseExpr stod (n - 1)"])
    (use assms in \<open>simp_all add: reads_expr_def reads_pred [of "parseExpr stod"] stops_tokens del: One_nat_def\<close>)

lemma commas_head: "es \<noteq> [] \<Longrightarrow> tk (hd es) \<noteq> [] \<Longrightarrow> commas (map tk es) \<noteq> [] \<and> hd (commas (map tk es)) = hd (tk (hd es))"
  by (cases es) (auto simp: commas_map simp del: list.map)

lemma start_not: "t \<in> set start_tokens \<Longrightarrow> t \<notin> {STAR, UNIQUE_FR, RPAREN, SLAY, COMMA}"
  by (auto simp: start_tokens_def aggregate_names_def)

definition call_rest :: "nat \<Rightarrow> (parser \<Rightarrow> ast parsed) \<Rightarrow> string \<Rightarrow> int \<Rightarrow> int \<Rightarrow> parser \<Rightarrow> ast parsed" where
  "call_rest n expr name l c p =
     (let close = (\<lambda>args dist p.
            andThen (expect RPAREN (''Expected '' @ quoted '')'') p) (\<lambda>_ p.
            Parsed (FunctionCall l c name args dist []) p))
      in if name = ''headcount'' \<and> check STAR p then close [Wildcard l c [] []] False (Parser.skip p)
         else if name = ''headcount'' \<and> check UNIQUE_FR p then
           andThen (expr (Parser.skip p)) (\<lambda>e p. close [e] True p)
         else if check RPAREN p then Parsed (FunctionCall l c name [] False []) (Parser.skip p)
         else andThen (comma_list n expr p) (\<lambda>args p. close args False p))"

lemma primary_callI:
  assumes "\<And>p rest l' c'. ahead p (ts @ (RPAREN, '')'') # rest) \<Longrightarrow> rest \<noteq> [] \<Longrightarrow>
    runs (\<lambda>f n. call_rest n (parseExpr stod (n - 1)) name l' c' p) rest (same (FunctionCall l c name args dist []))"
  shows "at_level stod 7 (FunctionCall l c name args dist [])
    ([(name_token name, name), (LPAREN, ''('')] @ ts @ [(RPAREN, '')'')])"
proof (rule at_primaryI)
  fix p rest
  assume "ahead p (([(name_token name, name), (LPAREN, ''('')] @ ts @ [(RPAREN, '')'')]) @ rest)" and rest: "rest \<noteq> []"
  then have a: "ahead p ((name_token name, name) # (LPAREN, ''('') # ts @ (RPAREN, '')'') # rest)" by simp
  have s: "ahead (Parser.skip p) ((LPAREN, ''('') # ts @ (RPAREN, '')'') # rest)" using ahead_skip [OF a] by simp
  let ?l = "tline (current p)" and ?c = "tcol (current p)"
  have "runs (\<lambda>f n. andThen (expect LPAREN (''Expected '' @ quoted ''('' @ '' after function name'') (Parser.skip p))
      (\<lambda>_ q. call_rest n (parseExpr stod (n - 1)) name ?l ?c q)) rest (same (FunctionCall l c name args dist []))"
    by (rule runs_then [OF runs_expect [OF s]]) (use assms rest in simp_all)
  then show "runs (\<lambda>f n. parsePrimaryExpr stod n (parseExpr stod (n - 1)) p) rest (same (FunctionCall l c name args dist []))"
    by (rule runs_eq) (simp only: call_dispatch [OF a] parseFunctionCall_def call_rest_def Let_def)
qed

lemma primary_call_star:
  assumes "args = [e]" "plain_star e"
  shows "at_level stod 7 (FunctionCall l c ''headcount'' args False [])
    ([(name_token ''headcount'', ''headcount''), (LPAREN, ''('')] @ [(STAR, ''*'')] @ [(RPAREN, '')'')])"
proof (rule primary_callI)
  fix p rest l' c' assume p: "ahead p ([(STAR, ''*'')] @ (RPAREN, '')'') # rest)" and rest: "rest \<noteq> []"
  then have a: "ahead p ((STAR, ''*'') # (RPAREN, '')'') # rest)" by simp
  have s: "ahead (Parser.skip p) ((RPAREN, '')'') # rest)" using ahead_skip [OF a] by simp
  have star: "check STAR p = True" by (simp add: ahead_check [OF a])
  have "runs (\<lambda>f n. andThen (expect RPAREN (''Expected '' @ quoted '')'') (Parser.skip p)) (\<lambda>_ q.
      Parsed (FunctionCall l' c' ''headcount'' [Wildcard l' c' [] []] False []) q)) rest
      (same (FunctionCall l c ''headcount'' args False []))"
    by (rule runs_close [OF s rest]) (use assms in \<open>auto simp: plain_star_def\<close>)
  then show "runs (\<lambda>f n. call_rest n (parseExpr stod (n - 1)) ''headcount'' l' c' p) rest
      (same (FunctionCall l c ''headcount'' args False []))"
    by (rule runs_eq) (simp only: call_rest_def Let_def star simp_thms if_True)
qed

lemma primary_call_distinct:
  assumes "reads_expr stod e ts"
  shows "at_level stod 7 (FunctionCall l c ''headcount'' [e] True [])
    ([(name_token ''headcount'', ''headcount''), (LPAREN, ''('')] @ ([(UNIQUE_FR, ''unique-fr'')] @ ts) @ [(RPAREN, '')'')])"
proof (rule primary_callI)
  fix p rest l' c' assume p: "ahead p (([(UNIQUE_FR, ''unique-fr'')] @ ts) @ (RPAREN, '')'') # rest)" and rest: "rest \<noteq> []"
  then have a: "ahead p ((UNIQUE_FR, ''unique-fr'') # ts @ (RPAREN, '')'') # rest)" by simp
  have s: "ahead (Parser.skip p) (ts @ (RPAREN, '')'') # rest)" using ahead_skip [OF a] by simp
  have t: "check STAR p = False" "check UNIQUE_FR p = True" by (simp_all add: ahead_check [OF a])
  have one: "runs (\<lambda>f n. parseExpr stod (n - 1) (Parser.skip p)) ((RPAREN, '')'') # rest) (same e)"
    by (rule reads_expr_run [OF assms s]) (simp_all add: stops_tokens)
  have "runs (\<lambda>f n. andThen (parseExpr stod (n - 1) (Parser.skip p)) (\<lambda>x q.
      andThen (expect RPAREN (''Expected '' @ quoted '')'') q) (\<lambda>_ q.
      Parsed (FunctionCall l' c' ''headcount'' [x] True []) q))) rest (same (FunctionCall l c ''headcount'' [e] True []))"
    by (rule runs_then [OF one], rule runs_close [OF _ rest]) simp_all
  then show "runs (\<lambda>f n. call_rest n (parseExpr stod (n - 1)) ''headcount'' l' c' p) rest
      (same (FunctionCall l c ''headcount'' [e] True []))"
    by (rule runs_eq) (simp only: call_rest_def Let_def t simp_thms if_True if_False)
qed

lemma primary_call_list:
  assumes "\<forall>e\<in>set args. reads_expr stod e (tk e) \<and> tk e \<noteq> [] \<and> fst (hd (tk e)) \<in> set start_tokens"
  shows "at_level stod 7 (FunctionCall l c name args False [])
    ([(name_token name, name), (LPAREN, ''('')] @ commas (map tk args) @ [(RPAREN, '')'')])"
proof (rule primary_callI)
  fix p rest l' c' assume p: "ahead p (commas (map tk args) @ (RPAREN, '')'') # rest)" and rest: "rest \<noteq> []"
  show "runs (\<lambda>f n. call_rest n (parseExpr stod (n - 1)) name l' c' p) rest (same (FunctionCall l c name args False []))"
  proof (cases "args = []")
    case True
    then have a: "ahead p ((RPAREN, '')'') # rest)" using p by simp
    have t: "check STAR p = False" "check UNIQUE_FR p = False" "check RPAREN p = True"
      by (simp_all add: ahead_check [OF a])
    have "runs (\<lambda>f n. Parsed (FunctionCall l' c' name [] False []) (Parser.skip p)) rest
        (same (FunctionCall l c name args False []))"
      by (rule runs_done [OF _ ahead_skip [OF a rest]]) (simp add: True)
    then show ?thesis
      by (rule runs_eq) (simp only: call_rest_def Let_def t simp_thms if_True if_False)
  next
    case False
    have h: "tk (hd args) \<noteq> []" "fst (hd (tk (hd args))) \<in> set start_tokens" using assms False by simp_all
    have ne: "commas (map tk args) \<noteq> []" "fst (hd (commas (map tk args))) \<in> set start_tokens"
      using commas_head [of args tk, OF False h(1)] h(2) by simp_all
    have t: "check STAR p = False" "check UNIQUE_FR p = False" "check RPAREN p = False"
      using runs_not_first [OF p ne(1)] start_not [OF ne(2)] by auto
    have es: "\<forall>e\<in>set args. reads_expr stod e (tk e)" using assms by simp
    have one: "runs (\<lambda>f n. comma_list n (parseExpr stod (n - 1)) p) ((RPAREN, '')'') # rest) (list_all2 same args)"
      by (rule readsD [OF reads_exprs_below [OF es False] p]) (simp_all add: stops_tokens)
    have "runs (\<lambda>f n. andThen (comma_list n (parseExpr stod (n - 1)) p) (\<lambda>xs q.
        andThen (expect RPAREN (''Expected '' @ quoted '')'') q) (\<lambda>_ q.
        Parsed (FunctionCall l' c' name xs False []) q))) rest (same (FunctionCall l c name args False []))"
      by (rule runs_then [OF one], rule runs_close [OF _ rest]) (use same_list in auto)
    then show ?thesis
      by (rule runs_eq) (simp only: call_rest_def Let_def t simp_thms if_True if_False)
  qed
qed

section \<open>Optional clauses and lists\<close>

text \<open>An expression parser, with whatever fuel, that reads \<open>e\<close> from \<open>ts\<close>.\<close>

definition reads_with :: "(nat \<Rightarrow> parser \<Rightarrow> ast parsed) \<Rightarrow> ast \<Rightarrow> pairs \<Rightarrow> bool" where
  "reads_with expr e ts \<longleftrightarrow> reads (\<lambda>f n. expr n) (same e) (stops 0) ts"

lemma reads_with_below: "reads_expr stod e ts \<Longrightarrow> reads_with (\<lambda>n. parseExpr stod (n - 1)) e ts"
  unfolding reads_expr_def reads_with_def by (rule reads_pred)

lemma reads_with_same: "reads_expr stod e ts \<Longrightarrow> reads_with (parseExpr stod) e ts"
  unfolding reads_expr_def reads_with_def .

lemma runs_with:
  "reads_with expr e ts \<Longrightarrow> ahead p (ts @ rest) \<Longrightarrow> rest \<noteq> [] \<Longrightarrow> stops 0 (fst (hd rest)) \<Longrightarrow>
   runs (\<lambda>f n. expr n p) rest (same e)"
  unfolding reads_with_def by (rule readsD)

lemma runs_optional:
  assumes e: "\<forall>x\<in>set_option e. reads_with expr x (tk x)"
    and p: "ahead p (clause (t, w) (map_option tk e) @ rest)"
    and rest: "rest \<noteq> []" "stops 0 (fst (hd rest))" "fst (hd rest) \<noteq> t"
  shows "runs (\<lambda>f n. optional t (expr n) p) rest (rel_option same e)"
proof (cases e)
  case None
  then have a: "ahead p rest" using p by (simp add: clause_def)
  have no: "\<not> check t p" using next_is [OF a rest(1)] rest(3) by simp
  show ?thesis unfolding optional_def if_not_P [OF no] by (rule runs_done [OF _ a]) (simp add: None)
next
  case (Some x)
  then have a: "ahead p ((t, w) # tk x @ rest)" using p by (simp add: clause_def)
  have s: "ahead (Parser.skip p) (tk x @ rest)" using ahead_skip [OF a] rest(1) by simp
  have yes: "check t p" by (simp add: ahead_check [OF a])
  have one: "runs (\<lambda>f n. expr n (Parser.skip p)) rest (same x)"
    by (rule runs_with [OF _ s rest(1,2)]) (use e Some in simp)
  show ?thesis unfolding optional_def if_P [OF yes]
    by (rule runs_then [OF one], rule runs_done) (simp_all add: Some)
qed

lemma runs_optional_list:
  assumes xs: "xs \<noteq> [] \<Longrightarrow> reads (\<lambda>f n. g n) (list_all2 R xs) stop (commas (map tk xs))"
    and p: "ahead p (list_clause (t, w) (map tk xs) @ rest)"
    and rest: "rest \<noteq> []" "stop (fst (hd rest))" "fst (hd rest) \<noteq> t"
  shows "runs (\<lambda>f n. optional_list t (g n) p) rest (list_all2 R xs)"
proof (cases "xs = []")
  case True
  then have a: "ahead p rest" using p by (simp add: list_clause_def)
  have no: "\<not> check t p" using next_is [OF a rest(1)] rest(3) by simp
  show ?thesis unfolding optional_list_def if_not_P [OF no] by (rule runs_done [OF _ a]) (simp add: True)
next
  case False
  then have a: "ahead p ((t, w) # commas (map tk xs) @ rest)" using p by (simp add: list_clause_def)
  have s: "ahead (Parser.skip p) (commas (map tk xs) @ rest)" using ahead_skip [OF a] rest(1) by simp
  have yes: "check t p" by (simp add: ahead_check [OF a])
  show ?thesis unfolding optional_list_def if_P [OF yes]
    by (rule readsD [OF xs [OF False] s rest(1,2)])
qed

lemma reads_with_list:
  assumes "\<forall>e\<in>set es. reads_with expr e (tk e)" "es \<noteq> []"
  shows "reads (\<lambda>f n. parseColumnList n (expr n)) (list_all2 same es) (\<lambda>t. stops 0 t \<and> t \<noteq> COMMA) (commas (map tk es))"
  unfolding parseColumnList_def
  by (rule reads_comma_list) (use assms in \<open>simp_all add: reads_with_def stops_tokens\<close>)

definition same_order :: "ast order_item \<Rightarrow> ast order_item \<Rightarrow> bool" where
  "same_order o1 o2 \<longleftrightarrow> map_order_item erase o2 = map_order_item erase o1"

definition ordering_ends :: "token_type \<Rightarrow> bool" where
  "ordering_ends t \<longleftrightarrow> stops 0 t \<and> t \<notin> {UP_ONLY, DOWN_BAD}"

lemma reads_order_item:
  assumes e: "reads_with expr (oi_expr item) (tk (oi_expr item))"
  shows "reads (\<lambda>f n. parse_order_item (expr n)) (same_order item) ordering_ends (order_toks (map_order_item tk item))"
proof (rule readsI)
  fix p rest
  assume p: "ahead p (order_toks (map_order_item tk item) @ rest)" and rest: "rest \<noteq> []" "ordering_ends (fst (hd rest))"
  obtain x asc where item: "item = OrderItem x asc" by (cases item)
  let ?down = "if asc then [] else [(DOWN_BAD, ''down-bad'')]"
  have a: "ahead p (tk x @ ?down @ rest)" using p item by simp
  have ne: "?down @ rest \<noteq> []" "stops 0 (fst (hd (?down @ rest)))"
    using rest by (simp_all add: ordering_ends_def stops_tokens)
  have one: "runs (\<lambda>f n. expr n p) (?down @ rest) (same x)"
    by (rule runs_with [OF _ a ne]) (use e item in simp)
  show "runs (\<lambda>f n. parse_order_item (expr n) p) rest (same_order item)"
    unfolding parse_order_item_def
  proof (rule runs_then [OF one])
    fix y q assume y: "same x y" and q: "ahead q (?down @ rest)"
    show "runs (\<lambda>f n. if check DOWN_BAD q then Parsed (OrderItem y False) (Parser.skip q)
        else andThen (match UP_ONLY q) (\<lambda>_ q. Parsed (OrderItem y True) q)) rest (same_order item)"
    proof (cases asc)
      case True
      then have q': "ahead q rest" using q by simp
      have no: "check DOWN_BAD q = False" "check UP_ONLY q = False"
        using next_is [OF q' rest(1)] rest(2) by (auto simp: ordering_ends_def)
      show ?thesis unfolding match_def no if_False andThen_simps
        by (rule runs_done [OF _ q']) (use True y item in \<open>simp add: same_order_def\<close>)
    next
      case False
      then have q': "ahead q ((DOWN_BAD, ''down-bad'') # rest)" using q by simp
      have yes: "check DOWN_BAD q" by (simp add: ahead_check [OF q'])
      show ?thesis unfolding if_P [OF yes]
        by (rule runs_done [OF _ ahead_skip [OF q' rest(1)]]) (use False y item in \<open>simp add: same_order_def\<close>)
    qed
  qed
qed

lemma reads_order_list:
  assumes "\<forall>item\<in>set items. reads_with expr (oi_expr item) (tk (oi_expr item))" "items \<noteq> []"
  shows "reads (\<lambda>f n. parseOrderList n (expr n)) (list_all2 same_order items) (\<lambda>t. ordering_ends t \<and> t \<noteq> COMMA)
    (commas (map (\<lambda>item. order_toks (map_order_item tk item)) items))"
  unfolding parseOrderList_def
proof (rule reads_comma_list [where item = "\<lambda>n. parse_order_item (expr n)"])
  show "\<forall>x\<in>set items. reads (\<lambda>f n. parse_order_item (expr n)) (same_order x) ordering_ends (order_toks (map_order_item tk x))"
    using assms(1) reads_order_item by blast
qed (simp_all add: assms(2) ordering_ends_def stops_tokens)

section \<open>Windows\<close>

lemma runs_era:
  assumes parts: "\<forall>e\<in>set parts. reads_with expr e (tk e)"
    and orders: "\<forall>item\<in>set orders. reads_with expr (oi_expr item) (tk (oi_expr item))" "orders \<noteq> []"
    and p: "ahead p (list_clause (SPLIT_BY, ''split-by'') (map tk parts) @ [(HITS_DIFFERENT, ''hits-different'')] @
      commas (map (\<lambda>item. order_toks (map_order_item tk item)) orders) @ rest)"
    and rest: "rest \<noteq> []" "ordering_ends (fst (hd rest))" "fst (hd rest) \<noteq> COMMA"
  shows "runs (\<lambda>f n. parseEraExpr n (expr n) l c p) rest (same (WindowFunc a b ''RANK'' parts orders []))"
  unfolding parseEraExpr_def
proof (rule runs_then)
  let ?orders = "commas (map (\<lambda>item. order_toks (map_order_item tk item)) orders)"
  let ?r1 = "(HITS_DIFFERENT, ''hits-different'') # ?orders @ rest"
  show "runs (\<lambda>f n. optional_list SPLIT_BY (parseColumnList n (expr n)) p) ?r1 (list_all2 same parts)"
    by (rule runs_optional_list [where tk = tk and stop = "\<lambda>t. stops 0 t \<and> t \<noteq> COMMA"])
      (use reads_with_list [OF parts] p in \<open>simp_all add: stops_tokens\<close>)
  fix ps q assume ps: "list_all2 same parts ps" and q: "ahead q ?r1"
  show "runs (\<lambda>f n. andThen (expect HITS_DIFFERENT
      (''Expected '' @ quoted ''hits-different'' @ '' (ORDER BY) in era expression'') q) (\<lambda>_ p.
      andThen (parseOrderList n (expr n) p) (\<lambda>orders p. Parsed (WindowFunc l c ''RANK'' ps orders []) p)))
      rest (same (WindowFunc a b ''RANK'' parts orders []))"
  proof (rule runs_then [OF runs_expect [OF q]])
    show "?orders @ rest \<noteq> []" using rest by simp
    fix x q' assume q': "ahead q' (?orders @ rest)"
    have one: "runs (\<lambda>f n. parseOrderList n (expr n) q') rest (list_all2 same_order orders)"
      by (rule readsD [OF reads_order_list [OF orders] q' rest(1)]) (use rest in simp)
    show "runs (\<lambda>f n. andThen (parseOrderList n (expr n) q') (\<lambda>orders p.
        Parsed (WindowFunc l c ''RANK'' ps orders []) p)) rest (same (WindowFunc a b ''RANK'' parts orders []))"
    proof (rule runs_then [OF one], rule runs_done)
      fix os assume "list_all2 same_order orders os"
      then have "map (map_order_item erase) os = map (map_order_item erase) orders"
        by (induction rule: list_all2_induct) (simp_all add: same_order_def)
      then show "same (WindowFunc a b ''RANK'' parts orders []) (WindowFunc l c ''RANK'' ps os [])"
        using same_list [OF ps] by simp
    qed
  qed
qed

lemma runs_expr_at:
  assumes "runs (\<lambda>f n. level stod 7 f n p) rest ok" "rest \<noteq> []" "stops 0 (fst (hd rest))"
    "\<not> check NO_CAP_NOT p" "\<not> check MINUS p"
  shows "runs (\<lambda>f n. parseExpr stod (n - 1) p) rest ok"
proof -
  have "runs (\<lambda>f n. level stod 0 f n p) rest ok"
    by (rule down_many [OF assms(1-3)]) (use assms(4,5) in simp_all)
  then obtain x q N where r: "ok x" "ahead q rest" "\<forall>f n. N \<le> f \<longrightarrow> N \<le> n \<longrightarrow> level stod 0 f n p = Parsed x q"
    unfolding runs_def by blast
  have "parseExpr stod (n - 1) p = Parsed x q" if "Suc (Suc N) \<le> n" for n
  proof -
    define k where "k = n - 2"
    have "n - 1 = Suc k" "N \<le> Suc k" using that by (simp_all add: k_def)
    then show ?thesis using r(3) by (simp only: parseExpr_level)
  qed
  then show ?thesis using r(1,2) unfolding runs_def by blast
qed

text \<open>A parenthesised expression whose text is only followed by the parenthesis.\<close>

lemma primary_parensI:
  assumes "\<And>p rest. ahead p (ts @ (RPAREN, '')'') # rest) \<Longrightarrow>
      runs (\<lambda>f n. if check SLAY p then parseSelect n (parseExpr stod (n - 1)) p else parseExpr stod (n - 1) p)
        ((RPAREN, '')'') # rest) (same e)"
  shows "at_level stod 7 e (parens ts)"
proof (rule at_primaryI)
  fix p rest assume p: "ahead p (parens ts @ rest)" and rest: "rest \<noteq> []"
  have a: "ahead p ((LPAREN, ''('') # ts @ (RPAREN, '')'') # rest)" using p by (simp add: parens_def)
  have s: "ahead (Parser.skip p) (ts @ (RPAREN, '')'') # rest)" using ahead_skip [OF a] by simp
  let ?q = "Parser.skip p"
  have "runs (\<lambda>f n. andThen (if check SLAY ?q then parseSelect n (parseExpr stod (n - 1)) ?q else parseExpr stod (n - 1) ?q)
      (\<lambda>x q. andThen (expect RPAREN (''Expected '' @ quoted '')'') q) (\<lambda>_ q. Parsed x q))) rest (same e)"
    by (rule runs_then [OF assms [OF s]], rule runs_close [OF _ rest]) simp_all
  then show "runs (\<lambda>f n. parsePrimaryExpr stod n (parseExpr stod (n - 1)) p) rest (same e)"
    by (rule runs_eq) (use ahead_current [OF a] in \<open>simp add: parsePrimaryExpr_def Let_def\<close>)
qed

lemma primary_window:
  assumes parts: "\<forall>e\<in>set parts. reads_expr stod e (tk e)"
    and orders: "\<forall>item\<in>set orders. reads_expr stod (oi_expr item) (tk (oi_expr item))" "orders \<noteq> []"
  shows "at_level stod 7 (WindowFunc l c ''RANK'' parts orders [])
    (parens ([(ERA, ''era'')] @ list_clause (SPLIT_BY, ''split-by'') (map tk parts) @ [(HITS_DIFFERENT, ''hits-different'')] @
      commas (map (\<lambda>item. order_toks (map_order_item tk item)) orders)))"
proof (rule primary_parensI)
  let ?orders = "commas (map (\<lambda>item. order_toks (map_order_item tk item)) orders)"
  let ?ts = "list_clause (SPLIT_BY, ''split-by'') (map tk parts) @ [(HITS_DIFFERENT, ''hits-different'')] @ ?orders"
  let ?e = "WindowFunc l c ''RANK'' parts orders []"
  fix p rest assume "ahead p (([(ERA, ''era'')] @ ?ts) @ (RPAREN, '')'') # rest)"
  then have a: "ahead p ((ERA, ''era'') # ?ts @ (RPAREN, '')'') # rest)" by simp
  have s: "ahead (Parser.skip p) (list_clause (SPLIT_BY, ''split-by'') (map tk parts) @
      [(HITS_DIFFERENT, ''hits-different'')] @ ?orders @ (RPAREN, '')'') # rest)"
    using ahead_skip [OF a] by simp
  have no: "\<not> check SLAY p" "\<not> check NO_CAP_NOT p" "\<not> check MINUS p" by (simp_all add: ahead_check [OF a])
  have below: "\<forall>e\<in>set parts. reads_with (\<lambda>n. parseExpr stod (n - 1)) e (tk e)"
    "\<forall>item\<in>set orders. reads_with (\<lambda>n. parseExpr stod (n - 1)) (oi_expr item) (tk (oi_expr item))"
    using parts orders(1) reads_with_below by blast+
  have "runs (\<lambda>f n. parseEraExpr n (parseExpr stod (n - 1)) (tline (current p)) (tcol (current p)) (Parser.skip p))
      ((RPAREN, '')'') # rest) (same ?e)"
    by (rule runs_era [where expr = "\<lambda>n. parseExpr stod (n - 1)", OF below orders(2) s])
      (simp_all add: ordering_ends_def stops_tokens)
  then have "runs (\<lambda>f n. level stod 7 f n p) ((RPAREN, '')'') # rest) (same ?e)"
    by (rule runs_eq) (simp add: level_def prim_def primary_dispatch(3) [OF a])
  then have "runs (\<lambda>f n. parseExpr stod (n - 1) p) ((RPAREN, '')'') # rest) (same ?e)"
    by (rule runs_expr_at) (simp_all add: stops_tokens no)
  then show "runs (\<lambda>f n. if check SLAY p then parseSelect n (parseExpr stod (n - 1)) p else parseExpr stod (n - 1) p)
      ((RPAREN, '')'') # rest) (same ?e)"
    by (simp add: no)
qed

end
