(* ===== verification/Query_Roundtrip.thy ===== *)
theory Query_Roundtrip
  imports Parser_Roundtrip
begin

text \<open>
  Reading whole queries: the optional clauses of \<open>parseSelect\<close> in their order, joins, aliases
  and select lists on top of the expressions of \<open>Parser_Roundtrip\<close>; then the induction over
  trees that shows every writable expression and query is read back, through the lexer as
  well.
\<close>

section \<open>Queries\<close>

text \<open>The keywords that may follow a table, in the order of the grammar; a suffix may follow a clause.\<close>

definition clause_order :: "token_type list" where
  "clause_order = [LEFT_LINK_UP, LINK_UP, ONLY_IF, VIBE_CHECK, BUSSIN_ONLY, HITS_DIFFERENT, CAP_AT, SKIP,
     RPAREN, SEMICOLON, EOF_TOKEN]"

definition later :: "nat \<Rightarrow> pairs \<Rightarrow> bool" where
  "later j rest \<longleftrightarrow> rest \<noteq> [] \<and> fst (hd rest) \<in> set (drop j clause_order)"

lemma later_weaken: "later k rest \<Longrightarrow> j \<le> k \<Longrightarrow> later j rest"
  using set_drop_subset_set_drop [of j k clause_order] by (auto simp: later_def)

lemma later_cons: "j < length clause_order \<Longrightarrow> clause_order ! j = t \<Longrightarrow> later j ((t, v) # ts)"
  by (auto simp: later_def Cons_nth_drop_Suc [symmetric])

lemma later_clause:
  assumes "later (Suc j) rest" "j < length clause_order" "clause_order ! j = t"
  shows "later j (clause (t, w) ts @ rest)" "later j (list_clause (t, w) tss @ rest)"
  using later_weaken [OF assms(1), of j] later_cons [OF assms(2,3)]
  by (auto simp: clause_def list_clause_def split: option.splits)

lemma later_facts:
  assumes "later 0 rest"
  shows "rest \<noteq> []" "stops 0 (fst (hd rest))" "fst (hd rest) \<noteq> LOWKEY" "fst (hd rest) \<noteq> COMMA"
    "ordering_ends (fst (hd rest))"
  using assms by (auto simp: later_def clause_order_def ordering_ends_def stops_tokens)

lemma distinct_clause_order: "distinct clause_order"
  by (simp add: clause_order_def)

lemma later_not: "later k rest \<Longrightarrow> j < k \<Longrightarrow> k \<le> length clause_order \<Longrightarrow> fst (hd rest) \<noteq> clause_order ! j"
  using distinct_clause_order
  by (auto simp: later_def in_set_conv_nth distinct_conv_nth)

lemma runs_table:
  assumes p: "ahead p ((IDENTIFIER, table) # alias_toks al @ rest)" and rest: "rest \<noteq> []" "fst (hd rest) \<noteq> LOWKEY"
  shows "runs (\<lambda>f n. parseTableRef p) rest (\<lambda>x. x = (table, al))"
  unfolding parseTableRef_def
proof (rule runs_then [OF runs_expect [OF p]])
  show "alias_toks al @ rest \<noteq> []" using rest by simp
  fix tok q assume tok: "ttype tok = IDENTIFIER \<and> tvalue tok = table" and q: "ahead q (alias_toks al @ rest)"
  show "runs (\<lambda>f n. if check LOWKEY q then andThen (expect IDENTIFIER ''Expected alias name'' (Parser.skip q))
      (\<lambda>alias p. Parsed (tvalue tok, tvalue alias) p) else Parsed (tvalue tok, []) q) rest (\<lambda>x. x = (table, al))"
  proof (cases "al = []")
    case True
    then have q': "ahead q rest" using q by (simp add: alias_toks_def)
    have no: "\<not> check LOWKEY q" using next_is [OF q' rest(1)] rest(2) by simp
    show ?thesis unfolding if_not_P [OF no] by (rule runs_done [OF _ q']) (simp add: True tok)
  next
    case False
    then have q': "ahead q ((LOWKEY, ''lowkey'') # (IDENTIFIER, al) # rest)" using q by (simp add: alias_toks_def)
    have s: "ahead (Parser.skip q) ((IDENTIFIER, al) # rest)" using ahead_skip [OF q'] by simp
    have yes: "check LOWKEY q" by (simp add: ahead_check [OF q'])
    show ?thesis unfolding if_P [OF yes]
      by (rule runs_then [OF runs_expect [OF s rest(1)]], rule runs_done) (simp_all add: tok)
  qed
qed

definition same_join :: "ast join_clause \<Rightarrow> ast join_clause \<Rightarrow> bool" where
  "same_join j j' \<longleftrightarrow> map_join_clause erase j' = map_join_clause erase j"

definition join_after :: "(parser \<Rightarrow> ast parsed) \<Rightarrow> join_type \<Rightarrow> parser \<Rightarrow> ast join_clause parsed" where
  "join_after expr kind p =
     andThen (parseTableRef p) (\<lambda>(table, alias) p.
     andThen (expect FR_FR (''Expected '' @ quoted ''fr-fr'' @ '' (ON)'') p) (\<lambda>_ p.
     andThen (expr p) (\<lambda>condition p.
     Parsed (JoinClause kind table alias (Some condition)) p)))"

lemma runs_join_after:
  assumes e: "reads_with expr e ts"
    and p: "ahead p ((IDENTIFIER, table) # alias_toks al @ (FR_FR, ''fr-fr'') # ts @ rest)" and rest: "later 0 rest"
  shows "runs (\<lambda>f n. join_after (expr n) kind p) rest (same_join (JoinClause kind table al (Some e)))"
  unfolding join_after_def
proof (rule runs_then [OF runs_table [OF p]])
  note lf = later_facts [OF rest]
  fix x q assume x: "x = (table, al)" and q: "ahead q ((FR_FR, ''fr-fr'') # ts @ rest)"
  show "runs (\<lambda>f n. (case x of (table, alias) \<Rightarrow> \<lambda>p.
      andThen (expect FR_FR (''Expected '' @ quoted ''fr-fr'' @ '' (ON)'') p) (\<lambda>_ p.
      andThen (expr n p) (\<lambda>condition p. Parsed (JoinClause kind table alias (Some condition)) p))) q) rest
      (same_join (JoinClause kind table al (Some e)))"
    unfolding x prod.case
  proof (rule runs_then [OF runs_expect [OF q]])
    show "ts @ rest \<noteq> []" using lf by simp
    fix tok q' assume q': "ahead q' (ts @ rest)"
    show "runs (\<lambda>f n. andThen (expr n q') (\<lambda>condition p. Parsed (JoinClause kind table al (Some condition)) p)) rest
        (same_join (JoinClause kind table al (Some e)))"
      by (rule runs_then [OF runs_with [OF e q' lf(1,2)]], rule runs_done) (simp_all add: same_join_def)
  qed
qed simp_all

lemma runs_join:
  assumes e: "reads_with expr e (tk e)" and kind: "kind \<noteq> CROSS"
    and p: "ahead p (join_toks (map_join_clause tk (JoinClause kind table al (Some e))) @ rest)" and rest: "later 0 rest"
  shows "runs (\<lambda>f n. parseJoin (expr n) p) rest (same_join (JoinClause kind table al (Some e)))"
proof (cases "kind = LEFT")
  case True
  then have a: "ahead p ((LEFT_LINK_UP, ''left-link-up'') # (IDENTIFIER, table) # alias_toks al @ (FR_FR, ''fr-fr'') # tk e @ rest)"
    using p by simp
  have s: "ahead (Parser.skip p) ((IDENTIFIER, table) # alias_toks al @ (FR_FR, ''fr-fr'') # tk e @ rest)"
    using ahead_skip [OF a] by simp
  have yes: "check LEFT_LINK_UP p = True" by (simp add: ahead_check [OF a])
  show ?thesis
    by (rule runs_eq [OF runs_join_after [OF e s rest, of kind]])
      (simp only: True parseJoin_def join_after_def Let_def yes if_True)
next
  case False
  then have kind: "kind = INNER" using kind by (cases kind) simp_all
  have a: "ahead p ((LINK_UP, ''link-up'') # (IDENTIFIER, table) # alias_toks al @ (FR_FR, ''fr-fr'') # tk e @ rest)"
    using p False by simp
  have no: "check LEFT_LINK_UP p = False" "check MID_LINK_UP p = False" by (simp_all add: ahead_check [OF a])
  have "runs (\<lambda>f n. andThen (expect LINK_UP ''Expected join keyword'' p) (\<lambda>_ q. join_after (expr n) INNER q)) rest
      (same_join (JoinClause kind table al (Some e)))"
    by (rule runs_then [OF runs_expect [OF a]]) (use runs_join_after [OF e _ rest] kind in simp_all)
  then show ?thesis
    by (rule runs_eq) (simp only: parseJoin_def join_after_def Let_def no if_False)
qed

definition readable_join :: "(nat \<Rightarrow> parser \<Rightarrow> ast parsed) \<Rightarrow> (ast \<Rightarrow> pairs) \<Rightarrow> ast join_clause \<Rightarrow> bool" where
  "readable_join expr tk j \<longleftrightarrow> jc_type j \<noteq> CROSS \<and> (\<exists>e. jc_condition j = Some e \<and> reads_with expr e (tk e))"

abbreviation joins_toks :: "(ast \<Rightarrow> pairs) \<Rightarrow> ast join_clause list \<Rightarrow> pairs" where
  "joins_toks tk joins \<equiv> concat (map (\<lambda>j. join_toks (map_join_clause tk j)) joins)"

lemma later_joins: "later 2 rest \<Longrightarrow> later 0 (joins_toks tk joins @ rest)"
proof (cases joins)
  case Nil
  then show "later 2 rest \<Longrightarrow> ?thesis" using later_weaken [of 2 rest 0] by simp
next
  case (Cons j js)
  then show ?thesis by (cases j) (auto simp: later_def clause_order_def)
qed

lemma runs_joins:
  assumes rest: "later 2 rest"
  shows "\<forall>j\<in>set joins. readable_join expr tk j \<Longrightarrow> ahead p (joins_toks tk joins @ rest) \<Longrightarrow>
    runs (\<lambda>f n. join_loop f (expr n) p) rest (list_all2 same_join joins)"
proof (induction joins arbitrary: p)
  case Nil
  then have a: "ahead p rest" by simp
  have "fst (hd rest) \<notin> set [LINK_UP, LEFT_LINK_UP, MID_LINK_UP]"
    using rest by (auto simp: later_def clause_order_def)
  then have no: "\<not> checkAny [LINK_UP, LEFT_LINK_UP, MID_LINK_UP] p"
    using not_any [OF a] rest by (simp add: later_def)
  have none: "runs (\<lambda>f n. Parsed [] p) rest (list_all2 same_join [])" using a by (simp add: runs_done)
  show ?case by (rule runs_Suc [OF none]) (simp add: no)
next
  case (Cons j js)
  obtain kind table al c where j: "j = JoinClause kind table al c" by (cases j)
  obtain e where e: "c = Some e" "reads_with expr e (tk e)" and kind: "kind \<noteq> CROSS"
    using Cons.prems(1) j by (auto simp: readable_join_def)
  define after where "after = joins_toks tk js @ rest"
  have a: "ahead p (join_toks (map_join_clause tk (JoinClause kind table al (Some e))) @ after)"
    using Cons.prems(2) j e(1) by (simp add: after_def)
  have la: "later 0 after" using later_joins [OF rest] by (simp add: after_def)
  have one: "runs (\<lambda>f n. parseJoin (expr n) p) after (same_join j)"
    using runs_join [OF e(2) kind a la] j e(1) by simp
  have head: "fst (hd (join_toks (map_join_clause tk (JoinClause kind table al (Some e))) @ after)) \<in>
      set [LINK_UP, LEFT_LINK_UP, MID_LINK_UP]"
    by simp
  have any: "checkAny [LINK_UP, LEFT_LINK_UP, MID_LINK_UP] p"
    using a by (auto simp: ahead_check split: if_splits)
  have "runs (\<lambda>f n. andThen (parseJoin (expr n) p) (\<lambda>j p.
      andThen (join_loop f (expr n) p) (\<lambda>js p. Parsed (j # js) p))) rest (list_all2 same_join (j # js))"
  proof (rule runs_then [OF one])
    fix y q assume y: "same_join j y" and q: "ahead q after"
    have "runs (\<lambda>f n. join_loop f (expr n) q) rest (list_all2 same_join js)"
      using Cons.IH [of q] Cons.prems(1) q by (simp add: after_def)
    then show "runs (\<lambda>f n. andThen (join_loop f (expr n) q) (\<lambda>js p. Parsed (y # js) p)) rest
        (list_all2 same_join (j # js))"
      using y by (rule runs_cons)
  qed
  then show ?case by (rule runs_Suc) (simp add: any)
qed

text \<open>Select items: the alias is read after the expression and attached to it.\<close>

lemma erase_attach: "erase (attach_alias a e) = attach_alias a (erase e)"
  by (cases e) (simp_all add: attach_alias_def)

lemma attach_attach: "attach_alias a (attach_alias b e) = attach_alias a e"
  by (cases e) (simp_all add: attach_alias_def)

lemma attach_own: "attach_alias (alias_of e) e = e"
  by (cases e) (simp_all add: attach_alias_def alias_of_def)

lemma same_attach: "same (attach_alias [] e) e' \<Longrightarrow> same e (attach_alias (alias_of e) e')"
  by (metis attach_attach attach_own erase_attach)

lemma reads_select_item:
  assumes e: "reads_with expr (attach_alias [] e) ts"
  shows "reads (\<lambda>f n. parseSelectItem (expr n)) (same e) (\<lambda>t. stops 0 t \<and> t \<noteq> LOWKEY) (ts @ alias_toks (alias_of e))"
proof (rule readsI)
  fix p rest
  assume "ahead p ((ts @ alias_toks (alias_of e)) @ rest)"
    and rest: "rest \<noteq> []" "stops 0 (fst (hd rest)) \<and> fst (hd rest) \<noteq> LOWKEY"
  then have p: "ahead p (ts @ alias_toks (alias_of e) @ rest)" by simp
  have ne: "alias_toks (alias_of e) @ rest \<noteq> []" "stops 0 (fst (hd (alias_toks (alias_of e) @ rest)))"
    using rest by (simp_all add: alias_toks_def stops_tokens)
  show "runs (\<lambda>f n. parseSelectItem (expr n) p) rest (same e)"
    unfolding parseSelectItem_def
  proof (rule runs_then [OF runs_with [OF e p ne]])
    fix x q assume x: "same (attach_alias [] e) x" and q: "ahead q (alias_toks (alias_of e) @ rest)"
    show "runs (\<lambda>f n. if check LOWKEY q then andThen (expect IDENTIFIER ''Expected alias name'' (Parser.skip q))
        (\<lambda>alias p. Parsed (attach_alias (tvalue alias) x) p) else Parsed x q) rest (same e)"
    proof (cases "alias_of e = []")
      case True
      then have q': "ahead q rest" using q by (simp add: alias_toks_def)
      have no: "\<not> check LOWKEY q" using next_is [OF q' rest(1)] rest(2) by simp
      have "attach_alias [] e = e" using attach_own [of e] True by simp
      then show ?thesis unfolding if_not_P [OF no] by (intro runs_done [OF _ q']) (use x in simp)
    next
      case False
      then have q': "ahead q ((LOWKEY, ''lowkey'') # (IDENTIFIER, alias_of e) # rest)" using q by (simp add: alias_toks_def)
      have s: "ahead (Parser.skip q) ((IDENTIFIER, alias_of e) # rest)" using ahead_skip [OF q'] by simp
      have yes: "check LOWKEY q" by (simp add: ahead_check [OF q'])
      show ?thesis unfolding if_P [OF yes]
        by (rule runs_then [OF runs_expect [OF s rest(1)]], rule runs_done) (use same_attach [OF x] in simp_all)
    qed
  qed
qed

abbreviation column_toks :: "(ast \<Rightarrow> pairs) \<Rightarrow> ast \<Rightarrow> pairs" where
  "column_toks tk e \<equiv> tk e @ alias_toks (alias_of e)"

definition readable_columns :: "(nat \<Rightarrow> parser \<Rightarrow> ast parsed) \<Rightarrow> (ast \<Rightarrow> pairs) \<Rightarrow> ast list \<Rightarrow> bool" where
  "readable_columns expr tk cols \<longleftrightarrow> cols \<noteq> [] \<and>
     ((\<forall>e\<in>set cols. reads_with expr (attach_alias [] e) (tk e) \<and> tk e \<noteq> [] \<and> fst (hd (tk e)) \<in> set start_tokens) \<or>
      (\<exists>e. cols = [e] \<and> plain_star e \<and> tk e = [(STAR, ''*'')]))"

lemma columns_head:
  assumes "readable_columns expr tk cols"
  shows "commas (map (column_toks tk) cols) \<noteq> []"
    "fst (hd (commas (map (column_toks tk) cols))) \<in> set (STAR # start_tokens)"
proof -
  have h: "cols \<noteq> []" "tk (hd cols) \<noteq> []" "fst (hd (tk (hd cols))) \<in> set (STAR # start_tokens)"
    using assms by (auto simp: readable_columns_def)
  show "commas (map (column_toks tk) cols) \<noteq> []"
    "fst (hd (commas (map (column_toks tk) cols))) \<in> set (STAR # start_tokens)"
    using commas_head [of cols "column_toks tk"] h by simp_all
qed

lemma runs_select_list:
  assumes cols: "readable_columns expr tk cols"
    and p: "ahead p (commas (map (column_toks tk) cols) @ (NO_CAP, w) # rest)"
  shows "runs (\<lambda>f n. parseSelectList n (expr n) p) ((NO_CAP, w) # rest) (list_all2 same cols)"
proof (cases "\<exists>e. cols = [e] \<and> plain_star e \<and> tk e = [(STAR, ''*'')]")
  case True
  then obtain e l c where e: "cols = [e]" "e = Wildcard l c [] []" "tk e = [(STAR, ''*'')]"
    by (auto simp: plain_star_def)
  then have a: "ahead p ((STAR, ''*'') # (NO_CAP, w) # rest)"
    using p by (simp add: alias_of_def alias_toks_def)
  have star: "check STAR p" by (simp add: ahead_check [OF a])
  show ?thesis unfolding parseSelectList_def if_P [OF star]
    by (rule runs_done [OF _ ahead_skip [OF a]]) (simp_all add: e(1,2))
next
  case False
  then have items: "\<forall>e\<in>set cols. reads_with expr (attach_alias [] e) (tk e)" and ne: "cols \<noteq> []"
    and "fst (hd (tk (hd cols))) \<in> set start_tokens" "tk (hd cols) \<noteq> []"
    using cols by (auto simp: readable_columns_def)
  then have head: "fst (hd (commas (map (column_toks tk) cols))) \<in> set start_tokens"
    using commas_head [of cols "column_toks tk"] by simp
  have no: "\<not> check STAR p"
    by (rule runs_not_first [OF p columns_head(1) [OF cols]]) (use start_not [OF head] in simp)
  have "reads (\<lambda>f n. comma_list n (parseSelectItem (expr n))) (list_all2 same cols)
      (\<lambda>t. (stops 0 t \<and> t \<noteq> LOWKEY) \<and> t \<noteq> COMMA) (commas (map (column_toks tk) cols))"
    by (rule reads_comma_list [where item = "\<lambda>n. parseSelectItem (expr n)"])
      (use items reads_select_item ne in \<open>auto simp: stops_tokens\<close>)
  then show ?thesis unfolding parseSelectList_def if_not_P [OF no]
    by (rule readsD [OF _ p]) (simp_all add: stops_tokens)
qed

lemma runs_match:
  assumes p: "ahead p ((if flag then [(t, w)] else []) @ rest)" and rest: "rest \<noteq> []" "fst (hd rest) \<noteq> t"
  shows "runs (\<lambda>f n. match t p) rest (\<lambda>b. b = flag)"
proof (cases flag)
  case True
  then have a: "ahead p ((t, w) # rest)" using p by simp
  have yes: "check t p" by (simp add: ahead_check [OF a])
  show ?thesis unfolding match_def if_P [OF yes] by (rule runs_done [OF _ ahead_skip [OF a rest(1)]]) (simp add: True)
next
  case False
  then have a: "ahead p rest" using p by simp
  have no: "\<not> check t p" using next_is [OF a rest(1)] rest(2) by simp
  show ?thesis unfolding match_def if_not_P [OF no] by (rule runs_done [OF _ a]) (simp add: False)
qed

lemma runs_clause:
  assumes e: "\<forall>x\<in>set_option e. reads_with expr x (tk x)"
    and p: "ahead p (clause (t, w) (map_option tk e) @ rest)"
    and rest: "later (Suc j) rest" "j < length clause_order" "clause_order ! j = t"
  shows "runs (\<lambda>f n. optional t (expr n) p) rest (rel_option same e)"
  by (rule runs_optional [OF e p])
    (use later_facts [OF later_weaken [OF rest(1)]] later_not [OF rest(1), of j] rest(2,3) in simp_all)

lemma runs_list_clause:
  assumes xs: "xs \<noteq> [] \<Longrightarrow> reads (\<lambda>f n. g n) (list_all2 R xs) stop (commas (map tk xs))"
    and p: "ahead p (list_clause (t, w) (map tk xs) @ rest)"
    and rest: "later (Suc j) rest" "j < length clause_order" "clause_order ! j = t" "stop (fst (hd rest))"
  shows "runs (\<lambda>f n. optional_list t (g n) p) rest (list_all2 R xs)"
  by (rule runs_optional_list [OF xs p])
    (use later_facts [OF later_weaken [OF rest(1)]] later_not [OF rest(1), of j] rest(2-4) in simp_all)

lemma length_clause_order: "length clause_order = 11"
  by (simp add: clause_order_def)

lemma clause_order_nth:
  "clause_order ! 2 = ONLY_IF" "clause_order ! 3 = VIBE_CHECK" "clause_order ! 4 = BUSSIN_ONLY"
  "clause_order ! 5 = HITS_DIFFERENT" "clause_order ! 6 = CAP_AT" "clause_order ! 7 = SKIP"
  by (simp_all add: clause_order_def eval_nat_numeral)

text \<open>The suffixes of a query, from the clauses after the joins on.\<close>

definition clauses_from ::
    "nat \<Rightarrow> pairs option \<Rightarrow> pairs list \<Rightarrow> pairs option \<Rightarrow> pairs list \<Rightarrow> pairs option \<Rightarrow> pairs option \<Rightarrow> pairs \<Rightarrow> pairs" where
  "clauses_from k whr groups having orders lim off rest =
     (if k \<le> 2 then clause (ONLY_IF, ''only-if'') whr else []) @
     (if k \<le> 3 then list_clause (VIBE_CHECK, ''vibe-check'') groups else []) @
     (if k \<le> 4 then clause (BUSSIN_ONLY, ''bussin-only'') having else []) @
     (if k \<le> 5 then list_clause (HITS_DIFFERENT, ''hits-different'') orders else []) @
     (if k \<le> 6 then clause (CAP_AT, ''cap-at'') lim else []) @
     (if k \<le> 7 then clause (SKIP, ''skip'') off else []) @ rest"

lemma later_clauses_from:
  assumes "later 8 rest" "k \<in> {2, 3, 4, 5, 6, 7, 8}"
  shows "later k (clauses_from k whr groups having orders lim off rest)"
proof -
  note lc = later_clause [unfolded length_clause_order]
  let ?c = "\<lambda>k. clauses_from k whr groups having orders lim off rest"
  have 8: "later 8 (?c 8)" using assms(1) by (simp add: clauses_from_def)
  have 7: "later 7 (?c 7)" using lc(1) [of 7 "?c 8" SKIP] 8 clause_order_nth by (simp add: clauses_from_def)
  have 6: "later 6 (?c 6)" using lc(1) [of 6 "?c 7" CAP_AT] 7 clause_order_nth by (simp add: clauses_from_def)
  have 5: "later 5 (?c 5)" using lc(2) [of 5 "?c 6" HITS_DIFFERENT] 6 clause_order_nth by (simp add: clauses_from_def)
  have 4: "later 4 (?c 4)" using lc(1) [of 4 "?c 5" BUSSIN_ONLY] 5 clause_order_nth by (simp add: clauses_from_def)
  have 3: "later 3 (?c 3)" using lc(2) [of 3 "?c 4" VIBE_CHECK] 4 clause_order_nth by (simp add: clauses_from_def)
  have 2: "later 2 (?c 2)" using lc(1) [of 2 "?c 3" ONLY_IF] 3 clause_order_nth by (simp add: clauses_from_def)
  show ?thesis using assms(2) 2 3 4 5 6 7 8 by auto
qed

text \<open>What a query needs of its parts to be readable.\<close>

definition readable_query :: "(nat \<Rightarrow> parser \<Rightarrow> ast parsed) \<Rightarrow> (ast \<Rightarrow> pairs) \<Rightarrow> ast list \<Rightarrow> ast join_clause list \<Rightarrow>
    ast option \<Rightarrow> ast list \<Rightarrow> ast option \<Rightarrow> ast order_item list \<Rightarrow> ast option \<Rightarrow> ast option \<Rightarrow> bool" where
  "readable_query expr tk cols joins whr groups having orders lim off \<longleftrightarrow>
     readable_columns expr tk cols \<and> (\<forall>j\<in>set joins. readable_join expr tk j) \<and>
     (\<forall>e\<in>set_option whr \<union> set groups \<union> set_option having \<union> set_option lim \<union> set_option off. reads_with expr e (tk e)) \<and>
     (\<forall>item\<in>set orders. reads_with expr (oi_expr item) (tk (oi_expr item)))"

lemma same_option: "rel_option same e e' \<Longrightarrow> map_option erase e' = map_option erase e"
  by (cases e; cases e') simp_all

lemma same_orders: "list_all2 same_order os os' \<Longrightarrow> map (map_order_item erase) os' = map (map_order_item erase) os"
  by (induction rule: list_all2_induct) (simp_all add: same_order_def)

lemma same_joins: "list_all2 same_join js js' \<Longrightarrow> map (map_join_clause erase) js' = map (map_join_clause erase) js"
  by (induction rule: list_all2_induct) (simp_all add: same_join_def)

lemma same_select:
  assumes "list_all2 same cols cols'" "list_all2 same_join joins joins'"
    "rel_option same whr whr'" "list_all2 same groups groups'" "rel_option same having having'"
    "list_all2 same_order orders orders'" "rel_option same lim lim'" "rel_option same off off'"
  shows "same (SelectStmt l c dist cols table al joins whr groups having orders lim off)
    (SelectStmt l' c' dist cols' table al joins' whr' groups' having' orders' lim' off')"
  using assms by (simp add: same_list same_option same_orders same_joins)

lemma runs_select:
  assumes q: "readable_query expr tk cols joins whr groups having orders lim off"
    and p: "ahead p (query_parts dist (map (column_toks tk) cols) table al (map (map_join_clause tk) joins)
      (map_option tk whr) (map tk groups) (map_option tk having) (map (map_order_item tk) orders)
      (map_option tk lim) (map_option tk off) @ rest)"
    and rest: "later 8 rest"
  shows "runs (\<lambda>f n. parseSelect n (expr n) p) rest
    (same (SelectStmt l c dist cols table al joins whr groups having orders lim off))"
proof -
  let ?r = "\<lambda>k. clauses_from k (map_option tk whr) (map tk groups) (map_option tk having)
    (map order_toks (map (map_order_item tk) orders)) (map_option tk lim) (map_option tk off) rest"
  let ?cols = "commas (map (column_toks tk) cols)"
  let ?flag = "if dist then [(UNIQUE_FR, ''unique-fr'')] else []"
  let ?from = "(NO_CAP, ''no-cap'') # (IDENTIFIER, table) # alias_toks al @ joins_toks tk joins @ ?r 2"
  note q' = q [unfolded readable_query_def]
  have lt: "later k (?r k)" if "k \<in> {2, 3, 4, 5, 6, 7, 8}" for k by (rule later_clauses_from [OF rest that])
  have j0: "later 0 (joins_toks tk joins @ ?r 2)" using later_joins lt [of 2] by simp
  have start: "ahead p ((SLAY, ''slay'') # ?flag @ ?cols @ ?from)"
    using p by (simp add: query_parts_def clauses_from_def o_def)
  have cols: "readable_columns expr tk cols" using q' by blast
  have head: "?cols @ ?from \<noteq> []" "fst (hd (?cols @ ?from)) \<noteq> UNIQUE_FR"
    using columns_head [OF cols] start_not [of "fst (hd ?cols)"] by (auto simp: start_tokens_def aggregate_names_def)
  have r0: "runs (\<lambda>f n. match UNIQUE_FR p) (?cols @ ?from) (\<lambda>b. b = dist)"
    if "ahead p (?flag @ ?cols @ ?from)" for p by (rule runs_match [OF that head])
  have r1: "runs (\<lambda>f n. parseSelectList n (expr n) p) ?from (list_all2 same cols)"
    if "ahead p (?cols @ ?from)" for p by (rule runs_select_list [OF cols that])
  have r2: "runs (\<lambda>f n. expect NO_CAP msg p) ((IDENTIFIER, table) # alias_toks al @ joins_toks tk joins @ ?r 2)
      (\<lambda>tok. ttype tok = NO_CAP \<and> tvalue tok = ''no-cap'')"
    if "ahead p ?from" for p msg by (rule runs_expect [OF that]) simp
  have r3: "runs (\<lambda>f n. parseTableRef p) (joins_toks tk joins @ ?r 2) (\<lambda>x. x = (table, al))"
    if "ahead p ((IDENTIFIER, table) # alias_toks al @ joins_toks tk joins @ ?r 2)" for p
    by (rule runs_table [OF that later_facts(1,3) [OF j0]])
  have r4: "runs (\<lambda>f n. join_loop n (expr n) p) (?r 2) (list_all2 same_join joins)"
    if "ahead p (joins_toks tk joins @ ?r 2)" for p
    by (rule runs_diag [OF runs_joins [OF lt _ that]]) (use q' in simp_all)
  have r5: "runs (\<lambda>f n. optional ONLY_IF (expr n) p) (?r 3) (rel_option same whr)" if "ahead p (?r 2)" for p
    by (rule runs_clause [where j = 2 and tk = tk and w = "''only-if''"])
      (use q' that lt [of 3] clause_order_nth in \<open>simp_all add: clauses_from_def length_clause_order\<close>)
  have r7: "runs (\<lambda>f n. optional BUSSIN_ONLY (expr n) p) (?r 5) (rel_option same having)" if "ahead p (?r 4)" for p
    by (rule runs_clause [where j = 4 and tk = tk and w = "''bussin-only''"])
      (use q' that lt [of 5] clause_order_nth in \<open>simp_all add: clauses_from_def length_clause_order\<close>)
  have r9: "runs (\<lambda>f n. optional CAP_AT (expr n) p) (?r 7) (rel_option same lim)" if "ahead p (?r 6)" for p
    by (rule runs_clause [where j = 6 and tk = tk and w = "''cap-at''"])
      (use q' that lt [of 7] clause_order_nth in \<open>simp_all add: clauses_from_def length_clause_order\<close>)
  have r10: "runs (\<lambda>f n. optional SKIP (expr n) p) (?r 8) (rel_option same off)" if "ahead p (?r 7)" for p
    by (rule runs_clause [where j = 7 and tk = tk and w = "''skip''"])
      (use q' that lt [of 8] clause_order_nth in \<open>simp_all add: clauses_from_def length_clause_order\<close>)
  have r6: "runs (\<lambda>f n. optional_list VIBE_CHECK (parseColumnList n (expr n)) p) (?r 4) (list_all2 same groups)"
    if "ahead p (?r 3)" for p
    by (rule runs_list_clause [where j = 3 and tk = tk and w = "''vibe-check''", OF reads_with_list])
      (use q' that lt [of 4] later_facts [OF later_weaken [OF lt [of 4]]] clause_order_nth
        in \<open>simp_all add: clauses_from_def length_clause_order\<close>)
  have r8: "runs (\<lambda>f n. optional_list HITS_DIFFERENT (parseOrderList n (expr n)) p) (?r 6) (list_all2 same_order orders)"
    if "ahead p (?r 5)" for p
    by (rule runs_list_clause [where j = 5 and tk = "\<lambda>item. order_toks (map_order_item tk item)" and w = "''hits-different''",
        OF reads_order_list])
      (use q' that lt [of 6] later_facts [OF later_weaken [OF lt [of 6]]] clause_order_nth
        in \<open>simp_all add: clauses_from_def length_clause_order o_def\<close>)
  have r8': "?r 8 = rest" by (simp add: clauses_from_def)
  show ?thesis
    unfolding parseSelect_def Let_def
    apply (rule runs_then [OF runs_expect [OF start]], simp add: columns_head [OF cols])
    apply (rule runs_then, erule r0)
    apply (rule runs_then, erule r1)
    apply (rule runs_then, erule r2)
    apply (rule runs_then, erule r3)
    apply (hypsubst, simp only: prod.case)
    apply (rule runs_then, erule r4)
    apply (rule runs_then, erule r5)
    apply (rule runs_then, erule r6)
    apply (rule runs_then, erule r7)
    apply (rule runs_then, erule r8)
    apply (rule runs_then, erule r9)
    apply (rule runs_then, erule r10)
    apply (rule runs_done)
     apply (rule same_select; assumption)
    apply (simp only: r8')
    done
qed

section \<open>Trees\<close>

lemma primary_select:
  assumes q: "readable_query (\<lambda>n. parseExpr stod (n - 1)) tk cols joins whr groups having orders lim off"
  shows "at_level stod 7 (SelectStmt l c dist cols table al joins whr groups having orders lim off)
    (parens (query_parts dist (map (column_toks tk) cols) table al (map (map_join_clause tk) joins)
      (map_option tk whr) (map tk groups) (map_option tk having) (map (map_order_item tk) orders)
      (map_option tk lim) (map_option tk off)))"
proof (rule primary_parensI)
  fix p rest
  let ?ts = "query_parts dist (map (column_toks tk) cols) table al (map (map_join_clause tk) joins)
      (map_option tk whr) (map tk groups) (map_option tk having) (map (map_order_item tk) orders)
      (map_option tk lim) (map_option tk off)"
  assume p: "ahead p (?ts @ (RPAREN, '')'') # rest)"
  have "later 8 ((RPAREN, '')'') # rest)" by (simp add: later_def clause_order_def)
  note run = runs_select [where expr = "\<lambda>n. parseExpr stod (n - 1)", OF q p this]
  have slay: "check SLAY p" using p by (simp add: query_parts_def ahead_check)
  show "runs (\<lambda>f n. if check SLAY p then parseSelect n (parseExpr stod (n - 1)) p else parseExpr stod (n - 1) p)
      ((RPAREN, '')'') # rest) (same (SelectStmt l c dist cols table al joins whr groups having orders lim off))"
    unfolding if_P [OF slay] by (rule run)
qed

text \<open>An expression at its own level is read in every context, in parentheses where needed.\<close>

lemma within_levels:
  assumes own: "at_level stod m e ts" and ts: "ts \<noteq> []" "fst (hd ts) \<in> set start_tokens"
    and head: "3 \<le> m \<longrightarrow> fst (hd ts) \<noteq> NO_CAP_NOT" "m = 7 \<longrightarrow> fst (hd ts) \<noteq> MINUS" and m: "m \<le> 7" "k \<le> 7"
  shows "at_level stod k e (within k m ts)"
proof (cases "k \<le> m")
  case True
  have "at_level stod k e ts" by (rule lift_many [OF own ts(1) True m(1)]) (use head in auto)
  then show ?thesis using True by (simp add: within_def)
next
  case False
  have "at_level stod 0 e ts" by (rule lift_many [OF own ts(1) _ m(1)]) (use head in auto)
  then have "at_level stod 7 e (parens ts)"
    using primary_parens [OF reads_exprI ts(1)] start_not [OF ts(2)] by simp
  then have "at_level stod k e (parens ts)"
    by (rule lift_many) (use m in \<open>simp_all add: parens_def\<close>)
  then show ?thesis using False by (simp add: within_def)
qed

lemma primary_levels:
  assumes "at_level stod 7 e ts" "ts \<noteq> []" "fst (hd ts) \<in> set start_tokens" "fst (hd ts) \<noteq> NO_CAP_NOT" "fst (hd ts) \<noteq> MINUS"
    "k \<le> 7"
  shows "at_level stod k e ts"
  using within_levels [of stod 7 e ts k] assms by (simp add: within_def)

abbreviation toks0 :: "ast \<Rightarrow> pairs" where
  "toks0 e \<equiv> expr_toks e 0"

lemma no_alias: "alias_of e = [] \<Longrightarrow> attach_alias [] e = e"
  using attach_own [of e] by simp

lemma select_toks:
  "expr_toks (SelectStmt l c dist cols table al joins whr groups having orders lim off) k =
     parens (query_parts dist (map (column_toks toks0) cols) table al (map (map_join_clause toks0) joins)
       (map_option toks0 whr) (map toks0 groups) (map_option toks0 having) (map (map_order_item toks0) orders)
       (map_option toks0 lim) (map_option toks0 off))"
  by (simp add: zip_map_map zip_same_conv_map o_def option.map_comp join_clause.map_comp order_item.map_comp)

lemma window_toks:
  "expr_toks (WindowFunc l c name parts orders al) k =
     parens ([(ERA, ''era'')] @ list_clause (SPLIT_BY, ''split-by'') (map toks0 parts) @ [(HITS_DIFFERENT, ''hits-different'')] @
       commas (map (\<lambda>item. order_toks (map_order_item toks0 item)) orders))"
  by (simp add: o_def order_item.map_comp)

lemma call_toks:
  "expr_toks (FunctionCall l c name args dist al) k =
     [(name_token name, name), (LPAREN, ''('')] @ (if dist then [(UNIQUE_FR, ''unique-fr'')] else []) @
     commas (map toks0 args) @ [(RPAREN, '')'')]"
  by (simp add: o_def)

definition readable :: "(string \<Rightarrow> double option) \<Rightarrow> ast \<Rightarrow> bool" where
  "readable stod e \<longleftrightarrow> writable e \<and> (\<forall>k\<le>7. at_level stod k (attach_alias [] e) (expr_toks e k)) \<and>
     (\<forall>k\<in>{0, 1, 4, 5}. accumulates stod k (attach_alias [] e) (expr_toks e k))"

lemma readable_column:
  assumes "readable stod e"
  shows "reads_with (\<lambda>n. parseExpr stod (n - 1)) (attach_alias [] e) (toks0 e)"
    "toks0 e \<noteq> []" "fst (hd (toks0 e)) \<in> set start_tokens"
proof -
  have r: "writable e" "at_level stod 0 (attach_alias [] e) (toks0 e)" using assms by (simp_all add: readable_def)
  show "reads_with (\<lambda>n. parseExpr stod (n - 1)) (attach_alias [] e) (toks0 e)"
    by (rule reads_with_below [OF reads_exprI [OF r(2)]])
  show "toks0 e \<noteq> []" "fst (hd (toks0 e)) \<in> set start_tokens" using expr_head [OF r(1), of 0] by simp_all
qed

lemma readable_plain:
  assumes "readable stod e" "alias_of e = []"
  shows "reads_expr stod e (toks0 e)" "reads_with (\<lambda>n. parseExpr stod (n - 1)) e (toks0 e)"
proof -
  have r: "at_level stod 0 e (toks0 e)" using assms no_alias [OF assms(2)] by (simp add: readable_def)
  show "reads_expr stod e (toks0 e)" "reads_with (\<lambda>n. parseExpr stod (n - 1)) e (toks0 e)"
    by (rule reads_exprI [OF r], rule reads_with_below [OF reads_exprI [OF r]])
qed

lemma writable_columns:
  assumes "cols \<noteq> []" "list_all id (map writable cols) \<or> (\<exists>e. cols = [e] \<and> plain_star e)"
    and "\<forall>e\<in>set cols. writable e \<longrightarrow> readable stod e"
  shows "readable_columns (\<lambda>n. parseExpr stod (n - 1)) toks0 cols"
  using assms(2)
proof
  assume "list_all id (map writable cols)"
  then have "\<forall>e\<in>set cols. readable stod e" using assms(3) by (simp add: list_all_iff)
  then show ?thesis unfolding readable_columns_def using readable_column assms(1) by blast
next
  assume "\<exists>e. cols = [e] \<and> plain_star e"
  then show ?thesis unfolding readable_columns_def using assms(1) by (auto simp: plain_star_def)
qed

lemma writable_option:
  assumes "map_option writable e \<noteq> Some False" "map_option alias_of e \<in> {None, Some []}"
    and "\<forall>x\<in>set_option e. writable x \<longrightarrow> readable stod x"
  shows "\<forall>x\<in>set_option e. reads_with (\<lambda>n. parseExpr stod (n - 1)) x (toks0 x)"
proof (cases e)
  case (Some x)
  then have "readable stod x" "alias_of x = []" using assms by simp_all
  then show ?thesis using readable_plain(2) Some by simp
qed simp

lemma writable_list:
  assumes "list_all id (map writable es)" "list_all (\<lambda>e. alias_of e = []) es"
    and "\<forall>x\<in>set es. writable x \<longrightarrow> readable stod x"
  shows "\<forall>x\<in>set es. readable stod x \<and> alias_of x = []"
  using assms by (simp add: list_all_iff)

lemma writable_orders:
  assumes "list_all (\<lambda>oi. oi_expr oi) (map (map_order_item writable) orders)" "list_all (\<lambda>oi. alias_of (oi_expr oi) = []) orders"
    and "\<forall>item\<in>set orders. \<forall>x\<in>set_order_item item. writable x \<longrightarrow> readable stod x"
  shows "\<forall>item\<in>set orders. readable stod (oi_expr item) \<and> alias_of (oi_expr item) = []"
proof
  fix item assume item: "item \<in> set orders"
  obtain x asc where x: "item = OrderItem x asc" by (cases item)
  then have "writable x" "alias_of x = []" using assms(1,2) item by (auto simp: list_all_iff)
  then show "readable stod (oi_expr item) \<and> alias_of (oi_expr item) = []" using assms(3) item x by simp
qed

lemma writable_joins:
  assumes "list_all (\<lambda>j. jc_type j \<noteq> CROSS \<and> jc_condition j \<noteq> None) joins"
    "list_all (\<lambda>j. jc_condition j \<noteq> Some False) (map (map_join_clause writable) joins)"
    "list_all (\<lambda>j. map_option alias_of (jc_condition j) = Some []) joins"
    and "\<forall>j\<in>set joins. \<forall>x\<in>set_join_clause j. writable x \<longrightarrow> readable stod x"
  shows "\<forall>j\<in>set joins. readable_join (\<lambda>n. parseExpr stod (n - 1)) toks0 j"
proof
  fix j assume j: "j \<in> set joins"
  obtain kind table al c where jc: "j = JoinClause kind table al c" by (cases j)
  then have k: "kind \<noteq> CROSS" and w: "map_option writable c \<noteq> Some False" "map_option alias_of c = Some []"
    using assms(1-3) j by (auto simp: list_all_iff)
  then obtain e where e: "c = Some e" "writable e" "alias_of e = []" by auto
  then have "readable stod e" using assms(4) j jc by auto
  then show "readable_join (\<lambda>n. parseExpr stod (n - 1)) toks0 j"
    unfolding readable_join_def using readable_plain(2) [of stod e] e k jc by simp
qed

lemma writable_query:
  assumes w: "writable (SelectStmt l c dist cols table al joins whr groups having orders lim off)"
    and ih: "\<forall>e\<in>set cols. writable e \<longrightarrow> readable stod e"
      "\<forall>j\<in>set joins. \<forall>x\<in>set_join_clause j. writable x \<longrightarrow> readable stod x"
      "\<forall>x\<in>set_option whr. writable x \<longrightarrow> readable stod x" "\<forall>x\<in>set groups. writable x \<longrightarrow> readable stod x"
      "\<forall>x\<in>set_option having. writable x \<longrightarrow> readable stod x"
      "\<forall>item\<in>set orders. \<forall>x\<in>set_order_item item. writable x \<longrightarrow> readable stod x"
      "\<forall>x\<in>set_option lim. writable x \<longrightarrow> readable stod x" "\<forall>x\<in>set_option off. writable x \<longrightarrow> readable stod x"
  shows "readable_query (\<lambda>n. parseExpr stod (n - 1)) toks0 cols joins whr groups having orders lim off"
proof -
  note w' = w [unfolded writable.simps]
  have "readable_columns (\<lambda>n. parseExpr stod (n - 1)) toks0 cols"
    by (rule writable_columns [OF _ _ ih(1)]) (use w' in blast)+
  moreover have "\<forall>j\<in>set joins. readable_join (\<lambda>n. parseExpr stod (n - 1)) toks0 j"
    by (rule writable_joins [OF _ _ _ ih(2)]) (use w' in blast)+
  moreover have "\<forall>x\<in>set_option whr. reads_with (\<lambda>n. parseExpr stod (n - 1)) x (toks0 x)"
    by (rule writable_option [OF _ _ ih(3)]) (use w' in blast)+
  moreover have "\<forall>x\<in>set groups. readable stod x \<and> alias_of x = []"
    by (rule writable_list [OF _ _ ih(4)]) (use w' in blast)+
  moreover have "\<forall>x\<in>set_option having. reads_with (\<lambda>n. parseExpr stod (n - 1)) x (toks0 x)"
    by (rule writable_option [OF _ _ ih(5)]) (use w' in blast)+
  moreover have "\<forall>item\<in>set orders. readable stod (oi_expr item) \<and> alias_of (oi_expr item) = []"
    by (rule writable_orders [OF _ _ ih(6)]) (use w' in blast)+
  moreover have "\<forall>x\<in>set_option lim. reads_with (\<lambda>n. parseExpr stod (n - 1)) x (toks0 x)"
    by (rule writable_option [OF _ _ ih(7)]) (use w' in blast)+
  moreover have "\<forall>x\<in>set_option off. reads_with (\<lambda>n. parseExpr stod (n - 1)) x (toks0 x)"
    by (rule writable_option [OF _ _ ih(8)]) (use w' in blast)+
  ultimately show ?thesis unfolding readable_query_def using readable_plain(2) by blast
qed

lemma readableI:
  assumes w: "writable e" and lev: "\<And>k. k \<le> 7 \<Longrightarrow> at_level stod k (attach_alias [] e) (expr_toks e k)"
    and own: "\<And>k. k \<in> {0, 1, 4, 5} \<Longrightarrow> expr_toks e k = expr_toks e (Suc k) \<or>
      accumulates stod k (attach_alias [] e) (expr_toks e k)"
  shows "readable stod e"
proof -
  have "accumulates stod k (attach_alias [] e) (expr_toks e k)" if k: "k \<in> {0, 1, 4, 5}" for k
  proof (cases "expr_toks e k = expr_toks e (Suc k)")
    case True
    then show ?thesis using accumulates_next [OF lev [of "Suc k"] k] k by auto
  next
    case False
    then show ?thesis using own [OF k] by blast
  qed
  then show ?thesis using w lev by (simp add: readable_def)
qed

lemma readable_primary:
  assumes w: "writable e" and ts: "\<And>k. expr_toks e k = ts" and lev: "at_level stod 7 (attach_alias [] e) ts"
  shows "readable stod e"
proof (rule readableI [OF w])
  show "at_level stod k (attach_alias [] e) (expr_toks e k)" if k: "k \<le> 7" for k
    unfolding ts by (rule primary_levels [OF lev]) (use expr_head [OF w, of 7] ts k in simp_all)
qed (simp add: ts)

lemma readable_within:
  assumes w: "writable e" and m: "m \<le> 7" and ts: "\<And>k. expr_toks e k = within k m ts"
    and lev: "m \<notin> {0, 1, 4, 5} \<Longrightarrow> at_level stod m (attach_alias [] e) ts"
    and acc: "m \<in> {0, 1, 4, 5} \<Longrightarrow> accumulates stod m (attach_alias [] e) ts"
  shows "readable stod e"
proof (rule readableI [OF w])
  have lev: "at_level stod m (attach_alias [] e) ts" using lev acc accumulates_level by blast
  have head: "ts \<noteq> []" "fst (hd ts) \<in> set start_tokens" "3 \<le> m \<longrightarrow> fst (hd ts) \<noteq> NO_CAP_NOT"
    "m = 7 \<longrightarrow> fst (hd ts) \<noteq> MINUS"
    using expr_head [OF w, of m] ts [of m] by (simp_all add: within_def)
  show "at_level stod k (attach_alias [] e) (expr_toks e k)" if k: "k \<le> 7" for k
    unfolding ts by (rule within_levels [OF lev head m k])
  show "expr_toks e k = expr_toks e (Suc k) \<or> accumulates stod k (attach_alias [] e) (expr_toks e k)"
    if k: "k \<in> {0, 1, 4, 5}" for k
  proof (cases "k = m")
    case True
    then show ?thesis using acc k ts by (simp add: within_def)
  next
    case False
    then show ?thesis using ts by (simp add: within_def)
  qed
qed

lemma attach_simps:
  "attach_alias a (ColumnRef l c table column b) = ColumnRef l c table column a"
  "attach_alias a (FunctionCall l c name args dist b) = FunctionCall l c name args dist a"
  "attach_alias a (BinaryOp l c oper left right b) = BinaryOp l c oper left right a"
  "attach_alias a (UnaryOp l c oper operand b) = UnaryOp l c oper operand a"
  "attach_alias a (WindowFunc l c name parts orders b) = WindowFunc l c name parts orders a"
  "attach_alias a (Wildcard l c table b) = Wildcard l c table a"
  "attach_alias a (Literal l c v) = Literal l c v"
  "attach_alias a (SelectStmt l c dist cols table al joins whr groups having orders lim off) =
     SelectStmt l c dist cols table al joins whr groups having orders lim off"
  by (simp_all add: attach_alias_def)

lemma readable_binary:
  assumes w: "writable (BinaryOp l c oper left right al)" and lr: "readable stod left" "readable stod right"
  shows "readable stod (BinaryOp l c oper left right al)"
proof -
  obtain m t v where b: "binop oper = Some (m, t, v)" using w by auto
  have m: "m \<in> {0, 1, 3, 4, 5}" and t: "t \<in> set (ops m)" using binop_level [OF b] by simp_all
  have plain: "attach_alias [] left = left" "attach_alias [] right = right" using w no_alias by simp_all
  have right: "at_level stod (Suc m) right (expr_toks right (Suc m))"
    using lr(2) m plain by (auto simp: readable_def)
  let ?j = "if m = 3 then 4 else m"
  let ?ts = "expr_toks left ?j @ [(t, v)] @ expr_toks right (Suc m)"
  let ?e = "BinaryOp l c oper left right []"
  show ?thesis
  proof (rule readable_within [where m = m and ts = ?ts, OF w])
    show "m \<le> 7" using m by auto
    show "expr_toks (BinaryOp l c oper left right al) k = within k m ?ts" for k using b by simp
    show "at_level stod m (attach_alias [] (BinaryOp l c oper left right al)) ?ts" if "m \<notin> {0, 1, 4, 5}"
    proof -
      have m3: "m = 3" using m that by simp
      have l4: "at_level stod 4 left (expr_toks left 4)" using lr(1) plain by (simp add: readable_def)
      have r4: "at_level stod 4 right (expr_toks right 4)" using right m3 by simp
      have "v = oper" by (rule binop_compare) (use b m3 in simp)
      then show ?thesis using own_compare [OF l4 r4, of t l c v] t m3 by (simp add: attach_simps)
    qed
    show "accumulates stod m (attach_alias [] (BinaryOp l c oper left right al)) ?ts" if mm: "m \<in> {0, 1, 4, 5}"
    proof -
      have m3: "m \<noteq> 3" using mm by auto
      have l: "accumulates stod m left (expr_toks left m)" using lr(1) plain mm by (auto simp: readable_def)
      have "accumulates stod m ?e (expr_toks left m @ [(t, v)] @ expr_toks right (Suc m))"
        by (rule accumulates_binary [OF l right mm t]) (rule binop_text [OF b m3])
      then show ?thesis using m3 by (simp add: attach_simps)
    qed
  qed
qed

lemma readable_unary:
  assumes w: "writable (UnaryOp l c oper operand al)" and e: "readable stod operand"
  shows "readable stod (UnaryOp l c oper operand al)"
proof -
  have plain: "attach_alias [] operand = operand" using w no_alias by simp
  have lev: "at_level stod k operand (expr_toks operand k)" if "k \<le> 7" for k
    using e plain that by (simp add: readable_def)
  show ?thesis
  proof (cases "oper = ''NOT''")
    case True
    have "at_level stod 2 (UnaryOp l c ''NOT'' operand []) ((NO_CAP_NOT, ''no-cap-not'') # expr_toks operand 2)"
      by (rule own_not [OF lev]) simp
    then show ?thesis
      by (intro readable_within [where m = 2 and ts = "(NO_CAP_NOT, ''no-cap-not'') # expr_toks operand 2", OF w])
        (simp_all add: True attach_simps)
  next
    case False
    then have oper: "oper = ''-''" using w by simp
    have "at_level stod 6 (UnaryOp l c ''-'' operand []) ((MINUS, ''-'') # expr_toks operand 6)"
      by (rule own_negation [OF lev]) simp
    then show ?thesis
      by (intro readable_within [where m = 6 and ts = "(MINUS, ''-'') # expr_toks operand 6", OF w])
        (simp_all add: oper attach_simps)
  qed
qed

lemma readable_call:
  assumes w: "writable (FunctionCall l c name args dist al)" and ih: "\<forall>x\<in>set args. writable x \<longrightarrow> readable stod x"
  shows "readable stod (FunctionCall l c name args dist al)"
proof (rule readable_primary [OF w call_toks])
  let ?ts = "[(name_token name, name), (LPAREN, ''('')] @ (if dist then [(UNIQUE_FR, ''unique-fr'')] else []) @
     commas (map toks0 args) @ [(RPAREN, '')'')]"
  have "at_level stod 7 (FunctionCall l c name args dist []) ?ts"
  proof (cases "name = ''headcount'' \<and> \<not> dist \<and> (\<exists>e. args = [e] \<and> plain_star e)")
    case True
    then obtain e where e: "name = ''headcount''" "\<not> dist" "args = [e]" "plain_star e" by blast
    then have "toks0 e = [(STAR, ''*'')]" by (auto simp: plain_star_def)
    then show ?thesis using primary_call_star [OF e(3,4), of stod l c] e by simp
  next
    case False
    then have parts: "list_all id (map writable args)" "list_all (\<lambda>e. alias_of e = []) args"
      "dist \<longrightarrow> name = ''headcount'' \<and> length args = 1"
      using w by auto
    have args: "\<forall>e\<in>set args. readable stod e \<and> alias_of e = []" by (rule writable_list [OF parts(1,2) ih])
    show ?thesis
    proof (cases dist)
      case True
      then obtain e where e: "name = ''headcount''" "args = [e]"
        using parts(3) by (auto simp: length_Suc_conv)
      then show ?thesis using primary_call_distinct [OF readable_plain(1) [of stod e]] args True by simp
    next
      case False
      have "\<forall>e\<in>set args. reads_expr stod e (toks0 e) \<and> toks0 e \<noteq> [] \<and> fst (hd (toks0 e)) \<in> set start_tokens"
        using args readable_plain(1) readable_column(2,3) by blast
      then show ?thesis using primary_call_list [of args stod toks0 l c name] False by simp
    qed
  qed
  then show "at_level stod 7 (attach_alias [] (FunctionCall l c name args dist al)) ?ts" by (simp only: attach_simps)
qed

lemma readable_window:
  assumes w: "writable (WindowFunc l c name parts orders al)" and ih: "\<forall>x\<in>set parts. writable x \<longrightarrow> readable stod x"
    "\<forall>item\<in>set orders. \<forall>x\<in>set_order_item item. writable x \<longrightarrow> readable stod x"
  shows "readable stod (WindowFunc l c name parts orders al)"
proof (rule readable_primary [OF w window_toks])
  note w' = w [unfolded writable.simps]
  have "\<forall>e\<in>set parts. readable stod e \<and> alias_of e = []" by (rule writable_list [OF _ _ ih(1)]) (use w' in blast)+
  moreover have "\<forall>item\<in>set orders. readable stod (oi_expr item) \<and> alias_of (oi_expr item) = []"
    by (rule writable_orders [OF _ _ ih(2)]) (use w' in blast)+
  ultimately have r: "\<forall>e\<in>set parts. reads_expr stod e (toks0 e)"
    "\<forall>item\<in>set orders. reads_expr stod (oi_expr item) (toks0 (oi_expr item))"
    using readable_plain(1) by blast+
  have n: "name = ''RANK''" "orders \<noteq> []" using w' by blast+
  show "at_level stod 7 (attach_alias [] (WindowFunc l c name parts orders al))
      (parens ([(ERA, ''era'')] @ list_clause (SPLIT_BY, ''split-by'') (map toks0 parts) @ [(HITS_DIFFERENT, ''hits-different'')] @
       commas (map (\<lambda>item. order_toks (map_order_item toks0 item)) orders)))"
    using primary_window [OF r n(2)] by (simp only: attach_simps n(1))
qed

text \<open>Every writable tree is read back in every context.\<close>

theorem writable_readable: "writable e \<Longrightarrow> readable stod e"
proof (induction e)
  case (Literal l c v)
  then show ?case
    using readable_primary [OF Literal, of "expr_toks (Literal l c v) 0"] primary_literal [OF Literal, of stod 0]
    by (simp add: attach_simps)
next
  case (ColumnRef l c table column al)
  then show ?case
    using readable_primary [OF ColumnRef, of "expr_toks (ColumnRef l c table column al) 0"]
      primary_column [of stod l c table column al 0]
    by (simp add: attach_simps)
next
  case (Wildcard l c table al)
  then show ?case
    using readable_primary [OF Wildcard, of "expr_toks (Wildcard l c table al) 0"]
      primary_wildcard [of table stod l c al 0]
    by (simp add: attach_simps)
next
  case (BinaryOp l c oper left right al)
  then show ?case using readable_binary [OF BinaryOp.prems] by simp
next
  case (UnaryOp l c oper operand al)
  then show ?case using readable_unary [OF UnaryOp.prems] by simp
next
  case (FunctionCall l c name args dist al)
  then show ?case using readable_call [OF FunctionCall.prems] by blast
next
  case (WindowFunc l c name parts orders al)
  then show ?case using readable_window [OF WindowFunc.prems] by blast
next
  case (SelectStmt l c dist cols table al joins whr groups having orders lim off)
  have q: "readable_query (\<lambda>n. parseExpr stod (n - 1)) toks0 cols joins whr groups having orders lim off"
    by (rule writable_query [OF SelectStmt.prems]) (use SelectStmt.IH in blast)+
  show ?case
    by (rule readable_primary [OF SelectStmt.prems select_toks]) (simp only: attach_simps, rule primary_select [OF q])
qed

end
