(* ===== verification/Frontend.thy ===== *)
theory Frontend
  imports Query_Roundtrip
begin

text \<open>
  The lexer and the parser together, as \<open>compileDetailed\<close> (\<open>src/compiler.cpp\<close>) calls them: every
  text is either rejected at a position or parsed to its end, and a script of writable queries
  is read back from its text.
\<close>

section \<open>Scripts\<close>

definition script_toks :: "ast list \<Rightarrow> pairs" where
  "script_toks qs = concat (map (\<lambda>q. query_toks q @ [(SEMICOLON, '';'')]) qs)"

definition is_query :: "ast \<Rightarrow> bool" where
  "is_query q = (case q of SelectStmt _ _ _ _ _ _ _ _ _ _ _ _ _ \<Rightarrow> True | _ \<Rightarrow> False)"

lemma located_eof: "located_tokens s toks \<Longrightarrow> eof_terminated toks"
proof -
  assume "located_tokens s toks"
  then obtain ps where l: "length ps + 1 = length toks" and ok: "\<forall>k<length ps. ps ! k < length s \<and>
      \<not> isspace (s ! (ps ! k)) \<and> token_text_ok (toks ! k) \<and>
      tline (toks ! k) = line_at s (ps ! k) \<and> tcol (toks ! k) = col_at s (ps ! k)"
    and eof: "toks ! length ps = Token EOF_TOKEN [] (line_at s (length s)) (col_at s (length s))"
    unfolding located_tokens_def by blast
  have ps: "length toks = Suc (length ps)" "\<forall>k<length ps. token_text_ok (toks ! k)"
      "ttype (toks ! length ps) = EOF_TOKEN"
    using l ok eof by simp_all
  have ne: "toks \<noteq> []" using ps(1) by auto
  then have "last toks = toks ! length ps" using ps(1) by (simp add: last_conv_nth)
  moreover have "\<forall>t\<in>set (butlast toks). ttype t \<noteq> EOF_TOKEN"
    using ps(1,2) by (auto simp: in_set_conv_nth nth_butlast token_text_ok_def)
  ultimately show ?thesis using ne ps(3) by (simp add: eof_terminated_def)
qed

lemma tokenize_eof: "tokenize s = Inr toks \<Longrightarrow> located_tokens s toks \<and> eof_terminated toks"
proof -
  assume "tokenize s = Inr toks"
  then have "located_from s 0 toks"
    using tokenize_loop_at [of 0 s] by (simp add: tokenize_def new_lexer_at)
  then have "located_tokens s toks" by (simp add: located_from_def located_tokens_def)
  then show ?thesis using located_eof by blast
qed

text \<open>An expression parser with one unit of fuel more reads the same.\<close>

lemma reads_with_up: "reads_with (\<lambda>n. expr (n - 1)) e ts \<Longrightarrow> reads_with expr e ts"
proof -
  assume r: "reads_with (\<lambda>n. expr (n - 1)) e ts"
  have "runs (\<lambda>f n. expr n p) rest ok" if run: "runs (\<lambda>f n. expr (n - 1) p) rest ok" for p rest ok
  proof -
    obtain x q N where "ok x" "ahead q rest" and all: "\<forall>f n. N \<le> f \<longrightarrow> N \<le> n \<longrightarrow> expr (n - 1) p = Parsed x q"
      using run unfolding runs_def by blast
    moreover have "expr n p = Parsed x q" if "N \<le> n" for n
      using all [rule_format, of N "Suc n"] that by simp
    ultimately show ?thesis unfolding runs_def by blast
  qed
  then show ?thesis using r unfolding reads_with_def reads_def by blast
qed

lemma readable_query_up:
  assumes "readable_query (\<lambda>n. expr (n - 1)) tk cols joins whr groups having orders lim off"
  shows "readable_query expr tk cols joins whr groups having orders lim off"
  using assms reads_with_up [of expr]
  unfolding readable_query_def readable_columns_def readable_join_def by blast

lemma query_head: "is_query q \<Longrightarrow> \<exists>ts. query_toks q = (SLAY, ''slay'') # ts"
  by (cases q) (simp_all add: is_query_def query_toks_def query_parts_def)

lemma runs_query:
  assumes w: "writable q" "is_query q" and p: "ahead p (query_toks q @ rest)" and rest: "later 8 rest"
  shows "runs (\<lambda>f n. parseSelect n (parseExpr stod n) p) rest (same q)"
proof -
  obtain l c dist cols table al joins whr groups having orders lim off
    where q: "q = SelectStmt l c dist cols table al joins whr groups having orders lim off"
    using w(2) by (cases q) (simp_all add: is_query_def)
  have all: "\<forall>e. writable e \<longrightarrow> readable stod e" using writable_readable by blast
  have r: "readable_query (\<lambda>n. parseExpr stod (n - 1)) toks0 cols joins whr groups having orders lim off"
    by (rule writable_query [OF w(1) [unfolded q]]) (use all in blast)+
  have item: "item_toks = column_toks toks0" by (simp add: fun_eq_iff item_toks_def)
  have p': "ahead p (query_parts dist (map (column_toks toks0) cols) table al (map (map_join_clause toks0) joins)
      (map_option toks0 whr) (map toks0 groups) (map_option toks0 having) (map (map_order_item toks0) orders)
      (map_option toks0 lim) (map_option toks0 off) @ rest)"
    using p item by (simp add: q query_toks_def)
  show ?thesis unfolding q
    by (rule runs_select [OF readable_query_up [OF r] p' rest])
qed

definition same_script :: "ast list \<Rightarrow> stmt list \<Rightarrow> bool" where
  "same_script qs ss \<longleftrightarrow> (\<exists>qs'. ss = map SelectNode qs' \<and> map erase qs' = map erase qs)"

lemma runs_semicolons:
  assumes "ahead p rest" "rest \<noteq> []" "fst (hd rest) \<noteq> SEMICOLON"
  shows "runs (\<lambda>f n. skip_semicolons n p) rest (\<lambda>_. True)"
proof -
  have no: "check SEMICOLON p = False" using next_is [OF assms(1,2)] assms(3) by simp
  have one: "runs (\<lambda>f n. Parsed () p) rest (\<lambda>_. True)" using assms(1) by (simp add: runs_done)
  have "runs (\<lambda>f n. skip_semicolons f p) rest (\<lambda>_. True)" by (rule runs_Suc [OF one]) (simp add: no)
  then show ?thesis by (rule runs_diag)
qed

lemma runs_statement:
  assumes w: "writable q" "is_query q" and p: "ahead p (query_toks q @ (SEMICOLON, '';'') # rest)" and rest: "rest \<noteq> []"
  shows "runs (\<lambda>f n. parseStatement stod n p) rest (\<lambda>s. \<exists>q'. s = SelectNode q' \<and> same q q')"
proof -
  obtain ts where ts: "query_toks q = (SLAY, ''slay'') # ts" using query_head [OF w(2)] by blast
  have a: "ahead p ((SLAY, ''slay'') # ts @ (SEMICOLON, '';'') # rest)" using p ts by simp
  have l8: "later 8 ((SEMICOLON, '';'') # rest)" by (simp add: later_def clause_order_def)
  have body: "statement_body n (parseExpr stod n) p = returning SelectNode (parseSelect n (parseExpr stod n) p)" for n
    unfolding statement_body_def Let_def using ahead_current [OF a] by (simp only: if_True simp_thms)
  have one: "runs (\<lambda>f n. statement_body n (parseExpr stod n) p) ((SEMICOLON, '';'') # rest)
      (\<lambda>s. \<exists>q'. s = SelectNode q' \<and> same q q')"
    unfolding body returning_def
    by (rule runs_then [OF runs_query [OF w p l8]], rule runs_done) auto
  show ?thesis unfolding parseStatement_def
  proof (rule runs_then [OF one])
    fix s r assume s: "\<exists>q'. s = SelectNode q' \<and> same q q'" and r: "ahead r ((SEMICOLON, '';'') # rest)"
    have yes: "check SEMICOLON r" by (simp add: ahead_check [OF r])
    show "runs (\<lambda>f n. andThen (match SEMICOLON r) (\<lambda>_ p. Parsed s p)) rest (\<lambda>s. \<exists>q'. s = SelectNode q' \<and> same q q')"
      unfolding match_def if_P [OF yes] andThen_simps
      by (rule runs_done) (use s ahead_skip [OF r rest] in simp_all)
  qed
qed

lemma script_not_semicolon:
  assumes "list_all is_query qs"
  shows "script_toks qs @ [(EOF_TOKEN, [])] \<noteq> []" "fst (hd (script_toks qs @ [(EOF_TOKEN, [])])) \<noteq> SEMICOLON"
proof -
  show "fst (hd (script_toks qs @ [(EOF_TOKEN, [])])) \<noteq> SEMICOLON"
  proof (cases qs)
    case (Cons q qs')
    then obtain ts where "query_toks q = (SLAY, ''slay'') # ts" using assms query_head by auto
    then show ?thesis by (simp add: Cons script_toks_def)
  qed (simp add: script_toks_def)
qed simp

lemma runs_script:
  "list_all writable qs \<Longrightarrow> list_all is_query qs \<Longrightarrow> ahead p (script_toks qs @ [(EOF_TOKEN, [])]) \<Longrightarrow>
   runs (\<lambda>f n. parse_statements stod n f p) [(EOF_TOKEN, [])] (same_script qs)"
proof (induction qs arbitrary: p)
  case Nil
  then have a: "ahead p [(EOF_TOKEN, [])]" by (simp add: script_toks_def)
  have eof: "check EOF_TOKEN p" by (simp add: ahead_check [OF a])
  have "runs (\<lambda>f n. Parsed [] p) [(EOF_TOKEN, [])] (same_script [])"
    using a by (simp add: runs_done same_script_def)
  then show ?case by (rule runs_Suc) (simp add: eof)
next
  case (Cons q qs)
  let ?rest = "script_toks qs @ [(EOF_TOKEN, [])]"
  have w: "writable q" "is_query q" "list_all is_query qs" "list_all writable qs" using Cons.prems by simp_all
  note more = script_not_semicolon [OF w(3)]
  have a: "ahead p (query_toks q @ (SEMICOLON, '';'') # ?rest)" using Cons.prems(3) by (simp add: script_toks_def)
  obtain ts where "query_toks q = (SLAY, ''slay'') # ts" using query_head [OF w(2)] by blast
  then have not_eof: "check EOF_TOKEN p = False" using a by (simp add: ahead_check)
  have "runs (\<lambda>f n. andThen (parseStatement stod n p) (\<lambda>s p. andThen (skip_semicolons n p) (\<lambda>_ p.
      andThen (parse_statements stod n f p) (\<lambda>ss p. Parsed (s # ss) p)))) [(EOF_TOKEN, [])] (same_script (q # qs))"
  proof (rule runs_then [OF runs_statement [OF w(1,2) a more(1)]])
    fix s r assume s: "\<exists>q'. s = SelectNode q' \<and> same q q'" and r: "ahead r ?rest"
    show "runs (\<lambda>f n. andThen (skip_semicolons n r) (\<lambda>_ p.
      andThen (parse_statements stod n f p) (\<lambda>ss p. Parsed (s # ss) p))) [(EOF_TOKEN, [])] (same_script (q # qs))"
    proof (rule runs_then [OF runs_semicolons [OF r more]])
      fix u r' assume r': "ahead r' ?rest"
      show "runs (\<lambda>f n. andThen (parse_statements stod n f r') (\<lambda>ss p. Parsed (s # ss) p))
          [(EOF_TOKEN, [])] (same_script (q # qs))"
      proof (rule runs_then [OF Cons.IH [OF w(4,3) r']], rule runs_done)
        fix ss assume "same_script qs ss"
        then obtain qs' where "ss = map SelectNode qs'" "map erase qs' = map erase qs"
          by (auto simp: same_script_def)
        moreover obtain q' where "s = SelectNode q'" "same q q'" using s by blast
        ultimately show "same_script (q # qs) (s # ss)" unfolding same_script_def
          by (intro exI [of _ "q' # qs'"]) simp
      qed
    qed
  qed
  then show ?case by (rule runs_Suc) (simp add: not_eof)
qed

lemma tokenize_spelled:
  assumes "list_all spellable items"
  shows "\<exists>toks. tokenize (render items) = Inr toks \<and> map token_pair toks = items @ [(EOF_TOKEN, [])]"
  using tokenize_loop_render [of 0 "render items" items] assms by (simp add: tokenize_def new_lexer_at)

section \<open>Properties\<close>

text \<open>
  C23. Every text has an outcome: the lexer rejects it at a position inside the text, or the
  parser rejects its tokens, or the parser returns statements and has read every token up to
  the end-of-file token.
\<close>

theorem frontend_returns:
  "case tokenize s of Inl e \<Rightarrow> located_error s e
   | Inr toks \<Rightarrow> (case parseAll stod toks of Out_Of_Fuel \<Rightarrow> False | Failed e \<Rightarrow> True
       | Parsed ss p \<Rightarrow> tokens p = toks \<and> tpos p = length toks - 1)"
proof (cases "tokenize s")
  case (Inl e)
  then show ?thesis using tokenize_loop_at [of 0 s] by (simp add: tokenize_def new_lexer_at)
next
  case (Inr toks)
  then show ?thesis using parseAll_returns [of toks stod] tokenize_eof [OF Inr]
    by (auto split: parsed.split)
qed

text \<open>
  C22. Scripts are read back from their text: writing any list of writable queries with the
  parentheses their operators need, tokens separated by blanks, and running the lexer and the
  parser gives the same queries, positions aside. In particular precedence and associativity,
  aliases, joins, windows, subqueries and the order of the clauses are read as they were meant.
\<close>

theorem script_roundtrip:
  assumes "list_all writable qs" "list_all is_query qs" "list_all spellable (script_toks qs)"
  shows "\<exists>toks qs' p. tokenize (render (script_toks qs)) = Inr toks \<and>
    parseAll stod toks = Parsed (map SelectNode qs') p \<and> map erase qs' = map erase qs"
proof -
  obtain toks where toks: "tokenize (render (script_toks qs)) = Inr toks"
      "map token_pair toks = script_toks qs @ [(EOF_TOKEN, [])]"
    using tokenize_spelled [OF assms(3)] by blast
  have "ahead (new_parser toks) (script_toks qs @ [(EOF_TOKEN, [])])"
    using toks(2) by (simp add: ahead_def new_parser_def)
  from runs_script [OF assms(1,2) this, of stod]
  obtain ss p N where r: "same_script qs ss"
      "\<forall>f n. N \<le> f \<longrightarrow> N \<le> n \<longrightarrow> parse_statements stod n f (new_parser toks) = Parsed ss p"
    unfolding runs_def by blast
  have "eof_terminated toks" using tokenize_eof [OF toks(1)] by simp
  from parseAll_fuel [OF this, of "max N (length toks)" "max N (length toks)" stod] r(2)
  have "parseAll stod toks = Parsed ss p" by simp
  then show ?thesis using toks(1) r(1) unfolding same_script_def by blast
qed

definition demo_query :: ast where
  "demo_query = SelectStmt 0 0 True
     [BinaryOp 0 0 ''*'' (BinaryOp 0 0 ''+'' (ColumnRef 0 0 [] ''a'' []) (Literal 0 0 (INT_LIT 1)) [])
        (ColumnRef 0 0 ''t'' ''b'' []) ''x'']
     ''t'' [] [] None [] None [] (Some (Literal 0 0 (INT_LIT 5))) None"

definition demo_text :: string where
  "demo_text = ''slay unique-fr ( a + 1 ) * t . b lowkey x no-cap t cap-at 5 ; ''"

lemma demo_toks: "script_toks [demo_query] =
    [(SLAY, ''slay''), (UNIQUE_FR, ''unique-fr''), (LPAREN, ''(''), (IDENTIFIER, ''a''), (PLUS_OP, ''+''),
     (INTEGER_LIT, ''1''), (RPAREN, '')''), (STAR, ''*''), (IDENTIFIER, ''t''), (DOT, ''.''), (IDENTIFIER, ''b''),
     (LOWKEY, ''lowkey''), (IDENTIFIER, ''x''), (NO_CAP, ''no-cap''), (IDENTIFIER, ''t''), (CAP_AT, ''cap-at''),
     (INTEGER_LIT, ''5''), (SEMICOLON, '';'')]"
  by (simp add: demo_query_def script_toks_def query_toks_def query_parts_def item_toks_def binop_def within_def
      parens_def alias_of_def alias_toks_def clause_def list_clause_def string_of_int_def string_of_nat.simps digit_char_def char_of_def bit_0)

lemma demo_spellable:
  "spellable (SLAY, ''slay'')" "spellable (UNIQUE_FR, ''unique-fr'')" "spellable (LOWKEY, ''lowkey'')"
  "spellable (NO_CAP, ''no-cap'')" "spellable (CAP_AT, ''cap-at'')"
  "spellable (IDENTIFIER, ''a'')" "spellable (IDENTIFIER, ''b'')" "spellable (IDENTIFIER, ''t'')" "spellable (IDENTIFIER, ''x'')"
  "spellable (LPAREN, ''('')" "spellable (RPAREN, '')'')" "spellable (PLUS_OP, ''+'')" "spellable (STAR, ''*'')"
  "spellable (DOT, ''.'')" "spellable (SEMICOLON, '';'')" "spellable (INTEGER_LIT, ''1'')" "spellable (INTEGER_LIT, ''5'')"
proof -
  have kw: "keyword ''slay'' = Some SLAY" "keyword ''unique-fr'' = Some UNIQUE_FR" "keyword ''lowkey'' = Some LOWKEY"
    "keyword ''no-cap'' = Some NO_CAP" "keyword ''cap-at'' = Some CAP_AT"
    "keyword ''a'' = None" "keyword ''b'' = None" "keyword ''t'' = None" "keyword ''x'' = None"
    by (simp_all add: keyword_def KEYWORDS_def)
  show "spellable (SLAY, ''slay'')" "spellable (UNIQUE_FR, ''unique-fr'')" "spellable (LOWKEY, ''lowkey'')"
    "spellable (NO_CAP, ''no-cap'')" "spellable (CAP_AT, ''cap-at'')"
    by (simp_all add: spellable_def kw)
  show "spellable (IDENTIFIER, ''a'')" "spellable (IDENTIFIER, ''b'')" "spellable (IDENTIFIER, ''t'')" "spellable (IDENTIFIER, ''x'')"
    by (simp_all add: spellable_def kw name_text_def isWordStart_def ctype_defs)
  show "spellable (LPAREN, ''('')" "spellable (RPAREN, '')'')" "spellable (PLUS_OP, ''+'')" "spellable (STAR, ''*'')"
    "spellable (DOT, ''.'')" "spellable (SEMICOLON, '';'')"
    by (simp_all only: spellable_def prod.case operators_def list.set insert_iff prod.inject simp_thms)
  show "spellable (INTEGER_LIT, ''1'')" "spellable (INTEGER_LIT, ''5'')"
    by (simp_all add: spellable_def digits_text_def ctype_defs)
qed

theorem script_roundtrip_witness:
  "\<exists>toks q' p. tokenize demo_text = Inr toks \<and> parseAll (\<lambda>_. None) toks = Parsed [SelectNode q'] p \<and>
     erase q' = erase demo_query"
proof -
  have "list_all writable [demo_query]" "list_all is_query [demo_query]"
    by (simp_all add: demo_query_def binop_def alias_of_def is_query_def)
  moreover have "list_all spellable (script_toks [demo_query])" by (simp add: demo_toks demo_spellable)
  moreover have "render (script_toks [demo_query]) = demo_text"
    by (simp add: demo_toks demo_text_def render_def spell_def)
  ultimately show ?thesis using script_roundtrip [of "[demo_query]" "\<lambda>_. None"] by auto
qed

lemma tolower_hyphen: "tolower c = CHR ''-'' \<longleftrightarrow> c = CHR ''-''"
proof (cases "isupper c")
  case True
  then have n: "65 \<le> ord_char c" "ord_char c \<le> 90" by (simp_all add: isupper_def)
  have "ord_char (tolower c) = ord_char c + 32" using True n by (simp add: tolower_def)
  then have "tolower c \<noteq> CHR ''-''" using n by auto
  then show ?thesis using n by auto
qed (simp add: tolower_def)

lemma hyphen_in_lower: "CHR ''-'' \<in> set (lowerCopy w) \<longleftrightarrow> CHR ''-'' \<in> set w"
proof -
  have "CHR ''-'' = tolower c \<longleftrightarrow> CHR ''-'' = c" for c using tolower_hyphen [of c] by metis
  then show ?thesis by (induction w) (simp_all add: lowerCopy_def)
qed

lemma tokenize_word:
  assumes "tokenize s = Inr toks" "t \<in> set toks" "ttype t = IDENTIFIER"
  shows "CHR ''-'' \<notin> set (tvalue t)"
proof -
  obtain ps where l: "length ps + 1 = length toks" and ok: "\<forall>k<length ps. ps ! k < length s \<and>
      \<not> isspace (s ! (ps ! k)) \<and> token_text_ok (toks ! k) \<and>
      tline (toks ! k) = line_at s (ps ! k) \<and> tcol (toks ! k) = col_at s (ps ! k)"
    and eof: "toks ! length ps = Token EOF_TOKEN [] (line_at s (length s)) (col_at s (length s))"
    using tokenize_eof [OF assms(1)] unfolding located_tokens_def by blast
  obtain k where k: "k < length toks" "t = toks ! k" using assms(2) by (auto simp: in_set_conv_nth)
  have "k \<noteq> length ps" using k eof assms(3) by auto
  then have "token_text_ok t" using ok k l by auto
  then have "\<forall>c\<in>set (tvalue t). isalnum c \<or> c = CHR ''_''" using assms(3) by (simp add: token_text_ok_def)
  moreover have "\<not> isalnum (CHR ''-'')" by (simp add: ctype_defs)
  ultimately show ?thesis by auto
qed

text \<open>
  A word with a hyphen never reaches the parser as a word: in the tokens of any text no
  token equals, in any case, a word that contains a hyphen. So the branches of the parser for
  \<open>show context-schemas\<close> and \<open>show context-objects\<close> are never taken.
\<close>

theorem hyphen_words_unreachable:
  assumes "tokenize s = Inr toks" "t \<in> set toks" "CHR ''-'' \<in> set w"
  shows "\<not> wordEquals t w"
proof
  assume eq: "wordEquals t w"
  then have "ttype t = IDENTIFIER" by (simp add: wordEquals_def)
  then have "CHR ''-'' \<notin> set (lowerCopy (tvalue t))"
    unfolding hyphen_in_lower by (rule tokenize_word [OF assms(1,2)])
  moreover have "CHR ''-'' \<in> set (lowerCopy w)" using assms(3) by (simp add: hyphen_in_lower)
  ultimately show False using eq by (simp add: wordEquals_def)
qed

end
