(* ===== verification/Std_Arith.thy ===== *)
theory Std_Arith
  imports Std_Double
begin

text \<open>
  Arithmetic of the C++ \<open>double\<close> (IEEE 754 binary64, round to nearest, ties to even) on bit
  patterns: addition, subtraction, multiplication, division, square root, \<open>std::ceil\<close>,
  \<open>std::fabs\<close>, \<open>std::max\<close> and negation.

  A finite double is its sign times \<open>dunits\<close>, a multiple of \<open>2 ^ - 1074\<close>; \<open>round_mag n d\<close> is the
  magnitude pattern of the double nearest to the positive rational \<open>n / d\<close> in those units. The
  result of an invalid operation is one NaN pattern; which one the processor picks is not
  visible to comparisons.
\<close>

definition dnan :: double where
  "dnan = 0x7FF8000000000000"

definition inf_mag :: int where
  "inf_mag = 2047 * 2 ^ 52"

definition is_inf :: "double \<Rightarrow> bool" where
  "is_inf d \<longleftrightarrow> dmag d = inf_mag"

definition dpack :: "bool \<Rightarrow> int \<Rightarrow> double" where
  "dpack neg mag = word_of_int (if neg then 2 ^ 63 + mag else mag)"

text \<open>The magnitude of a finite double in units of \<open>2 ^ - 1074\<close>.\<close>

definition dunits :: "double \<Rightarrow> int" where
  "dunits d =
     (let e = dmag d div 2 ^ 52; f = dmag d mod 2 ^ 52
      in if e = 0 then f else (2 ^ 52 + f) * 2 ^ nat (e - 1))"

definition dsigned :: "double \<Rightarrow> int" where
  "dsigned d = (if dneg d then - dunits d else dunits d)"

definition round_mag :: "int \<Rightarrow> int \<Rightarrow> int" where
  "round_mag n d =
     (let k = ilog2 (nat (n div d)) - 52; m = round_half_even n (d * 2 ^ k)
      in min inf_mag (int k * 2 ^ 52 + m))"

definition dneg_of :: "double \<Rightarrow> double" where
  "dneg_of d = d XOR 0x8000000000000000"

definition dabs :: "double \<Rightarrow> double" where
  "dabs d = word_of_int (dmag d)"

definition dadd :: "double \<Rightarrow> double \<Rightarrow> double" where
  "dadd a b =
     (if is_nan a \<or> is_nan b then dnan
      else if is_inf a then (if is_inf b \<and> dneg a \<noteq> dneg b then dnan else a)
      else if is_inf b then b
      else let s = dsigned a + dsigned b
           in if s = 0 then dpack (dneg a \<and> dneg b) 0
              else dpack (s < 0) (round_mag \<bar>s\<bar> 1))"

definition dsub :: "double \<Rightarrow> double \<Rightarrow> double" where
  "dsub a b = (if is_nan b then dnan else dadd a (dneg_of b))"

definition dmul :: "double \<Rightarrow> double \<Rightarrow> double" where
  "dmul a b =
     (let neg = (dneg a \<noteq> dneg b)
      in if is_nan a \<or> is_nan b then dnan
         else if is_inf a \<or> is_inf b then (if dmag a = 0 \<or> dmag b = 0 then dnan else dpack neg inf_mag)
         else dpack neg (round_mag (dunits a * dunits b) (2 ^ 1074)))"

definition ddiv :: "double \<Rightarrow> double \<Rightarrow> double" where
  "ddiv a b =
     (let neg = (dneg a \<noteq> dneg b)
      in if is_nan a \<or> is_nan b then dnan
         else if is_inf a then (if is_inf b then dnan else dpack neg inf_mag)
         else if is_inf b then dpack neg 0
         else if dmag b = 0 then (if dmag a = 0 then dnan else dpack neg inf_mag)
         else dpack neg (round_mag (dunits a * 2 ^ 1074) (dunits b)))"

text \<open>The largest \<open>r\<close> with \<open>r * r \<le> n\<close>, bit by bit from \<open>2 ^ k\<close> downwards.\<close>

fun isqrt_from :: "nat \<Rightarrow> int \<Rightarrow> int \<Rightarrow> int" where
  "isqrt_from 0 n r = (if (r + 1) * (r + 1) \<le> n then r + 1 else r)"
| "isqrt_from (Suc k) n r =
     (let r' = r + 2 ^ Suc k in isqrt_from k n (if r' * r' \<le> n then r' else r))"

text \<open>
  The square root of \<open>u\<close> units is \<open>sqrt (u * 2 ^ 1074)\<close> units. Two more bits than the
  significand and a sticky bit decide the rounding.
\<close>

definition dsqrt :: "double \<Rightarrow> double" where
  "dsqrt a =
     (if is_nan a then dnan
      else if dmag a = 0 then a
      else if dneg a then dnan
      else if is_inf a then a
      else let n = dunits a * 2 ^ 1074 * 16; r = isqrt_from 1100 n 0
           in dpack False (round_mag (2 * r + (if r * r = n then 0 else 1)) 8))"

definition dceil :: "double \<Rightarrow> double" where
  "dceil a =
     (if is_nan a then dnan
      else if is_inf a \<or> dunits a mod 2 ^ 1074 = 0 then a
      else let c = - (- dsigned a div 2 ^ 1074)
           in if c = 0 then dpack (dneg a) 0 else double_of_int c)"

definition dmax :: "double \<Rightarrow> double \<Rightarrow> double" where
  "dmax a b = (if double_lt a b then b else a)"

definition dmin :: "double \<Rightarrow> double \<Rightarrow> double" where
  "dmin a b = (if double_lt b a then b else a)"

section \<open>Facts\<close>

lemma dmag_bounds: "0 \<le> dmag d" "dmag d < 2 ^ 63"
  by (simp_all add: dmag_def)

lemma dunits_zero_iff: "dunits d = 0 \<longleftrightarrow> dmag d = 0"
proof -
  have d: "dmag d = 2 ^ 52 * (dmag d div 2 ^ 52) + dmag d mod 2 ^ 52" by simp
  have nn: "0 \<le> dmag d mod 2 ^ 52" by simp
  show ?thesis
  proof (cases "dmag d div 2 ^ 52 = 0")
    case True
    then show ?thesis using d by (simp add: dunits_def Let_def)
  next
    case False
    then show ?thesis using d nn by (auto simp: dunits_def Let_def)
  qed
qed

end
