(* ===== verification/Raw_Rows.thy ===== *)
theory Raw_Rows
  imports Tuple_Codec Ast Std_Arith
begin

text \<open>
  Reading stored rows without building values (\<open>src/native_raw.h\<close> and \<open>src/native_raw.cpp\<close>):
  \<open>RawField\<close>, the projecting decoders of the fast paths, and the small helpers the fast paths
  share (literals, comparison operators, aggregate names).

  The lemmas show that the raw decoders accept exactly the rows the tuple decoder accepts, with
  the same exceptions, and deliver the same values; and that comparing a raw field with a value
  is the comparison of values.
\<close>

section \<open>Fields\<close>

text \<open>\<open>RawField\<close>: the members that do not belong to the type keep their defaults.\<close>

record raw_field =
  rtype :: value_type
  rnull :: bool
  rinteger :: i64
  rreal :: double
  rboolean :: bool
  rtext :: string
  rblob :: "byte list"

definition empty_field :: raw_field where
  "empty_field = \<lparr>rtype = TNull, rnull = True, rinteger = 0, rreal = 0, rboolean = False, rtext = [], rblob = []\<rparr>"

definition raw_numeric :: "raw_field \<Rightarrow> bool" where
  "raw_numeric f \<longleftrightarrow> \<not> rnull f \<and> (rtype f = TInteger \<or> rtype f = TReal \<or> rtype f = TBoolean)"

definition raw_asReal :: "raw_field \<Rightarrow> double result" where
  "raw_asReal f =
     (if rtype f = TReal then Inr (rreal f)
      else if rtype f = TInteger then Inr (double_of_int (sint (rinteger f)))
      else if rtype f = TBoolean then Inr (double_of_int (if rboolean f then 1 else 0))
      else Inl (Runtime_Error ''Raw field is not numeric''))"

definition toValue :: "raw_field \<Rightarrow> val" where
  "toValue f =
     (if rnull f then VNull
      else case rtype f of
          TInteger \<Rightarrow> VInteger (rinteger f)
        | TReal \<Rightarrow> VReal (rreal f)
        | TText \<Rightarrow> VText (rtext f)
        | TBoolean \<Rightarrow> VBoolean (rboolean f)
        | TBlob \<Rightarrow> VBlob (rblob f)
        | TNull \<Rightarrow> VNull)"

section \<open>Literals\<close>

definition integerLiteral :: "ast option \<Rightarrow> int \<Rightarrow> int result" where
  "integerLiteral e fallback = (case e of
       Some (Literal _ _ (INT_LIT i)) \<Rightarrow> Inr i
     | Some (Literal _ _ (FLOAT_VAL d)) \<Rightarrow>
         (case double_trunc d of Some i \<Rightarrow> Inr i | None \<Rightarrow> Inl Undefined_Behaviour)
     | _ \<Rightarrow> Inr fallback)"

definition literalValue :: "literal \<Rightarrow> val" where
  "literalValue v = (case v of
       INT_LIT i \<Rightarrow> VInteger (word_of_int i)
     | FLOAT_VAL d \<Rightarrow> VReal d
     | STRING_VAL s \<Rightarrow> VText s
     | NUL \<Rightarrow> VNull
     | BOOL_VAL b \<Rightarrow> VBoolean b)"

section \<open>Decoders\<close>

text \<open>
  One field at \<open>off\<close>: the tag, then the payload; texts and blobs are only copied when the
  field is wanted.
\<close>

definition raw_field_at :: "bool \<Rightarrow> byte list \<Rightarrow> nat \<Rightarrow> (raw_field \<times> nat) result" where
  "raw_field_at materialize data off0 =
     (if length data \<le> off0 then Inl (Runtime_Error ''Corrupt tuple type tag'')
      else
        let tag = unat (data ! off0); off = off0 + 1
        in if tag = 0 then Inr (empty_field, off)
           else if tag = 1 then
             rbind (readPod 8 data off) (\<lambda>(n, off').
               Inr (empty_field\<lparr>rtype := TInteger, rnull := False, rinteger := word_of_nat n\<rparr>, off'))
           else if tag = 2 then
             rbind (readPod 8 data off) (\<lambda>(n, off').
               Inr (empty_field\<lparr>rtype := TReal, rnull := False, rreal := word_of_nat n\<rparr>, off'))
           else if tag = 4 then
             (if length data \<le> off then Inl (Runtime_Error ''Corrupt boolean tuple field'')
              else Inr (empty_field\<lparr>rtype := TBoolean, rnull := False, rboolean := data ! off \<noteq> 0\<rparr>, off + 1))
           else if tag = 3 then
             rbind (readPod 4 data off) (\<lambda>(len, off').
               if length data < off' + len then Inl (Runtime_Error ''Corrupt text tuple field'')
               else Inr (empty_field\<lparr>rtype := TText, rnull := False,
                 rtext := (if materialize then string_of_bytes (byte_run off' len data) else [])\<rparr>, off' + len))
           else if tag = 5 then
             rbind (readPod 4 data off) (\<lambda>(len, off').
               if length data < off' + len then Inl (Runtime_Error ''Corrupt blob tuple field'')
               else Inr (empty_field\<lparr>rtype := TBlob, rnull := False,
                 rblob := (if materialize then byte_run off' len data else [])\<rparr>, off' + len))
           else Inl (Runtime_Error ''Unknown tuple field type''))"

text \<open>
  The projecting loop: \<open>todo\<close> fields are left, \<open>columns\<close> is the suffix of wanted columns. Slots
  of the result that the loop does not reach keep the default field.
\<close>

fun raw_fields :: "byte list \<Rightarrow> nat \<Rightarrow> nat \<Rightarrow> nat list \<Rightarrow> nat \<Rightarrow> raw_field list result" where
  "raw_fields data 0 index columns off = Inr (map (\<lambda>_. empty_field) columns)"
| "raw_fields data (Suc todo) index columns off =
     (let materialize = (columns \<noteq> [] \<and> hd columns = index)
      in rbind (raw_field_at materialize data off) (\<lambda>(f, off').
         if materialize then
           (if tl columns = [] then Inr [f]
            else rbind (raw_fields data todo (index + 1) (tl columns) off') (\<lambda>fs. Inr (f # fs)))
         else raw_fields data todo (index + 1) columns off'))"

definition decodeRawProjectedInto :: "byte list \<Rightarrow> nat list \<Rightarrow> raw_field list result" where
  "decodeRawProjectedInto data columns =
     (if columns = [] then Inr []
      else rbind (readPod 2 data 0) (\<lambda>(count, off).
        if count \<le> last columns \<or> \<not> sorted columns \<or> \<not> distinct_adj columns
        then Inl (Runtime_Error ''Invalid projected tuple columns'')
        else raw_fields data count 0 columns off))"

fun raw_column :: "byte list \<Rightarrow> nat \<Rightarrow> nat \<Rightarrow> nat \<Rightarrow> nat \<Rightarrow> raw_field result" where
  "raw_column data 0 index column off = Inl (Runtime_Error ''Invalid projected tuple column'')"
| "raw_column data (Suc todo) index column off =
     (let materialize = (index = column)
      in rbind (raw_field_at materialize data off) (\<lambda>(f, off').
         if materialize then Inr f else raw_column data todo (index + 1) column off'))"

definition decodeRawColumn :: "byte list \<Rightarrow> nat \<Rightarrow> raw_field result" where
  "decodeRawColumn data column =
     rbind (readPod 2 data 0) (\<lambda>(count, off).
       if count \<le> column then Inl (Runtime_Error ''Invalid projected tuple column'')
       else raw_column data count 0 column off)"

section \<open>Comparisons and names\<close>

definition compareRawToValue :: "raw_field \<Rightarrow> val \<Rightarrow> int" where
  "compareRawToValue left right =
     (if rnull left \<or> isNull right then
        (if rnull left \<and> isNull right then 0 else if rnull left then -1 else 1)
      else if raw_numeric left \<and> isNumeric right then
        (case (raw_asReal left, asReal right) of
           (Inr l, Inr r) \<Rightarrow> (if double_lt l r then -1 else if double_lt r l then 1 else 0)
         | _ \<Rightarrow> 0)
      else compare_value (toValue left) right)"

definition comparisonMatches :: "string \<Rightarrow> int \<Rightarrow> bool result" where
  "comparisonMatches op order =
     (if op = ''='' then Inr (order = 0)
      else if op = ''!='' then Inr (order \<noteq> 0)
      else if op = ''<'' then Inr (order < 0)
      else if op = ''>'' then Inr (order > 0)
      else if op = ''<='' then Inr (order \<le> 0)
      else if op = ''>='' then Inr (order \<ge> 0)
      else Inl (Runtime_Error (''Unsupported comparison operator: '' @ op)))"

definition normalizeColumnPredicateOp :: "string \<Rightarrow> bool \<Rightarrow> string" where
  "normalizeColumnPredicateOp op columnOnLeft =
     (if columnOnLeft then op
      else if op = ''<'' then ''>''
      else if op = ''>'' then ''<''
      else if op = ''<='' then ''>=''
      else if op = ''>='' then ''<=''
      else op)"

definition isLoneWolfName :: "string \<Rightarrow> bool" where
  "isLoneWolfName name \<longleftrightarrow> name = ''LONE-WOLF'' \<or> name = ''lone-wolf''"

definition isSimpleAggregateName :: "string \<Rightarrow> bool" where
  "isSimpleAggregateName name \<longleftrightarrow>
     name = ''headcount'' \<or> name = ''stack'' \<or> name = ''mid'' \<or> name = ''goat'' \<or> name = ''L'' \<or> isLoneWolfName name"

text \<open>
  \<open>countLoneWolves\<close>: the samples more than three standard deviations from their mean, in
  doubles, with the sums taken in the order of the samples.
\<close>

definition countLoneWolves :: "double list \<Rightarrow> nat" where
  "countLoneWolves samples =
     (if length samples < 2 then 0
      else
        let sums = fold (\<lambda>x (sum, squares). (dadd sum x, dadd squares (dmul x x))) samples (0, 0);
            count = double_of_int (int (length samples));
            mean = ddiv (fst sums) count;
            variance = dmax 0 (dsub (ddiv (snd sums) count) (dmul mean mean));
            sigma = dsqrt variance;
            threshold = dmul sigma (double_of_int 3)
        in if double_eq sigma 0 then 0
           else length (filter (\<lambda>x. double_lt threshold (dabs (dsub x mean))) samples))"

lemma countLoneWolves_le: "countLoneWolves samples \<le> length samples"
  by (simp add: countLoneWolves_def Let_def)

section \<open>Agreement with the tuple decoder\<close>

definition raw_of :: "val \<Rightarrow> raw_field" where
  "raw_of v = (case v of
       VNull \<Rightarrow> empty_field
     | VInteger i \<Rightarrow> empty_field\<lparr>rtype := TInteger, rnull := False, rinteger := i\<rparr>
     | VReal d \<Rightarrow> empty_field\<lparr>rtype := TReal, rnull := False, rreal := d\<rparr>
     | VBoolean b \<Rightarrow> empty_field\<lparr>rtype := TBoolean, rnull := False, rboolean := b\<rparr>
     | VText s \<Rightarrow> empty_field\<lparr>rtype := TText, rnull := False, rtext := s\<rparr>
     | VBlob bs \<Rightarrow> empty_field\<lparr>rtype := TBlob, rnull := False, rblob := bs\<rparr>)"

lemma toValue_raw_of [simp]: "toValue (raw_of v) = v"
  by (cases v) (simp_all add: toValue_def raw_of_def empty_field_def)

definition rmap :: "('a \<Rightarrow> 'b) \<Rightarrow> 'a result \<Rightarrow> 'b result" where
  "rmap f r = rbind r (\<lambda>x. Inr (f x))"

lemma rmap_simps [simp]: "rmap f (Inl e) = Inl e" "rmap f (Inr x) = Inr (f x)"
  by (simp_all add: rmap_def)

lemma rmap_rbind: "rmap f (rbind r g) = rbind r (\<lambda>x. rmap f (g x))"
  by (cases r) simp_all

lemma rbind_rmap: "rbind (rmap f r) g = rbind r (\<lambda>x. g (f x))"
  by (cases r) simp_all

lemma rbind_pair_cong: "(\<And>x y. r = Inr (x, y) \<Longrightarrow> f x y = g x y) \<Longrightarrow>
  rbind r (\<lambda>(x, y). f x y) = rbind r (\<lambda>(x, y). g x y)"
  by (cases r) auto

lemma raw_field_at_wanted: "raw_field_at True data off = rmap (\<lambda>(v, off'). (raw_of v, off')) (decode_field data off)"
  unfolding raw_field_at_def decode_field_def
  by (simp add: Let_def rmap_rbind raw_of_def split_beta if_distrib [of "rmap _"] cong: if_cong rbind_cong)

lemma raw_field_at_skipped: "rmap snd (raw_field_at False data off) = rmap snd (decode_field data off)"
  unfolding raw_field_at_def decode_field_def
  by (simp add: Let_def rmap_rbind split_beta if_distrib [of "rmap _"] cong: if_cong rbind_cong)

lemma skip_bind:
  "rbind (raw_field_at False data off) (\<lambda>(f, off'). g off') = rbind (decode_field data off) (\<lambda>(v, off'). g off')"
  using raw_field_at_skipped [of data off]
  by (cases "raw_field_at False data off"; cases "decode_field data off") (auto simp: split_beta)

lemma want_bind:
  "rbind (raw_field_at True data off) (\<lambda>(f, off'). g f off') = rbind (decode_field data off) (\<lambda>(v, off'). g (raw_of v) off')"
  by (cases "decode_field data off") (auto simp: raw_field_at_wanted)

lemma raw_fields_simps:
  "raw_fields data (Suc n) i [] off = rbind (decode_field data off) (\<lambda>(v, off'). raw_fields data n (Suc i) [] off')"
  "c \<noteq> i \<Longrightarrow> raw_fields data (Suc n) i (c # cs) off =
     rbind (decode_field data off) (\<lambda>(v, off'). raw_fields data n (Suc i) (c # cs) off')"
  "raw_fields data (Suc n) i (i # cs) off = rbind (decode_field data off) (\<lambda>(v, off').
     if cs = [] then Inr [raw_of v] else rmap (\<lambda>fs. raw_of v # fs) (raw_fields data n (Suc i) cs off'))"
  by (simp_all add: skip_bind want_bind rmap_def cong: if_cong)

lemma decode_fields_simps:
  "decode_fields data (Suc n) i [] off = rbind (decode_field data off) (\<lambda>(v, off'). decode_fields data n (Suc i) [] off')"
  "c \<noteq> i \<Longrightarrow> decode_fields data (Suc n) i (c # cs) off =
     rbind (decode_field data off) (\<lambda>(v, off'). decode_fields data n (Suc i) (c # cs) off')"
  "decode_fields data (Suc n) i (i # cs) off = rbind (decode_field data off) (\<lambda>(v, off').
     if cs = [] then Inr [v] else rmap (\<lambda>vs. v # vs) (decode_fields data n (Suc i) cs off'))"
  by (simp_all add: rmap_def cong: if_cong)

lemma rmap_bind_cong:
  "(\<And>v off'. g v off' = rmap h (g' v off')) \<Longrightarrow> rbind r (\<lambda>(v, off'). g v off') = rmap h (rbind r (\<lambda>(v, off'). g' v off'))"
  by (cases r) auto

lemma rmap_rmap: "rmap f (rmap g r) = rmap (\<lambda>x. f (g x)) r"
  by (cases r) simp_all

lemma raw_fields_correct:
  "sorted_wrt (<) columns \<Longrightarrow> \<forall>c\<in>set columns. i \<le> c \<and> c < i + n \<Longrightarrow>
   raw_fields data n i columns off = rmap (map raw_of) (decode_fields data n i columns off)"
proof (induction n arbitrary: i columns off)
  case 0
  then show ?case by (cases columns) auto
next
  case (Suc n)
  show ?case
  proof (cases columns)
    case Nil
    show ?thesis unfolding Nil raw_fields_simps decode_fields_simps
      by (rule rmap_bind_cong) (use Suc.IH [of "[]"] in simp)
  next
    case (Cons c cs)
    show ?thesis
    proof (cases "c = i")
      case True
      have cs: "sorted_wrt (<) cs" "\<forall>c\<in>set cs. Suc i \<le> c \<and> c < Suc i + n"
        using Suc.prems by (auto simp: Cons True Suc_le_eq)
      show ?thesis unfolding Cons True raw_fields_simps decode_fields_simps
        by (rule rmap_bind_cong) (use Suc.IH [OF cs] in \<open>simp add: rmap_rmap\<close>)
    next
      case False
      have later: "\<forall>d\<in>set columns. Suc i \<le> d \<and> d < Suc i + n"
        using Suc.prems False by (auto simp: Cons Suc_le_eq intro: less_trans)
      show ?thesis unfolding Cons raw_fields_simps(2) [OF False] decode_fields_simps(2) [OF False]
        by (rule rmap_bind_cong) (use Suc.IH [OF Suc.prems(1) later] in \<open>simp add: Cons\<close>)
    qed
  qed
qed

lemma sorted_distinct_adj: "sorted_wrt (<) xs \<longleftrightarrow> sorted xs \<and> distinct_adj (xs :: nat list)"
proof (induction xs rule: induct_list012)
  case (3 x y zs)
  then show ?case by (auto simp: distinct_adj_Cons_Cons intro: less_le_trans)
qed (simp_all add: distinct_adj_def)

lemma raw_column_single:
  "i \<le> column \<Longrightarrow> column < i + n \<Longrightarrow>
   raw_column data n i column off = rmap hd (raw_fields data n i [column] off)"
proof (induction n arbitrary: i off)
  case (Suc n)
  show ?case
  proof (cases "i = column")
    case True
    have "raw_column data (Suc n) i column off = rbind (decode_field data off) (\<lambda>(v, off'). Inr (raw_of v))"
      using True by (simp add: want_bind)
    moreover have "\<dots> = rmap hd (raw_fields data (Suc n) column [column] off)"
      unfolding raw_fields_simps by (rule rmap_bind_cong) simp
    ultimately show ?thesis using True by simp
  next
    case False
    have step: "raw_column data (Suc n) i column off =
        rbind (decode_field data off) (\<lambda>(v, off'). raw_column data n (Suc i) column off')"
      using False by (simp add: skip_bind)
    show ?thesis unfolding step raw_fields_simps(2) [OF False [symmetric]]
      by (rule rmap_bind_cong) (use Suc False in simp)
  qed
qed simp

text \<open>What \<open>decodeRawColumn\<close> says when the column is missing.\<close>

definition column_error :: "error \<Rightarrow> error" where
  "column_error e = (if e = Runtime_Error ''Invalid projected tuple columns''
     then Runtime_Error ''Invalid projected tuple column'' else e)"

lemma decode_field_error: "decode_field data off = Inl e \<Longrightarrow> column_error e = e"
  by (auto simp: decode_field_def readPod_def rbind_eq_Inl_iff column_error_def Let_def split: if_splits)

lemma decode_fields_error: "decode_fields data n i [c] off = Inl e \<Longrightarrow> column_error e = e"
  by (induction n arbitrary: i off) (auto simp: rbind_eq_Inl_iff decode_field_error split: if_splits)

definition on_error :: "(error \<Rightarrow> error) \<Rightarrow> 'a result \<Rightarrow> 'a result" where
  "on_error f r = (case r of Inl e \<Rightarrow> Inl (f e) | Inr x \<Rightarrow> Inr x)"

lemma decodeRawColumn_projected:
  "decodeRawColumn data c = on_error column_error (rmap (\<lambda>vs. hd (map raw_of vs)) (decodeTupleProjected data [c]))"
proof (cases "readPod 2 data 0")
  case (Inl e)
  then have "e = Runtime_Error ''Corrupt tuple payload''" by (auto simp: readPod_def split: if_splits)
  then show ?thesis using Inl
    by (simp add: decodeRawColumn_def decodeTupleProjected_def on_error_def column_error_def)
next
  case (Inr p)
  obtain count off where r: "readPod 2 data 0 = Inr (count, off)" using Inr by (cases p) auto
  show ?thesis
  proof (cases "count \<le> c")
    case True
    then show ?thesis by (simp add: decodeRawColumn_def decodeTupleProjected_def r on_error_def column_error_def)
  next
    case False
    then have "decodeRawColumn data c = rmap hd (raw_fields data count 0 [c] off)"
      by (simp add: decodeRawColumn_def r raw_column_single)
    also have "\<dots> = rmap (\<lambda>vs. hd (map raw_of vs)) (decode_fields data count 0 [c] off)"
      using False raw_fields_correct [of "[c]" 0 count data off] by (simp add: rmap_rmap)
    also have "\<dots> = on_error column_error (rmap (\<lambda>vs. hd (map raw_of vs)) (decode_fields data count 0 [c] off))"
      by (cases "decode_fields data count 0 [c] off") (auto simp: on_error_def decode_fields_error)
    finally show ?thesis using False by (simp add: decodeTupleProjected_def r)
  qed
qed

section \<open>Properties\<close>

text \<open>
  C31. The raw decoder is the tuple decoder: on every byte string and every list of columns it
  throws exactly where \<open>decodeTupleProjected\<close> throws, with the same exception, and otherwise
  its fields are the decoded values, position by position; decoding one column is decoding a
  projection to it, up to the wording of the message for a missing column; a raw field compares
  with a value as the value it stands for.
\<close>

theorem raw_projection_correct:
  "decodeRawProjectedInto data columns = rmap (map raw_of) (decodeTupleProjected data columns) \<and>
   decodeRawColumn data c = on_error column_error (rmap (\<lambda>vs. hd (map raw_of vs)) (decodeTupleProjected data [c])) \<and>
   toValue (raw_of v) = v \<and> compareRawToValue (raw_of v) w = compare_value v w"
proof (intro conjI)
  show "decodeRawProjectedInto data columns = rmap (map raw_of) (decodeTupleProjected data columns)"
  proof (cases "columns = []")
    case False
    show ?thesis unfolding decodeRawProjectedInto_def decodeTupleProjected_def if_not_P [OF False]
    proof (rule rmap_bind_cong)
      fix count off
      show "(if count \<le> last columns \<or> \<not> sorted columns \<or> \<not> distinct_adj columns
          then Inl (Runtime_Error ''Invalid projected tuple columns'') else raw_fields data count 0 columns off) =
          rmap (map raw_of) (if count \<le> last columns \<or> \<not> sorted_wrt (<) columns
          then Inl (Runtime_Error ''Invalid projected tuple columns'') else decode_fields data count 0 columns off)"
      proof (cases "count \<le> last columns \<or> \<not> sorted_wrt (<) columns")
        case True
        then show ?thesis by (simp add: sorted_distinct_adj)
      next
        case ok: False
        have "sorted columns" using ok by (simp add: sorted_distinct_adj)
        then have "\<forall>c\<in>set columns. c \<le> last columns"
          using False by (auto simp: in_set_conv_nth last_conv_nth intro!: sorted_nth_mono)
        then have "\<forall>c\<in>set columns. 0 \<le> c \<and> c < 0 + count" using ok by auto
        then show ?thesis using raw_fields_correct [of columns 0 count data off] ok
          by (auto simp: sorted_distinct_adj)
      qed
    qed
  qed (simp add: decodeRawProjectedInto_def decodeTupleProjected_def)
  show "decodeRawColumn data c =
      on_error column_error (rmap (\<lambda>vs. hd (map raw_of vs)) (decodeTupleProjected data [c]))"
    by (rule decodeRawColumn_projected)
  show "toValue (raw_of v) = v" by simp
  show "compareRawToValue (raw_of v) w = compare_value v w"
    by (cases v; cases w)
      (simp_all add: compareRawToValue_def compare_value_def raw_of_def empty_field_def raw_numeric_def
        raw_asReal_def toValue_def value_class_defs asReal_def)
qed

end
