(* ===== verification/Catalog.thy ===== *)
theory Catalog
  imports Hash_Utils Std_Text
begin

text \<open>
  The catalog (\<open>Catalog\<close>, \<open>src/metadata.h\<close> and \<open>src/metadata.cpp\<close>): tables, dataset snapshots
  and conversation contexts by name, with a revision number and a fingerprint of everything
  that matters for compiled statements.

  The \<open>unordered_map\<close>s are association lists in key order: every use but \<open>tableNames\<close> and its
  siblings sorts the names first, and the order in which those list the names is not specified
  by the language.
\<close>

section \<open>Entries\<close>

record column_meta =
  cm_name :: string
  cm_type :: string
  cm_primary_key :: bool
  cm_not_null :: bool
  cm_fk_table :: string
  cm_fk_col :: string

record table_meta =
  tm_name :: string
  tm_columns :: "column_meta list"

record feature_meta =
  fm_name :: string
  fm_spec :: string

record snapshot_row =
  sr_rowid :: string
  sr_split :: string

record snapshot_meta =
  sn_name :: string
  sn_queryText :: string
  sn_sourceTable :: string
  sn_schemaFingerprint :: string
  sn_tableVersion :: string
  sn_splitBy :: string
  sn_seed :: nat
  sn_features :: "feature_meta list"
  sn_label :: feature_meta
  sn_rows :: "snapshot_row list"
  sn_warnings :: "string list"

record message_meta =
  mm_id :: nat
  mm_speaker :: string
  mm_text :: string
  mm_tab :: string
  mm_schemaName :: string
  mm_schemaVersion :: string
  mm_storageRoute :: string
  mm_accessLabels :: "string list"
  mm_mentionedEntities :: "string list"
  mm_tags :: "string list"
  mm_tagReasons :: "string list"

record atom_meta =
  at_key :: string
  at_value :: string
  at_type :: string
  at_status :: string
  at_source :: string
  at_invalidatedBy :: string
  at_tab :: string
  at_schemaName :: string
  at_schemaVersion :: string
  at_accessLabels :: "string list"
  at_tags :: "string list"
  at_extractorRule :: string
  at_extractorConfidence :: string
  at_sourceStart :: nat
  at_sourceEnd :: nat
  at_originalSnippet :: string

record tab_alias =
  ta_alias :: string
  ta_target :: string

record context_schema =
  cxs_name :: string
  cxs_version :: string
  cxs_ownerAgentId :: string
  cxs_sensitivityLevel :: string
  cxs_retentionPolicy :: string
  cxs_storageBackend :: string
  cxs_vectorizationStrategy :: string
  cxs_vectorizedFields :: "string list"
  cxs_accessLabels :: "string list"
  cxs_indexedFields :: "string list"
  cxs_relatedSchemas :: "string list"

record context_meta =
  cx_name :: string
  cx_messages :: "message_meta list"
  cx_atoms :: "atom_meta list"
  cx_tabAliases :: "tab_alias list"

record catalog_data =
  cd_tables :: "(string \<times> table_meta) list"
  cd_snapshots :: "(string \<times> snapshot_meta) list"
  cd_contexts :: "(string \<times> context_meta) list"

record catalog = catalog_data +
  cat_revision :: nat
  cat_fingerprint :: u64

text \<open>The default members of the structures.\<close>

definition storage_route :: string where
  "storage_route =
     ''structured=catalog.contexts.messages; vector=ConversationMessage.content; blob=none''"

definition new_column :: column_meta where
  "new_column = \<lparr>cm_name = [], cm_type = [], cm_primary_key = False, cm_not_null = False, cm_fk_table = [], cm_fk_col = []\<rparr>"

definition new_feature :: feature_meta where
  "new_feature = \<lparr>fm_name = [], fm_spec = []\<rparr>"

definition new_snapshot_row :: snapshot_row where
  "new_snapshot_row = \<lparr>sr_rowid = [], sr_split = []\<rparr>"

definition new_snapshot :: snapshot_meta where
  "new_snapshot = \<lparr>sn_name = [], sn_queryText = [], sn_sourceTable = [], sn_schemaFingerprint = [],
     sn_tableVersion = [], sn_splitBy = [], sn_seed = 0, sn_features = [], sn_label = new_feature, sn_rows = [],
     sn_warnings = []\<rparr>"

definition new_message :: message_meta where
  "new_message = \<lparr>mm_id = 0, mm_speaker = [], mm_text = [], mm_tab = [], mm_schemaName = ''ConversationMessage'',
     mm_schemaVersion = ''v1'', mm_storageRoute = storage_route, mm_accessLabels = [], mm_mentionedEntities = [],
     mm_tags = [], mm_tagReasons = []\<rparr>"

definition new_atom :: atom_meta where
  "new_atom = \<lparr>at_key = [], at_value = [], at_type = [], at_status = [], at_source = [], at_invalidatedBy = [],
     at_tab = [], at_schemaName = ''ContextAtom'', at_schemaVersion = ''v1'', at_accessLabels = [], at_tags = [],
     at_extractorRule = [], at_extractorConfidence = ''1.00'', at_sourceStart = 0, at_sourceEnd = 0,
     at_originalSnippet = []\<rparr>"

definition new_tab_alias :: tab_alias where
  "new_tab_alias = \<lparr>ta_alias = [], ta_target = []\<rparr>"

section \<open>Fingerprint\<close>

definition fp_append :: "string \<Rightarrow> u64 \<Rightarrow> u64" where
  "fp_append value hash =
     fnv1a64AppendByte (fnv1a64Append hash (bytes_of_string value)) kFnv1a64FieldSeparator"

definition table_words :: "string \<times> table_meta \<Rightarrow> string list" where
  "table_words = (\<lambda>(name, table). name # concat (map (\<lambda>c.
     [cm_name c, cm_type c, if cm_primary_key c then ''1'' else ''0'', if cm_not_null c then ''1'' else ''0'',
      cm_fk_table c, cm_fk_col c]) (tm_columns table)))"

definition snapshot_words :: "string \<times> snapshot_meta \<Rightarrow> string list" where
  "snapshot_words = (\<lambda>(name, s).
     [name, sn_queryText s, sn_sourceTable s, sn_schemaFingerprint s, sn_tableVersion s, sn_splitBy s,
      string_of_nat (sn_seed s)] @ concat (map (\<lambda>f. [fm_name f, fm_spec f]) (sn_features s)) @
     [fm_name (sn_label s), fm_spec (sn_label s), string_of_nat (length (sn_rows s))])"

definition message_words :: "message_meta \<Rightarrow> string list" where
  "message_words m = [string_of_nat (mm_id m), mm_speaker m, mm_text m, mm_tab m] @ mm_tags m @ mm_tagReasons m"

definition atom_words :: "atom_meta \<Rightarrow> string list" where
  "atom_words a =
     [at_key a, at_value a, at_type a, at_status a, at_source a, at_invalidatedBy a, at_tab a] @ at_tags a @
     [at_extractorRule a, at_extractorConfidence a, string_of_nat (at_sourceStart a), string_of_nat (at_sourceEnd a),
      at_originalSnippet a]"

definition context_words :: "string \<times> context_meta \<Rightarrow> string list" where
  "context_words = (\<lambda>(name, c). name # concat (map message_words (cx_messages c)) @
     concat (map atom_words (cx_atoms c)) @
     concat (map (\<lambda>a. [ta_alias a, ta_target a]) (cx_tabAliases c)))"

definition fingerprint_words :: "'a catalog_data_scheme \<Rightarrow> string list" where
  "fingerprint_words c = concat (map table_words (cd_tables c)) @ concat (map snapshot_words (cd_snapshots c)) @
     concat (map context_words (cd_contexts c))"

definition fingerprint_of :: "'a catalog_data_scheme \<Rightarrow> u64" where
  "fingerprint_of c = fold fp_append (fingerprint_words c) kFnv1a64OffsetBasis"

definition recomputeFingerprint :: "catalog \<Rightarrow> catalog" where
  "recomputeFingerprint c = c\<lparr>cat_fingerprint := fingerprint_of c\<rparr>"

definition changed :: "catalog \<Rightarrow> catalog" where
  "changed c = recomputeFingerprint (c\<lparr>cat_revision := cat_revision c + 1\<rparr>)"

section \<open>Operations\<close>

definition new_catalog :: catalog where
  "new_catalog = \<lparr>cd_tables = [], cd_snapshots = [], cd_contexts = [], cat_revision = 0,
     cat_fingerprint = kFnv1a64OffsetBasis\<rparr>"

definition addTable :: "table_meta \<Rightarrow> catalog \<Rightarrow> catalog" where
  "addTable t c = changed (c\<lparr>cd_tables := omap_update (tm_name t) (\<lambda>_. t) (cd_tables c)\<rparr>)"

definition omap_erase :: "'k \<Rightarrow> ('k \<times> 'v) list \<Rightarrow> ('k \<times> 'v) list" where
  "omap_erase k xs = filter (\<lambda>(k', v). k' \<noteq> k) xs"

definition hasTable :: "string \<Rightarrow> 'a catalog_data_scheme \<Rightarrow> bool" where
  "hasTable name c \<longleftrightarrow> map_of (cd_tables c) name \<noteq> None"

definition getTable :: "string \<Rightarrow> 'a catalog_data_scheme \<Rightarrow> table_meta option" where
  "getTable name c = map_of (cd_tables c) name"

text \<open>Removing a table removes the snapshots taken from it.\<close>

definition removeTable :: "string \<Rightarrow> catalog \<Rightarrow> catalog" where
  "removeTable name c =
     (if hasTable name c then
        changed (c\<lparr>cd_tables := omap_erase name (cd_tables c),
          cd_snapshots := filter (\<lambda>(k, s). sn_sourceTable s \<noteq> name) (cd_snapshots c)\<rparr>)
      else c)"

definition addSnapshot :: "snapshot_meta \<Rightarrow> catalog \<Rightarrow> catalog" where
  "addSnapshot s c = changed (c\<lparr>cd_snapshots := omap_update (sn_name s) (\<lambda>_. s) (cd_snapshots c)\<rparr>)"

definition hasSnapshot :: "string \<Rightarrow> 'a catalog_data_scheme \<Rightarrow> bool" where
  "hasSnapshot name c \<longleftrightarrow> map_of (cd_snapshots c) name \<noteq> None"

definition getSnapshot :: "string \<Rightarrow> 'a catalog_data_scheme \<Rightarrow> snapshot_meta option" where
  "getSnapshot name c = map_of (cd_snapshots c) name"

definition removeSnapshot :: "string \<Rightarrow> catalog \<Rightarrow> catalog" where
  "removeSnapshot name c =
     (if hasSnapshot name c then changed (c\<lparr>cd_snapshots := omap_erase name (cd_snapshots c)\<rparr>) else c)"

definition addContext :: "context_meta \<Rightarrow> catalog \<Rightarrow> catalog" where
  "addContext x c = changed (c\<lparr>cd_contexts := omap_update (cx_name x) (\<lambda>_. x) (cd_contexts c)\<rparr>)"

definition hasContext :: "string \<Rightarrow> 'a catalog_data_scheme \<Rightarrow> bool" where
  "hasContext name c \<longleftrightarrow> map_of (cd_contexts c) name \<noteq> None"

definition getContext :: "string \<Rightarrow> 'a catalog_data_scheme \<Rightarrow> context_meta option" where
  "getContext name c = map_of (cd_contexts c) name"

definition removeContext :: "string \<Rightarrow> catalog \<Rightarrow> catalog" where
  "removeContext name c =
     (if hasContext name c then changed (c\<lparr>cd_contexts := omap_erase name (cd_contexts c)\<rparr>) else c)"

definition validateColumnRef :: "string \<Rightarrow> string \<Rightarrow> 'a catalog_data_scheme \<Rightarrow> string" where
  "validateColumnRef table column c =
     (if table = [] then []
      else case getTable table c of
          None \<Rightarrow> ''Unknown table: '' @ table
        | Some t \<Rightarrow>
            if \<exists>m\<in>set (tm_columns t). cm_name m = column then []
            else ''Column '' @ [CHR 0x27] @ column @ [CHR 0x27] @ '' not found in table '' @ [CHR 0x27] @ table @ [CHR 0x27])"

definition tableNames :: "'a catalog_data_scheme \<Rightarrow> string list" where
  "tableNames c = map fst (cd_tables c)"

definition snapshotNames :: "'a catalog_data_scheme \<Rightarrow> string list" where
  "snapshotNames c = map fst (cd_snapshots c)"

definition contextNames :: "'a catalog_data_scheme \<Rightarrow> string list" where
  "contextNames c = map fst (cd_contexts c)"

definition contextSchemas :: "context_schema list" where
  "contextSchemas =
     [\<lparr>cxs_name = ''ConversationMessage'', cxs_version = ''v1'', cxs_ownerAgentId = ''system'',
        cxs_sensitivityLevel = ''agent-internal'', cxs_retentionPolicy = ''conversation-lifetime'',
        cxs_storageBackend = ''structured+vector'',
        cxs_vectorizationStrategy = ''embed content for semantic filtering; keep metadata structured'',
        cxs_vectorizedFields = [''content''], cxs_accessLabels = [''AGENT_INTERNAL''],
        cxs_indexedFields = [''conversation_id'', ''sender_id'', ''sender_type'', ''timestamp'', ''tab'',
          ''mentioned_entities'', ''access_labels'', ''schema_name'', ''storage_route''],
        cxs_relatedSchemas = [''ContextAtom'', ''TaskState'', ''ToolInvocationLog'']\<rparr>,
      \<lparr>cxs_name = ''ContextAtom'', cxs_version = ''v1'', cxs_ownerAgentId = ''system'',
        cxs_sensitivityLevel = ''agent-internal'', cxs_retentionPolicy = ''conversation-lifetime'',
        cxs_storageBackend = ''structured'',
        cxs_vectorizationStrategy = ''not vectorized; derived from source message content'',
        cxs_vectorizedFields = [], cxs_accessLabels = [''AGENT_INTERNAL''],
        cxs_indexedFields = [''key'', ''type'', ''status'', ''tab'', ''source'', ''invalidated_by'',
          ''access_labels'', ''schema_name''],
        cxs_relatedSchemas = [''ConversationMessage'']\<rparr>,
      \<lparr>cxs_name = ''TaskState'', cxs_version = ''v1'', cxs_ownerAgentId = ''system'',
        cxs_sensitivityLevel = ''agent-internal'', cxs_retentionPolicy = ''task-lifetime'',
        cxs_storageBackend = ''structured'',
        cxs_vectorizationStrategy = ''description may be embedded when semantic task lookup lands'',
        cxs_vectorizedFields = [''description''], cxs_accessLabels = [''AGENT_INTERNAL''],
        cxs_indexedFields = [''task_id'', ''status'', ''assigned_agent_id'', ''last_update_timestamp''],
        cxs_relatedSchemas = [''ConversationMessage'', ''ToolInvocationLog'']\<rparr>,
      \<lparr>cxs_name = ''ToolInvocationLog'', cxs_version = ''v1'', cxs_ownerAgentId = ''system'',
        cxs_sensitivityLevel = ''agent-internal'', cxs_retentionPolicy = ''audit-lifetime'',
        cxs_storageBackend = ''structured+blob'',
        cxs_vectorizationStrategy = ''large tool payloads stay as blob refs; summaries can be embedded'',
        cxs_vectorizedFields = [''summary''], cxs_accessLabels = [''AGENT_INTERNAL'', ''TOOL_TRACE''],
        cxs_indexedFields = [''tool_id'', ''conversation_id'', ''message_id'', ''status'', ''timestamp''],
        cxs_relatedSchemas = [''ConversationMessage'', ''TaskState'']\<rparr>,
      \<lparr>cxs_name = ''UserProfile'', cxs_version = ''v1'', cxs_ownerAgentId = ''system'',
        cxs_sensitivityLevel = ''confidential'', cxs_retentionPolicy = ''user-lifetime'',
        cxs_storageBackend = ''structured'',
        cxs_vectorizationStrategy = ''selected preference text can be embedded after policy check'',
        cxs_vectorizedFields = [''preferences''], cxs_accessLabels = [''CONFIDENTIAL_CUSTOMER_DATA''],
        cxs_indexedFields = [''user_id'', ''tenant_id'', ''access_labels''],
        cxs_relatedSchemas = [''ConversationMessage'']\<rparr>]"

section \<open>The catalog as maps\<close>

text \<open>The invariant: keys in order, entries under their own names.\<close>

definition catalog_ok :: "'a catalog_data_scheme \<Rightarrow> bool" where
  "catalog_ok c \<longleftrightarrow> omap_ok (cd_tables c) \<and> omap_ok (cd_snapshots c) \<and> omap_ok (cd_contexts c) \<and>
     (\<forall>(k, t)\<in>set (cd_tables c). tm_name t = k) \<and> (\<forall>(k, s)\<in>set (cd_snapshots c). sn_name s = k) \<and>
     (\<forall>(k, x)\<in>set (cd_contexts c). cx_name x = k)"

lemma set_omap_update: "set (omap_update k (\<lambda>_. x) xs) \<subseteq> insert (k, x) (set xs)"
  by (induction k "\<lambda>_ :: 'b option. x" xs rule: omap_update.induct) auto

lemma omap_filter_ok [simp]: "omap_ok xs \<Longrightarrow> omap_ok (filter P xs)"
  by (simp add: omap_ok_def sorted_wrt_filter_map)

lemma map_of_omap_erase: "map_of (omap_erase k xs) = (map_of xs)(k := None)"
  by (induction xs) (auto simp: omap_erase_def fun_eq_iff)

lemma omap_erase_ok [simp]: "omap_ok xs \<Longrightarrow> omap_ok (omap_erase k xs)"
  by (simp add: omap_erase_def)

lemma changed_data [simp]:
  "cd_tables (changed c) = cd_tables c" "cd_snapshots (changed c) = cd_snapshots c"
  "cd_contexts (changed c) = cd_contexts c" "cat_revision (changed c) = cat_revision c + 1"
  by (simp_all add: changed_def recomputeFingerprint_def)

lemma changed_fingerprint [simp]: "cat_fingerprint (changed c) = fingerprint_of c"
  by (simp add: changed_def recomputeFingerprint_def fingerprint_of_def fingerprint_words_def)

end
