(* ===== verification/Catalog_Json.thy ===== *)
theory Catalog_Json
  imports Catalog
begin

text \<open>
  The text of the catalog file (\<open>escapeJson\<close>, \<open>JsonReader\<close>, \<open>Catalog::load\<close> and
  \<open>Catalog::save\<close> of \<open>src/metadata.cpp\<close>). The reader works on the rest of the text; its loops
  take fuel. The writer is the same text in combinators for objects, arrays and maps, with the
  blanks of the source as arguments.

  \<open>Catalog_Reader\<close> shows that the reader returns on every text, \<open>Catalog_Roundtrip\<close> that it reads
  back what the writer wrote.
\<close>

section \<open>Writing\<close>

abbreviation dquote :: char where
  "dquote \<equiv> CHR 0x22"

abbreviation backslash :: char where
  "backslash \<equiv> CHR 0x5C"

definition low_hex :: "nat \<Rightarrow> char" where
  "low_hex d = (if d < 10 then char_of (48 + d) else char_of (87 + d))"

definition escape_char :: "char \<Rightarrow> string" where
  "escape_char c =
     (if c = dquote then [backslash, dquote]
      else if c = backslash then [backslash, backslash]
      else if ord_char c = 8 then [backslash, CHR ''b'']
      else if ord_char c = 12 then [backslash, CHR ''f'']
      else if ord_char c = 10 then [backslash, CHR ''n'']
      else if ord_char c = 13 then [backslash, CHR ''r'']
      else if ord_char c = 9 then [backslash, CHR ''t'']
      else if ord_char c < 0x20
      then [backslash] @ ''u00'' @ [low_hex (ord_char c div 16), low_hex (ord_char c mod 16)]
      else [c])"

definition escapeJson :: "string \<Rightarrow> string" where
  "escapeJson s = concat (map escape_char s)"

definition json_string :: "string \<Rightarrow> string" where
  "json_string s = [dquote] @ escapeJson s @ [dquote]"

definition json_bool :: "bool \<Rightarrow> string" where
  "json_bool b = (if b then ''true'' else ''false'')"

fun joined :: "string \<Rightarrow> string list \<Rightarrow> string" where
  "joined sep [] = []"
| "joined sep [x] = x"
| "joined sep (x # xs) = x @ sep @ joined sep xs"

text \<open>A line break and \<open>n\<close> blanks.\<close>

definition nl :: "nat \<Rightarrow> string" where
  "nl n = CHR 0x0A # replicate n (CHR '' '')"

text \<open>
  Objects \<open>{open f1, sep f2 \<dots> close}\<close>, arrays \<open>[open x1, sep x2 \<dots> close]\<close> (empty: \<open>[]\<close>) and
  maps from names (empty: \<open>{}\<close>).
\<close>

definition json_member :: "string \<times> string \<Rightarrow> string" where
  "json_member = (\<lambda>(k, v). json_string k @ '': '' @ v)"

definition json_object :: "string \<Rightarrow> string \<Rightarrow> string \<Rightarrow> (string \<times> string) list \<Rightarrow> string" where
  "json_object opening sep closing members =
     ''{'' @ opening @ joined ('','' @ sep) (map json_member members) @ closing @ ''}''"

definition json_array :: "string \<Rightarrow> string \<Rightarrow> string \<Rightarrow> string list \<Rightarrow> string" where
  "json_array opening sep closing xs =
     (if xs = [] then ''[]'' else ''['' @ opening @ joined ('','' @ sep) xs @ closing @ '']'')"

definition json_map :: "(string \<times> string) list \<Rightarrow> string" where
  "json_map entries = (if entries = [] then ''{}'' else json_object (nl 4) (nl 4) (nl 2) entries)"

definition writeJsonStringArray :: "string list \<Rightarrow> string" where
  "writeJsonStringArray xs = json_array [] '' '' [] (map json_string xs)"

definition json_row :: "(string \<times> string) list \<Rightarrow> string" where
  "json_row members = json_object [] '' '' [] members"

definition json_block :: "(string \<times> string) list \<Rightarrow> string" where
  "json_block members = json_object (nl 6) (nl 6) (nl 4) members"

definition json_rows :: "string list \<Rightarrow> string" where
  "json_rows rows = json_array (nl 8) (nl 8) (nl 6) rows"

definition write_column :: "column_meta \<Rightarrow> string" where
  "write_column c = json_row
     [(''name'', json_string (cm_name c)), (''type'', json_string (cm_type c)),
      (''primary_key'', json_bool (cm_primary_key c)), (''not_null'', json_bool (cm_not_null c)),
      (''fk_table'', json_string (cm_fk_table c)), (''fk_col'', json_string (cm_fk_col c))]"

definition write_table :: "table_meta \<Rightarrow> string" where
  "write_table t = json_block [(''columns'', json_rows (map write_column (tm_columns t)))]"

definition write_feature :: "feature_meta \<Rightarrow> string" where
  "write_feature f = json_row [(''name'', json_string (fm_name f)), (''spec'', json_string (fm_spec f))]"

definition write_snapshot_row :: "snapshot_row \<Rightarrow> string" where
  "write_snapshot_row r = json_row [(''rowid'', json_string (sr_rowid r)), (''split'', json_string (sr_split r))]"

definition write_snapshot :: "snapshot_meta \<Rightarrow> string" where
  "write_snapshot s = json_block
     [(''query_text'', json_string (sn_queryText s)), (''source_table'', json_string (sn_sourceTable s)),
      (''schema_fingerprint'', json_string (sn_schemaFingerprint s)),
      (''table_version'', json_string (sn_tableVersion s)), (''split_by'', json_string (sn_splitBy s)),
      (''seed'', string_of_nat (sn_seed s)), (''features'', json_rows (map write_feature (sn_features s))),
      (''label'', write_feature (sn_label s)), (''rows'', json_rows (map write_snapshot_row (sn_rows s))),
      (''warnings'', writeJsonStringArray (sn_warnings s))]"

definition write_message :: "message_meta \<Rightarrow> string" where
  "write_message m = json_row
     [(''id'', string_of_nat (mm_id m)), (''speaker'', json_string (mm_speaker m)),
      (''text'', json_string (mm_text m)), (''tab'', json_string (mm_tab m)),
      (''schema_name'', json_string (mm_schemaName m)), (''schema_version'', json_string (mm_schemaVersion m)),
      (''storage_route'', json_string (mm_storageRoute m)),
      (''access_labels'', writeJsonStringArray (mm_accessLabels m)),
      (''mentioned_entities'', writeJsonStringArray (mm_mentionedEntities m)),
      (''tags'', writeJsonStringArray (mm_tags m)), (''tag_reasons'', writeJsonStringArray (mm_tagReasons m))]"

definition write_atom :: "atom_meta \<Rightarrow> string" where
  "write_atom a = json_row
     [(''key'', json_string (at_key a)), (''value'', json_string (at_value a)), (''type'', json_string (at_type a)),
      (''status'', json_string (at_status a)), (''source'', json_string (at_source a)),
      (''invalidated_by'', json_string (at_invalidatedBy a)), (''tab'', json_string (at_tab a)),
      (''schema_name'', json_string (at_schemaName a)), (''schema_version'', json_string (at_schemaVersion a)),
      (''access_labels'', writeJsonStringArray (at_accessLabels a)), (''tags'', writeJsonStringArray (at_tags a)),
      (''extractor_rule'', json_string (at_extractorRule a)),
      (''extractor_confidence'', json_string (at_extractorConfidence a)),
      (''source_start'', string_of_nat (at_sourceStart a)), (''source_end'', string_of_nat (at_sourceEnd a)),
      (''original_snippet'', json_string (at_originalSnippet a))]"

definition write_tab_alias :: "tab_alias \<Rightarrow> string" where
  "write_tab_alias a = json_row [(''alias'', json_string (ta_alias a)), (''target'', json_string (ta_target a))]"

definition write_context :: "context_meta \<Rightarrow> string" where
  "write_context x = json_block
     [(''messages'', json_rows (map write_message (cx_messages x))),
      (''atoms'', json_rows (map write_atom (cx_atoms x))),
      (''tab_aliases'', json_rows (map write_tab_alias (cx_tabAliases x)))]"

definition catalog_text :: "'a catalog_data_scheme \<Rightarrow> string" where
  "catalog_text c = json_object (nl 2) (nl 2) (nl 0)
     [(''tables'', json_map (map (\<lambda>(k, t). (k, write_table t)) (cd_tables c))),
      (''snapshots'', json_map (map (\<lambda>(k, s). (k, write_snapshot s)) (cd_snapshots c))),
      (''contexts'', json_map (map (\<lambda>(k, x). (k, write_context x)) (cd_contexts c)))] @ nl 0"

section \<open>Reading\<close>

text \<open>
  A reader takes the rest of the text and returns a value and the new rest, or an exception;
  \<open>No_Fuel\<close> is a loop that ran out of fuel.
\<close>

datatype 'a json = Read 'a string | Malformed error | No_Fuel

type_synonym 'a reader = "string \<Rightarrow> 'a json"

definition jbind :: "'a json \<Rightarrow> ('a \<Rightarrow> 'b reader) \<Rightarrow> 'b json" where
  "jbind m f = (case m of Read x s \<Rightarrow> f x s | Malformed e \<Rightarrow> Malformed e | No_Fuel \<Rightarrow> No_Fuel)"

lemma jbind_simps [simp]:
  "jbind (Read x s) f = f x s" "jbind (Malformed e) f = Malformed e" "jbind No_Fuel f = No_Fuel"
  by (simp_all add: jbind_def)

abbreviation malformed :: "string \<Rightarrow> 'a json" where
  "malformed msg \<equiv> Malformed (Runtime_Error msg)"

definition skip_blanks :: "string \<Rightarrow> string" where
  "skip_blanks s = dropWhile isspace s"

text \<open>\<open>consume\<close>: the rest after the character, if it comes next; \<open>expect\<close> throws otherwise.\<close>

definition accept :: "char \<Rightarrow> string \<Rightarrow> bool \<times> string" where
  "accept c s = (case skip_blanks s of
       [] \<Rightarrow> (False, [])
     | d # rest \<Rightarrow> if d = c then (True, rest) else (False, d # rest))"

definition require :: "char \<Rightarrow> unit reader" where
  "require c s = (case accept c s of
       (True, rest) \<Rightarrow> Read () rest | (False, _) \<Rightarrow> malformed ''Malformed catalog JSON'')"

definition hex_value :: "char \<Rightarrow> nat option" where
  "hex_value c =
     (let n = ord_char c
      in if 48 \<le> n \<and> n \<le> 57 then Some (n - 48)
         else if 97 \<le> n \<and> n \<le> 102 then Some (n - 87)
         else if 65 \<le> n \<and> n \<le> 70 then Some (n - 55)
         else None)"

fun hex_digits :: "nat \<Rightarrow> nat \<Rightarrow> string \<Rightarrow> (nat \<times> string) option" where
  "hex_digits 0 v s = Some (v, s)"
| "hex_digits (Suc n) v s = (case s of
     [] \<Rightarrow> None
   | c # rest \<Rightarrow> (case hex_value c of None \<Rightarrow> None | Some d \<Rightarrow> hex_digits n (16 * v + d) rest))"

text \<open>What follows a backslash.\<close>

definition read_escape :: "char reader" where
  "read_escape s = (case s of
       [] \<Rightarrow> malformed ''Invalid JSON escape''
     | c # rest \<Rightarrow>
         if c = dquote \<or> c = backslash \<or> c = CHR ''/'' then Read c rest
         else if c = CHR ''b'' then Read (char_of (8 :: nat)) rest
         else if c = CHR ''f'' then Read (char_of (12 :: nat)) rest
         else if c = CHR ''n'' then Read (char_of (10 :: nat)) rest
         else if c = CHR ''r'' then Read (char_of (13 :: nat)) rest
         else if c = CHR ''t'' then Read (char_of (9 :: nat)) rest
         else if c = CHR ''u'' then
           (if length rest < 4 then malformed ''Invalid Unicode escape''
            else case hex_digits 4 0 rest of
                None \<Rightarrow> malformed ''Invalid Unicode escape''
              | Some (v, rest') \<Rightarrow>
                  if v \<le> 0x7f then Read (char_of v) rest'
                  else malformed ''Non-ASCII catalog escape is unsupported'')
         else malformed ''Invalid JSON escape'')"

fun read_chars :: "nat \<Rightarrow> string reader" where
  "read_chars 0 s = No_Fuel"
| "read_chars (Suc n) s = (case s of
     [] \<Rightarrow> malformed ''Unterminated JSON string''
   | c # rest \<Rightarrow>
       if c = dquote then Read [] rest
       else if c \<noteq> backslash then jbind (read_chars n rest) (\<lambda>cs s. Read (c # cs) s)
       else jbind (read_escape rest) (\<lambda>d s. jbind (read_chars n s) (\<lambda>cs s. Read (d # cs) s)))"

definition parseString :: "string reader" where
  "parseString s = (case skip_blanks s of
       [] \<Rightarrow> malformed ''Expected JSON string''
     | c # rest \<Rightarrow> if c = dquote then read_chars (Suc (length rest)) rest else malformed ''Expected JSON string'')"

definition parseBool :: "bool reader" where
  "parseBool s =
     (let rest = skip_blanks s
      in if take 4 rest = ''true'' then Read True (drop 4 rest)
         else if take 5 rest = ''false'' then Read False (drop 5 rest)
         else malformed ''Expected JSON boolean'')"

definition parseUnsigned :: "nat reader" where
  "parseUnsigned s =
     (let rest = skip_blanks s; digits = takeWhile isdigit rest
      in if digits = [] then malformed ''Expected JSON integer''
         else case stoull digits of Inl e \<Rightarrow> Malformed e | Inr v \<Rightarrow> Read v (dropWhile isdigit rest))"

text \<open>
  The loops \<open>do item while (consume(','))\<close>: over the items of an array, and over the members
  of an object, which update a state.
\<close>

fun read_items :: "nat \<Rightarrow> 'a reader \<Rightarrow> 'a list reader" where
  "read_items 0 item s = No_Fuel"
| "read_items (Suc n) item s = jbind (item s) (\<lambda>x s.
     case accept CHR '','' s of
       (True, s) \<Rightarrow> jbind (read_items n item s) (\<lambda>xs s. Read (x # xs) s)
     | (False, s) \<Rightarrow> Read [x] s)"

definition read_array :: "nat \<Rightarrow> 'a reader \<Rightarrow> 'a list reader" where
  "read_array n item s = jbind (require CHR ''['' s) (\<lambda>_ s.
     case accept CHR '']'' s of
       (True, s) \<Rightarrow> Read [] s
     | (False, s) \<Rightarrow> jbind (read_items n item s) (\<lambda>xs s.
         jbind (require CHR '']'' s) (\<lambda>_ s. Read xs s)))"

fun read_members :: "nat \<Rightarrow> (string \<Rightarrow> 'st \<Rightarrow> 'st reader) \<Rightarrow> 'st \<Rightarrow> 'st reader" where
  "read_members 0 member st s = No_Fuel"
| "read_members (Suc n) member st s = jbind (parseString s) (\<lambda>key s.
     jbind (require CHR '':'' s) (\<lambda>_ s.
     jbind (member key st s) (\<lambda>st s.
     case accept CHR '','' s of
       (True, s) \<Rightarrow> read_members n member st s
     | (False, s) \<Rightarrow> Read st s)))"

text \<open>\<open>finish\<close> is what the source does after a closing brace that follows members.\<close>

definition read_object :: "nat \<Rightarrow> (string \<Rightarrow> 'st \<Rightarrow> 'st reader) \<Rightarrow> ('st \<Rightarrow> 'st) \<Rightarrow> 'st \<Rightarrow> 'st reader" where
  "read_object n member finish st s = jbind (require CHR ''{'' s) (\<lambda>_ s.
     case accept CHR ''}'' s of
       (True, s) \<Rightarrow> Read st s
     | (False, s) \<Rightarrow> jbind (read_members n member st s) (\<lambda>st s.
         jbind (require CHR ''}'' s) (\<lambda>_ s. Read (finish st) s)))"

text \<open>\<open>skipValue\<close>: a value that is not used.\<close>

definition word_end :: "char \<Rightarrow> bool" where
  "word_end c \<longleftrightarrow> isspace c \<or> c = CHR '','' \<or> c = CHR ''}'' \<or> c = CHR '']''"

fun skipValue :: "nat \<Rightarrow> unit reader" where
  "skipValue 0 s = No_Fuel"
| "skipValue (Suc n) s = (case skip_blanks s of
     [] \<Rightarrow> malformed ''Missing JSON value''
   | c # rest \<Rightarrow>
       if c = dquote then jbind (parseString (c # rest)) (\<lambda>_ s. Read () s)
       else if c = CHR ''{'' then read_object n (\<lambda>key u. skipValue n) id () (c # rest)
       else if c = CHR ''['' then jbind (read_array n (skipValue n) (c # rest)) (\<lambda>_ s. Read () s)
       else if word_end c then malformed ''Invalid JSON value''
       else Read () (dropWhile (\<lambda>c. \<not> word_end c) (c # rest)))"

definition parseStringArray :: "nat \<Rightarrow> string list reader" where
  "parseStringArray n = read_array n parseString"

text \<open>One member of a structure: read the value and store it.\<close>

definition store :: "'a reader \<Rightarrow> ('a \<Rightarrow> 'st \<Rightarrow> 'st) \<Rightarrow> 'st \<Rightarrow> 'st reader" where
  "store value put st s = jbind (value s) (\<lambda>x s. Read (put x st) s)"

definition ignore :: "nat \<Rightarrow> 'st \<Rightarrow> 'st reader" where
  "ignore n st s = jbind (skipValue n s) (\<lambda>_ s. Read st s)"

text \<open>Unknown keys are skipped.\<close>

definition dispatch :: "nat \<Rightarrow> (string \<times> ('st \<Rightarrow> 'st reader)) list \<Rightarrow> string \<Rightarrow> 'st \<Rightarrow> 'st reader" where
  "dispatch n readers key st = (case map_of readers key of Some r \<Rightarrow> r st | None \<Rightarrow> ignore n st)"

definition parseColumn :: "nat \<Rightarrow> column_meta reader" where
  "parseColumn n = read_object n (dispatch n
     [(''name'', store parseString (\<lambda>x c. c\<lparr>cm_name := x\<rparr>)),
      (''type'', store parseString (\<lambda>x c. c\<lparr>cm_type := x\<rparr>)),
      (''primary_key'', store parseBool (\<lambda>x c. c\<lparr>cm_primary_key := x\<rparr>)),
      (''not_null'', store parseBool (\<lambda>x c. c\<lparr>cm_not_null := x\<rparr>)),
      (''fk_table'', store parseString (\<lambda>x c. c\<lparr>cm_fk_table := x\<rparr>)),
      (''fk_col'', store parseString (\<lambda>x c. c\<lparr>cm_fk_col := x\<rparr>))])
     (\<lambda>c. if cm_type c = [] then c\<lparr>cm_type := ''TEXT''\<rparr> else c) new_column"

definition parseColumns :: "nat \<Rightarrow> column_meta list reader" where
  "parseColumns n = read_array n (parseColumn n)"

definition parseTable :: "nat \<Rightarrow> string \<Rightarrow> table_meta reader" where
  "parseTable n name = read_object n (dispatch n
     [(''columns'', store (parseColumns n) (\<lambda>x t. t\<lparr>tm_columns := x\<rparr>))]) id \<lparr>tm_name = name, tm_columns = []\<rparr>"

text \<open>\<open>result[name] = value\<close> for every member: a map from names.\<close>

definition parse_map :: "nat \<Rightarrow> (string \<Rightarrow> 'a reader) \<Rightarrow> (string \<times> 'a) list reader" where
  "parse_map n value = read_object n
     (\<lambda>name entries s. jbind (value name s) (\<lambda>v s. Read (omap_update name (\<lambda>_. v) entries) s)) id []"

definition parseTables :: "nat \<Rightarrow> (string \<times> table_meta) list reader" where
  "parseTables n = parse_map n (parseTable n)"

definition parseFeature :: "nat \<Rightarrow> feature_meta reader" where
  "parseFeature n = read_object n (dispatch n
     [(''name'', store parseString (\<lambda>x f. f\<lparr>fm_name := x\<rparr>)),
      (''spec'', store parseString (\<lambda>x f. f\<lparr>fm_spec := x\<rparr>))]) id new_feature"

definition parseFeatures :: "nat \<Rightarrow> feature_meta list reader" where
  "parseFeatures n = read_array n (parseFeature n)"

definition parse_row :: "nat \<Rightarrow> snapshot_row reader" where
  "parse_row n = read_object n (dispatch n
     [(''rowid'', store parseString (\<lambda>x r. r\<lparr>sr_rowid := x\<rparr>)),
      (''split'', store parseString (\<lambda>x r. r\<lparr>sr_split := x\<rparr>))]) id new_snapshot_row"

definition parseRows :: "nat \<Rightarrow> snapshot_row list reader" where
  "parseRows n = read_array n (parse_row n)"

definition parseSnapshot :: "nat \<Rightarrow> string \<Rightarrow> snapshot_meta reader" where
  "parseSnapshot n name = read_object n (dispatch n
     [(''query_text'', store parseString (\<lambda>x s. s\<lparr>sn_queryText := x\<rparr>)),
      (''source_table'', store parseString (\<lambda>x s. s\<lparr>sn_sourceTable := x\<rparr>)),
      (''schema_fingerprint'', store parseString (\<lambda>x s. s\<lparr>sn_schemaFingerprint := x\<rparr>)),
      (''table_version'', store parseString (\<lambda>x s. s\<lparr>sn_tableVersion := x\<rparr>)),
      (''split_by'', store parseString (\<lambda>x s. s\<lparr>sn_splitBy := x\<rparr>)),
      (''seed'', store parseUnsigned (\<lambda>x s. s\<lparr>sn_seed := x\<rparr>)),
      (''features'', store (parseFeatures n) (\<lambda>x s. s\<lparr>sn_features := x\<rparr>)),
      (''label'', store (parseFeature n) (\<lambda>x s. s\<lparr>sn_label := x\<rparr>)),
      (''rows'', store (parseRows n) (\<lambda>x s. s\<lparr>sn_rows := x\<rparr>)),
      (''warnings'', store (parseStringArray n) (\<lambda>x s. s\<lparr>sn_warnings := x\<rparr>))]) id (new_snapshot\<lparr>sn_name := name\<rparr>)"

definition parseSnapshots :: "nat \<Rightarrow> (string \<times> snapshot_meta) list reader" where
  "parseSnapshots n = parse_map n (parseSnapshot n)"

definition or_default :: "string \<Rightarrow> string \<Rightarrow> string" where
  "or_default d s = (if s = [] then d else s)"

definition message_defaults :: "message_meta \<Rightarrow> message_meta" where
  "message_defaults m = m\<lparr>mm_tab := or_default ''main'' (mm_tab m),
     mm_schemaName := or_default ''ConversationMessage'' (mm_schemaName m),
     mm_schemaVersion := or_default ''v1'' (mm_schemaVersion m),
     mm_storageRoute := or_default storage_route (mm_storageRoute m)\<rparr>"

definition parse_message :: "nat \<Rightarrow> message_meta reader" where
  "parse_message n s = jbind (read_object n (dispatch n
     [(''id'', store parseUnsigned (\<lambda>x m. m\<lparr>mm_id := x\<rparr>)),
      (''speaker'', store parseString (\<lambda>x m. m\<lparr>mm_speaker := x\<rparr>)),
      (''text'', store parseString (\<lambda>x m. m\<lparr>mm_text := x\<rparr>)),
      (''tab'', store parseString (\<lambda>x m. m\<lparr>mm_tab := x\<rparr>)),
      (''schema_name'', store parseString (\<lambda>x m. m\<lparr>mm_schemaName := x\<rparr>)),
      (''schema_version'', store parseString (\<lambda>x m. m\<lparr>mm_schemaVersion := x\<rparr>)),
      (''storage_route'', store parseString (\<lambda>x m. m\<lparr>mm_storageRoute := x\<rparr>)),
      (''access_labels'', store (parseStringArray n) (\<lambda>x m. m\<lparr>mm_accessLabels := x\<rparr>)),
      (''mentioned_entities'', store (parseStringArray n) (\<lambda>x m. m\<lparr>mm_mentionedEntities := x\<rparr>)),
      (''tags'', store (parseStringArray n) (\<lambda>x m. m\<lparr>mm_tags := x\<rparr>)),
      (''tag_reasons'', store (parseStringArray n) (\<lambda>x m. m\<lparr>mm_tagReasons := x\<rparr>))]) id new_message s)
     (\<lambda>m s. Read (message_defaults m) s)"

definition parseMessages :: "nat \<Rightarrow> message_meta list reader" where
  "parseMessages n = read_array n (parse_message n)"

definition atom_defaults :: "atom_meta \<Rightarrow> atom_meta" where
  "atom_defaults a = a\<lparr>at_tab := or_default ''main'' (at_tab a),
     at_schemaName := or_default ''ContextAtom'' (at_schemaName a),
     at_schemaVersion := or_default ''v1'' (at_schemaVersion a),
     at_extractorConfidence := or_default ''1.00'' (at_extractorConfidence a)\<rparr>"

definition parse_atom :: "nat \<Rightarrow> atom_meta reader" where
  "parse_atom n s = jbind (read_object n (dispatch n
     [(''key'', store parseString (\<lambda>x a. a\<lparr>at_key := x\<rparr>)),
      (''value'', store parseString (\<lambda>x a. a\<lparr>at_value := x\<rparr>)),
      (''type'', store parseString (\<lambda>x a. a\<lparr>at_type := x\<rparr>)),
      (''status'', store parseString (\<lambda>x a. a\<lparr>at_status := x\<rparr>)),
      (''source'', store parseString (\<lambda>x a. a\<lparr>at_source := x\<rparr>)),
      (''invalidated_by'', store parseString (\<lambda>x a. a\<lparr>at_invalidatedBy := x\<rparr>)),
      (''tab'', store parseString (\<lambda>x a. a\<lparr>at_tab := x\<rparr>)),
      (''schema_name'', store parseString (\<lambda>x a. a\<lparr>at_schemaName := x\<rparr>)),
      (''schema_version'', store parseString (\<lambda>x a. a\<lparr>at_schemaVersion := x\<rparr>)),
      (''access_labels'', store (parseStringArray n) (\<lambda>x a. a\<lparr>at_accessLabels := x\<rparr>)),
      (''tags'', store (parseStringArray n) (\<lambda>x a. a\<lparr>at_tags := x\<rparr>)),
      (''extractor_rule'', store parseString (\<lambda>x a. a\<lparr>at_extractorRule := x\<rparr>)),
      (''extractor_confidence'', store parseString (\<lambda>x a. a\<lparr>at_extractorConfidence := x\<rparr>)),
      (''source_start'', store parseUnsigned (\<lambda>x a. a\<lparr>at_sourceStart := x\<rparr>)),
      (''source_end'', store parseUnsigned (\<lambda>x a. a\<lparr>at_sourceEnd := x\<rparr>)),
      (''original_snippet'', store parseString (\<lambda>x a. a\<lparr>at_originalSnippet := x\<rparr>))]) id new_atom s)
     (\<lambda>a s. Read (atom_defaults a) s)"

definition parseAtoms :: "nat \<Rightarrow> atom_meta list reader" where
  "parseAtoms n = read_array n (parse_atom n)"

text \<open>Aliases with an empty name or target are dropped.\<close>

definition parse_tab_alias :: "nat \<Rightarrow> tab_alias reader" where
  "parse_tab_alias n = read_object n (dispatch n
     [(''alias'', store parseString (\<lambda>x a. a\<lparr>ta_alias := x\<rparr>)),
      (''target'', store parseString (\<lambda>x a. a\<lparr>ta_target := x\<rparr>))]) id new_tab_alias"

definition parseTabAliases :: "nat \<Rightarrow> tab_alias list reader" where
  "parseTabAliases n s = jbind (read_array n (parse_tab_alias n) s)
     (\<lambda>xs s. Read (filter (\<lambda>a. ta_alias a \<noteq> [] \<and> ta_target a \<noteq> []) xs) s)"

definition parseContext :: "nat \<Rightarrow> string \<Rightarrow> context_meta reader" where
  "parseContext n name = read_object n (dispatch n
     [(''messages'', store (parseMessages n) (\<lambda>x c. c\<lparr>cx_messages := x\<rparr>)),
      (''atoms'', store (parseAtoms n) (\<lambda>x c. c\<lparr>cx_atoms := x\<rparr>)),
      (''tab_aliases'', store (parseTabAliases n) (\<lambda>x c. c\<lparr>cx_tabAliases := x\<rparr>))]) id
     \<lparr>cx_name = name, cx_messages = [], cx_atoms = [], cx_tabAliases = []\<rparr>"

definition parseContexts :: "nat \<Rightarrow> (string \<times> context_meta) list reader" where
  "parseContexts n = parse_map n (parseContext n)"

definition empty_data :: catalog_data where
  "empty_data = \<lparr>cd_tables = [], cd_snapshots = [], cd_contexts = []\<rparr>"

text \<open>\<open>{}\<close> returns at once, whatever follows; otherwise only blanks may follow.\<close>

definition parseCatalog :: "nat \<Rightarrow> catalog_data reader" where
  "parseCatalog n s = jbind (require CHR ''{'' s) (\<lambda>_ s.
     case accept CHR ''}'' s of
       (True, s) \<Rightarrow> Read empty_data s
     | (False, s) \<Rightarrow> jbind (read_members n (dispatch n
           [(''tables'', store (parseTables n) (\<lambda>x d. d\<lparr>cd_tables := x\<rparr>)),
            (''snapshots'', store (parseSnapshots n) (\<lambda>x d. d\<lparr>cd_snapshots := x\<rparr>)),
            (''contexts'', store (parseContexts n) (\<lambda>x d. d\<lparr>cd_contexts := x\<rparr>))]) empty_data s) (\<lambda>d s.
         jbind (require CHR ''}'' s) (\<lambda>_ s.
         if skip_blanks s = [] then Read d [] else malformed ''Trailing catalog JSON content'')))"

text \<open>\<open>load\<close>: the text of the file, if it can be opened; a malformed catalog is ignored.\<close>

definition load_text :: "string \<Rightarrow> catalog_data json" where
  "load_text text = parseCatalog (Suc (length text)) text"

definition put_all :: "('k::linorder \<times> 'v) list \<Rightarrow> ('k \<times> 'v) list \<Rightarrow> ('k \<times> 'v) list" where
  "put_all xs m = fold (\<lambda>(k, v). omap_update k (\<lambda>_. v)) xs m"

definition load_catalog :: "string option \<Rightarrow> catalog \<Rightarrow> catalog" where
  "load_catalog file c = (case file of
       None \<Rightarrow> c
     | Some text \<Rightarrow> (case load_text text of
           Read d _ \<Rightarrow> changed (c\<lparr>cd_tables := put_all (cd_tables d) (cd_tables c),
             cd_snapshots := put_all (cd_snapshots d) (cd_snapshots c),
             cd_contexts := put_all (cd_contexts d) (cd_contexts c)\<rparr>)
         | _ \<Rightarrow> c))"

end
