(* ===== verification/Catalog_Reader.thy ===== *)
theory Catalog_Reader
  imports Catalog_Json
begin

text \<open>
  The catalog reader (\<open>JsonReader\<close>, \<open>src/metadata.cpp\<close>) returns on every text: each reader is
  shown to return when it has fuel for the text, and to leave no more than it was given.
\<close>

section \<open>The reader returns\<close>

text \<open>\<open>shrinks k m\<close>: the run \<open>m\<close> had fuel enough and leaves at most \<open>k\<close> characters.\<close>

named_theorems json_safe \<open>readers that return, with the length of what they leave\<close>

definition shrinks :: "nat \<Rightarrow> 'a json \<Rightarrow> bool" where
  "shrinks k m = (case m of Read x s \<Rightarrow> length s \<le> k | Malformed e \<Rightarrow> True | No_Fuel \<Rightarrow> False)"

definition safe_below :: "nat \<Rightarrow> 'a reader \<Rightarrow> bool" where
  "safe_below n r \<longleftrightarrow> (\<forall>s. length s < n \<longrightarrow> shrinks (length s) (r s))"

lemma shrinks_simps [simp]:
  "shrinks k (Read x s) \<longleftrightarrow> length s \<le> k" "shrinks k (Malformed e)" "\<not> shrinks k No_Fuel"
  by (simp_all add: shrinks_def)

lemma shrinks_bind: "shrinks k m \<Longrightarrow> (\<And>x s. length s \<le> k \<Longrightarrow> shrinks j (f x s)) \<Longrightarrow> shrinks j (jbind m f)"
  by (cases m) simp_all

lemma shrinks_mono: "shrinks k m \<Longrightarrow> k \<le> j \<Longrightarrow> shrinks j m"
  by (cases m) simp_all

lemma safeD: "safe_below n r \<Longrightarrow> length s < n \<Longrightarrow> shrinks (length s) (r s)"
  by (simp add: safe_below_def)

lemma safe_mono: "safe_below n r \<Longrightarrow> k \<le> n \<Longrightarrow> safe_below k r"
  by (simp add: safe_below_def)

lemma length_skip_blanks: "length (skip_blanks s) \<le> length s"
  by (simp add: skip_blanks_def length_dropWhile_le)

lemma skip_blanks_Cons: "skip_blanks s = c # t \<Longrightarrow> length t < length s"
  using length_skip_blanks [of s] by simp

lemma accept_length:
  "accept c s = (True, s') \<Longrightarrow> length s' < length s" "accept c s = (False, s') \<Longrightarrow> length s' \<le> length s"
proof -
  show "accept c s = (True, s') \<Longrightarrow> length s' < length s"
    by (auto simp: accept_def dest: skip_blanks_Cons split: list.splits if_splits)
  show "accept c s = (False, s') \<Longrightarrow> length s' \<le> length s"
    using skip_blanks_Cons [of s] by (cases "skip_blanks s") (auto simp: accept_def length_skip_blanks split: if_splits)
qed

lemma require_bind:
  "(\<And>t. length t < length s \<Longrightarrow> shrinks k (f () t)) \<Longrightarrow> shrinks k (jbind (require c s) f)"
  using accept_length [of c s] by (auto simp: require_def split: prod.split bool.split)

lemma hex_digits_length: "hex_digits n v s = Some (w, s') \<Longrightarrow> length s' \<le> length s"
  by (induction n v s rule: hex_digits.induct) (fastforce split: list.splits option.splits)+

lemma read_escape_shrinks: "shrinks (length s - 1) (read_escape s)"
  using hex_digits_length [of 4 0] by (auto simp: read_escape_def split: list.splits option.splits)

lemma read_chars_shrinks: "length s < n \<Longrightarrow> shrinks (length s) (read_chars n s)"
proof (induction n arbitrary: s)
  case (Suc n)
  show ?case
  proof (cases s)
    case (Cons c rest)
    have 1: "shrinks (length s) (jbind (read_chars n rest) (\<lambda>cs s. Read (c # cs) s))"
      by (rule shrinks_bind [OF Suc.IH]) (use Suc.prems Cons in auto)
    have 2: "shrinks (length s) (jbind (read_escape rest) (\<lambda>d s. jbind (read_chars n s) (\<lambda>cs s. Read (d # cs) s)))"
    proof (rule shrinks_bind [OF read_escape_shrinks])
      fix d and t :: string assume t: "length t \<le> length rest - 1"
      show "shrinks (length s) (jbind (read_chars n t) (\<lambda>cs s. Read (d # cs) s))"
        by (rule shrinks_bind [OF Suc.IH]) (use Suc.prems Cons t in auto)
    qed
    show ?thesis using 1 2 Cons by simp
  qed simp
qed simp

lemma parseString_bind:
  assumes "\<And>x t. length t < length s \<Longrightarrow> shrinks k (f x t)"
  shows "shrinks k (jbind (parseString s) f)"
proof (cases "skip_blanks s")
  case (Cons c rest)
  have l: "length rest < length s" using Cons by (rule skip_blanks_Cons)
  have "shrinks (length rest) (read_chars (Suc (length rest)) rest)" by (rule read_chars_shrinks) simp
  then have "shrinks k (jbind (read_chars (Suc (length rest)) rest) f)"
    by (rule shrinks_bind) (use assms l in auto)
  then show ?thesis using Cons by (simp add: parseString_def)
qed (simp add: parseString_def)

lemma jbind_Read: "jbind m Read = m"
  by (cases m) simp_all

lemma parseString_safe [json_safe]: "safe_below n parseString"
  using parseString_bind [where f = Read] by (simp add: safe_below_def jbind_Read)

lemma parseBool_safe [json_safe]: "safe_below n parseBool"
  using length_skip_blanks by (auto simp: safe_below_def parseBool_def Let_def intro: le_trans [OF diff_le_self])

lemma parseUnsigned_safe [json_safe]: "safe_below n parseUnsigned"
proof -
  have "length (dropWhile isdigit (skip_blanks s)) \<le> length s" for s
    using length_skip_blanks [of s] length_dropWhile_le [of isdigit "skip_blanks s"] by simp
  then show ?thesis by (auto simp: safe_below_def parseUnsigned_def Let_def split: sum.split)
qed

lemma accept_shrinks:
  assumes "\<And>s'. length s' < length s \<Longrightarrow> shrinks k (f s')" "\<And>s'. length s' \<le> length s \<Longrightarrow> shrinks k (g s')"
  shows "shrinks k (case accept c s of (True, s) \<Rightarrow> f s | (False, s) \<Rightarrow> g s)"
  using assms accept_length [of c s] by (auto split: prod.split bool.split)

lemma read_items_shrinks:
  "safe_below m item \<Longrightarrow> length s < n \<Longrightarrow> length s < m \<Longrightarrow> shrinks (length s) (read_items n item s)"
proof (induction n arbitrary: s)
  case (Suc n)
  have "shrinks (length s) (jbind (item s) (\<lambda>x t. case accept CHR '','' t of
      (True, t) \<Rightarrow> jbind (read_items n item t) (\<lambda>xs t. Read (x # xs) t) | (False, t) \<Rightarrow> Read [x] t))"
  proof (rule shrinks_bind [OF safeD [OF Suc.prems(1,3)]], rule accept_shrinks)
    fix x and t t' :: string assume t: "length t \<le> length s" "length t' < length t"
    show "shrinks (length s) (jbind (read_items n item t') (\<lambda>xs t. Read (x # xs) t))"
      by (rule shrinks_bind [OF Suc.IH [OF Suc.prems(1)]]) (use Suc.prems t in auto)
  qed simp
  then show ?case by simp
qed simp

lemma read_array_safe [json_safe]:
  assumes "safe_below n item"
  shows "safe_below (Suc n) (read_array n item)"
  unfolding safe_below_def read_array_def
proof (intro allI impI, rule require_bind)
  fix s t :: string assume s: "length s < Suc n" and t: "length t < length s"
  show "shrinks (length s) (case accept CHR '']'' t of (True, t) \<Rightarrow> Read [] t
      | (False, t) \<Rightarrow> jbind (read_items n item t) (\<lambda>xs t. jbind (require CHR '']'' t) (\<lambda>_ t. Read xs t)))"
  proof (rule accept_shrinks)
    fix t' :: string assume t': "length t' \<le> length t"
    have "shrinks (length t') (read_items n item t')"
      by (rule read_items_shrinks [OF assms]) (use s t t' in auto)
    then show "shrinks (length s) (jbind (read_items n item t') (\<lambda>xs t. jbind (require CHR '']'' t) (\<lambda>_ t. Read xs t)))"
      by (rule shrinks_bind) (rule require_bind, use t t' in simp)
  qed (use t in simp)
qed

lemma read_members_shrinks:
  "(\<And>key st. safe_below m (member key st)) \<Longrightarrow> length s < n \<Longrightarrow> length s < m
    \<Longrightarrow> shrinks (length s) (read_members n member st s)"
proof (induction n arbitrary: s st)
  case (Suc n)
  show ?case unfolding read_members.simps
  proof (rule parseString_bind, rule require_bind)
    fix key and t t' :: string assume t: "length t < length s" "length t' < length t"
    have "shrinks (length t') (member key st t')"
      by (rule safeD [OF Suc.prems(1)]) (use Suc.prems t in auto)
    then show "shrinks (length s) (jbind (member key st t') (\<lambda>st s. case accept CHR '','' s of
        (True, s) \<Rightarrow> read_members n member st s | (False, s) \<Rightarrow> Read st s))"
    proof (rule shrinks_bind, intro accept_shrinks)
      fix st' and u u' :: string assume u: "length u \<le> length t'" "length u' < length u"
      have "shrinks (length u') (read_members n member st' u')"
        by (rule Suc.IH [OF Suc.prems(1)]) (use Suc.prems t u in auto)
      then show "shrinks (length s) (read_members n member st' u')"
        by (rule shrinks_mono) (use t u in simp)
    qed (use t in simp)
  qed
qed simp

lemma read_object_safe [json_safe]:
  assumes "\<And>key st. safe_below n (member key st)"
  shows "safe_below (Suc n) (read_object n member finish st)"
  unfolding safe_below_def read_object_def
proof (intro allI impI, rule require_bind)
  fix s t :: string assume s: "length s < Suc n" and t: "length t < length s"
  show "shrinks (length s) (case accept CHR ''}'' t of (True, t) \<Rightarrow> Read st t
      | (False, t) \<Rightarrow> jbind (read_members n member st t) (\<lambda>st t. jbind (require CHR ''}'' t) (\<lambda>_ t. Read (finish st) t)))"
  proof (rule accept_shrinks)
    fix t' :: string assume t': "length t' \<le> length t"
    have "shrinks (length t') (read_members n member st t')"
      by (rule read_members_shrinks [OF assms]) (use s t t' in auto)
    then show "shrinks (length s) (jbind (read_members n member st t') (\<lambda>st t. jbind (require CHR ''}'' t) (\<lambda>_ t. Read (finish st) t)))"
      by (rule shrinks_bind) (rule require_bind, use t t' in simp)
  qed (use t in simp)
qed

lemma safe_map:
  "safe_below n r \<Longrightarrow> safe_below n (\<lambda>s. jbind (r s) (\<lambda>x s. Read (f x) s))"
  unfolding safe_below_def by (intro allI impI shrinks_bind) auto

lemma skipValue_safe [json_safe]: "safe_below n (skipValue n)"
proof (induction n)
  case (Suc n)
  have obj: "safe_below (Suc n) (read_object n (\<lambda>key u. skipValue n) id ())"
    by (rule read_object_safe) (rule Suc)
  have arr: "safe_below (Suc n) (\<lambda>s. jbind (read_array n (skipValue n) s) (\<lambda>_ s. Read () s))"
    by (rule safe_map, rule read_array_safe, rule Suc)
  have str: "safe_below (Suc n) (\<lambda>s. jbind (parseString s) (\<lambda>_ s. Read () s))"
    by (rule safe_map, rule parseString_safe)
  show ?case unfolding safe_below_def
  proof (intro allI impI)
    fix s :: string assume s: "length s < Suc n"
    show "shrinks (length s) (skipValue (Suc n) s)"
    proof (cases "skip_blanks s")
      case (Cons c rest)
      have l: "length (c # rest) \<le> length s" using length_skip_blanks [of s] Cons by simp
      have w: "length (dropWhile (\<lambda>c. \<not> word_end c) (c # rest)) \<le> length s"
        using l length_dropWhile_le le_trans by blast
      have any: "shrinks (length s) (r (c # rest))" if "safe_below (Suc n) r" for r :: "unit reader"
        by (rule shrinks_mono [OF safeD [OF that]]) (use l s in auto)
      consider "c = dquote" | "c = CHR ''{''" | "c = CHR ''[''" | "c \<noteq> dquote" "c \<noteq> CHR ''{''" "c \<noteq> CHR ''[''"
        by blast
      then show ?thesis
      proof cases
        case 1
        then show ?thesis using any [OF str] Cons by simp
      next
        case 2
        then show ?thesis using any [OF obj] Cons by simp
      next
        case 3
        then show ?thesis using any [OF arr] Cons by simp
      next
        case 4
        then show ?thesis using w Cons by (simp split: if_splits)
      qed
    qed simp
  qed
qed (simp add: safe_below_def)

lemma ignore_safe [json_safe]: "safe_below n (ignore n st)"
  using safe_map [OF skipValue_safe, of n "\<lambda>_. st"] by (simp add: ignore_def [abs_def])

lemma store_safe [json_safe]: "safe_below n r \<Longrightarrow> safe_below n (store r put st)"
  using safe_map [of n r "\<lambda>x. put x st"] by (simp add: store_def [abs_def])

lemma dispatch_safe:
  "list_all (\<lambda>(k, r). \<forall>st. safe_below n (r st)) readers \<Longrightarrow> safe_below n (dispatch n readers key st)"
  by (auto simp: dispatch_def ignore_safe list_all_iff split: option.split dest: map_of_SomeD)

text \<open>A structure is safe when the readers of its members are.\<close>

lemma structure_safe:
  "list_all (\<lambda>(k, r). \<forall>st. safe_below n (r st)) readers
    \<Longrightarrow> safe_below (Suc n) (read_object n (dispatch n readers) finish st)"
  by (intro read_object_safe dispatch_safe)

lemma safe_Suc: "safe_below (Suc n) r \<Longrightarrow> safe_below n r"
  by (erule safe_mono) simp

lemma parse_map_safe:
  assumes "\<And>name. safe_below n (value name)"
  shows "safe_below (Suc n) (parse_map n value)"
  unfolding parse_map_def by (intro read_object_safe safe_map assms)

lemmas structure_safes = structure_safe store_safe parseString_safe parseBool_safe parseUnsigned_safe

lemma parseColumn_safe: "safe_below (Suc n) (parseColumn n)"
  unfolding parseColumn_def by (rule structure_safe) (simp add: structure_safes)

lemma parseTable_safe: "safe_below (Suc n) (parseTable n name)"
  unfolding parseTable_def parseColumns_def
  by (rule structure_safe) (simp add: store_safe safe_Suc read_array_safe parseColumn_safe)

lemma parseFeature_safe: "safe_below (Suc n) (parseFeature n)"
  unfolding parseFeature_def by (rule structure_safe) (simp add: structure_safes)

lemma parse_row_safe: "safe_below (Suc n) (parse_row n)"
  unfolding parse_row_def by (rule structure_safe) (simp add: structure_safes)

lemma parse_tab_alias_safe: "safe_below (Suc n) (parse_tab_alias n)"
  unfolding parse_tab_alias_def by (rule structure_safe) (simp add: structure_safes)

lemma parseStringArray_safe: "safe_below (Suc n) (parseStringArray n)"
  unfolding parseStringArray_def by (intro read_array_safe parseString_safe)

lemma parseSnapshot_safe: "safe_below (Suc n) (parseSnapshot n name)"
  unfolding parseSnapshot_def parseFeatures_def parseRows_def
  by (rule structure_safe) (simp add: structure_safes safe_Suc read_array_safe parseFeature_safe
    parse_row_safe parseStringArray_safe)

lemma parse_message_safe: "safe_below (Suc n) (parse_message n)"
  unfolding parse_message_def
  by (rule safe_map, rule structure_safe) (simp add: structure_safes safe_Suc parseStringArray_safe)

lemma parse_atom_safe: "safe_below (Suc n) (parse_atom n)"
  unfolding parse_atom_def
  by (rule safe_map, rule structure_safe) (simp add: structure_safes safe_Suc parseStringArray_safe)

lemma parseContext_safe: "safe_below (Suc n) (parseContext n name)"
  unfolding parseContext_def parseMessages_def parseAtoms_def parseTabAliases_def
  by (rule structure_safe) (simp add: structure_safes safe_Suc safe_map read_array_safe parse_message_safe
    parse_atom_safe parse_tab_alias_safe)

lemma parseCatalog_safe: "safe_below (Suc n) (parseCatalog n)"
proof -
  let ?rs = "[(''tables'', store (parseTables n) (\<lambda>x d. d\<lparr>cd_tables := x\<rparr>)),
      (''snapshots'', store (parseSnapshots n) (\<lambda>x d. d\<lparr>cd_snapshots := x\<rparr>)),
      (''contexts'', store (parseContexts n) (\<lambda>x d. d\<lparr>cd_contexts := x\<rparr>))]"
  have member: "safe_below n (dispatch n ?rs key (d :: catalog_data))" for key d
    by (rule dispatch_safe) (simp add: store_safe safe_Suc parse_map_safe parseTables_def parseSnapshots_def
      parseContexts_def parseTable_safe parseSnapshot_safe parseContext_safe)
  show ?thesis unfolding safe_below_def parseCatalog_def
  proof (intro allI impI, rule require_bind)
    fix s t :: string assume s: "length s < Suc n" and t: "length t < length s"
    show "shrinks (length s) (case accept CHR ''}'' t of (True, t) \<Rightarrow> Read empty_data t
        | (False, t) \<Rightarrow> jbind (read_members n (dispatch n ?rs) empty_data t) (\<lambda>d t.
            jbind (require CHR ''}'' t) (\<lambda>_ t.
            if skip_blanks t = [] then Read d [] else malformed ''Trailing catalog JSON content'')))"
    proof (rule accept_shrinks)
      fix t' :: string assume t': "length t' \<le> length t"
      have "shrinks (length t') (read_members n (dispatch n ?rs) empty_data t')"
        by (rule read_members_shrinks [OF member]) (use s t t' in auto)
      then show "shrinks (length s) (jbind (read_members n (dispatch n ?rs) empty_data t') (\<lambda>d t.
          jbind (require CHR ''}'' t) (\<lambda>_ t.
          if skip_blanks t = [] then Read d [] else malformed ''Trailing catalog JSON content'')))"
        by (rule shrinks_bind) (rule require_bind, simp)
    qed (use t in simp)
  qed
qed

text \<open>
  C30. \<open>JsonReader::parseCatalog\<close> returns on every text, malformed or not: the fuel given by the
  length of the text is always enough.
\<close>
theorem load_returns: "(\<exists>d rest. load_text text = Read d rest) \<or> (\<exists>e. load_text text = Malformed e)"
proof -
  have "shrinks (length text) (load_text text)"
    unfolding load_text_def by (rule safeD [OF parseCatalog_safe]) simp
  then show ?thesis by (cases "load_text text") auto
qed

end
