(* ===== verification/Catalog_Roundtrip.thy ===== *)
theory Catalog_Roundtrip
  imports Catalog_Reader
begin

text \<open>
  The catalog reader reads back what the writer wrote. \<open>reads r x t\<close> says that the reader \<open>r\<close>
  takes the text \<open>t\<close> for \<open>x\<close>, wherever it stands; the lemmas build it up from strings and
  numbers through arrays, objects and maps to the whole catalog.
\<close>

section \<open>Reading in context\<close>

definition blanks :: "string \<Rightarrow> bool" where
  "blanks b \<longleftrightarrow> list_all isspace b"

text \<open>What may follow a value: not a digit, which would extend a number.\<close>

definition ends :: "string \<Rightarrow> bool" where
  "ends rest \<longleftrightarrow> rest = [] \<or> \<not> isdigit (hd rest)"

text \<open>How a value may begin.\<close>

definition starts :: "string \<Rightarrow> bool" where
  "starts t \<longleftrightarrow> t \<noteq> [] \<and> \<not> isspace (hd t) \<and> hd t \<noteq> CHR '']'' \<and> hd t \<noteq> CHR ''}''"

definition reads :: "'a reader \<Rightarrow> 'a \<Rightarrow> string \<Rightarrow> bool" where
  "reads r x t \<longleftrightarrow> starts t \<and> (\<forall>b rest. blanks b \<longrightarrow> ends rest \<longrightarrow> r (b @ t @ rest) = Read x rest)"

lemma json_readsD: "reads r x t \<Longrightarrow> blanks b \<Longrightarrow> ends rest \<Longrightarrow> r (b @ t @ rest) = Read x rest"
  by (simp add: reads_def)

lemma blanks_simps [simp]:
  "blanks []" "blanks (c # b) \<longleftrightarrow> isspace c \<and> blanks b" "blanks (a @ b) \<longleftrightarrow> blanks a \<and> blanks b"
  by (simp_all add: blanks_def)

lemma ends_simps [simp]: "ends []" "ends (c # rest) \<longleftrightarrow> \<not> isdigit c"
  by (simp_all add: ends_def)

lemma isspace_not_digit: "isspace c \<Longrightarrow> \<not> isdigit c"
  by (auto simp: isspace_def isdigit_def)

lemma ends_blanks: "blanks b \<Longrightarrow> ends rest \<Longrightarrow> ends (b @ rest)"
  by (cases b) (auto simp: isspace_not_digit)

lemma skip_blanks_simp: "blanks b \<Longrightarrow> \<not> isspace c \<Longrightarrow> skip_blanks (b @ c # rest) = c # rest"
  by (simp add: skip_blanks_def blanks_def list_all_iff)

lemma accept_hit: "blanks b \<Longrightarrow> \<not> isspace c \<Longrightarrow> accept c (b @ c # rest) = (True, rest)"
  by (simp add: accept_def skip_blanks_simp)

lemma accept_miss: "blanks b \<Longrightarrow> \<not> isspace d \<Longrightarrow> d \<noteq> c \<Longrightarrow> accept c (b @ d # rest) = (False, d # rest)"
  by (simp add: accept_def skip_blanks_simp)

lemma require_hit: "blanks b \<Longrightarrow> \<not> isspace c \<Longrightarrow> require c (b @ c # rest) = Read () rest"
  by (simp add: require_def accept_hit)

lemma not_space [simp]:
  "\<not> isspace CHR '',''" "\<not> isspace CHR '':''" "\<not> isspace CHR ''[''" "\<not> isspace CHR '']''"
  "\<not> isspace CHR ''{''" "\<not> isspace CHR ''}''" "\<not> isspace dquote" "isspace CHR '' ''" "isspace CHR 0x0A"
  by (simp_all add: isspace_def)

lemma not_digit [simp]:
  "\<not> isdigit CHR '',''" "\<not> isdigit CHR '':''" "\<not> isdigit CHR '']''" "\<not> isdigit CHR ''}''"
  by (simp_all add: isdigit_def)

lemma accept_start:
  "blanks b \<Longrightarrow> starts t \<Longrightarrow> c = CHR '']'' \<or> c = CHR ''}'' \<Longrightarrow> accept c (b @ t @ rest) = (False, t @ rest)"
  by (cases t) (auto simp: starts_def accept_miss)

lemma reads_iff: "reads r x t \<Longrightarrow> reads r y t \<longleftrightarrow> y = x"
  using json_readsD [of r x t "[]" "[]"] json_readsD [of r y t "[]" "[]"] by auto

lemma blanks_nl [simp]: "blanks (nl n)"
  by (simp add: nl_def blanks_def list_all_iff)

section \<open>Strings, numbers, truth values\<close>

lemma hex_value_low_hex:
  assumes "d < 16"
  shows "hex_value (low_hex d) = Some d"
proof (cases "d < 10")
  case True
  then show ?thesis by (simp add: hex_value_def low_hex_def)
next
  case False
  then have "ord_char (char_of (87 + d)) = 87 + d" using assms by simp
  then show ?thesis using False assms by (simp add: hex_value_def low_hex_def)
qed

lemma hex_value_0: "hex_value CHR ''0'' = Some 0"
  by (simp add: hex_value_def)

lemma hex_digits_control:
  assumes "n < 32"
  shows "hex_digits 4 0 (CHR ''0'' # CHR ''0'' # low_hex (n div 16) # low_hex (n mod 16) # u) = Some (n, u)"
proof -
  have "n div 16 < 16" using assms by simp
  then have a: "hex_value (low_hex (n div 16)) = Some (n div 16)" by (rule hex_value_low_hex)
  have b: "hex_value (low_hex (n mod 16)) = Some (n mod 16)" by (rule hex_value_low_hex) simp
  have four: "(4 :: nat) = Suc (Suc (Suc (Suc 0)))" by simp
  show ?thesis unfolding four by (simp add: a b hex_value_0)
qed

lemma read_control:
  assumes "n < 32"
  shows "read_escape (CHR ''u'' # CHR ''0'' # CHR ''0'' # low_hex (n div 16) # low_hex (n mod 16) # u) = Read (char_of n) u"
  using assms by (simp add: read_escape_def hex_digits_control)

lemma read_chars_escaped:
  assumes "escape_char c = backslash # e" "read_escape (e @ u) = Read c u"
  shows "read_chars (Suc n) (escape_char c @ u) = jbind (read_chars n u) (\<lambda>cs s. Read (c # cs) s)"
  using assms by simp

lemma read_chars_plain:
  assumes "c \<noteq> dquote" "c \<noteq> backslash" "32 \<le> ord_char c"
  shows "read_chars (Suc n) (escape_char c @ u) = jbind (read_chars n u) (\<lambda>cs s. Read (c # cs) s)"
proof -
  have "escape_char c = [c]" using assms by (auto simp: escape_char_def)
  then show ?thesis using assms by simp
qed

lemma control_chars:
  "char_of (8 :: nat) = CHR 0x08" "char_of (9 :: nat) = CHR 0x09" "char_of (10 :: nat) = CHR 0x0A"
  "char_of (12 :: nat) = CHR 0x0C" "char_of (13 :: nat) = CHR 0x0D"
  by (simp_all add: char_of_def bit_0)

lemma short_escape:
  "escape_char dquote = [backslash, dquote]" "read_escape (dquote # u) = Read dquote u"
  "escape_char backslash = [backslash, backslash]" "read_escape (backslash # u) = Read backslash u"
  "escape_char (char_of (8 :: nat)) = [backslash, CHR ''b'']" "read_escape (CHR ''b'' # u) = Read (char_of (8 :: nat)) u"
  "escape_char (char_of (12 :: nat)) = [backslash, CHR ''f'']" "read_escape (CHR ''f'' # u) = Read (char_of (12 :: nat)) u"
  "escape_char (char_of (10 :: nat)) = [backslash, CHR ''n'']" "read_escape (CHR ''n'' # u) = Read (char_of (10 :: nat)) u"
  "escape_char (char_of (13 :: nat)) = [backslash, CHR ''r'']" "read_escape (CHR ''r'' # u) = Read (char_of (13 :: nat)) u"
  "escape_char (char_of (9 :: nat)) = [backslash, CHR ''t'']" "read_escape (CHR ''t'' # u) = Read (char_of (9 :: nat)) u"
  by (simp_all add: escape_char_def read_escape_def control_chars)

lemma long_escape:
  assumes "ord_char c < 32" "ord_char c \<notin> {8, 9, 10, 12, 13}"
  shows "escape_char c = backslash # ''u00'' @ [low_hex (ord_char c div 16), low_hex (ord_char c mod 16)]"
proof -
  have "c \<noteq> dquote" "c \<noteq> backslash" using assms(1) by auto
  then show ?thesis using assms by (simp add: escape_char_def)
qed

lemma read_chars_escape:
  "read_chars (Suc n) (escape_char c @ u) = jbind (read_chars n u) (\<lambda>cs s. Read (c # cs) s)"
proof (cases "c = dquote \<or> c = backslash \<or> ord_char c \<in> {8, 9, 10, 12, 13}")
  case True
  have code: "ord_char c = k \<Longrightarrow> c = char_of k" for k by auto
  consider "c = dquote" | "c = backslash" | "c = char_of (8 :: nat)" | "c = char_of (9 :: nat)"
    | "c = char_of (10 :: nat)" | "c = char_of (12 :: nat)" | "c = char_of (13 :: nat)"
    using True by (auto dest: code)
  then show ?thesis
    by cases (hypsubst, rule read_chars_escaped, rule short_escape, simp only: short_escape append_Cons append_Nil)+
next
  case False
  show ?thesis
  proof (cases "ord_char c < 32")
    case True
    then have "escape_char c = backslash # ''u00'' @ [low_hex (ord_char c div 16), low_hex (ord_char c mod 16)]"
      using False by (intro long_escape) simp_all
    then show ?thesis
      by (rule read_chars_escaped) (use read_control [OF True, of u] in simp)
  qed (intro read_chars_plain; use False in simp)
qed

lemma length_escape_char: "0 < length (escape_char c)"
  by (simp add: escape_char_def)

lemma length_escapeJson: "length s \<le> length (escapeJson s)"
proof (induction s)
  case (Cons c s)
  then show ?case using length_escape_char [of c] by (simp add: escapeJson_def del: length_greater_0_conv)
qed (simp add: escapeJson_def)

lemma read_chars_escapeJson: "length s < n \<Longrightarrow> read_chars n (escapeJson s @ dquote # rest) = Read s rest"
proof (induction s arbitrary: n)
  case Nil
  then show ?case by (cases n) (simp_all add: escapeJson_def)
next
  case (Cons c s)
  then obtain m where n: "n = Suc m" "length s < m" by (cases n) auto
  have "escapeJson (c # s) @ dquote # rest = escape_char c @ (escapeJson s @ dquote # rest)"
    by (simp add: escapeJson_def)
  then show ?case using Cons.IH [OF n(2)] by (simp only: n read_chars_escape) simp
qed

lemma reads_string: "reads parseString s (json_string s)"
proof -
  have "parseString (b @ json_string s @ rest) = Read s rest" if "blanks b" for b rest
  proof -
    have "read_chars (Suc (length (escapeJson s @ dquote # rest))) (escapeJson s @ dquote # rest) = Read s rest"
      by (rule read_chars_escapeJson) (use length_escapeJson [of s] in simp)
    then show ?thesis using that by (simp add: parseString_def json_string_def skip_blanks_simp del: read_chars.simps)
  qed
  then show ?thesis by (simp add: reads_def starts_def json_string_def)
qed

lemma reads_bool: "reads parseBool b (json_bool b)"
proof -
  have *: "skip_blanks (a @ CHR ''t'' # rest) = CHR ''t'' # rest" "skip_blanks (a @ CHR ''f'' # rest) = CHR ''f'' # rest"
    if "blanks a" for a rest
    using that by (simp_all add: skip_blanks_simp isspace_def)
  show ?thesis by (cases b) (auto simp: reads_def starts_def json_bool_def parseBool_def isspace_def Let_def *)
qed

lemma reads_number:
  assumes "n < 2 ^ 64"
  shows "reads parseUnsigned n (string_of_nat n)"
proof -
  obtain c s where t: "string_of_nat n = c # s" by (cases "string_of_nat n") auto
  have digits: "\<forall>d\<in>set (string_of_nat n). isdigit d" by (rule string_of_nat_digits)
  then have c: "isdigit c" using t by simp
  then have start: "\<not> isspace c" using isspace_not_digit by blast
  have "parseUnsigned (b @ string_of_nat n @ rest) = Read n rest" if "blanks b" "ends rest" for b rest
  proof -
    have "skip_blanks (b @ string_of_nat n @ rest) = string_of_nat n @ rest"
      using skip_blanks_simp [OF that(1) start] t by simp
    moreover have "takeWhile isdigit (string_of_nat n @ rest) = string_of_nat n"
      "dropWhile isdigit (string_of_nat n @ rest) = rest"
      using digits that(2) by (cases rest; simp)+
    ultimately show ?thesis using assms by (simp add: parseUnsigned_def stoull_string_of_nat)
  qed
  moreover have "starts (string_of_nat n)" using t c start by (auto simp: starts_def)
  ultimately show ?thesis by (simp add: reads_def)
qed

section \<open>Arrays, objects, maps\<close>

lemma joined_Cons: "ts \<noteq> [] \<Longrightarrow> joined sep (t # ts) = t @ sep @ joined sep ts"
  by (cases ts) simp_all

lemma length_joined: "length ts \<le> Suc (length (joined (CHR '','' # sep) ts))"
  by (induction "CHR '','' # sep" ts rule: joined.induct) auto

lemma member_joined: "t \<in> set ts \<Longrightarrow> length t \<le> length (joined sep ts)"
  by (induction sep ts rule: joined.induct) auto

lemma starts_joined: "ts \<noteq> [] \<Longrightarrow> starts (hd ts) \<Longrightarrow> starts (joined sep ts)"
  by (cases ts; cases "tl ts") (auto simp: starts_def)

lemma read_items_joined:
  assumes "blanks sep" "blanks closing"
  shows "list_all2 (reads item) xs ts \<Longrightarrow> ts \<noteq> [] \<Longrightarrow> length ts \<le> n \<Longrightarrow> blanks b
    \<Longrightarrow> read_items n item (b @ joined (CHR '','' # sep) ts @ closing @ CHR '']'' # rest) = Read xs (CHR '']'' # rest)"
proof (induction n arbitrary: xs ts b)
  case (Suc n)
  then obtain x xs' t ts' where xt: "xs = x # xs'" "ts = t # ts'" "reads item x t" "list_all2 (reads item) xs' ts'"
    by (cases ts; cases xs) auto
  show ?case
  proof (cases "ts' = []")
    case True
    have "item (b @ t @ closing @ CHR '']'' # rest) = Read x (closing @ CHR '']'' # rest)"
      by (rule json_readsD [OF xt(3) Suc.prems(4)]) (use assms in \<open>simp add: ends_blanks\<close>)
    then show ?thesis using True xt assms by (simp add: accept_miss)
  next
    case False
    let ?u = "sep @ joined (CHR '','' # sep) ts' @ closing @ CHR '']'' # rest"
    have "item (b @ t @ CHR '','' # ?u) = Read x (CHR '','' # ?u)"
      by (rule json_readsD [OF xt(3) Suc.prems(4)]) simp
    moreover have "accept CHR '','' (CHR '','' # ?u) = (True, ?u)"
      using accept_hit [of "[]" "CHR '',''"] by simp
    moreover have "read_items n item ?u = Read xs' (CHR '']'' # rest)"
      by (rule Suc.IH) (use Suc.prems xt assms False in auto)
    ultimately show ?thesis using xt False by (simp add: joined_Cons)
  qed
qed simp

text \<open>A list of items, each read when its text fits the fuel.\<close>

lemma reads_array:
  assumes items: "\<And>x. x \<in> set xs \<Longrightarrow> length (w x) \<le> n \<Longrightarrow> reads item x (w x)"
    and sp: "blanks opening" "blanks sep" "blanks closing"
    and len: "length (json_array opening sep closing (map w xs)) \<le> n"
  shows "reads (read_array n item) xs (json_array opening sep closing (map w xs))"
proof -
  let ?ts = "map w xs"
  have "read_array n item (b @ json_array opening sep closing ?ts @ rest) = Read xs rest" if b: "blanks b" for b rest
  proof (cases "xs = []")
    case True
    then show ?thesis using b accept_hit [of "[]" "CHR '']''" rest]
      by (simp add: json_array_def read_array_def require_hit)
  next
    case False
    have arr: "json_array opening sep closing ?ts = CHR ''['' # opening @ joined (CHR '','' # sep) ?ts @ closing @ '']''"
      using False by (simp add: json_array_def)
    have "length ?ts \<le> n" using len length_joined [of ?ts sep] unfolding arr by simp
    moreover have all: "list_all2 (reads item) xs ?ts"
    proof -
      have "length (w x) \<le> n" if "x \<in> set xs" for x
        using member_joined [of "w x" ?ts "CHR '','' # sep"] that len unfolding arr by simp
      then show ?thesis using items by (simp add: list_all2_conv_all_nth)
    qed
    ultimately have "read_items n item ([] @ joined (CHR '','' # sep) ?ts @ closing @ CHR '']'' # rest) = Read xs (CHR '']'' # rest)"
      using False sp by (intro read_items_joined) simp_all
    moreover have "starts (joined (CHR '','' # sep) ?ts)"
      using all False by (intro starts_joined) (cases xs; simp add: reads_def)+
    ultimately show ?thesis
      using b sp require_hit [of "[]" "CHR '']''" rest] unfolding arr
      by (simp add: read_array_def require_hit accept_start)
  qed
  then show ?thesis by (simp add: reads_def starts_def json_array_def)
qed

text \<open>
  Members: a list of keys, texts and updates of the state; \<open>member\<close> reads each text in the state
  that the ones before it leave.
\<close>

fun members_read :: "nat \<Rightarrow> (string \<Rightarrow> 'st \<Rightarrow> 'st reader) \<Rightarrow> 'st \<Rightarrow> (string \<times> string \<times> ('st \<Rightarrow> 'st)) list \<Rightarrow> bool" where
  "members_read n member st [] \<longleftrightarrow> True"
| "members_read n member st ((k, t, f) # ms) \<longleftrightarrow>
     (length t \<le> n \<longrightarrow> reads (member k st) (f st) t) \<and> members_read n member (f st) ms"

abbreviation texts_of :: "(string \<times> string \<times> 'f) list \<Rightarrow> (string \<times> string) list" where
  "texts_of ms \<equiv> map (\<lambda>(k, t, f). (k, t)) ms"

abbreviation result_of :: "(string \<times> string \<times> ('st \<Rightarrow> 'st)) list \<Rightarrow> 'st \<Rightarrow> 'st" where
  "result_of ms st \<equiv> fold (\<lambda>(k, t, f). f) ms st"

lemma read_members_joined:
  assumes "blanks sep" "blanks closing"
  shows "members_read m member st ms \<Longrightarrow> ms \<noteq> [] \<Longrightarrow> length ms \<le> n \<Longrightarrow> \<forall>(k, t, f)\<in>set ms. length t \<le> m \<Longrightarrow> blanks b
    \<Longrightarrow> read_members n member st (b @ joined (CHR '','' # sep) (map json_member (texts_of ms)) @ closing @ CHR ''}'' # rest)
      = Read (result_of ms st) (CHR ''}'' # rest)"
proof (induction n arbitrary: st ms b)
  case (Suc n)
  then obtain k t f ms' where ms: "ms = (k, t, f) # ms'" by (cases ms) auto
  have r: "reads (member k st) (f st) t" and rest_read: "members_read m member (f st) ms'"
    using Suc.prems ms by auto
  have key: "parseString (b @ json_string k @ CHR '':'' # CHR '' '' # u) = Read k (CHR '':'' # CHR '' '' # u)" for u
    by (rule json_readsD [OF reads_string Suc.prems(5)]) simp
  have colon: "require CHR '':'' (CHR '':'' # u) = Read () u" for u
    using require_hit [of "[]" "CHR '':''" u] by simp
  show ?case
  proof (cases "ms' = []")
    case True
    have "member k st ('' '' @ t @ closing @ CHR ''}'' # rest) = Read (f st) (closing @ CHR ''}'' # rest)"
      by (rule json_readsD [OF r]) (use assms in \<open>simp_all add: ends_blanks\<close>)
    then show ?thesis using True ms assms by (simp add: json_member_def key colon accept_miss)
  next
    case False
    let ?u = "sep @ joined (CHR '','' # sep) (map json_member (texts_of ms')) @ closing @ CHR ''}'' # rest"
    have "member k st ('' '' @ t @ CHR '','' # ?u) = Read (f st) (CHR '','' # ?u)"
      by (rule json_readsD [OF r]) simp_all
    moreover have "accept CHR '','' (CHR '','' # ?u) = (True, ?u)"
      using accept_hit [of "[]" "CHR '',''"] by simp
    moreover have "read_members n member (f st) ?u = Read (result_of ms' (f st)) (CHR ''}'' # rest)"
      by (rule Suc.IH) (use Suc.prems ms assms False rest_read in auto)
    ultimately show ?thesis using ms False by (simp add: joined_Cons json_member_def key colon)
  qed
qed simp

lemma starts_json_member: "starts (json_member kt)"
  by (simp add: starts_def json_member_def json_string_def split: prod.split)

lemma object_members:
  assumes "members_read n member st ms" "ms \<noteq> []" "blanks opening" "blanks sep" "blanks closing"
    and "length (json_object opening sep closing (texts_of ms)) \<le> Suc n"
  shows "\<exists>body. json_object opening sep closing (texts_of ms) = CHR ''{'' # body @ ''}'' \<and>
    (\<forall>rest. \<exists>u. accept CHR ''}'' (body @ CHR ''}'' # rest) = (False, u) \<and>
      read_members n member st u = Read (result_of ms st) (CHR ''}'' # rest))"
proof -
  let ?mem = "joined (CHR '','' # sep) (map json_member (texts_of ms))"
  have obj: "json_object opening sep closing (texts_of ms) = CHR ''{'' # (opening @ ?mem @ closing) @ ''}''"
    by (simp add: json_object_def)
  have "length ms \<le> n"
    using length_joined [of "map json_member (texts_of ms)" sep] assms(6) unfolding obj by simp
  moreover have "\<forall>(k, t, f)\<in>set ms. length t \<le> n"
  proof clarify
    fix k t f assume "(k, t, f) \<in> set ms"
    then have "json_member (k, t) \<in> set (map json_member (texts_of ms))" by force
    from member_joined [OF this, of "CHR '','' # sep"] show "length t \<le> n"
      using assms(6) unfolding obj by (simp add: json_member_def)
  qed
  ultimately have "read_members n member st ([] @ ?mem @ closing @ CHR ''}'' # rest) = Read (result_of ms st) (CHR ''}'' # rest)" for rest
    using assms by (intro read_members_joined) simp_all
  moreover have "starts ?mem"
    using assms(2) by (intro starts_joined) (simp_all add: hd_map starts_json_member)
  ultimately show ?thesis unfolding obj using assms(3)
    by (intro exI [of _ "opening @ ?mem @ closing"]) (simp add: accept_start)
qed

lemma reads_object:
  assumes "members_read n member st ms" "ms \<noteq> []" "blanks opening" "blanks sep" "blanks closing"
    and "length (json_object opening sep closing (texts_of ms)) \<le> n"
    and x: "x = finish (result_of ms st)"
  shows "reads (read_object n member finish st) x (json_object opening sep closing (texts_of ms))"
proof -
  have "length (json_object opening sep closing (texts_of ms)) \<le> Suc n" using assms(6) by simp
  from object_members [OF assms(1-5) this] obtain body where
    body: "json_object opening sep closing (texts_of ms) = CHR ''{'' # body @ ''}''"
      "\<And>rest. \<exists>u. accept CHR ''}'' (body @ CHR ''}'' # rest) = (False, u) \<and>
        read_members n member st u = Read (result_of ms st) (CHR ''}'' # rest)"
    by auto
  have close_brace: "require CHR ''}'' (CHR ''}'' # rest) = Read () rest" for rest
    using require_hit [of "[]" "CHR ''}''" rest] by simp
  have "read_object n member finish st (b @ CHR ''{'' # body @ CHR ''}'' # rest) = Read x rest" if "blanks b" for b rest
    using body(2) [of rest] x close_brace that by (auto simp: read_object_def require_hit)
  then show ?thesis unfolding body(1) by (simp add: reads_def starts_def isspace_def)
qed

lemma store_reads: "reads r x t \<Longrightarrow> y = put x st \<Longrightarrow> reads (store r put st) y t"
  by (simp add: reads_def store_def)

lemma store_iff: "reads r x t \<Longrightarrow> reads (store r put st) y t \<longleftrightarrow> y = put x st"
  using store_reads [of r x t "put x st"] reads_iff [of "store r put st" "put x st" t] by blast

lemma reads_strings:
  assumes "length (writeJsonStringArray xs) \<le> n"
  shows "reads (parseStringArray n) xs (writeJsonStringArray xs)"
  using assms unfolding parseStringArray_def writeJsonStringArray_def
  by (intro reads_array) (simp_all add: reads_string)

text \<open>One structure: its members in the order of the writer, and the structure they give.\<close>

lemma reads_row:
  assumes "json_row (texts_of ms) = t" "length t \<le> n" "members_read n (dispatch n readers) st ms" "ms \<noteq> []"
    and "x = finish (result_of ms st)"
  shows "reads (read_object n (dispatch n readers) finish st) x t"
proof -
  have "reads (read_object n (dispatch n readers) finish st) x (json_object [] '' '' [] (texts_of ms))"
    by (rule reads_object) (use assms in \<open>auto simp: json_row_def\<close>)
  then show ?thesis using assms(1) by (simp add: json_row_def)
qed

lemma reads_block:
  assumes "json_block (texts_of ms) = t" "length t \<le> n" "members_read n (dispatch n readers) st ms" "ms \<noteq> []"
    and "x = finish (result_of ms st)"
  shows "reads (read_object n (dispatch n readers) finish st) x t"
proof -
  have "reads (read_object n (dispatch n readers) finish st) x (json_object (nl 6) (nl 6) (nl 4) (texts_of ms))"
    by (rule reads_object) (use assms in \<open>auto simp: json_block_def\<close>)
  then show ?thesis using assms(1) by (simp add: json_block_def)
qed

lemma reads_rows:
  assumes "length (json_rows (map w xs)) \<le> n" "\<And>x. x \<in> set xs \<Longrightarrow> length (w x) \<le> n \<Longrightarrow> reads item x (w x)"
  shows "reads (read_array n item) xs (json_rows (map w xs))"
  using assms unfolding json_rows_def by (intro reads_array) simp_all

lemmas member_reads = dispatch_def store_iff store_iff [OF reads_string] store_iff [OF reads_bool]
  store_iff [OF reads_number] store_iff [OF reads_strings]

section \<open>The structures of the catalog\<close>

definition column_ok :: "column_meta \<Rightarrow> bool" where
  "column_ok c \<longleftrightarrow> cm_type c \<noteq> []"

lemma reads_column:
  assumes "length (write_column c) \<le> n" "column_ok c"
  shows "reads (parseColumn n) c (write_column c)"
  unfolding parseColumn_def
proof (rule reads_row [where ms =
    "[(''name'', json_string (cm_name c), cm_name_update (\<lambda>_. cm_name c)),
      (''type'', json_string (cm_type c), cm_type_update (\<lambda>_. cm_type c)),
      (''primary_key'', json_bool (cm_primary_key c), cm_primary_key_update (\<lambda>_. cm_primary_key c)),
      (''not_null'', json_bool (cm_not_null c), cm_not_null_update (\<lambda>_. cm_not_null c)),
      (''fk_table'', json_string (cm_fk_table c), cm_fk_table_update (\<lambda>_. cm_fk_table c)),
      (''fk_col'', json_string (cm_fk_col c), cm_fk_col_update (\<lambda>_. cm_fk_col c))]"])
qed (use assms in \<open>simp_all add: write_column_def member_reads column_ok_def\<close>)

definition table_ok :: "table_meta \<Rightarrow> bool" where
  "table_ok t \<longleftrightarrow> list_all column_ok (tm_columns t)"

lemma reads_table:
  assumes "length (write_table t) \<le> n" "table_ok t" "tm_name t = name"
  shows "reads (parseTable n name) t (write_table t)"
proof -
  have columns: "length (json_rows (map write_column (tm_columns t))) \<le> n
      \<Longrightarrow> reads (parseColumns n) (tm_columns t) (json_rows (map write_column (tm_columns t)))"
    unfolding parseColumns_def
    by (rule reads_rows) (use assms(2) in \<open>auto simp: table_ok_def list_all_iff intro: reads_column\<close>)
  show ?thesis unfolding parseTable_def
    by (rule reads_block [where ms = "[(''columns'', json_rows (map write_column (tm_columns t)),
        tm_columns_update (\<lambda>_. tm_columns t))]"])
      (use assms in \<open>simp_all add: write_table_def member_reads store_iff [OF columns]\<close>)
qed

lemma reads_feature:
  assumes "length (write_feature f) \<le> n"
  shows "reads (parseFeature n) f (write_feature f)"
  unfolding parseFeature_def
proof (rule reads_row [where ms = "[(''name'', json_string (fm_name f), fm_name_update (\<lambda>_. fm_name f)),
      (''spec'', json_string (fm_spec f), fm_spec_update (\<lambda>_. fm_spec f))]"])
qed (use assms in \<open>simp_all add: write_feature_def member_reads\<close>)

lemma reads_snapshot_row:
  assumes "length (write_snapshot_row r) \<le> n"
  shows "reads (parse_row n) r (write_snapshot_row r)"
  unfolding parse_row_def
proof (rule reads_row [where ms = "[(''rowid'', json_string (sr_rowid r), sr_rowid_update (\<lambda>_. sr_rowid r)),
      (''split'', json_string (sr_split r), sr_split_update (\<lambda>_. sr_split r))]"])
qed (use assms in \<open>simp_all add: write_snapshot_row_def member_reads\<close>)

definition snapshot_ok :: "snapshot_meta \<Rightarrow> bool" where
  "snapshot_ok s \<longleftrightarrow> sn_seed s < 2 ^ 64"

lemma reads_snapshot:
  assumes "length (write_snapshot s) \<le> n" "snapshot_ok s" "sn_name s = name"
  shows "reads (parseSnapshot n name) s (write_snapshot s)"
proof -
  have features: "length (json_rows (map write_feature (sn_features s))) \<le> n
      \<Longrightarrow> reads (parseFeatures n) (sn_features s) (json_rows (map write_feature (sn_features s)))"
    unfolding parseFeatures_def by (rule reads_rows) (auto intro: reads_feature)
  have rows: "length (json_rows (map write_snapshot_row (sn_rows s))) \<le> n
      \<Longrightarrow> reads (parseRows n) (sn_rows s) (json_rows (map write_snapshot_row (sn_rows s)))"
    unfolding parseRows_def by (rule reads_rows) (auto intro: reads_snapshot_row)
  show ?thesis unfolding parseSnapshot_def
  proof (rule reads_block [where ms =
      "[(''query_text'', json_string (sn_queryText s), sn_queryText_update (\<lambda>_. sn_queryText s)),
        (''source_table'', json_string (sn_sourceTable s), sn_sourceTable_update (\<lambda>_. sn_sourceTable s)),
        (''schema_fingerprint'', json_string (sn_schemaFingerprint s), sn_schemaFingerprint_update (\<lambda>_. sn_schemaFingerprint s)),
        (''table_version'', json_string (sn_tableVersion s), sn_tableVersion_update (\<lambda>_. sn_tableVersion s)),
        (''split_by'', json_string (sn_splitBy s), sn_splitBy_update (\<lambda>_. sn_splitBy s)),
        (''seed'', string_of_nat (sn_seed s), sn_seed_update (\<lambda>_. sn_seed s)),
        (''features'', json_rows (map write_feature (sn_features s)), sn_features_update (\<lambda>_. sn_features s)),
        (''label'', write_feature (sn_label s), sn_label_update (\<lambda>_. sn_label s)),
        (''rows'', json_rows (map write_snapshot_row (sn_rows s)), sn_rows_update (\<lambda>_. sn_rows s)),
        (''warnings'', writeJsonStringArray (sn_warnings s), sn_warnings_update (\<lambda>_. sn_warnings s))]"])
  qed (use assms in \<open>simp_all add: write_snapshot_def member_reads snapshot_ok_def features rows
    store_iff [OF features] store_iff [OF rows] store_iff [OF reads_feature]\<close>)
qed

definition message_ok :: "message_meta \<Rightarrow> bool" where
  "message_ok m \<longleftrightarrow> mm_id m < 2 ^ 64 \<and> mm_tab m \<noteq> [] \<and> mm_schemaName m \<noteq> [] \<and> mm_schemaVersion m \<noteq> [] \<and>
     mm_storageRoute m \<noteq> []"

lemma reads_then: "reads r x t \<Longrightarrow> f x = y \<Longrightarrow> reads (\<lambda>s. jbind (r s) (\<lambda>x s. Read (f x) s)) y t"
  by (simp add: reads_def)

lemma reads_message:
  assumes "length (write_message m) \<le> n" "message_ok m"
  shows "reads (parse_message n) m (write_message m)"
  unfolding parse_message_def
proof (rule reads_then [where x = m], rule reads_row [where ms =
    "[(''id'', string_of_nat (mm_id m), mm_id_update (\<lambda>_. mm_id m)),
      (''speaker'', json_string (mm_speaker m), mm_speaker_update (\<lambda>_. mm_speaker m)),
      (''text'', json_string (mm_text m), mm_text_update (\<lambda>_. mm_text m)),
      (''tab'', json_string (mm_tab m), mm_tab_update (\<lambda>_. mm_tab m)),
      (''schema_name'', json_string (mm_schemaName m), mm_schemaName_update (\<lambda>_. mm_schemaName m)),
      (''schema_version'', json_string (mm_schemaVersion m), mm_schemaVersion_update (\<lambda>_. mm_schemaVersion m)),
      (''storage_route'', json_string (mm_storageRoute m), mm_storageRoute_update (\<lambda>_. mm_storageRoute m)),
      (''access_labels'', writeJsonStringArray (mm_accessLabels m), mm_accessLabels_update (\<lambda>_. mm_accessLabels m)),
      (''mentioned_entities'', writeJsonStringArray (mm_mentionedEntities m),
        mm_mentionedEntities_update (\<lambda>_. mm_mentionedEntities m)),
      (''tags'', writeJsonStringArray (mm_tags m), mm_tags_update (\<lambda>_. mm_tags m)),
      (''tag_reasons'', writeJsonStringArray (mm_tagReasons m), mm_tagReasons_update (\<lambda>_. mm_tagReasons m))]"])
qed (use assms in \<open>simp_all add: write_message_def member_reads message_ok_def message_defaults_def or_default_def\<close>)

definition atom_ok :: "atom_meta \<Rightarrow> bool" where
  "atom_ok a \<longleftrightarrow> at_tab a \<noteq> [] \<and> at_schemaName a \<noteq> [] \<and> at_schemaVersion a \<noteq> [] \<and>
     at_extractorConfidence a \<noteq> [] \<and> at_sourceStart a < 2 ^ 64 \<and> at_sourceEnd a < 2 ^ 64"

lemma reads_atom:
  assumes "length (write_atom a) \<le> n" "atom_ok a"
  shows "reads (parse_atom n) a (write_atom a)"
  unfolding parse_atom_def
proof (rule reads_then [where x = a], rule reads_row [where ms =
    "[(''key'', json_string (at_key a), at_key_update (\<lambda>_. at_key a)),
      (''value'', json_string (at_value a), at_value_update (\<lambda>_. at_value a)),
      (''type'', json_string (at_type a), at_type_update (\<lambda>_. at_type a)),
      (''status'', json_string (at_status a), at_status_update (\<lambda>_. at_status a)),
      (''source'', json_string (at_source a), at_source_update (\<lambda>_. at_source a)),
      (''invalidated_by'', json_string (at_invalidatedBy a), at_invalidatedBy_update (\<lambda>_. at_invalidatedBy a)),
      (''tab'', json_string (at_tab a), at_tab_update (\<lambda>_. at_tab a)),
      (''schema_name'', json_string (at_schemaName a), at_schemaName_update (\<lambda>_. at_schemaName a)),
      (''schema_version'', json_string (at_schemaVersion a), at_schemaVersion_update (\<lambda>_. at_schemaVersion a)),
      (''access_labels'', writeJsonStringArray (at_accessLabels a), at_accessLabels_update (\<lambda>_. at_accessLabels a)),
      (''tags'', writeJsonStringArray (at_tags a), at_tags_update (\<lambda>_. at_tags a)),
      (''extractor_rule'', json_string (at_extractorRule a), at_extractorRule_update (\<lambda>_. at_extractorRule a)),
      (''extractor_confidence'', json_string (at_extractorConfidence a),
        at_extractorConfidence_update (\<lambda>_. at_extractorConfidence a)),
      (''source_start'', string_of_nat (at_sourceStart a), at_sourceStart_update (\<lambda>_. at_sourceStart a)),
      (''source_end'', string_of_nat (at_sourceEnd a), at_sourceEnd_update (\<lambda>_. at_sourceEnd a)),
      (''original_snippet'', json_string (at_originalSnippet a), at_originalSnippet_update (\<lambda>_. at_originalSnippet a))]"])
qed (use assms in \<open>simp_all add: write_atom_def member_reads atom_ok_def atom_defaults_def or_default_def\<close>)

definition alias_ok :: "tab_alias \<Rightarrow> bool" where
  "alias_ok a \<longleftrightarrow> ta_alias a \<noteq> [] \<and> ta_target a \<noteq> []"

lemma reads_tab_alias:
  assumes "length (write_tab_alias a) \<le> n"
  shows "reads (parse_tab_alias n) a (write_tab_alias a)"
  unfolding parse_tab_alias_def
proof (rule reads_row [where ms = "[(''alias'', json_string (ta_alias a), ta_alias_update (\<lambda>_. ta_alias a)),
      (''target'', json_string (ta_target a), ta_target_update (\<lambda>_. ta_target a))]"])
qed (use assms in \<open>simp_all add: write_tab_alias_def member_reads\<close>)

definition context_ok :: "context_meta \<Rightarrow> bool" where
  "context_ok x \<longleftrightarrow> list_all message_ok (cx_messages x) \<and> list_all atom_ok (cx_atoms x) \<and> list_all alias_ok (cx_tabAliases x)"

lemma reads_context:
  assumes "length (write_context x) \<le> n" "context_ok x" "cx_name x = name"
  shows "reads (parseContext n name) x (write_context x)"
proof -
  have messages: "length (json_rows (map write_message (cx_messages x))) \<le> n
      \<Longrightarrow> reads (parseMessages n) (cx_messages x) (json_rows (map write_message (cx_messages x)))"
    unfolding parseMessages_def
    by (rule reads_rows) (use assms in \<open>auto simp: context_ok_def list_all_iff intro: reads_message\<close>)
  have atoms: "length (json_rows (map write_atom (cx_atoms x))) \<le> n
      \<Longrightarrow> reads (parseAtoms n) (cx_atoms x) (json_rows (map write_atom (cx_atoms x)))"
    unfolding parseAtoms_def
    by (rule reads_rows) (use assms in \<open>auto simp: context_ok_def list_all_iff intro: reads_atom\<close>)
  have kept: "filter (\<lambda>a. ta_alias a \<noteq> [] \<and> ta_target a \<noteq> []) (cx_tabAliases x) = cx_tabAliases x"
    using assms(2) by (intro filter_True) (simp add: context_ok_def alias_ok_def list_all_iff)
  have aliases: "length (json_rows (map write_tab_alias (cx_tabAliases x))) \<le> n
      \<Longrightarrow> reads (parseTabAliases n) (cx_tabAliases x) (json_rows (map write_tab_alias (cx_tabAliases x)))"
    unfolding parseTabAliases_def
    by (rule reads_then [where x = "cx_tabAliases x"], rule reads_rows) (auto simp: kept intro: reads_tab_alias)
  show ?thesis unfolding parseContext_def
  proof (rule reads_block [where ms =
      "[(''messages'', json_rows (map write_message (cx_messages x)), cx_messages_update (\<lambda>_. cx_messages x)),
        (''atoms'', json_rows (map write_atom (cx_atoms x)), cx_atoms_update (\<lambda>_. cx_atoms x)),
        (''tab_aliases'', json_rows (map write_tab_alias (cx_tabAliases x)), cx_tabAliases_update (\<lambda>_. cx_tabAliases x))]"])
  qed (use assms in \<open>simp_all add: write_context_def member_reads store_iff [OF messages] store_iff [OF atoms]
    store_iff [OF aliases]\<close>)
qed

section \<open>Maps and the catalog\<close>

lemma omap_update_append:
  "\<forall>k'\<in>fst ` set xs. k' < k \<Longrightarrow> omap_update k (\<lambda>_. v) xs = xs @ [(k, v)]"
  by (induction k "\<lambda>_ :: 'b option. v" xs rule: omap_update.induct) (auto dest: less_asym)

lemma put_all_snoc:
  "omap_ok (ys @ xs) \<Longrightarrow> put_all xs ys = ys @ xs"
proof (induction xs arbitrary: ys)
  case (Cons kv xs)
  obtain k v where kv: "kv = (k, v)" by force
  have "\<forall>k'\<in>fst ` set ys. k' < k" using Cons.prems kv by (auto simp: omap_ok_def sorted_wrt_append)
  then have "omap_update k (\<lambda>_. v) ys = ys @ [kv]" by (simp add: omap_update_append kv)
  then show ?case using Cons.IH [of "ys @ [kv]"] Cons.prems kv by (simp add: put_all_def)
qed (simp add: put_all_def)

lemma put_all_id: "omap_ok xs \<Longrightarrow> put_all xs [] = xs"
  using put_all_snoc [of "[]" xs] by simp

definition map_member :: "('a \<Rightarrow> string) \<Rightarrow> string \<times> 'a \<Rightarrow> string \<times> string \<times> ((string \<times> 'a) list \<Rightarrow> (string \<times> 'a) list)" where
  "map_member w = (\<lambda>(k, v). (k, w v, omap_update k (\<lambda>_. v)))"

lemma result_map_members: "result_of (map (map_member w) xs) m = put_all xs m"
  by (induction xs arbitrary: m) (auto simp: put_all_def map_member_def)

lemma texts_map_members:
  "texts_of (map (map_member w) xs) = map (\<lambda>(k, v). (k, w v)) xs"
  "map ((\<lambda>(k, t, f). (k, t)) \<circ> map_member w) xs = map (\<lambda>(k, v). (k, w v)) xs"
  by (simp_all add: map_member_def split_def)

lemma members_read_map:
  assumes "\<And>k v. (k, v) \<in> set xs \<Longrightarrow> length (w v) \<le> n \<Longrightarrow> reads (value k) v (w v)"
  shows "members_read n (\<lambda>name entries s. jbind (value name s) (\<lambda>v s. Read (omap_update name (\<lambda>_. v) entries) s)) m
    (map (map_member w) xs)"
  using assms
proof (induction xs arbitrary: m)
  case (Cons kv xs)
  obtain k v where kv: "kv = (k, v)" by force
  have "length (w v) \<le> n
      \<Longrightarrow> reads (\<lambda>s. jbind (value k s) (\<lambda>v s. Read (omap_update k (\<lambda>_. v) m) s)) (omap_update k (\<lambda>_. v) m) (w v)"
    by (rule reads_then [where x = v]) (use Cons.prems kv in simp_all)
  then show ?case using Cons kv by (simp add: map_member_def)
qed simp

lemma reads_map:
  assumes "omap_ok xs" "length (json_map (map (\<lambda>(k, v). (k, w v)) xs)) \<le> n"
    and "\<And>k v. (k, v) \<in> set xs \<Longrightarrow> length (w v) \<le> n \<Longrightarrow> reads (value k) v (w v)"
  shows "reads (parse_map n value) xs (json_map (map (\<lambda>(k, v). (k, w v)) xs))"
proof (cases "xs = []")
  case True
  have "require CHR ''{'' (b @ CHR ''{'' # u) = Read () u" if "blanks b" for b u
    using that by (simp add: require_hit)
  moreover have "accept CHR ''}'' (CHR ''}'' # u) = (True, u)" for u
    using accept_hit [of "[]" "CHR ''}''"] by simp
  ultimately show ?thesis
    using True by (simp add: reads_def starts_def json_map_def parse_map_def read_object_def)
next
  case False
  have "reads (parse_map n value) xs (json_object (nl 4) (nl 4) (nl 2) (texts_of (map (map_member w) xs)))"
    unfolding parse_map_def
  proof (rule reads_object)
    show "members_read n (\<lambda>name entries s. jbind (value name s) (\<lambda>v s. Read (omap_update name (\<lambda>_. v) entries) s)) []
      (map (map_member w) xs)"
      by (rule members_read_map) (rule assms(3))
  qed (use False assms in \<open>simp_all add: texts_map_members json_map_def result_map_members put_all_id\<close>)
  then show ?thesis using False by (simp only: texts_map_members json_map_def map_is_Nil_conv if_False)
qed

text \<open>What a catalog must satisfy to be read back: the entries as the operations keep them.\<close>

definition storable :: "'a catalog_data_scheme \<Rightarrow> bool" where
  "storable c \<longleftrightarrow> catalog_ok c \<and> list_all (\<lambda>(k, t). table_ok t) (cd_tables c) \<and>
     list_all (\<lambda>(k, s). snapshot_ok s) (cd_snapshots c) \<and> list_all (\<lambda>(k, x). context_ok x) (cd_contexts c)"

definition data_of :: "'a catalog_data_scheme \<Rightarrow> catalog_data" where
  "data_of c = \<lparr>cd_tables = cd_tables c, cd_snapshots = cd_snapshots c, cd_contexts = cd_contexts c\<rparr>"

lemma catalog_maps:
  assumes "storable c"
  shows "length (json_map (map (\<lambda>(k, t). (k, write_table t)) (cd_tables c))) \<le> n
      \<Longrightarrow> reads (parseTables n) (cd_tables c) (json_map (map (\<lambda>(k, t). (k, write_table t)) (cd_tables c)))"
    and "length (json_map (map (\<lambda>(k, s). (k, write_snapshot s)) (cd_snapshots c))) \<le> n
      \<Longrightarrow> reads (parseSnapshots n) (cd_snapshots c) (json_map (map (\<lambda>(k, s). (k, write_snapshot s)) (cd_snapshots c)))"
    and "length (json_map (map (\<lambda>(k, x). (k, write_context x)) (cd_contexts c))) \<le> n
      \<Longrightarrow> reads (parseContexts n) (cd_contexts c) (json_map (map (\<lambda>(k, x). (k, write_context x)) (cd_contexts c)))"
  unfolding parseTables_def parseSnapshots_def parseContexts_def
  using assms
  by (auto intro!: reads_map reads_table reads_snapshot reads_context simp: storable_def catalog_ok_def list_all_iff)

lemma parseCatalog_text:
  assumes "storable c" "length (catalog_text c) \<le> n"
  shows "parseCatalog n (catalog_text c) = Read (data_of c) []"
proof -
  let ?ms = "[(''tables'', json_map (map (\<lambda>(k, t). (k, write_table t)) (cd_tables c)), \<lambda>d. d\<lparr>cd_tables := cd_tables c\<rparr>),
    (''snapshots'', json_map (map (\<lambda>(k, s). (k, write_snapshot s)) (cd_snapshots c)), \<lambda>d. d\<lparr>cd_snapshots := cd_snapshots c\<rparr>),
    (''contexts'', json_map (map (\<lambda>(k, x). (k, write_context x)) (cd_contexts c)), \<lambda>d. d\<lparr>cd_contexts := cd_contexts c\<rparr>)]
    :: (string \<times> string \<times> (catalog_data \<Rightarrow> catalog_data)) list"
  let ?member = "dispatch n
           [(''tables'', store (parseTables n) (\<lambda>x d. d\<lparr>cd_tables := x\<rparr>)),
            (''snapshots'', store (parseSnapshots n) (\<lambda>x d. d\<lparr>cd_snapshots := x\<rparr>)),
            (''contexts'', store (parseContexts n) (\<lambda>x d. d\<lparr>cd_contexts := x\<rparr>))]
     :: string \<Rightarrow> catalog_data \<Rightarrow> catalog_data reader"
  note maps = catalog_maps [OF assms(1)]
  have "members_read n ?member empty_data ?ms"
    by (simp add: dispatch_def store_iff [OF maps(1)] store_iff [OF maps(2)] store_iff [OF maps(3)])
  moreover have whole: "catalog_text c = json_object (nl 2) (nl 2) (nl 0) (texts_of ?ms) @ nl 0"
    by (simp add: catalog_text_def)
  moreover have "length (json_object (nl 2) (nl 2) (nl 0) (texts_of ?ms)) \<le> Suc n"
    using assms(2) unfolding whole by simp
  ultimately obtain body where
    body: "json_object (nl 2) (nl 2) (nl 0) (texts_of ?ms) = CHR ''{'' # body @ ''}''"
      "\<And>rest. \<exists>u. accept CHR ''}'' (body @ CHR ''}'' # rest) = (False, u) \<and>
        read_members n ?member empty_data u = Read (result_of ?ms empty_data) (CHR ''}'' # rest)"
    using object_members [of n ?member empty_data ?ms "nl 2" "nl 2" "nl 0"] by auto
  have open_brace: "require CHR ''{'' (CHR ''{'' # u) = Read () u" and close_brace: "require CHR ''}'' (CHR ''}'' # u) = Read () u" for u
    using require_hit [of "[]" "CHR ''{''"] require_hit [of "[]" "CHR ''}''"] by simp_all
  have "catalog_text c = CHR ''{'' # body @ CHR ''}'' # nl 0" unfolding whole body(1) by simp
  moreover obtain u where "accept CHR ''}'' (body @ CHR ''}'' # nl 0) = (False, u)"
      "read_members n ?member empty_data u = Read (result_of ?ms empty_data) (CHR ''}'' # nl 0)"
    using body(2) by blast
  moreover have "skip_blanks (nl 0) = []" by (simp add: skip_blanks_def nl_def)
  moreover have "result_of ?ms empty_data = data_of c" by (simp add: empty_data_def data_of_def)
  ultimately show ?thesis by (simp add: parseCatalog_def open_brace close_brace)
qed

lemma load_text_catalog_text: "storable c \<Longrightarrow> load_text (catalog_text c) = Read (data_of c) []"
  unfolding load_text_def by (rule parseCatalog_text) simp_all

text \<open>
  C29. Saving and loading a catalog is lossless: \<open>Catalog::load\<close> on the text that \<open>Catalog::save\<close>
  wrote gives an empty catalog every table, snapshot and context back, with the same
  fingerprint, whatever characters (quotes, backslashes, control characters, bytes above 127)
  their strings contain.
\<close>
theorem catalog_roundtrip:
  assumes "storable c"
  shows "data_of (load_catalog (Some (catalog_text c)) new_catalog) = data_of c \<and>
    cat_fingerprint (load_catalog (Some (catalog_text c)) new_catalog) = fingerprint_of c"
proof -
  have ok: "omap_ok (cd_tables c)" "omap_ok (cd_snapshots c)" "omap_ok (cd_contexts c)"
    using assms by (simp_all add: storable_def catalog_ok_def)
  let ?new = "new_catalog\<lparr>cd_tables := cd_tables c, cd_snapshots := cd_snapshots c, cd_contexts := cd_contexts c\<rparr>"
  have l: "load_catalog (Some (catalog_text c)) new_catalog = changed ?new"
    using load_text_catalog_text [OF assms] ok
    by (simp add: load_catalog_def data_of_def new_catalog_def put_all_id)
  show ?thesis by (simp add: l data_of_def fingerprint_of_def fingerprint_words_def)
qed

definition sample_catalog :: catalog_data where
  "sample_catalog =
     \<lparr>cd_tables = [(''fish'', \<lparr>tm_name = ''fish'', tm_columns = [new_column\<lparr>cm_name := [dquote, CHR 0x0A, backslash, CHR 0x01, CHR 0xFF],
        cm_type := ''INTEGER'', cm_primary_key := True\<rparr>]\<rparr>)],
      cd_snapshots = [(''train'', new_snapshot\<lparr>sn_name := ''train'', sn_seed := 42, sn_warnings := [''a'', ''b'']\<rparr>)],
      cd_contexts = [(''chat'', \<lparr>cx_name = ''chat'', cx_messages = [new_message\<lparr>mm_id := 7, mm_tab := ''main''\<rparr>], cx_atoms = [],
        cx_tabAliases = [\<lparr>ta_alias = ''m'', ta_target = ''main''\<rparr>]\<rparr>)]\<rparr>"

theorem catalog_roundtrip_witness:
  "data_of (load_catalog (Some (catalog_text sample_catalog)) new_catalog) = sample_catalog"
proof -
  have "storable sample_catalog"
    by (simp add: storable_def sample_catalog_def catalog_ok_def table_ok_def column_ok_def snapshot_ok_def context_ok_def
      message_ok_def alias_ok_def new_message_def new_snapshot_def storage_route_def)
  from catalog_roundtrip [OF this] show ?thesis by (simp add: data_of_def)
qed

end
