(* ===== verification/Compilation_Cache.thy ===== *)
theory Compilation_Cache
  imports Hash_Utils Ast
begin

text \<open>
  The cache of compiled queries (\<open>CompilationCache\<close>, \<open>src/cache.h\<close> and \<open>src/cache.cpp\<close>): a list
  of entries, the most recently used first, and a multimap from key hashes to list nodes.

  A list node is its number; numbers are never used twice. The order in which the multimap
  keeps nodes of one hash does not matter: at most one of them has the key. How much memory
  strings and vectors reserve is up to the standard library and is a parameter (\<open>memory\<close>).

  The lemmas refine the cache to its abstraction, the list of keys and values in order of use:
  whatever the hash function does, a lookup finds exactly the value last stored under the same
  text and fingerprint, and what stays in the cache is the longest run of recently used entries
  within both limits.
\<close>

section \<open>Entries\<close>

record cached_statement =
  cst_sql :: string
  cst_notes :: "string list"
  cst_schemaChanging :: bool
  cst_ast :: stmt

type_synonym cached_compilation = "cached_statement list"

record memory =
  string_capacity :: "string \<Rightarrow> nat"
  notes_capacity :: "string list \<Rightarrow> nat"
  sizeof_string :: nat
  sizeof_entry :: nat

record cache_entry =
  ce_source :: string
  ce_fingerprint :: u64
  ce_hash :: u64
  ce_value :: cached_compilation
  ce_bytes :: nat

record comp_cache =
  maxEntries :: nat
  maxBytes :: nat
  cc_bytes :: nat
  hits :: nat
  misses :: nat
  cc_evictions :: nat
  cc_lru :: "(nat \<times> cache_entry) list"
  cc_entries :: "(u64 \<times> nat) list"
  cc_next :: nat

record cache_stats =
  cs_hits :: nat
  cs_misses :: nat
  cs_evictions :: nat
  cs_entries :: nat
  cs_bytes :: nat

definition new_cache :: "nat \<Rightarrow> nat \<Rightarrow> comp_cache" where
  "new_cache entries bytes = \<lparr>maxEntries = entries, maxBytes = bytes, cc_bytes = 0, hits = 0, misses = 0,
     cc_evictions = 0, cc_lru = [], cc_entries = [], cc_next = 0\<rparr>"

definition estimateBytes :: "memory \<Rightarrow> string \<Rightarrow> cached_compilation \<Rightarrow> nat" where
  "estimateBytes m source value =
     string_capacity m source + 1 + sizeof_entry m +
     sum_list (map (\<lambda>s. string_capacity m (cst_sql s) + 1 + notes_capacity m (cst_notes s) * sizeof_string m +
       sum_list (map (\<lambda>note. string_capacity m note + 1) (cst_notes s))) value)"

definition fingerprint_bytes :: "u64 \<Rightarrow> byte list" where
  "fingerprint_bytes f = map (\<lambda>k. ucast (drop_bit (8 * k) f AND 0xff)) [0..<8]"

definition hashKey :: "string \<Rightarrow> u64 \<Rightarrow> u64" where
  "hashKey source f = fold (\<lambda>b h. fnv1a64AppendByte h b) (fingerprint_bytes f) (fnv1a64 (bytes_of_string source))"

section \<open>Operations\<close>

text \<open>Removing a key from an association list.\<close>

definition without :: "'k \<Rightarrow> ('k \<times> 'v) list \<Rightarrow> ('k \<times> 'v) list" where
  "without k xs = filter (\<lambda>x. fst x \<noteq> k) xs"

text \<open>The nodes of one hash, in some order, and the first whose entry has the key.\<close>

definition equal_range :: "u64 \<Rightarrow> comp_cache \<Rightarrow> nat list" where
  "equal_range h c = map snd (filter (\<lambda>(h', i). h' = h) (cc_entries c))"

definition has_key :: "string \<Rightarrow> u64 \<Rightarrow> cache_entry \<Rightarrow> bool" where
  "has_key source f e \<longleftrightarrow> ce_fingerprint e = f \<and> ce_source e = source"

definition find_entry :: "string \<Rightarrow> u64 \<Rightarrow> u64 \<Rightarrow> comp_cache \<Rightarrow> nat option" where
  "find_entry source f h c =
     List.find (\<lambda>i. case map_of (cc_lru c) i of Some e \<Rightarrow> has_key source f e | None \<Rightarrow> False) (equal_range h c)"

definition erase_entry :: "nat \<Rightarrow> comp_cache \<Rightarrow> comp_cache" where
  "erase_entry i c = (case map_of (cc_lru c) i of
       None \<Rightarrow> c
     | Some e \<Rightarrow> c\<lparr>cc_bytes := cc_bytes c - ce_bytes e, cc_entries := remove1 (ce_hash e, i) (cc_entries c),
         cc_lru := without i (cc_lru c)\<rparr>)"

definition evictOldest :: "comp_cache \<Rightarrow> comp_cache" where
  "evictOldest c =
     (if cc_lru c = [] then c
      else let c' = erase_entry (fst (last (cc_lru c))) c in c'\<lparr>cc_evictions := cc_evictions c' + 1\<rparr>)"

definition cache_get :: "string \<Rightarrow> u64 \<Rightarrow> comp_cache \<Rightarrow> cached_compilation option \<times> comp_cache" where
  "cache_get source f c = (case find_entry source f (hashKey source f) c of
       None \<Rightarrow> (None, c\<lparr>misses := misses c + 1\<rparr>)
     | Some i \<Rightarrow> (case map_of (cc_lru c) i of
           None \<Rightarrow> (None, c)
         | Some e \<Rightarrow> (Some (ce_value e),
             c\<lparr>hits := hits c + 1, cc_lru := (i, e) # without i (cc_lru c)\<rparr>)))"

text \<open>The eviction loop removes one entry per round.\<close>

fun evict_loop :: "nat \<Rightarrow> comp_cache \<Rightarrow> comp_cache" where
  "evict_loop 0 c = c"
| "evict_loop (Suc n) c =
     (if maxEntries c < length (cc_entries c) \<or> maxBytes c < cc_bytes c then evict_loop n (evictOldest c) else c)"

definition cache_put :: "memory \<Rightarrow> string \<Rightarrow> u64 \<Rightarrow> cached_compilation \<Rightarrow> comp_cache \<Rightarrow> cached_compilation \<times> comp_cache" where
  "cache_put m source f value c =
     (if maxEntries c = 0 \<or> maxBytes c = 0 then (value, c)
      else
        let h = hashKey source f;
            c1 = (case find_entry source f h c of Some i \<Rightarrow> erase_entry i c | None \<Rightarrow> c);
            itemBytes = estimateBytes m source value
        in if maxBytes c1 < itemBytes then (value, c1)
           else
             let e = \<lparr>ce_source = source, ce_fingerprint = f, ce_hash = h, ce_value = value, ce_bytes = itemBytes\<rparr>;
                 c2 = c1\<lparr>cc_lru := (cc_next c1, e) # cc_lru c1, cc_bytes := cc_bytes c1 + itemBytes,
                   cc_entries := (h, cc_next c1) # cc_entries c1, cc_next := cc_next c1 + 1\<rparr>
             in (value, evict_loop (length (cc_entries c2)) c2))"

definition cache_clear :: "comp_cache \<Rightarrow> comp_cache" where
  "cache_clear c = c\<lparr>cc_lru := [], cc_entries := [], cc_bytes := 0\<rparr>"

definition cache_resetStats :: "comp_cache \<Rightarrow> comp_cache" where
  "cache_resetStats c = c\<lparr>hits := 0, misses := 0, cc_evictions := 0\<rparr>"

definition cache_stats_of :: "comp_cache \<Rightarrow> cache_stats" where
  "cache_stats_of c = \<lparr>cs_hits = hits c, cs_misses = misses c, cs_evictions = cc_evictions c,
     cs_entries = length (cc_entries c), cs_bytes = cc_bytes c\<rparr>"

section \<open>Abstraction\<close>

type_synonym lru_item = "(string \<times> u64) \<times> cached_compilation \<times> nat"

definition item_of :: "nat \<times> cache_entry \<Rightarrow> lru_item" where
  "item_of = (\<lambda>(i, e). ((ce_source e, ce_fingerprint e), ce_value e, ce_bytes e))"

definition lru_items :: "comp_cache \<Rightarrow> lru_item list" where
  "lru_items c = map item_of (cc_lru c)"

definition weight :: "lru_item list \<Rightarrow> nat" where
  "weight xs = sum_list (map (snd \<circ> snd) xs)"

text \<open>The longest prefix within a number of entries and of bytes.\<close>

fun affordable :: "nat \<Rightarrow> nat \<Rightarrow> lru_item list \<Rightarrow> lru_item list" where
  "affordable 0 b xs = []"
| "affordable n b [] = []"
| "affordable (Suc n) b (x # xs) =
     (if snd (snd x) \<le> b then x # affordable n (b - snd (snd x)) xs else [])"

text \<open>What the least-recently-used policy says each operation does.\<close>

definition lru_get :: "string \<times> u64 \<Rightarrow> lru_item list \<Rightarrow> lru_item list" where
  "lru_get k xs = (case map_of xs k of Some v \<Rightarrow> (k, v) # without k xs | None \<Rightarrow> xs)"

definition lru_put :: "nat \<Rightarrow> nat \<Rightarrow> string \<times> u64 \<Rightarrow> cached_compilation \<Rightarrow> nat \<Rightarrow> lru_item list \<Rightarrow> lru_item list" where
  "lru_put n b k v amount xs =
     (if n = 0 \<or> b = 0 then xs
      else if b < amount then without k xs
      else affordable n b ((k, v, amount) # without k xs))"

definition node_ok :: "nat \<Rightarrow> nat \<times> cache_entry \<Rightarrow> bool" where
  "node_ok bound = (\<lambda>(i, e). i < bound \<and> ce_hash e = hashKey (ce_source e) (ce_fingerprint e))"

definition cache_inv :: "comp_cache \<Rightarrow> bool" where
  "cache_inv c \<longleftrightarrow>
     distinct (map fst (cc_lru c)) \<and> list_all (node_ok (cc_next c)) (cc_lru c) \<and>
     mset (cc_entries c) = mset (map (\<lambda>(i, e). (ce_hash e, i)) (cc_lru c)) \<and>
     distinct (map fst (lru_items c)) \<and> cc_bytes c = weight (lru_items c)"

definition cache_ok :: "comp_cache \<Rightarrow> bool" where
  "cache_ok c \<longleftrightarrow> cache_inv c \<and> length (cc_lru c) \<le> maxEntries c \<and> cc_bytes c \<le> maxBytes c"

section \<open>Entries and nodes\<close>

lemma entries_lru: "cache_inv c \<Longrightarrow> (h, i) \<in> set (cc_entries c) \<longleftrightarrow> (\<exists>e. (i, e) \<in> set (cc_lru c) \<and> h = ce_hash e)"
  unfolding cache_inv_def by (drule conjunct2, drule conjunct2, drule conjunct1, drule mset_eq_setD) auto

lemma lru_node: "cache_inv c \<Longrightarrow> map_of (cc_lru c) i = Some e \<longleftrightarrow> (i, e) \<in> set (cc_lru c)"
  by (simp add: cache_inv_def)

lemma length_entries: "cache_inv c \<Longrightarrow> length (cc_entries c) = length (cc_lru c)"
  unfolding cache_inv_def by (metis length_map mset_eq_length)

lemma find_entry_Some:
  assumes "find_entry s f h c = Some i"
  obtains e where "map_of (cc_lru c) i = Some e" "has_key s f e"
  using assms by (auto simp: find_entry_def find_Some_iff split: option.splits)

lemma find_entry_None:
  assumes inv: "cache_inv c" and none: "find_entry s f (hashKey s f) c = None" and e: "(i, e) \<in> set (cc_lru c)"
  shows "\<not> has_key s f e"
proof
  assume k: "has_key s f e"
  have "ce_hash e = hashKey s f"
    using inv e k by (auto simp: cache_inv_def list_all_iff node_ok_def has_key_def)
  then have "(hashKey s f, i) \<in> set (cc_entries c)" using entries_lru [OF inv] e by metis
  then have "i \<in> set (equal_range (hashKey s f) c)" by (force simp: equal_range_def)
  moreover have "map_of (cc_lru c) i = Some e" using lru_node [OF inv] e by simp
  ultimately show False using none k by (force simp: find_entry_def find_None_iff)
qed

lemma map_of_items_None:
  "map_of (lru_items c) (s, f) = None \<longleftrightarrow> (\<forall>(i, e)\<in>set (cc_lru c). \<not> has_key s f e)"
  by (force simp: map_of_eq_None_iff lru_items_def item_of_def has_key_def)

lemma map_of_items_Some:
  assumes "cache_inv c" "(i, e) \<in> set (cc_lru c)" "has_key s f e"
  shows "map_of (lru_items c) (s, f) = Some (ce_value e, ce_bytes e)"
  using assms by (force simp: cache_inv_def lru_items_def item_of_def has_key_def image_iff intro!: map_of_is_SomeI)

lemma without_absent: "k \<notin> fst ` set xs \<Longrightarrow> without k xs = xs"
  by (auto simp: without_def intro!: filter_True)

lemma without_simps [simp]:
  "without k [] = []" "without k (x # xs) = (if fst x = k then without k xs else x # without k xs)"
  by (simp_all add: without_def)

lemma set_without: "x \<in> set (without k xs) \<longleftrightarrow> x \<in> set xs \<and> fst x \<noteq> k"
  by (simp add: without_def)

lemma distinct_without: "distinct (map fst xs) \<Longrightarrow> distinct (map fst (without k xs))"
  by (simp add: without_def distinct_map_filter)

lemma map_without:
  "(\<And>x. x \<in> set xs \<Longrightarrow> fst x = i \<longleftrightarrow> fst (g x) = k) \<Longrightarrow> map g (without i xs) = without k (map g xs)"
  by (induction xs) auto

lemma without_member:
  assumes "distinct (map fst (x # xs))" "(k, v) \<in> set (x # xs)" "fst x = k"
  shows "x = (k, v)" "without k xs = xs"
proof -
  have "k \<notin> fst ` set xs" using assms(1,3) by auto
  moreover from this have "(k, v) \<notin> set xs" by force
  ultimately show "x = (k, v)" "without k xs = xs" using assms(2) by (auto simp: without_absent)
qed

lemma filter_node:
  assumes inv: "cache_inv c" and e: "(i, e) \<in> set (cc_lru c)" and k: "has_key s f e"
  shows "map item_of (without i (cc_lru c)) = without (s, f) (lru_items c)"
  unfolding lru_items_def
proof (rule map_without)
  fix x assume x: "x \<in> set (cc_lru c)"
  have d: "distinct (map fst (cc_lru c))" and inj: "inj_on (fst \<circ> item_of) (set (cc_lru c))"
    using inv by (simp_all add: cache_inv_def lru_items_def distinct_map)
  have ei: "fst (item_of (i, e)) = (s, f)" using k by (simp add: item_of_def has_key_def)
  show "fst x = i \<longleftrightarrow> fst (item_of x) = (s, f)"
  proof
    assume "fst x = i"
    then have "x = (i, e)" using d x e by (metis prod.collapse eq_key_imp_eq_value)
    then show "fst (item_of x) = (s, f)" using ei by simp
  next
    assume "fst (item_of x) = (s, f)"
    then have "(fst \<circ> item_of) x = (fst \<circ> item_of) (i, e)" using ei by simp
    then have "x = (i, e)" using inj x e by (simp only: inj_on_eq_iff)
    then show "fst x = i" by simp
  qed
qed

lemma weight_without:
  "distinct (map fst xs) \<Longrightarrow> (k, v) \<in> set xs \<Longrightarrow> weight (without k xs) + snd v = weight xs"
proof (induction xs)
  case (Cons x xs)
  show ?case
  proof (cases "fst x = k")
    case True
    show ?thesis using without_member [OF Cons.prems True] by (simp add: weight_def)
  next
    case False
    then show ?thesis using Cons by (auto simp: weight_def)
  qed
qed simp

lemma mset_without_node:
  "distinct (map fst xs) \<Longrightarrow> (i, e) \<in> set xs \<Longrightarrow>
    add_mset (g (i, e)) (mset (map g (without i xs))) = mset (map g xs)"
proof (induction xs)
  case (Cons x xs)
  show ?case
  proof (cases "fst x = i")
    case True
    show ?thesis using without_member [OF Cons.prems True] by simp
  next
    case False
    then show ?thesis using Cons by auto
  qed
qed simp

lemma erase_entry_step:
  assumes inv: "cache_inv c" and e: "(i, e) \<in> set (cc_lru c)" and k: "has_key s f e"
  shows "cache_inv (erase_entry i c) \<and> lru_items (erase_entry i c) = without (s, f) (lru_items c)"
proof -
  let ?l = "without i (cc_lru c)"
  have c': "erase_entry i c = c\<lparr>cc_bytes := cc_bytes c - ce_bytes e, cc_entries := remove1 (ce_hash e, i) (cc_entries c), cc_lru := ?l\<rparr>"
    using e lru_node [OF inv, of i e] by (simp add: erase_entry_def)
  have items: "lru_items (erase_entry i c) = without (s, f) (lru_items c)"
    using filter_node [OF inv e k] by (simp add: c' lru_items_def)
  have d: "distinct (map fst (cc_lru c))" and dk: "distinct (map fst (lru_items c))"
    using inv by (simp_all add: cache_inv_def)
  have "((s, f), ce_value e, ce_bytes e) \<in> set (lru_items c)"
    using e k by (force simp: lru_items_def item_of_def has_key_def)
  from weight_without [OF dk this] have "cc_bytes c - ce_bytes e = weight (without (s, f) (lru_items c))"
    using inv by (simp add: cache_inv_def)
  then have w: "cc_bytes (erase_entry i c) = weight (lru_items (erase_entry i c))"
    unfolding items by (simp add: c')
  have "add_mset (ce_hash e, i) (mset (map (\<lambda>(i, e). (ce_hash e, i)) ?l)) = mset (cc_entries c)"
    using mset_without_node [OF d e, of "\<lambda>(i, e). (ce_hash e, i)"] inv by (simp add: cache_inv_def)
  then have m: "mset (cc_entries (erase_entry i c)) = mset (map (\<lambda>(i, e). (ce_hash e, i)) ?l)"
    by (simp add: c' flip: \<open>add_mset _ _ = _\<close>)
  have "distinct (map fst ?l)" "list_all (node_ok (cc_next c)) ?l" "distinct (map fst (without (s, f) (lru_items c)))"
    using d dk inv by (simp_all add: cache_inv_def list_all_iff set_without distinct_without)
  then show ?thesis using w m by (simp add: items cache_inv_def) (simp add: c')
qed

section \<open>Eviction\<close>

lemma affordable_all: "length xs \<le> n \<Longrightarrow> weight xs \<le> b \<Longrightarrow> affordable n b xs = xs"
  by (induction n b xs rule: affordable.induct) (auto simp: weight_def)

lemma affordable_butlast:
  "\<not> (length xs \<le> n \<and> weight xs \<le> b) \<Longrightarrow> affordable n b (butlast xs) = affordable n b xs"
proof (induction n b xs rule: affordable.induct)
  case (3 n b x xs)
  show ?case
  proof (cases "xs = []")
    case True
    then show ?thesis using 3(2) by (cases n) (auto simp: weight_def)
  next
    case False
    have "\<not> (length xs \<le> n \<and> weight xs \<le> b - snd (snd x))" if "snd (snd x) \<le> b"
      using 3(2) that by (auto simp: weight_def)
    then show ?thesis using 3(1) False by auto
  qed
qed simp_all

lemma affordable_prefix: "\<exists>ys. xs = affordable n b xs @ ys"
  by (induction n b xs rule: affordable.induct) auto

lemma affordable_bounds: "length (affordable n b xs) \<le> n \<and> weight (affordable n b xs) \<le> b"
  by (induction n b xs rule: affordable.induct) (auto simp: weight_def)

lemma without_last:
  assumes "distinct (map fst xs)" "xs \<noteq> []"
  shows "without (fst (last xs)) xs = butlast xs"
proof -
  obtain ys y where xs: "xs = ys @ [y]" using assms(2) by (metis append_butlast_last_id)
  then have "without (fst y) ys = ys" using assms(1) by (simp add: without_absent)
  then show ?thesis by (simp add: xs without_def)
qed

lemma evictOldest_step:
  assumes inv: "cache_inv c" and ne: "cc_lru c \<noteq> []"
  shows "cache_inv (evictOldest c) \<and> lru_items (evictOldest c) = butlast (lru_items c)"
proof -
  obtain i e where l: "last (cc_lru c) = (i, e)" by force
  then have e: "(i, e) \<in> set (cc_lru c)" using ne last_in_set by metis
  have "last (lru_items c) = item_of (i, e)" using ne l by (simp add: lru_items_def last_map)
  then have "without (ce_source e, ce_fingerprint e) (lru_items c) = butlast (lru_items c)"
    using without_last [of "lru_items c"] inv ne by (simp add: cache_inv_def item_of_def lru_items_def)
  then have "cache_inv (erase_entry i c)" "lru_items (erase_entry i c) = butlast (lru_items c)"
    using erase_entry_step [OF inv e, of "ce_source e" "ce_fingerprint e"] by (simp_all add: has_key_def)
  moreover have "cache_inv (d\<lparr>cc_evictions := n\<rparr>) = cache_inv d" "lru_items (d\<lparr>cc_evictions := n\<rparr>) = lru_items d" for d n
    by (simp_all add: cache_inv_def lru_items_def)
  ultimately show ?thesis using ne l by (simp add: evictOldest_def Let_def)
qed

lemma limits_evictOldest [simp]: "maxEntries (evictOldest c) = maxEntries c" "maxBytes (evictOldest c) = maxBytes c"
  by (simp_all add: evictOldest_def erase_entry_def Let_def split: option.split)

lemma evict_loop_step:
  "cache_inv c \<Longrightarrow> length (cc_lru c) \<le> n \<Longrightarrow>
    cache_inv (evict_loop n c) \<and> lru_items (evict_loop n c) = affordable (maxEntries c) (maxBytes c) (lru_items c)"
proof (induction n arbitrary: c)
  case 0
  then show ?case by (cases "maxEntries c") (simp_all add: lru_items_def)
next
  case (Suc n)
  have len: "length (cc_entries c) = length (lru_items c)" and w: "cc_bytes c = weight (lru_items c)"
    using Suc.prems length_entries by (simp_all add: lru_items_def cache_inv_def)
  show ?case
  proof (cases "maxEntries c < length (cc_entries c) \<or> maxBytes c < cc_bytes c")
    case True
    then have "cc_lru c \<noteq> []" using len w by (auto simp: weight_def lru_items_def)
    note step = evictOldest_step [OF Suc.prems(1) this]
    have "length (cc_lru (evictOldest c)) \<le> n"
      using step Suc.prems(2) by (metis length_map lru_items_def length_butlast diff_le_self diff_Suc_1 diff_le_mono)
    with Suc.IH step have "cache_inv (evict_loop n (evictOldest c))"
      "lru_items (evict_loop n (evictOldest c)) = affordable (maxEntries c) (maxBytes c) (butlast (lru_items c))"
      by auto
    then show ?thesis using True affordable_butlast [of "lru_items c" "maxEntries c" "maxBytes c"] len w by auto
  next
    case False
    then show ?thesis using Suc.prems affordable_all [of "lru_items c" "maxEntries c" "maxBytes c"] len w by auto
  qed
qed

section \<open>Lookups and insertions\<close>

lemma found_node:
  assumes "cache_inv c" "find_entry s f h c = Some i"
  obtains e where "(i, e) \<in> set (cc_lru c)" "has_key s f e" "map_of (cc_lru c) i = Some e"
  using assms find_entry_Some lru_node by metis

lemma cache_get_step:
  assumes inv: "cache_inv c"
  shows "fst (cache_get s f c) = map_option fst (map_of (lru_items c) (s, f)) \<and> cache_inv (snd (cache_get s f c)) \<and>
    lru_items (snd (cache_get s f c)) = lru_get (s, f) (lru_items c)"
proof (cases "find_entry s f (hashKey s f) c")
  case None
  then have "map_of (lru_items c) (s, f) = None"
    using find_entry_None [OF inv None] by (auto simp: map_of_items_None)
  then show ?thesis using None inv by (simp add: cache_get_def lru_get_def cache_inv_def lru_items_def)
next
  case (Some i)
  with inv obtain e where e: "(i, e) \<in> set (cc_lru c)" "has_key s f e" "map_of (cc_lru c) i = Some e"
    by (rule found_node)
  let ?c = "snd (cache_get s f c)"
  have c': "cache_get s f c = (Some (ce_value e), c\<lparr>hits := hits c + 1, cc_lru := (i, e) # without i (cc_lru c)\<rparr>)"
    using Some e by (simp add: cache_get_def)
  have m: "map_of (lru_items c) (s, f) = Some (ce_value e, ce_bytes e)"
    by (rule map_of_items_Some [OF inv e(1,2)])
  have it: "item_of (i, e) = ((s, f), ce_value e, ce_bytes e)" using e(2) by (simp add: item_of_def has_key_def)
  then have items: "lru_items ?c = ((s, f), ce_value e, ce_bytes e) # without (s, f) (lru_items c)"
    using filter_node [OF inv e(1,2)] by (simp add: c' lru_items_def)
  have d: "distinct (map fst (cc_lru c))" and dk: "distinct (map fst (lru_items c))"
    using inv by (simp_all add: cache_inv_def)
  have "weight (lru_items ?c) = weight (lru_items c)"
    using weight_without [OF dk map_of_SomeD [OF m]] by (simp add: items weight_def)
  moreover have "mset (map (\<lambda>(i, e). (ce_hash e, i)) (cc_lru ?c)) = mset (map (\<lambda>(i, e). (ce_hash e, i)) (cc_lru c))"
    using mset_without_node [OF d e(1), of "\<lambda>(i, e). (ce_hash e, i)"] by (simp add: c')
  moreover have "distinct (map fst (lru_items ?c))" using dk by (auto simp: items distinct_without set_without)
  moreover have "distinct (map fst (cc_lru ?c))" using d by (auto simp: c' distinct_without set_without)
  moreover have "list_all (node_ok (cc_next c)) (cc_lru ?c)"
    using inv e(1) by (auto simp: c' cache_inv_def list_all_iff set_without)
  ultimately have "cache_inv ?c" using inv unfolding cache_inv_def by (simp add: c')
  then show ?thesis using items m by (simp add: c' lru_get_def)
qed

lemma put_front:
  assumes inv: "cache_inv c" and new: "(s, f) \<notin> fst ` set (lru_items c)"
    and c': "c' = c\<lparr>cc_lru := (cc_next c, e) # cc_lru c, cc_bytes := cc_bytes c + ce_bytes e,
      cc_entries := (hashKey s f, cc_next c) # cc_entries c, cc_next := cc_next c + 1\<rparr>"
    and e: "ce_source e = s" "ce_fingerprint e = f" "ce_hash e = hashKey s f"
  shows "cache_inv c' \<and> lru_items c' = ((s, f), ce_value e, ce_bytes e) # lru_items c"
proof -
  have items: "lru_items c' = ((s, f), ce_value e, ce_bytes e) # lru_items c"
    by (simp add: c' lru_items_def item_of_def e)
  have nodes: "list_all (node_ok (cc_next c)) (cc_lru c)" using inv by (simp add: cache_inv_def)
  then have "cc_next c \<notin> fst ` set (cc_lru c)" by (auto simp: list_all_iff node_ok_def)
  moreover have "list_all (node_ok (Suc (cc_next c))) (cc_lru c)"
    using nodes by (auto simp: list_all_iff node_ok_def less_SucI)
  ultimately have "distinct (map fst (cc_lru c'))" "list_all (node_ok (cc_next c')) (cc_lru c')"
    using inv e by (simp_all add: c' cache_inv_def node_ok_def)
  moreover have "mset (cc_entries c') = mset (map (\<lambda>(i, e). (ce_hash e, i)) (cc_lru c'))"
    using inv e by (simp add: c' cache_inv_def)
  moreover have "distinct (map fst (lru_items c'))" using inv new by (simp add: items cache_inv_def)
  moreover have "cc_bytes c' = weight (lru_items c')" unfolding items using inv by (simp add: c' cache_inv_def weight_def)
  ultimately show ?thesis by (simp add: cache_inv_def items)
qed

lemma erase_limits [simp]: "maxEntries (erase_entry i c) = maxEntries c" "maxBytes (erase_entry i c) = maxBytes c"
  by (simp_all add: erase_entry_def split: option.split)

lemma evict_loop_limits [simp]: "maxEntries (evict_loop n c) = maxEntries c" "maxBytes (evict_loop n c) = maxBytes c"
  by (induction n arbitrary: c) auto

lemma cache_put_step:
  assumes inv: "cache_inv c"
  shows "fst (cache_put m s f v c) = v \<and> cache_inv (snd (cache_put m s f v c)) \<and>
    lru_items (snd (cache_put m s f v c)) = lru_put (maxEntries c) (maxBytes c) (s, f) v (estimateBytes m s v) (lru_items c)"
proof (cases "maxEntries c = 0 \<or> maxBytes c = 0")
  case True
  then show ?thesis using inv by (auto simp: cache_put_def lru_put_def)
next
  case False
  define c1 where "c1 = (case find_entry s f (hashKey s f) c of Some i \<Rightarrow> erase_entry i c | None \<Rightarrow> c)"
  have c1: "cache_inv c1" "lru_items c1 = without (s, f) (lru_items c)"
      "maxEntries c1 = maxEntries c" "maxBytes c1 = maxBytes c"
  proof -
    have "cache_inv c1 \<and> lru_items c1 = without (s, f) (lru_items c)"
    proof (cases "find_entry s f (hashKey s f) c")
      case None
      then have "map_of (lru_items c) (s, f) = None"
        using find_entry_None [OF inv None] by (auto simp: map_of_items_None)
      then show ?thesis using inv None by (simp add: c1_def map_of_eq_None_iff without_absent)
    next
      case (Some i)
      with inv obtain e where "(i, e) \<in> set (cc_lru c)" "has_key s f e" by (rule found_node)
      then show ?thesis using erase_entry_step [OF inv] Some by (simp add: c1_def)
    qed
    then show "cache_inv c1" "lru_items c1 = without (s, f) (lru_items c)" by simp_all
  qed (simp_all add: c1_def split: option.split)
  have put: "cache_put m s f v c = (if maxBytes c1 < estimateBytes m s v then (v, c1)
      else let e = \<lparr>ce_source = s, ce_fingerprint = f, ce_hash = hashKey s f, ce_value = v, ce_bytes = estimateBytes m s v\<rparr>;
             c2 = c1\<lparr>cc_lru := (cc_next c1, e) # cc_lru c1, cc_bytes := cc_bytes c1 + estimateBytes m s v,
               cc_entries := (hashKey s f, cc_next c1) # cc_entries c1, cc_next := cc_next c1 + 1\<rparr>
           in (v, evict_loop (length (cc_entries c2)) c2))"
    using False by (simp add: cache_put_def c1_def Let_def)
  show ?thesis
  proof (cases "maxBytes c1 < estimateBytes m s v")
    case True
    then show ?thesis using False c1 by (simp add: put lru_put_def)
  next
    case small: False
    define e where "e = \<lparr>ce_source = s, ce_fingerprint = f, ce_hash = hashKey s f, ce_value = v, ce_bytes = estimateBytes m s v\<rparr>"
    define c2 where "c2 = c1\<lparr>cc_lru := (cc_next c1, e) # cc_lru c1, cc_bytes := cc_bytes c1 + ce_bytes e,
               cc_entries := (hashKey s f, cc_next c1) # cc_entries c1, cc_next := cc_next c1 + 1\<rparr>"
    have new: "(s, f) \<notin> fst ` set (lru_items c1)" by (auto simp: c1 set_without)
    have c2: "cache_inv c2" "lru_items c2 = ((s, f), v, estimateBytes m s v) # lru_items c1"
      using put_front [OF c1(1) new c2_def] by (simp_all add: e_def)
    have "cache_inv (evict_loop (length (cc_entries c2)) c2)"
      "lru_items (evict_loop (length (cc_entries c2)) c2) = affordable (maxEntries c2) (maxBytes c2) (lru_items c2)"
      using evict_loop_step [OF c2(1)] length_entries [OF c2(1)] by simp_all
    moreover have "maxEntries c2 = maxEntries c" "maxBytes c2 = maxBytes c" by (simp_all add: c2_def c1)
    moreover have "cache_put m s f v c = (v, evict_loop (length (cc_entries c2)) c2)"
      using small by (simp add: put Let_def c2_def e_def)
    ultimately show ?thesis using False small c1 c2 by (simp add: lru_put_def)
  qed
qed

lemma lru_get_weight:
  assumes "distinct (map fst xs)"
  shows "weight (lru_get k xs) = weight xs \<and> length (lru_get k xs) = length xs"
proof (cases "map_of xs k")
  case (Some v)
  then have v: "(k, v) \<in> set xs" by (rule map_of_SomeD)
  have "mset (lru_get k xs) = mset xs"
    using mset_without_node [OF assms v, of "\<lambda>x. x"] Some by (simp add: lru_get_def)
  then show ?thesis by (metis mset_eq_length sum_mset_sum_list mset_map weight_def)
qed (simp add: lru_get_def)

lemma weight_without_le: "weight (without k xs) \<le> weight xs \<and> length (without k xs) \<le> length xs"
  by (induction xs) (auto simp: weight_def)

lemma lru_put_within:
  assumes "length xs \<le> n" "weight xs \<le> b"
  shows "length (lru_put n b k v amount xs) \<le> n \<and> weight (lru_put n b k v amount xs) \<le> b"
  using assms affordable_bounds weight_without_le [of k xs] by (auto simp: lru_put_def)

lemma cache_ok_iff:
  "cache_ok c \<longleftrightarrow> cache_inv c \<and> length (lru_items c) \<le> maxEntries c \<and> weight (lru_items c) \<le> maxBytes c"
  by (auto simp: cache_ok_def cache_inv_def lru_items_def)

lemma cache_get_limits [simp]: "maxEntries (snd (cache_get s f c)) = maxEntries c" "maxBytes (snd (cache_get s f c)) = maxBytes c"
  by (simp_all add: cache_get_def split: option.split)

lemma cache_put_limits [simp]: "maxEntries (snd (cache_put m s f v c)) = maxEntries c" "maxBytes (snd (cache_put m s f v c)) = maxBytes c"
  by (simp_all add: cache_put_def Let_def split: option.split)

lemma cache_get_ok: "cache_ok c \<Longrightarrow> cache_ok (snd (cache_get s f c))"
proof -
  assume ok: "cache_ok c"
  then have "distinct (map fst (lru_items c))" by (simp add: cache_ok_def cache_inv_def)
  then show "cache_ok (snd (cache_get s f c))"
    using ok cache_get_step [of c s f] lru_get_weight [of "lru_items c" "(s, f)"] by (simp add: cache_ok_iff)
qed

lemma cache_put_ok: "cache_ok c \<Longrightarrow> cache_ok (snd (cache_put m s f v c))"
  using cache_put_step [of c m s f v] lru_put_within [of "lru_items c"] by (simp add: cache_ok_iff)

lemma new_cache_ok: "cache_ok (new_cache n b)"
  by (simp add: cache_ok_def cache_inv_def new_cache_def lru_items_def weight_def)

text \<open>
  C38. The compilation cache is a least-recently-used map within its limits. A lookup returns the
  value last stored under the same text and fingerprint, even when hashes collide, and makes it
  the most recent; storing puts the value in front of the other keys and keeps the longest run
  of recent entries within the entry and byte limits, or none of the old value when the new one
  alone is too large. Both keep the invariant of the list, the multimap and the byte count.
\<close>
theorem compilation_cache_lru:
  assumes "cache_ok c"
  shows "fst (cache_get s f c) = map_option fst (map_of (lru_items c) (s, f)) \<and>
    lru_items (snd (cache_get s f c)) = lru_get (s, f) (lru_items c) \<and> cache_ok (snd (cache_get s f c)) \<and>
    lru_items (snd (cache_put m s f v c)) =
      lru_put (maxEntries c) (maxBytes c) (s, f) v (estimateBytes m s v) (lru_items c) \<and>
    fst (cache_put m s f v c) = v \<and> cache_ok (snd (cache_put m s f v c))"
  using assms cache_get_step [of c s f] cache_put_step [of c m s f v] cache_get_ok [OF assms] cache_put_ok [OF assms]
  by (simp add: cache_ok_def)

definition plain_memory :: memory where
  "plain_memory = \<lparr>string_capacity = length, notes_capacity = length, sizeof_string = 32, sizeof_entry = 88\<rparr>"

theorem compilation_cache_lru_witness:
  "lru_items (snd (cache_put plain_memory ''q'' 7 [] (new_cache 2 1000))) = [((''q'', 7), [], 90)]"
  using compilation_cache_lru [OF new_cache_ok, of "''q''" 7 2 1000 plain_memory "[]"]
  by (simp add: lru_put_def new_cache_def lru_items_def plain_memory_def estimateBytes_def eval_nat_numeral)

end
