(* ===== verification/Std_Lists.thy ===== *)
theory Std_Lists
  imports Skibidi_Prelude
begin

text \<open>
  List algorithms whose steps may throw (\<open>map_r\<close>, \<open>filter_r\<close>, \<open>fold_r\<close>), and the sorting
  functions of the standard library on a comparison that does not throw: \<open>std::stable_sort\<close>, and
  \<open>std::sort\<close>, whose order of equivalent elements is not specified and is taken as the stable
  one.
\<close>

section \<open>Loops that may throw\<close>

fun map_r :: "('a \<Rightarrow> 'b result) \<Rightarrow> 'a list \<Rightarrow> 'b list result" where
  "map_r f [] = Inr []"
| "map_r f (x # xs) = rbind (f x) (\<lambda>y. rbind (map_r f xs) (\<lambda>ys. Inr (y # ys)))"

fun filter_r :: "('a \<Rightarrow> bool result) \<Rightarrow> 'a list \<Rightarrow> 'a list result" where
  "filter_r p [] = Inr []"
| "filter_r p (x # xs) = rbind (p x) (\<lambda>b. rbind (filter_r p xs) (\<lambda>ys. Inr (if b then x # ys else ys)))"

fun fold_r :: "('a \<Rightarrow> 's \<Rightarrow> 's result) \<Rightarrow> 'a list \<Rightarrow> 's \<Rightarrow> 's result" where
  "fold_r f [] s = Inr s"
| "fold_r f (x # xs) s = rbind (f x s) (fold_r f xs)"

lemma map_r_cong [fundef_cong]:
  "xs = ys \<Longrightarrow> (\<And>x. x \<in> set ys \<Longrightarrow> f x = g x) \<Longrightarrow> map_r f xs = map_r g ys"
  by (induction xs arbitrary: ys) auto

lemma map_r_Inr: "map_r f xs = Inr ys \<longleftrightarrow> list_all2 (\<lambda>x y. f x = Inr y) xs ys"
proof (induction xs arbitrary: ys)
  case (Cons x xs)
  show ?case by (cases ys) (auto simp: rbind_eq_Inr_iff Cons)
qed auto

lemma map_r_length: "map_r f xs = Inr ys \<Longrightarrow> length ys = length xs"
  by (simp add: map_r_Inr list_all2_lengthD)

lemma rbind_assoc: "rbind (rbind m f) g = rbind m (\<lambda>x. rbind (f x) g)"
  by (cases m) simp_all

lemma map_r_append: "map_r f (xs @ ys) = rbind (map_r f xs) (\<lambda>us. rbind (map_r f ys) (\<lambda>vs. Inr (us @ vs)))"
proof (induction xs)
  case Nil
  show ?case by (cases "map_r f ys") simp_all
next
  case (Cons x xs)
  show ?case by (simp add: Cons rbind_assoc)
qed

lemma fold_r_append: "fold_r f (xs @ ys) s = rbind (fold_r f xs s) (fold_r f ys)"
proof (induction xs arbitrary: s)
  case (Cons x xs)
  have "(\<lambda>s. fold_r f (xs @ ys) s) = (\<lambda>s. rbind (fold_r f xs s) (fold_r f ys))" by (rule ext) (rule Cons)
  then show ?case by (simp add: rbind_assoc)
qed simp

lemma filter_r_Inr:
  "filter_r p xs = Inr ys \<longleftrightarrow> (\<exists>q. (\<forall>x\<in>set xs. p x = Inr (q x)) \<and> ys = filter q xs)"
proof (induction xs arbitrary: ys)
  case (Cons x xs)
  show ?case
  proof
    assume "filter_r p (x # xs) = Inr ys"
    then obtain b zs where b: "p x = Inr b" "filter_r p xs = Inr zs" "ys = (if b then x # zs else zs)"
      by (auto simp: rbind_eq_Inr_iff)
    from b(2) Cons obtain q where q: "\<forall>x\<in>set xs. p x = Inr (q x)" "zs = filter q xs" by blast
    let ?q = "\<lambda>x. case p x of Inr b \<Rightarrow> b | Inl _ \<Rightarrow> False"
    have "zs = filter ?q xs" unfolding q(2) by (rule filter_cong) (use q(1) in auto)
    moreover have "\<forall>y\<in>set (x # xs). p y = Inr (?q y)" using b(1) q(1) by auto
    ultimately show "\<exists>q. (\<forall>x\<in>set (x # xs). p x = Inr (q x)) \<and> ys = filter q (x # xs)"
      using b by (intro exI [of _ ?q]) auto
  next
    assume "\<exists>q. (\<forall>x\<in>set (x # xs). p x = Inr (q x)) \<and> ys = filter q (x # xs)"
    then obtain q where q: "\<forall>x\<in>set (x # xs). p x = Inr (q x)" "ys = filter q (x # xs)" by blast
    then have "filter_r p xs = Inr (filter q xs)" using Cons by auto
    then show "filter_r p (x # xs) = Inr ys" using q by simp
  qed
qed auto

section \<open>Sorting\<close>

text \<open>An element goes in front of those it does not come after.\<close>

fun insert_by :: "('a \<Rightarrow> 'a \<Rightarrow> bool) \<Rightarrow> 'a \<Rightarrow> 'a list \<Rightarrow> 'a list" where
  "insert_by before x [] = [x]"
| "insert_by before x (y # ys) = (if before y x then y # insert_by before x ys else x # y # ys)"

definition stable_sort_by :: "('a \<Rightarrow> 'a \<Rightarrow> bool) \<Rightarrow> 'a list \<Rightarrow> 'a list" where
  "stable_sort_by before xs = foldr (insert_by before) xs []"

lemma mset_insert_by [simp]: "mset (insert_by before x ys) = add_mset x (mset ys)"
  by (induction ys) auto

lemma mset_stable_sort_by [simp]: "mset (stable_sort_by before xs) = mset xs"
  by (induction xs) (simp_all add: stable_sort_by_def)

lemma length_stable_sort_by [simp]: "length (stable_sort_by before xs) = length xs"
  by (rule mset_eq_length) (rule mset_stable_sort_by)

lemma set_stable_sort_by [simp]: "set (stable_sort_by before xs) = set xs"
  by (rule mset_eq_setD) (rule mset_stable_sort_by)

lemma insert_by_key:
  assumes "\<And>y. y \<in> set ys \<Longrightarrow> before y x \<longleftrightarrow> key y < key x"
  shows "insert_by before x ys = insort_key key x ys"
  using assms
proof (induction ys)
  case (Cons y ys)
  have "insert_by before x ys = insort_key key x ys" by (rule Cons.IH) (use Cons.prems in simp)
  moreover have "before y x \<longleftrightarrow> \<not> key x \<le> key y" using Cons.prems [of y] by (simp add: not_le)
  ultimately show ?case by simp
qed simp

lemma stable_sort_by_key:
  assumes "\<And>x y. x \<in> set xs \<Longrightarrow> y \<in> set xs \<Longrightarrow> before x y \<longleftrightarrow> key x < key y"
  shows "stable_sort_by before xs = sort_key key xs"
  using assms
proof (induction xs)
  case Nil
  show ?case by (simp add: stable_sort_by_def)
next
  case (Cons x xs)
  have ih: "stable_sort_by before xs = sort_key key xs" by (rule Cons.IH) (simp add: Cons.prems)
  have "stable_sort_by before (x # xs) = insert_by before x (stable_sort_by before xs)"
    by (simp only: stable_sort_by_def foldr.simps comp_apply)
  also have "\<dots> = insort_key key x (stable_sort_by before xs)"
    by (rule insert_by_key) (simp add: Cons.prems)
  finally show ?case by (simp only: ih sort_key_simps)
qed

text \<open>What a sort guarantees when the comparison is a strict weak order on the elements.\<close>

locale strict_weak =
  fixes before :: "'a \<Rightarrow> 'a \<Rightarrow> bool" and ok :: "'a \<Rightarrow> bool"
  assumes asym: "ok x \<Longrightarrow> ok y \<Longrightarrow> before x y \<Longrightarrow> \<not> before y x"
    and between: "ok x \<Longrightarrow> ok y \<Longrightarrow> ok z \<Longrightarrow> before x z \<Longrightarrow> before x y \<or> before y z"
begin

lemma insert_sorted:
  assumes "sorted_wrt (\<lambda>a b. \<not> before b a) ys" "ok x" "\<forall>y\<in>set ys. ok y"
  shows "sorted_wrt (\<lambda>a b. \<not> before b a) (insert_by before x ys)"
  using assms
proof (induction ys)
  case (Cons y ys)
  have mem: "set (insert_by before x ys) = insert x (set ys)" by (rule set_eqI) (metis mset_insert_by set_mset_add_mset_insert set_mset_mset)
  show ?case
  proof (cases "before y x")
    case True
    then show ?thesis using Cons mem asym by auto
  next
    case False
    have "\<not> before z x" if "z \<in> set ys" for z
      using between [of z y x] that Cons.prems False by auto
    then show ?thesis using Cons.prems False by simp
  qed
qed simp

lemma sort_sorted:
  assumes "\<forall>x\<in>set xs. ok x"
  shows "sorted_wrt (\<lambda>a b. \<not> before b a) (stable_sort_by before xs)"
  using assms
proof (induction xs)
  case (Cons x xs)
  then have "sorted_wrt (\<lambda>a b. \<not> before b a) (insert_by before x (stable_sort_by before xs))"
    by (intro insert_sorted) simp_all
  then show ?case by (simp add: stable_sort_by_def)
qed (simp add: stable_sort_by_def)

text \<open>Equivalent elements stay in their order.\<close>

lemma insert_stable:
  assumes "sorted_wrt (\<lambda>a b. \<not> before b a) ys" "ok x" "ok e" "\<forall>y\<in>set ys. ok y"
  shows "filter (\<lambda>y. \<not> before e y \<and> \<not> before y e) (insert_by before x ys) =
    filter (\<lambda>y. \<not> before e y \<and> \<not> before y e) (x # ys)"
  using assms
proof (induction ys)
  case (Cons y ys)
  have "\<not> (\<not> before e y \<and> \<not> before y e \<and> \<not> before e x \<and> \<not> before x e)" if "before y x"
    using between [of y e x] that Cons.prems by auto
  then show ?case using Cons by auto
qed simp

lemma sort_stable:
  assumes "\<forall>x\<in>set xs. ok x" "ok e"
  shows "filter (\<lambda>y. \<not> before e y \<and> \<not> before y e) (stable_sort_by before xs) =
    filter (\<lambda>y. \<not> before e y \<and> \<not> before y e) xs"
  using assms(1)
proof (induction xs)
  case (Cons x xs)
  have "filter (\<lambda>y. \<not> before e y \<and> \<not> before y e) (insert_by before x (stable_sort_by before xs)) =
    filter (\<lambda>y. \<not> before e y \<and> \<not> before y e) (x # stable_sort_by before xs)"
    by (rule insert_stable [OF sort_sorted]) (use Cons.prems assms(2) in auto)
  then show ?case using Cons by (simp add: stable_sort_by_def)
qed (simp add: stable_sort_by_def)

end

end
