(* ===== verification/Engine_Eval.thy ===== *)
theory Engine_Eval
  imports Raw_Rows Catalog Std_Lists "HOL-Library.Signed_Division"
begin

text \<open>
  Evaluation of expressions by the native engine (\<open>src/native_engine.cpp\<close>): scalar operators,
  column resolution, aggregates over a group of rows, projection, ordering keys, window ranks
  and the conversion of values to a column's type.

  \<open>fmt\<close> is the stream's text of a double (a parameter of \<open>Value::toString\<close>). Signed overflow is
  \<open>Undefined_Behaviour\<close>. C++ leaves the order in which the two operands of an operator are
  evaluated open; the model takes the left one first, which only decides which of two
  exceptions is thrown. \<open>std::sort\<close> is the stable sort of \<open>Std_Lists\<close>.
\<close>

type_synonym fmt = "double \<Rightarrow> string"

section \<open>Rows\<close>

record bound_column =
  bc_table :: string
  bc_alias :: string
  bc_name :: string

text \<open>\<open>EvalRow\<close>: the schema is a pointer, which is null in the rows of \<open>INSERT\<close>.\<close>

record eval_row =
  er_columns :: "bound_column list option"
  er_values :: tuple

definition empty_row :: eval_row where
  "empty_row = \<lparr>er_columns = None, er_values = []\<rparr>"

definition schema_of :: "string \<Rightarrow> string \<Rightarrow> table_meta \<Rightarrow> bound_column list" where
  "schema_of table alias t = map (\<lambda>c. \<lparr>bc_table = table, bc_alias = alias, bc_name = cm_name c\<rparr>) (tm_columns t)"

definition expressionAlias :: "ast \<Rightarrow> nat \<Rightarrow> string" where
  "expressionAlias e fallback =
     (let numbered = ''expr'' @ string_of_nat (fallback + 1)
      in case e of
           ColumnRef _ _ table column alias \<Rightarrow> if alias = [] then column else alias
         | FunctionCall _ _ name args dist alias \<Rightarrow> if alias = [] then name else alias
         | BinaryOp _ _ oper left right alias \<Rightarrow> if alias \<noteq> [] then alias else numbered
         | UnaryOp _ _ oper operand alias \<Rightarrow> if alias \<noteq> [] then alias else numbered
         | WindowFunc _ _ name parts orders alias \<Rightarrow> if alias = [] then name else alias
         | _ \<Rightarrow> numbered)"

section \<open>Operators\<close>

definition integer_value :: "int \<Rightarrow> val result" where
  "integer_value i = (if int64_range i then Inr (VInteger (word_of_int i)) else Inl Undefined_Behaviour)"

definition real_value :: "(double \<Rightarrow> double \<Rightarrow> double) \<Rightarrow> val \<Rightarrow> val \<Rightarrow> val result" where
  "real_value f a b = rbind (asReal a) (\<lambda>x. rbind (asReal b) (\<lambda>y. Inr (VReal (f x y))))"

text \<open>On two integers the integer operation, otherwise the one on doubles.\<close>

definition arithmetic :: "(int \<Rightarrow> int \<Rightarrow> int) \<Rightarrow> (double \<Rightarrow> double \<Rightarrow> double) \<Rightarrow> val \<Rightarrow> val \<Rightarrow> val result" where
  "arithmetic fi fd a b = (case (a, b) of
       (VInteger i, VInteger j) \<Rightarrow> integer_value (fi (sint i) (sint j))
     | _ \<Rightarrow> real_value fd a b)"

definition applyBinary :: "fmt \<Rightarrow> string \<Rightarrow> val \<Rightarrow> val \<Rightarrow> val result" where
  "applyBinary fmt oper left right =
     (if oper = ''AND'' then Inr (VBoolean (asBoolean left \<and> asBoolean right))
      else if oper = ''OR'' then Inr (VBoolean (asBoolean left \<or> asBoolean right))
      else if isNull left \<or> isNull right then Inr VNull
      else if oper = ''='' then Inr (VBoolean (value_eq left right))
      else if oper = ''!='' then Inr (VBoolean (\<not> value_eq left right))
      else if oper = ''<'' then Inr (VBoolean (compare_value left right < 0))
      else if oper = ''>'' then Inr (VBoolean (compare_value left right > 0))
      else if oper = ''<='' then Inr (VBoolean (compare_value left right \<le> 0))
      else if oper = ''>='' then Inr (VBoolean (compare_value left right \<ge> 0))
      else if oper = ''||'' then Inr (VText (toString fmt left @ toString fmt right))
      else if \<not> isNumeric left \<or> \<not> isNumeric right
      then Inl (Runtime_Error ''Arithmetic requires numeric operands'')
      else if oper = ''+'' then arithmetic (+) dadd left right
      else if oper = ''-'' then arithmetic (-) dsub left right
      else if oper = ''*'' then arithmetic (*) dmul left right
      else if oper = ''/'' then
        rbind (asReal right) (\<lambda>d. if double_eq d 0 then Inr VNull else arithmetic (sdiv) ddiv left right)
      else Inl (Runtime_Error (''Unsupported binary operator: '' @ oper)))"

definition applyUnary :: "string \<Rightarrow> val \<Rightarrow> val result" where
  "applyUnary oper v =
     (let unsupported = Inl (Runtime_Error (''Unsupported unary operator: '' @ oper))
      in if oper = ''NOT'' then Inr (VBoolean (\<not> asBoolean v))
         else if isNull v then Inr VNull
         else if oper = ''-'' then (case v of
             VInteger i \<Rightarrow> integer_value (- sint i)
           | _ \<Rightarrow> if isNumeric v then rbind (asReal v) (\<lambda>d. Inr (VReal (dneg_of d))) else unsupported)
         else unsupported)"

definition qualifier_matches :: "string \<Rightarrow> bound_column \<Rightarrow> bool" where
  "qualifier_matches table c \<longleftrightarrow>
     table = [] \<or> table = bc_table c \<or> (bc_alias c \<noteq> [] \<and> table = bc_alias c)"

text \<open>
  The loop of \<open>resolveColumn\<close>: a second match of an unqualified name is an error, of a
  qualified name it replaces the first.
\<close>

fun resolve_loop :: "string \<Rightarrow> string \<Rightarrow> (bound_column \<times> val) list \<Rightarrow> val option \<Rightarrow> val option result" where
  "resolve_loop table column [] found = Inr found"
| "resolve_loop table column ((c, v) # rest) found =
     (if bc_name c \<noteq> column \<or> \<not> qualifier_matches table c then resolve_loop table column rest found
      else if found \<noteq> None \<and> table = [] then Inl (Runtime_Error (''Ambiguous column: '' @ column))
      else resolve_loop table column rest (Some v))"

definition resolveColumn :: "string \<Rightarrow> string \<Rightarrow> eval_row \<Rightarrow> val result" where
  "resolveColumn table column row = (case er_columns row of
       None \<Rightarrow> Inl (Runtime_Error ''Expression row has no schema'')
     | Some cs \<Rightarrow> rbind (resolve_loop table column (zip cs (er_values row)) None) (\<lambda>r. case r of
           Some v \<Rightarrow> Inr v
         | None \<Rightarrow> Inl (Runtime_Error (''Unknown column: '' @ (if table = [] then [] else table @ ''.'') @ column))))"

definition is_aggregate_name :: "string \<Rightarrow> bool" where
  "is_aggregate_name name \<longleftrightarrow>
     name = ''headcount'' \<or> name = ''stack'' \<or> name = ''mid'' \<or> name = ''goat'' \<or> name = ''L'' \<or> name = ''mid-fr'' \<or>
     name = ''percent-check'' \<or> isLoneWolfName name"

fun hasAggregate :: "ast \<Rightarrow> bool" where
  "hasAggregate (FunctionCall _ _ name args dist alias) = is_aggregate_name name"
| "hasAggregate (BinaryOp _ _ oper left right alias) \<longleftrightarrow> hasAggregate left \<or> hasAggregate right"
| "hasAggregate (UnaryOp _ _ oper operand alias) = hasAggregate operand"
| "hasAggregate _ = False"

fun eval :: "fmt \<Rightarrow> ast \<Rightarrow> eval_row \<Rightarrow> val result" where
  "eval fmt (Literal _ _ v) row = Inr (literalValue v)"
| "eval fmt (ColumnRef _ _ table column alias) row = resolveColumn table column row"
| "eval fmt (BinaryOp _ _ oper left right alias) row =
     rbind (eval fmt left row) (\<lambda>a. rbind (eval fmt right row) (\<lambda>b. applyBinary fmt oper a b))"
| "eval fmt (UnaryOp _ _ oper operand alias) row = rbind (eval fmt operand row) (applyUnary oper)"
| "eval fmt (Wildcard _ _ table alias) row = Inl (Runtime_Error ''Wildcard is not a scalar expression'')"
| "eval fmt (FunctionCall _ _ name args dist alias) row =
     (if is_aggregate_name name then Inl (Runtime_Error ''Aggregate used outside grouped evaluation'')
      else Inl (Runtime_Error (''Unknown scalar function: '' @ name)))"
| "eval fmt e row = Inl (Runtime_Error ''Unsupported native expression'')"

section \<open>Aggregates\<close>

definition is_wildcard :: "ast \<Rightarrow> bool" where
  "is_wildcard e = (case e of Wildcard _ _ _ _ \<Rightarrow> True | _ \<Rightarrow> False)"

text \<open>The non-null values of an argument over the rows.\<close>

definition argument_values :: "fmt \<Rightarrow> ast \<Rightarrow> eval_row list \<Rightarrow> val list result" where
  "argument_values fmt e rows = rbind (map_r (eval fmt e) rows) (\<lambda>vs. Inr (filter (\<lambda>v. \<not> isNull v) vs))"

fun distinct_count :: "val list \<Rightarrow> val list \<Rightarrow> nat" where
  "distinct_count seen [] = 0"
| "distinct_count seen (v # vs) =
     (if \<exists>u\<in>set seen. value_eq u v then distinct_count seen vs else Suc (distinct_count (v # seen) vs))"

text \<open>The sum in doubles and whether all values were integers.\<close>

fun sum_loop :: "val list \<Rightarrow> double \<times> bool \<Rightarrow> (double \<times> bool) result" where
  "sum_loop [] s = Inr s"
| "sum_loop (v # vs) s =
     (if \<not> isNumeric v then Inl (Runtime_Error ''Numeric aggregate on non-number'')
      else sum_loop vs (dadd (fst s) (num v), snd s \<and> type_of v = TInteger))"

definition extremum :: "bool \<Rightarrow> val list \<Rightarrow> val" where
  "extremum greatest vs =
     fold (\<lambda>v best. if greatest \<and> compare_value v best > 0 \<or> \<not> greatest \<and> compare_value v best < 0 then v else best)
       (tl vs) (hd vs)"

definition total_value :: "double \<times> bool \<Rightarrow> val result" where
  "total_value s =
     (if snd s then (case double_trunc (fst s) of Some i \<Rightarrow> Inr (VInteger (word_of_int i)) | None \<Rightarrow> Inl Undefined_Behaviour)
      else Inr (VReal (fst s)))"

definition value_sort :: "val list \<Rightarrow> val list" where
  "value_sort vs = stable_sort_by (\<lambda>a b. compare_value a b < 0) vs"

definition median :: "val list \<Rightarrow> val result" where
  "median vs =
     (let sorted = value_sort vs; middle = length vs div 2
      in if odd (length vs) then Inr (sorted ! middle)
         else if isNumeric (sorted ! (middle - 1)) \<and> isNumeric (sorted ! middle)
         then Inr (VReal (ddiv (dadd (num (sorted ! (middle - 1))) (num (sorted ! middle))) (double_of_int 2)))
         else Inr (sorted ! (middle - 1)))"

definition clamp :: "double \<Rightarrow> double \<Rightarrow> double \<Rightarrow> double" where
  "clamp v lo hi = (if double_lt v lo then lo else if double_lt hi v then hi else v)"

text \<open>The value at a rank; an index past the end would be undefined.\<close>

definition percentile_rank :: "nat \<Rightarrow> double \<Rightarrow> int option" where
  "percentile_rank n percent =
     double_trunc (dceil (ddiv (dmul (double_of_int (int n)) (clamp percent (double_of_int 0) (double_of_int 100)))
       (double_of_int 100)))"

definition percentile :: "val list \<Rightarrow> double \<Rightarrow> val result" where
  "percentile vs percent = (case percentile_rank (length vs) percent of
       Some rank \<Rightarrow>
         if 0 \<le> rank \<and> nat (max 1 rank) - 1 < length vs then Inr (value_sort vs ! (nat (max 1 rank) - 1))
         else Inl Undefined_Behaviour
     | None \<Rightarrow> Inl Undefined_Behaviour)"

definition lone_wolf_samples :: "val list \<Rightarrow> double list result" where
  "lone_wolf_samples vs =
     map_r (\<lambda>v. if isNumeric v then Inr (num v) else Inl (Runtime_Error ''LONE-WOLF requires numeric operands'')) vs"

definition aggregate :: "fmt \<Rightarrow> string \<Rightarrow> ast list \<Rightarrow> bool \<Rightarrow> eval_row list \<Rightarrow> val result" where
  "aggregate fmt name args dist rows =
     (if name = ''headcount'' then
        (if args = [] \<or> is_wildcard (hd args) then Inr (VInteger (of_nat (length rows)))
         else rbind (argument_values fmt (hd args) rows) (\<lambda>vs.
           Inr (VInteger (of_nat (if dist then distinct_count [] vs else length vs)))))
      else if args = [] then Inl (Runtime_Error ''Aggregate requires an argument'')
      else rbind (argument_values fmt (hd args) rows) (\<lambda>vs.
        if vs = [] then Inr VNull
        else if name = ''stack'' \<or> name = ''mid'' then
          rbind (sum_loop vs (0, True)) (\<lambda>s.
            if name = ''mid'' then Inr (VReal (ddiv (fst s) (double_of_int (int (length vs))))) else total_value s)
        else if name = ''goat'' \<or> name = ''L'' then Inr (extremum (name = ''goat'') vs)
        else if isLoneWolfName name then
          rbind (lone_wolf_samples vs) (\<lambda>ds. Inr (VInteger (of_nat (countLoneWolves ds))))
        else if name = ''mid-fr'' then median vs
        else if name = ''percent-check'' then
          (if length args < 2 then Inl (Runtime_Error ''percent-check requires percentile'')
           else rbind (eval fmt (args ! 1) (hd rows)) (\<lambda>p. rbind (asReal p) (percentile vs)))
        else Inl (Runtime_Error (''Unsupported aggregate: '' @ name))))"

fun evalGrouped :: "fmt \<Rightarrow> ast \<Rightarrow> eval_row list \<Rightarrow> val result" where
  "evalGrouped fmt (FunctionCall l c name args dist alias) rows =
     (if is_aggregate_name name then aggregate fmt name args dist rows
      else if rows = [] then Inr VNull else eval fmt (FunctionCall l c name args dist alias) (hd rows))"
| "evalGrouped fmt (BinaryOp _ _ oper left right alias) rows =
     rbind (evalGrouped fmt left rows) (\<lambda>a. rbind (evalGrouped fmt right rows) (\<lambda>b. applyBinary fmt oper a b))"
| "evalGrouped fmt (UnaryOp _ _ oper operand alias) rows = rbind (evalGrouped fmt operand rows) (applyUnary oper)"
| "evalGrouped fmt e rows = (if rows = [] then Inr VNull else eval fmt e (hd rows))"

text \<open>A missing expression is null.\<close>

definition eval_optional :: "fmt \<Rightarrow> ast option \<Rightarrow> eval_row \<Rightarrow> val result" where
  "eval_optional fmt e row = (case e of None \<Rightarrow> Inr VNull | Some e \<Rightarrow> eval fmt e row)"

section \<open>Projection and ordering\<close>

definition resolveOutputColumn :: "string \<Rightarrow> string list \<Rightarrow> tuple \<Rightarrow> val result" where
  "resolveOutputColumn column names vs = (case List.find (\<lambda>(n, v). n = column) (zip names vs) of
       Some (n, v) \<Rightarrow> Inr v
     | None \<Rightarrow> Inl (Runtime_Error (''Unknown output column: '' @ column)))"

definition in_table :: "string \<Rightarrow> bound_column \<Rightarrow> bool" where
  "in_table table c \<longleftrightarrow> table = [] \<or> table = bc_table c \<or> table = bc_alias c"

definition table_column_names :: "'a catalog_data_scheme \<Rightarrow> string \<Rightarrow> string \<times> string \<Rightarrow> string list" where
  "table_column_names cat wanted = (\<lambda>(table, alias).
     if wanted \<noteq> [] \<and> wanted \<noteq> table \<and> wanted \<noteq> alias then []
     else case getTable table cat of None \<Rightarrow> [] | Some t \<Rightarrow> map cm_name (tm_columns t))"

text \<open>
  \<open>outputNames\<close>: wildcards take the names from the first row, or from the catalog when there
  is none; \<open>tables\<close> are the tables of \<open>FROM\<close> and of the joins with their aliases.
\<close>

definition outputNames :: "'a catalog_data_scheme \<Rightarrow> (string \<times> string) list \<Rightarrow> ast list \<Rightarrow> eval_row option \<Rightarrow> string list" where
  "outputNames cat tables columns sample =
     concat (map (\<lambda>(index, e). case e of
         Wildcard _ _ table alias \<Rightarrow> (case sample of
             Some row \<Rightarrow> map bc_name (filter (in_table table) (case er_columns row of Some cs \<Rightarrow> cs | None \<Rightarrow> []))
           | None \<Rightarrow> concat (map (table_column_names cat table) tables))
       | _ \<Rightarrow> [expressionAlias e index]) (enumerate 0 columns))"

definition same_partition :: "fmt \<Rightarrow> ast list \<Rightarrow> eval_row \<Rightarrow> eval_row \<Rightarrow> bool result" where
  "same_partition fmt parts row candidate =
     fold_r (\<lambda>e same. if \<not> same then Inr False
       else rbind (eval fmt e candidate) (\<lambda>a. rbind (eval fmt e row) (\<lambda>b. Inr (value_eq a b)))) parts True"

fun precedes :: "fmt \<Rightarrow> ast order_item list \<Rightarrow> eval_row \<Rightarrow> eval_row \<Rightarrow> bool result" where
  "precedes fmt [] row candidate = Inr False"
| "precedes fmt (order # orders) row candidate =
     rbind (eval fmt (oi_expr order) candidate) (\<lambda>a. rbind (eval fmt (oi_expr order) row) (\<lambda>b.
       let comparison = compare_value a b
       in if comparison = 0 then precedes fmt orders row candidate
          else Inr (if oi_asc order then comparison < 0 else comparison > 0)))"

definition windowValue :: "fmt \<Rightarrow> string \<Rightarrow> ast list \<Rightarrow> ast order_item list \<Rightarrow> eval_row \<Rightarrow> eval_row list \<Rightarrow> val result" where
  "windowValue fmt name parts orders row rows =
     (if name \<noteq> ''RANK'' then Inl (Runtime_Error (''Unsupported window function: '' @ name))
      else rbind (filter_r (\<lambda>candidate. rbind (same_partition fmt parts row candidate) (\<lambda>same.
             if same then precedes fmt orders row candidate else Inr False)) rows) (\<lambda>before.
           Inr (VInteger (of_nat (1 + length before)))))"

definition wildcard_values :: "string \<Rightarrow> eval_row \<Rightarrow> tuple result" where
  "wildcard_values table row = (case er_columns row of
       None \<Rightarrow> Inl Undefined_Behaviour
     | Some cs \<Rightarrow> Inr (map snd (filter (\<lambda>(c, v). in_table table c) (zip cs (er_values row)))))"

definition project_item :: "fmt \<Rightarrow> eval_row \<Rightarrow> eval_row list option \<Rightarrow> ast \<Rightarrow> tuple result" where
  "project_item fmt row rows e = (case e of
       Wildcard _ _ table alias \<Rightarrow> wildcard_values table row
     | WindowFunc _ _ name parts orders alias \<Rightarrow> (case rows of
           None \<Rightarrow> Inl (Runtime_Error ''Window function requires an input relation'')
         | Some rs \<Rightarrow> rbind (windowValue fmt name parts orders row rs) (\<lambda>v. Inr [v]))
     | _ \<Rightarrow> rbind (eval fmt e row) (\<lambda>v. Inr [v]))"

definition project :: "fmt \<Rightarrow> ast list \<Rightarrow> eval_row \<Rightarrow> eval_row list option \<Rightarrow> tuple result" where
  "project fmt columns row rows = rbind (map_r (project_item fmt row rows) columns) (\<lambda>vs. Inr (concat vs))"

definition projectGrouped :: "fmt \<Rightarrow> ast list \<Rightarrow> eval_row list \<Rightarrow> tuple result" where
  "projectGrouped fmt columns rows = map_r (\<lambda>e.
     if is_wildcard e then Inl (Runtime_Error ''Wildcard is not supported in aggregate projection'')
     else evalGrouped fmt e rows) columns"

text \<open>
  An ordering expression that cannot be evaluated on the row, if it is a column, is looked up in
  the output.
\<close>

definition order_key :: "(ast \<Rightarrow> val result) \<Rightarrow> string list \<Rightarrow> tuple \<Rightarrow> ast order_item \<Rightarrow> val result" where
  "order_key value_of names projected order = (case value_of (oi_expr order) of
       Inr v \<Rightarrow> Inr v
     | Inl (Runtime_Error msg) \<Rightarrow> (case oi_expr order of
           ColumnRef _ _ table column alias \<Rightarrow> resolveOutputColumn column names projected
         | _ \<Rightarrow> Inl (Runtime_Error msg))
     | Inl e \<Rightarrow> Inl e)"

definition orderKeys :: "fmt \<Rightarrow> ast order_item list \<Rightarrow> eval_row \<Rightarrow> string list \<Rightarrow> tuple \<Rightarrow> val list result" where
  "orderKeys fmt orders row names projected = map_r (order_key (\<lambda>e. eval fmt e row) names projected) orders"

definition orderKeysGrouped :: "fmt \<Rightarrow> ast order_item list \<Rightarrow> eval_row list \<Rightarrow> string list \<Rightarrow> tuple \<Rightarrow> val list result" where
  "orderKeysGrouped fmt orders rows names projected = map_r (order_key (\<lambda>e. evalGrouped fmt e rows) names projected) orders"

section \<open>Column types\<close>

definition upper :: "string \<Rightarrow> string" where
  "upper s = map toupper s"

definition coerceValue :: "fmt \<Rightarrow> column_meta \<Rightarrow> val \<Rightarrow> val result" where
  "coerceValue fmt column v =
     (let type = upper (cm_type column)
      in if isNull v then Inr v
         else if type = ''INTEGER'' \<or> type = ''INT'' then
           (if \<not> isNumeric v then Inl (Runtime_Error (''Expected INTEGER for '' @ cm_name column))
            else rbind (asInteger v) (\<lambda>i. Inr (VInteger i)))
         else if type = ''REAL'' \<or> type = ''FLOAT'' \<or> type = ''DOUBLE'' then
           (if \<not> isNumeric v then Inl (Runtime_Error (''Expected REAL for '' @ cm_name column))
            else rbind (asReal v) (\<lambda>d. Inr (VReal d)))
         else if type = ''TEXT'' \<or> type = ''VARCHAR'' \<or> type = ''STRING'' then Inr (VText (toString fmt v))
         else if type = ''BLOB'' then
           (if type_of v \<noteq> TBlob then Inl (Runtime_Error (''Expected BLOB for '' @ cm_name column)) else Inr v)
         else Inl (Runtime_Error (''Unsupported column type: '' @ cm_type column)))"

end
