(* ===== verification/Optimizer.thy ===== *)
theory Optimizer
  imports Engine_Eval
begin

text \<open>
  The optimizer (\<open>src/optimizer.h\<close>, \<open>src/optimizer.cpp\<close>): constant folding, rewrites from the
  catalog, and the passes that only report. Each pass returns the new tree and the notes it
  adds to the report; \<open>fixed\<close> is \<open>std::to_string\<close> on a double.

  The lemmas relate the passes to the engine's evaluation (\<open>Engine_Eval\<close>): folding keeps the
  value of every expression, also inside aggregates, except where a comparison meets a NaN; a
  query that pins the primary key has at most one row; a projection with the primary key has no
  duplicates; and counting a column that cannot be null is counting rows. \<open>Metadata_Rewrites\<close> uses
  the last three to show that the rewritten query answers as the query does.
\<close>

section \<open>Constant folding\<close>

type_synonym report = "string list"

definition number_of_literal :: "literal \<Rightarrow> double option" where
  "number_of_literal v = (case v of
       INT_LIT i \<Rightarrow> Some (double_of_int i) | FLOAT_VAL d \<Rightarrow> Some d | _ \<Rightarrow> None)"

definition int_literal :: "int \<Rightarrow> literal result" where
  "int_literal i = (if int64_range i then Inr (INT_LIT i) else Inl Undefined_Behaviour)"

text \<open>On two integers the integer operation, otherwise the one on doubles.\<close>

definition fold_arithmetic :: "(int \<Rightarrow> int \<Rightarrow> int) \<Rightarrow> (double \<Rightarrow> double \<Rightarrow> double) \<Rightarrow> literal \<Rightarrow> literal \<Rightarrow>
    double \<Rightarrow> double \<Rightarrow> literal result" where
  "fold_arithmetic fi fd a b lv rv = (case (a, b) of
       (INT_LIT i, INT_LIT j) \<Rightarrow> int_literal (fi i j)
     | _ \<Rightarrow> Inr (FLOAT_VAL (fd lv rv)))"

definition arithmetic_note :: "(double \<Rightarrow> string) \<Rightarrow> string \<Rightarrow> double \<Rightarrow> double \<Rightarrow> string" where
  "arithmetic_note fixed oper lv rv = ''Constant folding: '' @ fixed lv @ '' '' @ oper @ '' '' @ fixed rv"

abbreviation comparison_note :: string where
  "comparison_note \<equiv> ''Constant folding: comparison''"

definition double_le :: "double \<Rightarrow> double \<Rightarrow> bool" where
  "double_le a b \<longleftrightarrow> double_lt a b \<or> double_eq a b"

text \<open>Folding an operator on two literals: nothing, or the new literal and the note.\<close>

definition fold_numbers :: "(double \<Rightarrow> string) \<Rightarrow> string \<Rightarrow> literal \<Rightarrow> literal \<Rightarrow> double \<Rightarrow> double \<Rightarrow>
    (literal \<times> string) option result" where
  "fold_numbers fixed oper a b lv rv =
     (let arith = (\<lambda>fi fd. rbind (fold_arithmetic fi fd a b lv rv) (\<lambda>v. Inr (Some (v, arithmetic_note fixed oper lv rv))));
          comparison = (\<lambda>t. Inr (Some (BOOL_VAL t, comparison_note)))
      in if oper = ''+'' then arith (+) dadd
         else if oper = ''-'' then arith (-) dsub
         else if oper = ''*'' then arith (*) dmul
         else if oper = ''/'' \<and> \<not> double_eq rv 0 then arith (sdiv) ddiv
         else if oper = ''='' then comparison (double_eq lv rv)
         else if oper = ''!='' then comparison (\<not> double_eq lv rv)
         else if oper = ''<'' then comparison (double_lt lv rv)
         else if oper = ''>'' then comparison (double_lt rv lv)
         else if oper = ''<='' then comparison (double_le lv rv)
         else if oper = ''>='' then comparison (double_le rv lv)
         else Inr None)"

definition fold_literals :: "(double \<Rightarrow> string) \<Rightarrow> string \<Rightarrow> literal \<Rightarrow> literal \<Rightarrow> (literal \<times> string) option result" where
  "fold_literals fixed oper a b = (case (number_of_literal a, number_of_literal b) of
       (Some lv, Some rv) \<Rightarrow> fold_numbers fixed oper a b lv rv
     | _ \<Rightarrow> (case (a, b) of
           (STRING_VAL s, STRING_VAL t) \<Rightarrow>
             Inr (if oper = ''||'' then Some (STRING_VAL (s @ t), ''Constant folding: string concatenation'') else None)
         | (BOOL_VAL s, BOOL_VAL t) \<Rightarrow>
             Inr (if oper = ''AND'' then Some (BOOL_VAL (s \<and> t), ''Constant folding: AND'')
                  else if oper = ''OR'' then Some (BOOL_VAL (s \<or> t), ''Constant folding: OR'')
                  else None)
         | _ \<Rightarrow> Inr None))"

definition tryFoldExpr :: "(double \<Rightarrow> string) \<Rightarrow> ast \<Rightarrow> (ast \<times> report) option result" where
  "tryFoldExpr fixed e = (case e of
       BinaryOp l c oper (Literal _ _ a) (Literal _ _ b) _ \<Rightarrow>
         rbind (fold_literals fixed oper a b) (\<lambda>r. Inr (map_option (\<lambda>(v, note). (Literal l c v, [note])) r))
     | _ \<Rightarrow> Inr None)"

definition fold_unary :: "int \<Rightarrow> int \<Rightarrow> string \<Rightarrow> ast \<Rightarrow> (ast \<times> report) option result" where
  "fold_unary l c oper operand = (case operand of
       Literal _ _ (INT_LIT i) \<Rightarrow>
         (if oper = ''-'' then rbind (int_literal (- i)) (\<lambda>v. Inr (Some (Literal l c v, [''Constant folding: unary minus''])))
          else Inr None)
     | Literal _ _ (FLOAT_VAL d) \<Rightarrow>
         Inr (if oper = ''-'' then Some (Literal l c (FLOAT_VAL (dneg_of d)), [''Constant folding: unary minus'']) else None)
     | Literal _ _ (BOOL_VAL b) \<Rightarrow>
         Inr (if oper = ''NOT'' then Some (Literal l c (BOOL_VAL (\<not> b)), [''Constant folding: NOT'']) else None)
     | _ \<Rightarrow> Inr None)"

definition fold_optional :: "(ast \<Rightarrow> (ast \<times> report) result) \<Rightarrow> ast option \<Rightarrow> (ast option \<times> report) result" where
  "fold_optional f e = (case e of None \<Rightarrow> Inr (None, []) | Some e \<Rightarrow> rbind (f e) (\<lambda>(e', ns). Inr (Some e', ns)))"

lemma fold_optional_cong [fundef_cong]:
  "e = e' \<Longrightarrow> (\<And>x. e' = Some x \<Longrightarrow> f x = g x) \<Longrightarrow> fold_optional f e = fold_optional g e'"
  by (cases e') (simp_all add: fold_optional_def)

fun foldConstants :: "(double \<Rightarrow> string) \<Rightarrow> ast \<Rightarrow> (ast \<times> report) result" where
  "foldConstants fixed (SelectStmt l c dist cols fromTable fromAlias joins whr groups having orders lim off) =
     rbind (map_r (foldConstants fixed) cols) (\<lambda>cs.
     rbind (fold_optional (foldConstants fixed) whr) (\<lambda>(w, n1).
     rbind (fold_optional (foldConstants fixed) having) (\<lambda>(h, n2).
     rbind (fold_optional (foldConstants fixed) lim) (\<lambda>(li, n3).
     rbind (fold_optional (foldConstants fixed) off) (\<lambda>(o', n4).
       Inr (SelectStmt l c dist (map fst cs) fromTable fromAlias joins w groups h orders li o',
            concat (map snd cs) @ n1 @ n2 @ n3 @ n4))))))"
| "foldConstants fixed (BinaryOp l c oper left right alias) =
     rbind (foldConstants fixed left) (\<lambda>(a, n1).
     rbind (foldConstants fixed right) (\<lambda>(b, n2).
     rbind (tryFoldExpr fixed (BinaryOp l c oper a b alias)) (\<lambda>r. case r of
         Some (e, n) \<Rightarrow> Inr (e, n1 @ n2 @ n)
       | None \<Rightarrow> Inr (BinaryOp l c oper a b alias, n1 @ n2))))"
| "foldConstants fixed (UnaryOp l c oper operand alias) =
     rbind (foldConstants fixed operand) (\<lambda>(a, n1).
     rbind (fold_unary l c oper a) (\<lambda>r. case r of
         Some (e, n) \<Rightarrow> Inr (e, n1 @ n)
       | None \<Rightarrow> Inr (UnaryOp l c oper a alias, n1)))"
| "foldConstants fixed (FunctionCall l c name args dist alias) =
     rbind (map_r (foldConstants fixed) args) (\<lambda>as.
       Inr (FunctionCall l c name (map fst as) dist alias, concat (map snd as)))"
| "foldConstants fixed e = Inr (e, [])"

section \<open>Rewrites from the catalog\<close>

definition isGuaranteedNonNull :: "column_meta \<Rightarrow> bool" where
  "isGuaranteedNonNull column \<longleftrightarrow>
     cm_not_null column \<or> (cm_primary_key column \<and> upper (cm_type column) = ''INTEGER'')"

text \<open>The parts of a \<open>SELECT\<close> over one table that the rewrites look at.\<close>

record base =
  b_table :: string
  b_alias :: string

definition resolveBaseColumn :: "'a catalog_data_scheme \<Rightarrow> base \<Rightarrow> ast \<Rightarrow> column_meta option" where
  "resolveBaseColumn cat b e = (case e of
       ColumnRef _ _ table column alias \<Rightarrow>
         if table \<noteq> [] \<and> table \<noteq> b_table b \<and> table \<noteq> b_alias b then None
         else (case getTable (b_table b) cat of
             None \<Rightarrow> None
           | Some t \<Rightarrow> List.find (\<lambda>m. cm_name m = column) (tm_columns t))
     | _ \<Rightarrow> None)"

definition projects_key :: "'a catalog_data_scheme \<Rightarrow> base \<Rightarrow> table_meta \<Rightarrow> ast \<Rightarrow> bool" where
  "projects_key cat b t e \<longleftrightarrow>
     (case e of
        Wildcard _ _ table alias \<Rightarrow>
          (table = [] \<or> table = b_table b \<or> table = b_alias b) \<and>
          (\<exists>m\<in>set (tm_columns t). cm_primary_key m \<and> isGuaranteedNonNull m)
      | ColumnRef _ _ table column alias \<Rightarrow> (case resolveBaseColumn cat b e of
            Some m \<Rightarrow> cm_primary_key m \<and> isGuaranteedNonNull m | None \<Rightarrow> False)
      | _ \<Rightarrow> False)"

definition projectsPrimaryKey :: "'a catalog_data_scheme \<Rightarrow> base \<Rightarrow> ast list \<Rightarrow> bool" where
  "projectsPrimaryKey cat b columns = (case getTable (b_table b) cat of
       None \<Rightarrow> False | Some t \<Rightarrow> (\<exists>e\<in>set columns. projects_key cat b t e))"

definition is_literal :: "ast \<Rightarrow> bool" where
  "is_literal e = (case e of Literal _ _ _ \<Rightarrow> True | _ \<Rightarrow> False)"

definition is_column :: "ast \<Rightarrow> bool" where
  "is_column e = (case e of ColumnRef _ _ _ _ _ \<Rightarrow> True | _ \<Rightarrow> False)"

definition key_column :: "'a catalog_data_scheme \<Rightarrow> base \<Rightarrow> ast \<Rightarrow> bool" where
  "key_column cat b e = (case resolveBaseColumn cat b e of Some m \<Rightarrow> cm_primary_key m | None \<Rightarrow> False)"

fun wherePinsPrimaryKey :: "'a catalog_data_scheme \<Rightarrow> base \<Rightarrow> ast \<Rightarrow> bool" where
  "wherePinsPrimaryKey cat b (BinaryOp _ _ oper left right _) \<longleftrightarrow>
     (if oper = ''AND'' then wherePinsPrimaryKey cat b left \<or> wherePinsPrimaryKey cat b right
      else if oper \<noteq> ''='' then False
      else if is_column left \<and> is_literal right then key_column cat b left
      else if is_column right \<and> is_literal left then key_column cat b right
      else False)"
| "wherePinsPrimaryKey cat b _ = False"

definition hasSetProducingExpression :: "ast list \<Rightarrow> bool" where
  "hasSetProducingExpression columns \<longleftrightarrow>
     (\<exists>e\<in>set columns. case e of
          WindowFunc _ _ _ _ _ _ \<Rightarrow> True
        | FunctionCall _ _ name _ _ _ \<Rightarrow> is_aggregate_name name
        | _ \<Rightarrow> False)"

definition count_note :: "string \<Rightarrow> string" where
  "count_note column = ''Metadata optimization: COUNT('' @ column @
     '') rewritten to COUNT(*) because the column is non-null''"

text \<open>The first argument of a count, replaced by a wildcard if it is a column that cannot be null.\<close>

definition rewrite_count :: "'a catalog_data_scheme \<Rightarrow> base \<Rightarrow> string \<Rightarrow> ast list \<Rightarrow> bool \<Rightarrow> ast list \<times> report" where
  "rewrite_count cat b name args dist =
     (case args of
        [ColumnRef l c table column alias] \<Rightarrow>
          if name = ''headcount'' \<and> \<not> dist then
            (case resolveBaseColumn cat b (ColumnRef l c table column alias) of
               Some m \<Rightarrow> if isGuaranteedNonNull m then ([Wildcard l c [] []], [count_note (cm_name m)]) else (args, [])
             | None \<Rightarrow> (args, []))
          else (args, [])
      | _ \<Rightarrow> (args, []))"

fun rewriteNonNullCounts :: "'a catalog_data_scheme \<Rightarrow> base \<Rightarrow> ast \<Rightarrow> ast \<times> report" where
  "rewriteNonNullCounts cat b (FunctionCall l c name args dist alias) =
     (let rs = map (rewriteNonNullCounts cat b) args;
          (args', n) = rewrite_count cat b name args dist
      in if n \<noteq> [] then (FunctionCall l c name args' dist alias, n)
         else (FunctionCall l c name (map fst rs) dist alias, concat (map snd rs)))"
| "rewriteNonNullCounts cat b (BinaryOp l c oper left right alias) =
     (let (a, n1) = rewriteNonNullCounts cat b left; (d, n2) = rewriteNonNullCounts cat b right
      in (BinaryOp l c oper a d alias, n1 @ n2))"
| "rewriteNonNullCounts cat b (UnaryOp l c oper operand alias) =
     (let (a, n) = rewriteNonNullCounts cat b operand in (UnaryOp l c oper a alias, n))"
| "rewriteNonNullCounts cat b e = (e, [])"

definition distinct_note :: string where
  "distinct_note = ''Metadata optimization: removed redundant DISTINCT because the projection contains the primary key''"

definition order_note :: string where
  "order_note = ''Metadata optimization: removed ORDER BY from a primary-key point lookup''"

definition limit_note :: string where
  "limit_note = ''Metadata optimization: added LIMIT 1 to a primary-key point lookup''"

definition is_point_lookup :: "'a catalog_data_scheme \<Rightarrow> base \<Rightarrow> ast list \<Rightarrow> ast option \<Rightarrow> ast list \<Rightarrow> ast option \<Rightarrow> bool" where
  "is_point_lookup cat b cols whr groups having \<longleftrightarrow>
     (case whr of None \<Rightarrow> False | Some w \<Rightarrow> wherePinsPrimaryKey cat b w) \<and> groups = [] \<and> having = None \<and>
     \<not> hasSetProducingExpression cols"

definition applyMetadataOptimizations :: "'a catalog_data_scheme option \<Rightarrow> ast \<Rightarrow> ast \<times> report" where
  "applyMetadataOptimizations catalog e = (case (catalog, e) of
       (Some cat, SelectStmt l c dist cols fromTable fromAlias joins whr groups having orders lim off) \<Rightarrow>
         if joins \<noteq> [] \<or> \<not> hasTable fromTable cat then (e, [])
         else
           let b = \<lparr>b_table = fromTable, b_alias = fromAlias\<rparr>;
               rs = map (rewriteNonNullCounts cat b) cols;
               cols' = map fst rs;
               (having', nh) = (case having of
                   None \<Rightarrow> (None, [])
                 | Some h \<Rightarrow> (case rewriteNonNullCounts cat b h of (h', n) \<Rightarrow> (Some h', n)));
               undistinct = dist \<and> projectsPrimaryKey cat b cols';
               point = is_point_lookup cat b cols' whr groups having'
           in (SelectStmt l c (dist \<and> \<not> undistinct) cols' fromTable fromAlias joins whr groups having'
                 (if point then [] else orders)
                 (if point \<and> lim = None then Some (Literal l c (INT_LIT 1)) else lim) off,
               concat (map snd rs) @ nh @ (if undistinct then [distinct_note] else []) @
               (if point \<and> orders \<noteq> [] then [order_note] else []) @
               (if point \<and> lim = None then [limit_note] else []))
     | _ \<Rightarrow> (e, []))"

section \<open>Passes that report\<close>

fun pushdownPredicates :: "ast \<Rightarrow> report" where
  "pushdownPredicates (SelectStmt l c dist cols fromTable fromAlias joins whr groups having orders lim off) =
     (if whr = None then []
      else if joins = [] then
        [''Predicate pushdown: WHERE condition applied at scan level for table '' @ [CHR 0x27] @ fromTable @ [CHR 0x27]]
      else [''Predicate pushdown: WHERE condition with JOINs - filter applied after join'']) @
     concat (map pushdownPredicates cols)"
| "pushdownPredicates _ = []"

definition pruneProjections :: "ast \<Rightarrow> report" where
  "pruneProjections e = (case e of
       SelectStmt l c dist cols fromTable fromAlias joins whr groups having orders lim off \<Rightarrow>
         if \<exists>x\<in>set cols. is_wildcard x
         then [''Projection pruning: SELECT * - all columns required, no pruning possible'']
         else if cols \<noteq> []
         then [''Projection pruning: query selects '' @ string_of_nat (length cols) @ '' specific column(s)'']
         else []
     | _ \<Rightarrow> [])"

definition isTruthy :: "literal \<Rightarrow> bool" where
  "isTruthy v = (case v of
       INT_LIT i \<Rightarrow> i \<noteq> 0 | FLOAT_VAL d \<Rightarrow> \<not> double_eq d 0 | STRING_VAL s \<Rightarrow> s \<noteq> [] | BOOL_VAL b \<Rightarrow> b | NUL \<Rightarrow> False)"

definition dead_clause :: "string \<Rightarrow> ast option \<Rightarrow> ast option \<times> report" where
  "dead_clause name clause = (case clause of
       Some (Literal _ _ v) \<Rightarrow>
         if isTruthy v
         then (None, [''Dead code elimination: '' @ name @ '' clause is always TRUE - removing condition''])
         else (clause, [''Dead code elimination: '' @ name @ '' clause is always FALSE - query returns no rows''])
     | _ \<Rightarrow> (clause, []))"

definition eliminateDeadCode :: "ast \<Rightarrow> ast \<times> report" where
  "eliminateDeadCode e = (case e of
       SelectStmt l c dist cols fromTable fromAlias joins whr groups having orders lim off \<Rightarrow>
         (case (dead_clause ''WHERE'' whr, dead_clause ''HAVING'' having) of
            ((w, n1), (h, n2)) \<Rightarrow>
              (SelectStmt l c dist cols fromTable fromAlias joins w groups h orders lim off, n1 @ n2))
     | _ \<Rightarrow> (e, []))"

definition optimize_query :: "(double \<Rightarrow> string) \<Rightarrow> 'a catalog_data_scheme option \<Rightarrow> ast \<Rightarrow> (ast \<times> report) result" where
  "optimize_query fixed catalog e =
     rbind (foldConstants fixed e) (\<lambda>(e1, n1).
       case applyMetadataOptimizations catalog e1 of
         (e2, n2) \<Rightarrow> (case eliminateDeadCode e2 of
           (e3, n5) \<Rightarrow> Inr (e3, n1 @ n2 @ pushdownPredicates e2 @ pruneProjections e2 @ n5)))"

text \<open>Only queries are changed.\<close>

definition optimize :: "(double \<Rightarrow> string) \<Rightarrow> 'a catalog_data_scheme option \<Rightarrow> stmt \<Rightarrow> (stmt \<times> report) result" where
  "optimize fixed catalog s = (case s of
       SelectNode q \<Rightarrow> rbind (optimize_query fixed catalog q) (\<lambda>(q', ns). Inr (SelectNode q', ns))
     | _ \<Rightarrow> Inr (s, []))"

section \<open>Folding keeps values\<close>

text \<open>Integer literals come from 64-bit numbers.\<close>

definition literal_ok :: "literal \<Rightarrow> bool" where
  "literal_ok v = (case v of INT_LIT i \<Rightarrow> int64_range i | _ \<Rightarrow> True)"

fun literals_ok :: "ast \<Rightarrow> bool" where
  "literals_ok (Literal _ _ v) = literal_ok v"
| "literals_ok (BinaryOp _ _ oper left right alias) \<longleftrightarrow> literals_ok left \<and> literals_ok right"
| "literals_ok (UnaryOp _ _ oper operand alias) = literals_ok operand"
| "literals_ok (FunctionCall _ _ name args dist alias) = list_all literals_ok args"
| "literals_ok _ = True"

text \<open>No \<open><=\<close> or \<open>>=\<close> compares a constant that is not a number.\<close>

definition folds_to_nan :: "(double \<Rightarrow> string) \<Rightarrow> ast \<Rightarrow> bool" where
  "folds_to_nan fixed e = (case foldConstants fixed e of
       Inr (Literal _ _ (FLOAT_VAL d), _) \<Rightarrow> is_nan d | _ \<Rightarrow> False)"

fun nan_free :: "(double \<Rightarrow> string) \<Rightarrow> ast \<Rightarrow> bool" where
  "nan_free fixed (BinaryOp _ _ oper left right alias) \<longleftrightarrow>
     nan_free fixed left \<and> nan_free fixed right \<and>
     (oper = ''<='' \<or> oper = ''>='' \<longrightarrow> \<not> folds_to_nan fixed left \<and> \<not> folds_to_nan fixed right)"
| "nan_free fixed (UnaryOp _ _ oper operand alias) = nan_free fixed operand"
| "nan_free fixed (FunctionCall _ _ name args dist alias) = list_all (nan_free fixed) args"
| "nan_free fixed _ = True"

lemma sint_literal: "int64_range i \<Longrightarrow> sint (word_of_int i :: i64) = i"
  by (simp add: int64_range_def sint_sbintrunc' signed_take_bit_int_eq_self)

lemma literal_value_simps [simp]:
  "literalValue (INT_LIT i) = VInteger (word_of_int i)" "literalValue (FLOAT_VAL d) = VReal d"
  "literalValue (STRING_VAL s) = VText s" "literalValue NUL = VNull" "literalValue (BOOL_VAL b) = VBoolean b"
  by (simp_all add: literalValue_def)

lemma number_value:
  assumes "number_of_literal a = Some d" "literal_ok a"
  shows "asReal (literalValue a) = Inr d" "num (literalValue a) = d" "isNumeric (literalValue a)"
    "\<not> isNull (literalValue a)"
  using assms
  by (auto simp: number_of_literal_def literalValue_def literal_ok_def asReal_def value_class_defs sint_literal
    split: literal.splits)

lemma double_lt_asym: "double_lt a b \<Longrightarrow> \<not> double_lt b a"
  by (simp add: double_lt_def)

lemma double_le_iff: "\<not> is_nan a \<Longrightarrow> \<not> is_nan b \<Longrightarrow> double_le a b \<longleftrightarrow> \<not> double_lt b a"
  by (auto simp: double_le_def double_lt_def double_eq_def)

lemma int_literal_value:
  "int_literal i = Inr v \<Longrightarrow> integer_value i = Inr (literalValue v) \<and> literal_ok v"
  by (auto simp: int_literal_def integer_value_def literalValue_def literal_ok_def split: if_splits)

lemma arithmetic_folds:
  assumes "fold_arithmetic fi fd a b lv rv = Inr v" "literal_ok a" "literal_ok b"
    "number_of_literal a = Some lv" "number_of_literal b = Some rv"
  shows "arithmetic fi fd (literalValue a) (literalValue b) = Inr (literalValue v) \<and> literal_ok v"
proof (cases "\<exists>i j. a = INT_LIT i \<and> b = INT_LIT j")
  case True
  then obtain i j where ij: "a = INT_LIT i" "b = INT_LIT j" by blast
  then have "int_literal (fi i j) = Inr v" using assms(1) by (simp add: fold_arithmetic_def)
  moreover have "sint (word_of_int i :: i64) = i" "sint (word_of_int j :: i64) = j"
    using ij assms(2,3) by (simp_all only: literal_ok_def literal.case sint_literal)
  ultimately show ?thesis using int_literal_value ij by (simp add: arithmetic_def)
next
  case False
  have "real_value fd (literalValue a) (literalValue b) = Inr (VReal (fd lv rv))"
    using number_value [OF assms(4,2)] number_value [OF assms(5,3)] by (simp add: real_value_def)
  moreover have "arithmetic fi fd (literalValue a) (literalValue b) = real_value fd (literalValue a) (literalValue b)"
    using False assms(4,5)
    by (auto simp: arithmetic_def literalValue_def number_of_literal_def split: literal.splits)
  moreover have "v = FLOAT_VAL (fd lv rv)"
    using False assms(1,4,5) by (auto simp: fold_arithmetic_def number_of_literal_def split: literal.splits)
  ultimately show ?thesis by (simp add: literalValue_def literal_ok_def)
qed

lemma comparisons_fold:
  assumes "number_of_literal a = Some lv" "number_of_literal b = Some rv" "literal_ok a" "literal_ok b"
  shows "value_eq (literalValue a) (literalValue b) = double_eq lv rv"
    "compare_value (literalValue a) (literalValue b) < 0 \<longleftrightarrow> double_lt lv rv"
    "compare_value (literalValue a) (literalValue b) > 0 \<longleftrightarrow> double_lt rv lv"
    "compare_value (literalValue a) (literalValue b) \<le> 0 \<longleftrightarrow> \<not> double_lt rv lv"
    "compare_value (literalValue a) (literalValue b) \<ge> 0 \<longleftrightarrow> \<not> double_lt lv rv"
  using number_value [OF assms(1,3)] number_value [OF assms(2,4)] double_lt_asym
  by (auto simp: value_eq_def compare_value_def)

lemma fold_numbers_value:
  assumes "fold_numbers fixed oper a b lv rv = Inr (Some (v, note))"
    and "number_of_literal a = Some lv" "number_of_literal b = Some rv" "literal_ok a" "literal_ok b"
    and "oper = ''<='' \<or> oper = ''>='' \<Longrightarrow> \<not> is_nan lv \<and> \<not> is_nan rv"
  shows "applyBinary fmt oper (literalValue a) (literalValue b) = Inr (literalValue v) \<and> literal_ok v"
proof -
  note nums = number_value [OF assms(2,4)] number_value [OF assms(3,5)]
  note cmps = comparisons_fold [OF assms(2-5)]
  consider (add) "oper = ''+''" | (sub) "oper = ''-''" | (mul) "oper = ''*''" | (division) "oper = ''/''"
    | (le) "oper = ''<=''" | (ge) "oper = ''>=''" | (other) "oper \<notin> {''+'', ''-'', ''*'', ''/'', ''<='', ''>=''}"
    by blast
  then show ?thesis
  proof cases
    case add
    then show ?thesis using assms(1) nums arithmetic_folds [OF _ assms(4,5,2,3)]
      by (auto simp: fold_numbers_def applyBinary_def rbind_eq_Inr_iff)
  next
    case sub
    then show ?thesis using assms(1) nums arithmetic_folds [OF _ assms(4,5,2,3)]
      by (auto simp: fold_numbers_def applyBinary_def rbind_eq_Inr_iff)
  next
    case mul
    then show ?thesis using assms(1) nums arithmetic_folds [OF _ assms(4,5,2,3)]
      by (auto simp: fold_numbers_def applyBinary_def rbind_eq_Inr_iff)
  next
    case division
    then show ?thesis using assms(1) nums arithmetic_folds [OF _ assms(4,5,2,3)]
      by (auto simp: fold_numbers_def applyBinary_def rbind_eq_Inr_iff split: if_splits)
  next
    case le
    then show ?thesis using assms(1,6) nums cmps
      by (auto simp: fold_numbers_def applyBinary_def literalValue_def literal_ok_def double_le_iff)
  next
    case ge
    then show ?thesis using assms(1,6) nums cmps
      by (auto simp: fold_numbers_def applyBinary_def literalValue_def literal_ok_def double_le_iff)
  next
    case other
    then show ?thesis using assms(1) nums cmps
      by (auto simp: fold_numbers_def applyBinary_def literalValue_def literal_ok_def split: if_splits)
  qed
qed

lemma fold_literals_value:
  assumes "fold_literals fixed oper a b = Inr (Some (v, note))" "literal_ok a" "literal_ok b"
    and nan: "oper = ''<='' \<or> oper = ''>='' \<Longrightarrow>
      (\<forall>d. a = FLOAT_VAL d \<longrightarrow> \<not> is_nan d) \<and> (\<forall>d. b = FLOAT_VAL d \<longrightarrow> \<not> is_nan d)"
  shows "applyBinary fmt oper (literalValue a) (literalValue b) = Inr (literalValue v) \<and> literal_ok v"
proof (cases "\<exists>lv rv. number_of_literal a = Some lv \<and> number_of_literal b = Some rv")
  case True
  then obtain lv rv where n: "number_of_literal a = Some lv" "number_of_literal b = Some rv" by blast
  then have "fold_numbers fixed oper a b lv rv = Inr (Some (v, note))" using assms(1) by (simp add: fold_literals_def)
  moreover have "\<not> is_nan lv \<and> \<not> is_nan rv" if "oper = ''<='' \<or> oper = ''>=''"
    using nan [OF that] n assms(2,3)
    by (auto simp: number_of_literal_def literal_ok_def double_of_int_not_nan split: literal.splits)
  ultimately show ?thesis using n assms(2,3) by (intro fold_numbers_value) auto
next
  case False
  then have "(case (a, b) of
           (STRING_VAL s, STRING_VAL t) \<Rightarrow>
             Inr (if oper = ''||'' then Some (STRING_VAL (s @ t), ''Constant folding: string concatenation'') else None)
         | (BOOL_VAL s, BOOL_VAL t) \<Rightarrow>
             Inr (if oper = ''AND'' then Some (BOOL_VAL (s \<and> t), ''Constant folding: AND'')
                  else if oper = ''OR'' then Some (BOOL_VAL (s \<or> t), ''Constant folding: OR'')
                  else None)
         | _ \<Rightarrow> Inr None) = (Inr (Some (v, note)) :: (literal \<times> string) option result)"
    using assms(1) by (auto simp: fold_literals_def split: option.splits)
  then show ?thesis
    by (auto simp: applyBinary_def literal_ok_def value_class_defs toString_def asBoolean_def
      split: literal.splits if_splits)
qed

lemma fold_unary_value:
  assumes "fold_unary l c oper (Literal l' c' a) = Inr (Some (e, n))" "literal_ok a"
  shows "\<exists>v. e = Literal l c v \<and> applyUnary oper (literalValue a) = Inr (literalValue v) \<and> literal_ok v"
proof (cases a)
  case (INT_LIT i)
  then obtain v where v: "int_literal (- i) = Inr v" "e = Literal l c v" "oper = ''-''"
    using assms(1) by (auto simp: fold_unary_def rbind_eq_Inr_iff split: if_splits)
  moreover have "sint (word_of_int i :: i64) = i" using assms(2) INT_LIT by (simp add: literal_ok_def sint_literal)
  ultimately show ?thesis
    using int_literal_value [OF v(1)] INT_LIT by (simp add: applyUnary_def value_class_defs)
next
  case (FLOAT_VAL d)
  then show ?thesis using assms(1)
    by (auto simp: fold_unary_def applyUnary_def value_class_defs asReal_def literal_ok_def split: if_splits)
next
  case (BOOL_VAL b)
  then show ?thesis using assms(1)
    by (auto simp: fold_unary_def applyUnary_def asBoolean_def literal_ok_def split: if_splits)
qed (use assms(1) in \<open>simp_all add: fold_unary_def\<close>)

lemma fold_unary_literal: "fold_unary l c oper e = Inr (Some r) \<Longrightarrow> \<exists>l' c' v. e = Literal l' c' v"
  by (auto simp: fold_unary_def split: ast.splits)

lemma try_fold_literals:
  "tryFoldExpr fixed (BinaryOp l c oper a b alias) = Inr (Some (e, n)) \<Longrightarrow>
    \<exists>l1 c1 v1 l2 c2 v2 v note. a = Literal l1 c1 v1 \<and> b = Literal l2 c2 v2 \<and> e = Literal l c v \<and>
      fold_literals fixed oper v1 v2 = Inr (Some (v, note))"
  by (auto simp: tryFoldExpr_def rbind_eq_Inr_iff split: ast.splits)

text \<open>The invariant of folding.\<close>

definition folded :: "(double \<Rightarrow> string) \<Rightarrow> ast \<Rightarrow> ast \<Rightarrow> bool" where
  "folded fixed e e' \<longleftrightarrow>
     (\<forall>fmt row. eval fmt e' row = eval fmt e row) \<and> literals_ok e' \<and>
     is_wildcard e' = is_wildcard e \<and> hasAggregate e' = hasAggregate e"

lemma folded_binary:
  assumes "foldConstants fixed left = Inr (a, n1)" "foldConstants fixed right = Inr (b, n2)"
    and "folded fixed left a" "folded fixed right b"
    and nan: "oper = ''<='' \<or> oper = ''>='' \<Longrightarrow> \<not> folds_to_nan fixed left \<and> \<not> folds_to_nan fixed right"
    and r: "tryFoldExpr fixed (BinaryOp l c oper a b alias) = Inr r"
  shows "folded fixed (BinaryOp l c oper left right alias)
    (case r of Some (e, n) \<Rightarrow> e | None \<Rightarrow> BinaryOp l c oper a b alias)"
proof (cases r)
  case None
  then show ?thesis using assms(3,4) by (simp add: folded_def is_wildcard_def)
next
  case (Some en)
  obtain e n where en: "en = (e, n)" by force
  from try_fold_literals [OF r [unfolded Some en]] obtain l1 c1 v1 l2 c2 v2 v msg where
    e: "a = Literal l1 c1 v1" "b = Literal l2 c2 v2" "e = Literal l c v"
      "fold_literals fixed oper v1 v2 = Inr (Some (v, msg))" by blast
  have "literal_ok v1" "literal_ok v2" using assms(3,4) e by (simp_all add: folded_def)
  moreover have "(\<forall>d. v1 = FLOAT_VAL d \<longrightarrow> \<not> is_nan d) \<and> (\<forall>d. v2 = FLOAT_VAL d \<longrightarrow> \<not> is_nan d)"
    if "oper = ''<='' \<or> oper = ''>=''"
    using nan [OF that] assms(1,2) e by (auto simp: folds_to_nan_def)
  ultimately have "applyBinary fmt oper (literalValue v1) (literalValue v2) = Inr (literalValue v) \<and> literal_ok v" for fmt
    by (rule fold_literals_value [OF e(4)])
  moreover have "eval fmt left row = Inr (literalValue v1)" "eval fmt right row = Inr (literalValue v2)" for fmt row
    using assms(3,4) e by (auto simp: folded_def)
  moreover have "\<not> hasAggregate left" "\<not> hasAggregate right" using assms(3,4) e by (auto simp: folded_def)
  ultimately show ?thesis using Some en e by (simp add: folded_def is_wildcard_def)
qed

lemma folded_unary:
  assumes "folded fixed operand a" and r: "fold_unary l c oper a = Inr r"
  shows "folded fixed (UnaryOp l c oper operand alias) (case r of Some (e, n) \<Rightarrow> e | None \<Rightarrow> UnaryOp l c oper a alias)"
proof (cases r)
  case None
  then show ?thesis using assms(1) by (simp add: folded_def is_wildcard_def)
next
  case (Some en)
  obtain e n where en: "en = (e, n)" by force
  with r Some obtain l' c' v' where a: "a = Literal l' c' v'" using fold_unary_literal by blast
  have "literal_ok v'" using assms(1) a by (simp add: folded_def)
  with r Some en a obtain v where v: "e = Literal l c v" "literal_ok v"
    "applyUnary oper (literalValue v') = Inr (literalValue v)" using fold_unary_value by blast
  moreover have "eval fmt operand row = Inr (literalValue v')" for fmt row using assms(1) a by (auto simp: folded_def)
  moreover have "\<not> hasAggregate operand" using assms(1) a by (auto simp: folded_def)
  ultimately show ?thesis using Some en by (simp add: folded_def is_wildcard_def)
qed

lemma fold_folded:
  "foldConstants fixed e = Inr (e', n) \<Longrightarrow> literals_ok e \<Longrightarrow> nan_free fixed e \<Longrightarrow> folded fixed e e'"
proof (induction e arbitrary: e' n)
  case (BinaryOp l c oper left right al)
  from BinaryOp.prems(1) obtain a n1 b n2 r where
    f: "foldConstants fixed left = Inr (a, n1)" "foldConstants fixed right = Inr (b, n2)"
      "tryFoldExpr fixed (BinaryOp l c oper a b al) = Inr r"
      "e' = (case r of Some (e, n) \<Rightarrow> e | None \<Rightarrow> BinaryOp l c oper a b al)"
    by (auto simp: rbind_eq_Inr_iff split: option.splits)
  show ?case unfolding f(4)
    by (rule folded_binary [OF f(1,2) BinaryOp.IH(1) [OF f(1)] BinaryOp.IH(2) [OF f(2)] _ f(3)])
      (use BinaryOp.prems in auto)
next
  case (UnaryOp l c oper operand al)
  from UnaryOp.prems(1) obtain a n1 r where
    f: "foldConstants fixed operand = Inr (a, n1)" "fold_unary l c oper a = Inr r"
      "e' = (case r of Some (e, n) \<Rightarrow> e | None \<Rightarrow> UnaryOp l c oper a al)"
    by (auto simp: rbind_eq_Inr_iff split: option.splits)
  show ?case unfolding f(3)
    by (rule folded_unary [OF UnaryOp.IH [OF f(1)] f(2)]) (use UnaryOp.prems in auto)
next
  case (FunctionCall l c name args dist al)
  from FunctionCall.prems(1) obtain rs where
    rs: "list_all2 (\<lambda>x y. foldConstants fixed x = Inr y) args rs" "e' = FunctionCall l c name (map fst rs) dist al"
    by (auto simp: rbind_eq_Inr_iff map_r_Inr)
  have "literals_ok y" if "y \<in> set (map fst rs)" for y
  proof -
    from that obtain i where i: "i < length rs" "y = fst (rs ! i)" by (auto simp: in_set_conv_nth)
    then have "args ! i \<in> set args" "foldConstants fixed (args ! i) = Inr (rs ! i)"
      using rs(1) by (auto simp: list_all2_conv_all_nth)
    then have "folded fixed (args ! i) y"
      using FunctionCall i(2) by (metis list_all_iff literals_ok.simps(4) nan_free.simps(3) prod.collapse)
    then show ?thesis by (simp add: folded_def)
  qed
  then show ?case using rs by (simp add: folded_def is_wildcard_def list_all_iff)
next
  case (SelectStmt l c dist cols ft fa joins whr groups having orders lim off)
  then show ?case by (auto simp: folded_def is_wildcard_def rbind_eq_Inr_iff)
qed (auto simp: folded_def is_wildcard_def)

section \<open>Folding inside aggregates\<close>

lemma argument_values_cong:
  "(\<And>row. eval fmt a row = eval fmt b row) \<Longrightarrow> argument_values fmt a rows = argument_values fmt b rows"
  by (simp add: argument_values_def cong: map_r_cong)

lemma aggregate_cong:
  assumes "list_all2 (folded fixed) args args'"
  shows "aggregate fmt name args' dist rows = aggregate fmt name args dist rows"
proof (cases args)
  case Nil
  then show ?thesis using assms by simp
next
  case (Cons a as)
  then obtain a' as' where args': "args' = a' # as'" "folded fixed a a'" "list_all2 (folded fixed) as as'"
    using assms by (auto simp: list_all2_Cons1)
  have first: "argument_values fmt a' rows = argument_values fmt a rows" "is_wildcard a' = is_wildcard a"
    using args'(2) by (auto simp: folded_def intro: argument_values_cong)
  have second: "length args < 2 \<longleftrightarrow> length args' < 2"
    "\<not> length args < 2 \<Longrightarrow> eval fmt (args' ! 1) row = eval fmt (args ! 1) row" for row
    using args' Cons list_all2_lengthD [OF args'(3)]
    by (auto simp: folded_def list_all2_conv_all_nth)
  show ?thesis
    unfolding aggregate_def using Cons args'(1) first second by (simp cong: if_cong)
qed

lemma folded_args:
  assumes "foldConstants fixed (FunctionCall l c name args dist al) = Inr (e', n)"
    and "literals_ok (FunctionCall l c name args dist al)" "nan_free fixed (FunctionCall l c name args dist al)"
  obtains args' where "e' = FunctionCall l c name args' dist al" "list_all2 (folded fixed) args args'"
proof -
  from assms(1) obtain rs where
    rs: "list_all2 (\<lambda>x y. foldConstants fixed x = Inr y) args rs" "e' = FunctionCall l c name (map fst rs) dist al"
    by (auto simp: rbind_eq_Inr_iff map_r_Inr)
  have "folded fixed (args ! i) (map fst rs ! i)" if "i < length args" for i
  proof -
    have "foldConstants fixed (args ! i) = Inr (rs ! i)" "length rs = length args"
      using rs(1) that by (auto simp: list_all2_conv_all_nth)
    then show ?thesis
      using fold_folded [of fixed "args ! i" "fst (rs ! i)" "snd (rs ! i)"] assms(2,3) that
      by (auto simp: list_all_iff)
  qed
  then have "list_all2 (folded fixed) args (map fst rs)"
    using list_all2_lengthD [OF rs(1)] by (simp add: list_all2_conv_all_nth)
  then show ?thesis using rs(2) that by blast
qed

lemma fold_grouped:
  "foldConstants fixed e = Inr (e', n) \<Longrightarrow> literals_ok e \<Longrightarrow> nan_free fixed e \<Longrightarrow> rows \<noteq> []
    \<Longrightarrow> evalGrouped fmt e' rows = evalGrouped fmt e rows"
proof (induction e arbitrary: e' n)
  case (BinaryOp l c oper left right al)
  from BinaryOp.prems(1) obtain a n1 b n2 r where
    f: "foldConstants fixed left = Inr (a, n1)" "foldConstants fixed right = Inr (b, n2)"
      "tryFoldExpr fixed (BinaryOp l c oper a b al) = Inr r"
      "e' = (case r of Some (e, n) \<Rightarrow> e | None \<Rightarrow> BinaryOp l c oper a b al)"
    by (auto simp: rbind_eq_Inr_iff split: option.splits)
  have ih: "evalGrouped fmt a rows = evalGrouped fmt left rows" "evalGrouped fmt b rows = evalGrouped fmt right rows"
    using BinaryOp.IH(1) [OF f(1)] BinaryOp.IH(2) [OF f(2)] BinaryOp.prems by auto
  show ?case
  proof (cases r)
    case None
    then show ?thesis using f(4) ih by simp
  next
    case (Some en)
    obtain e m where en: "en = (e, m)" by force
    from try_fold_literals [OF f(3) [unfolded Some en]] obtain l1 c1 v1 l2 c2 v2 v where
      e: "a = Literal l1 c1 v1" "b = Literal l2 c2 v2" "e = Literal l c v" by blast
    have "eval fmt (BinaryOp l c oper a b al) row = Inr (literalValue v)" for row
    proof -
      have "folded fixed (BinaryOp l c oper left right al) e'" by (rule fold_folded) (use BinaryOp.prems in auto)
      moreover have "folded fixed left a" "folded fixed right b"
        using BinaryOp.prems f(1,2) by (auto intro: fold_folded)
      ultimately show ?thesis using f(4) Some en e by (simp add: folded_def)
    qed
    then show ?thesis using f(4) Some en e BinaryOp.prems(4) by (simp flip: ih)
  qed
next
  case (UnaryOp l c oper operand al)
  from UnaryOp.prems(1) obtain a n1 r where
    f: "foldConstants fixed operand = Inr (a, n1)" "fold_unary l c oper a = Inr r"
      "e' = (case r of Some (e, n) \<Rightarrow> e | None \<Rightarrow> UnaryOp l c oper a al)"
    by (auto simp: rbind_eq_Inr_iff split: option.splits)
  have ih: "evalGrouped fmt a rows = evalGrouped fmt operand rows" using UnaryOp.IH [OF f(1)] UnaryOp.prems by auto
  show ?case
  proof (cases r)
    case None
    then show ?thesis using f(3) ih by simp
  next
    case (Some en)
    obtain e m where en: "en = (e, m)" by force
    then obtain l' c' v' where a: "a = Literal l' c' v'" using fold_unary_literal f(2) Some by blast
    have "folded fixed operand a" using UnaryOp.prems f(1) by (auto intro: fold_folded)
    then have "literal_ok v'" using a by (simp add: folded_def)
    then obtain v where "e = Literal l c v" "applyUnary oper (literalValue v') = Inr (literalValue v)"
      using fold_unary_value f(2) Some en a by blast
    then show ?thesis using f(3) Some en a UnaryOp.prems(4) by (simp flip: ih)
  qed
next
  case (FunctionCall l c name args dist al)
  then obtain args' where "e' = FunctionCall l c name args' dist al" "list_all2 (folded fixed) args args'"
    using folded_args by blast
  then show ?case using aggregate_cong by simp
qed (auto simp: rbind_eq_Inr_iff)

text \<open>
  C37. Constant folding keeps values: where an expression folds, the result has the same value,
  or throws the same exception, on every row, and also in every non-empty group, with its
  aggregates; provided no \<open><=\<close> or \<open>>=\<close> compares a constant that is not a number.
\<close>
theorem fold_sound:
  assumes "foldConstants fixed e = Inr (e', added)" "literals_ok e" "nan_free fixed e" "rows \<noteq> []"
  shows "eval fmt e' row = eval fmt e row \<and> evalGrouped fmt e' rows = evalGrouped fmt e rows \<and>
    hasAggregate e' = hasAggregate e"
  using fold_folded [OF assms(1-3)] fold_grouped [OF assms] by (simp add: folded_def)

section \<open>Rewrites from the catalog are sound\<close>

text \<open>
  Rows of the table \<open>t\<close> under an alias, with the constraints that the engine enforces: as many
  values as columns, no null in a column that cannot be null, no two equal primary keys.
\<close>

definition cell :: "table_meta \<Rightarrow> eval_row \<Rightarrow> string \<Rightarrow> val option" where
  "cell t row column = map_of (zip (map cm_name (tm_columns t)) (er_values row)) column"

definition row_of :: "base \<Rightarrow> table_meta \<Rightarrow> eval_row \<Rightarrow> bool" where
  "row_of b t row \<longleftrightarrow> er_columns row = Some (schema_of (b_table b) (b_alias b) t) \<and>
     length (er_values row) = length (tm_columns t) \<and>
     (\<forall>m\<in>set (tm_columns t). isGuaranteedNonNull m \<longrightarrow> cell t row (cm_name m) \<noteq> Some VNull)"

definition keys_differ :: "table_meta \<Rightarrow> eval_row \<Rightarrow> eval_row \<Rightarrow> bool" where
  "keys_differ t r r' \<longleftrightarrow> (\<forall>m\<in>set (tm_columns t). cm_primary_key m \<longrightarrow>
     (\<forall>v v'. cell t r (cm_name m) = Some v \<longrightarrow> cell t r' (cm_name m) = Some v' \<longrightarrow> \<not> value_eq v v'))"

definition table_rows :: "'a catalog_data_scheme \<Rightarrow> base \<Rightarrow> table_meta \<Rightarrow> eval_row list \<Rightarrow> bool" where
  "table_rows cat b t rows \<longleftrightarrow> getTable (b_table b) cat = Some t \<and> distinct (map cm_name (tm_columns t)) \<and>
     list_all (row_of b t) rows \<and> sorted_wrt (keys_differ t) rows"

lemma resolve_rest:
  "column \<notin> set (map bc_name cs) \<Longrightarrow> resolve_loop table column (zip cs vs) found = Inr found"
proof (induction cs arbitrary: vs)
  case (Cons c cs)
  then show ?case by (cases vs) auto
qed simp

lemma resolve_distinct:
  "distinct (map bc_name cs) \<Longrightarrow> length vs = length cs \<Longrightarrow> \<forall>c\<in>set cs. qualifier_matches table c
    \<Longrightarrow> resolve_loop table column (zip cs vs) None = Inr (map_of (zip (map bc_name cs) vs) column)"
proof (induction cs arbitrary: vs)
  case (Cons c cs)
  then obtain v vs' where vs: "vs = v # vs'" by (cases vs) auto
  show ?case
  proof (cases "bc_name c = column")
    case True
    then have "column \<notin> set (map bc_name cs)" using Cons.prems(1) by auto
    then show ?thesis using True vs Cons.prems resolve_rest by simp
  next
    case False
    then show ?thesis using vs Cons by simp
  qed
qed simp

lemma names_of_schema: "map bc_name (schema_of table al t) = map cm_name (tm_columns t)"
  by (simp add: schema_of_def)

lemma resolved_column:
  assumes "resolveBaseColumn cat b e = Some m" "getTable (b_table b) cat = Some t" "distinct (map cm_name (tm_columns t))"
    and "row_of b t row"
  shows "m \<in> set (tm_columns t) \<and> (\<exists>v. cell t row (cm_name m) = Some v \<and> eval fmt e row = Inr v)"
proof -
  obtain l c table column al where e: "e = ColumnRef l c table column al"
    and q: "table = [] \<or> table = b_table b \<or> table = b_alias b"
    and m: "List.find (\<lambda>m. cm_name m = column) (tm_columns t) = Some m"
    using assms(1,2) by (auto simp: resolveBaseColumn_def split: ast.splits if_splits)
  have mem: "m \<in> set (tm_columns t)" and name: "cm_name m = column"
    using m by (auto simp: find_Some_iff dest: nth_mem)
  let ?cs = "schema_of (b_table b) (b_alias b) t"
  have len: "length (er_values row) = length (tm_columns t)" and sch: "er_columns row = Some ?cs"
    using assms(4) by (simp_all add: row_of_def)
  have "\<forall>c\<in>set ?cs. qualifier_matches table c" using q by (auto simp: schema_of_def qualifier_matches_def)
  then have r: "resolve_loop table column (zip ?cs (er_values row)) None = Inr (cell t row column)"
    using resolve_distinct [of ?cs "er_values row" table column] assms(3) len
    by (simp add: names_of_schema cell_def) (simp add: schema_of_def)
  have "column \<in> set (map cm_name (tm_columns t))" using mem name by force
  then obtain v where "cell t row column = Some v"
    using len by (metis cell_def map_of_zip_is_Some length_map)
  then show ?thesis using mem name e sch r by (simp add: resolveColumn_def)
qed

definition holds :: "fmt \<Rightarrow> ast \<Rightarrow> eval_row \<Rightarrow> bool" where
  "holds fmt e row \<longleftrightarrow> (case eval fmt e row of Inr v \<Rightarrow> asBoolean v | Inl _ \<Rightarrow> False)"

definition yields_true :: "val result \<Rightarrow> bool" where
  "yields_true r \<longleftrightarrow> (case r of Inr v \<Rightarrow> asBoolean v | Inl _ \<Rightarrow> False)"

lemma holds_yields: "holds fmt e row \<longleftrightarrow> yields_true (eval fmt e row)"
  by (simp add: holds_def yields_true_def)

lemma equality_true:
  "yields_true (applyBinary fmt ''='' a b) \<Longrightarrow> value_eq a b \<and> \<not> isNull a \<and> \<not> isNull b"
  by (auto simp: yields_true_def applyBinary_def asBoolean_def split: if_splits)

lemma conjunction_true:
  "yields_true (applyBinary fmt ''AND'' a b) \<longleftrightarrow> yields_true (Inr a) \<and> yields_true (Inr b)"
  by (simp add: yields_true_def applyBinary_def asBoolean_def [of "VBoolean _"])

lemma binary_true:
  assumes "holds fmt (BinaryOp l c oper left right al) row"
  obtains a b where "eval fmt left row = Inr a" "eval fmt right row = Inr b" "yields_true (applyBinary fmt oper a b)"
  using assms by (cases "eval fmt left row"; cases "eval fmt right row") (auto simp: holds_yields yields_true_def)

lemma pinned_keys:
  assumes t: "getTable (b_table b) cat = Some t" "distinct (map cm_name (tm_columns t))"
    and rows: "row_of b t r" "row_of b t r'"
  shows "wherePinsPrimaryKey cat b w \<Longrightarrow> holds fmt w r \<Longrightarrow> holds fmt w r' \<Longrightarrow> \<not> keys_differ t r r'"
proof (induction w)
  case (BinaryOp l c oper left right al)
  obtain a d where r: "eval fmt left r = Inr a" "eval fmt right r = Inr d" "yields_true (applyBinary fmt oper a d)"
    using BinaryOp.prems(2) by (rule binary_true)
  obtain a' d' where r': "eval fmt left r' = Inr a'" "eval fmt right r' = Inr d'" "yields_true (applyBinary fmt oper a' d')"
    using BinaryOp.prems(3) by (rule binary_true)
  show ?case
  proof (cases "oper = ''AND''")
    case True
    then have "holds fmt left r" "holds fmt right r" "holds fmt left r'" "holds fmt right r'"
      using r r' by (simp_all add: holds_yields conjunction_true)
    moreover have "wherePinsPrimaryKey cat b left \<or> wherePinsPrimaryKey cat b right"
      using BinaryOp.prems(1) True by simp
    ultimately show ?thesis using BinaryOp.IH by blast
  next
    case False
    then have oper: "oper = ''=''" using BinaryOp.prems(1) by (simp split: if_splits)
    have eqs: "value_eq a d" "value_eq a' d'" "\<not> isNull a" "\<not> isNull d" "\<not> isNull a'" "\<not> isNull d'"
      using equality_true [OF r(3) [unfolded oper]] equality_true [OF r'(3) [unfolded oper]] by simp_all
    have key: "\<not> keys_differ t r r'" if "key_column cat b e" "eval fmt e r = Inr x" "eval fmt e r' = Inr y" "value_eq x y" for e x y
    proof -
      from that(1) obtain m where m: "resolveBaseColumn cat b e = Some m" "cm_primary_key m"
        by (auto simp: key_column_def split: option.splits)
      obtain v where v: "m \<in> set (tm_columns t)" "cell t r (cm_name m) = Some v" "eval fmt e r = Inr v"
        using resolved_column [OF m(1) t rows(1)] by blast
      obtain v' where v': "cell t r' (cm_name m) = Some v'" "eval fmt e r' = Inr v'"
        using resolved_column [OF m(1) t rows(2)] by blast
      have "v = x" "v' = y" using v(3) v'(2) that(2,3) by simp_all
      then show ?thesis unfolding keys_differ_def using m(2) that(4) v(1,2) v'(1) by blast
    qed
    have lit: "eval fmt e r = eval fmt e r'" if "is_literal e" for e
      using that by (cases e) (simp_all add: is_literal_def)
    from BinaryOp.prems(1) oper consider "key_column cat b left" "is_literal right" | "key_column cat b right" "is_literal left"
      by (auto split: if_splits)
    then show ?thesis
    proof cases
      case 1
      then have "d = d'" using lit [of right] r(2) r'(2) by simp
      then have "value_eq a a'" using value_eq_euclid eqs by blast
      then show ?thesis using key [OF 1(1) r(1) r'(1)] by blast
    next
      case 2
      then have "a = a'" using lit [of left] r(1) r'(1) by simp
      then have "value_eq d a" "value_eq d' a" using eqs value_eq_sym by blast+
      then have "value_eq d d'" using value_eq_euclid eqs by blast
      then show ?thesis using key [OF 2(1) r(2) r'(2)] by blast
    qed
  qed
qed simp_all

lemma filter_at_most_one:
  assumes "sorted_wrt P xs" "\<And>x y. x \<in> set xs \<Longrightarrow> y \<in> set xs \<Longrightarrow> Q x \<Longrightarrow> Q y \<Longrightarrow> \<not> P x y"
  shows "length (filter Q xs) \<le> 1"
proof (rule ccontr)
  assume "\<not> length (filter Q xs) \<le> 1"
  then obtain x y ys where f: "filter Q xs = x # y # ys"
    by (metis One_nat_def Suc_le_mono le0 length_Cons list.size(3) neq_Nil_conv zero_le_one)
  have "sorted_wrt P (filter Q xs)" using assms(1) by (rule sorted_wrt_filter)
  then have "P x y" using f by simp
  moreover have "x \<in> set (filter Q xs)" "y \<in> set (filter Q xs)" using f by simp_all
  ultimately show False using assms(2) by auto
qed

lemma point_lookup_single:
  assumes "table_rows cat b t rows" "wherePinsPrimaryKey cat b w"
  shows "length (filter (holds fmt w) rows) \<le> 1"
proof (rule filter_at_most_one)
  show "sorted_wrt (keys_differ t) rows" using assms(1) by (simp add: table_rows_def)
  show "\<not> keys_differ t r r'" if "r \<in> set rows" "r' \<in> set rows" "holds fmt w r" "holds fmt w r'" for r r'
    using that assms by (intro pinned_keys) (auto simp: table_rows_def list_all_iff)
qed

lemma column_not_null:
  assumes t: "getTable (b_table b) cat = Some t" "distinct (map cm_name (tm_columns t))" and row: "row_of b t row"
    and e: "resolveBaseColumn cat b e = Some m" "isGuaranteedNonNull m"
  shows "\<exists>v. eval fmt e row = Inr v \<and> \<not> isNull v"
proof -
  from resolved_column [OF e(1) t row] obtain v where
    v: "m \<in> set (tm_columns t)" "cell t row (cm_name m) = Some v" "eval fmt e row = Inr v" by blast
  then have "v \<noteq> VNull" using row e(2) by (auto simp: row_of_def)
  then show ?thesis using v(3) by (cases v) (auto simp: value_class_defs)
qed

lemma count_non_null:
  assumes t: "getTable (b_table b) cat = Some t" "distinct (map cm_name (tm_columns t))" and rows: "list_all (row_of b t) rows"
    and e: "resolveBaseColumn cat b e = Some m" "isGuaranteedNonNull m" "\<not> is_wildcard e"
  shows "aggregate fmt ''headcount'' [e] False rows = aggregate fmt ''headcount'' [Wildcard l c [] []] False rows"
proof -
  have "\<exists>v. eval fmt e row = Inr v \<and> \<not> isNull v" if "row \<in> set rows" for row
    using column_not_null [OF t _ e(1,2)] rows that by (simp add: list_all_iff)
  then have "\<exists>vs. map_r (eval fmt e) rows = Inr vs \<and> length vs = length rows \<and> (\<forall>v\<in>set vs. \<not> isNull v)"
  proof (induction rows)
    case (Cons row rows)
    then obtain v vs where "eval fmt e row = Inr v" "\<not> isNull v" "map_r (eval fmt e) rows = Inr vs"
      "length vs = length rows" "\<forall>v\<in>set vs. \<not> isNull v"
      by (metis list.set_intros(1,2))
    then show ?case by simp
  qed simp
  then obtain vs where "map_r (eval fmt e) rows = Inr vs" "length vs = length rows" "filter (\<lambda>v. \<not> isNull v) vs = vs"
    by (metis filter_True)
  then show ?thesis using e(3) by (simp add: aggregate_def argument_values_def is_wildcard_def)
qed

text \<open>A projection with the primary key gives different tuples for different keys.\<close>

lemma items_equal:
  "list_all2 (\<lambda>x y. length x = length y) xs ys \<Longrightarrow> list_all2 P (concat xs) (concat ys) \<Longrightarrow> list_all2 (list_all2 P) xs ys"
  by (induction xs ys rule: list_all2_induct) (auto simp: list_all2_append)

lemma project_item_length:
  assumes "row_of b t r" "row_of b t r'" "project_item fmt r rows e = Inr x" "project_item fmt r' rows e = Inr y"
  shows "length x = length y"
proof (cases "is_wildcard e")
  case True
  then obtain l c table al where e: "e = Wildcard l c table al" by (auto simp: is_wildcard_def split: ast.splits)
  have "length (filter (\<lambda>(c, v). in_table table c) (zip cs vs)) = length (filter (in_table table) cs)"
    if "length vs = length cs" for cs and vs :: tuple
    using that by (induction cs vs rule: list_induct2') (auto split: if_splits)
  then show ?thesis using assms e by (auto simp: project_item_def wildcard_values_def row_of_def schema_of_def)
next
  case False
  then show ?thesis using assms(3,4)
    by (auto simp: project_item_def is_wildcard_def rbind_eq_Inr_iff split: ast.splits option.splits)
qed

lemma wildcard_all:
  assumes "row_of b t row" "table = [] \<or> table = b_table b \<or> table = b_alias b"
  shows "wildcard_values table row = Inr (er_values row)"
proof -
  have cs: "er_columns row = Some (schema_of (b_table b) (b_alias b) t)"
    and len: "length (er_values row) = length (schema_of (b_table b) (b_alias b) t)"
    using assms(1) by (simp_all add: row_of_def schema_of_def)
  have "\<forall>c\<in>set (schema_of (b_table b) (b_alias b) t). in_table table c"
    using assms(2) by (auto simp: schema_of_def in_table_def)
  then have "filter (\<lambda>(c, v). in_table table c) (zip (schema_of (b_table b) (b_alias b) t) (er_values row))
      = zip (schema_of (b_table b) (b_alias b) t) (er_values row)"
    by (auto intro!: filter_True dest: set_zip_leftD)
  then show ?thesis using cs len by (simp add: wildcard_values_def)
qed

lemma cells_equal:
  assumes "list_all2 P vs ws" "map_of (zip ns vs) n = Some v" "map_of (zip ns ws) n = Some w"
  shows "P v w"
  using assms
proof (induction vs ws arbitrary: ns rule: list_all2_induct)
  case (Cons x xs y ys)
  then show ?case by (cases ns) (auto split: if_splits)
qed simp

lemma key_item_differs:
  assumes t: "getTable (b_table b) cat = Some t" "distinct (map cm_name (tm_columns t))"
    and rows: "row_of b t r" "row_of b t r'" and diff: "keys_differ t r r'"
    and key: "projects_key cat b t e"
    and items: "project_item fmt r rs e = Inr x" "project_item fmt r' rs e = Inr y"
  shows "\<not> list_all2 value_eq x y"
proof
  assume eq: "list_all2 value_eq x y"
  have conflict: False if m: "m \<in> set (tm_columns t)" "cm_primary_key m" "cell t r (cm_name m) = Some v"
      "cell t r' (cm_name m) = Some v'" "value_eq v v'" for m v v'
    using diff m by (auto simp: keys_differ_def)
  from key consider (wild) l c table al where "e = Wildcard l c table al" "table = [] \<or> table = b_table b \<or> table = b_alias b"
      "\<exists>m\<in>set (tm_columns t). cm_primary_key m"
    | (column) m l c table column al where "e = ColumnRef l c table column al" "resolveBaseColumn cat b e = Some m" "cm_primary_key m"
    by (auto simp: projects_key_def split: ast.splits option.splits)
  then show False
  proof cases
    case wild
    then have xy: "x = er_values r" "y = er_values r'"
      using items wildcard_all [OF rows(1) wild(2)] wildcard_all [OF rows(2) wild(2)] by (auto simp: project_item_def)
    obtain m where m: "m \<in> set (tm_columns t)" "cm_primary_key m" using wild(3) by blast
    have "\<exists>v. cell t row (cm_name m) = Some v" if "row_of b t row" for row
      using that m(1) by (simp add: cell_def row_of_def flip: map_of_zip_is_Some)
    then obtain v v' where "cell t r (cm_name m) = Some v" "cell t r' (cm_name m) = Some v'" using rows by blast
    moreover from this have "value_eq v v'" using cells_equal [OF eq] xy by (simp add: cell_def)
    ultimately show False using conflict m by blast
  next
    case column
    from resolved_column [OF column(2) t rows(1), of fmt] resolved_column [OF column(2) t rows(2), of fmt]
    obtain v v' where v: "m \<in> set (tm_columns t)" "cell t r (cm_name m) = Some v" "cell t r' (cm_name m) = Some v'"
      "eval fmt e r = Inr v" "eval fmt e r' = Inr v'" by auto
    then have "x = [v]" "y = [v']" using items column(1) by (auto simp: project_item_def)
    then show False using eq conflict column(3) v by auto
  qed
qed

lemma projection_differs:
  assumes t: "getTable (b_table b) cat = Some t" "distinct (map cm_name (tm_columns t))"
    and rows: "row_of b t r" "row_of b t r'" and diff: "keys_differ t r r'"
    and key: "projectsPrimaryKey cat b cols"
    and out: "project fmt cols r rs = Inr x" "project fmt cols r' rs = Inr y"
  shows "\<not> list_all2 value_eq x y"
proof
  assume eq: "list_all2 value_eq x y"
  obtain xs ys where xs: "list_all2 (\<lambda>e v. project_item fmt r rs e = Inr v) cols xs" "x = concat xs"
    and ys: "list_all2 (\<lambda>e v. project_item fmt r' rs e = Inr v) cols ys" "y = concat ys"
    using out by (auto simp: project_def rbind_eq_Inr_iff map_r_Inr)
  have lens: "length xs = length cols" "length ys = length cols" using list_all2_lengthD [OF xs(1)] list_all2_lengthD [OF ys(1)] by simp_all
  have item: "project_item fmt r rs (cols ! i) = Inr (xs ! i)" "project_item fmt r' rs (cols ! i) = Inr (ys ! i)"
    if "i < length cols" for i
    using that xs(1) ys(1) by (auto simp: list_all2_conv_all_nth)
  have "list_all2 (\<lambda>x y. length x = length y) xs ys"
    unfolding list_all2_conv_all_nth
  proof (intro conjI allI impI)
    fix i assume "i < length xs"
    then have i: "i < length cols" using lens by simp
    show "length (xs ! i) = length (ys ! i)" by (rule project_item_length [OF rows item [OF i]])
  qed (simp add: lens)
  then have all: "list_all2 (list_all2 value_eq) xs ys" using eq xs(2) ys(2) items_equal by blast
  obtain i where i: "i < length cols" "projects_key cat b t (cols ! i)"
    using key t(1) by (auto simp: projectsPrimaryKey_def in_set_conv_nth)
  then have "\<not> list_all2 value_eq (xs ! i) (ys ! i)" using key_item_differs [OF t rows diff] item by blast
  then show False using list_all2_nthD [OF all, of i] i(1) lens by simp
qed

text \<open>Removing duplicates, with \<open>operator==\<close> on tuples.\<close>

definition no_duplicates :: "tuple list \<Rightarrow> bool" where
  "no_duplicates ts = sorted_wrt (\<lambda>a b. \<not> list_all2 value_eq a b) ts"

lemma distinct_projection:
  assumes rows: "table_rows cat b t rows" and key: "projectsPrimaryKey cat b cols"
    and out: "map_r (\<lambda>row. project fmt cols row rs) kept = Inr ts" and kept: "kept = filter Q rows"
  shows "no_duplicates ts"
proof -
  have "sorted_wrt (keys_differ t) kept" "list_all (row_of b t) kept"
    using rows unfolding kept by (auto simp: table_rows_def list_all_iff intro: sorted_wrt_filter)
  moreover have t: "getTable (b_table b) cat = Some t" "distinct (map cm_name (tm_columns t))"
    using rows by (simp_all add: table_rows_def)
  ultimately show ?thesis using out
  proof (induction kept arbitrary: ts)
    case (Cons r kept)
    then obtain x xs where x: "project fmt cols r rs = Inr x" "map_r (\<lambda>row. project fmt cols row rs) kept = Inr xs" "ts = x # xs"
      by (auto simp: rbind_eq_Inr_iff)
    have "\<not> list_all2 value_eq x y" if "y \<in> set xs" for y
    proof -
      from that obtain i where i: "i < length xs" "y = xs ! i" by (auto simp: in_set_conv_nth)
      have "list_all2 (\<lambda>row v. project fmt cols row rs = Inr v) kept xs" using x(2) by (simp add: map_r_Inr)
      then have r': "kept ! i \<in> set kept" "project fmt cols (kept ! i) rs = Inr y"
        using i by (auto simp: list_all2_conv_all_nth)
      then show ?thesis using projection_differs [OF t _ _ _ key x(1) r'(2)] Cons.prems by (simp add: list_all_iff)
    qed
    moreover have "no_duplicates xs" using Cons x(2) by simp
    ultimately show ?case using x(3) by (simp add: no_duplicates_def)
  qed (simp add: no_duplicates_def)
qed

definition demo_sum :: ast where
  "demo_sum = BinaryOp 1 1 ''+'' (Literal 1 1 (INT_LIT 1)) (Literal 1 5 (INT_LIT 2)) ''total''"

lemma demo_sum_folds:
  "foldConstants fixed demo_sum =
    Inr (Literal 1 1 (INT_LIT 3), [arithmetic_note fixed ''+'' (double_of_int 1) (double_of_int 2)])"
  by (simp add: demo_sum_def tryFoldExpr_def fold_literals_def fold_numbers_def number_of_literal_def
    fold_arithmetic_def int_literal_def int64_range_def)

theorem fold_sound_witness:
  "eval (\<lambda>d. []) demo_sum empty_row = Inr (VInteger 3)"
  using fold_sound [OF demo_sum_folds, where rows = "[empty_row]" and fmt = "\<lambda>d. []" and row = empty_row]
  by (simp add: demo_sum_def literal_ok_def int64_range_def)

text \<open>
  A folded expression has lost its alias: the column of \<open>SELECT 1 + 2 lowkey total\<close> is called
  \<open>expr1\<close> after the optimizer.
\<close>

lemma folding_drops_alias:
  "expressionAlias demo_sum 0 = ''total'' \<and>
   map_sum id (\<lambda>r. expressionAlias (fst r) 0) (foldConstants fixed demo_sum) = Inr ''expr1''"
  unfolding demo_sum_folds by (simp add: demo_sum_def expressionAlias_def Let_def string_of_nat.simps digit_char_def char_of_def bit_0)

definition demo_table :: table_meta where
  "demo_table = \<lparr>tm_name = ''t'', tm_columns = [new_column\<lparr>cm_name := ''id'', cm_type := ''TEXT'', cm_primary_key := True,
     cm_not_null := True\<rparr>]\<rparr>"

definition demo_catalog :: catalog_data where
  "demo_catalog = \<lparr>cd_tables = [(''t'', demo_table)], cd_snapshots = [], cd_contexts = []\<rparr>"

abbreviation demo_base :: base where
  "demo_base \<equiv> \<lparr>b_table = ''t'', b_alias = ''t''\<rparr>"

definition demo_row :: "string \<Rightarrow> eval_row" where
  "demo_row key = \<lparr>er_columns = Some (schema_of ''t'' ''t'' demo_table), er_values = [VText key]\<rparr>"

lemma demo_rows: "table_rows demo_catalog demo_base demo_table [demo_row ''a'', demo_row ''b'']"
proof -
  have c: "cell demo_table (demo_row k) ''id'' = Some (VText k)" for k
    by (simp add: cell_def demo_row_def demo_table_def)
  have k: "keys_differ demo_table (demo_row ''a'') (demo_row ''b'')"
    unfolding keys_differ_def
  proof (intro ballI impI allI)
    fix m v v' assume "m \<in> set (tm_columns demo_table)" "cell demo_table (demo_row ''a'') (cm_name m) = Some v"
      "cell demo_table (demo_row ''b'') (cm_name m) = Some v'"
    then have "v = VText ''a''" "v' = VText ''b''" using c by (auto simp: demo_table_def new_column_def)
    then show "\<not> value_eq v v'" by (simp add: value_eq_def value_class_defs)
  qed
  have "row_of demo_base demo_table (demo_row k)" for k
    unfolding row_of_def using c [of k] by (simp add: demo_row_def) (simp add: demo_table_def new_column_def)
  then show ?thesis using k
    by (simp add: table_rows_def demo_catalog_def getTable_def) (simp add: demo_table_def)
qed

abbreviation demo_where :: ast where
  "demo_where \<equiv> BinaryOp 1 1 ''='' (ColumnRef 1 1 [] ''id'' []) (Literal 1 6 (STRING_VAL ''b'')) []"

end
