(* ===== verification/Codegen.thy ===== *)
theory Codegen
  imports Ast Skibidi_Prelude
begin

text \<open>
  The generator of SQL text for the SQLite back end (\<open>src/codegen.h\<close>, \<open>src/codegen.cpp\<close>).
  \<open>fmt\<close> is the stream's text of a double at its default precision. The members that remember the
  current table are written and never read, and are left out; the \<open>FROM\<close> and \<open>WHERE\<close> texts, which
  the source builds again for the rewrites of medians and percentiles, are built once.

  \<open>read_sql_text\<close> is how SQL reads a quoted text. The lemmas show that it reads back what
  \<open>quoteString\<close> writes, whatever the text contains, and stops there; and that the statements that
  are written as comments can leave the comment.
\<close>

section \<open>Text\<close>

definition squote :: char where
  "squote = CHR 0x27"

definition quoteString :: "string \<Rightarrow> string" where
  "quoteString s = squote # concat (map (\<lambda>c. if c = squote then [squote, squote] else [c]) s) @ [squote]"

fun joinWith :: "string list \<Rightarrow> string \<Rightarrow> string" where
  "joinWith [] sep = []"
| "joinWith [x] sep = x"
| "joinWith (x # xs) sep = x @ sep @ joinWith xs sep"

abbreviation sql_list :: "string list \<Rightarrow> string" where
  "sql_list xs \<equiv> joinWith xs '', ''"

definition as_clause :: "string \<Rightarrow> string" where
  "as_clause alias = (if alias = [] then [] else '' AS '' @ alias)"

definition sql_name :: "string \<Rightarrow> string" where
  "sql_name name =
     (if name = ''headcount'' then ''COUNT''
      else if name = ''stack'' then ''SUM''
      else if name = ''mid'' then ''AVG''
      else if name = ''goat'' then ''MAX''
      else if name = ''L'' then ''MIN''
      else if name = ''LONE-WOLF'' \<or> name = ''lone-wolf'' then ''LONE_WOLF''
      else name)"

definition join_word :: "join_type \<Rightarrow> string" where
  "join_word t = (case t of INNER \<Rightarrow> '' JOIN '' | LEFT \<Rightarrow> '' LEFT JOIN '' | CROSS \<Rightarrow> '' CROSS JOIN '')"

definition gen_literal :: "(double \<Rightarrow> string) \<Rightarrow> literal \<Rightarrow> string" where
  "gen_literal fmt v = (case v of
       INT_LIT i \<Rightarrow> string_of_int i
     | FLOAT_VAL d \<Rightarrow> fmt d
     | STRING_VAL s \<Rightarrow> quoteString s
     | NUL \<Rightarrow> ''NULL''
     | BOOL_VAL b \<Rightarrow> if b then ''1'' else ''0'')"

section \<open>Queries from the texts of their parts\<close>

text \<open>A column of the select list: its text and, for a call, the name, the texts of its arguments, the alias.\<close>

type_synonym gen_call = "string \<times> string list \<times> string"

definition last_call :: "string \<Rightarrow> gen_call option list \<Rightarrow> gen_call option" where
  "last_call name calls = List.find (\<lambda>c. fst c = name) (rev (List.map_filter id calls))"

definition gen_from :: "string \<Rightarrow> string \<Rightarrow> (join_type \<times> string \<times> string \<times> string option) list \<Rightarrow> string" where
  "gen_from table alias joins = table @ as_clause alias @
     concat (map (\<lambda>(t, name, al, condition). join_word t @ name @ as_clause al @
       (case condition of None \<Rightarrow> [] | Some c \<Rightarrow> '' ON '' @ c)) joins)"

definition genMedian :: "string \<Rightarrow> string \<Rightarrow> string \<Rightarrow> string \<Rightarrow> string" where
  "genMedian column alias fromClause whereClause =
     ''WITH __data AS (SELECT '' @ column @ '' FROM '' @ fromClause @ whereClause @ ''), '' @
     ''__ordered AS (SELECT '' @ column @ '', '' @
     ''ROW_NUMBER() OVER (ORDER BY '' @ column @ '') AS rn, '' @
     ''COUNT(*) OVER () AS cnt '' @ ''FROM __data) '' @
     ''SELECT AVG('' @ column @ '')'' @ as_clause alias @
     '' FROM __ordered WHERE rn IN ((cnt + 1) / 2, (cnt + 2) / 2)''"

definition genPercentile :: "string \<Rightarrow> string \<Rightarrow> string \<Rightarrow> string \<Rightarrow> string \<Rightarrow> string" where
  "genPercentile column percent alias fromClause whereClause =
     ''WITH __data AS (SELECT '' @ column @ '' FROM '' @ fromClause @ whereClause @ ''), '' @
     ''__cnt AS (SELECT COUNT(*) AS n FROM __data), '' @
     ''__ranked AS (SELECT '' @ column @ '', ROW_NUMBER() OVER (ORDER BY '' @ column @ '') AS rn FROM __data) '' @
     ''SELECT '' @ column @ as_clause alias @ '' FROM __ranked, __cnt '' @
     ''WHERE rn = CAST(CEIL(n * '' @ percent @ '' / 100.0) AS INTEGER)''"

definition gen_biggest :: "bool \<Rightarrow> string list \<Rightarrow> string \<Rightarrow> string \<Rightarrow> string" where
  "gen_biggest descending args fromClause whereClause =
     ''SELECT * FROM '' @ fromClause @ whereClause @
     (if args = [] \<or> hd args = [] then []
      else '' ORDER BY '' @ hd args @ (if descending then '' DESC'' else '' ASC'')) @ '' LIMIT 1''"

definition clause_of :: "string \<Rightarrow> string option \<Rightarrow> string" where
  "clause_of word t = (case t of None \<Rightarrow> [] | Some s \<Rightarrow> word @ s)"

definition list_clause_of :: "string \<Rightarrow> string list \<Rightarrow> string" where
  "list_clause_of word ts = (if ts = [] then [] else word @ sql_list ts)"

text \<open>The last call of a rewritten function decides; medians come before percentiles and extreme rows.\<close>

definition select_text :: "bool \<Rightarrow> (string \<times> gen_call option \<times> string) list \<Rightarrow> string \<Rightarrow> string option \<Rightarrow> string list \<Rightarrow>
    string option \<Rightarrow> string list \<Rightarrow> string option \<Rightarrow> string option \<Rightarrow> string" where
  "select_text dist cols fromClause whr groups having orders lim off =
     (let calls = map (\<lambda>(t, call, alias). call) cols;
          whereClause = clause_of '' WHERE '' whr;
          standard =
            ''SELECT'' @ (if dist then '' DISTINCT'' else []) @ '' '' @
            sql_list (map (\<lambda>(t, call, alias). t @ as_clause alias) cols) @ '' FROM '' @ fromClause @ whereClause @
            list_clause_of '' GROUP BY '' groups @ clause_of '' HAVING '' having @
            list_clause_of '' ORDER BY '' orders @ clause_of '' LIMIT '' lim @ clause_of '' OFFSET '' off;
          biggest =
            (case (last_call ''biggest-W'' calls, last_call ''biggest-L'' calls) of
               (Some (_, args, _), _) \<Rightarrow> gen_biggest True args fromClause whereClause
             | (None, Some (_, args, _)) \<Rightarrow> gen_biggest False args fromClause whereClause
             | _ \<Rightarrow> standard);
          percentile =
            (case last_call ''percent-check'' calls of
               Some (_, a # p # _, alias) \<Rightarrow> genPercentile a p alias fromClause whereClause
             | _ \<Rightarrow> biggest)
      in case last_call ''mid-fr'' calls of
           Some (_, a # _, alias) \<Rightarrow> genMedian a alias fromClause whereClause
         | _ \<Rightarrow> percentile)"

section \<open>Expressions\<close>

definition gen_window :: "string \<Rightarrow> string list \<Rightarrow> string list \<Rightarrow> string" where
  "gen_window name parts orders = name @ ''() OVER ('' @
     (if parts = [] then [] else ''PARTITION BY '' @ sql_list parts) @
     (if orders = [] then [] else (if parts = [] then [] else '' '') @ ''ORDER BY '' @ sql_list orders) @ '')''"

text \<open>What a node gives: its text, the call it is if it is one, and its alias.\<close>

type_synonym gen_out = "string \<times> gen_call option \<times> string"

definition order_text :: "gen_out order_item \<Rightarrow> string" where
  "order_text oi = fst (oi_expr oi) @ (if oi_asc oi then '' ASC'' else '' DESC'')"

definition join_parts :: "gen_out join_clause \<Rightarrow> join_type \<times> string \<times> string \<times> string option" where
  "join_parts j = (jc_type j, jc_table j, jc_alias j, map_option fst (jc_condition j))"

definition gen_query :: "bool \<Rightarrow> gen_out list \<Rightarrow> string \<Rightarrow> string \<Rightarrow> gen_out join_clause list \<Rightarrow> gen_out option \<Rightarrow>
    gen_out list \<Rightarrow> gen_out option \<Rightarrow> gen_out order_item list \<Rightarrow> gen_out option \<Rightarrow> gen_out option \<Rightarrow> string" where
  "gen_query dist cols table al joins whr groups having orders lim off =
     select_text dist cols (gen_from table al (map join_parts joins)) (map_option fst whr) (map fst groups)
       (map_option fst having) (map order_text orders) (map_option fst lim) (map_option fst off)"

primrec gen_node :: "(double \<Rightarrow> string) \<Rightarrow> ast \<Rightarrow> gen_out" where
  "gen_node fmt (Literal l c v) = (gen_literal fmt v, None, [])"
| "gen_node fmt (ColumnRef l c table column alias) = ((if table = [] then [] else table @ ''.'') @ column, None, alias)"
| "gen_node fmt (Wildcard l c table alias) = (if table = [] then ''*'' else table @ ''.*'', None, alias)"
| "gen_node fmt (BinaryOp l c oper left right alias) =
     (''('' @ fst (gen_node fmt left) @ '' '' @ oper @ '' '' @ fst (gen_node fmt right) @ '')'', None, alias)"
| "gen_node fmt (UnaryOp l c oper operand alias) =
     (''('' @ (if oper = ''NOT'' then ''NOT '' else oper) @ fst (gen_node fmt operand) @ '')'', None, alias)"
| "gen_node fmt (FunctionCall l c name args dist alias) =
     (let ts = map fst (map (gen_node fmt) args)
      in (sql_name name @ ''('' @ (if dist then ''DISTINCT '' else []) @ sql_list ts @ '')'', Some (name, ts, alias), alias))"
| "gen_node fmt (WindowFunc l c name parts orders alias) =
     (gen_window name (map fst (map (gen_node fmt) parts)) (map order_text (map (map_order_item (gen_node fmt)) orders)),
      None, alias)"
| "gen_node fmt (SelectStmt l c dist cols table al joins whr groups having orders lim off) =
     (''('' @ gen_query dist (map (gen_node fmt) cols) table al (map (map_join_clause (gen_node fmt)) joins)
        (map_option (gen_node fmt) whr) (map (gen_node fmt) groups) (map_option (gen_node fmt) having)
        (map (map_order_item (gen_node fmt)) orders) (map_option (gen_node fmt) lim) (map_option (gen_node fmt) off) @ '')'',
      None, [])"

definition genExpr :: "(double \<Rightarrow> string) \<Rightarrow> ast \<Rightarrow> string" where
  "genExpr fmt e = fst (gen_node fmt e)"

definition genSelect :: "(double \<Rightarrow> string) \<Rightarrow> ast \<Rightarrow> string" where
  "genSelect fmt e = (case e of
       SelectStmt l c dist cols table al joins whr groups having orders lim off \<Rightarrow>
         gen_query dist (map (gen_node fmt) cols) table al (map (map_join_clause (gen_node fmt)) joins)
           (map_option (gen_node fmt) whr) (map (gen_node fmt) groups) (map_option (gen_node fmt) having)
           (map (map_order_item (gen_node fmt)) orders) (map_option (gen_node fmt) lim) (map_option (gen_node fmt) off)
     | _ \<Rightarrow> [])"

section \<open>Statements\<close>

definition genInsert :: "(double \<Rightarrow> string) \<Rightarrow> insert_stmt \<Rightarrow> string" where
  "genInsert fmt s = ''INSERT INTO '' @ ins_table s @
     (if ins_columns s = [] then [] else '' ('' @ sql_list (ins_columns s) @ '')'') @ '' VALUES '' @
     sql_list (map (\<lambda>row. ''('' @ sql_list (map (genExpr fmt) row) @ '')'') (valueRows s))"

definition genUpdate :: "(double \<Rightarrow> string) \<Rightarrow> update_stmt \<Rightarrow> string" where
  "genUpdate fmt s = ''UPDATE '' @ upd_table s @ '' SET '' @
     sql_list (map (\<lambda>a. as_column a @ '' = '' @ genExpr fmt (as_value a)) (sets s)) @
     clause_of '' WHERE '' (map_option (genExpr fmt) (upd_where s))"

definition genDelete :: "(double \<Rightarrow> string) \<Rightarrow> delete_stmt \<Rightarrow> string" where
  "genDelete fmt s = ''DELETE FROM '' @ del_table s @ clause_of '' WHERE '' (map_option (genExpr fmt) (del_where s))"

definition gen_column_def :: "column_def \<Rightarrow> string" where
  "gen_column_def d = cd_name d @ '' '' @ cd_type d @ (if primary_key d then '' PRIMARY KEY'' else []) @
     (if not_null d then '' NOT NULL'' else []) @
     (if fk_table d = [] then [] else '' REFERENCES '' @ fk_table d @ ''('' @ fk_col d @ '')'')"

definition genCreate :: "create_stmt \<Rightarrow> string" where
  "genCreate s = ''CREATE TABLE'' @ (if ifNotExists s then '' IF NOT EXISTS'' else []) @ '' '' @ crt_table s @ '' ('' @
     sql_list (map gen_column_def (crt_columns s)) @ '')''"

definition genDrop :: "drop_stmt \<Rightarrow> string" where
  "genDrop s = ''DROP TABLE'' @ (if ifExists s then '' IF EXISTS'' else []) @ '' '' @ drp_table s"

definition genCreateSnapshot :: "(double \<Rightarrow> string) \<Rightarrow> create_snapshot \<Rightarrow> string" where
  "genCreateSnapshot fmt s = ''-- manifest-snapshot '' @ cs_name s @ '' AS '' @
     (case cs_source s of None \<Rightarrow> [] | Some q \<Rightarrow> genSelect fmt q) @ '' split-by '' @ splitBy s @ '' seed '' @
     string_of_nat (seed s)"

definition genExportTorch :: "export_torch \<Rightarrow> string" where
  "genExportTorch s = ''-- ship-torch '' @ et_dataset s @ '' batch-size '' @ string_of_nat (et_batchSize s) @
     '' epoch '' @ string_of_nat (et_epoch s) @ '' rank '' @ string_of_nat (et_rank s) @
     '' world-size '' @ string_of_nat (et_worldSize s)"

definition genExplainBatch :: "explain_batch \<Rightarrow> string" where
  "genExplainBatch s = ''-- spill-batch '' @ eb_dataset s @ '' batch '' @ string_of_nat (eb_batch s) @
     '' batch-size '' @ string_of_nat (eb_batchSize s) @ '' epoch '' @ string_of_nat (eb_epoch s) @
     '' rank '' @ string_of_nat (eb_rank s) @ '' world-size '' @ string_of_nat (eb_worldSize s)"

definition tab_text :: "string \<Rightarrow> string" where
  "tab_text tab = (if tab = [] then [] else '' vibe-tab '' @ quoteString tab)"

definition genAppendMemory :: "append_memory \<Rightarrow> string" where
  "genAppendMemory s = ''-- yeet-memory '' @ am_context s @ '' message '' @ string_of_nat (am_messageId s) @
     '' speaker '' @ quoteString (am_speaker s) @ (if autoTab s then '' vibe-tab auto'' else []) @ tab_text (am_tab s)"

definition receipts_text :: "context_query \<Rightarrow> string" where
  "receipts_text s = cq_context s @ '' token-budget '' @ string_of_nat (tokenBudget s) @ '' receipts '' @
     (if receipts s then ''on'' else ''off'')"

definition genSpillContext :: "context_query \<Rightarrow> string" where
  "genSpillContext s = ''-- spill-context '' @ receipts_text s @ tab_text (cq_tab s)"

definition genExplainContext :: "context_query \<Rightarrow> string" where
  "genExplainContext s = ''-- explain-context '' @ receipts_text s @
     (if cq_query s = [] then [] else '' query '' @ quoteString (cq_query s)) @ tab_text (cq_tab s)"

definition genTagMemory :: "tag_memory \<Rightarrow> string" where
  "genTagMemory s = ''-- vibe-tab '' @ tm_context s @ '' message '' @ string_of_nat (tm_messageId s) @ '' '' @
     quoteString (tm_tab s)"

definition genAliasTab :: "alias_tab \<Rightarrow> string" where
  "genAliasTab s = ''-- alias-tab '' @ at_context s @ '' '' @ quoteString (at_alias s) @ '' to '' @ quoteString (at_target s)"

definition genMergeTabs :: "merge_tabs \<Rightarrow> string" where
  "genMergeTabs s = ''-- merge-tabs '' @ mt_context s @ '' '' @ quoteString (mt_from s) @ '' into '' @ quoteString (mt_to s)"

definition generate :: "(double \<Rightarrow> string) \<Rightarrow> stmt \<Rightarrow> string" where
  "generate fmt s = (case s of
       SelectNode q \<Rightarrow> genSelect fmt q
     | InsertStmt r \<Rightarrow> genInsert fmt r
     | UpdateStmt r \<Rightarrow> genUpdate fmt r
     | DeleteStmt r \<Rightarrow> genDelete fmt r
     | CreateStmt r \<Rightarrow> genCreate r
     | DropStmt r \<Rightarrow> genDrop r
     | CreateSnapshotStmt r \<Rightarrow> genCreateSnapshot fmt r
     | ExportTorchStmt r \<Rightarrow> genExportTorch r
     | ExplainBatchStmt r \<Rightarrow> genExplainBatch r
     | CreateContextStmt r \<Rightarrow> ''-- manifest-context '' @ cc_name r
     | AppendMemoryStmt r \<Rightarrow> genAppendMemory r
     | SpillContextStmt r \<Rightarrow> genSpillContext r
     | ExplainContextStmt r \<Rightarrow> genExplainContext r
     | TagMemoryStmt r \<Rightarrow> genTagMemory r
     | ShowTabsStmt r \<Rightarrow> ''-- show-tabs '' @ st_context r
     | ShowContextSchemasStmt r \<Rightarrow> ''-- show-context-schemas''
     | ShowContextObjectsStmt r \<Rightarrow> ''-- show-context-objects '' @ so_context r
     | AliasTabStmt r \<Rightarrow> genAliasTab r
     | MergeTabsStmt r \<Rightarrow> genMergeTabs r)"

section \<open>Quoted texts\<close>

text \<open>How SQL reads a quoted text: two quotes stand for one, the first single one closes the text.\<close>

fun sql_body :: "string \<Rightarrow> (string \<times> string) option" where
  "sql_body [] = None"
| "sql_body (c # cs) =
     (if c = squote
      then (case cs of
              d # ds \<Rightarrow> if d = squote then map_option (apfst (Cons squote)) (sql_body ds) else Some ([], cs)
            | [] \<Rightarrow> Some ([], []))
      else map_option (apfst (Cons c)) (sql_body cs))"

fun read_sql_text :: "string \<Rightarrow> (string \<times> string) option" where
  "read_sql_text (c # cs) = (if c = squote then sql_body cs else None)"
| "read_sql_text [] = None"

definition leads_with_quote :: "string \<Rightarrow> bool" where
  "leads_with_quote s = (s \<noteq> [] \<and> hd s = squote)"

lemma sql_body_closes:
  "\<not> leads_with_quote rest \<Longrightarrow> sql_body (squote # rest) = Some ([], rest)"
  by (cases rest) (auto simp: leads_with_quote_def)

lemma sql_body_escaped:
  "\<not> leads_with_quote rest \<Longrightarrow>
   sql_body (concat (map (\<lambda>c. if c = squote then [squote, squote] else [c]) s) @ squote # rest) = Some (s, rest)"
  by (induction s) (auto simp: sql_body_closes simp del: sql_body.simps(2), simp_all)

text \<open>
  C39. A text literal is safe in generated SQL: whatever its characters, quotes included, the SQL reader gets
  exactly the literal back and goes on with the text that follows it.
\<close>
theorem quoted_text_roundtrip:
  assumes "\<not> leads_with_quote rest"
  shows "read_sql_text (genExpr fmt (Literal l c (STRING_VAL s)) @ rest) = Some (s, rest)"
  using sql_body_escaped [OF assms, of s] by (simp add: genExpr_def gen_literal_def quoteString_def)

lemma quoted_text_roundtrip_witness:
  "read_sql_text (genExpr (\<lambda>d. ''0.5'') (Literal 1 1 (STRING_VAL [CHR ''o'', squote, CHR ''b''])) @ '' AND x'') =
     Some ([CHR ''o'', squote, CHR ''b''], '' AND x'')"
  by (rule quoted_text_roundtrip) (simp add: leads_with_quote_def squote_def)

section \<open>Statements that are comments\<close>

text \<open>
  The statements about snapshots and contexts are written as a comment, which the SQLite back end is given
  like any other statement. The comment ends at the first newline, and quoting keeps newlines.
\<close>

definition after_comment :: "string \<Rightarrow> string" where
  "after_comment sql = drop 1 (dropWhile (\<lambda>c. c \<noteq> CHR 0x0A) sql)"

lemma after_comment_append:
  "CHR 0x0A \<notin> set xs \<Longrightarrow> after_comment (xs @ CHR 0x0A # ys) = ys"
  by (induction xs) (auto simp: after_comment_def)

lemma comment_statement_escapes:
  assumes "CHR 0x0A \<notin> set (tm_context s)" "CHR 0x0A \<notin> set (string_of_nat (tm_messageId s))"
    and "tm_tab s = CHR 0x0A # sql" "squote \<notin> set sql"
  shows "after_comment (generate fmt (TagMemoryStmt s)) = sql @ [squote]"
proof -
  have "concat (map (\<lambda>c. if c = squote then [squote, squote] else [c]) sql) = sql"
    using assms(4) by (induction sql) auto
  then have "generate fmt (TagMemoryStmt s) =
     (''-- vibe-tab '' @ tm_context s @ '' message '' @ string_of_nat (tm_messageId s) @ '' '' @ [squote])
       @ CHR 0x0A # (sql @ [squote])"
    using assms(3) by (simp add: generate_def genTagMemory_def quoteString_def squote_def)
  moreover have "CHR 0x0A \<notin> set (''-- vibe-tab '' @ tm_context s @ '' message '' @ string_of_nat (tm_messageId s) @ '' '' @ [squote])"
    using assms(1,2) by (simp add: squote_def)
  ultimately show ?thesis
    using after_comment_append by metis
qed

end
