(* ===== verification/Query_Compiler.thy ===== *)
theory Query_Compiler
  imports Frontend Compilation_Cache Optimizer Codegen
begin

text \<open>
  The compilation driver (\<open>QueryCompiler\<close>, \<open>src/compiler.h\<close> and \<open>src/compiler.cpp\<close>): lexer,
  parser, optimizer and code generator in a row for every statement of a text, behind the
  compilation cache.

  \<open>stod\<close>, \<open>fixed\<close> and \<open>fmt\<close> are the standard library on doubles (reading, \<open>std::to_string\<close>,
  stream output). A thrown exception leaves the cache as the lookup left it.

  The locale \<open>memo\<close> is what the driver needs of a cache: values that come out have been put in.
  The compilation cache is one (\<open>compilation_memo\<close>). From it follows that compiling through the
  cache gives what compiling afresh gives, for any history of the cache, as long as catalogs
  with different tables have different fingerprints.
\<close>

section \<open>Compiling a text\<close>

datatype compile_error =
    Lexing lexer_error
  | Parsing parse_error
  | Raised error

record compiled_statement =
  cmp_ast :: "stmt option"
  cmp_sql :: string
  cmp_report :: report

record compilation_result =
  cr_tokens :: "token list"
  cr_statements :: "compiled_statement list"
  cr_cacheHit :: bool
  cr_cacheable :: bool

record fast_result =
  fr_output :: cached_compilation
  fr_detailed :: compilation_result
  fr_cacheHit :: bool
  fr_cacheable :: bool

record printers =
  pr_stod :: "string \<Rightarrow> double option"
  pr_fixed :: "double \<Rightarrow> string"
  pr_stream :: "double \<Rightarrow> string"

definition no_result :: compilation_result where
  "no_result = \<lparr>cr_tokens = [], cr_statements = [], cr_cacheHit = False, cr_cacheable = False\<rparr>"

definition changes_schema :: "stmt \<Rightarrow> bool" where
  "changes_schema s = (case s of
       CreateStmt r \<Rightarrow> True
     | DropStmt r \<Rightarrow> True
     | CreateSnapshotStmt r \<Rightarrow> True
     | CreateContextStmt r \<Rightarrow> True
     | AppendMemoryStmt r \<Rightarrow> True
     | TagMemoryStmt r \<Rightarrow> True
     | AliasTabStmt r \<Rightarrow> True
     | MergeTabsStmt r \<Rightarrow> True
     | _ \<Rightarrow> False)"

definition compile_statement :: "printers \<Rightarrow> 'a catalog_data_scheme \<Rightarrow> stmt \<Rightarrow> (compiled_statement \<times> cached_statement) result" where
  "compile_statement pr cat s = rbind (optimize (pr_fixed pr) (Some cat) s) (\<lambda>(s', notes).
     let sql = generate (pr_stream pr) s'
     in Inr (\<lparr>cmp_ast = Some s', cmp_sql = sql, cmp_report = notes\<rparr>,
             \<lparr>cst_sql = sql, cst_notes = notes, cst_schemaChanging = changes_schema s, cst_ast = clone_stmt s'\<rparr>))"

definition compile_statements :: "printers \<Rightarrow> 'a catalog_data_scheme \<Rightarrow> stmt list \<Rightarrow> (compiled_statement \<times> cached_statement) list result" where
  "compile_statements pr cat ss = map_r (compile_statement pr cat) ss"

definition compileUncached :: "printers \<Rightarrow> string \<Rightarrow> 'a catalog_data_scheme \<Rightarrow> compile_error + compilation_result \<times> cached_compilation" where
  "compileUncached pr source cat = (case tokenize source of
       Inl e \<Rightarrow> Inl (Lexing e)
     | Inr toks \<Rightarrow> (case parseAll (pr_stod pr) toks of
           Failed e \<Rightarrow> Inl (Parsing e)
         | Out_Of_Fuel \<Rightarrow> Inl (Raised Undefined_Behaviour)
         | Parsed ss p \<Rightarrow> (case compile_statements pr cat ss of
               Inl e \<Rightarrow> Inl (Raised e)
             | Inr cs \<Rightarrow> Inr (\<lparr>cr_tokens = toks, cr_statements = map fst cs, cr_cacheHit = False,
                 cr_cacheable = (list_all (\<lambda>s. \<not> changes_schema s) ss \<and> cs \<noteq> [])\<rparr>, map snd cs))))"

section \<open>Compiling through the cache\<close>

definition from_cache :: "cached_compilation \<Rightarrow> compilation_result" where
  "from_cache v = \<lparr>cr_tokens = [], cr_statements = map (\<lambda>s. \<lparr>cmp_ast = None, cmp_sql = cst_sql s, cmp_report = cst_notes s\<rparr>) v,
     cr_cacheHit = True, cr_cacheable = True\<rparr>"

text \<open>The lookup, when the cache is to be used.\<close>

definition look_up :: "bool \<Rightarrow> string \<Rightarrow> catalog \<Rightarrow> comp_cache \<Rightarrow> cached_compilation option \<times> comp_cache" where
  "look_up useCache source cat c = (if useCache then cache_get source (cat_fingerprint cat) c else (None, c))"

definition compile_query :: "printers \<Rightarrow> memory \<Rightarrow> string \<Rightarrow> catalog \<Rightarrow> bool \<Rightarrow> comp_cache \<Rightarrow>
    (compile_error + compilation_result) \<times> comp_cache" where
  "compile_query pr m source cat useCache c = (case look_up useCache source cat c of
       (Some v, c1) \<Rightarrow> (Inr (from_cache v), c1)
     | (None, c1) \<Rightarrow> (case compileUncached pr source cat of
           Inl e \<Rightarrow> (Inl e, c1)
         | Inr (r, v) \<Rightarrow> (Inr r, if useCache \<and> cr_cacheable r then snd (cache_put m source (cat_fingerprint cat) v c1) else c1)))"

definition compileFast :: "printers \<Rightarrow> memory \<Rightarrow> string \<Rightarrow> catalog \<Rightarrow> bool \<Rightarrow> comp_cache \<Rightarrow>
    (compile_error + fast_result) \<times> comp_cache" where
  "compileFast pr m source cat useCache c = (case look_up useCache source cat c of
       (Some v, c1) \<Rightarrow> (Inr \<lparr>fr_output = v, fr_detailed = no_result, fr_cacheHit = True, fr_cacheable = True\<rparr>, c1)
     | (None, c1) \<Rightarrow> (case compileUncached pr source cat of
           Inl e \<Rightarrow> (Inl e, c1)
         | Inr (r, v) \<Rightarrow>
             let (output, c2) = (if useCache \<and> cr_cacheable r then cache_put m source (cat_fingerprint cat) v c1 else (v, c1))
             in (Inr \<lparr>fr_output = output, fr_detailed = r, fr_cacheHit = False, fr_cacheable = cr_cacheable r\<rparr>, c2)))"

definition clearCache :: "comp_cache \<Rightarrow> comp_cache" where
  "clearCache c = cache_clear c"

definition cacheStats :: "comp_cache \<Rightarrow> cache_stats" where
  "cacheStats c = cache_stats_of c"

definition resetCacheStats :: "comp_cache \<Rightarrow> comp_cache" where
  "resetCacheStats c = cache_resetStats c"

section \<open>What a memo cache guarantees\<close>

locale memo =
  fixes good :: "'c \<Rightarrow> bool" and stored :: "'c \<Rightarrow> ('k \<times> 'v) set"
    and find_in :: "'k \<Rightarrow> 'c \<Rightarrow> 'v option \<times> 'c" and put_in :: "'k \<Rightarrow> 'v \<Rightarrow> 'c \<Rightarrow> 'v \<times> 'c"
  assumes find_good: "good c \<Longrightarrow> good (snd (find_in k c))"
    and find_stored: "good c \<Longrightarrow> stored (snd (find_in k c)) \<subseteq> stored c"
    and find_value: "good c \<Longrightarrow> fst (find_in k c) = Some v \<Longrightarrow> (k, v) \<in> stored c"
    and put_good: "good c \<Longrightarrow> good (snd (put_in k v c))"
    and put_stored: "good c \<Longrightarrow> stored (snd (put_in k v c)) \<subseteq> insert (k, v) (stored c)"
    and put_value: "good c \<Longrightarrow> fst (put_in k v c) = v"
begin

lemma hit:
  assumes "good c" "\<forall>(k, v)\<in>stored c. P k v" "fst (find_in k c) = Some v"
  shows "P k v"
  using find_value [OF assms(1,3)] assms(2) by blast

lemma find_keeps:
  assumes "good c" "\<forall>(k, v)\<in>stored c. P k v"
  shows "good (snd (find_in k c)) \<and> (\<forall>(k, v)\<in>stored (snd (find_in k c)). P k v)"
  using find_good [OF assms(1)] find_stored [OF assms(1), of k] assms(2) by blast

lemma put_keeps:
  assumes "good c" "\<forall>(k, v)\<in>stored c. P k v" "P k v"
  shows "good (snd (put_in k v c)) \<and> (\<forall>(k, v)\<in>stored (snd (put_in k v c)). P k v)"
  using put_good [OF assms(1)] put_stored [OF assms(1), of k v] assms(2,3) by blast

end

definition stored_items :: "comp_cache \<Rightarrow> ((string \<times> u64) \<times> cached_compilation) set" where
  "stored_items c = (\<lambda>(k, v, n). (k, v)) ` set (lru_items c)"

lemma stored_items_iff: "(k, v) \<in> stored_items c \<longleftrightarrow> (\<exists>n. (k, v, n) \<in> set (lru_items c))"
  by (force simp: stored_items_def)

lemma set_lru_get: "set (lru_get k xs) \<subseteq> set xs"
  by (auto simp: lru_get_def set_without dest: map_of_SomeD split: option.splits)

lemma set_lru_put: "set (lru_put n b k v amount xs) \<subseteq> insert (k, v, amount) (set xs)"
proof -
  obtain ys where "(k, v, amount) # without k xs = affordable n b ((k, v, amount) # without k xs) @ ys"
    using affordable_prefix by blast
  then have "set (affordable n b ((k, v, amount) # without k xs)) \<subseteq> set ((k, v, amount) # without k xs)"
    by (metis Un_upper1 set_append)
  then show ?thesis by (auto simp: lru_put_def set_without)
qed

interpretation compilation_memo: memo cache_ok stored_items "\<lambda>k. cache_get (fst k) (snd k)"
  "\<lambda>k. cache_put m (fst k) (snd k)" for m
proof
  fix c :: comp_cache and k v
  assume ok: "cache_ok c"
  then have inv: "cache_inv c" by (simp add: cache_ok_def)
  note get = cache_get_step [OF inv, of "fst k" "snd k"] and put = cache_put_step [OF inv, of m "fst k" "snd k" v]
  show "cache_ok (snd (cache_get (fst k) (snd k) c))" by (rule cache_get_ok [OF ok])
  show "cache_ok (snd (cache_put m (fst k) (snd k) v c))" by (rule cache_put_ok [OF ok])
  show "stored_items (snd (cache_get (fst k) (snd k) c)) \<subseteq> stored_items c"
    using get set_lru_get [of k "lru_items c"] by (simp add: stored_items_def image_mono)
  show "stored_items (snd (cache_put m (fst k) (snd k) v c)) \<subseteq> insert (k, v) (stored_items c)"
    using put image_mono [OF set_lru_put [of "maxEntries c" "maxBytes c" k v "estimateBytes m (fst k) v" "lru_items c"],
      of "\<lambda>(k, v, n). (k, v)"]
    by (simp add: stored_items_def)
  show "fst (cache_put m (fst k) (snd k) v c) = v" using put by simp
  show "(k, v) \<in> stored_items c" if "fst (cache_get (fst k) (snd k) c) = Some v"
    using that get by (auto simp: stored_items_iff dest: map_of_SomeD)
qed

section \<open>The cache does not change what is compiled\<close>

text \<open>Compiling looks only at the tables of the catalog.\<close>

lemma resolve_same:
  assumes "cd_tables a = cd_tables a'"
  shows "resolveBaseColumn a = resolveBaseColumn a'"
  by (intro ext) (simp only: resolveBaseColumn_def getTable_def assms)

lemma pins_same:
  assumes "cd_tables a = cd_tables a'"
  shows "wherePinsPrimaryKey a b e = wherePinsPrimaryKey a' b e"
  by (induction e) (simp_all add: key_column_def resolve_same [OF assms])

lemma projects_same:
  assumes "cd_tables a = cd_tables a'"
  shows "projectsPrimaryKey a = projectsPrimaryKey a'"
  by (intro ext) (simp only: projectsPrimaryKey_def projects_key_def resolve_same [OF assms] getTable_def assms)

lemma counts_same:
  assumes "cd_tables a = cd_tables a'"
  shows "rewriteNonNullCounts a b e = rewriteNonNullCounts a' b e"
proof (induction e)
  case (FunctionCall l c name args dist al)
  then have "map (rewriteNonNullCounts a b) args = map (rewriteNonNullCounts a' b) args" by simp
  moreover have "rewrite_count a = rewrite_count a'"
    by (intro ext) (simp only: rewrite_count_def resolve_same [OF assms])
  ultimately show ?case by (simp only: rewriteNonNullCounts.simps)
qed simp_all

lemma metadata_same:
  assumes "cd_tables a = cd_tables a'"
  shows "applyMetadataOptimizations (Some a) e = applyMetadataOptimizations (Some a') e"
proof -
  have counts: "rewriteNonNullCounts a = rewriteNonNullCounts a'" by (intro ext) (rule counts_same [OF assms])
  have "wherePinsPrimaryKey a = wherePinsPrimaryKey a'" by (intro ext) (rule pins_same [OF assms])
  then have point: "is_point_lookup a = is_point_lookup a'"
    by (intro ext) (simp only: is_point_lookup_def)
  show ?thesis
    by (simp only: applyMetadataOptimizations_def prod.case option.case hasTable_def assms counts point projects_same [OF assms])
qed

lemma compile_same:
  assumes "cd_tables a = cd_tables a'"
  shows "compileUncached pr source a = compileUncached pr source a'"
proof -
  have "optimize_query (pr_fixed pr) (Some a) = optimize_query (pr_fixed pr) (Some a')"
    by (intro ext) (simp only: optimize_query_def metadata_same [OF assms])
  then have "optimize (pr_fixed pr) (Some a) = optimize (pr_fixed pr) (Some a')"
    by (intro ext) (simp only: optimize_def)
  then have "compile_statement pr a = compile_statement pr a'"
    by (intro ext) (simp only: compile_statement_def)
  then show ?thesis by (simp only: compileUncached_def compile_statements_def)
qed

text \<open>
  What may be in the cache when the catalogs \<open>cats\<close> have been in use: under a text and the
  fingerprint of a catalog, what compiling the text against that catalog gives.
\<close>

definition fresh :: "printers \<Rightarrow> catalog set \<Rightarrow> string \<times> u64 \<Rightarrow> cached_compilation \<Rightarrow> bool" where
  "fresh pr cats k v \<longleftrightarrow>
     (\<forall>cat\<in>cats. cat_fingerprint cat = snd k \<longrightarrow> (\<exists>r. compileUncached pr (fst k) cat = Inr (r, v) \<and> cr_cacheable r))"

definition coherent :: "printers \<Rightarrow> catalog set \<Rightarrow> comp_cache \<Rightarrow> bool" where
  "coherent pr cats c \<longleftrightarrow> cache_ok c \<and> (\<forall>(k, v)\<in>stored_items c. fresh pr cats k v)"

definition fingerprints_tell :: "catalog set \<Rightarrow> bool" where
  "fingerprints_tell cats \<longleftrightarrow>
     (\<forall>a\<in>cats. \<forall>b\<in>cats. cat_fingerprint a = cat_fingerprint b \<longrightarrow> cd_tables a = cd_tables b)"

lemma new_compiler_coherent: "coherent pr cats (new_cache n b)"
  by (simp add: coherent_def new_cache_ok) (simp add: stored_items_def lru_items_def new_cache_def)

lemma cleared_coherent:
  assumes "coherent pr cats c"
  shows "coherent pr cats (clearCache c)"
  using assms by (simp add: coherent_def clearCache_def cache_clear_def cache_ok_def cache_inv_def stored_items_def
    lru_items_def weight_def)

lemma compiled_fresh:
  assumes "fingerprints_tell cats" "cat \<in> cats" "compileUncached pr source cat = Inr (r, v)" "cr_cacheable r"
  shows "fresh pr cats (source, cat_fingerprint cat) v"
proof -
  have "compileUncached pr source b = Inr (r, v)" if "b \<in> cats" "cat_fingerprint b = cat_fingerprint cat" for b
  proof -
    have "cd_tables b = cd_tables cat" using assms(1,2) that unfolding fingerprints_tell_def by blast
    then have "compileUncached pr source b = compileUncached pr source cat" by (rule compile_same)
    also note assms(3)
    finally show ?thesis .
  qed
  then show ?thesis using assms(4) by (auto simp: fresh_def)
qed

text \<open>What a lookup gives and leaves.\<close>

lemma look_up_coherent:
  assumes "coherent pr cats c" "cat \<in> cats" "look_up useCache source cat c = (found, c1)"
  shows "coherent pr cats c1 \<and>
    (\<forall>v. found = Some v \<longrightarrow> (\<exists>r. compileUncached pr source cat = Inr (r, v) \<and> cr_cacheable r))"
proof (cases useCache)
  case True
  have c: "cache_ok c" "\<forall>(k, v)\<in>stored_items c. fresh pr cats k v" using assms(1) by (simp_all add: coherent_def)
  have get: "cache_get source (cat_fingerprint cat) c = (found, c1)" using True assms(3) by (simp add: look_up_def)
  have "coherent pr cats c1"
    using compilation_memo.find_keeps [OF c, of "(source, cat_fingerprint cat)"] get by (simp add: coherent_def)
  moreover have "fresh pr cats (source, cat_fingerprint cat) v" if "found = Some v" for v
    using compilation_memo.hit [OF c, of "(source, cat_fingerprint cat)" v] get that by simp
  ultimately show ?thesis using assms(2) by (auto simp: fresh_def)
next
  case False
  then show ?thesis using assms by (auto simp: look_up_def)
qed

lemma put_coherent:
  assumes "coherent pr cats c" "fingerprints_tell cats" "cat \<in> cats" "compileUncached pr source cat = Inr (r, v)" "cr_cacheable r"
  shows "fst (cache_put m source (cat_fingerprint cat) v c) = v \<and> coherent pr cats (snd (cache_put m source (cat_fingerprint cat) v c))"
proof -
  have c: "cache_ok c" "\<forall>(k, v)\<in>stored_items c. fresh pr cats k v" using assms(1) by (simp_all add: coherent_def)
  show ?thesis
    using compilation_memo.put_keeps [OF c compiled_fresh [OF assms(2-5)], of m]
      compilation_memo.put_value [OF c(1), of m "(source, cat_fingerprint cat)" v] by (simp add: coherent_def)
qed

definition shown :: "compilation_result \<Rightarrow> (string \<times> report) list" where
  "shown r = map (\<lambda>s. (cmp_sql s, cmp_report s)) (cr_statements r)"

lemma compiled_shown:
  assumes "compileUncached pr source cat = Inr (r, v)"
  shows "shown (from_cache v) = shown r"
proof -
  obtain ss cs where cs: "compile_statements pr cat ss = Inr cs" "cr_statements r = map fst cs" "v = map snd cs"
    using assms by (auto simp: compileUncached_def split: sum.splits parsed.splits)
  have "\<forall>x\<in>set cs. cmp_sql (fst x) = cst_sql (snd x) \<and> cmp_report (fst x) = cst_notes (snd x)"
    using cs(1) unfolding compile_statements_def
    by (induction ss arbitrary: cs) (fastforce simp: compile_statement_def Let_def rbind_eq_Inr_iff)+
  then show ?thesis using cs by (auto simp: shown_def from_cache_def)
qed

text \<open>
  C35. The compilation cache is invisible: whatever has been compiled, evicted or cleared before,
  compiling a text gives the statements with their SQL and notes, or the error, that compiling it
  afresh against the current catalog gives, as long as no two catalogs with different tables share
  a fingerprint. Both ways to compile keep it so.
\<close>
theorem cached_compile_correct:
  assumes "coherent pr cats c" "fingerprints_tell cats" "cat \<in> cats"
  shows "map_sum id (\<lambda>r. (fr_output r, fr_cacheable r)) (fst (compileFast pr m source cat useCache c)) =
      map_sum id (\<lambda>(r, v). (v, cr_cacheable r)) (compileUncached pr source cat) \<and>
    map_sum id shown (fst (compile_query pr m source cat useCache c)) = map_sum id (shown \<circ> fst) (compileUncached pr source cat) \<and>
    coherent pr cats (snd (compileFast pr m source cat useCache c)) \<and>
    coherent pr cats (snd (compile_query pr m source cat useCache c))"
proof -
  obtain found c1 where l: "look_up useCache source cat c = (found, c1)" by fastforce
  note look = look_up_coherent [OF assms(1,3) l]
  show ?thesis
  proof (cases "\<exists>v. found = Some v")
    case True
    then show ?thesis using look l compiled_shown by (fastforce simp: compileFast_def compile_query_def)
  next
    case False
    then have f: "found = None" by simp
    show ?thesis
    proof (cases "compileUncached pr source cat")
      case (Inl e)
      then show ?thesis using look l f by (simp add: compileFast_def compile_query_def)
    next
      case (Inr rv)
      obtain r v where rv: "rv = (r, v)" by fastforce
      show ?thesis
        using look l f Inr rv put_coherent [OF _ assms(2,3), of pr c1 source r v m]
        by (auto simp: compileFast_def compile_query_def split: prod.splits)
    qed
  qed
qed

definition plain_printers :: printers where
  "plain_printers = \<lparr>pr_stod = (\<lambda>s. None), pr_fixed = (\<lambda>d. []), pr_stream = (\<lambda>d. [])\<rparr>"

theorem cached_compile_correct_witness:
  "map_sum id (\<lambda>r. (fr_output r, fr_cacheable r))
      (fst (compileFast plain_printers plain_memory ''rizz-down t'' new_catalog True (new_cache 4 1000))) =
    map_sum id (\<lambda>(r, v). (v, cr_cacheable r)) (compileUncached plain_printers ''rizz-down t'' new_catalog)"
  by (rule cached_compile_correct [where cats = "{new_catalog}", THEN conjunct1])
    (simp_all add: new_compiler_coherent fingerprints_tell_def)

section \<open>A script is compiled before it runs\<close>

text \<open>
  All statements of a text are compiled against the catalog as it is before the first of them is
  executed. A script that drops a table, creates it again without a primary key and queries it
  is therefore given the rewrites of the old table: the query that should return every row with
  the name returns one.
\<close>

lemma script_compiled_ahead:
  "map_sum id (map (cst_sql \<circ> snd)) (compile_statements plain_printers demo_catalog
     [DropStmt \<lparr>drp_line = 1, drp_col = 1, drp_table = ''t'', ifExists = False\<rparr>,
      CreateStmt \<lparr>crt_line = 1, crt_col = 1, crt_table = ''t'', crt_columns =
        [\<lparr>cd_name = ''id'', cd_type = ''TEXT'', primary_key = False, not_null = False, fk_table = [], fk_col = []\<rparr>],
        ifNotExists = False\<rparr>,
      SelectNode (SelectStmt 1 1 False [Wildcard 1 1 [] []] ''t'' [] [] (Some demo_where) [] None [] None None)]) =
   Inr [''DROP TABLE t'', ''CREATE TABLE t (id TEXT)'', ''SELECT * FROM t WHERE (id = '' @ [squote, CHR ''b'', squote] @ '') LIMIT 1'']"
  by code_simp

end
