(* ===== verification/Engine_Select.thy ===== *)
theory Engine_Select
  imports Engine_Eval
begin

text \<open>
  The second half of \<open>NativeEngine::executeSelect\<close> (\<open>src/native_engine.cpp\<close>): what happens to
  the joined rows of a query. Filtering, the whole-row functions, grouping, the streaming
  evaluation of simple aggregates, projection, \<open>DISTINCT\<close>, ordering, offset and limit.

  A hash map from keys to groups is the list of its entries in order of insertion; the order in
  which it is iterated depends on hash codes, and is a parameter (\<open>arrange\<close>: from the keys to
  the positions visited). The samples of an aggregate and its other state are kept per column of
  the select list, next to the representative value.

  The lemmas show what a query returns: which rows, in which order, how often; and that the
  streaming evaluation agrees with the evaluation that collects the groups, where it does.
\<close>

section \<open>Queries and results\<close>

record query =
  q_distinct :: bool
  q_columns :: "ast list"
  q_fromTable :: string
  q_fromAlias :: string
  q_joins :: "ast join_clause list"
  q_where :: "ast option"
  q_groupBy :: "ast list"
  q_having :: "ast option"
  q_orderBy :: "ast order_item list"
  q_limit :: "ast option"
  q_offset :: "ast option"

definition query_of :: "ast \<Rightarrow> query option" where
  "query_of e = (case e of
       SelectStmt l c dist cols fromTable fromAlias joins whr groups having orders lim off \<Rightarrow>
         Some \<lparr>q_distinct = dist, q_columns = cols, q_fromTable = fromTable, q_fromAlias = fromAlias, q_joins = joins,
           q_where = whr, q_groupBy = groups, q_having = having, q_orderBy = orders, q_limit = lim, q_offset = off\<rparr>
     | _ \<Rightarrow> None)"

record query_result =
  qr_columns :: "string list"
  qr_rows :: "tuple list"
  qr_rowsAffected :: nat
  qr_message :: string

definition no_rows :: query_result where
  "no_rows = \<lparr>qr_columns = [], qr_rows = [], qr_rowsAffected = 0, qr_message = []\<rparr>"

record output_row =
  or_values :: tuple
  or_orderKeys :: "val list"

section \<open>Filtering and whole rows\<close>

definition satisfies :: "fmt \<Rightarrow> ast option \<Rightarrow> eval_row \<Rightarrow> bool result" where
  "satisfies fmt condition row = (case condition of
       None \<Rightarrow> Inr True
     | Some e \<Rightarrow> rbind (eval fmt e row) (\<lambda>v. Inr (asBoolean v)))"

definition is_biggest :: "ast \<Rightarrow> bool" where
  "is_biggest e = (case e of FunctionCall _ _ name args dist alias \<Rightarrow> name = ''biggest-W'' \<or> name = ''biggest-L'' | _ \<Rightarrow> False)"

text \<open>The first whole-row function decides, unless it has no argument.\<close>

definition biggest_call :: "ast list \<Rightarrow> (bool \<times> ast) option" where
  "biggest_call columns = (case List.find is_biggest columns of
       Some (FunctionCall _ _ name (argument # rest) dist alias) \<Rightarrow> Some (name = ''biggest-W'', argument)
     | _ \<Rightarrow> None)"

text \<open>The sort evaluates the argument on every row, if there are two rows to compare.\<close>

definition extreme_row :: "fmt \<Rightarrow> bool \<Rightarrow> ast \<Rightarrow> eval_row list \<Rightarrow> eval_row list result" where
  "extreme_row fmt descending argument rows =
     (if length rows < 2 then Inr rows
      else rbind (map_r (\<lambda>r. rbind (eval fmt argument r) (\<lambda>k. Inr (k, r))) rows) (\<lambda>keyed.
        Inr [snd (hd (stable_sort_by (\<lambda>a b. if descending then compare_value (fst a) (fst b) > 0
          else compare_value (fst a) (fst b) < 0) keyed))]))"

section \<open>Groups\<close>

definition same_key :: "tuple \<Rightarrow> tuple \<Rightarrow> bool" where
  "same_key a b = list_all2 value_eq a b"

text \<open>\<open>groups[key]\<close>: the entry with an equal key, or a new one.\<close>

fun group_at :: "tuple \<Rightarrow> 'g \<Rightarrow> ('g \<Rightarrow> 'g result) \<Rightarrow> (tuple \<times> 'g) list \<Rightarrow> (tuple \<times> 'g) list result" where
  "group_at key new f [] = rbind (f new) (\<lambda>g. Inr [(key, g)])"
| "group_at key new f ((k, g) # gs) =
     (if same_key k key then rbind (f g) (\<lambda>g'. Inr ((k, g') # gs))
      else rbind (group_at key new f gs) (\<lambda>gs'. Inr ((k, g) # gs')))"

definition group_key :: "fmt \<Rightarrow> ast list \<Rightarrow> eval_row \<Rightarrow> tuple result" where
  "group_key fmt groupBy row = map_r (\<lambda>e. eval fmt e row) groupBy"

definition collect_groups :: "fmt \<Rightarrow> ast list \<Rightarrow> eval_row list \<Rightarrow> (tuple \<times> eval_row list) list result" where
  "collect_groups fmt groupBy rows =
     (if groupBy = [] then Inr [([], rows)]
      else fold_r (\<lambda>row groups. rbind (group_key fmt groupBy row) (\<lambda>key.
        group_at key [] (\<lambda>g. Inr (g @ [row])) groups)) rows [])"

type_synonym arrange = "tuple list \<Rightarrow> nat list"

definition visit :: "arrange \<Rightarrow> (tuple \<times> 'g) list \<Rightarrow> 'g list" where
  "visit arrange groups = map (\<lambda>i. snd (groups ! i)) (arrange (map fst groups))"

definition output_group :: "fmt \<Rightarrow> query \<Rightarrow> string list \<Rightarrow> eval_row list \<Rightarrow> output_row list result" where
  "output_group fmt q names rows =
     rbind (case q_having q of None \<Rightarrow> Inr True | Some h \<Rightarrow> rbind (evalGrouped fmt h rows) (\<lambda>v. Inr (asBoolean v))) (\<lambda>keep.
       if \<not> keep then Inr []
       else rbind (projectGrouped fmt (q_columns q) rows) (\<lambda>vs.
         rbind (orderKeysGrouped fmt (q_orderBy q) rows names vs) (\<lambda>keys.
           Inr [\<lparr>or_values = vs, or_orderKeys = keys\<rparr>])))"

definition grouped_output :: "fmt \<Rightarrow> arrange \<Rightarrow> query \<Rightarrow> string list \<Rightarrow> eval_row list \<Rightarrow> output_row list result" where
  "grouped_output fmt arrange q names rows =
     rbind (collect_groups fmt (q_groupBy q) rows) (\<lambda>groups.
       rbind (map_r (output_group fmt q names) (visit arrange groups)) (\<lambda>os. Inr (concat os)))"

section \<open>Streaming aggregation\<close>

datatype stream_kind = SCount | SSum | SAverage | SMax | SMin | SLoneWolf

record stream_projection =
  sp_aggregate :: bool
  sp_expression :: ast
  sp_kind :: stream_kind
  sp_argument :: "ast option"

record stream_state =
  ss_count :: nat
  ss_sum :: double
  ss_allIntegers :: bool
  ss_extremum :: "val option"
  ss_samples :: "double list"

definition new_stream_state :: stream_state where
  "new_stream_state = \<lparr>ss_count = 0, ss_sum = 0, ss_allIntegers = True, ss_extremum = None, ss_samples = []\<rparr>"

definition stream_kind_of :: "string \<Rightarrow> stream_kind" where
  "stream_kind_of name =
     (if name = ''headcount'' then SCount
      else if name = ''stack'' then SSum
      else if name = ''mid'' then SAverage
      else if name = ''goat'' then SMax
      else if name = ''L'' then SMin
      else SLoneWolf)"

text \<open>
  The plan of a column: none if the query cannot be streamed. A count of rows has no argument.
\<close>

definition stream_projection_of :: "ast \<Rightarrow> stream_projection option" where
  "stream_projection_of e = (case e of
       FunctionCall _ _ name args dist alias \<Rightarrow>
         if dist \<or> \<not> isSimpleAggregateName name then None
         else if name = ''headcount'' \<and> (args = [] \<or> is_wildcard (hd args)) then
           Some \<lparr>sp_aggregate = True, sp_expression = e, sp_kind = SCount, sp_argument = None\<rparr>
         else if length args \<noteq> 1 then None
         else Some \<lparr>sp_aggregate = True, sp_expression = e, sp_kind = stream_kind_of name, sp_argument = Some (hd args)\<rparr>
     | _ \<Rightarrow>
         if hasAggregate e then None
         else Some \<lparr>sp_aggregate = False, sp_expression = e, sp_kind = SCount, sp_argument = None\<rparr>)"

fun stream_projections :: "ast list \<Rightarrow> stream_projection list option" where
  "stream_projections [] = Some []"
| "stream_projections (e # es) = (case (stream_projection_of e, stream_projections es) of
       (Some p, Some ps) \<Rightarrow> Some (p # ps)
     | _ \<Rightarrow> None)"

text \<open>One value that is not null enters the state of an aggregate.\<close>

definition stream_add :: "stream_kind \<Rightarrow> val \<Rightarrow> stream_state \<Rightarrow> stream_state result" where
  "stream_add kind v s =
     (if kind = SCount then Inr (s\<lparr>ss_count := ss_count s + 1\<rparr>)
      else if kind = SSum \<or> kind = SAverage \<or> kind = SLoneWolf then
        (if \<not> isNumeric v then Inl (Runtime_Error ''Numeric aggregate on non-number'')
         else
           let s1 = s\<lparr>ss_count := ss_count s + 1, ss_sum := dadd (ss_sum s) (num v),
                 ss_allIntegers := (ss_allIntegers s \<and> type_of v = TInteger)\<rparr>
           in Inr (if kind = SLoneWolf then s1\<lparr>ss_samples := ss_samples s @ [num v]\<rparr> else s1))
      else
        let s1 = s\<lparr>ss_count := ss_count s + 1\<rparr>
        in Inr (case ss_extremum s of
             None \<Rightarrow> s1\<lparr>ss_extremum := Some v\<rparr>
           | Some best \<Rightarrow>
               if kind = SMax \<and> compare_value v best > 0 \<or> kind = SMin \<and> compare_value v best < 0
               then s1\<lparr>ss_extremum := Some v\<rparr> else s1))"

type_synonym stream_cell = "val \<times> stream_state"

definition stream_cell_step :: "fmt \<Rightarrow> eval_row \<Rightarrow> stream_projection \<Rightarrow> stream_cell \<Rightarrow> stream_cell result" where
  "stream_cell_step fmt row p cell =
     (if \<not> sp_aggregate p then
        (if isNull (fst cell) then rbind (eval fmt (sp_expression p) row) (\<lambda>v. Inr (v, snd cell)) else Inr cell)
      else (case sp_argument p of
          None \<Rightarrow> Inr (fst cell, (snd cell)\<lparr>ss_count := ss_count (snd cell) + 1\<rparr>)
        | Some e \<Rightarrow> rbind (eval fmt e row) (\<lambda>v.
            if isNull v then Inr cell else rbind (stream_add (sp_kind p) v (snd cell)) (\<lambda>s. Inr (fst cell, s)))))"

definition stream_row :: "fmt \<Rightarrow> stream_projection list \<Rightarrow> eval_row \<Rightarrow> stream_cell list \<Rightarrow> stream_cell list result" where
  "stream_row fmt ps row cells = map_r (\<lambda>(p, cell). stream_cell_step fmt row p cell) (zip ps cells)"

definition new_cells :: "stream_projection list \<Rightarrow> stream_cell list" where
  "new_cells ps = map (\<lambda>p. (VNull, new_stream_state)) ps"

definition stream_groups :: "fmt \<Rightarrow> ast list \<Rightarrow> stream_projection list \<Rightarrow> eval_row list \<Rightarrow> (tuple \<times> stream_cell list) list result" where
  "stream_groups fmt groupBy ps rows =
     fold_r (\<lambda>row groups. rbind (group_key fmt groupBy row) (\<lambda>key.
       group_at key (new_cells ps) (stream_row fmt ps row) groups)) rows
       (if groupBy = [] then [([], new_cells ps)] else [])"

definition stream_value :: "stream_projection \<Rightarrow> stream_cell \<Rightarrow> val result" where
  "stream_value p cell =
     (let s = snd cell
      in if \<not> sp_aggregate p then Inr (fst cell)
         else if sp_kind p = SCount then Inr (VInteger (of_nat (ss_count s)))
         else if sp_kind p = SLoneWolf then Inr (VInteger (of_nat (countLoneWolves (ss_samples s))))
         else if ss_count s = 0 then Inr VNull
         else if sp_kind p = SAverage then Inr (VReal (ddiv (ss_sum s) (double_of_int (int (ss_count s)))))
         else if sp_kind p = SSum then total_value (ss_sum s, ss_allIntegers s)
         else Inr (case ss_extremum s of Some v \<Rightarrow> v | None \<Rightarrow> VNull))"

definition stream_output :: "fmt \<Rightarrow> arrange \<Rightarrow> query \<Rightarrow> stream_projection list \<Rightarrow> eval_row list \<Rightarrow> output_row list result" where
  "stream_output fmt arrange q ps rows =
     rbind (stream_groups fmt (q_groupBy q) ps rows) (\<lambda>groups.
       map_r (\<lambda>cells. rbind (map_r (\<lambda>(p, cell). stream_value p cell) (zip ps cells)) (\<lambda>vs.
         Inr \<lparr>or_values = vs, or_orderKeys = []\<rparr>)) (visit arrange groups))"

text \<open>The plan to stream, if the query allows it.\<close>

definition stream_plan :: "query \<Rightarrow> stream_projection list option" where
  "stream_plan q =
     (if q_having q \<noteq> None \<or> q_distinct q \<or> q_orderBy q \<noteq> [] \<or> q_limit q \<noteq> None \<or> q_offset q \<noteq> None then None
      else stream_projections (q_columns q))"

section \<open>The query\<close>

definition selectHasAggregate :: "query \<Rightarrow> bool" where
  "selectHasAggregate q \<longleftrightarrow>
     (\<exists>e\<in>set (q_columns q). hasAggregate e) \<or> (case q_having q of None \<Rightarrow> False | Some h \<Rightarrow> hasAggregate h)"

definition plain_output :: "fmt \<Rightarrow> query \<Rightarrow> bool \<Rightarrow> string list \<Rightarrow> eval_row list \<Rightarrow> output_row list result" where
  "plain_output fmt q whole names rows = map_r (\<lambda>row.
     rbind (if whole then Inr (er_values row) else project fmt (q_columns q) row (Some rows)) (\<lambda>vs.
       rbind (orderKeys fmt (q_orderBy q) row names vs) (\<lambda>keys.
         Inr \<lparr>or_values = vs, or_orderKeys = keys\<rparr>))) rows"

fun drop_duplicates :: "tuple list \<Rightarrow> output_row list \<Rightarrow> output_row list" where
  "drop_duplicates seen [] = []"
| "drop_duplicates seen (r # rs) =
     (if \<exists>s\<in>set seen. same_key s (or_values r) then drop_duplicates seen rs
      else r # drop_duplicates (or_values r # seen) rs)"

fun ordered_before :: "bool list \<Rightarrow> val list \<Rightarrow> val list \<Rightarrow> bool" where
  "ordered_before (asc # ascs) (x # xs) (y # ys) =
     (let comparison = compare_value x y
      in if comparison = 0 then ordered_before ascs xs ys
         else if asc then comparison < 0 else comparison > 0)"
| "ordered_before _ _ _ = False"

definition order_rows :: "ast order_item list \<Rightarrow> output_row list \<Rightarrow> output_row list" where
  "order_rows orders rows =
     (if orders = [] then rows
      else stable_sort_by (\<lambda>a b. ordered_before (map oi_asc orders) (or_orderKeys a) (or_orderKeys b)) rows)"

text \<open>A limit or offset that is not a number counts as zero.\<close>

definition page_rows_of :: "query \<Rightarrow> output_row list \<Rightarrow> tuple list result" where
  "page_rows_of q rows =
     rbind (integerLiteral (q_offset q) 0) (\<lambda>offset.
       rbind (case q_limit q of None \<Rightarrow> Inr (length rows) | Some e \<Rightarrow> rbind (integerLiteral (Some e) 0) (\<lambda>n. Inr (nat (max 0 n)))) (\<lambda>limit.
         Inr (map or_values (take limit (drop (nat (max 0 offset)) rows)))))"

definition select_columns :: "'a catalog_data_scheme \<Rightarrow> query \<Rightarrow> bool \<Rightarrow> eval_row list \<Rightarrow> string list" where
  "select_columns cat q whole rows =
     (let sample = (case rows of [] \<Rightarrow> None | r # _ \<Rightarrow> Some r)
      in case (whole, sample) of
           (True, Some r) \<Rightarrow> (case er_columns r of Some cs \<Rightarrow> map bc_name cs | None \<Rightarrow> [])
         | _ \<Rightarrow> outputNames cat ((q_fromTable q, q_fromAlias q) # map (\<lambda>j. (jc_table j, jc_alias j)) (q_joins q))
               (q_columns q) sample)"

definition select_output :: "fmt \<Rightarrow> arrange \<Rightarrow> query \<Rightarrow> bool \<Rightarrow> string list \<Rightarrow> eval_row list \<Rightarrow> output_row list result" where
  "select_output fmt arrange q whole names rows =
     (if q_groupBy q \<noteq> [] \<or> selectHasAggregate q then
        (case stream_plan q of
           Some ps \<Rightarrow> stream_output fmt arrange q ps rows
         | None \<Rightarrow> grouped_output fmt arrange q names rows)
      else plain_output fmt q whole names rows)"

definition select_rows :: "fmt \<Rightarrow> arrange \<Rightarrow> 'a catalog_data_scheme \<Rightarrow> query \<Rightarrow> eval_row list \<Rightarrow> query_result result" where
  "select_rows fmt arrange cat q joined =
     rbind (filter_r (satisfies fmt (q_where q)) joined) (\<lambda>kept.
       rbind (case biggest_call (q_columns q) of None \<Rightarrow> Inr kept | Some (descending, e) \<Rightarrow> extreme_row fmt descending e kept) (\<lambda>rows.
         let whole = (biggest_call (q_columns q) \<noteq> None);
             names = select_columns cat q whole rows
         in rbind (select_output fmt arrange q whole names rows) (\<lambda>output.
              rbind (page_rows_of q (order_rows (q_orderBy q) (if q_distinct q then drop_duplicates [] output else output))) (\<lambda>out.
                Inr (no_rows\<lparr>qr_columns := names, qr_rows := out\<rparr>)))))"

section \<open>What a query without groups returns\<close>

lemma ordered_before_asym:
  assumes "list_all orderable xs" "list_all orderable ys" "ordered_before ascs xs ys"
  shows "\<not> ordered_before ascs ys xs"
  using assms
proof (induction ascs xs ys rule: ordered_before.induct)
  case (1 asc ascs x xs y ys)
  then have "orderable x" "orderable y" by simp_all
  then show ?case using 1 val_order.cmp_antisym [of y x] by (auto simp: Let_def split: if_splits)
qed simp_all

lemma ordered_before_between:
  assumes "list_all orderable xs" "list_all orderable ys" "list_all orderable zs" "length ys = length xs"
    "ordered_before ascs xs zs"
  shows "ordered_before ascs xs ys \<or> ordered_before ascs ys zs"
  using assms
proof (induction ascs xs zs arbitrary: ys rule: ordered_before.induct)
  case (1 asc ascs x xs z zs)
  then obtain y ys' where ys: "ys = y # ys'" by (cases ys) auto
  then have ord: "orderable x" "orderable y" "orderable z" using 1 by simp_all
  note cmp = val_order.cmp_key [OF ord(1,2)] val_order.cmp_key [OF ord(2,3)] val_order.cmp_key [OF ord(1,3)]
  show ?case
  proof (cases "compare_value x z = 0")
    case True
    then show ?thesis using 1 ys cmp by (cases "compare_value x y = 0") (auto simp: Let_def split: if_splits)
  next
    case False
    then show ?thesis using 1 ys cmp by (auto simp: Let_def split: if_splits)
  qed
qed simp_all

definition keys_ok :: "nat \<Rightarrow> output_row \<Rightarrow> bool" where
  "keys_ok n r \<longleftrightarrow> length (or_orderKeys r) = n \<and> list_all orderable (or_orderKeys r)"

interpretation row_order: strict_weak "\<lambda>a b. ordered_before ascs (or_orderKeys a) (or_orderKeys b)" "keys_ok n" for ascs n
proof
  show "\<not> ordered_before ascs (or_orderKeys b) (or_orderKeys a)"
    if "keys_ok n a" "keys_ok n b" "ordered_before ascs (or_orderKeys a) (or_orderKeys b)" for a b
    using that by (intro ordered_before_asym) (simp_all add: keys_ok_def)
  show "ordered_before ascs (or_orderKeys a) (or_orderKeys b) \<or> ordered_before ascs (or_orderKeys b) (or_orderKeys c)"
    if "keys_ok n a" "keys_ok n b" "keys_ok n c" "ordered_before ascs (or_orderKeys a) (or_orderKeys c)" for a b c
    using that by (intro ordered_before_between) (simp_all add: keys_ok_def)
qed

definition in_order :: "ast order_item list \<Rightarrow> output_row list \<Rightarrow> bool" where
  "in_order orders rows = sorted_wrt (\<lambda>a b. \<not> ordered_before (map oi_asc orders) (or_orderKeys b) (or_orderKeys a)) rows"

lemma order_rows_ok:
  assumes "\<forall>r\<in>set rows. keys_ok n r"
  shows "mset (order_rows orders rows) = mset rows \<and> (orders \<noteq> [] \<longrightarrow> in_order orders (order_rows orders rows)) \<and>
    (orders = [] \<longrightarrow> order_rows orders rows = rows)"
  using row_order.sort_sorted [OF assms, of "map oi_asc orders"] by (simp add: order_rows_def in_order_def)

definition tied :: "ast order_item list \<Rightarrow> output_row \<Rightarrow> output_row \<Rightarrow> bool" where
  "tied orders a b \<longleftrightarrow> \<not> ordered_before (map oi_asc orders) (or_orderKeys a) (or_orderKeys b) \<and>
     \<not> ordered_before (map oi_asc orders) (or_orderKeys b) (or_orderKeys a)"

lemma order_rows_stable:
  assumes "\<forall>r\<in>set rows. keys_ok n r" "keys_ok n e" "orders \<noteq> []"
  shows "filter (tied orders e) (order_rows orders rows) = filter (tied orders e) rows"
  using row_order.sort_stable [OF assms(1,2), of "map oi_asc orders"] assms(3)
  unfolding tied_def order_rows_def by simp

definition alike :: "output_row \<Rightarrow> output_row \<Rightarrow> bool" where
  "alike a b = same_key (or_values a) (or_values b)"

text \<open>
  A row is kept if no row that was kept before it is alike: the first of alike rows stays, at its
  place. Sorting leaves rows whose keys compare equal in their order.
\<close>

definition one_of_each :: "output_row list \<Rightarrow> output_row list \<Rightarrow> bool" where
  "one_of_each uniques outs \<longleftrightarrow> (\<exists>K\<subseteq>{..<length outs}. uniques = nths outs K \<and>
     (\<forall>i<length outs. i \<in> K \<longleftrightarrow> \<not> (\<exists>k\<in>K. k < i \<and> alike (outs ! k) (outs ! i))))"

lemma drop_duplicates_nths:
  "\<exists>K\<subseteq>{..<length rows}. drop_duplicates seen rows = nths rows K \<and>
     (\<forall>i<length rows. i \<in> K \<longleftrightarrow> \<not> (\<exists>s\<in>set seen. same_key s (or_values (rows ! i))) \<and>
        \<not> (\<exists>k\<in>K. k < i \<and> alike (rows ! k) (rows ! i)))"
proof (induction seen rows rule: drop_duplicates.induct)
  case (2 seen r rs)
  show ?case
  proof (cases "\<exists>s\<in>set seen. same_key s (or_values r)")
    case True
    then obtain K where K: "K \<subseteq> {..<length rs}" "drop_duplicates seen rs = nths rs K"
      "\<forall>i<length rs. i \<in> K \<longleftrightarrow> \<not> (\<exists>s\<in>set seen. same_key s (or_values (rs ! i))) \<and> \<not> (\<exists>k\<in>K. k < i \<and> alike (rs ! k) (rs ! i))"
      using "2.IH"(1) by blast
    show ?thesis
    proof (intro exI [of _ "Suc ` K"] conjI allI impI)
      show "Suc ` K \<subseteq> {..<length (r # rs)}" using K(1) by auto
      show "drop_duplicates seen (r # rs) = nths (r # rs) (Suc ` K)" using True K(2) by (simp add: nths_Cons image_iff)
      fix i assume "i < length (r # rs)"
      then show "i \<in> Suc ` K \<longleftrightarrow> \<not> (\<exists>s\<in>set seen. same_key s (or_values ((r # rs) ! i))) \<and>
          \<not> (\<exists>k\<in>Suc ` K. k < i \<and> alike ((r # rs) ! k) ((r # rs) ! i))"
        using True K(3) by (cases i) (auto simp: image_iff)
    qed
  next
    case False
    then obtain K where K: "K \<subseteq> {..<length rs}" "drop_duplicates (or_values r # seen) rs = nths rs K"
      "\<forall>i<length rs. i \<in> K \<longleftrightarrow> \<not> (\<exists>s\<in>set (or_values r # seen). same_key s (or_values (rs ! i))) \<and> \<not> (\<exists>k\<in>K. k < i \<and> alike (rs ! k) (rs ! i))"
      using "2.IH"(2) by blast
    show ?thesis
    proof (intro exI [of _ "insert 0 (Suc ` K)"] conjI allI impI)
      show "insert 0 (Suc ` K) \<subseteq> {..<length (r # rs)}" using K(1) by auto
      show "drop_duplicates seen (r # rs) = nths (r # rs) (insert 0 (Suc ` K))" using False K(2) by (simp add: nths_Cons image_iff)
      fix i assume "i < length (r # rs)"
      then show "i \<in> insert 0 (Suc ` K) \<longleftrightarrow> \<not> (\<exists>s\<in>set seen. same_key s (or_values ((r # rs) ! i))) \<and>
          \<not> (\<exists>k\<in>insert 0 (Suc ` K). k < i \<and> alike ((r # rs) ! k) ((r # rs) ! i))"
        using False K(3) by (cases i) (auto simp: image_iff alike_def)
    qed
  qed
qed simp

lemma drop_duplicates_ok: "one_of_each (drop_duplicates [] rows) rows"
  using drop_duplicates_nths [of rows "[]"] by (simp add: one_of_each_def)

lemma drop_duplicates_subset: "set (drop_duplicates seen rows) \<subseteq> set rows"
  using drop_duplicates_nths [of rows seen] by (auto dest: in_set_nthsD)

definition window_of :: "query \<Rightarrow> nat \<Rightarrow> (nat \<times> nat) result" where
  "window_of q n = rbind (integerLiteral (q_offset q) 0) (\<lambda>offset.
     rbind (case q_limit q of None \<Rightarrow> Inr n | Some e \<Rightarrow> rbind (integerLiteral (Some e) 0) (\<lambda>k. Inr (nat (max 0 k)))) (\<lambda>limit.
       Inr (nat (max 0 offset), limit)))"

lemma page_rows_window:
  "page_rows_of q rows = rbind (window_of q (length rows)) (\<lambda>(offset, limit). Inr (map or_values (take limit (drop offset rows))))"
  by (simp add: page_rows_of_def window_of_def rbind_assoc)

lemma satisfies_bool: "satisfies fmt (Some e) row = Inr b \<longleftrightarrow> (\<exists>v. eval fmt e row = Inr v \<and> b = asBoolean v)"
  by (auto simp: satisfies_def rbind_eq_Inr_iff)

text \<open>
  What a query without groups and whole-row functions should answer: the rows on which the condition is
  true, projected; with \<open>DISTINCT\<close>, without the rows alike to one kept before; sorted by the ordering
  keys if there are any (where they can be ordered), rows with equal keys in their order; and cut to
  the offset and the limit.
\<close>

definition sorted_as :: "query \<Rightarrow> output_row list \<Rightarrow> output_row list \<Rightarrow> bool" where
  "sorted_as q ordered rows \<longleftrightarrow> mset ordered = mset rows \<and> (q_orderBy q = [] \<longrightarrow> ordered = rows) \<and>
     (q_orderBy q \<noteq> [] \<longrightarrow> (\<forall>r\<in>set rows. list_all orderable (or_orderKeys r)) \<longrightarrow>
        in_order (q_orderBy q) ordered \<and>
        (\<forall>r\<in>set rows. filter (tied (q_orderBy q) r) ordered = filter (tied (q_orderBy q) r) rows))"

definition answers :: "fmt \<Rightarrow> query \<Rightarrow> eval_row list \<Rightarrow> tuple list \<Rightarrow> bool" where
  "answers fmt q joined out \<longleftrightarrow> (\<exists>kept outs uniques ordered offset limit.
     kept = filter (\<lambda>r. satisfies fmt (q_where q) r = Inr True) joined \<and>
     list_all2 (\<lambda>r out. project fmt (q_columns q) r (Some kept) = Inr (or_values out)) kept outs \<and>
     (if q_distinct q then one_of_each uniques outs else uniques = outs) \<and>
     sorted_as q ordered uniques \<and> window_of q (length ordered) = Inr (offset, limit) \<and>
     out = map or_values (take limit (drop offset ordered)))"

lemma plain_output_rows:
  assumes "plain_output fmt q False names rows = Inr outs"
  shows "list_all2 (\<lambda>r out. project fmt (q_columns q) r (Some rows) = Inr (or_values out) \<and>
    length (or_orderKeys out) = length (q_orderBy q)) rows outs"
  using assms unfolding plain_output_def map_r_Inr
  by (rule list_all2_mono) (auto simp: rbind_eq_Inr_iff orderKeys_def dest: map_r_length)

text \<open>
  C33. A query without groups and whole-row functions answers with the projections of exactly the rows
  that satisfy its condition, in their order; for \<open>DISTINCT\<close> without those alike to a row kept
  before; for \<open>ORDER BY\<close> sorted by the keys, with ties in the order of the rows, where the keys can be
  ordered (no booleans, no \<open>NaN\<close>); and cut to the offset and the limit.
\<close>

theorem select_plain_correct:
  assumes "select_rows fmt arrange cat q joined = Inr res" "q_groupBy q = []" "\<not> selectHasAggregate q"
    "biggest_call (q_columns q) = None"
  shows "answers fmt q joined (qr_rows res)"
proof -
  obtain kept outs out where kept: "filter_r (satisfies fmt (q_where q)) joined = Inr kept"
    and outs: "select_output fmt arrange q False (select_columns cat q False kept) kept = Inr outs"
    and out: "page_rows_of q (order_rows (q_orderBy q) (if q_distinct q then drop_duplicates [] outs else outs)) = Inr out"
    and res: "qr_rows res = out"
    using assms(1) unfolding select_rows_def assms(4) by (auto simp: rbind_eq_Inr_iff Let_def)
  define uniques where "uniques = (if q_distinct q then drop_duplicates [] outs else outs)"
  have k: "kept = filter (\<lambda>r. satisfies fmt (q_where q) r = Inr True) joined"
    using kept by (auto simp: filter_r_Inr intro!: filter_cong)
  have plain: "list_all2 (\<lambda>r out. project fmt (q_columns q) r (Some kept) = Inr (or_values out) \<and>
      length (or_orderKeys out) = length (q_orderBy q)) kept outs"
    using outs assms(2,3) by (intro plain_output_rows) (simp add: select_output_def)
  have "one_of_each uniques outs" if "q_distinct q"
    using drop_duplicates_ok that by (simp add: uniques_def)
  moreover have "sorted_as q (order_rows (q_orderBy q) uniques) uniques"
  proof (cases "\<forall>r\<in>set uniques. list_all orderable (or_orderKeys r)")
    case True
    have "set uniques \<subseteq> set outs"
      using drop_duplicates_subset [of "[]" outs] by (auto simp: uniques_def)
    moreover have "\<forall>r\<in>set outs. length (or_orderKeys r) = length (q_orderBy q)"
      using plain by (auto simp: list_all2_conv_all_nth in_set_conv_nth)
    ultimately have "\<forall>r\<in>set uniques. keys_ok (length (q_orderBy q)) r" using True by (auto simp: keys_ok_def)
    from order_rows_ok [OF this, of "q_orderBy q"] order_rows_stable [OF this, of _ "q_orderBy q"] this
    show ?thesis by (simp add: sorted_as_def)
  qed (auto simp: sorted_as_def order_rows_def)
  moreover obtain offset limit where "window_of q (length (order_rows (q_orderBy q) uniques)) = Inr (offset, limit)"
    "out = map or_values (take limit (drop offset (order_rows (q_orderBy q) uniques)))"
    using out by (auto simp: page_rows_window rbind_eq_Inr_iff uniques_def)
  moreover have "list_all2 (\<lambda>r out. project fmt (q_columns q) r (Some kept) = Inr (or_values out)) kept outs"
    using plain by (rule list_all2_mono) simp
  moreover have "\<not> q_distinct q \<Longrightarrow> uniques = outs" by (simp add: uniques_def)
  ultimately show ?thesis unfolding answers_def using k res
    by (intro exI [of _ kept] exI [of _ outs] exI [of _ uniques] exI [of _ "order_rows (q_orderBy q) uniques"]
      exI [of _ offset] exI [of _ limit]) simp
qed

section \<open>Streaming agrees with collecting the groups\<close>

text \<open>A column that has no aggregate has the value of the first row.\<close>

lemma evalGrouped_plain:
  "\<not> hasAggregate e \<Longrightarrow> rows \<noteq> [] \<Longrightarrow> evalGrouped fmt e rows = eval fmt e (hd rows)"
  by (induction e) simp_all

definition collect_step :: "fmt \<Rightarrow> ast list \<Rightarrow> eval_row \<Rightarrow> (tuple \<times> eval_row list) list \<Rightarrow> (tuple \<times> eval_row list) list result" where
  "collect_step fmt groupBy row groups =
     rbind (group_key fmt groupBy row) (\<lambda>key. group_at key [] (\<lambda>g. Inr (g @ [row])) groups)"

definition stream_step :: "fmt \<Rightarrow> ast list \<Rightarrow> stream_projection list \<Rightarrow> eval_row \<Rightarrow> (tuple \<times> stream_cell list) list \<Rightarrow>
    (tuple \<times> stream_cell list) list result" where
  "stream_step fmt groupBy ps row groups =
     rbind (group_key fmt groupBy row) (\<lambda>key. group_at key (new_cells ps) (stream_row fmt ps row) groups)"

lemma collect_one_group:
  "fold_r (collect_step fmt []) rows [([], g)] = Inr [([], g @ rows)]"
  by (induction rows arbitrary: g) (simp_all add: collect_step_def group_key_def same_key_def)

lemma collect_groups_fold:
  "collect_groups fmt groupBy rows = fold_r (collect_step fmt groupBy) rows (if groupBy = [] then [([], [])] else [])"
  by (simp add: collect_groups_def collect_one_group) (simp add: collect_step_def [abs_def])

lemma stream_groups_fold:
  "stream_groups fmt groupBy ps rows = fold_r (stream_step fmt groupBy ps) rows (if groupBy = [] then [([], new_cells ps)] else [])"
  by (simp add: stream_groups_def stream_step_def [abs_def])

text \<open>
  A group of cells belongs to a group of rows: the same key, the rows have it, and the cells are what
  the rows leave in new cells.
\<close>

definition has_key_of :: "fmt \<Rightarrow> ast list \<Rightarrow> tuple \<Rightarrow> eval_row \<Rightarrow> bool" where
  "has_key_of fmt groupBy key row \<longleftrightarrow>
     (\<exists>key'. group_key fmt groupBy row = Inr key' \<and> list_all2 (\<lambda>x y. isNull x \<longleftrightarrow> isNull y) key key')"

definition group_rel :: "fmt \<Rightarrow> ast list \<Rightarrow> stream_projection list \<Rightarrow> eval_row set \<Rightarrow> tuple \<times> eval_row list \<Rightarrow>
    tuple \<times> stream_cell list \<Rightarrow> bool" where
  "group_rel fmt groupBy ps seen = (\<lambda>(k, rs) (k', cs). k = k' \<and> set rs \<subseteq> seen \<and> (\<forall>r\<in>set rs. has_key_of fmt groupBy k r) \<and>
     fold_r (stream_row fmt ps) rs (new_cells ps) = Inr cs)"

lemma value_eq_null: "value_eq a b \<Longrightarrow> isNull a \<longleftrightarrow> isNull b"
  by (simp add: value_eq_def split: if_splits)

lemma group_at_rel:
  assumes "list_all2 (group_rel fmt groupBy ps seen) gs ss" "group_key fmt groupBy row = Inr key" "row \<in> seen"
    "group_at key (new_cells ps) (stream_row fmt ps row) ss = Inr ss'"
  shows "\<exists>gs'. group_at key [] (\<lambda>g. Inr (g @ [row])) gs = Inr gs' \<and> list_all2 (group_rel fmt groupBy ps seen) gs' ss'"
  using assms(1,4)
proof (induction gs ss arbitrary: ss' rule: list_all2_induct)
  case Nil
  then obtain cs where "stream_row fmt ps row (new_cells ps) = Inr cs" "ss' = [(key, cs)]"
    by (auto simp: rbind_eq_Inr_iff)
  then show ?case using assms(2,3) by (simp add: group_rel_def has_key_of_def list_all2_refl)
next
  case (Cons g gs c ss)
  obtain k rs where g: "g = (k, rs)" by fastforce
  obtain cs where c: "c = (k, cs)" using Cons.hyps(1) g by (auto simp: group_rel_def)
  show ?case
  proof (cases "same_key k key")
    case True
    then obtain cs' where cs': "stream_row fmt ps row cs = Inr cs'" "ss' = (k, cs') # ss"
      using Cons.prems c by (auto simp: rbind_eq_Inr_iff)
    have "has_key_of fmt groupBy k row"
      using True assms(2) by (auto simp: has_key_of_def same_key_def value_eq_null elim: list_all2_mono)
    then have "group_rel fmt groupBy ps seen (k, rs @ [row]) (k, cs')"
      using Cons.hyps(1) g c cs'(1) assms(3) by (simp add: group_rel_def fold_r_append)
    then show ?thesis using True Cons.hyps(2) cs'(2) g by simp
  next
    case False
    then obtain ss1 where "group_at key (new_cells ps) (stream_row fmt ps row) ss = Inr ss1" "ss' = c # ss1"
      using Cons.prems c by (auto simp: rbind_eq_Inr_iff)
    then show ?thesis using Cons.IH Cons.hyps(1) False g c by fastforce
  qed
qed

lemma fold_rel:
  assumes "list_all2 (group_rel fmt groupBy ps seen) gs ss" "set rows \<subseteq> seen"
    "fold_r (stream_step fmt groupBy ps) rows ss = Inr ss'"
  shows "\<exists>gs'. fold_r (collect_step fmt groupBy) rows gs = Inr gs' \<and> list_all2 (group_rel fmt groupBy ps seen) gs' ss'"
  using assms
proof (induction rows arbitrary: gs ss)
  case (Cons row rows)
  then obtain ss1 where "stream_step fmt groupBy ps row ss = Inr ss1" and rest: "fold_r (stream_step fmt groupBy ps) rows ss1 = Inr ss'"
    by (auto simp: rbind_eq_Inr_iff)
  then obtain key where k: "group_key fmt groupBy row = Inr key"
    "group_at key (new_cells ps) (stream_row fmt ps row) ss = Inr ss1"
    by (auto simp: stream_step_def rbind_eq_Inr_iff)
  obtain gs1 where "group_at key [] (\<lambda>g. Inr (g @ [row])) gs = Inr gs1" "list_all2 (group_rel fmt groupBy ps seen) gs1 ss1"
    using group_at_rel [OF Cons.prems(1) k(1) _ k(2)] Cons.prems(2) by auto
  then show ?case using Cons.IH [of gs1 ss1] Cons.prems(2) k rest by (simp add: collect_step_def [of _ _ row])
qed simp

lemma stream_groups_rel:
  assumes "stream_groups fmt groupBy ps rows = Inr ss"
  shows "\<exists>gs. collect_groups fmt groupBy rows = Inr gs \<and> list_all2 (group_rel fmt groupBy ps (set rows)) gs ss"
proof -
  have "group_rel fmt groupBy ps (set rows) ([], []) ([], new_cells ps)" by (simp add: group_rel_def)
  then show ?thesis
    using fold_rel [of fmt groupBy ps "set rows" "if groupBy = [] then [([], [])] else []"
        "if groupBy = [] then [([], new_cells ps)] else []" rows ss] assms
    by (cases "groupBy = []") (simp_all add: collect_groups_fold stream_groups_fold)
qed

text \<open>Every cell goes its own way.\<close>

lemma stream_row_cells:
  assumes "fold_r (stream_row fmt ps) rs cells = Inr cs" "length cells = length ps"
  shows "length cs = length ps \<and>
    (\<forall>i<length ps. fold_r (\<lambda>row. stream_cell_step fmt row (ps ! i)) rs (cells ! i) = Inr (cs ! i))"
  using assms
proof (induction rs arbitrary: cells)
  case (Cons row rs)
  then obtain cells1 where c1: "stream_row fmt ps row cells = Inr cells1" "fold_r (stream_row fmt ps) rs cells1 = Inr cs"
    by (auto simp: rbind_eq_Inr_iff)
  then have steps: "list_all2 (\<lambda>pc cell1. stream_cell_step fmt row (fst pc) (snd pc) = Inr cell1) (zip ps cells) cells1"
    by (simp add: stream_row_def map_r_Inr case_prod_beta)
  then have len: "length cells1 = length ps" using Cons.prems(2) by (auto dest: list_all2_lengthD)
  have "stream_cell_step fmt row (ps ! i) (cells ! i) = Inr (cells1 ! i)" if "i < length ps" for i
    using list_all2_nthD [OF steps, of i] that Cons.prems(2) by simp
  then show ?case using Cons.IH [OF c1(2) len] by simp
qed simp

text \<open>What an aggregate's cell holds after the rows of a group.\<close>

definition stream_values :: "stream_kind \<Rightarrow> val list \<Rightarrow> stream_state \<Rightarrow> stream_state result" where
  "stream_values kind vs s = fold_r (stream_add kind) vs s"

lemma cell_argument:
  assumes "sp_aggregate p" "sp_argument p = Some e"
    "fold_r (\<lambda>row. stream_cell_step fmt row p) rs (v, s) = Inr cell"
  shows "\<exists>vs. argument_values fmt e rs = Inr vs \<and> fst cell = v \<and> stream_values (sp_kind p) vs s = Inr (snd cell)"
  using assms(3)
proof (induction rs arbitrary: s)
  case Nil
  then show ?case by (auto simp: argument_values_def stream_values_def)
next
  case (Cons row rs)
  obtain x where x: "eval fmt e row = Inr x"
    using Cons.prems assms by (auto simp: stream_cell_step_def rbind_eq_Inr_iff)
  obtain s1 where s1: "(if isNull x then Inr s else stream_add (sp_kind p) x s) = Inr s1"
    and rest: "fold_r (\<lambda>row. stream_cell_step fmt row p) rs (v, s1) = Inr cell"
    using Cons.prems assms x by (cases "isNull x") (auto simp: stream_cell_step_def [of _ row] rbind_eq_Inr_iff)
  then show ?case using Cons.IH [OF rest] x
    by (cases "isNull x") (auto simp: argument_values_def stream_values_def rbind_eq_Inr_iff)
qed

lemma cell_count_rows:
  assumes "sp_aggregate p" "sp_argument p = None"
    "fold_r (\<lambda>row. stream_cell_step fmt row p) rs (v, s) = Inr cell"
  shows "cell = (v, s\<lparr>ss_count := ss_count s + length rs\<rparr>)"
  using assms(3)
proof (induction rs arbitrary: s)
  case (Cons row rs)
  then show ?case
    using Cons.IH [of "s\<lparr>ss_count := Suc (ss_count s)\<rparr>"] by (simp add: stream_cell_step_def [where p = p] assms(1,2))
qed simp

lemma cell_plain:
  assumes "\<not> sp_aggregate p" "fold_r (\<lambda>row. stream_cell_step fmt row p) rs (v, s) = Inr cell"
  shows "(\<not> isNull v \<longrightarrow> cell = (v, s)) \<and>
    (isNull v \<longrightarrow> (\<exists>w. cell = (w, s) \<and> (rs = [] \<and> w = v \<or>
      (\<exists>r\<in>set rs. eval fmt (sp_expression p) r = Inr w) \<and>
      (\<forall>x. eval fmt (sp_expression p) (hd rs) = Inr x \<longrightarrow> w = x \<or> isNull x) \<and>
      (\<exists>x. eval fmt (sp_expression p) (hd rs) = Inr x))))"
  using assms(2)
proof (induction rs arbitrary: v)
  case (Cons row rs)
  show ?case
  proof (cases "isNull v")
    case True
    then obtain x where x: "eval fmt (sp_expression p) row = Inr x" "fold_r (\<lambda>row. stream_cell_step fmt row p) rs (x, s) = Inr cell"
      using Cons.prems assms(1) by (auto simp: stream_cell_step_def [of _ row] rbind_eq_Inr_iff)
    then show ?thesis using Cons.IH [OF x(2)] True by auto
  next
    case False
    then show ?thesis using Cons.prems Cons.IH assms(1) by (simp add: stream_cell_step_def [of _ row])
  qed
qed auto

lemma counted_values:
  "stream_values SCount vs s = Inr (s\<lparr>ss_count := ss_count s + length vs\<rparr>)"
  by (induction vs arbitrary: s) (simp_all add: stream_values_def stream_add_def)

lemma summed_values:
  assumes "kind = SSum \<or> kind = SAverage" "stream_values kind vs s = Inr s'"
  shows "sum_loop vs (ss_sum s, ss_allIntegers s) = Inr (ss_sum s', ss_allIntegers s') \<and> ss_count s' = ss_count s + length vs"
  using assms(2)
proof (induction vs arbitrary: s)
  case (Cons v vs)
  then have v: "isNumeric v" using assms(1) by (auto simp: stream_values_def stream_add_def split: if_splits)
  let ?s = "s\<lparr>ss_count := Suc (ss_count s), ss_sum := dadd (ss_sum s) (num v),
    ss_allIntegers := ss_allIntegers s \<and> type_of v = TInteger\<rparr>"
  have "stream_values kind vs ?s = Inr s'"
    using Cons.prems v assms(1) by (auto simp: stream_values_def stream_add_def [of _ v] Let_def)
  from Cons.IH [OF this] v show ?case by simp
qed (simp add: stream_values_def)

lemma extreme_values:
  assumes "kind = SMax \<or> kind = SMin" "stream_values kind vs s = Inr s'"
  shows "ss_count s' = ss_count s + length vs \<and>
    (vs \<noteq> [] \<longrightarrow> ss_extremum s' = Some (case ss_extremum s of None \<Rightarrow> extremum (kind = SMax) vs
       | Some best \<Rightarrow> extremum (kind = SMax) (best # vs)))"
  using assms(2)
proof (induction vs arbitrary: s)
  case (Cons v vs)
  show ?case
  proof (cases "vs = []")
    case True
    then show ?thesis using Cons.prems assms(1)
      by (auto simp: stream_values_def stream_add_def Let_def extremum_def split: option.splits)
  next
    case False
    then show ?thesis using Cons.prems Cons.IH assms(1)
      by (auto simp: stream_values_def stream_add_def [of _ v] Let_def extremum_def split: option.splits)
  qed
qed (simp add: stream_values_def)

text \<open>
  The columns for which streaming is a mere optimisation: aggregates other than \<open>LONE-WOLF\<close>, and
  columns that are grouped by or never null.
\<close>

definition settled :: "fmt \<Rightarrow> ast list \<Rightarrow> eval_row list \<Rightarrow> ast \<Rightarrow> bool" where
  "settled fmt groupBy rows e \<longleftrightarrow>
     (case e of FunctionCall _ _ name args dist alias \<Rightarrow> \<not> isLoneWolfName name | _ \<Rightarrow> True) \<and>
     (hasAggregate e \<or> e \<in> set groupBy \<or> (\<forall>r\<in>set rows. eval fmt e r \<noteq> Inr VNull))"

lemma stream_kind_cases:
  assumes "isSimpleAggregateName name" "\<not> isLoneWolfName name"
  shows "name = ''headcount'' \<and> stream_kind_of name = SCount \<or> name = ''stack'' \<and> stream_kind_of name = SSum \<or>
    name = ''mid'' \<and> stream_kind_of name = SAverage \<or> name = ''goat'' \<and> stream_kind_of name = SMax \<or>
    name = ''L'' \<and> stream_kind_of name = SMin"
  using assms by (auto simp: isSimpleAggregateName_def stream_kind_of_def)

lemma stream_argument_value:
  assumes "sp_aggregate p" "sp_kind p = stream_kind_of name" "sp_argument p = Some a" "isSimpleAggregateName name"
    "\<not> isLoneWolfName name" "name = ''headcount'' \<longrightarrow> \<not> is_wildcard a" "argument_values fmt a rs = Inr vs"
    "stream_values (sp_kind p) vs new_stream_state = Inr (snd cell)" "stream_value p cell = Inr v"
  shows "aggregate fmt name [a] False rs = Inr v"
proof -
  have summary: "stream_values (stream_kind_of name) vs new_stream_state = Inr (snd cell)" using assms(2,8) by simp
  consider "name = ''headcount''" "stream_kind_of name = SCount" | "name = ''stack''" "stream_kind_of name = SSum"
    | "name = ''mid''" "stream_kind_of name = SAverage" | "name = ''goat''" "stream_kind_of name = SMax"
    | "name = ''L''" "stream_kind_of name = SMin"
    using stream_kind_cases [OF assms(4,5)] by blast
  then show ?thesis
  proof cases
    case 1
    then have "ss_count (snd cell) = length vs"
      using summary counted_values [of vs new_stream_state] by (auto simp: new_stream_state_def)
    then show ?thesis using 1 assms(1,2,6,7,9) by (simp add: aggregate_def stream_value_def)
  next
    case 2
    then have "sum_loop vs (0, True) = Inr (ss_sum (snd cell), ss_allIntegers (snd cell))" "ss_count (snd cell) = length vs"
      using summed_values [OF _ summary] by (simp_all add: new_stream_state_def)
    then show ?thesis using 2 assms(1,2,7,9) by (cases "vs = []") (simp_all add: aggregate_def stream_value_def Let_def)
  next
    case 3
    then have "sum_loop vs (0, True) = Inr (ss_sum (snd cell), ss_allIntegers (snd cell))" "ss_count (snd cell) = length vs"
      using summed_values [OF _ summary] by (simp_all add: new_stream_state_def)
    then show ?thesis using 3 assms(1,2,7,9) by (cases "vs = []") (simp_all add: aggregate_def stream_value_def Let_def)
  next
    case 4
    then have "ss_count (snd cell) = length vs" "vs \<noteq> [] \<longrightarrow> ss_extremum (snd cell) = Some (extremum True vs)"
      using extreme_values [OF _ summary] by (simp_all add: new_stream_state_def)
    then show ?thesis using 4 assms(1,2,7,9) by (cases "vs = []") (simp_all add: aggregate_def stream_value_def Let_def)
  next
    case 5
    then have "ss_count (snd cell) = length vs" "vs \<noteq> [] \<longrightarrow> ss_extremum (snd cell) = Some (extremum False vs)"
      using extreme_values [OF _ summary] by (simp_all add: new_stream_state_def)
    then show ?thesis using 5 assms(1,2,7,9) by (cases "vs = []") (simp_all add: aggregate_def stream_value_def Let_def)
  qed
qed

lemma null_unless: "isNull v \<longleftrightarrow> v = VNull"
  by (cases v) (simp_all add: isNull_def type_of_def)

lemma group_key_null:
  assumes "has_key_of fmt groupBy k r" "has_key_of fmt groupBy k r'" "e \<in> set groupBy" "eval fmt e r = Inr x" "eval fmt e r' = Inr x'"
  shows "isNull x \<longleftrightarrow> isNull x'"
proof -
  obtain key key' where k: "group_key fmt groupBy r = Inr key" "group_key fmt groupBy r' = Inr key'"
    "list_all2 (\<lambda>x y. isNull x \<longleftrightarrow> isNull y) k key" "list_all2 (\<lambda>x y. isNull x \<longleftrightarrow> isNull y) k key'"
    using assms(1,2) by (auto simp: has_key_of_def)
  obtain i where i: "i < length groupBy" "groupBy ! i = e" using assms(3) by (auto simp: in_set_conv_nth)
  have ev: "eval fmt e r = Inr (key ! i)" "eval fmt e r' = Inr (key' ! i)"
    using k(1,2) i by (auto simp: group_key_def map_r_Inr list_all2_conv_all_nth)
  have "length k = length groupBy" using k(1,3) by (simp add: group_key_def map_r_Inr list_all2_lengthD)
  then have "isNull (k ! i) \<longleftrightarrow> isNull (key ! i)" "isNull (k ! i) \<longleftrightarrow> isNull (key' ! i)"
    using k(3,4) i by (auto simp: list_all2_conv_all_nth)
  then show ?thesis using ev assms(4,5) by simp
qed

lemma cell_value:
  assumes "stream_projection_of e = Some p" "rs \<noteq> []" "set rs \<subseteq> set rows" "\<forall>r\<in>set rs. has_key_of fmt groupBy k r"
    "settled fmt groupBy rows e" "fold_r (\<lambda>row. stream_cell_step fmt row p) rs (VNull, new_stream_state) = Inr cell"
    "stream_value p cell = Inr v"
  shows "evalGrouped fmt e rs = Inr v"
proof (cases "\<exists>l c name args dist al. e = FunctionCall l c name args dist al")
  case True
  then obtain l c name args dist al where e: "e = FunctionCall l c name args dist al" by blast
  have name: "isSimpleAggregateName name" "\<not> dist" "\<not> isLoneWolfName name" "is_aggregate_name name"
    using assms(1,5) e by (auto simp: stream_projection_of_def settled_def is_aggregate_name_def isSimpleAggregateName_def
      split: if_splits)
  show ?thesis
  proof (cases "name = ''headcount'' \<and> (args = [] \<or> is_wildcard (hd args))")
    case True
    then have p: "sp_aggregate p" "sp_argument p = None" "sp_kind p = SCount"
      using assms(1) e name by (auto simp: stream_projection_of_def)
    show ?thesis using cell_count_rows [OF p(1,2) assms(6)] assms(7) e name p True
      by (auto simp: stream_value_def aggregate_def new_stream_state_def)
  next
    case False
    then obtain a where a: "args = [a]" using assms(1) e name
      by (cases args) (auto simp: stream_projection_of_def split: if_splits)
    then have p: "sp_aggregate p" "sp_argument p = Some a" "sp_kind p = stream_kind_of name"
      using assms(1) e name False by (auto simp: stream_projection_of_def)
    obtain vs where "argument_values fmt a rs = Inr vs" "stream_values (sp_kind p) vs new_stream_state = Inr (snd cell)"
      using cell_argument [OF p(1,2) assms(6)] by auto
    then show ?thesis
      using stream_argument_value [OF p(1,3,2) name(1,3) _ _ _ assms(7)] False e a name by auto
  qed
next
  case False
  then have p: "p = \<lparr>sp_aggregate = False, sp_expression = e, sp_kind = SCount, sp_argument = None\<rparr>" "\<not> hasAggregate e"
    using assms(1) by (cases e; auto simp: stream_projection_of_def split: if_splits)+
  have cell: "fst cell = v" using assms(7) p by (simp add: stream_value_def)
  have plain: "(\<exists>r\<in>set rs. eval fmt e r = Inr v) \<and> (\<forall>x. eval fmt e (hd rs) = Inr x \<longrightarrow> v = x \<or> isNull x) \<and>
      (\<exists>x. eval fmt e (hd rs) = Inr x)"
    using cell_plain [OF _ assms(6)] p(1) assms(2) cell by (auto simp: null_unless)
  then obtain x where x: "eval fmt e (hd rs) = Inr x" "v = x \<or> isNull x" by blast
  from plain obtain r where r: "r \<in> set rs" "eval fmt e r = Inr v" by blast
  have "isNull x \<longrightarrow> isNull v"
  proof
    assume null: "isNull x"
    have "hd rs \<in> set rows" using assms(2,3) by auto
    then have "e \<in> set groupBy"
      using x(1) null assms(5) p(2) by (auto simp: settled_def null_unless)
    then show "isNull v" using group_key_null [of fmt groupBy k "hd rs" r e x v] x r null assms(2,4) by auto
  qed
  then have "v = x" using x(2) by (auto simp: null_unless)
  then show ?thesis using evalGrouped_plain [OF p(2) assms(2)] x(1) by simp
qed

lemma stream_projections_nth:
  "stream_projections es = Some ps \<Longrightarrow> length ps = length es \<and> (\<forall>i<length es. stream_projection_of (es ! i) = Some (ps ! i))"
proof (induction es arbitrary: ps)
  case (Cons e es)
  then obtain p qs where "stream_projection_of e = Some p" "stream_projections es = Some qs" "ps = p # qs"
    by (auto split: option.splits)
  then show ?case using Cons.IH [of qs] by (auto simp: nth_Cons split: nat.split)
qed simp

text \<open>One group: the cells give the values that the collected rows give.\<close>

lemma group_value:
  assumes "stream_plan q = Some ps" "group_rel fmt (q_groupBy q) ps (set rows) (k, rs) (k, cs)" "rs \<noteq> []"
    "\<forall>e\<in>set (q_columns q). settled fmt (q_groupBy q) rows e"
    "map_r (\<lambda>(p, cell). stream_value p cell) (zip ps cs) = Inr vs"
  shows "output_group fmt q names rs = Inr [\<lparr>or_values = vs, or_orderKeys = []\<rparr>]"
proof -
  have q: "stream_projections (q_columns q) = Some ps" "q_having q = None" "q_orderBy q = []"
    using assms(1) by (auto simp: stream_plan_def split: if_splits)
  note nth = stream_projections_nth [OF q(1)]
  have cells: "length cs = length ps"
    "\<And>i. i < length ps \<Longrightarrow> fold_r (\<lambda>row. stream_cell_step fmt row (ps ! i)) rs (VNull, new_stream_state) = Inr (cs ! i)"
    using stream_row_cells [of fmt ps rs "new_cells ps" cs] assms(2) by (simp_all add: group_rel_def new_cells_def)
  have vs: "length vs = length ps" "\<And>i. i < length ps \<Longrightarrow> stream_value (ps ! i) (cs ! i) = Inr (vs ! i)"
    using assms(5) cells(1) by (auto simp: map_r_Inr list_all2_conv_all_nth)
  have val: "evalGrouped fmt (q_columns q ! i) rs = Inr (vs ! i)" if "i < length ps" for i
    using cell_value [of "q_columns q ! i" "ps ! i" rs rows fmt "q_groupBy q" k "cs ! i" "vs ! i"] nth that assms(2-4) cells(2) vs(2)
    by (simp add: group_rel_def)
  have "\<not> is_wildcard (q_columns q ! i)" if "i < length ps" for i
  proof
    assume "is_wildcard (q_columns q ! i)"
    then have "evalGrouped fmt (q_columns q ! i) rs = Inl (Runtime_Error ''Wildcard is not a scalar expression'')"
      using assms(3) by (cases "q_columns q ! i") (simp_all add: is_wildcard_def)
    then show False using val [OF that] by simp
  qed
  then have "projectGrouped fmt (q_columns q) rs = Inr vs"
    using nth val vs(1) by (simp add: projectGrouped_def map_r_Inr list_all2_conv_all_nth)
  then show ?thesis using q by (simp add: output_group_def orderKeysGrouped_def)
qed

lemma collected_nonempty:
  assumes "collect_groups fmt groupBy rows = Inr gs" "rows \<noteq> []" "g \<in> set gs"
  shows "snd g \<noteq> []"
proof (cases "groupBy = []")
  case False
  have at: "\<forall>g\<in>set gs'. snd g \<noteq> []"
    if "group_at key [] (\<lambda>g. Inr (g @ [row])) gs = Inr gs'" "\<forall>g\<in>set gs. snd g \<noteq> []" for key row and gs gs' :: "(tuple \<times> eval_row list) list"
    using that by (induction gs arbitrary: gs') (fastforce simp: rbind_eq_Inr_iff split: if_splits)+
  have "\<forall>g\<in>set gs'. snd g \<noteq> []"
    if "fold_r (collect_step fmt groupBy) rows gs = Inr gs'" "\<forall>g\<in>set gs. snd g \<noteq> []" for rows and gs gs' :: "(tuple \<times> eval_row list) list"
    using that
  proof (induction rows arbitrary: gs)
    case (Cons row rows)
    then obtain gs1 where gs1: "collect_step fmt groupBy row gs = Inr gs1" "fold_r (collect_step fmt groupBy) rows gs1 = Inr gs'"
      by (auto simp: rbind_eq_Inr_iff)
    then obtain key where "group_at key [] (\<lambda>g. Inr (g @ [row])) gs = Inr gs1"
      by (auto simp: collect_step_def rbind_eq_Inr_iff)
    then have "\<forall>g\<in>set gs1. snd g \<noteq> []" using at Cons.prems(2) by blast
    then show ?case using Cons.IH gs1(2) by blast
  qed simp
  then show ?thesis using assms False by (auto simp: collect_groups_fold)
qed (use assms in \<open>auto simp: collect_groups_def\<close>)

text \<open>
  C34. Streaming aggregation is an optimisation: on at least one row, where it returns rows, collecting
  the groups and evaluating them returns the same rows, whatever order the groups are visited in, as
  long as no column is a \<open>LONE-WOLF\<close> and the columns without an aggregate are grouped by or never null.
\<close>
theorem streaming_agrees:
  assumes "stream_plan q = Some ps" "rows \<noteq> []" "\<forall>e\<in>set (q_columns q). settled fmt (q_groupBy q) rows e"
    "\<forall>ks. set (arrange ks) \<subseteq> {..<length ks}" "stream_output fmt arrange q ps rows = Inr out"
  shows "grouped_output fmt arrange q names rows = Inr out"
proof -
  obtain ss where ss: "stream_groups fmt (q_groupBy q) ps rows = Inr ss"
    and out: "map_r (\<lambda>cells. rbind (map_r (\<lambda>(p, cell). stream_value p cell) (zip ps cells)) (\<lambda>vs.
         Inr \<lparr>or_values = vs, or_orderKeys = []\<rparr>)) (visit arrange ss) = Inr out"
    using assms(5) by (auto simp: stream_output_def rbind_eq_Inr_iff)
  obtain gs where gs: "collect_groups fmt (q_groupBy q) rows = Inr gs"
    and rel: "list_all2 (group_rel fmt (q_groupBy q) ps (set rows)) gs ss"
    using stream_groups_rel [OF ss] by blast
  have keys: "map fst gs = map fst ss"
    using rel by (induction rule: list_all2_induct) (auto simp: group_rel_def)
  let ?is = "arrange (map fst ss)"
  have group: "output_group fmt q names (snd (gs ! i)) = Inr [r]"
    if i: "i < length ss" and r: "rbind (map_r (\<lambda>(p, cell). stream_value p cell) (zip ps (snd (ss ! i)))) (\<lambda>vs.
         Inr \<lparr>or_values = vs, or_orderKeys = []\<rparr>) = Inr r" for i r
  proof -
    have len: "length gs = length ss" using rel by (rule list_all2_lengthD)
    obtain k rs k' cs where g: "gs ! i = (k, rs)" "ss ! i = (k', cs)" by (metis prod.exhaust)
    have "group_rel fmt (q_groupBy q) ps (set rows) (k, rs) (k, cs)"
      using list_all2_nthD2 [OF rel i] g by (auto simp: group_rel_def)
    moreover have "rs \<noteq> []"
      using collected_nonempty [OF gs assms(2) nth_mem [of i gs]] g i len by simp
    moreover obtain vs where "map_r (\<lambda>(p, cell). stream_value p cell) (zip ps cs) = Inr vs"
      "r = \<lparr>or_values = vs, or_orderKeys = []\<rparr>" using r g by (auto simp: rbind_eq_Inr_iff)
    ultimately show ?thesis using group_value [OF assms(1) _ _ assms(3)] g by simp
  qed
  have "\<forall>i\<in>set ?is. i < length ss" using assms(4) [rule_format, of "map fst ss"] by auto
  then have "map_r (\<lambda>i. output_group fmt q names (snd (gs ! i))) ?is = Inr (map (\<lambda>r. [r]) out)"
    using out unfolding visit_def map_r_Inr list_all2_map1 list_all2_map2
    by (auto simp: list_all2_conv_all_nth intro!: group)
  then have "map_r (output_group fmt q names) (visit arrange gs) = Inr (map (\<lambda>r. [r]) out)"
    by (simp add: visit_def keys map_r_Inr list_all2_map1)
  then show ?thesis using gs by (simp add: grouped_output_def comp_def)
qed

text \<open>The witness: two rows of one group, one of them without a value.\<close>

definition demo_rows_of :: "val list \<Rightarrow> eval_row list" where
  "demo_rows_of vs = map (\<lambda>v. \<lparr>er_columns = Some [\<lparr>bc_table = ''t'', bc_alias = [], bc_name = ''a''\<rparr>,
     \<lparr>bc_table = ''t'', bc_alias = [], bc_name = ''b''\<rparr>], er_values = [VText ''k'', v]\<rparr>) vs"

definition demo_query :: "ast list \<Rightarrow> query" where
  "demo_query columns = \<lparr>q_distinct = False, q_columns = columns, q_fromTable = ''t'', q_fromAlias = [], q_joins = [],
     q_where = None, q_groupBy = [ColumnRef 1 1 [] ''a'' []], q_having = None, q_orderBy = [], q_limit = None, q_offset = None\<rparr>"

abbreviation demo_call :: "string \<Rightarrow> ast" where
  "demo_call name \<equiv> FunctionCall 1 1 name [ColumnRef 1 1 [] ''b'' []] False []"

definition demo_sorted :: query where
  "demo_sorted = (demo_query [ColumnRef 1 1 [] ''b'' []])\<lparr>q_groupBy := [], q_distinct := True,
     q_orderBy := [OrderItem (ColumnRef 1 1 [] ''b'' []) False], q_limit := Some (Literal 1 1 (INT_LIT 2))\<rparr>"

theorem select_plain_correct_witness:
  "answers (\<lambda>d. []) demo_sorted (demo_rows_of [VText ''x'', VText ''z'', VNull, VText ''z'']) [[VText ''z''], [VText ''x'']]"
proof -
  have "select_rows (\<lambda>d. []) (\<lambda>ks. []) new_catalog demo_sorted (demo_rows_of [VText ''x'', VText ''z'', VNull, VText ''z'']) =
    Inr \<lparr>qr_columns = [''b''], qr_rows = [[VText ''z''], [VText ''x'']], qr_rowsAffected = 0, qr_message = []\<rparr>"
    "q_groupBy demo_sorted = []" "\<not> selectHasAggregate demo_sorted" "biggest_call (q_columns demo_sorted) = None"
    by code_simp+
  from select_plain_correct [OF this] show ?thesis by simp
qed

theorem streaming_agrees_witness:
  "grouped_output (\<lambda>d. []) (\<lambda>ks. [0..<length ks]) (demo_query [ColumnRef 1 1 [] ''a'' [], demo_call ''goat''])
     [''a'', ''goat''] (demo_rows_of [VNull, VText ''y'', VText ''x'']) =
   Inr [\<lparr>or_values = [VText ''k'', VText ''y''], or_orderKeys = []\<rparr>]"
  by (rule streaming_agrees [where ps = "[\<lparr>sp_aggregate = False, sp_expression = ColumnRef 1 1 [] ''a'' [], sp_kind = SCount,
        sp_argument = None\<rparr>, \<lparr>sp_aggregate = True, sp_expression = demo_call ''goat'', sp_kind = SMax,
        sp_argument = Some (ColumnRef 1 1 [] ''b'' [])\<rparr>]"])
    (code_simp, code_simp, code_simp, simp add: lessThan_atLeast0, code_simp)

text \<open>
  Where it is not one. A column that is not grouped by shows its first value that is not null when the
  query is streamed, and the value of the first row when it is not; and a group without values has
  no lone wolves, or a null.
\<close>

lemma streaming_differs:
  "stream_output (\<lambda>d. []) (\<lambda>ks. [0..<length ks]) (demo_query [ColumnRef 1 1 [] ''b'' []])
     (the (stream_plan (demo_query [ColumnRef 1 1 [] ''b'' []]))) (demo_rows_of [VNull, VText ''x'']) =
     Inr [\<lparr>or_values = [VText ''x''], or_orderKeys = []\<rparr>] \<and>
   grouped_output (\<lambda>d. []) (\<lambda>ks. [0..<length ks]) (demo_query [ColumnRef 1 1 [] ''b'' []]) [''b''] (demo_rows_of [VNull, VText ''x'']) =
     Inr [\<lparr>or_values = [VNull], or_orderKeys = []\<rparr>]"
  by code_simp

lemma streamed_lone_wolf_differs:
  "stream_output (\<lambda>d. []) (\<lambda>ks. [0..<length ks]) (demo_query [demo_call ''LONE-WOLF''])
     (the (stream_plan (demo_query [demo_call ''LONE-WOLF'']))) (demo_rows_of [VNull]) =
     Inr [\<lparr>or_values = [VInteger 0], or_orderKeys = []\<rparr>] \<and>
   grouped_output (\<lambda>d. []) (\<lambda>ks. [0..<length ks]) (demo_query [demo_call ''LONE-WOLF'']) [''n''] (demo_rows_of [VNull]) =
     Inr [\<lparr>or_values = [VNull], or_orderKeys = []\<rparr>]"
  by code_simp

end
