(* ===== verification/Heap_Tables.thy ===== *)
theory Heap_Tables
  imports Heap_File
begin

text \<open>
  Several heap files behind one page cache, as the engine keeps its tables: the page count and
  the contents of a file are functions of the cache (\<open>pages_of\<close>, \<open>heap_rows\<close>), an operation on
  one file leaves the others alone (\<open>apart\<close>), and a file that is flushed, dropped from the cache
  and written again with the bytes it had (the engine's way to undo a statement) has its old
  contents back.
\<close>

section \<open>Files, pages and rows\<close>

definition pages_of :: "path \<Rightarrow> pool \<Rightarrow> nat" where
  "pages_of f p = length (the (files (pdisk p) f)) div PAGE_SIZE"

definition heap_at :: "path \<Rightarrow> pool \<Rightarrow> bool" where
  "heap_at f p \<longleftrightarrow> heap_ok (open_heap f) (pages_of f p) p"

definition heap_rows :: "path \<Rightarrow> pool \<Rightarrow> row_id \<Rightarrow> byte list option" where
  "heap_rows f p = heap_get (open_heap f) (pages_of f p) p"

text \<open>What a handle remembers of the page count is true.\<close>

definition handle_ok :: "heap_file \<Rightarrow> pool \<Rightarrow> bool" where
  "handle_ok h p \<longleftrightarrow> knownPageCount h = None \<or> knownPageCount h = Some (pages_of (hpath h) p)"

lemma open_heap_simps [simp]: "hpath (open_heap f) = f" "handle_ok (open_heap f) p"
  by (simp_all add: open_heap_def handle_ok_def)

lemma bounded_pages: "bounded f (n * PAGE_SIZE) n p \<Longrightarrow> pages_of f p = n"
  unfolding bounded_def pages_of_def using PAGE_SIZE_pos by (metis le_antisym nonzero_mult_div_cancel_right not_gr_zero option.sel)

lemma page_of_open: "page_of (open_heap (hpath h)) = page_of h"
  by (simp add: page_of_def fun_eq_iff)

lemma heap_ok_iff: "heap_ok h n p \<longleftrightarrow> heap_at (hpath h) p \<and> handle_ok h p \<and> n = pages_of (hpath h) p"
proof
  assume ok: "heap_ok h n p"
  then have "pages_of (hpath h) p = n" by (simp add: heap_ok_def bounded_pages)
  then show "heap_at (hpath h) p \<and> handle_ok h p \<and> n = pages_of (hpath h) p"
    using ok by (auto simp: heap_at_def heap_ok_def handle_ok_def page_of_open open_heap_def page_of_def)
next
  assume "heap_at (hpath h) p \<and> handle_ok h p \<and> n = pages_of (hpath h) p"
  then show "heap_ok h n p" by (auto simp: heap_at_def heap_ok_def handle_ok_def page_of_open open_heap_def page_of_def)
qed

lemma heap_get_rows: "heap_get h (pages_of (hpath h) p) p = heap_rows (hpath h) p"
  unfolding heap_rows_def by (rule heap_get_path) simp

lemma heap_at_pool: "heap_at f p \<Longrightarrow> pool_ok page_abs p \<and> quiet p \<and> files (pdisk p) f \<noteq> None"
  by (auto simp: heap_at_def heap_ok_def bounded_def)

section \<open>Operations on one file\<close>

definition same_heap :: "path \<Rightarrow> pool \<Rightarrow> pool \<Rightarrow> bool" where
  "same_heap g p p' \<longleftrightarrow> heap_at g p' \<and> heap_rows g p' = heap_rows g p \<and> pages_of g p' = pages_of g p"

definition apart :: "path \<Rightarrow> pool \<Rightarrow> pool \<Rightarrow> bool" where
  "apart f p p' \<longleftrightarrow> pool_ok page_abs p' \<and> quiet p' \<and> (\<forall>g. g \<noteq> f \<longrightarrow> heap_at g p \<longrightarrow> same_heap g p p')"

lemma same_heap_trans: "same_heap g p q \<Longrightarrow> same_heap g q r \<Longrightarrow> same_heap g p r"
  by (simp add: same_heap_def)

lemma apart_trans: "apart f p q \<Longrightarrow> apart f q r \<Longrightarrow> apart f p r"
  unfolding apart_def same_heap_def by metis

lemma apart_refl: "heap_at f p \<Longrightarrow> apart f p p"
  using heap_at_pool by (auto simp: apart_def same_heap_def)

lemma keeps_heap:
  assumes at: "heap_at g p" and pool: "pool_ok page_abs p'" "quiet p'"
    and bound: "\<And>l m. bounded g l m p \<Longrightarrow> bounded g l m p'"
    and views: "\<And>k. key_file k = g \<Longrightarrow> page_abs (view p' k) = page_abs (view p k)"
  shows "same_heap g p p'"
proof -
  let ?n = "pages_of g p"
  have b: "bounded g (?n * PAGE_SIZE) ?n p'" using bound at by (simp add: heap_at_def heap_ok_def)
  have n: "pages_of g p' = ?n" by (rule bounded_pages [OF b])
  have v: "page_abs (view p' (page_of (open_heap g) i)) = page_abs (view p (page_of (open_heap g) i))" for i
    by (rule views) simp
  have "heap_at g p'" using at b pool v unfolding heap_at_def n by (simp add: heap_ok_def open_heap_def)
  moreover have "heap_rows g p' = heap_rows g p" by (simp add: heap_rows_def n heap_get_page v fun_eq_iff)
  ultimately show ?thesis using n by (simp add: same_heap_def)
qed

lemma others_apart:
  assumes os: "others_same h p p'" and pool: "pool_ok page_abs p'" "quiet p'"
  shows "apart (hpath h) p p'"
  unfolding apart_def
proof (intro conjI allI impI pool)
  fix g assume "g \<noteq> hpath h" "heap_at g p"
  with os pool show "same_heap g p p'" by (intro keeps_heap) (auto simp: others_same_def)
qed

lemma heap_op_apart:
  assumes "heap_ok h' n' p'" "others_same h p p'" "hpath h' = hpath h"
  shows "heap_at (hpath h) p' \<and> handle_ok h' p' \<and> apart (hpath h) p p' \<and> heap_get h' n' p' = heap_rows (hpath h) p'"
proof -
  have ok: "heap_at (hpath h) p'" "handle_ok h' p'" "n' = pages_of (hpath h') p'"
    using assms(1,3) by (simp_all add: heap_ok_iff)
  moreover have "heap_get h' n' p' = heap_rows (hpath h) p'" using ok(3) assms(3) heap_get_rows [of h' p'] by simp
  moreover have "apart (hpath h) p p'" using others_apart [OF assms(2)] heap_at_pool [OF ok(1)] by blast
  ultimately show ?thesis using assms(3) by simp
qed

text \<open>A stored row decodes: a row that fits a page has no oversized field.\<close>

lemma encode_field_length: "storable_val v \<or> 2 ^ 32 \<le> length (encode_field v)"
  by (cases v) (auto simp: storable_val_def encode_field_def type_of_def)

lemma encoded_decodes:
  assumes enc: "encodeTuple t = Inr row" and len: "length row + 22 \<le> PAGE_SIZE"
  shows "storable t \<and> decodeTuple row = Inr t"
proof -
  have row: "row = appendPod 2 (length t) @ concat (map encode_field t)" and n: "length t \<le> 65535"
    using enc by (auto simp: encodeTuple_def split: if_splits)
  have "storable_val v" if "v \<in> set t" for v
  proof -
    have "length (encode_field v) \<le> length (concat (map encode_field t))"
      using that by (induction t) auto
    then show ?thesis using encode_field_length [of v] row len by (auto simp: PAGE_SIZE_def)
  qed
  then have "storable t" using n by (simp add: storable_def)
  then show ?thesis using decodeTuple_encoded [OF _ enc] by simp
qed

text \<open>The operations, seen as changes of the files: inserting, reading, erasing, updating.\<close>

lemma insert_into:
  assumes at: "heap_at (hpath h) p" "handle_ok h p"
  shows "(\<exists>x. insert_heap t (h, p) = (Inl x, h, p)) \<or>
    (\<exists>rid row h' p'. insert_heap t (h, p) = (Inr rid, h', p') \<and> decodeTuple row = Inr t \<and>
      length row + 22 \<le> PAGE_SIZE \<and> hpath h' = hpath h \<and> handle_ok h' p' \<and> heap_at (hpath h) p' \<and> apart (hpath h) p p' \<and>
      row_added (heap_rows (hpath h) p) rid row (heap_rows (hpath h) p'))"
proof -
  let ?n = "pages_of (hpath h) p"
  have ok: "heap_ok h ?n p" using at by (simp add: heap_ok_iff)
  have create: "create_heap (h, p) = (Inr (), h, p)"
    using heap_at_pool [OF at(1)] by (simp add: create_heap_def exists_file_def)
  show ?thesis
  proof (cases "encodeTuple t")
    case (Inl x)
    then show ?thesis using create by (simp add: insert_heap_def)
  next
    case row: (Inr row)
    show ?thesis
    proof (cases "length row + 22 \<le> PAGE_SIZE")
      case False
      then show ?thesis using create row by (simp add: insert_heap_def)
    next
      case True
      obtain rid h' n' p' where i: "insert_heap t (h, p) = (Inr rid, h', p')" "hpath h' = hpath h"
        "heap_ok h' n' p'" "others_same h p p'" "row_added (heap_get h ?n p) rid row (heap_get h' n' p')"
        using insert_heap_spec [OF ok row True] by blast
      show ?thesis
        using i(1,2,5) heap_op_apart [OF i(3,4,2)] encoded_decodes [OF row True] heap_get_rows [of h p] True
        by (intro disjI2 exI [of _ rid] exI [of _ row] exI [of _ h'] exI [of _ p']) simp
    qed
  qed
qed

lemma read_from:
  assumes at: "heap_at f p" and live: "heap_rows f p rid \<noteq> None"
  shows "\<exists>p'. read_heap rid (open_heap f, p) = ((case heap_rows f p rid of None \<Rightarrow> Inr None
       | Some b \<Rightarrow> rbind (decodeTuple b) (\<lambda>t. Inr (Some t))), open_heap f, p') \<and> same_heap f p p' \<and> apart f p p'"
proof -
  let ?h = "open_heap f"
  have ok: "heap_ok ?h (pages_of f p) p" using at by (simp add: heap_at_def)
  have i: "rid_page rid < pages_of f p" using live by (auto simp: heap_rows_def heap_get_def split: if_splits)
  obtain p' where r: "read_heap rid (?h, p) = ((case heap_get ?h (pages_of f p) p rid of None \<Rightarrow> Inr None
       | Some b \<Rightarrow> rbind (decodeTuple b) (\<lambda>t. Inr (Some t))), ?h, p')" "heap_ok ?h (pages_of f p) p'"
    "others_same ?h p p'" "heap_get ?h (pages_of f p) p' = heap_get ?h (pages_of f p) p"
    using read_heap_spec [OF ok i] by blast
  have "pages_of f p' = pages_of f p" using r(2) by (simp add: heap_ok_iff)
  moreover have "heap_get ?h (pages_of f p) p = heap_rows f p" by (simp add: heap_rows_def)
  ultimately show ?thesis using r(1,4) heap_op_apart [OF r(2,3) refl, unfolded open_heap_simps]
    by (intro exI [of _ p']) (simp only: same_heap_def)
qed

lemma erase_from:
  assumes at: "heap_at (hpath h) p" "handle_ok h p"
  shows "\<exists>h' p'. erase_heap rid (h, p) = (Inr (heap_rows (hpath h) p rid \<noteq> None), h', p') \<and> hpath h' = hpath h \<and>
    handle_ok h' p' \<and> heap_at (hpath h) p' \<and> apart (hpath h) p p' \<and>
    heap_rows (hpath h) p' = (heap_rows (hpath h) p)(rid := None)"
proof -
  let ?n = "pages_of (hpath h) p"
  have ok: "heap_ok h ?n p" using at by (simp add: heap_ok_iff)
  obtain h' p' where e: "erase_heap rid (h, p) = (Inr (heap_get h ?n p rid \<noteq> None), h', p')" "hpath h' = hpath h"
    "heap_ok h' ?n p'" "others_same h p p'" "heap_get h' ?n p' = (heap_get h ?n p)(rid := None)"
    using erase_heap_spec [OF ok] by blast
  show ?thesis using e(1,2,5) heap_op_apart [OF e(3,4,2)] heap_get_rows [of h p]
    by (intro exI [of _ h'] exI [of _ p']) simp
qed

text \<open>An update in place, by moving the row, or failing with the row possibly erased.\<close>

lemma update_into:
  assumes at: "heap_at (hpath h) p" "handle_ok h p" and old: "heap_rows (hpath h) p rid = Some old"
    and small: "length old + 22 \<le> PAGE_SIZE"
  shows "(\<exists>x h' p'. update_heap rid t (h, p) = (Inl x, h', p') \<and> heap_at (hpath h) p' \<and> apart (hpath h) p p') \<or>
    (\<exists>rid' row h' p'. update_heap rid t (h, p) = (Inr rid', h', p') \<and> decodeTuple row = Inr t \<and>
      length row + 22 \<le> PAGE_SIZE \<and>
      hpath h' = hpath h \<and> handle_ok h' p' \<and> heap_at (hpath h) p' \<and> apart (hpath h) p p' \<and>
      row_added ((heap_rows (hpath h) p)(rid := None)) rid' row (heap_rows (hpath h) p'))"
proof -
  let ?n = "pages_of (hpath h) p"
  have ok: "heap_ok h ?n p" using at by (simp add: heap_ok_iff)
  have old': "heap_get h ?n p rid = Some old" using old heap_get_rows [of h p] by simp
  show ?thesis
  proof (cases "encodeTuple t")
    case (Inl x)
    then show ?thesis using at(1) apart_refl by (simp add: update_heap_def)
  next
    case row: (Inr row)
    note u = update_heap_spec [OF ok row old', unfolded heap_get_rows [of h p]]
    consider (here) "length row \<le> length old" | (moved) "\<not> length row \<le> length old" "length row + 22 \<le> PAGE_SIZE"
      | (big) "\<not> length row \<le> length old" "\<not> length row + 22 \<le> PAGE_SIZE" by blast
    then show ?thesis
    proof cases
      case here
      then obtain h' p' where r: "update_heap rid t (h, p) = (Inr rid, h', p')" "hpath h' = hpath h" "heap_ok h' ?n p'"
        "others_same h p p'" "heap_get h' ?n p' = (heap_rows (hpath h) p)(rid \<mapsto> row)" using u by auto
      have len: "length row + 22 \<le> PAGE_SIZE" using here small by simp
      show ?thesis using r(1,2,5) heap_op_apart [OF r(3,4,2)] encoded_decodes [OF row len] len
        by (intro disjI2 exI [of _ rid] exI [of _ row] exI [of _ h'] exI [of _ p']) (simp add: row_added_def)
    next
      case moved
      then obtain rid' h' n' p' where r: "update_heap rid t (h, p) = (Inr rid', h', p')" "hpath h' = hpath h"
        "heap_ok h' n' p'" "others_same h p p'"
        "row_added ((heap_rows (hpath h) p)(rid := None)) rid' row (heap_get h' n' p')" using u by auto
      show ?thesis using r(1,2,5) heap_op_apart [OF r(3,4,2)] encoded_decodes [OF row moved(2)] moved(2)
        by (intro disjI2 exI [of _ rid'] exI [of _ row] exI [of _ h'] exI [of _ p']) simp
    next
      case big
      then obtain x h' p' where r: "update_heap rid t (h, p) = (Inl x, h', p')" "hpath h' = hpath h" "heap_ok h' ?n p'"
        "others_same h p p'" using u by auto
      show ?thesis using r(1) heap_op_apart [OF r(3,4,2)] by blast
    qed
  qed
qed

lemma scan_of:
  assumes at: "heap_at f p" and bs: "0 < bs" and dec: "\<And>rid b. heap_rows f p rid = Some b \<Longrightarrow> \<exists>t. decodeTuple b = Inr t"
  shows "\<exists>rows h' p'. scan_heap bs (open_heap f, p) = (Inr rows, h', p') \<and> same_heap f p p' \<and> apart f p p' \<and>
    distinct (map fst rows) \<and>
    (\<forall>rid t. (rid, t) \<in> set rows \<longleftrightarrow> (\<exists>b. heap_rows f p rid = Some b \<and> decodeTuple b = Inr t))"
proof -
  let ?h = "open_heap f" let ?n = "pages_of f p"
  have ok: "heap_ok ?h ?n p" using at by (simp add: heap_at_def)
  have mem: "(rid, b) \<in> set (stored ?h ?n p) \<longleftrightarrow> heap_rows f p rid = Some b" for rid b
    using set_stored [OF ok] by (simp add: heap_rows_def)
  have "\<forall>(rid, b)\<in>set (stored ?h ?n p). \<exists>t. decodeTuple b = Inr t" using dec mem by blast
  then obtain out h' p' where sc: "scan_with decodeTuple bs (?h, p) = (Inr (), out, h', p')"
    "concat out = decoded decodeTuple (stored ?h ?n p)" "hpath h' = hpath ?h" "heap_ok h' ?n p'" "others_same ?h p p'"
    "heap_get h' ?n p' = heap_get ?h ?n p"
    using scan_with_spec [OF ok bs] by blast
  let ?rows = "decoded decodeTuple (stored ?h ?n p)"
  have "scan_heap bs (?h, p) = (Inr ?rows, h', p')" using sc(1,2) bs by (simp add: scan_heap_def scanBatches_def)
  moreover have "distinct (map fst ?rows)" using distinct_stored by (simp add: decoded_def comp_def case_prod_beta)
  moreover have "(rid, t) \<in> set ?rows \<longleftrightarrow> (\<exists>b. heap_rows f p rid = Some b \<and> decodeTuple b = Inr t)" for rid t
    using dec mem by (force simp: decoded_def)
  moreover have "pages_of f p' = ?n" using sc(3,4) by (simp add: heap_ok_iff)
  moreover have "heap_rows f p' = heap_rows f p"
    using heap_op_apart [OF sc(4,5,3)] sc(6) by (simp add: heap_rows_def)
  ultimately show ?thesis using heap_op_apart [OF sc(4,5,3), unfolded open_heap_simps]
    unfolding same_heap_def by blast
qed

section \<open>Undoing changes of a file\<close>

text \<open>The pages of the file are on disk.\<close>

definition saved :: "path \<Rightarrow> pool \<Rightarrow> bool" where
  "saved f p \<longleftrightarrow> (\<forall>k. key_file k = f \<longrightarrow> page_abs (disk_bytes (pdisk p) k) = page_abs (view p k))"

definition no_frames :: "path \<Rightarrow> pool \<Rightarrow> bool" where
  "no_frames f p \<longleftrightarrow> (\<forall>k. key_file k = f \<longrightarrow> frame_of p k = None)"

definition put_file :: "path \<Rightarrow> byte list option \<Rightarrow> pool \<Rightarrow> pool" where
  "put_file f c p = p\<lparr>pdisk := (pdisk p)\<lparr>files := (files (pdisk p))(f := c)\<rparr>\<rparr>"

lemma flush_to_disk:
  assumes pool: "pool_ok page_abs p" "quiet p"
  shows "\<exists>p'. flushFile f p = (Inr (), p') \<and> pool_ok page_abs p' \<and> quiet p' \<and> saved f p' \<and>
    (\<forall>g. heap_at g p \<longrightarrow> same_heap g p p')"
proof -
  let ?ks = "filter (\<lambda>k. key_file k = f) (map fst (frames p))"
  obtain p' where fl: "flush_list ?ks p = (Inr (), p')"
    using flush_list_progress [OF pool(1), of ?ks] pool(2) by (cases "flush_list ?ks p") (auto simp: quiet_def)
  note st = flush_list_step [OF pool(1) fl]
  have p': "pool_ok page_abs p'" "quiet p'" using st pool(2) by (auto simp: pool_step_def quiet_def)
  have v: "page_abs (view p' k) = page_abs (view p k)" for k using st by (simp add: pool_step_def same_view_def)
  have "saved f p'" unfolding saved_def
  proof (intro allI impI)
    fix k :: page_key assume k: "key_file k = f"
    show "page_abs (disk_bytes (pdisk p') k) = page_abs (view p' k)"
    proof (cases "frame_of p' k")
      case None
      then show ?thesis by (simp add: view_def)
    next
      case (Some fr)
      then have "k \<in> dom (frame_of p)" using st by blast
      then have "k \<in> set ?ks" using k by (auto dest!: map_of_SomeD intro: rev_image_eqI)
      then show ?thesis using st v by simp
    qed
  qed
  moreover have "same_heap g p p'" if "heap_at g p" for g
    using that p' v bounded_flush_list [OF _ pool(1) fl] by (intro keeps_heap) auto
  ultimately show ?thesis using fl p' by (auto simp: flushFile_def)
qed

lemma flush_into:
  assumes "heap_at (hpath h) p"
  shows "\<exists>p'. flush_heap (h, p) = (Inr (), h, p') \<and> saved (hpath h) p' \<and> same_heap (hpath h) p p' \<and> apart (hpath h) p p'"
proof -
  obtain p' where "flushFile (hpath h) p = (Inr (), p')" "pool_ok page_abs p'" "quiet p'" "saved (hpath h) p'"
    "\<forall>g. heap_at g p \<longrightarrow> same_heap g p p'"
    using flush_to_disk heap_at_pool [OF assms] by blast
  then show ?thesis using assms by (simp add: flush_heap_def apart_def)
qed

lemma invalidate_list_spec:
  assumes "pool_ok page_abs p" "quiet p"
  shows "\<exists>p'. invalidate_list ks p = (Inr (), p') \<and> pool_ok page_abs p' \<and> quiet p' \<and> pdisk p' = pdisk p \<and>
    frame_of p' = (\<lambda>k. if k \<in> set ks then None else frame_of p k)"
  using assms
proof (induction ks arbitrary: p)
  case (Cons k ks)
  show ?case
  proof (cases "frame_of p k")
    case None
    then show ?thesis using Cons.IH [OF Cons.prems] by (auto simp: fun_eq_iff)
  next
    case (Some fr)
    let ?p = "drop_frame k p"
    have "pins fr = 0" using Cons.prems(2) Some by (auto simp: quiet_def pin_count_def dest: spec [of _ k])
    moreover have "pool_ok page_abs ?p" using drop_frame_ok [OF Cons.prems(1)] .
    moreover have "quiet ?p" using Cons.prems(2) by (auto simp: quiet_def pin_count_def)
    ultimately show ?thesis using Cons.IH [of ?p] Some by (auto simp: fun_eq_iff)
  qed
qed simp

lemma invalidate_file:
  assumes pool: "pool_ok page_abs p" "quiet p"
  shows "\<exists>p'. invalidateFile f p = (Inr (), p') \<and> no_frames f p' \<and> apart f p p' \<and> pdisk p' = pdisk p"
proof -
  let ?ks = "filter (\<lambda>k. key_file k = f) (map fst (frames p))"
  obtain p' where i: "invalidate_list ?ks p = (Inr (), p')" "pool_ok page_abs p'" "quiet p'" "pdisk p' = pdisk p"
    "frame_of p' = (\<lambda>k. if k \<in> set ?ks then None else frame_of p k)"
    using invalidate_list_spec [OF pool] by blast
  have fr: "frame_of p' k = (if key_file k = f then None else frame_of p k)" for k
    unfolding i(5) by (cases "frame_of p k") (auto dest: map_of_SomeD intro: rev_image_eqI)
  have "apart f p p'" unfolding apart_def
  proof (intro conjI allI impI i(2,3))
    fix g assume "g \<noteq> f" "heap_at g p"
    moreover have "view p' k = view p k" if "key_file k \<noteq> f" for k using that by (simp add: view_def fr i(4) split: option.split)
    ultimately show "same_heap g p p'" using i(2-4) fr by (intro keeps_heap) (auto simp: bounded_def)
  qed
  then show ?thesis using i(1,4) fr by (auto simp: invalidateFile_def no_frames_def)
qed

lemma disk_bytes_cong: "files d (key_file k) = files d' (key_file k) \<Longrightarrow> disk_bytes d k = disk_bytes d' k"
  by (simp add: disk_bytes_def)

lemma put_file_apart:
  assumes pool: "pool_ok page_abs p" "quiet p" "no_frames f p" and c: "c = None \<or> PAGE_SIZE dvd length (the c)"
  shows "apart f p (put_file f c p)"
proof -
  let ?p = "put_file f c p"
  have fr: "frame_of ?p = frame_of p" by (simp add: put_file_def)
  have d: "disk_bytes (pdisk ?p) k = disk_bytes (pdisk p) k" if "key_file k \<noteq> f" for k
    by (rule disk_bytes_cong) (simp add: put_file_def that)
  have "frames_ok page_abs ?p"
    unfolding frames_ok_def fr
  proof (intro allI impI)
    fix k fr' assume fk: "frame_of p k = Some fr'"
    then have "key_file k \<noteq> f" using pool(3) by (auto simp: no_frames_def)
    then show "length (fbytes fr') = PAGE_SIZE \<and> (dirty fr' \<or> page_abs (fbytes fr') = page_abs (disk_bytes (pdisk ?p) k))"
      using d pool_ok_frame [OF pool(1) fk] by simp
  qed
  moreover have "disk_ok (pdisk ?p)" using pool_ok_disk [OF pool(1)] c by (auto simp: disk_ok_def put_file_def)
  ultimately have ok: "pool_ok page_abs ?p" using pool(1) by (simp add: pool_ok_def put_file_def)
  have q: "quiet ?p" using pool(2) by (auto simp: quiet_def pin_count_def put_file_def)
  show ?thesis unfolding apart_def
  proof (intro conjI allI impI ok q)
    fix g assume "g \<noteq> f" "heap_at g p"
    then show "same_heap g p ?p" using ok q d
      by (intro keeps_heap) (auto simp: bounded_def view_def fr put_file_def split: option.splits)
  qed
qed

lemma restored_heap:
  assumes at: "heap_at f p" "saved f p" and c: "files (pdisk p) f = Some c"
    and now: "pool_ok page_abs q" "quiet q" "no_frames f q"
  shows "same_heap f p (put_file f (Some c) q) \<and> apart f q (put_file f (Some c) q)"
proof -
  let ?q = "put_file f (Some c) q" let ?n = "pages_of f p"
  have len: "length c = ?n * PAGE_SIZE" using at(1) c by (auto simp: heap_at_def heap_ok_def bounded_def)
  have ap: "apart f q ?q" using put_file_apart [OF now, of "Some c"] len by simp
  have none: "frame_of ?q k = None" if "key_file k = f" for k using now(3) that by (simp add: no_frames_def put_file_def)
  have d: "disk_bytes (pdisk ?q) k = disk_bytes (pdisk p) k" if "key_file k = f" for k
    by (rule disk_bytes_cong) (simp add: put_file_def that c)
  have b: "bounded f l m ?q" if "bounded f l m p" for l m
    using that c none by (auto simp: bounded_def put_file_def)
  have "same_heap f p ?q"
    using at ap none d b by (intro keeps_heap) (auto simp: apart_def saved_def view_def)
  then show ?thesis using ap by blast
qed

end
