(* ===== verification/Engine_Store.thy ===== *)
theory Engine_Store
  imports Engine_Select Heap_Tables Wal BPlus_Tree Catalog_Roundtrip
begin

text \<open>
  The native engine over its storage (\<open>NativeEngine\<close>, \<open>src/native_engine.h\<close> and
  \<open>src/native_engine.cpp\<close>): tables as heap files, the primary-key indexes, the constraints, and
  the statements that define and change tables.

  The files of the database directory are split: the heap files are on the disk of the page
  cache, the catalog and the log are \<open>en_meta\<close>; \<open>disk_of\<close> is all of them. A mutated engine is returned
  next to the value or the exception. Of the caches of statistics and of memory-mapped files only
  the names of the tables that are in them are kept: they are read by the fast paths alone.
  The counters of rows and scans are left out, and so is \<open>create_directories\<close>.
\<close>

section \<open>The engine\<close>

record engine =
  en_root :: path
  en_catalog :: catalog
  en_pool :: pool
  en_meta :: "path \<rightharpoonup> byte list"
  en_indexes :: "string \<rightharpoonup> bptree"
  en_statistics :: "string set"
  en_mapped :: "string set"
  en_wal :: wal_session

text \<open>The standard library's text of a double and the configured batch size of a scan.\<close>

record env =
  env_fmt :: fmt
  env_batch :: nat

type_synonym 'a eng = "engine \<Rightarrow> 'a result \<times> engine"

definition ebind :: "'a eng \<Rightarrow> ('a \<Rightarrow> 'b eng) \<Rightarrow> 'b eng" where
  "ebind m f e = (case m e of (Inl x, e') \<Rightarrow> (Inl x, e') | (Inr a, e') \<Rightarrow> f a e')"

definition give :: "'a result \<Rightarrow> 'a eng" where
  "give r e = (r, e)"

definition change :: "(engine \<Rightarrow> engine) \<Rightarrow> unit eng" where
  "change f e = (Inr (), f e)"

text \<open>\<open>try ... catch (...) { handler; throw; }\<close>: an exception of the handler replaces the first.\<close>

definition on_throw :: "'a eng \<Rightarrow> unit eng \<Rightarrow> 'a eng" where
  "on_throw m handler e = (case m e of
       (Inr a, e') \<Rightarrow> (Inr a, e')
     | (Inl x, e') \<Rightarrow> (case handler e' of (Inl y, e'') \<Rightarrow> (Inl y, e'') | (Inr _, e'') \<Rightarrow> (Inl x, e'')))"

fun each :: "('x \<Rightarrow> unit eng) \<Rightarrow> 'x list \<Rightarrow> unit eng" where
  "each f [] = give (Inr ())"
| "each f (x # xs) = ebind (f x) (\<lambda>_. each f xs)"

section \<open>Files\<close>

definition catalogPath :: "path \<Rightarrow> path" where
  "catalogPath dir = join dir ''catalog.json''"

definition meta_file :: "path \<Rightarrow> path \<Rightarrow> bool" where
  "meta_file dir f \<longleftrightarrow> f = catalogPath dir \<or> f = walPath dir"

definition disk_of :: "engine \<Rightarrow> disk" where
  "disk_of e = (let d = pdisk (en_pool e) in
     d\<lparr>files := (\<lambda>f. if meta_file (en_root e) f then en_meta e f else files d f)\<rparr>)"

definition with_disk :: "disk \<Rightarrow> engine \<Rightarrow> engine" where
  "with_disk d e = (let old = pdisk (en_pool e) in
     e\<lparr>en_pool := (en_pool e)\<lparr>pdisk := d\<lparr>files := (\<lambda>f. if meta_file (en_root e) f then files old f else files d f)\<rparr>\<rparr>,
       en_meta := (\<lambda>f. if meta_file (en_root e) f then files d f else None)\<rparr>)"

definition tablePath :: "path \<Rightarrow> string \<Rightarrow> path result" where
  "tablePath dir table =
     (if list_all (\<lambda>c. isalnum c \<or> c = CHR ''_'') table then Inr (join dir (''tables/'' @ table @ ''.heap''))
      else Inl (Runtime_Error (''Unsafe table name: '' @ table)))"

definition path_of :: "string \<Rightarrow> path eng" where
  "path_of table e = (tablePath (en_root e) table, e)"

definition on_pool :: "(pool \<Rightarrow> 'a result \<times> pool) \<Rightarrow> 'a eng" where
  "on_pool f e = (case f (en_pool e) of (r, p) \<Rightarrow> (r, e\<lparr>en_pool := p\<rparr>))"

text \<open>An operation on a table's file through a handle that is then forgotten.\<close>

definition on_heap :: "path \<Rightarrow> (heap_state \<Rightarrow> 'a result \<times> heap_state) \<Rightarrow> 'a eng" where
  "on_heap f oper = on_pool (\<lambda>p. case oper (open_heap f, p) of (r, h, p') \<Rightarrow> (r, p'))"

definition readFile :: "path \<Rightarrow> engine \<Rightarrow> byte list" where
  "readFile f e = (case files (disk_of e) f of None \<Rightarrow> [] | Some c \<Rightarrow> c)"

definition restore_table_file :: "path \<Rightarrow> byte list option \<Rightarrow> unit eng" where
  "restore_table_file f content =
     ebind (change (\<lambda>e. e\<lparr>en_mapped := {}\<rparr>)) (\<lambda>_. ebind (on_pool (invalidateFile f)) (\<lambda>_ e.
       case content of
         None \<Rightarrow> (Inr (), with_disk ((disk_of e)\<lparr>files := (files (disk_of e))(f := None)\<rparr>) e)
       | Some c \<Rightarrow>
           if writable (disk_of e) f then (Inr (), with_disk ((disk_of e)\<lparr>files := (files (disk_of e))(f \<mapsto> c)\<rparr>) e)
           else (Inl (Runtime_Error ''Failed restoring heap file''), e)))"

section \<open>The log and the catalog file\<close>

definition on_log :: "(wal_session \<times> disk \<Rightarrow> unit result \<times> wal_session \<times> disk) \<Rightarrow> unit eng" where
  "on_log f e = (case f (en_wal e, disk_of e) of (r, w, d) \<Rightarrow> (r, with_disk d (e\<lparr>en_wal := w\<rparr>)))"

definition record_before :: "path \<Rightarrow> unit eng" where
  "record_before f e = on_log (recordWalBefore (en_root e) f) e"

definition save_catalog_file :: "unit eng" where
  "save_catalog_file e = (let f = catalogPath (en_root e) in
     if writable (disk_of e) f
     then (Inr (), with_disk ((disk_of e)\<lparr>files := (files (disk_of e))(f \<mapsto> bytes_of_string (catalog_text (en_catalog e)))\<rparr>) e)
     else (Inl (Runtime_Error (''Cannot write catalog file: '' @ f)), e))"

definition saveCatalog :: "unit eng" where
  "saveCatalog e = ebind (record_before (catalogPath (en_root e))) (\<lambda>_. save_catalog_file) e"

definition flushUnlocked :: "unit eng" where
  "flushUnlocked = ebind (on_pool flushAll) (\<lambda>_. saveCatalog)"

definition reloadCatalog :: "engine \<Rightarrow> engine" where
  "reloadCatalog e = e\<lparr>en_catalog :=
     load_catalog (map_option string_of_bytes (files (disk_of e) (catalogPath (en_root e)))) new_catalog\<rparr>"

text \<open>On an exception the transaction's files are recovered and every cache of them is emptied.\<close>

definition recover_files :: "unit eng" where
  "recover_files e = (case recover (en_root e) (disk_of e) of (r, d) \<Rightarrow> (r, with_disk d e))"

definition discardWalTransaction :: "unit eng" where
  "discardWalTransaction e =
     (if walTransactionId (en_wal e) = 0 then (Inr (), e)
      else ebind (change (\<lambda>e. e\<lparr>en_wal := \<lparr>walTransactionId = 0, walLoggedFiles = {}\<rparr>\<rparr>)) (\<lambda>_.
        ebind (on_pool discardAll) (\<lambda>_.
        ebind (change (\<lambda>e. e\<lparr>en_mapped := {}\<rparr>)) (\<lambda>_.
        ebind recover_files (\<lambda>_.
        change (\<lambda>e. reloadCatalog (e\<lparr>en_indexes := (\<lambda>_. None), en_statistics := {}\<rparr>)))))) e)"

section \<open>Scans and indexes\<close>

definition table_named :: "string \<Rightarrow> table_meta eng" where
  "table_named table e = (case getTable table (en_catalog e) of
       None \<Rightarrow> (Inl (Runtime_Error (''Unknown table: '' @ table)), e)
     | Some t \<Rightarrow> (Inr t, e))"

definition scan_table_file :: "env \<Rightarrow> string \<Rightarrow> (row_id \<times> tuple) list eng" where
  "scan_table_file env table = ebind (path_of table) (\<lambda>f. on_heap f (scan_heap (env_batch env)))"

type_synonym scan_row = "row_id \<times> eval_row"

definition bind_row :: "string \<Rightarrow> string \<Rightarrow> table_meta \<Rightarrow> tuple \<Rightarrow> eval_row" where
  "bind_row table alias t vs = \<lparr>er_columns = Some (schema_of table alias t), er_values = vs\<rparr>"

definition scanTable :: "env \<Rightarrow> string \<Rightarrow> string \<Rightarrow> scan_row list eng" where
  "scanTable env table alias =
     ebind (table_named table) (\<lambda>t. ebind (scan_table_file env table) (\<lambda>rows.
       give (map_r (\<lambda>(rid, vs).
         if length vs \<noteq> length (tm_columns t) then Inl (Runtime_Error (''Tuple/schema width mismatch in '' @ table))
         else Inr (rid, bind_row table alias t vs)) rows)))"

text \<open>The position of the first column with a property.\<close>

fun position_of :: "('c \<Rightarrow> bool) \<Rightarrow> 'c list \<Rightarrow> nat option" where
  "position_of p [] = None"
| "position_of p (c # cs) = (if p c then Some 0 else map_option Suc (position_of p cs))"

definition primary_position :: "table_meta \<Rightarrow> nat option" where
  "primary_position t = position_of cm_primary_key (tm_columns t)"

text \<open>Reading a value past the end of a row would be undefined.\<close>

definition value_at :: "tuple \<Rightarrow> nat \<Rightarrow> val result" where
  "value_at t i = (if i < length t then Inr (t ! i) else Inl Undefined_Behaviour)"

definition build_index :: "nat \<Rightarrow> (row_id \<times> tuple) list \<Rightarrow> bptree result" where
  "build_index position rows =
     fold_r (\<lambda>(rid, t) index. rbind (value_at t position) (\<lambda>k. insert_tree index k rid)) rows (new_tree 32)"

definition primaryIndex :: "env \<Rightarrow> string \<Rightarrow> bptree eng" where
  "primaryIndex env table e = (case en_indexes e table of
       Some index \<Rightarrow> (Inr index, e)
     | None \<Rightarrow> ebind (table_named table) (\<lambda>t. case primary_position t of
           None \<Rightarrow> give (Inl (Runtime_Error (''Table has no primary key index: '' @ table)))
         | Some position \<Rightarrow> ebind (scan_table_file env table) (\<lambda>rows.
             ebind (give (build_index position rows)) (\<lambda>index e.
               (Inr index, e\<lparr>en_indexes := (en_indexes e)(table \<mapsto> index)\<rparr>)))) e)"

definition index_find :: "env \<Rightarrow> string \<Rightarrow> val \<Rightarrow> row_id option eng" where
  "index_find env table key = ebind (primaryIndex env table) (\<lambda>index. give (find_tree index key))"

definition index_insert :: "env \<Rightarrow> string \<Rightarrow> val \<Rightarrow> row_id \<Rightarrow> unit eng" where
  "index_insert env table key rid = ebind (primaryIndex env table) (\<lambda>index.
     ebind (give (insert_tree index key rid)) (\<lambda>index'. change (\<lambda>e. e\<lparr>en_indexes := (en_indexes e)(table \<mapsto> index')\<rparr>)))"

text \<open>An index entry without a row makes the engine build the index again; \<open>n\<close> bounds how often.\<close>

fun lookupPrimaryKey :: "env \<Rightarrow> nat \<Rightarrow> string \<Rightarrow> string \<Rightarrow> val \<Rightarrow> scan_row list option eng" where
  "lookupPrimaryKey env 0 table alias key = give (Inr None)"
| "lookupPrimaryKey env (Suc n) table alias key =
     ebind (table_named table) (\<lambda>t. ebind (index_find env table key) (\<lambda>found. case found of
         None \<Rightarrow> give (Inr (Some []))
       | Some rid \<Rightarrow> ebind (path_of table) (\<lambda>f. ebind (on_heap f (read_heap rid)) (\<lambda>stored. case stored of
             None \<Rightarrow> ebind (change (\<lambda>e. e\<lparr>en_indexes := (en_indexes e)(table := None)\<rparr>)) (\<lambda>_.
               lookupPrimaryKey env n table alias key)
           | Some vs \<Rightarrow> give (Inr (Some [(rid, bind_row table alias t vs)]))))))"

text \<open>The key a \<open>WHERE\<close> clause asks for.\<close>

definition key_literal :: "fmt \<Rightarrow> string \<Rightarrow> string \<Rightarrow> column_meta \<Rightarrow> ast \<Rightarrow> ast \<Rightarrow> val option result" where
  "key_literal fmt table alias primary columnNode valueNode = (case (columnNode, valueNode) of
       (ColumnRef _ _ qualifier column _, Literal l c v) \<Rightarrow>
         if column \<noteq> cm_name primary \<or> (qualifier \<noteq> [] \<and> qualifier \<noteq> table \<and> qualifier \<noteq> alias) then Inr None
         else rbind (coerceValue fmt primary (literalValue v)) (\<lambda>k. Inr (Some k))
     | _ \<Rightarrow> Inr None)"

fun key_predicate :: "fmt \<Rightarrow> string \<Rightarrow> string \<Rightarrow> column_meta \<Rightarrow> ast \<Rightarrow> val option result" where
  "key_predicate fmt table alias primary (BinaryOp _ _ oper left right _) =
     (if oper = ''AND'' then
        rbind (key_predicate fmt table alias primary left) (\<lambda>k. case k of
          Some v \<Rightarrow> Inr (Some v) | None \<Rightarrow> key_predicate fmt table alias primary right)
      else if oper \<noteq> ''='' then Inr None
      else rbind (key_literal fmt table alias primary left right) (\<lambda>k. case k of
          Some v \<Rightarrow> Inr (Some v) | None \<Rightarrow> key_literal fmt table alias primary right left))"
| "key_predicate fmt table alias primary _ = Inr None"

definition primaryKeyPredicate :: "fmt \<Rightarrow> 'a catalog_data_scheme \<Rightarrow> string \<Rightarrow> string \<Rightarrow> ast option \<Rightarrow> val option result" where
  "primaryKeyPredicate fmt cat table alias condition = (case (getTable table cat, condition) of
       (Some t, Some e) \<Rightarrow> (case List.find cm_primary_key (tm_columns t) of
           Some primary \<Rightarrow> key_predicate fmt table alias primary e
         | None \<Rightarrow> Inr None)
     | _ \<Rightarrow> Inr None)"

section \<open>Constraints\<close>

text \<open>Is there a row whose value at this position has a property?\<close>

fun some_value :: "nat \<Rightarrow> (val \<Rightarrow> bool) \<Rightarrow> (row_id \<times> tuple) list \<Rightarrow> bool result" where
  "some_value position p [] = Inr False"
| "some_value position p ((rid, t) # rows) =
     rbind (value_at t position) (\<lambda>v. if p v then Inr True else some_value position p rows)"

definition check_foreign_key :: "env \<Rightarrow> column_meta \<times> val \<Rightarrow> unit eng" where
  "check_foreign_key env = (\<lambda>(column, v) e.
     if cm_fk_table column = [] \<or> isNull v then (Inr (), e)
     else case getTable (cm_fk_table column) (en_catalog e) of
         None \<Rightarrow> (Inl (Runtime_Error (''Foreign key table does not exist: '' @ cm_fk_table column)), e)
       | Some foreign \<Rightarrow> (case position_of (\<lambda>m. cm_name m = cm_fk_col column) (tm_columns foreign) of
             None \<Rightarrow> (Inl (Runtime_Error (''Foreign key column does not exist: '' @ cm_fk_col column)), e)
           | Some position \<Rightarrow> ebind (scan_table_file env (tm_name foreign)) (\<lambda>rows.
               ebind (give (some_value position (\<lambda>w. value_eq w v) rows)) (\<lambda>found.
                 give (if found then Inr () else Inl (Runtime_Error (''Foreign key constraint failed on '' @ cm_name column))))) e))"

definition validateForeignKeys :: "env \<Rightarrow> table_meta \<Rightarrow> tuple \<Rightarrow> unit eng" where
  "validateForeignKeys env t vs = each (check_foreign_key env) (zip (tm_columns t) vs)"

text \<open>A column of some table that refers to the table whose row \<open>vs\<close> goes or becomes \<open>replacement\<close>.\<close>

definition check_reference :: "env \<Rightarrow> table_meta \<Rightarrow> tuple \<Rightarrow> tuple option \<Rightarrow> table_meta \<Rightarrow> nat \<times> column_meta \<Rightarrow> unit eng" where
  "check_reference env t vs replacement referencing = (\<lambda>(index, column).
     if cm_fk_table column \<noteq> tm_name t then give (Inr ())
     else case position_of (\<lambda>m. cm_name m = cm_fk_col column) (tm_columns t) of
         None \<Rightarrow> give (Inr ())
       | Some target \<Rightarrow> ebind (give (value_at vs target)) (\<lambda>v.
           ebind (case replacement of None \<Rightarrow> give (Inr False) | Some new \<Rightarrow> give (rbind (value_at new target) (\<lambda>w. Inr (value_eq v w)))) (\<lambda>kept.
             if kept then give (Inr ())
             else ebind (scan_table_file env (tm_name referencing)) (\<lambda>rows. give (
               rbind (some_value index (\<lambda>w. \<not> isNull w \<and> value_eq w v) rows) (\<lambda>found.
                 if found then Inl (Runtime_Error (''Row is referenced by '' @ tm_name referencing @ ''.'' @ cm_name column))
                 else Inr ()))))))"

definition check_references_of :: "env \<Rightarrow> table_meta \<Rightarrow> tuple \<Rightarrow> tuple option \<Rightarrow> string \<Rightarrow> unit eng" where
  "check_references_of env t vs replacement name e = (case getTable name (en_catalog e) of
       None \<Rightarrow> (Inr (), e)
     | Some referencing \<Rightarrow> each (check_reference env t vs replacement referencing) (enumerate 0 (tm_columns referencing)) e)"

definition validateNoIncomingReferences :: "env \<Rightarrow> table_meta \<Rightarrow> tuple \<Rightarrow> tuple option \<Rightarrow> unit eng" where
  "validateNoIncomingReferences env t vs replacement e =
     each (check_references_of env t vs replacement) (tableNames (en_catalog e)) e"

definition coerce_column :: "fmt \<Rightarrow> column_meta \<Rightarrow> val \<Rightarrow> val result" where
  "coerce_column fmt column v = rbind (coerceValue fmt column v) (\<lambda>w.
     if (cm_not_null column \<or> cm_primary_key column) \<and> isNull w
     then Inl (Runtime_Error (''NULL violates constraint on '' @ cm_name column)) else Inr w)"

definition coerce_tuple :: "fmt \<Rightarrow> table_meta \<Rightarrow> tuple \<Rightarrow> tuple result" where
  "coerce_tuple fmt t vs =
     (if length vs \<noteq> length (tm_columns t) then Inl (Runtime_Error ''Tuple width does not match schema'')
      else map_r (\<lambda>(column, v). coerce_column fmt column v) (zip (tm_columns t) vs))"

definition duplicate_key :: "table_meta \<Rightarrow> error" where
  "duplicate_key t = Runtime_Error (''Duplicate primary key for table '' @ tm_name t)"

text \<open>A new key is looked up in the index, a replaced one in the other rows of the table.\<close>

definition check_unique :: "env \<Rightarrow> table_meta \<Rightarrow> row_id option \<Rightarrow> nat \<times> column_meta \<times> val \<Rightarrow> unit eng" where
  "check_unique env t replacing = (\<lambda>(position, column, v).
     if \<not> cm_primary_key column then give (Inr ())
     else case replacing of
         None \<Rightarrow> ebind (index_find env (tm_name t) v) (\<lambda>found.
           give (if found = None then Inr () else Inl (duplicate_key t)))
       | Some rid \<Rightarrow> ebind (scan_table_file env (tm_name t)) (\<lambda>rows. give (
           rbind (some_value position (\<lambda>w. value_eq w v) (filter (\<lambda>r. fst r \<noteq> rid) rows)) (\<lambda>found.
             if found then Inl (duplicate_key t) else Inr ()))))"

definition validateAndCoerce :: "env \<Rightarrow> table_meta \<Rightarrow> tuple \<Rightarrow> row_id option \<Rightarrow> tuple eng" where
  "validateAndCoerce env t vs replacing =
     ebind (give (coerce_tuple (env_fmt env) t vs)) (\<lambda>ws.
       ebind (each (check_unique env t replacing) (enumerate 0 (zip (tm_columns t) ws))) (\<lambda>_.
         ebind (validateForeignKeys env t ws) (\<lambda>_. give (Inr ws))))"

section \<open>Changing a table\<close>

definition on_file :: "heap_file \<Rightarrow> (heap_state \<Rightarrow> 'a result \<times> heap_state) \<Rightarrow> ('a \<times> heap_file) eng" where
  "on_file h oper e = (case oper (h, en_pool e) of
       (Inl x, h', p) \<Rightarrow> (Inl x, e\<lparr>en_pool := p\<rparr>)
     | (Inr a, h', p) \<Rightarrow> (Inr (a, h'), e\<lparr>en_pool := p\<rparr>))"

definition forget_mapping :: "string \<Rightarrow> engine \<Rightarrow> engine" where
  "forget_mapping table e = e\<lparr>en_mapped := en_mapped e - {table}\<rparr>"

definition forget_statistics :: "string \<Rightarrow> engine \<Rightarrow> engine" where
  "forget_statistics table e = e\<lparr>en_statistics := en_statistics e - {table}\<rparr>"

definition forget_index :: "string \<Rightarrow> engine \<Rightarrow> engine" where
  "forget_index table e = e\<lparr>en_indexes := (en_indexes e)(table := None)\<rparr>"

text \<open>The values of an \<open>INSERT\<close>, in the order of the columns of the table.\<close>

fun place_values :: "fmt \<Rightarrow> table_meta \<Rightarrow> eval_row \<Rightarrow> (string \<times> ast) list \<Rightarrow> tuple \<Rightarrow> tuple result" where
  "place_values fmt t row [] vs = Inr vs"
| "place_values fmt t row ((name, e) # rest) vs =
     (case position_of (\<lambda>m. cm_name m = name) (tm_columns t) of
        None \<Rightarrow> Inl (Runtime_Error (''Unknown column: '' @ name))
      | Some position \<Rightarrow> rbind (eval fmt e row) (\<lambda>v. place_values fmt t row rest (vs[position := v])))"

definition insert_values :: "fmt \<Rightarrow> table_meta \<Rightarrow> string list \<Rightarrow> ast list \<Rightarrow> tuple result" where
  "insert_values fmt t columns es =
     (let n = length (tm_columns t)
      in if columns = [] then
           (if length es \<noteq> n then Inl (Runtime_Error ''INSERT value count does not match table schema'')
            else map_r (\<lambda>e. eval fmt e empty_row) es)
         else if length es \<noteq> length columns then Inl (Runtime_Error ''INSERT value count does not match column list'')
         else place_values fmt t empty_row (zip columns es) (replicate n VNull))"

definition insert_row :: "env \<Rightarrow> table_meta \<Rightarrow> tuple \<Rightarrow> heap_file \<Rightarrow> heap_file eng" where
  "insert_row env t vs h =
     ebind (validateAndCoerce env t vs None) (\<lambda>ws.
       ebind (on_file h (insert_heap ws)) (\<lambda>(rid, h').
         ebind (case primary_position t of
             None \<Rightarrow> give (Inr ())
           | Some position \<Rightarrow> ebind (give (value_at ws position)) (\<lambda>k. index_insert env (tm_name t) k rid)) (\<lambda>_.
           give (Inr h'))))"

fun insert_rows :: "env \<Rightarrow> insert_stmt \<Rightarrow> table_meta \<Rightarrow> ast list list \<Rightarrow> heap_file \<Rightarrow> heap_file eng" where
  "insert_rows env s t [] h = give (Inr h)"
| "insert_rows env s t (es # rest) h =
     ebind (give (insert_values (env_fmt env) t (ins_columns s) es)) (\<lambda>vs.
       ebind (insert_row env t vs h) (\<lambda>h'. insert_rows env s t rest h'))"

definition affected :: "string \<Rightarrow> nat \<Rightarrow> query_result" where
  "affected what n = no_rows\<lparr>qr_rowsAffected := n, qr_message := what @ '' '' @ string_of_nat n @ '' row(s)''\<rparr>"

definition executeInsert :: "env \<Rightarrow> insert_stmt \<Rightarrow> query_result eng" where
  "executeInsert env s = (let name = ins_table s in
     ebind (table_named name) (\<lambda>t. ebind (path_of name) (\<lambda>f. ebind (change (forget_mapping name)) (\<lambda>_.
       ebind (on_file (open_heap f) flush_heap) (\<lambda>(_, h) e.
         let before = files (disk_of e) f
         in ebind (record_before f) (\<lambda>_.
              on_throw
                (ebind (insert_rows env s t (valueRows s) h) (\<lambda>h'.
                   ebind (on_file h' flush_heap) (\<lambda>_.
                     ebind (change (forget_statistics name \<circ> forget_mapping name)) (\<lambda>_.
                       give (Inr (affected ''inserted'' (length (valueRows s))))))))
                (ebind (change (forget_index name)) (\<lambda>_.
                   ebind (on_pool (invalidateFile f)) (\<lambda>_. restore_table_file f before)))) e)))))"

text \<open>The rows of a statement are those of the table before its first change.\<close>

definition update_row :: "env \<Rightarrow> update_stmt \<Rightarrow> table_meta \<Rightarrow> scan_row \<Rightarrow> heap_file \<Rightarrow> heap_file eng" where
  "update_row env s t row h = (case row of (rid, r) \<Rightarrow>
     ebind (give (place_values (env_fmt env) t r (map (\<lambda>a. (as_column a, as_value a)) (sets s)) (er_values r))) (\<lambda>vs.
       ebind (validateAndCoerce env t vs (Some rid)) (\<lambda>ws.
         ebind (validateNoIncomingReferences env t (er_values r) (Some ws)) (\<lambda>_.
           ebind (on_file h (update_heap rid ws)) (\<lambda>(_, h'). give (Inr h'))))))"

definition delete_row :: "env \<Rightarrow> table_meta \<Rightarrow> scan_row \<Rightarrow> heap_file \<Rightarrow> (bool \<times> heap_file) eng" where
  "delete_row env t row h = (case row of (rid, r) \<Rightarrow>
     ebind (validateNoIncomingReferences env t (er_values r) None) (\<lambda>_. on_file h (erase_heap rid)))"

text \<open>The rows a condition holds on are changed one after the other and counted.\<close>

fun change_rows :: "fmt \<Rightarrow> ast option \<Rightarrow> (scan_row \<Rightarrow> heap_file \<Rightarrow> (bool \<times> heap_file) eng) \<Rightarrow> scan_row list \<Rightarrow>
    heap_file \<Rightarrow> nat \<Rightarrow> (nat \<times> heap_file) eng" where
  "change_rows fmt condition f [] h n = give (Inr (n, h))"
| "change_rows fmt condition f (row # rows) h n =
     ebind (give (satisfies fmt condition (snd row))) (\<lambda>wanted.
       if \<not> wanted then change_rows fmt condition f rows h n
       else ebind (f row h) (\<lambda>(done_one, h'). change_rows fmt condition f rows h' (if done_one then n + 1 else n)))"

definition change_table :: "env \<Rightarrow> string \<Rightarrow> string \<Rightarrow> ast option \<Rightarrow> (scan_row \<Rightarrow> heap_file \<Rightarrow> (bool \<times> heap_file) eng) \<Rightarrow> query_result eng" where
  "change_table env name what condition f =
     ebind (path_of name) (\<lambda>p. ebind (change (forget_mapping name)) (\<lambda>_.
       ebind (on_file (open_heap p) flush_heap) (\<lambda>(_, h) e.
         let before = readFile p e
         in ebind (record_before p) (\<lambda>_.
              on_throw
                (ebind (scanTable env name name) (\<lambda>rows.
                   ebind (change_rows (env_fmt env) condition f rows h 0) (\<lambda>(n, h').
                     ebind (on_file h' flush_heap) (\<lambda>_.
                       ebind (change (forget_index name \<circ> forget_statistics name \<circ> forget_mapping name)) (\<lambda>_.
                         give (Inr (affected what n)))))))
                (ebind (on_pool (invalidateFile p)) (\<lambda>_. restore_table_file p (Some before)))) e)))"

definition executeUpdate :: "env \<Rightarrow> update_stmt \<Rightarrow> query_result eng" where
  "executeUpdate env s = ebind (table_named (upd_table s)) (\<lambda>t.
     change_table env (upd_table s) ''updated'' (upd_where s) (\<lambda>row h.
       ebind (update_row env s t row h) (\<lambda>h'. give (Inr (True, h')))))"

definition executeDelete :: "env \<Rightarrow> delete_stmt \<Rightarrow> query_result eng" where
  "executeDelete env s = ebind (table_named (del_table s)) (\<lambda>t.
     change_table env (del_table s) ''deleted'' (del_where s) (delete_row env t))"

section \<open>Defining tables\<close>

definition column_type_known :: "string \<Rightarrow> bool" where
  "column_type_known type \<longleftrightarrow>
     type \<in> {''INTEGER'', ''INT'', ''REAL'', ''FLOAT'', ''DOUBLE'', ''TEXT'', ''VARCHAR'', ''STRING'', ''BLOB''}"

definition column_of :: "column_def \<Rightarrow> column_meta" where
  "column_of d = new_column\<lparr>cm_name := cd_name d, cm_type := upper (cd_type d), cm_primary_key := primary_key d,
     cm_not_null := (not_null d \<or> primary_key d), cm_fk_table := fk_table d, cm_fk_col := fk_col d\<rparr>"

definition add_column :: "'a catalog_data_scheme \<Rightarrow> column_def \<Rightarrow> column_meta list \<Rightarrow> column_meta list result" where
  "add_column cat d columns =
     (let c = column_of d
      in if \<exists>m\<in>set columns. cm_name m = cd_name d then Inl (Runtime_Error (''Duplicate column: '' @ cd_name d))
         else if \<not> column_type_known (cm_type c) then Inl (Runtime_Error (''Unsupported column type: '' @ cd_type d))
         else if cm_primary_key c \<and> (\<exists>m\<in>set columns. cm_primary_key m)
         then Inl (Runtime_Error ''Only one primary key column is supported'')
         else if cm_fk_table c = [] then Inr (columns @ [c])
         else case getTable (cm_fk_table c) cat of
             None \<Rightarrow> Inl (Runtime_Error (''Foreign key table does not exist: '' @ cm_fk_table c))
           | Some foreign \<Rightarrow>
               if \<exists>m\<in>set (tm_columns foreign). cm_name m = cm_fk_col c then Inr (columns @ [c])
               else Inl (Runtime_Error (''Foreign key column does not exist: '' @ cm_fk_col c)))"

definition in_catalog :: "(catalog \<Rightarrow> catalog) \<Rightarrow> unit eng" where
  "in_catalog f = change (\<lambda>e. e\<lparr>en_catalog := f (en_catalog e)\<rparr>)"

definition executeCreate :: "env \<Rightarrow> create_stmt \<Rightarrow> query_result eng" where
  "executeCreate env s e = (let name = crt_table s in
     if hasTable name (en_catalog e) then
       (if ifNotExists s then (Inr no_rows, e) else (Inl (Runtime_Error (''Table already exists: '' @ name)), e))
     else ebind (give (fold_r (add_column (en_catalog e)) (crt_columns s) [])) (\<lambda>columns.
       ebind (path_of name) (\<lambda>f. ebind (record_before f) (\<lambda>_. ebind (on_heap f create_heap) (\<lambda>_.
         on_throw
           (ebind (in_catalog (addTable \<lparr>tm_name = name, tm_columns = columns\<rparr>)) (\<lambda>_. ebind saveCatalog (\<lambda>_.
              ebind (change (forget_index name \<circ> forget_statistics name \<circ> forget_mapping name)) (\<lambda>_.
                give (Inr (no_rows\<lparr>qr_message := ''created table '' @ name\<rparr>))))))
           (ebind (on_heap f drop_heap) (\<lambda>_. in_catalog (removeTable name))))))) e)"

definition references_table :: "string \<Rightarrow> 'a catalog_data_scheme \<Rightarrow> string \<Rightarrow> bool" where
  "references_table name cat other = (case getTable other cat of
       None \<Rightarrow> False
     | Some t \<Rightarrow> tm_name t \<noteq> name \<and> (\<exists>m\<in>set (tm_columns t). cm_fk_table m = name))"

definition executeDrop :: "drop_stmt \<Rightarrow> query_result eng" where
  "executeDrop s e = (let name = drp_table s in
     case getTable name (en_catalog e) of
       None \<Rightarrow> if ifExists s then (Inr no_rows, e) else (Inl (Runtime_Error (''Unknown table: '' @ name)), e)
     | Some backup \<Rightarrow>
         if \<exists>other\<in>set (tableNames (en_catalog e)). references_table name (en_catalog e) other
         then (Inl (Runtime_Error (''Cannot drop referenced table '' @ name)), e)
         else ebind (path_of name) (\<lambda>f. ebind (on_pool (flushFile f)) (\<lambda>_ e.
           let content = files (disk_of e) f
           in ebind (record_before f) (\<lambda>_.
                on_throw
                  (ebind (change (forget_mapping name)) (\<lambda>_. ebind (on_heap f drop_heap) (\<lambda>_.
                     ebind (change (forget_index name \<circ> forget_statistics name)) (\<lambda>_.
                       ebind (in_catalog (removeTable name)) (\<lambda>_. ebind saveCatalog (\<lambda>_.
                         give (Inr (no_rows\<lparr>qr_message := ''dropped table '' @ name\<rparr>))))))))
                  (ebind (in_catalog (addTable backup)) (\<lambda>_. ebind (restore_table_file f content) (\<lambda>_. saveCatalog)))) e)) e)"

end
