(* ===== verification/Engine_Db.thy ===== *)
theory Engine_Db
  imports Engine_Store
begin

text \<open>
  The database an engine holds. Its abstraction gives every table a finite map from row ids to
  tuples (\<open>table_rows\<close>); \<open>db_ok\<close> is the invariant: the heap files are well formed, every stored
  row decodes and fits the columns of its table, primary keys are unique (and not of type
  \<open>REAL\<close>, where \<open>NaN\<close> has no place in an index), and an index in memory holds exactly the keys of
  its table. It includes that every file can be opened for writing (\<open>quiet\<close>), so errors of the
  operating system are outside what is shown of the statements.

  Programs of the engine are reasoned about with \<open>runs m e Q E\<close>: from \<open>e\<close>, \<open>m\<close> returns a value
  and a state in \<open>Q\<close> or throws in a state in \<open>E\<close>. The facts \<open>runs_simps\<close> compute it through the
  program; each operation then has one lemma. \<open>keeps\<close> relates the states before and after an
  operation that only reads (it may still load pages and build an index).
\<close>

section \<open>Running programs\<close>

named_theorems runs_simps

definition runs :: "'a eng \<Rightarrow> engine \<Rightarrow> ('a \<Rightarrow> engine \<Rightarrow> bool) \<Rightarrow> (engine \<Rightarrow> bool) \<Rightarrow> bool" where
  "runs m e Q E \<longleftrightarrow> (case m e of (Inr a, e') \<Rightarrow> Q a e' | (Inl x, e') \<Rightarrow> E e')"

lemma runs_bind [runs_simps]: "runs (ebind m f) e Q E \<longleftrightarrow> runs m e (\<lambda>a e'. runs (f a) e' Q E) E"
  by (auto simp: runs_def ebind_def split: prod.splits sum.splits)

lemma runs_give [runs_simps]: "runs (give r) e Q E \<longleftrightarrow> (case r of Inr a \<Rightarrow> Q a e | Inl x \<Rightarrow> E e)"
  by (auto simp: runs_def give_def split: sum.splits)

lemma runs_change [runs_simps]: "runs (change f) e Q E \<longleftrightarrow> Q () (f e)"
  by (simp add: runs_def change_def)

lemma runs_throw [runs_simps]:
  "runs (on_throw m handler) e Q E \<longleftrightarrow> runs m e Q (\<lambda>e'. runs handler e' (\<lambda>_. E) E)"
  by (auto simp: runs_def on_throw_def split: prod.splits sum.splits)

lemma runs_result: "m e = (Inr a, e') \<Longrightarrow> runs m e Q E \<longleftrightarrow> Q a e'"
  by (simp add: runs_def)

lemma runs_error: "m e = (Inl x, e') \<Longrightarrow> runs m e Q E \<longleftrightarrow> E e'"
  by (simp add: runs_def)

lemma runs_weaken:
  assumes "runs m e Q E" "\<And>a e'. Q a e' \<Longrightarrow> Q' a e'" "\<And>e'. E e' \<Longrightarrow> E' e'"
  shows "runs m e Q' E'"
  using assms by (auto simp: runs_def split: prod.splits sum.splits)

lemma runs_conj:
  assumes "runs m e Q E" "runs m e Q' E'"
  shows "runs m e (\<lambda>a e'. Q a e' \<and> Q' a e') (\<lambda>e'. E e' \<and> E' e')"
  using assms by (auto simp: runs_def split: prod.splits sum.splits)

section \<open>Tables\<close>

definition safe_name :: "string \<Rightarrow> bool" where
  "safe_name name \<longleftrightarrow> list_all (\<lambda>c. isalnum c \<or> c = CHR ''_'') name"

definition table_file :: "engine \<Rightarrow> string \<Rightarrow> path" where
  "table_file e name = join (en_root e) (''tables/'' @ name @ ''.heap'')"

lemma table_file_inj: "table_file e a = table_file e b \<longleftrightarrow> a = b"
  by (simp add: table_file_def join_def)

lemma table_file_root: "en_root e' = en_root e \<Longrightarrow> table_file e' = table_file e"
  by (simp add: table_file_def fun_eq_iff)

lemma table_file_simps [simp]:
  "table_file (e\<lparr>en_pool := p\<rparr>) = table_file e" "table_file (e\<lparr>en_indexes := i\<rparr>) = table_file e"
  "table_file (e\<lparr>en_mapped := m\<rparr>) = table_file e" "table_file (e\<lparr>en_statistics := s\<rparr>) = table_file e"
  "table_file (e\<lparr>en_wal := w\<rparr>) = table_file e" "table_file (e\<lparr>en_meta := d\<rparr>) = table_file e"
  by (simp_all add: table_file_def fun_eq_iff)

lemma not_meta: "\<not> meta_file (en_root e) (table_file e name)"
  by (simp add: meta_file_def catalogPath_def walPath_def table_file_def join_def)

lemma path_of_safe: "safe_name name \<Longrightarrow> path_of name e = (Inr (table_file e name), e)"
  by (simp add: path_of_def tablePath_def safe_name_def table_file_def)

definition column_kind :: "column_meta \<Rightarrow> value_type" where
  "column_kind c = (let type = upper (cm_type c) in
     if type = ''INTEGER'' \<or> type = ''INT'' then TInteger
     else if type = ''REAL'' \<or> type = ''FLOAT'' \<or> type = ''DOUBLE'' then TReal
     else if type = ''TEXT'' \<or> type = ''VARCHAR'' \<or> type = ''STRING'' then TText
     else TBlob)"

text \<open>A value of the column's type, or a null the column allows.\<close>

definition fits :: "column_meta \<Rightarrow> val \<Rightarrow> bool" where
  "fits c v \<longleftrightarrow> (if isNull v then \<not> cm_not_null c \<and> \<not> cm_primary_key c else type_of v = column_kind c)"

definition row_fits :: "table_meta \<Rightarrow> tuple \<Rightarrow> bool" where
  "row_fits t vs \<longleftrightarrow> list_all2 fits (tm_columns t) vs"

text \<open>
  Keys of type \<open>REAL\<close> are left out of the invariant: a key that is not a number would not be
  ordered.
\<close>

definition schema_ok :: "table_meta \<Rightarrow> bool" where
  "schema_ok t \<longleftrightarrow> (\<forall>c\<in>set (tm_columns t). cm_primary_key c \<longrightarrow> column_kind c \<noteq> TReal)"

definition table_rows :: "engine \<Rightarrow> string \<Rightarrow> row_id \<Rightarrow> tuple option" where
  "table_rows e name rid = (case heap_rows (table_file e name) (en_pool e) rid of
       None \<Rightarrow> None
     | Some b \<Rightarrow> (case decodeTuple b of Inl _ \<Rightarrow> None | Inr vs \<Rightarrow> Some vs))"

definition stored_ok :: "engine \<Rightarrow> table_meta \<Rightarrow> bool" where
  "stored_ok e t \<longleftrightarrow> safe_name (tm_name t) \<and> heap_at (table_file e (tm_name t)) (en_pool e) \<and>
     (\<forall>rid b. heap_rows (table_file e (tm_name t)) (en_pool e) rid = Some b \<longrightarrow>
        length b + 22 \<le> PAGE_SIZE \<and> (\<exists>vs. decodeTuple b = Inr vs \<and> row_fits t vs))"

definition keys_distinct :: "table_meta \<Rightarrow> (row_id \<Rightarrow> tuple option) \<Rightarrow> bool" where
  "keys_distinct t T \<longleftrightarrow> (\<forall>k. primary_position t = Some k \<longrightarrow>
     (\<forall>rid rid' vs vs'. T rid = Some vs \<longrightarrow> T rid' = Some vs' \<longrightarrow> value_eq (vs ! k) (vs' ! k) \<longrightarrow> rid = rid'))"

definition key_entries :: "nat \<Rightarrow> (row_id \<Rightarrow> tuple option) \<Rightarrow> (val \<times> row_id) set" where
  "key_entries k T = {(vs ! k, rid) | rid vs. T rid = Some vs}"

definition index_ok :: "table_meta \<Rightarrow> (row_id \<Rightarrow> tuple option) \<Rightarrow> bptree \<Rightarrow> bool" where
  "index_ok t T index \<longleftrightarrow>
     (\<exists>k. primary_position t = Some k \<and> tree_ok index \<and> set (entries (root index)) = key_entries k T)"

definition table_sound :: "engine \<Rightarrow> table_meta \<Rightarrow> bool" where
  "table_sound e t \<longleftrightarrow> schema_ok t \<and> stored_ok e t \<and> keys_distinct t (table_rows e (tm_name t)) \<and>
     (\<forall>index. en_indexes e (tm_name t) = Some index \<longrightarrow> index_ok t (table_rows e (tm_name t)) index)"

definition in_db :: "engine \<Rightarrow> table_meta \<Rightarrow> bool" where
  "in_db e t \<longleftrightarrow> getTable (tm_name t) (en_catalog e) = Some t"

definition db_ok :: "engine \<Rightarrow> bool" where
  "db_ok e \<longleftrightarrow> pool_ok page_abs (en_pool e) \<and> quiet (en_pool e) \<and>
     (\<forall>name t. getTable name (en_catalog e) = Some t \<longrightarrow> tm_name t = name \<and> table_sound e t)"

text \<open>What is kept next to the files does not change the rows.\<close>

lemma beside_files [simp]:
  "table_rows (e\<lparr>en_indexes := i\<rparr>) = table_rows e" "table_rows (e\<lparr>en_mapped := m\<rparr>) = table_rows e"
  "table_rows (e\<lparr>en_statistics := s\<rparr>) = table_rows e" "table_rows (e\<lparr>en_wal := w\<rparr>) = table_rows e"
  "table_rows (e\<lparr>en_meta := d\<rparr>) = table_rows e"
  "stored_ok (e\<lparr>en_indexes := i\<rparr>) = stored_ok e" "stored_ok (e\<lparr>en_mapped := m\<rparr>) = stored_ok e"
  "stored_ok (e\<lparr>en_statistics := s\<rparr>) = stored_ok e" "stored_ok (e\<lparr>en_wal := w\<rparr>) = stored_ok e"
  "stored_ok (e\<lparr>en_meta := d\<rparr>) = stored_ok e"
  by (simp_all add: table_rows_def stored_ok_def fun_eq_iff)

section \<open>Reading\<close>

definition keeps :: "engine \<Rightarrow> engine \<Rightarrow> bool" where
  "keeps e e' \<longleftrightarrow> en_root e' = en_root e \<and> en_catalog e' = en_catalog e \<and>
     pool_ok page_abs (en_pool e') \<and> quiet (en_pool e') \<and>
     (\<forall>f. heap_at f (en_pool e) \<longrightarrow> same_heap f (en_pool e) (en_pool e')) \<and>
     (\<forall>n. en_indexes e n \<noteq> None \<longrightarrow> en_indexes e' n = en_indexes e n) \<and>
     (\<forall>t. in_db e t \<longrightarrow> table_sound e t \<longrightarrow> table_sound e' t)"

text \<open>Most operations do not even build an index.\<close>

definition only_reads :: "engine \<Rightarrow> engine \<Rightarrow> bool" where
  "only_reads e e' \<longleftrightarrow> keeps e e' \<and> en_indexes e' = en_indexes e"

lemma keeps_trans: "keeps a b \<Longrightarrow> keeps b c \<Longrightarrow> keeps a c"
  unfolding keeps_def in_db_def by (metis same_heap_def same_heap_trans)

lemma only_reads_trans: "only_reads a b \<Longrightarrow> only_reads b c \<Longrightarrow> only_reads a c"
  using keeps_trans by (auto simp: only_reads_def)

lemma keeps_rows:
  assumes "keeps e e'" "stored_ok e t"
  shows "stored_ok e' t" "table_rows e' (tm_name t) = table_rows e (tm_name t)"
    "same_heap (table_file e (tm_name t)) (en_pool e) (en_pool e')"
proof -
  have tf: "table_file e' = table_file e" by (rule table_file_root) (use assms(1) in \<open>simp add: keeps_def\<close>)
  have sh: "same_heap (table_file e (tm_name t)) (en_pool e) (en_pool e')"
    using assms unfolding keeps_def stored_ok_def by blast
  then have hr: "heap_rows (table_file e (tm_name t)) (en_pool e') = heap_rows (table_file e (tm_name t)) (en_pool e)"
    "heap_at (table_file e (tm_name t)) (en_pool e')" by (simp_all add: same_heap_def)
  show "stored_ok e' t" using assms(2) unfolding stored_ok_def tf hr(1) using hr(2) by blast
  show "table_rows e' (tm_name t) = table_rows e (tm_name t)" by (simp add: table_rows_def tf hr(1) fun_eq_iff)
  show "same_heap (table_file e (tm_name t)) (en_pool e) (en_pool e')" by (rule sh)
qed

lemma same_heap_refl: "heap_at f p \<Longrightarrow> same_heap f p p"
  by (simp add: same_heap_def)

lemma keeps_pool:
  assumes e': "e' = e\<lparr>en_pool := p\<rparr>" and p: "pool_ok page_abs p" "quiet p"
    and same: "\<And>f. heap_at f (en_pool e) \<Longrightarrow> same_heap f (en_pool e) p"
  shows "keeps e e'"
proof -
  have "table_sound e' t" if ok: "table_sound e t" for t
  proof -
    have sh: "same_heap (table_file e (tm_name t)) (en_pool e) p"
      using ok same by (simp add: table_sound_def stored_ok_def)
    then have "table_rows e' (tm_name t) = table_rows e (tm_name t)"
      by (simp add: table_rows_def fun_eq_iff e' same_heap_def)
    moreover have "stored_ok e' t" using ok sh by (simp add: table_sound_def stored_ok_def same_heap_def e')
    ultimately show ?thesis using ok by (simp add: table_sound_def e')
  qed
  then show ?thesis using p same by (simp add: keeps_def e')
qed

lemma keeps_refl: "pool_ok page_abs (en_pool e) \<Longrightarrow> quiet (en_pool e) \<Longrightarrow> keeps e e"
  by (simp add: keeps_def same_heap_refl)

lemma stored_pool: "stored_ok e t \<Longrightarrow> pool_ok page_abs (en_pool e) \<and> quiet (en_pool e)"
  using heap_at_pool by (auto simp: stored_ok_def)

lemma stored_refl: "stored_ok e t \<Longrightarrow> keeps e e"
  using stored_pool keeps_refl by blast

lemma sound_refl: "table_sound e t \<Longrightarrow> keeps e e"
  using stored_refl by (auto simp: table_sound_def)

lemma stored_rows:
  "stored_ok e t \<Longrightarrow> table_rows e (tm_name t) rid = Some vs \<longleftrightarrow>
     (\<exists>b. heap_rows (table_file e (tm_name t)) (en_pool e) rid = Some b \<and> decodeTuple b = Inr vs)"
  by (auto simp: table_rows_def stored_ok_def split: option.splits sum.splits)

lemma stored_fits: "stored_ok e t \<Longrightarrow> table_rows e (tm_name t) rid = Some vs \<Longrightarrow> row_fits t vs"
  using stored_rows by (fastforce simp: stored_ok_def)

lemma row_fits_length: "row_fits t vs \<Longrightarrow> length vs = length (tm_columns t)"
  by (simp add: row_fits_def list_all2_lengthD)

text \<open>The rows a scan returns are those of the table.\<close>

definition rows_of_map :: "(row_id \<times> tuple) list \<Rightarrow> (row_id \<Rightarrow> tuple option) \<Rightarrow> bool" where
  "rows_of_map rows T \<longleftrightarrow> distinct (map fst rows) \<and> (\<forall>rid vs. (rid, vs) \<in> set rows \<longleftrightarrow> T rid = Some vs)"

lemma runs_on_pool:
  "f (en_pool e) = (Inr a, p) \<Longrightarrow> runs (on_pool f) e Q E \<longleftrightarrow> Q a (e\<lparr>en_pool := p\<rparr>)"
  by (simp add: runs_def on_pool_def)

lemma runs_scan:
  assumes ok: "stored_ok e t" and batch: "0 < env_batch env"
  shows "runs (scan_table_file env (tm_name t)) e
    (\<lambda>rows e'. keeps e e' \<and> en_indexes e' = en_indexes e \<and> rows_of_map rows (table_rows e (tm_name t))) (\<lambda>_. False)"
proof -
  let ?f = "table_file e (tm_name t)" let ?p = "en_pool e"
  have at: "heap_at ?f ?p" and safe: "safe_name (tm_name t)" using ok by (simp_all add: stored_ok_def)
  have dec: "\<exists>t. decodeTuple b = Inr t" if "heap_rows ?f ?p rid = Some b" for rid b
    using ok that by (fastforce simp: stored_ok_def)
  have "\<exists>rows h' p'. scan_heap (env_batch env) (open_heap ?f, ?p) = (Inr rows, h', p') \<and>
    same_heap ?f ?p p' \<and> apart ?f ?p p' \<and> distinct (map fst rows) \<and>
    (\<forall>rid t. (rid, t) \<in> set rows \<longleftrightarrow> (\<exists>b. heap_rows ?f ?p rid = Some b \<and> decodeTuple b = Inr t))"
    by (rule scan_of [OF at batch]) (rule dec)
  then obtain rows h' p' where sc: "scan_heap (env_batch env) (open_heap ?f, ?p) = (Inr rows, h', p')"
    "same_heap ?f ?p p'" "apart ?f ?p p'" "distinct (map fst rows)"
    "\<forall>rid t. (rid, t) \<in> set rows \<longleftrightarrow> (\<exists>b. heap_rows ?f ?p rid = Some b \<and> decodeTuple b = Inr t)"
    by blast
  have all: "same_heap g ?p p'" if "heap_at g ?p" for g
    using sc(2,3) that by (cases "g = ?f") (auto simp: apart_def)
  have "keeps e (e\<lparr>en_pool := p'\<rparr>)" using sc(3) by (intro keeps_pool [OF refl]) (auto simp: apart_def all)
  moreover have "rows_of_map rows (table_rows e (tm_name t))"
    using sc(4,5) by (simp add: rows_of_map_def stored_rows [OF ok])
  ultimately show ?thesis using sc(1)
    by (simp add: scan_table_file_def runs_bind runs_result [of "path_of (tm_name t)", OF path_of_safe [OF safe]]
        on_heap_def runs_on_pool)
qed

section \<open>Primary keys and indexes\<close>

lemma position_of_Some: "position_of p xs = Some k \<Longrightarrow> k < length xs \<and> p (xs ! k)"
  by (induction xs arbitrary: k) (auto split: if_splits)

lemma position_of_None: "position_of p xs = None \<longleftrightarrow> (\<forall>x\<in>set xs. \<not> p x)"
  by (induction xs) auto

lemma key_fits:
  assumes "schema_ok t" "row_fits t vs" "primary_position t = Some k"
  shows "k < length vs \<and> orderable (vs ! k) \<and> \<not> isNull (vs ! k)"
proof -
  have k: "k < length (tm_columns t)" "cm_primary_key (tm_columns t ! k)"
    using position_of_Some assms(3) by (auto simp: primary_position_def)
  then have f: "fits (tm_columns t ! k) (vs ! k)" "k < length vs"
    using assms(2) by (auto simp: row_fits_def list_all2_conv_all_nth)
  have "column_kind (tm_columns t ! k) \<noteq> TReal" using assms(1) k by (simp add: schema_ok_def)
  moreover have "column_kind (tm_columns t ! k) \<noteq> TBoolean" by (simp add: column_kind_def Let_def)
  ultimately have "orderable (vs ! k) \<and> \<not> isNull (vs ! k)"
    using f(1) k(2) by (cases "vs ! k") (auto simp: fits_def orderable_def type_of_def isNull_def split: if_splits)
  then show ?thesis using f(2) by simp
qed

lemma build_index_load:
  assumes "\<forall>(rid, vs)\<in>set rows. k < length vs"
  shows "fold_r (\<lambda>(rid, vs) index. rbind (value_at vs k) (\<lambda>key. insert_tree index key rid)) rows tree =
    load_all insert_tree (map (\<lambda>(rid, vs). (vs ! k, rid)) rows) tree"
  using assms
proof (induction rows arbitrary: tree)
  case (Cons r rows)
  obtain rid vs where r: "r = (rid, vs)" by (cases r)
  have "fold_r (\<lambda>(rid, vs) index. rbind (value_at vs k) (\<lambda>key. insert_tree index key rid)) rows tree' =
    load_all insert_tree (map (\<lambda>(rid, vs). (vs ! k, rid)) rows) tree'" for tree'
    using Cons by auto
  then have "fold_r (\<lambda>(rid, vs) index. rbind (value_at vs k) (\<lambda>key. insert_tree index key rid)) rows =
    load_all insert_tree (map (\<lambda>(rid, vs). (vs ! k, rid)) rows)" by blast
  moreover have "value_at vs k = Inr (vs ! k)" using Cons.prems by (simp add: r value_at_def)
  ultimately show ?case by (simp add: r)
qed simp

lemma build_index_ok:
  assumes ok: "table_sound e t" and k: "primary_position t = Some k"
    and rows: "rows_of_map rows (table_rows e (tm_name t))"
  shows "\<exists>index. build_index k rows = Inr index \<and> index_ok t (table_rows e (tm_name t)) index"
proof -
  let ?T = "table_rows e (tm_name t)"
  let ?es = "map (\<lambda>(rid, vs). (vs ! k, rid)) rows"
  have mem: "?T rid = Some vs" if "(rid, vs) \<in> set rows" for rid vs using rows that by (simp add: rows_of_map_def)
  have key: "k < length vs \<and> orderable (vs ! k)" if "?T rid = Some vs" for rid vs
    using key_fits stored_fits that ok k unfolding table_sound_def by blast
  have "distinct (map (vkey \<circ> fst) ?es)"
  proof -
    have "vkey (vs ! k) = vkey (vs' ! k) \<Longrightarrow> rid = rid' \<and> vs = vs'"
      if "(rid, vs) \<in> set rows" "(rid', vs') \<in> set rows" for rid vs rid' vs'
      using mem [OF that(1)] mem [OF that(2)] key value_eq_vkey ok k
      unfolding table_sound_def keys_distinct_def by (metis option.inject)
    then have "inj_on ((vkey \<circ> fst) \<circ> (\<lambda>(rid, vs). (vs ! k, rid))) (set rows)" by (auto simp: inj_on_def)
    then show ?thesis using rows by (simp add: distinct_map rows_of_map_def)
  qed
  then obtain index where i: "load_all insert_tree ?es (new_tree 32) = Inr index" "tree_ok index"
    "mset (entries (root index)) = mset ?es"
    using btree.load_all_contents [OF new_tree_ok(1), of ?es 32] key mem by (fastforce simp: new_tree_ok)
  have "build_index k rows = Inr index"
    unfolding build_index_def using build_index_load [of rows k "new_tree 32"] i(1) key mem by auto
  moreover have "set (entries (root index)) = set ?es" using i(3) by (metis set_mset_mset)
  moreover have "set ?es = key_entries k ?T" using rows by (force simp: key_entries_def rows_of_map_def image_def)
  ultimately show ?thesis using i(2) k by (auto simp: index_ok_def)
qed

lemma keeps_index:
  assumes "pool_ok page_abs (en_pool e)" "quiet (en_pool e)" "in_db e t" "index_ok t (table_rows e (tm_name t)) index"
    "en_indexes e (tm_name t) = None"
  shows "keeps e (e\<lparr>en_indexes := (en_indexes e)(tm_name t \<mapsto> index)\<rparr>)"
proof -
  let ?e = "e\<lparr>en_indexes := (en_indexes e)(tm_name t \<mapsto> index)\<rparr>"
  have "table_sound ?e t'" if "in_db e t'" "table_sound e t'" for t'
  proof (cases "tm_name t' = tm_name t")
    case True
    then have "t' = t" using that(1) assms(3) by (simp add: in_db_def)
    then show ?thesis using that(2) assms(4) by (simp add: table_sound_def)
  next
    case False
    then show ?thesis using that(2) by (simp add: table_sound_def)
  qed
  then show ?thesis using assms(1,2,5) by (simp add: keeps_def same_heap_refl)
qed

lemma runs_index:
  assumes ok: "table_sound e t" and db: "in_db e t" and batch: "0 < env_batch env" and k: "primary_position t = Some k"
  shows "runs (primaryIndex env (tm_name t)) e
    (\<lambda>index e'. keeps e e' \<and> en_indexes e' (tm_name t) = Some index \<and> index_ok t (table_rows e (tm_name t)) index) (\<lambda>_. False)"
proof (cases "en_indexes e (tm_name t)")
  case (Some index)
  then show ?thesis using ok stored_refl
    by (auto simp: runs_def primaryIndex_def table_sound_def)
next
  case None
  have st: "stored_ok e t" using ok by (simp add: table_sound_def)
  have table: "table_named (tm_name t) e = (Inr t, e)" using db by (simp add: table_named_def in_db_def)
  have step: "runs (give (build_index k rows)) e'
      (\<lambda>index e'. keeps e (e'\<lparr>en_indexes := (en_indexes e')(tm_name t \<mapsto> index)\<rparr>) \<and>
        index_ok t (table_rows e (tm_name t)) index) (\<lambda>_. False)"
    if a: "keeps e e' \<and> en_indexes e' = en_indexes e \<and> rows_of_map rows (table_rows e (tm_name t))" for rows e'
  proof -
    obtain index where i: "build_index k rows = Inr index" "index_ok t (table_rows e (tm_name t)) index"
      using build_index_ok [OF ok k] a by blast
    have "table_rows e' (tm_name t) = table_rows e (tm_name t)" by (rule keeps_rows [OF _ st]) (use a in simp)
    then have "keeps e' (e'\<lparr>en_indexes := (en_indexes e')(tm_name t \<mapsto> index)\<rparr>)"
      using a i(2) None db by (intro keeps_index) (auto simp: keeps_def in_db_def)
    then show ?thesis using i a keeps_trans by (auto simp: runs_give)
  qed
  have "runs (ebind (scan_table_file env (tm_name t)) (\<lambda>rows. ebind (give (build_index k rows)) (\<lambda>index e.
       (Inr index, e\<lparr>en_indexes := (en_indexes e)(tm_name t \<mapsto> index)\<rparr>)))) e
     (\<lambda>index e'. keeps e e' \<and> en_indexes e' (tm_name t) = Some index \<and> index_ok t (table_rows e (tm_name t)) index) (\<lambda>_. False)"
    unfolding runs_bind
  proof (rule runs_weaken [OF runs_scan [OF st batch]])
    fix rows e'
    assume "keeps e e' \<and> en_indexes e' = en_indexes e \<and> rows_of_map rows (table_rows e (tm_name t))"
    from step [OF this] show "runs (give (build_index k rows)) e' (\<lambda>index e'. runs (\<lambda>e.
       (Inr index, e\<lparr>en_indexes := (en_indexes e)(tm_name t \<mapsto> index)\<rparr>)) e'
       (\<lambda>index e'. keeps e e' \<and> en_indexes e' (tm_name t) = Some index \<and> index_ok t (table_rows e (tm_name t)) index) (\<lambda>_. False)) (\<lambda>_. False)"
      by (rule runs_weaken) (simp_all add: runs_def)
  qed simp
  then show ?thesis using None k table by (simp add: runs_def primaryIndex_def ebind_def)
qed

definition key_free :: "nat \<Rightarrow> (row_id \<Rightarrow> tuple option) \<Rightarrow> val \<Rightarrow> bool" where
  "key_free k T key \<longleftrightarrow> (\<forall>rid vs. T rid = Some vs \<longrightarrow> \<not> value_eq (vs ! k) key)"

lemma index_lookup:
  assumes index: "index_ok t T index" and k: "primary_position t = Some k" and key: "orderable key"
    and rows: "\<And>rid vs. T rid = Some vs \<Longrightarrow> orderable (vs ! k)"
  shows "\<exists>found. find_tree index key = Inr found \<and> (case found of
      None \<Rightarrow> key_free k T key
    | Some rid \<Rightarrow> \<exists>vs. T rid = Some vs \<and> value_eq (vs ! k) key)"
proof -
  have i: "tree_ok index" "set (entries (root index)) = key_entries k T" using index k by (auto simp: index_ok_def)
  have same: "compare_value (vs ! k) key = 0 \<longleftrightarrow> value_eq (vs ! k) key" if "T rid = Some vs" for rid vs
    using val_order.cmp_eq_iff [OF rows [OF that] key] value_eq_vkey [OF rows [OF that] key] by simp
  have "find_tree index key = Inr (lookup (entries (root index)) key)" by (rule btree.look_spec [OF i(1) key])
  moreover have "case lookup (entries (root index)) key of
      None \<Rightarrow> key_free k T key
    | Some rid \<Rightarrow> \<exists>vs. T rid = Some vs \<and> value_eq (vs ! k) key"
  proof (cases "List.find (\<lambda>e. compare_value (fst e) key = 0) (entries (root index))")
    case None
    then have "\<forall>e\<in>key_entries k T. compare_value (fst e) key \<noteq> 0" using i(2) by (auto simp: find_None_iff)
    then have "key_free k T key" using same by (auto simp: key_free_def key_entries_def)
    then show ?thesis using None by (simp add: lookup_def)
  next
    case (Some x)
    then have "x \<in> key_entries k T" "compare_value (fst x) key = 0" using i(2) by (auto simp: find_Some_iff)
    then show ?thesis using Some same by (auto simp: lookup_def key_entries_def)
  qed
  ultimately show ?thesis by blast
qed

lemma table_keys:
  "table_sound e t \<Longrightarrow> primary_position t = Some k \<Longrightarrow> table_rows e (tm_name t) rid = Some vs \<Longrightarrow> orderable (vs ! k)"
  using key_fits stored_fits unfolding table_sound_def by blast

lemma runs_index_find:
  assumes ok: "table_sound e t" and db: "in_db e t" and batch: "0 < env_batch env" and k: "primary_position t = Some k"
    and key: "orderable key"
  shows "runs (index_find env (tm_name t) key) e (\<lambda>found e'. keeps e e' \<and> en_indexes e' (tm_name t) \<noteq> None \<and>
    (case found of
       None \<Rightarrow> key_free k (table_rows e (tm_name t)) key
     | Some rid \<Rightarrow> \<exists>vs. table_rows e (tm_name t) rid = Some vs \<and> value_eq (vs ! k) key)) (\<lambda>_. False)"
  unfolding index_find_def runs_bind
proof (rule runs_weaken [OF runs_index [OF ok db batch k]])
  fix index e'
  assume "keeps e e' \<and> en_indexes e' (tm_name t) = Some index \<and> index_ok t (table_rows e (tm_name t)) index"
  then show "runs (give (find_tree index key)) e' (\<lambda>found e'. keeps e e' \<and> en_indexes e' (tm_name t) \<noteq> None \<and>
    (case found of
       None \<Rightarrow> key_free k (table_rows e (tm_name t)) key
     | Some rid \<Rightarrow> \<exists>vs. table_rows e (tm_name t) rid = Some vs \<and> value_eq (vs ! k) key)) (\<lambda>_. False)"
    using index_lookup [OF _ k key table_keys [OF ok k]] by (fastforce simp: runs_give)
qed simp

section \<open>Constraints\<close>

lemma runs_each:
  assumes step: "\<And>x e. x \<in> set xs \<Longrightarrow> keeps e0 e \<Longrightarrow> runs (f x) e (\<lambda>_ e'. keeps e e' \<and> P x e') (keeps e)"
    and stable: "\<And>x e e'. P x e \<Longrightarrow> keeps e e' \<Longrightarrow> P x e'" and start: "keeps e0 e"
  shows "runs (each f xs) e (\<lambda>_ e'. keeps e e' \<and> (\<forall>x\<in>set xs. P x e')) (keeps e)"
  using step start
proof (induction xs arbitrary: e)
  case Nil
  then show ?case by (auto simp: runs_give keeps_def same_heap_refl)
next
  case (Cons x xs)
  have rest: "runs (each f xs) e' (\<lambda>_ e''. keeps e e'' \<and> (\<forall>y\<in>set (x # xs). P y e'')) (keeps e)"
    if a: "keeps e e' \<and> P x e'" for e'
  proof -
    have "keeps e0 e'" using a Cons.prems(2) keeps_trans by blast
    from Cons.IH [OF Cons.prems(1) this] show ?thesis
      by (rule runs_weaken) (use a keeps_trans stable in auto)
  qed
  show ?case using rest Cons.prems by (auto simp: runs_bind intro: runs_weaken [of "f x" e])
qed

lemma runs_each_inv:
  assumes "\<And>x e. x \<in> set xs \<Longrightarrow> I e \<Longrightarrow> runs (f x) e (\<lambda>_ e'. I e' \<and> P x) I" "I e"
  shows "runs (each f xs) e (\<lambda>_ e'. I e' \<and> (\<forall>x\<in>set xs. P x)) I"
  using assms
proof (induction xs arbitrary: e)
  case (Cons x xs)
  have rest: "runs (each f xs) e' (\<lambda>_ e''. I e'' \<and> (\<forall>y\<in>set (x # xs). P y)) I" if a: "I e' \<and> P x" for e'
  proof -
    have "I e'" using a by simp
    from Cons.IH [OF Cons.prems(1) this] show ?thesis by (rule runs_weaken) (use a in auto)
  qed
  have "runs (f x) e (\<lambda>_ e'. I e' \<and> P x) I" using Cons.prems by simp
  then show ?case unfolding each.simps runs_bind by (rule runs_weaken) (use rest in auto)
qed (simp add: runs_give)

text \<open>Every table of the catalog is stored.\<close>

definition all_stored :: "engine \<Rightarrow> bool" where
  "all_stored e \<longleftrightarrow> pool_ok page_abs (en_pool e) \<and> quiet (en_pool e) \<and>
     (\<forall>name t. getTable name (en_catalog e) = Some t \<longrightarrow> tm_name t = name \<and> stored_ok e t)"

lemma db_stored: "db_ok e \<Longrightarrow> all_stored e"
  by (simp add: db_ok_def all_stored_def table_sound_def)

lemma keeps_all: "keeps e e' \<Longrightarrow> all_stored e \<Longrightarrow> all_stored e'"
  using keeps_rows(1) by (fastforce simp: all_stored_def keeps_def)

lemma keeps_db: "keeps e e' \<Longrightarrow> db_ok e \<Longrightarrow> db_ok e'"
  by (auto simp: db_ok_def keeps_def in_db_def)

lemma keeps_table_rows: "keeps e e' \<Longrightarrow> all_stored e \<Longrightarrow> getTable n (en_catalog e) = Some t \<Longrightarrow> table_rows e' n = table_rows e n"
  using keeps_rows(2) by (fastforce simp: all_stored_def)

definition fk_holds :: "engine \<Rightarrow> column_meta \<Rightarrow> val \<Rightarrow> bool" where
  "fk_holds e c v \<longleftrightarrow> cm_fk_table c = [] \<or> isNull v \<or>
     (\<exists>foreign k rid vs. getTable (cm_fk_table c) (en_catalog e) = Some foreign \<and>
        position_of (\<lambda>m. cm_name m = cm_fk_col c) (tm_columns foreign) = Some k \<and>
        table_rows e (cm_fk_table c) rid = Some vs \<and> value_eq (vs ! k) v)"

definition refs_hold :: "engine \<Rightarrow> table_meta \<Rightarrow> tuple \<Rightarrow> bool" where
  "refs_hold e t vs \<longleftrightarrow> (\<forall>(c, v)\<in>set (zip (tm_columns t) vs). fk_holds e c v)"

lemma keeps_fk: "keeps e e' \<Longrightarrow> all_stored e \<Longrightarrow> fk_holds e' c v = fk_holds e c v"
  using keeps_table_rows by (auto simp: fk_holds_def keeps_def)

lemma some_value_iff:
  "\<forall>(rid, vs)\<in>set rows. k < length vs \<Longrightarrow> some_value k p rows = Inr (\<exists>(rid, vs)\<in>set rows. p (vs ! k))"
  by (induction rows) (auto simp: value_at_def)

lemma scanned_position:
  assumes "stored_ok e t" "rows_of_map rows (table_rows e (tm_name t))" "k < length (tm_columns t)"
  shows "\<forall>(rid, vs)\<in>set rows. k < length vs"
  using assms stored_fits row_fits_length by (fastforce simp: rows_of_map_def)

lemma runs_foreign_key:
  assumes st: "all_stored e" and batch: "0 < env_batch env"
  shows "runs (check_foreign_key env (c, v)) e (\<lambda>_ e'. only_reads e e' \<and> fk_holds e c v) (only_reads e)"
proof -
  have refl: "only_reads e e" using st keeps_refl by (simp add: all_stored_def only_reads_def)
  show ?thesis
  proof (cases "cm_fk_table c = [] \<or> isNull v")
    case True
    then show ?thesis using refl by (auto simp: runs_def check_foreign_key_def fk_holds_def)
  next
    case False
    show ?thesis
    proof (cases "getTable (cm_fk_table c) (en_catalog e)")
      case None
      then show ?thesis using False refl by (simp add: runs_def check_foreign_key_def)
    next
      case foreign: (Some foreign)
      then have name: "tm_name foreign = cm_fk_table c" and fst: "stored_ok e foreign"
        using st by (auto simp: all_stored_def)
      show ?thesis
      proof (cases "position_of (\<lambda>m. cm_name m = cm_fk_col c) (tm_columns foreign)")
        case None
        then show ?thesis using False foreign refl by (simp add: runs_def check_foreign_key_def)
      next
        case (Some k)
        have "runs (ebind (scan_table_file env (tm_name foreign)) (\<lambda>rows.
            ebind (give (some_value k (\<lambda>w. value_eq w v) rows)) (\<lambda>found.
              give (if found then Inr () else Inl (Runtime_Error (''Foreign key constraint failed on '' @ cm_name c)))))) e
          (\<lambda>_ e'. only_reads e e' \<and> fk_holds e c v) (only_reads e)"
          unfolding runs_bind
        proof (rule runs_weaken [OF runs_scan [OF fst batch]])
          fix rows e'
          assume a: "keeps e e' \<and> en_indexes e' = en_indexes e \<and> rows_of_map rows (table_rows e (tm_name foreign))"
          then have "some_value k (\<lambda>w. value_eq w v) rows = Inr (\<exists>(rid, vs)\<in>set rows. value_eq (vs ! k) v)"
            using scanned_position [OF fst] position_of_Some [OF Some] by (intro some_value_iff) blast
          moreover have "(\<exists>(rid, vs)\<in>set rows. value_eq (vs ! k) v) \<longleftrightarrow>
              (\<exists>rid vs. table_rows e (cm_fk_table c) rid = Some vs \<and> value_eq (vs ! k) v)"
            using a name by (auto simp: rows_of_map_def)
          ultimately show "runs (give (some_value k (\<lambda>w. value_eq w v) rows)) e' (\<lambda>found e'.
              runs (give (if found then Inr () else Inl (Runtime_Error (''Foreign key constraint failed on '' @ cm_name c)))) e'
                (\<lambda>_ e'. only_reads e e' \<and> fk_holds e c v) (only_reads e)) (only_reads e)"
            using a foreign Some by (auto simp: runs_give fk_holds_def only_reads_def)
        qed simp
        then show ?thesis using False foreign Some by (simp add: runs_def check_foreign_key_def)
      qed
    qed
  qed
qed

lemma only_reads_refl: "all_stored e \<Longrightarrow> only_reads e e"
  using keeps_refl by (simp add: all_stored_def only_reads_def)

lemma only_reads_all: "only_reads e e' \<Longrightarrow> all_stored e \<Longrightarrow> all_stored e'"
  unfolding only_reads_def by (blast intro: keeps_all)

lemma only_reads_rows: "only_reads e e' \<Longrightarrow> all_stored e \<Longrightarrow> getTable n (en_catalog e) = Some t \<Longrightarrow> table_rows e' n = table_rows e n"
  using keeps_table_rows by (simp add: only_reads_def)

lemma runs_foreign_keys:
  assumes st: "all_stored e" and batch: "0 < env_batch env"
  shows "runs (validateForeignKeys env t vs) e (\<lambda>_ e'. only_reads e e' \<and> refs_hold e t vs) (only_reads e)"
proof -
  have "runs (each (check_foreign_key env) (zip (tm_columns t) vs)) e
    (\<lambda>_ e'. only_reads e e' \<and> (\<forall>x\<in>set (zip (tm_columns t) vs). fk_holds e (fst x) (snd x))) (only_reads e)"
  proof (rule runs_each_inv [where I = "only_reads e", OF _ only_reads_refl [OF st]])
    fix x e1 assume k: "only_reads e e1"
    have fk: "fk_holds e1 c v = fk_holds e c v" for c v using keeps_fk k st by (simp add: only_reads_def)
    from runs_foreign_key [OF only_reads_all [OF k st] batch, of "fst x" "snd x"]
    show "runs (check_foreign_key env x) e1 (\<lambda>_ e'. only_reads e e' \<and> fk_holds e (fst x) (snd x)) (only_reads e)"
      unfolding prod.collapse by (rule runs_weaken) (use only_reads_trans [OF k] fk in auto)
  qed
  then show ?thesis by (simp add: validateForeignKeys_def refs_hold_def case_prod_beta)
qed

lemma coerce_fits:
  assumes "coerce_column fmt c v = Inr w"
  shows "fits c w"
proof (cases "isNull w")
  case True
  then show ?thesis using assms
    by (auto simp: coerce_column_def fits_def rbind_eq_Inr_iff split: if_splits)
next
  case False
  then have "coerceValue fmt c v = Inr w" "\<not> isNull v"
    using assms by (auto simp: coerce_column_def coerceValue_def rbind_eq_Inr_iff Let_def split: if_splits)
  then have "type_of w = column_kind c"
    by (auto simp: coerceValue_def column_kind_def rbind_eq_Inr_iff Let_def type_of_def split: if_splits)
  then show ?thesis using False by (simp add: fits_def)
qed

lemma coerced_row:
  assumes "coerce_tuple fmt t vs = Inr ws"
  shows "row_fits t ws"
proof -
  have len: "length vs = length (tm_columns t)"
    and m: "list_all2 (\<lambda>x w. coerce_column fmt (fst x) (snd x) = Inr w) (zip (tm_columns t) vs) ws"
    using assms by (simp_all add: coerce_tuple_def map_r_Inr prod.case_eq_if split: if_splits)
  then show ?thesis unfolding row_fits_def
    by (auto simp: list_all2_conv_all_nth intro: coerce_fits)
qed

lemma orderable_key:
  assumes "schema_ok t" "row_fits t ws" "k < length (tm_columns t)" "cm_primary_key (tm_columns t ! k)"
  shows "orderable (ws ! k)"
proof -
  have "fits (tm_columns t ! k) (ws ! k)" "column_kind (tm_columns t ! k) \<noteq> TReal"
    "column_kind (tm_columns t ! k) \<noteq> TBoolean"
    using assms by (auto simp: row_fits_def list_all2_conv_all_nth schema_ok_def column_kind_def Let_def)
  then show ?thesis using assms(4)
    by (cases "ws ! k") (auto simp: fits_def orderable_def type_of_def isNull_def split: if_splits)
qed

text \<open>A checked key of a new row is free and its index is in memory.\<close>

definition key_checked :: "table_meta \<Rightarrow> (row_id \<Rightarrow> tuple option) \<Rightarrow> tuple \<Rightarrow> engine \<Rightarrow> bool" where
  "key_checked t T ws e \<longleftrightarrow>
     (\<forall>k. primary_position t = Some k \<longrightarrow> key_free k T (ws ! k) \<and> en_indexes e (tm_name t) \<noteq> None)"

lemma runs_unique_new:
  assumes ok: "table_sound e t" and db: "in_db e t" and batch: "0 < env_batch env"
    and k: "k < length (tm_columns t)" and fits: "row_fits t ws"
  shows "runs (check_unique env t None (k, tm_columns t ! k, ws ! k)) e
    (\<lambda>_ e'. keeps e e' \<and> (primary_position t = Some k \<longrightarrow>
       key_free k (table_rows e (tm_name t)) (ws ! k) \<and> en_indexes e' (tm_name t) \<noteq> None)) (keeps e)"
proof (cases "cm_primary_key (tm_columns t ! k)")
  case False
  then have "primary_position t \<noteq> Some k" using position_of_Some by (auto simp: primary_position_def)
  then show ?thesis using False sound_refl [OF ok] by (simp add: check_unique_def runs_give)
next
  case True
  then obtain k0 where k0: "primary_position t = Some k0"
    using k position_of_None [of cm_primary_key "tm_columns t"] by (fastforce simp: primary_position_def)
  have key: "orderable (ws ! k)" using orderable_key [OF _ fits k True] ok by (simp add: table_sound_def)
  show ?thesis using True unfolding check_unique_def
    by (auto simp: runs_bind runs_give intro!: runs_weaken [OF runs_index_find [OF ok db batch k0 key]] simp: k0 split: option.splits)
qed

lemma enumerate_member: "x \<in> set (enumerate 0 (zip cs ws)) \<longleftrightarrow> (\<exists>k. k < length cs \<and> k < length ws \<and> x = (k, cs ! k, ws ! k))"
  by (cases x) (auto simp: in_set_enumerate_eq)

lemma keeps_in_db: "keeps e e' \<Longrightarrow> in_db e' t = in_db e t"
  by (simp add: keeps_def in_db_def)

lemma runs_unique_all:
  assumes ok: "table_sound e t" and db: "in_db e t" and batch: "0 < env_batch env" and fits: "row_fits t ws"
  shows "runs (each (check_unique env t None) (enumerate 0 (zip (tm_columns t) ws))) e
    (\<lambda>_ e'. keeps e e' \<and> key_checked t (table_rows e (tm_name t)) ws e') (keeps e)"
proof -
  let ?T = "table_rows e (tm_name t)"
  let ?P = "\<lambda>x e'. primary_position t = Some (fst x) \<longrightarrow>
    key_free (fst x) ?T (ws ! fst x) \<and> en_indexes e' (tm_name t) \<noteq> None"
  have refl: "keeps e e" by (rule sound_refl [OF ok])
  have "runs (each (check_unique env t None) (enumerate 0 (zip (tm_columns t) ws))) e
    (\<lambda>_ e'. keeps e e' \<and> (\<forall>x\<in>set (enumerate 0 (zip (tm_columns t) ws)). ?P x e')) (keeps e)"
  proof (rule runs_each [where ?e0.0 = e, OF _ _ refl])
    fix x e1 assume x: "x \<in> set (enumerate 0 (zip (tm_columns t) ws))" and k: "keeps e e1"
    then obtain i where i: "i < length (tm_columns t)" "x = (i, tm_columns t ! i, ws ! i)"
      by (auto simp: enumerate_member)
    have ok1: "table_sound e1 t" "in_db e1 t" using k ok db by (auto simp: keeps_def in_db_def)
    have T: "table_rows e1 (tm_name t) = ?T" using keeps_rows(2) [OF k] ok by (simp add: table_sound_def)
    show "runs (check_unique env t None x) e1 (\<lambda>_ e'. keeps e1 e' \<and> ?P x e') (keeps e1)"
      using runs_unique_new [OF ok1 batch i(1) fits] by (simp add: i(2) T)
  qed (auto simp: keeps_def)
  moreover have "key_checked t ?T ws e'"
    if "\<forall>x\<in>set (enumerate 0 (zip (tm_columns t) ws)). ?P x e'" for e'
  proof -
    have "?P (k, tm_columns t ! k, ws ! k) e'" if "primary_position t = Some k" for k
    proof -
      have "k < length (tm_columns t)" using that position_of_Some by (auto simp: primary_position_def)
      then have "(k, tm_columns t ! k, ws ! k) \<in> set (enumerate 0 (zip (tm_columns t) ws))"
        using row_fits_length [OF fits] by (auto simp: enumerate_member)
      then show ?thesis using \<open>\<forall>x\<in>_. ?P x e'\<close> by blast
    qed
    then show ?thesis by (simp add: key_checked_def)
  qed
  ultimately show ?thesis by (elim runs_weaken) blast+
qed

lemma runs_validate_new:
  assumes ok: "table_sound e t" and db: "in_db e t" and all: "all_stored e" and batch: "0 < env_batch env"
  shows "runs (validateAndCoerce env t vs None) e
    (\<lambda>ws e'. keeps e e' \<and> coerce_tuple (env_fmt env) t vs = Inr ws \<and> refs_hold e t ws \<and>
       key_checked t (table_rows e (tm_name t)) ws e') (keeps e)"
proof -
  have refl: "keeps e e" by (rule sound_refl [OF ok])
  show ?thesis
  proof (cases "coerce_tuple (env_fmt env) t vs")
    case (Inl x)
    then show ?thesis using refl by (simp add: validateAndCoerce_def runs_simps)
  next
    case (Inr ws)
    have step: "runs (validateForeignKeys env t ws) e1 (\<lambda>_ e'. keeps e e' \<and> refs_hold e t ws \<and>
        key_checked t (table_rows e (tm_name t)) ws e') (keeps e)"
      if a: "keeps e e1 \<and> key_checked t (table_rows e (tm_name t)) ws e1" for e1
    proof -
      have "all_stored e1" using keeps_all a all by blast
      from runs_foreign_keys [OF this batch] show ?thesis
      proof (rule runs_weaken)
        fix u e' assume "only_reads e1 e' \<and> refs_hold e1 t ws"
        then have b: "keeps e1 e' \<and> refs_hold e1 t ws" by (simp add: only_reads_def)
        have "refs_hold e t ws" using b keeps_fk [OF conjunct1 [OF a] all] by (simp add: refs_hold_def)
        moreover have "key_checked t (table_rows e (tm_name t)) ws e'" using a b by (auto simp: key_checked_def keeps_def)
        ultimately show "keeps e e' \<and> refs_hold e t ws \<and> key_checked t (table_rows e (tm_name t)) ws e'"
          using a b keeps_trans by blast
      qed (use a keeps_trans in \<open>auto simp: only_reads_def\<close>)
    qed
    have "runs (each (check_unique env t None) (enumerate 0 (zip (tm_columns t) ws))) e
        (\<lambda>_ e1. runs (validateForeignKeys env t ws) e1 (\<lambda>_ e'. keeps e e' \<and> refs_hold e t ws \<and>
          key_checked t (table_rows e (tm_name t)) ws e') (keeps e)) (keeps e)"
      by (rule runs_weaken [OF runs_unique_all [OF ok db batch coerced_row [OF Inr]]]) (use step in auto)
    then show ?thesis using Inr by (simp add: validateAndCoerce_def runs_simps)
  qed
qed

end
