(* ===== verification/Engine_Insert.thy ===== *)
theory Engine_Insert
  imports Engine_Db
begin

text \<open>
  \<open>INSERT\<close> over the whole engine: it adds the coerced rows and nothing else, keeps the database
  invariant and every foreign key, or it throws and leaves every table as it was. The undo of a
  failed statement (drop the file from the cache, write its old bytes) is shared with \<open>UPDATE\<close> and
  \<open>DELETE\<close>.
\<close>

section \<open>Changes of one table\<close>

lemma beside_tables [simp]:
  "table_sound (e\<lparr>en_mapped := m\<rparr>) t = table_sound e t" "table_sound (e\<lparr>en_statistics := s\<rparr>) t = table_sound e t"
  "table_sound (e\<lparr>en_wal := w\<rparr>) t = table_sound e t" "table_sound (e\<lparr>en_meta := d\<rparr>) t = table_sound e t"
  "db_ok (e\<lparr>en_mapped := m\<rparr>) = db_ok e" "db_ok (e\<lparr>en_statistics := s\<rparr>) = db_ok e"
  "db_ok (e\<lparr>en_wal := w\<rparr>) = db_ok e" "db_ok (e\<lparr>en_meta := d\<rparr>) = db_ok e"
  by (simp_all add: table_sound_def db_ok_def)

definition only_changes :: "string \<Rightarrow> engine \<Rightarrow> engine \<Rightarrow> bool" where
  "only_changes name e e' \<longleftrightarrow> en_root e' = en_root e \<and> en_catalog e' = en_catalog e \<and>
     pool_ok page_abs (en_pool e') \<and> quiet (en_pool e') \<and>
     (\<forall>f. f \<noteq> table_file e name \<longrightarrow> heap_at f (en_pool e) \<longrightarrow> same_heap f (en_pool e) (en_pool e')) \<and>
     (\<forall>t. in_db e t \<longrightarrow> tm_name t \<noteq> name \<longrightarrow> table_sound e t \<longrightarrow> table_sound e' t)"

lemma keeps_only: "keeps e e' \<Longrightarrow> only_changes name e e'"
  by (simp add: keeps_def only_changes_def)

lemma only_root: "only_changes name e e' \<Longrightarrow> table_file e' = table_file e"
  by (rule table_file_root) (simp add: only_changes_def)

lemma only_trans:
  assumes a: "only_changes name e1 e2" and b: "only_changes name e2 e3"
  shows "only_changes name e1 e3"
proof -
  have "same_heap f (en_pool e1) (en_pool e3)" if "f \<noteq> table_file e1 name" "heap_at f (en_pool e1)" for f
  proof -
    have s: "same_heap f (en_pool e1) (en_pool e2)" using a that by (simp add: only_changes_def)
    then have "heap_at f (en_pool e2)" by (simp add: same_heap_def)
    then show ?thesis using s b that(1) only_root [OF a] same_heap_trans by (simp add: only_changes_def)
  qed
  moreover have "table_sound e3 t" if "in_db e1 t" "tm_name t \<noteq> name" "table_sound e1 t" for t
  proof -
    have "table_sound e2 t" "in_db e2 t" using a that by (simp_all add: only_changes_def in_db_def)
    then show ?thesis using b that(2) by (simp add: only_changes_def)
  qed
  ultimately show ?thesis using a b by (simp add: only_changes_def)
qed

lemma other_rows:
  assumes "only_changes name e e'" "stored_ok e t" "tm_name t \<noteq> name"
  shows "stored_ok e' t" "table_rows e' (tm_name t) = table_rows e (tm_name t)"
proof -
  have tf: "table_file e' = table_file e" by (rule only_root [OF assms(1)])
  have ne: "table_file e (tm_name t) \<noteq> table_file e name" using assms(3) by (simp add: table_file_inj)
  then have "same_heap (table_file e (tm_name t)) (en_pool e) (en_pool e')"
    using assms(1,2) unfolding only_changes_def stored_ok_def by blast
  then have hr: "heap_rows (table_file e (tm_name t)) (en_pool e') = heap_rows (table_file e (tm_name t)) (en_pool e)"
    "heap_at (table_file e (tm_name t)) (en_pool e')" by (simp_all add: same_heap_def)
  show "stored_ok e' t" using assms(2) unfolding stored_ok_def tf hr(1) using hr(2) by blast
  show "table_rows e' (tm_name t) = table_rows e (tm_name t)" by (simp add: table_rows_def tf hr(1) fun_eq_iff)
qed

lemma only_changesI:
  assumes root: "en_root e' = en_root e" "en_catalog e' = en_catalog e"
    and ap: "apart (table_file e name) (en_pool e) (en_pool e')"
    and index: "\<And>n. n \<noteq> name \<Longrightarrow> en_indexes e' n = en_indexes e n"
  shows "only_changes name e e'"
proof -
  have tf: "table_file e' = table_file e" by (rule table_file_root [OF root(1)])
  have "table_sound e' t" if ne: "tm_name t \<noteq> name" and ok: "table_sound e t" for t
  proof -
    have "table_file e (tm_name t) \<noteq> table_file e name" using ne by (simp add: table_file_inj)
    then have "same_heap (table_file e (tm_name t)) (en_pool e) (en_pool e')"
      using ap ok unfolding apart_def table_sound_def stored_ok_def by blast
    then have hr: "heap_rows (table_file e (tm_name t)) (en_pool e') = heap_rows (table_file e (tm_name t)) (en_pool e)"
      "heap_at (table_file e (tm_name t)) (en_pool e')" by (simp_all add: same_heap_def)
    have "stored_ok e' t" using ok hr(2) unfolding table_sound_def stored_ok_def tf hr(1) by blast
    moreover have "table_rows e' (tm_name t) = table_rows e (tm_name t)"
      by (simp add: table_rows_def tf hr(1) fun_eq_iff)
    ultimately show ?thesis using ok index [OF ne] by (simp add: table_sound_def)
  qed
  then show ?thesis using root ap by (simp add: only_changes_def apart_def)
qed

lemma apart_same: "pool_ok page_abs p \<Longrightarrow> quiet p \<Longrightarrow> apart f p p"
  by (simp add: apart_def same_heap_refl)

lemma only_refl: "pool_ok page_abs (en_pool e) \<Longrightarrow> quiet (en_pool e) \<Longrightarrow> only_changes name e e"
  by (rule only_changesI) (simp_all add: apart_same)

lemma all_stored_only:
  assumes "only_changes name e e'" "all_stored e" "getTable name (en_catalog e) = Some t" "stored_ok e' t"
  shows "all_stored e'"
  unfolding all_stored_def
proof (intro conjI allI impI)
  show "pool_ok page_abs (en_pool e')" "quiet (en_pool e')" using assms(1) by (simp_all add: only_changes_def)
  fix n t' assume t': "getTable n (en_catalog e') = Some t'"
  then have t: "getTable n (en_catalog e) = Some t'" using assms(1) by (simp add: only_changes_def)
  then show "tm_name t' = n" using assms(2) by (simp add: all_stored_def)
  show "stored_ok e' t'"
  proof (cases "n = name")
    case True
    then show ?thesis using t assms(3,4) by simp
  next
    case False
    then show ?thesis using other_rows(1) [OF assms(1), of t'] t assms(2) by (auto simp: all_stored_def)
  qed
qed

lemma db_ok_only:
  assumes "only_changes name e e'" "db_ok e" "getTable name (en_catalog e) = Some t" "table_sound e' t"
  shows "db_ok e'"
  unfolding db_ok_def
proof (intro conjI allI impI)
  show "pool_ok page_abs (en_pool e')" "quiet (en_pool e')" using assms(1) by (simp_all add: only_changes_def)
  fix n t' assume t': "getTable n (en_catalog e') = Some t'"
  then have t: "getTable n (en_catalog e) = Some t'" using assms(1) by (simp add: only_changes_def)
  then show n: "tm_name t' = n" using assms(2) by (simp add: db_ok_def)
  show "table_sound e' t'"
  proof (cases "n = name")
    case True
    then show ?thesis using t assms(3,4) by simp
  next
    case False
    have "in_db e t'" "table_sound e t'" using t n assms(2) by (simp_all add: in_db_def db_ok_def)
    then show ?thesis using False n assms(1) by (simp add: only_changes_def)
  qed
qed

text \<open>The handle of a table's file.\<close>

definition handle_for :: "string \<Rightarrow> heap_file \<Rightarrow> engine \<Rightarrow> bool" where
  "handle_for name h e \<longleftrightarrow> hpath h = table_file e name \<and> handle_ok h (en_pool e)"

lemma keeps_handle: "keeps e e' \<Longrightarrow> stored_ok e t \<Longrightarrow> handle_for (tm_name t) h e \<Longrightarrow> handle_for (tm_name t) h e'"
  using keeps_rows(3) [of e e' t] table_file_root [of e' e]
  by (auto simp: handle_for_def handle_ok_def same_heap_def keeps_def)

section \<open>Undoing a statement\<close>

lemma runs_record:
  assumes "quiet (en_pool e)"
  shows "\<exists>w d. record_before f e = (Inr (), e\<lparr>en_wal := w, en_meta := d\<rparr>)"
proof -
  have same: "\<exists>m. with_disk ((disk_of e)\<lparr>files := (files (disk_of e))(walPath (en_root e) := c)\<rparr>) (e\<lparr>en_wal := w\<rparr>) =
      e\<lparr>en_wal := w, en_meta := m\<rparr>" for c w
  proof -
    have "(\<lambda>f. if meta_file (en_root e) f then files (pdisk (en_pool e)) f
        else ((\<lambda>f. if meta_file (en_root e) f then en_meta e f else files (pdisk (en_pool e)) f)(walPath (en_root e) := c)) f) =
      files (pdisk (en_pool e))" by (auto simp: fun_eq_iff meta_file_def)
    then show ?thesis by (auto simp: with_disk_def disk_of_def Let_def cong: if_cong)
  qed
  have idle: "\<exists>m. with_disk (disk_of e) (e\<lparr>en_wal := w\<rparr>) = e\<lparr>en_wal := w, en_meta := m\<rparr>" for w
    using same [of "files (disk_of e) (walPath (en_root e))" w] by simp
  have wr: "writable (disk_of e) (walPath (en_root e))" using assms by (simp add: disk_of_def quiet_def Let_def)
  show ?thesis
  proof (cases "walTransactionId (en_wal e) = 0 \<or> f \<in> walLoggedFiles (en_wal e)")
    case True
    then have "record_before f e = (Inr (), with_disk (disk_of e) e)"
      by (auto simp: record_before_def on_log_def recordWalBefore_def)
    moreover obtain m where "with_disk (disk_of e) e = e\<lparr>en_meta := m\<rparr>" using idle [of "en_wal e"] by auto
    moreover have "e\<lparr>en_meta := m\<rparr> = e\<lparr>en_wal := en_wal e, en_meta := m\<rparr>" by simp
    ultimately show ?thesis by metis
  next
    case False
    let ?w = "(en_wal e)\<lparr>walLoggedFiles := insert f (walLoggedFiles (en_wal e))\<rparr>"
    obtain c where "recordWalBefore (en_root e) f (en_wal e, disk_of e) =
        (Inr (), ?w, (disk_of e)\<lparr>files := (files (disk_of e))(walPath (en_root e) := Some c)\<rparr>)"
      using False wr by (simp add: recordWalBefore_def logBefore_def appendRecord_def Let_def)
    then show ?thesis using same [of "Some c" ?w] by (auto simp: record_before_def on_log_def)
  qed
qed

lemma restore_put:
  assumes "f = table_file e name" "writable (pdisk (en_pool e)) f"
  shows "\<exists>m. with_disk ((disk_of e)\<lparr>files := (files (disk_of e))(f := c)\<rparr>) e =
    e\<lparr>en_pool := put_file f c (en_pool e), en_meta := m\<rparr>"
proof -
  have "(\<lambda>g. if meta_file (en_root e) g then files (pdisk (en_pool e)) g
      else ((\<lambda>g. if meta_file (en_root e) g then en_meta e g else files (pdisk (en_pool e)) g)(f := c)) g) =
    (files (pdisk (en_pool e)))(f := c)" using not_meta assms(1) by (auto simp: fun_eq_iff)
  then show ?thesis by (auto simp: with_disk_def disk_of_def Let_def put_file_def cong: if_cong)
qed

lemma runs_restore:
  assumes pool: "pool_ok page_abs (en_pool e)" "quiet (en_pool e)"
  shows "runs (ebind (on_pool (invalidateFile (table_file e name))) (\<lambda>_. restore_table_file (table_file e name) (Some c))) e
    (\<lambda>_ e'. en_root e' = en_root e \<and> en_catalog e' = en_catalog e \<and> en_indexes e' = en_indexes e \<and>
      (\<exists>q. en_pool e' = put_file (table_file e name) (Some c) q \<and> apart (table_file e name) (en_pool e) q \<and>
        no_frames (table_file e name) q)) (\<lambda>_. False)"
proof -
  let ?f = "table_file e name"
  obtain q where q: "invalidateFile ?f (en_pool e) = (Inr (), q)" "no_frames ?f q" "apart ?f (en_pool e) q"
    using invalidate_file [OF pool] by blast
  have qp: "pool_ok page_abs q" "quiet q" using q(3) by (simp_all add: apart_def)
  obtain q' where q': "invalidateFile ?f q = (Inr (), q')" "no_frames ?f q'" "apart ?f q q'" "pdisk q' = pdisk q"
    using invalidate_file [OF qp] by blast
  let ?e = "e\<lparr>en_mapped := {}, en_pool := q'\<rparr>"
  have wr: "writable (pdisk (en_pool ?e)) ?f" using q'(3) by (simp add: apart_def quiet_def)
  obtain m where m: "with_disk ((disk_of ?e)\<lparr>files := (files (disk_of ?e))(?f := Some c)\<rparr>) ?e =
      ?e\<lparr>en_pool := put_file ?f (Some c) q', en_meta := m\<rparr>"
    using restore_put [of ?f ?e name "Some c"] wr by auto
  have "writable (disk_of ?e) ?f" using wr by (simp add: disk_of_def Let_def)
  then have "ebind (on_pool (invalidateFile ?f)) (\<lambda>_. restore_table_file ?f (Some c)) e =
    (Inr (), ?e\<lparr>en_pool := put_file ?f (Some c) q', en_meta := m\<rparr>)"
    using q(1) q'(1) m by (simp add: ebind_def on_pool_def change_def restore_table_file_def)
  then show ?thesis using q'(2) apart_trans [OF q(3) q'(3)] by (auto simp: runs_def)
qed

lemma runs_on_file:
  "oper (h, en_pool e) = (Inr a, h', p) \<Longrightarrow> runs (on_file h oper) e Q E \<longleftrightarrow> Q (a, h') (e\<lparr>en_pool := p\<rparr>)"
  "oper (h, en_pool e) = (Inl x, h', p) \<Longrightarrow> runs (on_file h oper) e Q E \<longleftrightarrow> E (e\<lparr>en_pool := p\<rparr>)"
  by (simp_all add: runs_def on_file_def)

definition unchanged :: "engine \<Rightarrow> engine \<Rightarrow> bool" where
  "unchanged e e' \<longleftrightarrow> en_catalog e' = en_catalog e \<and>
     (\<forall>n t. getTable n (en_catalog e) = Some t \<longrightarrow> table_rows e' n = table_rows e n)"

lemma unchanged_only:
  assumes only: "only_changes name e e'" and db: "all_stored e" and rows: "table_rows e' name = table_rows e name"
  shows "unchanged e e'"
  unfolding unchanged_def
proof (intro conjI allI impI)
  show "en_catalog e' = en_catalog e" using only by (simp add: only_changes_def)
  fix n t assume "getTable n (en_catalog e) = Some t"
  then have "stored_ok e t" "tm_name t = n" using db by (simp_all add: all_stored_def)
  then show "table_rows e' n = table_rows e n" using other_rows(2) [OF only, of t] rows by (cases "n = name") auto
qed

lemma unchanged_trans: "unchanged a b \<Longrightarrow> unchanged b c \<Longrightarrow> unchanged a c"
  by (simp add: unchanged_def)

lemma keeps_unchanged: "keeps e e' \<Longrightarrow> all_stored e \<Longrightarrow> unchanged e e'"
  using keeps_table_rows by (auto simp: unchanged_def keeps_def)

lemma runs_undo:
  assumes db: "db_ok e1" and t: "getTable name (en_catalog e1) = Some t"
    and save: "saved (table_file e1 name) (en_pool e1)" and c: "files (pdisk (en_pool e1)) (table_file e1 name) = Some c"
    and only: "only_changes name e1 e2" and index: "en_indexes e2 name = None \<or> en_indexes e2 name = en_indexes e1 name"
  shows "runs (ebind (on_pool (invalidateFile (table_file e1 name))) (\<lambda>_. restore_table_file (table_file e1 name) (Some c))) e2
    (\<lambda>_ e3. db_ok e3 \<and> unchanged e1 e3) (\<lambda>_. False)"
proof -
  let ?f = "table_file e1 name"
  have name: "tm_name t = name" and ok: "table_sound e1 t" using db t by (simp_all add: db_ok_def)
  then have at: "heap_at ?f (en_pool e1)" by (simp add: table_sound_def stored_ok_def)
  have pool: "pool_ok page_abs (en_pool e2)" "quiet (en_pool e2)" using only by (simp_all add: only_changes_def)
  have tf: "table_file e2 = table_file e1" by (rule only_root [OF only])
  have done3: "db_ok e3 \<and> unchanged e1 e3"
    if r: "en_root e3 = en_root e2" "en_catalog e3 = en_catalog e2" "en_indexes e3 = en_indexes e2"
      "en_pool e3 = put_file ?f (Some c) q" "apart ?f (en_pool e2) q" "no_frames ?f q" for e3 q
  proof -
    have q: "pool_ok page_abs q" "quiet q" using r(5) by (simp_all add: apart_def)
    note restored = restored_heap [OF at save c q r(6)]
    have "apart ?f (en_pool e2) (en_pool e3)" unfolding r(4) using apart_trans [OF r(5)] restored by blast
    then have "only_changes name e2 e3" using r(1-3) tf by (intro only_changesI) simp_all
    then have only3: "only_changes name e1 e3" by (rule only_trans [OF only])
    have tf3: "table_file e3 = table_file e1" by (rule only_root [OF only3])
    have sh: "heap_at ?f (en_pool e3)" "heap_rows ?f (en_pool e3) = heap_rows ?f (en_pool e1)"
      using restored by (simp_all add: same_heap_def r(4))
    have rows: "table_rows e3 name = table_rows e1 name" by (simp add: table_rows_def tf3 sh(2) fun_eq_iff)
    have "stored_ok e3 t" using ok sh(1) name unfolding table_sound_def stored_ok_def tf3 by (simp add: sh(2))
    then have "table_sound e3 t" using ok index r(3) rows name by (auto simp: table_sound_def)
    then show ?thesis using db_ok_only [OF only3 db t] unchanged_only [OF only3 db_stored [OF db] rows] by blast
  qed
  show ?thesis
    by (rule runs_weaken [OF runs_restore [where e = e2 and name = name, OF pool, unfolded tf]]) (use done3 in auto)
qed

lemma runs_flush:
  assumes st: "stored_ok e t" and h: "handle_for (tm_name t) h e"
  shows "runs (on_file h flush_heap) e (\<lambda>x e'. x = ((), h) \<and> keeps e e' \<and> en_indexes e' = en_indexes e \<and>
    saved (table_file e (tm_name t)) (en_pool e')) (\<lambda>_. False)"
proof -
  let ?f = "table_file e (tm_name t)" let ?p = "en_pool e"
  have f: "hpath h = ?f" using h by (simp add: handle_for_def)
  have at: "heap_at (hpath h) ?p" using st f by (simp add: stored_ok_def)
  obtain p' where p': "flush_heap (h, ?p) = (Inr (), h, p')" "saved ?f p'" "same_heap ?f ?p p'" "apart ?f ?p p'"
    using flush_into [OF at] f by auto
  have "same_heap g ?p p'" if "heap_at g ?p" for g using that p'(3,4) by (cases "g = ?f") (auto simp: apart_def)
  then have "keeps e (e\<lparr>en_pool := p'\<rparr>)" using p'(4) by (intro keeps_pool [OF refl]) (auto simp: apart_def)
  then show ?thesis using p'(1,2) by (simp add: runs_on_file)
qed

section \<open>One row\<close>

lemma keys_distinct_add:
  assumes dist: "keys_distinct t T" and new: "T rid = None"
    and free: "\<And>k. primary_position t = Some k \<Longrightarrow> key_free k T (ws ! k)"
  shows "keys_distinct t (T(rid \<mapsto> ws))"
  unfolding keys_distinct_def
proof (intro allI impI)
  fix k r r' vs vs'
  assume k: "primary_position t = Some k" and a: "(T(rid \<mapsto> ws)) r = Some vs" "(T(rid \<mapsto> ws)) r' = Some vs'"
    and eq: "value_eq (vs ! k) (vs' ! k)"
  have no: "\<not> value_eq (us ! k) (ws ! k)" "\<not> value_eq (ws ! k) (us ! k)" if "T q = Some us" for q us
  proof -
    show n: "\<not> value_eq (us ! k) (ws ! k)" using free [OF k] that unfolding key_free_def by blast
    then show "\<not> value_eq (ws ! k) (us ! k)" using value_eq_sym by blast
  qed
  show "r = r'"
  proof (rule ccontr)
    assume ne: "r \<noteq> r'"
    show False
    proof (cases "r = rid \<or> r' = rid")
      case True
      then show False
      proof
        assume r: "r = rid"
        then have "vs = ws" "T r' = Some vs'" using a ne by simp_all
        then show False using no(2) eq by simp
      next
        assume r: "r' = rid"
        then have "vs' = ws" "T r = Some vs" using a ne by simp_all
        then show False using no(1) eq by simp
      qed
    next
      case False
      then have "T r = Some vs" "T r' = Some vs'" using a by simp_all
      then show False using dist k eq ne unfolding keys_distinct_def by blast
    qed
  qed
qed

lemma key_entries_iff: "(a, rid) \<in> key_entries k T \<longleftrightarrow> (\<exists>vs. T rid = Some vs \<and> a = vs ! k)"
  by (auto simp: key_entries_def)

lemma key_entries_add: "T rid = None \<Longrightarrow> key_entries k (T(rid \<mapsto> ws)) = insert (ws ! k, rid) (key_entries k T)"
proof (rule set_eqI)
  fix x :: "val \<times> row_id"
  assume "T rid = None"
  then show "x \<in> key_entries k (T(rid \<mapsto> ws)) \<longleftrightarrow> x \<in> insert (ws ! k, rid) (key_entries k T)"
    by (cases x; cases "snd x = rid") (auto simp: key_entries_iff)
qed

lemma index_add:
  assumes index: "index_ok t T index" and k: "primary_position t = Some k" and new: "T rid = None"
    and free: "key_free k T (ws ! k)" and wkey: "orderable (ws ! k)"
    and key: "\<forall>rid vs. T rid = Some vs \<longrightarrow> orderable (vs ! k)"
  shows "\<exists>index'. insert_tree index (ws ! k) rid = Inr index' \<and> index_ok t (T(rid \<mapsto> ws)) index'"
proof -
  have i: "tree_ok index" "set (entries (root index)) = key_entries k T" using index k by (auto simp: index_ok_def)
  have "\<exists>found. find_tree index (ws ! k) = Inr found \<and> (case found of
      None \<Rightarrow> key_free k T (ws ! k)
    | Some rid \<Rightarrow> \<exists>vs. T rid = Some vs \<and> value_eq (vs ! k) (ws ! k))"
    by (rule index_lookup [OF index k wkey]) (use key in blast)
  then have "find_tree index (ws ! k) = Inr None" using free by (auto simp: key_free_def split: option.splits)
  then have "lookup (entries (root index)) (ws ! k) = None" using btree.look_spec [OF i(1) wkey] by simp
  then obtain index' where n: "insert_tree index (ws ! k) rid = Inr index'" "tree_ok index'"
    "entries (root index') = ins_entry (ws ! k) rid (entries (root index))"
    using btree.ins_new [OF i(1) wkey] by blast
  have "set (entries (root index')) = key_entries k (T(rid \<mapsto> ws))"
    by (simp add: n(3) set_ins_entry i(2) key_entries_add [of T, OF new])
  then show ?thesis using n(1,2) k by (auto simp: index_ok_def)
qed

text \<open>The row is in the file; the index, which is in memory if there is a key, does not know it yet.\<close>

definition row_stored :: "table_meta \<Rightarrow> tuple \<Rightarrow> engine \<Rightarrow> row_id \<Rightarrow> engine \<Rightarrow> bool" where
  "row_stored t ws e rid e' \<longleftrightarrow> only_changes (tm_name t) e e' \<and> stored_ok e' t \<and> en_indexes e' = en_indexes e \<and>
     table_rows e (tm_name t) rid = None \<and> table_rows e' (tm_name t) = (table_rows e (tm_name t))(rid \<mapsto> ws)"

lemma runs_store:
  assumes st: "stored_ok e t" and h: "handle_for (tm_name t) h e" and fits: "row_fits t ws"
  shows "runs (on_file h (insert_heap ws)) e
    (\<lambda>(rid, h') e'. row_stored t ws e rid e' \<and> handle_for (tm_name t) h' e') (\<lambda>e'. e' = e)"
proof -
  let ?f = "table_file e (tm_name t)" let ?p = "en_pool e"
  have f: "hpath h = ?f" "handle_ok h ?p" using h by (simp_all add: handle_for_def)
  have at: "heap_at (hpath h) ?p" using st f by (simp add: stored_ok_def)
  consider (bad) x where "insert_heap ws (h, ?p) = (Inl x, h, ?p)"
    | (good) rid row h' p' where "insert_heap ws (h, ?p) = (Inr rid, h', p')" "decodeTuple row = Inr ws"
      "length row + 22 \<le> PAGE_SIZE" "hpath h' = hpath h" "handle_ok h' p'" "heap_at (hpath h) p'" "apart (hpath h) ?p p'"
      "row_added (heap_rows (hpath h) ?p) rid row (heap_rows (hpath h) p')"
    using insert_into [OF at f(2), of ws] by blast
  then show ?thesis
  proof cases
    case bad
    then show ?thesis by (simp add: runs_on_file)
  next
    case good
    let ?e = "e\<lparr>en_pool := p'\<rparr>"
    have only: "only_changes (tm_name t) e ?e" by (rule only_changesI) (use good(7) f in simp_all)
    have hr: "heap_rows ?f ?p rid = None" "heap_rows ?f p' = (heap_rows ?f ?p)(rid \<mapsto> row)"
      using good(8) f by (simp_all add: row_added_def)
    have "stored_ok ?e t" using st good(2,3,6) f fits hr(2) by (auto simp: stored_ok_def)
    moreover have "table_rows e (tm_name t) rid = None" by (simp add: table_rows_def hr(1))
    moreover have "table_rows ?e (tm_name t) = (table_rows e (tm_name t))(rid \<mapsto> ws)"
      using good(2) by (auto simp: table_rows_def hr(2) fun_eq_iff)
    ultimately have "row_stored t ws e rid ?e" using only by (simp add: row_stored_def)
    then show ?thesis using good(1,4,5) f by (simp add: runs_on_file handle_for_def)
  qed
qed

lemma runs_enter:
  assumes ok: "table_sound e t" and st: "row_stored t ws e rid e'" and check: "key_checked t (table_rows e (tm_name t)) ws e"
    and fits: "row_fits t ws"
  shows "runs (case primary_position t of
      None \<Rightarrow> give (Inr ())
    | Some k \<Rightarrow> ebind (give (value_at ws k)) (\<lambda>key. index_insert env (tm_name t) key rid)) e'
    (\<lambda>_ e''. table_sound e'' t \<and> only_changes (tm_name t) e' e'' \<and> en_pool e'' = en_pool e' \<and>
       en_root e'' = en_root e') (\<lambda>_. False)"
proof -
  let ?T = "table_rows e (tm_name t)"
  have s: "only_changes (tm_name t) e e'" "stored_ok e' t" "en_indexes e' = en_indexes e" "?T rid = None"
    "table_rows e' (tm_name t) = ?T(rid \<mapsto> ws)" using st by (simp_all add: row_stored_def)
  have sc: "schema_ok t" using ok by (simp add: table_sound_def)
  have pool: "pool_ok page_abs (en_pool e')" "quiet (en_pool e')" using s(1) by (simp_all add: only_changes_def)
  have wkey: "orderable (ws ! k)" if "primary_position t = Some k" for k using key_fits [OF sc fits that] by blast
  have dist: "keys_distinct t (?T(rid \<mapsto> ws))"
  proof (rule keys_distinct_add [where T = ?T, OF _ s(4)])
    show "keys_distinct t ?T" using ok by (simp add: table_sound_def)
  qed (use check in \<open>auto simp: key_checked_def\<close>)
  show ?thesis
  proof (cases "primary_position t")
    case None
    then have "en_indexes e (tm_name t) = None" using ok by (cases "en_indexes e (tm_name t)") (auto simp: table_sound_def index_ok_def)
    then have "table_sound e' t" using sc s(2,3,5) dist by (simp add: table_sound_def)
    then show ?thesis using None only_refl [OF pool] by (simp add: runs_give)
  next
    case (Some k)
    then obtain index where i: "en_indexes e (tm_name t) = Some index" and free: "key_free k ?T (ws ! k)"
      using check by (auto simp: key_checked_def)
    have iok: "index_ok t ?T index" using ok i by (simp add: table_sound_def)
    obtain index' where n: "insert_tree index (ws ! k) rid = Inr index'" "index_ok t (?T(rid \<mapsto> ws)) index'"
      using index_add [where T = ?T, OF iok Some s(4) free wkey [OF Some]] table_keys [OF ok Some] by blast
    let ?e = "e'\<lparr>en_indexes := (en_indexes e')(tm_name t \<mapsto> index')\<rparr>"
    have "value_at ws k = Inr (ws ! k)" using key_fits [OF sc fits Some] by (simp add: value_at_def)
    moreover have "runs (index_insert env (tm_name t) (ws ! k) rid) e' Q E \<longleftrightarrow> Q () ?e" for Q E
      using i n(1) s(3) by (simp add: index_insert_def runs_bind runs_def [of "primaryIndex env (tm_name t)"]
          primaryIndex_def runs_give runs_change)
    moreover have "table_sound ?e t" using sc s(2,5) dist n(2) by (simp add: table_sound_def)
    moreover have "only_changes (tm_name t) e' ?e" by (rule only_changesI) (simp_all add: apart_same pool)
    ultimately show ?thesis using Some by (simp add: runs_bind runs_give)
  qed
qed

lemma only_handle:
  "handle_for name h e \<Longrightarrow> en_pool e' = en_pool e \<Longrightarrow> en_root e' = en_root e \<Longrightarrow> handle_for name h e'"
  using table_file_root [of e' e] by (simp add: handle_for_def)

text \<open>What the insertion of one row does.\<close>

definition row_inserted :: "env \<Rightarrow> table_meta \<Rightarrow> tuple \<Rightarrow> engine \<Rightarrow> heap_file \<Rightarrow> engine \<Rightarrow> bool" where
  "row_inserted env t vs e h' e' \<longleftrightarrow> only_changes (tm_name t) e e' \<and> table_sound e' t \<and> handle_for (tm_name t) h' e' \<and>
     (\<exists>rid ws. coerce_tuple (env_fmt env) t vs = Inr ws \<and> refs_hold e t ws \<and> table_rows e (tm_name t) rid = None \<and>
        table_rows e' (tm_name t) = (table_rows e (tm_name t))(rid \<mapsto> ws))"

lemma runs_insert_row:
  assumes ok: "table_sound e t" and db: "in_db e t" and all: "all_stored e" and batch: "0 < env_batch env"
    and h: "handle_for (tm_name t) h e"
  shows "runs (insert_row env t vs h) e (row_inserted env t vs e) (only_changes (tm_name t) e)"
  unfolding insert_row_def runs_bind
proof (rule runs_weaken [OF runs_validate_new [OF ok db all batch]])
  fix ws e1
  assume a: "keeps e e1 \<and> coerce_tuple (env_fmt env) t vs = Inr ws \<and> refs_hold e t ws \<and>
    key_checked t (table_rows e (tm_name t)) ws e1"
  have st: "stored_ok e t" using ok by (simp add: table_sound_def)
  have T: "table_rows e1 (tm_name t) = table_rows e (tm_name t)" by (rule keeps_rows(2) [OF conjunct1 [OF a] st])
  have ok1: "table_sound e1 t" using a ok db by (simp add: keeps_def)
  have st1: "stored_ok e1 t" using ok1 by (simp add: table_sound_def)
  have h1: "handle_for (tm_name t) h e1" using keeps_handle [OF conjunct1 [OF a] st h] .
  have only1: "only_changes (tm_name t) e e1" using keeps_only a by blast
  have fits: "row_fits t ws" using coerced_row a by blast
  have check: "key_checked t (table_rows e1 (tm_name t)) ws e1" using a T by simp
  have rest: "runs (ebind (case primary_position t of None \<Rightarrow> give (Inr ())
        | Some position \<Rightarrow> ebind (give (value_at ws position)) (\<lambda>k. index_insert env (tm_name t) k rid))
       (\<lambda>_. give (Inr h'))) e2 (row_inserted env t vs e) (only_changes (tm_name t) e)"
    if b: "row_stored t ws e1 rid e2" "handle_for (tm_name t) h' e2" for rid h' e2
    unfolding runs_bind
  proof (rule runs_weaken [OF runs_enter [OF ok1 b(1) check fits]])
    fix u e3
    assume c: "table_sound e3 t \<and> only_changes (tm_name t) e2 e3 \<and> en_pool e3 = en_pool e2 \<and> en_root e3 = en_root e2"
    have "only_changes (tm_name t) e e3" using only1 b(1) c only_trans unfolding row_stored_def by blast
    moreover have "handle_for (tm_name t) h' e3" using only_handle [OF b(2)] c by simp
    moreover have "table_rows e3 (tm_name t) = (table_rows e (tm_name t))(rid \<mapsto> ws)"
      using b(1) c T table_file_root [of e3 e2] by (simp add: row_stored_def table_rows_def fun_eq_iff)
    ultimately show "runs (give (Inr h')) e3 (row_inserted env t vs e) (only_changes (tm_name t) e)"
      using a b(1) c T by (auto simp: runs_give row_inserted_def row_stored_def)
  qed simp
  show "runs (on_file h (insert_heap ws)) e1 (\<lambda>x e'. runs (case x of (rid, h') \<Rightarrow>
      ebind (case primary_position t of None \<Rightarrow> give (Inr ())
        | Some position \<Rightarrow> ebind (give (value_at ws position)) (\<lambda>k. index_insert env (tm_name t) k rid))
       (\<lambda>_. give (Inr h'))) e' (row_inserted env t vs e) (only_changes (tm_name t) e)) (only_changes (tm_name t) e)"
    by (rule runs_weaken [OF runs_store [OF st1 h1 fits]]) (use rest only1 in auto)
qed (use keeps_only in blast)

section \<open>The statement\<close>

definition rows_added :: "(row_id \<Rightarrow> tuple option) \<Rightarrow> tuple list \<Rightarrow> (row_id \<Rightarrow> tuple option) \<Rightarrow> bool" where
  "rows_added T wss T' \<longleftrightarrow> (\<exists>rids. length rids = length wss \<and> distinct rids \<and> (\<forall>rid\<in>set rids. T rid = None) \<and>
     T' = T ++ map_of (zip rids wss))"

lemma rows_added_Nil: "rows_added T [] T"
  by (simp add: rows_added_def)

lemma rows_added_Cons:
  assumes "T rid = None" "rows_added (T(rid \<mapsto> ws)) wss T'"
  shows "rows_added T (ws # wss) T'"
proof -
  obtain rids where r: "length rids = length wss" "distinct rids" "\<forall>r\<in>set rids. (T(rid \<mapsto> ws)) r = None"
    "T' = T(rid \<mapsto> ws) ++ map_of (zip rids wss)" using assms(2) by (auto simp: rows_added_def)
  have new: "rid \<notin> set rids" using r(3) by auto
  then have none: "map_of (zip rids wss) rid = None" using r(1) by (simp add: map_of_zip_is_None)
  have "T' = T ++ map_of (zip (rid # rids) (ws # wss))"
    using none by (auto simp: r(4) fun_eq_iff map_add_def split: option.splits)
  moreover have "\<forall>r\<in>set (rid # rids). T r = None" using r(3) new assms(1) by (auto split: if_splits)
  ultimately show ?thesis using r(1,2) new unfolding rows_added_def
    by (intro exI [of _ "rid # rids"]) simp
qed

lemma rows_added_le: "rows_added T wss T' \<Longrightarrow> T \<subseteq>\<^sub>m T'"
  by (auto simp: rows_added_def map_le_def map_add_def dom_def map_of_zip_is_None split: option.splits)
    (metis not_None_eq map_of_SomeD set_zip_leftD)

lemma fk_mono:
  assumes "en_catalog e' = en_catalog e" "\<And>n t. getTable n (en_catalog e) = Some t \<Longrightarrow> table_rows e n \<subseteq>\<^sub>m table_rows e' n"
    and "fk_holds e c v"
  shows "fk_holds e' c v"
proof -
  have "table_rows e' n r = Some vs" if "getTable n (en_catalog e) = Some t" "table_rows e n r = Some vs" for n t r vs
    using assms(2) [OF that(1)] that(2) by (auto simp: map_le_def dom_def)
  then show ?thesis using assms(1,3) unfolding fk_holds_def by metis
qed

lemma refs_grow:
  assumes only: "only_changes name e e'" and all: "all_stored e" and le: "table_rows e name \<subseteq>\<^sub>m table_rows e' name"
    and refs: "refs_hold e t vs"
  shows "refs_hold e' t vs"
proof -
  have "table_rows e n \<subseteq>\<^sub>m table_rows e' n" if "getTable n (en_catalog e) = Some t'" for n t'
  proof (cases "n = name")
    case False
    have "stored_ok e t'" "tm_name t' = n" using all that by (simp_all add: all_stored_def)
    then show ?thesis using other_rows(2) [OF only, of t'] False by simp
  qed (use le in simp)
  moreover have "en_catalog e' = en_catalog e" using only by (simp add: only_changes_def)
  ultimately have "fk_holds e' c v" if "fk_holds e c v" for c v using that fk_mono by blast
  then show ?thesis using refs unfolding refs_hold_def by blast
qed

text \<open>The coerced row of a list of value expressions.\<close>

definition evaluated :: "env \<Rightarrow> insert_stmt \<Rightarrow> table_meta \<Rightarrow> ast list \<Rightarrow> tuple \<Rightarrow> bool" where
  "evaluated env s t es ws \<longleftrightarrow>
     (\<exists>vs. insert_values (env_fmt env) t (ins_columns s) es = Inr vs \<and> coerce_tuple (env_fmt env) t vs = Inr ws)"

definition rows_inserted :: "env \<Rightarrow> insert_stmt \<Rightarrow> table_meta \<Rightarrow> ast list list \<Rightarrow> engine \<Rightarrow> engine \<Rightarrow> bool" where
  "rows_inserted env s t rows e e' \<longleftrightarrow> (\<exists>wss. list_all2 (evaluated env s t) rows wss \<and>
     rows_added (table_rows e (tm_name t)) wss (table_rows e' (tm_name t)) \<and> (\<forall>ws\<in>set wss. refs_hold e' t ws))"

lemma rows_inserted_Cons:
  assumes first: "insert_values (env_fmt env) t (ins_columns s) es = Inr vs" "row_inserted env t vs e h1 e1"
    and rest: "rows_inserted env s t rows e1 e2" "only_changes (tm_name t) e1 e2" and all: "all_stored e1" "all_stored e"
  shows "rows_inserted env s t (es # rows) e e2"
proof -
  obtain rid ws where w: "coerce_tuple (env_fmt env) t vs = Inr ws" "refs_hold e t ws"
    "table_rows e (tm_name t) rid = None" "table_rows e1 (tm_name t) = (table_rows e (tm_name t))(rid \<mapsto> ws)"
    "only_changes (tm_name t) e e1" using first(2) by (auto simp: row_inserted_def)
  obtain wss where r: "list_all2 (evaluated env s t) rows wss"
    "rows_added (table_rows e1 (tm_name t)) wss (table_rows e2 (tm_name t))" "\<forall>ws\<in>set wss. refs_hold e2 t ws"
    using rest(1) by (auto simp: rows_inserted_def)
  have "table_rows e (tm_name t) \<subseteq>\<^sub>m table_rows e1 (tm_name t)" using w(3,4) by (auto simp: map_le_def)
  then have "refs_hold e1 t ws" using refs_grow [OF w(5) all(2) _ w(2)] by blast
  then have "refs_hold e2 t ws" using refs_grow [OF rest(2) all(1) rows_added_le [OF r(2)]] by blast
  moreover have "evaluated env s t es ws" using first(1) w(1) by (auto simp: evaluated_def)
  moreover have "rows_added (table_rows e (tm_name t)) (ws # wss) (table_rows e2 (tm_name t))"
    by (rule rows_added_Cons [where T = "table_rows e (tm_name t)", OF w(3)]) (use r(2) w(4) in simp)
  ultimately show ?thesis using r(1,3) unfolding rows_inserted_def by (intro exI [of _ "ws # wss"]) simp
qed

lemma runs_insert_rows:
  assumes "table_sound e t" "in_db e t" "all_stored e" "0 < env_batch env" "handle_for (tm_name t) h e"
  shows "runs (insert_rows env s t rows h) e
    (\<lambda>h' e'. only_changes (tm_name t) e e' \<and> table_sound e' t \<and> handle_for (tm_name t) h' e' \<and> rows_inserted env s t rows e e')
    (only_changes (tm_name t) e)"
  using assms
proof (induction rows arbitrary: e h)
  case Nil
  then have "only_changes (tm_name t) e e" by (auto intro: only_refl simp: all_stored_def)
  then show ?case using Nil by (simp add: runs_give rows_inserted_def rows_added_Nil)
next
  case (Cons es rows)
  have refl: "only_changes (tm_name t) e e" using Cons.prems(3) by (auto intro: only_refl simp: all_stored_def)
  show ?case
  proof (cases "insert_values (env_fmt env) t (ins_columns s) es")
    case (Inl x)
    then show ?thesis using refl by (simp add: runs_bind runs_give)
  next
    case (Inr vs)
    have "runs (insert_rows env s t rows h1) e1
        (\<lambda>h' e'. only_changes (tm_name t) e e' \<and> table_sound e' t \<and> handle_for (tm_name t) h' e' \<and>
           rows_inserted env s t (es # rows) e e') (only_changes (tm_name t) e)"
      if a: "row_inserted env t vs e h1 e1" for h1 e1
    proof -
      have b: "only_changes (tm_name t) e e1" "table_sound e1 t" "handle_for (tm_name t) h1 e1"
        using a by (simp_all add: row_inserted_def)
      have db1: "in_db e1 t" using b(1) Cons.prems(2) by (simp add: only_changes_def in_db_def)
      have all1: "all_stored e1" using all_stored_only [OF b(1) Cons.prems(3)] Cons.prems(2) b(2)
        by (simp add: in_db_def table_sound_def)
      note ih = Cons.IH [OF b(2) db1 all1 Cons.prems(4) b(3)]
      show ?thesis
      proof (rule runs_weaken [OF ih])
        fix h' e'
        assume c: "only_changes (tm_name t) e1 e' \<and> table_sound e' t \<and> handle_for (tm_name t) h' e' \<and> rows_inserted env s t rows e1 e'"
        then have "rows_inserted env s t (es # rows) e e'"
          using rows_inserted_Cons [OF Inr a _ _ all1 Cons.prems(3)] by blast
        then show "only_changes (tm_name t) e e' \<and> table_sound e' t \<and> handle_for (tm_name t) h' e' \<and>
           rows_inserted env s t (es # rows) e e'" using c only_trans [OF b(1)] by blast
      qed (use only_trans [OF b(1)] in blast)
    qed
    then have rest: "\<And>h1 e1. row_inserted env t vs e h1 e1 \<Longrightarrow> runs (insert_rows env s t rows h1) e1
        (\<lambda>h' e'. only_changes (tm_name t) e e' \<and> table_sound e' t \<and> handle_for (tm_name t) h' e' \<and>
           rows_inserted env s t (es # rows) e e') (only_changes (tm_name t) e)" .
    have "runs (insert_row env t vs h) e (\<lambda>h1 e1. runs (insert_rows env s t rows h1) e1
        (\<lambda>h' e'. only_changes (tm_name t) e e' \<and> table_sound e' t \<and> handle_for (tm_name t) h' e' \<and>
           rows_inserted env s t (es # rows) e e') (only_changes (tm_name t) e)) (only_changes (tm_name t) e)"
      by (rule runs_weaken [OF runs_insert_row [OF Cons.prems]]) (use rest in auto)
    then show ?thesis using Inr by (simp add: runs_bind runs_give)
  qed
qed

definition references_ok :: "engine \<Rightarrow> bool" where
  "references_ok e \<longleftrightarrow>
     (\<forall>n t rid vs. getTable n (en_catalog e) = Some t \<longrightarrow> table_rows e n rid = Some vs \<longrightarrow> refs_hold e t vs)"

text \<open>What a statement did to the tables other than its own.\<close>

definition others_unchanged :: "string \<Rightarrow> engine \<Rightarrow> engine \<Rightarrow> bool" where
  "others_unchanged name e e' \<longleftrightarrow> en_catalog e' = en_catalog e \<and>
     (\<forall>n t. getTable n (en_catalog e) = Some t \<longrightarrow> n \<noteq> name \<longrightarrow> table_rows e' n = table_rows e n)"

lemma only_others: "only_changes name e e' \<Longrightarrow> all_stored e \<Longrightarrow> others_unchanged name e e'"
  unfolding others_unchanged_def
proof (intro conjI allI impI)
  assume only: "only_changes name e e'" and all: "all_stored e"
  show "en_catalog e' = en_catalog e" using only by (simp add: only_changes_def)
  fix n t assume t: "getTable n (en_catalog e) = Some t" "n \<noteq> name"
  then have "stored_ok e t" "tm_name t = n" using all by (simp_all add: all_stored_def)
  then show "table_rows e' n = table_rows e n" using other_rows(2) [OF only, of t] t(2) by simp
qed

definition inserted :: "env \<Rightarrow> insert_stmt \<Rightarrow> engine \<Rightarrow> engine \<Rightarrow> bool" where
  "inserted env s e e' \<longleftrightarrow> (\<exists>t wss. getTable (ins_table s) (en_catalog e) = Some t \<and>
     list_all2 (evaluated env s t) (valueRows s) wss \<and>
     rows_added (table_rows e (ins_table s)) wss (table_rows e' (ins_table s)))"

lemma added_member:
  assumes "rows_added T wss T'" "T' rid = Some vs"
  shows "T rid = Some vs \<or> vs \<in> set wss"
  using assms by (auto simp: rows_added_def map_add_Some_iff dest!: map_of_SomeD set_zip_rightD)

lemma inserted_references:
  assumes only: "only_changes (tm_name t) e e'" and all: "all_stored e" and t: "getTable (tm_name t) (en_catalog e) = Some t"
    and ins: "rows_inserted env s t rows e e'" and refs: "references_ok e"
  shows "references_ok e'"
  unfolding references_ok_def
proof (intro allI impI)
  fix n t' rid vs
  assume t': "getTable n (en_catalog e') = Some t'" and vs: "table_rows e' n rid = Some vs"
  obtain wss where w: "rows_added (table_rows e (tm_name t)) wss (table_rows e' (tm_name t))" "\<forall>ws\<in>set wss. refs_hold e' t ws"
    using ins by (auto simp: rows_inserted_def)
  have old: "refs_hold e' u us" if "getTable m (en_catalog e) = Some u" "table_rows e m r = Some us" for m u r us
    using refs_grow [OF only all rows_added_le [OF w(1)]] refs that unfolding references_ok_def by blast
  have g: "getTable n (en_catalog e) = Some t'" using t' only by (simp add: only_changes_def)
  show "refs_hold e' t' vs"
  proof (cases "n = tm_name t")
    case True
    then have "t' = t" "table_rows e' (tm_name t) rid = Some vs" using g t vs by simp_all
    then show ?thesis using added_member [OF w(1)] w(2) old [OF t] by blast
  next
    case False
    then have "table_rows e n rid = Some vs" using only_others [OF only all] g vs by (simp add: others_unchanged_def)
    then show ?thesis by (rule old [OF g])
  qed
qed

text \<open>The state in which the rows are inserted: the file is on disk and recorded in the log.\<close>

lemma runs_prepare:
  assumes db: "db_ok e" and t: "in_db e t"
  shows "runs (on_file (open_heap (table_file e (tm_name t))) flush_heap) (forget_mapping n e)
    (\<lambda>x e1. x = ((), open_heap (table_file e (tm_name t))) \<and> db_ok e1 \<and> unchanged e e1 \<and> en_indexes e1 = en_indexes e \<and>
       table_file e1 = table_file e \<and> saved (table_file e (tm_name t)) (en_pool e1)) (\<lambda>_. False)"
proof -
  let ?e = "forget_mapping n e"
  have ok: "table_sound e t" using db t by (simp add: db_ok_def in_db_def)
  have st: "stored_ok ?e t" using ok by (simp add: forget_mapping_def table_sound_def)
  have e: "table_file ?e = table_file e" "db_ok ?e" "unchanged e ?e" "en_indexes ?e = en_indexes e"
    using db by (simp_all add: forget_mapping_def unchanged_def)
  have h: "handle_for (tm_name t) (open_heap (table_file e (tm_name t))) ?e" by (simp add: handle_for_def e)
  show ?thesis
  proof (rule runs_weaken [OF runs_flush [OF st h]])
    fix x e1
    assume a: "x = ((), open_heap (table_file e (tm_name t))) \<and> keeps ?e e1 \<and> en_indexes e1 = en_indexes ?e \<and>
      saved (table_file ?e (tm_name t)) (en_pool e1)"
    then have "db_ok e1" "unchanged ?e e1" using keeps_db keeps_unchanged e(2) db_stored by blast+
    moreover have "table_file e1 = table_file ?e" by (rule table_file_root) (use a in \<open>simp add: keeps_def\<close>)
    ultimately show "x = ((), open_heap (table_file e (tm_name t))) \<and> db_ok e1 \<and> unchanged e e1 \<and> en_indexes e1 = en_indexes e \<and>
       table_file e1 = table_file e \<and> saved (table_file e (tm_name t)) (en_pool e1)"
      using a e unchanged_trans [OF e(3)] by simp
  qed simp
qed

lemma logged_ok:
  assumes "db_ok e"
  shows "db_ok (e\<lparr>en_wal := w, en_meta := d\<rparr>)" "unchanged e (e\<lparr>en_wal := w, en_meta := d\<rparr>)"
  using assms by (simp_all add: unchanged_def)

lemma stored_file: "stored_ok e t \<Longrightarrow> \<exists>c. files (disk_of e) (table_file e (tm_name t)) = Some c \<and>
    files (pdisk (en_pool e)) (table_file e (tm_name t)) = Some c"
  using heap_at_pool not_meta by (fastforce simp: stored_ok_def disk_of_def Let_def)

lemma forget_keeps:
  assumes "pool_ok page_abs (en_pool e)" "quiet (en_pool e)"
  shows "keeps e (forget_statistics n (forget_mapping n e))"
  unfolding forget_statistics_def forget_mapping_def using assms by (simp add: keeps_def same_heap_refl)

lemma runs_insert_work:
  assumes db: "db_ok e" and t: "in_db e t" and name: "ins_table s = tm_name t" and batch: "0 < env_batch env"
  shows "runs (ebind (insert_rows env s t (valueRows s) (open_heap (table_file e (tm_name t)))) (\<lambda>h'.
      ebind (on_file h' flush_heap) (\<lambda>_.
        ebind (change (forget_statistics (tm_name t) \<circ> forget_mapping (tm_name t))) (\<lambda>_.
          give (Inr (affected ''inserted'' (length (valueRows s)))))))) e
    (\<lambda>q e'. only_changes (tm_name t) e e' \<and> db_ok e' \<and> rows_inserted env s t (valueRows s) e e' \<and>
       qr_rowsAffected q = length (valueRows s)) (only_changes (tm_name t) e)"
proof -
  have ok: "table_sound e t" and g: "getTable (tm_name t) (en_catalog e) = Some t" using db t unfolding db_ok_def in_db_def by blast+
  have h: "handle_for (tm_name t) (open_heap (table_file e (tm_name t))) e" by (simp add: handle_for_def)
  show ?thesis
    unfolding runs_bind
  proof (rule runs_weaken [OF runs_insert_rows [OF ok t db_stored [OF db] batch h]])
    fix h1 e1
    assume a: "only_changes (tm_name t) e e1 \<and> table_sound e1 t \<and> handle_for (tm_name t) h1 e1 \<and>
      rows_inserted env s t (valueRows s) e e1"
    have st1: "stored_ok e1 t" using a by (simp add: table_sound_def)
    have db1: "db_ok e1" by (rule db_ok_only [OF conjunct1 [OF a] db g]) (use a in blast)
    let ?post = "\<lambda>q e'. only_changes (tm_name t) e e' \<and> db_ok e' \<and> rows_inserted env s t (valueRows s) e e' \<and>
       qr_rowsAffected q = length (valueRows s)"
    show "runs (on_file h1 flush_heap) e1 (\<lambda>x e'. runs (change (forget_statistics (tm_name t) \<circ> forget_mapping (tm_name t))) e'
      (\<lambda>x e'. runs (give (Inr (affected ''inserted'' (length (valueRows s))))) e' ?post (only_changes (tm_name t) e))
      (only_changes (tm_name t) e)) (only_changes (tm_name t) e)"
    proof (rule runs_weaken [OF runs_flush [OF st1]])
      show "handle_for (tm_name t) h1 e1" using a by blast
      fix x e2
      assume b: "x = ((), h1) \<and> keeps e1 e2 \<and> en_indexes e2 = en_indexes e1 \<and> saved (table_file e1 (tm_name t)) (en_pool e2)"
      let ?e = "forget_statistics (tm_name t) (forget_mapping (tm_name t) e2)"
      have pool2: "pool_ok page_abs (en_pool e2)" "quiet (en_pool e2)" using b unfolding keeps_def by blast+
      have k: "keeps e1 ?e" by (rule keeps_trans [OF _ forget_keeps [OF pool2]]) (use b in blast)
      have "only_changes (tm_name t) e ?e" using only_trans a keeps_only [OF k] by blast
      moreover have "db_ok ?e" by (rule keeps_db [OF k db1])
      moreover have "rows_inserted env s t (valueRows s) e ?e"
      proof -
        have "refs_hold ?e t ws = refs_hold e1 t ws" for ws
          by (simp only: refs_hold_def keeps_fk [OF k db_stored [OF db1]])
        then show ?thesis using a unfolding rows_inserted_def keeps_rows(2) [OF k st1] by presburger
      qed
      ultimately show "runs (change (forget_statistics (tm_name t) \<circ> forget_mapping (tm_name t))) e2
        (\<lambda>x e'. runs (give (Inr (affected ''inserted'' (length (valueRows s))))) e' ?post (only_changes (tm_name t) e))
        (only_changes (tm_name t) e)" by (simp add: runs_change runs_give affected_def)
    qed simp
  qed simp
qed

text \<open>
  C1. \<open>INSERT\<close> is atomic and correct. Either it throws and every table holds the rows it held
  before, whatever was inserted, evicted or written on the way; or every row of the statement,
  evaluated, placed and coerced to the types of the columns, is in the table under a row id that
  was free, all other rows and all other tables are as before, and the affected count is the
  number of rows. In both cases the database invariant holds again (well-formed files, rows
  that fit their columns, unique keys, exact indexes) and foreign keys that held still hold.
\<close>

theorem insert_statement_correct:
  assumes "db_ok e" "0 < env_batch env"
  shows "runs (executeInsert env s) e
    (\<lambda>q e'. db_ok e' \<and> inserted env s e e' \<and> others_unchanged (ins_table s) e e' \<and>
       qr_rowsAffected q = length (valueRows s) \<and> (references_ok e \<longrightarrow> references_ok e'))
    (\<lambda>e'. db_ok e' \<and> unchanged e e')"
proof (cases "getTable (ins_table s) (en_catalog e)")
  case None
  then show ?thesis using assms(1)
    by (simp add: executeInsert_def runs_bind Let_def runs_error [of "table_named (ins_table s)"] table_named_def unchanged_def)
next
  case (Some t)
  have name: "ins_table s = tm_name t" and ok: "table_sound e t" using assms(1) Some by (simp_all add: db_ok_def)
  have t: "in_db e t" using Some name by (simp add: in_db_def)
  let ?f = "table_file e (tm_name t)"
  let ?Q = "\<lambda>q e'. db_ok e' \<and> inserted env s e e' \<and> others_unchanged (ins_table s) e e' \<and>
       qr_rowsAffected q = length (valueRows s) \<and> (references_ok e \<longrightarrow> references_ok e')"
  let ?E = "\<lambda>e'. db_ok e' \<and> unchanged e e'"
  let ?work = "\<lambda>h. ebind (insert_rows env s t (valueRows s) h) (\<lambda>h'.
      ebind (on_file h' flush_heap) (\<lambda>_.
        ebind (change (forget_statistics (tm_name t) \<circ> forget_mapping (tm_name t))) (\<lambda>_.
          give (Inr (affected ''inserted'' (length (valueRows s)))))))"
  have guarded: "runs (ebind (record_before ?f) (\<lambda>_. on_throw (?work (open_heap ?f))
      (ebind (change (forget_index (tm_name t))) (\<lambda>_. ebind (on_pool (invalidateFile ?f)) (\<lambda>_.
        restore_table_file ?f (files (disk_of e1) ?f)))))) e1 ?Q ?E"
    if a: "db_ok e1 \<and> unchanged e e1 \<and> en_indexes e1 = en_indexes e \<and> table_file e1 = table_file e \<and> saved ?f (en_pool e1)" for e1
  proof -
    have t1: "in_db e1 t" using t a by (simp add: in_db_def unchanged_def)
    have g1: "getTable (tm_name t) (en_catalog e1) = Some t" using t1 by (simp add: in_db_def)
    have "stored_ok e1 t" using a g1 by (simp add: db_ok_def table_sound_def)
    then obtain c where c: "files (disk_of e1) ?f = Some c" "files (pdisk (en_pool e1)) ?f = Some c"
      using stored_file a by metis
    have "quiet (en_pool e1)" using a by (simp add: db_ok_def)
    then obtain w d where rec: "record_before ?f e1 = (Inr (), e1\<lparr>en_wal := w, en_meta := d\<rparr>)" using runs_record by blast
    let ?e = "e1\<lparr>en_wal := w, en_meta := d\<rparr>"
    have e: "db_ok ?e" "in_db ?e t" "table_file ?e = table_file e" "unchanged e ?e" "getTable (tm_name t) (en_catalog ?e) = Some t"
      "saved (table_file ?e (tm_name t)) (en_pool ?e)" "files (pdisk (en_pool ?e)) (table_file ?e (tm_name t)) = Some c"
      using a t1 g1 c(2) by (simp_all add: in_db_def unchanged_def)
    have undo: "runs (ebind (change (forget_index (tm_name t))) (\<lambda>_. ebind (on_pool (invalidateFile ?f)) (\<lambda>_.
        restore_table_file ?f (Some c)))) e2 (\<lambda>_. ?E) ?E" if o: "only_changes (tm_name t) ?e e2" for e2
    proof -
      have "only_changes (tm_name t) e2 (forget_index (tm_name t) e2)"
        using o by (intro only_changesI) (auto simp: forget_index_def only_changes_def apart_same)
      then have "only_changes (tm_name t) ?e (forget_index (tm_name t) e2)" by (rule only_trans [OF o])
      from runs_undo [OF e(1,5,6,7) this] have "runs (ebind (on_pool (invalidateFile ?f)) (\<lambda>_. restore_table_file ?f (Some c)))
          (forget_index (tm_name t) e2) (\<lambda>_ e3. db_ok e3 \<and> unchanged ?e e3) (\<lambda>_. False)"
        by (simp add: forget_index_def e(3) [simplified])
      then show ?thesis unfolding runs_bind [of "change _"] runs_change
        by (rule runs_weaken) (use unchanged_trans [OF e(4)] in auto)
    qed
    have "runs (?work (open_heap ?f)) ?e ?Q (\<lambda>e2. runs (ebind (change (forget_index (tm_name t))) (\<lambda>_.
        ebind (on_pool (invalidateFile ?f)) (\<lambda>_. restore_table_file ?f (Some c)))) e2 (\<lambda>_. ?E) ?E)"
    proof (rule runs_weaken [OF runs_insert_work [OF e(1,2) name assms(2), unfolded e(3)]])
      fix q e'
      assume b: "only_changes (tm_name t) ?e e' \<and> db_ok e' \<and> rows_inserted env s t (valueRows s) ?e e' \<and>
        qr_rowsAffected q = length (valueRows s)"
      have all: "all_stored ?e" by (rule db_stored [OF e(1)])
      have same: "table_rows ?e n = table_rows e n" if "getTable n (en_catalog e) = Some u" for n u
        using e(4) that by (simp add: unchanged_def)
      have cat: "en_catalog ?e = en_catalog e" using e(4) by (simp add: unchanged_def)
      have "inserted env s e e'" using b same [OF Some] Some name by (auto simp: inserted_def rows_inserted_def)
      moreover have "others_unchanged (ins_table s) e e'"
        using only_others [OF conjunct1 [OF b] all] same name cat by (simp add: others_unchanged_def)
      moreover have "references_ok e'" if "references_ok e"
      proof (rule inserted_references [OF conjunct1 [OF b] all e(5)])
        have fk: "fk_holds ?e cm v" if "fk_holds e cm v" for cm v
          using fk_mono [OF cat _ that] same by simp
        show "references_ok ?e" using \<open>references_ok e\<close> same cat fk unfolding references_ok_def refs_hold_def
          by (metis (no_types, lifting) case_prodD case_prodI2)
      qed (use b in blast)
      ultimately show "?Q q e'" using b by blast
    qed (rule undo)
    then show ?thesis using c(1) by (simp add: runs_bind [of "record_before ?f"] runs_result [where m = "record_before ?f" and e = e1, OF rec] runs_throw)
  qed
  have "runs (on_file (open_heap ?f) flush_heap) (forget_mapping (tm_name t) e) (\<lambda>x e1. runs (case x of (_, h) \<Rightarrow> \<lambda>e.
      let before = files (disk_of e) ?f in ebind (record_before ?f) (\<lambda>_. on_throw (?work h)
      (ebind (change (forget_index (tm_name t))) (\<lambda>_. ebind (on_pool (invalidateFile ?f)) (\<lambda>_.
        restore_table_file ?f before)))) e) e1 ?Q ?E) ?E"
    by (rule runs_weaken [OF runs_prepare [OF assms(1) t]]) (use guarded [unfolded runs_def] in \<open>auto simp: Let_def runs_def\<close>)
  moreover have "table_named (tm_name t) e = (Inr t, e)" using t by (simp add: table_named_def in_db_def)
  moreover have "path_of (tm_name t) e = (Inr ?f, e)" using ok by (intro path_of_safe) (simp add: table_sound_def stored_ok_def)
  ultimately show ?thesis unfolding executeInsert_def Let_def name
    by (simp only: runs_bind runs_result [of "table_named (tm_name t)"] runs_result [of "path_of (tm_name t)"] runs_change)
qed

text \<open>A database with one empty table whose second column refers to the key.\<close>

definition demo_table :: table_meta where
  "demo_table = \<lparr>tm_name = ''t'', tm_columns =
     [new_column\<lparr>cm_name := ''id'', cm_type := ''INTEGER'', cm_primary_key := True, cm_not_null := True\<rparr>,
      new_column\<lparr>cm_name := ''up'', cm_type := ''INTEGER'', cm_fk_table := ''t'', cm_fk_col := ''id''\<rparr>]\<rparr>"

definition demo_engine :: engine where
  "demo_engine = \<lparr>en_root = ''db'', en_catalog = addTable demo_table new_catalog,
     en_pool = new_pool 4 \<lparr>files = [''db/tables/t.heap'' \<mapsto> []], writable = (\<lambda>_. True)\<rparr>,
     en_meta = (\<lambda>_. None), en_indexes = (\<lambda>_. None), en_statistics = {}, en_mapped = {},
     en_wal = \<lparr>walTransactionId = 0, walLoggedFiles = {}\<rparr>\<rparr>"

definition demo_env :: env where
  "demo_env = \<lparr>env_fmt = (\<lambda>_. []), env_batch = 16\<rparr>"

lemma demo_file: "table_file demo_engine ''t'' = ''db/tables/t.heap''"
  by (simp add: table_file_def demo_engine_def join_def)

lemma demo_heap_at: "heap_at ''db/tables/t.heap'' (en_pool demo_engine) \<and>
    heap_rows ''db/tables/t.heap'' (en_pool demo_engine) rid = None"
  by (auto simp: heap_at_def heap_rows_def pages_of_def demo_engine_def heap_ok_def open_heap_def new_pool_def pool_ok_def
      frames_ok_def disk_ok_def quiet_def pin_count_def bounded_def heap_get_def)

lemma demo_catalog: "getTable n (en_catalog demo_engine) = (if n = ''t'' then Some demo_table else None)"
  by (simp add: demo_engine_def addTable_def changed_def getTable_def new_catalog_def recomputeFingerprint_def demo_table_def)

lemma demo_db_ok: "db_ok demo_engine"
proof -
  have none: "table_rows demo_engine ''t'' rid = None" for rid
    by (simp add: table_rows_def demo_file demo_heap_at)
  have "upper ''INTEGER'' = ''INTEGER''" by code_simp
  then have "schema_ok demo_table" by (simp add: schema_ok_def demo_table_def new_column_def column_kind_def)
  moreover have "stored_ok demo_engine demo_table"
  proof -
    have "safe_name ''t''" by code_simp
    then show ?thesis using demo_heap_at by (simp add: stored_ok_def demo_table_def demo_file)
  qed
  ultimately have "table_sound demo_engine demo_table"
    using none by (simp add: table_sound_def keys_distinct_def demo_table_def) (simp add: demo_engine_def)
  then show ?thesis using heap_at_pool [of "''db/tables/t.heap''" "en_pool demo_engine"] demo_heap_at demo_catalog
    by (auto simp: db_ok_def demo_table_def split: if_splits)
qed

theorem insert_statement_correct_witness:
  "runs (executeInsert demo_env \<lparr>ins_line = 0, ins_col = 0, ins_table = ''t'', ins_columns = [], valueRows = []\<rparr>) demo_engine
    (\<lambda>q e'. db_ok e' \<and> qr_rowsAffected q = 0) (\<lambda>e'. unchanged demo_engine e')"
  by (rule runs_weaken [OF insert_statement_correct [OF demo_db_ok]]) (simp_all add: demo_env_def)

end
