(* ===== verification/Engine_Change.thy ===== *)
theory Engine_Change
  imports Engine_Insert
begin

text \<open>
  \<open>DELETE\<close> and \<open>UPDATE\<close> over the whole engine. \<open>runs_change_table\<close> is what they share: read the
  rows, change those the condition picks one after the other, and on any exception put the file
  back. A statement has to say what its loop does to the rows (\<open>changes_rows\<close>); its first
  check is that no row refers to a row that goes (\<open>runs_no_references\<close>).
\<close>

section \<open>Scanned rows\<close>

definition bound_rows :: "table_meta \<Rightarrow> (row_id \<times> tuple) list \<Rightarrow> scan_row list" where
  "bound_rows t rs = map (\<lambda>(rid, vs). (rid, bind_row (tm_name t) (tm_name t) t vs)) rs"

lemma bound_rows_simps [simp]:
  "bound_rows t [] = []" "bound_rows t ((rid, vs) # rs) = (rid, bind_row (tm_name t) (tm_name t) t vs) # bound_rows t rs"
  by (simp_all add: bound_rows_def)

lemma bind_row_values [simp]: "er_values (bind_row n a t vs) = vs"
  by (simp add: bind_row_def)

lemma runs_scan_reads:
  assumes "stored_ok e t" "0 < env_batch env"
  shows "runs (scan_table_file env (tm_name t)) e
    (\<lambda>rows e'. only_reads e e' \<and> rows_of_map rows (table_rows e (tm_name t))) (\<lambda>_. False)"
  by (rule runs_weaken [OF runs_scan [OF assms]]) (simp_all add: only_reads_def)

lemma runs_scan_alias:
  assumes st: "stored_ok e t" and t: "in_db e t" and batch: "0 < env_batch env"
  shows "runs (scanTable env (tm_name t) alias) e
    (\<lambda>rows e'. only_reads e e' \<and> (\<exists>rs. rows_of_map rs (table_rows e (tm_name t)) \<and>
       rows = map (\<lambda>(rid, vs). (rid, bind_row (tm_name t) alias t vs)) rs)) (\<lambda>_. False)"
proof -
  have table: "table_named (tm_name t) e = (Inr t, e)" using t by (simp add: table_named_def in_db_def)
  have rows: "map_r (\<lambda>(rid, vs).
        if length vs \<noteq> length (tm_columns t) then Inl (Runtime_Error (''Tuple/schema width mismatch in '' @ tm_name t))
        else Inr (rid, bind_row (tm_name t) alias t vs)) rs = Inr (map (\<lambda>(rid, vs). (rid, bind_row (tm_name t) alias t vs)) rs)"
    if "rows_of_map rs (table_rows e (tm_name t))" for rs
  proof -
    have "\<forall>(rid, vs)\<in>set rs. length vs = length (tm_columns t)"
      using that stored_fits [OF st] row_fits_length by (fastforce simp: rows_of_map_def)
    then show ?thesis by (induction rs) auto
  qed
  show ?thesis
    unfolding scanTable_def runs_bind runs_result [of "table_named (tm_name t)", OF table] runs_give
    by (rule runs_weaken [OF runs_scan_reads [OF st batch]]) (use rows in auto)
qed

lemma runs_scanTable:
  assumes "stored_ok e t" "in_db e t" "0 < env_batch env"
  shows "runs (scanTable env (tm_name t) (tm_name t)) e
    (\<lambda>rows e'. only_reads e e' \<and> (\<exists>rs. rows_of_map rs (table_rows e (tm_name t)) \<and> rows = bound_rows t rs)) (\<lambda>_. False)"
  using runs_scan_alias [OF assms] by (simp add: bound_rows_def)

text \<open>The rows a condition picks, and that it can be evaluated on all of them.\<close>

definition wanted :: "fmt \<Rightarrow> table_meta \<Rightarrow> ast option \<Rightarrow> tuple \<Rightarrow> bool result" where
  "wanted fmt t condition vs = satisfies fmt condition (bind_row (tm_name t) (tm_name t) t vs)"

definition decided :: "fmt \<Rightarrow> table_meta \<Rightarrow> ast option \<Rightarrow> (row_id \<Rightarrow> tuple option) \<Rightarrow> bool" where
  "decided fmt t condition T \<longleftrightarrow> (\<forall>rid vs. T rid = Some vs \<longrightarrow> (\<exists>b. wanted fmt t condition vs = Inr b))"

definition wanted_rows :: "fmt \<Rightarrow> table_meta \<Rightarrow> ast option \<Rightarrow> (row_id \<Rightarrow> tuple option) \<Rightarrow> row_id set" where
  "wanted_rows fmt t condition T = {rid. \<exists>vs. T rid = Some vs \<and> wanted fmt t condition vs = Inr True}"

lemma bound_decided:
  "rows_of_map rs T \<Longrightarrow> (\<forall>row\<in>set (bound_rows t rs). \<exists>b. satisfies fmt condition (snd row) = Inr b) \<longleftrightarrow> decided fmt t condition T"
proof -
  assume rows: "rows_of_map rs T"
  have "(\<forall>row\<in>set (bound_rows t rs). \<exists>b. satisfies fmt condition (snd row) = Inr b) \<longleftrightarrow>
    (\<forall>(rid, vs)\<in>set rs. \<exists>b. wanted fmt t condition vs = Inr b)"
    by (induction rs) (simp_all add: wanted_def case_prod_beta bound_rows_def)
  also have "\<dots> \<longleftrightarrow> (\<forall>rid vs. (rid, vs) \<in> set rs \<longrightarrow> (\<exists>b. wanted fmt t condition vs = Inr b))" by blast
  finally show ?thesis using rows by (simp add: decided_def rows_of_map_def)
qed

lemma bound_wanted:
  "rows_of_map rs T \<Longrightarrow> fst ` {r \<in> set rs. wanted fmt t condition (snd r) = Inr True} = wanted_rows fmt t condition T"
proof (rule set_eqI)
  fix rid
  assume rows: "rows_of_map rs T"
  have "rid \<in> fst ` {r \<in> set rs. wanted fmt t condition (snd r) = Inr True} \<longleftrightarrow>
    (\<exists>vs. (rid, vs) \<in> set rs \<and> wanted fmt t condition vs = Inr True)" by force
  then show "rid \<in> fst ` {r \<in> set rs. wanted fmt t condition (snd r) = Inr True} \<longleftrightarrow> rid \<in> wanted_rows fmt t condition T"
    using rows by (simp add: wanted_rows_def rows_of_map_def)
qed

lemma bound_count:
  assumes rows: "rows_of_map rs T"
  shows "length (filter (\<lambda>row. satisfies fmt condition (snd row) = Inr True) (bound_rows t rs)) = card (wanted_rows fmt t condition T)"
proof -
  let ?rs = "filter (\<lambda>r. wanted fmt t condition (snd r) = Inr True) rs"
  have "length (filter (\<lambda>row. satisfies fmt condition (snd row) = Inr True) (bound_rows t rs)) = length ?rs"
    by (induction rs) (simp_all add: wanted_def case_prod_beta bound_rows_def)
  also have "\<dots> = card (set (map fst ?rs))"
  proof -
    have "distinct (map fst ?rs)" using rows by (simp only: rows_of_map_def distinct_map_filter)
    from distinct_card [OF this] show ?thesis by simp
  qed
  also have "set (map fst ?rs) = wanted_rows fmt t condition T"
    unfolding set_map set_filter by (rule bound_wanted [OF rows])
  finally show ?thesis .
qed

section \<open>References to a row\<close>

text \<open>No row of the column refers to the value that goes, unless the replacement has it too.\<close>

definition spared :: "engine \<Rightarrow> table_meta \<Rightarrow> tuple \<Rightarrow> tuple option \<Rightarrow> table_meta \<Rightarrow> nat \<Rightarrow> bool" where
  "spared e t vs replacement other index \<longleftrightarrow>
     (let column = tm_columns other ! index in cm_fk_table column = tm_name t \<longrightarrow>
       (\<forall>k. position_of (\<lambda>m. cm_name m = cm_fk_col column) (tm_columns t) = Some k \<longrightarrow>
          (\<exists>ws. replacement = Some ws \<and> value_eq (vs ! k) (ws ! k)) \<or>
          (\<forall>rid us. table_rows e (tm_name other) rid = Some us \<longrightarrow> isNull (us ! index) \<or> \<not> value_eq (us ! index) (vs ! k))))"

lemma runs_reference:
  assumes st: "all_stored e" and other: "in_db e other" and batch: "0 < env_batch env"
    and i: "i < length (tm_columns other)" and vs: "length vs = length (tm_columns t)"
    and ws: "\<And>ws. replacement = Some ws \<Longrightarrow> length ws = length (tm_columns t)"
  shows "runs (check_reference env t vs replacement other (i, tm_columns other ! i)) e
    (\<lambda>_ e'. only_reads e e' \<and> spared e t vs replacement other i) (only_reads e)"
proof -
  let ?c = "tm_columns other ! i"
  have refl: "only_reads e e" by (rule only_reads_refl [OF st])
  have sto: "stored_ok e other" using st other by (simp add: all_stored_def in_db_def)
  show ?thesis
  proof (cases "cm_fk_table ?c = tm_name t")
    case False
    then show ?thesis using refl by (simp add: check_reference_def runs_give spared_def)
  next
    case True
    show ?thesis
    proof (cases "position_of (\<lambda>m. cm_name m = cm_fk_col ?c) (tm_columns t)")
      case None
      then show ?thesis using True refl by (simp add: check_reference_def runs_give spared_def)
    next
      case k: (Some k)
      then have kl: "k < length (tm_columns t)" using position_of_Some by blast
      then have v: "value_at vs k = Inr (vs ! k)" using vs by (simp add: value_at_def)
      let ?kept = "\<exists>ws. replacement = Some ws \<and> value_eq (vs ! k) (ws ! k)"
      have kept: "runs (case replacement of None \<Rightarrow> give (Inr False)
          | Some new \<Rightarrow> give (rbind (value_at new k) (\<lambda>w. Inr (value_eq (vs ! k) w)))) e Q E \<longleftrightarrow> Q ?kept e" for Q E
        using ws kl by (cases replacement) (auto simp: runs_give value_at_def)
      have scan: "runs (scan_table_file env (tm_name other)) e (\<lambda>rows e'. runs (give (
            rbind (some_value i (\<lambda>w. \<not> isNull w \<and> value_eq w (vs ! k)) rows) (\<lambda>found.
              if found then Inl (Runtime_Error (''Row is referenced by '' @ tm_name other @ ''.'' @ cm_name ?c))
              else Inr ()))) e' (\<lambda>_ e'. only_reads e e' \<and> spared e t vs replacement other i) (only_reads e)) (only_reads e)"
      proof (rule runs_weaken [OF runs_scan_reads [OF sto batch]])
        fix rows e'
        assume a: "only_reads e e' \<and> rows_of_map rows (table_rows e (tm_name other))"
        then have "some_value i (\<lambda>w. \<not> isNull w \<and> value_eq w (vs ! k)) rows =
            Inr (\<exists>(rid, us)\<in>set rows. \<not> isNull (us ! i) \<and> value_eq (us ! i) (vs ! k))"
          using scanned_position [OF sto _ i] by (intro some_value_iff) blast
        moreover have "spared e t vs replacement other i"
          if "\<not> (\<exists>(rid, us)\<in>set rows. \<not> isNull (us ! i) \<and> value_eq (us ! i) (vs ! k))"
          using that a k unfolding spared_def Let_def rows_of_map_def by auto
        ultimately show "runs (give (rbind (some_value i (\<lambda>w. \<not> isNull w \<and> value_eq w (vs ! k)) rows) (\<lambda>found.
              if found then Inl (Runtime_Error (''Row is referenced by '' @ tm_name other @ ''.'' @ cm_name ?c))
              else Inr ()))) e' (\<lambda>_ e'. only_reads e e' \<and> spared e t vs replacement other i) (only_reads e)"
          using a by (auto simp: runs_give)
      qed simp
      have "spared e t vs replacement other i" if "?kept" using that k by (auto simp: spared_def)
      then show ?thesis using True k v kept scan refl
        by (simp add: check_reference_def runs_bind [of "give _"] runs_give runs_bind [of "case _ of None \<Rightarrow> _ | Some _ \<Rightarrow> _"])
          (auto simp: runs_bind runs_give)
    qed
  qed
qed

definition unreferenced :: "engine \<Rightarrow> table_meta \<Rightarrow> tuple \<Rightarrow> tuple option \<Rightarrow> bool" where
  "unreferenced e t vs replacement \<longleftrightarrow> (\<forall>name other i. getTable name (en_catalog e) = Some other \<longrightarrow>
     i < length (tm_columns other) \<longrightarrow> spared e t vs replacement other i)"

lemma spared_reads:
  assumes "only_reads e e'" "all_stored e" "in_db e other"
  shows "spared e' t vs replacement other i = spared e t vs replacement other i"
  using only_reads_rows [OF assms(1,2), of "tm_name other" other] assms(3) by (simp add: spared_def in_db_def)

lemma runs_no_references:
  assumes st: "all_stored e" and batch: "0 < env_batch env" and vs: "length vs = length (tm_columns t)"
    and ws: "\<And>ws. replacement = Some ws \<Longrightarrow> length ws = length (tm_columns t)"
  shows "runs (validateNoIncomingReferences env t vs replacement) e
    (\<lambda>_ e'. only_reads e e' \<and> unreferenced e t vs replacement) (only_reads e)"
proof -
  let ?cat = "en_catalog e"
  let ?P = "\<lambda>name. \<forall>other i. getTable name ?cat = Some other \<longrightarrow> i < length (tm_columns other) \<longrightarrow> spared e t vs replacement other i"
  have cols: "runs (each (check_reference env t vs replacement other) (enumerate 0 (tm_columns other))) e1
      (\<lambda>_ e'. only_reads e e' \<and> (\<forall>i < length (tm_columns other). spared e t vs replacement other i)) (only_reads e)"
    if k: "only_reads e e1" and o: "getTable name ?cat = Some other" for e1 name other
  proof -
    have db: "in_db e other" using st o by (simp add: all_stored_def in_db_def)
    have "runs (each (check_reference env t vs replacement other) (enumerate 0 (tm_columns other))) e1
      (\<lambda>_ e'. only_reads e e' \<and> (\<forall>x\<in>set (enumerate 0 (tm_columns other)). spared e t vs replacement other (fst x))) (only_reads e)"
    proof (rule runs_each_inv [where I = "only_reads e", OF _ k])
      fix x e2 assume x: "x \<in> set (enumerate 0 (tm_columns other))" and k2: "only_reads e e2"
      then have i: "fst x < length (tm_columns other)" "x = (fst x, tm_columns other ! fst x)"
        by (auto simp: in_set_enumerate_eq)
      have db2: "in_db e2 other" using db k2 by (simp add: only_reads_def keeps_def in_db_def)
      from runs_reference [OF only_reads_all [OF k2 st] db2 batch i(1) vs ws]
      show "runs (check_reference env t vs replacement other x) e2
          (\<lambda>_ e'. only_reads e e' \<and> spared e t vs replacement other (fst x)) (only_reads e)"
        unfolding i(2) [symmetric] by (rule runs_weaken) (use only_reads_trans [OF k2] spared_reads [OF k2 st db] in auto)
    qed
    moreover have "(i, tm_columns other ! i) \<in> set (enumerate 0 (tm_columns other))" if "i < length (tm_columns other)" for i
      using that by (simp add: in_set_enumerate_eq)
    ultimately show ?thesis by (elim runs_weaken) fastforce+
  qed
  have "runs (each (check_references_of env t vs replacement) (tableNames ?cat)) e
      (\<lambda>_ e'. only_reads e e' \<and> (\<forall>name\<in>set (tableNames ?cat). ?P name)) (only_reads e)"
  proof (rule runs_each_inv [where I = "only_reads e", OF _ only_reads_refl [OF st]])
    fix name e1 assume k: "only_reads e e1"
    have cat: "en_catalog e1 = ?cat" using k by (simp add: only_reads_def keeps_def)
    show "runs (check_references_of env t vs replacement name) e1 (\<lambda>_ e'. only_reads e e' \<and> ?P name) (only_reads e)"
    proof (cases "getTable name ?cat")
      case None
      then show ?thesis using k cat by (simp add: runs_def check_references_of_def)
    next
      case (Some other)
      from cols [OF k this] show ?thesis using Some cat by (simp add: runs_def check_references_of_def)
    qed
  qed
  moreover have "name \<in> set (tableNames ?cat)" if "getTable name ?cat = Some other" for name other
    using that by (force simp: getTable_def tableNames_def dest: map_of_SomeD)
  ultimately have "runs (each (check_references_of env t vs replacement) (tableNames ?cat)) e
      (\<lambda>_ e'. only_reads e e' \<and> unreferenced e t vs replacement) (only_reads e)"
    unfolding unreferenced_def by (elim runs_weaken) blast+
  then show ?thesis by (simp add: runs_def validateNoIncomingReferences_def)
qed

section \<open>Changing the rows of a table\<close>

lemma runs_change_rows:
  assumes step: "\<And>row rest e h. J (row # rest) e h \<Longrightarrow> (case satisfies fmt condition (snd row) of
      Inl x \<Rightarrow> Er e
    | Inr b \<Rightarrow> if b then runs (f row h) e (\<lambda>(one, h') e'. one \<and> J rest e' h') Er else J rest e h)"
    and start: "J rows e h"
  shows "runs (change_rows fmt condition f rows h n) e
    (\<lambda>(m, h') e'. m = n + length (filter (\<lambda>row. satisfies fmt condition (snd row) = Inr True) rows) \<and>
       (\<forall>row\<in>set rows. \<exists>b. satisfies fmt condition (snd row) = Inr b) \<and> J [] e' h') Er"
  using start
proof (induction rows arbitrary: e h n)
  case (Cons row rows)
  note st = step [OF Cons.prems]
  show ?case
  proof (cases "satisfies fmt condition (snd row)")
    case (Inl x)
    then show ?thesis using st by (simp add: runs_bind runs_give)
  next
    case (Inr b)
    show ?thesis
    proof (cases b)
      case False
      have "J rows e h" using st Inr False by simp
      from Cons.IH [OF this, of n] have "runs (change_rows fmt condition f rows h n) e
          (\<lambda>(m, h') e'. m = n + length (filter (\<lambda>row. satisfies fmt condition (snd row) = Inr True) (row # rows)) \<and>
             (\<forall>row\<in>set (row # rows). \<exists>b. satisfies fmt condition (snd row) = Inr b) \<and> J [] e' h') Er"
        by (rule runs_weaken) (use Inr False in auto)
      then show ?thesis using Inr False by (simp add: runs_bind runs_give)
    next
      case True
      have one: "runs (f row h) e (\<lambda>(one, h') e'. one \<and> J rows e' h') Er" using st Inr True by simp
      have rest: "runs (case x of (one, h') \<Rightarrow> change_rows fmt condition f rows h' (if one then n + 1 else n)) e1
          (\<lambda>(m, h') e'. m = n + length (filter (\<lambda>row. satisfies fmt condition (snd row) = Inr True) (row # rows)) \<and>
             (\<forall>row\<in>set (row # rows). \<exists>b. satisfies fmt condition (snd row) = Inr b) \<and> J [] e' h') Er"
        if a: "(case x of (one, h') \<Rightarrow> \<lambda>e'. one \<and> J rows e' h') e1" for x e1
      proof -
        obtain h1 where x: "x = (True, h1)" and j: "J rows e1 h1" using a by (cases x) auto
        from Cons.IH [OF j, of "n + 1"] show ?thesis unfolding x using Inr True
          by (auto elim!: runs_weaken)
      qed
      have "runs (f row h) e (\<lambda>x e1. runs (case x of (one, h') \<Rightarrow> change_rows fmt condition f rows h' (if one then n + 1 else n)) e1
          (\<lambda>(m, h') e'. m = n + length (filter (\<lambda>row. satisfies fmt condition (snd row) = Inr True) (row # rows)) \<and>
             (\<forall>row\<in>set (row # rows). \<exists>b. satisfies fmt condition (snd row) = Inr b) \<and> J [] e' h') Er) Er"
        by (rule runs_weaken [OF one]) (use rest in \<open>auto split: prod.splits\<close>)
      then show ?thesis using Inr True by (simp add: runs_bind runs_give)
    qed
  qed
qed (simp add: runs_give)

lemma bound_cons: "bound_rows t rt = row # rest \<Longrightarrow>
    \<exists>rid vs rt'. rt = (rid, vs) # rt' \<and> row = (rid, bind_row (tm_name t) (tm_name t) t vs) \<and> rest = bound_rows t rt'"
  by (cases rt) (auto simp: bound_rows_def)

text \<open>
  The loop, seen from the set of the rows it has changed: \<open>R\<close> relates that set, the handle and the
  state.
\<close>

lemma runs_wanted_rows:
  assumes rs: "rows_of_map rs T" and start: "R {} h e" and err: "\<And>gone h1 e1. R gone h1 e1 \<Longrightarrow> Er e1"
    and step: "\<And>gone h1 e1 rid vs. R gone h1 e1 \<Longrightarrow> rid \<notin> gone \<Longrightarrow> T rid = Some vs \<Longrightarrow> wanted fmt t condition vs = Inr True \<Longrightarrow>
      runs (f (rid, bind_row (tm_name t) (tm_name t) t vs) h1) e1 (\<lambda>(one, h') e'. one \<and> R (insert rid gone) h' e') Er"
  shows "runs (change_rows fmt condition f (bound_rows t rs) h 0) e
    (\<lambda>(n, h') e'. n = card (wanted_rows fmt t condition T) \<and> decided fmt t condition T \<and>
       R (wanted_rows fmt t condition T) h' e') Er"
proof -
  let ?gone = "\<lambda>xs. fst ` {r \<in> set xs. wanted fmt t condition (snd r) = Inr True}"
  define J where "J rest e1 h1 \<longleftrightarrow> (\<exists>dn rt. rs = dn @ rt \<and> rest = bound_rows t rt \<and> R (?gone dn) h1 e1)" for rest e1 h1
  have Ji: "J (bound_rows t rt) e1 h1" if "rs = dn @ rt" "R (?gone dn) h1 e1" for dn rt e1 h1
    using that unfolding J_def by blast
  have first: "J (bound_rows t rs) e h" by (rule Ji [of "[]"]) (use start in simp_all)
  have one: "case satisfies fmt condition (snd row) of Inl x \<Rightarrow> Er e1
      | Inr b \<Rightarrow> if b then runs (f row h1) e1 (\<lambda>(one, h') e'. one \<and> J rest e' h') Er else J rest e1 h1"
    if j: "J (row # rest) e1 h1" for row rest e1 h1
  proof -
    obtain dn rt where d: "rs = dn @ rt" "row # rest = bound_rows t rt" "R (?gone dn) h1 e1" using j unfolding J_def by blast
    obtain rid vs rt' where r: "rt = (rid, vs) # rt'" "row = (rid, bind_row (tm_name t) (tm_name t) t vs)" "rest = bound_rows t rt'"
      using bound_cons [OF d(2) [symmetric]] by blast
    have "rid \<notin> fst ` set dn" using rs d(1) r(1) by (auto simp: rows_of_map_def)
    then have new: "rid \<notin> ?gone dn" by blast
    have "(rid, vs) \<in> set rs" using d(1) r(1) by simp
    then have row: "T rid = Some vs" using rs by (simp only: rows_of_map_def)
    have next_rows: "rs = (dn @ [(rid, vs)]) @ rt'" using d(1) r(1) by simp
    show ?thesis
    proof (cases "wanted fmt t condition vs")
      case (Inl x)
      then show ?thesis using err [OF d(3)] by (simp add: r(2) wanted_def)
    next
      case (Inr b)
      show ?thesis
      proof (cases b)
        case False
        then have "?gone (dn @ [(rid, vs)]) = ?gone dn" using Inr by (auto simp: image_iff)
        then have "J rest e1 h1" using Ji [OF next_rows] r(3) d(3) by simp
        then show ?thesis using Inr False by (simp add: r(2) wanted_def)
      next
        case True
        have gone: "?gone (dn @ [(rid, vs)]) = insert rid (?gone dn)" using Inr True by (auto simp: image_iff)
        have "J rest e' h'" if "R (insert rid (?gone dn)) h' e'" for e' h'
          using Ji [OF next_rows, unfolded gone, OF that] r(3) by simp
        then have "runs (f row h1) e1 (\<lambda>(one, h') e'. one \<and> J rest e' h') Er"
          unfolding r(2) by (intro runs_weaken [OF step [OF d(3) new row]]) (use Inr True in auto)
        then show ?thesis using Inr True by (simp add: r(2) wanted_def)
      qed
    qed
  qed
  show ?thesis
  proof (rule runs_weaken [OF runs_change_rows [where J = J and Er = Er and n = 0, OF _ first]], goal_cases)
    case (1 row rest e1 h1)
    then show ?case by (rule one)
  next
    case (2 x e')
    obtain n h' where x: "x = (n, h')" by (cases x)
    note b = 2 [unfolded x prod.case bound_count [OF rs] bound_decided [OF rs]]
    then obtain dn rt where "rs = dn @ rt" "[] = bound_rows t rt" "R (?gone dn) h' e'" unfolding J_def by blast
    then have "R (wanted_rows fmt t condition T) h' e'" using bound_wanted [OF rs] by (simp add: bound_rows_def)
    then show ?case using b unfolding x by simp
  qed
qed

lemma keys_distinct_le: "keys_distinct t T \<Longrightarrow> T' \<subseteq>\<^sub>m T \<Longrightarrow> keys_distinct t T'"
  unfolding keys_distinct_def map_le_def dom_def by (metis (mono_tags, lifting) mem_Collect_eq option.distinct(1))

text \<open>
  What the loop over the rows has to do: leave the other tables alone, whether it ends or
  throws, and leave the file and the keys of its table well formed if it ends.
\<close>

definition changes_rows :: "env \<Rightarrow> table_meta \<Rightarrow> ast option \<Rightarrow> (scan_row \<Rightarrow> heap_file \<Rightarrow> (bool \<times> heap_file) eng) \<Rightarrow>
    (nat \<Rightarrow> engine \<Rightarrow> engine \<Rightarrow> bool) \<Rightarrow> bool" where
  "changes_rows env t condition f Q \<longleftrightarrow> (\<forall>e rs h. db_ok e \<longrightarrow> in_db e t \<longrightarrow> rows_of_map rs (table_rows e (tm_name t)) \<longrightarrow>
     handle_for (tm_name t) h e \<longrightarrow>
     runs (change_rows (env_fmt env) condition f (bound_rows t rs) h 0) e
       (\<lambda>(n, h') e'. only_changes (tm_name t) e e' \<and> stored_ok e' t \<and> keys_distinct t (table_rows e' (tm_name t)) \<and>
          handle_for (tm_name t) h' e' \<and> Q n e e')
       (\<lambda>e'. only_changes (tm_name t) e e' \<and> en_indexes e' = en_indexes e))"

text \<open>A relation between states that sees only the tables.\<close>

definition on_tables :: "('n \<Rightarrow> engine \<Rightarrow> engine \<Rightarrow> bool) \<Rightarrow> bool" where
  "on_tables Q \<longleftrightarrow> (\<forall>n a b a' b'. Q n a b \<longrightarrow> unchanged a' a \<longrightarrow> unchanged b b' \<longrightarrow> Q n a' b')"

lemma runs_change_work:
  assumes db: "db_ok e" and t: "in_db e t" and batch: "0 < env_batch env" and h: "handle_for (tm_name t) h e"
    and loop: "changes_rows env t condition f Q" and tables: "on_tables Q"
  shows "runs (ebind (scanTable env (tm_name t) (tm_name t)) (\<lambda>rows.
      ebind (change_rows (env_fmt env) condition f rows h 0) (\<lambda>(n, h').
        ebind (on_file h' flush_heap) (\<lambda>_.
          ebind (change (forget_index (tm_name t) \<circ> forget_statistics (tm_name t) \<circ> forget_mapping (tm_name t))) (\<lambda>_.
            give (Inr (affected what n))))))) e
    (\<lambda>q e'. only_changes (tm_name t) e e' \<and> db_ok e' \<and> Q (qr_rowsAffected q) e e')
    (\<lambda>e'. only_changes (tm_name t) e e' \<and> en_indexes e' = en_indexes e)"
proof -
  let ?n = "tm_name t"
  let ?Q = "\<lambda>q e'. only_changes ?n e e' \<and> db_ok e' \<and> Q (qr_rowsAffected q) e e'"
  let ?E = "\<lambda>e'. only_changes ?n e e' \<and> en_indexes e' = en_indexes e"
  have ok: "table_sound e t" and g: "getTable ?n (en_catalog e) = Some t" using db t unfolding db_ok_def in_db_def by blast+
  have st: "stored_ok e t" using ok by (simp add: table_sound_def)
  have finish: "runs (ebind (on_file h2 flush_heap) (\<lambda>_. ebind (change (forget_index ?n \<circ> forget_statistics ?n \<circ> forget_mapping ?n)) (\<lambda>_.
      give (Inr (affected what n))))) e2 ?Q ?E"
    if only2: "only_changes ?n e e2" and b: "stored_ok e2 t" "keys_distinct t (table_rows e2 ?n)" "handle_for ?n h2 e2" "Q n e e2" for n h2 e2
    unfolding runs_bind
  proof (rule runs_weaken [OF runs_flush [OF b(1,3)]])
    fix x e3
    assume c: "x = ((), h2) \<and> keeps e2 e3 \<and> en_indexes e3 = en_indexes e2 \<and> saved (table_file e2 ?n) (en_pool e3)"
    let ?e = "forget_index ?n (forget_statistics ?n (forget_mapping ?n e3))"
    have only3: "only_changes ?n e e3" using only_trans [OF only2 keeps_only] c by blast
    have pool3: "pool_ok page_abs (en_pool e3)" "quiet (en_pool e3)" using c unfolding keeps_def by blast+
    have "only_changes ?n e3 ?e"
      by (rule only_changesI) (simp_all add: forget_index_def forget_statistics_def forget_mapping_def apart_same pool3)
    then have only4: "only_changes ?n e ?e" by (rule only_trans [OF only3])
    note k = keeps_rows [OF conjunct1 [OF conjunct2 [OF c]] b(1)]
    have rows: "table_rows ?e = table_rows e3" by (simp add: forget_index_def forget_statistics_def forget_mapping_def)
    have "schema_ok t" using ok by (simp add: table_sound_def)
    then have "table_sound ?e t" using k(1,2) b(2) rows
      by (simp add: table_sound_def forget_index_def forget_statistics_def forget_mapping_def)
    then have "db_ok ?e" by (rule db_ok_only [OF only4 db g])
    moreover have "unchanged e2 ?e"
    proof -
      have all2: "all_stored e2" by (rule all_stored_only [OF only2 db_stored [OF db] g b(1)])
      then have "unchanged e2 e3" using keeps_unchanged c by blast
      moreover have "unchanged e3 ?e" using rows by (simp add: unchanged_def forget_index_def forget_statistics_def forget_mapping_def)
      ultimately show ?thesis by (rule unchanged_trans)
    qed
    moreover have "unchanged e e" by (simp add: unchanged_def)
    ultimately show "runs (change (forget_index ?n \<circ> forget_statistics ?n \<circ> forget_mapping ?n)) e3 (\<lambda>x e'. runs
        (give (Inr (affected what n))) e' ?Q ?E) ?E"
      using only4 b(4) tables unfolding on_tables_def by (simp add: runs_change runs_give affected_def)
  qed simp
  show ?thesis
    unfolding runs_bind [of "scanTable env ?n ?n"]
  proof (rule runs_weaken [OF runs_scanTable [OF st t batch]])
    fix rows e1
    assume a: "only_reads e e1 \<and> (\<exists>rs. rows_of_map rs (table_rows e ?n) \<and> rows = bound_rows t rs)"
    then obtain rs where rs: "rows_of_map rs (table_rows e ?n)" "rows = bound_rows t rs" by blast
    have k: "keeps e e1" "en_indexes e1 = en_indexes e" using a by (simp_all add: only_reads_def)
    have db1: "db_ok e1" by (rule keeps_db [OF k(1) db])
    have t1: "in_db e1 t" using t keeps_in_db [OF k(1)] by simp
    have rs1: "rows_of_map rs (table_rows e1 ?n)" using rs(1) keeps_rows(2) [OF k(1) st] by simp
    have only1: "only_changes ?n e e1" by (rule keeps_only [OF k(1)])
    have un: "unchanged e e1" by (rule keeps_unchanged [OF k(1) db_stored [OF db]])
    have "runs (change_rows (env_fmt env) condition f (bound_rows t rs) h 0) e1
       (\<lambda>(n, h') e'. only_changes ?n e1 e' \<and> stored_ok e' t \<and> keys_distinct t (table_rows e' ?n) \<and>
          handle_for ?n h' e' \<and> Q n e1 e')
       (\<lambda>e'. only_changes ?n e1 e' \<and> en_indexes e' = en_indexes e1)"
      using loop db1 t1 rs1 keeps_handle [OF k(1) st h] unfolding changes_rows_def by blast
    then show "runs (ebind (change_rows (env_fmt env) condition f rows h 0) (\<lambda>(n, h').
        ebind (on_file h' flush_heap) (\<lambda>_.
          ebind (change (forget_index ?n \<circ> forget_statistics ?n \<circ> forget_mapping ?n)) (\<lambda>_.
            give (Inr (affected what n)))))) e1 ?Q ?E"
      unfolding runs_bind [of "change_rows _ _ _ _ _ _"] rs(2)
    proof (rule runs_weaken)
      fix x e2
      assume b: "(case x of (n, h') \<Rightarrow> \<lambda>e'. only_changes ?n e1 e' \<and> stored_ok e' t \<and> keys_distinct t (table_rows e' ?n) \<and>
          handle_for ?n h' e' \<and> Q n e1 e') e2"
      obtain n h2 where x: "x = (n, h2)" by (cases x)
      have "Q n e e2" using b un tables unfolding x on_tables_def by (auto simp: unchanged_def)
      then show "runs (case x of (n, h') \<Rightarrow> ebind (on_file h' flush_heap) (\<lambda>_.
          ebind (change (forget_index ?n \<circ> forget_statistics ?n \<circ> forget_mapping ?n)) (\<lambda>_. give (Inr (affected what n))))) e2 ?Q ?E"
        unfolding x prod.case using b unfolding x prod.case by (intro finish only_trans [OF only1]) simp_all
    qed (use only_trans [OF only1] k(2) in auto)
  qed simp
qed

lemma runs_change_table:
  assumes db: "db_ok e" and t: "in_db e t" and batch: "0 < env_batch env"
    and loop: "changes_rows env t condition f Q" and tables: "on_tables Q"
  shows "runs (change_table env (tm_name t) what condition f) e
    (\<lambda>q e'. db_ok e' \<and> others_unchanged (tm_name t) e e' \<and> Q (qr_rowsAffected q) e e')
    (\<lambda>e'. db_ok e' \<and> unchanged e e')"
proof -
  let ?n = "tm_name t" let ?f = "table_file e (tm_name t)"
  let ?Q = "\<lambda>q e'. db_ok e' \<and> others_unchanged ?n e e' \<and> Q (qr_rowsAffected q) e e'"
  let ?E = "\<lambda>e'. db_ok e' \<and> unchanged e e'"
  let ?work = "\<lambda>h. ebind (scanTable env ?n ?n) (\<lambda>rows. ebind (change_rows (env_fmt env) condition f rows h 0) (\<lambda>(n, h').
      ebind (on_file h' flush_heap) (\<lambda>_. ebind (change (forget_index ?n \<circ> forget_statistics ?n \<circ> forget_mapping ?n)) (\<lambda>_.
        give (Inr (affected what n))))))"
  have ok: "table_sound e t" using db t unfolding db_ok_def in_db_def by blast
  have guarded: "runs (ebind (record_before ?f) (\<lambda>_. on_throw (?work (open_heap ?f))
      (ebind (on_pool (invalidateFile ?f)) (\<lambda>_. restore_table_file ?f (Some (readFile ?f e1)))))) e1 ?Q ?E"
    if a: "db_ok e1 \<and> unchanged e e1 \<and> en_indexes e1 = en_indexes e \<and> table_file e1 = table_file e \<and> saved ?f (en_pool e1)" for e1
  proof -
    have t1: "in_db e1 t" using t a by (simp add: in_db_def unchanged_def)
    have g1: "getTable ?n (en_catalog e1) = Some t" using t1 by (simp add: in_db_def)
    have "stored_ok e1 t" using a g1 by (simp add: db_ok_def table_sound_def)
    then obtain c where c: "files (disk_of e1) ?f = Some c" "files (pdisk (en_pool e1)) ?f = Some c"
      using stored_file a by metis
    have "quiet (en_pool e1)" using a by (simp add: db_ok_def)
    then obtain w d where rec: "record_before ?f e1 = (Inr (), e1\<lparr>en_wal := w, en_meta := d\<rparr>)" using runs_record by blast
    let ?e = "e1\<lparr>en_wal := w, en_meta := d\<rparr>"
    have e: "db_ok ?e" "in_db ?e t" "table_file ?e = table_file e" "unchanged e ?e" "getTable ?n (en_catalog ?e) = Some t"
      "saved (table_file ?e ?n) (en_pool ?e)" "files (pdisk (en_pool ?e)) (table_file ?e ?n) = Some c"
      using a t1 g1 c(2) by (simp_all add: in_db_def unchanged_def)
    have h: "handle_for ?n (open_heap ?f) ?e" using a by (simp add: handle_for_def)
    have undo: "runs (ebind (on_pool (invalidateFile ?f)) (\<lambda>_. restore_table_file ?f (Some c))) e2 (\<lambda>_. ?E) ?E"
      if o: "only_changes ?n ?e e2" "en_indexes e2 = en_indexes ?e" for e2
      by (rule runs_weaken [OF runs_undo [OF e(1,5,6,7) o(1), unfolded e(3)]])
        (use o(2) unchanged_trans [OF e(4)] in auto)
    have "runs (?work (open_heap ?f)) ?e ?Q (\<lambda>e2. runs (ebind (on_pool (invalidateFile ?f)) (\<lambda>_.
        restore_table_file ?f (Some c))) e2 (\<lambda>_. ?E) ?E)"
    proof (rule runs_weaken [OF runs_change_work [OF e(1,2) batch h loop tables]])
      fix q e'
      assume b: "only_changes ?n ?e e' \<and> db_ok e' \<and> Q (qr_rowsAffected q) ?e e'"
      have "Q (qr_rowsAffected q) e e'" using b e(4) tables unfolding on_tables_def by (auto simp: unchanged_def)
      moreover have "others_unchanged ?n e e'"
        using only_others [OF conjunct1 [OF b] db_stored [OF e(1)]] e(4) by (simp add: others_unchanged_def unchanged_def)
      ultimately show "?Q q e'" using b by blast
    qed (use undo in blast)
    then show ?thesis using c(1)
      by (simp add: readFile_def runs_bind [of "record_before ?f"] runs_result [where m = "record_before ?f" and e = e1, OF rec] runs_throw)
  qed
  have "runs (on_file (open_heap ?f) flush_heap) (forget_mapping ?n e) (\<lambda>x e1. runs (case x of (_, h) \<Rightarrow> \<lambda>e.
      let before = readFile ?f e in ebind (record_before ?f) (\<lambda>_. on_throw (?work h)
      (ebind (on_pool (invalidateFile ?f)) (\<lambda>_. restore_table_file ?f (Some before)))) e) e1 ?Q ?E) ?E"
    by (rule runs_weaken [OF runs_prepare [OF db t]]) (use guarded [unfolded runs_def] in \<open>auto simp: Let_def runs_def\<close>)
  moreover have "path_of ?n e = (Inr ?f, e)" using ok by (intro path_of_safe) (simp add: table_sound_def stored_ok_def)
  ultimately show ?thesis
    by (simp add: change_table_def runs_bind [of "path_of ?n"] runs_result [where m = "path_of ?n", OF \<open>path_of ?n e = _\<close>]
        runs_bind [of "change _"] runs_change runs_bind [of "on_file _ _"])
qed

end
