(* ===== verification/Engine_Delete.thy ===== *)
theory Engine_Delete
  imports Engine_Change
begin

text \<open>
  \<open>DELETE\<close> over the whole engine: it removes exactly the rows its condition holds on and keeps
  every foreign key, or it throws and leaves every table as it was. A row that another row
  refers to is not removed.
\<close>

section \<open>Erasing one row\<close>

lemma runs_erase:
  assumes st: "stored_ok e t" and h: "handle_for (tm_name t) h e"
  shows "runs (on_file h (erase_heap rid)) e
    (\<lambda>(one, h') e'. one = (table_rows e (tm_name t) rid \<noteq> None) \<and> only_changes (tm_name t) e e' \<and> en_indexes e' = en_indexes e \<and>
       stored_ok e' t \<and> handle_for (tm_name t) h' e' \<and> table_rows e' (tm_name t) = (table_rows e (tm_name t))(rid := None))
    (\<lambda>_. False)"
proof -
  let ?f = "table_file e (tm_name t)" let ?p = "en_pool e"
  have f: "hpath h = ?f" "handle_ok h ?p" using h by (simp_all add: handle_for_def)
  have at: "heap_at (hpath h) ?p" using st f by (simp add: stored_ok_def)
  obtain h' p' where er: "erase_heap rid (h, ?p) = (Inr (heap_rows (hpath h) ?p rid \<noteq> None), h', p')" "hpath h' = hpath h"
    "handle_ok h' p'" "heap_at (hpath h) p'" "apart (hpath h) ?p p'" "heap_rows (hpath h) p' = (heap_rows (hpath h) ?p)(rid := None)"
    using erase_from [OF at f(2)] by blast
  let ?e = "e\<lparr>en_pool := p'\<rparr>"
  have "only_changes (tm_name t) e ?e" by (rule only_changesI) (use er(5) f in simp_all)
  moreover have "stored_ok ?e t" using st er(4,6) f by (auto simp: stored_ok_def split: if_splits)
  moreover have "table_rows ?e (tm_name t) = (table_rows e (tm_name t))(rid := None)"
    using er(6) f by (auto simp: table_rows_def fun_eq_iff)
  moreover have "(heap_rows ?f ?p rid \<noteq> None) = (table_rows e (tm_name t) rid \<noteq> None)"
    using st by (force simp: table_rows_def stored_ok_def split: option.splits)
  ultimately show ?thesis using er(1-3) f by (simp add: runs_on_file handle_for_def)
qed

text \<open>A row nothing refers to can go.\<close>

lemma erased_references:
  assumes refs: "references_ok e" and free: "unreferenced e t vs None" and row: "table_rows e (tm_name t) rid = Some vs"
    and only: "only_changes (tm_name t) e e'" and all: "all_stored e" and t: "getTable (tm_name t) (en_catalog e) = Some t"
    and rows: "table_rows e' (tm_name t) = (table_rows e (tm_name t))(rid := None)"
  shows "references_ok e'"
  unfolding references_ok_def refs_hold_def
proof (intro allI impI ballI)
  fix n other r us x
  assume o: "getTable n (en_catalog e') = Some other" and us: "table_rows e' n r = Some us" and x: "x \<in> set (zip (tm_columns other) us)"
  have cat: "en_catalog e' = en_catalog e" using only by (simp add: only_changes_def)
  have n: "tm_name other = n" "getTable n (en_catalog e) = Some other" using o all cat by (simp_all add: all_stored_def)
  have kept: "table_rows e' m = table_rows e m" if "getTable m (en_catalog e) = Some u" "m \<noteq> tm_name t" for m u
    using only_others [OF only all] that by (simp add: others_unchanged_def)
  have old: "table_rows e n r = Some us" using us rows kept [OF n(2)] by (cases "n = tm_name t") (auto split: if_splits)
  obtain i where i: "i < length (tm_columns other)" "i < length us" "x = (tm_columns other ! i, us ! i)"
    using x by (auto simp: set_zip)
  let ?c = "tm_columns other ! i" let ?v = "us ! i"
  have "case x of (c, v) \<Rightarrow> fk_holds e c v" using refs n(2) old x unfolding references_ok_def refs_hold_def by blast
  then have "fk_holds e ?c ?v" by (simp add: i(3))
  moreover have "fk_holds e' ?c ?v" if nonnull: "\<not> isNull ?v" and f: "getTable (cm_fk_table ?c) (en_catalog e) = Some foreign"
      "position_of (\<lambda>m. cm_name m = cm_fk_col ?c) (tm_columns foreign) = Some k"
      "table_rows e (cm_fk_table ?c) q = Some ws" "value_eq (ws ! k) ?v" for foreign k q ws
  proof -
    have "table_rows e' (cm_fk_table ?c) q = Some ws"
    proof (cases "cm_fk_table ?c = tm_name t")
      case True
      then have "foreign = t" using f(1) t by simp
      then have "spared e t vs None other i" using free n(2) i(1) by (auto simp: unreferenced_def)
      then have "\<not> value_eq ?v (vs ! k)" using True f(2) \<open>foreign = t\<close> old n(1) nonnull by (auto simp: spared_def Let_def)
      then have "q \<noteq> rid" using f(3,4) row True value_eq_sym by auto
      then show ?thesis using f(3) True rows by simp
    next
      case False
      then show ?thesis using f(1,3) kept by simp
    qed
    then show ?thesis using f(1,2,4) cat unfolding fk_holds_def by auto
  qed
  ultimately have "fk_holds e' ?c ?v" unfolding fk_holds_def [of e] by (auto simp: fk_holds_def)
  then show "case x of (c, v) \<Rightarrow> fk_holds e' c v" by (simp add: i(3))
qed

text \<open>The state after rows of the table were erased.\<close>

definition erased :: "table_meta \<Rightarrow> row_id set \<Rightarrow> engine \<Rightarrow> heap_file \<Rightarrow> engine \<Rightarrow> bool" where
  "erased t gone e h' e' \<longleftrightarrow> only_changes (tm_name t) e e' \<and> en_indexes e' = en_indexes e \<and> stored_ok e' t \<and>
     handle_for (tm_name t) h' e' \<and> table_rows e' (tm_name t) = table_rows e (tm_name t) |` (- gone) \<and>
     (references_ok e \<longrightarrow> references_ok e')"

lemma erased_step:
  assumes a: "erased t gone e h1 e1" and b: "erased t {rid} e1 h2 e2"
  shows "erased t (insert rid gone) e h2 e2"
proof -
  have "- gone \<inter> - {rid} = - insert rid gone" by blast
  then show ?thesis using a b only_trans by (auto simp: erased_def)
qed

lemma runs_delete_row:
  assumes all: "all_stored e" and t: "in_db e t" and batch: "0 < env_batch env" and h: "handle_for (tm_name t) h e"
    and row: "table_rows e (tm_name t) rid = Some vs"
  shows "runs (delete_row env t (rid, bind_row (tm_name t) (tm_name t) t vs) h) e
    (\<lambda>(one, h') e'. one \<and> erased t {rid} e h' e') (\<lambda>e'. only_changes (tm_name t) e e' \<and> en_indexes e' = en_indexes e)"
proof -
  let ?n = "tm_name t"
  have g: "getTable ?n (en_catalog e) = Some t" using t by (simp add: in_db_def)
  have st: "stored_ok e t" using all g by (simp add: all_stored_def)
  have len: "length vs = length (tm_columns t)" using stored_fits [OF st row] row_fits_length by blast
  have "runs (validateNoIncomingReferences env t vs None) e (\<lambda>_ e1. runs (on_file h (erase_heap rid)) e1
      (\<lambda>(one, h') e'. one \<and> erased t {rid} e h' e') (\<lambda>e'. only_changes ?n e e' \<and> en_indexes e' = en_indexes e))
      (\<lambda>e'. only_changes ?n e e' \<and> en_indexes e' = en_indexes e)"
  proof (rule runs_weaken [OF runs_no_references [OF all batch len]])
    fix u e1
    assume a: "only_reads e e1 \<and> unreferenced e t vs None"
    have k: "keeps e e1" "en_indexes e1 = en_indexes e" using a by (simp_all add: only_reads_def)
    have st1: "stored_ok e1 t" and T: "table_rows e1 ?n = table_rows e ?n" using keeps_rows [OF k(1) st] by simp_all
    show "runs (on_file h (erase_heap rid)) e1 (\<lambda>(one, h') e'. one \<and> erased t {rid} e h' e')
        (\<lambda>e'. only_changes ?n e e' \<and> en_indexes e' = en_indexes e)"
    proof (rule runs_weaken [OF runs_erase [OF st1 keeps_handle [OF k(1) st h]]], goal_cases)
      case (1 x e')
      obtain one h' where x: "x = (one, h')" by (cases x)
      note b = 1 [unfolded x prod.case]
      have only: "only_changes ?n e e'" using only_trans [OF keeps_only [OF k(1)]] b by blast
      have rows: "table_rows e' ?n = (table_rows e ?n)(rid := None)" using b T by simp
      then have "references_ok e'" if "references_ok e"
        using erased_references [OF that conjunct2 [OF a] row only all g] by blast
      moreover have "(table_rows e ?n)(rid := None) = table_rows e ?n |` (- {rid})" by (auto simp: restrict_map_def fun_eq_iff)
      ultimately show ?case unfolding x prod.case erased_def using b only rows k(2) T row by simp
    qed simp
  qed (use keeps_only in \<open>auto simp: only_reads_def\<close>)
  then show ?thesis by (simp add: delete_row_def runs_bind)
qed

section \<open>The statement\<close>

definition deleted :: "env \<Rightarrow> table_meta \<Rightarrow> ast option \<Rightarrow> nat \<Rightarrow> engine \<Rightarrow> engine \<Rightarrow> bool" where
  "deleted env t condition n e e' \<longleftrightarrow> getTable (tm_name t) (en_catalog e) = Some t \<and> en_catalog e' = en_catalog e \<and>
     (let T = table_rows e (tm_name t); gone = wanted_rows (env_fmt env) t condition T
      in decided (env_fmt env) t condition T \<and> table_rows e' (tm_name t) = T |` (- gone) \<and> n = card gone) \<and>
     (references_ok e \<longrightarrow> references_ok e')"

lemma references_unchanged:
  assumes un: "unchanged e e'" and refs: "references_ok e"
  shows "references_ok e'"
proof -
  have cat: "en_catalog e' = en_catalog e" and same: "\<And>n t. getTable n (en_catalog e) = Some t \<Longrightarrow> table_rows e' n = table_rows e n"
    using un by (simp_all add: unchanged_def)
  have fk: "fk_holds e' c v" if "fk_holds e c v" for c v by (rule fk_mono [OF cat _ that]) (simp add: same)
  show ?thesis using refs unfolding references_ok_def refs_hold_def cat by (metis (no_types, lifting) case_prodD case_prodI2 fk same)
qed

lemma deleted_tables: "on_tables (deleted env t condition)"
  unfolding on_tables_def
proof (intro allI impI)
  fix n a b a' b'
  assume d: "deleted env t condition n a b" and u: "unchanged a' a" "unchanged b b'"
  have "en_catalog a' = en_catalog a" "en_catalog b' = en_catalog b" using u by (simp_all add: unchanged_def)
  moreover have "getTable (tm_name t) (en_catalog a) = Some t" "en_catalog b = en_catalog a" using d by (simp_all add: deleted_def)
  moreover from this have "table_rows a (tm_name t) = table_rows a' (tm_name t)" "table_rows b' (tm_name t) = table_rows b (tm_name t)"
    using u calculation by (simp_all add: unchanged_def)
  ultimately show "deleted env t condition n a' b'"
    using d references_unchanged [OF u(1)] references_unchanged [OF u(2)] by (simp add: deleted_def Let_def)
qed

lemma delete_loop:
  assumes batch: "0 < env_batch env"
  shows "changes_rows env t condition (delete_row env t) (deleted env t condition)"
  unfolding changes_rows_def
proof (intro allI impI)
  fix e rs h
  assume db: "db_ok e" and t: "in_db e t" and rs: "rows_of_map rs (table_rows e (tm_name t))" and h: "handle_for (tm_name t) h e"
  let ?n = "tm_name t" let ?T = "table_rows e (tm_name t)"
  let ?E = "\<lambda>e'. only_changes ?n e e' \<and> en_indexes e' = en_indexes e"
  have g: "getTable ?n (en_catalog e) = Some t" using t by (simp add: in_db_def)
  have "table_sound e t" using db g by (simp add: db_ok_def)
  then have st: "stored_ok e t" and dist: "keys_distinct t ?T" by (simp_all add: table_sound_def)
  have pool: "pool_ok page_abs (en_pool e)" "quiet (en_pool e)" using db by (simp_all add: db_ok_def)
  have start: "erased t {} e h e" using only_refl [OF pool] st h by (simp add: erased_def restrict_map_def)
  have step: "runs (delete_row env t (rid, bind_row ?n ?n t vs) h1) e1 (\<lambda>(one, h') e'. one \<and> erased t (insert rid gone) e h' e') ?E"
    if er: "erased t gone e h1 e1" and rid: "rid \<notin> gone" "?T rid = Some vs" for gone h1 e1 rid vs
  proof -
    have only: "only_changes ?n e e1" "en_indexes e1 = en_indexes e" and st1: "stored_ok e1 t" and h1: "handle_for ?n h1 e1"
      and T1: "table_rows e1 ?n = ?T |` (- gone)" using er by (simp_all add: erased_def)
    have all1: "all_stored e1" by (rule all_stored_only [OF only(1) db_stored [OF db] g st1])
    have t1: "in_db e1 t" using t only(1) by (simp add: in_db_def only_changes_def)
    have "table_rows e1 ?n rid = Some vs" using rid unfolding T1 by simp
    from runs_delete_row [OF all1 t1 batch h1 this] show ?thesis
      by (rule runs_weaken) (use only only_trans erased_step [OF er] in auto)
  qed
  show "runs (change_rows (env_fmt env) condition (delete_row env t) (bound_rows t rs) h 0) e
    (\<lambda>(n, h') e'. only_changes ?n e e' \<and> stored_ok e' t \<and> keys_distinct t (table_rows e' ?n) \<and>
       handle_for ?n h' e' \<and> deleted env t condition n e e') ?E"
  proof (rule runs_weaken [OF runs_wanted_rows [where R = "\<lambda>gone. erased t gone e" and Er = ?E, OF rs start]], goal_cases)
    case (3 x e')
    have "keys_distinct t (?T |` S)" for S by (rule keys_distinct_le [OF dist]) (simp add: map_le_def)
    then show ?case using 3 g by (cases x) (simp add: erased_def deleted_def Let_def only_changes_def)
  qed (use step in \<open>auto simp: erased_def\<close>)
qed

text \<open>
  C3. \<open>DELETE\<close> is atomic and correct. Either it throws (a condition that cannot be evaluated, a row
  another row refers to) and every table holds the rows it held before; or the
  rows its condition holds on are gone from the table, all other rows of it and all other tables
  are as before, and the affected count is their number. In both cases the database invariant
  holds again, and foreign keys that held still hold: no row that is referred to was removed.
\<close>

theorem delete_statement_correct:
  assumes "db_ok e" "0 < env_batch env"
  shows "runs (executeDelete env s) e
    (\<lambda>q e'. db_ok e' \<and> others_unchanged (del_table s) e e' \<and>
       (\<exists>t. deleted env t (del_where s) (qr_rowsAffected q) e e' \<and> tm_name t = del_table s))
    (\<lambda>e'. db_ok e' \<and> unchanged e e')"
proof (cases "getTable (del_table s) (en_catalog e)")
  case None
  then show ?thesis using assms(1)
    by (simp add: executeDelete_def runs_bind runs_error [of "table_named (del_table s)"] table_named_def unchanged_def)
next
  case (Some t)
  then have name: "tm_name t = del_table s" using assms(1) by (simp add: db_ok_def)
  have t: "in_db e t" using Some name by (simp add: in_db_def)
  have "table_named (del_table s) e = (Inr t, e)" using Some by (simp add: table_named_def)
  moreover have "runs (change_table env (del_table s) ''deleted'' (del_where s) (delete_row env t)) e
    (\<lambda>q e'. db_ok e' \<and> others_unchanged (del_table s) e e' \<and>
       (\<exists>t. deleted env t (del_where s) (qr_rowsAffected q) e e' \<and> tm_name t = del_table s))
    (\<lambda>e'. db_ok e' \<and> unchanged e e')"
    by (rule runs_weaken [OF runs_change_table [OF assms(1) t assms(2) delete_loop [OF assms(2)] deleted_tables, unfolded name]])
      (use name in auto)
  ultimately show ?thesis by (simp add: executeDelete_def runs_bind runs_result [where m = "table_named (del_table s)" and e = e])
qed

theorem delete_statement_correct_witness:
  "runs (executeDelete demo_env \<lparr>del_line = 0, del_col = 0, del_table = ''t'', del_where = None\<rparr>) demo_engine
    (\<lambda>q e'. db_ok e' \<and> others_unchanged ''t'' demo_engine e') (\<lambda>e'. unchanged demo_engine e')"
  by (rule runs_weaken [OF delete_statement_correct [OF demo_db_ok]]) (simp_all add: demo_env_def)

end
