(* ===== verification/Engine_Update.thy ===== *)
theory Engine_Update
  imports Engine_Delete
begin

text \<open>
  \<open>UPDATE\<close> over the whole engine: the rows its condition holds on get their new values, each in
  dest or under a new row id, keys stay unique, and a failing statement leaves every table as it
  was. Foreign keys are kept too, unless a table refers to itself: then a row that changes its key
  and its reference to its own table at once can be left without the row it refers to
  (\<open>self_update_dangles\<close>).
\<close>

section \<open>Replacing one row\<close>

lemma runs_replace:
  assumes st: "stored_ok e t" and h: "handle_for (tm_name t) h e" and row: "table_rows e (tm_name t) rid = Some vs"
    and fits: "row_fits t ws"
  shows "runs (on_file h (update_heap rid ws)) e
    (\<lambda>(rid', h') e'. only_changes (tm_name t) e e' \<and> en_indexes e' = en_indexes e \<and> stored_ok e' t \<and>
       handle_for (tm_name t) h' e' \<and> ((table_rows e (tm_name t))(rid := None)) rid' = None \<and>
       table_rows e' (tm_name t) = (table_rows e (tm_name t))(rid := None, rid' \<mapsto> ws))
    (\<lambda>e'. only_changes (tm_name t) e e' \<and> en_indexes e' = en_indexes e)"
proof -
  let ?f = "table_file e (tm_name t)" let ?p = "en_pool e"
  have f: "hpath h = ?f" "handle_ok h ?p" using h by (simp_all add: handle_for_def)
  have at: "heap_at (hpath h) ?p" using st f by (simp add: stored_ok_def)
  obtain old where old: "heap_rows (hpath h) ?p rid = Some old" using row stored_rows [OF st] f by auto
  then have small: "length old + 22 \<le> PAGE_SIZE" using st f by (auto simp: stored_ok_def)
  have only: "only_changes (tm_name t) e (e\<lparr>en_pool := p'\<rparr>)" if "apart (hpath h) ?p p'" for p'
    by (rule only_changesI) (use that f in simp_all)
  consider (bad) x h' p' where "update_heap rid ws (h, ?p) = (Inl x, h', p')" "apart (hpath h) ?p p'"
    | (good) rid' row h' p' where "update_heap rid ws (h, ?p) = (Inr rid', h', p')" "decodeTuple row = Inr ws"
      "length row + 22 \<le> PAGE_SIZE" "hpath h' = hpath h" "handle_ok h' p'" "heap_at (hpath h) p'" "apart (hpath h) ?p p'"
      "row_added ((heap_rows (hpath h) ?p)(rid := None)) rid' row (heap_rows (hpath h) p')"
    using update_into [OF at f(2) old small, of ws] by blast
  then show ?thesis
  proof cases
    case bad
    then show ?thesis using only by (simp add: runs_on_file)
  next
    case good
    let ?e = "e\<lparr>en_pool := p'\<rparr>"
    have hr: "((heap_rows ?f ?p)(rid := None)) rid' = None" "heap_rows ?f p' = (heap_rows ?f ?p)(rid := None, rid' \<mapsto> row)"
      using good(8) f by (simp_all add: row_added_def)
    have "stored_ok ?e t" using st good(2,3,6) f fits hr(2) by (auto simp: stored_ok_def split: if_splits)
    moreover have "((table_rows e (tm_name t))(rid := None)) rid' = None"
      using hr(1) by (auto simp: table_rows_def split: if_splits)
    moreover have "table_rows ?e (tm_name t) = (table_rows e (tm_name t))(rid := None, rid' \<mapsto> ws)"
      using good(2) by (auto simp: table_rows_def hr(2) fun_eq_iff)
    ultimately show ?thesis using good(1,4,5) f only [OF good(7)] by (simp add: runs_on_file handle_for_def)
  qed
qed

lemma runs_unique_other:
  assumes st: "stored_ok e t" and all: "all_stored e" and batch: "0 < env_batch env" and k: "k < length (tm_columns t)"
  shows "runs (check_unique env t (Some rid) (k, tm_columns t ! k, ws ! k)) e
    (\<lambda>_ e'. only_reads e e' \<and> (primary_position t = Some k \<longrightarrow>
       key_free k ((table_rows e (tm_name t))(rid := None)) (ws ! k))) (only_reads e)"
proof (cases "cm_primary_key (tm_columns t ! k)")
  case False
  then have "primary_position t \<noteq> Some k" using position_of_Some by (auto simp: primary_position_def)
  then show ?thesis using False only_reads_refl [OF all] by (simp add: check_unique_def runs_give)
next
  case True
  have "runs (scan_table_file env (tm_name t)) e (\<lambda>rows e'. runs (give (
      rbind (some_value k (\<lambda>w. value_eq w (ws ! k)) (filter (\<lambda>r. fst r \<noteq> rid) rows)) (\<lambda>found.
        if found then Inl (duplicate_key t) else Inr ()))) e'
    (\<lambda>_ e'. only_reads e e' \<and> (primary_position t = Some k \<longrightarrow>
       key_free k ((table_rows e (tm_name t))(rid := None)) (ws ! k))) (only_reads e)) (only_reads e)"
  proof (rule runs_weaken [OF runs_scan_reads [OF st batch]])
    fix rows e'
    assume a: "only_reads e e' \<and> rows_of_map rows (table_rows e (tm_name t))"
    have "\<forall>(r, us)\<in>set (filter (\<lambda>r. fst r \<noteq> rid) rows). k < length us"
      using scanned_position [OF st conjunct2 [OF a] k] by auto
    from some_value_iff [OF this] have sv: "some_value k (\<lambda>w. value_eq w (ws ! k)) (filter (\<lambda>r. fst r \<noteq> rid) rows) =
        Inr (\<exists>(r, us)\<in>set (filter (\<lambda>r. fst r \<noteq> rid) rows). value_eq (us ! k) (ws ! k))" by blast
    have "key_free k ((table_rows e (tm_name t))(rid := None)) (ws ! k)"
      if "\<not> (\<exists>(r, us)\<in>set (filter (\<lambda>r. fst r \<noteq> rid) rows). value_eq (us ! k) (ws ! k))"
      unfolding key_free_def
    proof (intro allI impI)
      fix r us assume "((table_rows e (tm_name t))(rid := None)) r = Some us"
      then have "r \<noteq> rid" "table_rows e (tm_name t) r = Some us" by (auto split: if_splits)
      then have "(r, us) \<in> set (filter (\<lambda>r. fst r \<noteq> rid) rows)" using a by (simp add: rows_of_map_def)
      then show "\<not> value_eq (us ! k) (ws ! k)" using that by blast
    qed
    then show "runs (give (rbind (some_value k (\<lambda>w. value_eq w (ws ! k)) (filter (\<lambda>r. fst r \<noteq> rid) rows)) (\<lambda>found.
        if found then Inl (duplicate_key t) else Inr ()))) e' (\<lambda>_ e'. only_reads e e' \<and> (primary_position t = Some k \<longrightarrow>
       key_free k ((table_rows e (tm_name t))(rid := None)) (ws ! k))) (only_reads e)"
      using a unfolding sv by (simp add: runs_give)
  qed simp
  then show ?thesis using True by (simp add: check_unique_def runs_bind)
qed

lemma runs_validate_replacing:
  assumes st: "stored_ok e t" and all: "all_stored e" and batch: "0 < env_batch env"
  shows "runs (validateAndCoerce env t vs (Some rid)) e
    (\<lambda>ws e'. only_reads e e' \<and> coerce_tuple (env_fmt env) t vs = Inr ws \<and> refs_hold e t ws \<and>
       (\<forall>k. primary_position t = Some k \<longrightarrow> key_free k ((table_rows e (tm_name t))(rid := None)) (ws ! k))) (only_reads e)"
proof (cases "coerce_tuple (env_fmt env) t vs")
  case (Inl x)
  then show ?thesis using only_reads_refl [OF all] by (simp add: validateAndCoerce_def runs_simps)
next
  case (Inr ws)
  let ?T = "(table_rows e (tm_name t))(rid := None)"
  let ?P = "\<lambda>x. primary_position t = Some (fst x) \<longrightarrow> key_free (fst x) ?T (ws ! fst x)"
  let ?xs = "enumerate 0 (zip (tm_columns t) ws)"
  let ?free = "\<forall>k. primary_position t = Some k \<longrightarrow> key_free k ?T (ws ! k)"
  note fits = coerced_row [OF Inr]
  have unique: "runs (each (check_unique env t (Some rid)) ?xs) e (\<lambda>_ e'. only_reads e e' \<and> (\<forall>x\<in>set ?xs. ?P x)) (only_reads e)"
  proof (rule runs_each_inv [where I = "only_reads e", OF _ only_reads_refl [OF all]])
    fix x e1 assume x: "x \<in> set ?xs" and k: "only_reads e e1"
    then obtain i where i: "i < length (tm_columns t)" "x = (i, tm_columns t ! i, ws ! i)" by (auto simp: enumerate_member)
    have st1: "stored_ok e1 t" and T: "table_rows e1 (tm_name t) = table_rows e (tm_name t)"
      using keeps_rows [OF _ st] k by (simp_all add: only_reads_def)
    from runs_unique_other [OF st1 only_reads_all [OF k all] batch i(1), of rid ws]
    show "runs (check_unique env t (Some rid) x) e1 (\<lambda>_ e'. only_reads e e' \<and> ?P x) (only_reads e)"
      unfolding i(2) T by (rule runs_weaken) (use only_reads_trans [OF k] in auto)
  qed
  have free: ?free if P: "\<forall>x\<in>set ?xs. ?P x"
  proof (intro allI impI)
    fix k assume k: "primary_position t = Some k"
    then have "k < length (tm_columns t)" using position_of_Some by (auto simp: primary_position_def)
    then have "(k, tm_columns t ! k, ws ! k) \<in> set ?xs" using row_fits_length [OF fits] by (auto simp: enumerate_member)
    with P have "?P (k, tm_columns t ! k, ws ! k)" by blast
    then show "key_free k ?T (ws ! k)" using k by simp
  qed
  have refs: "runs (validateForeignKeys env t ws) e1 (\<lambda>_ e'. only_reads e e' \<and> refs_hold e t ws \<and> ?free) (only_reads e)"
    if k: "only_reads e e1" and P: "\<forall>x\<in>set ?xs. ?P x" for e1
  proof (rule runs_weaken [OF runs_foreign_keys [OF only_reads_all [OF k all] batch]])
    have "keeps e e1" using k by (simp add: only_reads_def)
    then have "refs_hold e1 t ws = refs_hold e t ws" using keeps_fk [OF _ all] by (simp add: refs_hold_def)
    then show "only_reads e1 e' \<and> refs_hold e1 t ws \<Longrightarrow> only_reads e e' \<and> refs_hold e t ws \<and> ?free" for e'
      using only_reads_trans [OF k] free [OF P] by blast
  qed (rule only_reads_trans [OF k])
  have "runs (each (check_unique env t (Some rid)) ?xs) e
      (\<lambda>_ e1. runs (validateForeignKeys env t ws) e1 (\<lambda>_ e'. only_reads e e' \<and> refs_hold e t ws \<and> ?free) (only_reads e)) (only_reads e)"
    by (rule runs_weaken [OF unique]) (use refs in blast)+
  then show ?thesis using Inr by (simp add: validateAndCoerce_def runs_simps)
qed

text \<open>Replacing a row by one with a free key keeps the keys apart.\<close>

lemma keys_distinct_replace:
  assumes dist: "keys_distinct t T" and new: "(T(rid := None)) rid' = None"
    and free: "\<And>k. primary_position t = Some k \<Longrightarrow> key_free k (T(rid := None)) (ws ! k)"
  shows "keys_distinct t (T(rid := None, rid' \<mapsto> ws))"
proof (rule keys_distinct_add [where T = "T(rid := None)", OF _ new free])
  show "keys_distinct t (T(rid := None))" by (rule keys_distinct_le [OF dist]) (auto simp: map_le_def)
qed

text \<open>The checks of an update keep the foreign keys, if the table does not refer to itself.\<close>

definition self_reference :: "table_meta \<Rightarrow> bool" where
  "self_reference t \<longleftrightarrow> (\<exists>c\<in>set (tm_columns t). cm_fk_table c = tm_name t \<and> tm_name t \<noteq> [])"

lemma replaced_references:
  assumes refs: "references_ok e" and free: "unreferenced e t vs (Some ws)" and row: "table_rows e (tm_name t) rid = Some vs"
    and new: "refs_hold e t ws" and self: "\<not> self_reference t"
    and only: "only_changes (tm_name t) e e'" and all: "all_stored e" and t: "getTable (tm_name t) (en_catalog e) = Some t"
    and rows: "table_rows e' (tm_name t) = (table_rows e (tm_name t))(rid := None, rid' \<mapsto> ws)"
    and fresh: "((table_rows e (tm_name t))(rid := None)) rid' = None"
  shows "references_ok e'"
  unfolding references_ok_def refs_hold_def
proof (intro allI impI ballI)
  fix n other r us x
  assume o: "getTable n (en_catalog e') = Some other" and us: "table_rows e' n r = Some us" and x: "x \<in> set (zip (tm_columns other) us)"
  have cat: "en_catalog e' = en_catalog e" using only by (simp add: only_changes_def)
  have n: "tm_name other = n" "getTable n (en_catalog e) = Some other" using o all cat by (simp_all add: all_stored_def)
  have kept: "table_rows e' m = table_rows e m" if "getTable m (en_catalog e) = Some u" "m \<noteq> tm_name t" for m u
    using only_others [OF only all] that by (simp add: others_unchanged_def)
  obtain i where i: "i < length (tm_columns other)" "i < length us" "x = (tm_columns other ! i, us ! i)"
    using x by (auto simp: set_zip)
  let ?c = "tm_columns other ! i" let ?v = "us ! i"
  have "case x of (c, v) \<Rightarrow> fk_holds e c v"
  proof (cases "n = tm_name t \<and> r = rid'")
    case True
    then have "us = ws" "other = t" using us rows n(2) t by simp_all
    then show ?thesis using new x unfolding refs_hold_def by blast
  next
    case False
    then have "table_rows e n r = Some us" using us rows kept [OF n(2)] by (cases "n = tm_name t") (auto split: if_splits)
    then show ?thesis using refs n(2) x unfolding references_ok_def refs_hold_def by blast
  qed
  then have "fk_holds e ?c ?v" by (simp add: i(3))
  moreover have "fk_holds e' ?c ?v" if nonnull: "\<not> isNull ?v" "cm_fk_table ?c \<noteq> []"
      and f: "getTable (cm_fk_table ?c) (en_catalog e) = Some foreign"
      "position_of (\<lambda>m. cm_name m = cm_fk_col ?c) (tm_columns foreign) = Some k"
      "table_rows e (cm_fk_table ?c) q = Some zs" "value_eq (zs ! k) ?v" for foreign k q zs
  proof (cases "cm_fk_table ?c = tm_name t")
    case False
    then have "table_rows e' (cm_fk_table ?c) q = Some zs" using f(1,3) kept by simp
    then show ?thesis using f(1,2,4) cat unfolding fk_holds_def by auto
  next
    case True
    then have ft: "foreign = t" using f(1) t by simp
    have "n \<noteq> tm_name t" using True self nonnull(2) i(1) n t unfolding self_reference_def by (metis nth_mem option.inject)
    then have old: "table_rows e n r = Some us" using us kept [OF n(2)] by simp
    have sp: "spared e t vs (Some ws) other i" using free n(2) i(1) by (auto simp: unreferenced_def)
    show ?thesis
    proof (cases "q = rid")
      case False
      then have "table_rows e' (cm_fk_table ?c) q = Some zs" using f(3) True rows fresh by auto
      then show ?thesis using f(1,2,4) cat unfolding fk_holds_def by auto
    next
      case q: True
      then have zs: "zs = vs" using f(3) row True by simp
      have "value_eq ?v (vs ! k)" using f(4) zs value_eq_sym by blast
      then have "value_eq (vs ! k) (ws ! k)"
        using sp True f(2) ft old n(1) nonnull(1) by (auto simp: spared_def Let_def)
      moreover have "\<not> isNull (vs ! k)" using f(4) zs nonnull(1) by (auto simp: value_eq_def split: if_splits)
      ultimately have "value_eq (ws ! k) ?v"
        using f(4) zs value_eq_euclid [of "ws ! k" "vs ! k" ?v] value_eq_sym by blast
      moreover have "table_rows e' (cm_fk_table ?c) rid' = Some ws" using True rows by simp
      ultimately show ?thesis using f(1,2) ft cat unfolding fk_holds_def by auto
    qed
  qed
  ultimately have "fk_holds e' ?c ?v" unfolding fk_holds_def [of e] by (auto simp: fk_holds_def)
  then show "case x of (c, v) \<Rightarrow> fk_holds e' c v" by (simp add: i(3))
qed

section \<open>Moving rows\<close>

text \<open>
  The new values of a row, and a table whose rows \<open>gone\<close> got new values: each is under some row
  id, \<open>dest\<close>, that no row that stayed has.
\<close>

definition assigned :: "env \<Rightarrow> update_stmt \<Rightarrow> table_meta \<Rightarrow> tuple \<Rightarrow> tuple \<Rightarrow> bool" where
  "assigned env s t vs ws \<longleftrightarrow> (\<exists>us.
     place_values (env_fmt env) t (bind_row (tm_name t) (tm_name t) t vs) (map (\<lambda>a. (as_column a, as_value a)) (sets s)) vs = Inr us \<and>
     coerce_tuple (env_fmt env) t us = Inr ws)"

definition moved :: "env \<Rightarrow> update_stmt \<Rightarrow> table_meta \<Rightarrow> row_id set \<Rightarrow> (row_id \<Rightarrow> row_id) \<Rightarrow>
    (row_id \<Rightarrow> tuple option) \<Rightarrow> (row_id \<Rightarrow> tuple option) \<Rightarrow> bool" where
  "moved env s t gone dest T T' \<longleftrightarrow> inj_on dest gone \<and> (\<forall>rid\<in>gone. dest rid \<notin> dom T - gone) \<and>
     dom T' = (dom T - gone) \<union> dest ` gone \<and> (\<forall>rid\<in>dom T - gone. T' rid = T rid) \<and>
     (\<forall>rid\<in>gone. \<exists>vs ws. T rid = Some vs \<and> T' (dest rid) = Some ws \<and> assigned env s t vs ws)"

lemma moved_none: "moved env s t {} dest T T"
  by (simp add: moved_def)

lemma moved_step:
  assumes m: "moved env s t gone dest T T1" and rid: "rid \<notin> gone" "T rid = Some vs"
    and new: "(T1(rid := None)) rid' = None" and ws: "assigned env s t vs ws"
  shows "moved env s t (insert rid gone) (dest(rid := rid')) T (T1(rid := None, rid' \<mapsto> ws))"
proof -
  have inj: "inj_on dest gone" and apart: "\<And>r. r \<in> gone \<Longrightarrow> dest r \<notin> dom T - gone"
    and dom1: "dom T1 = (dom T - gone) \<union> dest ` gone" and stay: "\<And>r. r \<in> dom T - gone \<Longrightarrow> T1 r = T r"
    and went: "\<And>r. r \<in> gone \<Longrightarrow> \<exists>vs ws. T r = Some vs \<and> T1 (dest r) = Some ws \<and> assigned env s t vs ws"
    using m unfolding moved_def by blast+
  have rdom: "rid \<in> dom T - gone" using rid by auto
  have nr: "dest r \<noteq> rid" if "r \<in> gone" for r using apart [OF that] rdom by blast
  have free: "rid' \<notin> dom T1 - {rid}" using new by (auto split: if_splits)
  have np: "dest r \<noteq> rid'" if "r \<in> gone" for r
    using nr [OF that] free dom1 that by blast
  have nd: "rid' \<notin> dom T - insert rid gone" using free dom1 by blast
  let ?p = "dest(rid := rid')" let ?T = "T1(rid := None, rid' \<mapsto> ws)"
  have same: "?p r = dest r" if "r \<in> gone" for r using that rid(1) by auto
  have img: "?p ` insert rid gone = insert rid' (dest ` gone)" using rid(1) by auto
  show ?thesis
    unfolding moved_def img
  proof (intro conjI ballI)
    show "inj_on ?p (insert rid gone)"
      using inj np rid(1) by (auto simp: inj_on_def)
    show "?p r \<notin> dom T - insert rid gone" if "r \<in> insert rid gone" for r
      using that nd same apart by (cases "r = rid") auto
    have "rid \<notin> dest ` gone" using nr by blast
    then show "dom ?T = (dom T - insert rid gone) \<union> insert rid' (dest ` gone)" using dom1 by auto
    show "?T r = T r" if "r \<in> dom T - insert rid gone" for r
      using that nd stay [of r] by auto
    show "\<exists>vs ws. T r = Some vs \<and> ?T (?p r) = Some ws \<and> assigned env s t vs ws" if "r \<in> insert rid gone" for r
    proof (cases "r = rid")
      case False
      then have r: "r \<in> gone" using that by blast
      then have "?T (?p r) = T1 (dest r)" using same nr np by simp
      then show ?thesis using went [OF r] by simp
    qed (use rid ws in auto)
  qed
qed

definition updated :: "env \<Rightarrow> update_stmt \<Rightarrow> table_meta \<Rightarrow> nat \<Rightarrow> engine \<Rightarrow> engine \<Rightarrow> bool" where
  "updated env s t n e e' \<longleftrightarrow> getTable (tm_name t) (en_catalog e) = Some t \<and> en_catalog e' = en_catalog e \<and>
     (let T = table_rows e (tm_name t); gone = wanted_rows (env_fmt env) t (upd_where s) T
      in decided (env_fmt env) t (upd_where s) T \<and> n = card gone \<and>
         (\<exists>dest. moved env s t gone dest T (table_rows e' (tm_name t)))) \<and>
     (references_ok e \<longrightarrow> \<not> self_reference t \<longrightarrow> references_ok e')"

lemma updated_tables: "on_tables (updated env s t)"
  unfolding on_tables_def
proof (intro allI impI)
  fix n a b a' b'
  assume d: "updated env s t n a b" and u: "unchanged a' a" "unchanged b b'"
  have "en_catalog a' = en_catalog a" "en_catalog b' = en_catalog b" using u by (simp_all add: unchanged_def)
  moreover have "getTable (tm_name t) (en_catalog a) = Some t" "en_catalog b = en_catalog a" using d by (simp_all add: updated_def)
  moreover from this have "table_rows a (tm_name t) = table_rows a' (tm_name t)" "table_rows b' (tm_name t) = table_rows b (tm_name t)"
    using u calculation by (simp_all add: unchanged_def)
  ultimately show "updated env s t n a' b'"
    using d references_unchanged [OF u(1)] references_unchanged [OF u(2)] by (simp add: updated_def Let_def)
qed

text \<open>The state after rows of the table were replaced.\<close>

definition replaced :: "env \<Rightarrow> update_stmt \<Rightarrow> table_meta \<Rightarrow> row_id set \<Rightarrow> engine \<Rightarrow> heap_file \<Rightarrow> engine \<Rightarrow> bool" where
  "replaced env s t gone e h' e' \<longleftrightarrow> only_changes (tm_name t) e e' \<and> en_indexes e' = en_indexes e \<and> stored_ok e' t \<and>
     handle_for (tm_name t) h' e' \<and> keys_distinct t (table_rows e' (tm_name t)) \<and>
     (\<exists>dest. moved env s t gone dest (table_rows e (tm_name t)) (table_rows e' (tm_name t))) \<and>
     (references_ok e \<longrightarrow> \<not> self_reference t \<longrightarrow> references_ok e')"

lemma runs_update_row:
  assumes all: "all_stored e" and t: "in_db e t" and batch: "0 < env_batch env" and h: "handle_for (tm_name t) h e"
    and row: "table_rows e (tm_name t) rid = Some vs" and dist: "keys_distinct t (table_rows e (tm_name t))"
  shows "runs (update_row env s t (rid, bind_row (tm_name t) (tm_name t) t vs) h) e
    (\<lambda>h' e'. only_changes (tm_name t) e e' \<and> en_indexes e' = en_indexes e \<and> stored_ok e' t \<and> handle_for (tm_name t) h' e' \<and>
       keys_distinct t (table_rows e' (tm_name t)) \<and>
       (\<exists>rid' ws. assigned env s t vs ws \<and> ((table_rows e (tm_name t))(rid := None)) rid' = None \<and>
          table_rows e' (tm_name t) = (table_rows e (tm_name t))(rid := None, rid' \<mapsto> ws)) \<and>
       (references_ok e \<longrightarrow> \<not> self_reference t \<longrightarrow> references_ok e'))
    (\<lambda>e'. only_changes (tm_name t) e e' \<and> en_indexes e' = en_indexes e)"
proof -
  let ?n = "tm_name t" let ?T = "table_rows e (tm_name t)"
  let ?Q = "\<lambda>h' e'. only_changes ?n e e' \<and> en_indexes e' = en_indexes e \<and> stored_ok e' t \<and> handle_for ?n h' e' \<and>
       keys_distinct t (table_rows e' ?n) \<and>
       (\<exists>rid' ws. assigned env s t vs ws \<and> (?T(rid := None)) rid' = None \<and> table_rows e' ?n = ?T(rid := None, rid' \<mapsto> ws)) \<and>
       (references_ok e \<longrightarrow> \<not> self_reference t \<longrightarrow> references_ok e')"
  let ?E = "\<lambda>e'. only_changes ?n e e' \<and> en_indexes e' = en_indexes e"
  let ?put = "place_values (env_fmt env) t (bind_row ?n ?n t vs) (map (\<lambda>a. (as_column a, as_value a)) (sets s)) vs"
  have g: "getTable ?n (en_catalog e) = Some t" using t by (simp add: in_db_def)
  have st: "stored_ok e t" using all g by (simp add: all_stored_def)
  have len: "length vs = length (tm_columns t)" using stored_fits [OF st row] row_fits_length by blast
  have E: "?E e1" if "only_reads e e1" for e1 using that keeps_only by (auto simp: only_reads_def)
  have put: "runs (on_file h (update_heap rid ws)) e2 (\<lambda>x e'. runs (case x of (_, h') \<Rightarrow> give (Inr h')) e' ?Q ?E) ?E"
    if a: "coerce_tuple (env_fmt env) t us = Inr ws" "?put = Inr us" "refs_hold e t ws"
        "\<forall>k. primary_position t = Some k \<longrightarrow> key_free k (?T(rid := None)) (ws ! k)"
      and b: "only_reads e e2" "unreferenced e t vs (Some ws)" for us ws e2
  proof -
    have k: "keeps e e2" "en_indexes e2 = en_indexes e" using b(1) by (simp_all add: only_reads_def)
    have st2: "stored_ok e2 t" and T2: "table_rows e2 ?n = ?T" using keeps_rows [OF k(1) st] by simp_all
    have row2: "table_rows e2 ?n rid = Some vs" using row T2 by simp
    have only2: "only_changes ?n e e2" by (rule keeps_only [OF k(1)])
    show ?thesis
    proof (rule runs_weaken [OF runs_replace [OF st2 keeps_handle [OF k(1) st h] row2 coerced_row [OF a(1)]], unfolded T2], goal_cases)
      case (1 x e')
      obtain rid' h' where x: "x = (rid', h')" by (cases x)
      note c = 1 [unfolded x prod.case]
      have only: "only_changes ?n e e'" using only_trans [OF only2] c by blast
      have "references_ok e'" if "references_ok e" "\<not> self_reference t"
        using replaced_references [OF that(1) b(2) row a(3) that(2) only all g] c by blast
      moreover have "keys_distinct t (table_rows e' ?n)"
        using keys_distinct_replace [OF dist, of rid rid' ws] a(4) c by simp
      moreover have "assigned env s t vs ws" using a by (auto simp: assigned_def)
      moreover have "\<exists>rid' ws. assigned env s t vs ws \<and> (?T(rid := None)) rid' = None \<and> table_rows e' ?n = ?T(rid := None, rid' \<mapsto> ws)"
        using c calculation(3) by blast
      ultimately have "?Q h' e'" using c [unfolded k(2)] only by blast
      then show ?case unfolding x prod.case runs_give sum.case .
    qed (use only_trans [OF only2] k(2) in auto)
  qed
  show ?thesis
  proof (cases ?put)
    case (Inl x)
    then show ?thesis using E [OF only_reads_refl [OF all]] by (simp add: update_row_def runs_simps)
  next
    case (Inr us)
    have "runs (validateAndCoerce env t us (Some rid)) e (\<lambda>ws e1. runs (validateNoIncomingReferences env t vs (Some ws)) e1
        (\<lambda>_ e2. runs (on_file h (update_heap rid ws)) e2 (\<lambda>x e'. runs (case x of (_, h') \<Rightarrow> give (Inr h')) e' ?Q ?E) ?E) ?E) ?E"
    proof (rule runs_weaken [OF runs_validate_replacing [OF st all batch]], goal_cases)
      case (1 ws e1)
      then have r1: "only_reads e e1" and w: "coerce_tuple (env_fmt env) t us = Inr ws" by simp_all
      have un: "unreferenced e t vs (Some ws)" if "unreferenced e1 t vs (Some ws)"
      proof -
        have "in_db e other" if "getTable m (en_catalog e) = Some other" for m other
          using that all by (auto simp: in_db_def all_stored_def)
        moreover have "en_catalog e1 = en_catalog e" using r1 by (simp add: only_reads_def keeps_def)
        ultimately show ?thesis using that spared_reads [OF r1 all] unfolding unreferenced_def by auto
      qed
      have "length ws' = length (tm_columns t)" if "Some ws = Some ws'" for ws' using row_fits_length [OF coerced_row [OF w]] that by simp
      from runs_no_references [OF only_reads_all [OF r1 all] batch len this, where replacement = "Some ws"] show ?case
        by (rule runs_weaken) (use 1 put [OF w Inr] only_reads_trans [OF r1] un E in blast)+
    qed (rule E)
    then show ?thesis using Inr by (simp add: update_row_def runs_bind runs_give)
  qed
qed

section \<open>The statement\<close>

lemma update_loop:
  assumes batch: "0 < env_batch env"
  shows "changes_rows env t (upd_where s) (\<lambda>row h. ebind (update_row env s t row h) (\<lambda>h'. give (Inr (True, h')))) (updated env s t)"
  unfolding changes_rows_def
proof (intro allI impI)
  fix e rs h
  assume db: "db_ok e" and t: "in_db e t" and rs: "rows_of_map rs (table_rows e (tm_name t))" and h: "handle_for (tm_name t) h e"
  let ?n = "tm_name t" let ?T = "table_rows e (tm_name t)"
  let ?E = "\<lambda>e'. only_changes ?n e e' \<and> en_indexes e' = en_indexes e"
  have g: "getTable ?n (en_catalog e) = Some t" using t by (simp add: in_db_def)
  have "table_sound e t" using db g by (simp add: db_ok_def)
  then have st: "stored_ok e t" and dist: "keys_distinct t ?T" by (simp_all add: table_sound_def)
  have pool: "pool_ok page_abs (en_pool e)" "quiet (en_pool e)" using db by (simp_all add: db_ok_def)
  have start: "replaced env s t {} e h e"
    using only_refl [OF pool] st h dist moved_none by (auto simp: replaced_def)
  have step: "runs (ebind (update_row env s t (rid, bind_row ?n ?n t vs) h1) (\<lambda>h'. give (Inr (True, h')))) e1
      (\<lambda>(one, h') e'. one \<and> replaced env s t (insert rid gone) e h' e') ?E"
    if re: "replaced env s t gone e h1 e1" and rid: "rid \<notin> gone" "?T rid = Some vs" for gone h1 e1 rid vs
  proof -
    have only: "only_changes ?n e e1" "en_indexes e1 = en_indexes e" and st1: "stored_ok e1 t" and h1: "handle_for ?n h1 e1"
      and dist1: "keys_distinct t (table_rows e1 ?n)" using re by (simp_all add: replaced_def)
    obtain dest where m: "moved env s t gone dest ?T (table_rows e1 ?n)" using re by (auto simp: replaced_def)
    have all1: "all_stored e1" by (rule all_stored_only [OF only(1) db_stored [OF db] g st1])
    have t1: "in_db e1 t" using t only(1) by (simp add: in_db_def only_changes_def)
    have "rid \<in> dom ?T - gone" using rid by auto
    then have row1: "table_rows e1 ?n rid = Some vs" using m rid(2) by (simp add: moved_def)
    show ?thesis
      unfolding runs_bind runs_give sum.case prod.case
    proof (rule runs_weaken [OF runs_update_row [OF all1 t1 batch h1 row1 dist1]], goal_cases)
      case (1 h' e')
      then obtain rid' ws where w: "assigned env s t vs ws" "((table_rows e1 ?n)(rid := None)) rid' = None"
        "table_rows e' ?n = (table_rows e1 ?n)(rid := None, rid' \<mapsto> ws)" by blast
      have "only_changes ?n e e'" using only_trans [OF only(1)] 1 by blast
      moreover have "moved env s t (insert rid gone) (dest(rid := rid')) ?T (table_rows e' ?n)"
        unfolding w(3) by (rule moved_step [OF m rid w(2,1)])
      ultimately show ?case using 1 only(2) re unfolding replaced_def by auto
    qed (use only only_trans in auto)
  qed
  show "runs (change_rows (env_fmt env) (upd_where s) (\<lambda>row h. ebind (update_row env s t row h) (\<lambda>h'. give (Inr (True, h'))))
      (bound_rows t rs) h 0) e
    (\<lambda>(n, h') e'. only_changes ?n e e' \<and> stored_ok e' t \<and> keys_distinct t (table_rows e' ?n) \<and>
       handle_for ?n h' e' \<and> updated env s t n e e') ?E"
  proof (rule runs_weaken [OF runs_wanted_rows [where R = "\<lambda>gone. replaced env s t gone e" and Er = ?E, OF rs start]], goal_cases)
    case (3 x e')
    then show ?case using g by (cases x) (simp add: replaced_def updated_def Let_def only_changes_def)
  qed (use step in \<open>auto simp: replaced_def\<close>)
qed

text \<open>
  C2. \<open>UPDATE\<close> is atomic and correct. Either it throws and every table holds the rows it held
  before; or exactly the rows its condition holds on got the assigned and coerced values, each in
  place or under a row id no remaining row has, all other rows of the table and all other tables
  are as before, and the affected count is the number of those rows. In both cases the database
  invariant holds again (keys stay unique), and if the table has no foreign key to itself, foreign
  keys that held still hold.
\<close>

theorem update_statement_correct:
  assumes "db_ok e" "0 < env_batch env"
  shows "runs (executeUpdate env s) e
    (\<lambda>q e'. db_ok e' \<and> others_unchanged (upd_table s) e e' \<and>
       (\<exists>t. updated env s t (qr_rowsAffected q) e e' \<and> tm_name t = upd_table s))
    (\<lambda>e'. db_ok e' \<and> unchanged e e')"
proof (cases "getTable (upd_table s) (en_catalog e)")
  case None
  then show ?thesis using assms(1)
    by (simp add: executeUpdate_def runs_bind runs_error [of "table_named (upd_table s)"] table_named_def unchanged_def)
next
  case (Some t)
  then have name: "tm_name t = upd_table s" using assms(1) by (simp add: db_ok_def)
  have t: "in_db e t" using Some name by (simp add: in_db_def)
  have "table_named (upd_table s) e = (Inr t, e)" using Some by (simp add: table_named_def)
  moreover have "runs (change_table env (upd_table s) ''updated'' (upd_where s) (\<lambda>row h.
       ebind (update_row env s t row h) (\<lambda>h'. give (Inr (True, h'))))) e
    (\<lambda>q e'. db_ok e' \<and> others_unchanged (upd_table s) e e' \<and>
       (\<exists>t. updated env s t (qr_rowsAffected q) e e' \<and> tm_name t = upd_table s))
    (\<lambda>e'. db_ok e' \<and> unchanged e e')"
    by (rule runs_weaken [OF runs_change_table [OF assms(1) t assms(2) update_loop [OF assms(2)] updated_tables, unfolded name]])
      (use name in auto)
  ultimately show ?thesis by (simp add: executeUpdate_def runs_bind runs_result [where m = "table_named (upd_table s)" and e = e])
qed

theorem update_statement_correct_witness:
  "runs (executeUpdate demo_env \<lparr>upd_line = 0, upd_col = 0, upd_table = ''t'', sets = [], upd_where = None\<rparr>) demo_engine
    (\<lambda>q e'. db_ok e' \<and> others_unchanged ''t'' demo_engine e') (\<lambda>e'. unchanged demo_engine e')"
  by (rule runs_weaken [OF update_statement_correct [OF demo_db_ok]]) (simp_all add: demo_env_def)

text \<open>
  The proviso is needed. The table of the example refers to itself: setting the key of a row from 3
  to 4 and its reference to 3 at once passes the foreign-key check (the row is still there, with
  key 3) and the check for references to the row (there are none yet), and leaves a reference to
  a row that no longer exists.
\<close>

lemma self_update_dangles:
  assumes cat: "en_catalog e = en_catalog demo_engine" "en_catalog e' = en_catalog demo_engine"
    and rows: "table_rows e ''t'' = [rid \<mapsto> [VInteger 3, VNull]]" "table_rows e' ''t'' = [rid' \<mapsto> [VInteger 4, VInteger 3]]"
  shows "references_ok e" "refs_hold e demo_table [VInteger 4, VInteger 3]"
    "unreferenced e demo_table [VInteger 3, VNull] (Some [VInteger 4, VInteger 3])" "\<not> references_ok e'"
proof -
  have three: "value_eq (VInteger 3) (VInteger 3)" "\<not> value_eq (VInteger 4) (VInteger 3)" by code_simp+
  have null: "isNull VNull" "\<not> isNull (VInteger 3)" by code_simp+
  note defs = references_ok_def refs_hold_def fk_holds_def cat demo_catalog demo_table_def new_column_def rows
  show "references_ok e" using null by (auto simp: defs split: if_splits)
  show "refs_hold e demo_table [VInteger 4, VInteger 3]" using three by (simp add: defs)
  show "unreferenced e demo_table [VInteger 3, VNull] (Some [VInteger 4, VInteger 3])"
    using null by (auto simp: unreferenced_def spared_def cat demo_catalog demo_table_def new_column_def rows less_Suc_eq split: if_splits)
  show "\<not> references_ok e'" using null three by (auto simp: defs)
qed

end
