(* ===== verification/Engine_Joins.thy ===== *)
theory Engine_Joins
  imports Engine_Update Hash_Utils "HOL-Library.Multiset"
begin

text \<open>
  Joins in the order of the query (\<open>executeSourceOrderJoins\<close>, \<open>src/native_joins.cpp\<close>): a hash join
  behind a Bloom filter for an equality between a column of the joined table and another column,
  a nested loop for all other conditions, with padding rows of null for a left join.

  \<open>join_env\<close> holds what is not decided by the source: the hash of a value (\<open>std::hash\<close>), the two
  settings of the filter, and the order in which \<open>equal_range\<close> of an \<open>unordered_multimap\<close> yields
  the entries of one key. A doubling of the filter that wraps to zero would loop for ever, which
  C++ leaves undefined.

  The lemmas show that the filter never rejects a key that was added, and that both kinds of join
  give the rows of the relational join (\<open>reference_join\<close>).
\<close>

record join_env =
  je_hash :: "val \<Rightarrow> u64"
  je_bits :: u64
  je_per :: u64
  je_order :: "(val \<times> eval_row) list \<Rightarrow> val \<Rightarrow> eval_row list \<Rightarrow> eval_row list"

section \<open>The Bloom filter\<close>

record bloom =
  bl_words :: "u64 list"
  bl_mask :: u64

fun grow_bits :: "nat \<Rightarrow> u64 \<Rightarrow> u64 \<Rightarrow> u64 result" where
  "grow_bits 0 bits target = Inl Undefined_Behaviour"
| "grow_bits (Suc n) bits target = (if bits < target then grow_bits n (push_bit 1 bits) target else Inr bits)"

definition new_bloom :: "join_env \<Rightarrow> nat \<Rightarrow> bloom result" where
  "new_bloom je expected =
     rbind (grow_bits 65 (je_bits je) (max (je_bits je) (of_nat expected * je_per je))) (\<lambda>bits.
       Inr \<lparr>bl_words = replicate (unat ((bits + 63) div 64)) 0, bl_mask = bits - 1\<rparr>)"

definition bloom_mix :: "u64 \<Rightarrow> u64" where
  "bloom_mix v = (avalanche64 v) OR 1"

definition bloom_probes :: "u64 \<Rightarrow> u64 list" where
  "bloom_probes h = [h, h + bloom_mix h, h + bloom_mix (h XOR kGoldenRatio64)]"

text \<open>The word and the bit of a probe; a word past the end of the vector would be undefined.\<close>

definition bloom_place :: "bloom \<Rightarrow> u64 \<Rightarrow> (nat \<times> nat) result" where
  "bloom_place b h =
     (let position = h AND bl_mask b; i = unat (position div 64)
      in if i < length (bl_words b) then Inr (i, unat (position mod 64)) else Inl Undefined_Behaviour)"

definition bloom_set :: "u64 \<Rightarrow> bloom \<Rightarrow> bloom result" where
  "bloom_set h b = rbind (bloom_place b h) (\<lambda>(i, k).
     Inr (b\<lparr>bl_words := (bl_words b)[i := bl_words b ! i OR push_bit k 1]\<rparr>))"

definition bloom_test :: "bloom \<Rightarrow> u64 \<Rightarrow> bool result" where
  "bloom_test b h = rbind (bloom_place b h) (\<lambda>(i, k). Inr (bl_words b ! i AND push_bit k 1 \<noteq> 0))"

definition bloom_add :: "join_env \<Rightarrow> val \<Rightarrow> bloom \<Rightarrow> bloom result" where
  "bloom_add je v b = fold_r bloom_set (bloom_probes (je_hash je v)) b"

fun all_set :: "bloom \<Rightarrow> u64 list \<Rightarrow> bool result" where
  "all_set b [] = Inr True"
| "all_set b (h # hs) = rbind (bloom_test b h) (\<lambda>yes. if yes then all_set b hs else Inr False)"

definition mayContain :: "join_env \<Rightarrow> bloom \<Rightarrow> val \<Rightarrow> bool result" where
  "mayContain je b v = all_set b (bloom_probes (je_hash je v))"

section \<open>One join\<close>

definition combineSchemas :: "bound_column list option \<Rightarrow> bound_column list option \<Rightarrow> bound_column list" where
  "combineSchemas left right =
     (case left of None \<Rightarrow> [] | Some cs \<Rightarrow> cs) @ (case right of None \<Rightarrow> [] | Some cs \<Rightarrow> cs)"

definition bound_schema :: "'a catalog_data_scheme \<Rightarrow> string \<Rightarrow> string \<Rightarrow> bound_column list result" where
  "bound_schema cat table alias = (case getTable table cat of
       None \<Rightarrow> Inl (Runtime_Error (''Unknown table: '' @ table))
     | Some t \<Rightarrow> Inr (schema_of table alias t))"

definition rows_schema :: "'a catalog_data_scheme \<Rightarrow> string \<Rightarrow> string \<Rightarrow> eval_row list \<Rightarrow> bound_column list option result" where
  "rows_schema cat table alias rows = (case rows of
       r # _ \<Rightarrow> Inr (er_columns r)
     | [] \<Rightarrow> rbind (bound_schema cat table alias) (\<lambda>cs. Inr (Some cs)))"

definition combined_row :: "bound_column list \<Rightarrow> eval_row \<Rightarrow> tuple \<Rightarrow> eval_row" where
  "combined_row schema left vs = \<lparr>er_columns = Some schema, er_values = er_values left @ vs\<rparr>"

definition belongs_right :: "ast join_clause \<Rightarrow> ast \<Rightarrow> bool" where
  "belongs_right j e = (case e of
       ColumnRef _ _ table column alias \<Rightarrow> table \<noteq> [] \<and> (table = jc_table j \<or> table = jc_alias j)
     | _ \<Rightarrow> False)"

definition column_key :: "ast \<Rightarrow> (string \<times> string) option" where
  "column_key e = (case e of ColumnRef _ _ table column alias \<Rightarrow> Some (table, column) | _ \<Rightarrow> None)"

text \<open>The keys of a hash join: of the rows so far, and of the joined table.\<close>

definition join_keys :: "ast join_clause \<Rightarrow> ((string \<times> string) \<times> (string \<times> string)) option" where
  "join_keys j = (case jc_condition j of
       Some (BinaryOp _ _ oper first second _) \<Rightarrow>
         if oper \<noteq> ''='' then None
         else if belongs_right j first \<and> \<not> belongs_right j second then
           (case (column_key second, column_key first) of (Some l, Some r) \<Rightarrow> Some (l, r) | _ \<Rightarrow> None)
         else if belongs_right j second \<and> \<not> belongs_right j first then
           (case (column_key first, column_key second) of (Some l, Some r) \<Rightarrow> Some (l, r) | _ \<Rightarrow> None)
         else None
     | _ \<Rightarrow> None)"

definition row_key :: "string \<times> string \<Rightarrow> eval_row \<Rightarrow> val result" where
  "row_key key row = resolveColumn (fst key) (snd key) row"

type_synonym hash_index = "bloom \<times> (val \<times> eval_row) list"

definition index_row :: "join_env \<Rightarrow> string \<times> string \<Rightarrow> eval_row \<Rightarrow> hash_index \<Rightarrow> hash_index result" where
  "index_row je key row = (\<lambda>(b, index). rbind (row_key key row) (\<lambda>k.
     if isNull k then Inr (b, index) else rbind (bloom_add je k b) (\<lambda>b'. Inr (b', index @ [(k, row)]))))"

definition build_side :: "join_env \<Rightarrow> string \<times> string \<Rightarrow> eval_row list \<Rightarrow> hash_index result" where
  "build_side je key rows = rbind (new_bloom je (length rows)) (\<lambda>b. fold_r (index_row je key) rows (b, []))"

text \<open>\<open>equal_range\<close> finds the entries with an equal key.\<close>

definition equal_rows :: "join_env \<Rightarrow> (val \<times> eval_row) list \<Rightarrow> val \<Rightarrow> eval_row list" where
  "equal_rows je index k = je_order je index k (map snd (filter (\<lambda>x. value_eq (fst x) k) index))"

definition probe :: "join_env \<Rightarrow> hash_index \<Rightarrow> string \<times> string \<Rightarrow> eval_row \<Rightarrow> eval_row list result" where
  "probe je hashed key row = rbind (row_key key row) (\<lambda>k.
     if isNull k then Inr []
     else rbind (mayContain je (fst hashed) k) (\<lambda>maybe.
       Inr (if maybe then equal_rows je (snd hashed) k else [])))"

definition null_values :: "'a catalog_data_scheme \<Rightarrow> string \<Rightarrow> tuple" where
  "null_values cat table = (case getTable table cat of None \<Rightarrow> [] | Some t \<Rightarrow> replicate (length (tm_columns t)) VNull)"

definition row_matches :: "ast join_clause \<Rightarrow> bound_column list \<Rightarrow> eval_row \<Rightarrow> tuple \<Rightarrow> eval_row list \<Rightarrow> eval_row list" where
  "row_matches j schema row padding found =
     (if found = [] \<and> jc_type j = LEFT then [combined_row schema row padding]
      else map (\<lambda>r. combined_row schema row (er_values r)) found)"

definition hash_join :: "join_env \<Rightarrow> 'a catalog_data_scheme \<Rightarrow> ast join_clause \<Rightarrow> (string \<times> string) \<times> (string \<times> string) \<Rightarrow>
    bound_column list \<Rightarrow> eval_row list \<Rightarrow> eval_row list \<Rightarrow> eval_row list result" where
  "hash_join je cat j keys schema rows right =
     rbind (build_side je (snd keys) right) (\<lambda>hashed.
       rbind (map_r (\<lambda>row. rbind (probe je hashed (fst keys) row) (\<lambda>found.
           Inr (row_matches j schema row (null_values cat (jc_table j)) found))) rows) (\<lambda>joined.
         Inr (concat joined)))"

definition nested_join :: "fmt \<Rightarrow> 'a catalog_data_scheme \<Rightarrow> ast join_clause \<Rightarrow> bound_column list \<Rightarrow>
    eval_row list \<Rightarrow> eval_row list \<Rightarrow> eval_row list result" where
  "nested_join fmt cat j schema rows right =
     (let padding = (case right of r # _ \<Rightarrow> replicate (length (er_values r)) VNull | [] \<Rightarrow> null_values cat (jc_table j))
      in rbind (map_r (\<lambda>row.
             rbind (filter_r (\<lambda>r. satisfies fmt (jc_condition j) (combined_row schema row (er_values r))) right) (\<lambda>found.
               Inr (row_matches j schema row padding found))) rows) (\<lambda>joined.
           Inr (concat joined)))"

definition join_step :: "join_env \<Rightarrow> fmt \<Rightarrow> 'a catalog_data_scheme \<Rightarrow> string \<times> string \<Rightarrow> ast join_clause \<Rightarrow>
    eval_row list \<Rightarrow> eval_row list \<Rightarrow> eval_row list result" where
  "join_step je fmt cat source j rows right =
     rbind (rows_schema cat (fst source) (snd source) rows) (\<lambda>left.
       rbind (rows_schema cat (jc_table j) (jc_alias j) right) (\<lambda>rgt.
         let schema = combineSchemas left rgt
         in case join_keys j of
              Some keys \<Rightarrow> hash_join je cat j keys schema rows right
            | None \<Rightarrow> nested_join fmt cat j schema rows right))"

fun executeSourceOrderJoins :: "join_env \<Rightarrow> env \<Rightarrow> string \<times> string \<Rightarrow> ast join_clause list \<Rightarrow> eval_row list \<Rightarrow> eval_row list eng" where
  "executeSourceOrderJoins je env source [] rows = give (Inr rows)"
| "executeSourceOrderJoins je env source (j # js) rows =
     ebind (scanTable env (jc_table j) (jc_alias j)) (\<lambda>scan e.
       ebind (give (join_step je (env_fmt env) (en_catalog e) source j rows (map snd scan))) (\<lambda>rows'.
         executeSourceOrderJoins je env source js rows') e)"

section \<open>The filter never rejects a key it holds\<close>

lemma bloom_place_cong:
  "bl_mask b' = bl_mask b \<Longrightarrow> length (bl_words b') = length (bl_words b) \<Longrightarrow> bloom_place b' h = bloom_place b h"
  by (simp add: bloom_place_def)

lemma bloom_place_bit: "bloom_place b h = Inr (i, k) \<Longrightarrow> i < length (bl_words b) \<and> k < 64"
  by (auto simp: bloom_place_def Let_def unat_mod split: if_splits)

lemma word_bit_test: "(w AND push_bit k 1 \<noteq> (0 :: u64)) = bit w k" "(w AND 2 ^ k \<noteq> (0 :: u64)) = bit w k"
  by (simp_all add: and_exp_eq_0_iff_not_bit)

lemma bloom_set_test:
  assumes "bloom_set h b = Inr b'"
  shows "bloom_test b' h = Inr True" "bloom_test b g = Inr True \<Longrightarrow> bloom_test b' g = Inr True"
proof -
  obtain i k where p: "bloom_place b h = Inr (i, k)" and b': "b' = b\<lparr>bl_words := (bl_words b)[i := bl_words b ! i OR push_bit k 1]\<rparr>"
    using assms by (auto simp: bloom_set_def rbind_eq_Inr_iff)
  note ik = bloom_place_bit [OF p]
  have same: "bloom_place b' g = bloom_place b g" for g by (rule bloom_place_cong) (simp_all add: b')
  have w: "bl_words b' = (bl_words b)[i := bl_words b ! i OR push_bit k 1]" by (simp add: b')
  have k: "bit (push_bit k (1 :: u64)) k" using ik by (simp add: bit_exp_iff)
  show "bloom_test b' h = Inr True"
    using ik k by (simp add: bloom_test_def same p w word_bit_test bit_or_iff)
  assume g: "bloom_test b g = Inr True"
  then obtain j m where q: "bloom_place b g = Inr (j, m)" "bl_words b ! j AND push_bit m 1 \<noteq> 0"
    by (auto simp: bloom_test_def rbind_eq_Inr_iff)
  have "bit (bl_words b' ! j) m"
    using q bloom_place_bit [OF q(1)] by (cases "j = i") (auto simp: w word_bit_test bit_or_iff)
  then show "bloom_test b' g = Inr True"
    using bloom_place_bit [OF q(1)] by (simp add: bloom_test_def same q(1) word_bit_test)
qed

lemma all_set_iff: "all_set b hs = Inr True \<longleftrightarrow> (\<forall>h\<in>set hs. bloom_test b h = Inr True)"
  by (induction hs) (auto simp: rbind_eq_Inr_iff)

lemma bloom_sets:
  assumes "fold_r bloom_set hs b = Inr b'"
  shows "(\<forall>h\<in>set hs. bloom_test b' h = Inr True) \<and> (\<forall>g. bloom_test b g = Inr True \<longrightarrow> bloom_test b' g = Inr True)"
  using assms
proof (induction hs arbitrary: b)
  case (Cons h hs)
  then obtain b1 where b1: "bloom_set h b = Inr b1" "fold_r bloom_set hs b1 = Inr b'" by (auto simp: rbind_eq_Inr_iff)
  from bloom_set_test [OF b1(1)] Cons.IH [OF b1(2)] show ?case by auto
qed simp

lemma bloom_add_contains:
  assumes "bloom_add je v b = Inr b'"
  shows "mayContain je b' v = Inr True" "mayContain je b w = Inr True \<Longrightarrow> mayContain je b' w = Inr True"
  using bloom_sets [of _ b b'] assms by (auto simp: bloom_add_def mayContain_def all_set_iff)

definition join_env_ok :: "join_env \<Rightarrow> bool" where
  "join_env_ok je \<longleftrightarrow> (\<forall>a b. value_eq a b \<longrightarrow> je_hash je a = je_hash je b) \<and>
     (\<forall>index k rows. mset (je_order je index k rows) = mset rows)"

lemma contains_equal: "join_env_ok je \<Longrightarrow> value_eq v w \<Longrightarrow> mayContain je b v = mayContain je b w"
  by (simp add: mayContain_def join_env_ok_def)

text \<open>With settings of a usable size the filter is built and every probe is in range.\<close>

definition sized :: "join_env \<Rightarrow> nat \<Rightarrow> bool" where
  "sized je n \<longleftrightarrow> 0 < je_bits je \<and> je_bits je \<le> 2 ^ 62 \<and> of_nat n * je_per je \<le> (2 ^ 62 :: u64)"

lemma unat_double: "unat b < 2 ^ 62 \<Longrightarrow> unat ((b :: u64) * 2) = 2 * unat b"
  by (simp add: unat_word_ariths)

lemma grow_bits_returns:
  assumes "0 < unat bits" "unat bits < 2 ^ 63" "unat target \<le> 2 ^ 62" "2 ^ 62 \<le> 2 ^ n * unat bits"
  shows "\<exists>r. grow_bits (Suc n) bits target = Inr r \<and> 0 < unat r \<and> unat r < 2 ^ 63"
  using assms
proof (induction n arbitrary: bits)
  case 0
  then have "\<not> bits < target" by (simp add: word_less_nat_alt)
  then show ?case using 0 by simp
next
  case (Suc n)
  show ?case
  proof (cases "bits < target")
    case True
    then have small: "unat bits < 2 ^ 62" using Suc.prems(3) by (simp add: word_less_nat_alt)
    note d = unat_double [OF small]
    have "\<exists>r. grow_bits (Suc n) (push_bit 1 bits) target = Inr r \<and> 0 < unat r \<and> unat r < 2 ^ 63"
      by (rule Suc.IH) (use Suc.prems small in \<open>simp_all add: d\<close>)
    then show ?thesis using True by (simp only: grow_bits.simps if_True)
  next
    case False
    then show ?thesis using Suc.prems by simp
  qed
qed

lemma new_bloom_returns:
  assumes "sized je n"
  shows "\<exists>b. new_bloom je n = Inr b \<and> (\<forall>h. \<exists>p. bloom_place b h = Inr p)"
proof -
  let ?target = "max (je_bits je) (of_nat n * je_per je)"
  have b: "0 < unat (je_bits je)" "unat (je_bits je) \<le> 2 ^ 62" and t: "unat ?target \<le> 2 ^ 62"
    using assms by (auto simp: sized_def word_less_nat_alt word_le_nat_alt max_def)
  have "(2 :: nat) ^ 62 * 1 \<le> 2 ^ 64 * unat (je_bits je)" by (rule mult_le_mono) (use b in auto)
  then obtain r where r: "grow_bits (Suc 64) (je_bits je) ?target = Inr r" "0 < unat r" "unat r < 2 ^ 63"
    using grow_bits_returns [of "je_bits je" ?target 64] b t by auto
  let ?b = "\<lparr>bl_words = replicate (unat ((r + 63) div 64)) 0, bl_mask = r - 1\<rparr>"
  have new: "new_bloom je n = Inr ?b" using r(1) by (simp add: new_bloom_def eval_nat_numeral)
  have "\<exists>p. bloom_place ?b h = Inr p" for h
  proof -
    have "h AND (r - 1) \<le> r - 1" by (rule word_and_le1)
    moreover have one: "unat (r - 1) = unat r - 1" using r(2) by (simp add: unat_minus_one unat_gt_0)
    ultimately have "unat (h AND (r - 1)) \<le> unat r - 1" by (simp add: word_le_nat_alt)
    then have "unat (h AND (r - 1)) div 64 \<le> (unat r - 1) div 64" by (rule div_le_mono)
    also have "(unat r - 1) div 64 < (unat r + 63) div 64" using r(2) by simp
    also have "(unat r + 63) div 64 = unat ((r + 63) div 64)"
      using r(3) by (simp add: unat_div unat_word_ariths)
    finally show ?thesis by (simp add: bloom_place_def Let_def unat_div)
  qed
  then show ?thesis using new by blast
qed

lemma bloom_add_returns:
  assumes "\<forall>h. \<exists>p. bloom_place b h = Inr p"
  shows "\<exists>b'. bloom_add je v b = Inr b' \<and> (\<forall>h. \<exists>p. bloom_place b' h = Inr p)"
proof -
  have "\<exists>b'. fold_r bloom_set hs b = Inr b' \<and> (\<forall>h. \<exists>p. bloom_place b' h = Inr p)" for hs
    using assms
  proof (induction hs arbitrary: b)
    case (Cons h hs)
    obtain i k where p: "bloom_place b h = Inr (i, k)" using Cons.prems by fastforce
    let ?b = "b\<lparr>bl_words := (bl_words b)[i := bl_words b ! i OR push_bit k 1]\<rparr>"
    have one: "bloom_set h b = Inr ?b" by (simp add: bloom_set_def p)
    have "\<forall>g. \<exists>p. bloom_place ?b g = Inr p" using Cons.prems bloom_place_cong [of ?b b] by simp
    from Cons.IH [OF this] show ?case by (simp add: one)
  qed simp
  then show ?thesis by (simp add: bloom_add_def)
qed

lemma mayContain_returns:
  assumes "\<forall>h. \<exists>p. bloom_place b h = Inr p"
  shows "\<exists>r. mayContain je b v = Inr r"
proof -
  have "\<exists>r. bloom_test b h = Inr r" for h
    using assms [rule_format, of h] by (auto simp: bloom_test_def)
  then have "\<exists>r. all_set b hs = Inr r" for hs
  proof (induction hs)
    case Nil
    show ?case by simp blast
  next
    case (Cons h hs)
    obtain r where "bloom_test b h = Inr r" using Cons.prems by blast
    moreover obtain r' where "all_set b hs = Inr r'" using Cons by blast
    ultimately have "all_set b (h # hs) = Inr (r \<and> r')" by simp
    then show ?case by blast
  qed
  then show ?thesis by (simp add: mayContain_def)
qed

section \<open>The hash index\<close>

definition key_value :: "string \<times> string \<Rightarrow> eval_row \<Rightarrow> val" where
  "key_value key r = (case row_key key r of Inr v \<Rightarrow> v | Inl _ \<Rightarrow> VNull)"

definition keyed :: "string \<times> string \<Rightarrow> eval_row list \<Rightarrow> (val \<times> eval_row) list" where
  "keyed key rows = filter (\<lambda>x. \<not> isNull (fst x)) (map (\<lambda>r. (key_value key r, r)) rows)"

lemma index_rows:
  assumes "fold_r (index_row je key) rows (b, index) = Inr (b', index')" "\<forall>x\<in>set index. mayContain je b (fst x) = Inr True"
  shows "index' = index @ keyed key rows \<and> (\<forall>x\<in>set index'. mayContain je b' (fst x) = Inr True) \<and>
    (\<forall>r\<in>set rows. row_key key r = Inr (key_value key r))"
  using assms
proof (induction rows arbitrary: b index)
  case (Cons r rows)
  obtain b1 index1 where one: "index_row je key r (b, index) = Inr (b1, index1)"
    and rest: "fold_r (index_row je key) rows (b1, index1) = Inr (b', index')"
    using Cons.prems(1) by (auto simp: rbind_eq_Inr_iff)
  obtain k where k: "row_key key r = Inr k" using one by (auto simp: index_row_def rbind_eq_Inr_iff)
  then have kv: "key_value key r = k" by (simp add: key_value_def)
  show ?case
  proof (cases "isNull k")
    case True
    then have "b1 = b" "index1 = index" using one k by (simp_all add: index_row_def)
    then show ?thesis using Cons.IH rest Cons.prems(2) True k kv by (simp add: keyed_def)
  next
    case False
    then obtain b2 where a: "bloom_add je k b = Inr b2" "b1 = b2" "index1 = index @ [(k, r)]"
      using one k by (auto simp: index_row_def rbind_eq_Inr_iff)
    have "\<forall>x\<in>set index1. mayContain je b1 (fst x) = Inr True"
      using bloom_add_contains [OF a(1)] Cons.prems(2) a by auto
    from Cons.IH [OF rest this] show ?thesis using False a(3) k kv by (simp add: keyed_def)
  qed
qed (simp add: keyed_def)

lemma build_side_index:
  assumes "build_side je key rows = Inr (b, index)"
  shows "index = keyed key rows" "x \<in> set index \<Longrightarrow> mayContain je b (fst x) = Inr True"
    "r \<in> set rows \<Longrightarrow> row_key key r = Inr (key_value key r)"
proof -
  obtain b0 where "fold_r (index_row je key) rows (b0, []) = Inr (b, index)"
    using assms by (auto simp: build_side_def rbind_eq_Inr_iff)
  from index_rows [OF this] show "index = keyed key rows" "x \<in> set index \<Longrightarrow> mayContain je b (fst x) = Inr True"
    "r \<in> set rows \<Longrightarrow> row_key key r = Inr (key_value key r)" by auto
qed

lemma index_rows_returns:
  assumes "\<forall>r\<in>set rows. \<exists>v. row_key key r = Inr v" "\<forall>h. \<exists>p. bloom_place b h = Inr p"
  shows "\<exists>b' index'. fold_r (index_row je key) rows (b, index) = Inr (b', index') \<and> (\<forall>h. \<exists>p. bloom_place b' h = Inr p)"
  using assms
proof (induction rows arbitrary: b index)
  case (Cons r rows)
  obtain k where k: "row_key key r = Inr k" using Cons.prems(1) by auto
  obtain b1 where b1: "bloom_add je k b = Inr b1" "\<forall>h. \<exists>p. bloom_place b1 h = Inr p"
    using bloom_add_returns [OF Cons.prems(2)] by blast
  obtain b2 index2 where "index_row je key r (b, index) = Inr (b2, index2)" "\<forall>h. \<exists>p. bloom_place b2 h = Inr p"
    using k b1 Cons.prems(2) by (cases "isNull k") (auto simp: index_row_def)
  then show ?case using Cons by auto
qed simp

text \<open>Two rows meet if their keys are equal and not null.\<close>

definition keys_meet :: "(string \<times> string) \<times> (string \<times> string) \<Rightarrow> eval_row \<Rightarrow> eval_row \<Rightarrow> bool" where
  "keys_meet keys l r \<longleftrightarrow> (let a = key_value (fst keys) l; b = key_value (snd keys) r
     in \<not> isNull a \<and> \<not> isNull b \<and> value_eq b a)"

lemma probe_found:
  assumes ok: "join_env_ok je" and side: "build_side je (snd keys) right = Inr hashed"
    and p: "probe je hashed (fst keys) l = Inr found"
  shows "mset found = mset (filter (keys_meet keys l) right)" "row_key (fst keys) l = Inr (key_value (fst keys) l)"
proof -
  obtain b index where h: "hashed = (b, index)" by (cases hashed)
  note side = side [unfolded h]
  obtain k where k: "row_key (fst keys) l = Inr k" using p by (auto simp: probe_def rbind_eq_Inr_iff)
  then have kv: "key_value (fst keys) l = k" by (simp add: key_value_def)
  then show "row_key (fst keys) l = Inr (key_value (fst keys) l)" using k by simp
  show "mset found = mset (filter (keys_meet keys l) right)"
  proof (cases "isNull k")
    case True
    then show ?thesis using p k kv by (simp add: probe_def keys_meet_def Let_def)
  next
    case False
    obtain maybe where m: "mayContain je b k = Inr maybe" "found = (if maybe then equal_rows je index k else [])"
      using p k h False by (auto simp: probe_def rbind_eq_Inr_iff)
    have sel: "map snd (filter (\<lambda>x. value_eq (fst x) k) index) = filter (keys_meet keys l) right"
      unfolding build_side_index(1) [OF side] keyed_def using False
      by (induction right) (simp_all add: keys_meet_def kv)
    show ?thesis
    proof (cases maybe)
      case True
      then show ?thesis using m(2) ok sel by (simp add: equal_rows_def join_env_ok_def)
    next
      case F: False
      have "\<not> value_eq (fst x) k" if "x \<in> set index" for x
        using build_side_index(2) [OF side that] contains_equal [OF ok, of "fst x" k b] m(1) F by auto
      then have "filter (\<lambda>x. value_eq (fst x) k) index = []" by (simp add: filter_empty_conv)
      then show ?thesis using m(2) F sel by simp
    qed
  qed
qed

section \<open>Both joins are the relational join\<close>

definition reference_join :: "fmt \<Rightarrow> ast join_clause \<Rightarrow> bound_column list \<Rightarrow> tuple \<Rightarrow> eval_row list \<Rightarrow> eval_row list \<Rightarrow> eval_row list" where
  "reference_join fmt j schema padding rows right = concat (map (\<lambda>row.
     row_matches j schema row padding
       (filter (\<lambda>r. satisfies fmt (jc_condition j) (combined_row schema row (er_values r)) = Inr True) right)) rows)"

lemma row_matches_mset: "mset found = mset found' \<Longrightarrow> mset (row_matches j schema row padding found) = mset (row_matches j schema row padding found')"
  by (auto simp: row_matches_def dest: mset_eq_length)

lemma concat_mset:
  assumes "list_all2 (\<lambda>x y. mset x = mset y) xss yss"
  shows "mset (concat xss) = mset (concat yss)"
  using assms by (induction rule: list_all2_induct) simp_all

text \<open>Rows over a schema.\<close>

definition over :: "bound_column list \<Rightarrow> eval_row list \<Rightarrow> bool" where
  "over cs rows \<longleftrightarrow> (\<forall>r\<in>set rows. er_columns r = Some cs \<and> length (er_values r) = length cs)"

lemma resolve_loop_append: "resolve_loop tab col (xs @ ys) f = rbind (resolve_loop tab col xs f) (resolve_loop tab col ys)"
  by (induction tab col xs f rule: resolve_loop.induct) simp_all

lemma resolve_other:
  "\<forall>(c, v)\<in>set xs. bc_name c \<noteq> col \<or> \<not> qualifier_matches tab c \<Longrightarrow> resolve_loop tab col xs f = Inr f"
  by (induction tab col xs f rule: resolve_loop.induct) auto

text \<open>Of the matches of a qualified name the last one counts.\<close>

lemma resolve_qualified:
  assumes "tab \<noteq> []"
  shows "\<exists>g. resolve_loop tab col xs None = Inr g \<and> (\<forall>f. resolve_loop tab col xs f = Inr (if g = None then f else g))"
proof (induction xs)
  case (Cons x xs)
  obtain c v where x: "x = (c, v)" by (cases x)
  obtain g where g: "resolve_loop tab col xs f = Inr (if g = None then f else g)" for f using Cons by blast
  show ?case using assms g by (auto simp: x intro: exI [of _ g])
qed simp

definition key_settled :: "ast join_clause \<Rightarrow> table_meta \<Rightarrow> bool" where
  "key_settled j t \<longleftrightarrow> (\<forall>l r. join_keys j = Some (l, r) \<longrightarrow> fst l = [] \<longrightarrow> snd l \<notin> cm_name ` set (tm_columns t))"

lemma resolve_right:
  assumes l: "er_columns l = Some ls" "length (er_values l) = length ls"
    and r: "er_columns r = Some rs" "length (er_values r) = length rs"
    and tab: "tab \<noteq> []" and v: "resolveColumn tab col r = Inr v"
  shows "resolveColumn tab col (combined_row (ls @ rs) l (er_values r)) = Inr v"
proof -
  obtain f where f: "resolve_loop tab col (zip ls (er_values l)) None = Inr f" using resolve_qualified [OF tab] by blast
  obtain g where g: "resolve_loop tab col (zip rs (er_values r)) f' = Inr (if g = None then f' else g)" for f'
    using resolve_qualified [OF tab] by blast
  have "g = Some v" using v r(1) g [of None] by (auto simp: resolveColumn_def split: if_splits option.splits)
  then show ?thesis using l r f g by (simp add: resolveColumn_def combined_row_def resolve_loop_append)
qed

lemma resolve_left:
  assumes l: "er_columns l = Some ls" "length (er_values l) = length ls"
    and r: "length (er_values r) = length rs" and v: "resolveColumn tab col l = Inr v"
    and none: "\<forall>c\<in>set rs. bc_name c \<noteq> col \<or> \<not> qualifier_matches tab c"
  shows "resolveColumn tab col (combined_row (ls @ rs) l (er_values r)) = Inr v"
proof -
  obtain f where f: "resolve_loop tab col (zip ls (er_values l)) None = Inr (Some v)"
    using v l(1) by (auto simp: resolveColumn_def rbind_eq_Inr_iff split: option.splits)
  have "\<forall>(c, v)\<in>set (zip rs (er_values r)). bc_name c \<noteq> col \<or> \<not> qualifier_matches tab c"
    using none by (auto dest: set_zip_leftD)
  from resolve_other [OF this] show ?thesis using l r f by (simp add: resolveColumn_def combined_row_def resolve_loop_append)
qed

lemma column_key_Some: "column_key e = Some p \<longleftrightarrow> (\<exists>a b al. e = ColumnRef a b (fst p) (snd p) al)"
  by (cases e; cases p) (auto simp: column_key_def)

lemma join_keys_equality:
  assumes "join_keys j = Some keys"
  obtains ln cn first second al where "jc_condition j = Some (BinaryOp ln cn ''='' first second al)"
    "belongs_right j first \<and> \<not> belongs_right j second \<and> column_key second = Some (fst keys) \<and> column_key first = Some (snd keys) \<or>
     belongs_right j second \<and> \<not> belongs_right j first \<and> column_key first = Some (fst keys) \<and> column_key second = Some (snd keys)"
proof -
  obtain e where e: "jc_condition j = Some e" using assms by (cases "jc_condition j") (simp_all add: join_keys_def)
  then obtain ln cn op first second al where c: "jc_condition j = Some (BinaryOp ln cn op first second al)"
    using assms by (cases e) (simp_all add: join_keys_def)
  have "op = ''=''" using assms by (simp add: join_keys_def c split: if_splits)
  then show thesis using assms
    by (intro that [of ln cn first second al]) (auto simp: c join_keys_def split: if_splits option.splits)
qed

lemma belongs_right_iff: "belongs_right j (ColumnRef a b tab col al) \<longleftrightarrow> tab \<noteq> [] \<and> (tab = jc_table j \<or> tab = jc_alias j)"
  by (simp add: belongs_right_def)

lemma keys_meet_condition:
  assumes keys: "join_keys j = Some keys" and settled: "key_settled j t"
    and l: "er_columns l = Some ls" "length (er_values l) = length ls" and lk: "row_key (fst keys) l = Inr (key_value (fst keys) l)"
    and r: "er_columns r = Some (schema_of (jc_table j) (jc_alias j) t)" "length (er_values r) = length (tm_columns t)"
    and rk: "row_key (snd keys) r = Inr (key_value (snd keys) r)"
  shows "satisfies fmt (jc_condition j) (combined_row (ls @ schema_of (jc_table j) (jc_alias j) t) l (er_values r)) =
    Inr (keys_meet keys l r)"
proof -
  let ?rs = "schema_of (jc_table j) (jc_alias j) t"
  let ?row = "combined_row (ls @ ?rs) l (er_values r)"
  obtain lt lcol rt rcol where k: "keys = ((lt, lcol), (rt, rcol))" by (metis surj_pair)
  obtain ln cn first second al where c: "jc_condition j = Some (BinaryOp ln cn ''='' first second al)"
    and order: "belongs_right j first \<and> \<not> belongs_right j second \<and> column_key second = Some (lt, lcol) \<and> column_key first = Some (rt, rcol) \<or>
     belongs_right j second \<and> \<not> belongs_right j first \<and> column_key first = Some (lt, lcol) \<and> column_key second = Some (rt, rcol)"
    by (rule join_keys_equality [OF keys]) (simp add: k)
  let ?a = "key_value (lt, lcol) l" let ?b = "key_value (rt, rcol) r"
  have right: "rt \<noteq> [] \<and> (rt = jc_table j \<or> rt = jc_alias j)" and left: "lt = [] \<or> (lt \<noteq> jc_table j \<and> lt \<noteq> jc_alias j)"
    using order by (auto simp: column_key_Some belongs_right_iff)
  have none: "\<forall>c\<in>set ?rs. bc_name c \<noteq> lcol \<or> \<not> qualifier_matches lt c"
  proof (cases "lt = []")
    case True
    then show ?thesis using settled keys k by (auto simp: key_settled_def schema_of_def)
  next
    case False
    then show ?thesis using left by (auto simp: schema_of_def qualifier_matches_def)
  qed
  have a: "resolveColumn lt lcol ?row = Inr ?a"
    by (rule resolve_left [OF l _ _ none]) (use r lk k in \<open>simp_all add: row_key_def schema_of_def\<close>)
  have b: "resolveColumn rt rcol ?row = Inr ?b"
    by (rule resolve_right [OF l r(1)]) (use r rk k right in \<open>simp_all add: row_key_def schema_of_def\<close>)
  have eq: "applyBinary fmt ''='' u v = (if isNull u \<or> isNull v then Inr VNull else Inr (VBoolean (value_eq u v)))" for u v
    by (simp add: applyBinary_def)
  have bool: "asBoolean VNull = False" "\<And>b. asBoolean (VBoolean b) = b" by (simp_all add: asBoolean_def)
  have "eval fmt first ?row = Inr ?a \<and> eval fmt second ?row = Inr ?b \<or> eval fmt first ?row = Inr ?b \<and> eval fmt second ?row = Inr ?a"
    using order a b by (auto simp: column_key_Some)
  then have "satisfies fmt (jc_condition j) ?row = Inr (\<not> isNull ?a \<and> \<not> isNull ?b \<and> value_eq ?b ?a)"
    using value_eq_sym [of ?a ?b] by (auto simp: satisfies_def c eq bool)
  then show ?thesis by (simp add: keys_meet_def k Let_def)
qed

lemma hash_join_correct:
  assumes je: "join_env_ok je" and keys: "join_keys j = Some keys" and settled: "key_settled j t"
    and t: "getTable (jc_table j) cat = Some t" and rows: "over ls rows" and right: "over (schema_of (jc_table j) (jc_alias j) t) right"
    and out: "hash_join je cat j keys (ls @ schema_of (jc_table j) (jc_alias j) t) rows right = Inr out"
  shows "mset out = mset (reference_join fmt j (ls @ schema_of (jc_table j) (jc_alias j) t) (null_values cat (jc_table j)) rows right)"
proof -
  let ?schema = "ls @ schema_of (jc_table j) (jc_alias j) t" let ?pad = "null_values cat (jc_table j)"
  obtain hashed joined where side: "build_side je (snd keys) right = Inr hashed" and out': "out = concat joined"
    and each: "list_all2 (\<lambda>row y. rbind (probe je hashed (fst keys) row) (\<lambda>found. Inr (row_matches j ?schema row ?pad found)) = Inr y) rows joined"
    using out by (auto simp: hash_join_def rbind_eq_Inr_iff map_r_Inr)
  have "mset y = mset (row_matches j ?schema row ?pad
      (filter (\<lambda>r. satisfies fmt (jc_condition j) (combined_row ?schema row (er_values r)) = Inr True) right))"
    if row: "row \<in> set rows" and y: "rbind (probe je hashed (fst keys) row) (\<lambda>found. Inr (row_matches j ?schema row ?pad found)) = Inr y" for row y
  proof -
    obtain found where found: "probe je hashed (fst keys) row = Inr found" "y = row_matches j ?schema row ?pad found"
      using y by (auto simp: rbind_eq_Inr_iff)
    note pf = probe_found [OF je side found(1)]
    obtain b index where h: "hashed = (b, index)" by (cases hashed)
    have "satisfies fmt (jc_condition j) (combined_row ?schema row (er_values r)) = Inr (keys_meet keys row r)" if "r \<in> set right" for r
      by (rule keys_meet_condition [OF keys settled _ _ pf(2)])
        (use rows right row that build_side_index(3) [OF side [unfolded h] that] in \<open>auto simp: over_def schema_of_def\<close>)
    then have "filter (\<lambda>r. satisfies fmt (jc_condition j) (combined_row ?schema row (er_values r)) = Inr True) right =
        filter (keys_meet keys row) right" by (intro filter_cong) auto
    then show ?thesis unfolding found(2) by (intro row_matches_mset) (simp only: pf(1))
  qed
  then have "list_all2 (\<lambda>y z. mset y = mset z) joined (map (\<lambda>row. row_matches j ?schema row ?pad
      (filter (\<lambda>r. satisfies fmt (jc_condition j) (combined_row ?schema row (er_values r)) = Inr True) right)) rows)"
    using each by (auto simp: list_all2_conv_all_nth)
  then show ?thesis unfolding out' reference_join_def by (rule concat_mset)
qed

lemma nested_join_correct:
  assumes t: "getTable (jc_table j) cat = Some t" and right: "over (schema_of (jc_table j) (jc_alias j) t) right"
    and out: "nested_join fmt cat j schema rows right = Inr out"
  shows "out = reference_join fmt j schema (null_values cat (jc_table j)) rows right"
proof -
  have pad: "(case right of r # _ \<Rightarrow> replicate (length (er_values r)) VNull | [] \<Rightarrow> null_values cat (jc_table j)) = null_values cat (jc_table j)"
    using right t by (cases right) (simp_all add: over_def null_values_def schema_of_def)
  let ?p = "\<lambda>row r. satisfies fmt (jc_condition j) (combined_row schema row (er_values r))"
  obtain joined where out': "out = concat joined" and each: "list_all2 (\<lambda>row y. rbind (filter_r (?p row) right) (\<lambda>found.
      Inr (row_matches j schema row (null_values cat (jc_table j)) found)) = Inr y) rows joined"
    using out by (auto simp: nested_join_def pad Let_def rbind_eq_Inr_iff map_r_Inr)
  have "y = row_matches j schema row (null_values cat (jc_table j)) (filter (\<lambda>r. ?p row r = Inr True) right)"
    if y: "rbind (filter_r (?p row) right) (\<lambda>found. Inr (row_matches j schema row (null_values cat (jc_table j)) found)) = Inr y" for row y
  proof -
    obtain q where q: "\<forall>r\<in>set right. ?p row r = Inr (q r)" "y = row_matches j schema row (null_values cat (jc_table j)) (filter q right)"
      using y by (auto simp: rbind_eq_Inr_iff filter_r_Inr)
    have "filter q right = filter (\<lambda>r. ?p row r = Inr True) right" by (rule filter_cong) (use q(1) in auto)
    then show ?thesis using q(2) by simp
  qed
  then have "joined = map (\<lambda>row. row_matches j schema row (null_values cat (jc_table j)) (filter (\<lambda>r. ?p row r = Inr True) right)) rows"
    using each by (intro nth_equalityI) (auto simp: list_all2_conv_all_nth)
  then show ?thesis by (simp add: out' reference_join_def)
qed

text \<open>
  C6. The hash join is the nested-loop join. Where both columns of the equality resolve on their
  sides, both ways to join return, with the same rows up to their order, nulls, \<open>NaN\<close>s, left
  joins and hash collisions included, for any filter settings of a usable size.
\<close>

theorem hash_join_agrees:
  assumes "join_env_ok je" "sized je (length right)" "join_keys j = Some keys" "key_settled j t"
    and "getTable (jc_table j) cat = Some t" "over ls rows" "over (schema_of (jc_table j) (jc_alias j) t) right"
    and "\<forall>row\<in>set rows. \<exists>v. row_key (fst keys) row = Inr v" "\<forall>r\<in>set right. \<exists>v. row_key (snd keys) r = Inr v"
  shows "\<exists>out out'. hash_join je cat j keys (ls @ schema_of (jc_table j) (jc_alias j) t) rows right = Inr out \<and>
    nested_join fmt cat j (ls @ schema_of (jc_table j) (jc_alias j) t) rows right = Inr out' \<and> mset out = mset out'"
proof -
  let ?schema = "ls @ schema_of (jc_table j) (jc_alias j) t" let ?pad = "null_values cat (jc_table j)"
  obtain b0 where b0: "new_bloom je (length right) = Inr b0" "\<forall>h. \<exists>p. bloom_place b0 h = Inr p"
    using new_bloom_returns [OF assms(2)] by blast
  obtain b index where side: "build_side je (snd keys) right = Inr (b, index)" "\<forall>h. \<exists>p. bloom_place b h = Inr p"
    using index_rows_returns [OF assms(9) b0(2), of je "[]"] b0(1) by (auto simp: build_side_def)
  have probe: "\<exists>found. probe je (b, index) (fst keys) row = Inr found" if "row \<in> set rows" for row
  proof -
    obtain k where "row_key (fst keys) row = Inr k" using assms(8) \<open>row \<in> set rows\<close> by blast
    moreover obtain r where "mayContain je b k = Inr r" using mayContain_returns [OF side(2)] by blast
    ultimately show ?thesis by (simp add: probe_def)
  qed
  have map: "\<exists>ys. map_r f xs = Inr ys" if "\<forall>x\<in>set xs. \<exists>y. f x = Inr y" for f :: "eval_row \<Rightarrow> 'b result" and xs
    using that by (induction xs) auto
  obtain joined where "map_r (\<lambda>row. rbind (probe je (b, index) (fst keys) row) (\<lambda>found.
      Inr (row_matches j ?schema row ?pad found))) rows = Inr joined"
    using map [of rows "\<lambda>row. rbind (probe je (b, index) (fst keys) row) (\<lambda>found. Inr (row_matches j ?schema row ?pad found))"]
      probe by fastforce
  then have hash: "hash_join je cat j keys ?schema rows right = Inr (concat joined)" by (simp add: hash_join_def side(1))
  have condition: "satisfies fmt (jc_condition j) (combined_row ?schema row (er_values r)) = Inr (keys_meet keys row r)"
    if "row \<in> set rows" "r \<in> set right" for row r
  proof (rule keys_meet_condition [OF assms(3,4)])
    show "row_key (fst keys) row = Inr (key_value (fst keys) row)" "row_key (snd keys) r = Inr (key_value (snd keys) r)"
      using assms(8,9) that by (auto simp: key_value_def)
  qed (use assms(6,7) that in \<open>auto simp: over_def schema_of_def\<close>)
  have filter: "filter_r (\<lambda>r. satisfies fmt (jc_condition j) (combined_row ?schema row (er_values r))) right =
      Inr (filter (keys_meet keys row) right)" if "row \<in> set rows" for row
    unfolding filter_r_Inr using condition that by (intro exI [of _ "keys_meet keys row"]) auto
  obtain nested where nested: "nested_join fmt cat j ?schema rows right = Inr nested"
  proof -
    let ?p = "case right of r # _ \<Rightarrow> replicate (length (er_values r)) VNull | [] \<Rightarrow> ?pad"
    obtain ys where "map_r (\<lambda>row. rbind (filter_r (\<lambda>r. satisfies fmt (jc_condition j) (combined_row ?schema row (er_values r))) right)
        (\<lambda>found. Inr (row_matches j ?schema row ?p found))) rows = Inr ys"
      using map [of rows "\<lambda>row. rbind (filter_r (\<lambda>r. satisfies fmt (jc_condition j) (combined_row ?schema row (er_values r))) right)
        (\<lambda>found. Inr (row_matches j ?schema row ?p found))"] filter by auto
    then show thesis by (intro that [of "concat ys"]) (simp add: nested_join_def Let_def)
  qed
  then show ?thesis
    using hash hash_join_correct [OF assms(1,3-7) hash] nested_join_correct [OF assms(5,7) nested] by auto
qed

text \<open>An empty side and a row of the example table.\<close>

definition demo_join_env :: join_env where
  "demo_join_env = \<lparr>je_hash = (\<lambda>_. 0), je_bits = 64, je_per = 12, je_order = (\<lambda>_ _ rows. rows)\<rparr>"

definition demo_self_join :: "ast join_clause" where
  "demo_self_join = JoinClause LEFT ''t'' ''p''
     (Some (BinaryOp 0 0 ''='' (ColumnRef 0 0 ''c'' ''up'' []) (ColumnRef 0 0 ''p'' ''id'' []) []))"

definition demo_join_row :: "string \<Rightarrow> val \<Rightarrow> val \<Rightarrow> eval_row" where
  "demo_join_row alias a b = bind_row ''t'' alias demo_table [a, b]"

lemma demo_join_settled:
  "join_env_ok demo_join_env" "join_keys demo_self_join = Some ((''c'', ''up''), (''p'', ''id''))" "key_settled demo_self_join demo_table"
  by (simp_all add: join_env_ok_def demo_join_env_def join_keys_def demo_self_join_def belongs_right_def column_key_def key_settled_def)

theorem hash_join_agrees_witness:
  "\<exists>out out'. hash_join demo_join_env (addTable demo_table new_catalog) demo_self_join ((''c'', ''up''), (''p'', ''id''))
       (schema_of ''t'' ''c'' demo_table @ schema_of ''t'' ''p'' demo_table)
       [demo_join_row ''c'' (VInteger 1) VNull, demo_join_row ''c'' (VInteger 2) (VInteger 1)]
       [demo_join_row ''p'' (VInteger 1) VNull] = Inr out \<and>
     nested_join (\<lambda>_. []) (addTable demo_table new_catalog) demo_self_join
       (schema_of ''t'' ''c'' demo_table @ schema_of ''t'' ''p'' demo_table)
       [demo_join_row ''c'' (VInteger 1) VNull, demo_join_row ''c'' (VInteger 2) (VInteger 1)]
       [demo_join_row ''p'' (VInteger 1) VNull] = Inr out' \<and> mset out = mset out'"
proof -
  have sized: "sized demo_join_env (length [demo_join_row ''p'' (VInteger 1) VNull])"
    by (simp add: sized_def demo_join_env_def word_le_nat_alt)
  have table: "getTable (jc_table demo_self_join) (addTable demo_table new_catalog) = Some demo_table"
    using demo_catalog by (simp add: demo_engine_def demo_self_join_def)
  have ns: "jc_table demo_self_join = ''t''" "jc_alias demo_self_join = ''p''" by (simp_all add: demo_self_join_def)
  show ?thesis
    by (rule hash_join_agrees [OF demo_join_settled(1) sized demo_join_settled(2,3) table, unfolded ns])
      (auto simp: over_def demo_join_row_def bind_row_def schema_of_def demo_table_def new_column_def row_key_def
        resolveColumn_def qualifier_matches_def)
qed

section \<open>All joins of a query\<close>

fun reference_joins :: "fmt \<Rightarrow> bound_column list \<Rightarrow> (ast join_clause \<times> table_meta \<times> eval_row list) list \<Rightarrow> eval_row list \<Rightarrow> eval_row list" where
  "reference_joins fmt cs [] rows = rows"
| "reference_joins fmt cs ((j, t, right) # rest) rows =
     (let schema = cs @ schema_of (jc_table j) (jc_alias j) t
      in reference_joins fmt schema rest
           (reference_join fmt j schema (replicate (length (tm_columns t)) VNull) rows right))"

lemma reference_join_mset:
  assumes "mset rows = mset rows'"
  shows "mset (reference_join fmt j schema padding rows right) = mset (reference_join fmt j schema padding rows' right)"
proof -
  have "mset (concat (map f xs)) = \<Sum>\<^sub># (image_mset (\<lambda>x. mset (f x)) (mset xs))" for f :: "eval_row \<Rightarrow> eval_row list" and xs
    by (induction xs) simp_all
  then show ?thesis using assms by (simp add: reference_join_def)
qed

lemma reference_joins_mset:
  "mset rows = mset rows' \<Longrightarrow> mset (reference_joins fmt cs js rows) = mset (reference_joins fmt cs js rows')"
proof (induction js arbitrary: cs rows rows')
  case (Cons x js)
  obtain j t right where x: "x = (j, t, right)" by (cases x)
  show ?case by (simp add: x Let_def) (rule Cons.IH, rule reference_join_mset, rule Cons.prems)
qed simp

text \<open>The rows of a table as a join reads them, in any order.\<close>

definition scanned :: "engine \<Rightarrow> ast join_clause \<Rightarrow> ast join_clause \<times> table_meta \<times> eval_row list \<Rightarrow> bool" where
  "scanned e j = (\<lambda>(j', t, right). j' = j \<and> getTable (jc_table j) (en_catalog e) = Some t \<and>
     (\<exists>rs. rows_of_map rs (table_rows e (jc_table j)) \<and>
       right = map (\<lambda>(rid, vs). bind_row (jc_table j) (jc_alias j) t vs) rs))"

lemma over_mset: "mset rows = mset rows' \<Longrightarrow> over cs rows = over cs rows'"
  using mset_eq_setD [of rows rows'] by (simp add: over_def)

lemma reference_join_over:
  assumes "over cs rows" "over rs right"
  shows "over (cs @ rs) (reference_join fmt j (cs @ rs) (replicate (length rs) VNull) rows right)"
  using assms by (auto simp: over_def reference_join_def row_matches_def combined_row_def)

lemma join_step_correct:
  assumes je: "join_env_ok je" and settled: "key_settled j t" and t: "getTable (jc_table j) cat = Some t"
    and rows: "over ls rows" and right: "over (schema_of (jc_table j) (jc_alias j) t) right"
    and out: "join_step je fmt cat source j rows right = Inr out"
  shows "mset out = mset (reference_join fmt j (ls @ schema_of (jc_table j) (jc_alias j) t)
    (replicate (length (tm_columns t)) VNull) rows right)"
proof -
  let ?rs = "schema_of (jc_table j) (jc_alias j) t"
  have pad: "null_values cat (jc_table j) = replicate (length (tm_columns t)) VNull" by (simp add: null_values_def t)
  obtain left where left: "rows_schema cat (fst source) (snd source) rows = Inr left"
    using out by (auto simp: join_step_def rbind_eq_Inr_iff)
  have rs: "rows_schema cat (jc_table j) (jc_alias j) right = Inr (Some ?rs)"
    using right t by (cases right) (simp_all add: rows_schema_def over_def bound_schema_def)
  have out': "(case join_keys j of Some keys \<Rightarrow> hash_join je cat j keys (combineSchemas left (Some ?rs)) rows right
      | None \<Rightarrow> nested_join fmt cat j (combineSchemas left (Some ?rs)) rows right) = Inr out"
    using out by (simp add: join_step_def left rs Let_def)
  show ?thesis
  proof (cases rows)
    case Nil
    then have "out = []" using out'
      by (auto simp: hash_join_def nested_join_def Let_def rbind_eq_Inr_iff split: option.splits)
    then show ?thesis by (simp add: Nil reference_join_def)
  next
    case (Cons r rest)
    then have "left = Some ls" using left rows by (simp add: rows_schema_def over_def)
    then have schema: "combineSchemas left (Some ?rs) = ls @ ?rs" by (simp add: combineSchemas_def)
    show ?thesis
    proof (cases "join_keys j")
      case None
      then show ?thesis using nested_join_correct [OF t right] out' pad schema by simp
    next
      case (Some keys)
      then show ?thesis using hash_join_correct [OF je Some settled t rows right] out' pad schema by simp
    qed
  qed
qed

lemma scanned_reads:
  assumes "only_reads e e'" "all_stored e"
  shows "scanned e' = scanned e"
proof (intro ext)
  fix j x
  have cat: "en_catalog e' = en_catalog e" using assms(1) by (simp add: only_reads_def keeps_def)
  show "scanned e' j x = scanned e j x"
    using only_reads_rows [OF assms, of "jc_table j"] by (cases "getTable (jc_table j) (en_catalog e)") (simp_all add: scanned_def cat)
qed

text \<open>
  C4. The joins of a query are the relational joins. Whatever hashes and filter settings are used,
  executing the joins gives, up to the order of the rows, the rows of the reference: for every row
  so far and every row of the joined table on which the condition is true the combined row, and
  for a left join a row padded with nulls where there is none. Nothing but the page cache changes.
  (An unqualified column on the other side of an equality must not name a column of the joined
  table.)
\<close>

theorem source_order_joins_correct:
  assumes "join_env_ok je" "all_stored e" "0 < env_batch env" "over cs rows"
    and "\<And>j t. j \<in> set js \<Longrightarrow> getTable (jc_table j) (en_catalog e) = Some t \<Longrightarrow> key_settled j t"
  shows "runs (executeSourceOrderJoins je env source js rows) e
    (\<lambda>out e'. only_reads e e' \<and> (\<exists>scans. list_all2 (scanned e) js scans \<and>
       mset out = mset (reference_joins (env_fmt env) cs scans rows))) (only_reads e)"
  using assms(2,4,5)
proof (induction js arbitrary: e cs rows)
  case Nil
  then show ?case using only_reads_refl by (simp add: runs_give)
next
  case (Cons j js)
  note all = Cons.prems(1)
  have refl: "only_reads e e" by (rule only_reads_refl [OF all])
  show ?case
  proof (cases "getTable (jc_table j) (en_catalog e)")
    case None
    then show ?thesis using refl by (simp add: runs_bind scanTable_def runs_error [of "table_named (jc_table j)"] table_named_def)
  next
    case (Some t)
    then have name: "tm_name t = jc_table j" and st: "stored_ok e t" using all by (simp_all add: all_stored_def)
    have t: "in_db e t" using Some name by (simp add: in_db_def)
    let ?rs = "schema_of (jc_table j) (jc_alias j) t"
    have settled: "key_settled j t" using Cons.prems(3) Some by simp
    have rest: "runs (ebind (give (join_step je (env_fmt env) (en_catalog e1) source j rows (map snd scan))) (\<lambda>rows'.
        executeSourceOrderJoins je env source js rows')) e1
      (\<lambda>out e'. only_reads e e' \<and> (\<exists>scans. list_all2 (scanned e) (j # js) scans \<and>
         mset out = mset (reference_joins (env_fmt env) cs scans rows))) (only_reads e)"
      if a: "only_reads e e1" and rs: "rows_of_map rs (table_rows e (jc_table j))"
        and scan: "scan = map (\<lambda>(rid, vs). (rid, bind_row (jc_table j) (jc_alias j) t vs)) rs" for scan rs e1
    proof (cases "join_step je (env_fmt env) (en_catalog e1) source j rows (map snd scan)")
      case (Inl x)
      then show ?thesis using a by (simp add: runs_simps)
    next
      case (Inr rows1)
      have cat: "en_catalog e1 = en_catalog e" using a by (simp add: only_reads_def keeps_def)
      let ?right = "map snd scan"
      have right: "over ?rs ?right"
      proof -
        have "length vs = length (tm_columns t)" if "(rid, vs) \<in> set rs" for rid vs
          using rs that stored_fits [OF st] row_fits_length name by (fastforce simp: rows_of_map_def)
        then show ?thesis by (auto simp: over_def scan bind_row_def schema_of_def)
      qed
      let ?ref = "reference_join (env_fmt env) j (cs @ ?rs) (replicate (length (tm_columns t)) VNull) rows ?right"
      have m: "mset rows1 = mset ?ref"
        by (rule join_step_correct [OF assms(1) settled _ Cons.prems(2) right Inr]) (simp add: cat Some)
      have over1: "over (cs @ ?rs) rows1"
        using reference_join_over [OF Cons.prems(2) right] over_mset [OF m] by (simp add: schema_of_def)
      have all1: "all_stored e1" by (rule only_reads_all [OF a all])
      have "runs (executeSourceOrderJoins je env source js rows1) e1
        (\<lambda>out e'. only_reads e1 e' \<and> (\<exists>scans. list_all2 (scanned e1) js scans \<and>
           mset out = mset (reference_joins (env_fmt env) (cs @ ?rs) scans rows1))) (only_reads e1)"
        by (rule Cons.IH [OF all1 over1]) (use Cons.prems(3) cat in auto)
      then have "runs (executeSourceOrderJoins je env source js rows1) e1
        (\<lambda>out e'. only_reads e e' \<and> (\<exists>scans. list_all2 (scanned e) (j # js) scans \<and>
         mset out = mset (reference_joins (env_fmt env) cs scans rows))) (only_reads e)"
      proof (rule runs_weaken)
        fix out e'
        assume b: "only_reads e1 e' \<and> (\<exists>scans. list_all2 (scanned e1) js scans \<and>
           mset out = mset (reference_joins (env_fmt env) (cs @ ?rs) scans rows1))"
        then obtain scans where s: "list_all2 (scanned e1) js scans"
          "mset out = mset (reference_joins (env_fmt env) (cs @ ?rs) scans rows1)" by blast
        have "list_all2 (scanned e) js scans" using s(1) by (simp only: scanned_reads [OF a all])
        moreover have "scanned e j (j, t, ?right)" using Some rs scan by (auto simp: scanned_def comp_def case_prod_beta)
        ultimately have "list_all2 (scanned e) (j # js) ((j, t, ?right) # scans)" by simp
        moreover have "mset out = mset (reference_joins (env_fmt env) cs ((j, t, ?right) # scans) rows)"
          using s(2) reference_joins_mset [OF m] by (simp add: Let_def)
        ultimately show "only_reads e e' \<and> (\<exists>scans. list_all2 (scanned e) (j # js) scans \<and>
         mset out = mset (reference_joins (env_fmt env) cs scans rows))" using b only_reads_trans [OF a] by blast
      qed (rule only_reads_trans [OF a])
      then show ?thesis using Inr by (simp add: runs_simps)
    qed
    have "runs (scanTable env (jc_table j) (jc_alias j)) e (\<lambda>scan e1. runs (ebind (give (join_step je (env_fmt env) (en_catalog e1) source j rows (map snd scan))) (\<lambda>rows'.
        executeSourceOrderJoins je env source js rows')) e1
      (\<lambda>out e'. only_reads e e' \<and> (\<exists>scans. list_all2 (scanned e) (j # js) scans \<and>
         mset out = mset (reference_joins (env_fmt env) cs scans rows))) (only_reads e)) (only_reads e)"
      by (rule runs_weaken [OF runs_scan_alias [OF st t assms(3), unfolded name]]) (use rest in blast)+
    then show ?thesis unfolding executeSourceOrderJoins.simps runs_bind [of "scanTable env _ _"] by (simp only: runs_def)
  qed
qed

theorem source_order_joins_correct_witness:
  "runs (executeSourceOrderJoins demo_join_env demo_env (''t'', ''c'') [demo_self_join] [demo_join_row ''c'' (VInteger 1) VNull]) demo_engine
    (\<lambda>out e'. only_reads demo_engine e') (only_reads demo_engine)"
proof -
  have over: "over (schema_of ''t'' ''c'' demo_table) [demo_join_row ''c'' (VInteger 1) VNull]"
    by (simp add: over_def demo_join_row_def bind_row_def schema_of_def demo_table_def)
  have settled: "key_settled j t" if "j \<in> set [demo_self_join]" "getTable (jc_table j) (en_catalog demo_engine) = Some t" for j t
    using that demo_join_settled(3) demo_catalog by (auto split: if_splits)
  show ?thesis
    by (rule runs_weaken [OF source_order_joins_correct [OF demo_join_settled(1) db_stored [OF demo_db_ok] _ over settled]])
      (simp_all add: demo_env_def)
qed

text \<open>
  The proviso on unqualified columns is needed: where the name is a column of the joined table
  only, the nested loop finds it and the hash join, which looks on the other side, throws.
\<close>

lemma joined_column_unknown:
  "let on = JoinClause INNER ''t'' ''p'' (Some (BinaryOp 0 0 ''='' (ColumnRef 0 0 ''p'' ''id'' []) (ColumnRef 0 0 [] ''up'' []) []));
       left = [\<lparr>er_columns = Some [\<lparr>bc_table = ''a'', bc_alias = ''a'', bc_name = ''x''\<rparr>], er_values = [VInteger 1]\<rparr>];
       right = [demo_join_row ''p'' (VInteger 1) (VInteger 1)]
   in join_step demo_join_env (\<lambda>_. []) new_catalog (''a'', ''a'') on left right = Inl (Runtime_Error ''Unknown column: up'') \<and>
      rbind (nested_join (\<lambda>_. []) new_catalog on
        (\<lparr>bc_table = ''a'', bc_alias = ''a'', bc_name = ''x''\<rparr> # schema_of ''t'' ''p'' demo_table) left right) (\<lambda>out. Inr (map er_values out)) =
        Inr [[VInteger 1, VInteger 1, VInteger 1]]"
  by code_simp

end
