(* ===== verification/Join_Plan.thy ===== *)
theory Join_Plan
  imports Engine_Joins
begin

text \<open>
  Joins in an order chosen by cost (\<open>executeCostBasedJoins\<close>, \<open>src/native_joins.cpp\<close>): for queries
  of at least three relations that are joined by equalities between qualified columns, dynamic
  programming over the sets of relations finds the cheapest order in which each relation is
  connected to those before it; then hash joins build on the smaller side.

  A set of relations is the number whose bits are its members. The counts of distinct values that
  earlier queries left in the statistics are a parameter (\<open>known\<close>); they steer the choice of the
  order only.
\<close>

section \<open>Relations and predicates\<close>

type_synonym relation = "string \<times> string"

record join_predicate =
  jp_left :: nat
  jp_right :: nat
  jp_leftKey :: "string \<times> string"
  jp_rightKey :: "string \<times> string"
  jp_expression :: ast

definition names_relation :: "string \<Rightarrow> relation \<Rightarrow> bool" where
  "names_relation qualifier r \<longleftrightarrow> qualifier = fst r \<or> (snd r \<noteq> [] \<and> qualifier = snd r)"

definition relation_for :: "relation list \<Rightarrow> string \<Rightarrow> nat option" where
  "relation_for relations qualifier =
     (if qualifier = [] then None else position_of (names_relation qualifier) relations)"

definition predicate_of :: "relation list \<Rightarrow> ast join_clause \<Rightarrow> join_predicate option" where
  "predicate_of relations j = (case jc_condition j of
       Some (BinaryOp l c oper first second alias) \<Rightarrow>
         (case (column_key first, column_key second) of
            (Some a, Some b) \<Rightarrow>
              (case (relation_for relations (fst a), relation_for relations (fst b)) of
                 (Some i, Some k) \<Rightarrow>
                   if oper = ''='' \<and> i \<noteq> k
                   then Some \<lparr>jp_left = i, jp_right = k, jp_leftKey = a, jp_rightKey = b,
                     jp_expression = BinaryOp l c oper first second alias\<rparr>
                   else None
               | _ \<Rightarrow> None)
          | _ \<Rightarrow> None)
     | _ \<Rightarrow> None)"

fun all_predicates :: "relation list \<Rightarrow> ast join_clause list \<Rightarrow> join_predicate list option" where
  "all_predicates relations [] = Some []"
| "all_predicates relations (j # js) = (case (predicate_of relations j, all_predicates relations js) of
       (Some p, Some ps) \<Rightarrow> Some (p # ps)
     | _ \<Rightarrow> None)"

definition relations_of :: "query \<Rightarrow> relation list" where
  "relations_of q = (q_fromTable q, q_fromAlias q) # map (\<lambda>j. (jc_table j, jc_alias j)) (q_joins q)"

definition plannable :: "query \<Rightarrow> bool" where
  "plannable q \<longleftrightarrow> 2 \<le> length (q_joins q) \<and> length (q_joins q) < 64 \<and>
     list_all (\<lambda>j. jc_type j = INNER) (q_joins q) \<and> \<not> list_ex is_wildcard (q_columns q)"

section \<open>Statistics\<close>

type_synonym distinct_counts = "string \<Rightarrow> nat option"

record relation_data =
  rd_rows :: "eval_row list"
  rd_distinct :: distinct_counts

definition required_columns :: "join_predicate list \<Rightarrow> nat \<Rightarrow> string list" where
  "required_columns predicates i =
     concat (map (\<lambda>p. (if jp_left p = i then [snd (jp_leftKey p)] else []) @
       (if jp_right p = i then [snd (jp_rightKey p)] else [])) predicates)"

text \<open>The distinct values of a column, counted unless the statistics of the table know them.\<close>

definition count_column :: "distinct_counts \<Rightarrow> table_meta \<Rightarrow> eval_row list \<Rightarrow> string \<Rightarrow> distinct_counts \<Rightarrow> distinct_counts result" where
  "count_column known t rows name counts = (case known name of
       Some n \<Rightarrow> Inr (counts(name \<mapsto> n))
     | None \<Rightarrow> (case position_of (\<lambda>m. cm_name m = name) (tm_columns t) of
           None \<Rightarrow> Inl (Runtime_Error (''Unknown statistics column: '' @ name))
         | Some k \<Rightarrow> rbind (map_r (\<lambda>r. value_at (er_values r) k) rows) (\<lambda>vs.
             Inr (counts(name \<mapsto> max 1 (distinct_count [] (filter (\<lambda>v. \<not> isNull v) vs)))))))"

definition scan_relation :: "env \<Rightarrow> (string \<Rightarrow> nat \<Rightarrow> distinct_counts) \<Rightarrow> join_predicate list \<Rightarrow> nat \<times> relation \<Rightarrow> relation_data eng" where
  "scan_relation env known predicates = (\<lambda>(i, table, alias).
     ebind (scanTable env table alias) (\<lambda>scan.
       ebind (table_named table) (\<lambda>t.
         let rows = map snd scan in
         ebind (change (\<lambda>e. e\<lparr>en_statistics := insert table (en_statistics e)\<rparr>)) (\<lambda>_.
           ebind (give (fold_r (count_column (known table (length rows)) t rows) (required_columns predicates i) Map.empty)) (\<lambda>counts.
             give (Inr \<lparr>rd_rows = rows, rd_distinct = counts\<rparr>))))))"

fun scan_relations :: "env \<Rightarrow> (string \<Rightarrow> nat \<Rightarrow> distinct_counts) \<Rightarrow> join_predicate list \<Rightarrow> (nat \<times> relation) list \<Rightarrow> relation_data list eng" where
  "scan_relations env known predicates [] = give (Inr [])"
| "scan_relations env known predicates (r # rs) =
     ebind (scan_relation env known predicates r) (\<lambda>d.
       ebind (scan_relations env known predicates rs) (\<lambda>ds. give (Inr (d # ds))))"

section \<open>Choosing the order\<close>

record plan =
  pl_cost :: double
  pl_rows :: double
  pl_order :: "nat list"

type_synonym plans = "nat \<Rightarrow> plan option"

definition larger_of :: "double \<Rightarrow> double \<Rightarrow> double" where
  "larger_of a b = (if double_lt a b then b else a)"

definition row_count :: "relation_data list \<Rightarrow> nat \<Rightarrow> double" where
  "row_count relations i = double_of_int (int (length (rd_rows (relations ! i))))"

definition distinct_of :: "relation_data list \<Rightarrow> nat \<Rightarrow> string \<times> string \<Rightarrow> double" where
  "distinct_of relations i key = double_of_int (int (case rd_distinct (relations ! i) (snd key) of
       None \<Rightarrow> max 1 (length (rd_rows (relations ! i)))
     | Some n \<Rightarrow> n))"

text \<open>The predicates that connect a relation to a set, with their selectivities multiplied.\<close>

fun connection :: "relation_data list \<Rightarrow> join_predicate list \<Rightarrow> nat \<Rightarrow> nat \<Rightarrow> double \<times> bool \<Rightarrow> double \<times> bool" where
  "connection relations [] members next acc = acc"
| "connection relations (p # ps) members next acc =
     (let factor = ddiv (double_of_int 1) (larger_of (distinct_of relations (jp_left p) (jp_leftKey p)) (distinct_of relations (jp_right p) (jp_rightKey p)))
      in connection relations ps members next
           (if jp_left p = next \<and> bit members (jp_right p) then (dmul (fst acc) factor, True)
            else if jp_right p = next \<and> bit members (jp_left p) then (dmul (fst acc) factor, True)
            else acc))"

definition extend_plan :: "relation_data list \<Rightarrow> join_predicate list \<Rightarrow> nat \<Rightarrow> nat \<Rightarrow> plans \<Rightarrow> plans" where
  "extend_plan relations predicates members next plans = (case plans members of
       None \<Rightarrow> plans
     | Some pl \<Rightarrow>
         if bit members next then plans
         else case connection relations predicates members next (double_of_int 1, False) of (selectivity, connected) \<Rightarrow>
           if \<not> connected then plans
           else let nextRows = row_count relations next;
                    outputRows = larger_of (dmul (dmul (pl_rows pl) nextRows) selectivity)
                      (if double_eq (pl_rows pl) 0 \<or> double_eq nextRows 0 then 0 else double_of_int 1);
                    cost = dadd (dadd (dadd (pl_cost pl) (pl_rows pl)) nextRows) outputRows;
                    combined = members + 2 ^ next;
                    new = \<lparr>pl_cost = cost, pl_rows = outputRows, pl_order = pl_order pl @ [next]\<rparr>
                in case plans combined of
                     None \<Rightarrow> plans(combined \<mapsto> new)
                   | Some old \<Rightarrow> if double_lt cost (pl_cost old) then plans(combined \<mapsto> new) else plans)"

definition first_plans :: "relation_data list \<Rightarrow> plans" where
  "first_plans relations = fold (\<lambda>i plans.
     plans(2 ^ i \<mapsto> \<lparr>pl_cost = row_count relations i, pl_rows = row_count relations i, pl_order = [i]\<rparr>))
     [0..<length relations] Map.empty"

definition all_plans :: "relation_data list \<Rightarrow> join_predicate list \<Rightarrow> plans" where
  "all_plans relations predicates = fold (\<lambda>members plans.
     fold (\<lambda>next plans. extend_plan relations predicates members next plans) [0..<length relations] plans)
     [1..<2 ^ length relations] (first_plans relations)"

section \<open>Joining in the chosen order\<close>

text \<open>The predicate whose columns are the keys, and whether the next relation is on its left.\<close>

fun key_predicate_for :: "join_predicate list \<Rightarrow> nat set \<Rightarrow> nat \<Rightarrow> (join_predicate \<times> bool) option" where
  "key_predicate_for [] inside next = None"
| "key_predicate_for (p # ps) inside next =
     (if jp_left p = next \<and> jp_right p \<in> inside then Some (p, True)
      else if jp_right p = next \<and> jp_left p \<in> inside then Some (p, False)
      else key_predicate_for ps inside next)"

text \<open>The index is built on the smaller side; the joined row starts with the rows so far in any case.\<close>

definition hash_pairs :: "join_env \<Rightarrow> string \<times> string \<Rightarrow> string \<times> string \<Rightarrow> eval_row list \<Rightarrow> eval_row list \<Rightarrow> (eval_row \<times> eval_row) list result" where
  "hash_pairs je joinedKey nextKey rows nextRows =
     (if length rows \<le> length nextRows then
        rbind (build_side je joinedKey rows) (\<lambda>hashed.
          rbind (map_r (\<lambda>r. rbind (probe je hashed nextKey r) (\<lambda>found. Inr (map (\<lambda>l. (l, r)) found))) nextRows) (\<lambda>ps.
            Inr (concat ps)))
      else
        rbind (build_side je nextKey nextRows) (\<lambda>hashed.
          rbind (map_r (\<lambda>l. rbind (probe je hashed joinedKey l) (\<lambda>found. Inr (map (\<lambda>r. (l, r)) found))) rows) (\<lambda>ps.
            Inr (concat ps))))"

fun predicates_hold :: "fmt \<Rightarrow> nat set \<Rightarrow> join_predicate list \<Rightarrow> eval_row \<Rightarrow> bool result" where
  "predicates_hold fmt inside [] row = Inr True"
| "predicates_hold fmt inside (p # ps) row =
     (if jp_left p \<in> inside \<and> jp_right p \<in> inside
      then rbind (eval fmt (jp_expression p) row) (\<lambda>v.
        if asBoolean v then predicates_hold fmt inside ps row else Inr False)
      else predicates_hold fmt inside ps row)"

definition first_schema :: "'a catalog_data_scheme \<Rightarrow> relation list \<Rightarrow> nat \<Rightarrow> eval_row list \<Rightarrow> bound_column list option result" where
  "first_schema cat relations i rows = rows_schema cat (fst (relations ! i)) (snd (relations ! i)) rows"

fun join_planned :: "join_env \<Rightarrow> fmt \<Rightarrow> 'a catalog_data_scheme \<Rightarrow> relation list \<Rightarrow> relation_data list \<Rightarrow> join_predicate list \<Rightarrow> nat \<Rightarrow>
    nat list \<Rightarrow> nat set \<Rightarrow> eval_row list \<Rightarrow> eval_row list option result" where
  "join_planned je fmt cat names relations predicates front [] inside rows = Inr (Some rows)"
| "join_planned je fmt cat names relations predicates front (next # order) inside rows =
     (case key_predicate_for predicates inside next of
        None \<Rightarrow> Inr None
      | Some (p, nextIsLeft) \<Rightarrow>
          let nextKey = (if nextIsLeft then jp_leftKey p else jp_rightKey p);
              joinedKey = (if nextIsLeft then jp_rightKey p else jp_leftKey p);
              nextRows = rd_rows (relations ! next);
              inside' = insert next inside
          in rbind (first_schema cat names front rows) (\<lambda>left.
               rbind (first_schema cat names next nextRows) (\<lambda>right.
                 rbind (hash_pairs je joinedKey nextKey rows nextRows) (\<lambda>pairs.
                   rbind (filter_r (predicates_hold fmt inside' predicates)
                       (map (\<lambda>(l, r). combined_row (combineSchemas left right) l (er_values r)) pairs)) (\<lambda>rows'.
                     join_planned je fmt cat names relations predicates front order inside' rows')))))"

text \<open>A shift by the width of \<open>size_t\<close> is undefined: 64 relations pass the test on the joins.\<close>

definition executeCostBasedJoins :: "join_env \<Rightarrow> env \<Rightarrow> (string \<Rightarrow> nat \<Rightarrow> distinct_counts) \<Rightarrow> query \<Rightarrow> eval_row list option eng" where
  "executeCostBasedJoins je env known q =
     (if \<not> plannable q then give (Inr None)
      else case all_predicates (relations_of q) (q_joins q) of
          None \<Rightarrow> give (Inr None)
        | Some predicates \<Rightarrow>
            ebind (scan_relations env known predicates (enumerate 0 (relations_of q))) (\<lambda>relations e.
              if 64 \<le> length relations then (Inl Undefined_Behaviour, e)
              else case all_plans relations predicates (2 ^ length relations - 1) of
                  None \<Rightarrow> (Inr None, e)
                | Some best \<Rightarrow> give (join_planned je (env_fmt env) (en_catalog e) (relations_of q) relations predicates
                    (hd (pl_order best)) (tl (pl_order best)) {hd (pl_order best)} (rd_rows (relations ! hd (pl_order best)))) e))"

section \<open>The chosen order\<close>

text \<open>Every relation but the first is connected by a predicate to one before it.\<close>

definition linked :: "join_predicate list \<Rightarrow> nat \<Rightarrow> nat set \<Rightarrow> bool" where
  "linked ps next S \<longleftrightarrow> (\<exists>p\<in>set ps. jp_left p = next \<and> jp_right p \<in> S \<or> jp_right p = next \<and> jp_left p \<in> S)"

definition order_ok :: "join_predicate list \<Rightarrow> nat list \<Rightarrow> bool" where
  "order_ok ps os \<longleftrightarrow> os \<noteq> [] \<and> distinct os \<and> (\<forall>k. 0 < k \<longrightarrow> k < length os \<longrightarrow> linked ps (os ! k) (set (take k os)))"

definition plans_ok :: "join_predicate list \<Rightarrow> nat \<Rightarrow> plans \<Rightarrow> bool" where
  "plans_ok ps n plans \<longleftrightarrow> (\<forall>members pl. plans members = Some pl \<longrightarrow>
     order_ok ps (pl_order pl) \<and> set (pl_order pl) \<subseteq> {..<n} \<and> (\<forall>i. bit members i \<longleftrightarrow> i \<in> set (pl_order pl)))"

lemma connection_linked:
  "snd (connection relations ps members next acc) \<Longrightarrow> snd acc \<or> linked ps next {i. bit members i}"
proof (induction relations ps members "next" acc rule: connection.induct)
  case (2 relations p ps members "next" acc)
  then show ?case by (auto simp: Let_def linked_def split: if_splits)
qed simp

lemma order_ok_snoc:
  assumes "order_ok ps os" "next \<notin> set os" "linked ps next (set os)"
  shows "order_ok ps (os @ [next])"
  using assms by (auto simp: order_ok_def nth_append less_Suc_eq)

lemma bit_add_power:
  assumes "\<not> bit (m :: nat) k"
  shows "bit (m + 2 ^ k) i \<longleftrightarrow> bit m i \<or> i = k"
proof -
  have "m AND 2 ^ k = 0" using assms by (simp add: and_exp_eq_0_iff_not_bit)
  then have "m + 2 ^ k = m OR 2 ^ k" by (simp add: disjunctive_add_eq_or)
  then show ?thesis by (auto simp: bit_or_iff bit_exp_iff)
qed

lemma extend_plan_ok:
  assumes "plans_ok ps n plans" "next < n"
  shows "plans_ok ps n (extend_plan relations ps members next plans)"
proof (cases "plans members")
  case None
  then show ?thesis using assms(1) by (simp add: extend_plan_def)
next
  case (Some pl)
  obtain sel con where c: "connection relations ps members next (double_of_int 1, False) = (sel, con)" by fastforce
  show ?thesis
  proof (cases "bit members next \<or> \<not> con")
    case True
    then show ?thesis using assms(1) Some c by (auto simp: extend_plan_def)
  next
    case False
    have ok: "order_ok ps (pl_order pl)" "set (pl_order pl) \<subseteq> {..<n}" and bits: "\<And>i. bit members i \<longleftrightarrow> i \<in> set (pl_order pl)"
      using assms(1) Some unfolding plans_ok_def by blast+
    have "linked ps next {i. bit members i}" using connection_linked [of relations ps members "next" "(double_of_int 1, False)"] c False by simp
    then have "linked ps next (set (pl_order pl))" by (simp add: bits)
    then have new: "order_ok ps (pl_order pl @ [next])" using order_ok_snoc ok(1) False bits by blast
    have "plans_ok ps n (plans(members + 2 ^ next \<mapsto> pl'))" if "pl_order pl' = pl_order pl @ [next]" for pl'
      using assms new ok(2) bits False that unfolding plans_ok_def by (auto simp: bit_add_power)
    then show ?thesis using assms(1) Some c False by (simp add: extend_plan_def Let_def split: option.splits)
  qed
qed

lemma fold_invariant_upt: "I s \<Longrightarrow> (\<And>i s. i \<in> set xs \<Longrightarrow> I s \<Longrightarrow> I (f i s)) \<Longrightarrow> I (fold f xs s)"
  by (induction xs arbitrary: s) auto

lemma all_plans_ok: "plans_ok ps (length relations) (all_plans relations ps)"
proof -
  let ?n = "length relations"
  have first: "plans_ok ps ?n (first_plans relations)"
    unfolding first_plans_def
  proof (rule fold_invariant_upt [where I = "plans_ok ps ?n"], goal_cases)
    case 1
    show ?case by (simp add: plans_ok_def)
  next
    case (2 i plans)
    then show ?case by (auto simp: plans_ok_def order_ok_def bit_exp_iff)
  qed
  have inner: "plans_ok ps ?n (fold (\<lambda>next plans. extend_plan relations ps members next plans) [0..<?n] plans)"
    if "plans_ok ps ?n plans" for members plans
    by (rule fold_invariant_upt [where I = "plans_ok ps ?n", OF that]) (simp add: extend_plan_ok)
  show ?thesis unfolding all_plans_def
  proof (rule fold_invariant_upt [where I = "plans_ok ps ?n", OF first], goal_cases)
    case (1 members plans)
    from inner [OF this(2)] show ?case .
  qed
qed

text \<open>
  The plan for all relations joins each of them once, and each after the first one is connected
  to those before it, so that a key predicate is always found.
\<close>

lemma best_plan_order:
  assumes "all_plans relations ps (2 ^ length relations - 1) = Some best"
  shows "order_ok ps (pl_order best) \<and> set (pl_order best) = {..<length relations}"
proof -
  let ?m = "2 ^ length relations - 1 :: nat"
  have ok: "order_ok ps (pl_order best)" "set (pl_order best) \<subseteq> {..<length relations}"
    and bits: "\<And>i. bit ?m i \<longleftrightarrow> i \<in> set (pl_order best)"
    using all_plans_ok [of ps relations] assms unfolding plans_ok_def by blast+
  have "bit ?m i" if "i < length relations" for i
  proof -
    have "?m = mask (length relations)" by (simp add: mask_eq_exp_minus_1)
    then show ?thesis using that by (simp only: bit_mask_iff possible_bit_nat simp_thms)
  qed
  then show ?thesis using ok bits by blast
qed

lemma key_predicate_found:
  assumes "linked ps next S"
  shows "\<exists>p left. key_predicate_for ps S next = Some (p, left) \<and> p \<in> set ps \<and>
    (if left then jp_left p = next \<and> jp_right p \<in> S else jp_right p = next \<and> jp_left p \<in> S)"
  using assms
proof (induction ps)
  case (Cons p ps)
  consider (left) "jp_left p = next \<and> jp_right p \<in> S" | (right) "\<not> (jp_left p = next \<and> jp_right p \<in> S)" "jp_right p = next \<and> jp_left p \<in> S"
    | (rest) "\<not> (jp_left p = next \<and> jp_right p \<in> S)" "\<not> (jp_right p = next \<and> jp_left p \<in> S)" by blast
  then show ?case
  proof cases
    case rest
    then have "linked ps next S" using Cons.prems by (auto simp: linked_def)
    then obtain q l where "key_predicate_for ps S next = Some (q, l)" "q \<in> set ps"
      "if l then jp_left q = next \<and> jp_right q \<in> S else jp_right q = next \<and> jp_left q \<in> S" using Cons.IH by blast
    moreover have "key_predicate_for (p # ps) S next = key_predicate_for ps S next"
      using rest by (simp only: key_predicate_for.simps if_False)
    ultimately show ?thesis by (intro exI [of _ q] exI [of _ l]) simp
  qed (simp_all only: key_predicate_for.simps if_True if_False simp_thms option.inject prod.inject, auto)
qed (simp add: linked_def)

text \<open>
  A plan is complete: the order that dynamic programming chooses, whatever the sizes and the
  statistics are, joins every relation exactly once, and for each relation after the first there
  is a join condition to one of those before it, so the joins in that order always find their
  keys.
\<close>

theorem plan_joins_all:
  assumes "all_plans relations ps (2 ^ length relations - 1) = Some best"
  shows "distinct (pl_order best) \<and> set (pl_order best) = {..<length relations} \<and>
    (\<forall>k. 0 < k \<and> k < length relations \<longrightarrow> key_predicate_for ps (set (take k (pl_order best))) (pl_order best ! k) \<noteq> None)"
proof -
  have ok: "order_ok ps (pl_order best)" and set: "set (pl_order best) = {..<length relations}"
    using best_plan_order [OF assms] by blast+
  then have "length (pl_order best) = length relations"
    using distinct_card [of "pl_order best"] by (simp add: order_ok_def)
  then have "linked ps (pl_order best ! k) (set (take k (pl_order best)))" if "0 < k" "k < length relations" for k
    using ok that by (simp add: order_ok_def)
  then have "key_predicate_for ps (set (take k (pl_order best))) (pl_order best ! k) \<noteq> None" if "0 < k" "k < length relations" for k
    using key_predicate_found that by blast
  moreover have "distinct (pl_order best)" using ok by (simp add: order_ok_def)
  ultimately show ?thesis using set by blast
qed

lemma extend_plan_keeps: "plans m \<noteq> None \<Longrightarrow> extend_plan relations ps members next plans m \<noteq> None"
  by (auto simp: extend_plan_def Let_def split: option.splits prod.splits)

lemma extend_plan_adds:
  assumes "plans m = Some pl" "\<not> bit m k" "snd (connection relations ps m k (double_of_int 1, False))"
  shows "extend_plan relations ps m k plans (m + 2 ^ k) \<noteq> None"
  using assms by (auto simp: extend_plan_def Let_def split: option.splits prod.splits)

end
