(* ===== verification/Join_Order.thy ===== *)
theory Join_Order
  imports Join_Plan
begin

text \<open>
  The order of the joins does not matter. An assignment gives every relation one of its rows;
  \<open>assignments\<close> is the multiset of all of them, which does not depend on the order in which the
  relations are taken, and \<open>layout\<close> is the row that a join in a certain order makes of one. Both
  the joins in the planned order (\<open>join_planned\<close>) and those in the order of the query
  (\<open>reference_joins\<close>) give the layouts of the assignments on which all predicates hold.
\<close>

section \<open>Assignments of rows to relations\<close>

type_synonym row_choice = "nat \<Rightarrow> eval_row"

definition assign :: "(nat \<Rightarrow> eval_row list) \<Rightarrow> nat \<Rightarrow> row_choice multiset \<Rightarrow> row_choice multiset" where
  "assign rows i M = (\<Sum>m\<in>#M. image_mset (\<lambda>r. m(i := r)) (mset (rows i)))"

definition assignments :: "(nat \<Rightarrow> eval_row list) \<Rightarrow> nat list \<Rightarrow> row_choice multiset" where
  "assignments rows os = fold (assign rows) os {#\<lambda>_. empty_row#}"

lemma assign_simps [simp]:
  "assign rows i {#} = {#}"
  "assign rows i (add_mset m M) = image_mset (\<lambda>r. m(i := r)) (mset (rows i)) + assign rows i M"
  "assign rows i (M + N) = assign rows i M + assign rows i N"
  by (simp_all add: assign_def)

lemma assign_image: "assign rows i (image_mset f M) = (\<Sum>x\<in>#M. image_mset (\<lambda>r. (f x)(i := r)) (mset (rows i)))"
  by (simp add: assign_def image_mset.compositionality comp_def)

lemma image_as_sum: "image_mset f M = (\<Sum>x\<in>#M. {#f x#})"
  by (induction M) simp_all

lemma assign_commute:
  assumes "i \<noteq> k"
  shows "assign rows i (assign rows k M) = assign rows k (assign rows i M)"
proof (induction M)
  case (add m M)
  have "assign rows i (image_mset (\<lambda>r. m(k := r)) (mset (rows k))) =
      (\<Sum>r\<in>#mset (rows k). \<Sum>s\<in>#mset (rows i). {#m(k := r, i := s)#})"
    unfolding assign_image by (simp only: image_as_sum [of "\<lambda>s. _(i := s)"])
  also have "\<dots> = (\<Sum>s\<in>#mset (rows i). \<Sum>r\<in>#mset (rows k). {#m(k := r, i := s)#})" by (rule sum_mset.swap)
  also have "\<dots> = (\<Sum>s\<in>#mset (rows i). \<Sum>r\<in>#mset (rows k). {#m(i := s, k := r)#})"
    using assms by (simp add: fun_upd_twist)
  also have "\<dots> = assign rows k (image_mset (\<lambda>s. m(i := s)) (mset (rows i)))"
    unfolding assign_image by (simp only: image_as_sum [of "\<lambda>r. _(k := r)"])
  finally show ?case using add by simp
qed simp

lemma assignments_order: "mset os = mset os' \<Longrightarrow> assignments rows os = assignments rows os'"
  unfolding assignments_def
  by (rule arg_cong [where f = "\<lambda>f. f _"], rule fold_multiset_equiv) (auto simp: fun_eq_iff assign_commute, metis assign_commute)

lemma assignments_snoc: "assignments rows (os @ [i]) = assign rows i (assignments rows os)"
  by (simp add: assignments_def)

lemma assignments_rows: "m \<in># assignments rows os \<Longrightarrow> i \<in> set os \<Longrightarrow> m i \<in> set (rows i)"
proof (induction os arbitrary: m rule: rev_induct)
  case (snoc k os)
  then show ?case by (auto simp: assignments_snoc assign_def split: if_splits)
qed simp

section \<open>Names in joined rows\<close>

definition layout :: "(nat \<Rightarrow> bound_column list) \<Rightarrow> nat list \<Rightarrow> row_choice \<Rightarrow> eval_row" where
  "layout cs os m = \<lparr>er_columns = Some (concat (map cs os)), er_values = concat (map (\<lambda>i. er_values (m i)) os)\<rparr>"

text \<open>The columns of relation \<open>i\<close> are those of a table under the names the query gives it.\<close>

definition columns_of :: "relation list \<Rightarrow> (nat \<Rightarrow> table_meta) \<Rightarrow> nat \<Rightarrow> bound_column list" where
  "columns_of names ts i = schema_of (fst (names ! i)) (snd (names ! i)) (ts i)"

definition names_only :: "relation list \<Rightarrow> string \<Rightarrow> nat \<Rightarrow> bool" where
  "names_only names tab i \<longleftrightarrow> tab \<noteq> [] \<and> (\<forall>k<length names. names_relation tab (names ! k) \<longleftrightarrow> k = i)"

lemma columns_named: "c \<in> set (columns_of names ts i) \<Longrightarrow> tab \<noteq> [] \<Longrightarrow> qualifier_matches tab c = names_relation tab (names ! i)"
  by (auto simp: columns_of_def schema_of_def qualifier_matches_def names_relation_def)

lemma zip_layout:
  assumes "\<forall>i\<in>set os. length (cs i) = length (er_values (m i))"
  shows "zip (concat (map cs os)) (concat (map (\<lambda>i. er_values (m i)) os)) = concat (map (\<lambda>i. zip (cs i) (er_values (m i))) os)"
  using assms by (induction os) simp_all

lemma resolve_skips:
  assumes "\<forall>i\<in>set os. i < length names \<and> i \<noteq> k" "names_only names tab k"
  shows "resolve_loop tab col (concat (map (\<lambda>i. zip (columns_of names ts i) (er_values (m i))) os)) f = Inr f"
proof (rule resolve_other)
  have "\<not> qualifier_matches tab c" if "i \<in> set os" "(c, v) \<in> set (zip (columns_of names ts i) (er_values (m i)))" for i c v
    using assms that columns_named [of c names ts i tab] set_zip_leftD [OF that(2)] by (auto simp: names_only_def)
  then show "\<forall>(c, v)\<in>set (concat (map (\<lambda>i. zip (columns_of names ts i) (er_values (m i))) os)). bc_name c \<noteq> col \<or> \<not> qualifier_matches tab c"
    by auto
qed

text \<open>A qualified column has the value it has in the row of its relation, wherever that stands.\<close>

lemma resolve_layout:
  assumes "\<forall>i\<in>set os. i < length names \<and> length (columns_of names ts i) = length (er_values (m i))" "distinct os" "k \<in> set os"
    and "er_columns (m k) = Some (columns_of names ts k)" "names_only names tab k"
  shows "resolveColumn tab col (layout (columns_of names ts) os m) = resolveColumn tab col (m k)"
proof -
  obtain as bs where os: "os = as @ k # bs" using assms(3) by (meson split_list)
  let ?z = "\<lambda>i. zip (columns_of names ts i) (er_values (m i))"
  have "resolve_loop tab col (concat (map ?z as)) None = Inr None"
    by (rule resolve_skips [OF _ assms(5)]) (use assms(1,2) os in auto)
  moreover have "resolve_loop tab col (concat (map ?z bs)) = Inr"
    by (rule ext, rule resolve_skips [OF _ assms(5)]) (use assms(1,2) os in auto)
  ultimately have "resolve_loop tab col (concat (map ?z os)) None = rbind (resolve_loop tab col (?z k) None) Inr"
    by (simp add: os resolve_loop_append)
  also have "\<dots> = resolve_loop tab col (?z k) None" by (cases "resolve_loop tab col (?z k) None") simp_all
  finally show ?thesis
    using assms(1,4) zip_layout [of os "columns_of names ts" m] by (simp add: resolveColumn_def layout_def)
qed

section \<open>Predicates on assignments\<close>

definition rows_ok :: "relation list \<Rightarrow> (nat \<Rightarrow> table_meta) \<Rightarrow> (nat \<Rightarrow> eval_row list) \<Rightarrow> bool" where
  "rows_ok names ts rows \<longleftrightarrow> (\<forall>i<length names. over (columns_of names ts i) (rows i))"

text \<open>A predicate is an equality between columns of two relations, each named without ambiguity.\<close>

definition key_ok :: "relation list \<Rightarrow> (nat \<Rightarrow> table_meta) \<Rightarrow> nat \<Rightarrow> string \<times> string \<Rightarrow> bool" where
  "key_ok names ts i key \<longleftrightarrow> i < length names \<and> names_only names (fst key) i \<and> snd key \<in> cm_name ` set (tm_columns (ts i))"

definition predicate_ok :: "relation list \<Rightarrow> (nat \<Rightarrow> table_meta) \<Rightarrow> join_predicate \<Rightarrow> bool" where
  "predicate_ok names ts p \<longleftrightarrow> jp_left p \<noteq> jp_right p \<and>
     key_ok names ts (jp_left p) (jp_leftKey p) \<and> key_ok names ts (jp_right p) (jp_rightKey p) \<and>
     (\<exists>ln cn first second al. jp_expression p = BinaryOp ln cn ''='' first second al \<and>
        column_key first = Some (jp_leftKey p) \<and> column_key second = Some (jp_rightKey p))"

definition holds :: "join_predicate \<Rightarrow> row_choice \<Rightarrow> bool" where
  "holds p m \<longleftrightarrow> keys_meet (jp_leftKey p, jp_rightKey p) (m (jp_left p)) (m (jp_right p))"

definition all_hold :: "join_predicate list \<Rightarrow> nat set \<Rightarrow> row_choice \<Rightarrow> bool" where
  "all_hold ps S m \<longleftrightarrow> (\<forall>p\<in>set ps. jp_left p \<in> S \<and> jp_right p \<in> S \<longrightarrow> holds p m)"

definition picks :: "relation list \<Rightarrow> (nat \<Rightarrow> eval_row list) \<Rightarrow> nat list \<Rightarrow> row_choice \<Rightarrow> bool" where
  "picks names rows os m \<longleftrightarrow> distinct os \<and> (\<forall>i\<in>set os. i < length names \<and> m i \<in> set (rows i))"

lemma resolve_found:
  assumes "tab \<noteq> []" "(c, v) \<in> set xs" "bc_name c = col" "qualifier_matches tab c"
  shows "\<exists>w. resolve_loop tab col xs f = Inr (Some w)"
proof -
  obtain as bs where xs: "xs = as @ (c, v) # bs" using assms(2) by (meson split_list)
  obtain a where "\<And>f. resolve_loop tab col as f = Inr (if a = None then f else a)" using resolve_qualified [OF assms(1)] by blast
  moreover obtain b where "\<And>f. resolve_loop tab col bs f = Inr (if b = None then f else b)" using resolve_qualified [OF assms(1)] by blast
  ultimately show ?thesis using assms by (cases b) (simp_all add: xs resolve_loop_append)
qed

text \<open>The key of a relation is found in its rows, and in every joined row that has one of them.\<close>

lemma key_in_rows:
  assumes rows: "rows_ok names ts rows" and key: "key_ok names ts i key" and r: "r \<in> set (rows i)"
  shows "row_key key r = Inr (key_value key r)"
proof -
  have i: "i < length names" and only: "names_only names (fst key) i" using key by (simp_all add: key_ok_def)
  have cs: "er_columns r = Some (columns_of names ts i)" "length (er_values r) = length (columns_of names ts i)"
    using rows i r by (simp_all add: rows_ok_def over_def)
  obtain c where c: "c \<in> set (columns_of names ts i)" "bc_name c = snd key"
    using key by (fastforce simp: key_ok_def columns_of_def schema_of_def)
  have q: "qualifier_matches (fst key) c" using columns_named [OF c(1)] only i by (simp add: names_only_def)
  obtain v where "(c, v) \<in> set (zip (columns_of names ts i) (er_values r))"
    using c(1) cs(2) by (metis in_set_impl_in_set_zip1)
  from resolve_found [OF _ this c(2) q, where f = None] obtain w
    where "resolve_loop (fst key) (snd key) (zip (columns_of names ts i) (er_values r)) None = Inr (Some w)"
    using only by (auto simp: names_only_def)
  then have "row_key key r = Inr w" using cs(1) by (simp add: row_key_def resolveColumn_def)
  then show ?thesis by (simp add: key_value_def)
qed

lemma picks_over:
  assumes "rows_ok names ts rows" "picks names rows os m" "i \<in> set os"
  shows "er_columns (m i) = Some (columns_of names ts i)" "length (er_values (m i)) = length (columns_of names ts i)"
  using assms by (auto simp: rows_ok_def picks_def over_def)

lemma key_in_layout:
  assumes rows: "rows_ok names ts rows" and key: "key_ok names ts i key" and m: "picks names rows os m" and i: "i \<in> set os"
  shows "row_key key (layout (columns_of names ts) os m) = Inr (key_value key (m i))"
proof -
  have "row_key key (layout (columns_of names ts) os m) = row_key key (m i)"
    unfolding row_key_def
    by (rule resolve_layout) (use assms picks_over [OF rows m] in \<open>auto simp: picks_def key_ok_def\<close>)
  also have "\<dots> = Inr (key_value key (m i))"
    by (rule key_in_rows [OF rows key]) (use m i in \<open>simp add: picks_def\<close>)
  finally show ?thesis .
qed

lemma predicate_on_layout:
  assumes rows: "rows_ok names ts rows" and p: "predicate_ok names ts p" and m: "picks names rows os m"
    and i: "jp_left p \<in> set os" "jp_right p \<in> set os"
  shows "satisfies fmt (Some (jp_expression p)) (layout (columns_of names ts) os m) = Inr (holds p m)"
proof -
  let ?row = "layout (columns_of names ts) os m"
  obtain ln cn first second al where e: "jp_expression p = BinaryOp ln cn ''='' first second al"
    and cols: "column_key first = Some (jp_leftKey p)" "column_key second = Some (jp_rightKey p)"
    and keys: "key_ok names ts (jp_left p) (jp_leftKey p)" "key_ok names ts (jp_right p) (jp_rightKey p)"
    using p by (auto simp: predicate_ok_def)
  let ?a = "key_value (jp_leftKey p) (m (jp_left p))" let ?b = "key_value (jp_rightKey p) (m (jp_right p))"
  have "eval fmt first ?row = Inr ?a" "eval fmt second ?row = Inr ?b"
    using key_in_layout [OF rows keys(1) m i(1)] key_in_layout [OF rows keys(2) m i(2)] cols
    by (auto simp: column_key_Some row_key_def)
  moreover have "applyBinary fmt ''='' u v = (if isNull u \<or> isNull v then Inr VNull else Inr (VBoolean (value_eq u v)))" for u v
    by (simp add: applyBinary_def)
  moreover have "asBoolean VNull = False" "\<And>b. asBoolean (VBoolean b) = b" by (simp_all add: asBoolean_def)
  ultimately show ?thesis
    using value_eq_sym [of ?a ?b] by (auto simp: satisfies_def e holds_def keys_meet_def Let_def)
qed

lemma predicates_on_layout:
  assumes rows: "rows_ok names ts rows" and ps: "\<forall>p\<in>set ps. predicate_ok names ts p" and m: "picks names rows os m"
  shows "predicates_hold fmt (set os) ps (layout (columns_of names ts) os m) = Inr (all_hold ps (set os) m)"
  using ps
proof (induction ps)
  case (Cons p ps)
  have IH: "predicates_hold fmt (set os) ps (layout (columns_of names ts) os m) = Inr (all_hold ps (set os) m)"
    using Cons by simp
  show ?case
  proof (cases "jp_left p \<in> set os \<and> jp_right p \<in> set os")
    case True
    then have "satisfies fmt (Some (jp_expression p)) (layout (columns_of names ts) os m) = Inr (holds p m)"
      using predicate_on_layout [OF rows _ m] Cons.prems by simp
    then obtain v where "eval fmt (jp_expression p) (layout (columns_of names ts) os m) = Inr v" "asBoolean v = holds p m"
      by (auto simp: satisfies_def rbind_eq_Inr_iff)
    then show ?thesis using True IH by (simp add: all_hold_def)
  next
    case False
    then show ?thesis using IH by (auto simp: all_hold_def)
  qed
qed (simp add: all_hold_def)

section \<open>One step of the planned joins\<close>

text \<open>Pairs of rows whose keys meet, as a sum over both sides.\<close>

definition met_pairs :: "(eval_row \<Rightarrow> eval_row \<Rightarrow> bool) \<Rightarrow> eval_row multiset \<Rightarrow> eval_row multiset \<Rightarrow> (eval_row \<times> eval_row) multiset" where
  "met_pairs meet L R = (\<Sum>l\<in>#L. \<Sum>r\<in>#R. if meet l r then {#(l, r)#} else {#})"

lemma filter_as_sum: "image_mset f (filter_mset p M) = (\<Sum>x\<in>#M. if p x then {#f x#} else {#})"
  by (induction M) simp_all

lemma concat_as_sum: "mset (concat xss) = (\<Sum>xs\<in>#mset xss. mset xs)"
  by (induction xss) simp_all

lemma found_pairs:
  assumes "list_all2 (\<lambda>x ys. mset ys = image_mset (f x) (filter_mset (p x) R)) xs yss"
  shows "mset (concat yss) = (\<Sum>x\<in>#mset xs. \<Sum>y\<in>#R. if p x y then {#f x y#} else {#})"
  using assms by (induction rule: list_all2_induct) (simp_all add: filter_as_sum)

lemma keys_meet_swap: "keys_meet (b, a) r l = keys_meet (a, b) l r"
  using value_eq_sym [of "key_value a l" "key_value b r"] by (auto simp: keys_meet_def Let_def)

lemma probed_pairs:
  assumes ok: "join_env_ok je" and side: "build_side je (snd keys) right = Inr hashed"
    and out: "map_r (\<lambda>l. rbind (probe je hashed (fst keys) l) (\<lambda>found. Inr (map (f l) found))) rows = Inr ps"
  shows "mset (concat ps) = (\<Sum>l\<in>#mset rows. \<Sum>r\<in>#mset right. if keys_meet keys l r then {#f l r#} else {#})"
proof (rule found_pairs)
  have "mset (map (f l) found) = image_mset (f l) (filter_mset (keys_meet keys l) (mset right))"
    if "probe je hashed (fst keys) l = Inr found" for l found
    using probe_found(1) [OF ok side that] by simp
  then show "list_all2 (\<lambda>l ys. mset ys = image_mset (f l) (filter_mset (keys_meet keys l) (mset right))) rows ps"
    using out by (auto simp: map_r_Inr rbind_eq_Inr_iff elim!: list_all2_mono)
qed

lemma hash_pairs_met:
  assumes ok: "join_env_ok je" and out: "hash_pairs je joinedKey nextKey rows nextRows = Inr pairs"
  shows "mset pairs = met_pairs (keys_meet (joinedKey, nextKey)) (mset rows) (mset nextRows)"
proof (cases "length rows \<le> length nextRows")
  case True
  then obtain hashed ps where side: "build_side je (snd (nextKey, joinedKey)) rows = Inr hashed" and pairs: "pairs = concat ps"
    and "map_r (\<lambda>r. rbind (probe je hashed (fst (nextKey, joinedKey)) r) (\<lambda>found. Inr (map (\<lambda>l. (l, r)) found))) nextRows = Inr ps"
    using out by (auto simp: hash_pairs_def rbind_eq_Inr_iff)
  from probed_pairs [OF ok side this(3)]
  have "mset pairs = (\<Sum>r\<in>#mset nextRows. \<Sum>l\<in>#mset rows. if keys_meet (nextKey, joinedKey) r l then {#(l, r)#} else {#})"
    by (simp add: pairs)
  also have "\<dots> = (\<Sum>l\<in>#mset rows. \<Sum>r\<in>#mset nextRows. if keys_meet (nextKey, joinedKey) r l then {#(l, r)#} else {#})"
    by (rule sum_mset.swap)
  finally show ?thesis by (simp only: met_pairs_def keys_meet_swap)
next
  case False
  then obtain hashed ps where side: "build_side je (snd (joinedKey, nextKey)) nextRows = Inr hashed" and pairs: "pairs = concat ps"
    and "map_r (\<lambda>l. rbind (probe je hashed (fst (joinedKey, nextKey)) l) (\<lambda>found. Inr (map (\<lambda>r. (l, r)) found))) rows = Inr ps"
    using out by (auto simp: hash_pairs_def rbind_eq_Inr_iff)
  from probed_pairs [OF ok side this(3)] show ?thesis by (simp add: pairs met_pairs_def)
qed

text \<open>The rows that a set of joins has when it is right.\<close>

definition joined_rows :: "relation list \<Rightarrow> (nat \<Rightarrow> table_meta) \<Rightarrow> (nat \<Rightarrow> eval_row list) \<Rightarrow> join_predicate list \<Rightarrow> nat list \<Rightarrow> eval_row multiset" where
  "joined_rows names ts rows ps os = image_mset (layout (columns_of names ts) os) (filter_mset (all_hold ps (set os)) (assignments rows os))"

lemma layout_snoc:
  assumes "i \<notin> set os"
  shows "layout cs (os @ [i]) (m(i := r)) = combined_row (concat (map cs os) @ cs i) (layout cs os m) (er_values r)"
proof -
  have "concat (map (\<lambda>k. er_values ((m(i := r)) k)) os) = concat (map (\<lambda>k. er_values (m k)) os)"
    by (rule arg_cong [where f = concat]) (use assms in auto)
  then show ?thesis by (simp add: layout_def combined_row_def del: fun_upd_apply) (simp only: fun_upd_same)
qed

lemma holds_other: "i \<noteq> jp_left p \<Longrightarrow> i \<noteq> jp_right p \<Longrightarrow> holds p (m(i := r)) = holds p m"
  by (simp add: holds_def)

lemma all_hold_mono: "i \<notin> S \<Longrightarrow> all_hold ps (insert i S) (m(i := r)) \<Longrightarrow> all_hold ps S m"
  unfolding all_hold_def by (metis holds_other insertCI)

lemma picks_assigned: "m \<in># assignments rows os \<Longrightarrow> distinct os \<Longrightarrow> set os \<subseteq> {..<length names} \<Longrightarrow> picks names rows os m"
  using assignments_rows by (auto simp: picks_def)

lemma picks_snoc:
  assumes "picks names rows os m" "i \<notin> set os" "i < length names" "r \<in> set (rows i)"
  shows "picks names rows (os @ [i]) (m(i := r))"
  using assms by (auto simp: picks_def)

text \<open>The key predicate of a step, and the sides its keys come from.\<close>

definition key_step :: "join_predicate list \<Rightarrow> nat set \<Rightarrow> nat \<Rightarrow> join_predicate \<Rightarrow> bool \<Rightarrow> bool" where
  "key_step ps S next p left \<longleftrightarrow> p \<in> set ps \<and>
     (if left then jp_left p = next \<and> jp_right p \<in> S else jp_right p = next \<and> jp_left p \<in> S)"

definition step_keys :: "join_predicate \<Rightarrow> bool \<Rightarrow> (string \<times> string) \<times> (string \<times> string)" where
  "step_keys p left = (if left then (jp_rightKey p, jp_leftKey p) else (jp_leftKey p, jp_rightKey p))"

lemma step_keys_meet:
  assumes rows: "rows_ok names ts rows" and ps: "\<forall>p\<in>set ps. predicate_ok names ts p" and m: "picks names rows os m"
    and step: "key_step ps (set os) i p left" "i \<notin> set os"
  shows "keys_meet (step_keys p left) (layout (columns_of names ts) os m) r = holds p (m(i := r))"
proof -
  have "predicate_ok names ts p" using ps step(1) by (simp add: key_step_def)
  then have keys: "key_ok names ts (jp_left p) (jp_leftKey p)" "key_ok names ts (jp_right p) (jp_rightKey p)"
    by (simp_all add: predicate_ok_def)
  have same: "key_value key (layout (columns_of names ts) os m) = key_value key (m k)" if "key_ok names ts k key" "k \<in> set os" for key k
    using key_in_layout [OF rows that(1) m that(2)] by (simp add: key_value_def)
  show ?thesis
  proof (cases left)
    case True
    then have "jp_left p = i" "jp_right p \<in> set os" "jp_right p \<noteq> i" using step by (auto simp: key_step_def)
    then have "keys_meet (step_keys p left) (layout (columns_of names ts) os m) r = keys_meet (jp_rightKey p, jp_leftKey p) (m (jp_right p)) r"
      using True same [OF keys(2)] by (simp add: step_keys_def keys_meet_def)
    then show ?thesis using \<open>jp_left p = i\<close> \<open>jp_right p \<noteq> i\<close> by (simp add: holds_def keys_meet_swap [of "jp_leftKey p"])
  next
    case False
    then have "jp_right p = i" "jp_left p \<in> set os" "jp_left p \<noteq> i" using step by (auto simp: key_step_def)
    then show ?thesis using False same [OF keys(1)] by (simp add: step_keys_def keys_meet_def holds_def)
  qed
qed

lemma filter_r_total: "\<forall>x\<in>set xs. P x = Inr (q x) \<Longrightarrow> filter_r P xs = Inr (filter q xs)"
  by (auto simp: filter_r_Inr)

lemma filter_sums:
  "filter_mset q (\<Sum>x\<in>#M. f x) = (\<Sum>x\<in>#M. filter_mset q (f x))"
  "image_mset g (\<Sum>x\<in>#M. f x) = (\<Sum>x\<in>#M. image_mset g (f x))"
  by (induction M) simp_all

lemma one_if:
  "image_mset f (if b then {#x#} else {#}) = (if b then {#f x#} else {#})"
  "filter_mset q (if b then {#x#} else {#}) = (if b \<and> q x then {#x#} else {#})"
  by simp_all

text \<open>Joining one more relation, as sums over the assignments so far and the rows of the relation.\<close>

lemma joined_rows_snoc:
  assumes "i \<notin> set os"
  shows "joined_rows names ts rows ps (os @ [i]) = (\<Sum>m\<in>#assignments rows os. \<Sum>r\<in>#mset (rows i).
    if all_hold ps (insert i (set os)) (m(i := r)) then {#layout (columns_of names ts) (os @ [i]) (m(i := r))#} else {#})"
  by (simp add: joined_rows_def assignments_snoc assign_def filter_sums filter_mset_image_mset image_mset.compositionality
      filter_as_sum comp_def one_if)

lemma joined_rows_sum:
  "(\<Sum>l\<in>#joined_rows names ts rows ps os. g l) =
    (\<Sum>m\<in>#assignments rows os. if all_hold ps (set os) m then g (layout (columns_of names ts) os m) else {#})"
proof -
  have "(\<Sum>x\<in>#image_mset f (filter_mset p M). g x) = (\<Sum>x\<in>#M. if p x then g (f x) else {#})" for f :: "row_choice \<Rightarrow> eval_row" and p M
    by (induction M) simp_all
  then show ?thesis by (simp add: joined_rows_def)
qed

lemma sum_mset_same: "(\<And>x. x \<in># M \<Longrightarrow> f x = g x) \<Longrightarrow> (\<Sum>x\<in>#M. f x) = (\<Sum>x\<in>#M. g x)"
  by (metis image_mset_cong)

lemma step_rows:
  assumes rows: "rows_ok names ts rows" and ps: "\<forall>p\<in>set ps. predicate_ok names ts p"
    and os: "distinct os" "set os \<subseteq> {..<length names}" "i < length names" "i \<notin> set os"
    and p: "key_step ps (set os) i p left" and R: "mset R = joined_rows names ts rows ps os"
    and schema: "R \<noteq> [] \<Longrightarrow> rows i \<noteq> [] \<Longrightarrow> schema = concat (map (columns_of names ts) os) @ columns_of names ts i"
    and pairs: "mset pairs = met_pairs (keys_meet (step_keys p left)) (mset R) (mset (rows i))"
  shows "\<exists>out. filter_r (predicates_hold fmt (insert i (set os)) ps) (map (\<lambda>(l, r). combined_row schema l (er_values r)) pairs) = Inr out \<and>
    mset out = joined_rows names ts rows ps (os @ [i])"
proof -
  let ?cs = "columns_of names ts"
  let ?S = "insert i (set os)"
  let ?P = "predicates_hold fmt ?S ps"
  let ?comb = "\<lambda>(l, r). combined_row schema l (er_values r)"
  let ?q = "\<lambda>x. ?P x = Inr True"
  have picked: "picks names rows os m" if "m \<in># assignments rows os" for m
    by (rule picks_assigned [OF that os(1,2)])
  have member: "layout ?cs os m \<in> set R" if "m \<in># assignments rows os" "all_hold ps (set os) m" for m
  proof -
    have "layout ?cs os m \<in># mset R" unfolding R joined_rows_def using that by auto
    then show ?thesis by simp
  qed
  have comb: "combined_row schema (layout ?cs os m) (er_values r) = layout ?cs (os @ [i]) (m(i := r))"
    if "m \<in># assignments rows os" "all_hold ps (set os) m" "r \<in> set (rows i)" for m r
    using schema member [OF that(1,2)] that(3) layout_snoc [OF os(4)] by (metis empty_iff list.set(1))
  have eval: "?P (combined_row schema (layout ?cs os m) (er_values r)) = Inr (all_hold ps ?S (m(i := r)))"
    if "m \<in># assignments rows os" "all_hold ps (set os) m" "r \<in> set (rows i)" for m r
    using predicates_on_layout [OF rows ps picks_snoc [OF picked [OF that(1)] os(4,3) that(3)]] comb [OF that] by simp
  have origin: "\<exists>m. m \<in># assignments rows os \<and> all_hold ps (set os) m \<and> l = layout ?cs os m" if "l \<in> set R" for l
  proof -
    have "l \<in># joined_rows names ts rows ps os" using that R by (metis set_mset_mset)
    then show ?thesis by (auto simp: joined_rows_def)
  qed
  have in_pairs: "l \<in> set R \<and> r \<in> set (rows i)" if "(l, r) \<in> set pairs" for l r
  proof -
    have "(l, r) \<in># met_pairs (keys_meet (step_keys p left)) (mset R) (mset (rows i))" using that pairs by (metis set_mset_mset)
    then show ?thesis by (auto simp: met_pairs_def split: if_splits)
  qed
  have total: "?P x = Inr (?q x)" if "x \<in> set (map ?comb pairs)" for x
  proof -
    obtain l r where x: "x = combined_row schema l (er_values r)" "l \<in> set R" "r \<in> set (rows i)" using \<open>x \<in> _\<close> in_pairs by auto
    obtain m where "m \<in># assignments rows os" "all_hold ps (set os) m" "l = layout ?cs os m" using origin [OF x(2)] by blast
    then show ?thesis using eval [of m r] x by simp
  qed
  let ?out = "filter ?q (map ?comb pairs)"
  have "filter_r ?P (map ?comb pairs) = Inr ?out" by (rule filter_r_total) (use total in blast)
  moreover have "mset ?out = joined_rows names ts rows ps (os @ [i])"
  proof -
    have one: "(if keys_meet (step_keys p left) (layout ?cs os m) r \<and> ?q (?comb (layout ?cs os m, r)) then {#?comb (layout ?cs os m, r)#} else {#}) =
        (if all_hold ps ?S (m(i := r)) then {#layout ?cs (os @ [i]) (m(i := r))#} else {#})"
      if m: "m \<in># assignments rows os" "all_hold ps (set os) m" and r: "r \<in># mset (rows i)" for m r
    proof -
      have "holds p (m(i := r))" if "all_hold ps ?S (m(i := r))"
        using that p by (auto simp: all_hold_def key_step_def split: if_splits)
      then show ?thesis
        using step_keys_meet [OF rows ps picked [OF m(1)] p os(4)] eval [OF m] comb [OF m] r by auto
    qed
    have "mset ?out = (\<Sum>l\<in>#mset R. \<Sum>r\<in>#mset (rows i).
        if keys_meet (step_keys p left) l r \<and> ?q (?comb (l, r)) then {#?comb (l, r)#} else {#})"
      by (simp add: pairs met_pairs_def filter_sums one_if)
    also have "\<dots> = (\<Sum>m\<in>#assignments rows os. if all_hold ps (set os) m then
        (\<Sum>r\<in>#mset (rows i). if keys_meet (step_keys p left) (layout ?cs os m) r \<and> ?q (?comb (layout ?cs os m, r)) then {#?comb (layout ?cs os m, r)#} else {#})
        else {#})"
      unfolding R by (rule joined_rows_sum)
    also have "\<dots> = joined_rows names ts rows ps (os @ [i])"
      unfolding joined_rows_snoc [OF os(4)]
    proof (rule sum_mset_same)
      fix m assume m: "m \<in># assignments rows os"
      show "(if all_hold ps (set os) m then
          (\<Sum>r\<in>#mset (rows i). if keys_meet (step_keys p left) (layout ?cs os m) r \<and> ?q (?comb (layout ?cs os m, r)) then {#?comb (layout ?cs os m, r)#} else {#})
          else {#}) = (\<Sum>r\<in>#mset (rows i). if all_hold ps ?S (m(i := r)) then {#layout ?cs (os @ [i]) (m(i := r))#} else {#})"
      proof (cases "all_hold ps (set os) m")
        case True
        then show ?thesis by (simp only: if_True) (rule sum_mset_same, rule one [OF m True])
      next
        case False
        then have "\<not> all_hold ps ?S (m(i := r))" for r using all_hold_mono [OF os(4)] by blast
        then show ?thesis using False by simp
      qed
    qed
    finally show ?thesis .
  qed
  ultimately show ?thesis by blast
qed

section \<open>All planned joins\<close>

text \<open>The index is built on the smaller side, so the sizes of the tables bound the filters.\<close>

lemma map_r_total: "\<forall>x\<in>set xs. \<exists>y. f x = Inr y \<Longrightarrow> \<exists>ys. map_r f xs = Inr ys"
  by (induction xs) auto

lemma probed_returns:
  assumes size: "sized je (length right)" and r: "\<forall>r\<in>set right. \<exists>v. row_key rkey r = Inr v" and l: "\<forall>l\<in>set left. \<exists>v. row_key lkey l = Inr v"
  shows "\<exists>out. rbind (build_side je rkey right) (\<lambda>hashed.
    rbind (map_r (\<lambda>l. rbind (probe je hashed lkey l) (\<lambda>found. Inr (f l found))) left) (\<lambda>ps. Inr (concat ps))) = Inr out"
proof -
  obtain b0 where b0: "new_bloom je (length right) = Inr b0" "\<forall>h. \<exists>p. bloom_place b0 h = Inr p"
    using new_bloom_returns [OF size] by blast
  obtain b index where side: "build_side je rkey right = Inr (b, index)" "\<forall>h. \<exists>p. bloom_place b h = Inr p"
    using index_rows_returns [OF r b0(2), of je "[]"] b0(1) by (auto simp: build_side_def)
  have "\<exists>found. probe je (b, index) lkey x = Inr found" if "x \<in> set left" for x
  proof -
    obtain k where "row_key lkey x = Inr k" using l \<open>x \<in> set left\<close> by blast
    moreover obtain r where "mayContain je b k = Inr r" using mayContain_returns [OF side(2)] by blast
    ultimately show ?thesis by (simp add: probe_def)
  qed
  then have "\<forall>x\<in>set left. \<exists>y. rbind (probe je (b, index) lkey x) (\<lambda>found. Inr (f x found)) = Inr y"
    by (metis rbind_simps(2))
  from map_r_total [OF this] show ?thesis using side(1) by auto
qed

lemma hash_pairs_returns:
  assumes size: "\<forall>k\<le>length nextRows. sized je k"
    and "\<forall>r\<in>set rows. \<exists>v. row_key joinedKey r = Inr v" "\<forall>r\<in>set nextRows. \<exists>v. row_key nextKey r = Inr v"
  shows "\<exists>pairs. hash_pairs je joinedKey nextKey rows nextRows = Inr pairs"
proof (cases "length rows \<le> length nextRows")
  case True
  then show ?thesis
    using probed_returns [OF _ assms(2,3), of je "\<lambda>r found. map (\<lambda>l. (l, r)) found"] size by (simp add: hash_pairs_def)
next
  case False
  then show ?thesis
    using probed_returns [OF _ assms(3,2), of je "\<lambda>l found. map (\<lambda>r. (l, r)) found"] size by (simp add: hash_pairs_def)
qed

lemma step_keys_ok:
  assumes "predicate_ok names ts p" "key_step ps S i p left"
  shows "key_ok names ts i (snd (step_keys p left)) \<and> (\<exists>k\<in>S. key_ok names ts k (fst (step_keys p left)))"
  using assms by (cases left) (auto simp: predicate_ok_def key_step_def step_keys_def)

text \<open>The tables behind the relations, and their rows.\<close>

definition relations_ok :: "join_env \<Rightarrow> 'a catalog_data_scheme \<Rightarrow> relation list \<Rightarrow> (nat \<Rightarrow> table_meta) \<Rightarrow> relation_data list \<Rightarrow> bool" where
  "relations_ok je cat names ts ds \<longleftrightarrow> length ds = length names \<and> rows_ok names ts (\<lambda>i. rd_rows (ds ! i)) \<and>
     (\<forall>i<length names. getTable (fst (names ! i)) cat = Some (ts i) \<and> (\<forall>k\<le>length (rd_rows (ds ! i)). sized je k))"

lemma schema_returns:
  assumes "getTable (fst (names ! i)) cat = Some (ts i)" "\<forall>r\<in>set rows. er_columns r = Some cs"
  shows "\<exists>s. first_schema cat names i rows = Inr s \<and> (rows \<noteq> [] \<longrightarrow> s = Some cs)"
  using assms by (cases rows) (auto simp: first_schema_def rows_schema_def bound_schema_def)

lemma join_planned_rows:
  assumes je: "join_env_ok je" and rel: "relations_ok je cat names ts ds" and ps: "\<forall>p\<in>set ps. predicate_ok names ts p"
    and order: "order_ok ps (os @ rest)" "set (os @ rest) \<subseteq> {..<length names}" "os \<noteq> []"
    and R: "mset R = joined_rows names ts (\<lambda>i. rd_rows (ds ! i)) ps os" and front: "front < length names"
  shows "\<exists>out. join_planned je fmt cat names ds ps front rest (set os) R = Inr (Some out) \<and>
    mset out = joined_rows names ts (\<lambda>i. rd_rows (ds ! i)) ps (os @ rest)"
  using order R
proof (induction rest arbitrary: os R)
  case Nil
  then show ?case by simp
next
  case (Cons i rest)
  let ?rows = "\<lambda>i. rd_rows (ds ! i)" let ?cs = "columns_of names ts"
  have rows: "rows_ok names ts ?rows" using rel by (simp add: relations_ok_def)
  have os: "distinct os" "set os \<subseteq> {..<length names}" "i < length names" "i \<notin> set os"
    using Cons.prems(1,2) by (auto simp: order_ok_def)
  have "linked ps ((os @ i # rest) ! length os) (set (take (length os) (os @ i # rest)))"
    using Cons.prems(1,3) unfolding order_ok_def by (metis length_append length_greater_0_conv length_Cons less_add_Suc1 add.commute add_Suc_right)
  then have "linked ps i (set os)" by simp
  then obtain p left where key: "key_predicate_for ps (set os) i = Some (p, left)" and step: "key_step ps (set os) i p left"
    using key_predicate_found unfolding key_step_def by blast
  have p: "predicate_ok names ts p" using step ps by (simp add: key_step_def)
  have in_R: "\<exists>m. picks names ?rows os m \<and> r = layout ?cs os m" if "r \<in> set R" for r
  proof -
    have "r \<in># joined_rows names ts ?rows ps os" using that Cons.prems(4) by (metis set_mset_mset)
    then show ?thesis using picks_assigned [OF _ os(1,2)] by (auto simp: joined_rows_def)
  qed
  obtain s1 where s1: "first_schema cat names front R = Inr s1" "R \<noteq> [] \<longrightarrow> s1 = Some (concat (map ?cs os))"
  proof -
    have "\<forall>r\<in>set R. er_columns r = Some (concat (map ?cs os))" using in_R by (fastforce simp: layout_def)
    then show thesis using that schema_returns [of names front cat ts R] rel front unfolding relations_ok_def by blast
  qed
  obtain s2 where s2: "first_schema cat names i (?rows i) = Inr s2" "?rows i \<noteq> [] \<longrightarrow> s2 = Some (?cs i)"
  proof -
    have "\<forall>r\<in>set (?rows i). er_columns r = Some (?cs i)" using rows os(3) by (simp add: rows_ok_def over_def)
    then show thesis using that schema_returns [of names i cat ts "?rows i"] rel os(3) unfolding relations_ok_def by blast
  qed
  obtain k where keys: "key_ok names ts i (snd (step_keys p left))" "k \<in> set os" "key_ok names ts k (fst (step_keys p left))"
    using step_keys_ok [OF p step] by blast
  have next_key: "\<forall>r\<in>set (?rows i). \<exists>v. row_key (snd (step_keys p left)) r = Inr v"
    using key_in_rows [OF rows keys(1)] by blast
  have joined_key: "\<forall>r\<in>set R. \<exists>v. row_key (fst (step_keys p left)) r = Inr v"
    using key_in_layout [OF rows keys(3) _ keys(2)] in_R by blast
  obtain pairs where pairs: "hash_pairs je (fst (step_keys p left)) (snd (step_keys p left)) R (?rows i) = Inr pairs"
  proof -
    have "\<forall>k\<le>length (?rows i). sized je k" using rel os(3) by (simp add: relations_ok_def)
    from hash_pairs_returns [OF this joined_key next_key] show thesis using that by blast
  qed
  obtain R' where R': "filter_r (predicates_hold fmt (insert i (set os)) ps) (map (\<lambda>(l, r). combined_row (combineSchemas s1 s2) l (er_values r)) pairs) = Inr R'"
    "mset R' = joined_rows names ts ?rows ps (os @ [i])"
    using step_rows [OF rows ps os step Cons.prems(4), of "combineSchemas s1 s2" pairs fmt] hash_pairs_met [OF je pairs] s1(2) s2(2)
    by (auto simp: combineSchemas_def)
  have "join_planned je fmt cat names ds ps front (i # rest) (set os) R = join_planned je fmt cat names ds ps front rest (set (os @ [i])) R'"
    using key s1(1) s2(1) pairs R'(1) by (simp add: step_keys_def split: if_splits)
  then show ?case using Cons.IH [of "os @ [i]" R'] Cons.prems(1,2) R'(2) by simp
qed

section \<open>The joins in the order of the query\<close>

lemma joined_rows_single:
  assumes rows: "rows_ok names ts rows" and i: "i < length names" and ps: "\<forall>p\<in>set ps. predicate_ok names ts p"
  shows "joined_rows names ts rows ps [i] = mset (rows i)"
proof -
  have "layout (columns_of names ts) [i] ((\<lambda>_. empty_row)(i := r)) = r" if "r \<in> set (rows i)" for r
  proof -
    have "er_columns r = Some (columns_of names ts i)" using rows i that by (simp add: rows_ok_def over_def)
    then show ?thesis by (simp add: layout_def)
  qed
  then have "image_mset (\<lambda>r. layout (columns_of names ts) [i] ((\<lambda>_. empty_row)(i := r))) (mset (rows i)) = mset (rows i)"
    using image_mset_cong [of "mset (rows i)" "\<lambda>r. layout (columns_of names ts) [i] ((\<lambda>_. empty_row)(i := r))" "\<lambda>r. r"] by simp
  moreover have "all_hold ps {i} = (\<lambda>_. True)" using ps by (auto simp: fun_eq_iff all_hold_def predicate_ok_def)
  ultimately show ?thesis
    by (simp add: joined_rows_def assignments_def image_mset.compositionality comp_def del: fun_upd_apply)
qed

lemma reference_inner:
  assumes "jc_type j = INNER"
  shows "mset (reference_join fmt j schema padding R right) = (\<Sum>l\<in>#mset R. \<Sum>r\<in>#mset right.
    if satisfies fmt (jc_condition j) (combined_row schema l (er_values r)) = Inr True then {#combined_row schema l (er_values r)#} else {#})"
  unfolding reference_join_def
  by (rule found_pairs) (simp add: list_all2_map2 list_all2_same row_matches_def assms)

lemma reference_step:
  assumes rows: "rows_ok names ts rows" and p: "predicate_ok names ts p" and j: "jc_type j = INNER" "jc_condition j = Some (jp_expression p)"
    and os: "distinct os" "set os \<subseteq> {..<length names}" "i < length names" "i \<notin> set os"
    and qs: "\<forall>q\<in>set qs. jp_left q \<in> set os \<and> jp_right q \<in> set os" and inside: "jp_left p \<in> insert i (set os)" "jp_right p \<in> insert i (set os)"
    and R: "mset R = joined_rows names ts rows qs os"
  shows "mset (reference_join fmt j (concat (map (columns_of names ts) os) @ columns_of names ts i) padding R (rows i)) =
    joined_rows names ts rows (qs @ [p]) (os @ [i])"
proof -
  let ?cs = "columns_of names ts"
  let ?comb = "\<lambda>l r. combined_row (concat (map ?cs os) @ ?cs i) l (er_values r)"
  let ?sat = "\<lambda>x. satisfies fmt (jc_condition j) x = Inr True"
  have one: "(if ?sat (?comb (layout ?cs os m) r) then {#?comb (layout ?cs os m) r#} else {#}) =
      (if holds p (m(i := r)) then {#layout ?cs (os @ [i]) (m(i := r))#} else {#})"
    if m: "m \<in># assignments rows os" and r: "r \<in># mset (rows i)" for m r
  proof -
    have "picks names rows (os @ [i]) (m(i := r))"
      by (rule picks_snoc [OF picks_assigned [OF m os(1,2)] os(4,3)]) (use r in simp)
    from predicate_on_layout [OF rows p this] show ?thesis
      using inside layout_snoc [OF os(4), of ?cs m r] by (simp add: j(2))
  qed
  have before: "all_hold qs (set os) (m(i := r)) = all_hold qs (set os) m" for m r
    using qs os(4) holds_other unfolding all_hold_def by metis
  have hold: "all_hold (qs @ [p]) (insert i (set os)) (m(i := r)) \<longleftrightarrow> all_hold qs (set os) m \<and> holds p (m(i := r))" for m r
    unfolding before [of m r, symmetric] using qs inside by (auto simp: all_hold_def)
  have "mset (reference_join fmt j (concat (map ?cs os) @ ?cs i) padding R (rows i)) =
      (\<Sum>m\<in>#assignments rows os. if all_hold qs (set os) m then
        (\<Sum>r\<in>#mset (rows i). if ?sat (?comb (layout ?cs os m) r) then {#?comb (layout ?cs os m) r#} else {#}) else {#})"
    unfolding reference_inner [OF j(1)] R by (rule joined_rows_sum)
  also have "\<dots> = joined_rows names ts rows (qs @ [p]) (os @ [i])"
    unfolding joined_rows_snoc [OF os(4)] hold
  proof (rule sum_mset_same)
    fix m assume m: "m \<in># assignments rows os"
    show "(if all_hold qs (set os) m then
        (\<Sum>r\<in>#mset (rows i). if ?sat (?comb (layout ?cs os m) r) then {#?comb (layout ?cs os m) r#} else {#}) else {#}) =
      (\<Sum>r\<in>#mset (rows i). if all_hold qs (set os) m \<and> holds p (m(i := r)) then {#layout ?cs (os @ [i]) (m(i := r))#} else {#})"
    proof (cases "all_hold qs (set os) m")
      case True
      then show ?thesis by (simp only: if_True simp_thms) (rule sum_mset_same, rule one [OF m])
    qed simp
  qed
  finally show ?thesis .
qed

text \<open>A predicate of the query speaks of the table that is joined and of those before it.\<close>

definition scoped :: "join_predicate list \<Rightarrow> bool" where
  "scoped ps \<longleftrightarrow> (\<forall>k<length ps. jp_left (ps ! k) \<le> Suc k \<and> jp_right (ps ! k) \<le> Suc k)"

definition scans_of :: "ast join_clause list \<Rightarrow> (nat \<Rightarrow> table_meta) \<Rightarrow> (nat \<Rightarrow> eval_row list) \<Rightarrow> (ast join_clause \<times> table_meta \<times> eval_row list) list" where
  "scans_of js ts rows = map (\<lambda>k. (js ! k, ts (Suc k), rows (Suc k))) [0..<length js]"

lemma reference_joins_rows:
  assumes rows: "rows_ok names ts rows" and ps: "\<forall>p\<in>set ps. predicate_ok names ts p" and len: "length ps = length js" "length names = Suc (length js)"
    and js: "\<forall>k<length js. jc_type (js ! k) = INNER \<and> jc_condition (js ! k) = Some (jp_expression (ps ! k)) \<and>
      names ! Suc k = (jc_table (js ! k), jc_alias (js ! k))"
    and scoped: "scoped ps" and k: "k \<le> length js" and R: "mset R = joined_rows names ts rows (take k ps) [0..<Suc k]"
  shows "mset (reference_joins fmt (concat (map (columns_of names ts) [0..<Suc k])) (drop k (scans_of js ts rows)) R) =
    joined_rows names ts rows ps [0..<length names]"
  using k R
proof (induction "length js - k" arbitrary: k R)
  case 0
  then show ?case using len by (simp add: scans_of_def)
next
  case (Suc d)
  then have k: "k < length js" by simp
  let ?j = "js ! k" let ?i = "Suc k"
  have drop: "drop k (scans_of js ts rows) = (?j, ts ?i, rows ?i) # drop ?i (scans_of js ts rows)"
    using k by (simp add: scans_of_def drop_map upt_conv_Cons)
  have schema: "schema_of (jc_table ?j) (jc_alias ?j) (ts ?i) = columns_of names ts ?i" using js k by (simp add: columns_of_def)
  let ?R = "reference_join fmt ?j (concat (map (columns_of names ts) [0..<Suc k]) @ columns_of names ts ?i) (replicate (length (tm_columns (ts ?i))) VNull) R (rows ?i)"
  have "mset ?R = joined_rows names ts rows (take k ps @ [ps ! k]) ([0..<Suc k] @ [?i])"
  proof (rule reference_step [OF rows])
    show "predicate_ok names ts (ps ! k)" using ps len k by simp
    show "jc_type ?j = INNER" "jc_condition ?j = Some (jp_expression (ps ! k))" using js k by simp_all
    show "mset R = joined_rows names ts rows (take k ps) [0..<Suc k]" by (rule Suc.prems)
    show "\<forall>q\<in>set (take k ps). jp_left q \<in> set [0..<Suc k] \<and> jp_right q \<in> set [0..<Suc k]"
    proof
      fix q assume "q \<in> set (take k ps)"
      then obtain a where "a < k" "q = ps ! a" using k len by (auto simp: in_set_conv_nth)
      moreover from this have "jp_left q \<le> Suc a \<and> jp_right q \<le> Suc a" using scoped len k by (simp add: scoped_def)
      ultimately show "jp_left q \<in> set [0..<Suc k] \<and> jp_right q \<in> set [0..<Suc k]" by auto
    qed
    show "jp_left (ps ! k) \<in> insert ?i (set [0..<Suc k])" "jp_right (ps ! k) \<in> insert ?i (set [0..<Suc k])"
      using scoped len k by (fastforce simp: scoped_def)+
  qed (use k len in auto)
  then have R: "mset ?R = joined_rows names ts rows (take ?i ps) [0..<Suc ?i]"
    using k len by (simp add: take_Suc_conv_app_nth)
  have "mset (reference_joins fmt (concat (map (columns_of names ts) [0..<Suc ?i])) (drop ?i (scans_of js ts rows)) ?R) =
      joined_rows names ts rows ps [0..<length names]"
    by (rule Suc.hyps(1) [OF _ _ R]) (use Suc.hyps(2) k in auto)
  then show ?case unfolding drop by (simp add: schema Let_def)
qed

section \<open>Queries whose joins form a chain\<close>

text \<open>Every join compares a column of its table with a column of an earlier one.\<close>

definition chained :: "join_predicate list \<Rightarrow> bool" where
  "chained ps \<longleftrightarrow> (\<forall>k<length ps. let p = ps ! k in
     jp_left p = Suc k \<and> jp_right p \<le> k \<or> jp_right p = Suc k \<and> jp_left p \<le> k)"

text \<open>No other relation goes by the name a key is qualified with, and the column exists.\<close>

definition key_clear :: "relation list \<Rightarrow> (nat \<Rightarrow> table_meta) \<Rightarrow> nat \<Rightarrow> string \<times> string \<Rightarrow> bool" where
  "key_clear names ts i key \<longleftrightarrow> (\<forall>k<length names. names_relation (fst key) (names ! k) \<longrightarrow> k = i) \<and> snd key \<in> cm_name ` set (tm_columns (ts i))"

definition keys_clear :: "relation list \<Rightarrow> (nat \<Rightarrow> table_meta) \<Rightarrow> join_predicate list \<Rightarrow> bool" where
  "keys_clear names ts ps \<longleftrightarrow> (\<forall>p\<in>set ps. key_clear names ts (jp_left p) (jp_leftKey p) \<and> key_clear names ts (jp_right p) (jp_rightKey p))"

lemma relation_for_Some:
  "relation_for names tab = Some i \<Longrightarrow> tab \<noteq> [] \<and> i < length names \<and> names_relation tab (names ! i)"
  using position_of_Some by (auto simp: relation_for_def split: if_splits)

lemma predicate_of_Some:
  assumes "predicate_of names j = Some p"
  shows "jc_condition j = Some (jp_expression p)"
    "key_clear names ts (jp_left p) (jp_leftKey p) \<Longrightarrow> key_clear names ts (jp_right p) (jp_rightKey p) \<Longrightarrow> predicate_ok names ts p"
proof -
  obtain ex where ex: "jc_condition j = Some ex" using assms by (cases "jc_condition j") (simp_all add: predicate_of_def)
  obtain ln cn op first second al where c: "jc_condition j = Some (BinaryOp ln cn op first second al)"
    using assms ex by (cases ex) (simp_all add: predicate_of_def)
  obtain a where a: "column_key first = Some a" using assms by (cases "column_key first") (simp_all add: predicate_of_def c)
  obtain b where b: "column_key second = Some b" using assms a by (cases "column_key second") (simp_all add: predicate_of_def c)
  obtain i where i: "relation_for names (fst a) = Some i"
    using assms a b by (cases "relation_for names (fst a)") (simp_all add: predicate_of_def c)
  obtain k where k: "relation_for names (fst b) = Some k"
    using assms a b i by (cases "relation_for names (fst b)") (simp_all add: predicate_of_def c)
  have p: "op = ''=''" "i \<noteq> k" "p = \<lparr>jp_left = i, jp_right = k, jp_leftKey = a, jp_rightKey = b, jp_expression = BinaryOp ln cn op first second al\<rparr>"
    using assms a b i k by (simp_all add: predicate_of_def c split: if_splits)
  show "jc_condition j = Some (jp_expression p)" by (simp add: p(3) c)
  assume "key_clear names ts (jp_left p) (jp_leftKey p)" "key_clear names ts (jp_right p) (jp_rightKey p)"
  then show "predicate_ok names ts p"
    using p a b relation_for_Some [OF i] relation_for_Some [OF k]
    by (auto simp: predicate_ok_def key_ok_def key_clear_def names_only_def)
qed

lemma all_predicates_Some:
  "all_predicates names js = Some ps \<Longrightarrow> length ps = length js \<and> (\<forall>k<length js. predicate_of names (js ! k) = Some (ps ! k))"
proof (induction js arbitrary: ps)
  case (Cons j js)
  then obtain p qs where "predicate_of names j = Some p" "all_predicates names js = Some qs" "ps = p # qs"
    by (auto split: option.splits)
  then show ?case using Cons.IH [of qs] by (auto simp: nth_Cons split: nat.splits)
qed simp

lemma query_predicates:
  assumes "all_predicates names js = Some ps" "keys_clear names ts ps"
  shows "\<forall>p\<in>set ps. predicate_ok names ts p" "length ps = length js" "k < length js \<Longrightarrow> jc_condition (js ! k) = Some (jp_expression (ps ! k))"
proof -
  note all = all_predicates_Some [OF assms(1)]
  show "\<forall>p\<in>set ps. predicate_ok names ts p"
    using all predicate_of_Some(2) assms(2) by (metis keys_clear_def in_set_conv_nth)
qed (use all_predicates_Some [OF assms(1)] predicate_of_Some(1) in auto)

text \<open>The order of the query is itself a plan, so the search finds one.\<close>

definition plans_below :: "relation_data list \<Rightarrow> join_predicate list \<Rightarrow> nat \<Rightarrow> plans" where
  "plans_below ds ps b = fold (\<lambda>members plans. fold (\<lambda>next plans. extend_plan ds ps members next plans) [0..<length ds] plans) [1..<b] (first_plans ds)"

lemma extend_plans_keep:
  "plans m \<noteq> None \<Longrightarrow> fold (\<lambda>next plans. extend_plan ds ps members next plans) xs plans m \<noteq> None"
proof (induction xs arbitrary: plans)
  case (Cons x xs)
  have "extend_plan ds ps members x plans m \<noteq> None" by (rule extend_plan_keeps, rule Cons.prems)
  from Cons.IH [where plans = "extend_plan ds ps members x plans", OF this] show ?case by simp
qed simp

lemma plans_below_Suc:
  assumes "1 \<le> b"
  shows "plans_below ds ps (Suc b) = fold (\<lambda>next plans. extend_plan ds ps b next plans) [0..<length ds] (plans_below ds ps b)"
  using assms by (simp add: plans_below_def)

lemma plans_below_keeps:
  assumes "1 \<le> b" "b \<le> c" "plans_below ds ps b m \<noteq> None"
  shows "plans_below ds ps c m \<noteq> None"
  using assms(2,1,3) by (induction c rule: dec_induct) (simp_all add: plans_below_Suc extend_plans_keep)

lemma connection_keeps: "snd acc \<Longrightarrow> snd (connection ds qs m i acc)"
  by (induction ds qs m i acc rule: connection.induct) (simp_all add: Let_def)

lemma connection_connects:
  assumes "p \<in> set ps" "jp_left p = i \<and> bit m (jp_right p) \<or> jp_right p = i \<and> bit m (jp_left p)"
  shows "snd (connection ds ps m i acc)"
  using assms
proof (induction ds ps m i acc rule: connection.induct)
  case (2 ds q qs m i acc)
  show ?case
  proof (cases "p = q")
    case True
    then show ?thesis using 2(3) by (auto simp: Let_def intro: connection_keeps)
  next
    case False
    then show ?thesis using 2 by (simp add: Let_def)
  qed
qed simp

lemma first_plans_single:
  assumes "i < length ds"
  shows "first_plans ds (2 ^ i) \<noteq> None"
proof -
  have keep: "g m \<noteq> None \<Longrightarrow> fold (\<lambda>i plans. plans(2 ^ i \<mapsto> f i)) xs g m \<noteq> None" for f :: "nat \<Rightarrow> plan" and xs m and g :: plans
    by (induction xs arbitrary: g) simp_all
  obtain as bs where "[0..<length ds] = as @ i # bs" using assms split_list [of i "[0..<length ds]"] by auto
  then show ?thesis unfolding first_plans_def by (simp del: not_None_eq add: keep)
qed

lemma full_pos: "(1 :: nat) \<le> 2 ^ Suc k - 1"
proof -
  have "(1 :: nat) \<le> 2 ^ k" by simp
  then show ?thesis unfolding power_Suc by linarith
qed

lemma chain_plan:
  assumes chain: "chained ps" "length ds = Suc (length ps)" and k: "k < length ds"
  shows "plans_below ds ps (2 ^ Suc k - 1) (2 ^ Suc k - 1) \<noteq> None"
  using k
proof (induction k)
  case 0
  then show ?case using first_plans_single [of 0 ds] by (simp add: plans_below_def)
next
  case (Suc k)
  let ?m = "2 ^ Suc k - 1 :: nat"
  have pos: "1 \<le> ?m" using full_pos [of k] by simp
  have add: "?m + 2 ^ Suc k = 2 ^ Suc (Suc k) - 1" by simp
  have k: "k < length ps" using Suc.prems chain(2) by simp
  have bits: "bit ?m i \<longleftrightarrow> i < Suc k" for i
    using bit_mask_iff [of "Suc k" i, where 'a = nat] by (simp add: mask_eq_exp_minus_1)
  have here: "plans_below ds ps ?m ?m \<noteq> None" using Suc by simp
  obtain as bs where split: "[0..<length ds] = as @ Suc k # bs" using Suc.prems split_list [of "Suc k" "[0..<length ds]"] by auto
  let ?before = "fold (\<lambda>next plans. extend_plan ds ps ?m next plans) as (plans_below ds ps ?m)"
  obtain pl where pl: "?before ?m = Some pl" using extend_plans_keep [where plans = "plans_below ds ps ?m", OF here] by blast
  have "snd (connection ds ps ?m (Suc k) (double_of_int 1, False))"
    by (rule connection_connects [of "ps ! k"]) (use chain(1) k bits in \<open>auto simp: chained_def Let_def\<close>)
  then have "extend_plan ds ps ?m (Suc k) ?before (?m + 2 ^ Suc k) \<noteq> None"
    by (intro extend_plan_adds [where plans = ?before and m = ?m and pl = pl, OF pl]) (simp only: bits less_irrefl not_False_eq_True)
  then have "plans_below ds ps (Suc ?m) (?m + 2 ^ Suc k) \<noteq> None"
    unfolding plans_below_Suc [OF pos] split by (simp del: not_None_eq add: extend_plans_keep)
  then show ?case unfolding add by (rule plans_below_keeps [rotated 2]) simp_all
qed

lemma plan_found:
  assumes "chained ps" "length ds = Suc (length ps)"
  shows "\<exists>best. all_plans ds ps (2 ^ length ds - 1) = Some best"
proof -
  have "plans_below ds ps (2 ^ length ds - 1) (2 ^ length ds - 1) \<noteq> None"
    using chain_plan [OF assms, of "length ps"] assms(2) by simp
  then have "plans_below ds ps (2 ^ length ds) (2 ^ length ds - 1) \<noteq> None"
    by (rule plans_below_keeps [rotated 2]) (use assms(2) full_pos [of "length ps"] in simp_all)
  then show ?thesis by (simp add: all_plans_def plans_below_def)
qed

section \<open>Planned joins over the engine\<close>

definition table_scan :: "engine \<Rightarrow> (nat \<Rightarrow> table_meta) \<Rightarrow> nat \<times> relation \<Rightarrow> eval_row list \<Rightarrow> bool" where
  "table_scan e ts = (\<lambda>(i, table, alias) rows. \<exists>rs. rows_of_map rs (table_rows e table) \<and>
     rows = map (\<lambda>(rid, vs). bind_row table alias (ts i) vs) rs)"

lemma only_reads_statistics: "only_reads e (e'\<lparr>en_statistics := s\<rparr>) = only_reads e e'"
  by (simp add: only_reads_def keeps_def table_sound_def stored_ok_def in_db_def table_rows_def)

lemma count_column_returns:
  assumes "name \<in> cm_name ` set (tm_columns t)" "\<forall>r\<in>set rows. length (er_values r) = length (tm_columns t)"
  shows "\<exists>counts'. count_column known t rows name counts = Inr counts'"
proof (cases "known name")
  case None
  obtain k where k: "position_of (\<lambda>m. cm_name m = name) (tm_columns t) = Some k"
    using assms(1) position_of_None [of "\<lambda>m. cm_name m = name" "tm_columns t"]
    by (cases "position_of (\<lambda>m. cm_name m = name) (tm_columns t)") auto
  have "\<forall>r\<in>set rows. \<exists>v. value_at (er_values r) k = Inr v"
    using assms(2) position_of_Some [OF k] by (simp add: value_at_def)
  from map_r_total [OF this] show ?thesis by (auto simp: count_column_def None k)
qed (simp add: count_column_def)

lemma fold_r_total: "(\<And>x s. x \<in> set xs \<Longrightarrow> \<exists>s'. f x s = Inr s') \<Longrightarrow> \<exists>s'. fold_r f xs s = Inr s'"
proof (induction xs arbitrary: s)
  case (Cons x xs)
  obtain s1 where "f x s = Inr s1" using Cons.prems [of x s] by auto
  moreover obtain s2 where "fold_r f xs s1 = Inr s2" using Cons by (meson list.set_intros(2))
  ultimately show ?case by simp
qed simp

lemma runs_scan_relation:
  assumes all: "all_stored e" and batch: "0 < env_batch env" and t: "getTable table (en_catalog e) = Some (ts i)"
    and cols: "set (required_columns ps i) \<subseteq> cm_name ` set (tm_columns (ts i))"
  shows "runs (scan_relation env known ps (i, table, alias)) e
    (\<lambda>d e'. only_reads e e' \<and> table_scan e ts (i, table, alias) (rd_rows d)) (\<lambda>_. False)"
proof -
  have name: "tm_name (ts i) = table" and st: "stored_ok e (ts i)" using all t by (simp_all add: all_stored_def)
  have db: "in_db e (ts i)" using t name by (simp add: in_db_def)
  have rest: "runs (ebind (table_named table) (\<lambda>t. let rows = map snd scan in
        ebind (change (\<lambda>e. e\<lparr>en_statistics := insert table (en_statistics e)\<rparr>)) (\<lambda>_.
          ebind (give (fold_r (count_column (known table (length rows)) t rows) (required_columns ps i) Map.empty)) (\<lambda>counts.
            give (Inr \<lparr>rd_rows = rows, rd_distinct = counts\<rparr>))))) e1
      (\<lambda>d e'. only_reads e e' \<and> table_scan e ts (i, table, alias) (rd_rows d)) (\<lambda>_. False)"
    if a: "only_reads e e1" and rs: "rows_of_map rs (table_rows e table)"
      and scan: "scan = map (\<lambda>(rid, vs). (rid, bind_row table alias (ts i) vs)) rs" for scan rs e1
  proof -
    have t1: "table_named table e1 = (Inr (ts i), e1)" using a t by (simp add: table_named_def only_reads_def keeps_def)
    let ?rows = "map snd scan"
    have "length vs = length (tm_columns (ts i))" if "(rid, vs) \<in> set rs" for rid vs
      using rs that stored_fits [OF st] row_fits_length name by (fastforce simp: rows_of_map_def)
    then have width: "\<forall>r\<in>set ?rows. length (er_values r) = length (tm_columns (ts i))"
      by (auto simp: scan bind_row_def)
    have "\<exists>s'. fold_r (count_column (known table (length ?rows)) (ts i) ?rows) (required_columns ps i) Map.empty = Inr s'"
    proof (rule fold_r_total)
      fix x s assume "x \<in> set (required_columns ps i)"
      then have "x \<in> cm_name ` set (tm_columns (ts i))" using cols by blast
      then show "\<exists>s'. count_column (known table (length ?rows)) (ts i) ?rows x s = Inr s'" by (rule count_column_returns [OF _ width])
    qed
    then obtain counts where counts: "fold_r (count_column (known table (length ?rows)) (ts i) ?rows) (required_columns ps i) Map.empty = Inr counts" ..
    have "table_scan e ts (i, table, alias) ?rows" using rs scan by (auto simp: table_scan_def comp_def case_prod_beta)
    then show ?thesis using a
      by (simp only: runs_bind runs_result [where m = "table_named table", OF t1] Let_def runs_change runs_give counts sum.case only_reads_statistics relation_data.simps simp_thms)
  qed
  have "runs (scanTable env table alias) e (\<lambda>scan e1. runs (ebind (table_named table) (\<lambda>t. let rows = map snd scan in
        ebind (change (\<lambda>e. e\<lparr>en_statistics := insert table (en_statistics e)\<rparr>)) (\<lambda>_.
          ebind (give (fold_r (count_column (known table (length rows)) t rows) (required_columns ps i) Map.empty)) (\<lambda>counts.
            give (Inr \<lparr>rd_rows = rows, rd_distinct = counts\<rparr>))))) e1
      (\<lambda>d e'. only_reads e e' \<and> table_scan e ts (i, table, alias) (rd_rows d)) (\<lambda>_. False)) (\<lambda>_. False)"
    by (rule runs_weaken [OF runs_scan_alias [OF st db batch, unfolded name]]) (use rest in blast)+
  then show ?thesis unfolding scan_relation_def prod.case by (subst runs_bind)
qed

lemma table_scan_reads:
  assumes "only_reads e e'" "all_stored e" "getTable table (en_catalog e) = Some t"
  shows "table_scan e' ts (i, table, alias) = table_scan e ts (i, table, alias)"
  using only_reads_rows [OF assms] by (simp add: table_scan_def)

lemma runs_scan_relations:
  assumes "all_stored e" "0 < env_batch env"
    and "\<forall>(i, table, alias)\<in>set rs. getTable table (en_catalog e) = Some (ts i) \<and> set (required_columns ps i) \<subseteq> cm_name ` set (tm_columns (ts i))"
  shows "runs (scan_relations env known ps rs) e
    (\<lambda>ds e'. only_reads e e' \<and> list_all2 (\<lambda>r d. table_scan e ts r (rd_rows d)) rs ds) (\<lambda>_. False)"
  using assms(1,3)
proof (induction rs arbitrary: e)
  case Nil
  then show ?case by (simp add: runs_give only_reads_refl)
next
  case (Cons r rs)
  obtain i table al where r: "r = (i, table, al)" by (cases r)
  have t: "getTable table (en_catalog e) = Some (ts i)" and cols: "set (required_columns ps i) \<subseteq> cm_name ` set (tm_columns (ts i))"
    using Cons.prems(2) by (auto simp: r)
  have rest: "runs (ebind (scan_relations env known ps rs) (\<lambda>ds. give (Inr (d # ds)))) e1
      (\<lambda>ds e'. only_reads e e' \<and> list_all2 (\<lambda>r d. table_scan e ts r (rd_rows d)) (r # rs) ds) (\<lambda>_. False)"
    if a: "only_reads e e1" and d: "table_scan e ts (i, table, al) (rd_rows d)" for d e1
  proof -
    have cat: "en_catalog e1 = en_catalog e" using a by (simp add: only_reads_def keeps_def)
    have same: "table_scan e1 ts x = table_scan e ts x" if "x \<in> set rs" for x
      using Cons.prems(2) that table_scan_reads [OF a Cons.prems(1)] by (cases x) auto
    have "runs (scan_relations env known ps rs) e1
        (\<lambda>ds e'. only_reads e1 e' \<and> list_all2 (\<lambda>r d. table_scan e1 ts r (rd_rows d)) rs ds) (\<lambda>_. False)"
      by (rule Cons.IH [OF only_reads_all [OF a Cons.prems(1)]]) (use Cons.prems(2) cat in auto)
    then have "runs (scan_relations env known ps rs) e1
        (\<lambda>ds e'. only_reads e e' \<and> list_all2 (\<lambda>r d. table_scan e ts r (rd_rows d)) rs ds) (\<lambda>_. False)"
      by (rule runs_weaken) (use only_reads_trans [OF a] same in \<open>auto elim!: list.rel_mono_strong\<close>)
    then show ?thesis using d by (simp add: runs_bind runs_give r)
  qed
  have "runs (scan_relation env known ps r) e (\<lambda>d e1. runs (ebind (scan_relations env known ps rs) (\<lambda>ds. give (Inr (d # ds)))) e1
      (\<lambda>ds e'. only_reads e e' \<and> list_all2 (\<lambda>r d. table_scan e ts r (rd_rows d)) (r # rs) ds) (\<lambda>_. False)) (\<lambda>_. False)"
    unfolding r by (rule runs_weaken [OF runs_scan_relation [where ts = ts, OF Cons.prems(1) assms(2) t cols]]) (use rest r in auto)
  then show ?case by (simp only: scan_relations.simps runs_bind)
qed

lemma rows_of_map_card: "rows_of_map rs T \<Longrightarrow> length rs = card (dom T)"
proof -
  assume rs: "rows_of_map rs T"
  then have "dom T = set (map fst rs)" by (force simp: rows_of_map_def)
  then show ?thesis using rs distinct_card [of "map fst rs"] by (simp add: rows_of_map_def)
qed

lemma table_scan_over:
  assumes "all_stored e" "getTable (fst (names ! i)) (en_catalog e) = Some (ts i)" "table_scan e ts (i, names ! i) rows"
  shows "over (columns_of names ts i) rows" "length rows = card (dom (table_rows e (fst (names ! i))))"
proof -
  obtain table al where n: "names ! i = (table, al)" by (cases "names ! i")
  obtain rs where rs: "rows_of_map rs (table_rows e table)" "rows = map (\<lambda>(rid, vs). bind_row table al (ts i) vs) rs"
    using assms(3) by (auto simp: table_scan_def n)
  have name: "tm_name (ts i) = table" and st: "stored_ok e (ts i)" using assms(1,2) by (simp_all add: all_stored_def n)
  have "length vs = length (tm_columns (ts i))" if "(rid, vs) \<in> set rs" for rid vs
    using rs(1) that stored_fits [OF st] row_fits_length name by (fastforce simp: rows_of_map_def)
  then show "over (columns_of names ts i) rows" by (auto simp: over_def rs(2) bind_row_def columns_of_def n schema_of_def)
  show "length rows = card (dom (table_rows e (fst (names ! i))))" using rows_of_map_card [OF rs(1)] by (simp add: rs(2) n)
qed

lemma required_exist:
  assumes "\<forall>p\<in>set ps. predicate_ok names ts p"
  shows "set (required_columns ps i) \<subseteq> cm_name ` set (tm_columns (ts i))"
  using assms by (auto simp: required_columns_def predicate_ok_def key_ok_def split: if_splits)

lemma joined_rows_order:
  assumes "distinct os" "set os = {..<n}"
  shows "joined_rows names ts rows ps os =
    image_mset (layout (columns_of names ts) os) (filter_mset (all_hold ps {..<n}) (assignments rows [0..<n]))"
proof -
  have "mset os = mset [0..<n]"
    using set_eq_iff_mset_eq_distinct [of os "[0..<n]"] assms by (simp add: lessThan_atLeast0)
  from assignments_order [OF this, of rows] show ?thesis by (simp only: joined_rows_def assms(2))
qed

lemma planned_joins_agree:
  assumes je: "join_env_ok je" and q: "plannable q" "all_predicates (relations_of q) (q_joins q) = Some ps" "chained ps"
    and clear: "keys_clear (relations_of q) ts ps" and rel: "relations_ok je cat (relations_of q) ts ds"
    and best: "all_plans ds ps (2 ^ length ds - 1) = Some best"
  defines "n \<equiv> length (relations_of q)" and "cs \<equiv> columns_of (relations_of q) ts" and "rows \<equiv> \<lambda>i. rd_rows (ds ! i)" and "os \<equiv> pl_order best"
  defines "matches \<equiv> filter_mset (all_hold ps {..<n}) (assignments rows [0..<n])"
  shows "distinct os \<and> set os = {..<n} \<and>
    (\<exists>planned. join_planned je fmt cat (relations_of q) ds ps (hd os) (tl os) {hd os} (rows (hd os)) = Inr (Some planned) \<and>
       mset planned = image_mset (layout cs os) matches) \<and>
    mset (reference_joins fmt (cs 0) (scans_of (q_joins q) ts rows) (rows 0)) = image_mset (layout cs [0..<n]) matches"
proof -
  note preds = query_predicates [OF q(2) clear]
  have len: "length ds = n" using rel by (simp add: relations_ok_def n_def)
  have n: "n = Suc (length (q_joins q))" by (simp add: n_def relations_of_def)
  have rows: "rows_ok (relations_of q) ts rows" using rel by (simp add: relations_ok_def rows_def)
  have os: "order_ok ps os" "set os = {..<n}" using best_plan_order [OF best] len by (simp_all add: os_def)
  then have dist: "distinct os" and split: "hd os # tl os = os" by (simp_all add: order_ok_def)
  have hd: "hd os < n" using os(2) split by (metis lessThan_iff list.set_intros(1))
  obtain planned where planned: "join_planned je fmt cat (relations_of q) ds ps (hd os) (tl os) {hd os} (rows (hd os)) = Inr (Some planned)"
    "mset planned = joined_rows (relations_of q) ts rows ps os"
    using join_planned_rows [OF je rel preds(1), of "[hd os]" "tl os" "rows (hd os)" "hd os" fmt]
      joined_rows_single [OF rows _ preds(1), of "hd os"] os split hd by (auto simp: n_def rows_def)
  have js: "\<forall>k<length (q_joins q). jc_type (q_joins q ! k) = INNER \<and> jc_condition (q_joins q ! k) = Some (jp_expression (ps ! k)) \<and>
      relations_of q ! Suc k = (jc_table (q_joins q ! k), jc_alias (q_joins q ! k))"
    using q(1) preds(3) by (simp add: plannable_def list_all_length relations_of_def)
  have scoped: "scoped ps" using q(3) by (auto simp: scoped_def chained_def Let_def)
  have set: "set [0..<n] = {..<n}" by (simp add: lessThan_atLeast0)
  have none: "joined_rows (relations_of q) ts rows [] [0] = mset (rows 0)"
    by (rule joined_rows_single [OF rows]) (simp_all add: relations_of_def)
  have "mset (reference_joins fmt (cs 0) (scans_of (q_joins q) ts rows) (rows 0)) = joined_rows (relations_of q) ts rows ps [0..<n]"
    using reference_joins_rows [OF rows preds(1,2) _ js scoped, of 0 "rows 0" fmt] none n by (simp add: n_def cs_def)
  then show ?thesis
    using planned dist os(2) joined_rows_order [OF dist os(2)] joined_rows_order [of "[0..<n]" n, OF distinct_upt set]
    unfolding matches_def cs_def by auto
qed

text \<open>
  C5. Planned joins give the rows of the query. For inner joins on equalities that chain the
  relations, under names that tell them apart, executing the joins in the order of least cost
  never throws and gives, whatever the statistics were and up to the order of the rows and of the
  columns, the rows of the joins in the order of the query: one for every choice of a row from
  each table on which all conditions hold. Nothing but the page cache changes.
\<close>

theorem planned_joins_correct:
  assumes "join_env_ok je" "all_stored e" "0 < env_batch env"
    and "plannable q" "length (q_joins q) < 63" "all_predicates (relations_of q) (q_joins q) = Some ps"
    and "chained ps" "keys_clear (relations_of q) ts ps"
    and tables: "\<And>i. i < length (relations_of q) \<Longrightarrow> getTable (fst (relations_of q ! i)) (en_catalog e) = Some (ts i) \<and>
      (\<forall>k\<le>card (dom (table_rows e (fst (relations_of q ! i)))). sized je k)"
  shows "runs (executeCostBasedJoins je env known q) e
    (\<lambda>out e'. only_reads e e' \<and> (\<exists>planned rows os. out = Some planned \<and>
       (let n = length (relations_of q); cs = columns_of (relations_of q) ts;
            matches = filter_mset (all_hold ps {..<n}) (assignments rows [0..<n])
        in (\<forall>i<n. table_scan e ts (i, relations_of q ! i) (rows i)) \<and> distinct os \<and> set os = {..<n} \<and>
           mset planned = image_mset (layout cs os) matches \<and>
           mset (reference_joins (env_fmt env) (cs 0) (scans_of (q_joins q) ts rows) (rows 0)) = image_mset (layout cs [0..<n]) matches)))
    (\<lambda>_. False)"
proof -
  let ?names = "relations_of q" let ?n = "length ?names"
  note preds = query_predicates [OF assms(6,8)]
  have n: "?n = Suc (length (q_joins q))" by (simp add: relations_of_def)
  let ?Q = "\<lambda>out e'. only_reads e e' \<and> (\<exists>planned rows os. out = Some planned \<and>
       (let n = length (relations_of q); cs = columns_of (relations_of q) ts;
            matches = filter_mset (all_hold ps {..<n}) (assignments rows [0..<n])
        in (\<forall>i<n. table_scan e ts (i, relations_of q ! i) (rows i)) \<and> distinct os \<and> set os = {..<n} \<and>
           mset planned = image_mset (layout cs os) matches \<and>
           mset (reference_joins (env_fmt env) (cs 0) (scans_of (q_joins q) ts rows) (rows 0)) = image_mset (layout cs [0..<n]) matches))"
  let ?rest = "\<lambda>relations e. if 64 \<le> length relations then (Inl Undefined_Behaviour, e)
      else case all_plans relations ps (2 ^ length relations - 1) of
          None \<Rightarrow> (Inr None, e)
        | Some best \<Rightarrow> give (join_planned je (env_fmt env) (en_catalog e) ?names relations ps
            (hd (pl_order best)) (tl (pl_order best)) {hd (pl_order best)} (rd_rows (relations ! hd (pl_order best)))) e"
  have rest: "runs (?rest ds) e1 ?Q (\<lambda>_. False)"
    if a: "only_reads e e1" and scans: "list_all2 (\<lambda>r d. table_scan e ts r (rd_rows d)) (enumerate 0 ?names) ds" for ds e1
  proof -
    have cat: "en_catalog e1 = en_catalog e" using a by (simp add: only_reads_def keeps_def)
    have len: "length ds = ?n" using scans by (simp add: list_all2_lengthD [symmetric])
    have scan: "table_scan e ts (i, ?names ! i) (rd_rows (ds ! i))" if "i < ?n" for i
      using list_all2_nthD [OF scans, of i] that by (simp add: nth_enumerate_eq)
    have over: "over (columns_of ?names ts i) (rd_rows (ds ! i))" "length (rd_rows (ds ! i)) = card (dom (table_rows e (fst (?names ! i))))"
      if "i < ?n" for i
      using table_scan_over [OF assms(2) _ scan [OF that]] tables [OF that] by blast+
    have rel: "relations_ok je (en_catalog e) ?names ts ds"
      using len over tables by (simp add: relations_ok_def rows_ok_def)
    obtain best where best: "all_plans ds ps (2 ^ length ds - 1) = Some best"
      using plan_found [OF assms(7)] len n preds(2) by metis
    note agree = planned_joins_agree [OF assms(1,4,6,7,8) rel best, of "env_fmt env"]
    obtain planned where planned: "join_planned je (env_fmt env) (en_catalog e) ?names ds ps (hd (pl_order best)) (tl (pl_order best))
        {hd (pl_order best)} (rd_rows (ds ! hd (pl_order best))) = Inr (Some planned)"
      "mset planned = image_mset (layout (columns_of ?names ts) (pl_order best))
         (filter_mset (all_hold ps {..<?n}) (assignments (\<lambda>i. rd_rows (ds ! i)) [0..<?n]))"
      using agree by blast
    have "?rest ds e1 = (Inr (Some planned), e1)"
      using len n assms(5) best planned(1) by (simp add: give_def cat)
    moreover have "?Q (Some planned) e1"
      unfolding Let_def using a scan agree planned(2)
      by (intro conjI exI [of _ planned] exI [of _ "\<lambda>i. rd_rows (ds ! i)"] exI [of _ "pl_order best"]) blast+
    ultimately show ?thesis by (simp only: runs_def prod.case sum.case)
  qed
  have "runs (scan_relations env known ps (enumerate 0 ?names)) e (\<lambda>ds e1. runs (?rest ds) e1 ?Q (\<lambda>_. False)) (\<lambda>_. False)"
  proof (rule runs_weaken [OF runs_scan_relations [OF assms(2,3), of "enumerate 0 ?names" ts ps known]])
    show "\<forall>(i, table, alias)\<in>set (enumerate 0 ?names). getTable table (en_catalog e) = Some (ts i) \<and>
        set (required_columns ps i) \<subseteq> cm_name ` set (tm_columns (ts i))"
      using tables required_exist [OF preds(1)] by (fastforce simp: in_set_enumerate_eq)
  qed (use rest in blast)+
  then show ?thesis
    unfolding executeCostBasedJoins_def by (simp only: assms(4,6) simp_thms if_False option.case runs_bind)
qed

text \<open>The witness: the table of the example joined with itself twice, under three names.\<close>

abbreviation demo_on :: "string \<Rightarrow> string \<Rightarrow> string \<Rightarrow> string \<Rightarrow> ast" where
  "demo_on a x b y \<equiv> BinaryOp 0 0 ''='' (ColumnRef 0 0 a x []) (ColumnRef 0 0 b y []) []"

definition demo_chain :: query where
  "demo_chain = (demo_query [ColumnRef 0 0 ''c'' ''id'' []])\<lparr>q_fromAlias := ''c'',
     q_joins := [JoinClause INNER ''t'' ''p'' (Some (demo_on ''c'' ''up'' ''p'' ''id'')),
       JoinClause INNER ''t'' ''g'' (Some (demo_on ''p'' ''up'' ''g'' ''id''))]\<rparr>"

definition demo_chain_predicates :: "join_predicate list" where
  "demo_chain_predicates =
     [\<lparr>jp_left = 0, jp_right = 1, jp_leftKey = (''c'', ''up''), jp_rightKey = (''p'', ''id''), jp_expression = demo_on ''c'' ''up'' ''p'' ''id''\<rparr>,
      \<lparr>jp_left = 1, jp_right = 2, jp_leftKey = (''p'', ''up''), jp_rightKey = (''g'', ''id''), jp_expression = demo_on ''p'' ''up'' ''g'' ''id''\<rparr>]"

lemma demo_chain_facts:
  "plannable demo_chain" "length (q_joins demo_chain) < 63"
  "relations_of demo_chain = [(''t'', ''c''), (''t'', ''p''), (''t'', ''g'')]"
  "all_predicates (relations_of demo_chain) (q_joins demo_chain) = Some demo_chain_predicates"
  by code_simp+

lemma demo_chain_clear:
  "chained demo_chain_predicates" "keys_clear (relations_of demo_chain) (\<lambda>_. demo_table) demo_chain_predicates"
  by (auto simp: chained_def demo_chain_predicates_def nth_Cons keys_clear_def key_clear_def demo_chain_facts(3) names_relation_def
      demo_table_def new_column_def Let_def split: nat.splits)

theorem planned_joins_correct_witness:
  "runs (executeCostBasedJoins demo_join_env demo_env (\<lambda>_ _ _. None) demo_chain) demo_engine
    (\<lambda>out e'. only_reads demo_engine e' \<and> out \<noteq> None) (\<lambda>_. False)"
proof -
  have empty: "card (dom (table_rows demo_engine ''t'')) = 0"
    using demo_heap_at by (simp add: table_rows_def demo_file dom_def)
  have tables: "getTable (fst (relations_of demo_chain ! i)) (en_catalog demo_engine) = Some demo_table \<and>
      (\<forall>k\<le>card (dom (table_rows demo_engine (fst (relations_of demo_chain ! i)))). sized demo_join_env k)"
    if "i < length (relations_of demo_chain)" for i
  proof -
    have "fst (relations_of demo_chain ! i) = ''t''" using that by (auto simp: demo_chain_facts(3) nth_Cons split: nat.splits)
    then show ?thesis using demo_catalog empty by (simp add: sized_def demo_join_env_def word_le_nat_alt)
  qed
  show ?thesis
    by (rule runs_weaken [OF planned_joins_correct [OF demo_join_settled(1) db_stored [OF demo_db_ok] _ demo_chain_facts(1,2,4) demo_chain_clear tables]])
      (auto simp: demo_env_def)
qed

text \<open>
  The names must tell the relations apart. The name of a table also means its aliased copies: a
  predicate is planned for the first relation it fits, its condition reads the last one. With a
  row that refers to itself the planned order finds one row where the order of the query, whose
  conditions are evaluated as they are joined, finds two.
\<close>

lemma shadowed_name_disagrees:
  "let rows = (\<lambda>alias. [demo_join_row alias (VInteger 1) (VInteger 2), demo_join_row alias (VInteger 2) (VInteger 2)]);
       on_b = JoinClause INNER ''t'' ''b'' (Some (demo_on ''t'' ''id'' ''b'' ''up''));
       on_g = JoinClause INNER ''t'' ''g'' (Some (demo_on ''b'' ''up'' ''g'' ''id''));
       q = (demo_query [ColumnRef 0 0 ''a'' ''id'' []])\<lparr>q_fromAlias := ''a'', q_joins := [on_b, on_g]\<rparr>;
       ds = map (\<lambda>alias. \<lparr>rd_rows = rows alias, rd_distinct = Map.empty\<rparr>) [''a'', ''b'', ''g'']
   in plannable q \<and>
      rbind (join_planned demo_join_env (\<lambda>_. []) new_catalog (relations_of q) ds (the (all_predicates (relations_of q) (q_joins q))) 0 [1, 2] {0} (rows ''a''))
        (\<lambda>out. Inr (map_option length out)) = Inr (Some 1) \<and>
      length (reference_joins (\<lambda>_. []) (schema_of ''t'' ''a'' demo_table)
        [(on_b, demo_table, rows ''b''), (on_g, demo_table, rows ''g'')] (rows ''a'')) = 2"
  by code_simp

end
