(* ===== verification/Metadata_Rewrites.thy ===== *)
theory Metadata_Rewrites
  imports Optimizer Engine_Select
begin

text \<open>
  The rewrites of the optimizer that use the catalog (\<open>applyMetadataOptimizations\<close>,
  \<open>src/optimizer.cpp\<close>) against the execution of the query by the engine (\<open>select_rows\<close>,
  \<open>src/native_engine.cpp\<close>): on the rows of a table that keeps its constraints, the rewritten
  query answers with the same columns and rows. The proof takes the rewrites one at a time: counts
  of columns that cannot be null, then order and limit of a lookup by the primary key, then
  \<open>DISTINCT\<close> on a projection with the primary key.
\<close>

section \<open>Counting a column that cannot be null\<close>

lemma map_r_map: "map_r f (map g xs) = map_r (\<lambda>x. f (g x)) xs"
  by (induction xs) simp_all

lemma enumerate_map: "enumerate n (map f xs) = map (\<lambda>(i, x). (i, f x)) (enumerate n xs)"
  by (induction xs arbitrary: n) simp_all

abbreviation recount :: "'a catalog_data_scheme \<Rightarrow> base \<Rightarrow> ast \<Rightarrow> ast" where
  "recount cat b e \<equiv> fst (rewriteNonNullCounts cat b e)"

definition same_value :: "ast \<Rightarrow> ast \<Rightarrow> bool" where
  "same_value e e' \<longleftrightarrow> (\<forall>fmt row. eval fmt e' row = eval fmt e row) \<and> is_wildcard e' = is_wildcard e"

lemma aggregate_same:
  assumes "list_all2 same_value args args'"
  shows "aggregate fmt name args' dist rows = aggregate fmt name args dist rows"
proof (cases args)
  case (Cons a as)
  then obtain a' as' where args': "args' = a' # as'" "same_value a a'" "list_all2 same_value as as'"
    using assms by (auto simp: list_all2_Cons1)
  have first: "argument_values fmt a' rows = argument_values fmt a rows" "is_wildcard a' = is_wildcard a"
    using args'(2) by (auto simp: same_value_def intro: argument_values_cong)
  have second: "length args < 2 \<longleftrightarrow> length args' < 2"
    "\<not> length args < 2 \<Longrightarrow> eval fmt (args' ! 1) row = eval fmt (args ! 1) row" for row
    using args' Cons list_all2_lengthD [OF args'(3)]
    by (auto simp: same_value_def list_all2_conv_all_nth)
  show ?thesis
    unfolding aggregate_def using Cons args'(1) first second by (simp cong: if_cong)
qed (use assms in simp)

text \<open>A rewritten call keeps its name; its arguments are rewritten, or it was a count of a column.\<close>

lemma recount_call:
  obtains args' where "recount cat b (FunctionCall l c name args dist al) = FunctionCall l c name args' dist al"
    "args' = map (recount cat b) args \<or>
     name = ''headcount'' \<and> \<not> dist \<and> (\<exists>e m l' c'. args = [e] \<and> \<not> is_wildcard e \<and> args' = [Wildcard l' c' [] []] \<and>
       resolveBaseColumn cat b e = Some m \<and> isGuaranteedNonNull m)"
proof (cases "snd (rewrite_count cat b name args dist) = []")
  case True
  then show ?thesis by (intro that [of "map (recount cat b) args"]) (auto simp: Let_def split: prod.splits)
next
  case False
  then obtain l' c' table column al' m where "args = [ColumnRef l' c' table column al']" "name = ''headcount''" "\<not> dist"
    "resolveBaseColumn cat b (ColumnRef l' c' table column al') = Some m" "isGuaranteedNonNull m"
    "fst (rewrite_count cat b name args dist) = [Wildcard l' c' [] []]"
    by (auto simp: rewrite_count_def split: list.splits ast.splits if_splits option.splits)
  then show ?thesis using False
    by (intro that [of "[Wildcard l' c' [] []]"]) (auto simp: Let_def is_wildcard_def split: prod.splits)
qed

lemma recount_others [simp]:
  "recount cat b (BinaryOp l c oper left right al) = BinaryOp l c oper (recount cat b left) (recount cat b right) al"
  "recount cat b (UnaryOp l c oper operand al) = UnaryOp l c oper (recount cat b operand) al"
  by (simp_all split: prod.splits)

declare rewriteNonNullCounts.simps(1-3) [simp del]

lemma recount_same: "same_value e (recount cat b e) \<and> hasAggregate (recount cat b e) = hasAggregate e"
proof (induction e)
  case (FunctionCall l c name args dist al)
  obtain args' where "recount cat b (FunctionCall l c name args dist al) = FunctionCall l c name args' dist al"
    by (rule recount_call)
  then show ?case by (simp only: same_value_def eval.simps hasAggregate.simps is_wildcard_def ast.case simp_thms)
qed (simp_all add: same_value_def is_wildcard_def)

lemma recount_alias: "expressionAlias (recount cat b e) n = expressionAlias e n"
proof (cases e)
  case (FunctionCall l c name args dist al)
  obtain args' where "recount cat b (FunctionCall l c name args dist al) = FunctionCall l c name args' dist al"
    by (rule recount_call)
  then show ?thesis by (simp only: FunctionCall expressionAlias_def ast.case)
qed (simp_all add: expressionAlias_def Let_def)

text \<open>The rows of a table whose constraints hold.\<close>

definition lawful :: "'a catalog_data_scheme \<Rightarrow> base \<Rightarrow> table_meta \<Rightarrow> eval_row list \<Rightarrow> bool" where
  "lawful cat b t rows \<longleftrightarrow> getTable (b_table b) cat = Some t \<and> distinct (map cm_name (tm_columns t)) \<and> list_all (row_of b t) rows"

lemma recount_grouped:
  assumes "lawful cat b t rows"
  shows "evalGrouped fmt (recount cat b e) rows = evalGrouped fmt e rows"
proof (induction e)
  case (FunctionCall l c name args dist al)
  obtain args' where r: "recount cat b (FunctionCall l c name args dist al) = FunctionCall l c name args' dist al"
    and a: "args' = map (recount cat b) args \<or>
     name = ''headcount'' \<and> \<not> dist \<and> (\<exists>e m l' c'. args = [e] \<and> \<not> is_wildcard e \<and> args' = [Wildcard l' c' [] []] \<and>
       resolveBaseColumn cat b e = Some m \<and> isGuaranteedNonNull m)"
    by (rule recount_call)
  from a have "aggregate fmt name args' dist rows = aggregate fmt name args dist rows"
  proof
    assume "args' = map (recount cat b) args"
    then show ?thesis using recount_same [of _ cat b] by (intro aggregate_same) (simp add: list_all2_map2 list_all2_same)
  next
    assume "name = ''headcount'' \<and> \<not> dist \<and> (\<exists>e m l' c'. args = [e] \<and> \<not> is_wildcard e \<and> args' = [Wildcard l' c' [] []] \<and>
       resolveBaseColumn cat b e = Some m \<and> isGuaranteedNonNull m)"
    then show ?thesis using count_non_null assms unfolding lawful_def by metis
  qed
  then show ?case unfolding r by simp
qed simp_all

lemma recount_item: "project_item fmt row rows (recount cat b e) = project_item fmt row rows e"
proof (cases e)
  case (FunctionCall l c name args dist al)
  obtain args' where "recount cat b (FunctionCall l c name args dist al) = FunctionCall l c name args' dist al"
    by (rule recount_call)
  then show ?thesis by (simp only: FunctionCall project_item_def ast.case eval.simps)
qed (use recount_same [of e cat b] in \<open>simp_all add: project_item_def same_value_def\<close>)

lemma recount_project: "project fmt (map (recount cat b) cols) row rows = project fmt cols row rows"
  by (simp add: project_def map_r_map recount_item)

lemma recount_projectGrouped:
  assumes "lawful cat b t rows"
  shows "projectGrouped fmt (map (recount cat b) cols) rows = projectGrouped fmt cols rows"
  using recount_same [of _ cat b] recount_grouped [OF assms] by (simp add: projectGrouped_def map_r_map same_value_def cong: if_cong)

lemma recount_names: "outputNames cat' tables (map (recount cat b) cols) sample = outputNames cat' tables cols sample"
proof -
  have names: "(case recount cat b e of Wildcard l c table al \<Rightarrow> f table | _ \<Rightarrow> [expressionAlias (recount cat b e) n]) =
      (case e of Wildcard l c table al \<Rightarrow> f table | _ \<Rightarrow> [expressionAlias e n])" for e n f
  proof (cases e)
    case (FunctionCall l c name args dist al)
    obtain args' where r: "recount cat b (FunctionCall l c name args dist al) = FunctionCall l c name args' dist al"
      by (rule recount_call)
    show ?thesis using recount_alias [of cat b e n] by (simp only: FunctionCall r ast.case)
  qed (use recount_alias [of cat b e n] in simp_all)
  show ?thesis unfolding outputNames_def enumerate_map map_map comp_def case_prod_beta fst_conv snd_conv names by (rule refl)
qed

section \<open>Streams of the rewritten query\<close>

text \<open>Plans that treat the rows of the table alike.\<close>

definition same_plan :: "eval_row list \<Rightarrow> stream_projection \<Rightarrow> stream_projection \<Rightarrow> bool" where
  "same_plan rows p p' \<longleftrightarrow> sp_aggregate p' = sp_aggregate p \<and> sp_kind p' = sp_kind p \<and>
     (\<forall>fmt. \<forall>row\<in>set rows. \<forall>cell. stream_cell_step fmt row p' cell = stream_cell_step fmt row p cell)"

lemma same_plan_refl [simp]: "same_plan rows p p"
  by (simp add: same_plan_def)

lemma recount_stream:
  assumes "lawful cat b t rows"
  shows "rel_option (same_plan rows) (stream_projection_of e) (stream_projection_of (recount cat b e))"
proof (cases e)
  case (FunctionCall l c name args dist al)
  obtain args' where r: "recount cat b (FunctionCall l c name args dist al) = FunctionCall l c name args' dist al"
    and a: "args' = map (recount cat b) args \<or>
     name = ''headcount'' \<and> \<not> dist \<and> (\<exists>e m l' c'. args = [e] \<and> \<not> is_wildcard e \<and> args' = [Wildcard l' c' [] []] \<and>
       resolveBaseColumn cat b e = Some m \<and> isGuaranteedNonNull m)"
    by (rule recount_call)
  from a show ?thesis
  proof
    assume args': "args' = map (recount cat b) args"
    show ?thesis
    proof (cases args)
      case (Cons a as)
      have a: "eval fmt (recount cat b a) row = eval fmt a row" "is_wildcard (recount cat b a) = is_wildcard a" for fmt row
        using recount_same [of a cat b] by (simp_all add: same_value_def)
      show ?thesis unfolding FunctionCall r
        using Cons a args' by (simp add: stream_projection_of_def same_plan_def stream_cell_step_def cong: if_cong)
    next
      case Nil
      show ?thesis unfolding FunctionCall r using Nil args' by (simp add: stream_projection_of_def same_plan_def stream_cell_step_def)
    qed
  next
    assume "name = ''headcount'' \<and> \<not> dist \<and> (\<exists>e m l' c'. args = [e] \<and> \<not> is_wildcard e \<and> args' = [Wildcard l' c' [] []] \<and>
       resolveBaseColumn cat b e = Some m \<and> isGuaranteedNonNull m)"
    then obtain x m l' c' where x: "name = ''headcount''" "\<not> dist" "args = [x]" "\<not> is_wildcard x" "args' = [Wildcard l' c' [] []]"
      "resolveBaseColumn cat b x = Some m" "isGuaranteedNonNull m" by blast
    have "stream_cell_step fmt row \<lparr>sp_aggregate = True, sp_expression = y', sp_kind = SCount, sp_argument = None\<rparr> cell =
        stream_cell_step fmt row \<lparr>sp_aggregate = True, sp_expression = y, sp_kind = SCount, sp_argument = Some x\<rparr> cell"
      if row: "row \<in> set rows" for fmt row cell y y'
    proof -
      obtain v where "eval fmt x row = Inr v" "\<not> isNull v"
        using column_not_null [OF _ _ _ x(6,7), of t row fmt] assms row by (auto simp: lawful_def list_all_iff)
      then show ?thesis by (simp add: stream_cell_step_def stream_add_def)
    qed
    then show ?thesis unfolding FunctionCall r
      using x by (simp add: stream_projection_of_def same_plan_def stream_kind_of_def is_wildcard_def isSimpleAggregateName_def)
  qed
qed (use recount_same [of e cat b] in \<open>simp_all add: stream_projection_of_def same_plan_def stream_cell_step_def same_value_def\<close>)

lemma recount_streams:
  assumes "lawful cat b t rows"
  shows "rel_option (list_all2 (same_plan rows)) (stream_projections cols) (stream_projections (map (recount cat b) cols))"
proof (induction cols)
  case (Cons e cols)
  show ?case using Cons recount_stream [OF assms, of e]
    by (cases "stream_projection_of e"; cases "stream_projection_of (recount cat b e)"; cases "stream_projections cols";
      cases "stream_projections (map (recount cat b) cols)") simp_all
qed simp

text \<open>Plans that treat the rows alike collect the same cells, and give the same values.\<close>

lemma fold_r_same: "(\<And>x acc. x \<in> set xs \<Longrightarrow> f x acc = g x acc) \<Longrightarrow> fold_r f xs acc = fold_r g xs acc"
proof (induction xs arbitrary: acc)
  case (Cons x xs)
  then have "fold_r f xs = fold_r g xs" by (intro ext) simp
  then show ?case using Cons.prems by simp
qed simp

lemma map_r_cells:
  assumes "list_all2 (\<lambda>p p'. \<forall>cell. f p' cell = f p cell) ps ps'"
  shows "map_r (\<lambda>(p, cell). f p cell) (zip ps' cells) = map_r (\<lambda>(p, cell). f p cell) (zip ps cells)"
  using assms
proof (induction ps ps' arbitrary: cells rule: list_all2_induct)
  case (Cons p ps p' ps')
  then show ?case by (cases cells) simp_all
qed simp

lemma same_plan_values:
  assumes "list_all2 (same_plan rows) ps ps'"
  shows "map_r (\<lambda>(p, cell). stream_value p cell) (zip ps' cells) = map_r (\<lambda>(p, cell). stream_value p cell) (zip ps cells)"
  using assms by (intro map_r_cells) (auto simp: same_plan_def stream_value_def elim: list_all2_mono)

lemma same_plan_groups:
  assumes "list_all2 (same_plan rows) ps ps'"
  shows "stream_groups fmt groupBy ps' rows = stream_groups fmt groupBy ps rows"
proof -
  have "stream_row fmt ps' row = stream_row fmt ps row" if "row \<in> set rows" for row
    unfolding stream_row_def
    by (intro ext map_r_cells list_all2_mono [OF assms]) (use that in \<open>simp add: same_plan_def\<close>)
  moreover have "new_cells ps' = new_cells ps"
    using list_all2_lengthD [OF assms] by (simp add: new_cells_def list_eq_iff_nth_eq)
  ultimately show ?thesis unfolding stream_groups_def by (auto intro!: fold_r_same)
qed

lemma same_plan_output:
  assumes "list_all2 (same_plan rows) ps ps'" "q_groupBy q' = q_groupBy q"
  shows "stream_output fmt arrange q' ps' rows = stream_output fmt arrange q ps rows"
  by (simp add: stream_output_def same_plan_groups [OF assms(1)] same_plan_values [OF assms(1)] assms(2))

section \<open>The groups of a query\<close>

lemma group_at_rows:
  "group_at key [] (\<lambda>g. Inr (g @ [row])) gs = Inr gs' \<Longrightarrow>
    mset (concat (map snd gs')) = add_mset row (mset (concat (map snd gs)))"
  by (induction gs arbitrary: gs') (fastforce simp: rbind_eq_Inr_iff split: if_splits)+

text \<open>Every row is in one group.\<close>

lemma collected_rows:
  assumes "collect_groups fmt groupBy rows = Inr gs"
  shows "mset (concat (map snd gs)) = mset rows"
proof -
  have "mset (concat (map snd gs')) = mset rs + mset (concat (map snd gs))"
    if "fold_r (collect_step fmt groupBy) rs gs = Inr gs'" for rs gs gs'
    using that
  proof (induction rs arbitrary: gs)
    case (Cons row rs)
    then obtain gs1 where gs1: "collect_step fmt groupBy row gs = Inr gs1" "fold_r (collect_step fmt groupBy) rs gs1 = Inr gs'"
      by (auto simp: rbind_eq_Inr_iff)
    then have "mset (concat (map snd gs1)) = add_mset row (mset (concat (map snd gs)))"
      by (auto simp: collect_step_def rbind_eq_Inr_iff dest: group_at_rows)
    then show ?case using Cons.IH [OF gs1(2)] by simp
  qed simp
  from this [of rows "if groupBy = [] then [([], [])] else []" gs] show ?thesis
    using assms by (simp add: collect_groups_fold split: if_splits)
qed

lemma visit_groups:
  assumes "mset (arrange (map fst gs)) = mset [0..<length gs]"
  shows "mset (visit arrange gs) = mset (map snd gs)"
proof -
  have "mset (visit arrange gs) = image_mset (\<lambda>i. snd (gs ! i)) (mset (arrange (map fst gs)))"
    unfolding visit_def by (rule mset_map)
  also have "\<dots> = mset (map (\<lambda>i. snd (gs ! i)) [0..<length gs])" unfolding assms by (rule mset_map [symmetric])
  also have "map (\<lambda>i. snd (gs ! i)) [0..<length gs] = map snd gs" by (rule nth_equalityI) simp_all
  finally show ?thesis .
qed

lemma visited_subset:
  assumes "collect_groups fmt groupBy rows = Inr gs" "mset (arrange (map fst gs)) = mset [0..<length gs]" "g \<in> set (visit arrange gs)"
  shows "set g \<subseteq> set rows"
proof -
  have "g \<in> set (map snd gs)" using assms(3) mset_eq_setD [OF visit_groups [where arrange = arrange, OF assms(2)]] by simp
  then have "set g \<subseteq> set (concat (map snd gs))" by auto
  also have "\<dots> = set rows" by (rule mset_eq_setD [OF collected_rows [OF assms(1)]])
  finally show ?thesis .
qed

section \<open>The query with rewritten counts\<close>

definition recounted :: "'a catalog_data_scheme \<Rightarrow> base \<Rightarrow> query \<Rightarrow> query" where
  "recounted cat b q = q\<lparr>q_columns := map (recount cat b) (q_columns q), q_having := map_option (recount cat b) (q_having q)\<rparr>"

lemma recounted_simps [simp]:
  "q_columns (recounted cat b q) = map (recount cat b) (q_columns q)" "q_having (recounted cat b q) = map_option (recount cat b) (q_having q)"
  "q_distinct (recounted cat b q) = q_distinct q" "q_fromTable (recounted cat b q) = q_fromTable q"
  "q_fromAlias (recounted cat b q) = q_fromAlias q" "q_joins (recounted cat b q) = q_joins q" "q_where (recounted cat b q) = q_where q"
  "q_groupBy (recounted cat b q) = q_groupBy q" "q_orderBy (recounted cat b q) = q_orderBy q"
  "q_limit (recounted cat b q) = q_limit q" "q_offset (recounted cat b q) = q_offset q"
  by (simp_all add: recounted_def)

lemma recounted_aggregate: "selectHasAggregate (recounted cat b q) = selectHasAggregate q"
  using recount_same [of _ cat b] by (simp add: selectHasAggregate_def split: option.split)

lemma recounted_plain: "plain_output fmt (recounted cat b q) whole names rows = plain_output fmt q whole names rows"
  by (simp add: plain_output_def recount_project cong: if_cong)

lemma recounted_group:
  assumes "lawful cat b t rows"
  shows "output_group fmt (recounted cat b q) names rows = output_group fmt q names rows"
  by (simp add: output_group_def recount_projectGrouped [OF assms] recount_grouped [OF assms] split: option.split cong: if_cong)

lemma lawful_subset: "lawful cat b t rows \<Longrightarrow> set rows' \<subseteq> set rows \<Longrightarrow> lawful cat b t rows'"
  by (auto simp: lawful_def list_all_iff)

lemma recounted_grouped:
  assumes "lawful cat b t rows" "\<forall>ks. mset (arrange ks) = mset [0..<length ks]"
  shows "grouped_output fmt arrange (recounted cat b q) names rows = grouped_output fmt arrange q names rows"
proof (cases "collect_groups fmt (q_groupBy q) rows")
  case (Inr gs)
  have "output_group fmt (recounted cat b q) names g = output_group fmt q names g" if g: "g \<in> set (visit arrange gs)" for g
  proof -
    have "set g \<subseteq> set rows" by (rule visited_subset [OF Inr _ g]) (use assms(2) in simp)
    from recounted_group [OF lawful_subset [OF assms(1) this]] show ?thesis .
  qed
  then have "map_r (output_group fmt (recounted cat b q) names) (visit arrange gs) = map_r (output_group fmt q names) (visit arrange gs)"
    by (intro map_r_cong refl) simp
  then show ?thesis using Inr by (simp add: grouped_output_def)
qed (simp add: grouped_output_def)

lemma recounted_output:
  assumes "lawful cat b t rows" "\<forall>ks. mset (arrange ks) = mset [0..<length ks]"
  shows "select_output fmt arrange (recounted cat b q) whole names rows = select_output fmt arrange q whole names rows"
proof -
  have "rel_option (list_all2 (same_plan rows)) (stream_plan q) (stream_plan (recounted cat b q))"
    using recount_streams [OF assms(1)] by (simp add: stream_plan_def)
  then show ?thesis unfolding select_output_def
    by (cases rule: option.rel_cases) (simp_all add: recounted_aggregate recounted_plain recounted_grouped [OF assms] same_plan_output)
qed

lemma recount_biggest:
  "biggest_call (map (recount cat b) cols) = map_option (\<lambda>(d, e). (d, recount cat b e)) (biggest_call cols)"
proof -
  have is_biggest: "is_biggest (recount cat b e) = is_biggest e" for e
  proof (cases e)
    case (FunctionCall l c name args dist al)
    obtain args' where r: "recount cat b (FunctionCall l c name args dist al) = FunctionCall l c name args' dist al"
      by (rule recount_call)
    show ?thesis by (simp only: FunctionCall r is_biggest_def ast.case)
  qed (simp_all add: is_biggest_def)
  have found: "List.find is_biggest (map (recount cat b) cols) = map_option (recount cat b) (List.find is_biggest cols)"
    by (induction cols) (simp_all add: is_biggest)
  show ?thesis
  proof (cases "List.find is_biggest cols")
    case (Some e)
    then have "is_biggest e" by (auto simp: find_Some_iff)
    then obtain l c name args dist al where e: "e = FunctionCall l c name args dist al" "name \<noteq> ''headcount''"
      by (auto simp: is_biggest_def split: ast.splits)
    have "recount cat b e = FunctionCall l c name (map (recount cat b) args) dist al"
      unfolding e(1) by (rule recount_call [of cat b l c name args dist al]) (use e(2) in simp)
    then show ?thesis using Some found e(1) by (cases args) (simp_all add: biggest_call_def)
  qed (simp add: biggest_call_def found)
qed

lemma recounted_columns: "select_columns cat' (recounted cat b q) whole rows = select_columns cat' q whole rows"
  unfolding select_columns_def recounted_simps recount_names by (rule refl)

lemma recounted_extreme: "extreme_row fmt descending (recount cat b e) rows = extreme_row fmt descending e rows"
  using recount_same [of e cat b] by (simp add: extreme_row_def same_value_def)

lemma filter_r_subset: "filter_r P xs = Inr ys \<Longrightarrow> set ys \<subseteq> set xs"
  by (auto simp: filter_r_Inr)

lemma extreme_row_cases:
  assumes "extreme_row fmt descending e rows = Inr rows'"
  shows "rows' = rows \<and> length rows < 2 \<or> (\<exists>row\<in>set rows. rows' = [row])"
proof (cases "length rows < 2")
  case False
  then obtain keyed where keyed: "map_r (\<lambda>r. rbind (eval fmt e r) (\<lambda>k. Inr (k, r))) rows = Inr keyed"
    and out: "rows' = [snd (hd (stable_sort_by (\<lambda>a b. if descending then compare_value (fst a) (fst b) > 0
          else compare_value (fst a) (fst b) < 0) keyed))]"
    using assms by (auto simp: extreme_row_def rbind_eq_Inr_iff)
  have "map snd keyed = rows"
    using keyed unfolding map_r_Inr by (induction rule: list_all2_induct) (auto simp: rbind_eq_Inr_iff)
  moreover have "hd (stable_sort_by f keyed) \<in> set keyed" for f
    using False \<open>map snd keyed = rows\<close> mset_eq_setD [OF mset_stable_sort_by [of f keyed]]
    by (cases "stable_sort_by f keyed") auto
  ultimately show ?thesis using out by force
qed (use assms in \<open>simp add: extreme_row_def\<close>)

definition whole_rows :: "fmt \<Rightarrow> query \<Rightarrow> eval_row list \<Rightarrow> eval_row list result" where
  "whole_rows fmt q kept =
     (case biggest_call (q_columns q) of None \<Rightarrow> Inr kept | Some (descending, e) \<Rightarrow> extreme_row fmt descending e kept)"

lemma whole_rows_cases:
  assumes "whole_rows fmt q kept = Inr rows"
  shows "rows = kept \<and> (biggest_call (q_columns q) = None \<or> length rows < 2) \<or> (\<exists>row\<in>set kept. rows = [row])"
  using assms by (auto simp: whole_rows_def split: option.splits dest: extreme_row_cases)

lemma whole_rows_subset: "whole_rows fmt q kept = Inr rows \<Longrightarrow> set rows \<subseteq> set kept"
  using whole_rows_cases by fastforce

definition finish :: "query \<Rightarrow> output_row list \<Rightarrow> tuple list result" where
  "finish q output = page_rows_of q (order_rows (q_orderBy q) (if q_distinct q then drop_duplicates [] output else output))"

text \<open>The steps of a query, by name.\<close>

lemma select_rows_steps:
  "select_rows fmt arrange cat q joined =
     rbind (filter_r (satisfies fmt (q_where q)) joined) (\<lambda>kept. rbind (whole_rows fmt q kept) (\<lambda>rows.
       rbind (select_output fmt arrange q (biggest_call (q_columns q) \<noteq> None)
         (select_columns cat q (biggest_call (q_columns q) \<noteq> None) rows) rows) (\<lambda>output.
         rbind (finish q output) (\<lambda>out.
           Inr (no_rows\<lparr>qr_columns := select_columns cat q (biggest_call (q_columns q) \<noteq> None) rows, qr_rows := out\<rparr>)))))"
  by (simp add: select_rows_def whole_rows_def finish_def Let_def)

lemma select_rows_Inr:
  "select_rows fmt arrange cat q joined = Inr res \<longleftrightarrow>
     (\<exists>kept rows output out. filter_r (satisfies fmt (q_where q)) joined = Inr kept \<and> whole_rows fmt q kept = Inr rows \<and>
       select_output fmt arrange q (biggest_call (q_columns q) \<noteq> None)
         (select_columns cat q (biggest_call (q_columns q) \<noteq> None) rows) rows = Inr output \<and>
       finish q output = Inr out \<and>
       res = no_rows\<lparr>qr_columns := select_columns cat q (biggest_call (q_columns q) \<noteq> None) rows, qr_rows := out\<rparr>)"
  unfolding select_rows_steps by (auto simp: rbind_eq_Inr_iff)

lemma recounted_whole: "whole_rows fmt (recounted cat b q) kept = whole_rows fmt q kept"
  by (simp add: whole_rows_def recount_biggest recounted_extreme split: option.split)

lemma recounted_select:
  assumes "lawful cat b t joined" "\<forall>ks. mset (arrange ks) = mset [0..<length ks]"
    and "select_rows fmt arrange cat' q joined = Inr res"
  shows "select_rows fmt arrange cat' (recounted cat b q) joined = Inr res"
proof -
  obtain kept rows outs out where run: "filter_r (satisfies fmt (q_where q)) joined = Inr kept" "whole_rows fmt q kept = Inr rows"
      "select_output fmt arrange q (biggest_call (q_columns q) \<noteq> None)
         (select_columns cat' q (biggest_call (q_columns q) \<noteq> None) rows) rows = Inr outs"
      "finish q outs = Inr out"
      "res = no_rows\<lparr>qr_columns := select_columns cat' q (biggest_call (q_columns q) \<noteq> None) rows, qr_rows := out\<rparr>"
    using assms(3) unfolding select_rows_Inr by blast
  have "set rows \<subseteq> set joined" using filter_r_subset [OF run(1)] whole_rows_subset [OF run(2)] by blast
  from recounted_output [OF lawful_subset [OF assms(1) this] assms(2)] run show ?thesis
    unfolding select_rows_Inr
    by (intro exI [of _ kept] exI [of _ rows] exI [of _ outs] exI [of _ out])
      (simp add: recounted_whole recounted_columns recount_biggest finish_def page_rows_of_def)
qed

section \<open>A lookup by the primary key\<close>

definition looked_up :: "int \<Rightarrow> int \<Rightarrow> query \<Rightarrow> query" where
  "looked_up l c q = q\<lparr>q_orderBy := [], q_limit := (if q_limit q = None then Some (Literal l c (INT_LIT 1)) else q_limit q)\<rparr>"

lemma looked_up_simps [simp]:
  "q_columns (looked_up l c q) = q_columns q" "q_having (looked_up l c q) = q_having q"
  "q_distinct (looked_up l c q) = q_distinct q" "q_fromTable (looked_up l c q) = q_fromTable q"
  "q_fromAlias (looked_up l c q) = q_fromAlias q" "q_joins (looked_up l c q) = q_joins q" "q_where (looked_up l c q) = q_where q"
  "q_groupBy (looked_up l c q) = q_groupBy q" "q_orderBy (looked_up l c q) = []" "q_offset (looked_up l c q) = q_offset q"
  by (simp_all add: looked_up_def)

lemma kept_rows: "filter_r (satisfies fmt (Some w)) rows = Inr kept \<Longrightarrow> kept = filter (holds fmt w) rows"
  by (auto simp: filter_r_Inr satisfies_bool holds_def intro!: filter_cong)

lemma not_streamed:
  assumes "\<not> hasSetProducingExpression cols" "e \<in> set cols" "hasAggregate e"
  shows "stream_projections cols = None"
proof -
  have "stream_projection_of e = None"
    using assms by (cases e) (auto simp: hasSetProducingExpression_def stream_projection_of_def)
  then show ?thesis using assms(2) by (induction cols) (auto split: option.splits)
qed

lemma one_group: "mset (arrange [[]]) = mset [0..<length [[]]] \<Longrightarrow> visit arrange [([], rows)] = [rows]"
  by (simp add: visit_def)

lemma looked_up_output:
  assumes lookup: "q_groupBy q = []" "q_having q = None" "\<not> hasSetProducingExpression (q_columns q)" and rows: "length rows \<le> 1"
    and arrange: "\<forall>ks. mset (arrange ks) = mset [0..<length ks]"
    and run: "select_output fmt arrange q whole names rows = Inr outs"
  shows "length outs \<le> 1 \<and> (\<exists>outs'. select_output fmt arrange (looked_up l c q) whole names rows = Inr outs' \<and>
    map or_values outs' = map or_values outs)"
proof (cases "selectHasAggregate q")
  case True
  then obtain e where "e \<in> set (q_columns q)" "hasAggregate e" using lookup(2) by (auto simp: selectHasAggregate_def)
  then have plans: "stream_plan q = None" "stream_plan (looked_up l c q) = None"
    using not_streamed [OF lookup(3)] by (simp_all add: stream_plan_def)
  have agg: "selectHasAggregate (looked_up l c q)" using True by (simp add: selectHasAggregate_def)
  have one: "visit arrange [([], rows)] = [rows]" by (rule one_group) (rule arrange [rule_format])
  obtain vs keys where "projectGrouped fmt (q_columns q) rows = Inr vs" "outs = [\<lparr>or_values = vs, or_orderKeys = keys\<rparr>]"
    using run True plans lookup one
    by (auto simp: select_output_def grouped_output_def collect_groups_def output_group_def rbind_eq_Inr_iff)
  then show ?thesis using agg plans lookup one
    by (simp add: select_output_def grouped_output_def collect_groups_def output_group_def orderKeysGrouped_def)
next
  case False
  then have agg: "\<not> selectHasAggregate (looked_up l c q)" by (simp add: selectHasAggregate_def)
  from rows consider "rows = []" | r where "rows = [r]" by (cases rows) auto
  then show ?thesis using run False agg lookup(1)
    by cases (auto simp: select_output_def plain_output_def rbind_eq_Inr_iff orderKeys_def)
qed

lemma few_rows:
  assumes "length outs \<le> 1"
  shows "drop_duplicates [] outs = outs" "order_rows orders outs = outs"
  using assms by (cases outs; simp add: order_rows_def stable_sort_by_def)+

lemma few_rows_finish: "length outs \<le> 1 \<Longrightarrow> finish q outs = page_rows_of q outs"
  by (cases "q_distinct q") (simp_all add: finish_def few_rows)

lemma looked_up_finish:
  assumes "length outs \<le> 1" "map or_values outs' = map or_values outs" "finish q outs = Inr out"
  shows "finish (looked_up l c q) outs' = Inr out"
proof -
  have len: "length outs' = length outs" using assms(2) by (rule map_eq_imp_length_eq)
  have page: "page_rows_of q outs = Inr out" using assms(3) by (simp add: few_rows_finish [OF assms(1)])
  have pages: "map or_values (take m (drop n outs')) = map or_values (take m (drop n outs))" for m n
    using assms(2) by (simp flip: take_map drop_map)
  have one: "take (Suc 0) (drop n outs) = drop n outs" for n using assms(1) by (intro take_all) simp
  have literal: "integerLiteral (Some (Literal l c (INT_LIT 1))) 0 = Inr 1" by (simp add: integerLiteral_def)
  have "page_rows_of (looked_up l c q) outs' = Inr out"
    using page by (cases "q_limit q") (auto simp: page_rows_of_def rbind_eq_Inr_iff looked_up_def literal pages one)
  then show ?thesis using len assms(1) by (simp add: few_rows_finish)
qed

lemma looked_up_columns: "select_columns cat' (looked_up l c q) whole rows = select_columns cat' q whole rows"
  unfolding select_columns_def looked_up_simps by (rule refl)

lemma looked_up_select:
  assumes "table_rows cat b t joined" "is_point_lookup cat b (q_columns q) (q_where q) (q_groupBy q) (q_having q)"
    and "\<forall>ks. mset (arrange ks) = mset [0..<length ks]" "select_rows fmt arrange cat' q joined = Inr res"
  shows "select_rows fmt arrange cat' (looked_up l c q) joined = Inr res"
proof -
  obtain w where lookup: "q_where q = Some w" "wherePinsPrimaryKey cat b w" "q_groupBy q = []" "q_having q = None"
    "\<not> hasSetProducingExpression (q_columns q)"
    using assms(2) by (auto simp: is_point_lookup_def split: option.splits)
  obtain kept rows outs out where run: "filter_r (satisfies fmt (q_where q)) joined = Inr kept" "whole_rows fmt q kept = Inr rows"
      "select_output fmt arrange q (biggest_call (q_columns q) \<noteq> None)
         (select_columns cat' q (biggest_call (q_columns q) \<noteq> None) rows) rows = Inr outs"
      "finish q outs = Inr out"
      "res = no_rows\<lparr>qr_columns := select_columns cat' q (biggest_call (q_columns q) \<noteq> None) rows, qr_rows := out\<rparr>"
    using assms(4) unfolding select_rows_Inr by blast
  have "length kept \<le> 1"
    using kept_rows [OF run(1) [unfolded lookup(1)]] point_lookup_single [OF assms(1) lookup(2)] by simp
  then have "length rows \<le> 1" using whole_rows_cases [OF run(2)] by auto
  from looked_up_output [OF lookup(3-5) this assms(3) run(3), of l c]
  obtain outs' where outs: "length outs \<le> 1" "map or_values outs' = map or_values outs"
    "select_output fmt arrange (looked_up l c q) (biggest_call (q_columns q) \<noteq> None)
       (select_columns cat' q (biggest_call (q_columns q) \<noteq> None) rows) rows = Inr outs'" by blast
  then show ?thesis using run looked_up_finish [OF outs(1,2) run(4), of l c] unfolding select_rows_Inr
    by (intro exI [of _ kept] exI [of _ rows] exI [of _ outs'] exI [of _ out])
      (simp add: whole_rows_def looked_up_columns)
qed

section \<open>A projection with the primary key has no duplicates\<close>

lemma drop_no_duplicates:
  assumes "sorted_wrt (\<lambda>a b. \<not> alike a b) outs"
  shows "drop_duplicates [] outs = outs"
proof -
  have "drop_duplicates seen outs = outs" if "\<forall>s\<in>set seen. \<forall>r\<in>set outs. \<not> same_key s (or_values r)" for seen
    using assms that by (induction outs arbitrary: seen) (auto simp: alike_def)
  then show ?thesis by simp
qed

lemma keys_differ_sym: "keys_differ t r r' \<Longrightarrow> keys_differ t r' r"
  using value_eq_sym by (auto simp: keys_differ_def)

text \<open>What holds between any two rows holds between any two rows of a part, in any order.\<close>

lemma sorted_wrt_part:
  assumes "\<And>x y. P x y \<Longrightarrow> P y x" "sorted_wrt P xs" "mset ys \<subseteq># mset xs"
  shows "sorted_wrt P ys"
  using assms(2,3)
proof (induction ys arbitrary: xs)
  case (Cons y ys)
  then have "y \<in> set xs" by (metis insert_subset list.simps(15) set_mset_mset set_mset_mono)
  then obtain as bs where xs: "xs = as @ y # bs" by (auto dest: split_list)
  have part: "mset ys \<subseteq># mset (as @ bs)" using Cons.prems(2) xs by simp
  have "sorted_wrt P (as @ bs)" "\<forall>x\<in>set (as @ bs). P y x"
    using Cons.prems(1) xs assms(1) by (auto simp: sorted_wrt_append)
  moreover have "set ys \<subseteq> set (as @ bs)" using set_mset_mono [OF part] by simp
  ultimately show ?case using Cons.IH [OF _ part] by auto
qed simp

lemma heads_part: "\<forall>g\<in>set gs. g \<noteq> [] \<Longrightarrow> mset (map hd gs) \<subseteq># mset (concat gs)"
proof (induction gs)
  case (Cons g gs)
  then have "mset (map hd gs) \<subseteq># mset (concat gs)" by simp
  moreover have "{#hd g#} \<subseteq># mset g" using Cons.prems by (cases g) simp_all
  ultimately have "{#hd g#} + mset (map hd gs) \<subseteq># mset g + mset (concat gs)" by (intro subset_mset.add_mono)
  then show ?case by simp
qed simp

lemma mset_concat_same: "mset gs = mset gs' \<Longrightarrow> mset (concat gs) = mset (concat gs')"
  by (metis mset_concat mset_map sum_mset_sum_list)

lemma key_groups_differ:
  assumes t: "getTable (b_table b) cat = Some t" "distinct (map cm_name (tm_columns t))"
    and groups: "g \<noteq> []" "g' \<noteq> []" "row_of b t (hd g)" "row_of b t (hd g')" "keys_differ t (hd g) (hd g')"
    and key: "projectsPrimaryKey cat b cols" and out: "projectGrouped fmt cols g = Inr x" "projectGrouped fmt cols g' = Inr y"
  shows "\<not> same_key x y"
proof
  assume same: "same_key x y"
  obtain i where i: "i < length cols" "projects_key cat b t (cols ! i)"
    using key t(1) by (auto simp: projectsPrimaryKey_def in_set_conv_nth)
  have item: "(if is_wildcard (cols ! i) then Inl (Runtime_Error ''Wildcard is not supported in aggregate projection'')
      else evalGrouped fmt (cols ! i) g) = Inr (x ! i)"
    "(if is_wildcard (cols ! i) then Inl (Runtime_Error ''Wildcard is not supported in aggregate projection'')
      else evalGrouped fmt (cols ! i) g') = Inr (y ! i)" and len: "length x = length cols"
    using out i(1) by (auto simp: projectGrouped_def map_r_Inr list_all2_conv_all_nth)
  obtain l c table column al m where e: "cols ! i = ColumnRef l c table column al"
    "resolveBaseColumn cat b (cols ! i) = Some m" "cm_primary_key m"
    using i(2) item(1) by (auto simp: projects_key_def is_wildcard_def split: ast.splits option.splits)
  from resolved_column [OF e(2) t groups(3), of fmt] resolved_column [OF e(2) t groups(4), of fmt]
  obtain v v' where v: "m \<in> set (tm_columns t)" "cell t (hd g) (cm_name m) = Some v" "cell t (hd g') (cm_name m) = Some v'"
    "eval fmt (cols ! i) (hd g) = Inr v" "eval fmt (cols ! i) (hd g') = Inr v'" by auto
  have "x ! i = v" "y ! i = v'" using item groups(1,2) v(4,5) e(1) by (auto simp: is_wildcard_def)
  then have "value_eq v v'" using same i(1) len by (auto simp: same_key_def list_all2_conv_all_nth)
  then show False using groups(5) v(1-3) e(3) by (auto simp: keys_differ_def)
qed

lemma single_no_duplicates: "length outs \<le> 1 \<Longrightarrow> sorted_wrt (\<lambda>a b. \<not> alike a b) outs"
  by (cases outs) auto

lemma output_group_cases:
  assumes "output_group fmt q names g = Inr os"
  shows "os = [] \<or> (\<exists>r. os = [r] \<and> projectGrouped fmt (q_columns q) g = Inr (or_values r))"
  using assms by (auto simp: output_group_def rbind_eq_Inr_iff split: if_splits)

lemma projected_groups:
  assumes t: "getTable (b_table b) cat = Some t" "distinct (map cm_name (tm_columns t))" and key: "projectsPrimaryKey cat b (q_columns q)"
    and "sorted_wrt (keys_differ t) (map hd gs)" "list_all (\<lambda>g. row_of b t (hd g)) gs" "\<forall>g\<in>set gs. g \<noteq> []"
    and "map_r (output_group fmt q names) gs = Inr oss"
  shows "sorted_wrt (\<lambda>a b. \<not> alike a b) (concat oss)"
  using assms(4-7)
proof (induction gs arbitrary: oss)
  case (Cons g gs)
  then obtain os rest where os: "output_group fmt q names g = Inr os" and rest: "map_r (output_group fmt q names) gs = Inr rest"
    and oss: "oss = os # rest" by (auto simp: rbind_eq_Inr_iff)
  have later: "sorted_wrt (\<lambda>a b. \<not> alike a b) (concat rest)" using Cons rest by simp
  show ?case
  proof (cases "os = []")
    case False
    then obtain r where r: "os = [r]" "projectGrouped fmt (q_columns q) g = Inr (or_values r)"
      using output_group_cases [OF os] by blast
    have "\<not> alike r r'" if r': "r' \<in> set (concat rest)" for r'
    proof -
      obtain os' where os': "os' \<in> set rest" "r' \<in> set os'" using r' by auto
      then obtain i where "i < length rest" "rest ! i = os'" by (auto simp: in_set_conv_nth)
      then have g': "gs ! i \<in> set gs" "output_group fmt q names (gs ! i) = Inr os'"
        using rest unfolding map_r_Inr by (auto simp: list_all2_conv_all_nth)
      then have "projectGrouped fmt (q_columns q) (gs ! i) = Inr (or_values r')" using output_group_cases [OF g'(2)] os'(2) by auto
      from key_groups_differ [OF t _ _ _ _ _ key r(2) this] g'(1) Cons.prems(1-3) show ?thesis
        by (simp add: alike_def list_all_iff)
    qed
    then show ?thesis using later oss r(1) by simp
  qed (use later oss in simp)
qed simp

lemma grouped_no_duplicates:
  assumes t: "getTable (b_table b) cat = Some t" "distinct (map cm_name (tm_columns t))"
    and rows: "list_all (row_of b t) rows" "sorted_wrt (keys_differ t) rows" and key: "projectsPrimaryKey cat b (q_columns q)"
    and arrange: "\<forall>ks. mset (arrange ks) = mset [0..<length ks]" and run: "grouped_output fmt arrange q names rows = Inr outs"
  shows "sorted_wrt (\<lambda>a b. \<not> alike a b) outs"
proof -
  obtain gs oss where gs: "collect_groups fmt (q_groupBy q) rows = Inr gs"
    and oss: "map_r (output_group fmt q names) (visit arrange gs) = Inr oss" and outs: "outs = concat oss"
    using run by (auto simp: grouped_output_def rbind_eq_Inr_iff)
  have arranged: "mset (visit arrange gs) = mset (map snd gs)" by (rule visit_groups) (use arrange in simp)
  show ?thesis
  proof (cases "q_groupBy q = [] \<or> rows = []")
    case True
    then have "length gs \<le> 1" using gs by (auto simp: collect_groups_def split: if_splits)
    then have "length (visit arrange gs) \<le> 1" using mset_eq_length [OF arranged] by simp
    then obtain g where "visit arrange gs = [] \<or> visit arrange gs = [g]" by (cases "visit arrange gs") auto
    then have "length outs \<le> 1" using oss outs output_group_cases [of fmt q names g outs]
      by (auto simp: rbind_eq_Inr_iff)
    then show ?thesis by (rule single_no_duplicates)
  next
    case False
    have nonempty: "\<forall>g\<in>set (visit arrange gs). g \<noteq> []"
      using collected_nonempty [OF gs] False mset_eq_setD [OF arranged] by auto
    have "mset (concat (visit arrange gs)) = mset rows"
      using mset_concat_same [OF arranged] collected_rows [OF gs] by simp
    then have part: "mset (map hd (visit arrange gs)) \<subseteq># mset rows" using heads_part [OF nonempty] by simp
    have "sorted_wrt (keys_differ t) (map hd (visit arrange gs))"
      by (rule sorted_wrt_part [OF keys_differ_sym rows(2) part])
    moreover have "list_all (\<lambda>g. row_of b t (hd g)) (visit arrange gs)"
      using set_mset_mono [OF part] rows(1) by (auto simp: list_all_iff)
    ultimately show ?thesis using projected_groups [OF t key _ _ nonempty oss] outs by simp
  qed
qed

lemma plain_no_duplicates:
  assumes "table_rows cat b t joined" "projectsPrimaryKey cat b (q_columns q)" "rows = filter P joined"
    and "plain_output fmt q False names rows = Inr outs"
  shows "sorted_wrt (\<lambda>a b. \<not> alike a b) outs"
proof -
  have "map_r (\<lambda>row. project fmt (q_columns q) row (Some rows)) rows = Inr (map or_values outs)"
    using plain_output_rows [OF assms(4)] unfolding map_r_Inr list_all2_map2 by (rule list_all2_mono) simp
  from distinct_projection [OF assms(1,2) this assms(3)] show ?thesis
    by (simp add: no_duplicates_def sorted_wrt_map alike_def same_key_def)
qed

definition undistinct :: "query \<Rightarrow> query" where
  "undistinct q = q\<lparr>q_distinct := False\<rparr>"

lemma undistinct_simps [simp]:
  "q_columns (undistinct q) = q_columns q" "q_having (undistinct q) = q_having q"
  "\<not> q_distinct (undistinct q)" "q_fromTable (undistinct q) = q_fromTable q"
  "q_fromAlias (undistinct q) = q_fromAlias q" "q_joins (undistinct q) = q_joins q" "q_where (undistinct q) = q_where q"
  "q_groupBy (undistinct q) = q_groupBy q" "q_orderBy (undistinct q) = q_orderBy q" "q_limit (undistinct q) = q_limit q"
  "q_offset (undistinct q) = q_offset q"
  by (simp_all add: undistinct_def)

lemma undistinct_output:
  assumes "q_distinct q" "stream_plan (undistinct q) = None \<or> q_groupBy q = [] \<and> \<not> selectHasAggregate q"
  shows "select_output fmt arrange (undistinct q) whole names rows = select_output fmt arrange q whole names rows"
proof -
  have "selectHasAggregate (undistinct q) = selectHasAggregate q" by (simp add: selectHasAggregate_def)
  moreover have "grouped_output fmt arrange (undistinct q) names rows = grouped_output fmt arrange q names rows"
    unfolding grouped_output_def output_group_def [abs_def] undistinct_simps by (rule refl)
  moreover have "plain_output fmt (undistinct q) whole names rows = plain_output fmt q whole names rows"
    unfolding plain_output_def undistinct_simps by (rule refl)
  moreover have "stream_plan q = None" using assms(1) by (simp add: stream_plan_def)
  ultimately show ?thesis using assms(2) by (auto simp: select_output_def)
qed

lemma output_no_duplicates:
  assumes table: "table_rows cat b t joined" and key: "projectsPrimaryKey cat b (q_columns q)" and distinct: "q_distinct q"
    and arrange: "\<forall>ks. mset (arrange ks) = mset [0..<length ks]"
    and run: "filter_r (satisfies fmt (q_where q)) joined = Inr kept" "whole_rows fmt q kept = Inr rows"
      "select_output fmt arrange q (biggest_call (q_columns q) \<noteq> None) names rows = Inr outs"
  shows "sorted_wrt (\<lambda>a b. \<not> alike a b) outs"
proof (cases "q_groupBy q \<noteq> [] \<or> selectHasAggregate q")
  case True
  have kept: "kept = filter (\<lambda>r. satisfies fmt (q_where q) r = Inr True) joined"
    using run(1) by (auto simp: filter_r_Inr intro!: filter_cong)
  then have "sorted_wrt (keys_differ t) kept" "list_all (row_of b t) kept"
    using table by (auto simp: table_rows_def list_all_iff intro: sorted_wrt_filter)
  then have rows: "list_all (row_of b t) rows" "sorted_wrt (keys_differ t) rows"
    using whole_rows_cases [OF run(2)] by (auto simp: list_all_iff)
  have "stream_plan q = None" using distinct by (simp add: stream_plan_def)
  then have "grouped_output fmt arrange q names rows = Inr outs" using run(3) True by (auto simp: select_output_def)
  then show ?thesis using table by (intro grouped_no_duplicates [OF _ _ rows key arrange]) (simp_all add: table_rows_def)
next
  case False
  then have plain: "plain_output fmt q (biggest_call (q_columns q) \<noteq> None) names rows = Inr outs"
    using run(3) by (simp add: select_output_def)
  have kept: "kept = filter (\<lambda>r. satisfies fmt (q_where q) r = Inr True) joined"
    using run(1) by (auto simp: filter_r_Inr intro!: filter_cong)
  show ?thesis
  proof (cases "biggest_call (q_columns q)")
    case None
    then have "rows = kept" using run(2) by (simp add: whole_rows_def)
    then show ?thesis using plain None kept by (intro plain_no_duplicates [OF table key, of rows]) simp_all
  next
    case (Some x)
    then have "length rows \<le> 1" using whole_rows_cases [OF run(2)] by auto
    moreover have "length outs = length rows" using plain by (auto simp: plain_output_def dest: map_r_length)
    ultimately show ?thesis by (intro single_no_duplicates) simp
  qed
qed

lemma undistinct_columns: "select_columns cat' (undistinct q) whole rows = select_columns cat' q whole rows"
  unfolding select_columns_def undistinct_simps by (rule refl)

lemma undistinct_select:
  assumes table: "table_rows cat b t joined" and key: "projectsPrimaryKey cat b (q_columns q)" and distinct: "q_distinct q"
    and plan: "stream_plan (undistinct q) = None \<or> q_groupBy q = [] \<and> \<not> selectHasAggregate q"
    and arrange: "\<forall>ks. mset (arrange ks) = mset [0..<length ks]"
    and run: "select_rows fmt arrange cat' q joined = Inr res"
  shows "select_rows fmt arrange cat' (undistinct q) joined = Inr res"
proof -
  obtain kept rows outs out where steps: "filter_r (satisfies fmt (q_where q)) joined = Inr kept" "whole_rows fmt q kept = Inr rows"
      "select_output fmt arrange q (biggest_call (q_columns q) \<noteq> None)
         (select_columns cat' q (biggest_call (q_columns q) \<noteq> None) rows) rows = Inr outs"
      "finish q outs = Inr out"
      "res = no_rows\<lparr>qr_columns := select_columns cat' q (biggest_call (q_columns q) \<noteq> None) rows, qr_rows := out\<rparr>"
    using run unfolding select_rows_Inr by blast
  have "drop_duplicates [] outs = outs"
    by (rule drop_no_duplicates [OF output_no_duplicates [OF table key distinct arrange steps(1-3)]])
  then have "finish (undistinct q) outs = Inr out" using steps(4) distinct by (simp add: finish_def page_rows_of_def)
  then show ?thesis using steps unfolding select_rows_Inr
    by (intro exI [of _ kept] exI [of _ rows] exI [of _ outs] exI [of _ out])
      (simp add: whole_rows_def undistinct_columns undistinct_output [OF distinct plan])
qed

section \<open>The rewritten query\<close>

definition lookup_rewrite :: "'a catalog_data_scheme \<Rightarrow> base \<Rightarrow> int \<Rightarrow> int \<Rightarrow> query \<Rightarrow> query" where
  "lookup_rewrite cat b l c q =
     (if is_point_lookup cat b (q_columns q) (q_where q) (q_groupBy q) (q_having q) then looked_up l c q else q)"

definition distinct_rewrite :: "'a catalog_data_scheme \<Rightarrow> base \<Rightarrow> query \<Rightarrow> query" where
  "distinct_rewrite cat b q = (if q_distinct q \<and> projectsPrimaryKey cat b (q_columns q) then undistinct q else q)"

lemma rewritten_query:
  assumes "query_of e = Some q" "applyMetadataOptimizations (Some cat) e = (e', notes)" "query_of e' = Some q'"
    and "q_joins q = []" "hasTable (q_fromTable q) cat" "b = \<lparr>b_table = q_fromTable q, b_alias = q_fromAlias q\<rparr>"
  shows "\<exists>l c. q' = distinct_rewrite cat b (lookup_rewrite cat b l c (recounted cat b q))"
proof -
  obtain l c dist cols fromTable fromAlias joins whr groups having orders lim off where
    e: "e = SelectStmt l c dist cols fromTable fromAlias joins whr groups having orders lim off"
    using assms(1) by (auto simp: query_of_def split: ast.splits)
  have q: "q = \<lparr>q_distinct = dist, q_columns = cols, q_fromTable = fromTable, q_fromAlias = fromAlias, q_joins = joins,
      q_where = whr, q_groupBy = groups, q_having = having, q_orderBy = orders, q_limit = lim, q_offset = off\<rparr>"
    using assms(1) e by (simp add: query_of_def)
  let ?cols = "map (recount cat b) cols" and ?having = "map_option (recount cat b) having"
  let ?point = "is_point_lookup cat b ?cols whr groups ?having"
  have "e' = SelectStmt l c (dist \<and> \<not> (dist \<and> projectsPrimaryKey cat b ?cols)) ?cols fromTable fromAlias joins whr groups ?having
      (if ?point then [] else orders) (if ?point \<and> lim = None then Some (Literal l c (INT_LIT 1)) else lim) off"
    using arg_cong [OF assms(2), of fst] assms(4-6)
    by (cases having) (simp_all add: applyMetadataOptimizations_def e q Let_def case_prod_beta comp_def cong: if_cong)
  then have "q' = distinct_rewrite cat b (lookup_rewrite cat b l c (recounted cat b q))"
    using assms(3) [symmetric] by (cases dist; cases ?point; cases "projectsPrimaryKey cat b ?cols")
      (simp_all add: query_of_def q distinct_rewrite_def lookup_rewrite_def recounted_def looked_up_def undistinct_def)
  then show ?thesis by blast
qed

text \<open>
  C36. The rewrites from the catalog do not change an answer: on the rows of a table that keeps its
  constraints, whatever the query answers (columns and rows, in order), the query that
  \<open>applyMetadataOptimizations\<close> makes of it answers too, for every query, every condition and every order
  in which groups are visited. Where \<open>DISTINCT\<close> is removed from a query with groups, the
  rewritten query must not be one that is streamed.
\<close>
theorem metadata_rewrites_sound:
  assumes "query_of e = Some q" "applyMetadataOptimizations (Some cat) e = (e', notes)" "query_of e' = Some q'"
    and "table_rows cat \<lparr>b_table = q_fromTable q, b_alias = q_fromAlias q\<rparr> t rows"
    and "\<forall>ks. mset (arrange ks) = mset [0..<length ks]"
    and "q_distinct q' \<or> \<not> q_distinct q \<or> stream_plan q' = None \<or> q_groupBy q = [] \<and> \<not> selectHasAggregate q"
    and "select_rows fmt arrange cat q rows = Inr res"
  shows "select_rows fmt arrange cat q' rows = Inr res"
proof (cases "q_joins q = [] \<and> hasTable (q_fromTable q) cat")
  case False
  then have "e' = e" using assms(1,2) by (auto simp: applyMetadataOptimizations_def query_of_def split: ast.splits)
  then show ?thesis using assms(1,3,7) by simp
next
  case True
  let ?b = "\<lparr>b_table = q_fromTable q, b_alias = q_fromAlias q\<rparr>" and ?q = "recounted cat \<lparr>b_table = q_fromTable q, b_alias = q_fromAlias q\<rparr> q"
  obtain l c where q': "q' = distinct_rewrite cat ?b (lookup_rewrite cat ?b l c ?q)"
    using rewritten_query [OF assms(1-3)] True by blast
  have "lawful cat ?b t rows" using assms(4) by (simp add: lawful_def table_rows_def)
  from recounted_select [OF this assms(5,7)] have "select_rows fmt arrange cat ?q rows = Inr res" .
  note run = this
  have lookup: "select_rows fmt arrange cat (lookup_rewrite cat ?b l c ?q) rows = Inr res"
    using run looked_up_select [OF assms(4) _ assms(5) run, of l c] by (simp add: lookup_rewrite_def)
  have aggregate: "selectHasAggregate (lookup_rewrite cat ?b l c ?q) = selectHasAggregate q"
    using recounted_aggregate [of cat ?b q] by (simp add: lookup_rewrite_def selectHasAggregate_def)
  have "q_groupBy (lookup_rewrite cat ?b l c ?q) = q_groupBy q" "q_distinct (lookup_rewrite cat ?b l c ?q) = q_distinct q"
    by (simp_all add: lookup_rewrite_def)
  then show ?thesis
    using lookup undistinct_select [OF assms(4) _ _ _ assms(5) lookup] assms(6) aggregate
    by (auto simp: q' distinct_rewrite_def)
qed

text \<open>The witness: a row looked up by its key.\<close>

definition demo_lookup :: ast where
  "demo_lookup = SelectStmt 1 1 True [ColumnRef 1 1 [] ''id'' []] ''t'' ''t'' [] (Some demo_where) [] None
     [OrderItem (ColumnRef 1 1 [] ''id'' []) False] None None"

theorem metadata_rewrites_sound_witness:
  "select_rows (\<lambda>d. []) (\<lambda>ks. [0..<length ks]) demo_catalog
     (the (query_of (SelectStmt 1 1 False [ColumnRef 1 1 [] ''id'' []] ''t'' ''t'' [] (Some demo_where) [] None [] (Some (Literal 1 1 (INT_LIT 1))) None)))
     [demo_row ''a'', demo_row ''b''] =
   Inr \<lparr>qr_columns = [''id''], qr_rows = [[VText ''b'']], qr_rowsAffected = 0, qr_message = []\<rparr>"
proof -
  have q: "query_of demo_lookup = Some (the (query_of demo_lookup))" by code_simp
  have e': "applyMetadataOptimizations (Some demo_catalog) demo_lookup =
    (SelectStmt 1 1 False [ColumnRef 1 1 [] ''id'' []] ''t'' ''t'' [] (Some demo_where) [] None [] (Some (Literal 1 1 (INT_LIT 1))) None,
     [distinct_note, order_note, limit_note])" by code_simp
  have run: "select_rows (\<lambda>d. []) (\<lambda>ks. [0..<length ks]) demo_catalog (the (query_of demo_lookup)) [demo_row ''a'', demo_row ''b''] =
    Inr \<lparr>qr_columns = [''id''], qr_rows = [[VText ''b'']], qr_rowsAffected = 0, qr_message = []\<rparr>" by code_simp
  show ?thesis
    by (rule metadata_rewrites_sound [OF q e' _ _ _ _ run, where t = demo_table])
      (use demo_rows in \<open>simp_all add: query_of_def demo_lookup_def stream_plan_def\<close>)
qed

text \<open>
  The proviso is needed: without its redundant \<open>DISTINCT\<close> a query with groups is streamed, and a
  column that is not grouped by shows its first value that is not null instead of the value of the
  first row.
\<close>

definition grouped_row :: "string \<Rightarrow> val \<Rightarrow> eval_row" where
  "grouped_row key v = \<lparr>er_columns = Some (map (\<lambda>n. \<lparr>bc_table = ''t'', bc_alias = ''t'', bc_name = n\<rparr>) [''id'', ''g'', ''x'']),
     er_values = [VText key, VInteger 1, v]\<rparr>"

definition grouped_catalog :: catalog_data where
  "grouped_catalog = demo_catalog\<lparr>cd_tables := [(''t'', demo_table\<lparr>tm_columns := tm_columns demo_table @
     [new_column\<lparr>cm_name := ''g''\<rparr>, new_column\<lparr>cm_name := ''x''\<rparr>]\<rparr>)]\<rparr>"

definition demo_grouped :: ast where
  "demo_grouped = SelectStmt 1 1 True [ColumnRef 1 1 [] ''id'' [], ColumnRef 1 1 [] ''x'' []] ''t'' ''t'' [] None
     [ColumnRef 1 1 [] ''g'' []] None [] None None"

lemma undistinct_streams_differ:
  "map_sum id qr_rows (select_rows (\<lambda>d. []) (\<lambda>ks. [0..<length ks]) grouped_catalog (the (query_of demo_grouped))
     [grouped_row ''a'' VNull, grouped_row ''b'' (VInteger 7)]) = Inr [[VText ''a'', VNull]] \<and>
   map_sum id qr_rows (select_rows (\<lambda>d. []) (\<lambda>ks. [0..<length ks]) grouped_catalog
     (the (query_of (fst (applyMetadataOptimizations (Some grouped_catalog) demo_grouped))))
     [grouped_row ''a'' VNull, grouped_row ''b'' (VInteger 7)]) = Inr [[VText ''a'', VInteger 7]]"
  by code_simp

end
