(* ===== verification/Spec2Isabelle.thy ===== *)
theory Spec2Isabelle
  imports BPlus_Tree Heap_File Wal Lock_Manager Frontend Raw_Rows Std_Arith Catalog_Roundtrip Query_Compiler Join_Order Metadata_Rewrites
begin

text \<open>
  A verification of SkibidiQL, a small SQL engine written in C++ (\<open>src/src\<close> of the repository).

  The program. A query text goes through the lexer (\<open>lexer.cpp\<close>), the parser (\<open>parser.cpp\<close>,
  trees in \<open>ast.h\<close>), the optimizer and either the SQLite code generator or the native engine
  (\<open>native_engine.cpp\<close> and its helpers). The native engine keeps each table in a heap file of
  slotted pages behind a page cache (\<open>native_storage.cpp\<close>), indexes primary keys with a B+ tree
  (\<open>native_index.cpp\<close>), serialises statements with a lock manager (\<open>native_lock.cpp\<close>) and can
  undo a crashed statement with a log of file images (\<open>native_wal.cpp\<close>).

  The theories, bottom up.

  \<^item> \<open>Skibidi_Prelude\<close>: bytes, little-endian integers, lists and maps, the proof hints all
    components share.
  \<^item> \<open>Std_Double\<close>, \<open>Std_Text\<close>: the standard library the sources use: IEEE double comparison and
    conversion on bit patterns, decimal integers, the character classes of the "C" locale.
  \<^item> \<open>Hash_Utils\<close> (\<open>hash_utils.h\<close>): FNV-1a and the finaliser on 64-bit words.
  \<^item> \<open>Values\<close> (\<open>Value\<close> of \<open>native_storage\<close>): the data type, comparison, equality and hash.
  \<^item> \<open>Slotted_Page\<close> (\<open>SlottedPage\<close>): the 4096 bytes of a page and its operations; an abstract
    page is the function from slots to rows.
  \<^item> \<open>Tuple_Codec\<close> (\<open>encodeTuple\<close>, \<open>decodeTuple\<close>, \<open>decodeTupleProjected\<close>): rows as bytes.
  \<^item> \<open>Buffer_Pool\<close> (\<open>BufferPool\<close>, \<open>PageGuard\<close>): the cache over a model of the files. \<open>view\<close> is
    the page a client sees; the properties refine the cache to it.
  \<^item> \<open>Heap_File\<close> (\<open>HeapFile\<close>): tables as heaps of pages behind the cache; the abstraction is a
    finite map from row ids to bytes.
  \<^item> \<open>Wal\<close> (\<open>NativeWal\<close> and the engine steps that drive it): the undo log and recovery.
  \<^item> \<open>BPlus_Tree\<close> (\<open>BPlusTree\<close>): nodes with a leaf chain; the abstraction is the sorted list of
    entries.
  \<^item> \<open>Lock_Manager\<close> (\<open>NativeLockManager\<close>): the plan of \<open>acquireAll\<close> and the interleavings of
    threads that use it, as a step relation.
  \<^item> \<open>Token\<close>, \<open>Lexer\<close>, \<open>Lexer_Spelling\<close> (\<open>lexer.h\<close>, \<open>lexer.cpp\<close>): tokens, the scanner, and the
    spellings that the scanner inverts.
  \<^item> \<open>Ast\<close> (\<open>ast.h\<close>): trees, statements, copies and dumps.
  \<^item> \<open>Parser\<close>, \<open>Parser_Termination\<close> (\<open>parser.h\<close>, \<open>parser.cpp\<close>): the grammar, rule by rule, and
    the proof that it returns. \<open>Parser_Roundtrip\<close>, \<open>Query_Roundtrip\<close> and \<open>Frontend\<close> show that
    queries are read back from their text by the lexer and the parser together.
  \<^item> \<open>Std_Arith\<close>: IEEE double arithmetic on bit patterns (no fused operations).
  \<^item> \<open>Raw_Rows\<close> (\<open>native_raw.h\<close>, \<open>native_raw.cpp\<close>): reading stored rows without building
    tuples, and that it agrees with \<open>Tuple_Codec\<close>.
  \<^item> \<open>Catalog\<close>, \<open>Catalog_Json\<close>, \<open>Catalog_Reader\<close>, \<open>Catalog_Roundtrip\<close> (\<open>metadata.h\<close>,
    \<open>metadata.cpp\<close>): the catalog with its fingerprint, its text format, the reader, which
    returns on every text, and that it reads back what the writer wrote.

  \<^item> \<open>Compilation_Cache\<close> (\<open>cache.h\<close>, \<open>cache.cpp\<close>): the cache of compiled queries, a list in order
    of use and a multimap from hashes into it; it refines an association list with both limits.
  \<^item> \<open>Std_Lists\<close>: lists of steps that may throw, and \<open>std::sort\<close> as any sorting algorithm.
  \<^item> \<open>Engine_Eval\<close> (\<open>native_engine.cpp\<close>): expressions over bound rows, aggregates, windows,
    projection and the coercion of values to column types.
  \<^item> \<open>Optimizer\<close> (\<open>optimizer.cpp\<close>): folding and the rewrites from the catalog; folding keeps
    what \<open>Engine_Eval\<close> computes.
  \<^item> \<open>Codegen\<close> (\<open>codegen.cpp\<close>): the SQL text for SQLite, and that quoted text cannot be left.
  \<^item> \<open>Query_Compiler\<close> (\<open>compiler.cpp\<close>): the driver from text to compiled queries behind the
    cache; what the cache returns is what compiling again would return.
  \<^item> \<open>Engine_Select\<close> (\<open>executeSelect\<close> once the rows are joined): filter, grouping, projection,
    duplicates, order and limit, refined to a specification over lists.
  \<^item> \<open>Metadata_Rewrites\<close>: a query answers as the query that the optimizer makes of it with the
    catalog, on every table that keeps its constraints; proved one rewrite at a time.
  \<^item> \<open>Heap_Tables\<close>: several heap files behind one page cache; an operation on one leaves the
    others alone.
  \<^item> \<open>Engine_Store\<close> (\<open>native_engine.cpp\<close>): the engine over catalog, heap files, indexes and log:
    \<open>CREATE\<close> and \<open>DROP TABLE\<close>, \<open>INSERT\<close>, \<open>UPDATE\<close>, \<open>DELETE\<close>, the constraints, and the undo of a
    failing statement.
  \<^item> \<open>Engine_Db\<close>, \<open>Engine_Insert\<close>, \<open>Engine_Change\<close>, \<open>Engine_Delete\<close>, \<open>Engine_Update\<close>: the
    database as a finite map from row ids to tuples for every table, the invariant that ties
    indexes and constraints to it, and for each of the three statements that it makes the change
    it stands for and no other, or throws and leaves every table, index and file as it was.
  \<^item> \<open>Engine_Joins\<close> (\<open>executeSourceOrderJoins\<close> of \<open>native_joins.cpp\<close>): the Bloom filter, the
    hash join and the nested loop, which give the same rows, and the fold over the joins.
  \<^item> \<open>Join_Plan\<close> (\<open>executeCostBasedJoins\<close>): statistics, the search for the cheapest order over
    sets of relations, and the execution of the order found; it holds every relation once and
    every relation in it is joined to an earlier one by a key.
  \<^item> \<open>Join_Order\<close>: joins as choices of a row from each table, which do not depend on an order; the
    planned joins never throw and give the rows of the joins in the order of the query.

  Interfaces. What one component promises another is a locale, interpreted on the definitions of
  the provider, in its theory: \<open>keyed_order\<close> (comparing values), \<open>slot_store\<close> (pages),
  \<open>ordered_index\<close> (the B+ tree), \<open>strict_weak\<close> (orders that can be sorted by), \<open>memo\<close> (the
  compilation cache).

  Conventions. A thrown exception is a value (\<open>Inl\<close>, or a constructor of the result type) next
  to the state it leaves behind. Machine integers that are stored or can wrap are words or
  carry their bounds; indices and sizes that fit are \<open>nat\<close>. The contents of files are a map
  from paths to bytes; the operating system fails only where the model says so (a path that
  cannot be opened for writing). Writes of pages, log records and restored files that fail
  halfway, and removals that fail, are not modelled.

  Fuel. Loops over a node graph, a chain of leaves or a token list take fuel. The tree
  operations take the number of allocated nodes, which bounds every path and the leaf chain;
  the lexer and the catalog reader take one unit per character and the parser one per token, and
  \<open>tokenize_located\<close>, \<open>load_returns\<close> and \<open>parse_terminates\<close> show that none ever runs out. The
  doubling of the Bloom filter's bits takes 65 steps: a 64-bit size that is doubled that often
  is zero, so the loop of the code has either ended or no longer ends.

  Not modelled. The aggregates over joins without their rows, and the vectorised and direct
  paths that read memory-mapped files (\<open>native_aggregates.cpp\<close>, \<open>native_vectorized.cpp\<close>,
  \<open>native_fast_paths.cpp\<close>, the joins of \<open>native_joins.cpp\<close> over row ids); \<open>MappedHeapFile\<close>, which
  reads the same bytes as the scans that are modelled; the calls into the SQLite library
  (\<open>executor.cpp\<close>); the prompt and context builder with the statements on snapshots and contexts;
  the configuration and the command line. The counters of statistics are left out of
  the engine. Hash values of the standard library, the order in which its hash tables list
  equal keys, the cache of distinct counts and \<open>std::stod\<close> are parameters. Failing
  allocations, signals and concurrent access to one file by several processes are outside the
  model.
\<close>

end
